(* ===== verification/Prelude.thy ===== *)
theory Prelude
  imports Main "HOL-Library.Word" "HOL-Library.Monad_Syntax"
begin

text \<open>
  Shared vocabulary of the development.

  The C sources under src/ are modelled in the option monad: \<open>None\<close> stands for every
  behaviour that the C standard leaves undefined or that never returns (an access outside
  an object, a read of memory that was never written, signed overflow, a loop that does
  not end), so a theorem that an operation yields \<open>Some\<close> is a memory-safety and
  termination statement. Unsigned machine integers are \<open>'w word\<close>; signed integers are
  \<open>int\<close> with the range check written out (\<open>i32\<close>, \<open>i64\<close>), because leaving
  the range is undefined for them.
\<close>

unbundle bit_operations_syntax

type_synonym u8 = "8 word"
type_synonym u32 = "32 word"
type_synonym u64 = "64 word"
type_synonym byte = "8 word"
type_synonym bytes = "8 word list"

named_theorems cmem \<open>reading and writing C objects\<close>
named_theorems crange \<open>range checks of C integers\<close>

subsection \<open>Arrays with bounds\<close>

definition aget :: "'a list \<Rightarrow> nat \<Rightarrow> 'a option" where
  "aget xs i = (if i < length xs then Some (xs ! i) else None)"

definition aset :: "'a list \<Rightarrow> nat \<Rightarrow> 'a \<Rightarrow> 'a list option" where
  "aset xs i v = (if i < length xs then Some (xs[i := v]) else None)"

text \<open>Arrays indexed by a signed C integer: a negative index is out of bounds.\<close>

definition iget :: "'a list \<Rightarrow> int \<Rightarrow> 'a option" where
  "iget xs i = (if 0 \<le> i then aget xs (nat i) else None)"

definition iset :: "'a list \<Rightarrow> int \<Rightarrow> 'a \<Rightarrow> 'a list option" where
  "iset xs i v = (if 0 \<le> i then aset xs (nat i) v else None)"

lemma aget_in [cmem, simp]: "i < length xs \<Longrightarrow> aget xs i = Some (xs ! i)"
  by (simp add: aget_def)

lemma aset_in [cmem, simp]: "i < length xs \<Longrightarrow> aset xs i v = Some (xs[i := v])"
  by (simp add: aset_def)

lemma aget_out [cmem]: "\<not> i < length xs \<Longrightarrow> aget xs i = None"
  by (simp add: aget_def)

lemma aset_out [cmem]: "\<not> i < length xs \<Longrightarrow> aset xs i v = None"
  by (simp add: aset_def)

lemma aget_Some_iff: "aget xs i = Some x \<longleftrightarrow> i < length xs \<and> xs ! i = x"
  by (auto simp: aget_def)

lemma aset_Some_iff: "aset xs i v = Some ys \<longleftrightarrow> i < length xs \<and> ys = xs[i := v]"
  by (auto simp: aset_def)

lemma iget_in [cmem, simp]: "0 \<le> i \<Longrightarrow> i < int (length xs) \<Longrightarrow> iget xs i = Some (xs ! nat i)"
  by (simp add: iget_def nat_less_iff)

lemma iset_in [cmem, simp]:
  "0 \<le> i \<Longrightarrow> i < int (length xs) \<Longrightarrow> iset xs i v = Some (xs[nat i := v])"
  by (simp add: iset_def nat_less_iff)

lemma iget_Some_iff: "iget xs i = Some x \<longleftrightarrow> 0 \<le> i \<and> i < int (length xs) \<and> xs ! nat i = x"
  by (auto simp: iget_def aget_def nat_less_iff)

lemma iset_Some_iff:
  "iset xs i v = Some ys \<longleftrightarrow> 0 \<le> i \<and> i < int (length xs) \<and> ys = xs[nat i := v]"
  by (auto simp: iset_def aset_def nat_less_iff)

subsection \<open>Signed integers\<close>

definition i32 :: "int \<Rightarrow> int option" where
  "i32 x = (if - (2 ^ 31) \<le> x \<and> x < 2 ^ 31 then Some x else None)"

definition i64 :: "int \<Rightarrow> int option" where
  "i64 x = (if - (2 ^ 63) \<le> x \<and> x < 2 ^ 63 then Some x else None)"

lemma i32_in [crange]: "- 2147483648 \<le> x \<Longrightarrow> x < 2147483648 \<Longrightarrow> i32 x = Some x"
  by (simp add: i32_def)

lemma i64_in [crange]:
  "- 9223372036854775808 \<le> x \<Longrightarrow> x < 9223372036854775808 \<Longrightarrow> i64 x = Some x"
  by (simp add: i64_def)

lemma i32_Some_iff: "i32 x = Some y \<longleftrightarrow> y = x \<and> - 2147483648 \<le> x \<and> x < 2147483648"
  by (auto simp: i32_def)

lemma i64_Some_iff:
  "i64 x = Some y \<longleftrightarrow> y = x \<and> - 9223372036854775808 \<le> x \<and> x < 9223372036854775808"
  by (auto simp: i64_def)

text \<open>C division and remainder truncate towards zero.\<close>

definition cdiv :: "int \<Rightarrow> int \<Rightarrow> int" where
  "cdiv a b = sgn a * sgn b * (\<bar>a\<bar> div \<bar>b\<bar>)"

definition cmod :: "int \<Rightarrow> int \<Rightarrow> int" where
  "cmod a b = a - cdiv a b * b"

lemma cdiv_nonneg [simp]: "0 \<le> a \<Longrightarrow> 0 < b \<Longrightarrow> cdiv a b = a div b"
  by (cases "a = 0") (simp_all add: cdiv_def)

lemma cmod_nonneg [simp]: "0 \<le> a \<Longrightarrow> 0 < b \<Longrightarrow> cmod a b = a mod b"
  by (simp add: cmod_def minus_div_mult_eq_mod)

subsection \<open>Unsigned integers\<close>

lemma unat_u8_less: "unat (x :: u8) < 256"
  using unsigned_less [of x, where 'a = nat] by simp

lemma unat_u32_less: "unat (x :: u32) < 4294967296"
  using unsigned_less [of x, where 'a = nat] by simp

lemma unat_u64_less: "unat (x :: u64) < 18446744073709551616"
  using unsigned_less [of x, where 'a = nat] by simp

lemma unat_u8_of_nat: "n < 256 \<Longrightarrow> unat (word_of_nat n :: u8) = n"
  by (subst unat_of_nat) simp

lemma unat_u32_of_nat: "n < 4294967296 \<Longrightarrow> unat (word_of_nat n :: u32) = n"
  by (subst unat_of_nat) simp

lemma unat_u64_of_nat: "n < 18446744073709551616 \<Longrightarrow> unat (word_of_nat n :: u64) = n"
  by (subst unat_of_nat) simp

lemma unat_drop_bit: "unat (drop_bit n w) = unat w div 2 ^ n" for w :: u32
  by (rule bit_eqI) (simp add: bit_unsigned_iff bit_drop_bit_eq drop_bit_eq_div [symmetric])

lemma low_bits: "n < 32 \<Longrightarrow> unat (w AND (push_bit n 1 - 1)) = unat w mod 2 ^ n" for w :: u32
proof -
  assume "n < 32"
  have "push_bit n 1 - 1 = (mask n :: u32)" by (simp add: mask_eq_exp_minus_1 push_bit_eq_mult)
  then have "w AND (push_bit n 1 - 1) = take_bit n w" by (simp add: take_bit_eq_mask)
  then show ?thesis
    using unsigned_take_bit_eq [of n w, where 'a = nat] by (simp only: take_bit_eq_mod [of n "unat w"])
qed

lemma sint_dim: "unat (w :: u32) < 2 ^ 31 \<Longrightarrow> sint w = int (unat w)"
proof -
  assume w: "unat w < 2 ^ 31"
  have u: "uint w = int (unat w)" by simp
  have "sint w = signed_take_bit 31 (int (unat w))" by (simp only: sint_uint u) simp
  also have "\<dots> = int (unat w)"
  proof (rule signed_take_bit_int_eq_self)
    show "- (2 ^ 31) \<le> int (unat w)" by (rule order_trans [of _ 0]) simp_all
    show "int (unat w) < 2 ^ 31" using w by (metis of_nat_less_iff of_nat_numeral of_nat_power)
  qed
  finally show ?thesis .
qed

subsection \<open>Counting the elements of an array\<close>

definition cnt :: "('a \<Rightarrow> bool) \<Rightarrow> 'a list \<Rightarrow> nat" where
  "cnt P xs = length (filter P xs)"

lemma cnt_Nil [simp]: "cnt P [] = 0"
  by (simp add: cnt_def)

lemma cnt_Cons: "cnt P (x # xs) = (if P x then 1 else 0) + cnt P xs"
  by (simp add: cnt_def)

lemma cnt_replicate [simp]: "cnt P (replicate n x) = (if P x then n else 0)"
  by (simp add: cnt_def)

lemma cnt_update:
  "i < length xs \<Longrightarrow>
     cnt P (xs[i := y]) + (if P (xs ! i) then 1 else 0) = cnt P xs + (if P y then 1 else 0)"
proof (induction xs arbitrary: i)
  case Nil
  then show ?case by simp
next
  case (Cons x xs)
  then show ?case
  proof (cases i)
    case 0
    then show ?thesis by (simp add: cnt_Cons)
  next
    case (Suc j)
    with Cons.prems Cons.IH [of j] show ?thesis by (simp add: cnt_Cons)
  qed
qed

lemma cnt_take_Suc:
  "i < length xs \<Longrightarrow> cnt P (take (Suc i) xs) = cnt P (take i xs) + (if P (xs ! i) then 1 else 0)"
  by (simp add: cnt_def take_Suc_conv_app_nth)

lemma cnt_mono: "(\<And>x. P x \<Longrightarrow> Q x) \<Longrightarrow> cnt P xs \<le> cnt Q xs"
  by (induction xs) (auto simp: cnt_Cons)

lemma cnt_le_length: "cnt P xs \<le> length xs"
  by (simp add: cnt_def)

lemma cnt_less_length_ex: "cnt P xs < length xs \<Longrightarrow> \<exists>i < length xs. \<not> P (xs ! i)"
proof (rule ccontr)
  assume less: "cnt P xs < length xs" and "\<not> (\<exists>i < length xs. \<not> P (xs ! i))"
  then have "\<forall>x \<in> set xs. P x" by (auto simp: in_set_conv_nth)
  then have "filter P xs = xs" by simp
  with less show False by (simp add: cnt_def)
qed

subsection \<open>Cyclic probing\<close>

text \<open>The slot a linear probe of a table of size \<open>n\<close> visits after \<open>j\<close> steps from
  slot \<open>h\<close>.\<close>

definition slot_at :: "nat \<Rightarrow> nat \<Rightarrow> nat \<Rightarrow> nat" where
  "slot_at h n j = (h + j) mod n"

lemma slot_at_less [simp]: "0 < n \<Longrightarrow> slot_at h n j < n"
  by (simp add: slot_at_def)

lemma slot_at_0 [simp]: "h < n \<Longrightarrow> slot_at h n 0 = h"
  by (simp add: slot_at_def)

lemma slot_at_Suc [simp]: "Suc (slot_at h n j) mod n = slot_at h n (Suc j)"
  by (simp add: slot_at_def mod_Suc_eq)

lemma slot_at_inj:
  assumes "slot_at h n i = slot_at h n j" and "i < n" and "j < n"
  shows "i = j"
proof -
  have *: "x = y" if "slot_at h n x = slot_at h n y" "x < n" "y < n" "y \<le> x" for x y
  proof -
    have "n dvd (h + x) - (h + y)"
      using that by (subst mod_eq_dvd_iff_nat [symmetric]) (auto simp: slot_at_def)
    then have "n dvd x - y" by simp
    moreover have "x - y < n" using that by simp
    ultimately have "x - y = 0" by (meson dvd_imp_le not_less zero_less_iff_neq_zero)
    with that show ?thesis by simp
  qed
  show ?thesis
    using * [of i j] * [of j i] assms by (cases "j \<le> i") auto
qed

lemma slot_at_surj:
  assumes "i < n"
  obtains j where "j < n" and "slot_at h n j = i"
proof -
  have inj: "inj_on (slot_at h n) {..<n}"
  proof (rule inj_onI)
    fix x y assume "x \<in> {..<n}" and "y \<in> {..<n}" and "slot_at h n x = slot_at h n y"
    then show "x = y" using slot_at_inj [of h n x y] by simp
  qed
  have "slot_at h n ` {..<n} \<subseteq> {..<n}" using assms by auto
  with inj have "slot_at h n ` {..<n} = {..<n}"
    by (simp add: endo_inj_surj)
  with assms have "i \<in> slot_at h n ` {..<n}" by simp
  then obtain j where "j < n" and "slot_at h n j = i" by auto
  then show ?thesis by (rule that)
qed

subsection \<open>The option monad\<close>

lemma bind_Some_iff: "(m \<bind> f) = Some y \<longleftrightarrow> (\<exists>x. m = Some x \<and> f x = Some y)"
  by (cases m) auto

lemma bind_SomeE:
  assumes "(m \<bind> f) = Some y"
  obtains x where "m = Some x" and "f x = Some y"
  using assms by (auto simp: bind_Some_iff)


subsection \<open>Counting loops\<close>

text \<open>\<^verbatim>\<open>for (i = lo; i < hi; i++) body\<close> over the state \<open>s\<close>.\<close>

function for_upto :: "nat \<Rightarrow> nat \<Rightarrow> (nat \<Rightarrow> 's \<Rightarrow> 's option) \<Rightarrow> 's \<Rightarrow> 's option" where
  "for_upto lo hi body s =
     (if lo < hi then do { s' \<leftarrow> body lo s; for_upto (lo + 1) hi body s' } else Some s)"
  by pat_completeness auto
termination
  by (relation "measure (\<lambda>(lo, hi, body, s). hi - lo)") auto

declare for_upto.simps [simp del]

lemma for_upto_done [simp]: "\<not> lo < hi \<Longrightarrow> for_upto lo hi body s = Some s"
  by (subst for_upto.simps) simp

lemma for_upto_step:
  "lo < hi \<Longrightarrow> for_upto lo hi body s = body lo s \<bind> for_upto (Suc lo) hi body"
  by (subst for_upto.simps) simp

text \<open>Total correctness of a loop from an invariant.\<close>

lemma for_upto_inv:
  assumes "P lo s" and "lo \<le> hi"
    and body: "\<And>i s. lo \<le> i \<Longrightarrow> i < hi \<Longrightarrow> P i s \<Longrightarrow> \<exists>s'. body i s = Some s' \<and> P (Suc i) s'"
  shows "\<exists>s'. for_upto lo hi body s = Some s' \<and> P hi s'"
  using assms
proof (induction "hi - lo" arbitrary: lo s)
  case 0
  then show ?case by auto
next
  case (Suc n)
  then have less: "lo < hi" and n: "n = hi - Suc lo" by simp_all
  obtain s' where s': "body lo s = Some s'" "P (Suc lo) s'"
    using Suc.prems less by blast
  have "\<exists>s''. for_upto (Suc lo) hi body s' = Some s'' \<and> P hi s''"
  proof (rule Suc.hyps(1) [OF n s'(2)])
    show "Suc lo \<le> hi" using less by simp
    show "\<And>i s. Suc lo \<le> i \<Longrightarrow> i < hi \<Longrightarrow> P i s \<Longrightarrow> \<exists>s'. body i s = Some s' \<and> P (Suc i) s'"
      using Suc.prems(3) by simp
  qed
  with s' less show ?case by (simp add: for_upto_step)
qed

lemma for_upto_eqI:
  assumes "for_upto lo hi body s = Some t" and "P lo s" and "lo \<le> hi"
    and "\<And>i s. lo \<le> i \<Longrightarrow> i < hi \<Longrightarrow> P i s \<Longrightarrow> \<exists>s'. body i s = Some s' \<and> P (Suc i) s'"
  shows "P hi t"
  using for_upto_inv [of P lo s hi body] assms by auto

text \<open>A loop that returns has run its last turn, in a state that the earlier turns leave.\<close>

lemma for_upto_last:
  assumes "for_upto lo hi body s = Some t" and "lo < hi" and "P s"
    and "\<And>i s s'. P s \<Longrightarrow> body i s = Some s' \<Longrightarrow> P s'"
  shows "\<exists>s'. P s' \<and> body (hi - 1) s' = Some t"
  using assms(1-3)
proof (induction "hi - lo" arbitrary: lo s)
  case (Suc n)
  obtain s1 where s1: "body lo s = Some s1" "for_upto (Suc lo) hi body s1 = Some t"
    using Suc.prems by (auto simp: for_upto_step bind_Some_iff)
  show ?case
  proof (cases "Suc lo < hi")
    case True
    then show ?thesis using Suc.hyps(1) [of "Suc lo" s1] Suc.hyps(2) s1 assms(4) [OF Suc.prems(3) s1(1)] by auto
  next
    case False
    then have "hi - 1 = lo" "t = s1" using Suc.prems s1 by auto
    with s1 Suc.prems(3) show ?thesis by auto
  qed
qed simp

lemma for_upto_keeps:
  assumes "for_upto lo hi body s = Some t" and "P s" and "\<And>i s s'. P s \<Longrightarrow> body i s = Some s' \<Longrightarrow> P s'"
  shows "P t"
  using for_upto_last [of lo hi body s t P] assms by (cases "lo < hi") auto

subsection \<open>Decimal printing\<close>

text \<open>The digits that \<^verbatim>\<open>printf\<close> writes for a natural number, as characters.\<close>

fun dec_digits :: "nat \<Rightarrow> nat list" where
  "dec_digits n = (if n < 10 then [n] else dec_digits (n div 10) @ [n mod 10])"

declare dec_digits.simps [simp del]

definition dec_value :: "nat list \<Rightarrow> nat" where
  "dec_value ds = foldl (\<lambda>a d. a * 10 + d) 0 ds"

lemma dec_value_snoc [simp]: "dec_value (ds @ [d]) = dec_value ds * 10 + d"
  by (simp add: dec_value_def)

lemma dec_value_digits [simp]: "dec_value (dec_digits n) = n"
proof (induction n rule: dec_digits.induct)
  case (1 n)
  show ?case
  proof (cases "n < 10")
    case True
    then show ?thesis by (subst dec_digits.simps) (simp add: dec_value_def)
  next
    case False
    with 1 show ?thesis by (subst dec_digits.simps) simp
  qed
qed

lemma dec_digits_inj: "dec_digits m = dec_digits n \<Longrightarrow> m = n"
  by (metis dec_value_digits)

lemma dec_digits_small: "d \<in> set (dec_digits n) \<Longrightarrow> d < 10"
proof (induction n rule: dec_digits.induct)
  case (1 n)
  then show ?case
    by (cases "n < 10") (auto simp: dec_digits.simps [of n])
qed

lemma length_dec_digits: "n < 10 ^ Suc k \<Longrightarrow> length (dec_digits n) \<le> Suc k"
proof (induction k arbitrary: n)
  case 0
  then show ?case by (simp add: dec_digits.simps [of n])
next
  case (Suc k)
  show ?case
  proof (cases "n < 10")
    case True
    then show ?thesis by (simp add: dec_digits.simps [of n])
  next
    case False
    have "n div 10 < 10 ^ Suc k" using Suc.prems by (simp add: less_mult_imp_div_less)
    then show ?thesis using Suc.IH [of "n div 10"] False by (simp add: dec_digits.simps [of n])
  qed
qed

definition digit_byte :: "nat \<Rightarrow> byte" where
  "digit_byte d = word_of_nat (48 + d)"

definition dec_bytes :: "nat \<Rightarrow> bytes" where
  "dec_bytes n = map digit_byte (dec_digits n)"

lemma unat_digit_byte: "d < 10 \<Longrightarrow> unat (digit_byte d) = 48 + d"
  unfolding digit_byte_def by (subst unat_of_nat) simp

lemma digit_byte_inj: "d < 10 \<Longrightarrow> e < 10 \<Longrightarrow> digit_byte d = digit_byte e \<Longrightarrow> d = e"
  by (metis add_left_imp_eq unat_digit_byte)

lemma dec_bytes_inj: "dec_bytes m = dec_bytes n \<Longrightarrow> m = n"
proof -
  assume eq: "dec_bytes m = dec_bytes n"
  have "inj_on digit_byte (set (dec_digits m) \<union> set (dec_digits n))"
    by (rule inj_onI) (metis UnE digit_byte_inj dec_digits_small)
  with eq have "dec_digits m = dec_digits n"
    unfolding dec_bytes_def by (rule map_inj_on)
  then show ?thesis by (rule dec_digits_inj)
qed

subsection \<open>Partly written arrays\<close>

text \<open>An allocated array whose slots may still be unwritten (\<open>None\<close>) holds the elements
  \<open>xs\<close> in its first slots.\<close>

definition holds :: "'a option list \<Rightarrow> 'a list \<Rightarrow> bool" where
  "holds arr xs \<longleftrightarrow> length xs \<le> length arr \<and> (\<forall>i < length xs. arr ! i = Some (xs ! i))"

lemma holds_Nil [simp]: "holds arr []"
  by (simp add: holds_def)

lemma holds_get: "holds arr xs \<Longrightarrow> i < length xs \<Longrightarrow> aget arr i = Some (Some (xs ! i))"
  by (simp add: holds_def)

lemma holds_push:
  "holds arr xs \<Longrightarrow> length xs < length arr \<Longrightarrow> holds (arr[length xs := Some x]) (xs @ [x])"
  by (auto simp: holds_def nth_append nth_list_update less_Suc_eq)

lemma holds_append: "holds arr xs \<Longrightarrow> holds (arr @ ys) xs"
  by (auto simp: holds_def nth_append)

text \<open>\<^verbatim>\<open>realloc\<close> to \<open>n\<close> slots: the old contents are kept up to the new size and the
  rest is unwritten.\<close>

definition resize :: "nat \<Rightarrow> 'a option list \<Rightarrow> 'a option list" where
  "resize n arr = take n arr @ replicate (n - length arr) None"

lemma length_resize [simp]: "length (resize n arr) = n"
  by (simp add: resize_def)

lemma holds_resize: "holds arr xs \<Longrightarrow> length xs \<le> n \<Longrightarrow> holds (resize n arr) xs"
  by (auto simp: resize_def holds_def nth_append)

subsection \<open>Copying memory\<close>

text \<open>\<^verbatim>\<open>memcpy\<close> reads \<open>n\<close> elements from \<open>xs + i\<close> (\<open>slice\<close>) and writes the
  elements \<open>src\<close> at \<open>dst + j\<close> (\<open>blit\<close>), both inside their objects.\<close>

definition slice :: "'a list \<Rightarrow> nat \<Rightarrow> nat \<Rightarrow> 'a list option" where
  "slice xs i n = (if i + n \<le> length xs then Some (take n (drop i xs)) else None)"

definition blit :: "'a list \<Rightarrow> nat \<Rightarrow> 'a list \<Rightarrow> 'a list option" where
  "blit dst j src = (if j + length src \<le> length dst
     then Some (take j dst @ src @ drop (j + length src) dst) else None)"

fun all_some :: "'a option list \<Rightarrow> 'a list option" where
  "all_some [] = Some []"
| "all_some (None # xs) = None"
| "all_some (Some x # xs) = do { ys \<leftarrow> all_some xs; Some (x # ys) }"

lemma slice_in [simp]: "i + n \<le> length xs \<Longrightarrow> slice xs i n = Some (take n (drop i xs))"
  by (simp add: slice_def)

lemma blit_in [simp]:
  "j + length src \<le> length dst \<Longrightarrow> blit dst j src = Some (take j dst @ src @ drop (j + length src) dst)"
  by (simp add: blit_def)

lemma all_some_map [simp]: "all_some (map Some xs) = Some xs"
  by (induction xs) auto

lemma holds_take: "holds arr xs \<longleftrightarrow> length xs \<le> length arr \<and> take (length xs) arr = map Some xs"
  by (auto simp: holds_def list_eq_iff_nth_eq)

end
