(* ===== verification/Lru_Cache.thy ===== *)
theory Lru_Cache
  imports Prelude
begin

text \<open>
  src/benchmarks/lru_cache.c: a least-recently-used cache made of a doubly linked list of
  heap nodes between two sentinels and a direct-mapped table from keys to nodes.

  The heap is the list of nodes allocated so far; a pointer is \<open>None\<close> (\<^verbatim>\<open>NULL\<close>) or the
  position of a node. \<^verbatim>\<open>malloc\<close> is taken to succeed, as the code does not test its result.
  The table of the cache is uninitialised (\<open>None\<close>) until the loop of \<^verbatim>\<open>cache_create\<close>
  has written it. The specification is the list of key/value pairs in order of last use.
\<close>

subsection \<open>Data and operations\<close>

type_synonym ptr = "nat option"

record node =
  n_key :: int
  n_val :: int
  n_prev :: ptr
  n_next :: ptr

type_synonym node_heap = "node list"

record lru_cache =
  c_capacity :: int
  c_count :: int
  c_head :: ptr
  c_tail :: ptr
  c_map :: "ptr option list"

definition load :: "node_heap \<Rightarrow> ptr \<Rightarrow> node option" where
  "load h p = (case p of None \<Rightarrow> None | Some a \<Rightarrow> aget h a)"

definition modify :: "node_heap \<Rightarrow> ptr \<Rightarrow> (node \<Rightarrow> node) \<Rightarrow> node_heap option" where
  "modify h p f = (case p of None \<Rightarrow> None | Some a \<Rightarrow> do { x \<leftarrow> aget h a; aset h a (f x) })"

definition node_create :: "int \<Rightarrow> int \<Rightarrow> node_heap \<Rightarrow> ptr \<times> node_heap" where
  "node_create key val h =
     (Some (length h), h @ [\<lparr>n_key = key, n_val = val, n_prev = None, n_next = None\<rparr>])"

definition cache_create :: "int \<Rightarrow> node_heap \<Rightarrow> (lru_cache \<times> node_heap) option" where
  "cache_create capacity h =
     (let (hd, h) = node_create 0 0 h;
          (tl, h) = node_create 0 0 h
      in do {
        h \<leftarrow> modify h hd (\<lambda>x. x\<lparr>n_next := tl\<rparr>);
        h \<leftarrow> modify h tl (\<lambda>x. x\<lparr>n_prev := hd\<rparr>);
        m \<leftarrow> for_upto 0 10000 (\<lambda>i m. aset m i (Some None)) (replicate 10000 None);
        Some (\<lparr>c_capacity = capacity, c_count = 0, c_head = hd, c_tail = tl, c_map = m\<rparr>, h)
      })"

definition remove_node :: "ptr \<Rightarrow> node_heap \<Rightarrow> node_heap option" where
  "remove_node node h = do {
     x \<leftarrow> load h node;
     h \<leftarrow> modify h (n_prev x) (\<lambda>y. y\<lparr>n_next := n_next x\<rparr>);
     x \<leftarrow> load h node;
     modify h (n_next x) (\<lambda>y. y\<lparr>n_prev := n_prev x\<rparr>)
   }"

definition add_to_head :: "lru_cache \<Rightarrow> ptr \<Rightarrow> node_heap \<Rightarrow> node_heap option" where
  "add_to_head cache node h = do {
     h \<leftarrow> modify h node (\<lambda>x. x\<lparr>n_prev := c_head cache\<rparr>);
     s \<leftarrow> load h (c_head cache);
     h \<leftarrow> modify h node (\<lambda>x. x\<lparr>n_next := n_next s\<rparr>);
     s \<leftarrow> load h (c_head cache);
     h \<leftarrow> modify h (n_next s) (\<lambda>x. x\<lparr>n_prev := node\<rparr>);
     modify h (c_head cache) (\<lambda>x. x\<lparr>n_next := node\<rparr>)
   }"

definition map_read :: "lru_cache \<Rightarrow> int \<Rightarrow> ptr option" where
  "map_read cache key = do { p \<leftarrow> iget (c_map cache) key; p }"

definition lru_get :: "int \<Rightarrow> lru_cache \<times> node_heap \<Rightarrow> (int \<times> lru_cache \<times> node_heap) option" where
  "lru_get key s = (case s of (cache, h) \<Rightarrow> do {
     node \<leftarrow> map_read cache key;
     if node \<noteq> None then do {
       h \<leftarrow> remove_node node h;
       h \<leftarrow> add_to_head cache node h;
       x \<leftarrow> load h node;
       Some (n_val x, cache, h)
     } else Some (- 1, cache, h)
   })"

definition lru_put :: "int \<Rightarrow> int \<Rightarrow> lru_cache \<times> node_heap \<Rightarrow> (lru_cache \<times> node_heap) option" where
  "lru_put key val s = (case s of (cache, h) \<Rightarrow> do {
     node \<leftarrow> map_read cache key;
     if node \<noteq> None then do {
       h \<leftarrow> modify h node (\<lambda>x. x\<lparr>n_val := val\<rparr>);
       h \<leftarrow> remove_node node h;
       h \<leftarrow> add_to_head cache node h;
       Some (cache, h)
     } else (let (new_node, h) = node_create key val h in do {
       m \<leftarrow> iset (c_map cache) key (Some new_node);
       let cache = cache\<lparr>c_map := m\<rparr>;
       h \<leftarrow> add_to_head cache new_node h;
       count \<leftarrow> i32 (c_count cache + 1);
       let cache = cache\<lparr>c_count := count\<rparr>;
       if c_count cache > c_capacity cache then do {
         t \<leftarrow> load h (c_tail cache);
         let lru = n_prev t;
         h \<leftarrow> remove_node lru h;
         x \<leftarrow> load h lru;
         m \<leftarrow> iset (c_map cache) (n_key x) (Some None);
         Some (cache\<lparr>c_map := m, c_count := c_count cache - 1\<rparr>, h)
       } else Some (cache, h)
     })
   })"

subsection \<open>Specification: pairs in order of last use\<close>

type_synonym uses = "(int \<times> int) list"

definition drop_key :: "int \<Rightarrow> uses \<Rightarrow> uses" where
  "drop_key k l = filter (\<lambda>e. fst e \<noteq> k) l"

definition use_get :: "int \<Rightarrow> uses \<Rightarrow> int \<times> uses" where
  "use_get k l = (case map_of l k of
     None \<Rightarrow> (- 1, l)
   | Some v \<Rightarrow> (v, (k, v) # drop_key k l))"

definition use_put :: "int \<Rightarrow> int \<Rightarrow> int \<Rightarrow> uses \<Rightarrow> uses" where
  "use_put cap k v l =
     (if k \<in> fst ` set l then (k, v) # drop_key k l
      else if int (length l) + 1 > cap then butlast ((k, v) # l) else (k, v) # l)"

subsection \<open>Doubly linked chains\<close>

fun linked :: "(nat \<Rightarrow> ptr) \<Rightarrow> (nat \<Rightarrow> ptr) \<Rightarrow> nat list \<Rightarrow> bool" where
  "linked nx pv (x # y # zs) \<longleftrightarrow> nx x = Some y \<and> pv y = Some x \<and> linked nx pv (y # zs)"
| "linked nx pv _ \<longleftrightarrow> True"

lemma linked_append:
  "linked nx pv (xs @ y # zs) \<longleftrightarrow> linked nx pv (xs @ [y]) \<and> linked nx pv (y # zs)"
  by (induction nx pv xs rule: linked.induct) auto

lemma linked_cong:
  assumes "linked nx pv xs" and "\<And>x. x \<in> set (butlast xs) \<Longrightarrow> nx' x = nx x"
    and "\<And>x. x \<in> set (tl xs) \<Longrightarrow> pv' x = pv x"
  shows "linked nx' pv' xs"
  using assms by (induction nx pv xs rule: linked.induct) (auto split: if_splits)

lemma linked_last_pv: "linked nx pv (xs @ [x, y]) \<Longrightarrow> pv y = Some x"
  by (subst (asm) linked_append [of nx pv xs x "[y]"]) simp

text \<open>Unlinking a node, and linking one behind the first.\<close>

lemma linked_unlink:
  assumes lk: "linked nx pv (xs @ [p, a, n] @ ys)" and d: "distinct (xs @ [p, a, n] @ ys)"
  shows "nx a = Some n" and "pv a = Some p"
    and "linked (nx(p := Some n)) (pv(n := Some p)) (xs @ [p, n] @ ys)"
proof -
  have l1: "linked nx pv (xs @ [p])" and l2: "nx p = Some a" "pv a = Some p" "nx a = Some n"
    "pv n = Some a" "linked nx pv (n # ys)"
    using lk linked_append [of nx pv xs p "a # n # ys"] by auto
  show "nx a = Some n" and "pv a = Some p" using l2 by auto
  have "linked (nx(p := Some n)) (pv(n := Some p)) (xs @ [p])"
    by (rule linked_cong [OF l1]) (use d in \<open>auto dest: list.set_sel(2) [rotated]\<close>)
  moreover have "linked (nx(p := Some n)) (pv(n := Some p)) (n # ys)"
    by (rule linked_cong [OF l2(5)]) (use d in \<open>auto dest: in_set_butlastD split: if_splits\<close>)
  ultimately show "linked (nx(p := Some n)) (pv(n := Some p)) (xs @ [p, n] @ ys)"
    using linked_append [of _ _ xs p "n # ys"] by simp
qed

lemma linked_link:
  assumes lk: "linked nx pv (p # n # ys)" and d: "distinct (p # n # ys)" and a: "a \<notin> set (p # n # ys)"
  shows "nx p = Some n"
    and "linked (nx(a := Some n, p := Some a)) (pv(a := Some p, n := Some a)) (p # a # n # ys)"
proof -
  show "nx p = Some n" using lk by simp
  from lk have "linked nx pv (n # ys)" by simp
  then have "linked (nx(a := Some n, p := Some a)) (pv(a := Some p, n := Some a)) (n # ys)"
    by (rule linked_cong) (use d a in \<open>auto dest: in_set_butlastD split: if_splits\<close>)
  then show "linked (nx(a := Some n, p := Some a)) (pv(a := Some p, n := Some a)) (p # a # n # ys)"
    using d a by auto
qed

subsection \<open>Heap updates\<close>

abbreviation nx_of :: "node_heap \<Rightarrow> nat \<Rightarrow> ptr" where "nx_of h \<equiv> (\<lambda>a. n_next (h ! a))"
abbreviation pv_of :: "node_heap \<Rightarrow> nat \<Rightarrow> ptr" where "pv_of h \<equiv> (\<lambda>a. n_prev (h ! a))"
abbreviation key_of :: "node_heap \<Rightarrow> nat \<Rightarrow> int" where "key_of h \<equiv> (\<lambda>a. n_key (h ! a))"
abbreviation val_of :: "node_heap \<Rightarrow> nat \<Rightarrow> int" where "val_of h \<equiv> (\<lambda>a. n_val (h ! a))"

lemma load_in [simp]: "a < length h \<Longrightarrow> load h (Some a) = Some (h ! a)"
  by (simp add: load_def)

lemma modify_in [simp]: "a < length h \<Longrightarrow> modify h (Some a) f = Some (h[a := f (h ! a)])"
  by (simp add: modify_def)

lemma fields_set_next:
  assumes "a < length h"
  shows "nx_of (h[a := (h ! a)\<lparr>n_next := q\<rparr>]) = (nx_of h)(a := q)"
    and "pv_of (h[a := (h ! a)\<lparr>n_next := q\<rparr>]) = pv_of h"
    and "key_of (h[a := (h ! a)\<lparr>n_next := q\<rparr>]) = key_of h"
    and "val_of (h[a := (h ! a)\<lparr>n_next := q\<rparr>]) = val_of h"
  using assms by (auto simp: fun_eq_iff nth_list_update)

lemma fields_set_prev:
  assumes "a < length h"
  shows "nx_of (h[a := (h ! a)\<lparr>n_prev := q\<rparr>]) = nx_of h"
    and "pv_of (h[a := (h ! a)\<lparr>n_prev := q\<rparr>]) = (pv_of h)(a := q)"
    and "key_of (h[a := (h ! a)\<lparr>n_prev := q\<rparr>]) = key_of h"
    and "val_of (h[a := (h ! a)\<lparr>n_prev := q\<rparr>]) = val_of h"
  using assms by (auto simp: fun_eq_iff nth_list_update)

lemma fields_set_val:
  assumes "a < length h"
  shows "nx_of (h[a := (h ! a)\<lparr>n_val := v\<rparr>]) = nx_of h"
    and "pv_of (h[a := (h ! a)\<lparr>n_val := v\<rparr>]) = pv_of h"
    and "key_of (h[a := (h ! a)\<lparr>n_val := v\<rparr>]) = key_of h"
    and "val_of (h[a := (h ! a)\<lparr>n_val := v\<rparr>]) = (val_of h)(a := v)"
  using assms by (auto simp: fun_eq_iff nth_list_update)

lemma remove_node_ok:
  assumes lk: "linked (nx_of h) (pv_of h) (xs @ [p, a, n] @ ys)"
    and d: "distinct (xs @ [p, a, n] @ ys)" and b: "set (xs @ [p, a, n] @ ys) \<subseteq> {..<length h}"
  shows "\<exists>h'. remove_node (Some a) h = Some h' \<and> length h' = length h \<and>
     key_of h' = key_of h \<and> val_of h' = val_of h \<and>
     linked (nx_of h') (pv_of h') (xs @ [p, n] @ ys)"
proof -
  note u = linked_unlink [OF lk d]
  let ?h1 = "h[p := (h ! p)\<lparr>n_next := Some n\<rparr>]"
  let ?h2 = "?h1[n := (?h1 ! n)\<lparr>n_prev := Some p\<rparr>]"
  have b': "p < length h" "a < length h" "n < length h" using b by auto
  have "?h1 ! a = h ! a" using d by auto
  then have "remove_node (Some a) h = Some ?h2"
    using u(1,2) b' by (simp add: remove_node_def)
  moreover have "linked (nx_of ?h2) (pv_of ?h2) (xs @ [p, n] @ ys)"
    using u(3) fields_set_prev(1,2) [of n ?h1 "Some p"] fields_set_next(1,2) [OF b'(1), of "Some n"] b'
    by simp
  moreover have "key_of ?h2 = key_of h" "val_of ?h2 = val_of h"
    using fields_set_prev(3,4) [of n ?h1 "Some p"] fields_set_next(3,4) [OF b'(1), of "Some n"] b'
    by simp_all
  ultimately show ?thesis by simp
qed

lemma add_to_head_ok:
  assumes lk: "linked (nx_of h) (pv_of h) (p # n # ys)" and d: "distinct (p # n # ys)"
    and a: "a \<notin> set (p # n # ys)" and b: "set (p # n # ys) \<subseteq> {..<length h}" "a < length h"
    and hd: "c_head c = Some p"
  shows "\<exists>h'. add_to_head c (Some a) h = Some h' \<and> length h' = length h \<and>
     key_of h' = key_of h \<and> val_of h' = val_of h \<and>
     linked (nx_of h') (pv_of h') (p # a # n # ys)"
proof -
  note u = linked_link [OF lk d a]
  let ?h1 = "h[a := (h ! a)\<lparr>n_prev := Some p\<rparr>]"
  let ?h2 = "?h1[a := (?h1 ! a)\<lparr>n_next := Some n\<rparr>]"
  let ?h3 = "?h2[n := (?h2 ! n)\<lparr>n_prev := Some a\<rparr>]"
  let ?h4 = "?h3[p := (?h3 ! p)\<lparr>n_next := Some a\<rparr>]"
  have b': "p < length h" "n < length h" using b by auto
  have "?h1 ! p = h ! p" "?h2 ! p = h ! p" using a by auto
  then have eq: "add_to_head c (Some a) h = Some ?h4"
    using u(1) b' b(2) hd by (simp add: add_to_head_def)
  note f1 = fields_set_prev [OF b(2), of "Some p"]
  note f2 = fields_set_next [of a ?h1 "Some n"]
  note f3 = fields_set_prev [of n ?h2 "Some a"]
  note f4 = fields_set_next [of p ?h3 "Some a"]
  have "linked (nx_of ?h4) (pv_of ?h4) (p # a # n # ys)"
    using u(2) f1(1,2) f2(1,2) f3(1,2) f4(1,2) b b' by simp
  moreover have "key_of ?h4 = key_of h" "val_of ?h4 = val_of h"
    using f1(3,4) f2(3,4) f3(3,4) f4(3,4) b b' by simp_all
  ultimately show ?thesis using eq by simp
qed

subsection \<open>The representation of a list of uses\<close>

definition chain_ok :: "lru_cache \<Rightarrow> node_heap \<Rightarrow> nat \<Rightarrow> nat list \<Rightarrow> nat \<Rightarrow> bool" where
  "chain_ok c h p as t \<longleftrightarrow> c_head c = Some p \<and> c_tail c = Some t \<and> distinct (p # as @ [t]) \<and>
     set (p # as @ [t]) \<subseteq> {..<length h} \<and> linked (nx_of h) (pv_of h) (p # as @ [t])"

definition table_ok :: "ptr option list \<Rightarrow> (nat \<Rightarrow> int) \<Rightarrow> nat set \<Rightarrow> bool" where
  "table_ok m kf S \<longleftrightarrow> length m = 10000 \<and> kf ` S \<subseteq> {0..<10000} \<and>
     (\<forall>k. 0 \<le> k \<and> k < 10000 \<longrightarrow> (\<exists>q. m ! nat k = Some q \<and> (\<forall>a. q = Some a \<longleftrightarrow> a \<in> S \<and> kf a = k)))"

definition uses_of :: "node_heap \<Rightarrow> nat list \<Rightarrow> uses" where
  "uses_of h as = map (\<lambda>a. (key_of h a, val_of h a)) as"

definition lru_rep :: "lru_cache \<times> node_heap \<Rightarrow> int \<Rightarrow> uses \<Rightarrow> bool" where
  "lru_rep s cap l \<longleftrightarrow> (\<exists>c h p as t. s = (c, h) \<and> c_capacity c = cap \<and> chain_ok c h p as t \<and>
     table_ok (c_map c) (key_of h) (set as) \<and> c_count c = int (length as) \<and> l = uses_of h as)"

lemma table_ok_slot:
  assumes "table_ok m kf S" and "0 \<le> k" and "k < 10000"
  obtains q where "m ! nat k = Some q" and "\<And>a. q = Some a \<longleftrightarrow> a \<in> S \<and> kf a = k"
proof -
  have "\<exists>q. m ! nat k = Some q \<and> (\<forall>a. q = Some a \<longleftrightarrow> a \<in> S \<and> kf a = k)"
    using assms by (simp add: table_ok_def)
  then show ?thesis using that by (elim exE conjE) (rule that, assumption, erule spec)
qed

lemma table_ok_read:
  assumes t: "table_ok (c_map c) kf S" and k: "0 \<le> k" "k < 10000"
  obtains q where "map_read c k = Some q" and "\<And>a. q = Some a \<longleftrightarrow> a \<in> S \<and> kf a = k"
proof -
  obtain q where q: "c_map c ! nat k = Some q" "\<And>a. q = Some a \<longleftrightarrow> a \<in> S \<and> kf a = k"
    using table_ok_slot [OF t k] by metis
  have "map_read c k = Some q" using t k q(1) by (simp add: table_ok_def map_read_def)
  with q(2) show ?thesis using that by metis
qed

lemma table_ok_inj:
  assumes t: "table_ok m kf S"
  shows "inj_on kf S"
proof (rule inj_onI)
  fix a b assume ab: "a \<in> S" "b \<in> S" "kf a = kf b"
  then have "0 \<le> kf a" "kf a < 10000" using t by (auto simp: table_ok_def)
  then obtain q where q: "\<And>x. q = Some x \<longleftrightarrow> x \<in> S \<and> kf x = kf a"
    using table_ok_slot [OF t, of "kf a"] by metis
  have "q = Some a" "q = Some b" using q [of a] q [of b] ab by simp_all
  then show "a = b" by simp
qed

lemma table_ok_card:
  assumes "table_ok m kf S"
  shows "card S \<le> 10000"
proof -
  have "kf ` S \<subseteq> {0..<10000}" using assms by (simp add: table_ok_def)
  then have "card (kf ` S) \<le> card {0..<10000 :: int}" by (intro card_mono) auto
  with table_ok_inj [OF assms] show ?thesis by (simp add: card_image)
qed

lemma table_ok_cong:
  "table_ok m kf S \<Longrightarrow> (\<And>a. a \<in> S \<Longrightarrow> kf' a = kf a) \<Longrightarrow> table_ok m kf' S"
  unfolding table_ok_def by (auto simp: image_subset_iff) (metis)+

lemma table_ok_insert:
  assumes t: "table_ok m kf S" and k: "0 \<le> k" "k < 10000" and new: "k \<notin> kf ` S" "a \<notin> S"
  shows "table_ok (m[nat k := Some (Some a)]) (kf(a := k)) (insert a S)"
proof -
  have "\<exists>q. m[nat k := Some (Some a)] ! nat j = Some q \<and>
      (\<forall>b. q = Some b \<longleftrightarrow> b \<in> insert a S \<and> (kf(a := k)) b = j)"
    if j: "0 \<le> j" "j < 10000" for j
  proof (cases "j = k")
    case True
    with t k new show ?thesis by (auto simp: table_ok_def)
  next
    case False
    then have "m[nat k := Some (Some a)] ! nat j = m ! nat j" using j k by (simp add: nat_eq_iff)
    with t j False new show ?thesis
      by (fastforce simp: table_ok_def)
  qed
  with t k new show ?thesis by (auto simp: table_ok_def)
qed

lemma table_ok_forget:
  assumes t: "table_ok m kf S" and a: "a \<in> S"
  shows "table_ok (m[nat (kf a) := Some None]) kf (S - {a})"
proof -
  have k: "0 \<le> kf a" "kf a < 10000" using t a by (auto simp: table_ok_def)
  have "\<exists>q. m[nat (kf a) := Some None] ! nat j = Some q \<and>
      (\<forall>b. q = Some b \<longleftrightarrow> b \<in> S - {a} \<and> kf b = j)"
    if j: "0 \<le> j" "j < 10000" for j
  proof (cases "j = kf a")
    case True
    with t k a table_ok_inj [OF t] show ?thesis by (auto simp: table_ok_def inj_on_def)
  next
    case False
    then have "m[nat (kf a) := Some None] ! nat j = m ! nat j" using j k by (simp add: nat_eq_iff)
    with t j False show ?thesis by (fastforce simp: table_ok_def)
  qed
  with t k show ?thesis by (auto simp: table_ok_def)
qed

subsection \<open>Moving nodes in the chain\<close>

lemma chain_remove:
  assumes c: "chain_ok c h p (xs @ a # ys) t"
  shows "\<exists>h'. remove_node (Some a) h = Some h' \<and> length h' = length h \<and>
     key_of h' = key_of h \<and> val_of h' = val_of h \<and> chain_ok c h' p (xs @ ys) t"
proof -
  obtain us q where us: "p # xs = us @ [q]" by (metis list.discI rev_exhaust)
  obtain n vs where vs: "ys @ [t] = n # vs" by (metis append_is_Nil_conv list.distinct(1) neq_Nil_conv)
  have split: "p # (xs @ a # ys) @ [t] = us @ [q, a, n] @ vs"
    using us vs by (metis append.assoc append_Cons append_Nil)
  have split': "p # (xs @ ys) @ [t] = us @ [q, n] @ vs"
    using us vs by (metis append.assoc append_Cons append_Nil)
  have "\<exists>h'. remove_node (Some a) h = Some h' \<and> length h' = length h \<and>
     key_of h' = key_of h \<and> val_of h' = val_of h \<and>
     linked (nx_of h') (pv_of h') (us @ [q, n] @ vs)"
    by (rule remove_node_ok) (use c split in \<open>simp_all only: chain_ok_def\<close>)
  then show ?thesis using c unfolding chain_ok_def split' [symmetric] by auto
qed

lemma chain_add:
  assumes c: "chain_ok c h p as t" and a: "a \<notin> set (p # as @ [t])" "a < length h"
  shows "\<exists>h'. add_to_head c (Some a) h = Some h' \<and> length h' = length h \<and>
     key_of h' = key_of h \<and> val_of h' = val_of h \<and> chain_ok c h' p (a # as) t"
proof -
  obtain n vs where vs: "as @ [t] = n # vs" by (metis append_is_Nil_conv list.distinct(1) neq_Nil_conv)
  have "\<exists>h'. add_to_head c (Some a) h = Some h' \<and> length h' = length h \<and>
     key_of h' = key_of h \<and> val_of h' = val_of h \<and>
     linked (nx_of h') (pv_of h') (p # a # n # vs)"
  proof (rule add_to_head_ok)
    show "linked (nx_of h) (pv_of h) (p # n # vs)" and "distinct (p # n # vs)"
      and "set (p # n # vs) \<subseteq> {..<length h}" and "c_head c = Some p"
      using c by (simp_all only: chain_ok_def vs)
    show "a \<notin> set (p # n # vs)" using a(1) by (simp only: vs not_False_eq_True)
  qed (rule a(2))
  then show ?thesis using c a unfolding chain_ok_def append_Cons vs [symmetric] by auto
qed

lemma chain_touch:
  assumes c: "chain_ok c h p (xs @ a # ys) t"
  shows "\<exists>h1 h2. remove_node (Some a) h = Some h1 \<and> add_to_head c (Some a) h1 = Some h2 \<and>
     length h2 = length h \<and> key_of h2 = key_of h \<and> val_of h2 = val_of h \<and>
     chain_ok c h2 p (a # xs @ ys) t"
proof -
  obtain h1 where h1: "remove_node (Some a) h = Some h1" "length h1 = length h"
    "key_of h1 = key_of h" "val_of h1 = val_of h" "chain_ok c h1 p (xs @ ys) t"
    using chain_remove [OF c] by auto
  have "a \<notin> set (p # (xs @ ys) @ [t])" "a < length h1"
    using c h1(2) by (auto simp: chain_ok_def)
  from chain_add [OF h1(5) this] h1 show ?thesis by auto
qed

lemma uses_map_of:
  assumes "inj_on (key_of h) (set as)" and "distinct as"
  shows "map_of (uses_of h as) k = Some v \<longleftrightarrow> (\<exists>a \<in> set as. key_of h a = k \<and> val_of h a = v)"
proof -
  have "distinct (map fst (uses_of h as))"
    using assms by (simp add: uses_of_def comp_def distinct_map)
  then have "map_of (uses_of h as) k = Some v \<longleftrightarrow> (k, v) \<in> set (uses_of h as)"
    by (simp add: map_of_eq_Some_iff)
  then show ?thesis by (force simp: uses_of_def)
qed

lemma uses_drop_key:
  assumes "inj_on (key_of h) (set (xs @ a # ys))" and "distinct (xs @ a # ys)"
  shows "drop_key (key_of h a) (uses_of h (xs @ a # ys)) = uses_of h (xs @ ys)"
proof -
  have "filter (\<lambda>b. key_of h b \<noteq> key_of h a) xs = xs" "filter (\<lambda>b. key_of h b \<noteq> key_of h a) ys = ys"
    using assms by (auto simp: filter_id_conv inj_on_def)
  then show ?thesis by (simp add: drop_key_def uses_of_def filter_map comp_def)
qed

lemma uses_keys: "fst ` set (uses_of h as) = key_of h ` set as"
  by (force simp: uses_of_def)

subsection \<open>The operations implement the specification\<close>

lemma lru_repI:
  "c_capacity c = cap \<Longrightarrow> chain_ok c h p as t \<Longrightarrow> table_ok (c_map c) (key_of h) (set as) \<Longrightarrow>
     c_count c = int (length as) \<Longrightarrow> l = uses_of h as \<Longrightarrow> lru_rep (c, h) cap l"
  unfolding lru_rep_def by blast

lemma lru_get_ok:
  assumes rep: "lru_rep s cap l" and k: "0 \<le> k" "k < 10000"
  shows "\<exists>s'. lru_get k s = Some (fst (use_get k l), s') \<and> lru_rep s' cap (snd (use_get k l))"
proof -
  obtain c h p as t where s: "s = (c, h)" "c_capacity c = cap" "chain_ok c h p as t"
    "table_ok (c_map c) (key_of h) (set as)" "c_count c = int (length as)" "l = uses_of h as"
    using rep unfolding lru_rep_def by blast
  have d: "distinct as" using s(3) by (simp add: chain_ok_def)
  note inj = table_ok_inj [OF s(4)]
  obtain q where q: "map_read c k = Some q" "\<And>a. q = Some a \<longleftrightarrow> a \<in> set as \<and> key_of h a = k"
    using table_ok_read [OF s(4) k] by blast
  show ?thesis
  proof (cases q)
    case None
    then have "map_of l k = None"
      using q(2) uses_map_of [OF inj d] unfolding s(6) by (metis not_None_eq option.discI)
    then show ?thesis using None q(1) rep s(1) by (simp add: lru_get_def use_get_def)
  next
    case (Some a)
    then have a: "a \<in> set as" "key_of h a = k" using q(2) by auto
    then have v: "map_of l k = Some (val_of h a)" using uses_map_of [OF inj d] s(6) by blast
    obtain xs ys where as: "as = xs @ a # ys" using a(1) by (meson split_list)
    obtain h1 h2 where h: "remove_node (Some a) h = Some h1" "add_to_head c (Some a) h1 = Some h2"
      "length h2 = length h" "key_of h2 = key_of h" "val_of h2 = val_of h"
      "chain_ok c h2 p (a # xs @ ys) t"
      using chain_touch [OF s(3) [unfolded as]] by blast
    have "a < length h2" using s(3) a(1) h(3) by (auto simp: chain_ok_def)
    then have "lru_get k s = Some (val_of h a, c, h2)"
      using q(1) Some s(1) h(1,2) fun_cong [OF h(5), of a] by (simp add: lru_get_def)
    moreover have "uses_of h2 (a # xs @ ys) = (k, val_of h a) # drop_key k l"
      using uses_drop_key [of h xs a ys] inj d a(2) as s(6) fun_cong [OF h(4)] fun_cong [OF h(5)]
      by (simp add: uses_of_def)
    then have "lru_rep (c, h2) cap ((k, val_of h a) # drop_key k l)"
      using s(2,4,5) h(4,6) as by (intro lru_repI [of _ _ _ p "a # xs @ ys" t]) auto
    ultimately show ?thesis using v by (simp add: use_get_def)
  qed
qed

lemma lru_put_hit:
  assumes rep: "lru_rep s cap l" and k: "0 \<le> k" "k < 10000" and hit: "k \<in> fst ` set l"
  shows "\<exists>s'. lru_put k v s = Some s' \<and> lru_rep s' cap ((k, v) # drop_key k l)"
proof -
  obtain c h p as t where s: "s = (c, h)" "c_capacity c = cap" "chain_ok c h p as t"
    "table_ok (c_map c) (key_of h) (set as)" "c_count c = int (length as)" "l = uses_of h as"
    using rep unfolding lru_rep_def by blast
  obtain q where q: "map_read c k = Some q" "\<And>a. q = Some a \<longleftrightarrow> a \<in> set as \<and> key_of h a = k"
    using table_ok_read [OF s(4) k] by blast
  obtain a where a: "a \<in> set as" "key_of h a = k"
    using hit uses_keys [of h as] s(6) by (auto simp: image_iff)
  then have qa: "q = Some a" using q(2) by blast
  obtain xs ys where as: "as = xs @ a # ys" using a(1) by (meson split_list)
  let ?h0 = "h[a := (h ! a)\<lparr>n_val := v\<rparr>]"
  have al: "a < length h" using s(3) a(1) by (auto simp: chain_ok_def)
  note f0 = fields_set_val [OF al, of v]
  have c0: "chain_ok c ?h0 p (xs @ a # ys) t"
    using s(3) f0(1,2) unfolding as chain_ok_def by simp
  obtain h1 h2 where h: "remove_node (Some a) ?h0 = Some h1" "add_to_head c (Some a) h1 = Some h2"
    "length h2 = length ?h0" "key_of h2 = key_of ?h0" "val_of h2 = val_of ?h0"
    "chain_ok c h2 p (a # xs @ ys) t"
    using chain_touch [OF c0] by blast
  have "lru_put k v s = Some (c, h2)"
    using q(1) qa s(1) h(1,2) al by (simp add: lru_put_def)
  moreover have "uses_of h2 (a # xs @ ys) = (k, v) # drop_key k l"
  proof -
    have d: "distinct (xs @ a # ys)" using s(3) unfolding as chain_ok_def by simp
    have "uses_of h2 (xs @ ys) = uses_of h (xs @ ys)"
      using d fun_cong [OF h(4)] fun_cong [OF h(5)] f0(3,4) by (auto simp: uses_of_def fun_eq_iff)
    moreover have "uses_of h (xs @ ys) = drop_key k l"
      using uses_drop_key [of h xs a ys] table_ok_inj [OF s(4)] d a(2) s(6) unfolding as by simp
    moreover have "(key_of h2 a, val_of h2 a) = (k, v)"
      using a(2) fun_cong [OF h(4), of a] fun_cong [OF h(5), of a] f0(3,4) al by simp
    moreover have "uses_of h2 (a # xs @ ys) = (key_of h2 a, val_of h2 a) # uses_of h2 (xs @ ys)"
      by (simp add: uses_of_def)
    ultimately show ?thesis by simp
  qed
  then have "lru_rep (c, h2) cap ((k, v) # drop_key k l)"
    using s(2,4,5) h(4,6) f0(3) as by (intro lru_repI [of _ _ _ p "a # xs @ ys" t]) auto
  ultimately show ?thesis by blast
qed

lemma chain_ok_alloc:
  assumes "chain_ok c h p as t"
  shows "chain_ok c (h @ [x]) p as t"
proof -
  have b: "set (p # as @ [t]) \<subseteq> {..<length h}" and l: "linked (nx_of h) (pv_of h) (p # as @ [t])"
    using assms by (auto simp: chain_ok_def)
  have "linked (nx_of (h @ [x])) (pv_of (h @ [x])) (p # as @ [t])"
    by (rule linked_cong [OF l])
      (use b in \<open>auto simp: nth_append dest!: in_set_butlastD\<close>)
  with assms show ?thesis by (auto simp: chain_ok_def)
qed

lemma chain_ok_cache [simp]:
  "chain_ok (c\<lparr>c_map := m\<rparr>) = chain_ok c" "chain_ok (c\<lparr>c_count := n\<rparr>) = chain_ok c"
  "add_to_head (c\<lparr>c_map := m\<rparr>) = add_to_head c"
  by (auto simp: chain_ok_def add_to_head_def fun_eq_iff)

lemma chain_last:
  assumes "chain_ok c h p (zs @ [b]) t"
  shows "c_tail c = Some t" and "t < length h" and "b < length h" and "pv_of h t = Some b"
  using assms linked_last_pv [of "nx_of h" "pv_of h" "p # zs" b t] by (auto simp: chain_ok_def)

lemma lru_put_new:
  assumes s: "c_capacity c = cap" "chain_ok c h p as t" "table_ok (c_map c) (key_of h) (set as)"
    and k: "0 \<le> k" "k < 10000" and miss: "k \<notin> key_of h ` set as"
  shows "\<exists>h' m. iset (c_map c) k (Some (Some (length h))) = Some m \<and>
     add_to_head c (Some (length h)) (snd (node_create k v h)) = Some h' \<and>
     chain_ok c h' p (length h # as) t \<and> table_ok m (key_of h') (set (length h # as)) \<and>
     uses_of h' (length h # as) = (k, v) # uses_of h as"
proof -
  let ?x = "\<lparr>n_key = k, n_val = v, n_prev = None, n_next = None\<rparr>"
  let ?h = "h @ [?x]" and ?a = "length h"
  have fresh: "?a \<notin> set (p # as @ [t])" using s(2) by (auto simp: chain_ok_def)
  obtain h' where h': "add_to_head c (Some ?a) ?h = Some h'" "length h' = length ?h"
    "key_of h' = key_of ?h" "val_of h' = val_of ?h" "chain_ok c h' p (?a # as) t"
    using chain_add [OF chain_ok_alloc [OF s(2), of ?x] fresh] by auto
  have old: "key_of h' a = key_of h a" "val_of h' a = val_of h a" if "a \<in> set as" for a
    using that s(2) fun_cong [OF h'(3), of a] fun_cong [OF h'(4), of a]
    by (auto simp: chain_ok_def nth_append)
  have new: "key_of h' ?a = k" "val_of h' ?a = v"
    using fun_cong [OF h'(3), of ?a] fun_cong [OF h'(4), of ?a] by simp_all
  have "table_ok ((c_map c)[nat k := Some (Some ?a)]) ((key_of h)(?a := k)) (insert ?a (set as))"
    by (rule table_ok_insert [OF s(3) k miss]) (use fresh in simp)
  then have "table_ok ((c_map c)[nat k := Some (Some ?a)]) (key_of h') (insert ?a (set as))"
    by (rule table_ok_cong) (use old new fresh in auto)
  moreover have "uses_of h' (?a # as) = (k, v) # uses_of h as"
    using old new by (simp add: uses_of_def)
  moreover have "iset (c_map c) k (Some (Some ?a)) = Some ((c_map c)[nat k := Some (Some ?a)])"
    using s(3) k by (simp add: table_ok_def)
  ultimately show ?thesis using h' by (simp add: node_create_def)
qed

lemma lru_put_miss:
  assumes rep: "lru_rep s cap l" and k: "0 \<le> k" "k < 10000" and miss: "k \<notin> fst ` set l"
  shows "\<exists>s'. lru_put k v s = Some s' \<and> lru_rep s' cap
     (if int (length l) + 1 > cap then butlast ((k, v) # l) else (k, v) # l)"
proof -
  obtain c h p as t where s: "s = (c, h)" "c_capacity c = cap" "chain_ok c h p as t"
    "table_ok (c_map c) (key_of h) (set as)" "c_count c = int (length as)" "l = uses_of h as"
    using rep unfolding lru_rep_def by blast
  have d: "distinct as" using s(3) by (simp add: chain_ok_def)
  have miss': "k \<notin> key_of h ` set as" using miss uses_keys s(6) by simp
  obtain q where q: "map_read c k = Some q" "\<And>a. q = Some a \<longleftrightarrow> a \<in> set as \<and> key_of h a = k"
    using table_ok_read [OF s(4) k] by blast
  have "q \<noteq> Some a" for a using miss' q(2) [of a] by blast
  then have qn: "q = None" by blast
  obtain h' m where n: "fst (node_create k v h) = Some (length h)"
    "iset (c_map c) k (Some (Some (length h))) = Some m"
    "add_to_head c (Some (length h)) (snd (node_create k v h)) = Some h'"
    "chain_ok c h' p (length h # as) t" "table_ok m (key_of h') (set (length h # as))"
    "uses_of h' (length h # as) = (k, v) # l"
    using lru_put_new [OF s(2,3,4) k miss', of v] s(6) by (auto simp: node_create_def)
  have "length as \<le> 10000" using table_ok_card [OF s(4)] d by (simp add: distinct_card)
  then have cnt: "i32 (c_count c + 1) = Some (int (length as) + 1)" using s(5) by (simp add: crange)
  let ?c = "c\<lparr>c_map := m, c_count := int (length as) + 1\<rparr>"
  have len: "length l = length as" using s(6) by (simp add: uses_of_def)
  show ?thesis
  proof (cases "int (length l) + 1 > cap")
    case False
    then have "lru_put k v s = Some (?c, h')"
      using q qn n cnt s(1,2) len by (simp add: lru_put_def split_beta)
    moreover have "lru_rep (?c, h') cap ((k, v) # l)"
      using s(2) n(4,5,6) by (intro lru_repI [of _ _ _ p "length h # as" t]) auto
    ultimately show ?thesis using False by auto
  next
    case True
    obtain zs b where zb: "length h # as = zs @ [b]" by (metis list.discI rev_exhaust)
    then have lz: "length zs = length as" by (metis length_Cons length_append_singleton nat.inject)
    note lst = chain_last [OF n(4) [unfolded zb]]
    obtain h'' where h'': "remove_node (Some b) h' = Some h''" "length h'' = length h'"
      "key_of h'' = key_of h'" "val_of h'' = val_of h'" "chain_ok c h'' p zs t"
      using chain_remove [of c h' p zs b "[]" t] n(4) zb by auto
    have db: "b \<notin> set zs" using n(4) unfolding zb chain_ok_def by simp
    have kb: "0 \<le> key_of h' b" "key_of h' b < 10000"
      using n(5) unfolding zb table_ok_def by auto
    have t2: "table_ok (m[nat (key_of h' b) := Some None]) (key_of h') (set zs)"
      using table_ok_forget [OF n(5), of b] zb db by simp
    have "iset m (key_of h' b) (Some None) = Some (m[nat (key_of h' b) := Some None])"
      using kb n(5) by (simp add: table_ok_def)
    then have "lru_put k v s =
        Some (?c\<lparr>c_map := m[nat (key_of h' b) := Some None], c_count := int (length as)\<rparr>, h'')"
      using q qn n cnt s(1,2) len True lst h'' fun_cong [OF h''(3), of b]
      by (simp add: lru_put_def split_beta)
    moreover have "uses_of h'' zs = butlast ((k, v) # l)"
    proof -
      have "uses_of h'' zs = uses_of h' zs"
        unfolding uses_of_def using fun_cong [OF h''(3)] fun_cong [OF h''(4)] by simp
      also have "\<dots> = butlast (uses_of h' (zs @ [b]))" by (simp add: uses_of_def)
      finally show ?thesis using n(6) unfolding zb by simp
    qed
    then have "lru_rep (?c\<lparr>c_map := m[nat (key_of h' b) := Some None], c_count := int (length as)\<rparr>, h'')
        cap (butlast ((k, v) # l))"
      using s(2) h''(3,5) t2 lz by (intro lru_repI [of _ _ _ p zs t]) auto
    ultimately show ?thesis using True by auto
  qed
qed

lemma lru_put_ok:
  assumes "lru_rep s cap l" and "0 \<le> k" "k < 10000"
  shows "\<exists>s'. lru_put k v s = Some s' \<and> lru_rep s' cap (use_put cap k v l)"
  using lru_put_hit [OF assms] lru_put_miss [OF assms] by (simp add: use_put_def)

lemma cache_create_ok: "\<exists>s. cache_create cap h = Some s \<and> lru_rep s cap []"
proof -
  have "\<exists>m. for_upto 0 10000 (\<lambda>i m. aset m i (Some None)) (replicate 10000 None) = Some m \<and>
      length m = 10000 \<and> (\<forall>j < 10000. m ! j = Some (None :: ptr))"
    using for_upto_inv [of "\<lambda>i m. length m = 10000 \<and> (\<forall>j < i. m ! j = Some (None :: ptr))" 0
        "replicate 10000 None" 10000 "\<lambda>i m. aset m i (Some None)"]
    by (auto simp: nth_list_update less_Suc_eq)
  then obtain m where m: "for_upto 0 10000 (\<lambda>i m. aset m i (Some None)) (replicate 10000 None) = Some m"
    "length m = 10000" "\<forall>j < 10000. m ! j = Some (None :: ptr)" by blast
  let ?x = "\<lparr>n_key = 0, n_val = 0, n_prev = None, n_next = Some (Suc (length h))\<rparr>"
  let ?y = "\<lparr>n_key = 0, n_val = 0, n_prev = Some (length h), n_next = None\<rparr>"
  let ?c = "\<lparr>c_capacity = cap, c_count = 0, c_head = Some (length h), c_tail = Some (Suc (length h)),
    c_map = m\<rparr>"
  have "cache_create cap h = Some (?c, h @ [?x, ?y])"
    using m(1) by (simp add: cache_create_def node_create_def nth_append list_update_append)
  moreover have "lru_rep (?c, h @ [?x, ?y]) cap []"
    using m(2,3) by (intro lru_repI [of _ _ _ "length h" "[]" "Suc (length h)"])
      (auto simp: chain_ok_def table_ok_def uses_of_def nth_append)
  ultimately show ?thesis by blast
qed

subsection \<open>The cache interface\<close>

datatype lru_op = Put int int | Get int

fun op_key :: "lru_op \<Rightarrow> int" where
  "op_key (Put k v) = k"
| "op_key (Get k) = k"

text \<open>A sequence of calls and the values that its \<^verbatim>\<open>get\<close> calls return, on an
  implementation and on the specification.\<close>

fun run_lru :: "(int \<Rightarrow> 's \<Rightarrow> (int \<times> 's) option) \<Rightarrow> (int \<Rightarrow> int \<Rightarrow> 's \<Rightarrow> 's option) \<Rightarrow>
    lru_op list \<Rightarrow> 's \<Rightarrow> int list option" where
  "run_lru get put [] s = Some []"
| "run_lru get put (Put k v # ops) s = do { s \<leftarrow> put k v s; run_lru get put ops s }"
| "run_lru get put (Get k # ops) s =
     do { (v, s) \<leftarrow> get k s; vs \<leftarrow> run_lru get put ops s; Some (v # vs) }"

fun spec_lru :: "int \<Rightarrow> lru_op list \<Rightarrow> uses \<Rightarrow> int list" where
  "spec_lru cap [] l = []"
| "spec_lru cap (Put k v # ops) l = spec_lru cap ops (use_put cap k v l)"
| "spec_lru cap (Get k # ops) l = fst (use_get k l) # spec_lru cap ops (snd (use_get k l))"

locale lru_impl =
  fixes rep :: "'s \<Rightarrow> int \<Rightarrow> uses \<Rightarrow> bool"
    and ok :: "int \<Rightarrow> bool"
    and get :: "int \<Rightarrow> 's \<Rightarrow> (int \<times> 's) option"
    and put :: "int \<Rightarrow> int \<Rightarrow> 's \<Rightarrow> 's option"
  assumes get_rep: "rep s cap l \<Longrightarrow> ok k \<Longrightarrow>
      \<exists>s'. get k s = Some (fst (use_get k l), s') \<and> rep s' cap (snd (use_get k l))"
    and put_rep: "rep s cap l \<Longrightarrow> ok k \<Longrightarrow>
      \<exists>s'. put k v s = Some s' \<and> rep s' cap (use_put cap k v l)"
begin

lemma run_spec:
  "rep s cap l \<Longrightarrow> \<forall>x \<in> set ops. ok (op_key x) \<Longrightarrow> run_lru get put ops s = Some (spec_lru cap ops l)"
proof (induction ops arbitrary: s l)
  case (Cons x ops)
  show ?case
  proof (cases x)
    case (Put k v)
    then obtain s' where "put k v s = Some s'" "rep s' cap (use_put cap k v l)"
      using put_rep [OF Cons.prems(1), of k v] Cons.prems(2) by auto
    with Put Cons show ?thesis by simp
  next
    case (Get k)
    then obtain s' where "get k s = Some (fst (use_get k l), s')" "rep s' cap (snd (use_get k l))"
      using get_rep [OF Cons.prems(1), of k] Cons.prems(2) by auto
    with Get Cons show ?thesis by simp
  qed
qed simp

end

interpretation lru: lru_impl lru_rep "\<lambda>k. 0 \<le> k \<and> k < 10000" lru_get lru_put
  by unfold_locales (blast intro: lru_get_ok lru_put_ok)+



end
