(* ===== verification/Swiss_Table.thy ===== *)
theory Swiss_Table
  imports Prelude
begin

text \<open>
  The open-addressing hash table shared by src/benchmarks/hashmap_bench.c and
  src/benchmarks/string_hashmap_bench.c. The two files are the same program up to the hash
  function and to how a key is copied into its slot; the operations here take both as
  arguments (\<open>hash\<close> and \<open>store\<close>), and the theories of the two files instantiate
  them. Slots that malloc returned and nothing has written are \<open>None\<close>, so a read of an
  uninitialised entry is an undefined behaviour of the model. malloc is taken to succeed;
  capacities are then far below the 64-bit range, so they are natural numbers.
\<close>

subsection \<open>Data\<close>

abbreviation (input) INITIAL_CAP :: nat where "INITIAL_CAP \<equiv> 8"
abbreviation (input) LOAD_FACTOR_NUM :: nat where "LOAD_FACTOR_NUM \<equiv> 7"
abbreviation (input) LOAD_FACTOR_DEN :: nat where "LOAD_FACTOR_DEN \<equiv> 8"

definition CTRL_EMPTY :: int where "CTRL_EMPTY = - 128"
definition CTRL_DELETED :: int where "CTRL_DELETED = - 2"

type_synonym 'k entry = "'k \<times> int"

record 'k hashmap =
  ctrl :: "int list"
  entries :: "'k entry option list"
  len :: int
  cap :: nat
  growth_left :: int

definition tag_of :: "u64 \<Rightarrow> int" where
  "tag_of hash = uint (hash AND 0x7F)"

definition home_of :: "u64 \<Rightarrow> nat \<Rightarrow> nat" where
  "home_of hash n = unat (drop_bit 7 hash) mod n"

subsection \<open>Operations\<close>

text \<open>The loop \<^verbatim>\<open>while (cap < min_cap) cap *= 2\<close>.\<close>

function round_cap :: "nat \<Rightarrow> int \<Rightarrow> nat" where
  "round_cap c min_cap = (if int c < min_cap \<and> 0 < c then round_cap (c * 2) min_cap else c)"
  by pat_completeness auto
termination
  by (relation "measure (\<lambda>(c, m). nat m - c)") auto

declare round_cap.simps [simp del]

definition sw_new :: "int \<Rightarrow> 'k hashmap" where
  "sw_new min_cap =
     (if min_cap \<le> 0
      then \<lparr>ctrl = [], entries = [], len = 0, cap = 0, growth_left = 0\<rparr>
      else let c = round_cap INITIAL_CAP min_cap in
        \<lparr>ctrl = replicate c CTRL_EMPTY, entries = replicate c None, len = 0, cap = c,
         growth_left = int ((c * LOAD_FACTOR_NUM) div LOAD_FACTOR_DEN)\<rparr>)"

text \<open>The test \<^verbatim>\<open>map->entries[idx].key == key\<close>, defined only for a written entry.\<close>

definition key_eq :: "'k hashmap \<Rightarrow> nat \<Rightarrow> 'k \<Rightarrow> bool option" where
  "key_eq m idx key = do { slot \<leftarrow> aget (entries m) idx; e \<leftarrow> slot; Some (fst e = key) }"

definition val_at :: "'k hashmap \<Rightarrow> nat \<Rightarrow> int option" where
  "val_at m idx = do { slot \<leftarrow> aget (entries m) idx; e \<leftarrow> slot; Some (snd e) }"

function get_loop :: "'k hashmap \<Rightarrow> 'k \<Rightarrow> int \<Rightarrow> nat \<Rightarrow> nat \<Rightarrow> int option" where
  "get_loop m key tag idx probes =
     (if probes < cap m then do {
        c \<leftarrow> aget (ctrl m) idx;
        hit \<leftarrow> (if c = tag then key_eq m idx key else Some False);
        (if hit then val_at m idx
         else if c = CTRL_EMPTY then Some 0
         else get_loop m key tag ((idx + 1) mod cap m) (probes + 1)) }
      else Some 0)"
  by pat_completeness auto
termination
  by (relation "measure (\<lambda>(m, key, tag, idx, probes). cap m - probes)") auto

declare get_loop.simps [simp del]

definition sw_get :: "('k \<Rightarrow> u64) \<Rightarrow> 'k hashmap \<Rightarrow> 'k \<Rightarrow> int option" where
  "sw_get hash m key =
     (if cap m = 0 then Some 0
      else get_loop m key (tag_of (hash key)) (home_of (hash key) (cap m)) 0)"

text \<open>\<^verbatim>\<open>while (new_ctrl[new_idx] != CTRL_EMPTY) new_idx = (new_idx + 1) % new_cap\<close>:
  the first argument bounds the number of slots looked at. A loop that has looked at every
  slot without finding an empty one never ends, so running out of it is \<open>None\<close>.\<close>

fun find_empty :: "nat \<Rightarrow> int list \<Rightarrow> nat \<Rightarrow> nat \<Rightarrow> nat option" where
  "find_empty 0 new_ctrl new_cap idx = None"
| "find_empty (Suc n) new_ctrl new_cap idx = do {
     c \<leftarrow> aget new_ctrl idx;
     (if c = CTRL_EMPTY then Some idx
      else find_empty n new_ctrl new_cap ((idx + 1) mod new_cap)) }"

function rehash_loop :: "('k \<Rightarrow> u64) \<Rightarrow> 'k hashmap \<Rightarrow> nat \<Rightarrow> nat \<Rightarrow> int list \<Rightarrow>
    'k entry option list \<Rightarrow> (int list \<times> 'k entry option list) option" where
  "rehash_loop hash m new_cap i new_ctrl new_entries =
     (if i < cap m then do {
        c \<leftarrow> aget (ctrl m) i;
        (new_ctrl', new_entries') \<leftarrow>
          (if 0 \<le> c then do {
             slot \<leftarrow> aget (entries m) i;
             e \<leftarrow> slot;
             idx \<leftarrow> find_empty new_cap new_ctrl new_cap (home_of (hash (fst e)) new_cap);
             nc \<leftarrow> aset new_ctrl idx (tag_of (hash (fst e)));
             ne \<leftarrow> aset new_entries idx (Some e);
             Some (nc, ne) }
           else Some (new_ctrl, new_entries));
        rehash_loop hash m new_cap (i + 1) new_ctrl' new_entries' }
      else Some (new_ctrl, new_entries))"
  by pat_completeness auto
termination
  by (relation "measure (\<lambda>(hash, m, n, i, nc, ne). cap m - i)") auto

declare rehash_loop.simps [simp del]

definition sw_grow :: "('k \<Rightarrow> u64) \<Rightarrow> 'k hashmap \<Rightarrow> 'k hashmap option" where
  "sw_grow hash m = do {
     let new_cap = (if cap m = 0 then INITIAL_CAP else cap m * 2);
     (nc, ne) \<leftarrow> rehash_loop hash m new_cap 0
        (replicate new_cap CTRL_EMPTY) (replicate new_cap None);
     Some (m\<lparr>ctrl := nc, entries := ne, cap := new_cap,
       growth_left := int ((new_cap * LOAD_FACTOR_NUM) div LOAD_FACTOR_DEN) - len m\<rparr>) }"

text \<open>Writing a fresh entry into slot \<open>i\<close>: control byte, key copy, value.\<close>

definition fill_slot :: "('k \<Rightarrow> 'k) \<Rightarrow> 'k hashmap \<Rightarrow> nat \<Rightarrow> int \<Rightarrow> 'k \<Rightarrow> int \<Rightarrow>
    'k hashmap option" where
  "fill_slot store m i tag key val = do {
     c \<leftarrow> aset (ctrl m) i tag;
     es \<leftarrow> aset (entries m) i (Some (store key, val));
     Some (m\<lparr>ctrl := c, entries := es, len := len m + 1\<rparr>) }"

function insert_loop :: "('k \<Rightarrow> 'k) \<Rightarrow> 'k hashmap \<Rightarrow> 'k \<Rightarrow> int \<Rightarrow> int \<Rightarrow> nat \<Rightarrow> nat option \<Rightarrow>
    nat \<Rightarrow> 'k hashmap option" where
  "insert_loop store m key val tag idx first_deleted probes =
     (if probes < cap m then do {
        c \<leftarrow> aget (ctrl m) idx;
        hit \<leftarrow> (if c = tag then key_eq m idx key else Some False);
        (if hit then do {
           slot \<leftarrow> aget (entries m) idx;
           e \<leftarrow> slot;
           es \<leftarrow> aset (entries m) idx (Some (fst e, val));
           Some (m\<lparr>entries := es\<rparr>) }
         else
           (let fd = (if c = CTRL_DELETED \<and> first_deleted = None then Some idx
                      else first_deleted) in
            if c = CTRL_EMPTY then do {
              m' \<leftarrow> fill_slot store m (case fd of Some d \<Rightarrow> d | None \<Rightarrow> idx) tag key val;
              Some (if fd = None then m'\<lparr>growth_left := growth_left m' - 1\<rparr> else m') }
            else insert_loop store m key val tag ((idx + 1) mod cap m) fd (probes + 1))) }
      else (case first_deleted of
              Some d \<Rightarrow> fill_slot store m d tag key val
            | None \<Rightarrow> Some m))"
  by pat_completeness auto
termination
  by (relation "measure (\<lambda>(store, m, key, val, tag, idx, fd, probes). cap m - probes)") auto

declare insert_loop.simps [simp del]

text \<open>With capacity 0 the modulus \<^verbatim>\<open>% map->cap\<close> would divide by zero; the growth
  before it rules that out, and the model keeps the division undefined.\<close>

definition sw_insert :: "('k \<Rightarrow> u64) \<Rightarrow> ('k \<Rightarrow> 'k) \<Rightarrow> 'k hashmap \<Rightarrow> 'k \<Rightarrow> int \<Rightarrow>
    'k hashmap option" where
  "sw_insert hash store m0 key val = do {
     m \<leftarrow> (if growth_left m0 = 0 then sw_grow hash m0 else Some m0);
     (if cap m = 0 then None
      else insert_loop store m key val (tag_of (hash key))
             (home_of (hash key) (cap m)) None 0) }"

function remove_loop :: "'k hashmap \<Rightarrow> 'k \<Rightarrow> int \<Rightarrow> nat \<Rightarrow> nat \<Rightarrow> (int \<times> 'k hashmap) option" where
  "remove_loop m key tag idx probes =
     (if probes < cap m then do {
        c \<leftarrow> aget (ctrl m) idx;
        hit \<leftarrow> (if c = tag then key_eq m idx key else Some False);
        (if hit then do {
           cs \<leftarrow> aset (ctrl m) idx CTRL_DELETED;
           Some (1, m\<lparr>ctrl := cs, len := len m - 1\<rparr>) }
         else if c = CTRL_EMPTY then Some (0, m)
         else remove_loop m key tag ((idx + 1) mod cap m) (probes + 1)) }
      else Some (0, m))"
  by pat_completeness auto
termination
  by (relation "measure (\<lambda>(m, key, tag, idx, probes). cap m - probes)") auto

declare remove_loop.simps [simp del]

definition sw_remove :: "('k \<Rightarrow> u64) \<Rightarrow> 'k hashmap \<Rightarrow> 'k \<Rightarrow> (int \<times> 'k hashmap) option" where
  "sw_remove hash m key =
     (if cap m = 0 then Some (0, m)
      else remove_loop m key (tag_of (hash key)) (home_of (hash key) (cap m)) 0)"


subsection \<open>The invariant and the abstraction to a map\<close>

text \<open>Slot \<open>i\<close> holds key \<open>k\<close> with value \<open>v\<close>.\<close>

definition holds :: "int list \<Rightarrow> 'k entry option list \<Rightarrow> nat \<Rightarrow> 'k \<Rightarrow> int \<Rightarrow> bool" where
  "holds c es i k v \<longleftrightarrow> i < length c \<and> 0 \<le> c ! i \<and> es ! i = Some (k, v)"

text \<open>Every slot is empty, deleted, or written with the tag of its key; no key is in two
  slots; and no empty slot lies between a key's home slot and the slot it is in.\<close>

definition table_ok :: "('k \<Rightarrow> u64) \<Rightarrow> int list \<Rightarrow> 'k entry option list \<Rightarrow> bool" where
  "table_ok hash c es \<longleftrightarrow>
     length es = length c \<and>
     (\<forall>i < length c. c ! i = CTRL_EMPTY \<or> c ! i = CTRL_DELETED \<or>
        (\<exists>k v. es ! i = Some (k, v) \<and> c ! i = tag_of (hash k))) \<and>
     (\<forall>i j k v w. holds c es i k v \<longrightarrow> holds c es j k w \<longrightarrow> i = j) \<and>
     (\<forall>i k v. holds c es i k v \<longrightarrow>
        (\<exists>j < length c. i = slot_at (home_of (hash k) (length c)) (length c) j \<and>
           (\<forall>j' < j. c ! slot_at (home_of (hash k) (length c)) (length c) j' \<noteq> CTRL_EMPTY)))"

text \<open>The map a table stands for, by a search of all slots.\<close>

definition table_map :: "int list \<Rightarrow> 'k entry option list \<Rightarrow> 'k \<rightharpoonup> int" where
  "table_map c es k =
     (case find (\<lambda>i. 0 \<le> c ! i \<and> (case es ! i of None \<Rightarrow> False | Some e \<Rightarrow> fst e = k))
             [0 ..< length c] of
        None \<Rightarrow> None
      | Some i \<Rightarrow> map_option snd (es ! i))"

definition hm_map :: "'k hashmap \<Rightarrow> 'k \<rightharpoonup> int" where
  "hm_map m = table_map (ctrl m) (entries m)"

definition hm_inv :: "('k \<Rightarrow> u64) \<Rightarrow> 'k hashmap \<Rightarrow> bool" where
  "hm_inv hash m \<longleftrightarrow>
     table_ok hash (ctrl m) (entries m) \<and> length (ctrl m) = cap m \<and>
     (cap m = 0 \<or> INITIAL_CAP \<le> cap m) \<and>
     len m = int (cnt (\<lambda>x. 0 \<le> x) (ctrl m)) \<and>
     growth_left m =
       int ((cap m * LOAD_FACTOR_NUM) div LOAD_FACTOR_DEN)
         - int (cnt (\<lambda>x. x \<noteq> CTRL_EMPTY) (ctrl m)) \<and>
     0 \<le> growth_left m"

lemmas ctrl_defs = CTRL_EMPTY_def CTRL_DELETED_def

lemma tag_of_bounds [simp]: "0 \<le> tag_of h" "tag_of h < 128"
proof -
  have "uint (h AND 0x7F) \<le> uint (0x7F :: u64)"
    by (simp add: uint_and)
  then show "0 \<le> tag_of h" "tag_of h < 128" by (simp_all add: tag_of_def)
qed

lemma tag_of_not_ctrl [simp]:
  "tag_of h \<noteq> CTRL_EMPTY" "tag_of h \<noteq> CTRL_DELETED" "CTRL_EMPTY \<noteq> tag_of h"
  "CTRL_DELETED \<noteq> tag_of h"
proof -
  have "- 1 < tag_of h" using tag_of_bounds(1) [of h] by linarith
  then show "tag_of h \<noteq> CTRL_EMPTY" "tag_of h \<noteq> CTRL_DELETED" "CTRL_EMPTY \<noteq> tag_of h"
    "CTRL_DELETED \<noteq> tag_of h" by (auto simp: ctrl_defs)
qed

lemma ctrl_neg [simp]: "\<not> 0 \<le> CTRL_EMPTY" "\<not> 0 \<le> CTRL_DELETED" "CTRL_DELETED \<noteq> CTRL_EMPTY"
  "CTRL_EMPTY \<noteq> CTRL_DELETED"
  by (simp_all add: ctrl_defs)

lemma home_of_less [simp]: "0 < n \<Longrightarrow> home_of h n < n"
  by (simp add: home_of_def)

lemma table_okD:
  assumes "table_ok hash c es"
  shows "length es = length c"
    and "i < length c \<Longrightarrow> 0 \<le> c ! i \<Longrightarrow> \<exists>k v. es ! i = Some (k, v) \<and> c ! i = tag_of (hash k)"
    and "i < length c \<Longrightarrow> \<not> 0 \<le> c ! i \<Longrightarrow> c ! i = CTRL_EMPTY \<or> c ! i = CTRL_DELETED"
    and "holds c es i k v \<Longrightarrow> holds c es j k w \<Longrightarrow> i = j"
proof -
  from assms have A: "length es = length c"
    and B: "\<And>i. i < length c \<Longrightarrow> c ! i = CTRL_EMPTY \<or> c ! i = CTRL_DELETED \<or>
        (\<exists>k v. es ! i = Some (k, v) \<and> c ! i = tag_of (hash k))"
    and C: "\<And>i j k v w. holds c es i k v \<Longrightarrow> holds c es j k w \<Longrightarrow> i = j"
    unfolding table_ok_def by blast+
  show "length es = length c" by (rule A)
  show "i < length c \<Longrightarrow> 0 \<le> c ! i \<Longrightarrow> \<exists>k v. es ! i = Some (k, v) \<and> c ! i = tag_of (hash k)"
    using B [of i] by auto
  show "i < length c \<Longrightarrow> \<not> 0 \<le> c ! i \<Longrightarrow> c ! i = CTRL_EMPTY \<or> c ! i = CTRL_DELETED"
    using B [of i] by auto
  show "holds c es i k v \<Longrightarrow> holds c es j k w \<Longrightarrow> i = j" by (rule C)
qed

lemma table_ok_reach:
  assumes "table_ok hash c es" and "holds c es i k v"
  obtains j where "j < length c"
    and "i = slot_at (home_of (hash k) (length c)) (length c) j"
    and "\<And>j'. j' < j \<Longrightarrow> c ! slot_at (home_of (hash k) (length c)) (length c) j' \<noteq> CTRL_EMPTY"
  using assms unfolding table_ok_def by blast

lemma holds_tag:
  assumes "table_ok hash c es" and "holds c es i k v"
  shows "c ! i = tag_of (hash k)"
  using table_okD(2) [OF assms(1), of i] assms(2) by (auto simp: holds_def)

lemma table_map_holds:
  assumes "table_ok hash c es" and "holds c es i k v"
  shows "table_map c es k = Some v"
proof -
  let ?P = "\<lambda>i. 0 \<le> c ! i \<and> (case es ! i of None \<Rightarrow> False | Some e \<Rightarrow> fst e = k)"
  have "?P i" "i \<in> set [0 ..< length c]" using assms(2) by (auto simp: holds_def)
  then obtain i' where i': "find ?P [0 ..< length c] = Some i'"
    by (cases "find ?P [0 ..< length c]") (auto simp: find_None_iff)
  then have "?P i'" and "i' < length c"
    by (auto simp: find_Some_iff)
  then obtain w where "holds c es i' k w"
    by (cases "es ! i'") (auto simp: holds_def)
  moreover from this have "i' = i"
    using table_okD(4) [OF assms(1)] assms(2) by blast
  ultimately show ?thesis
    using i' assms(2) by (simp add: table_map_def holds_def)
qed

lemma table_map_None:
  assumes "\<And>i v. \<not> holds c es i k v"
  shows "table_map c es k = None"
proof -
  have "find (\<lambda>i. 0 \<le> c ! i \<and> (case es ! i of None \<Rightarrow> False | Some e \<Rightarrow> fst e = k))
      [0 ..< length c] = None"
    using assms by (auto simp: find_None_iff holds_def split: option.split)
  then show ?thesis by (simp add: table_map_def)
qed

lemma table_map_Some_iff:
  assumes "table_ok hash c es"
  shows "table_map c es k = Some v \<longleftrightarrow> (\<exists>i. holds c es i k v)"
  using table_map_holds [OF assms] table_map_None [of c es k] by (metis option.sel option.distinct(1))

lemma table_map_None_iff:
  assumes "table_ok hash c es"
  shows "table_map c es k = None \<longleftrightarrow> (\<forall>i v. \<not> holds c es i k v)"
  using table_map_Some_iff [OF assms] by (metis not_None_eq)

text \<open>Two tables with the same holders stand for the same map.\<close>

lemma table_map_eqI:
  assumes "table_ok hash c es"
    and "\<And>k v. M k = Some v \<longleftrightarrow> (\<exists>i. holds c es i k v)"
  shows "table_map c es = M"
proof
  fix k
  show "table_map c es k = M k"
    using table_map_Some_iff [OF assms(1), of k] assms(2) [of k] by (metis not_None_eq)
qed

subsection \<open>Writing a slot\<close>

text \<open>Where a probe for \<open>k\<close> may put a new entry: a slot that is empty or deleted and
  that no empty slot precedes on the probe path.\<close>

definition target :: "('k \<Rightarrow> u64) \<Rightarrow> int list \<Rightarrow> 'k \<Rightarrow> nat \<Rightarrow> bool" where
  "target hash c k i \<longleftrightarrow>
     (\<exists>j < length c. i = slot_at (home_of (hash k) (length c)) (length c) j \<and>
        (\<forall>j' < j. c ! slot_at (home_of (hash k) (length c)) (length c) j' \<noteq> CTRL_EMPTY)) \<and>
     i < length c \<and> (c ! i = CTRL_EMPTY \<or> c ! i = CTRL_DELETED)"

lemma holds_fill:
  assumes ok: "table_ok hash c es" and i: "i < length c" "\<not> 0 \<le> c ! i"
  shows "holds (c[i := tag_of h]) (es[i := Some (k, v)]) i' k' v' \<longleftrightarrow>
     (if i' = i then k' = k \<and> v' = v else holds c es i' k' v')"
  using table_okD(1) [OF ok] i by (auto simp: holds_def nth_list_update)

lemma table_ok_fill:
  assumes ok: "table_ok hash c es" and t: "target hash c k i"
    and absent: "\<And>i v. \<not> holds c es i k v"
  shows "table_ok hash (c[i := tag_of (hash k)]) (es[i := Some (k, v)])"
    and "table_map (c[i := tag_of (hash k)]) (es[i := Some (k, v)]) = (table_map c es)(k \<mapsto> v)"
proof -
  let ?c = "c[i := tag_of (hash k)]" and ?es = "es[i := Some (k, v)]"
  have i: "i < length c" "\<not> 0 \<le> c ! i"
    using t by (auto simp: target_def ctrl_defs)
  note h = holds_fill [OF ok i, of "hash k" k v]
  have stay: "?c ! x \<noteq> CTRL_EMPTY" if "c ! x \<noteq> CTRL_EMPTY" for x
    using that i by (cases "x = i") auto
  show new: "table_ok hash ?c ?es"
    unfolding table_ok_def
  proof (intro conjI allI impI)
    show "length ?es = length ?c" using table_okD(1) [OF ok] by simp
  next
    fix x assume "x < length ?c"
    then show "?c ! x = CTRL_EMPTY \<or> ?c ! x = CTRL_DELETED \<or>
        (\<exists>k' v'. ?es ! x = Some (k', v') \<and> ?c ! x = tag_of (hash k'))"
      using i table_okD(1,2,3) [OF ok] by (cases "x = i") auto
  next
    fix x y k' v' w'
    assume "holds ?c ?es x k' v'" and "holds ?c ?es y k' w'"
    then show "x = y"
      using absent table_okD(4) [OF ok] by (auto simp: h split: if_splits)
  next
    fix x k' v' assume hx: "holds ?c ?es x k' v'"
    show "\<exists>j < length ?c. x = slot_at (home_of (hash k') (length ?c)) (length ?c) j \<and>
        (\<forall>j' < j. ?c ! slot_at (home_of (hash k') (length ?c)) (length ?c) j' \<noteq> CTRL_EMPTY)"
    proof (cases "x = i")
      case True
      with hx have "k' = k" by (simp add: h)
      with True t stay show ?thesis unfolding target_def by auto
    next
      case False
      with hx have "holds c es x k' v'" by (simp add: h)
      with stay show ?thesis by (auto elim!: table_ok_reach [OF ok])
    qed
  qed
  show "table_map ?c ?es = (table_map c es)(k \<mapsto> v)"
  proof (rule table_map_eqI [OF new])
    fix k' v'
    show "((table_map c es)(k \<mapsto> v)) k' = Some v' \<longleftrightarrow> (\<exists>i. holds ?c ?es i k' v')"
    proof (cases "k' = k")
      case True
      then show ?thesis using absent by (auto simp: h)
    next
      case False
      have "\<not> holds c es i k' v'" using i by (simp add: holds_def)
      with False have "(\<exists>x. holds ?c ?es x k' v') \<longleftrightarrow> (\<exists>x. holds c es x k' v')"
        unfolding h by metis
      with False show ?thesis by (simp add: table_map_Some_iff [OF ok])
    qed
  qed
qed

text \<open>Overwriting the value of a key that is present.\<close>

lemma table_ok_set_val:
  assumes ok: "table_ok hash c es" and hi: "holds c es i k w"
  shows "table_ok hash c (es[i := Some (k, v)])"
    and "table_map c (es[i := Some (k, v)]) = (table_map c es)(k \<mapsto> v)"
proof -
  let ?es = "es[i := Some (k, v)]"
  have i: "i < length c" "i < length es" using hi table_okD(1) [OF ok] by (auto simp: holds_def)
  have h: "holds c ?es x k' v' \<longleftrightarrow> (if x = i then k' = k \<and> v' = v else holds c es x k' v')" for x k' v'
    using i hi by (auto simp: holds_def nth_list_update)
  have key: "\<exists>u. holds c es x k' u" if "holds c ?es x k' v'" for x k' v'
    using that hi by (auto simp: h split: if_splits)
  show new: "table_ok hash c ?es"
    unfolding table_ok_def
  proof (intro conjI allI impI)
    show "length ?es = length c" using table_okD(1) [OF ok] by simp
  next
    fix x assume "x < length c"
    then show "c ! x = CTRL_EMPTY \<or> c ! x = CTRL_DELETED \<or>
        (\<exists>k' v'. ?es ! x = Some (k', v') \<and> c ! x = tag_of (hash k'))"
      using i holds_tag [OF ok hi] table_okD(2,3) [OF ok] by (cases "x = i") auto
  next
    fix x y k' v' w' assume "holds c ?es x k' v'" and "holds c ?es y k' w'"
    then show "x = y" using key table_okD(4) [OF ok] by blast
  next
    fix x k' v' assume "holds c ?es x k' v'"
    then obtain u where "holds c es x k' u" using key by blast
    then show "\<exists>j < length c. x = slot_at (home_of (hash k') (length c)) (length c) j \<and>
        (\<forall>j' < j. c ! slot_at (home_of (hash k') (length c)) (length c) j' \<noteq> CTRL_EMPTY)"
      by (auto elim!: table_ok_reach [OF ok])
  qed
  show "table_map c ?es = (table_map c es)(k \<mapsto> v)"
  proof (rule table_map_eqI [OF new])
    fix k' v'
    have "holds c es i k' v' \<Longrightarrow> k' = k" using hi by (simp add: holds_def)
    then have "k' \<noteq> k \<Longrightarrow> (\<exists>x. holds c ?es x k' v') \<longleftrightarrow> (\<exists>x. holds c es x k' v')"
      unfolding h by metis
    moreover have "(\<exists>x. holds c ?es x k v') \<longleftrightarrow> v' = v"
      using hi table_okD(4) [OF ok] by (auto simp: h split: if_splits)
    ultimately show "((table_map c es)(k \<mapsto> v)) k' = Some v' \<longleftrightarrow> (\<exists>i. holds c ?es i k' v')"
      by (auto simp: table_map_Some_iff [OF ok])
  qed
qed

text \<open>Marking a slot deleted removes its key and keeps every other probe path whole.\<close>

lemma table_ok_delete:
  assumes ok: "table_ok hash c es" and hi: "holds c es i k w"
  shows "table_ok hash (c[i := CTRL_DELETED]) es"
    and "table_map (c[i := CTRL_DELETED]) es = (table_map c es)(k := None)"
proof -
  let ?c = "c[i := CTRL_DELETED]"
  have i: "i < length c" using hi by (simp add: holds_def)
  have h: "holds ?c es x k' v' \<longleftrightarrow> x \<noteq> i \<and> holds c es x k' v'" for x k' v'
    using i by (auto simp: holds_def nth_list_update)
  have stay: "?c ! x \<noteq> CTRL_EMPTY" if "c ! x \<noteq> CTRL_EMPTY" for x
    using that i by (cases "x = i") auto
  show new: "table_ok hash ?c es"
    unfolding table_ok_def
  proof (intro conjI allI impI)
    show "length es = length ?c" using table_okD(1) [OF ok] by simp
  next
    fix x assume "x < length ?c"
    then show "?c ! x = CTRL_EMPTY \<or> ?c ! x = CTRL_DELETED \<or>
        (\<exists>k' v'. es ! x = Some (k', v') \<and> ?c ! x = tag_of (hash k'))"
      using i table_okD(2,3) [OF ok] by (cases "x = i") auto
  next
    fix x y k' v' w' assume "holds ?c es x k' v'" and "holds ?c es y k' w'"
    then show "x = y" using table_okD(4) [OF ok] by (auto simp: h)
  next
    fix x k' v' assume "holds ?c es x k' v'"
    with stay show "\<exists>j < length ?c. x = slot_at (home_of (hash k') (length ?c)) (length ?c) j \<and>
        (\<forall>j' < j. ?c ! slot_at (home_of (hash k') (length ?c)) (length ?c) j' \<noteq> CTRL_EMPTY)"
      by (auto simp: h elim!: table_ok_reach [OF ok])
  qed
  show "table_map ?c es = (table_map c es)(k := None)"
  proof (rule table_map_eqI [OF new])
    fix k' v'
    have "holds c es i k' v' \<Longrightarrow> k' = k" using hi by (simp add: holds_def)
    moreover have "holds c es x k v' \<Longrightarrow> x = i" for x using table_okD(4) [OF ok] hi by blast
    ultimately show "((table_map c es)(k := None)) k' = Some v' \<longleftrightarrow> (\<exists>i. holds ?c es i k' v')"
      unfolding h fun_upd_apply by (metis option.distinct(1) table_map_Some_iff [OF ok])
  qed
qed


subsection \<open>The probe loops\<close>

text \<open>What the loops rely on: a well-formed table of positive capacity.\<close>

definition probing :: "('k \<Rightarrow> u64) \<Rightarrow> 'k hashmap \<Rightarrow> bool" where
  "probing hash m \<longleftrightarrow> table_ok hash (ctrl m) (entries m) \<and> length (ctrl m) = cap m \<and> 0 < cap m"

definition present :: "'k hashmap \<Rightarrow> nat \<Rightarrow> 'k \<Rightarrow> bool" where
  "present m i k \<longleftrightarrow> (\<exists>v. holds (ctrl m) (entries m) i k v)"

lemma presentI: "holds (ctrl m) (entries m) i k v \<Longrightarrow> present m i k"
  by (auto simp: present_def)

lemma hit_eq:
  assumes "probing hash m" and "idx < cap m"
  shows "(if ctrl m ! idx = tag_of (hash key) then key_eq m idx key else Some False)
           = Some (present m idx key)"
proof -
  have ok: "table_ok hash (ctrl m) (entries m)" and i: "idx < length (ctrl m)"
    using assms by (auto simp: probing_def)
  show ?thesis
  proof (cases "ctrl m ! idx = tag_of (hash key)")
    case True
    then obtain k v where "entries m ! idx = Some (k, v)"
      using table_okD(2) [OF ok i] by auto
    with True i table_okD(1) [OF ok] show ?thesis
      by (auto simp: key_eq_def holds_def present_def)
  next
    case False
    then show ?thesis using holds_tag [OF ok] by (auto simp: present_def)
  qed
qed

lemma val_at_holds:
  assumes "probing hash m" and "holds (ctrl m) (entries m) i k v"
  shows "val_at m i = Some v"
  using assms table_okD(1) [of hash "ctrl m" "entries m"]
  by (auto simp: probing_def holds_def val_at_def)

lemma ctrl_read: "probing hash m \<Longrightarrow> i < cap m \<Longrightarrow> aget (ctrl m) i = Some (ctrl m ! i)"
  by (simp add: probing_def)

lemma next_slot: "probing hash m \<Longrightarrow> (i + 1) mod cap m < cap m"
  by (simp add: probing_def)

text \<open>One round of each loop, with the tag and key tests resolved.\<close>

lemma get_loop_step:
  assumes "probing hash m" and "idx < cap m" and "probes < cap m"
  shows "get_loop m key (tag_of (hash key)) idx probes =
     (if present m idx key then val_at m idx
      else if ctrl m ! idx = CTRL_EMPTY then Some 0
      else get_loop m key (tag_of (hash key)) ((idx + 1) mod cap m) (probes + 1))"
  using assms(3)
  by (subst get_loop.simps)
    (simp only: ctrl_read [OF assms(1,2)] hit_eq [OF assms(1,2)] bind.bind_lunit if_True)

lemma remove_loop_step:
  assumes "probing hash m" and "idx < cap m" and "probes < cap m"
  shows "remove_loop m key (tag_of (hash key)) idx probes =
     (if present m idx key
      then Some (1, m\<lparr>ctrl := (ctrl m)[idx := CTRL_DELETED], len := len m - 1\<rparr>)
      else if ctrl m ! idx = CTRL_EMPTY then Some (0, m)
      else remove_loop m key (tag_of (hash key)) ((idx + 1) mod cap m) (probes + 1))"
proof -
  have "aset (ctrl m) idx CTRL_DELETED = Some ((ctrl m)[idx := CTRL_DELETED])"
    using assms(1,2) by (simp add: probing_def)
  with assms(3) show ?thesis
    by (subst remove_loop.simps)
      (simp only: ctrl_read [OF assms(1,2)] hit_eq [OF assms(1,2)] bind.bind_lunit if_True)
qed

lemma fill_slot_in:
  assumes "probing hash m" and "i < cap m"
  shows "fill_slot store m i tag key val =
     Some (m\<lparr>ctrl := (ctrl m)[i := tag], entries := (entries m)[i := Some (store key, val)],
            len := len m + 1\<rparr>)"
  using assms table_okD(1) [of hash "ctrl m" "entries m"]
  by (simp add: fill_slot_def probing_def)

lemma insert_loop_step:
  assumes "probing hash m" and "idx < cap m" and "probes < cap m"
    and "\<And>d. fd = Some d \<Longrightarrow> d < cap m"
  shows "insert_loop store m key val (tag_of (hash key)) idx fd probes =
     (if present m idx key
      then Some (m\<lparr>entries := (entries m)[idx := Some (key, val)]\<rparr>)
      else if ctrl m ! idx = CTRL_EMPTY
      then let i = (case fd of Some d \<Rightarrow> d | None \<Rightarrow> idx) in
        Some (m\<lparr>ctrl := (ctrl m)[i := tag_of (hash key)],
               entries := (entries m)[i := Some (store key, val)], len := len m + 1,
               growth_left := growth_left m - (if fd = None then 1 else 0)\<rparr>)
      else insert_loop store m key val (tag_of (hash key)) ((idx + 1) mod cap m)
             (if ctrl m ! idx = CTRL_DELETED \<and> fd = None then Some idx else fd) (probes + 1))"
proof (cases "present m idx key")
  case True
  then obtain v where "holds (ctrl m) (entries m) idx key v" by (auto simp: present_def)
  then have "entries m ! idx = Some (key, v)" "idx < length (entries m)"
    using assms(1) table_okD(1) [of hash "ctrl m" "entries m"] by (auto simp: holds_def probing_def)
  with True assms(3) show ?thesis
    by (subst insert_loop.simps)
      (simp add: ctrl_read [OF assms(1,2)] hit_eq [OF assms(1,2)])
next
  case False
  have "(case fd of Some d \<Rightarrow> d | None \<Rightarrow> idx) < cap m"
    using assms(2,4) by (cases fd) auto
  note fill = fill_slot_in [OF assms(1) this]
  from False assms(3) show ?thesis
    by (subst insert_loop.simps)
      (auto simp: ctrl_read [OF assms(1,2)] hit_eq [OF assms(1,2)] fill Let_def)
qed

lemma get_loop_absent:
  assumes "probing hash m" and "\<And>i. \<not> present m i key" and "idx < cap m"
  shows "get_loop m key (tag_of (hash key)) idx probes = Some 0"
  using assms(3)
proof (induction "cap m - probes" arbitrary: idx probes)
  case 0
  then show ?case by (subst get_loop.simps) simp
next
  case (Suc n)
  then have "probes < cap m" and "n = cap m - (probes + 1)" by simp_all
  with Suc.hyps(1) [of "probes + 1"] Suc.prems assms(2) show ?case
    by (simp add: get_loop_step [OF assms(1)] next_slot [OF assms(1)])
qed

text \<open>Along the probe path of a key that is present, no slot before the key's own is empty
  or holds the key.\<close>

lemma path_before:
  assumes pr: "probing hash m" and h: "holds (ctrl m) (entries m) i key v"
  obtains j where "j < cap m" and "i = slot_at (home_of (hash key) (cap m)) (cap m) j"
    and "\<And>j'. j' < j \<Longrightarrow> ctrl m ! slot_at (home_of (hash key) (cap m)) (cap m) j' \<noteq> CTRL_EMPTY"
    and "\<And>j'. j' < j \<Longrightarrow> \<not> present m (slot_at (home_of (hash key) (cap m)) (cap m) j') key"
proof -
  have ok: "table_ok hash (ctrl m) (entries m)" and n: "length (ctrl m) = cap m"
    using pr by (auto simp: probing_def)
  obtain j where j: "j < cap m" and i: "i = slot_at (home_of (hash key) (cap m)) (cap m) j"
    and before: "\<And>j'. j' < j \<Longrightarrow>
      ctrl m ! slot_at (home_of (hash key) (cap m)) (cap m) j' \<noteq> CTRL_EMPTY"
    using table_ok_reach [OF ok h] unfolding n by metis
  have "\<not> present m (slot_at (home_of (hash key) (cap m)) (cap m) j') key" if "j' < j" for j'
  proof
    assume "present m (slot_at (home_of (hash key) (cap m)) (cap m) j') key"
    then have "slot_at (home_of (hash key) (cap m)) (cap m) j' = i"
      using table_okD(4) [OF ok] h unfolding present_def by blast
    then have "j' = j"
      using slot_at_inj [of "home_of (hash key) (cap m)" "cap m" j' j] i j that by simp
    with that show False by simp
  qed
  with j i before that show ?thesis by blast
qed

lemma slot_step: "(slot_at h n j + 1) mod n = slot_at h n (j + 1)"
  by simp

lemma get_loop_present:
  assumes pr: "probing hash m" and h: "holds (ctrl m) (entries m) i key v"
  shows "get_loop m key (tag_of (hash key)) (home_of (hash key) (cap m)) 0 = Some v"
proof -
  let ?s = "slot_at (home_of (hash key) (cap m)) (cap m)"
  obtain j where j: "j < cap m" and i: "i = ?s j"
    and be: "\<And>j'. j' < j \<Longrightarrow> ctrl m ! ?s j' \<noteq> CTRL_EMPTY" "\<And>j'. j' < j \<Longrightarrow> \<not> present m (?s j') key"
    using path_before [OF assms] by metis
  have pos: "0 < cap m" using pr by (simp add: probing_def)
  have "get_loop m key (tag_of (hash key)) (?s q) q = Some v" if "q \<le> j" for q
    using that
  proof (induction "j - q" arbitrary: q)
    case 0
    then have "q = j" by simp
    with j pos have "get_loop m key (tag_of (hash key)) (?s q) q = val_at m i"
      using presentI [OF h] i by (subst get_loop_step [OF pr]) auto
    then show ?case by (simp add: val_at_holds [OF pr h])
  next
    case (Suc n)
    then have "q < j" and "n = j - (q + 1)" by simp_all
    with Suc.hyps(1) [of "q + 1"] be [of q] j pos show ?case
      by (simp add: get_loop_step [OF pr])
  qed
  from this [of 0] pos show ?thesis by simp
qed

lemma remove_loop_absent:
  assumes "probing hash m" and "\<And>i. \<not> present m i key" and "idx < cap m"
  shows "remove_loop m key (tag_of (hash key)) idx probes = Some (0, m)"
  using assms(3)
proof (induction "cap m - probes" arbitrary: idx probes)
  case 0
  then show ?case by (subst remove_loop.simps) simp
next
  case (Suc n)
  then have "probes < cap m" and "n = cap m - (probes + 1)" by simp_all
  with Suc.hyps(1) [of "probes + 1"] Suc.prems assms(2) show ?case
    by (simp add: remove_loop_step [OF assms(1)] next_slot [OF assms(1)])
qed

lemma remove_loop_present:
  assumes pr: "probing hash m" and h: "holds (ctrl m) (entries m) i key v"
  shows "remove_loop m key (tag_of (hash key)) (home_of (hash key) (cap m)) 0 =
    Some (1, m\<lparr>ctrl := (ctrl m)[i := CTRL_DELETED], len := len m - 1\<rparr>)"
proof -
  let ?s = "slot_at (home_of (hash key) (cap m)) (cap m)"
  let ?r = "Some (1, m\<lparr>ctrl := (ctrl m)[i := CTRL_DELETED], len := len m - 1\<rparr>)"
  obtain j where j: "j < cap m" and i: "i = ?s j"
    and be: "\<And>j'. j' < j \<Longrightarrow> ctrl m ! ?s j' \<noteq> CTRL_EMPTY" "\<And>j'. j' < j \<Longrightarrow> \<not> present m (?s j') key"
    using path_before [OF assms] by metis
  have pos: "0 < cap m" using pr by (simp add: probing_def)
  have "remove_loop m key (tag_of (hash key)) (?s q) q = ?r" if "q \<le> j" for q
    using that
  proof (induction "j - q" arbitrary: q)
    case 0
    then have "q = j" by simp
    with presentI [OF h] i j pos show ?case by (simp add: remove_loop_step [OF pr])
  next
    case (Suc n)
    then have "q < j" and "n = j - (q + 1)" by simp_all
    with Suc.hyps(1) [of "q + 1"] be [of q] j pos show ?case
      by (simp add: remove_loop_step [OF pr])
  qed
  from this [of 0] pos show ?thesis by simp
qed

lemma insert_loop_present:
  assumes pr: "probing hash m" and h: "holds (ctrl m) (entries m) i key w"
  shows "insert_loop store m key val (tag_of (hash key)) (home_of (hash key) (cap m)) None 0 =
    Some (m\<lparr>entries := (entries m)[i := Some (key, val)]\<rparr>)"
proof -
  let ?s = "slot_at (home_of (hash key) (cap m)) (cap m)"
  obtain j where j: "j < cap m" and i: "i = ?s j"
    and be: "\<And>j'. j' < j \<Longrightarrow> ctrl m ! ?s j' \<noteq> CTRL_EMPTY" "\<And>j'. j' < j \<Longrightarrow> \<not> present m (?s j') key"
    using path_before [OF assms] by metis
  have pos: "0 < cap m" using pr by (simp add: probing_def)
  have "insert_loop store m key val (tag_of (hash key)) (?s q) fd q =
      Some (m\<lparr>entries := (entries m)[i := Some (key, val)]\<rparr>)"
    if "q \<le> j" "\<And>d. fd = Some d \<Longrightarrow> d < cap m" for q fd
    using that
  proof (induction "j - q" arbitrary: q fd)
    case 0
    then have "q = j" by simp
    with presentI [OF h] i j pos 0 show ?case by (simp add: insert_loop_step [OF pr])
  next
    case (Suc n)
    then have "q < j" and "n = j - (q + 1)" by simp_all
    let ?fd = "if ctrl m ! ?s q = CTRL_DELETED \<and> fd = None then Some (?s q) else fd"
    have "insert_loop store m key val (tag_of (hash key)) (?s (q + 1)) ?fd (q + 1) =
        Some (m\<lparr>entries := (entries m)[i := Some (key, val)]\<rparr>)"
      using Suc.prems pos \<open>q < j\<close> \<open>n = j - (q + 1)\<close>
      by (intro Suc.hyps(1)) (auto split: if_splits)
    with be [OF \<open>q < j\<close>] show ?case
      using \<open>q < j\<close> j pos Suc.prems(2) by (subst insert_loop_step [OF pr]) simp_all
  qed
  from this [of 0 None] pos show ?thesis by simp
qed


lemma insert_loop_absent:
  assumes pr: "probing hash m" and absent: "\<And>i. \<not> present m i key"
    and e: "e < cap m" "ctrl m ! e = CTRL_EMPTY"
  obtains i where "target hash (ctrl m) key i"
    and "insert_loop store m key val (tag_of (hash key)) (home_of (hash key) (cap m)) None 0 =
      Some (m\<lparr>ctrl := (ctrl m)[i := tag_of (hash key)],
             entries := (entries m)[i := Some (store key, val)], len := len m + 1,
             growth_left := growth_left m - (if ctrl m ! i = CTRL_EMPTY then 1 else 0)\<rparr>)"
proof -
  let ?h = "home_of (hash key) (cap m)" and ?n = "cap m"
  let ?s = "slot_at ?h ?n"
  let ?out = "\<lambda>i. Some (m\<lparr>ctrl := (ctrl m)[i := tag_of (hash key)],
             entries := (entries m)[i := Some (store key, val)], len := len m + 1,
             growth_left := growth_left m - (if ctrl m ! i = CTRL_EMPTY then 1 else 0)\<rparr>)"
  have pos: "0 < ?n" and n: "length (ctrl m) = ?n" using pr by (auto simp: probing_def)
  obtain je where je: "je < ?n" "?s je = e" using slot_at_surj [OF e(1)] by metis
  have tgt: "target hash (ctrl m) key (?s j)"
    if "j < ?n" "\<forall>j' < j. ctrl m ! ?s j' \<noteq> CTRL_EMPTY"
       "ctrl m ! ?s j = CTRL_EMPTY \<or> ctrl m ! ?s j = CTRL_DELETED" for j
    using that pos unfolding target_def n by auto
  have "\<exists>i. target hash (ctrl m) key i \<and>
      insert_loop store m key val (tag_of (hash key)) (?s q) fd q = ?out i"
    if "q \<le> je" "\<forall>j' < q. ctrl m ! ?s j' \<noteq> CTRL_EMPTY"
       "fd = None \<or> (\<exists>d < q. fd = Some (?s d) \<and> ctrl m ! ?s d = CTRL_DELETED)" for q fd
    using that
  proof (induction "je - q" arbitrary: q fd rule: less_induct)
    case less
    have fd_in: "\<And>d. fd = Some d \<Longrightarrow> d < cap m" using less.prems(3) pos by auto
    have q: "q < ?n" using less.prems(1) je(1) by simp
    show ?case
    proof (cases "ctrl m ! ?s q = CTRL_EMPTY")
      case True
      have "\<exists>i. target hash (ctrl m) key i \<and> i = (case fd of Some d \<Rightarrow> d | None \<Rightarrow> ?s q) \<and>
          (ctrl m ! i = CTRL_EMPTY \<longleftrightarrow> fd = None)"
        using less.prems(2,3) True tgt q by (cases fd) auto
      then show ?thesis
        using True absent fd_in q pos
        by (subst insert_loop_step [OF pr]) (auto simp: Let_def)
    next
      case False
      then have "q < je" using less.prems(1) je(2) e(2) by (cases "q = je") auto
      let ?fd = "if ctrl m ! ?s q = CTRL_DELETED \<and> fd = None then Some (?s q) else fd"
      have "\<forall>j' < q + 1. ctrl m ! ?s j' \<noteq> CTRL_EMPTY"
        using less.prems(2) False by (auto simp: less_Suc_eq)
      moreover have "?fd = None \<or> (\<exists>d < q + 1. ?fd = Some (?s d) \<and> ctrl m ! ?s d = CTRL_DELETED)"
        using less.prems(3) by auto
      ultimately have "\<exists>i. target hash (ctrl m) key i \<and>
          insert_loop store m key val (tag_of (hash key)) (?s (q + 1)) ?fd (q + 1) = ?out i"
        using \<open>q < je\<close> by (intro less.hyps) auto
      then show ?thesis
        using False absent fd_in q pos by (subst insert_loop_step [OF pr]) simp_all
    qed
  qed
  from this [of 0 None] pos obtain i where "target hash (ctrl m) key i"
    and "insert_loop store m key val (tag_of (hash key)) ?h None 0 = ?out i" by auto
  then show ?thesis by (rule that)
qed

subsection \<open>Growing the table\<close>

lemma find_empty_target:
  assumes "table_ok hash c es" and "length c = n" and "e < n" and "c ! e = CTRL_EMPTY"
  obtains i where "find_empty n c n (home_of (hash k) n) = Some i" and "target hash c k i"
    and "c ! i = CTRL_EMPTY"
proof -
  let ?s = "slot_at (home_of (hash k) n) n"
  have pos: "0 < n" using assms(3) by simp
  obtain je where je: "je < n" "?s je = e" using slot_at_surj [OF assms(3)] by metis
  have "\<exists>j < n. find_empty f c n (?s q) = Some (?s j) \<and> c ! ?s j = CTRL_EMPTY \<and>
      (\<forall>j' < j. c ! ?s j' \<noteq> CTRL_EMPTY)"
    if "q \<le> je" "\<forall>j' < q. c ! ?s j' \<noteq> CTRL_EMPTY" "je - q < f" for f q
    using that
  proof (induction f arbitrary: q)
    case 0
    then show ?case by simp
  next
    case (Suc f)
    have q: "q < n" using Suc.prems(1) je(1) by simp
    show ?case
    proof (cases "c ! ?s q = CTRL_EMPTY")
      case True
      then show ?thesis using q Suc.prems(2) assms(2) pos by auto
    next
      case False
      then have "q < je" using Suc.prems(1) je(2) assms(4) by (cases "q = je") auto
      with Suc.IH [of "Suc q"] Suc.prems False show ?thesis
        using assms(2) pos by (auto simp: less_Suc_eq)
    qed
  qed
  from this [of 0 n] je(1) pos obtain j where "j < n" "find_empty n c n (home_of (hash k) n) = Some (?s j)"
    "c ! ?s j = CTRL_EMPTY" "\<forall>j' < j. c ! ?s j' \<noteq> CTRL_EMPTY"
    by auto
  then show ?thesis using that [of "?s j"] assms(2) pos unfolding target_def by auto
qed


text \<open>What the rehash loop has done before index \<open>i\<close>: the new table is well formed,
  has no deleted slots, and holds the entries of the old slots below \<open>i\<close>.\<close>

definition rehashed :: "('k \<Rightarrow> u64) \<Rightarrow> 'k hashmap \<Rightarrow> nat \<Rightarrow> nat \<Rightarrow> int list \<Rightarrow>
    'k entry option list \<Rightarrow> bool" where
  "rehashed hash m n i nc ne \<longleftrightarrow>
     table_ok hash nc ne \<and> length nc = n \<and>
     (\<forall>k v. (\<exists>x. holds nc ne x k v) \<longleftrightarrow> (\<exists>x < i. holds (ctrl m) (entries m) x k v)) \<and>
     cnt (\<lambda>x. x \<noteq> CTRL_EMPTY) nc = cnt (\<lambda>x. 0 \<le> x) (take i (ctrl m)) \<and>
     cnt (\<lambda>x. 0 \<le> x) nc = cnt (\<lambda>x. 0 \<le> x) (take i (ctrl m))"

lemma holds_replicate_empty [simp]: "\<not> holds (replicate n CTRL_EMPTY) es i k v"
  by (auto simp: holds_def ctrl_defs)

lemma table_ok_replicate: "table_ok hash (replicate n CTRL_EMPTY) (replicate n None)"
  by (simp add: table_ok_def)

lemma rehashed_start: "rehashed hash m n 0 (replicate n CTRL_EMPTY) (replicate n None)"
  by (simp add: rehashed_def table_ok_replicate)

lemma rehashed_skip:
  assumes "rehashed hash m n i nc ne" and "i < length (ctrl m)" and "\<not> 0 \<le> ctrl m ! i"
  shows "rehashed hash m n (Suc i) nc ne"
proof -
  have "(\<exists>x < Suc i. holds (ctrl m) (entries m) x k v) \<longleftrightarrow>
      (\<exists>x < i. holds (ctrl m) (entries m) x k v)" for k v
    using assms(3) by (auto simp: less_Suc_eq holds_def)
  with assms show ?thesis by (simp add: rehashed_def cnt_take_Suc)
qed

lemma rehashed_move:
  assumes r: "rehashed hash m n i nc ne" and pr: "table_ok hash (ctrl m) (entries m)"
    and i: "i < length (ctrl m)" "0 \<le> ctrl m ! i" "length (ctrl m) < n"
    and e: "entries m ! i = Some (k, v)"
  obtains t where "find_empty n nc n (home_of (hash k) n) = Some t" and "t < n"
    and "rehashed hash m n (Suc i) (nc[t := tag_of (hash k)]) (ne[t := Some (k, v)])"
proof -
  have ok: "table_ok hash nc ne" and len: "length nc = n" using r by (auto simp: rehashed_def)
  have here: "holds (ctrl m) (entries m) i k v" using i e by (simp add: holds_def)
  have "cnt (\<lambda>x. x \<noteq> CTRL_EMPTY) nc < length nc"
    using r i(3) cnt_le_length [of "\<lambda>x. 0 \<le> x" "take i (ctrl m)"]
    by (simp add: rehashed_def)
  then obtain e where "e < n" "nc ! e = CTRL_EMPTY"
    using cnt_less_length_ex [of "\<lambda>x. x \<noteq> CTRL_EMPTY" nc] len by auto
  then obtain t where t: "find_empty n nc n (home_of (hash k) n) = Some t"
      "target hash nc k t" "nc ! t = CTRL_EMPTY"
    using find_empty_target [OF ok len] by metis
  then have tn: "t < n" using len by (simp add: target_def)
  have absent: "\<not> holds nc ne x k w" for x w
  proof
    assume "holds nc ne x k w"
    then obtain y where "y < i" "holds (ctrl m) (entries m) y k w"
      using r unfolding rehashed_def by blast
    then show False using table_okD(4) [OF pr here] by blast
  qed
  note fill = table_ok_fill [OF ok t(2) absent, of v]
  have "(\<exists>x. holds (nc[t := tag_of (hash k)]) (ne[t := Some (k, v)]) x k' v') \<longleftrightarrow>
      (\<exists>x < Suc i. holds (ctrl m) (entries m) x k' v')" for k' v'
  proof -
    have "(\<exists>x. holds (nc[t := tag_of (hash k)]) (ne[t := Some (k, v)]) x k' v') \<longleftrightarrow>
        k' = k \<and> v' = v \<or> (\<exists>x. holds nc ne x k' v')"
    proof -
      have "\<not> holds nc ne t k' v'" using t(3) by (simp add: holds_def)
      then show ?thesis
        using holds_fill [OF ok, of t "hash k" k v] tn len t(3) by (metis ctrl_neg(1))
    qed
    also have "\<dots> \<longleftrightarrow> k' = k \<and> v' = v \<or> (\<exists>x < i. holds (ctrl m) (entries m) x k' v')"
      using r by (simp add: rehashed_def)
    also have "\<dots> \<longleftrightarrow> (\<exists>x < Suc i. holds (ctrl m) (entries m) x k' v')"
      using here by (auto simp: less_Suc_eq holds_def)
    finally show ?thesis .
  qed
  moreover have "cnt (\<lambda>x. x \<noteq> CTRL_EMPTY) (nc[t := tag_of (hash k)]) = Suc (cnt (\<lambda>x. x \<noteq> CTRL_EMPTY) nc)"
    "cnt (\<lambda>x. 0 \<le> x) (nc[t := tag_of (hash k)]) = Suc (cnt (\<lambda>x. 0 \<le> x) nc)"
    using cnt_update [of t nc "\<lambda>x. x \<noteq> CTRL_EMPTY"] cnt_update [of t nc "\<lambda>x. 0 \<le> x"] tn len t(3)
    by simp_all
  ultimately have "rehashed hash m n (Suc i) (nc[t := tag_of (hash k)]) (ne[t := Some (k, v)])"
    using r i fill(1) len by (simp add: rehashed_def cnt_take_Suc)
  with t(1) tn that show ?thesis by blast
qed

lemma rehash_loop_ok:
  assumes pr: "table_ok hash (ctrl m) (entries m)" "length (ctrl m) = cap m" "cap m < n"
    and "rehashed hash m n i nc ne" and "i \<le> cap m"
  shows "\<exists>nc' ne'. rehash_loop hash m n i nc ne = Some (nc', ne') \<and> rehashed hash m n (cap m) nc' ne'"
  using assms(4,5)
proof (induction "cap m - i" arbitrary: i nc ne)
  case 0
  then show ?case by (subst rehash_loop.simps) simp
next
  case (Suc d)
  then have i: "i < cap m" and d: "d = cap m - (i + 1)" "i + 1 \<le> cap m" by simp_all
  show ?case
  proof (cases "0 \<le> ctrl m ! i")
    case True
    then obtain k v where e: "entries m ! i = Some (k, v)"
      using table_okD(2) [OF pr(1), of i] i pr(2) by auto
    obtain t where t: "find_empty n nc n (home_of (hash k) n) = Some t" "t < n"
      "rehashed hash m n (Suc i) (nc[t := tag_of (hash k)]) (ne[t := Some (k, v)])"
      using rehashed_move [OF Suc.prems(1) pr(1) _ True _ e] i pr(2,3) by metis
    have "length nc = n" "length ne = n" "length (entries m) = cap m"
      using Suc.prems(1) table_okD(1) [OF pr(1)] pr(2) table_okD(1) [of hash nc ne]
      by (auto simp: rehashed_def)
    then have "rehash_loop hash m n i nc ne =
        rehash_loop hash m n (i + 1) (nc[t := tag_of (hash k)]) (ne[t := Some (k, v)])"
      using i pr(2) True e t(1,2) by (subst rehash_loop.simps) simp
    with Suc.hyps(1) [OF d(1)] t(3) d(2) show ?thesis by simp
  next
    case False
    then have "rehash_loop hash m n i nc ne = rehash_loop hash m n (i + 1) nc ne"
      using i pr(2) by (subst rehash_loop.simps) simp
    with Suc.hyps(1) [OF d(1)] rehashed_skip [OF Suc.prems(1) _ False] d(2) i pr(2)
    show ?thesis by simp
  qed
qed

lemma sw_grow_ok:
  assumes inv: "hm_inv hash m"
  obtains m' where "sw_grow hash m = Some m'" and "hm_inv hash m'" and "hm_map m' = hm_map m"
    and "0 < growth_left m'"
proof -
  let ?n = "if cap m = 0 then INITIAL_CAP else cap m * 2"
  have ok: "table_ok hash (ctrl m) (entries m)" and n: "length (ctrl m) = cap m"
    and c8: "cap m = 0 \<or> 8 \<le> cap m" and l: "len m = int (cnt (\<lambda>x. 0 \<le> x) (ctrl m))"
    and g: "cnt (\<lambda>x. x \<noteq> CTRL_EMPTY) (ctrl m) \<le> (cap m * 7) div 8"
    using inv by (auto simp: hm_inv_def)
  have "cap m < ?n" using c8 by auto
  then obtain nc ne where r: "rehash_loop hash m ?n 0 (replicate ?n CTRL_EMPTY) (replicate ?n None)
      = Some (nc, ne)" "rehashed hash m ?n (cap m) nc ne"
    using rehash_loop_ok [OF ok n _ rehashed_start] by blast
  let ?m = "m\<lparr>ctrl := nc, entries := ne, cap := ?n,
       growth_left := int ((?n * 7) div 8) - len m\<rparr>"
  have full: "cnt (\<lambda>x. x \<noteq> CTRL_EMPTY) nc = cnt (\<lambda>x. 0 \<le> x) (ctrl m)"
     "cnt (\<lambda>x. 0 \<le> x) nc = cnt (\<lambda>x. 0 \<le> x) (ctrl m)" "length nc = ?n" "table_ok hash nc ne"
    using r(2) n by (simp_all add: rehashed_def)
  have le: "cnt (\<lambda>x. 0 \<le> x) (ctrl m) \<le> (cap m * 7) div 8"
  proof (rule order_trans [OF _ g], rule cnt_mono)
    show "0 \<le> x \<Longrightarrow> x \<noteq> CTRL_EMPTY" for x :: int by auto
  qed
  moreover have "(cap m * 7) div 8 < (?n * 7) div 8" using c8 by auto
  ultimately have pos: "0 < growth_left ?m" using l by simp
  have "table_map nc ne = table_map (ctrl m) (entries m)"
  proof (rule table_map_eqI [OF full(4)])
    fix k v
    have "(\<exists>x. holds nc ne x k v) \<longleftrightarrow> (\<exists>x < cap m. holds (ctrl m) (entries m) x k v)"
      using r(2) by (simp add: rehashed_def)
    also have "\<dots> \<longleftrightarrow> (\<exists>x. holds (ctrl m) (entries m) x k v)"
      using n by (auto simp: holds_def)
    finally show "table_map (ctrl m) (entries m) k = Some v \<longleftrightarrow> (\<exists>x. holds nc ne x k v)"
      by (simp add: table_map_Some_iff [OF ok])
  qed
  then have "hm_map ?m = hm_map m" by (simp add: hm_map_def)
  moreover have "hm_inv hash ?m" using full c8 l pos by (auto simp: hm_inv_def)
  moreover have "sw_grow hash m = Some ?m" using r(1) by (simp add: sw_grow_def)
  ultimately show ?thesis using that pos by blast
qed

subsection \<open>The operations refine a finite map\<close>

lemma hm_inv_probing: "hm_inv hash m \<Longrightarrow> cap m \<noteq> 0 \<Longrightarrow> probing hash m"
  by (simp add: hm_inv_def probing_def)

lemma hm_inv_table_ok: "hm_inv hash m \<Longrightarrow> table_ok hash (ctrl m) (entries m)"
  by (simp add: hm_inv_def)

lemma hm_inv_empty_slot:
  assumes "hm_inv hash m" and "cap m \<noteq> 0"
  obtains e where "e < cap m" and "ctrl m ! e = CTRL_EMPTY"
proof -
  have "cnt (\<lambda>x. x \<noteq> CTRL_EMPTY) (ctrl m) \<le> (cap m * 7) div 8" "length (ctrl m) = cap m"
    using assms by (auto simp: hm_inv_def)
  then have "cnt (\<lambda>x. x \<noteq> CTRL_EMPTY) (ctrl m) < length (ctrl m)" using assms(2) by linarith
  then obtain e where "e < length (ctrl m)" "ctrl m ! e = CTRL_EMPTY"
    using cnt_less_length_ex [of "\<lambda>x. x \<noteq> CTRL_EMPTY" "ctrl m"] by auto
  then show ?thesis using that \<open>length (ctrl m) = cap m\<close> by simp
qed

lemma hm_map_cap0: "hm_inv hash m \<Longrightarrow> cap m = 0 \<Longrightarrow> hm_map m = Map.empty"
  by (auto simp: hm_inv_def hm_map_def table_map_def)

lemma round_cap_ge: "0 < c \<Longrightarrow> c \<le> round_cap c n"
  by (induction c n rule: round_cap.induct) (subst round_cap.simps, force)

theorem sw_new_ok:
  fixes hash :: "'k \<Rightarrow> u64"
  shows "hm_inv hash (sw_new n)" and "hm_map (sw_new n :: 'k hashmap) = Map.empty"
proof -
  have "8 \<le> round_cap 8 n" using round_cap_ge [of 8 n] by simp
  then show "hm_inv hash (sw_new n)"
    by (simp add: sw_new_def hm_inv_def table_ok_replicate Let_def) (simp add: table_ok_def holds_def)
  have "table_map (replicate c CTRL_EMPTY) es k = None" for c es and k :: 'k
    by (rule table_map_None) simp
  then show "hm_map (sw_new n :: 'k hashmap) = Map.empty"
    by (intro ext) (simp add: sw_new_def hm_map_def Let_def table_map_def [of "[]"])
qed

theorem sw_get_ok:
  assumes "hm_inv hash m"
  shows "sw_get hash m k = Some (case hm_map m k of None \<Rightarrow> 0 | Some v \<Rightarrow> v)"
proof (cases "cap m = 0")
  case True
  then show ?thesis using hm_map_cap0 [OF assms] by (simp add: sw_get_def)
next
  case False
  note pr = hm_inv_probing [OF assms False]
  show ?thesis
  proof (cases "hm_map m k")
    case None
    then have "\<not> present m i k" for i
      using table_map_None_iff [OF hm_inv_table_ok [OF assms]] by (simp add: hm_map_def present_def)
    with None False get_loop_absent [OF pr] show ?thesis by (simp add: sw_get_def)
  next
    case (Some v)
    then obtain i where "holds (ctrl m) (entries m) i k v"
      using table_map_Some_iff [OF hm_inv_table_ok [OF assms]] by (auto simp: hm_map_def)
    with Some False get_loop_present [OF pr] show ?thesis by (simp add: sw_get_def)
  qed
qed

theorem sw_remove_ok:
  assumes inv: "hm_inv hash m"
  shows "\<exists>m'. sw_remove hash m k = Some (if k \<in> dom (hm_map m) then 1 else 0, m') \<and>
     hm_inv hash m' \<and> hm_map m' = (hm_map m)(k := None)"
proof (cases "hm_map m k")
  case None
  then have absent: "\<not> present m i k" for i
    using table_map_None_iff [OF hm_inv_table_ok [OF inv]] by (simp add: hm_map_def present_def)
  have "sw_remove hash m k = Some (0, m)"
    using remove_loop_absent [OF hm_inv_probing [OF inv]] absent by (simp add: sw_remove_def)
  with None inv show ?thesis by (auto simp: fun_upd_idem domIff)
next
  case (Some v)
  note ok = hm_inv_table_ok [OF inv]
  have c: "cap m \<noteq> 0" using Some hm_map_cap0 [OF inv] by (cases "cap m = 0") auto
  obtain i where h: "holds (ctrl m) (entries m) i k v"
    using Some table_map_Some_iff [OF ok] by (auto simp: hm_map_def)
  then have i: "i < length (ctrl m)" "0 \<le> ctrl m ! i" by (auto simp: holds_def)
  let ?m = "m\<lparr>ctrl := (ctrl m)[i := CTRL_DELETED], len := len m - 1\<rparr>"
  have "sw_remove hash m k = Some (1, ?m)"
    using remove_loop_present [OF hm_inv_probing [OF inv c] h] c by (simp add: sw_remove_def)
  moreover have "hm_map ?m = (hm_map m)(k := None)"
    using table_ok_delete(2) [OF ok h] by (simp add: hm_map_def)
  moreover have "hm_inv hash ?m"
    using inv table_ok_delete(1) [OF ok h] i cnt_update [OF i(1), of "\<lambda>x. 0 \<le> x" CTRL_DELETED]
      cnt_update [OF i(1), of "\<lambda>x. x \<noteq> CTRL_EMPTY" CTRL_DELETED]
    by (auto simp: hm_inv_def split: if_splits)
  ultimately show ?thesis using Some by (auto simp: domIff)
qed

lemma insert_at_target:
  fixes v :: int
  assumes inv: "hm_inv hash m" and "0 < growth_left m" and t: "target hash (ctrl m) k i"
    and absent: "\<And>i v. \<not> holds (ctrl m) (entries m) i k v"
  defines "m' \<equiv> m\<lparr>ctrl := (ctrl m)[i := tag_of (hash k)],
             entries := (entries m)[i := Some (k, v)], len := len m + 1,
             growth_left := growth_left m - (if ctrl m ! i = CTRL_EMPTY then 1 else 0)\<rparr>"
  shows "hm_inv hash m'" and "hm_map m' = (hm_map m)(k \<mapsto> v)"
proof -
  have i: "i < length (ctrl m)" "\<not> 0 \<le> ctrl m ! i" using t by (auto simp: target_def)
  note fill = table_ok_fill [OF hm_inv_table_ok [OF inv] t absent, of v]
  show "hm_map m' = (hm_map m)(k \<mapsto> v)" using fill(2) by (simp add: m'_def hm_map_def)
  show "hm_inv hash m'"
    using inv assms(2) fill(1) i cnt_update [OF i(1), of "\<lambda>x. 0 \<le> x" "tag_of (hash k)"]
      cnt_update [OF i(1), of "\<lambda>x. x \<noteq> CTRL_EMPTY" "tag_of (hash k)"]
    by (auto simp: m'_def hm_inv_def split: if_splits)
qed

theorem sw_insert_ok:
  assumes inv0: "hm_inv hash m0" and store: "store k = k"
  shows "\<exists>m'. sw_insert hash store m0 k v = Some m' \<and> hm_inv hash m' \<and>
     hm_map m' = (hm_map m0)(k \<mapsto> v)"
proof -
  have "0 \<le> growth_left m0" using inv0 by (simp add: hm_inv_def)
  then obtain m where m: "(if growth_left m0 = 0 then sw_grow hash m0 else Some m0) = Some m"
    and inv: "hm_inv hash m" and eq: "hm_map m = hm_map m0" and pos: "0 < growth_left m"
    using inv0 sw_grow_ok [OF inv0] by (metis le_less)
  have c: "cap m \<noteq> 0" using pos inv by (auto simp: hm_inv_def)
  note pr = hm_inv_probing [OF inv c] and ok = hm_inv_table_ok [OF inv]
  have run: "sw_insert hash store m0 k v =
      insert_loop store m k v (tag_of (hash k)) (home_of (hash k) (cap m)) None 0"
    using m c by (simp add: sw_insert_def)
  show ?thesis
  proof (cases "hm_map m k")
    case None
    then have absent: "\<And>i v. \<not> holds (ctrl m) (entries m) i k v"
      using table_map_None_iff [OF ok] by (simp add: hm_map_def)
    obtain e where "e < cap m" "ctrl m ! e = CTRL_EMPTY" using hm_inv_empty_slot [OF inv c] .
    then obtain i where "target hash (ctrl m) k i"
      and "insert_loop store m k v (tag_of (hash k)) (home_of (hash k) (cap m)) None 0 =
      Some (m\<lparr>ctrl := (ctrl m)[i := tag_of (hash k)],
             entries := (entries m)[i := Some (store k, v)], len := len m + 1,
             growth_left := growth_left m - (if ctrl m ! i = CTRL_EMPTY then 1 else 0)\<rparr>)"
      using insert_loop_absent [OF pr] absent by (metis present_def)
    with insert_at_target [OF inv pos _ absent, of i v] store run eq show ?thesis by simp
  next
    case (Some w)
    then obtain i where h: "holds (ctrl m) (entries m) i k w"
      using table_map_Some_iff [OF ok] by (auto simp: hm_map_def)
    with insert_loop_present [OF pr h] table_ok_set_val [OF ok h, of v] run eq inv
    show ?thesis by (simp add: hm_inv_def hm_map_def)
  qed
qed

end
