(* ===== verification/Map_Bench.thy ===== *)
theory Map_Bench
  imports Prelude
begin

text \<open>
  The interface between a hash map and its client, and the client: the body that the
  \<^verbatim>\<open>main\<close> functions of src/benchmarks/hashmap_bench.c and
  src/benchmarks/string_hashmap_bench.c run once per iteration (fill, sum, remove every
  other key, re-insert, sum). The operations are arguments of the client; the locale states
  what it needs of them, and its checksum is computed once, inside the locale.
\<close>

definition sum_values :: "('m \<Rightarrow> 'k \<Rightarrow> int option) \<Rightarrow> (nat \<Rightarrow> 'k) \<Rightarrow> 'm \<Rightarrow> nat \<Rightarrow> int \<Rightarrow> int option" where
  "sum_values get key m n checksum =
     for_upto 0 n (\<lambda>i cs. do { v \<leftarrow> get m (key i); i64 (cs + v) }) checksum"

definition bench_iter :: "(int \<Rightarrow> 'm) \<Rightarrow> ('m \<Rightarrow> 'k \<Rightarrow> int option) \<Rightarrow> ('m \<Rightarrow> 'k \<Rightarrow> int \<Rightarrow> 'm option) \<Rightarrow>
    ('m \<Rightarrow> 'k \<Rightarrow> (int \<times> 'm) option) \<Rightarrow> (nat \<Rightarrow> 'k) \<Rightarrow> int \<Rightarrow> int option" where
  "bench_iter new get put del key checksum = do {
     m \<leftarrow> for_upto 0 1000 (\<lambda>i m. put m (key i) (int i * 7)) (new 16);
     cs \<leftarrow> sum_values get key m 1000 checksum;
     m \<leftarrow> for_upto 0 500 (\<lambda>i m. do { (r, m') \<leftarrow> del m (key (i * 2)); Some m' }) m;
     m \<leftarrow> for_upto 0 500 (\<lambda>i m. put m (key (i * 2)) (int i * 11)) m;
     sum_values get key m 1000 cs }"

text \<open>A sequence of map operations with the values it returns, on an implementation and on
  the map it stands for. An insertion returns nothing, a removal whether the key was there,
  a lookup the value or 0.\<close>

datatype 'k map_op = Insert 'k int | Remove 'k | Lookup 'k

fun run_ops :: "('m \<Rightarrow> 'k \<Rightarrow> int option) \<Rightarrow> ('m \<Rightarrow> 'k \<Rightarrow> int \<Rightarrow> 'm option) \<Rightarrow>
    ('m \<Rightarrow> 'k \<Rightarrow> (int \<times> 'm) option) \<Rightarrow> 'k map_op list \<Rightarrow> 'm \<Rightarrow> int list option" where
  "run_ops get put del [] m = Some []"
| "run_ops get put del (Insert k v # ops) m =
     do { m' \<leftarrow> put m k v; run_ops get put del ops m' }"
| "run_ops get put del (Remove k # ops) m =
     do { (r, m') \<leftarrow> del m k; rs \<leftarrow> run_ops get put del ops m'; Some (r # rs) }"
| "run_ops get put del (Lookup k # ops) m =
     do { v \<leftarrow> get m k; rs \<leftarrow> run_ops get put del ops m; Some (v # rs) }"

fun spec_ops :: "'k map_op list \<Rightarrow> ('k \<rightharpoonup> int) \<Rightarrow> int list" where
  "spec_ops [] M = []"
| "spec_ops (Insert k v # ops) M = spec_ops ops (M(k \<mapsto> v))"
| "spec_ops (Remove k # ops) M = (if k \<in> dom M then 1 else 0) # spec_ops ops (M(k := None))"
| "spec_ops (Lookup k # ops) M = (case M k of None \<Rightarrow> 0 | Some v \<Rightarrow> v) # spec_ops ops M"

fun inserted :: "'k map_op list \<Rightarrow> 'k set" where
  "inserted [] = {}"
| "inserted (Insert k v # ops) = insert k (inserted ops)"
| "inserted (_ # ops) = inserted ops"

subsection \<open>The map interface\<close>

locale map_impl =
  fixes inv :: "'m \<Rightarrow> bool"
    and abs :: "'m \<Rightarrow> 'k \<rightharpoonup> int"
    and ok :: "'k \<Rightarrow> bool"
    and new :: "int \<Rightarrow> 'm"
    and get :: "'m \<Rightarrow> 'k \<Rightarrow> int option"
    and put :: "'m \<Rightarrow> 'k \<Rightarrow> int \<Rightarrow> 'm option"
    and del :: "'m \<Rightarrow> 'k \<Rightarrow> (int \<times> 'm) option"
  assumes inv_new: "inv (new n)"
    and abs_new: "abs (new n) = Map.empty"
    and get_spec: "inv m \<Longrightarrow> get m k = Some (case abs m k of None \<Rightarrow> 0 | Some v \<Rightarrow> v)"
    and put_spec: "inv m \<Longrightarrow> ok k \<Longrightarrow>
          \<exists>m'. put m k v = Some m' \<and> inv m' \<and> abs m' = (abs m)(k \<mapsto> v)"
    and del_spec: "inv m \<Longrightarrow>
          \<exists>m'. del m k = Some (if k \<in> dom (abs m) then 1 else 0, m') \<and> inv m' \<and>
            abs m' = (abs m)(k := None)"
begin

lemma get_after_put:
  assumes "inv m" and "ok k" and "put m k v = Some m'"
  shows "get m' k' = (if k' = k then Some v else get m k')"
  using put_spec [OF assms(1,2), of v] assms(3) get_spec assms(1) by (auto simp: fun_upd_apply)

lemma get_after_del:
  assumes "inv m" and "del m k = Some (r, m')"
  shows "get m' k' = (if k' = k then Some 0 else get m k')"
  using del_spec [OF assms(1), of k] assms(2) get_spec assms(1) by (auto simp: fun_upd_apply)

text \<open>Every sequence of operations returns what the map it stands for returns.\<close>

lemma run_ops_spec:
  "inv m \<Longrightarrow> (\<And>k. k \<in> inserted ops \<Longrightarrow> ok k) \<Longrightarrow>
     run_ops get put del ops m = Some (spec_ops ops (abs m))"
proof (induction ops arbitrary: m)
  case Nil
  then show ?case by simp
next
  case (Cons x ops)
  show ?case
  proof (cases x)
    case (Insert k v)
    then have "ok k" using Cons.prems(2) by simp
    then obtain m' where "put m k v = Some m'" "inv m'" "abs m' = (abs m)(k \<mapsto> v)"
      using put_spec [OF Cons.prems(1)] by blast
    with Insert Cons show ?thesis by simp
  next
    case (Remove k)
    obtain m' where "del m k = Some (if k \<in> dom (abs m) then 1 else 0, m')" "inv m'"
      "abs m' = (abs m)(k := None)" using del_spec [OF Cons.prems(1)] by blast
    with Remove Cons show ?thesis by simp
  next
    case (Lookup k)
    with Cons get_spec [OF Cons.prems(1)] show ?thesis by simp
  qed
qed

corollary run_ops_from_new:
  "(\<And>k. k \<in> inserted ops \<Longrightarrow> ok k) \<Longrightarrow>
     run_ops get put del ops (new n) = Some (spec_ops ops Map.empty)"
  using run_ops_spec [OF inv_new] by (simp add: abs_new)

text \<open>The sum loop adds the value of each key.\<close>

lemma sum_values_spec:
  assumes "inv m" and "\<And>j. j < n \<Longrightarrow> abs m (key j) = Some (f j)"
    and "\<And>j. j < n \<Longrightarrow> 0 \<le> f j" and "0 \<le> cs" and "cs + (\<Sum>j < n. f j) < 9223372036854775808"
  shows "sum_values get key m n cs = Some (cs + (\<Sum>j < n. f j))"
proof -
  have "\<exists>s'. for_upto 0 n (\<lambda>i cs. do { v \<leftarrow> get m (key i); i64 (cs + v) }) cs = Some s' \<and>
      s' = cs + (\<Sum>j < n. f j)"
  proof (rule for_upto_inv)
    fix i s assume i: "i < n" and s: "s = cs + (\<Sum>j < i. f j)"
    have "(\<Sum>j < Suc i. f j) \<le> (\<Sum>j < n. f j)"
      using i assms(3) by (intro sum_mono2) auto
    moreover have "0 \<le> (\<Sum>j < Suc i. f j)"
      using i assms(3) by (intro sum_nonneg) auto
    ultimately have "i64 (s + f i) = Some (cs + (\<Sum>j < Suc i. f j))"
      using assms(4,5) s by (subst i64_in) auto
    then show "\<exists>s'. (do { v \<leftarrow> get m (key i); i64 (s + v) }) = Some s' \<and> s' = cs + (\<Sum>j < Suc i. f j)"
      using get_spec [OF assms(1)] assms(2) [OF i] by simp
  qed auto
  then show ?thesis by (simp add: sum_values_def)
qed

lemma fill_spec:
  assumes "inj_on key {..<1000}" and "\<And>i. i < 1000 \<Longrightarrow> ok (key i)"
  obtains m where "for_upto 0 1000 (\<lambda>i m. put m (key i) (int i * 7)) (new 16) = Some m"
    and "inv m" and "\<And>j. j < 1000 \<Longrightarrow> abs m (key j) = Some (int j * 7)"
proof -
  have "\<exists>m. for_upto 0 1000 (\<lambda>i m. put m (key i) (int i * 7)) (new 16) = Some m \<and>
      (inv m \<and> (\<forall>j < 1000. abs m (key j) = Some (int j * 7)))"
  proof (rule for_upto_inv [where P = "\<lambda>i m. inv m \<and> (\<forall>j < i. abs m (key j) = Some (int j * 7))"])
    fix i m assume i: "i < (1000::nat)"
      and m: "inv m \<and> (\<forall>j < i. abs m (key j) = Some (int j * 7))"
    then obtain m' where "put m (key i) (int i * 7) = Some m'" "inv m'"
      "abs m' = (abs m)(key i \<mapsto> int i * 7)" using put_spec assms(2) by blast
    moreover have "j < i \<Longrightarrow> key j \<noteq> key i" for j
      using i inj_on_eq_iff [OF assms(1)] by auto
    ultimately show "\<exists>m'. put m (key i) (int i * 7) = Some m' \<and>
        (inv m' \<and> (\<forall>j < Suc i. abs m' (key j) = Some (int j * 7)))"
      using m by (auto simp: less_Suc_eq)
  qed (auto simp: inv_new)
  then show ?thesis using that by blast
qed

lemma remove_spec:
  assumes "inj_on key {..<1000}" and "inv m0"
    and m0: "\<And>j. j < 1000 \<Longrightarrow> abs m0 (key j) = Some (int j * 7)"
  obtains m where
    "for_upto 0 500 (\<lambda>i m. do { (r, m') \<leftarrow> del m (key (i * 2)); Some m' }) m0 = Some m"
    and "inv m"
    and "\<And>j. j < 1000 \<Longrightarrow> abs m (key j) = (if even j then None else Some (int j * 7))"
proof -
  have "\<exists>m. for_upto 0 500 (\<lambda>i m. do { (r, m') \<leftarrow> del m (key (i * 2)); Some m' }) m0 = Some m \<and>
      (inv m \<and> (\<forall>j < 1000. abs m (key j) =
         (if even j \<and> j < 2 * 500 then None else Some (int j * 7))))"
  proof (rule for_upto_inv)
    show "inv m0 \<and> (\<forall>j < 1000. abs m0 (key j) =
        (if even j \<and> j < 2 * 0 then None else Some (int j * 7)))"
      using assms(2) m0 by simp
  next
    fix i m assume "i < (500::nat)"
      and m: "inv m \<and> (\<forall>j < 1000. abs m (key j) =
        (if even j \<and> j < 2 * i then None else Some (int j * 7)))"
    then obtain r m' where d: "del m (key (i * 2)) = Some (r, m')" "inv m'"
      "abs m' = (abs m)(key (i * 2) := None)" using del_spec by blast
    have K: "j < 1000 \<Longrightarrow> key j = key (i * 2) \<longleftrightarrow> j = i * 2" for j
      using \<open>i < 500\<close> inj_on_eq_iff [OF assms(1), of j "i * 2"] by auto
    have "even j \<Longrightarrow> j < 2 * Suc i \<longleftrightarrow> j < 2 * i \<or> j = i * 2" for j by presburger
    with d m \<open>i < 500\<close> show "\<exists>m'. (do { (r, m') \<leftarrow> del m (key (i * 2)); Some m' }) = Some m' \<and>
        (inv m' \<and> (\<forall>j < 1000. abs m' (key j) =
          (if even j \<and> j < 2 * Suc i then None else Some (int j * 7))))"
      by (auto simp: K)
  qed auto
  then show ?thesis using that by auto
qed

lemma reinsert_spec:
  assumes "inj_on key {..<1000}" and "\<And>i. i < 1000 \<Longrightarrow> ok (key i)" and "inv m0"
    and m0: "\<And>j. j < 1000 \<Longrightarrow> abs m0 (key j) = (if even j then None else Some (int j * 7))"
  obtains m where "for_upto 0 500 (\<lambda>i m. put m (key (i * 2)) (int i * 11)) m0 = Some m"
    and "inv m"
    and "\<And>j. j < 1000 \<Longrightarrow>
      abs m (key j) = Some (if even j then int (j div 2) * 11 else int j * 7)"
proof -
  let ?v = "\<lambda>i j. if even j then (if j < 2 * i then Some (int (j div 2) * 11) else None)
      else Some (int j * 7)"
  have "\<exists>m. for_upto 0 500 (\<lambda>i m. put m (key (i * 2)) (int i * 11)) m0 = Some m \<and>
      (inv m \<and> (\<forall>j < 1000. abs m (key j) = ?v 500 j))"
  proof (rule for_upto_inv)
    show "inv m0 \<and> (\<forall>j < 1000. abs m0 (key j) = ?v 0 j)" using assms(3) m0 by simp
  next
    fix i m assume i: "i < (500::nat)" and m: "inv m \<and> (\<forall>j < 1000. abs m (key j) = ?v i j)"
    then obtain m' where p: "put m (key (i * 2)) (int i * 11) = Some m'" "inv m'"
      "abs m' = (abs m)(key (i * 2) \<mapsto> int i * 11)"
      using put_spec [of m "key (i * 2)"] assms(2) [of "i * 2"] by auto
    have K: "j < 1000 \<Longrightarrow> key j = key (i * 2) \<longleftrightarrow> j = i * 2" for j
      using \<open>i < 500\<close> inj_on_eq_iff [OF assms(1), of j "i * 2"] by auto
    have "even j \<Longrightarrow> j < 2 * Suc i \<longleftrightarrow> j < 2 * i \<or> j = i * 2" for j by presburger
    with p m i show "\<exists>m'. put m (key (i * 2)) (int i * 11) = Some m' \<and>
        (inv m' \<and> (\<forall>j < 1000. abs m' (key j) = ?v (Suc i) j))"
      by (auto simp: K)
  qed auto
  then show ?thesis using that by auto
qed

end

lemma sum_first: "(\<Sum>j < n. int j * 7) * 2 = int n * (int n - 1) * 7"
  by (induction n) (simp_all add: algebra_simps)

lemma sum_second:
  "(\<Sum>j < 2 * n. if even j then int (j div 2) * 11 else int j * 7) * 2
     = int n * (int n - 1) * 11 + int n * int n * 14"
proof (induction n)
  case 0
  then show ?case by simp
next
  case (Suc n)
  have "{..< 2 * Suc n} = insert (2 * n) (insert (2 * n + 1) {..< 2 * n})" by auto
  with Suc show ?case by (simp add: algebra_simps)
qed

context map_impl
begin

text \<open>One iteration adds 6618750 to the checksum, whatever the table looks like inside.\<close>

lemma bench_iter_value:
  assumes key: "inj_on key {..<1000}" "\<And>i. i < 1000 \<Longrightarrow> ok (key i)"
    and cs: "0 \<le> cs" "cs + 6618750 < 9223372036854775808"
  shows "bench_iter new get put del key cs = Some (cs + 6618750)"
proof -
  obtain m1 where m1: "for_upto 0 1000 (\<lambda>i m. put m (key i) (int i * 7)) (new 16) = Some m1"
    "inv m1" "\<And>j. j < 1000 \<Longrightarrow> abs m1 (key j) = Some (int j * 7)"
    using fill_spec [OF key] by blast
  have s1: "(\<Sum>j < 1000. int j * 7) = 3496500" using sum_first [of 1000] by simp
  have g1: "sum_values get key m1 1000 cs = Some (cs + 3496500)"
    using sum_values_spec [of m1 1000 key "\<lambda>j. int j * 7" cs] m1 cs s1 by simp
  obtain m2 where m2:
    "for_upto 0 500 (\<lambda>i m. do { (r, m') \<leftarrow> del m (key (i * 2)); Some m' }) m1 = Some m2" "inv m2"
    "\<And>j. j < 1000 \<Longrightarrow> abs m2 (key j) = (if even j then None else Some (int j * 7))"
    using remove_spec [OF key(1) m1(2)] m1(3) by auto
  obtain m3 where m3: "for_upto 0 500 (\<lambda>i m. put m (key (i * 2)) (int i * 11)) m2 = Some m3"
    "inv m3" "\<And>j. j < 1000 \<Longrightarrow>
      abs m3 (key j) = Some (if even j then int (j div 2) * 11 else int j * 7)"
    using reinsert_spec [OF key m2(2,3)] by blast
  have s2: "(\<Sum>j < 1000. if even j then int (j div 2) * 11 else int j * 7) = 3122250"
    using sum_second [of 500] by simp
  have "sum_values get key m3 1000 (cs + 3496500) = Some (cs + 6618750)"
    using sum_values_spec [of m3 1000 key "\<lambda>j. if even j then int (j div 2) * 11 else int j * 7"
        "cs + 3496500"] m3 cs s2 by simp
  with m1(1) g1 m2(1) m3(1) show ?thesis by (simp add: bench_iter_def)
qed

lemma bench_main_value:
  assumes "inj_on key {..<1000}" and "\<And>i. i < 1000 \<Longrightarrow> ok (key i)" and "n \<le> 1000000"
  shows "for_upto 0 n (\<lambda>iter cs. bench_iter new get put del key cs) 0 = Some (int n * 6618750)"
proof -
  have "\<exists>s. for_upto 0 n (\<lambda>iter cs. bench_iter new get put del key cs) 0 = Some s \<and>
      s = int n * 6618750"
  proof (rule for_upto_inv)
    fix i s assume "i < n" and "s = int i * (6618750::int)"
    with assms(3) show "\<exists>s'. bench_iter new get put del key s = Some s' \<and>
        s' = int (Suc i) * 6618750"
      using bench_iter_value [OF assms(1,2), of s] by (auto simp: algebra_simps)
  qed auto
  then show ?thesis by simp
qed

end

end
