(* ===== verification/Hashmap_I64.thy ===== *)
theory Hashmap_I64
  imports Swiss_Table Map_Bench
begin

text \<open>
  src/benchmarks/hashmap_bench.c: the table with 64-bit integer keys, and the program that
  the file's \<^verbatim>\<open>main\<close> runs.
\<close>

definition hash_i64 :: "int \<Rightarrow> u64" where
  "hash_i64 val =
     (let h = word_of_int val XOR 0xa0761d6478bd642f;
          h = (h XOR drop_bit 32 h) * 0xe7037ed1a0b428db
      in h XOR drop_bit 32 h)"

type_synonym i64_map = "int hashmap"

definition hashmap_new :: "int \<Rightarrow> i64_map" where
  "hashmap_new min_cap = sw_new min_cap"

definition hashmap_get :: "i64_map \<Rightarrow> int \<Rightarrow> int option" where
  "hashmap_get m key = sw_get hash_i64 m key"

definition hashmap_grow :: "i64_map \<Rightarrow> i64_map option" where
  "hashmap_grow m = sw_grow hash_i64 m"

definition hashmap_insert :: "i64_map \<Rightarrow> int \<Rightarrow> int \<Rightarrow> i64_map option" where
  "hashmap_insert m key val = sw_insert hash_i64 (\<lambda>k. k) m key val"

definition hashmap_remove :: "i64_map \<Rightarrow> int \<Rightarrow> (int \<times> i64_map) option" where
  "hashmap_remove m key = sw_remove hash_i64 m key"

definition hashmap_main :: "int option" where
  "hashmap_main =
     for_upto 0 1000
       (\<lambda>iter checksum. bench_iter hashmap_new hashmap_get hashmap_insert hashmap_remove int checksum)
       0"

interpretation i64map: map_impl "hm_inv hash_i64" hm_map "\<lambda>_. True"
  hashmap_new hashmap_get hashmap_insert hashmap_remove
  by unfold_locales
    (simp_all add: hashmap_new_def hashmap_get_def hashmap_insert_def hashmap_remove_def
      sw_new_ok sw_get_ok sw_insert_ok sw_remove_ok)


text \<open>The checksum that the benchmark's main prints is 6618750000, and computing it never
  overflows the signed 64-bit accumulator.\<close>

theorem hashmap_main_checksum: "hashmap_main = Some 6618750000"
  using i64map.bench_main_value [of int 1000] by (simp add: hashmap_main_def inj_of_nat)

end
