(* ===== verification/Hashmap_String.thy ===== *)
theory Hashmap_String
  imports Swiss_Table Map_Bench
begin

text \<open>
  src/benchmarks/string_hashmap_bench.c: the table with string keys. A C string is the list
  of its bytes before the terminating NUL, so none of them is 0; two such strings compare
  equal under strcmp exactly when the lists are equal. A slot stores at most
  \<^verbatim>\<open>MAX_KEY_LEN - 1\<close> bytes of a key, but the hash is that of the whole key.
\<close>

abbreviation (input) MAX_KEY_LEN :: nat where "MAX_KEY_LEN \<equiv> 32"

type_synonym cstring = bytes

fun fnv_loop :: "u64 \<Rightarrow> cstring \<Rightarrow> u64" where
  "fnv_loop h [] = h"
| "fnv_loop h (c # s) = fnv_loop ((h XOR ucast c) * 0x100000001b3) s"

definition hash_string :: "cstring \<Rightarrow> u64" where
  "hash_string s = fnv_loop 0xcbf29ce484222325 s"

definition copy_key :: "cstring \<Rightarrow> cstring" where
  "copy_key key = take (MAX_KEY_LEN - 1) key"

type_synonym str_map = "cstring hashmap"

definition shashmap_new :: "int \<Rightarrow> str_map" where
  "shashmap_new min_cap = sw_new min_cap"

definition shashmap_get :: "str_map \<Rightarrow> cstring \<Rightarrow> int option" where
  "shashmap_get m key = sw_get hash_string m key"

definition shashmap_grow :: "str_map \<Rightarrow> str_map option" where
  "shashmap_grow m = sw_grow hash_string m"

definition shashmap_insert :: "str_map \<Rightarrow> cstring \<Rightarrow> int \<Rightarrow> str_map option" where
  "shashmap_insert m key val = sw_insert hash_string copy_key m key val"

definition shashmap_remove :: "str_map \<Rightarrow> cstring \<Rightarrow> (int \<times> str_map) option" where
  "shashmap_remove m key = sw_remove hash_string m key"

text \<open>\<^verbatim>\<open>snprintf(key_buf, MAX_KEY_LEN, "key_%lld", i)\<close>\<close>

definition bench_key :: "nat \<Rightarrow> cstring" where
  "bench_key i = take (MAX_KEY_LEN - 1) ([0x6B, 0x65, 0x79, 0x5F] @ dec_bytes i)"

definition shashmap_main :: "int option" where
  "shashmap_main =
     for_upto 0 100
       (\<lambda>iter checksum.
          bench_iter shashmap_new shashmap_get shashmap_insert shashmap_remove bench_key checksum)
       0"

interpretation strmap: map_impl "hm_inv hash_string" hm_map "\<lambda>k. length k < MAX_KEY_LEN"
  shashmap_new shashmap_get shashmap_insert shashmap_remove
  by unfold_locales
    (simp_all add: shashmap_new_def shashmap_get_def shashmap_insert_def shashmap_remove_def
      copy_key_def sw_new_ok sw_get_ok sw_insert_ok sw_remove_ok)



text \<open>C38: A key of 32 bytes or more is lost: after inserting it into an empty table, looking
  it up returns 0 whatever value was stored, because the slot holds a truncated copy.\<close>

theorem shashmap_long_key_lost:
  assumes "32 \<le> length k"
  shows "\<exists>m. shashmap_insert (shashmap_new 16) k v = Some m \<and> shashmap_get m k = Some 0"
proof -
  let ?m = "shashmap_new 16" and ?h = "home_of (hash_string k) 16" and ?t = "tag_of (hash_string k)"
  have "round_cap 8 16 = 16" by (simp add: round_cap.simps)
  then have m: "?m = \<lparr>ctrl = replicate 16 CTRL_EMPTY, entries = replicate 16 None, len = 0,
      cap = 16, growth_left = 14\<rparr>"
    by (simp add: shashmap_new_def sw_new_def Let_def)
  let ?m' = "\<lparr>ctrl = (replicate 16 CTRL_EMPTY)[?h := ?t],
      entries = (replicate 16 None)[?h := Some (copy_key k, v)], len = 1,
      cap = 16, growth_left = 13\<rparr>"
  have pr: "probing hash_string ?m"
    by (rule hm_inv_probing) (simp_all add: shashmap_new_def sw_new_ok(1), simp add: m flip: shashmap_new_def)
  have h: "?h < 16" by simp
  have "insert_loop copy_key ?m k v ?t ?h None 0 = Some ?m'"
    using h by (subst insert_loop_step [OF pr]) (simp_all add: m present_def Let_def)
  then have "shashmap_insert ?m k v = Some ?m'"
    by (simp add: shashmap_insert_def sw_insert_def m)
  moreover have "shashmap_get ?m' k = Some 0"
  proof -
    have ne: "copy_key k \<noteq> k"
    proof
      assume "copy_key k = k"
      then have "length (copy_key k) = length k" by simp
      with assms show False by (simp add: copy_key_def)
    qed
    have "Suc ?h mod 16 \<noteq> ?h" by presburger
    then have "get_loop ?m' k ?t (Suc ?h mod 16) 1 = Some 0"
      by (subst get_loop.simps) (simp add: aget_def)
    with ne h have "get_loop ?m' k ?t ?h 0 = Some 0"
      by (subst get_loop.simps) (simp add: aget_def key_eq_def)
    then show ?thesis by (simp add: shashmap_get_def sw_get_def)
  qed
  ultimately show ?thesis by blast
qed

theorem shashmap_long_key_lost_witness:
  "\<exists>m. shashmap_insert (shashmap_new 16) (replicate 32 0x61) 7 = Some m \<and>
     shashmap_get m (replicate 32 0x61) = Some 0"
  by (rule shashmap_long_key_lost) simp

lemma bench_key_short: "i < 1000 \<Longrightarrow> bench_key i = [0x6B, 0x65, 0x79, 0x5F] @ dec_bytes i"
  using length_dec_digits [of i 2] by (simp add: bench_key_def dec_bytes_def)

text \<open>The checksum that the string benchmark's main prints is 661875000.\<close>

theorem shashmap_main_checksum: "shashmap_main = Some 661875000"
proof -
  have "inj_on bench_key {..<1000}"
  proof (rule inj_onI)
    fix i j assume "i \<in> {..<1000}" "j \<in> {..<1000}" "bench_key i = bench_key j"
    then have "dec_bytes i = dec_bytes j" by (simp add: bench_key_short)
    then show "i = j" by (rule dec_bytes_inj)
  qed
  moreover have "length (bench_key i) < 32" for i by (simp add: bench_key_def)
  ultimately show ?thesis
    using strmap.bench_main_value [of bench_key 100] by (simp add: shashmap_main_def)
qed

end
