(* ===== verification/Hash_Set.thy ===== *)
theory Hash_Set
  imports Hashmap_I64
begin

text \<open>
  src/benchmarks/longest_consecutive.c: an open-addressing set of 64-bit integers without
  deletion, and the search for the longest run of consecutive numbers that uses it. The
  probe loops of insertion and growth have no bound in the source; their model counts the
  slots looked at, and a loop that has seen every slot without an empty one would never end.
\<close>

record hashset =
  hs_ctrl :: "int list"
  hs_keys :: "int option list"
  hs_len :: int
  hs_cap :: nat
  hs_growth_left :: int

definition hashset_new :: "int \<Rightarrow> hashset" where
  "hashset_new min_cap =
     (let c = round_cap INITIAL_CAP min_cap in
      \<lparr>hs_ctrl = replicate c CTRL_EMPTY, hs_keys = replicate c None, hs_len = 0, hs_cap = c,
       hs_growth_left = int ((c * LOAD_FACTOR_NUM) div LOAD_FACTOR_DEN)\<rparr>)"

text \<open>The body of the rehash loop: move one key of the old arrays into the new set.\<close>

definition hashset_place :: "hashset \<Rightarrow> int \<Rightarrow> hashset option" where
  "hashset_place s key = do {
     idx \<leftarrow> find_empty (hs_cap s) (hs_ctrl s) (hs_cap s) (home_of (hash_i64 key) (hs_cap s));
     c \<leftarrow> aset (hs_ctrl s) idx (tag_of (hash_i64 key));
     ks \<leftarrow> aset (hs_keys s) idx (Some key);
     Some (s\<lparr>hs_ctrl := c, hs_keys := ks, hs_len := hs_len s + 1,
             hs_growth_left := hs_growth_left s - 1\<rparr>) }"

definition hashset_grow :: "hashset \<Rightarrow> hashset option" where
  "hashset_grow old =
     (let new_cap = hs_cap old * 2 in
      for_upto 0 (hs_cap old)
        (\<lambda>i s. do {
           c \<leftarrow> aget (hs_ctrl old) i;
           (if 0 \<le> c then do { slot \<leftarrow> aget (hs_keys old) i; key \<leftarrow> slot; hashset_place s key }
            else Some s) })
        \<lparr>hs_ctrl = replicate new_cap CTRL_EMPTY, hs_keys = replicate new_cap None, hs_len = 0,
         hs_cap = new_cap,
         hs_growth_left = int ((new_cap * LOAD_FACTOR_NUM) div LOAD_FACTOR_DEN)\<rparr>)"

text \<open>\<^verbatim>\<open>set->ctrl[idx] == tag && set->keys[idx] == key\<close>\<close>

definition hs_match :: "hashset \<Rightarrow> nat \<Rightarrow> int \<Rightarrow> int \<Rightarrow> bool option" where
  "hs_match s idx tag key = do {
     c \<leftarrow> aget (hs_ctrl s) idx;
     (if c = tag then do { slot \<leftarrow> aget (hs_keys s) idx; k \<leftarrow> slot; Some (k = key) }
      else Some False) }"

text \<open>The insertion probe: \<open>None\<close> inside when the key is there already, else the empty slot.\<close>

fun hs_insert_loop :: "nat \<Rightarrow> hashset \<Rightarrow> int \<Rightarrow> int \<Rightarrow> nat \<Rightarrow> nat option option" where
  "hs_insert_loop 0 s key tag idx = None"
| "hs_insert_loop (Suc n) s key tag idx = do {
     c \<leftarrow> aget (hs_ctrl s) idx;
     (if c = CTRL_EMPTY then Some (Some idx)
      else do {
        hit \<leftarrow> hs_match s idx tag key;
        (if hit then Some None
         else hs_insert_loop n s key tag ((idx + 1) mod hs_cap s)) }) }"

definition hashset_insert :: "hashset \<Rightarrow> int \<Rightarrow> hashset option" where
  "hashset_insert s0 key = do {
     s \<leftarrow> (if hs_growth_left s0 = 0 then hashset_grow s0 else Some s0);
     r \<leftarrow> hs_insert_loop (hs_cap s) s key (tag_of (hash_i64 key)) (home_of (hash_i64 key) (hs_cap s));
     (case r of
        None \<Rightarrow> Some s
      | Some idx \<Rightarrow> do {
          c \<leftarrow> aset (hs_ctrl s) idx (tag_of (hash_i64 key));
          ks \<leftarrow> aset (hs_keys s) idx (Some key);
          Some (s\<lparr>hs_ctrl := c, hs_keys := ks, hs_len := hs_len s + 1,
                  hs_growth_left := hs_growth_left s - 1\<rparr>) }) }"

function hs_contains_loop :: "hashset \<Rightarrow> int \<Rightarrow> int \<Rightarrow> nat \<Rightarrow> nat \<Rightarrow> bool option" where
  "hs_contains_loop s key tag idx probes =
     (if probes < hs_cap s then do {
        c \<leftarrow> aget (hs_ctrl s) idx;
        (if c = CTRL_EMPTY then Some False
         else do {
           hit \<leftarrow> hs_match s idx tag key;
           (if hit then Some True
            else hs_contains_loop s key tag ((idx + 1) mod hs_cap s) (probes + 1)) }) }
      else Some False)"
  by pat_completeness auto
termination
  by (relation "measure (\<lambda>(s, key, tag, idx, probes). hs_cap s - probes)") auto

declare hs_contains_loop.simps [simp del]

definition hashset_contains :: "hashset \<Rightarrow> int \<Rightarrow> bool option" where
  "hashset_contains s key =
     (if hs_cap s = 0 then Some False
      else hs_contains_loop s key (tag_of (hash_i64 key)) (home_of (hash_i64 key) (hs_cap s)) 0)"

text \<open>\<^verbatim>\<open>while (hashset_contains(set, num + len)) len++\<close>: a run cannot be longer than the
  input, so the bound passed by the caller is the number of elements.\<close>

fun run_length :: "(int \<Rightarrow> bool option) \<Rightarrow> nat \<Rightarrow> int \<Rightarrow> int \<Rightarrow> int option" where
  "run_length contains 0 num l = None"
| "run_length contains (Suc n) num l = do {
     x \<leftarrow> i64 (num + l);
     b \<leftarrow> contains x;
     (if b then run_length contains n num (l + 1) else Some l) }"

definition longest_scan :: "(int \<Rightarrow> bool option) \<Rightarrow> int list \<Rightarrow> int option" where
  "longest_scan contains nums =
     for_upto 0 (length nums)
       (\<lambda>i best. do {
          num \<leftarrow> aget nums i;
          pred \<leftarrow> i64 (num - 1);
          b \<leftarrow> contains pred;
          (if \<not> b then do {
             l \<leftarrow> run_length contains (length nums) num 1;
             Some (if l > best then l else best) }
           else Some best) })
       0"

definition longest_consecutive :: "int list \<Rightarrow> int option" where
  "longest_consecutive nums =
     (if length nums = 0 then Some 0
      else do {
        s \<leftarrow> for_upto 0 (length nums) (\<lambda>i s. do { x \<leftarrow> aget nums i; hashset_insert s x })
               (hashset_new (int (length nums)));
        longest_scan (hashset_contains s) nums })"

subsection \<open>The set interface and its client\<close>

text \<open>What the search needs of a set: a membership test that agrees with the inserted
  elements.\<close>

locale set_impl =
  fixes inv :: "'s \<Rightarrow> bool"
    and elems :: "'s \<Rightarrow> int set"
    and insrt :: "'s \<Rightarrow> int \<Rightarrow> 's option"
    and contains :: "'s \<Rightarrow> int \<Rightarrow> bool option"
  assumes insrt_spec: "inv s \<Longrightarrow> \<exists>s'. insrt s x = Some s' \<and> inv s' \<and> elems s' = insert x (elems s)"
    and contains_spec: "inv s \<Longrightarrow> contains s x = Some (x \<in> elems s)"
begin

lemma insert_all_spec:
  assumes "inv s" and "elems s = {}"
  obtains s' where
    "for_upto 0 (length xs) (\<lambda>i s. do { x \<leftarrow> aget xs i; insrt s x }) s = Some s'"
    and "inv s'" and "elems s' = set xs"
proof -
  have "\<exists>s'. for_upto 0 (length xs) (\<lambda>i s. do { x \<leftarrow> aget xs i; insrt s x }) s = Some s' \<and>
      (inv s' \<and> elems s' = set (take (length xs) xs))"
  proof (rule for_upto_inv [where P = "\<lambda>i s'. inv s' \<and> elems s' = set (take i xs)"])
    fix i s assume i: "i < length xs" and s: "inv s \<and> elems s = set (take i xs)"
    then obtain s' where "insrt s (xs ! i) = Some s'" "inv s'" "elems s' = insert (xs ! i) (elems s)"
      using insrt_spec by blast
    with s i show "\<exists>s'. (do { x \<leftarrow> aget xs i; insrt s x }) = Some s' \<and>
        (inv s' \<and> elems s' = set (take (Suc i) xs))"
      by (simp add: take_Suc_conv_app_nth)
  qed (use assms in auto)
  then show ?thesis using that by auto
qed

end

text \<open>The length of the run of consecutive elements that starts at \<open>a\<close>.\<close>

definition is_run :: "int set \<Rightarrow> int \<Rightarrow> int \<Rightarrow> bool" where
  "is_run S a n \<longleftrightarrow> 0 \<le> n \<and> (\<forall>j. 0 \<le> j \<and> j < n \<longrightarrow> a + j \<in> S)"

lemma is_run_interval: "is_run S a n \<longleftrightarrow> 0 \<le> n \<and> {a ..< a + n} \<subseteq> S"
proof -
  have "x \<in> S" if "\<forall>j. 0 \<le> j \<and> j < n \<longrightarrow> a + j \<in> S" "a \<le> x" "x < a + n" for x
    using that(1) [rule_format, of "x - a"] that(2,3) by simp
  then show ?thesis by (auto simp: is_run_def)
qed

lemma is_run_le_card:
  assumes "is_run S a n" and "finite S"
  shows "n \<le> int (card S)"
proof -
  have "card {a ..< a + n} \<le> card S"
    using assms by (intro card_mono) (auto simp: is_run_interval)
  then show ?thesis by simp
qed

lemma is_run_one: "x \<in> S \<Longrightarrow> is_run S x 1"
proof -
  assume "x \<in> S"
  moreover have "{x ..< x + 1} = {x}" by auto
  ultimately show ?thesis by (simp only: is_run_interval) simp
qed

lemma is_run_extend: "is_run S a n \<Longrightarrow> a + n \<in> S \<Longrightarrow> is_run S a (n + 1)"
  unfolding is_run_def by (metis add_increasing2 zero_le_one zless_add1_eq)


text \<open>Scanning with an exact membership test for a finite set. The elements stay away from the
  ends of the 64-bit range, so that neither \<open>num - 1\<close> nor \<open>num + len\<close> overflows.\<close>

definition in_range :: "int list \<Rightarrow> bool" where
  "in_range nums \<longleftrightarrow> (\<forall>x \<in> set nums. - (2 ^ 63) < x \<and> x < 2 ^ 63 - 1)"

lemma run_length_spec:
  assumes fin: "finite S" and rng: "\<And>x. x \<in> S \<Longrightarrow> - (2 ^ 63) < x \<and> x < 2 ^ 63 - 1"
    and mem: "\<And>x. contains x = Some (x \<in> S)"
    and "is_run S num l" and "0 < l" and "int (card S) < int n + l"
  shows "\<exists>r. run_length contains n num l = Some r \<and> is_run S num r \<and> num + r \<notin> S \<and> 0 < r"
  using assms(4-6)
proof (induction n arbitrary: l)
  case 0
  then show ?case using is_run_le_card [OF 0(1) fin] by simp
next
  case (Suc n)
  have "num \<in> S" using Suc.prems(1,2) unfolding is_run_def by (metis add.right_neutral order_refl)
  moreover have "num + (l - 1) \<in> S" using Suc.prems(1,2) unfolding is_run_def by simp
  ultimately have i: "i64 (num + l) = Some (num + l)"
    using rng [of num] rng [of "num + (l - 1)"] Suc.prems(2) by (intro i64_in) auto
  show ?case
  proof (cases "num + l \<in> S")
    case True
    then show ?thesis
      using i mem Suc.IH [of "l + 1"] Suc.prems is_run_extend by simp
  next
    case False
    then show ?thesis using i mem Suc.prems by simp
  qed
qed

text \<open>Every run ends where a run that starts at an element without predecessor ends, so the
  scan sees the longest.\<close>

lemma run_start:
  assumes fin: "finite S" and "is_run S a n" and "0 < n"
  shows "\<exists>b \<in> S. b - 1 \<notin> S \<and> is_run S b (a - b + n) \<and> b \<le> a"
proof -
  let ?B = "{b. b \<le> a \<and> is_run S b (a - b + n)}"
  have B: "b \<in> S" if "b \<in> ?B" for b
  proof -
    have "is_run S b (a - b + n)" "0 < a - b + n" using that assms(3) by auto
    then have "b + 0 \<in> S" unfolding is_run_def by blast
    then show ?thesis by simp
  qed
  then have "?B \<subseteq> S" by blast
  then have "finite ?B" using fin by (rule finite_subset)
  have "a \<in> ?B" using assms(2) by simp
  define b where "b = Min ?B"
  have b: "b \<in> ?B"
    unfolding b_def using \<open>finite ?B\<close> \<open>a \<in> ?B\<close> by (intro Min_in) auto
  have least: "\<And>c. c \<in> ?B \<Longrightarrow> b \<le> c"
    unfolding b_def using \<open>finite ?B\<close> by (rule Min_le)
  have "b - 1 \<notin> S"
  proof
    assume "b - 1 \<in> S"
    moreover have "{b - 1 ..< b - 1 + (a - (b - 1) + n)} \<subseteq> insert (b - 1) {b ..< b + (a - b + n)}"
      by auto
    ultimately have "is_run S (b - 1) (a - (b - 1) + n)"
      using b by (auto simp: is_run_interval)
    then have "b - 1 \<in> ?B" using b by simp
    then have "b \<le> b - 1" by (rule least)
    then show False by simp
  qed
  with b B show ?thesis by blast
qed

lemma longest_scan_spec:
  assumes rng: "in_range nums" and mem: "\<And>x. contains x = Some (x \<in> set nums)"
  shows "\<exists>L. longest_scan contains nums = Some L \<and> (\<exists>a. is_run (set nums) a L) \<and>
     (\<forall>a n. is_run (set nums) a n \<longrightarrow> n \<le> L)"
proof -
  let ?S = "set nums"
  define P where "P i L \<longleftrightarrow> (\<exists>a. is_run ?S a L) \<and>
      (\<forall>j < i. nums ! j - 1 \<notin> ?S \<longrightarrow> (\<forall>n. is_run ?S (nums ! j) n \<longrightarrow> n \<le> L))" for i L
  have rng': "\<And>x. x \<in> ?S \<Longrightarrow> - (2 ^ 63) < x \<and> x < 2 ^ 63 - 1"
    using rng by (auto simp: in_range_def)
  have "\<exists>L. longest_scan contains nums = Some L \<and> P (length nums) L"
    unfolding longest_scan_def
  proof (rule for_upto_inv)
    show "P 0 0" by (auto simp: P_def is_run_def)
  next
    fix i L assume i: "i < length nums" and L: "P i L"
    let ?x = "nums ! i"
    have x: "?x \<in> ?S" using i by simp
    have pred: "i64 (?x - 1) = Some (?x - 1)" using rng' [OF x] by (intro i64_in) auto
    show "\<exists>L'. (do { num \<leftarrow> aget nums i; pred \<leftarrow> i64 (num - 1); b \<leftarrow> contains pred;
          (if \<not> b then do { l \<leftarrow> run_length contains (length nums) num 1;
             Some (if l > L then l else L) } else Some L) }) = Some L' \<and> P (Suc i) L'"
    proof (cases "?x - 1 \<in> ?S")
      case True
      with L have "P (Suc i) L" by (auto simp: P_def less_Suc_eq)
      with True i pred mem show ?thesis by simp
    next
      case False
      have "is_run ?S ?x 1" using x by (rule is_run_one)
      then obtain r where r: "run_length contains (length nums) ?x 1 = Some r" "is_run ?S ?x r"
        "?x + r \<notin> ?S" "0 < r"
        using run_length_spec [of ?S contains ?x 1 "length nums"] rng' mem card_length [of nums] by auto
      have best: "n \<le> r" if "is_run ?S ?x n" for n
        using that r(3,4) unfolding is_run_def by (meson not_le order.strict_implies_order)
      have "P (Suc i) (if r > L then r else L)"
        using L r(2) best unfolding P_def by (auto simp: less_Suc_eq) (meson le_less_trans less_imp_le not_le order_trans)+
      with False i pred mem r(1) show ?thesis by simp
    qed
  qed simp
  then obtain L where L: "longest_scan contains nums = Some L" "P (length nums) L" by blast
  have "n \<le> L" if run: "is_run ?S a n" for a n
  proof (cases "0 < n")
    case True
    then obtain b where "b \<in> ?S" "b - 1 \<notin> ?S" "is_run ?S b (a - b + n)" "b \<le> a"
      using run_start [OF _ run] by auto
    then have "a - b + n \<le> L" using L(2) by (auto simp: P_def in_set_conv_nth)
    with \<open>b \<le> a\<close> show ?thesis by simp
  next
    case False
    have "0 \<le> L" using L(2) by (auto simp: P_def is_run_def)
    with False show ?thesis by simp
  qed
  with L show ?thesis by (auto simp: P_def)
qed


subsection \<open>The hash set implements the interface\<close>

text \<open>The set seen as a map whose values are all 0, so that the table lemmas apply.\<close>

definition as_map :: "hashset \<Rightarrow> int hashmap" where
  "as_map s = \<lparr>ctrl = hs_ctrl s, entries = map (map_option (\<lambda>k. (k, 0))) (hs_keys s),
     len = hs_len s, cap = hs_cap s, growth_left = hs_growth_left s\<rparr>"

definition hs_inv :: "hashset \<Rightarrow> bool" where
  "hs_inv s \<longleftrightarrow> hm_inv hash_i64 (as_map s) \<and> hs_cap s \<noteq> 0 \<and>
     cnt (\<lambda>x. x \<noteq> CTRL_EMPTY) (hs_ctrl s) = cnt (\<lambda>x. 0 \<le> x) (hs_ctrl s)"

definition hs_elems :: "hashset \<Rightarrow> int set" where
  "hs_elems s = dom (hm_map (as_map s))"

lemma as_map_sel [simp]:
  "ctrl (as_map s) = hs_ctrl s" "cap (as_map s) = hs_cap s" "len (as_map s) = hs_len s"
  "growth_left (as_map s) = hs_growth_left s"
  "entries (as_map s) = map (map_option (\<lambda>k. (k, 0))) (hs_keys s)"
  by (simp_all add: as_map_def)

lemma hs_inv_probing: "hs_inv s \<Longrightarrow> probing hash_i64 (as_map s)"
  by (rule hm_inv_probing) (auto simp: hs_inv_def)

lemma probing_lengths:
  "probing hash_i64 (as_map s) \<Longrightarrow> length (hs_ctrl s) = hs_cap s \<and> length (hs_keys s) = hs_cap s \<and> 0 < hs_cap s"
  using table_okD(1) by (fastforce simp: probing_def)

lemma hs_elems_iff:
  assumes "table_ok hash_i64 (ctrl (as_map s)) (entries (as_map s))"
  shows "k \<in> hs_elems s \<longleftrightarrow> (\<exists>i. present (as_map s) i k)"
  using table_map_Some_iff [OF assms, of k]
  by (auto simp: hs_elems_def hm_map_def present_def domIff)

lemma hs_match_eq:
  assumes pr: "probing hash_i64 (as_map s)" and "idx < hs_cap s"
  shows "hs_match s idx (tag_of (hash_i64 key)) key = Some (present (as_map s) idx key)"
proof -
  have l: "idx < length (hs_ctrl s)" "idx < length (hs_keys s)"
    using probing_lengths [OF pr] assms(2) by auto
  have "hs_match s idx (tag_of (hash_i64 key)) key =
      (if ctrl (as_map s) ! idx = tag_of (hash_i64 key) then key_eq (as_map s) idx key else Some False)"
    using l by (cases "hs_keys s ! idx") (simp_all add: hs_match_def key_eq_def)
  with hit_eq [OF pr, of idx key] assms(2) show ?thesis by simp
qed

lemma hs_insert_loop_absent:
  assumes pr: "probing hash_i64 (as_map s)" and absent: "\<And>i. \<not> present (as_map s) i key"
    and "idx < hs_cap s"
  shows "hs_insert_loop n s key (tag_of (hash_i64 key)) idx =
     map_option Some (find_empty n (hs_ctrl s) (hs_cap s) idx)"
  using assms(3)
proof (induction n arbitrary: idx)
  case 0
  then show ?case by simp
next
  case (Suc n)
  have "idx < length (hs_ctrl s)" "Suc idx mod hs_cap s < hs_cap s"
    using probing_lengths [OF pr] Suc.prems by auto
  with Suc absent show ?case by (simp add: hs_match_eq [OF pr])
qed

lemma hs_loops_present:
  assumes pr: "probing hash_i64 (as_map s)" and "present (as_map s) i key"
  shows "hs_insert_loop (hs_cap s) s key (tag_of (hash_i64 key)) (home_of (hash_i64 key) (hs_cap s))
      = Some None"
    and "hs_contains_loop s key (tag_of (hash_i64 key)) (home_of (hash_i64 key) (hs_cap s)) 0
      = Some True"
proof -
  let ?s = "slot_at (home_of (hash_i64 key) (hs_cap s)) (hs_cap s)" and ?t = "tag_of (hash_i64 key)"
  obtain v where h: "holds (ctrl (as_map s)) (entries (as_map s)) i key v"
    using assms(2) unfolding present_def by blast
  obtain j where j: "j < hs_cap s" "i = ?s j"
    and be: "\<And>j'. j' < j \<Longrightarrow> hs_ctrl s ! ?s j' \<noteq> CTRL_EMPTY"
      "\<And>j'. j' < j \<Longrightarrow> \<not> present (as_map s) (?s j') key"
    using path_before [OF pr h] by (metis as_map_sel(1,2))
  have len: "length (hs_ctrl s) = hs_cap s" "0 < hs_cap s" using probing_lengths [OF pr] by auto
  have at: "hs_ctrl s ! ?s j \<noteq> CTRL_EMPTY"
    using h j(2) by (auto simp: holds_def ctrl_defs)
  have slot: "q < j \<or> q = j \<Longrightarrow> hs_ctrl s ! ?s q \<noteq> CTRL_EMPTY" for q using be(1) at by auto
  have "hs_insert_loop f s key ?t (?s q) = Some None" if "q \<le> j" "j - q < f" for q f
    using that
  proof (induction f arbitrary: q)
    case 0
    then show ?case by simp
  next
    case (Suc f)
    show ?case
      using Suc len slot [of q] be(2) [of q] assms(2) j
      by (cases "q = j") (simp_all add: hs_match_eq [OF pr])
  qed
  from this [of 0 "hs_cap s"] j(1) len
  show "hs_insert_loop (hs_cap s) s key ?t (home_of (hash_i64 key) (hs_cap s)) = Some None" by simp
  have "hs_contains_loop s key ?t (?s q) q = Some True" if "q \<le> j" for q
    using that
  proof (induction "j - q" arbitrary: q)
    case 0
    then have "q = j" by simp
    then show ?case
      using len at assms(2) j by (subst hs_contains_loop.simps) (simp add: hs_match_eq [OF pr])
  next
    case (Suc d)
    then have q: "q < j" and d: "d = j - Suc q" by simp_all
    have "hs_contains_loop s key ?t (?s (Suc q)) (Suc q) = Some True"
      using Suc.hyps(1) [OF d] q by simp
    with q len slot [of q] be(2) [OF q] j(1) show ?case
      by (subst hs_contains_loop.simps) (simp add: hs_match_eq [OF pr])
  qed
  from this [of 0] len
  show "hs_contains_loop s key ?t (home_of (hash_i64 key) (hs_cap s)) 0 = Some True" by simp
qed

lemma hs_contains_absent:
  assumes pr: "probing hash_i64 (as_map s)" and absent: "\<And>i. \<not> present (as_map s) i key"
    and "idx < hs_cap s"
  shows "hs_contains_loop s key (tag_of (hash_i64 key)) idx probes = Some False"
  using assms(3)
proof (induction "hs_cap s - probes" arbitrary: idx probes)
  case 0
  then show ?case by (subst hs_contains_loop.simps) simp
next
  case (Suc n)
  then have "probes < hs_cap s" and n: "n = hs_cap s - Suc probes" by simp_all
  have l: "idx < length (hs_ctrl s)" "Suc idx mod hs_cap s < hs_cap s"
    using probing_lengths [OF pr] Suc.prems by auto
  with Suc.hyps(1) [OF n] absent Suc.prems show ?case
    by (subst hs_contains_loop.simps) (simp add: hs_match_eq [OF pr])
qed

lemma hs_contains_spec:
  assumes "hs_inv s"
  shows "hashset_contains s x = Some (x \<in> hs_elems s)"
proof -
  note pr = hs_inv_probing [OF assms]
  have ok: "table_ok hash_i64 (ctrl (as_map s)) (entries (as_map s))" using pr by (simp add: probing_def)
  have "0 < hs_cap s" using probing_lengths [OF pr] by simp
  then show ?thesis
    using hs_loops_present(2) [OF pr] hs_contains_absent [OF pr, of x]
    by (cases "\<exists>i. present (as_map s) i x") (auto simp: hashset_contains_def hs_elems_iff [OF ok])
qed

text \<open>Writing a key that is not there into the first empty slot of its probe path.\<close>

definition hs_put :: "hashset \<Rightarrow> nat \<Rightarrow> int \<Rightarrow> hashset" where
  "hs_put s i key = s\<lparr>hs_ctrl := (hs_ctrl s)[i := tag_of (hash_i64 key)],
     hs_keys := (hs_keys s)[i := Some key], hs_len := hs_len s + 1,
     hs_growth_left := hs_growth_left s - 1\<rparr>"

lemma hs_put_spec:
  assumes inv: "hs_inv s" and pos: "0 < hs_growth_left s" and absent: "k \<notin> hs_elems s"
  obtains i where
    "find_empty (hs_cap s) (hs_ctrl s) (hs_cap s) (home_of (hash_i64 k) (hs_cap s)) = Some i"
    and "i < hs_cap s" and "hs_inv (hs_put s i k)" and "hs_elems (hs_put s i k) = insert k (hs_elems s)"
proof -
  note pr = hs_inv_probing [OF inv]
  have hm: "hm_inv hash_i64 (as_map s)" and c: "hs_cap s \<noteq> 0" using inv by (auto simp: hs_inv_def)
  note ok = hm_inv_table_ok [OF hm]
  have n: "length (hs_ctrl s) = hs_cap s" using probing_lengths [OF pr] by simp
  have abs: "\<And>i v. \<not> holds (ctrl (as_map s)) (entries (as_map s)) i k v"
    using absent hs_elems_iff [OF ok] by (auto simp: present_def)
  obtain e where "e < cap (as_map s)" "ctrl (as_map s) ! e = CTRL_EMPTY"
    using hm_inv_empty_slot [OF hm] c by auto
  then obtain i where i:
    "find_empty (hs_cap s) (hs_ctrl s) (hs_cap s) (home_of (hash_i64 k) (hs_cap s)) = Some i"
    "target hash_i64 (ctrl (as_map s)) k i" "hs_ctrl s ! i = CTRL_EMPTY"
    using find_empty_target [OF ok, of "hs_cap s" e k] n by auto
  have il: "i < hs_cap s" using i(2) n by (simp add: target_def)
  have m: "as_map (hs_put s i k) = (as_map s)\<lparr>ctrl := (ctrl (as_map s))[i := tag_of (hash_i64 k)],
      entries := (entries (as_map s))[i := Some (k, 0)], len := len (as_map s) + 1,
      growth_left := growth_left (as_map s) - (if ctrl (as_map s) ! i = CTRL_EMPTY then 1 else 0)\<rparr>"
    using i(3) by (simp add: as_map_def hs_put_def map_update)
  note new = insert_at_target [OF hm _ i(2) abs, of 0, folded m]
  have "hs_inv (hs_put s i k)"
    using new(1) pos inv c il n i(3) cnt_update [of i "hs_ctrl s" "\<lambda>x. x \<noteq> CTRL_EMPTY" "tag_of (hash_i64 k)"]
      cnt_update [of i "hs_ctrl s" "\<lambda>x. 0 \<le> x" "tag_of (hash_i64 k)"]
    by (simp add: hs_inv_def hs_put_def)
  moreover have "hs_elems (hs_put s i k) = insert k (hs_elems s)"
    using new(2) pos by (simp add: hs_elems_def)
  ultimately show ?thesis using that i(1) il by blast
qed

lemma hashset_place_put:
  assumes "hs_inv s"
    and "find_empty (hs_cap s) (hs_ctrl s) (hs_cap s) (home_of (hash_i64 k) (hs_cap s)) = Some i"
    and "i < hs_cap s"
  shows "hashset_place s k = Some (hs_put s i k)"
  using assms probing_lengths [OF hs_inv_probing [OF assms(1)]]
  by (simp add: hashset_place_def hs_put_def)

lemma hs_new_spec: "hs_inv (hashset_new n)" "hs_elems (hashset_new n) = {}"
proof -
  have "8 \<le> round_cap 8 n" using round_cap_ge [of 8 n] by simp
  then show "hs_inv (hashset_new n)"
    by (auto simp: hashset_new_def hs_inv_def hm_inv_def as_map_def table_ok_replicate Let_def)
  have "table_map (replicate c CTRL_EMPTY) es k = None" for c es and k :: int
    by (rule table_map_None) simp
  then have "table_map (replicate c CTRL_EMPTY) es = (\<lambda>k :: int. None)" for c es
    by (intro ext)
  then show "hs_elems (hashset_new n) = {}"
    by (simp add: hs_elems_def hm_map_def as_map_def hashset_new_def Let_def)
qed


lemma hs_growth: "hs_inv s \<Longrightarrow> hs_growth_left s = int ((hs_cap s * 7) div 8) - hs_len s"
  by (simp add: hs_inv_def hm_inv_def)

lemma hs_cap8: "hs_inv s \<Longrightarrow> 8 \<le> hs_cap s"
  by (auto simp: hs_inv_def hm_inv_def)

lemma hs_len_cnt: "hs_inv s \<Longrightarrow> hs_len s = int (cnt (\<lambda>x. 0 \<le> x) (hs_ctrl s)) \<and> 0 \<le> hs_growth_left s"
  by (simp add: hs_inv_def hm_inv_def)

text \<open>The state of the growth loop after \<open>i\<close> old slots.\<close>

definition moved :: "hashset \<Rightarrow> nat \<Rightarrow> hashset \<Rightarrow> bool" where
  "moved old i s \<longleftrightarrow> hs_inv s \<and> hs_cap s = hs_cap old * 2 \<and>
     hs_len s = int (cnt (\<lambda>x. 0 \<le> x) (take i (hs_ctrl old))) \<and>
     hs_elems s = {k. \<exists>x < i. present (as_map old) x k}"

lemma moved_step:
  assumes inv: "hs_inv old" and i: "i < hs_cap old" and m: "moved old i s"
  shows "\<exists>s'. (do { c \<leftarrow> aget (hs_ctrl old) i;
       (if 0 \<le> c then do { slot \<leftarrow> aget (hs_keys old) i; key \<leftarrow> slot; hashset_place s key }
        else Some s) }) = Some s' \<and> moved old (Suc i) s'"
proof -
  note pr = hs_inv_probing [OF inv]
  have ok: "table_ok hash_i64 (ctrl (as_map old)) (entries (as_map old))"
    using pr by (simp add: probing_def)
  have l: "i < length (hs_ctrl old)" "i < length (hs_keys old)" using probing_lengths [OF pr] i by auto
  have sinv: "hs_inv s" using m by (simp add: moved_def)
  show ?thesis
  proof (cases "0 \<le> hs_ctrl old ! i")
    case False
    then have "\<not> present (as_map old) i k" for k by (simp add: present_def holds_def)
    then have "moved old (Suc i) s"
      using m False l by (auto simp: moved_def cnt_take_Suc less_Suc_eq)
    with False l show ?thesis by simp
  next
    case True
    then obtain k v where e: "entries (as_map old) ! i = Some (k, v)"
      using table_okD(2) [OF ok, of i] l by auto
    then have key: "hs_keys old ! i = Some k" using l by auto
    have here: "holds (ctrl (as_map old)) (entries (as_map old)) i k v"
      using True e l by (simp add: holds_def)
    have absent: "k \<notin> hs_elems s"
    proof
      assume "k \<in> hs_elems s"
      then obtain x where "x < i" "present (as_map old) x k" using m by (auto simp: moved_def)
      then show False using table_okD(4) [OF ok here] unfolding present_def by blast
    qed
    have "cnt (\<lambda>x. 0 \<le> x) (take i (hs_ctrl old)) < hs_cap old"
      using cnt_le_length [of "\<lambda>x. 0 \<le> x" "take i (hs_ctrl old)"] l i by simp
    then have pos: "0 < hs_growth_left s"
      using hs_growth [OF sinv] m hs_cap8 [OF inv] by (simp add: moved_def)
    obtain t where t:
      "find_empty (hs_cap s) (hs_ctrl s) (hs_cap s) (home_of (hash_i64 k) (hs_cap s)) = Some t"
      "t < hs_cap s" "hs_inv (hs_put s t k)" "hs_elems (hs_put s t k) = insert k (hs_elems s)"
      by (rule hs_put_spec [OF sinv pos absent])
    have "present (as_map old) i k' \<longleftrightarrow> k' = k" for k'
      using here by (auto simp: present_def holds_def)
    then have "moved old (Suc i) (hs_put s t k)"
      using m t(3,4) True l by (auto simp: moved_def cnt_take_Suc less_Suc_eq hs_put_def)
    with True l key hashset_place_put [OF sinv t(1,2)] show ?thesis by simp
  qed
qed

lemma hs_grow_spec:
  assumes inv: "hs_inv old"
  obtains s where "hashset_grow old = Some s" and "hs_inv s" and "hs_elems s = hs_elems old"
    and "0 < hs_growth_left s"
proof -
  let ?n = "hs_cap old * 2"
  let ?s0 = "\<lparr>hs_ctrl = replicate ?n CTRL_EMPTY, hs_keys = replicate ?n None, hs_len = 0,
      hs_cap = ?n, hs_growth_left = int ((?n * 7) div 8)\<rparr>"
  note pr = hs_inv_probing [OF inv]
  have "table_map (replicate ?n CTRL_EMPTY) es = (\<lambda>k :: int. None)" for es
    by (intro ext table_map_None) simp
  then have "moved old 0 ?s0"
    using hs_cap8 [OF inv] by (auto simp: moved_def hs_inv_def hm_inv_def as_map_def
        table_ok_replicate hs_elems_def hm_map_def)
  then have "\<exists>s. hashset_grow old = Some s \<and> moved old (hs_cap old) s"
    unfolding hashset_grow_def Let_def
    by (rule for_upto_inv) (auto intro!: moved_step [OF inv, simplified])
  then obtain s where s: "hashset_grow old = Some s" "moved old (hs_cap old) s" by blast
  have c: "length (hs_ctrl old) = hs_cap old" using probing_lengths [OF pr] by simp
  have "hs_elems s = hs_elems old"
    using s(2) hs_elems_iff [of old] pr c by (auto simp: moved_def probing_def present_def holds_def)
  moreover have "0 < hs_growth_left s"
  proof -
    have "hs_len s = hs_len old" using s(2) c hs_len_cnt [OF inv] by (simp add: moved_def)
    moreover have "hs_growth_left s = int ((hs_cap old * 2 * 7) div 8) - hs_len s"
      using hs_growth [of s] s(2) by (simp add: moved_def)
    moreover have "hs_len old \<le> int ((hs_cap old * 7) div 8)"
      using hs_growth [OF inv] hs_len_cnt [OF inv] by simp
    moreover have "int ((hs_cap old * 7) div 8) < int ((hs_cap old * 2 * 7) div 8)"
      using hs_cap8 [OF inv] by linarith
    ultimately show ?thesis by linarith
  qed
  ultimately show ?thesis using that s by (simp add: moved_def)
qed

lemma hs_insert_spec:
  assumes inv0: "hs_inv s0"
  shows "\<exists>s'. hashset_insert s0 x = Some s' \<and> hs_inv s' \<and> hs_elems s' = insert x (hs_elems s0)"
proof -
  obtain s where s: "(if hs_growth_left s0 = 0 then hashset_grow s0 else Some s0) = Some s"
    and inv: "hs_inv s" and eq: "hs_elems s = hs_elems s0" and pos: "0 < hs_growth_left s"
    using hs_grow_spec [OF inv0] inv0 hs_len_cnt [OF inv0] by (metis le_less)
  note pr = hs_inv_probing [OF inv]
  have ok: "table_ok hash_i64 (ctrl (as_map s)) (entries (as_map s))" using pr by (simp add: probing_def)
  note l = probing_lengths [OF pr]
  show ?thesis
  proof (cases "x \<in> hs_elems s")
    case True
    then obtain i where "present (as_map s) i x" using hs_elems_iff [OF ok] by blast
    with s inv eq True show ?thesis
      by (auto simp: hashset_insert_def hs_loops_present(1) [OF pr])
  next
    case False
    then obtain i where i:
      "find_empty (hs_cap s) (hs_ctrl s) (hs_cap s) (home_of (hash_i64 x) (hs_cap s)) = Some i"
      "i < hs_cap s" "hs_inv (hs_put s i x)" "hs_elems (hs_put s i x) = insert x (hs_elems s)"
      using hs_put_spec [OF inv pos] by metis
    have "\<And>i. \<not> present (as_map s) i x" using False hs_elems_iff [OF ok] by blast
    then have "hs_insert_loop (hs_cap s) s x (tag_of (hash_i64 x)) (home_of (hash_i64 x) (hs_cap s))
        = Some (Some i)"
      using hs_insert_loop_absent [OF pr, of x "home_of (hash_i64 x) (hs_cap s)"] i(1) l by simp
    then have "hashset_insert s0 x = Some (hs_put s i x)"
      using s i(2) l by (simp add: hashset_insert_def hs_put_def)
    with i eq show ?thesis by simp
  qed
qed

interpretation hset: set_impl hs_inv hs_elems hashset_insert hashset_contains
  by unfold_locales (simp_all add: hs_insert_spec hs_contains_spec)



end
