(* ===== verification/Float32.thy ===== *)
theory Float32
  imports Prelude
begin

text \<open>
  The C type \<^verbatim>\<open>float\<close>: IEEE 754 binary32 with rounding to nearest, ties to even, as
  the rasteriser under src/user/facet/raster uses it (no contraction of products and sums,
  no excess precision). A finite value is \<open>FFin s m e\<close>, standing for
  \<open>\<plusminus> m * 2 ^ e\<close> in units of the smallest positive value \<open>2 ^ -149\<close>; so every
  finite value is an integer number of units (\<open>fz\<close>), and all reasoning is over integers.
  Every operation computes the exact result as a fraction \<open>M / 2 ^ k\<close> of a unit and
  rounds it once (\<open>rnd\<close>).
\<close>

datatype f32 = FNaN | FInf bool | FFin bool nat nat

fun f32_ok :: "f32 \<Rightarrow> bool" where
  "f32_ok (FFin s m e) \<longleftrightarrow> m < 2 ^ 24 \<and> e \<le> 253 \<and> (m < 2 ^ 23 \<longrightarrow> e = 0)"
| "f32_ok _ \<longleftrightarrow> True"

fun is_fin :: "f32 \<Rightarrow> bool" where
  "is_fin (FFin s m e) \<longleftrightarrow> True"
| "is_fin _ \<longleftrightarrow> False"

fun fz :: "f32 \<Rightarrow> int" where
  "fz (FFin s m e) = (if s then - int (m * 2 ^ e) else int (m * 2 ^ e))"
| "fz _ = 0"

subsection \<open>Rounding\<close>

fun blen :: "nat \<Rightarrow> nat" where
  "blen n = (if n = 0 then 0 else Suc (blen (n div 2)))"

declare blen.simps [simp del]

definition mk :: "bool \<Rightarrow> nat \<Rightarrow> nat \<Rightarrow> f32" where
  "mk s q e =
     (if q = 2 ^ 24 then (if e < 253 then FFin s (2 ^ 23) (e + 1) else FInf s)
      else if e \<le> 253 then FFin s q e else FInf s)"

definition rnd :: "bool \<Rightarrow> nat \<Rightarrow> nat \<Rightarrow> f32" where
  "rnd s M k =
     (let e = blen M - k - 24; d = e + k; q = M div 2 ^ d; r = M mod 2 ^ d
      in mk s (if 2 ^ d < 2 * r \<or> (2 * r = 2 ^ d \<and> odd q) then q + 1 else q) e)"

subsection \<open>Operations\<close>

fun fneg :: "f32 \<Rightarrow> f32" where
  "fneg FNaN = FNaN"
| "fneg (FInf s) = FInf (\<not> s)"
| "fneg (FFin s m e) = FFin (\<not> s) m e"

fun fsign :: "f32 \<Rightarrow> bool" where
  "fsign FNaN = False"
| "fsign (FInf s) = s"
| "fsign (FFin s m e) = s"

fun fabsf :: "f32 \<Rightarrow> f32" where
  "fabsf FNaN = FNaN"
| "fabsf (FInf s) = FInf False"
| "fabsf (FFin s m e) = FFin False m e"

text \<open>The sum of two finite values; an exact zero is positive unless both operands are
  negative.\<close>

definition fadd_fin :: "f32 \<Rightarrow> f32 \<Rightarrow> f32" where
  "fadd_fin x y =
     (let z = fz x + fz y
      in if z = 0 then FFin (fsign x \<and> fsign y) 0 0 else rnd (z < 0) (nat \<bar>z\<bar>) 0)"

fun fadd :: "f32 \<Rightarrow> f32 \<Rightarrow> f32" where
  "fadd FNaN _ = FNaN"
| "fadd _ FNaN = FNaN"
| "fadd (FInf a) (FInf b) = (if a = b then FInf a else FNaN)"
| "fadd (FInf a) (FFin s m e) = FInf a"
| "fadd (FFin s m e) (FInf b) = FInf b"
| "fadd (FFin s m e) (FFin t n f) = fadd_fin (FFin s m e) (FFin t n f)"

definition fsub :: "f32 \<Rightarrow> f32 \<Rightarrow> f32" where
  "fsub x y = fadd x (fneg y)"

fun fmul :: "f32 \<Rightarrow> f32 \<Rightarrow> f32" where
  "fmul FNaN _ = FNaN"
| "fmul _ FNaN = FNaN"
| "fmul (FInf a) (FInf b) = FInf (a \<noteq> b)"
| "fmul (FInf a) (FFin s m e) = (if m = 0 then FNaN else FInf (a \<noteq> s))"
| "fmul (FFin s m e) (FInf b) = (if m = 0 then FNaN else FInf (s \<noteq> b))"
| "fmul (FFin s m e) (FFin t n f) = rnd (s \<noteq> t) (m * n * 2 ^ (e + f)) 149"

text \<open>Division keeps two fraction bits of a unit and a sticky bit for the remainder.\<close>

fun fdiv :: "f32 \<Rightarrow> f32 \<Rightarrow> f32" where
  "fdiv FNaN _ = FNaN"
| "fdiv _ FNaN = FNaN"
| "fdiv (FInf a) (FInf b) = FNaN"
| "fdiv (FInf a) (FFin s m e) = FInf (a \<noteq> s)"
| "fdiv (FFin s m e) (FInf b) = FFin (s \<noteq> b) 0 0"
| "fdiv (FFin s m e) (FFin t n f) =
     (if n = 0 then (if m = 0 then FNaN else FInf (s \<noteq> t))
      else let a = m * 2 ^ (e + 151); b = n * 2 ^ f
           in rnd (s \<noteq> t) (2 * (a div b) + (if a mod b = 0 then 0 else 1)) 3)"

fun flt :: "f32 \<Rightarrow> f32 \<Rightarrow> bool" where
  "flt FNaN _ = False"
| "flt _ FNaN = False"
| "flt (FInf a) (FInf b) = (a \<and> \<not> b)"
| "flt (FInf a) (FFin s m e) = a"
| "flt (FFin s m e) (FInf b) = (\<not> b)"
| "flt (FFin s m e) (FFin t n f) = (fz (FFin s m e) < fz (FFin t n f))"

fun fle :: "f32 \<Rightarrow> f32 \<Rightarrow> bool" where
  "fle FNaN _ = False"
| "fle _ FNaN = False"
| "fle (FInf a) (FInf b) = (a \<or> \<not> b)"
| "fle (FInf a) (FFin s m e) = a"
| "fle (FFin s m e) (FInf b) = (\<not> b)"
| "fle (FFin s m e) (FFin t n f) = (fz (FFin s m e) \<le> fz (FFin t n f))"

definition f_of_int :: "int \<Rightarrow> f32" where
  "f_of_int z = rnd (z < 0) (nat \<bar>z\<bar> * 2 ^ 149) 0"

text \<open>The integer part, rounded down (floorf), up (ceilf) or towards zero (conversion to an
  integer type, which is undefined outside the range of that type).\<close>

definition unit1 :: int where "unit1 = 2 ^ 149"   \<comment> \<open>one, in units\<close>

text \<open>The result of floorf and ceilf on a zero keeps the sign of the argument.\<close>

definition f_signed_int :: "bool \<Rightarrow> int \<Rightarrow> f32" where
  "f_signed_int s z = (if z = 0 then FFin s 0 0 else f_of_int z)"

fun floorf :: "f32 \<Rightarrow> f32" where
  "floorf (FFin s m e) = f_signed_int s (fz (FFin s m e) div unit1)"
| "floorf x = x"

fun ceilf :: "f32 \<Rightarrow> f32" where
  "ceilf (FFin s m e) = f_signed_int s (- ((- fz (FFin s m e)) div unit1))"
| "ceilf x = x"

definition f_trunc :: "f32 \<Rightarrow> int" where
  "f_trunc x = (if fz x < 0 then - ((- fz x) div unit1) else fz x div unit1)"

definition f_to_i32 :: "f32 \<Rightarrow> int option" where
  "f_to_i32 x = (if is_fin x then i32 (f_trunc x) else None)"

definition f_to_u8 :: "f32 \<Rightarrow> u8 option" where
  "f_to_u8 x = (if is_fin x \<and> 0 \<le> f_trunc x \<and> f_trunc x < 256 then Some (word_of_int (f_trunc x)) else None)"

text \<open>The literals of the source.\<close>

definition f_half :: f32 where "f_half = FFin False (2 ^ 23) 125"     \<comment> \<open>0.5f\<close>
definition f_quarter :: f32 where "f_quarter = FFin False (2 ^ 23) 124"  \<comment> \<open>0.25f\<close>
definition f_milli :: f32 where "f_milli = FFin False 8589935 116"    \<comment> \<open>0.001f\<close>
definition f_zero :: f32 where "f_zero = FFin False 0 0"
definition f_one :: f32 where "f_one = FFin False (2 ^ 23) 126"

lemmas f_lit_defs = f_half_def f_quarter_def f_milli_def f_zero_def f_one_def

lemma f_one_of_int: "f_of_int 1 = f_one"
  by (simp add: f_of_int_def rnd_def blen.simps mk_def f_one_def)


subsection \<open>Rounding is monotone and exact on representable values\<close>

lemma blen_bounds: "n < 2 ^ blen n \<and> (0 < n \<longrightarrow> 2 ^ (blen n - 1) \<le> n)"
proof (induction n rule: blen.induct)
  case (1 n)
  show ?case
  proof (cases "n = 0")
    case True
    then show ?thesis by (simp add: blen.simps)
  next
    case False
    note IH = 1 [OF False]
    have b: "blen n = Suc (blen (n div 2))" using False by (simp add: blen.simps [of n])
    have "n < 2 * 2 ^ blen (n div 2)" using IH by linarith
    then have "n < 2 ^ blen n" using b by simp
    moreover have "2 ^ (blen n - 1) \<le> n"
    proof (cases "n div 2 = 0")
      case True
      then show ?thesis using False b by (simp add: blen.simps [of 0])
    next
      case c: False
      then obtain l where "blen (n div 2) = Suc l"
        by (metis blen.simps)
      with IH c have "2 ^ l \<le> n div 2" by simp
      then have "2 * 2 ^ l \<le> n" by linarith
      then show ?thesis using b \<open>blen (n div 2) = Suc l\<close> by simp
    qed
    ultimately show ?thesis by simp
  qed
qed

lemma blen_le_iff: "blen n \<le> l \<longleftrightarrow> n < 2 ^ l"
proof (cases "n = 0")
  case True
  then show ?thesis by (simp add: blen.simps)
next
  case False
  show ?thesis
  proof
    assume "blen n \<le> l"
    then have "(2::nat) ^ blen n \<le> 2 ^ l" by simp
    with blen_bounds [of n] show "n < 2 ^ l" by linarith
  next
    assume "n < 2 ^ l"
    with blen_bounds [of n] False have "(2::nat) ^ (blen n - 1) < 2 ^ l" by linarith
    then have "blen n - 1 < l" by (rule power_less_imp_less_exp [rotated]) simp
    then show "blen n \<le> l" by simp
  qed
qed

text \<open>A magnitude that a finite value can have.\<close>

definition repr :: "nat \<Rightarrow> bool" where
  "repr y \<longleftrightarrow> (\<exists>m e. y = m * 2 ^ e \<and> m < 2 ^ 24 \<and> e \<le> 253)"

lemma reprI: "m < 2 ^ 24 \<Longrightarrow> e \<le> 253 \<Longrightarrow> repr (m * 2 ^ e)"
  by (auto simp: repr_def)

lemma repr_pow2: "l \<le> 276 \<Longrightarrow> repr (2 ^ l)"
proof (cases "l \<le> 23")
  case True
  then have "(2::nat) ^ l \<le> 2 ^ 23" by (rule power_increasing) simp
  then have "(2::nat) ^ l < 2 ^ 24" by simp
  then show ?thesis using reprI [of "2 ^ l" 0] by simp
next
  case False
  assume "l \<le> 276"
  have "l = 23 + (l - 23)" using False by simp
  then have "(2::nat) ^ l = 2 ^ 23 * 2 ^ (l - 23)" by (metis power_add)
  moreover have "repr (2 ^ 23 * 2 ^ (l - 23))" using \<open>l \<le> 276\<close> by (intro reprI) auto
  ultimately show ?thesis by simp
qed

text \<open>The rounded significand, before the value is assembled.\<close>

definition rsig :: "nat \<Rightarrow> nat \<Rightarrow> nat" where
  "rsig M d = (let q = M div 2 ^ d; r = M mod 2 ^ d
      in if 2 ^ d < 2 * r \<or> (2 * r = 2 ^ d \<and> odd q) then q + 1 else q)"

lemma rnd_rsig: "rnd s M k = mk s (rsig M (blen M - k - 24 + k)) (blen M - k - 24)"
  by (simp add: rnd_def rsig_def Let_def)

lemma rsig_le: "M \<le> Y * 2 ^ d \<Longrightarrow> rsig M d \<le> Y"
proof -
  assume le: "M \<le> Y * 2 ^ d"
  have "M div 2 ^ d \<le> Y" using le div_le_mono [OF le, of "2 ^ d"] by simp
  moreover have "M div 2 ^ d < Y" if "0 < M mod 2 ^ d"
  proof (rule ccontr)
    assume "\<not> M div 2 ^ d < Y"
    then have "Y * 2 ^ d \<le> M div 2 ^ d * 2 ^ d" by simp
    with that le div_mult_mod_eq [of M "2 ^ d"] show False by linarith
  qed
  moreover have "0 < M mod 2 ^ d" if "2 ^ d < 2 * (M mod 2 ^ d) \<or> 2 * (M mod 2 ^ d) = 2 ^ d"
    using that zero_less_power [of "2::nat" d] by linarith
  ultimately show ?thesis by (auto simp: rsig_def Let_def Suc_le_eq)
qed

lemma rsig_ge: "Y * 2 ^ d \<le> M \<Longrightarrow> Y \<le> rsig M d"
proof -
  assume "Y * 2 ^ d \<le> M"
  then have "Y * 2 ^ d div 2 ^ d \<le> M div 2 ^ d" by (rule div_le_mono)
  then show ?thesis by (auto simp: rsig_def Let_def)
qed

lemma rsig_less_pow: "M < 2 ^ (d + l) \<Longrightarrow> rsig M d \<le> 2 ^ l"
  by (rule rsig_le) (simp add: power_add mult.commute)

lemma blen_ge_pow: "l < blen M \<Longrightarrow> 2 ^ l \<le> M"
  using blen_le_iff [of M l] by simp

lemma rnd_le:
  assumes le: "M \<le> y * 2 ^ k" and y: "repr y"
  obtains m e where "rnd s M k = FFin s m e" and "f32_ok (FFin s m e)" and "m * 2 ^ e \<le> y"
proof -
  let ?e = "blen M - k - 24"
  let ?d = "?e + k"
  obtain ym ye where yy: "y = ym * 2 ^ ye" "ym < 2 ^ 24" "ye \<le> 253" using y by (auto simp: repr_def)
  have e_le: "?e \<le> ye"
  proof (rule ccontr)
    assume "\<not> ?e \<le> ye"
    then have "k + 24 + ye < blen M" by simp
    then have "2 ^ (k + 24 + ye) \<le> M" by (rule blen_ge_pow)
    also have "M \<le> y * 2 ^ k" by (rule le)
    also have "\<dots> < 2 ^ 24 * 2 ^ ye * 2 ^ k" using yy by simp
    finally show False by (simp add: power_add mult_ac)
  qed
  have "M < 2 ^ blen M" using blen_bounds by simp
  also have "\<dots> \<le> 2 ^ (?d + 24)" by (rule power_increasing) auto
  finally have q24: "rsig M ?d \<le> 2 ^ 24" by (rule rsig_less_pow)
  have big: "2 ^ 23 \<le> rsig M ?d" if "0 < ?e"
  proof (rule rsig_ge)
    have "k + 23 + ?e < blen M" using that by simp
    then have "2 ^ (k + 23 + ?e) \<le> M" by (rule blen_ge_pow)
    then show "2 ^ 23 * 2 ^ ?d \<le> M" by (simp only: power_add) (simp add: mult_ac)
  qed
  have "M \<le> (ym * 2 ^ (ye - ?e)) * 2 ^ ?d"
  proof -
    have "(ym * 2 ^ (ye - ?e)) * 2 ^ ?d = ym * (2 ^ (ye - ?e) * 2 ^ ?e) * 2 ^ k"
      by (simp only: power_add mult_ac)
    also have "\<dots> = y * 2 ^ k" using e_le yy(1) by (simp flip: power_add)
    finally show ?thesis using le by simp
  qed
  then have "rsig M ?d \<le> ym * 2 ^ (ye - ?e)" by (rule rsig_le)
  then have "rsig M ?d * 2 ^ ?e \<le> ym * 2 ^ (ye - ?e) * 2 ^ ?e" by simp
  also have "\<dots> = y" using e_le yy(1) by (simp add: mult.assoc flip: power_add)
  finally have val: "rsig M ?d * 2 ^ ?e \<le> y" .
  show ?thesis
  proof (cases "rsig M ?d = 2 ^ 24")
    case True
    have "?e < 253"
    proof (rule ccontr)
      assume "\<not> ?e < 253"
      then have e: "?e = 253" using e_le yy(3) by simp
      then have "ye = 253" using e_le yy(3) by simp
      then have "2 ^ 24 * 2 ^ 253 \<le> ym * 2 ^ 253" using val True e yy(1) by simp
      then show False using yy(2) by simp
    qed
    then show ?thesis
      using True val that [of "2 ^ 23" "?e + 1"] by (simp add: rnd_rsig mk_def)
  next
    case False
    then have "rsig M ?d < 2 ^ 24" using q24 by simp
    moreover have "rsig M ?d < 2 ^ 23 \<Longrightarrow> ?e = 0" using big by fastforce
    ultimately show ?thesis
      using False val that [of "rsig M ?d" ?e] e_le yy(3) by (simp add: rnd_rsig mk_def)
  qed
qed

lemma rnd_ge:
  assumes ge: "y * 2 ^ k \<le> M" and y: "repr y" and r: "rnd s M k = FFin s m e"
  shows "y \<le> m * 2 ^ e"
proof -
  let ?e = "blen M - k - 24"
  let ?d = "?e + k"
  obtain ym ye where yy: "y = ym * 2 ^ ye" "ym < 2 ^ 24" using y by (auto simp: repr_def)
  have val: "m * 2 ^ e = rsig M ?d * 2 ^ ?e"
    using r by (auto simp: rnd_rsig mk_def split: if_splits)
  show ?thesis
  proof (cases "?e \<le> ye")
    case True
    have "(ym * 2 ^ (ye - ?e)) * 2 ^ ?d = ym * (2 ^ (ye - ?e) * 2 ^ ?e) * 2 ^ k"
      by (simp only: power_add mult_ac)
    also have "\<dots> = y * 2 ^ k" using True yy(1) by (simp flip: power_add)
    finally have "ym * 2 ^ (ye - ?e) \<le> rsig M ?d" using ge by (intro rsig_ge) simp
    then have "ym * 2 ^ (ye - ?e) * 2 ^ ?e \<le> rsig M ?d * 2 ^ ?e" by simp
    then show ?thesis using val True yy(1) by (simp add: mult.assoc flip: power_add)
  next
    case False
    then have "k + 23 + ?e < blen M" by simp
    then have "2 ^ (k + 23 + ?e) \<le> M" by (rule blen_ge_pow)
    then have "2 ^ 23 * 2 ^ ?d \<le> M" by (simp only: power_add) (simp add: mult_ac)
    then have "2 ^ 23 \<le> rsig M ?d" by (rule rsig_ge)
    moreover have "ym * 2 ^ ye \<le> 2 ^ 23 * 2 ^ ?e"
    proof -
      have "ym * 2 ^ ye \<le> 2 ^ 24 * 2 ^ (?e - 1)"
        using yy(2) False by (intro mult_mono power_increasing) auto
      also have "\<dots> = 2 ^ 23 * 2 ^ Suc (?e - 1)" by simp
      also have "Suc (?e - 1) = ?e" using False by simp
      finally show ?thesis .
    qed
    ultimately have "ym * 2 ^ ye \<le> rsig M ?d * 2 ^ ?e"
      by (meson mult_le_mono1 order_trans)
    then show ?thesis using val yy(1) by simp
  qed
qed

lemma rnd_exact:
  assumes "M = y * 2 ^ k" and "repr y"
  obtains m e where "rnd s M k = FFin s m e" and "f32_ok (FFin s m e)" and "m * 2 ^ e = y"
proof -
  obtain m e where r: "rnd s M k = FFin s m e" "f32_ok (FFin s m e)" "m * 2 ^ e \<le> y"
    by (rule rnd_le [of M y k s]) (use assms in auto)
  moreover have "y \<le> m * 2 ^ e" by (rule rnd_ge [OF _ assms(2) r(1)]) (simp add: assms(1))
  ultimately show ?thesis using that by simp
qed


subsection \<open>Signed values\<close>

definition sv :: "bool \<Rightarrow> nat \<Rightarrow> int" where
  "sv s n = (if s then - int n else int n)"

definition irepr :: "int \<Rightarrow> bool" where
  "irepr z \<longleftrightarrow> repr (nat \<bar>z\<bar>)"

lemma fz_sv: "fz (FFin s m e) = sv s (m * 2 ^ e)"
  by (simp add: sv_def)

lemma sv_neg: "sv (z < 0) (nat \<bar>z\<bar>) = z"
  by (simp add: sv_def)

lemma repr_0 [simp]: "repr 0"
  using reprI [of 0 0] by simp

lemma irepr_0 [simp]: "irepr 0"
  by (simp add: irepr_def)

lemma irepr_neg [simp]: "irepr (- z) = irepr z"
  by (simp add: irepr_def)

lemma irepr_mult_pow:
  assumes "\<bar>n\<bar> < 2 ^ 24" and "k \<le> 253"
  shows "irepr (n * 2 ^ k)"
proof -
  have "nat \<bar>n * 2 ^ k\<bar> = nat \<bar>n\<bar> * 2 ^ k" by (simp add: abs_mult nat_mult_distrib nat_power_eq)
  moreover have "repr (nat \<bar>n\<bar> * 2 ^ k)" using assms by (intro reprI) auto
  ultimately show ?thesis by (simp add: irepr_def)
qed

lemma irepr_pow: "k \<le> 276 \<Longrightarrow> irepr (2 ^ k)"
  using repr_pow2 [of k] by (simp add: irepr_def nat_power_eq)

lemma irepr_fz: "f32_ok x \<Longrightarrow> irepr (fz x)"
  by (cases x) (auto simp: irepr_def nat_mult_distrib nat_power_eq intro: reprI reprI [of _ 0, simplified])

lemma rnd_fin:
  assumes "int M \<le> B * 2 ^ k" and "irepr B" and "0 \<le> B"
  obtains m e where "rnd s M k = FFin s m e" and "f32_ok (FFin s m e)" and "int (m * 2 ^ e) \<le> B"
proof -
  have "int M \<le> int (nat B * 2 ^ k)" using assms(1,3) by simp
  then have "M \<le> nat B * 2 ^ k" by linarith
  moreover have "repr (nat B)" using assms(2,3) by (simp add: irepr_def)
  ultimately obtain m e where "rnd s M k = FFin s m e" "f32_ok (FFin s m e)" "m * 2 ^ e \<le> nat B"
    by (rule rnd_le)
  with assms(3) show ?thesis by (intro that) (auto simp: le_nat_iff)
qed

lemma rnd_value_le:
  assumes fin: "rnd s M k = FFin s m e" and le: "sv s M \<le> v * 2 ^ k" and v: "irepr v"
  shows "fz (rnd s M k) \<le> v"
proof (cases "s")
  case True
  show ?thesis
  proof (cases "0 \<le> v")
    case False
    then have "int (nat (- v) * 2 ^ k) \<le> int M" using le True by (simp add: sv_def)
    then have "nat (- v) * 2 ^ k \<le> M" by linarith
    moreover have "repr (nat (- v))" using v False by (simp add: irepr_def)
    ultimately have "nat (- v) \<le> m * 2 ^ e" by (rule rnd_ge [OF _ _ fin])
    then have "- v \<le> int (m * 2 ^ e)" by linarith
    then show ?thesis using fin True by simp
  next
    case c: True
    have "fz (FFin s m e) \<le> 0" using True by simp
    then show ?thesis using c by (simp only: fin)
  qed
next
  case False
  then have "int M \<le> v * 2 ^ k" using le by (simp add: sv_def)
  moreover from this have "0 \<le> v" by (smt (verit) mult_neg_pos of_nat_0_le_iff zero_less_power)
  ultimately obtain m' e' where "rnd s M k = FFin s m' e'" "int (m' * 2 ^ e') \<le> v"
    using rnd_fin [of M v k s] v by metis
  then show ?thesis using False by simp
qed

lemma rnd_flip: "rnd (\<not> s) M k = fneg (rnd s M k)"
  by (simp add: rnd_def mk_def Let_def)

lemma fz_fneg [simp]: "fz (fneg x) = - fz x"
  by (cases x) auto

lemma rnd_value_ge:
  assumes fin: "rnd s M k = FFin s m e" and ge: "v * 2 ^ k \<le> sv s M" and v: "irepr v"
  shows "v \<le> fz (rnd s M k)"
proof -
  have "rnd (\<not> s) M k = FFin (\<not> s) m e" using fin by (simp add: rnd_flip)
  moreover have "sv (\<not> s) M \<le> - v * 2 ^ k" using ge by (auto simp: sv_def split: if_splits)
  ultimately have "fz (rnd (\<not> s) M k) \<le> - v" by (rule rnd_value_le) (simp add: v)
  then show ?thesis by (simp add: rnd_flip)
qed


subsection \<open>What an operation rounds to\<close>

definition fok :: "f32 \<Rightarrow> bool" where
  "fok x \<longleftrightarrow> is_fin x \<and> f32_ok x"

text \<open>\<open>x\<close> is the exact result \<open>z / 2 ^ k\<close> rounded: no representable value lies strictly
  between the two.\<close>

definition fround :: "int \<Rightarrow> nat \<Rightarrow> f32 \<Rightarrow> bool" where
  "fround z k x \<longleftrightarrow> fok x \<and> (\<forall>v. irepr v \<longrightarrow> z \<le> v * 2 ^ k \<longrightarrow> fz x \<le> v)
     \<and> (\<forall>v. irepr v \<longrightarrow> v * 2 ^ k \<le> z \<longrightarrow> v \<le> fz x)"

lemma fround_fok [simp]: "fround z k x \<Longrightarrow> fok x"
  by (simp add: fround_def)

lemma fround_le: "fround z k x \<Longrightarrow> z \<le> v * 2 ^ k \<Longrightarrow> irepr v \<Longrightarrow> fz x \<le> v"
  by (simp add: fround_def)

lemma fround_ge: "fround z k x \<Longrightarrow> v * 2 ^ k \<le> z \<Longrightarrow> irepr v \<Longrightarrow> v \<le> fz x"
  by (simp add: fround_def)

lemma fround_exact: "fround z k x \<Longrightarrow> z = v * 2 ^ k \<Longrightarrow> irepr v \<Longrightarrow> fz x = v"
  using fround_le [of z k x v] fround_ge [of z k x v] by simp

lemma fround_abs: "fround z k x \<Longrightarrow> \<bar>z\<bar> \<le> B * 2 ^ k \<Longrightarrow> irepr B \<Longrightarrow> \<bar>fz x\<bar> \<le> B"
  using fround_le [of z k x B] fround_ge [of z k x "- B"] by (simp add: abs_le_iff)

lemma rnd_fround:
  assumes "int M \<le> B * 2 ^ k" and "irepr B" and "0 \<le> B"
  shows "fround (sv s M) k (rnd s M k)"
proof -
  obtain m e where r: "rnd s M k = FFin s m e" "f32_ok (FFin s m e)"
    using rnd_fin [OF assms] by metis
  then have "fok (rnd s M k)" by (simp add: fok_def)
  then show ?thesis
    using rnd_value_le [OF r(1)] rnd_value_ge [OF r(1)] by (simp add: fround_def)
qed

lemma is_fin_cases:
  assumes "is_fin x"
  obtains s m e where "x = FFin s m e"
  using assms by (cases x) auto

lemma fround_zero: "fround 0 k (FFin s 0 0)"
  by (auto simp: fround_def fok_def zero_le_mult_iff mult_le_0_iff)

lemma fadd_fround:
  assumes "is_fin x" and "is_fin y" and "\<bar>fz x + fz y\<bar> \<le> B" and "irepr B"
  shows "fround (fz x + fz y) 0 (fadd x y)"
proof -
  have "fadd x y = fadd_fin x y" using assms(1,2) by (cases x; cases y) auto
  moreover have "fround (fz x + fz y) 0 (fadd_fin x y)"
  proof (cases "fz x + fz y = 0")
    case True
    then show ?thesis by (simp add: fadd_fin_def Let_def fround_zero)
  next
    case False
    have "fround (sv (fz x + fz y < 0) (nat \<bar>fz x + fz y\<bar>)) 0
            (rnd (fz x + fz y < 0) (nat \<bar>fz x + fz y\<bar>) 0)"
      using assms(3,4) by (intro rnd_fround [where B = B]) auto
    then show ?thesis using False by (simp add: fadd_fin_def Let_def sv_neg)
  qed
  ultimately show ?thesis by simp
qed

lemma is_fin_fneg [simp]: "is_fin (fneg x) = is_fin x"
  by (cases x) auto

lemma fsub_fround:
  "is_fin x \<Longrightarrow> is_fin y \<Longrightarrow> \<bar>fz x - fz y\<bar> \<le> B \<Longrightarrow> irepr B \<Longrightarrow> fround (fz x - fz y) 0 (fsub x y)"
  using fadd_fround [of x "fneg y" B] by (simp add: fsub_def)

lemma fmul_fround:
  assumes "is_fin x" and "is_fin y" and "\<bar>fz x * fz y\<bar> \<le> B * 2 ^ 149" and "irepr B"
  shows "fround (fz x * fz y) 149 (fmul x y)"
proof -
  obtain s m e where x: "x = FFin s m e" by (rule is_fin_cases [OF assms(1)])
  obtain t n f where y: "y = FFin t n f" by (rule is_fin_cases [OF assms(2)])
  have p: "sv (s \<noteq> t) (m * n * 2 ^ (e + f)) = fz x * fz y"
    by (simp add: sv_def x y power_add)
  then have "int (m * n * 2 ^ (e + f)) \<le> B * 2 ^ 149"
    using assms(3) by (auto simp: sv_def split: if_splits)
  moreover from this have "0 \<le> B" by (smt (verit) mult_neg_pos of_nat_0_le_iff zero_less_power)
  ultimately have "fround (sv (s \<noteq> t) (m * n * 2 ^ (e + f))) 149 (rnd (s \<noteq> t) (m * n * 2 ^ (e + f)) 149)"
    using assms(4) by (intro rnd_fround)
  then show ?thesis using p by (simp add: x y)
qed

lemma unit1_pos [simp]: "0 < unit1" "0 \<le> unit1" "unit1 \<noteq> 0"
  by (simp_all add: unit1_def)

lemma irepr_one: "irepr unit1"
  unfolding unit1_def by (rule irepr_pow) simp

lemma neg_mult_unit1_div [simp]: "- (z * unit1) div unit1 = - z"
  using nonzero_mult_div_cancel_right [of unit1 "- z"] by simp

lemma unit1_not_neg [simp]: "\<not> unit1 < 0"
  using unit1_pos by linarith

lemma pow_unit1: "2 ^ k * unit1 = 2 ^ (k + 149)"
  by (simp only: unit1_def power_add)

text \<open>A quotient of non-negative values that does not exceed one.\<close>

lemma fdiv_unit:
  assumes "is_fin x" and "is_fin y" and "0 \<le> fz x" and "fz x \<le> fz y" and "0 < fz y"
  shows "fok (fdiv x y) \<and> 0 \<le> fz (fdiv x y) \<and> fz (fdiv x y) \<le> unit1"
proof -
  obtain s m e where x: "x = FFin s m e" by (rule is_fin_cases [OF assms(1)])
  obtain t n f where y: "y = FFin t n f" by (rule is_fin_cases [OF assms(2)])
  have t: "\<not> t" and n: "0 < n" using assms(5) y by (auto split: if_splits simp: mult_less_0_iff zero_less_mult_iff)
  have me: "int (m * 2 ^ e) \<le> int (n * 2 ^ f)"
    using assms(3,4) t by (auto simp: x y mult_nonneg_nonneg split: if_splits intro: order_trans)
  define a b where "a = m * 2 ^ (e + 151)" and "b = n * 2 ^ f"
  have ab: "a \<le> b * 2 ^ 151"
  proof -
    have "m * 2 ^ e \<le> n * 2 ^ f" using me by linarith
    then have "m * 2 ^ e * 2 ^ 151 \<le> n * 2 ^ f * 2 ^ 151" by (rule mult_right_mono) simp
    then show ?thesis by (simp only: a_def b_def power_add mult.assoc)
  qed
  define M where "M = 2 * (a div b) + (if a mod b = 0 then 0 else 1)"
  have b: "0 < b" using n by (simp add: b_def)
  have M: "M \<le> 2 * 2 ^ 151"
  proof (cases "a mod b = 0")
    case True
    have "a div b \<le> b * 2 ^ 151 div b" using ab by (rule div_le_mono)
    then have "a div b \<le> 2 ^ 151" using b by simp
    then show ?thesis using True by (simp add: M_def)
  next
    case False
    have "a \<noteq> b * 2 ^ 151" using False by auto
    then have "a < 2 ^ 151 * b" using ab by (simp add: mult.commute)
    then have "a div b < 2 ^ 151" by (rule less_mult_imp_div_less)
    then show ?thesis by (simp add: M_def)
  qed
  have r: "fdiv x y = rnd s M 3" using n t by (simp add: x y M_def a_def b_def Let_def)
  have fr: "fround (sv s M) 3 (rnd s M 3)"
  proof (rule rnd_fround [where B = unit1])
    have "int M \<le> int (2 * 2 ^ 151)" using M by (subst of_nat_le_iff)
    then show "int M \<le> unit1 * 2 ^ 3" by (simp add: unit1_def)
  qed (use irepr_one in auto)
  have "s \<Longrightarrow> m = 0" using assms(3) x by (simp add: mult_le_0_iff)
  then have "s \<Longrightarrow> M = 0" by (simp add: M_def a_def)
  then have "0 \<le> sv s M" and "sv s M \<le> unit1 * 2 ^ 3" using M by (auto simp: sv_def unit1_def)
  then show ?thesis
    using fround_le [OF fr, of unit1] fround_ge [OF fr, of 0] irepr_one fr r by simp
qed


subsection \<open>Comparisons and conversions\<close>

lemma flt_fin [simp]: "is_fin x \<Longrightarrow> is_fin y \<Longrightarrow> flt x y \<longleftrightarrow> fz x < fz y"
  by (cases x; cases y) auto

lemma fle_fin [simp]: "is_fin x \<Longrightarrow> is_fin y \<Longrightarrow> fle x y \<longleftrightarrow> fz x \<le> fz y"
  by (cases x; cases y) auto

lemma fok_is_fin [simp]: "fok x \<Longrightarrow> is_fin x"
  by (simp add: fok_def)

lemma fok_irepr [simp]: "fok x \<Longrightarrow> irepr (fz x)"
  by (simp add: fok_def irepr_fz)

lemma fz_fabsf [simp]: "fz (fabsf x) = \<bar>fz x\<bar>"
  by (cases x) auto

lemma fok_fabsf [simp]: "fok (fabsf x) \<longleftrightarrow> fok x"
  by (cases x) (auto simp: fok_def)

lemma fok_fneg [simp]: "fok (fneg x) \<longleftrightarrow> fok x"
  by (cases x) (auto simp: fok_def)

lemma f_of_int_fround:
  assumes "\<bar>z\<bar> \<le> 2 ^ 31"
  shows "fround (z * unit1) 0 (f_of_int z)"
proof -
  have "fround (sv (z < 0) (nat \<bar>z\<bar> * 2 ^ 149)) 0 (rnd (z < 0) (nat \<bar>z\<bar> * 2 ^ 149) 0)"
  proof (rule rnd_fround [where B = "2 ^ 180"])
    have "\<bar>z\<bar> * unit1 \<le> 2 ^ 31 * unit1" using assms by (rule mult_right_mono) simp
    then show "int (nat \<bar>z\<bar> * 2 ^ 149) \<le> 2 ^ 180 * 2 ^ 0" by (simp add: unit1_def)
    show "irepr (2 ^ 180)" by (rule irepr_pow) simp
  qed simp
  moreover have "sv (z < 0) (nat \<bar>z\<bar> * 2 ^ 149) = z * unit1"
    by (simp add: sv_def unit1_def)
  ultimately show ?thesis by (simp add: f_of_int_def)
qed

lemma f_of_int_repr:
  assumes "irepr (z * unit1)"
  shows "fok (f_of_int z) \<and> fz (f_of_int z) = z * unit1"
proof -
  have sv: "sv (z < 0) (nat \<bar>z\<bar> * 2 ^ 149) = z * unit1"
    by (simp add: sv_def unit1_def)
  have "fround (sv (z < 0) (nat \<bar>z\<bar> * 2 ^ 149)) 0 (rnd (z < 0) (nat \<bar>z\<bar> * 2 ^ 149) 0)"
  proof (rule rnd_fround)
    show "int (nat \<bar>z\<bar> * 2 ^ 149) \<le> \<bar>z * unit1\<bar> * 2 ^ 0" by (simp add: abs_mult unit1_def)
    show "irepr \<bar>z * unit1\<bar>" using assms by (simp add: irepr_def)
  qed simp
  then have "fround (z * unit1) 0 (f_of_int z)" by (simp only: sv f_of_int_def)
  then show ?thesis using fround_exact [of "z * unit1" 0 "f_of_int z" "z * unit1"] assms by simp
qed

lemma irepr_small_int: "\<bar>z\<bar> \<le> 2 ^ 24 \<Longrightarrow> irepr (z * unit1)"
proof (cases "\<bar>z\<bar> = 2 ^ 24")
  case True
  then have "z = 2 ^ 24 \<or> z = - (2 ^ 24)" by linarith
  moreover have "irepr (2 ^ 173)" by (rule irepr_pow) simp
  moreover have "(2::int) ^ 24 * unit1 = 2 ^ 173" by (simp add: unit1_def)
  ultimately show ?thesis by (metis irepr_neg mult_minus_left)
next
  case False
  assume "\<bar>z\<bar> \<le> 2 ^ 24"
  with False show ?thesis unfolding unit1_def by (intro irepr_mult_pow) auto
qed

lemma f_of_int_small:
  assumes "\<bar>z\<bar> \<le> 2 ^ 24"
  shows "fok (f_of_int z)" and "fz (f_of_int z) = z * unit1"
  using f_of_int_repr [OF irepr_small_int [OF assms]] by auto

lemma fok_f_of_int: "\<bar>z\<bar> \<le> 2 ^ 31 \<Longrightarrow> fok (f_of_int z)"
  using f_of_int_fround fround_fok by blast

text \<open>The integral part of a representable value is representable.\<close>

lemma irepr_floor:
  assumes "f32_ok x"
  shows "irepr (fz x div unit1 * unit1)"
proof (cases x)
  case (FFin s m e)
  show ?thesis
  proof (cases "149 \<le> e")
    case True
    then obtain l where "e = l + 149" by (metis le_iff_add add.commute)
    then have "fz x = (if s then - int (m * 2 ^ l) else int (m * 2 ^ l)) * unit1"
      by (simp add: FFin power_add unit1_def)
    then have "fz x div unit1 * unit1 = fz x" by simp
    then show ?thesis using irepr_fz [OF assms] by simp
  next
    case False
    have "m * 2 ^ e \<le> 2 ^ 24 * 2 ^ 148"
      using assms False by (intro mult_mono power_increasing) (auto simp: FFin)
    then have "int (m * 2 ^ e) \<le> int (2 ^ 24 * 2 ^ 148)" by (subst of_nat_le_iff)
    then have "\<bar>fz x\<bar> \<le> 2 ^ 23 * unit1" by (simp add: FFin unit1_def)
    then have "fz x \<le> 2 ^ 23 * unit1" and "- (2 ^ 23) * unit1 \<le> fz x" by linarith+
    then have "fz x div unit1 \<le> 2 ^ 23" and "- (2 ^ 23) \<le> fz x div unit1"
      using zdiv_mono1 [of "fz x" "2 ^ 23 * unit1" unit1] zdiv_mono1 [of "- (2 ^ 23) * unit1" "fz x" unit1]
      by auto
    then show ?thesis by (intro irepr_small_int) auto
  qed
qed auto

lemma f_signed_int_repr:
  assumes "irepr (z * unit1)"
  shows "fok (f_signed_int s z) \<and> fz (f_signed_int s z) = z * unit1"
  using f_of_int_repr [OF assms] by (simp add: f_signed_int_def fok_def)

lemma floorf_fok:
  assumes "fok x"
  shows "fok (floorf x)" and "fz (floorf x) = fz x div unit1 * unit1"
  using f_signed_int_repr [OF irepr_floor, of x] assms is_fin_cases [of x]
  by (auto simp: fok_def elim!: is_fin_cases simp del: fz.simps)

lemma ceilf_fok:
  assumes "fok x"
  shows "fok (ceilf x)" and "fz (ceilf x) = - ((- fz x) div unit1) * unit1"
proof -
  have "f32_ok (fneg x)" using assms by (cases x) (auto simp: fok_def)
  then have "irepr ((- fz x) div unit1 * unit1)" using irepr_floor [of "fneg x"] by simp
  then have "irepr (- ((- fz x) div unit1) * unit1)"
    using irepr_neg [of "(- fz x) div unit1 * unit1"] by simp
  from f_signed_int_repr [OF this] assms
  show "fok (ceilf x)" and "fz (ceilf x) = - ((- fz x) div unit1) * unit1"
    by (auto simp: fok_def elim!: is_fin_cases simp del: fz.simps)
qed

lemma f_trunc_int: "fz x = z * unit1 \<Longrightarrow> f_trunc x = z"
  by (auto simp: f_trunc_def mult_less_0_iff)

lemma f_to_i32_int:
  "is_fin x \<Longrightarrow> fz x = z * unit1 \<Longrightarrow> - 2147483648 \<le> z \<Longrightarrow> z < 2147483648 \<Longrightarrow> f_to_i32 x = Some z"
  by (simp add: f_to_i32_def f_trunc_int i32_in)


subsection \<open>Monotonicity\<close>

lemma rsig_mono:
  assumes "M \<le> N"
  shows "rsig M d \<le> rsig N d"
proof -
  have q: "M div 2 ^ d \<le> N div 2 ^ d" using assms by (rule div_le_mono)
  show ?thesis
  proof (cases "M div 2 ^ d = N div 2 ^ d")
    case True
    then have "M mod 2 ^ d \<le> N mod 2 ^ d"
      using assms div_mult_mod_eq [of M "2 ^ d"] div_mult_mod_eq [of N "2 ^ d"]
      by (metis add_le_cancel_left)
    with True show ?thesis by (auto simp: rsig_def Let_def)
  next
    case False
    with q show ?thesis by (auto simp: rsig_def Let_def)
  qed
qed

lemma blen_mono: "M \<le> N \<Longrightarrow> blen M \<le> blen N"
  using blen_le_iff [of M "blen N"] blen_bounds [of N] by linarith

lemma rnd_value: "rnd s M k = FFin s m e \<Longrightarrow>
    m * 2 ^ e = rsig M (blen M - k - 24 + k) * 2 ^ (blen M - k - 24) \<and> blen M - k - 24 \<le> 253"
  by (auto simp: rnd_rsig mk_def split: if_splits)

lemma rnd_mono:
  assumes le: "M \<le> N" and M: "rnd s M k = FFin s m e" and N: "rnd s N k = FFin s n f"
  shows "m * 2 ^ e \<le> n * 2 ^ f"
proof (cases "blen M - k - 24 = blen N - k - 24")
  case True
  then show ?thesis
    using rnd_value [OF M] rnd_value [OF N] rsig_mono [OF le] by simp
next
  case False
  define l where "l = blen N - 1 - k"
  have b: "blen M \<le> blen N" using le by (rule blen_mono)
  have bl: "blen M \<le> l + k" "l + k < blen N" using False b by (auto simp: l_def)
  have "l \<le> 276" using conjunct2 [OF rnd_value [OF N]] unfolding l_def by linarith
  then have y: "repr (2 ^ l)" by (rule repr_pow2)
  have "M < 2 ^ (l + k)" using bl(1) blen_le_iff by blast
  then have "M \<le> 2 ^ l * 2 ^ k" by (simp add: power_add)
  then have "m * 2 ^ e \<le> 2 ^ l" using rnd_le [OF _ y, of M k s] M by (metis f32.inject(2))
  also have "2 ^ l * 2 ^ k \<le> N" using blen_ge_pow [OF bl(2)] by (simp add: power_add)
  then have "2 ^ l \<le> n * 2 ^ f" by (rule rnd_ge [OF _ y N])
  finally show ?thesis .
qed

lemma fadd_mono_nonneg:
  assumes "is_fin x" "is_fin x'" "is_fin y" "fz x \<le> fz x'" "0 \<le> fz x + fz y"
    and "is_fin (fadd x y)" "is_fin (fadd x' y)"
  shows "fz (fadd x y) \<le> fz (fadd x' y)"
proof -
  have add: "fadd u y = fadd_fin u y" if "is_fin u" for u
    using that assms(3) by (cases u; cases y) auto
  have val: "fz (rnd False n 0) \<ge> 0" for n by (simp add: rnd_def Let_def mk_def)
  show ?thesis
  proof (cases "fz x + fz y = 0")
    case True
    then have "fz (fadd x y) = 0" using add [OF assms(1)] by (simp add: fadd_fin_def)
    moreover have "0 \<le> fz (fadd x' y)"
      using add [OF assms(2)] assms(4) True val by (auto simp: fadd_fin_def Let_def)
    ultimately show ?thesis by simp
  next
    case False
    then have r: "fadd x y = rnd False (nat (fz x + fz y)) 0" "fadd x' y = rnd False (nat (fz x' + fz y)) 0"
      using add [OF assms(1)] add [OF assms(2)] assms(4,5) by (auto simp: fadd_fin_def Let_def)
    have shape: "\<exists>m e. rnd False n 0 = FFin False m e" if "is_fin (rnd False n 0)" for n
      using that by (auto simp: rnd_rsig mk_def split: if_splits)
    obtain m e n f where "rnd False (nat (fz x + fz y)) 0 = FFin False m e"
      "rnd False (nat (fz x' + fz y)) 0 = FFin False n f"
      using shape assms(6,7) r by metis
    then show ?thesis
      using r rnd_mono [of "nat (fz x + fz y)" "nat (fz x' + fz y)" False 0 m e n f] assms(4)
      by (simp flip: of_nat_mult of_nat_power)
  qed
qed

lemma fsub_mono_nonneg:
  "is_fin x \<Longrightarrow> is_fin x' \<Longrightarrow> is_fin y \<Longrightarrow> fz x \<le> fz x' \<Longrightarrow> fz y \<le> fz x \<Longrightarrow>
     is_fin (fsub x y) \<Longrightarrow> is_fin (fsub x' y) \<Longrightarrow> fz (fsub x y) \<le> fz (fsub x' y)"
  using fadd_mono_nonneg [of x x' "fneg y"] by (simp add: fsub_def)

end
