(* ===== verification/Raster_Path.thy ===== *)
theory Raster_Path
  imports Float32
begin

text \<open>
  Path construction of the rasteriser (src/user/facet/raster/facet_raster.c, lines 15 to 89,
  and the types of facet_raster.h): a growable array of drawing commands.

  The array of commands is modelled slot by slot. A slot that was allocated and never written
  has no type and no points; an operation writes exactly the members the code writes. The
  allocator is a parameter of each operation (\<open>ok\<close>: does this call succeed), and a
  \<^verbatim>\<open>size_t\<close> is a natural number with the wrap-around at \<open>2 ^ 64\<close> written out.
\<close>

subsection \<open>Types\<close>

record FacetPoint =
  pt_x :: f32
  pt_y :: f32

abbreviation Pt :: "f32 \<Rightarrow> f32 \<Rightarrow> FacetPoint" where
  "Pt x y \<equiv> \<lparr>pt_x = x, pt_y = y\<rparr>"

datatype FacetWindingRule = FACET_WINDING_NONZERO | FACET_WINDING_EVENODD

datatype FacetPathCmdType =
    FACET_CMD_MOVE_TO | FACET_CMD_LINE_TO | FACET_CMD_QUAD_TO | FACET_CMD_CUBIC_TO
  | FACET_CMD_CLOSE

record FacetPathCmd =
  cmd_type :: "FacetPathCmdType option"
  cmd_points :: "FacetPoint option list"   \<comment> \<open>points[3]\<close>

record FacetPath =
  path_cmds :: "FacetPathCmd list"
  path_count :: nat
  path_capacity :: nat

definition fresh_cmd :: FacetPathCmd where
  "fresh_cmd = \<lparr>cmd_type = None, cmd_points = [None, None, None]\<rparr>"

definition sizeof_cmd :: nat where "sizeof_cmd = 28"

definition size_t :: "nat \<Rightarrow> nat" where "size_t n = n mod 2 ^ 64"

subsection \<open>Operations\<close>

definition facet_path_new :: "bool \<Rightarrow> bool \<Rightarrow> FacetPath option" where
  "facet_path_new calloc_ok malloc_ok =
     (if \<not> calloc_ok then None
      else if \<not> malloc_ok then None
      else Some \<lparr>path_cmds = replicate 64 fresh_cmd, path_count = 0, path_capacity = 64\<rparr>)"

definition path_ensure_capacity :: "bool \<Rightarrow> FacetPath \<Rightarrow> FacetPath" where
  "path_ensure_capacity ok p =
     (if path_capacity p \<le> path_count p then
        (let new_capacity = size_t (path_capacity p * 2);
             slots = size_t (new_capacity * sizeof_cmd) div sizeof_cmd
         in if ok then
              p\<lparr>path_cmds := take slots (path_cmds p) @
                             replicate (slots - length (path_cmds p)) fresh_cmd,
                path_capacity := new_capacity\<rparr>
            else p)
      else p)"

text \<open>The command the next operation writes: \<^verbatim>\<open>&path->cmds[path->count++]\<close>, updated by
  \<open>f\<close>.\<close>

definition path_emit :: "(FacetPathCmd \<Rightarrow> FacetPathCmd) \<Rightarrow> FacetPath \<Rightarrow> FacetPath option" where
  "path_emit f p = do {
     cmd \<leftarrow> aget (path_cmds p) (path_count p);
     cmds \<leftarrow> aset (path_cmds p) (path_count p) (f cmd);
     Some (p\<lparr>path_cmds := cmds, path_count := size_t (path_count p + 1)\<rparr>) }"

definition facet_path_move_to :: "bool \<Rightarrow> FacetPath \<Rightarrow> f32 \<Rightarrow> f32 \<Rightarrow> FacetPath option" where
  "facet_path_move_to ok path x y =
     path_emit (\<lambda>cmd. cmd\<lparr>cmd_type := Some FACET_CMD_MOVE_TO,
                          cmd_points := (cmd_points cmd)[0 := Some (Pt x y)]\<rparr>)
       (path_ensure_capacity ok path)"

definition facet_path_line_to :: "bool \<Rightarrow> FacetPath \<Rightarrow> f32 \<Rightarrow> f32 \<Rightarrow> FacetPath option" where
  "facet_path_line_to ok path x y =
     path_emit (\<lambda>cmd. cmd\<lparr>cmd_type := Some FACET_CMD_LINE_TO,
                          cmd_points := (cmd_points cmd)[0 := Some (Pt x y)]\<rparr>)
       (path_ensure_capacity ok path)"

definition facet_path_quad_to ::
  "bool \<Rightarrow> FacetPath \<Rightarrow> f32 \<Rightarrow> f32 \<Rightarrow> f32 \<Rightarrow> f32 \<Rightarrow> FacetPath option" where
  "facet_path_quad_to ok path cx cy x y =
     path_emit (\<lambda>cmd. cmd\<lparr>cmd_type := Some FACET_CMD_QUAD_TO,
                          cmd_points := (cmd_points cmd)[0 := Some (Pt cx cy), 1 := Some (Pt x y)]\<rparr>)
       (path_ensure_capacity ok path)"

definition facet_path_cubic_to ::
  "bool \<Rightarrow> FacetPath \<Rightarrow> f32 \<Rightarrow> f32 \<Rightarrow> f32 \<Rightarrow> f32 \<Rightarrow> f32 \<Rightarrow> f32 \<Rightarrow> FacetPath option" where
  "facet_path_cubic_to ok path c1x c1y c2x c2y x y =
     path_emit (\<lambda>cmd. cmd\<lparr>cmd_type := Some FACET_CMD_CUBIC_TO,
                          cmd_points := (cmd_points cmd)[0 := Some (Pt c1x c1y), 1 := Some (Pt c2x c2y),
                                                         2 := Some (Pt x y)]\<rparr>)
       (path_ensure_capacity ok path)"

definition facet_path_close :: "bool \<Rightarrow> FacetPath \<Rightarrow> FacetPath option" where
  "facet_path_close ok path =
     path_emit (\<lambda>cmd. cmd\<lparr>cmd_type := Some FACET_CMD_CLOSE\<rparr>) (path_ensure_capacity ok path)"

subsection \<open>The abstract path: a list of drawing commands\<close>

datatype pcmd =
    MoveTo FacetPoint | LineTo FacetPoint | QuadTo FacetPoint FacetPoint
  | CubicTo FacetPoint FacetPoint FacetPoint | ClosePath

fun path_op :: "bool \<Rightarrow> pcmd \<Rightarrow> FacetPath \<Rightarrow> FacetPath option" where
  "path_op ok (MoveTo p) path = facet_path_move_to ok path (pt_x p) (pt_y p)"
| "path_op ok (LineTo p) path = facet_path_line_to ok path (pt_x p) (pt_y p)"
| "path_op ok (QuadTo c p) path = facet_path_quad_to ok path (pt_x c) (pt_y c) (pt_x p) (pt_y p)"
| "path_op ok (CubicTo c d p) path =
     facet_path_cubic_to ok path (pt_x c) (pt_y c) (pt_x d) (pt_y d) (pt_x p) (pt_y p)"
| "path_op ok ClosePath path = facet_path_close ok path"

fun run_path :: "(bool \<times> pcmd) list \<Rightarrow> FacetPath \<Rightarrow> FacetPath option" where
  "run_path [] path = Some path"
| "run_path ((ok, c) # cs) path = do { path' \<leftarrow> path_op ok c path; run_path cs path' }"

text \<open>A slot represents a command when the type and the points of that command are
  written.\<close>

fun cmd_rep :: "FacetPathCmd \<Rightarrow> pcmd \<Rightarrow> bool" where
  "cmd_rep s (MoveTo p) \<longleftrightarrow> cmd_type s = Some FACET_CMD_MOVE_TO \<and> aget (cmd_points s) 0 = Some (Some p)"
| "cmd_rep s (LineTo p) \<longleftrightarrow> cmd_type s = Some FACET_CMD_LINE_TO \<and> aget (cmd_points s) 0 = Some (Some p)"
| "cmd_rep s (QuadTo c p) \<longleftrightarrow> cmd_type s = Some FACET_CMD_QUAD_TO
     \<and> aget (cmd_points s) 0 = Some (Some c) \<and> aget (cmd_points s) 1 = Some (Some p)"
| "cmd_rep s (CubicTo c d p) \<longleftrightarrow> cmd_type s = Some FACET_CMD_CUBIC_TO
     \<and> aget (cmd_points s) 0 = Some (Some c) \<and> aget (cmd_points s) 1 = Some (Some d)
     \<and> aget (cmd_points s) 2 = Some (Some p)"
| "cmd_rep s ClosePath \<longleftrightarrow> cmd_type s = Some FACET_CMD_CLOSE"

definition path_rep :: "FacetPath \<Rightarrow> pcmd list \<Rightarrow> bool" where
  "path_rep p cs \<longleftrightarrow> path_count p = length cs \<and> length cs \<le> path_capacity p
     \<and> length (path_cmds p) = path_capacity p \<and> 64 \<le> path_capacity p
     \<and> (\<forall>s \<in> set (path_cmds p). length (cmd_points s) = 3)
     \<and> (\<forall>i < length cs. cmd_rep (path_cmds p ! i) (cs ! i))"

lemma path_new_rep: "facet_path_new True True = Some p \<Longrightarrow> path_rep p []"
  by (auto simp: facet_path_new_def path_rep_def fresh_cmd_def)

lemma ensure_capacity_rep:
  assumes "path_rep p cs" and "length cs < 2 ^ 57"
  shows "path_rep (path_ensure_capacity True p) cs
    \<and> length cs < path_capacity (path_ensure_capacity True p)"
proof (cases "path_capacity p \<le> path_count p")
  case True
  then have cap: "path_capacity p = length cs" using assms(1) by (simp add: path_rep_def)
  have "size_t (path_capacity p * 2) = path_capacity p * 2"
    and "size_t (path_capacity p * 2 * sizeof_cmd) = path_capacity p * 2 * sizeof_cmd"
    using assms(2) cap by (simp_all add: size_t_def sizeof_cmd_def)
  with True cap assms(1) show ?thesis
    by (auto simp: path_ensure_capacity_def path_rep_def Let_def sizeof_cmd_def fresh_cmd_def
        nth_append)
next
  case False
  then show ?thesis using assms(1) by (auto simp: path_ensure_capacity_def path_rep_def)
qed

lemma path_emit_rep:
  assumes p: "path_rep p cs" "length cs < path_capacity p" and n: "length cs < 2 ^ 57"
    and f: "\<And>s. length (cmd_points s) = 3 \<Longrightarrow> cmd_rep (f s) c \<and> length (cmd_points (f s)) = 3"
  shows "\<exists>p'. path_emit f p = Some p' \<and> path_rep p' (cs @ [c])"
proof -
  have "length (cmd_points (path_cmds p ! length cs)) = 3"
    using p by (auto simp: path_rep_def)
  note fc = f [OF this]
  have "size_t (path_count p + 1) = length cs + 1" using p n by (simp add: path_rep_def size_t_def)
  with p fc show ?thesis
    by (auto simp: path_emit_def path_rep_def nth_append nth_list_update less_Suc_eq
        dest!: set_update_subset_insert [THEN subsetD])
qed

lemma path_op_rep:
  assumes "path_rep p cs" and "length cs < 2 ^ 57"
  shows "\<exists>p'. path_op True c p = Some p' \<and> path_rep p' (cs @ [c])"
proof -
  note e = ensure_capacity_rep [OF assms]
  note emit = path_emit_rep [OF conjunct1 [OF e] conjunct2 [OF e] assms(2), of _ c]
  show ?thesis
    by (cases c)
      (use emit in \<open>auto simp: facet_path_move_to_def facet_path_line_to_def facet_path_quad_to_def
        facet_path_cubic_to_def facet_path_close_def\<close>)
qed

lemma run_path_rep:
  "path_rep p cs \<Longrightarrow> length cs + length ds \<le> 2 ^ 57 \<Longrightarrow>
     \<exists>p'. run_path (map (Pair True) ds) p = Some p' \<and> path_rep p' (cs @ ds)"
proof (induction ds arbitrary: p cs)
  case Nil
  then show ?case by simp
next
  case (Cons c ds)
  then obtain p' where p': "path_op True c p = Some p'" "path_rep p' (cs @ [c])"
    using path_op_rep [of p cs c] by auto
  with Cons.IH [OF p'(2)] Cons.prems show ?case by simp
qed

text \<open>C28: A path built by any sequence of fewer than 2^57 drawing calls, none of whose
  reallocations fails, is memory safe and ends with exactly those commands in order, each with
  its type and its points written.\<close>

theorem facet_path_build:
  assumes "length cs \<le> 2 ^ 57"
  shows "\<exists>p p'. facet_path_new True True = Some p \<and> run_path (map (Pair True) cs) p = Some p'
    \<and> path_rep p' cs"
  using run_path_rep [OF path_new_rep, of _ cs] assms by (auto simp: facet_path_new_def)

theorem facet_path_build_witness:
  "\<exists>p p'. facet_path_new True True = Some p
    \<and> run_path (map (Pair True) [MoveTo (Pt f_one f_one), ClosePath]) p = Some p'
    \<and> path_rep p' [MoveTo (Pt f_one f_one), ClosePath]"
  by (rule facet_path_build) simp

lemma path_op_full:
  assumes "path_rep p cs" and "path_capacity p = length cs"
  shows "path_op False c p = None"
proof -
  have "path_ensure_capacity False p = p" by (simp add: path_ensure_capacity_def)
  moreover have "path_emit f p = None" for f
    using assms by (simp add: path_emit_def path_rep_def aget_def)
  ultimately show ?thesis
    by (cases c) (simp_all add: facet_path_move_to_def facet_path_line_to_def facet_path_quad_to_def
        facet_path_cubic_to_def facet_path_close_def)
qed

text \<open>When the array of commands is full and the reallocation fails, the next drawing call
  writes past the end of the array (undefined behaviour): the failure is not reported.\<close>

theorem facet_path_realloc_failure:
  assumes "length cs = 64"
  shows "\<exists>p p'. facet_path_new True True = Some p \<and> run_path (map (Pair True) cs) p = Some p'
    \<and> path_op False c p' = None"
proof -
  obtain p where p: "facet_path_new True True = Some p" by (auto simp: facet_path_new_def)
  have inv: "\<exists>p'. run_path (map (Pair True) ds) q = Some p' \<and> path_capacity p' = 64"
    if "path_rep q es" "path_capacity q = 64" "length es + length ds \<le> 64" for ds es q
    using that
  proof (induction ds arbitrary: q es)
    case (Cons d ds)
    then obtain q' where q': "path_op True d q = Some q'" "path_rep q' (es @ [d])"
      using path_op_rep [of q es d] by auto
    have "path_ensure_capacity True q = q"
      using Cons.prems by (simp add: path_ensure_capacity_def path_rep_def)
    then have "path_capacity q' = 64" using q'(1) Cons.prems(2)
      by (cases d) (auto simp: facet_path_move_to_def facet_path_line_to_def facet_path_quad_to_def
        facet_path_cubic_to_def facet_path_close_def path_emit_def bind_Some_iff)
    with Cons.IH [OF q'(2)] Cons.prems q'(1) show ?case by simp
  qed simp
  have rep: "path_rep p []" using p by (rule path_new_rep)
  moreover have "path_capacity p = 64" using p by (auto simp: facet_path_new_def)
  ultimately obtain p' where "run_path (map (Pair True) cs) p = Some p'" "path_capacity p' = 64"
    using inv [of p "[]" cs] assms by auto
  moreover from run_path_rep [OF rep, of cs] this(1) have "path_rep p' cs" using assms by auto
  ultimately have "path_op False c p' = None" using path_op_full assms by metis
  with p \<open>run_path (map (Pair True) cs) p = Some p'\<close> show ?thesis by blast
qed

theorem facet_path_realloc_failure_witness:
  "\<exists>p p'. facet_path_new True True = Some p
    \<and> run_path (map (Pair True) (replicate 64 ClosePath)) p = Some p' \<and> path_op False ClosePath p' = None"
  by (rule facet_path_realloc_failure) simp

end
