(* ===== verification/Raster_Edges.thy ===== *)
theory Raster_Edges
  imports Raster_Path "HOL-Library.Sublist"
begin

text \<open>
  Curve flattening and the edge table of the rasteriser
  (src/user/facet/raster/facet_raster.c, lines 135 to 296).

  The two public flatteners report the end of each segment to a callback: they are modelled by
  the list of the points reported, \<open>None\<close> when they never return. The internal flatteners
  append edges to a growable table whose allocator is the parameter \<open>heap\<close> (does the
  n-th allocation succeed). \<open>quad_line\<close> and \<open>cubic_line\<close> are the reference
  polylines both are compared with.
\<close>

subsection \<open>Flatness tests and midpoints\<close>

definition f_two :: f32 where "f_two = FFin False (2 ^ 23) 127"          \<comment> \<open>2.0f\<close>
definition f_three :: f32 where "f_three = FFin False (3 * 2 ^ 22) 127"   \<comment> \<open>3.0f\<close>
definition f_sixteen :: f32 where "f_sixteen = FFin False (2 ^ 23) 130"   \<comment> \<open>16.0f\<close>

definition mid_pt :: "FacetPoint \<Rightarrow> FacetPoint \<Rightarrow> FacetPoint" where
  "mid_pt a b = Pt (fmul (fadd (pt_x a) (pt_x b)) f_half) (fmul (fadd (pt_y a) (pt_y b)) f_half)"

definition quad_flat :: "FacetPoint \<Rightarrow> FacetPoint \<Rightarrow> FacetPoint \<Rightarrow> f32 \<Rightarrow> bool" where
  "quad_flat p0 p1 p2 tol =
     (let mx = fmul (fadd (pt_x p0) (pt_x p2)) f_half;
          my = fmul (fadd (pt_y p0) (pt_y p2)) f_half;
          dx = fsub (pt_x p1) mx;
          dy = fsub (pt_y p1) my
      in fle (fadd (fmul dx dx) (fmul dy dy)) (fmul tol tol))"

definition cubic_flat ::
  "FacetPoint \<Rightarrow> FacetPoint \<Rightarrow> FacetPoint \<Rightarrow> FacetPoint \<Rightarrow> f32 \<Rightarrow> bool" where
  "cubic_flat p0 p1 p2 p3 tol =
     (let ux = fsub (fsub (fmul f_three (pt_x p1)) (fmul f_two (pt_x p0))) (pt_x p3);
          uy = fsub (fsub (fmul f_three (pt_y p1)) (fmul f_two (pt_y p0))) (pt_y p3);
          vx = fsub (fsub (fmul f_three (pt_x p2)) (pt_x p0)) (fmul f_two (pt_x p3));
          vy = fsub (fsub (fmul f_three (pt_y p2)) (pt_y p0)) (fmul f_two (pt_y p3));
          ux2 = fmul ux ux; uy2 = fmul uy uy; vx2 = fmul vx vx; vy2 = fmul vy vy;
          max_x = (if flt vx2 ux2 then ux2 else vx2);
          max_y = (if flt vy2 uy2 then uy2 else vy2)
      in fle (fadd max_x max_y) (fmul (fmul f_sixteen tol) tol))"

subsection \<open>The public flatteners\<close>

partial_function (option) facet_flatten_quad ::
  "FacetPoint \<Rightarrow> FacetPoint \<Rightarrow> FacetPoint \<Rightarrow> f32 \<Rightarrow> FacetPoint list option" where
  "facet_flatten_quad p0 p1 p2 tolerance =
     (if quad_flat p0 p1 p2 tolerance then Some [p2]
      else let p01 = mid_pt p0 p1; p12 = mid_pt p1 p2; mid = mid_pt p01 p12
           in do {
             as \<leftarrow> facet_flatten_quad p0 p01 mid tolerance;
             bs \<leftarrow> facet_flatten_quad mid p12 p2 tolerance;
             Some (as @ bs) })"

partial_function (option) facet_flatten_cubic ::
  "FacetPoint \<Rightarrow> FacetPoint \<Rightarrow> FacetPoint \<Rightarrow> FacetPoint \<Rightarrow> f32 \<Rightarrow> FacetPoint list option" where
  "facet_flatten_cubic p0 p1 p2 p3 tolerance =
     (if cubic_flat p0 p1 p2 p3 tolerance then Some [p3]
      else let p01 = mid_pt p0 p1; p12 = mid_pt p1 p2; p23 = mid_pt p2 p3;
               p012 = mid_pt p01 p12; p123 = mid_pt p12 p23; pmid = mid_pt p012 p123
           in do {
             as \<leftarrow> facet_flatten_cubic p0 p01 p012 pmid tolerance;
             bs \<leftarrow> facet_flatten_cubic pmid p123 p23 p3 tolerance;
             Some (as @ bs) })"

subsection \<open>The edge table\<close>

record Edge =
  e_x0 :: f32
  e_y0 :: f32
  e_x1 :: f32
  e_y1 :: f32
  e_dir :: f32

record EdgeTable =
  et_edges :: "Edge option list"
  et_count :: nat
  et_capacity :: nat
  et_allocs :: nat    \<comment> \<open>allocations made so far, the index of the next one\<close>

definition sizeof_edge :: nat where "sizeof_edge = 20"

definition et_new :: "(nat \<Rightarrow> bool) \<Rightarrow> EdgeTable" where
  "et_new heap = (if heap 0
     then \<lparr>et_edges = replicate 256 None, et_count = 0, et_capacity = 256, et_allocs = 1\<rparr>
     else \<lparr>et_edges = [], et_count = 0, et_capacity = 0, et_allocs = 1\<rparr>)"

definition et_store :: "EdgeTable \<Rightarrow> Edge \<Rightarrow> EdgeTable option" where
  "et_store et e = do {
     edges \<leftarrow> aset (et_edges et) (et_count et) (Some e);
     Some (et\<lparr>et_edges := edges, et_count := size_t (et_count et + 1)\<rparr>) }"

definition et_push :: "(nat \<Rightarrow> bool) \<Rightarrow> EdgeTable \<Rightarrow> Edge \<Rightarrow> EdgeTable option" where
  "et_push heap et e =
     (if et_capacity et \<le> et_count et then
        (let new_capacity = (if et_capacity et = 0 then 256 else size_t (et_capacity et * 2));
             slots = size_t (new_capacity * sizeof_edge) div sizeof_edge
         in if \<not> heap (et_allocs et) then Some (et\<lparr>et_allocs := et_allocs et + 1\<rparr>)
            else et_store (et\<lparr>et_edges := resize slots (et_edges et), et_capacity := new_capacity,
                              et_allocs := et_allocs et + 1\<rparr>) e)
      else et_store et e)"

definition add_line_edge ::
  "(nat \<Rightarrow> bool) \<Rightarrow> EdgeTable \<Rightarrow> f32 \<Rightarrow> f32 \<Rightarrow> f32 \<Rightarrow> f32 \<Rightarrow> EdgeTable option" where
  "add_line_edge heap et x0 y0 x1 y1 =
     (if flt (fabsf (fsub y1 y0)) f_milli then Some et
      else if flt y0 y1
      then et_push heap et \<lparr>e_x0 = x0, e_y0 = y0, e_x1 = x1, e_y1 = y1, e_dir = f_one\<rparr>
      else et_push heap et \<lparr>e_x0 = x1, e_y0 = y1, e_x1 = x0, e_y1 = y0, e_dir = fneg f_one\<rparr>)"

function flatten_quad_et ::
  "(nat \<Rightarrow> bool) \<Rightarrow> EdgeTable \<Rightarrow> FacetPoint \<Rightarrow> FacetPoint \<Rightarrow> FacetPoint \<Rightarrow> f32 \<Rightarrow> nat
     \<Rightarrow> EdgeTable option" where
  "flatten_quad_et heap et p0 p1 p2 tol depth =
     (if 16 < depth then add_line_edge heap et (pt_x p0) (pt_y p0) (pt_x p2) (pt_y p2)
      else if quad_flat p0 p1 p2 tol
      then add_line_edge heap et (pt_x p0) (pt_y p0) (pt_x p2) (pt_y p2)
      else let p01 = mid_pt p0 p1; p12 = mid_pt p1 p2; mid = mid_pt p01 p12
           in do {
             et \<leftarrow> flatten_quad_et heap et p0 p01 mid tol (depth + 1);
             flatten_quad_et heap et mid p12 p2 tol (depth + 1) })"
  by pat_completeness auto
termination
  by (relation "measure (\<lambda>(heap, et, p0, p1, p2, tol, depth). 17 - depth)") auto

function flatten_cubic_et ::
  "(nat \<Rightarrow> bool) \<Rightarrow> EdgeTable \<Rightarrow> FacetPoint \<Rightarrow> FacetPoint \<Rightarrow> FacetPoint \<Rightarrow> FacetPoint \<Rightarrow> f32 \<Rightarrow> nat
     \<Rightarrow> EdgeTable option" where
  "flatten_cubic_et heap et p0 p1 p2 p3 tol depth =
     (if 16 < depth then add_line_edge heap et (pt_x p0) (pt_y p0) (pt_x p3) (pt_y p3)
      else if cubic_flat p0 p1 p2 p3 tol
      then add_line_edge heap et (pt_x p0) (pt_y p0) (pt_x p3) (pt_y p3)
      else let p01 = mid_pt p0 p1; p12 = mid_pt p1 p2; p23 = mid_pt p2 p3;
               p012 = mid_pt p01 p12; p123 = mid_pt p12 p23; pmid = mid_pt p012 p123
           in do {
             et \<leftarrow> flatten_cubic_et heap et p0 p01 p012 pmid tol (depth + 1);
             flatten_cubic_et heap et pmid p123 p23 p3 tol (depth + 1) })"
  by pat_completeness auto
termination
  by (relation "measure (\<lambda>(heap, et, p0, p1, p2, p3, tol, depth). 17 - depth)") auto

declare flatten_quad_et.simps [simp del] flatten_cubic_et.simps [simp del]

subsection \<open>Reference polylines\<close>

function quad_line :: "FacetPoint \<Rightarrow> FacetPoint \<Rightarrow> FacetPoint \<Rightarrow> f32 \<Rightarrow> nat \<Rightarrow> FacetPoint list" where
  "quad_line p0 p1 p2 tol depth =
     (if 16 < depth \<or> quad_flat p0 p1 p2 tol then [p2]
      else let p01 = mid_pt p0 p1; p12 = mid_pt p1 p2; mid = mid_pt p01 p12
           in quad_line p0 p01 mid tol (depth + 1) @ quad_line mid p12 p2 tol (depth + 1))"
  by pat_completeness auto
termination
  by (relation "measure (\<lambda>(p0, p1, p2, tol, depth). 17 - depth)") auto

function cubic_line ::
  "FacetPoint \<Rightarrow> FacetPoint \<Rightarrow> FacetPoint \<Rightarrow> FacetPoint \<Rightarrow> f32 \<Rightarrow> nat \<Rightarrow> FacetPoint list" where
  "cubic_line p0 p1 p2 p3 tol depth =
     (if 16 < depth \<or> cubic_flat p0 p1 p2 p3 tol then [p3]
      else let p01 = mid_pt p0 p1; p12 = mid_pt p1 p2; p23 = mid_pt p2 p3;
               p012 = mid_pt p01 p12; p123 = mid_pt p12 p23; pmid = mid_pt p012 p123
           in cubic_line p0 p01 p012 pmid tol (depth + 1) @ cubic_line pmid p123 p23 p3 tol (depth + 1))"
  by pat_completeness auto
termination
  by (relation "measure (\<lambda>(p0, p1, p2, p3, tol, depth). 17 - depth)") auto

declare quad_line.simps [simp del] cubic_line.simps [simp del]

text \<open>The edges of one segment, and of a polyline from \<open>p\<close> through a list of points.\<close>

definition line_edge :: "FacetPoint \<Rightarrow> FacetPoint \<Rightarrow> Edge list" where
  "line_edge a b =
     (if flt (fabsf (fsub (pt_y b) (pt_y a))) f_milli then []
      else if flt (pt_y a) (pt_y b)
      then [\<lparr>e_x0 = pt_x a, e_y0 = pt_y a, e_x1 = pt_x b, e_y1 = pt_y b, e_dir = f_one\<rparr>]
      else [\<lparr>e_x0 = pt_x b, e_y0 = pt_y b, e_x1 = pt_x a, e_y1 = pt_y a, e_dir = fneg f_one\<rparr>])"

fun chain_edges :: "FacetPoint \<Rightarrow> FacetPoint list \<Rightarrow> Edge list" where
  "chain_edges p [] = []"
| "chain_edges p (q # qs) = line_edge p q @ chain_edges q qs"


lemma quad_line_shape:
  "quad_line p0 p1 p2 tol d \<noteq> [] \<and> last (quad_line p0 p1 p2 tol d) = p2
    \<and> length (quad_line p0 p1 p2 tol d) \<le> 2 ^ (17 - d)"
proof (induction p0 p1 p2 tol d rule: quad_line.induct)
  case (1 p0 p1 p2 tol d)
  show ?case
  proof (cases "16 < d \<or> quad_flat p0 p1 p2 tol")
    case True
    then show ?thesis by (simp add: quad_line.simps [of p0])
  next
    case False
    then have "17 - d = Suc (17 - (d + 1))" by linarith
    with False 1 [OF False refl refl refl] show ?thesis
      by (subst (1 2 3) quad_line.simps) (simp add: Let_def)
  qed
qed

lemma cubic_line_shape:
  "cubic_line p0 p1 p2 p3 tol d \<noteq> [] \<and> last (cubic_line p0 p1 p2 p3 tol d) = p3
    \<and> length (cubic_line p0 p1 p2 p3 tol d) \<le> 2 ^ (17 - d)"
proof (induction p0 p1 p2 p3 tol d rule: cubic_line.induct)
  case (1 p0 p1 p2 p3 tol d)
  show ?case
  proof (cases "16 < d \<or> cubic_flat p0 p1 p2 p3 tol")
    case True
    then show ?thesis by (simp add: cubic_line.simps [of p0])
  next
    case False
    then have "17 - d = Suc (17 - (d + 1))" by linarith
    with False 1 [OF False refl refl refl refl refl refl] show ?thesis
      by (subst (1 2 3) cubic_line.simps) (simp add: Let_def)
  qed
qed

lemma chain_edges_append:
  "chain_edges p (as @ bs) = chain_edges p as @ chain_edges (last (p # as)) bs"
  by (induction as arbitrary: p) auto

lemma length_line_edge: "length (line_edge a b) \<le> 1"
  by (simp add: line_edge_def)

lemma length_chain_edges: "length (chain_edges p qs) \<le> length qs"
proof (induction qs arbitrary: p)
  case (Cons q qs)
  show ?case using length_line_edge [of p q] Cons.IH [of q] by simp
qed simp

subsection \<open>The edge table as a list of edges\<close>

definition et_rep :: "EdgeTable \<Rightarrow> Edge list \<Rightarrow> bool" where
  "et_rep et xs \<longleftrightarrow> holds (et_edges et) xs \<and> et_count et = length xs
     \<and> length (et_edges et) = et_capacity et"

text \<open>The table \<open>et\<close> is \<open>xs\<close> extended by the edges \<open>new\<close>, less those lost to a
  failed reallocation.\<close>

definition et_out :: "(nat \<Rightarrow> bool) \<Rightarrow> Edge list \<Rightarrow> Edge list \<Rightarrow> EdgeTable \<Rightarrow> bool" where
  "et_out heap xs new et \<longleftrightarrow>
     (\<exists>ys. et_rep et (xs @ ys) \<and> subseq ys new \<and> ((\<forall>n. heap n) \<longrightarrow> ys = new))"

lemma et_new_rep: "et_rep (et_new heap) []"
  by (simp add: et_new_def et_rep_def)

lemma et_out_refl: "et_rep et xs \<Longrightarrow> et_out heap xs [] et"
  unfolding et_out_def by (intro exI [of _ "[]"]) simp

lemma et_out_all: "et_rep et (xs @ new) \<Longrightarrow> et_out heap xs new et"
  unfolding et_out_def by (intro exI [of _ new]) simp

lemma et_out_lost: "et_rep et xs \<Longrightarrow> \<not> heap n \<Longrightarrow> et_out heap xs new et"
  unfolding et_out_def by (intro exI [of _ "[]"]) auto

lemma et_out_trans:
  assumes "et_out heap xs as et" and "\<And>ys. et_rep et (xs @ ys) \<Longrightarrow> subseq ys as \<Longrightarrow> et_out heap (xs @ ys) bs et'"
  shows "et_out heap xs (as @ bs) et'"
proof -
  obtain ys where ys: "et_rep et (xs @ ys)" "subseq ys as" "(\<forall>n. heap n) \<longrightarrow> ys = as"
    using assms(1) by (auto simp: et_out_def)
  with assms(2) [of ys] obtain zs where "et_rep et' ((xs @ ys) @ zs)" "subseq zs bs" "(\<forall>n. heap n) \<longrightarrow> zs = bs"
    by (auto simp: et_out_def)
  with ys show ?thesis
    unfolding et_out_def by (intro exI [of _ "ys @ zs"]) (simp add: list_emb_append_mono)
qed

lemma et_out_bind:
  assumes "et_out heap xs as et" and "length as \<le> n"
    and "\<And>ys. et_rep et (xs @ ys) \<Longrightarrow> length ys \<le> n \<Longrightarrow>
      \<exists>et'. g et = Some et' \<and> et_out heap (xs @ ys) bs et'"
  shows "\<exists>et'. g et = Some et' \<and> et_out heap xs (as @ bs) et'"
proof -
  have len: "length ys \<le> n" if "subseq ys as" for ys
    using list_emb_length [OF that] assms(2) by simp
  obtain ys where "et_rep et (xs @ ys)" "subseq ys as"
    using assms(1) by (auto simp: et_out_def)
  with assms(3) len obtain et' where "g et = Some et'" by blast
  moreover from this assms(3) len have "et_out heap xs (as @ bs) et'"
    by (intro et_out_trans [OF assms(1)]) fastforce
  ultimately show ?thesis by blast
qed

lemma et_store_rep:
  assumes "et_rep et xs" and "length xs < et_capacity et" and "length xs < 2 ^ 57"
  shows "\<exists>et'. et_store et e = Some et' \<and> et_rep et' (xs @ [e])"
proof -
  have "size_t (length xs + 1) = length xs + 1" using assms(3) by (simp add: size_t_def)
  then show ?thesis
    using assms holds_push [of "et_edges et" xs e] by (simp add: et_store_def et_rep_def)
qed

lemma et_push_out:
  assumes "et_rep et xs" and "length xs < 2 ^ 57"
  shows "\<exists>et'. et_push heap et e = Some et' \<and> et_out heap xs [e] et'"
proof (cases "et_capacity et \<le> et_count et")
  case True
  then have cap: "et_capacity et = length xs" using assms(1) by (auto simp: et_rep_def holds_def)
  define n where "n = (if et_capacity et = 0 then 256 else size_t (et_capacity et * 2))"
  have n: "n = (if length xs = 0 then 256 else length xs * 2)"
    using cap assms(2) by (simp add: n_def size_t_def)
  then have sl: "size_t (n * sizeof_edge) div sizeof_edge = n"
    using assms(2) by (simp add: size_t_def sizeof_edge_def)
  show ?thesis
  proof (cases "heap (et_allocs et)")
    case False
    then have "et_push heap et e = Some (et\<lparr>et_allocs := et_allocs et + 1\<rparr>)"
      using True by (simp add: et_push_def Let_def)
    moreover have "et_rep (et\<lparr>et_allocs := et_allocs et + 1\<rparr>) xs"
      using assms(1) by (simp add: et_rep_def)
    ultimately show ?thesis using False et_out_lost by blast
  next
    case heap: True
    let ?et = "et\<lparr>et_edges := resize n (et_edges et), et_capacity := n, et_allocs := et_allocs et + 1\<rparr>"
    have "et_rep ?et xs" using assms(1) n by (auto simp: et_rep_def intro: holds_resize)
    moreover have "length xs < n" using n by simp
    ultimately obtain et' where "et_store ?et e = Some et'" "et_rep et' (xs @ [e])"
      using et_store_rep [of ?et xs e] assms(2) by auto
    moreover have "et_push heap et e = et_store ?et e"
      using True heap sl by (simp add: et_push_def Let_def n_def)
    ultimately show ?thesis using et_out_all by metis
  qed
next
  case False
  then have "length xs < et_capacity et" using assms(1) by (simp add: et_rep_def)
  with et_store_rep [OF assms(1) this assms(2)] False show ?thesis
    by (auto simp: et_push_def intro: et_out_all)
qed

lemma add_line_edge_out:
  assumes "et_rep et xs" and "length xs < 2 ^ 57"
  shows "\<exists>et'. add_line_edge heap et (pt_x a) (pt_y a) (pt_x b) (pt_y b) = Some et'
    \<and> et_out heap xs (line_edge a b) et'"
  using et_push_out [OF assms, of heap] et_out_refl [OF assms(1)]
  by (simp add: add_line_edge_def line_edge_def)

lemma flatten_quad_et_out:
  assumes "et_rep et xs" and "length xs + 2 ^ (17 - d) \<le> 2 ^ 57"
  shows "\<exists>et'. flatten_quad_et heap et p0 p1 p2 tol d = Some et'
    \<and> et_out heap xs (chain_edges p0 (quad_line p0 p1 p2 tol d)) et'"
  using assms
proof (induction heap et p0 p1 p2 tol d arbitrary: xs rule: flatten_quad_et.induct)
  case (1 heap et p0 p1 p2 tol d)
  have less: "length xs < 2 ^ 57" using 1(4) zero_less_power [of "2::nat" "17 - d"] by linarith
  show ?case
  proof (cases "16 < d \<or> quad_flat p0 p1 p2 tol")
    case True
    then show ?thesis using add_line_edge_out [OF 1(3) less, of heap p0 p2]
      by (simp add: flatten_quad_et.simps [of _ _ p0] quad_line.simps [of p0]) auto
  next
    case False
    define p01 p12 where "p01 = mid_pt p0 p1" and "p12 = mid_pt p1 p2"
    define m where "m = mid_pt p01 p12"
    note defs = p01_def p12_def m_def
    have pow: "17 - d = Suc (17 - (d + 1))" using False by linarith
    have room: "length xs + 2 ^ (17 - (d + 1)) \<le> 2 ^ 57" using 1(4) pow by simp
    obtain et1 where et1: "flatten_quad_et heap et p0 p01 m tol (d + 1) = Some et1"
      "et_out heap xs (chain_edges p0 (quad_line p0 p01 m tol (d + 1))) et1"
      using 1(1) [OF _ _ p01_def p12_def m_def 1(3) room] False by auto
    have q: "quad_line p0 p1 p2 tol d = quad_line p0 p01 m tol (d + 1) @ quad_line m p12 p2 tol (d + 1)"
      using False by (subst quad_line.simps) (simp add: Let_def defs)
    note shape = quad_line_shape [of p0 p01 m tol "d + 1"]
    have "\<exists>et'. flatten_quad_et heap et1 m p12 p2 tol (d + 1) = Some et'
        \<and> et_out heap xs (chain_edges p0 (quad_line p0 p01 m tol (d + 1))
             @ chain_edges m (quad_line m p12 p2 tol (d + 1))) et'"
    proof (rule et_out_bind [OF et1(2), where n = "2 ^ (17 - (d + 1))"])
      show "length (chain_edges p0 (quad_line p0 p01 m tol (d + 1))) \<le> 2 ^ (17 - (d + 1))"
        using length_chain_edges shape order_trans by blast
      fix ys assume "et_rep et1 (xs @ ys)" and "length ys \<le> 2 ^ (17 - (d + 1))"
      moreover from this have "length (xs @ ys) + 2 ^ (17 - (d + 1)) \<le> 2 ^ 57" using 1(4) pow by simp
      ultimately show "\<exists>et'. flatten_quad_et heap et1 m p12 p2 tol (d + 1) = Some et'
        \<and> et_out heap (xs @ ys) (chain_edges m (quad_line m p12 p2 tol (d + 1))) et'"
        using 1(2) [OF _ _ p01_def p12_def m_def et1(1)] False by blast
    qed
    then show ?thesis
      using False et1(1) shape
      by (subst flatten_quad_et.simps) (simp add: q chain_edges_append Let_def defs [symmetric])
  qed
qed

lemma flatten_cubic_et_out:
  assumes "et_rep et xs" and "length xs + 2 ^ (17 - d) \<le> 2 ^ 57"
  shows "\<exists>et'. flatten_cubic_et heap et p0 p1 p2 p3 tol d = Some et'
    \<and> et_out heap xs (chain_edges p0 (cubic_line p0 p1 p2 p3 tol d)) et'"
  using assms
proof (induction heap et p0 p1 p2 p3 tol d arbitrary: xs rule: flatten_cubic_et.induct)
  case (1 heap et p0 p1 p2 p3 tol d)
  have less: "length xs < 2 ^ 57" using 1(4) zero_less_power [of "2::nat" "17 - d"] by linarith
  show ?case
  proof (cases "16 < d \<or> cubic_flat p0 p1 p2 p3 tol")
    case True
    then show ?thesis using add_line_edge_out [OF 1(3) less, of heap p0 p3]
      by (simp add: flatten_cubic_et.simps [of _ _ p0] cubic_line.simps [of p0]) auto
  next
    case False
    define p01 p12 p23 where "p01 = mid_pt p0 p1" and "p12 = mid_pt p1 p2" and "p23 = mid_pt p2 p3"
    define p012 p123 where "p012 = mid_pt p01 p12" and "p123 = mid_pt p12 p23"
    define m where "m = mid_pt p012 p123"
    note defs = p01_def p12_def p23_def p012_def p123_def m_def
    have pow: "17 - d = Suc (17 - (d + 1))" using False by linarith
    have room: "length xs + 2 ^ (17 - (d + 1)) \<le> 2 ^ 57" using 1(4) pow by simp
    obtain et1 where et1: "flatten_cubic_et heap et p0 p01 p012 m tol (d + 1) = Some et1"
      "et_out heap xs (chain_edges p0 (cubic_line p0 p01 p012 m tol (d + 1))) et1"
      using 1(1) [OF _ _ p01_def p12_def p23_def p012_def p123_def m_def 1(3) room] False by auto
    have q: "cubic_line p0 p1 p2 p3 tol d = cubic_line p0 p01 p012 m tol (d + 1) @ cubic_line m p123 p23 p3 tol (d + 1)"
      using False by (subst cubic_line.simps) (simp add: Let_def defs)
    note shape = cubic_line_shape [of p0 p01 p012 m tol "d + 1"]
    have "\<exists>et'. flatten_cubic_et heap et1 m p123 p23 p3 tol (d + 1) = Some et'
        \<and> et_out heap xs (chain_edges p0 (cubic_line p0 p01 p012 m tol (d + 1))
             @ chain_edges m (cubic_line m p123 p23 p3 tol (d + 1))) et'"
    proof (rule et_out_bind [OF et1(2), where n = "2 ^ (17 - (d + 1))"])
      show "length (chain_edges p0 (cubic_line p0 p01 p012 m tol (d + 1))) \<le> 2 ^ (17 - (d + 1))"
        using length_chain_edges shape order_trans by blast
      fix ys assume "et_rep et1 (xs @ ys)" and "length ys \<le> 2 ^ (17 - (d + 1))"
      moreover from this have "length (xs @ ys) + 2 ^ (17 - (d + 1)) \<le> 2 ^ 57" using 1(4) pow by simp
      ultimately show "\<exists>et'. flatten_cubic_et heap et1 m p123 p23 p3 tol (d + 1) = Some et'
        \<and> et_out heap (xs @ ys) (chain_edges m (cubic_line m p123 p23 p3 tol (d + 1))) et'"
        using 1(2) [OF _ _ p01_def p12_def p23_def p012_def p123_def m_def et1(1)] False by blast
    qed
    then show ?thesis
      using False et1(1) shape
      by (subst flatten_cubic_et.simps) (simp add: q chain_edges_append Let_def defs [symmetric])
  qed
qed


subsection \<open>The public flatteners against the reference\<close>

text \<open>The subdivision reaches a flat piece everywhere within \<open>n\<close> halvings.\<close>

fun quad_settles :: "nat \<Rightarrow> FacetPoint \<Rightarrow> FacetPoint \<Rightarrow> FacetPoint \<Rightarrow> f32 \<Rightarrow> bool" where
  "quad_settles 0 p0 p1 p2 tol \<longleftrightarrow> False"
| "quad_settles (Suc n) p0 p1 p2 tol \<longleftrightarrow> quad_flat p0 p1 p2 tol \<or>
     (let p01 = mid_pt p0 p1; p12 = mid_pt p1 p2; mid = mid_pt p01 p12
      in quad_settles n p0 p01 mid tol \<and> quad_settles n mid p12 p2 tol)"

fun cubic_settles ::
  "nat \<Rightarrow> FacetPoint \<Rightarrow> FacetPoint \<Rightarrow> FacetPoint \<Rightarrow> FacetPoint \<Rightarrow> f32 \<Rightarrow> bool" where
  "cubic_settles 0 p0 p1 p2 p3 tol \<longleftrightarrow> False"
| "cubic_settles (Suc n) p0 p1 p2 p3 tol \<longleftrightarrow> cubic_flat p0 p1 p2 p3 tol \<or>
     (let p01 = mid_pt p0 p1; p12 = mid_pt p1 p2; p23 = mid_pt p2 p3;
          p012 = mid_pt p01 p12; p123 = mid_pt p12 p23; pmid = mid_pt p012 p123
      in cubic_settles n p0 p01 p012 pmid tol \<and> cubic_settles n pmid p123 p23 p3 tol)"

lemma quad_settles_flatten:
  "quad_settles n p0 p1 p2 tol \<Longrightarrow> n + d \<le> 17 \<Longrightarrow>
     facet_flatten_quad p0 p1 p2 tol = Some (quad_line p0 p1 p2 tol d)"
proof (induction n arbitrary: p0 p1 p2 d)
  case (Suc n)
  show ?case
  proof (cases "quad_flat p0 p1 p2 tol")
    case True
    then show ?thesis by (simp add: facet_flatten_quad.simps [of p0 p1] quad_line.simps [of p0 p1])
  next
    case False
    with Suc.prems Suc.IH [of _ _ _ "d + 1"] show ?thesis
      by (subst facet_flatten_quad.simps, subst quad_line.simps) (simp add: Let_def)
  qed
qed simp

lemma cubic_settles_flatten:
  "cubic_settles n p0 p1 p2 p3 tol \<Longrightarrow> n + d \<le> 17 \<Longrightarrow>
     facet_flatten_cubic p0 p1 p2 p3 tol = Some (cubic_line p0 p1 p2 p3 tol d)"
proof (induction n arbitrary: p0 p1 p2 p3 d)
  case (Suc n)
  show ?case
  proof (cases "cubic_flat p0 p1 p2 p3 tol")
    case True
    then show ?thesis by (simp add: facet_flatten_cubic.simps [of p0 p1] cubic_line.simps [of p0 p1])
  next
    case False
    with Suc.prems Suc.IH [of _ _ _ _ "d + 1"] show ?thesis
      by (subst facet_flatten_cubic.simps, subst cubic_line.simps) (simp add: Let_def)
  qed
qed simp

text \<open>C25: On every curve that becomes flat within the 17 levels the internal flatteners allow,
  the public flatteners terminate, and the edges that filling adds to an empty table are exactly
  the segments between the points the public flatteners report, the last of which is the end
  point of the curve.\<close>

theorem flatten_agree:
  assumes "\<forall>n. heap n"
  shows "(quad_settles 17 p0 p1 p2 tol \<longrightarrow>
      (\<exists>pts et. facet_flatten_quad p0 p1 p2 tol = Some pts \<and> pts \<noteq> [] \<and> last pts = p2
        \<and> flatten_quad_et heap (et_new heap) p0 p1 p2 tol 0 = Some et \<and> et_rep et (chain_edges p0 pts)))
    \<and> (cubic_settles 17 p0 p1 p2 p3 tol \<longrightarrow>
      (\<exists>pts et. facet_flatten_cubic p0 p1 p2 p3 tol = Some pts \<and> pts \<noteq> [] \<and> last pts = p3
        \<and> flatten_cubic_et heap (et_new heap) p0 p1 p2 p3 tol 0 = Some et \<and> et_rep et (chain_edges p0 pts)))"
proof -
  obtain et where "flatten_quad_et heap (et_new heap) p0 p1 p2 tol 0 = Some et"
    "et_rep et (chain_edges p0 (quad_line p0 p1 p2 tol 0))"
    using flatten_quad_et_out [OF et_new_rep, of 0 heap heap p0 p1 p2 tol] assms by (auto simp: et_out_def)
  moreover obtain et' where "flatten_cubic_et heap (et_new heap) p0 p1 p2 p3 tol 0 = Some et'"
    "et_rep et' (chain_edges p0 (cubic_line p0 p1 p2 p3 tol 0))"
    using flatten_cubic_et_out [OF et_new_rep, of 0 heap heap p0 p1 p2 p3 tol] assms by (auto simp: et_out_def)
  ultimately show ?thesis
    using quad_settles_flatten [of 17 p0 p1 p2 tol 0] cubic_settles_flatten [of 17 p0 p1 p2 p3 tol 0]
      quad_line_shape [of p0 p1 p2 tol 0] cubic_line_shape [of p0 p1 p2 p3 tol 0] by auto
qed

lemma quad_settles_origin: "quad_settles 17 (Pt f_zero f_zero) (Pt f_zero f_zero) (Pt f_zero f_zero) f_quarter"
proof -
  have "fround (fz f_quarter * fz f_quarter) 149 (fmul f_quarter f_quarter)"
    by (rule fmul_fround [OF _ _ _ irepr_one]) (simp_all add: f_quarter_def unit1_def)
  then have q: "is_fin (fmul f_quarter f_quarter)" "0 \<le> fz (fmul f_quarter f_quarter)"
    using fround_ge [of "fz f_quarter * fz f_quarter" 149 _ 0] by (auto simp: f_quarter_def)
  have b: "blen 0 = 0" by (simp add: blen.simps)
  have m: "fmul f_zero x = f_zero" if "x = f_half \<or> x = f_zero" for x
    using that by (auto simp: f_lit_defs rnd_def mk_def b)
  have "fadd f_zero f_zero = f_zero" "fsub f_zero f_zero = f_zero"
    by (auto simp: fsub_def f_zero_def fadd_fin_def)
  then have "quad_flat (Pt f_zero f_zero) (Pt f_zero f_zero) (Pt f_zero f_zero) f_quarter"
    using q m by (simp add: quad_flat_def Let_def) (simp add: f_zero_def)
  then show ?thesis using quad_settles.simps(2) [of 16] by simp
qed

theorem flatten_agree_witness:
  "\<exists>pts et. facet_flatten_quad (Pt f_zero f_zero) (Pt f_zero f_zero) (Pt f_zero f_zero) f_quarter = Some pts
    \<and> pts \<noteq> [] \<and> last pts = Pt f_zero f_zero
    \<and> flatten_quad_et (\<lambda>_. True) (et_new (\<lambda>_. True)) (Pt f_zero f_zero) (Pt f_zero f_zero) (Pt f_zero f_zero) f_quarter 0 = Some et
    \<and> et_rep et (chain_edges (Pt f_zero f_zero) pts)"
  using flatten_agree [of "\<lambda>_. True" "Pt f_zero f_zero" "Pt f_zero f_zero" "Pt f_zero f_zero" f_quarter]
    quad_settles_origin by blast

text \<open>A coordinate that is not a number never passes a flatness test and spreads to both
  halves.\<close>

lemma fadd_nan [simp]: "fadd FNaN y = FNaN" "fadd x FNaN = FNaN"
  by (cases x; simp)+

lemma fmul_nan [simp]: "fmul FNaN y = FNaN" "fmul x FNaN = FNaN"
  by (cases x; simp)+

lemma fsub_nan [simp]: "fsub FNaN y = FNaN" "fsub x FNaN = FNaN"
  by (simp_all add: fsub_def)

lemma fle_nan [simp]: "fle FNaN y = False" "fle x FNaN = False"
  by (cases x; simp)+

lemma flt_nan [simp]: "flt FNaN y = False" "flt x FNaN = False"
  by (cases x; simp)+

text \<open>C40: The public quadratic flattener has no depth limit: with a control point whose x
  coordinate is not a number it never returns, whatever the other coordinates and the
  tolerance.\<close>

theorem facet_flatten_quad_nan:
  assumes "pt_x p1 = FNaN"
  shows "facet_flatten_quad p0 p1 p2 tol = None"
proof -
  have "pt_x q1 \<noteq> FNaN" if "facet_flatten_quad q0 q1 q2 t = Some pts" for q0 q1 q2 t pts
    using that
  proof (induction rule: facet_flatten_quad.raw_induct [rotated, consumes 1])
    case (1 f q0 q1 q2 t pts)
    show ?case
    proof
      assume nan: "pt_x q1 = FNaN"
      then have "\<not> quad_flat q0 q1 q2 t" by (simp add: quad_flat_def)
      moreover have "pt_x (mid_pt q0 q1) = FNaN" using nan by (simp add: mid_pt_def)
      ultimately show False using 1 by (auto simp: Let_def bind_Some_iff)
    qed
  qed
  with assms show ?thesis by fastforce
qed

theorem facet_flatten_quad_nan_witness:
  "facet_flatten_quad (Pt f_zero f_zero) (Pt FNaN f_zero) (Pt f_one f_zero) f_quarter = None"
  by (rule facet_flatten_quad_nan) simp


subsection \<open>Bounded coordinates\<close>

text \<open>Finite coordinates of magnitude at most \<open>2 ^ 28\<close>: every later conversion to
  \<^verbatim>\<open>int\<close> is then in range.\<close>

definition cbound :: int where "cbound = 2 ^ 28 * unit1"

definition fbd :: "f32 \<Rightarrow> bool" where
  "fbd x \<longleftrightarrow> fok x \<and> \<bar>fz x\<bar> \<le> cbound"

definition pt_bd :: "FacetPoint \<Rightarrow> bool" where
  "pt_bd p \<longleftrightarrow> fbd (pt_x p) \<and> fbd (pt_y p)"

lemma cbound_pos [simp]: "0 < cbound"
  by (simp add: cbound_def)

lemma cbound_irepr: "irepr cbound" "irepr (2 * cbound)" "irepr (4 * cbound)"
proof -
  have "cbound = 2 ^ 177" "2 * cbound = 2 ^ 178" "4 * cbound = 2 ^ 179"
    by (simp_all add: cbound_def unit1_def)
  moreover have "irepr (2 ^ 177)" "irepr (2 ^ 178)" "irepr (2 ^ 179)"
    by (rule irepr_pow, simp)+
  ultimately show "irepr cbound" "irepr (2 * cbound)" "irepr (4 * cbound)" by metis+
qed

lemma fbd_mid:
  assumes "fbd x" and "fbd y"
  shows "fbd (fmul (fadd x y) f_half)"
proof -
  have "\<bar>fz x + fz y\<bar> \<le> 2 * cbound" using assms unfolding fbd_def by linarith
  then have s: "fround (fz x + fz y) 0 (fadd x y)" and b: "\<bar>fz x + fz y\<bar> \<le> 2 * cbound * 2 ^ 0"
    using fadd_fround [of x y "2 * cbound"] assms cbound_irepr(2) by (simp_all add: fbd_def)
  have sum: "\<bar>fz (fadd x y)\<bar> \<le> 2 * cbound" using fround_abs [OF s b cbound_irepr(2)] .
  have h: "fz f_half = 2 ^ 148" by (simp add: f_half_def)
  have prod: "\<bar>fz (fadd x y) * fz f_half\<bar> \<le> cbound * 2 ^ 149"
  proof -
    have "\<bar>fz (fadd x y)\<bar> * 2 ^ 148 \<le> 2 * cbound * 2 ^ 148" using sum by (rule mult_right_mono) simp
    then show ?thesis by (simp add: h abs_mult)
  qed
  have "is_fin (fadd x y)" "is_fin f_half" using s by (simp_all add: f_half_def)
  then have m: "fround (fz (fadd x y) * fz f_half) 149 (fmul (fadd x y) f_half)"
    using prod cbound_irepr(1) by (rule fmul_fround)
  then show ?thesis using fround_abs [OF m prod cbound_irepr(1)] by (simp add: fbd_def)
qed

lemma pt_bd_mid: "pt_bd a \<Longrightarrow> pt_bd b \<Longrightarrow> pt_bd (mid_pt a b)"
  by (simp add: pt_bd_def mid_pt_def fbd_mid)

lemma quad_line_bd:
  "pt_bd p0 \<Longrightarrow> pt_bd p1 \<Longrightarrow> pt_bd p2 \<Longrightarrow> \<forall>q \<in> set (quad_line p0 p1 p2 tol d). pt_bd q"
proof (induction p0 p1 p2 tol d rule: quad_line.induct)
  case (1 p0 p1 p2 tol d)
  show ?case
  proof (cases "16 < d \<or> quad_flat p0 p1 p2 tol")
    case True
    then show ?thesis using 1(5) by (subst quad_line.simps) simp
  next
    case False
    have eq: "quad_line p0 p1 p2 tol d =
      quad_line p0 (mid_pt p0 p1) (mid_pt (mid_pt p0 p1) (mid_pt p1 p2)) tol (d + 1)
      @ quad_line (mid_pt (mid_pt p0 p1) (mid_pt p1 p2)) (mid_pt p1 p2) p2 tol (d + 1)"
      using False by (subst quad_line.simps) (simp add: Let_def)
    show ?thesis
      unfolding eq set_append ball_Un using 1(1,2) [OF False refl refl refl] 1(3-5) pt_bd_mid by blast
  qed
qed

lemma cubic_line_bd:
  "pt_bd p0 \<Longrightarrow> pt_bd p1 \<Longrightarrow> pt_bd p2 \<Longrightarrow> pt_bd p3 \<Longrightarrow>
     \<forall>q \<in> set (cubic_line p0 p1 p2 p3 tol d). pt_bd q"
proof (induction p0 p1 p2 p3 tol d rule: cubic_line.induct)
  case (1 p0 p1 p2 p3 tol d)
  show ?case
  proof (cases "16 < d \<or> cubic_flat p0 p1 p2 p3 tol")
    case True
    then show ?thesis using 1(6) by (subst cubic_line.simps) simp
  next
    case False
    define p01 p12 p23 where "p01 = mid_pt p0 p1" and "p12 = mid_pt p1 p2" and "p23 = mid_pt p2 p3"
    define p012 p123 where "p012 = mid_pt p01 p12" and "p123 = mid_pt p12 p23"
    define m where "m = mid_pt p012 p123"
    note defs = p01_def p12_def p23_def p012_def p123_def m_def
    have "pt_bd p01" "pt_bd p12" "pt_bd p23" "pt_bd p012" "pt_bd p123" "pt_bd m"
      using 1(3-6) by (simp_all add: defs pt_bd_mid)
    moreover have eq: "cubic_line p0 p1 p2 p3 tol d =
      cubic_line p0 p01 p012 m tol (d + 1) @ cubic_line m p123 p23 p3 tol (d + 1)"
      using False by (subst cubic_line.simps) (simp add: Let_def defs)
    ultimately show ?thesis
      unfolding eq set_append ball_Un
      using 1(1,2) [OF False p01_def p12_def p23_def p012_def p123_def m_def] 1(3-6) by blast
  qed
qed

text \<open>Every edge of the table runs strictly downwards.\<close>

definition edge_wf :: "Edge \<Rightarrow> bool" where
  "edge_wf e \<longleftrightarrow> fbd (e_x0 e) \<and> fbd (e_y0 e) \<and> fbd (e_x1 e) \<and> fbd (e_y1 e)
     \<and> fz (e_y0 e) < fz (e_y1 e) \<and> (e_dir e = f_one \<or> e_dir e = fneg f_one)"

lemma fbd_sub:
  assumes "fbd x" and "fbd y"
  shows "fround (fz x - fz y) 0 (fsub x y)" and "\<bar>fz (fsub x y)\<bar> \<le> 2 * cbound"
proof -
  have b: "\<bar>fz x - fz y\<bar> \<le> 2 * cbound" using assms unfolding fbd_def by linarith
  then show s: "fround (fz x - fz y) 0 (fsub x y)"
    using fsub_fround [of x y "2 * cbound"] assms cbound_irepr(2) by (simp add: fbd_def)
  show "\<bar>fz (fsub x y)\<bar> \<le> 2 * cbound" using b by (intro fround_abs [OF s _ cbound_irepr(2)]) simp
qed

lemma line_edge_wf:
  assumes "pt_bd a" and "pt_bd b" and "e \<in> set (line_edge a b)"
  shows "edge_wf e"
proof -
  let ?d = "fsub (pt_y b) (pt_y a)"
  have bd: "fbd (pt_x a)" "fbd (pt_y a)" "fbd (pt_x b)" "fbd (pt_y b)"
    using assms(1,2) by (auto simp: pt_bd_def)
  have r: "fround (fz (pt_y b) - fz (pt_y a)) 0 ?d" by (rule fbd_sub(1) [OF bd(4,2)])
  have "\<not> flt (fabsf ?d) f_milli" using assms(3) by (auto simp: line_edge_def split: if_splits)
  moreover have "is_fin (fabsf ?d)" using r fround_fok fok_fabsf fok_is_fin by blast
  ultimately have "fz f_milli \<le> \<bar>fz ?d\<bar>" by (simp add: f_milli_def)
  moreover have "0 < fz f_milli" by (simp add: f_milli_def)
  ultimately have "fz ?d \<noteq> 0" by linarith
  then have "fz (pt_y b) \<noteq> fz (pt_y a)" using fround_exact [OF r, of 0] by auto
  then show ?thesis using assms(3) bd
    by (auto simp: line_edge_def edge_wf_def fbd_def split: if_splits)
qed

lemma chain_edges_wf:
  "pt_bd p \<Longrightarrow> \<forall>q \<in> set qs. pt_bd q \<Longrightarrow> e \<in> set (chain_edges p qs) \<Longrightarrow> edge_wf e"
  by (induction qs arbitrary: p) (auto intro: line_edge_wf)

end
