(* ===== verification/Raster_Canvas.thy ===== *)
theory Raster_Canvas
  imports Raster_Path
begin

text \<open>
  The canvas of the rasteriser (src/user/facet/raster/facet_raster.c, lines 91 to 133 and 298
  to 321): an RGBA byte buffer with 32-bit width, height and stride, whose offsets are computed
  in 32-bit unsigned arithmetic. \<open>get_px\<close> reads the buffer as a grid of pixels; the
  operations are specified on that grid.
\<close>

subsection \<open>Operations\<close>

record FacetCanvas =
  cv_pixels :: bytes
  cv_width :: u32
  cv_height :: u32
  cv_stride :: u32

definition facet_canvas_new :: "bool \<Rightarrow> bool \<Rightarrow> u32 \<Rightarrow> u32 \<Rightarrow> FacetCanvas option" where
  "facet_canvas_new calloc1_ok calloc2_ok width height =
     (if \<not> calloc1_ok then None
      else if \<not> calloc2_ok then None
      else Some \<lparr>cv_pixels = replicate (unat (width * 4 * height)) 0, cv_width = width,
                 cv_height = height, cv_stride = width * 4\<rparr>)"

definition rgba_r :: "u32 \<Rightarrow> u8" where "rgba_r rgba = ucast (drop_bit 24 rgba AND 0xFF)"
definition rgba_g :: "u32 \<Rightarrow> u8" where "rgba_g rgba = ucast (drop_bit 16 rgba AND 0xFF)"
definition rgba_b :: "u32 \<Rightarrow> u8" where "rgba_b rgba = ucast (drop_bit 8 rgba AND 0xFF)"
definition rgba_a :: "u32 \<Rightarrow> u8" where "rgba_a rgba = ucast (rgba AND 0xFF)"

definition clear_px :: "u8 \<Rightarrow> u8 \<Rightarrow> u8 \<Rightarrow> u8 \<Rightarrow> nat \<Rightarrow> nat \<Rightarrow> bytes \<Rightarrow> bytes option" where
  "clear_px r g b a row i ps = (let x = word_of_nat i :: u32 in do {
     ps \<leftarrow> aset ps (row + unat (x * 4 + 0)) r;
     ps \<leftarrow> aset ps (row + unat (x * 4 + 1)) g;
     ps \<leftarrow> aset ps (row + unat (x * 4 + 2)) b;
     aset ps (row + unat (x * 4 + 3)) a })"

definition facet_canvas_clear :: "FacetCanvas \<Rightarrow> u32 \<Rightarrow> FacetCanvas option" where
  "facet_canvas_clear canvas rgba = do {
     ps \<leftarrow> for_upto 0 (unat (cv_height canvas))
       (\<lambda>y. for_upto 0 (unat (cv_width canvas))
          (clear_px (rgba_r rgba) (rgba_g rgba) (rgba_b rgba) (rgba_a rgba)
             (unat (word_of_nat y * cv_stride canvas))))
       (cv_pixels canvas);
     Some (canvas\<lparr>cv_pixels := ps\<rparr>) }"

definition blend_chan :: "u8 \<Rightarrow> u8 \<Rightarrow> u8 \<Rightarrow> u8" where
  "blend_chan src dst a = word_of_int (uint src + uint dst * (255 - uint a) div 255)"

definition canvas_blend ::
  "FacetCanvas \<Rightarrow> int \<Rightarrow> int \<Rightarrow> u8 \<Rightarrow> u8 \<Rightarrow> u8 \<Rightarrow> u8 \<Rightarrow> FacetCanvas option" where
  "canvas_blend c x y r g b a =
     (if x < 0 \<or> sint (cv_width c) \<le> x \<or> y < 0 \<or> sint (cv_height c) \<le> y then Some c
      else let o' = unat (word_of_int y * cv_stride c) + unat (word_of_int x * 4 :: u32);
               ps = cv_pixels c
           in if a = 255 then do {
                ps \<leftarrow> aset ps o' r;
                ps \<leftarrow> aset ps (o' + 1) g;
                ps \<leftarrow> aset ps (o' + 2) b;
                ps \<leftarrow> aset ps (o' + 3) a;
                Some (c\<lparr>cv_pixels := ps\<rparr>) }
              else if 0 < a then do {
                p0 \<leftarrow> aget ps o';
                ps \<leftarrow> aset ps o' (blend_chan r p0 a);
                p1 \<leftarrow> aget ps (o' + 1);
                ps \<leftarrow> aset ps (o' + 1) (blend_chan g p1 a);
                p2 \<leftarrow> aget ps (o' + 2);
                ps \<leftarrow> aset ps (o' + 2) (blend_chan b p2 a);
                p3 \<leftarrow> aget ps (o' + 3);
                ps \<leftarrow> aset ps (o' + 3) (blend_chan a p3 a);
                Some (c\<lparr>cv_pixels := ps\<rparr>) }
              else Some c)"

subsection \<open>The canvas as a grid of pixels\<close>

type_synonym rgba = "u8 \<times> u8 \<times> u8 \<times> u8"

abbreviation cw :: "FacetCanvas \<Rightarrow> nat" where "cw c \<equiv> unat (cv_width c)"
abbreviation ch :: "FacetCanvas \<Rightarrow> nat" where "ch c \<equiv> unat (cv_height c)"

text \<open>A canvas whose byte size fits 32 bits and whose buffer has that size.\<close>

definition canvas_wf :: "FacetCanvas \<Rightarrow> bool" where
  "canvas_wf c \<longleftrightarrow> cw c * 4 < 2 ^ 32 \<and> cw c * 4 * ch c < 2 ^ 32 \<and> ch c < 2 ^ 31
     \<and> cv_stride c = cv_width c * 4 \<and> length (cv_pixels c) = cw c * 4 * ch c"

definition pos :: "nat \<Rightarrow> nat \<Rightarrow> nat \<Rightarrow> nat" where
  "pos w x y = 4 * (y * w + x)"

definition px_at :: "bytes \<Rightarrow> nat \<Rightarrow> rgba" where
  "px_at ps i = (ps ! i, ps ! (i + 1), ps ! (i + 2), ps ! (i + 3))"

definition get_px :: "FacetCanvas \<Rightarrow> nat \<Rightarrow> nat \<Rightarrow> rgba" where
  "get_px c x y = px_at (cv_pixels c) (pos (cw c) x y)"

definition put4 :: "bytes \<Rightarrow> nat \<Rightarrow> rgba \<Rightarrow> bytes" where
  "put4 ps i p = (case p of (r, g, b, a) \<Rightarrow> ps[i := r, i + 1 := g, i + 2 := b, i + 3 := a])"

lemma length_put4 [simp]: "length (put4 ps i p) = length ps"
  by (simp add: put4_def split: prod.split)

lemma px_at_put4_same: "i + 3 < length ps \<Longrightarrow> px_at (put4 ps i p) i = p"
  by (cases p) (simp add: px_at_def put4_def)

lemma px_at_put4_other: "i + 4 \<le> j \<or> j + 4 \<le> i \<Longrightarrow> px_at (put4 ps i p) j = px_at ps j"
  by (cases p) (auto simp: px_at_def put4_def)

lemma pos_inj:
  fixes w :: nat
  assumes "x < w" and "x' < w" and "y * w + x = y' * w + x'"
  shows "x = x' \<and> y = y'"
proof -
  have "(y * w + x) mod w = x" and "(y' * w + x') mod w = x'" using assms(1,2) by simp_all
  moreover have "(y * w + x) div w = y" and "(y' * w + x') div w = y'" using assms(1,2) by simp_all
  ultimately show ?thesis using assms(3) by metis
qed

lemma pos_apart:
  assumes "x < w" and "x' < w" and "(x, y) \<noteq> (x', y')"
  shows "pos w x y + 4 \<le> pos w x' y' \<or> pos w x' y' + 4 \<le> pos w x y"
proof -
  have "y * w + x \<noteq> y' * w + x'" using pos_inj [OF assms(1,2)] assms(3) by blast
  then show ?thesis by (auto simp: pos_def)
qed

lemma pos_bound:
  assumes "x < w" and "y < h"
  shows "pos w x y + 3 < w * 4 * h"
proof -
  have "(y + 1) * w \<le> h * w" using assms(2) by (intro mult_le_mono1) simp
  then have "y * w + x < h * w" using assms(1) by simp
  moreover have "4 * i + 3 < 4 * j" if "i < j" for i j :: nat using that by simp
  ultimately have "4 * (y * w + x) + 3 < 4 * (h * w)" by blast
  then show ?thesis by (simp add: pos_def mult_ac)
qed

text \<open>The 32-bit offset computations do not wrap on a well-formed canvas.\<close>

lemma row_offset:
  assumes "canvas_wf c" and "y < ch c"
  shows "unat (word_of_nat y * cv_stride c) = 4 * (y * cw c)"
proof -
  have s: "unat (cv_stride c) = cw c * 4"
    using assms(1) by (simp add: canvas_wf_def unat_word_ariths)
  have "y * (cw c * 4) \<le> ch c * (cw c * 4)" using assms(2) by (intro mult_le_mono1) simp
  also have "\<dots> < 2 ^ 32" using assms(1) by (simp only: canvas_wf_def mult_ac)
  finally have le: "y * (cw c * 4) < 2 ^ 32" .
  have "y < 2 ^ 32" using assms(2) unat_u32_less [of "cv_height c"] by simp
  then have "unat (word_of_nat y :: u32) = y" by (simp add: unat_of_nat)
  then show ?thesis using le s by (simp add: unat_word_ariths mult_ac)
qed

lemma col_offset:
  assumes "canvas_wf c" and "x < cw c" and "k < 4"
  shows "unat (word_of_nat x * 4 + word_of_nat k :: u32) = 4 * x + k"
proof -
  have "4 * x + k < 2 ^ 32" using assms by (simp add: canvas_wf_def)
  then have "unat (word_of_nat (4 * x + k) :: u32) = 4 * x + k" by (subst unat_of_nat) simp
  moreover have "(word_of_nat (4 * x + k) :: u32) = word_of_nat x * 4 + word_of_nat k" by simp
  ultimately show ?thesis by metis
qed

lemma canvas_dims:
  assumes "canvas_wf c"
  shows "sint (cv_width c) = int (cw c)" and "sint (cv_height c) = int (ch c)"
  using assms sint_dim [of "cv_width c"] sint_dim [of "cv_height c"] by (auto simp: canvas_wf_def)


subsection \<open>Creating and clearing\<close>

text \<open>A canvas whose size in bytes fits 32 bits is created well formed and fully
  transparent black.\<close>

theorem facet_canvas_new_wf:
  assumes "unat w * 4 < 2 ^ 32" and "unat w * 4 * unat h < 2 ^ 32" and "unat h < 2 ^ 31"
  shows "\<exists>c. facet_canvas_new True True w h = Some c \<and> canvas_wf c \<and> cv_width c = w \<and> cv_height c = h
    \<and> (\<forall>x < unat w. \<forall>y < unat h. get_px c x y = (0, 0, 0, 0))"
proof -
  have "unat (w * 4) = unat w * 4" using assms(1) by (simp add: unat_word_ariths)
  then have n: "unat (w * 4 * h) = unat w * 4 * unat h" using assms(2) by (simp add: unat_word_ariths)
  have "get_px \<lparr>cv_pixels = replicate (unat (w * 4 * h)) 0, cv_width = w, cv_height = h,
      cv_stride = w * 4\<rparr> x y = (0, 0, 0, 0)" if "x < unat w" "y < unat h" for x y
    using pos_bound [OF that] by (simp add: get_px_def px_at_def n)
  then show ?thesis using assms n by (simp add: facet_canvas_new_def canvas_wf_def)
qed

theorem facet_canvas_new_wf_witness:
  "\<exists>c. facet_canvas_new True True 2 3 = Some c \<and> canvas_wf c \<and> cv_width c = 2 \<and> cv_height c = 3
    \<and> (\<forall>x < unat (2 :: u32). \<forall>y < unat (3 :: u32). get_px c x y = (0, 0, 0, 0))"
  by (rule facet_canvas_new_wf) simp_all

text \<open>The state of the buffer when the pixels before \<open>(x, y)\<close>, in row order, have been
  set to \<open>p\<close>.\<close>

definition cleared :: "FacetCanvas \<Rightarrow> rgba \<Rightarrow> nat \<Rightarrow> nat \<Rightarrow> bytes \<Rightarrow> bool" where
  "cleared c p y x ps \<longleftrightarrow> length ps = length (cv_pixels c) \<and>
     (\<forall>x' < cw c. \<forall>y' < ch c. y' < y \<or> y' = y \<and> x' < x \<longrightarrow> px_at ps (pos (cw c) x' y') = p)"

lemma clear_px_ok:
  assumes wf: "canvas_wf c" and y: "y < ch c" and x: "x < cw c" and ps: "cleared c (r, g, b, a) y x ps"
  shows "\<exists>ps'. clear_px r g b a (unat (word_of_nat y * cv_stride c)) x ps = Some ps'
    \<and> cleared c (r, g, b, a) y (Suc x) ps'"
proof -
  let ?i = "pos (cw c) x y"
  have len: "length ps = cw c * 4 * ch c" using ps wf by (simp add: cleared_def canvas_wf_def)
  have b: "?i + 3 < length ps" using pos_bound [OF x y] len by simp
  have off: "unat (word_of_nat y * cv_stride c) + unat (word_of_nat x * 4 + word_of_nat k :: u32) = ?i + k"
    if "k < 4" for k
    using row_offset [OF wf y] col_offset [OF wf x that] by (simp add: pos_def)
  note offs = off [of 0, simplified] off [of 1, simplified] off [of 2, simplified] off [of 3, simplified]
  have "clear_px r g b a (unat (word_of_nat y * cv_stride c)) x ps = Some (put4 ps ?i (r, g, b, a))"
    using b offs by (simp add: clear_px_def Let_def put4_def)
  moreover have "cleared c (r, g, b, a) y (Suc x) (put4 ps ?i (r, g, b, a))"
    unfolding cleared_def
  proof (intro conjI allI impI)
    fix x' y' assume x': "x' < cw c" "y' < ch c" "y' < y \<or> y' = y \<and> x' < Suc x"
    show "px_at (put4 ps ?i (r, g, b, a)) (pos (cw c) x' y') = (r, g, b, a)"
    proof (cases "(x', y') = (x, y)")
      case True
      then show ?thesis using b by (simp add: px_at_put4_same)
    next
      case False
      then have "px_at (put4 ps ?i (r, g, b, a)) (pos (cw c) x' y') = px_at ps (pos (cw c) x' y')"
        using pos_apart [OF x x'(1), of y y'] by (intro px_at_put4_other) auto
      also have "\<dots> = (r, g, b, a)" using ps x' False by (auto simp: cleared_def less_Suc_eq)
      finally show ?thesis .
    qed
  qed (use ps in \<open>simp add: cleared_def\<close>)
  ultimately show ?thesis by blast
qed

lemma cleared_next_row: "cleared c p y (cw c) ps \<Longrightarrow> cleared c p (Suc y) 0 ps"
  by (auto simp: cleared_def less_Suc_eq)

text \<open>On a well-formed canvas, clear is memory safe and sets every pixel to the four
  channels of the colour.\<close>

theorem facet_canvas_clear_ok:
  assumes "canvas_wf c"
  shows "\<exists>c'. facet_canvas_clear c rgba = Some c' \<and> canvas_wf c' \<and> cw c' = cw c \<and> ch c' = ch c
    \<and> (\<forall>x < cw c. \<forall>y < ch c. get_px c' x y = (rgba_r rgba, rgba_g rgba, rgba_b rgba, rgba_a rgba))"
proof -
  let ?p = "(rgba_r rgba, rgba_g rgba, rgba_b rgba, rgba_a rgba)"
  let ?body = "\<lambda>y. for_upto 0 (cw c) (clear_px (rgba_r rgba) (rgba_g rgba) (rgba_b rgba) (rgba_a rgba)
      (unat (word_of_nat y * cv_stride c)))"
  have row: "\<exists>ps'. ?body y ps = Some ps' \<and> cleared c ?p (Suc y) 0 ps'"
    if "y < ch c" "cleared c ?p y 0 ps" for y ps
    using for_upto_inv [where P = "cleared c ?p y" and lo = 0 and hi = "cw c" and s = ps] that
      clear_px_ok [OF assms that(1)] cleared_next_row by (metis zero_le)
  have "cleared c ?p 0 0 (cv_pixels c)" by (simp add: cleared_def)
  then obtain ps where ps: "for_upto 0 (ch c) ?body (cv_pixels c) = Some ps" "cleared c ?p (ch c) 0 ps"
    using for_upto_inv [where P = "\<lambda>y. cleared c ?p y 0" and lo = 0 and hi = "ch c" and body = ?body] row
    by (metis zero_le)
  then show ?thesis using assms
    by (simp add: facet_canvas_clear_def canvas_wf_def cleared_def get_px_def)
qed

theorem facet_canvas_clear_ok_witness:
  "\<exists>c'. facet_canvas_clear \<lparr>cv_pixels = replicate 8 0, cv_width = 2, cv_height = 1, cv_stride = 8\<rparr> 0x11223344 = Some c'
    \<and> canvas_wf c' \<and> cw c' = 2 \<and> ch c' = 1
    \<and> (\<forall>x < 2. \<forall>y < 1. get_px c' x y =
         (rgba_r 0x11223344, rgba_g 0x11223344, rgba_b 0x11223344, rgba_a 0x11223344))"
  using facet_canvas_clear_ok [of "\<lparr>cv_pixels = replicate 8 0, cv_width = 2, cv_height = 1, cv_stride = 8\<rparr>" "0x11223344"]
  by (simp add: canvas_wf_def)

text \<open>The size of the pixel buffer is computed in 32 bits: a canvas of 65536 by 16384
  pixels is created with an empty buffer, and clearing it writes out of bounds.\<close>

theorem facet_canvas_new_wraps:
  "\<exists>c. facet_canvas_new True True 65536 16384 = Some c \<and> cv_pixels c = []
    \<and> facet_canvas_clear c rgba = None"
proof -
  define c where "c = \<lparr>cv_pixels = [], cv_width = 65536 :: u32, cv_height = 16384 :: u32, cv_stride = 262144 :: u32\<rparr>"
  have "facet_canvas_new True True 65536 16384 = Some c"
    by (simp add: facet_canvas_new_def c_def)
  moreover have "facet_canvas_clear c rgba = None"
    by (simp add: facet_canvas_clear_def c_def for_upto_step clear_px_def Let_def aset_def)
  ultimately show ?thesis by (auto simp: c_def)
qed


subsection \<open>Blending\<close>

text \<open>The pixel that blending \<open>(r, g, b, a)\<close> over a pixel leaves.\<close>

fun src_over :: "rgba \<Rightarrow> rgba \<Rightarrow> rgba" where
  "src_over (r, g, b, a) (p0, p1, p2, p3) =
     (if a = 255 then (r, g, b, a)
      else if a = 0 then (p0, p1, p2, p3)
      else (blend_chan r p0 a, blend_chan g p1 a, blend_chan b p2 a, blend_chan a p3 a))"

definition set_px :: "FacetCanvas \<Rightarrow> nat \<Rightarrow> nat \<Rightarrow> rgba \<Rightarrow> FacetCanvas" where
  "set_px c x y p = c\<lparr>cv_pixels := put4 (cv_pixels c) (pos (cw c) x y) p\<rparr>"

lemma set_px_dims [simp]: "cv_width (set_px c x y p) = cv_width c" "cv_height (set_px c x y p) = cv_height c"
  by (simp_all add: set_px_def)

lemma set_px_wf [simp]: "canvas_wf (set_px c x y p) = canvas_wf c"
  by (simp add: set_px_def canvas_wf_def)

lemma get_set_px:
  assumes "canvas_wf c" and "x < cw c" and "y < ch c" and "x' < cw c"
  shows "get_px (set_px c x y p) x' y' = (if (x', y') = (x, y) then p else get_px c x' y')"
proof (cases "(x', y') = (x, y)")
  case True
  then show ?thesis using pos_bound [OF assms(2,3)] assms(1)
    by (simp add: get_px_def set_px_def px_at_put4_same canvas_wf_def)
next
  case False
  then show ?thesis using pos_apart [OF assms(2,4), of y y']
    by (auto simp: get_px_def set_px_def px_at_put4_other)
qed

lemma src_over_transparent [simp]: "src_over (r, g, b, 0) p = p"
  by (cases p) simp

lemma canvas_blend_in:
  assumes wf: "canvas_wf c" and x: "x < cw c" and y: "y < ch c"
  shows "canvas_blend c (int x) (int y) r g b a =
    Some (if a = 0 then c else set_px c x y (src_over (r, g, b, a) (get_px c x y)))"
proof -
  let ?i = "pos (cw c) x y"
  have off: "unat (word_of_int (int y) * cv_stride c) + unat (word_of_int (int x) * 4 :: u32) = ?i"
    using row_offset [OF wf y] col_offset [OF wf x, of 0] by (simp add: pos_def)
  have b: "?i + 3 < length (cv_pixels c)" using pos_bound [OF x y] wf by (simp add: canvas_wf_def)
  have guard: "\<not> (int x < 0 \<or> sint (cv_width c) \<le> int x \<or> int y < 0 \<or> sint (cv_height c) \<le> int y)"
    using x y canvas_dims [OF wf] by (simp only: of_nat_le_iff) simp
  show ?thesis
    using b unfolding canvas_blend_def off Let_def if_not_P [OF guard]
    by (cases "a = 0") (auto simp: word_gt_0 set_px_def get_px_def px_at_def put4_def)
qed

lemma canvas_blend_out:
  assumes "canvas_wf c" and "x < 0 \<or> int (cw c) \<le> x \<or> y < 0 \<or> int (ch c) \<le> y"
  shows "canvas_blend c x y r g b a = Some c"
  using assms by (simp only: canvas_blend_def canvas_dims if_True)



subsection \<open>Premultiplied colours\<close>

fun premul :: "rgba \<Rightarrow> bool" where
  "premul (r, g, b, a) \<longleftrightarrow> r \<le> a \<and> g \<le> a \<and> b \<le> a"

lemma blend_chan_exact:
  assumes "src \<le> a"
  shows "uint (blend_chan src dst a) = uint src + uint dst * (255 - uint a) div 255"
proof -
  have a: "uint src \<le> uint a" using assms by (simp add: word_le_def)
  have d: "uint dst \<le> 255" and a2: "uint a \<le> 255"
    using uint_lt2p [of dst] uint_lt2p [of a] by simp_all
  have "uint dst * (255 - uint a) \<le> 255 * (255 - uint a)" using d a2 by (intro mult_right_mono) auto
  then have "uint dst * (255 - uint a) div 255 \<le> 255 - uint a"
    using zdiv_mono1 [of "uint dst * (255 - uint a)" "255 * (255 - uint a)" 255] by simp
  moreover have "0 \<le> uint dst * (255 - uint a) div 255" using a2 by (simp add: pos_imp_zdiv_nonneg_iff)
  ultimately show ?thesis
    using a a2 uint_ge_0 [of src] unfolding blend_chan_def
    by (subst uint_word_of_int) (simp del: uint_ge_0)
qed

lemma blend_chan_mono:
  assumes "src \<le> a" and "dst \<le> da"
  shows "blend_chan src dst a \<le> blend_chan a da a"
proof -
  have "uint dst * (255 - uint a) \<le> uint da * (255 - uint a)"
    using assms(2) uint_lt2p [of a] by (intro mult_right_mono) (auto simp: word_le_def)
  then have "uint dst * (255 - uint a) div 255 \<le> uint da * (255 - uint a) div 255"
    by (rule zdiv_mono1) simp
  then show ?thesis
    using assms(1) by (simp add: word_le_def blend_chan_exact)
qed

text \<open>Blending a premultiplied colour over a premultiplied pixel never wraps a channel
  (each channel is the exact source plus the attenuated destination) and leaves a premultiplied
  pixel.\<close>

theorem src_over_premul:
  assumes "premul (r, g, b, a)" and "premul (p0, p1, p2, p3)" and "a \<noteq> 0"
  shows "premul (src_over (r, g, b, a) (p0, p1, p2, p3))
    \<and> (\<forall>s d. s \<le> a \<longrightarrow> uint (blend_chan s d a) = uint s + uint d * (255 - uint a) div 255)
    \<and> (a = 255 \<longrightarrow> src_over (r, g, b, a) (p0, p1, p2, p3) = (r, g, b, a))"
  using assms by (auto simp: blend_chan_exact intro: blend_chan_mono)

theorem src_over_premul_witness:
  "premul (src_over (64, 0, 0, 128) (255, 255, 255, 255))"
  using src_over_premul [of 64 0 0 128 255 255 255 255] by simp

end
