(* ===== verification/Raster_Fill.thy ===== *)
theory Raster_Fill
  imports Raster_Edges Raster_Canvas
begin

text \<open>
  Filling a path (src/user/facet/raster/facet_raster.c, lines 323 to 456): the path is flattened
  into the edge table, the edges crossing the centre line of each scanline are accumulated into
  a row of winding increments, and the running sum decides which pixels are blended.

  The specification is in exact integers: \<open>winding es y x\<close> is the sum of the directions of
  the edges that cross the centre of row \<open>y\<close> at or to the left of column \<open>x\<close>, and a
  pixel is painted when the winding rule says so.
\<close>

subsection \<open>The phases of the fill\<close>

definition cmd_pt :: "FacetPathCmd \<Rightarrow> nat \<Rightarrow> FacetPoint option" where
  "cmd_pt cmd k = do { p \<leftarrow> aget (cmd_points cmd) k; p }"

type_synonym pen = "EdgeTable \<times> FacetPoint \<times> FacetPoint"   \<comment> \<open>et, cur, sub_start\<close>

definition fill_cmd :: "(nat \<Rightarrow> bool) \<Rightarrow> FacetPathCmd \<Rightarrow> pen \<Rightarrow> pen option" where
  "fill_cmd heap cmd st = (case st of (et, cur, sub_start) \<Rightarrow> do {
     ty \<leftarrow> cmd_type cmd;
     (case ty of
        FACET_CMD_MOVE_TO \<Rightarrow> do {
          p \<leftarrow> cmd_pt cmd 0;
          Some (et, p, p) }
      | FACET_CMD_LINE_TO \<Rightarrow> do {
          p \<leftarrow> cmd_pt cmd 0;
          et \<leftarrow> add_line_edge heap et (pt_x cur) (pt_y cur) (pt_x p) (pt_y p);
          Some (et, p, sub_start) }
      | FACET_CMD_QUAD_TO \<Rightarrow> do {
          c \<leftarrow> cmd_pt cmd 0;
          p \<leftarrow> cmd_pt cmd 1;
          et \<leftarrow> flatten_quad_et heap et cur c p f_quarter 0;
          Some (et, p, sub_start) }
      | FACET_CMD_CUBIC_TO \<Rightarrow> do {
          c \<leftarrow> cmd_pt cmd 0;
          d \<leftarrow> cmd_pt cmd 1;
          p \<leftarrow> cmd_pt cmd 2;
          et \<leftarrow> flatten_cubic_et heap et cur c d p f_quarter 0;
          Some (et, p, sub_start) }
      | FACET_CMD_CLOSE \<Rightarrow> do {
          et \<leftarrow> add_line_edge heap et (pt_x cur) (pt_y cur) (pt_x sub_start) (pt_y sub_start);
          Some (et, sub_start, sub_start) }) })"

definition fill_edges :: "(nat \<Rightarrow> bool) \<Rightarrow> FacetPath \<Rightarrow> pen option" where
  "fill_edges heap path =
     for_upto 0 (path_count path)
       (\<lambda>i st. do { cmd \<leftarrow> aget (path_cmds path) i; fill_cmd heap cmd st })
       (et_new heap, Pt f_zero f_zero, Pt f_zero f_zero)"

definition edge_at :: "EdgeTable \<Rightarrow> nat \<Rightarrow> Edge option" where
  "edge_at et j = do { e \<leftarrow> aget (et_edges et) j; e }"

definition bbox_step :: "EdgeTable \<Rightarrow> nat \<Rightarrow> f32 \<times> f32 \<Rightarrow> (f32 \<times> f32) option" where
  "bbox_step et j mm = (case mm of (min_y, max_y) \<Rightarrow> do {
     e \<leftarrow> edge_at et j;
     Some (if flt (e_y0 e) min_y then e_y0 e else min_y,
           if flt max_y (e_y1 e) then e_y1 e else max_y) })"

definition bbox :: "EdgeTable \<Rightarrow> (f32 \<times> f32) option" where
  "bbox et = do {
     e0 \<leftarrow> edge_at et 0;
     for_upto 1 (et_count et) (bbox_step et) (e_y0 e0, e_y1 e0) }"

definition edge_hit :: "f32 \<Rightarrow> Edge \<Rightarrow> bool" where
  "edge_hit scan_y e \<longleftrightarrow> fle (e_y0 e) scan_y \<and> flt scan_y (e_y1 e)"

definition edge_x :: "f32 \<Rightarrow> Edge \<Rightarrow> f32" where
  "edge_x scan_y e =
     (let t = fdiv (fsub scan_y (e_y0 e)) (fsub (e_y1 e) (e_y0 e))
      in fadd (e_x0 e) (fmul t (fsub (e_x1 e) (e_x0 e))))"

definition cover_edge :: "u32 \<Rightarrow> f32 \<Rightarrow> Edge \<Rightarrow> f32 list \<Rightarrow> f32 list option" where
  "cover_edge width scan_y e coverage =
     (if edge_hit scan_y e then do {
        col \<leftarrow> f_to_i32 (floorf (edge_x scan_y e));
        let col = (if col < 0 then 0 else col);
        (if col < sint width then do {
           v \<leftarrow> iget coverage col;
           iset coverage col (fadd v (e_dir e)) }
         else Some coverage) }
      else Some coverage)"

definition accumulate :: "u32 \<Rightarrow> f32 \<Rightarrow> EdgeTable \<Rightarrow> f32 list option" where
  "accumulate width scan_y et =
     for_upto 0 (et_count et)
       (\<lambda>ei coverage. do { e \<leftarrow> edge_at et ei; cover_edge width scan_y e coverage })
       (replicate (unat width) f_zero)"

definition fill_amount :: "FacetWindingRule \<Rightarrow> f32 \<Rightarrow> f32" where
  "fill_amount rule w =
     (let abs_w = fabsf w
      in case rule of
           FACET_WINDING_NONZERO \<Rightarrow> if flt f_milli abs_w then f_one else f_zero
         | FACET_WINDING_EVENODD \<Rightarrow>
             (let w_floor = floorf abs_w;
                  w_frac = fsub abs_w w_floor;
                  half = floorf (fmul w_floor f_half)
              in if flt f_half (fsub w_floor (fmul half f_two)) then f_one
                 else if flt f_half w_frac then f_one else f_zero))"

definition emit_px ::
  "u32 \<Rightarrow> FacetWindingRule \<Rightarrow> f32 list \<Rightarrow> int \<Rightarrow> nat \<Rightarrow> f32 \<times> FacetCanvas \<Rightarrow> (f32 \<times> FacetCanvas) option" where
  "emit_px rgba rule coverage scanline px st = (case st of (w, canvas) \<Rightarrow> do {
     v \<leftarrow> aget coverage px;
     let w = fadd w v;
     (if flt f_milli (fill_amount rule w) then do {
        alpha \<leftarrow> f_to_u8 (fmul (fill_amount rule w) (f_of_int (uint (rgba_a rgba))));
        canvas \<leftarrow> canvas_blend canvas (int px) scanline (rgba_r rgba) (rgba_g rgba) (rgba_b rgba) alpha;
        Some (w, canvas) }
      else Some (w, canvas)) })"

definition scan_row ::
  "EdgeTable \<Rightarrow> u32 \<Rightarrow> FacetWindingRule \<Rightarrow> nat \<Rightarrow> FacetCanvas \<Rightarrow> FacetCanvas option" where
  "scan_row et rgba rule scanline canvas = do {
     coverage \<leftarrow> accumulate (cv_width canvas) (fadd (f_of_int (int scanline)) f_half) et;
     (w, canvas) \<leftarrow> for_upto 0 (nat (sint (cv_width canvas)))
       (emit_px rgba rule coverage (int scanline)) (f_zero, canvas);
     Some canvas }"

definition fill_canvas ::
  "(nat \<Rightarrow> bool) \<Rightarrow> bool \<Rightarrow> FacetCanvas \<Rightarrow> FacetPath \<Rightarrow> u32 \<Rightarrow> FacetWindingRule \<Rightarrow> FacetCanvas option" where
  "fill_canvas heap cov_ok canvas path rgba rule = do {
     (et, cur, sub_start) \<leftarrow> fill_edges heap path;
     (if et_count et = 0 then Some canvas
      else do {
        (min_y, max_y) \<leftarrow> bbox et;
        ys \<leftarrow> f_to_i32 (floorf min_y);
        ye \<leftarrow> f_to_i32 (ceilf max_y);
        let y_start = (if ys < 0 then 0 else ys);
        let y_end = (if sint (cv_height canvas) < ye then sint (cv_height canvas) else ye);
        (if \<not> cov_ok then Some canvas
         else for_upto (nat y_start) (nat y_end) (scan_row et rgba rule) canvas) }) }"

text \<open>The public entry points take pointers: a null canvas or path, or an empty path, changes
  nothing. The outer option is the outcome, the inner one the canvas the pointer refers to.\<close>

definition facet_canvas_fill ::
  "(nat \<Rightarrow> bool) \<Rightarrow> bool \<Rightarrow> FacetCanvas option \<Rightarrow> FacetPath option \<Rightarrow> u32 \<Rightarrow> FacetWindingRule
     \<Rightarrow> FacetCanvas option option" where
  "facet_canvas_fill heap cov_ok canvas path rgba rule =
     (case (canvas, path) of
        (Some c, Some p) \<Rightarrow>
          if path_count p = 0 then Some (Some c)
          else do { c' \<leftarrow> fill_canvas heap cov_ok c p rgba rule; Some (Some c') }
      | _ \<Rightarrow> Some canvas)"

definition facet_canvas_fill_nonzero ::
  "(nat \<Rightarrow> bool) \<Rightarrow> bool \<Rightarrow> FacetCanvas option \<Rightarrow> FacetPath option \<Rightarrow> u32 \<Rightarrow> FacetCanvas option option" where
  "facet_canvas_fill_nonzero heap cov_ok canvas path rgba =
     facet_canvas_fill heap cov_ok canvas path rgba FACET_WINDING_NONZERO"

subsection \<open>The specification\<close>

fun path_edges :: "FacetPoint \<Rightarrow> FacetPoint \<Rightarrow> pcmd list \<Rightarrow> Edge list" where
  "path_edges cur sub [] = []"
| "path_edges cur sub (MoveTo p # cs) = path_edges p p cs"
| "path_edges cur sub (LineTo p # cs) = line_edge cur p @ path_edges p sub cs"
| "path_edges cur sub (QuadTo c p # cs) =
     chain_edges cur (quad_line cur c p f_quarter 0) @ path_edges p sub cs"
| "path_edges cur sub (CubicTo c d p # cs) =
     chain_edges cur (cubic_line cur c d p f_quarter 0) @ path_edges p sub cs"
| "path_edges cur sub (ClosePath # cs) = line_edge cur sub @ path_edges sub sub cs"

abbreviation origin :: FacetPoint where "origin \<equiv> Pt f_zero f_zero"

fun cmd_bd :: "pcmd \<Rightarrow> bool" where
  "cmd_bd (MoveTo p) \<longleftrightarrow> pt_bd p"
| "cmd_bd (LineTo p) \<longleftrightarrow> pt_bd p"
| "cmd_bd (QuadTo c p) \<longleftrightarrow> pt_bd c \<and> pt_bd p"
| "cmd_bd (CubicTo c d p) \<longleftrightarrow> pt_bd c \<and> pt_bd d \<and> pt_bd p"
| "cmd_bd ClosePath \<longleftrightarrow> True"

text \<open>The centre of row \<open>y\<close> is \<open>y + 1/2\<close>.\<close>

definition crosses :: "nat \<Rightarrow> Edge \<Rightarrow> bool" where
  "crosses y e \<longleftrightarrow> 2 * fz (e_y0 e) \<le> (2 * int y + 1) * unit1 \<and> (2 * int y + 1) * unit1 < 2 * fz (e_y1 e)"

definition cross_col :: "nat \<Rightarrow> Edge \<Rightarrow> int" where
  "cross_col y e = max 0 (fz (edge_x (fadd (f_of_int (int y)) f_half) e) div unit1)"

definition dir_of :: "Edge \<Rightarrow> int" where
  "dir_of e = (if e_dir e = f_one then 1 else - 1)"

definition winding :: "Edge list \<Rightarrow> nat \<Rightarrow> nat \<Rightarrow> int" where
  "winding es y x = sum_list (map dir_of (filter (\<lambda>e. crosses y e \<and> cross_col y e \<le> int x) es))"

fun inside :: "FacetWindingRule \<Rightarrow> int \<Rightarrow> bool" where
  "inside FACET_WINDING_NONZERO w \<longleftrightarrow> w \<noteq> 0"
| "inside FACET_WINDING_EVENODD w \<longleftrightarrow> odd w"


subsection \<open>Phase 1: the edges of a path\<close>

fun cmd_edges :: "FacetPoint \<Rightarrow> FacetPoint \<Rightarrow> pcmd \<Rightarrow> Edge list" where
  "cmd_edges cur sub (MoveTo p) = []"
| "cmd_edges cur sub (LineTo p) = line_edge cur p"
| "cmd_edges cur sub (QuadTo c p) = chain_edges cur (quad_line cur c p f_quarter 0)"
| "cmd_edges cur sub (CubicTo c d p) = chain_edges cur (cubic_line cur c d p f_quarter 0)"
| "cmd_edges cur sub ClosePath = line_edge cur sub"

fun next_pen :: "FacetPoint \<Rightarrow> FacetPoint \<Rightarrow> pcmd \<Rightarrow> FacetPoint \<times> FacetPoint" where
  "next_pen cur sub (MoveTo p) = (p, p)"
| "next_pen cur sub (LineTo p) = (p, sub)"
| "next_pen cur sub (QuadTo c p) = (p, sub)"
| "next_pen cur sub (CubicTo c d p) = (p, sub)"
| "next_pen cur sub ClosePath = (sub, sub)"

lemma path_edges_Cons:
  "path_edges cur sub (c # cs) =
     cmd_edges cur sub c @ path_edges (fst (next_pen cur sub c)) (snd (next_pen cur sub c)) cs"
  by (cases c) auto

lemma length_cmd_edges: "length (cmd_edges cur sub c) \<le> 2 ^ 17"
proof (cases c)
  case (QuadTo p q)
  then show ?thesis
    using length_chain_edges [of cur "quad_line cur p q f_quarter 0"] quad_line_shape [of cur p q f_quarter 0]
    by simp
next
  case (CubicTo p q r)
  then show ?thesis
    using length_chain_edges [of cur "cubic_line cur p q r f_quarter 0"]
      cubic_line_shape [of cur p q r f_quarter 0] by simp
qed (auto simp: line_edge_def)

lemma cmd_edges_wf:
  "pt_bd cur \<Longrightarrow> pt_bd sub \<Longrightarrow> cmd_bd c \<Longrightarrow> e \<in> set (cmd_edges cur sub c) \<Longrightarrow> edge_wf e"
proof (cases c)
  case (QuadTo p q)
  assume "pt_bd cur" and "cmd_bd c" and "e \<in> set (cmd_edges cur sub c)"
  with QuadTo show ?thesis by (intro chain_edges_wf [OF _ quad_line_bd]) auto
next
  case (CubicTo p q r)
  assume "pt_bd cur" and "cmd_bd c" and "e \<in> set (cmd_edges cur sub c)"
  with CubicTo show ?thesis by (intro chain_edges_wf [OF _ cubic_line_bd]) auto
qed (auto intro: line_edge_wf)

lemma path_edges_wf:
  "pt_bd cur \<Longrightarrow> pt_bd sub \<Longrightarrow> \<forall>c \<in> set cs. cmd_bd c \<Longrightarrow> e \<in> set (path_edges cur sub cs) \<Longrightarrow> edge_wf e"
proof (induction cs arbitrary: cur sub)
  case (Cons c cs)
  have "pt_bd (fst (next_pen cur sub c))" "pt_bd (snd (next_pen cur sub c))"
    using Cons.prems(1-3) by (cases c; auto)+
  with Cons show ?case by (auto simp: path_edges_Cons intro: cmd_edges_wf)
qed simp

lemma fill_cmd_out:
  assumes "cmd_rep cmd c" and "et_rep et xs" and "length xs + 2 ^ 17 \<le> 2 ^ 57"
  shows "\<exists>et'. fill_cmd heap cmd (et, cur, sub) = Some (et', next_pen cur sub c)
    \<and> et_out heap xs (cmd_edges cur sub c) et'"
proof -
  have less: "length xs < 2 ^ 57" using assms(3) by simp
  note line = add_line_edge_out [OF assms(2) less]
  note quad = flatten_quad_et_out [OF assms(2), of 0] and cubic = flatten_cubic_et_out [OF assms(2), of 0]
  show ?thesis
  proof (cases c)
    case (MoveTo p)
    then show ?thesis using assms(1,2) by (simp add: fill_cmd_def cmd_pt_def et_out_refl)
  next
    case (LineTo p)
    with assms(1) line [of heap cur p] show ?thesis by (auto simp: fill_cmd_def cmd_pt_def)
  next
    case (QuadTo p q)
    with assms(1,3) quad [of heap cur p q f_quarter] show ?thesis by (auto simp: fill_cmd_def cmd_pt_def)
  next
    case (CubicTo p q r)
    with assms(1,3) cubic [of heap cur p q r f_quarter] show ?thesis by (auto simp: fill_cmd_def cmd_pt_def)
  next
    case ClosePath
    with assms(1) line [of heap cur sub] show ?thesis by (auto simp: fill_cmd_def cmd_pt_def)
  qed
qed

lemma fill_edges_out:
  assumes path: "path_rep path cs" and n: "length cs \<le> 2 ^ 39"
  shows "\<exists>et cur sub. fill_edges heap path = Some (et, cur, sub)
    \<and> et_out heap [] (path_edges origin origin cs) et"
proof -
  define P where "P = (\<lambda>i (et, cur, sub). \<exists>pre. path_edges origin origin cs = pre @ path_edges cur sub (drop i cs)
    \<and> et_out heap [] pre et \<and> length pre \<le> i * 2 ^ 17)"
  let ?body = "\<lambda>i st. do { cmd \<leftarrow> aget (path_cmds path) i; fill_cmd heap cmd st }"
  have step: "\<exists>st'. ?body i st = Some st' \<and> P (Suc i) st'" if i: "i < length cs" and st: "P i st" for i st
  proof -
    obtain et cur sub where e: "st = (et, cur, sub)" by (cases st) auto
    obtain pre where pre: "path_edges origin origin cs = pre @ path_edges cur sub (drop i cs)"
      "et_out heap [] pre et" "length pre \<le> i * 2 ^ 17" using st by (auto simp: P_def e)
    have rep: "cmd_rep (path_cmds path ! i) (cs ! i)" and get: "aget (path_cmds path) i = Some (path_cmds path ! i)"
      using path i by (auto simp: path_rep_def)
    have "i * 2 ^ 17 + 2 ^ 17 \<le> (2::nat) ^ 39 * 2 ^ 17" using i n by (simp flip: mult_Suc)
    then have room: "length pre + 2 ^ 17 \<le> 2 ^ 57" using pre(3) by simp
    have each: "\<exists>et'. fill_cmd heap (path_cmds path ! i) (et, cur, sub) = Some (et', next_pen cur sub (cs ! i))
        \<and> et_out heap ([] @ ys) (cmd_edges cur sub (cs ! i)) et'"
      if "et_rep et ([] @ ys)" "subseq ys pre" for ys
      using fill_cmd_out [OF rep that(1), of heap cur sub] list_emb_length [OF that(2)] room by simp
    obtain ys where "et_rep et ([] @ ys)" "subseq ys pre" using pre(2) by (auto simp: et_out_def)
    from each [OF this] obtain et' where
      et': "fill_cmd heap (path_cmds path ! i) (et, cur, sub) = Some (et', next_pen cur sub (cs ! i))" by blast
    have "et_out heap [] (pre @ cmd_edges cur sub (cs ! i)) et'"
      using each et' by (intro et_out_trans [OF pre(2)]) fastforce
    moreover have "length (pre @ cmd_edges cur sub (cs ! i)) \<le> Suc i * 2 ^ 17"
      using pre(3) length_cmd_edges [of cur sub "cs ! i"] by simp
    moreover have "path_edges origin origin cs = (pre @ cmd_edges cur sub (cs ! i))
        @ path_edges (fst (next_pen cur sub (cs ! i))) (snd (next_pen cur sub (cs ! i))) (drop (Suc i) cs)"
      using pre(1) i by (simp add: Cons_nth_drop_Suc [symmetric] path_edges_Cons)
    ultimately have "P (Suc i) (et', next_pen cur sub (cs ! i))"
      unfolding P_def by (cases "next_pen cur sub (cs ! i)") (auto intro!: exI [of _ "pre @ cmd_edges cur sub (cs ! i)"])
    with et' e get show ?thesis by simp
  qed
  have "P 0 (et_new heap, origin, origin)"
    by (auto simp: P_def et_new_rep et_out_refl intro!: exI [of _ "[]"])
  then have "\<exists>st'. for_upto 0 (length cs) ?body (et_new heap, origin, origin) = Some st' \<and> P (length cs) st'"
    using step by (intro for_upto_inv) auto
  then show ?thesis using path by (auto simp: fill_edges_def P_def path_rep_def)
qed

end
