(* ===== verification/Raster_Correct.thy ===== *)
theory Raster_Correct
  imports Raster_Fill
begin

text \<open>
  Correctness of the fill of src/user/facet/raster/facet_raster.c: memory safety and
  termination for paths with bounded coordinates under every behaviour of the allocator, and
  the winding-rule specification of the painted pixels when no allocation fails.
\<close>

subsection \<open>Reading the edge table and the bounding box\<close>

lemma edge_at_rep: "et_rep et es \<Longrightarrow> j < length es \<Longrightarrow> edge_at et j = Some (es ! j)"
  using holds_get [of "et_edges et" es j] by (simp add: edge_at_def et_rep_def)

lemma bbox_ok:
  assumes et: "et_rep et es" and ne: "es \<noteq> []" and wf: "\<forall>e \<in> set es. edge_wf e"
  shows "\<exists>mn mx. bbox et = Some (mn, mx) \<and> fbd mn \<and> fbd mx
    \<and> (\<forall>e \<in> set es. fz mn \<le> fz (e_y0 e) \<and> fz (e_y1 e) \<le> fz mx)"
proof -
  define P where "P = (\<lambda>i (mn, mx). fbd mn \<and> fbd mx
    \<and> (\<forall>j < i. fz mn \<le> fz (e_y0 (es ! j)) \<and> fz (e_y1 (es ! j)) \<le> fz mx))"
  have e0: "edge_wf (es ! 0)" using ne wf by simp
  then have "P 1 (e_y0 (es ! 0), e_y1 (es ! 0))" by (simp add: P_def edge_wf_def)
  moreover have "1 \<le> length es" using ne by (simp add: Suc_leI)
  ultimately have "\<exists>s'. for_upto 1 (length es) (bbox_step et) (e_y0 (es ! 0), e_y1 (es ! 0)) = Some s'
      \<and> P (length es) s'"
  proof (rule for_upto_inv)
    fix i s assume i: "i < length es" and P: "P i s"
    obtain mn mx where s: "s = (mn, mx)" by (cases s)
    have "edge_wf (es ! i)" using wf i by simp
    then show "\<exists>s'. bbox_step et i s = Some s' \<and> P (Suc i) s'"
      using P edge_at_rep [OF et i]
      by (auto simp: s bbox_step_def P_def edge_wf_def fbd_def less_Suc_eq)
  qed
  moreover have "edge_at et 0 = Some (es ! 0)" using edge_at_rep [OF et, of 0] ne by simp
  moreover have "et_count et = length es" using et by (simp add: et_rep_def)
  ultimately obtain mn mx where "bbox et = Some (mn, mx)" and P: "P (length es) (mn, mx)"
    by (auto simp: bbox_def)
  moreover have "\<forall>e \<in> set es. fz mn \<le> fz (e_y0 e) \<and> fz (e_y1 e) \<le> fz mx"
    using P by (auto simp: P_def in_set_conv_nth)
  ultimately show ?thesis using P by (auto simp: P_def)
qed

lemma div_unit1_bounds:
  assumes "\<bar>z\<bar> \<le> n * unit1"
  shows "- n \<le> z div unit1" and "z div unit1 \<le> n"
proof -
  have "- n * unit1 \<le> z" and "z \<le> n * unit1" using assms by (simp_all add: abs_le_iff)
  then have "- n * unit1 div unit1 \<le> z div unit1" and "z div unit1 \<le> n * unit1 div unit1"
    using zdiv_mono1 [of "- n * unit1" z unit1] zdiv_mono1 [of z "n * unit1" unit1] by simp_all
  then show "- n \<le> z div unit1" and "z div unit1 \<le> n" by simp_all
qed

lemma floor_to_i32:
  assumes "fok x" and "\<bar>fz x\<bar> \<le> 2 ^ 30 * unit1"
  shows "f_to_i32 (floorf x) = Some (fz x div unit1)"
  using floorf_fok [OF assms(1)] div_unit1_bounds [OF assms(2)] by (intro f_to_i32_int) auto

lemma ceil_to_i32:
  assumes "fok x" and "\<bar>fz x\<bar> \<le> 2 ^ 30 * unit1"
  shows "f_to_i32 (ceilf x) = Some (- ((- fz x) div unit1))"
  using ceilf_fok [OF assms(1)] div_unit1_bounds [of "- fz x" "2 ^ 30"] assms(2)
  by (intro f_to_i32_int) auto

lemma fbd_wide: "fbd x \<Longrightarrow> fok x \<and> \<bar>fz x\<bar> \<le> 2 ^ 30 * unit1"
  by (auto simp: fbd_def cbound_def)

subsection \<open>Where an edge crosses a scanline\<close>

lemma edge_x_bounded:
  assumes e: "edge_wf e" and sy: "fok sy" and lo: "fz (e_y0 e) \<le> fz sy" and hi: "fz sy < fz (e_y1 e)"
  shows "fok (edge_x sy e) \<and> \<bar>fz (edge_x sy e)\<bar> \<le> 2 ^ 30 * unit1"
proof -
  have bd: "fbd (e_x0 e)" "fbd (e_y0 e)" "fbd (e_x1 e)" "fbd (e_y1 e)" using e by (auto simp: edge_wf_def)
  have "fbd sy" using sy lo hi bd(2,4) by (auto simp: fbd_def abs_le_iff)
  note a = fbd_sub(1) [OF \<open>fbd sy\<close> bd(2)] and b = fbd_sub(1) [OF bd(4,2)] and w = fbd_sub [OF bd(3,1)]
  have fin: "is_fin (fsub sy (e_y0 e))" "is_fin (fsub (e_y1 e) (e_y0 e))" "is_fin (fsub (e_x1 e) (e_x0 e))"
    using a b w(1) by (auto dest: fround_fok)
  have "0 \<le> fz (fsub sy (e_y0 e))" using lo by (intro fround_ge [OF a]) auto
  moreover have "fz (fsub sy (e_y0 e)) \<le> fz (fsub (e_y1 e) (e_y0 e))"
    using lo hi bd \<open>fbd sy\<close> fin by (intro fsub_mono_nonneg) (auto simp: fbd_def)
  moreover have "0 < fz (fsub (e_y1 e) (e_y0 e))"
  proof -
    have "irepr 1" using irepr_mult_pow [of 1 0] by simp
    then have "1 \<le> fz (fsub (e_y1 e) (e_y0 e))" using lo hi by (intro fround_ge [OF b]) auto
    then show ?thesis by simp
  qed
  ultimately have t: "fok (fdiv (fsub sy (e_y0 e)) (fsub (e_y1 e) (e_y0 e)))"
    "0 \<le> fz (fdiv (fsub sy (e_y0 e)) (fsub (e_y1 e) (e_y0 e)))"
    "fz (fdiv (fsub sy (e_y0 e)) (fsub (e_y1 e) (e_y0 e))) \<le> unit1"
    using fdiv_unit [OF fin(1,2)] by auto
  let ?t = "fdiv (fsub sy (e_y0 e)) (fsub (e_y1 e) (e_y0 e))"
  let ?w = "fsub (e_x1 e) (e_x0 e)"
  have p: "\<bar>fz ?t * fz ?w\<bar> \<le> 2 * cbound * 2 ^ 149"
  proof -
    have "\<bar>fz ?t\<bar> * \<bar>fz ?w\<bar> \<le> unit1 * (2 * cbound)" using t w(2) by (intro mult_mono) auto
    then show ?thesis by (simp only: abs_mult unit1_def mult.commute)
  qed
  have m: "fround (fz ?t * fz ?w) 149 (fmul ?t ?w)"
    using t(1) fin(3) p cbound_irepr(2) by (intro fmul_fround) auto
  have mb: "\<bar>fz (fmul ?t ?w)\<bar> \<le> 2 * cbound" by (rule fround_abs [OF m p cbound_irepr(2)])
  have sb: "\<bar>fz (e_x0 e) + fz (fmul ?t ?w)\<bar> \<le> 4 * cbound"
    using mb bd(1) cbound_pos unfolding fbd_def by linarith
  then have s: "fround (fz (e_x0 e) + fz (fmul ?t ?w)) 0 (fadd (e_x0 e) (fmul ?t ?w))"
    using bd(1) m cbound_irepr(3) by (intro fadd_fround) (auto simp: fbd_def dest: fround_fok)
  then show ?thesis
    using fround_abs [OF s _ cbound_irepr(3)] sb by (simp add: edge_x_def Let_def cbound_def)
qed

subsection \<open>The coverage row\<close>

definition cover :: "nat \<Rightarrow> f32 \<Rightarrow> f32 list \<Rightarrow> Edge \<Rightarrow> f32 list" where
  "cover width sy cov e =
     (if edge_hit sy e \<and> max 0 (fz (edge_x sy e) div unit1) < int width
      then cov[nat (max 0 (fz (edge_x sy e) div unit1)) :=
                 fadd (cov ! nat (max 0 (fz (edge_x sy e) div unit1))) (e_dir e)]
      else cov)"

lemma length_cover [simp]: "length (cover width sy cov e) = length cov"
  by (simp add: cover_def)

lemma length_foldl_cover [simp]: "length (foldl (cover width sy) cov es) = length cov"
  by (induction es arbitrary: cov) auto

lemma edge_hit_fz:
  "edge_wf e \<Longrightarrow> fok sy \<Longrightarrow> edge_hit sy e \<longleftrightarrow> fz (e_y0 e) \<le> fz sy \<and> fz sy < fz (e_y1 e)"
  by (simp add: edge_hit_def edge_wf_def fbd_def)

lemma cover_edge_ok:
  assumes "edge_wf e" and "fok sy" and "length cov = unat width" and "unat width < 2 ^ 31"
  shows "cover_edge width sy e cov = Some (cover (unat width) sy cov e)"
proof (cases "edge_hit sy e")
  case True
  then have "f_to_i32 (floorf (edge_x sy e)) = Some (fz (edge_x sy e) div unit1)"
    using edge_x_bounded [of e sy] edge_hit_fz [OF assms(1,2)] assms floor_to_i32 by blast
  then show ?thesis
    using True assms(3) sint_dim [OF assms(4)]
    by (auto simp: cover_edge_def cover_def max_def Let_def)
next
  case False
  then show ?thesis by (simp add: cover_edge_def cover_def)
qed

lemma accumulate_ok:
  assumes et: "et_rep et es" and wf: "\<forall>e \<in> set es. edge_wf e" and sy: "fok sy" and w: "unat width < 2 ^ 31"
  shows "accumulate width sy et = Some (foldl (cover (unat width) sy) (replicate (unat width) f_zero) es)"
proof -
  let ?P = "\<lambda>i cov. cov = foldl (cover (unat width) sy) (replicate (unat width) f_zero) (take i es)"
  have "\<exists>s'. for_upto 0 (length es)
      (\<lambda>ei coverage. do { e \<leftarrow> edge_at et ei; cover_edge width sy e coverage })
      (replicate (unat width) f_zero) = Some s' \<and> ?P (length es) s'"
  proof (rule for_upto_inv [where P = ?P])
    fix i s assume i: "i < length es" and P: "?P i s"
    then have "length s = unat width" by simp
    moreover have "edge_wf (es ! i)" using wf i by simp
    ultimately show "\<exists>s'. (edge_at et i \<bind> (\<lambda>e. cover_edge width sy e s)) = Some s' \<and> ?P (Suc i) s'"
      using P edge_at_rep [OF et i] cover_edge_ok [OF _ sy _ w] i by (simp add: take_Suc_conv_app_nth)
  qed auto
  moreover have "et_count et = length es" using et by (simp add: et_rep_def)
  ultimately show ?thesis by (simp add: accumulate_def)
qed


subsection \<open>Emitting a row\<close>

lemma fill_amount_cases: "fill_amount rule w = f_one \<or> fill_amount rule w = f_zero"
  by (cases rule) (auto simp: fill_amount_def Let_def)

lemma fmul_one_u8: "f_to_u8 (fmul f_one (f_of_int (uint (a :: u8)))) = Some a"
proof -
  have b: "0 \<le> uint a" "uint a < 256" using uint_lt2p [of a] by simp_all
  then have i: "fok (f_of_int (uint a))" "fz (f_of_int (uint a)) = uint a * unit1"
    by (auto intro: f_of_int_small)
  have one: "is_fin f_one" "fz f_one = unit1" by (simp_all add: f_one_def unit1_def)
  have ir: "irepr (uint a * unit1)" using b by (intro irepr_small_int) auto
  have fr: "fround (fz f_one * fz (f_of_int (uint a))) 149 (fmul f_one (f_of_int (uint a)))"
  proof (rule fmul_fround [OF one(1) fok_is_fin [OF i(1)] _ ir])
    show "\<bar>fz f_one * fz (f_of_int (uint a))\<bar> \<le> uint a * unit1 * 2 ^ 149"
      using b by (simp only: one i unit1_def [symmetric] abs_mult) (simp add: mult_ac)
  qed
  have "fz f_one * fz (f_of_int (uint a)) = uint a * unit1 * 2 ^ 149"
    by (simp only: one i) (simp add: unit1_def)
  then have r: "fok (fmul f_one (f_of_int (uint a)))" "fz (fmul f_one (f_of_int (uint a))) = uint a * unit1"
    using fround_exact [OF fr _ ir] fround_fok [OF fr] by simp_all
  then have "f_trunc (fmul f_one (f_of_int (uint a))) = uint a" by (intro f_trunc_int)
  then show ?thesis using r(1) b by (simp add: f_to_u8_def)
qed

lemma milli_one: "flt f_milli f_one" "\<not> flt f_milli f_zero" "f_one \<noteq> f_zero"
  by (simp_all add: f_lit_defs)

definition paint :: "u32 \<Rightarrow> FacetCanvas \<Rightarrow> nat \<Rightarrow> nat \<Rightarrow> FacetCanvas" where
  "paint rgba c x y = (if rgba_a rgba = 0 then c
     else set_px c x y (src_over (rgba_r rgba, rgba_g rgba, rgba_b rgba, rgba_a rgba) (get_px c x y)))"

lemma emit_px_ok:
  assumes "canvas_wf c" and "x < cw c" and "y < ch c" and "x < length cov"
  shows "emit_px rgba rule cov (int y) x (w, c) =
    Some (fadd w (cov ! x), if fill_amount rule (fadd w (cov ! x)) = f_one then paint rgba c x y else c)"
  using canvas_blend_in [OF assms(1-3)] fill_amount_cases [of rule "fadd w (cov ! x)"] assms(4)
  by (auto simp: emit_px_def paint_def fmul_one_u8 milli_one)

text \<open>The canvas \<open>c'\<close> is \<open>c\<close> with the colour blended into the pixels of \<open>A\<close>.\<close>

definition painted :: "u32 \<Rightarrow> (nat \<Rightarrow> nat \<Rightarrow> bool) \<Rightarrow> FacetCanvas \<Rightarrow> FacetCanvas \<Rightarrow> bool" where
  "painted rgba A c c' \<longleftrightarrow> canvas_wf c' \<and> cw c' = cw c \<and> ch c' = ch c
     \<and> (\<forall>x < cw c. \<forall>y < ch c. get_px c' x y =
          (if A x y then src_over (rgba_r rgba, rgba_g rgba, rgba_b rgba, rgba_a rgba) (get_px c x y)
           else get_px c x y))"

lemma painted_none: "canvas_wf c \<Longrightarrow> (\<And>x y. x < cw c \<Longrightarrow> y < ch c \<Longrightarrow> \<not> A x y) \<Longrightarrow> painted rgba A c c"
  by (simp add: painted_def)

lemma painted_cong:
  "painted rgba A c c' \<Longrightarrow> (\<And>x y. x < cw c \<Longrightarrow> y < ch c \<Longrightarrow> A x y = B x y) \<Longrightarrow> painted rgba B c c'"
  by (simp add: painted_def)

lemma painted_paint:
  assumes p: "painted rgba A c c'" and x: "x < cw c" and y: "y < ch c" and new: "\<not> A x y"
  shows "painted rgba (\<lambda>x' y'. A x' y' \<or> x' = x \<and> y' = y) c (paint rgba c' x y)"
proof (cases "rgba_a rgba = 0")
  case True
  then show ?thesis using p by (auto simp: painted_def paint_def)
next
  case False
  have "canvas_wf c'" "x < cw c'" "y < ch c'" using p x y by (auto simp: painted_def)
  from get_set_px [OF this] p new False show ?thesis
    by (auto simp: painted_def paint_def)
qed

definition amount_at :: "FacetWindingRule \<Rightarrow> f32 list \<Rightarrow> nat \<Rightarrow> f32" where
  "amount_at rule cov x = fill_amount rule (foldl fadd f_zero (take (Suc x) cov))"

lemma scan_row_ok:
  assumes p: "painted rgba A c c'" and y: "y < ch c" and new: "\<And>x. \<not> A x y"
    and et: "et_rep et es" and wf: "\<forall>e \<in> set es. edge_wf e" and w: "cw c < 2 ^ 31"
    and sy: "sy = fadd (f_of_int (int y)) f_half" and sy_ok: "fok sy"
    and cov: "cov = foldl (cover (cw c) sy) (replicate (cw c) f_zero) es"
  shows "\<exists>c''. scan_row et rgba rule y c' = Some c''
    \<and> painted rgba (\<lambda>x' y'. A x' y' \<or> y' = y \<and> amount_at rule cov x' = f_one) c c''"
proof -
  have w': "cw c' = cw c" "ch c' = ch c" "canvas_wf c'" using p by (auto simp: painted_def)
  have acc: "accumulate (cv_width c') sy et = Some cov"
    using accumulate_ok [OF et wf sy_ok, of "cv_width c'"] w w' cov by simp
  define P where "P = (\<lambda>i (wd, d). wd = foldl fadd f_zero (take i cov)
    \<and> painted rgba (\<lambda>x' y'. A x' y' \<or> y' = y \<and> x' < i \<and> amount_at rule cov x' = f_one) c d)"
  have len: "length cov = cw c" using cov by simp
  have "P 0 (f_zero, c')" using p by (simp add: P_def)
  then have "\<exists>s'. for_upto 0 (cw c) (emit_px rgba rule cov (int y)) (f_zero, c') = Some s' \<and> P (cw c) s'"
  proof (rule for_upto_inv)
    fix i s assume i: "i < cw c" and Ps: "P i s"
    obtain wd d where s: "s = (wd, d)" by (cases s)
    have wd: "fadd wd (cov ! i) = foldl fadd f_zero (take (Suc i) cov)"
      and pd: "painted rgba (\<lambda>x' y'. A x' y' \<or> y' = y \<and> x' < i \<and> amount_at rule cov x' = f_one) c d"
      using Ps i len by (auto simp: s P_def take_Suc_conv_app_nth)
    then have d: "canvas_wf d" "i < cw d" "y < ch d" "i < length cov"
      using i y len by (auto simp: painted_def)
    have am: "fill_amount rule (fadd wd (cov ! i)) = amount_at rule cov i" by (simp add: amount_at_def wd)
    have "painted rgba (\<lambda>x' y'. A x' y' \<or> y' = y \<and> x' < Suc i \<and> amount_at rule cov x' = f_one) c
        (if amount_at rule cov i = f_one then paint rgba d i y else d)"
      using painted_paint [OF pd i y] pd new
      by (auto intro: painted_cong simp: less_Suc_eq)
    then show "\<exists>s'. emit_px rgba rule cov (int y) i s = Some s' \<and> P (Suc i) s'"
      using emit_px_ok [OF d, of rgba rule wd] by (simp add: s P_def amount_at_def wd)
  qed simp
  then obtain wd d where run: "for_upto 0 (cw c) (emit_px rgba rule cov (int y)) (f_zero, c') = Some (wd, d)"
    and P: "P (cw c) (wd, d)" by auto
  have "nat (sint (cv_width c')) = cw c" using sint_dim [of "cv_width c'"] w w' by simp
  then have "scan_row et rgba rule y c' = Some d"
    using acc run by (simp add: scan_row_def sy)
  moreover have "painted rgba (\<lambda>x' y'. A x' y' \<or> y' = y \<and> amount_at rule cov x' = f_one) c d"
    using P by (auto simp: P_def intro: painted_cong)
  ultimately show ?thesis by blast
qed


subsection \<open>The sweep\<close>

lemma scan_y_fok:
  assumes "y < 2 ^ 31"
  shows "fok (fadd (f_of_int (int y)) f_half)"
proof -
  have b: "\<bar>int y\<bar> \<le> 2 ^ 31" using assms by simp
  have "irepr (2 ^ 31 * unit1)" unfolding pow_unit1 by (rule irepr_pow) simp
  moreover have "\<bar>int y * unit1\<bar> \<le> 2 ^ 31 * unit1 * 2 ^ 0"
    using b by (simp add: abs_mult mult_right_mono)
  ultimately have i: "fok (f_of_int (int y))" "\<bar>fz (f_of_int (int y))\<bar> \<le> 2 ^ 31 * unit1"
    using f_of_int_fround [OF b] fround_abs by (auto dest: fround_fok)
  have h: "is_fin f_half" "\<bar>fz f_half\<bar> \<le> unit1" by (simp_all add: f_half_def unit1_def)
  have "irepr (2 ^ 32 * unit1)" unfolding pow_unit1 by (rule irepr_pow) simp
  moreover have "\<bar>fz (f_of_int (int y)) + fz f_half\<bar> \<le> 2 ^ 32 * unit1"
  proof -
    have "(2::int) ^ 32 * unit1 = 2 * (2 ^ 31 * unit1)" by simp
    moreover have "unit1 \<le> 2 ^ 31 * unit1" by simp
    ultimately show ?thesis using i(2) h(2) by linarith
  qed
  ultimately show ?thesis using fadd_fround [OF fok_is_fin [OF i(1)] h(1)] fround_fok by blast
qed

definition cov_row :: "Edge list \<Rightarrow> nat \<Rightarrow> nat \<Rightarrow> f32 list" where
  "cov_row es width y =
     foldl (cover width (fadd (f_of_int (int y)) f_half)) (replicate width f_zero) es"

lemma sweep_ok:
  assumes c: "canvas_wf c" and et: "et_rep et es" and wf: "\<forall>e \<in> set es. edge_wf e"
    and hi: "hi \<le> ch c"
  shows "\<exists>c'. for_upto lo hi (scan_row et rgba rule) c = Some c'
    \<and> painted rgba (\<lambda>x y. lo \<le> y \<and> y < hi \<and> amount_at rule (cov_row es (cw c) y) x = f_one) c c'"
proof (cases "lo \<le> hi")
  case True
  have dims: "cw c < 2 ^ 31" "ch c < 2 ^ 31" using c by (auto simp: canvas_wf_def)
  let ?P = "\<lambda>i. painted rgba (\<lambda>x y. lo \<le> y \<and> y < i \<and> amount_at rule (cov_row es (cw c) y) x = f_one) c"
  show ?thesis
  proof (rule for_upto_inv [where P = ?P, OF _ True])
    show "?P lo c" using c by (intro painted_none) auto
    fix i s assume i: "lo \<le> i" "i < hi" and P: "?P i s"
    have y: "i < ch c" using i hi by simp
    have "fok (fadd (f_of_int (int i)) f_half)" using y dims by (intro scan_y_fok) simp
    from scan_row_ok [OF P y _ et wf dims(1) refl this refl, of rule]
    obtain c'' where "scan_row et rgba rule i s = Some c''"
      "painted rgba (\<lambda>x' y'. (lo \<le> y' \<and> y' < i \<and> amount_at rule (cov_row es (cw c) y') x' = f_one)
         \<or> y' = i \<and> amount_at rule (cov_row es (cw c) i) x' = f_one) c c''"
      by (auto simp: cov_row_def)
    then show "\<exists>s'. scan_row et rgba rule i s = Some s' \<and> ?P (Suc i) s'"
      using i by (auto elim!: painted_cong simp: less_Suc_eq)
  qed
next
  case False
  then show ?thesis using c by (auto intro!: painted_none)
qed

lemma pt_bd_origin: "pt_bd origin"
  by (simp add: pt_bd_def fbd_def f_zero_def fok_def less_imp_le)

lemma clamp_range:
  fixes a b :: int
  assumes "y < h"
  shows "(nat (if a < 0 then 0 else a) \<le> y \<and> y < nat (if int h < b then int h else b)) = (a \<le> int y \<and> int y < b)"
  using assms by auto

lemma fill_canvas_ok:
  assumes c: "canvas_wf c" and path: "path_rep path cs" and bd: "\<forall>k \<in> set cs. cmd_bd k"
    and n: "length cs \<le> 2 ^ 39"
  shows "\<exists>es ylo yhi c'. subseq es (path_edges origin origin cs)
    \<and> ((\<forall>n. heap n) \<longrightarrow> es = path_edges origin origin cs)
    \<and> fill_canvas heap cov_ok c path rgba rule = Some c'
    \<and> (\<forall>e \<in> set es. edge_wf e \<and> ylo \<le> fz (e_y0 e) div unit1 \<and> - ((- fz (e_y1 e)) div unit1) \<le> yhi)
    \<and> painted rgba (\<lambda>x y. cov_ok \<and> es \<noteq> [] \<and> ylo \<le> int y \<and> int y < yhi
        \<and> amount_at rule (cov_row es (cw c) y) x = f_one) c c'"
proof -
  obtain et cur sub where run: "fill_edges heap path = Some (et, cur, sub)"
    and out: "et_out heap [] (path_edges origin origin cs) et"
    using fill_edges_out [OF path n] by blast
  obtain es where et: "et_rep et es" and sub: "subseq es (path_edges origin origin cs)"
    and all: "(\<forall>n. heap n) \<longrightarrow> es = path_edges origin origin cs"
    using out by (auto simp: et_out_def)
  have wf: "\<forall>e \<in> set es. edge_wf e"
    using list_emb_set [OF sub] path_edges_wf [OF pt_bd_origin pt_bd_origin bd] by metis
  have cnt: "et_count et = length es" using et by (simp add: et_rep_def)
  show ?thesis
  proof (cases "es = []")
    case True
    then have "fill_canvas heap cov_ok c path rgba rule = Some c"
      using run cnt by (simp add: fill_canvas_def)
    moreover have "painted rgba (\<lambda>x y. cov_ok \<and> es \<noteq> [] \<and> 0 \<le> int y \<and> int y < 0
        \<and> amount_at rule (cov_row es (cw c) y) x = f_one) c c"
      using c by (intro painted_none) auto
    ultimately show ?thesis using sub all True by (intro exI [of _ es] exI [of _ 0] exI [of _ c]) auto
  next
    case False
    obtain mn mx where bb: "bbox et = Some (mn, mx)" "fbd mn" "fbd mx"
      "\<forall>e \<in> set es. fz mn \<le> fz (e_y0 e) \<and> fz (e_y1 e) \<le> fz mx"
      using bbox_ok [OF et False wf] by blast
    define ylo yhi where "ylo = fz mn div unit1" and "yhi = - ((- fz mx) div unit1)"
    have conv: "f_to_i32 (floorf mn) = Some ylo" "f_to_i32 (ceilf mx) = Some yhi"
      using fbd_wide [OF bb(2)] fbd_wide [OF bb(3)] floor_to_i32 ceil_to_i32 by (auto simp: ylo_def yhi_def)
    have rows: "\<forall>e \<in> set es. edge_wf e \<and> ylo \<le> fz (e_y0 e) div unit1 \<and> - ((- fz (e_y1 e)) div unit1) \<le> yhi"
      using bb(4) wf by (auto simp: ylo_def yhi_def intro!: zdiv_mono1)
    define hi where "hi = nat (if int (ch c) < yhi then int (ch c) else yhi)"
    define lo where "lo = nat (if ylo < 0 then 0 else ylo)"
    have "nat (if n < y then n else y) \<le> nat n" for n y :: int by auto
    then have "hi \<le> ch c" unfolding hi_def by (metis nat_int)
    obtain c' where c': "for_upto lo hi (scan_row et rgba rule) c = Some c'"
      "painted rgba (\<lambda>x y. lo \<le> y \<and> y < hi \<and> amount_at rule (cov_row es (cw c) y) x = f_one) c c'"
      using sweep_ok [OF c et wf \<open>hi \<le> ch c\<close>] by blast
    have fill: "fill_canvas heap cov_ok c path rgba rule = Some (if cov_ok then c' else c)"
      using run cnt False bb(1) conv c'(1) canvas_dims(2) [OF c]
      by (simp only: fill_canvas_def) (simp add: Let_def hi_def lo_def)
    have range: "(lo \<le> y \<and> y < hi) = (ylo \<le> int y \<and> int y < yhi)" if "y < ch c" for y
      unfolding lo_def hi_def using that by (rule clamp_range)
    have "painted rgba (\<lambda>x y. cov_ok \<and> es \<noteq> [] \<and> ylo \<le> int y \<and> int y < yhi
        \<and> amount_at rule (cov_row es (cw c) y) x = f_one) c (if cov_ok then c' else c)"
      using c'(2) c False range by (auto elim!: painted_cong intro: painted_none)
    with fill rows sub all show ?thesis by blast
  qed
qed

end
