(* ===== verification/Raster_Winding.thy ===== *)
theory Raster_Winding
  imports Raster_Correct
begin

text \<open>
  The winding rule of the fill in exact integers: while a scanline has at most \<open>2 ^ 24\<close>
  edges, every sum of directions is a whole number that binary32 represents, so the float
  accumulation of src/user/facet/raster/facet_raster.c (lines 399 to 447) computes the winding
  number exactly and both winding rules are decided correctly.
\<close>

subsection \<open>Floats that hold whole numbers\<close>

definition ival :: "f32 \<Rightarrow> int \<Rightarrow> bool" where
  "ival x n \<longleftrightarrow> fok x \<and> fz x = n * unit1"

lemma ival_zero: "ival f_zero 0"
  by (simp add: ival_def f_zero_def fok_def)

lemma ival_add:
  assumes "ival x a" and "ival y b" and "\<bar>a + b\<bar> \<le> 2 ^ 24"
  shows "ival (fadd x y) (a + b)"
proof -
  have ir: "irepr ((a + b) * unit1)" using assms(3) by (rule irepr_small_int)
  have sum: "fz x + fz y = (a + b) * unit1" using assms(1,2) by (simp add: ival_def ring_distribs)
  have "irepr \<bar>(a + b) * unit1\<bar>" using ir by (simp add: irepr_def)
  then have r: "fround (fz x + fz y) 0 (fadd x y)"
    using assms(1,2) by (intro fadd_fround [where B = "\<bar>(a + b) * unit1\<bar>"]) (auto simp: ival_def ring_distribs)
  show ?thesis using fround_exact [OF r _ ir] sum r by (simp add: ival_def)
qed

lemma irepr_scaled:
  assumes "\<bar>n\<bar> \<le> 2 ^ 24" and "k \<le> 252"
  shows "irepr (n * 2 ^ k)"
proof (cases "\<bar>n\<bar> = 2 ^ 24")
  case True
  then have "n * 2 ^ k = 2 ^ (24 + k) \<or> n * 2 ^ k = - (2 ^ (24 + k))"
    unfolding power_add by (metis abs_eq_iff' mult_minus_left)
  moreover have "irepr (2 ^ (24 + k))" using assms(2) by (intro irepr_pow) simp
  ultimately show ?thesis by auto
next
  case False
  then show ?thesis using assms by (intro irepr_mult_pow) auto
qed

lemma ival_abs: "ival x n \<Longrightarrow> ival (fabsf x) \<bar>n\<bar>"
  by (simp add: ival_def abs_mult)

lemma ival_floor: "ival x n \<Longrightarrow> ival (floorf x) n"
  using floorf_fok [of x] by (simp add: ival_def)

lemma half_floor:
  assumes "ival x n" and "0 \<le> n" and "n \<le> 2 ^ 24"
  shows "ival (floorf (fmul x f_half)) (n div 2)"
proof -
  have h: "is_fin f_half" "fz f_half = 2 ^ 148" by (simp_all add: f_half_def)
  have ir: "irepr (n * 2 ^ 148)" using assms by (intro irepr_scaled) auto
  have prod: "fz x * fz f_half = n * 2 ^ 148 * 2 ^ 149" using assms(1) by (simp add: ival_def h unit1_def)
  have r: "fround (fz x * fz f_half) 149 (fmul x f_half)"
  proof (rule fmul_fround [OF _ h(1) _ ir])
    show "is_fin x" using assms(1) by (simp add: ival_def)
    show "\<bar>fz x * fz f_half\<bar> \<le> n * 2 ^ 148 * 2 ^ 149" unfolding prod using assms(2) by simp
  qed
  have v: "fz (fmul x f_half) = n * 2 ^ 148" using fround_exact [OF r prod ir] .
  have "n * 2 ^ 148 div unit1 = n div 2"
  proof -
    have "unit1 = 2 * 2 ^ 148" by (simp add: unit1_def)
    then have "n * 2 ^ 148 div unit1 = n * 2 ^ 148 div (2 * 2 ^ 148)" by (simp only:)
    also have "\<dots> = n div 2" by (rule div_mult_mult2) simp
    finally show ?thesis .
  qed
  then show ?thesis using floorf_fok [OF fround_fok [OF r]] v by (simp add: ival_def)
qed

lemma ival_double:
  assumes "ival x n" and "0 \<le> n" and "2 * n \<le> 2 ^ 24"
  shows "ival (fmul x f_two) (2 * n)"
proof -
  have h: "is_fin f_two" "fz f_two = 2 * unit1" by (simp_all add: f_two_def unit1_def)
  have ir: "irepr (2 * n * unit1)" using assms by (intro irepr_small_int) auto
  have prod: "fz x * fz f_two = 2 * n * unit1 * 2 ^ 149"
    using assms(1) by (simp add: ival_def h) (simp add: unit1_def)
  have r: "fround (fz x * fz f_two) 149 (fmul x f_two)"
  proof (rule fmul_fround [OF _ h(1) _ ir])
    show "is_fin x" using assms(1) by (simp add: ival_def)
    show "\<bar>fz x * fz f_two\<bar> \<le> 2 * n * unit1 * 2 ^ 149" unfolding prod using assms(2) by simp
  qed
  show ?thesis using fround_exact [OF r prod ir] fround_fok [OF r] by (simp add: ival_def)
qed

lemma ival_sub: "ival x a \<Longrightarrow> ival y b \<Longrightarrow> \<bar>a - b\<bar> \<le> 2 ^ 24 \<Longrightarrow> ival (fsub x y) (a - b)"
  using ival_add [of x a "fneg y" "- b"] by (simp add: ival_def fsub_def)

lemma half_less_ival: "ival x n \<Longrightarrow> flt f_half x \<longleftrightarrow> 0 < n"
proof -
  assume x: "ival x n"
  have "flt f_half x \<longleftrightarrow> 2 ^ 148 < n * unit1" using x by (simp add: ival_def f_half_def)
  also have "\<dots> \<longleftrightarrow> 0 < n" by (simp add: unit1_def) linarith
  finally show ?thesis .
qed

lemma milli_less_ival: "ival x n \<Longrightarrow> flt f_milli x \<longleftrightarrow> 0 < n"
proof -
  assume x: "ival x n"
  have "flt f_milli x \<longleftrightarrow> fz f_milli < n * unit1" using x by (simp add: ival_def f_milli_def)
  also have "\<dots> \<longleftrightarrow> 0 < n" by (simp add: unit1_def f_milli_def) linarith
  finally show ?thesis .
qed

lemma fill_amount_inside:
  assumes w: "ival w n" and n: "\<bar>n\<bar> \<le> 2 ^ 24"
  shows "fill_amount rule w = f_one \<longleftrightarrow> inside rule n"
proof (cases rule)
  case FACET_WINDING_NONZERO
  then show ?thesis
    using milli_less_ival [OF ival_abs [OF w]] milli_one(3) by (auto simp: fill_amount_def Let_def)
next
  case FACET_WINDING_EVENODD
  define f h where "f = floorf (fabsf w)" and "h = floorf (fmul f f_half)"
  have f: "ival f \<bar>n\<bar>" unfolding f_def by (intro ival_floor ival_abs w)
  have "ival h (\<bar>n\<bar> div 2)" unfolding h_def using f n by (intro half_floor) auto
  then have "ival (fmul h f_two) (2 * (\<bar>n\<bar> div 2))" using n by (intro ival_double) auto
  then have "ival (fsub f (fmul h f_two)) (\<bar>n\<bar> - 2 * (\<bar>n\<bar> div 2))" using f n by (intro ival_sub) auto
  then have odd: "flt f_half (fsub f (fmul h f_two)) \<longleftrightarrow> odd n"
    by (auto simp: half_less_ival minus_mult_div_eq_mod odd_iff_mod_2_eq_one [of "\<bar>n\<bar>", simplified])
  have "ival (fsub (fabsf w) f) (\<bar>n\<bar> - \<bar>n\<bar>)" using f ival_abs [OF w] by (intro ival_sub) auto
  then have "\<not> flt f_half (fsub (fabsf w) f)" by (simp add: half_less_ival)
  with odd show ?thesis
    using FACET_WINDING_EVENODD milli_one(3) by (auto simp: fill_amount_def Let_def f_def h_def)
qed


subsection \<open>Coverage sums are winding numbers\<close>

definition col_sum :: "Edge list \<Rightarrow> nat \<Rightarrow> nat \<Rightarrow> int" where
  "col_sum es y i = sum_list (map dir_of (filter (\<lambda>e. crosses y e \<and> cross_col y e = int i) es))"

lemma abs_dir_of: "\<bar>dir_of e\<bar> = 1"
  by (simp add: dir_of_def)

lemma abs_sum_dirs: "\<bar>sum_list (map dir_of (filter Q es))\<bar> \<le> int (length es)"
proof (induction es)
  case (Cons e es)
  then show ?case using abs_dir_of [of e] by auto
qed simp

lemma abs_sum_dirs_24: "length es \<le> 2 ^ 24 \<Longrightarrow> \<bar>sum_list (map dir_of (filter Q es))\<bar> \<le> 2 ^ 24"
  using abs_sum_dirs [of Q es] by simp

lemma col_sum_snoc:
  "col_sum (es @ [e]) y i = col_sum es y i + (if crosses y e \<and> cross_col y e = int i then dir_of e else 0)"
  by (simp add: col_sum_def)

lemma winding_0: "winding es y 0 = col_sum es y 0"
proof -
  have "cross_col y e \<le> 0 \<longleftrightarrow> cross_col y e = 0" for e by (simp add: cross_col_def max_def)
  then show ?thesis by (simp add: winding_def col_sum_def)
qed

lemma winding_Suc: "winding es y (Suc x) = winding es y x + col_sum es y (Suc x)"
  by (induction es) (auto simp: winding_def col_sum_def)

lemma ival_dir: "edge_wf e \<Longrightarrow> ival (e_dir e) (dir_of e)"
proof -
  assume "edge_wf e"
  moreover have "fneg f_one \<noteq> f_one" by (simp add: f_one_def)
  moreover have "ival f_one 1" by (simp add: ival_def f_one_def fok_def unit1_def)
  moreover have "ival (fneg f_one) (- 1)" by (simp add: ival_def f_one_def fok_def unit1_def)
  ultimately show ?thesis by (auto simp: edge_wf_def dir_of_def)
qed

lemma scan_centre:
  assumes "y < 2 ^ 23"
  shows "fok (fadd (f_of_int (int y)) f_half)"
    and "2 * fz (fadd (f_of_int (int y)) f_half) = (2 * int y + 1) * unit1"
proof -
  have i: "fok (f_of_int (int y))" "fz (f_of_int (int y)) = int y * unit1"
    using assms by (auto intro: f_of_int_small)
  have h: "is_fin f_half" "fz f_half = 2 ^ 148" by (simp_all add: f_half_def)
  have ir: "irepr ((2 * int y + 1) * 2 ^ 148)" using assms by (intro irepr_mult_pow) auto
  have sum: "fz (f_of_int (int y)) + fz f_half = (2 * int y + 1) * 2 ^ 148"
    by (simp add: i h unit1_def ring_distribs)
  have r: "fround (fz (f_of_int (int y)) + fz f_half) 0 (fadd (f_of_int (int y)) f_half)"
  proof (rule fadd_fround [OF _ h(1) _ ir])
    show "is_fin (f_of_int (int y))" using i(1) by simp
    show "\<bar>fz (f_of_int (int y)) + fz f_half\<bar> \<le> (2 * int y + 1) * 2 ^ 148" unfolding sum by simp
  qed
  show "fok (fadd (f_of_int (int y)) f_half)" using r by (rule fround_fok)
  show "2 * fz (fadd (f_of_int (int y)) f_half) = (2 * int y + 1) * unit1"
    using fround_exact [OF r _ ir] sum by (simp add: unit1_def)
qed

lemma edge_hit_crosses:
  assumes "edge_wf e" and "y < 2 ^ 23"
  shows "edge_hit (fadd (f_of_int (int y)) f_half) e \<longleftrightarrow> crosses y e"
  using edge_hit_fz [OF assms(1) scan_centre(1) [OF assms(2)]] scan_centre(2) [OF assms(2)]
  unfolding crosses_def by linarith

lemma cov_row_snoc:
  "cov_row (es @ [e]) w y = cover w (fadd (f_of_int (int y)) f_half) (cov_row es w y) e"
  by (simp add: cov_row_def)

lemma length_cov_row [simp]: "length (cov_row es w y) = w"
  by (simp add: cov_row_def)

lemma cov_row_ival:
  assumes "y < 2 ^ 23"
  shows "\<forall>e \<in> set es. edge_wf e \<Longrightarrow> length es \<le> 2 ^ 24 \<Longrightarrow> i < w \<Longrightarrow> ival (cov_row es w y ! i) (col_sum es y i)"
proof (induction es rule: rev_induct)
  case Nil
  then show ?case by (simp add: cov_row_def col_sum_def ival_zero)
next
  case (snoc e es)
  let ?sy = "fadd (f_of_int (int y)) f_half"
  have e: "edge_wf e" and IH: "ival (cov_row es w y ! i) (col_sum es y i)" using snoc by auto
  have hit: "edge_hit ?sy e \<longleftrightarrow> crosses y e" using e assms by (rule edge_hit_crosses)
  have bound: "\<bar>col_sum (es @ [e]) y i\<bar> \<le> 2 ^ 24"
    unfolding col_sum_def using snoc.prems(2) by (rule abs_sum_dirs_24)
  show ?case
  proof (cases "crosses y e \<and> cross_col y e = int i")
    case True
    then have "cov_row (es @ [e]) w y ! i = fadd (cov_row es w y ! i) (e_dir e)"
      using hit snoc.prems(3) by (simp add: cov_row_snoc cover_def cross_col_def)
    moreover have "ival (fadd (cov_row es w y ! i) (e_dir e)) (col_sum es y i + dir_of e)"
      using IH ival_dir [OF e] bound True by (intro ival_add) (simp_all add: col_sum_snoc)
    ultimately show ?thesis using True by (simp add: col_sum_snoc)
  next
    case False
    then have "cov_row (es @ [e]) w y ! i = cov_row es w y ! i"
      using hit by (auto simp: cov_row_snoc cover_def cross_col_def nth_list_update)
    then show ?thesis using False IH by (auto simp: col_sum_snoc)
  qed
qed

lemma prefix_ival:
  assumes y: "y < 2 ^ 23" and wf: "\<forall>e \<in> set es. edge_wf e" and n: "length es \<le> 2 ^ 24"
  shows "x < w \<Longrightarrow> ival (foldl fadd f_zero (take (Suc x) (cov_row es w y))) (winding es y x)"
proof (induction x)
  case 0
  have "ival (cov_row es w y ! 0) (col_sum es y 0)" using cov_row_ival [OF y wf n 0] .
  moreover have "\<bar>0 + col_sum es y 0\<bar> \<le> 2 ^ 24"
    unfolding col_sum_def add_0 using n by (rule abs_sum_dirs_24)
  ultimately have "ival (fadd f_zero (cov_row es w y ! 0)) (0 + col_sum es y 0)"
    using ival_zero by (intro ival_add)
  moreover have "take (Suc 0) (cov_row es w y) = [cov_row es w y ! 0]"
    using 0 by (simp add: take_Suc_conv_app_nth)
  ultimately show ?case by (simp add: winding_0)
next
  case (Suc x)
  have IH: "ival (foldl fadd f_zero (take (Suc x) (cov_row es w y))) (winding es y x)" using Suc by simp
  have "\<bar>winding es y (Suc x)\<bar> \<le> 2 ^ 24"
    unfolding winding_def using n by (rule abs_sum_dirs_24)
  then have "ival (fadd (foldl fadd f_zero (take (Suc x) (cov_row es w y))) (cov_row es w y ! Suc x))
      (winding es y x + col_sum es y (Suc x))"
    using IH cov_row_ival [OF y wf n Suc.prems] by (intro ival_add) (auto simp: winding_Suc)
  moreover have "take (Suc (Suc x)) (cov_row es w y) = take (Suc x) (cov_row es w y) @ [cov_row es w y ! Suc x]"
    using Suc.prems by (simp add: take_Suc_conv_app_nth)
  ultimately show ?case by (simp add: winding_Suc)
qed

lemma amount_inside:
  assumes "y < 2 ^ 23" and "\<forall>e \<in> set es. edge_wf e" and "length es \<le> 2 ^ 24" and "x < w"
  shows "amount_at rule (cov_row es w y) x = f_one \<longleftrightarrow> inside rule (winding es y x)"
proof -
  have "\<bar>winding es y x\<bar> \<le> 2 ^ 24"
    unfolding winding_def using assms(3) by (rule abs_sum_dirs_24)
  then show ?thesis
    unfolding amount_at_def by (rule fill_amount_inside [OF prefix_ival [OF assms]])
qed


subsection \<open>The fill\<close>

lemma inside_0: "\<not> inside rule 0"
  by (cases rule) auto

lemma crosses_rows:
  assumes "crosses y e"
  shows "fz (e_y0 e) div unit1 \<le> int y" and "int y < - ((- fz (e_y1 e)) div unit1)"
proof -
  have "2 * fz (e_y0 e) \<le> (2 * int y + 1) * unit1" "(2 * int y + 1) * unit1 < 2 * fz (e_y1 e)"
    using assms by (auto simp: crosses_def)
  moreover have "(2 * int y + 1) * unit1 = 2 * (int y * unit1) + unit1" by (simp add: ring_distribs)
  ultimately have "fz (e_y0 e) < int y * unit1 + unit1" and "int y * unit1 < fz (e_y1 e)"
    using unit1_pos(1) by linarith+
  then have a: "fz (e_y0 e) < (int y + 1) * unit1" and b: "- fz (e_y1 e) < (- int y) * unit1"
    by (simp_all add: ring_distribs)
  have less: "z div unit1 < k" if "z < k * unit1" for z k
  proof -
    have "z div unit1 * unit1 \<le> z" using div_mult_mod_eq [of z unit1] pos_mod_sign [OF unit1_pos(1), of z] by linarith
    also have "z < k * unit1" by (rule that)
    finally have "z div unit1 * unit1 < k * unit1" .
    then show ?thesis by (rule mult_right_less_imp_less) simp
  qed
  show "fz (e_y0 e) div unit1 \<le> int y" using less [OF a] by simp
  show "int y < - ((- fz (e_y1 e)) div unit1)" using less [OF b] by simp
qed

lemma winding_nonzero_crosses: "winding es y x \<noteq> 0 \<Longrightarrow> \<exists>e \<in> set es. crosses y e"
proof (rule ccontr)
  assume w: "winding es y x \<noteq> 0" and "\<not> (\<exists>e \<in> set es. crosses y e)"
  then have "filter (\<lambda>e. crosses y e \<and> cross_col y e \<le> int x) es = []" by (auto simp: filter_empty_conv)
  with w show False by (simp add: winding_def)
qed

text \<open>C16: Filling any path of at most 2^39 commands whose coordinates are finite and at most
  2^28 in magnitude onto a well-formed canvas returns, with every access in bounds and every
  conversion in range, whatever allocations fail; the canvas keeps its size.\<close>

theorem facet_canvas_fill_safe:
  assumes "canvas_wf c" and "path_rep path cs" and "\<forall>k \<in> set cs. cmd_bd k" and "length cs \<le> 2 ^ 39"
  shows "\<exists>c'. facet_canvas_fill heap cov_ok (Some c) (Some path) rgba rule = Some (Some c')
    \<and> canvas_wf c' \<and> cw c' = cw c \<and> ch c' = ch c"
  using fill_canvas_ok [OF assms, of heap cov_ok rgba rule] assms(1)
  by (auto simp: facet_canvas_fill_def painted_def)

theorem facet_canvas_fill_safe_witness:
  "\<exists>c'. facet_canvas_fill (\<lambda>n. n = 0) True
      (Some \<lparr>cv_pixels = replicate 16 0, cv_width = 2, cv_height = 2, cv_stride = 8\<rparr>)
      (Some \<lparr>path_cmds = replicate 64 (\<lparr>cmd_type = Some FACET_CMD_LINE_TO,
          cmd_points = [Some (Pt f_zero f_one), None, None]\<rparr>), path_count = 1, path_capacity = 64\<rparr>)
      0xFF0000FF FACET_WINDING_EVENODD = Some (Some c') \<and> canvas_wf c' \<and> cw c' = 2 \<and> ch c' = 2"
  using facet_canvas_fill_safe
    [of "\<lparr>cv_pixels = replicate 16 0, cv_width = 2, cv_height = 2, cv_stride = 8\<rparr>"
      "\<lparr>path_cmds = replicate 64 (\<lparr>cmd_type = Some FACET_CMD_LINE_TO,
          cmd_points = [Some (Pt f_zero f_one), None, None]\<rparr>), path_count = 1, path_capacity = 64\<rparr>"
      "[LineTo (Pt f_zero f_one)]" "\<lambda>n. n = 0" True "0xFF0000FF" FACET_WINDING_EVENODD]
  by (simp add: canvas_wf_def path_rep_def pt_bd_def fbd_def f_zero_def f_one_def fok_def cbound_def unit1_def)




subsection \<open>Coordinates out of range\<close>

definition f_huge :: f32 where "f_huge = FFin False (2 ^ 23) 166"   \<comment> \<open>2 to the 40\<close>

lemma huge_edge:
  "line_edge origin (Pt x f_huge) =
     [\<lparr>e_x0 = f_zero, e_y0 = f_zero, e_x1 = x, e_y1 = f_huge, e_dir = f_one\<rparr>]"
proof -
  have h: "is_fin f_huge" "fz f_huge = 2 ^ 189" "is_fin f_zero" "fz f_zero = 0"
    by (simp_all add: f_huge_def f_zero_def)
  have ir: "irepr (2 ^ 189)" by (rule irepr_pow) simp
  have r: "fround (fz f_huge - fz f_zero) 0 (fsub f_huge f_zero)"
    by (rule fsub_fround [OF h(1,3) _ ir]) (simp add: h)
  have "fz (fsub f_huge f_zero) = 2 ^ 189" by (rule fround_exact [OF r _ ir]) (simp add: h)
  moreover have "is_fin (fabsf (fsub f_huge f_zero))" using r by (auto dest: fround_fok)
  ultimately have "\<not> flt (fabsf (fsub f_huge f_zero)) f_milli" by (simp add: f_milli_def)
  then show ?thesis using h by (simp add: line_edge_def)
qed

text \<open>C39: Coordinates are converted to int unchecked: drawing a line to a point whose y
  coordinate is 2^40 makes the fill undefined on every canvas.\<close>

theorem facet_canvas_fill_out_of_range:
  assumes "path_rep path [LineTo (Pt x f_huge)]"
  shows "facet_canvas_fill (\<lambda>_. True) True (Some c) (Some path) rgba rule = None"
proof -
  obtain et cur sub where run: "fill_edges (\<lambda>_. True) path = Some (et, cur, sub)"
    and "et_out (\<lambda>_. True) [] (path_edges origin origin [LineTo (Pt x f_huge)]) et"
    using fill_edges_out [OF assms, of "\<lambda>_. True"] by auto
  then have et: "et_rep et [\<lparr>e_x0 = f_zero, e_y0 = f_zero, e_x1 = x, e_y1 = f_huge, e_dir = f_one\<rparr>]"
    by (auto simp: et_out_def huge_edge)
  have cnt: "et_count et = 1" using et by (simp add: et_rep_def)
  have "bbox et = Some (f_zero, f_huge)"
    using edge_at_rep [OF et, of 0] cnt by (simp add: bbox_def)
  moreover have "f_to_i32 (floorf f_zero) = Some 0"
    using floor_to_i32 [of f_zero] ival_zero by (simp add: ival_def f_zero_def)
  moreover have "f_to_i32 (ceilf f_huge) = None"
  proof -
    have ok: "fok f_huge" by (simp add: fok_def f_huge_def)
    have "fz f_huge = 2 ^ 40 * unit1" by (simp add: f_huge_def unit1_def)
    then have "fz (ceilf f_huge) = 2 ^ 40 * unit1" using ceilf_fok(2) [OF ok] by simp
    then have "f_trunc (ceilf f_huge) = 2 ^ 40" by (rule f_trunc_int)
    then show ?thesis by (simp add: f_to_i32_def i32_def)
  qed
  moreover have "path_count path = 1" using assms by (simp add: path_rep_def)
  ultimately show ?thesis using run cnt by (simp add: facet_canvas_fill_def fill_canvas_def)
qed

theorem facet_canvas_fill_out_of_range_witness:
  "facet_canvas_fill (\<lambda>_. True) True
     (Some \<lparr>cv_pixels = replicate 4 0, cv_width = 1, cv_height = 1, cv_stride = 4\<rparr>)
     (Some \<lparr>path_cmds = replicate 64 (\<lparr>cmd_type = Some FACET_CMD_LINE_TO,
          cmd_points = [Some (Pt f_one f_huge), None, None]\<rparr>), path_count = 1, path_capacity = 64\<rparr>)
     0xFF FACET_WINDING_NONZERO = None"
  by (rule facet_canvas_fill_out_of_range) (simp add: path_rep_def)

end
