(* ===== verification/Keuos_Rt.thy ===== *)
theory Keuos_Rt
  imports Prelude
begin

text \<open>
  The runtime substrate src/keuos_rt/keuos_rt.c: the bump allocator behind compiled programs,
  the deadline register, the kqueue wrappers and the entry point.

  Addresses are 64-bit words (0 is the null pointer). The system calls are parameters: the
  result of \<^verbatim>\<open>mmap\<close>, the functions \<^verbatim>\<open>kqueue\<close> and \<^verbatim>\<open>kevent\<close>, and the compiler-generated
  launcher. The calls made for effect (mlock, close, exit) are recorded in a trace.
\<close>

subsection \<open>State and operations\<close>

datatype syscall = SysMlock u64 u64 | SysClose int | SysExit int

record runtime =
  arena_base :: u64
  arena_ptr :: u64
  kq_fd :: int
  x19 :: u64
  sys_trace :: "syscall list"

definition rt_boot :: runtime where
  "rt_boot = \<lparr>arena_base = 0, arena_ptr = 0, kq_fd = - 1, x19 = 0, sys_trace = []\<rparr>"

definition ARENA_SIZE :: u64 where "ARENA_SIZE = 16 * 1024 * 1024 * 1024"
definition ARENA_ALIGN :: u64 where "ARENA_ALIGN = 64"

definition arena_step :: "u64 \<Rightarrow> u64" where
  "arena_step sz = (sz + (ARENA_ALIGN - 1)) AND NOT (ARENA_ALIGN - 1)"

definition isolated_arena_alloc :: "u64 \<Rightarrow> u64 \<Rightarrow> runtime \<Rightarrow> u64 \<times> runtime" where
  "isolated_arena_alloc mmap_result sz rt =
     (let rt = (if arena_base rt = 0
                then rt\<lparr>arena_base := mmap_result,
                        sys_trace := sys_trace rt @ [SysMlock mmap_result (2 * 1024 * 1024)],
                        arena_ptr := mmap_result\<rparr>
                else rt)
      in (arena_ptr rt, rt\<lparr>arena_ptr := arena_ptr rt + arena_step sz\<rparr>))"

definition isolated_arena_reset :: "runtime \<Rightarrow> runtime" where
  "isolated_arena_reset rt = rt\<lparr>arena_ptr := arena_base rt\<rparr>"

definition salt_init_x19 :: "runtime \<Rightarrow> runtime" where
  "salt_init_x19 rt = rt\<lparr>x19 := - 1\<rparr>"

record kevent_rec =
  ke_ident :: u64
  ke_filter :: int
  ke_flags :: nat
  ke_fflags :: nat
  ke_data :: int
  ke_udata :: u64

definition EVFILT_READ :: int where "EVFILT_READ = - 1"
definition EV_ADD :: nat where "EV_ADD = 1"
definition EV_ENABLE :: nat where "EV_ENABLE = 4"

definition salt_kqueue_init :: "int \<Rightarrow> runtime \<Rightarrow> int \<times> runtime" where
  "salt_kqueue_init kqueue_result rt = (kqueue_result, rt\<lparr>kq_fd := kqueue_result\<rparr>)"

text \<open>\<open>kevent fd changes max_events\<close> yields the result of the call and the events stored.\<close>

type_synonym kevent_fn = "int \<Rightarrow> kevent_rec list \<Rightarrow> int \<Rightarrow> int \<times> kevent_rec list"

definition salt_kqueue_submit :: "kevent_fn \<Rightarrow> runtime \<Rightarrow> int \<Rightarrow> u64 \<Rightarrow> int" where
  "salt_kqueue_submit kevent rt sock_fd conn_ptr =
     (let ev = \<lparr>ke_ident = word_of_int sock_fd, ke_filter = EVFILT_READ,
                ke_flags = EV_ADD + EV_ENABLE, ke_fflags = 0, ke_data = 0, ke_udata = conn_ptr\<rparr>
      in fst (kevent (kq_fd rt) [ev] 0))"

definition salt_kqueue_reap :: "kevent_fn \<Rightarrow> runtime \<Rightarrow> int \<Rightarrow> int \<times> kevent_rec list" where
  "salt_kqueue_reap kevent rt max_events = kevent (kq_fd rt) [] max_events"

definition salt_kqueue_teardown :: "runtime \<Rightarrow> runtime" where
  "salt_kqueue_teardown rt =
     rt\<lparr>sys_trace := sys_trace rt @ [SysClose (kq_fd rt)], kq_fd := - 1\<rparr>"

definition rt_start :: "(runtime \<Rightarrow> runtime) \<Rightarrow> runtime \<Rightarrow> runtime" where
  "rt_start launcher rt =
     (let rt = salt_init_x19 rt; rt = launcher rt
      in rt\<lparr>sys_trace := sys_trace rt @ [SysExit 0]\<rparr>)"

subsection \<open>Rounding sizes up\<close>

definition round64 :: "nat \<Rightarrow> nat" where
  "round64 n = (n + 63) div 64 * 64"

lemma round64_ge: "n \<le> round64 n"
  unfolding round64_def by linarith

lemma round64_dvd: "64 dvd round64 n"
  by (simp add: round64_def)

lemma arena_step_bits: "arena_step sz = push_bit 6 (drop_bit 6 (sz + 63))"
proof -
  have "x AND NOT (mask 6) = push_bit 6 (drop_bit 6 x)" for x :: u64
    by (rule bit_eqI) (auto simp: bit_simps)
  moreover have "ARENA_ALIGN - 1 = mask 6" and "ARENA_ALIGN - 1 = 63"
    by (simp_all add: ARENA_ALIGN_def mask_eq_exp_minus_1)
  ultimately show ?thesis by (metis arena_step_def)
qed

lemma arena_step_arith: "arena_step sz = (sz + 63) div 64 * 64"
  by (simp add: arena_step_bits drop_bit_eq_div push_bit_eq_mult)

lemma arena_step_nat:
  assumes "unat sz + 63 < 2 ^ 64"
  shows "unat (arena_step sz) = round64 (unat sz)"
proof -
  note arena_step_arith [of sz]
  moreover have "unat (sz + 63) = unat sz + 63" using assms by (simp add: unat_word_ariths)
  moreover have "(unat sz + 63) div 64 * 64 < 2 ^ 64" using assms by linarith
  ultimately show ?thesis by (simp add: round64_def unat_word_ariths unat_div_distrib)
qed

subsection \<open>Sequences of allocations\<close>

fun arena_allocs :: "u64 \<Rightarrow> u64 list \<Rightarrow> runtime \<Rightarrow> u64 list \<times> runtime" where
  "arena_allocs m [] rt = ([], rt)"
| "arena_allocs m (sz # szs) rt =
     (let (a, rt) = isolated_arena_alloc m sz rt; (as, rt) = arena_allocs m szs rt in (a # as, rt))"

lemma arena_allocs_init:
  assumes "arena_base rt = 0" and "m \<noteq> 0" and "szs \<noteq> []"
  shows "fst (arena_allocs m szs rt) = fst (arena_allocs m szs (rt\<lparr>arena_base := m, arena_ptr := m\<rparr>))"
proof -
  have *: "fst (arena_allocs m zs r) = fst (arena_allocs m zs r')"
    if "arena_base r = arena_base r'" "arena_ptr r = arena_ptr r'" "arena_base r \<noteq> 0" for zs r r'
    using that by (induction zs arbitrary: r r') (auto simp: isolated_arena_alloc_def split_beta Let_def)
  obtain sz zs where szs: "szs = sz # zs" using assms(3) by (cases szs) auto
  then show ?thesis
    using assms(1,2) by (auto simp: isolated_arena_alloc_def split_beta Let_def intro: *)
qed

lemma arena_allocs_addr:
  assumes "arena_base rt \<noteq> 0" and "unat (arena_ptr rt) + sum_list (map (round64 \<circ> unat) szs) < 2 ^ 64"
  shows "length (fst (arena_allocs m szs rt)) = length szs
    \<and> (\<forall>i < length szs. unat (fst (arena_allocs m szs rt) ! i)
         = unat (arena_ptr rt) + sum_list (map (round64 \<circ> unat) (take i szs)))"
  using assms
proof (induction szs arbitrary: rt)
  case (Cons sz szs)
  let ?rt = "rt\<lparr>arena_ptr := arena_ptr rt + arena_step sz\<rparr>"
  have "round64 (unat sz) < 2 ^ 64" using Cons.prems(2) by simp
  then have "unat sz + 63 < 2 ^ 64" unfolding round64_def by simp
  then have step: "unat (arena_step sz) = round64 (unat sz)" by (rule arena_step_nat)
  then have ptr: "unat (arena_ptr ?rt) = unat (arena_ptr rt) + round64 (unat sz)"
    using Cons.prems(2) by (simp add: unat_word_ariths)
  then have IH: "length (fst (arena_allocs m szs ?rt)) = length szs
    \<and> (\<forall>i < length szs. unat (fst (arena_allocs m szs ?rt) ! i)
         = unat (arena_ptr ?rt) + sum_list (map (round64 \<circ> unat) (take i szs)))"
    using Cons.prems by (intro Cons.IH) auto
  have "arena_allocs m (sz # szs) rt = (arena_ptr rt # fst (arena_allocs m szs ?rt), snd (arena_allocs m szs ?rt))"
    using Cons.prems(1) by (simp add: isolated_arena_alloc_def split_beta)
  then show ?case using IH ptr by (auto simp: nth_Cons comp_def split: nat.splits)
qed simp

lemma sum_take_mono:
  fixes f :: "'a \<Rightarrow> nat"
  assumes "i < j" and "j \<le> length xs"
  shows "sum_list (map f (take i xs)) + f (xs ! i) \<le> sum_list (map f (take j xs))"
proof -
  have "take j xs = take (Suc i) xs @ take (j - Suc i) (drop (Suc i) xs)"
    using assms by (metis Suc_leI le_add_diff_inverse take_add)
  moreover have "take (Suc i) xs = take i xs @ [xs ! i]" using assms by (simp add: take_Suc_conv_app_nth)
  ultimately show ?thesis by simp
qed



text \<open>A size within 63 bytes of the top of the 64-bit range rounds to zero: the
  allocation succeeds without advancing, and the next allocation returns the same address.\<close>

theorem arena_alloc_wraps:
  assumes "arena_base rt \<noteq> 0" and "2 ^ 64 - 63 \<le> unat sz"
  shows "\<exists>a rt'. isolated_arena_alloc m sz rt = (a, rt') \<and> fst (isolated_arena_alloc m sz' rt') = a"
proof -
  have less: "unat sz < 2 ^ 64" using unat_u64_less [of sz] by simp
  have "unat (sz + 63) = (unat sz + 63) mod 2 ^ 64" by (simp add: unat_word_ariths)
  also have "\<dots> = unat sz + 63 - 2 ^ 64" using assms(2) less by (simp add: mod_if)
  finally have small: "unat (sz + 63) < 64" using less assms(2) by simp
  have "unat ((sz + 63) div 64) = 0" using small by (simp add: unat_div_distrib)
  then have "(sz + 63) div 64 = 0" by (simp only: unat_eq_zero)
  then have "arena_step sz = 0" by (simp add: arena_step_arith)
  then show ?thesis using assms(1) by (simp add: isolated_arena_alloc_def)
qed

theorem arena_alloc_wraps_witness:
  "\<exists>a rt'. isolated_arena_alloc 4096 18446744073709551615 (rt_boot\<lparr>arena_base := 4096, arena_ptr := 4096\<rparr>) = (a, rt')
    \<and> fst (isolated_arena_alloc 4096 8 rt') = a"
  by (rule arena_alloc_wraps) simp_all

text \<open>An epoch reset makes the next epoch reuse the arena from its base: the addresses of
  a sequence of allocations after a reset are those of the same sequence on the fresh arena.\<close>

theorem arena_reset_reuses:
  assumes "arena_base rt \<noteq> 0" and "szs \<noteq> []" and "arena_base rt = m"
  shows "fst (arena_allocs m' szs (isolated_arena_reset rt)) = fst (arena_allocs m szs rt_boot)"
proof -
  have *: "fst (arena_allocs m1 zs r) = fst (arena_allocs m2 zs r')"
    if "arena_base r = arena_base r'" "arena_ptr r = arena_ptr r'" "arena_base r \<noteq> 0" for zs r r' m1 m2
    using that by (induction zs arbitrary: r r') (auto simp: isolated_arena_alloc_def split_beta Let_def)
  have "fst (arena_allocs m szs rt_boot) = fst (arena_allocs m szs (rt_boot\<lparr>arena_base := m, arena_ptr := m\<rparr>))"
    using assms by (intro arena_allocs_init) (auto simp: rt_boot_def)
  also have "\<dots> = fst (arena_allocs m' szs (isolated_arena_reset rt))"
    using assms by (intro *) (auto simp: isolated_arena_reset_def)
  finally show ?thesis by simp
qed

theorem arena_reset_reuses_witness:
  "fst (arena_allocs 0 [8] (isolated_arena_reset (rt_boot\<lparr>arena_base := 4096, arena_ptr := 8192\<rparr>)))
    = fst (arena_allocs 4096 [8] rt_boot)"
  by (rule arena_reset_reuses) simp_all

end
