(* ===== verification/Facet_Os.thy ===== *)
theory Facet_Os
  imports Prelude
begin

text \<open>
  The operating-system shims of the facet user processes (src/user/os/facet_os.c): shared
  memory creation and the command-line scan for the IPC descriptor. The system calls and the
  argument vector of the host are parameters; \<^verbatim>\<open>atoi\<close> of the C library is modelled, with
  \<open>None\<close> for a value outside \<^verbatim>\<open>int\<close>, which the C standard leaves undefined.
\<close>

subsection \<open>Library and operations\<close>

definition c_isspace :: "char \<Rightarrow> bool" where
  "c_isspace c \<longleftrightarrow> (let n = of_char c :: nat in n = 32 \<or> 9 \<le> n \<and> n \<le> 13)"

definition c_isdigit :: "char \<Rightarrow> bool" where
  "c_isdigit c \<longleftrightarrow> (let n = of_char c :: nat in 48 \<le> n \<and> n \<le> 57)"

fun digits_val :: "nat \<Rightarrow> string \<Rightarrow> nat" where
  "digits_val acc [] = acc"
| "digits_val acc (c # cs) = (if c_isdigit c then digits_val (acc * 10 + (of_char c - 48)) cs else acc)"

definition atoi :: "string \<Rightarrow> int option" where
  "atoi s = (case dropWhile c_isspace s of
      [] \<Rightarrow> Some 0
    | c # cs \<Rightarrow> if c = CHR ''-'' then i32 (- int (digits_val 0 cs))
                else if c = CHR ''+'' then i32 (int (digits_val 0 cs))
                else i32 (int (digits_val 0 (c # cs))))"

definition facet_os_create_shm ::
  "(string \<Rightarrow> 'os \<Rightarrow> int \<times> 'os) \<Rightarrow> (int \<Rightarrow> int \<Rightarrow> 'os \<Rightarrow> 'os) \<Rightarrow> string \<Rightarrow> int \<Rightarrow> 'os \<Rightarrow> int \<times> 'os" where
  "facet_os_create_shm shm_open ftruncate name bytes os =
     (let (fd, os) = shm_open name os
      in if 0 \<le> fd then (fd, ftruncate fd bytes os) else (fd, os))"

fun ipc_scan :: "(nat \<Rightarrow> string option) \<Rightarrow> nat list \<Rightarrow> int option" where
  "ipc_scan argv [] = Some (- 1)"
| "ipc_scan argv (i # is) =
     (case argv i of
        Some arg \<Rightarrow> if arg = ''--ipc-fd'' then do { v \<leftarrow> argv (i + 1); atoi v } else ipc_scan argv is
      | None \<Rightarrow> ipc_scan argv is)"

definition ext_get_ipc_fd :: "int \<Rightarrow> (nat \<Rightarrow> string option) \<Rightarrow> int option" where
  "ext_get_ipc_fd argc argv = do {
     n \<leftarrow> i32 (argc - 1);
     ipc_scan argv [0..<nat n] }"

subsection \<open>Decimal strings\<close>

definition dec_string :: "nat \<Rightarrow> string" where
  "dec_string n = map (\<lambda>d. char_of (48 + d)) (dec_digits n)"

lemma digit_char:
  assumes "d < 10"
  shows "c_isdigit (char_of (48 + d))" and "\<not> c_isspace (char_of (48 + d))"
    and "(of_char (char_of (48 + d)) :: nat) = 48 + d"
  using assms by (auto simp: c_isdigit_def c_isspace_def Let_def)

lemma digits_val_append:
  "\<forall>d \<in> set ds. d < 10 \<Longrightarrow>
     digits_val acc (map (\<lambda>d. char_of (48 + d)) ds) = foldl (\<lambda>a d. a * 10 + d) acc ds"
  by (induction ds arbitrary: acc) (auto simp: digit_char)

lemma dec_digits_ne: "dec_digits n \<noteq> []"
  by (subst dec_digits.simps) simp

lemma atoi_dec_string:
  assumes "n < 2 ^ 31"
  shows "atoi (dec_string n) = Some (int n)"
proof -
  obtain d ds where dd: "dec_digits n = d # ds" using dec_digits_ne by (cases "dec_digits n") auto
  have small: "\<forall>d \<in> set (dec_digits n). d < 10" using dec_digits_small by blast
  then have d: "d < 10" using dd by simp
  have s: "dec_string n = char_of (48 + d) # map (\<lambda>d. char_of (48 + d)) ds" by (simp add: dec_string_def dd)
  have sign: "char_of (48 + d) \<noteq> CHR ''-''" "char_of (48 + d) \<noteq> CHR ''+''"
    using digit_char(3) [OF d] by (auto dest: arg_cong [where f = "of_char :: char \<Rightarrow> nat"])
  have "digits_val 0 (dec_string n) = n"
    using digits_val_append [OF small, of 0] dec_value_digits [of n] by (simp add: dec_string_def dec_value_def)
  then show ?thesis
    using assms sign digit_char(2) [OF d] by (simp add: atoi_def s i32_def)
qed

subsection \<open>The scan\<close>

definition argv_of :: "string list \<Rightarrow> nat \<Rightarrow> string option" where
  "argv_of as i = (if i < length as then Some (as ! i) else None)"

lemma ipc_scan_skip:
  "\<forall>i \<in> set js. argv i \<noteq> Some ''--ipc-fd'' \<Longrightarrow> ipc_scan argv (js @ ks) = ipc_scan argv ks"
  by (induction js) (auto split: option.splits)

text \<open>The IPC descriptor is the number after the first "--ipc-fd" that is not the last
  argument; without one the result is -1.\<close>

theorem ext_get_ipc_fd_finds:
  assumes "length as < 2 ^ 31"
  shows "(\<forall>k n. k + 1 < length as \<longrightarrow> as ! k = ''--ipc-fd'' \<longrightarrow> (\<forall>j < k. as ! j \<noteq> ''--ipc-fd'')
            \<longrightarrow> n < 2 ^ 31 \<longrightarrow> as ! (k + 1) = dec_string n
            \<longrightarrow> ext_get_ipc_fd (int (length as)) (argv_of as) = Some (int n))
    \<and> (''--ipc-fd'' \<notin> set (butlast as) \<longrightarrow> ext_get_ipc_fd (int (length as)) (argv_of as) = Some (- 1))"
proof -
  have run: "ext_get_ipc_fd (int (length as)) (argv_of as) = ipc_scan (argv_of as) [0..<length as - 1]"
  proof -
    have "nat (int (length as) - 1) = length as - 1" by simp
    then show ?thesis using assms by (simp add: ext_get_ipc_fd_def i32_def)
  qed
  have found: "ipc_scan (argv_of as) [0..<length as - 1] = Some (int n)"
    if k: "k + 1 < length as" "as ! k = ''--ipc-fd''" "\<forall>j < k. as ! j \<noteq> ''--ipc-fd''"
      and n: "n < 2 ^ 31" "as ! (k + 1) = dec_string n" for k n
  proof -
    have "[0..<length as - 1] = [0..<k] @ k # [Suc k..<length as - 1]"
    proof -
      have "[0..<length as - 1] = [0..<k] @ [k..<length as - 1]"
        using k(1) upt_add_eq_append [of 0 k "length as - 1 - k"] by simp
      then show ?thesis using k(1) by (simp add: upt_conv_Cons)
    qed
    moreover have "\<forall>i \<in> set [0..<k]. argv_of as i \<noteq> Some ''--ipc-fd''"
      using k by (auto simp: argv_of_def)
    ultimately show ?thesis
      using k n atoi_dec_string by (simp add: ipc_scan_skip argv_of_def)
  qed
  have absent: "ipc_scan (argv_of as) [0..<length as - 1] = Some (- 1)" if "''--ipc-fd'' \<notin> set (butlast as)"
  proof -
    have "as ! i \<in> set (butlast as)" if "i < length as - 1" for i
      using that by (metis length_butlast nth_butlast nth_mem)
    with that have "\<forall>i \<in> set [0..<length as - 1]. argv_of as i \<noteq> Some ''--ipc-fd''"
      unfolding argv_of_def by (metis (no_types, lifting) atLeastLessThan_iff option.inject option.distinct(1) set_upt)
    from ipc_scan_skip [OF this, of "[]"] show ?thesis by simp
  qed
  show ?thesis
    unfolding run by (intro conjI allI impI; (rule absent | rule found); assumption)
qed

theorem ext_get_ipc_fd_finds_witness:
  "ext_get_ipc_fd 3 (argv_of [''prog'', ''--ipc-fd'', dec_string 42]) = Some 42"
proof -
  have "ext_get_ipc_fd (int (length [''prog'', ''--ipc-fd'', dec_string 42]))
      (argv_of [''prog'', ''--ipc-fd'', dec_string 42]) = Some (int 42)"
    by (rule ext_get_ipc_fd_finds [THEN conjunct1, rule_format, of _ 1]) auto
  then show ?thesis by simp
qed

end
