(* ===== verification/Tls_Bridge.thy ===== *)
theory Tls_Bridge
  imports Prelude
begin

text \<open>
  The TLS bridge of the network daemon (src/user/netd/tls_bridge.c and tls_state.h): a static
  pool of connection slots and the pump that moves ciphertext between a non-blocking socket and
  the BearSSL engine and cleartext from the engine to the IPC ring.

  BearSSL and the socket calls are not part of the repository: they are the parameters
  \<open>br\<close> (the engine operations of one connection, over an abstract engine state \<open>'e\<close>) and
  \<open>sk\<close> (\<^verbatim>\<open>read\<close> and \<^verbatim>\<open>write\<close>, over an abstract state \<open>'s\<close> of the operating system). A test
  of the engine's state word against a flag is a predicate of the engine; data that BearSSL
  exposes through a buffer pointer is the value of that buffer. \<^verbatim>\<open>errno\<close> is kept as far as the
  code looks at it: the call would block, or it failed.
\<close>

subsection \<open>The interfaces of BearSSL and of the sockets\<close>

record 'e br_api =
  br_closed :: "'e \<Rightarrow> bool"              \<comment> \<open>current state is BR\_SSL\_CLOSED\<close>
  br_error_ok :: "'e \<Rightarrow> bool"            \<comment> \<open>last error is BR\_ERR\_OK\<close>
  br_recvrec :: "'e \<Rightarrow> bool"
  br_sendrec :: "'e \<Rightarrow> bool"
  br_recvapp :: "'e \<Rightarrow> bool"
  br_sendapp :: "'e \<Rightarrow> bool"
  br_recvrec_len :: "'e \<Rightarrow> nat"
  br_recvrec_ack :: "'e \<Rightarrow> bytes \<Rightarrow> 'e"    \<comment> \<open>the bytes read into the buffer, then acknowledged\<close>
  br_close :: "'e \<Rightarrow> 'e"
  br_sendrec_buf :: "'e \<Rightarrow> bytes"
  br_sendrec_ack :: "'e \<Rightarrow> nat \<Rightarrow> 'e"
  br_recvapp_buf :: "'e \<Rightarrow> bytes"
  br_recvapp_ack :: "'e \<Rightarrow> nat \<Rightarrow> 'e"
  br_sendapp_len :: "'e \<Rightarrow> nat"
  br_sendapp_ack :: "'e \<Rightarrow> bytes \<Rightarrow> 'e"
  br_flush :: "'e \<Rightarrow> 'e"
  br_x509_init :: "'e \<Rightarrow> 'e"
  br_x509_set_rsa :: "'e \<Rightarrow> 'e"
  br_x509_set_ecdsa :: "'e \<Rightarrow> 'e"
  br_client_init_full :: "'e \<Rightarrow> 'e"
  br_set_buffer :: "'e \<Rightarrow> 'e"
  br_client_reset :: "'e \<Rightarrow> string \<Rightarrow> 'e"

datatype read_result = RData bytes | REof | RAgain | RFail
datatype write_result = WSent nat | WAgain | WFail

record 's sock_api =
  sk_read :: "int \<Rightarrow> nat \<Rightarrow> 's \<Rightarrow> read_result \<times> 's"
  sk_write :: "int \<Rightarrow> bytes \<Rightarrow> 's \<Rightarrow> write_result \<times> 's"

subsection \<open>State\<close>

datatype NetDTLSState =
  TLS_CONN_IDLE | TLS_CONN_HANDSHAKING | TLS_CONN_ESTABLISHED | TLS_CONN_CLOSING | TLS_CONN_ERROR

record 'e NetDTLSConnection =
  conn_fd :: int
  tab_multiplex_id :: u64
  conn_state :: NetDTLSState
  conn_eng :: 'e           \<comment> \<open>sc, xc and iobuf\<close>

definition MAX_CONCURRENT_TLS_SOCKETS :: nat where "MAX_CONCURRENT_TLS_SOCKETS = 64"

type_synonym ring = "(u64 \<times> bytes) list"   \<comment> \<open>the calls of ipc\_ring\_push\_bytes\<close>

record ('e, 's) netd =
  global_tls_connections :: "'e NetDTLSConnection list"
  net_os :: 's
  net_closed :: "int list"     \<comment> \<open>the descriptors passed to close\<close>
  net_ring :: ring

definition netd_boot :: "'e \<Rightarrow> 's \<Rightarrow> ('e, 's) netd" where
  "netd_boot e s = \<lparr>global_tls_connections = replicate MAX_CONCURRENT_TLS_SOCKETS
       \<lparr>conn_fd = 0, tab_multiplex_id = 0, conn_state = TLS_CONN_IDLE, conn_eng = e\<rparr>,
     net_os = s, net_closed = [], net_ring = []\<rparr>"

subsection \<open>Connection lifecycle\<close>

fun acquire_loop :: "nat list \<Rightarrow> ('e, 's) netd \<Rightarrow> (int \<times> ('e, 's) netd) option" where
  "acquire_loop [] n = Some (- 1, n)"
| "acquire_loop (i # is) n = do {
     c \<leftarrow> aget (global_tls_connections n) i;
     (if conn_state c = TLS_CONN_IDLE then do {
        cs \<leftarrow> aset (global_tls_connections n) i (c\<lparr>conn_state := TLS_CONN_HANDSHAKING, conn_fd := - 1\<rparr>);
        Some (int i, n\<lparr>global_tls_connections := cs\<rparr>) }
      else acquire_loop is n) }"

definition netd_tls_acquire_slot :: "('e, 's) netd \<Rightarrow> (int \<times> ('e, 's) netd) option" where
  "netd_tls_acquire_slot n = acquire_loop [0..<MAX_CONCURRENT_TLS_SOCKETS] n"

definition netd_tls_init_connection ::
  "'e br_api \<Rightarrow> int \<Rightarrow> int \<Rightarrow> string \<Rightarrow> u64 \<Rightarrow> ('e, 's) netd \<Rightarrow> ('e, 's) netd option" where
  "netd_tls_init_connection br slot fd hostname multiplex_id n = do {
     c \<leftarrow> iget (global_tls_connections n) slot;
     let c = c\<lparr>conn_fd := fd, tab_multiplex_id := multiplex_id\<rparr>;
     let e = br_x509_set_ecdsa br (br_x509_set_rsa br (br_x509_init br (conn_eng c)));
     let e = br_client_reset br (br_set_buffer br (br_client_init_full br e)) hostname;
     cs \<leftarrow> iset (global_tls_connections n) slot (c\<lparr>conn_eng := e, conn_state := TLS_CONN_HANDSHAKING\<rparr>);
     Some (n\<lparr>global_tls_connections := cs\<rparr>) }"

definition netd_tls_release_slot :: "int \<Rightarrow> ('e, 's) netd \<Rightarrow> ('e, 's) netd option" where
  "netd_tls_release_slot slot n =
     (if slot < 0 \<or> int MAX_CONCURRENT_TLS_SOCKETS \<le> slot then Some n
      else do {
        c \<leftarrow> iget (global_tls_connections n) slot;
        let closing = (0 \<le> conn_fd c);
        cs \<leftarrow> iset (global_tls_connections n) slot
          (c\<lparr>conn_fd := (if closing then - 1 else conn_fd c), conn_state := TLS_CONN_IDLE,
             tab_multiplex_id := 0\<rparr>);
        Some (n\<lparr>global_tls_connections := cs,
                net_closed := net_closed n @ (if closing then [conn_fd c] else [])\<rparr>) })"

subsection \<open>The pump\<close>

type_synonym ('e, 's) flow = "'e NetDTLSConnection \<times> 's \<times> ring"

definition eng_upd :: "('e \<Rightarrow> 'e) \<Rightarrow> 'e NetDTLSConnection \<Rightarrow> 'e NetDTLSConnection" where
  "eng_upd f c = c\<lparr>conn_eng := f (conn_eng c)\<rparr>"

text \<open>A step of an iteration either returns -1 (\<open>Inl\<close>) or goes on with the progress flag.\<close>

definition pump_recv ::
  "'e br_api \<Rightarrow> 's sock_api \<Rightarrow> ('e, 's) flow \<Rightarrow> ('e, 's) flow + ('e, 's) flow \<times> bool" where
  "pump_recv br sk fl = (case fl of (c, os, rg) \<Rightarrow>
     if br_recvrec br (conn_eng c) then
       (case sk_read sk (conn_fd c) (br_recvrec_len br (conn_eng c)) os of
          (RData bs, os) \<Rightarrow> Inr ((eng_upd (\<lambda>e. br_recvrec_ack br e bs) c, os, rg), True)
        | (REof, os) \<Rightarrow> Inr ((eng_upd (br_close br) c, os, rg), True)
        | (RAgain, os) \<Rightarrow> Inr ((c, os, rg), False)
        | (RFail, os) \<Rightarrow> Inl (c\<lparr>conn_state := TLS_CONN_ERROR\<rparr>, os, rg))
     else Inr ((c, os, rg), False))"

definition pump_send ::
  "'e br_api \<Rightarrow> 's sock_api \<Rightarrow> ('e, 's) flow \<Rightarrow> ('e, 's) flow + ('e, 's) flow \<times> bool" where
  "pump_send br sk fl = (case fl of (c, os, rg) \<Rightarrow>
     if br_sendrec br (conn_eng c) then
       (case sk_write sk (conn_fd c) (br_sendrec_buf br (conn_eng c)) os of
          (WSent k, os) \<Rightarrow>
            if 0 < k then Inr ((eng_upd (\<lambda>e. br_sendrec_ack br e k) c, os, rg), True)
            else Inr ((c, os, rg), False)
        | (WAgain, os) \<Rightarrow> Inr ((c, os, rg), False)
        | (WFail, os) \<Rightarrow> Inl (c\<lparr>conn_state := TLS_CONN_ERROR\<rparr>, os, rg))
     else Inr ((c, os, rg), False))"

definition pump_app :: "'e br_api \<Rightarrow> ('e, 's) flow \<Rightarrow> ('e, 's) flow \<times> bool" where
  "pump_app br fl = (case fl of (c, os, rg) \<Rightarrow>
     if br_recvapp br (conn_eng c) then
       (let buf = br_recvapp_buf br (conn_eng c);
            rg = rg @ [(tab_multiplex_id c, take (length buf mod 2 ^ 32) buf)];
            c = eng_upd (\<lambda>e. br_recvapp_ack br e (length buf)) c;
            c = (if conn_state c = TLS_CONN_HANDSHAKING then c\<lparr>conn_state := TLS_CONN_ESTABLISHED\<rparr> else c)
        in ((c, os, rg), True))
     else ((c, os, rg), False))"

text \<open>One iteration: either the pump returns a code, or the loop goes on if there was
  progress.\<close>

definition pump_iter ::
  "'e br_api \<Rightarrow> 's sock_api \<Rightarrow> ('e, 's) flow \<Rightarrow> int \<times> ('e, 's) flow + ('e, 's) flow \<times> bool" where
  "pump_iter br sk fl = (case fl of (c, os, rg) \<Rightarrow>
     if br_closed br (conn_eng c) then
       (if br_error_ok br (conn_eng c) then Inl (1, c\<lparr>conn_state := TLS_CONN_CLOSING\<rparr>, os, rg)
        else Inl (- 1, c\<lparr>conn_state := TLS_CONN_ERROR\<rparr>, os, rg))
     else
       (case pump_recv br sk (c, os, rg) of
          Inl fl \<Rightarrow> Inl (- 1, fl)
        | Inr (fl, p1) \<Rightarrow>
            (case pump_send br sk fl of
               Inl fl \<Rightarrow> Inl (- 1, fl)
             | Inr (fl, p2) \<Rightarrow>
                 (let (fl, p3) = pump_app br fl in Inr (fl, p1 \<or> p2 \<or> p3)))))"

partial_function (option) pump_loop ::
  "'e br_api \<Rightarrow> 's sock_api \<Rightarrow> ('e, 's) flow \<Rightarrow> (int \<times> ('e, 's) flow) option" where
  "pump_loop br sk fl =
     (case pump_iter br sk fl of
        Inl res \<Rightarrow> Some res
      | Inr (fl, progress) \<Rightarrow> if progress then pump_loop br sk fl else Some (0, fl))"

definition netd_tls_pump ::
  "'e br_api \<Rightarrow> 's sock_api \<Rightarrow> int \<Rightarrow> ('e, 's) netd \<Rightarrow> (int \<times> ('e, 's) netd) option" where
  "netd_tls_pump br sk slot n = do {
     c \<leftarrow> iget (global_tls_connections n) slot;
     (r, c, os, rg) \<leftarrow> pump_loop br sk (c, net_os n, net_ring n);
     cs \<leftarrow> iset (global_tls_connections n) slot c;
     Some (r, n\<lparr>global_tls_connections := cs, net_os := os, net_ring := rg\<rparr>) }"

definition netd_tls_send ::
  "'e br_api \<Rightarrow> 's sock_api \<Rightarrow> int \<Rightarrow> bytes \<Rightarrow> ('e, 's) netd \<Rightarrow> (int \<times> ('e, 's) netd) option" where
  "netd_tls_send br sk slot data n = do {
     c \<leftarrow> iget (global_tls_connections n) slot;
     (if \<not> br_sendapp br (conn_eng c) then Some (0, n)
      else let avail = br_sendapp_len br (conn_eng c)
           in if avail = 0 then Some (0, n)
              else do {
                let to_send = (if length data < avail then length data else avail);
                cs \<leftarrow> iset (global_tls_connections n) slot
                  (eng_upd (\<lambda>e. br_flush br (br_sendapp_ack br e (take to_send data))) c);
                (r, n) \<leftarrow> netd_tls_pump br sk slot (n\<lparr>global_tls_connections := cs\<rparr>);
                Some (sint (word_of_nat to_send :: u32), n) }) }"

fun tls_state_num :: "NetDTLSState \<Rightarrow> int" where
  "tls_state_num TLS_CONN_IDLE = 0"
| "tls_state_num TLS_CONN_HANDSHAKING = 1"
| "tls_state_num TLS_CONN_ESTABLISHED = 2"
| "tls_state_num TLS_CONN_CLOSING = 3"
| "tls_state_num TLS_CONN_ERROR = 4"

definition netd_tls_get_state :: "int \<Rightarrow> ('e, 's) netd \<Rightarrow> int option" where
  "netd_tls_get_state slot n =
     (if slot < 0 \<or> int MAX_CONCURRENT_TLS_SOCKETS \<le> slot then Some (- 1)
      else do { c \<leftarrow> iget (global_tls_connections n) slot; Some (tls_state_num (conn_state c)) })"

definition netd_tls_get_fd :: "int \<Rightarrow> ('e, 's) netd \<Rightarrow> int option" where
  "netd_tls_get_fd slot n =
     (if slot < 0 \<or> int MAX_CONCURRENT_TLS_SOCKETS \<le> slot then Some (- 1)
      else do { c \<leftarrow> iget (global_tls_connections n) slot; Some (conn_fd c) })"

definition netd_tls_get_multiplex_id :: "int \<Rightarrow> ('e, 's) netd \<Rightarrow> u64 option" where
  "netd_tls_get_multiplex_id slot n =
     (if slot < 0 \<or> int MAX_CONCURRENT_TLS_SOCKETS \<le> slot then Some 0
      else do { c \<leftarrow> iget (global_tls_connections n) slot; Some (tab_multiplex_id c) })"


subsection \<open>What one iteration does\<close>

lemma eng_upd_simps [simp]:
  "conn_fd (eng_upd f c) = conn_fd c" "tab_multiplex_id (eng_upd f c) = tab_multiplex_id c"
  "conn_state (eng_upd f c) = conn_state c" "conn_eng (eng_upd f c) = f (conn_eng c)"
  by (simp_all add: eng_upd_def)

text \<open>The connection that a return code leaves, when the chunks \<open>bss\<close> were pushed.\<close>

fun pump_post :: "NetDTLSState \<Rightarrow> int \<Rightarrow> bytes list \<Rightarrow> NetDTLSState \<Rightarrow> bool" where
  "pump_post st r bss st' \<longleftrightarrow> r = 1 \<and> st' = TLS_CONN_CLOSING \<or> r = - 1 \<and> st' = TLS_CONN_ERROR
     \<or> r = 0 \<and> st' = (if bss \<noteq> [] \<and> st = TLS_CONN_HANDSHAKING then TLS_CONN_ESTABLISHED else st)"

lemma pump_post_trans:
  "pump_post st 0 bss st1 \<Longrightarrow> pump_post st1 r bss' st' \<Longrightarrow> pump_post st r (bss @ bss') st'"
  by (auto split: if_splits)

declare pump_post.simps [simp del]

lemma pump_post_simps [simp]:
  "pump_post st 1 bss st' \<longleftrightarrow> st' = TLS_CONN_CLOSING"
  "pump_post st (- 1) bss st' \<longleftrightarrow> st' = TLS_CONN_ERROR"
  "pump_post st 0 bss st' \<longleftrightarrow>
     st' = (if bss \<noteq> [] \<and> st = TLS_CONN_HANDSHAKING then TLS_CONN_ESTABLISHED else st)"
  by (auto simp: pump_post.simps)

lemma pump_recv_Inl:
  "pump_recv br sk (c, os, rg) = Inl (c', os', rg') \<Longrightarrow>
     rg' = rg \<and> c' = c\<lparr>conn_state := TLS_CONN_ERROR\<rparr>"
  by (auto simp: pump_recv_def split: if_splits prod.splits read_result.splits)

lemma pump_send_Inl:
  "pump_send br sk (c, os, rg) = Inl (c', os', rg') \<Longrightarrow>
     rg' = rg \<and> c' = c\<lparr>conn_state := TLS_CONN_ERROR\<rparr>"
  by (auto simp: pump_send_def split: if_splits prod.splits write_result.splits)

lemma pump_recv_Inr:
  "pump_recv br sk (c, os, rg) = Inr ((c', os', rg'), p) \<Longrightarrow>
     rg' = rg \<and> c' = c\<lparr>conn_eng := conn_eng c'\<rparr> \<and> (conn_eng c' = conn_eng c
       \<or> (\<exists>bs. conn_eng c' = br_recvrec_ack br (conn_eng c) bs) \<or> conn_eng c' = br_close br (conn_eng c))"
  by (auto simp: pump_recv_def eng_upd_def split: if_splits prod.splits read_result.splits)

lemma pump_send_Inr:
  "pump_send br sk (c, os, rg) = Inr ((c', os', rg'), p) \<Longrightarrow>
     rg' = rg \<and> c' = c\<lparr>conn_eng := conn_eng c'\<rparr> \<and> (conn_eng c' = conn_eng c
       \<or> (\<exists>k. conn_eng c' = br_sendrec_ack br (conn_eng c) k))"
  by (auto simp: pump_send_def eng_upd_def split: if_splits prod.splits write_result.splits)

subsection \<open>The return code and the state of the connection\<close>

definition keeps_identity :: "'e NetDTLSConnection \<Rightarrow> 'e NetDTLSConnection \<Rightarrow> bool" where
  "keeps_identity c c' \<longleftrightarrow> conn_fd c' = conn_fd c \<and> tab_multiplex_id c' = tab_multiplex_id c"

lemma keeps_identity_upd [simp]:
  "keeps_identity c (eng_upd f c)" "keeps_identity c (c\<lparr>conn_state := st\<rparr>)" "keeps_identity c c"
  by (simp_all add: keeps_identity_def)

lemma pump_iter_split:
  assumes "pump_iter br sk (c, os, rg) = Inr (fl, p)"
  obtains c1 os1 rg1 p1 c2 os2 rg2 p2 p3 where
    "\<not> br_closed br (conn_eng c)"
    "pump_recv br sk (c, os, rg) = Inr ((c1, os1, rg1), p1)"
    "pump_send br sk (c1, os1, rg1) = Inr ((c2, os2, rg2), p2)"
    "pump_app br (c2, os2, rg2) = (fl, p3)" "p = (p1 \<or> p2 \<or> p3)"
  using assms by (simp add: pump_iter_def split: if_splits sum.splits prod.splits) (metis surj_pair)

lemma pump_iter_Inl:
  assumes "pump_iter br sk (c, os, rg) = Inl (r, c', os', rg')"
  shows "rg' = rg \<and> keeps_identity c c' \<and> pump_post (conn_state c) r [] (conn_state c')"
  using assms
  by (auto simp: pump_iter_def keeps_identity_def split: if_splits sum.splits prod.splits
      dest!: pump_recv_Inl pump_send_Inl pump_recv_Inr)

lemma pump_iter_Inr:
  assumes "pump_iter br sk (c, os, rg) = Inr ((c', os', rg'), p)"
  shows "\<exists>bss. rg' = rg @ map (Pair (tab_multiplex_id c)) bss \<and> keeps_identity c c'
    \<and> pump_post (conn_state c) 0 bss (conn_state c')"
proof -
  obtain c1 os1 rg1 p1 c2 os2 rg2 p2 p3 where st:
    "pump_recv br sk (c, os, rg) = Inr ((c1, os1, rg1), p1)"
    "pump_send br sk (c1, os1, rg1) = Inr ((c2, os2, rg2), p2)"
    "pump_app br (c2, os2, rg2) = ((c', os', rg'), p3)"
    using assms by (rule pump_iter_split)
  have c1: "rg1 = rg" "c1 = c\<lparr>conn_eng := conn_eng c1\<rparr>" using pump_recv_Inr [OF st(1)] by blast+
  have c2: "rg2 = rg1" "c2 = c1\<lparr>conn_eng := conn_eng c2\<rparr>" using pump_send_Inr [OF st(2)] by blast+
  have rg: "rg2 = rg" using c1 c2 by simp
  have id: "keeps_identity c c2" "conn_state c2 = conn_state c"
    by (subst c2(2), subst c1(2), simp add: keeps_identity_def)+
  show ?thesis
  proof (cases "br_recvapp br (conn_eng c2)")
    case True
    then show ?thesis using st(3) rg id
      by (intro exI [of _ "[take (length (br_recvapp_buf br (conn_eng c2)) mod 2 ^ 32) (br_recvapp_buf br (conn_eng c2))]"])
        (auto simp: pump_app_def Let_def keeps_identity_def)
  next
    case False
    then show ?thesis using st(3) rg id by (intro exI [of _ "[]"]) (auto simp: pump_app_def)
  qed
qed

lemma pump_loop_post:
  assumes "pump_loop br sk (c, os, rg) = Some (r, c', os', rg')"
  shows "\<exists>bss. rg' = rg @ map (Pair (tab_multiplex_id c)) bss \<and> keeps_identity c c'
    \<and> pump_post (conn_state c) r bss (conn_state c')"
proof -
  have "case fl of (c, os, rg) \<Rightarrow> case res of (r, c', os', rg') \<Rightarrow>
      \<exists>bss. rg' = rg @ map (Pair (tab_multiplex_id c)) bss \<and> keeps_identity c c'
        \<and> pump_post (conn_state c) r bss (conn_state c')"
    if "pump_loop b s fl = Some res" for b :: "'a br_api" and s :: "'b sock_api" and fl res
    using that
  proof (induction rule: pump_loop.raw_induct [rotated, consumes 1])
    case (1 loop b s fl res)
    obtain c os rg where fl: "fl = (c, os, rg)" by (cases fl)
    obtain r c' os' rg' where res: "res = (r, c', os', rg')" by (cases res)
    show ?case
    proof (cases "pump_iter b s fl")
      case (Inl x)
      then show ?thesis using 1(2) pump_iter_Inl [of b s c os rg r c' os' rg'] by (simp add: fl res)
    next
      case (Inr y)
      obtain c1 os1 rg1 p where y: "y = ((c1, os1, rg1), p)" by (metis surj_pair)
      obtain b1 where b1: "rg1 = rg @ map (Pair (tab_multiplex_id c)) b1" "keeps_identity c c1"
        "pump_post (conn_state c) 0 b1 (conn_state c1)"
        using pump_iter_Inr Inr y fl by metis
      show ?thesis
      proof (cases p)
        case True
        then have "loop b s (c1, os1, rg1) = Some res" using 1(2) Inr y by simp
        from 1(1) [OF this] obtain b2 where "rg' = rg1 @ map (Pair (tab_multiplex_id c1)) b2"
          "keeps_identity c1 c'" "pump_post (conn_state c1) r b2 (conn_state c')"
          by (auto simp: res)
        moreover from this(3) b1(3) have "pump_post (conn_state c) r (b1 @ b2) (conn_state c')"
          by (metis pump_post_trans)
        ultimately show ?thesis using b1(1,2)
          by (simp add: fl res keeps_identity_def) (metis append.assoc map_append)
      next
        case False
        then show ?thesis using 1(2) Inr y b1 by (auto simp: fl res)
      qed
    qed
  qed
  from this [OF assms] show ?thesis by simp
qed

text \<open>C21: Whenever the pump returns, its code matches the state it leaves: 1 with CLOSING, -1
  with ERROR, 0 with the old state, or ESTABLISHED if the connection was handshaking and
  cleartext was delivered. It keeps the descriptor and the identity of the connection, tags
  everything it pushes with that identity, and touches no other slot.\<close>

theorem netd_tls_pump_contract:
  assumes "netd_tls_pump br sk slot n = Some (r, n')"
  shows "\<exists>c c' bss. iget (global_tls_connections n) slot = Some c
    \<and> global_tls_connections n' = (global_tls_connections n)[nat slot := c']
    \<and> conn_fd c' = conn_fd c \<and> tab_multiplex_id c' = tab_multiplex_id c
    \<and> net_ring n' = net_ring n @ map (Pair (tab_multiplex_id c)) bss
    \<and> net_closed n' = net_closed n
    \<and> pump_post (conn_state c) r bss (conn_state c')"
proof -
  obtain c c' os rg where run: "iget (global_tls_connections n) slot = Some c"
    "pump_loop br sk (c, net_os n, net_ring n) = Some (r, c', os, rg)"
    "n' = n\<lparr>global_tls_connections := (global_tls_connections n)[nat slot := c'], net_os := os, net_ring := rg\<rparr>"
    using assms by (auto simp: netd_tls_pump_def bind_Some_iff iset_Some_iff split: prod.splits)
  from pump_loop_post [OF run(2)] run(1,3) show ?thesis
    by (auto simp: keeps_identity_def)
qed


subsection \<open>Termination\<close>

text \<open>Finite traffic: a potential of engine and socket that every transfer decreases (bytes
  still to arrive, records still to flush, cleartext still to deliver).\<close>

definition finite_traffic :: "'e br_api \<Rightarrow> 's sock_api \<Rightarrow> ('e \<Rightarrow> 's \<Rightarrow> nat) \<Rightarrow> bool" where
  "finite_traffic br sk \<mu> \<longleftrightarrow>
     (\<forall>e fd os. br_recvrec br e \<longrightarrow>
        (case sk_read sk fd (br_recvrec_len br e) os of
           (RData bs, os') \<Rightarrow> \<mu> (br_recvrec_ack br e bs) os' < \<mu> e os
         | (REof, os') \<Rightarrow> \<mu> (br_close br e) os' < \<mu> e os
         | (_, os') \<Rightarrow> \<mu> e os' \<le> \<mu> e os))
   \<and> (\<forall>e fd os. br_sendrec br e \<longrightarrow>
        (case sk_write sk fd (br_sendrec_buf br e) os of
           (WSent k, os') \<Rightarrow> if 0 < k then \<mu> (br_sendrec_ack br e k) os' < \<mu> e os else \<mu> e os' \<le> \<mu> e os
         | (_, os') \<Rightarrow> \<mu> e os' \<le> \<mu> e os))
   \<and> (\<forall>e os. br_recvapp br e \<longrightarrow> \<mu> (br_recvapp_ack br e (length (br_recvapp_buf br e))) os < \<mu> e os)"

lemma pump_recv_measure:
  assumes "finite_traffic br sk \<mu>" and "pump_recv br sk (c, os, rg) = Inr ((c', os', rg'), p)"
  shows "\<mu> (conn_eng c') os' \<le> \<mu> (conn_eng c) os \<and> (p \<longrightarrow> \<mu> (conn_eng c') os' < \<mu> (conn_eng c) os)"
proof (cases "br_recvrec br (conn_eng c)")
  case True
  with assms(1) have "case sk_read sk (conn_fd c) (br_recvrec_len br (conn_eng c)) os of
      (RData bs, os') \<Rightarrow> \<mu> (br_recvrec_ack br (conn_eng c) bs) os' < \<mu> (conn_eng c) os
    | (REof, os') \<Rightarrow> \<mu> (br_close br (conn_eng c)) os' < \<mu> (conn_eng c) os
    | (_, os') \<Rightarrow> \<mu> (conn_eng c) os' \<le> \<mu> (conn_eng c) os"
    by (simp only: finite_traffic_def)
  then show ?thesis using assms(2) True
    by (auto simp: pump_recv_def split: prod.splits read_result.splits)
next
  case False
  then show ?thesis using assms(2) by (auto simp: pump_recv_def)
qed

lemma pump_send_measure:
  assumes "finite_traffic br sk \<mu>" and "pump_send br sk (c, os, rg) = Inr ((c', os', rg'), p)"
  shows "\<mu> (conn_eng c') os' \<le> \<mu> (conn_eng c) os \<and> (p \<longrightarrow> \<mu> (conn_eng c') os' < \<mu> (conn_eng c) os)"
proof (cases "br_sendrec br (conn_eng c)")
  case True
  with assms(1) have "case sk_write sk (conn_fd c) (br_sendrec_buf br (conn_eng c)) os of
      (WSent k, os') \<Rightarrow> if 0 < k then \<mu> (br_sendrec_ack br (conn_eng c) k) os' < \<mu> (conn_eng c) os
                        else \<mu> (conn_eng c) os' \<le> \<mu> (conn_eng c) os
    | (_, os') \<Rightarrow> \<mu> (conn_eng c) os' \<le> \<mu> (conn_eng c) os"
    by (simp only: finite_traffic_def)
  then show ?thesis using assms(2) True
    by (auto simp: pump_send_def split: prod.splits write_result.splits if_splits)
next
  case False
  then show ?thesis using assms(2) by (auto simp: pump_send_def)
qed

lemma pump_app_measure:
  assumes "finite_traffic br sk \<mu>" and "pump_app br (c, os, rg) = ((c', os', rg'), p)"
  shows "\<mu> (conn_eng c') os' \<le> \<mu> (conn_eng c) os \<and> (p \<longrightarrow> \<mu> (conn_eng c') os' < \<mu> (conn_eng c) os)"
proof -
  have "br_recvapp br (conn_eng c) \<Longrightarrow>
      \<mu> (br_recvapp_ack br (conn_eng c) (length (br_recvapp_buf br (conn_eng c)))) os < \<mu> (conn_eng c) os"
    using assms(1) by (simp add: finite_traffic_def)
  then show ?thesis using assms(2) by (auto simp: pump_app_def Let_def split: if_splits)
qed

lemma pump_iter_measure:
  assumes "finite_traffic br sk \<mu>" and "pump_iter br sk (c, os, rg) = Inr ((c', os', rg'), True)"
  shows "\<mu> (conn_eng c') os' < \<mu> (conn_eng c) os"
  using assms(2)
proof (rule pump_iter_split)
  fix c1 os1 rg1 p1 c2 os2 rg2 p2 p3
  assume st: "pump_recv br sk (c, os, rg) = Inr ((c1, os1, rg1), p1)"
    "pump_send br sk (c1, os1, rg1) = Inr ((c2, os2, rg2), p2)"
    "pump_app br (c2, os2, rg2) = ((c', os', rg'), p3)" "True = (p1 \<or> p2 \<or> p3)"
  show ?thesis
    using pump_recv_measure [OF assms(1) st(1)] pump_send_measure [OF assms(1) st(2)]
      pump_app_measure [OF assms(1) st(3)] st(4) by auto
qed

lemma pump_loop_total:
  assumes "finite_traffic br sk \<mu>"
  shows "\<exists>res. pump_loop br sk fl = Some res"
proof (induction "case fl of (c, os, rg) \<Rightarrow> \<mu> (conn_eng c) os" arbitrary: fl rule: less_induct)
  case less
  obtain c os rg where fl: "fl = (c, os, rg)" by (cases fl)
  show ?case
  proof (cases "pump_iter br sk fl")
    case (Inl x)
    then have "pump_loop br sk fl = Some x" by (subst pump_loop.simps) simp
    then show ?thesis by blast
  next
    case (Inr y)
    obtain c1 os1 rg1 p where y: "y = ((c1, os1, rg1), p)" by (metis surj_pair)
    show ?thesis
    proof (cases p)
      case True
      then have "\<mu> (conn_eng c1) os1 < \<mu> (conn_eng c) os"
        using pump_iter_measure [OF assms] Inr fl y by simp
      then obtain res where "pump_loop br sk (c1, os1, rg1) = Some res"
        using less [of "(c1, os1, rg1)"] fl by auto
      then have "pump_loop br sk fl = Some res" using Inr y True by (subst pump_loop.simps) simp
      then show ?thesis by blast
    next
      case False
      then show ?thesis using Inr y by (subst pump_loop.simps) simp
    qed
  qed
qed


subsection \<open>The cleartext stream\<close>

text \<open>What BearSSL documents of cleartext: the engine decrypts one byte stream (\<open>plain\<close>), of
  which \<open>consumed\<close> bytes have been acknowledged; records received extend it, and the
  application buffer shows the next bytes.\<close>

definition br_stream :: "'e br_api \<Rightarrow> ('e \<Rightarrow> bytes) \<Rightarrow> ('e \<Rightarrow> nat) \<Rightarrow> bool" where
  "br_stream br plain consumed \<longleftrightarrow>
     (\<forall>e. consumed e \<le> length (plain e))
   \<and> (\<forall>e bs. (\<exists>new. plain (br_recvrec_ack br e bs) = plain e @ new) \<and> consumed (br_recvrec_ack br e bs) = consumed e)
   \<and> (\<forall>e. plain (br_close br e) = plain e \<and> consumed (br_close br e) = consumed e)
   \<and> (\<forall>e k. plain (br_sendrec_ack br e k) = plain e \<and> consumed (br_sendrec_ack br e k) = consumed e)
   \<and> (\<forall>e. br_recvapp br e \<longrightarrow> length (br_recvapp_buf br e) < 2 ^ 32
        \<and> br_recvapp_buf br e = take (length (br_recvapp_buf br e)) (drop (consumed e) (plain e))
        \<and> plain (br_recvapp_ack br e (length (br_recvapp_buf br e))) = plain e
        \<and> consumed (br_recvapp_ack br e (length (br_recvapp_buf br e))) = consumed e + length (br_recvapp_buf br e))"

text \<open>Between two engine states the chunks \<open>bss\<close> were delivered.\<close>

definition delivered :: "('e \<Rightarrow> bytes) \<Rightarrow> ('e \<Rightarrow> nat) \<Rightarrow> 'e \<Rightarrow> 'e \<Rightarrow> bytes list \<Rightarrow> bool" where
  "delivered plain consumed e e' bss \<longleftrightarrow> (\<exists>new. plain e' = plain e @ new)
     \<and> consumed e' = consumed e + length (concat bss)
     \<and> take (consumed e') (plain e') = take (consumed e) (plain e) @ concat bss"

lemma delivered_trans:
  "delivered pl co e e1 bss \<Longrightarrow> delivered pl co e1 e2 bss' \<Longrightarrow> delivered pl co e e2 (bss @ bss')"
  by (auto simp: delivered_def)

lemma delivered_nothing:
  assumes "co e \<le> length (pl e)" and "pl e' = pl e @ new" and "co e' = co e"
  shows "delivered pl co e e' []"
  using assms by (auto simp: delivered_def)

lemma delivered_chunk:
  assumes st: "br_stream br pl co" and app: "br_recvapp br e"
  shows "delivered pl co e (br_recvapp_ack br e (length (br_recvapp_buf br e))) [br_recvapp_buf br e]"
proof -
  let ?b = "br_recvapp_buf br e"
  have b: "?b = take (length ?b) (drop (co e) (pl e))"
    and p: "pl (br_recvapp_ack br e (length ?b)) = pl e"
    and c: "co (br_recvapp_ack br e (length ?b)) = co e + length ?b"
    using st app unfolding br_stream_def by blast+
  have "take (co e + length ?b) (pl e) = take (co e) (pl e) @ take (length ?b) (drop (co e) (pl e))"
    by (rule take_add)
  then show ?thesis using b p c by (simp add: delivered_def)
qed


lemma pump_iter_stream:
  assumes st: "br_stream br pl co" and it: "pump_iter br sk (c, os, rg) = Inr ((c', os', rg'), p)"
  shows "\<exists>bss. rg' = rg @ map (Pair (tab_multiplex_id c)) bss \<and> tab_multiplex_id c' = tab_multiplex_id c
    \<and> delivered pl co (conn_eng c) (conn_eng c') bss"
  using it
proof (rule pump_iter_split)
  fix c1 os1 rg1 p1 c2 os2 rg2 p2 p3
  assume r: "pump_recv br sk (c, os, rg) = Inr ((c1, os1, rg1), p1)"
    and s: "pump_send br sk (c1, os1, rg1) = Inr ((c2, os2, rg2), p2)"
    and a: "pump_app br (c2, os2, rg2) = ((c', os', rg'), p3)"
  have le: "co e \<le> length (pl e)" for e using st by (simp add: br_stream_def)
  have d1: "delivered pl co (conn_eng c) (conn_eng c1) []"
  proof -
    have "\<exists>new. pl (conn_eng c1) = pl (conn_eng c) @ new" and "co (conn_eng c1) = co (conn_eng c)"
      using pump_recv_Inr [OF r] st unfolding br_stream_def by (metis append_Nil2)+
    then show ?thesis using delivered_nothing [of co "conn_eng c" pl "conn_eng c1"] le by blast
  qed
  have d2: "delivered pl co (conn_eng c1) (conn_eng c2) []"
    using pump_send_Inr [OF s] st le by (intro delivered_nothing [where new = "[]"]) (auto simp: br_stream_def)
  have id: "tab_multiplex_id c2 = tab_multiplex_id c" "rg2 = rg"
    using pump_recv_Inr [OF r] pump_send_Inr [OF s]
    by (metis NetDTLSConnection.ext_inject NetDTLSConnection.surjective NetDTLSConnection.update_convs(4))
      (use pump_recv_Inr [OF r] pump_send_Inr [OF s] in blast)
  have d: "delivered pl co (conn_eng c) (conn_eng c2) []" using delivered_trans [OF d1 d2] by simp
  show ?thesis
  proof (cases "br_recvapp br (conn_eng c2)")
    case True
    let ?b = "br_recvapp_buf br (conn_eng c2)"
    have "length ?b < 2 ^ 32" using st True by (simp add: br_stream_def)
    then have "rg' = rg @ [(tab_multiplex_id c, ?b)]"
      and c': "conn_eng c' = br_recvapp_ack br (conn_eng c2) (length ?b)" "tab_multiplex_id c' = tab_multiplex_id c"
      using a True id by (auto simp: pump_app_def Let_def)
    then have "rg' = rg @ map (Pair (tab_multiplex_id c)) [?b]" by simp
    moreover have "delivered pl co (conn_eng c) (conn_eng c') [?b]"
      using delivered_trans [OF d delivered_chunk [OF st True]] c'(1) by simp
    ultimately show ?thesis using c'(2) by blast
  next
    case False
    then show ?thesis using a id d by (auto simp: pump_app_def intro: exI [of _ "[]"])
  qed
qed

lemma pump_iter_Inl_engine:
  assumes "br_stream br pl co" and "pump_iter br sk (c, os, rg) = Inl (r, c', os', rg')"
  shows "delivered pl co (conn_eng c) (conn_eng c') []"
proof -
  have le: "co e \<le> length (pl e)" for e using assms(1) by (simp add: br_stream_def)
  have same: "delivered pl co e e []" for e using le delivered_nothing [of co e pl e "[]"] by simp
  have recv: "delivered pl co (conn_eng c) (conn_eng c1) []"
    if "pump_recv br sk (c, os, rg) = Inr ((c1, os1, rg1), p1)" for c1 os1 rg1 p1
  proof -
    have "\<exists>new. pl (conn_eng c1) = pl (conn_eng c) @ new" and "co (conn_eng c1) = co (conn_eng c)"
      using pump_recv_Inr [OF that] assms(1) unfolding br_stream_def by (metis append_Nil2)+
    then show ?thesis using delivered_nothing [of co "conn_eng c" pl "conn_eng c1"] le by blast
  qed
  show ?thesis
    using assms(2) same recv
    by (auto simp: pump_iter_def split: if_splits sum.splits prod.splits
        dest!: pump_recv_Inl pump_send_Inl)
qed

lemma pump_loop_stream:
  assumes "br_stream br pl co" and "pump_loop br sk (c, os, rg) = Some (r, c', os', rg')"
  shows "\<exists>bss. rg' = rg @ map (Pair (tab_multiplex_id c)) bss \<and> delivered pl co (conn_eng c) (conn_eng c') bss"
proof -
  have "br_stream b pl co \<longrightarrow> (case fl of (c, os, rg) \<Rightarrow> case res of (r, c', os', rg') \<Rightarrow>
      \<exists>bss. rg' = rg @ map (Pair (tab_multiplex_id c)) bss \<and> delivered pl co (conn_eng c) (conn_eng c') bss)"
    if "pump_loop b s fl = Some res" for b :: "'a br_api" and s :: "'b sock_api" and fl res
    using that
  proof (induction rule: pump_loop.raw_induct [rotated, consumes 1])
    case (1 loop b s fl res)
    obtain c os rg where fl: "fl = (c, os, rg)" by (cases fl)
    obtain r c' os' rg' where res: "res = (r, c', os', rg')" by (cases res)
    show ?case
    proof
      assume st: "br_stream b pl co"
      show "case fl of (c, os, rg) \<Rightarrow> case res of (r, c', os', rg') \<Rightarrow>
        \<exists>bss. rg' = rg @ map (Pair (tab_multiplex_id c)) bss \<and> delivered pl co (conn_eng c) (conn_eng c') bss"
      proof (cases "pump_iter b s fl")
        case (Inl x)
        then have it: "pump_iter b s (c, os, rg) = Inl (r, c', os', rg')" using 1(2) by (simp add: fl res)
        from pump_iter_Inl [OF it] pump_iter_Inl_engine [OF st it] show ?thesis by (auto simp: fl res)
      next
        case (Inr y)
        obtain c1 os1 rg1 p where y: "y = ((c1, os1, rg1), p)" by (metis surj_pair)
        obtain b1 where b1: "rg1 = rg @ map (Pair (tab_multiplex_id c)) b1"
          "tab_multiplex_id c1 = tab_multiplex_id c" "delivered pl co (conn_eng c) (conn_eng c1) b1"
          using pump_iter_stream [OF st] Inr y fl by metis
        show ?thesis
        proof (cases p)
          case True
          then have "loop b s (c1, os1, rg1) = Some res" using 1(2) Inr y by simp
          from 1(1) [OF this] st obtain b2 where "rg' = rg1 @ map (Pair (tab_multiplex_id c1)) b2"
            "delivered pl co (conn_eng c1) (conn_eng c') b2" by (auto simp: res)
          then show ?thesis using b1 delivered_trans [OF b1(3)]
            by (simp add: fl res) (metis append.assoc map_append)
        next
          case False
          then show ?thesis using 1(2) Inr y b1 by (auto simp: fl res)
        qed
      qed
    qed
  qed
  from this [OF assms(2)] assms(1) show ?thesis by simp
qed

text \<open>C9: No cleartext is lost, repeated or reordered: what one call of the pump pushes to the
  ring for a connection, concatenated, is exactly the part of the engine's decrypted stream
  between the bytes consumed before the call and those consumed after it.\<close>

theorem netd_tls_pump_stream:
  assumes "br_stream br plain consumed" and "netd_tls_pump br sk slot n = Some (r, n')"
  shows "\<exists>c c' bss. iget (global_tls_connections n) slot = Some c
    \<and> iget (global_tls_connections n') slot = Some c'
    \<and> net_ring n' = net_ring n @ map (Pair (tab_multiplex_id c)) bss
    \<and> consumed (conn_eng c') = consumed (conn_eng c) + length (concat bss)
    \<and> concat bss = take (length (concat bss)) (drop (consumed (conn_eng c)) (plain (conn_eng c')))"
proof -
  obtain c c' os rg where run: "iget (global_tls_connections n) slot = Some c"
    "pump_loop br sk (c, net_os n, net_ring n) = Some (r, c', os, rg)"
    "n' = n\<lparr>global_tls_connections := (global_tls_connections n)[nat slot := c'], net_os := os, net_ring := rg\<rparr>"
    using assms(2) by (auto simp: netd_tls_pump_def bind_Some_iff iset_Some_iff split: prod.splits)
  obtain bss where b: "rg = net_ring n @ map (Pair (tab_multiplex_id c)) bss"
    "delivered plain consumed (conn_eng c) (conn_eng c') bss"
    using pump_loop_stream [OF assms(1) run(2)] by blast
  let ?k = "consumed (conn_eng c)" and ?p = "plain (conn_eng c')"
  have "take (?k + length (concat bss)) ?p = take ?k (plain (conn_eng c)) @ concat bss"
    and ext: "\<exists>new. ?p = plain (conn_eng c) @ new"
    using b(2) by (auto simp: delivered_def)
  moreover have "?k \<le> length (plain (conn_eng c))" using assms(1) by (simp add: br_stream_def)
  moreover have "take ?k ?p = take ?k (plain (conn_eng c))" using ext calculation(3) by auto
  ultimately have "take (length (concat bss)) (drop ?k ?p) = concat bss" by (simp add: take_add)
  moreover have "iget (global_tls_connections n') slot = Some c'"
    using run(1,3) by (auto simp: iget_Some_iff)
  moreover have "consumed (conn_eng c') = ?k + length (concat bss)" using b(2) by (simp add: delivered_def)
  ultimately show ?thesis using run b(1) by (intro exI [of _ c] exI [of _ c'] exI [of _ bss]) simp
qed


subsection \<open>An engine that satisfies the hypotheses\<close>

text \<open>A null cipher over a socket that has \<open>'s\<close> bytes to deliver, one per read: records are
  cleartext, the engine's state is the stream consumed and the stream still to show.\<close>

definition null_br :: "(bytes \<times> bytes) br_api" where
  "null_br = \<lparr>br_closed = \<lambda>e. False, br_error_ok = \<lambda>e. True, br_recvrec = \<lambda>e. True,
     br_sendrec = \<lambda>e. False, br_recvapp = \<lambda>e. snd e \<noteq> [], br_sendapp = \<lambda>e. True,
     br_recvrec_len = \<lambda>e. 1, br_recvrec_ack = \<lambda>e bs. (fst e, snd e @ take 1 bs),
     br_close = \<lambda>e. e, br_sendrec_buf = \<lambda>e. [], br_sendrec_ack = \<lambda>e k. e,
     br_recvapp_buf = \<lambda>e. take 1 (snd e), br_recvapp_ack = \<lambda>e k. (fst e @ take k (snd e), drop k (snd e)),
     br_sendapp_len = \<lambda>e. 2, br_sendapp_ack = \<lambda>e bs. e, br_flush = \<lambda>e. e, br_x509_init = \<lambda>e. e,
     br_x509_set_rsa = \<lambda>e. e, br_x509_set_ecdsa = \<lambda>e. e, br_client_init_full = \<lambda>e. e,
     br_set_buffer = \<lambda>e. e, br_client_reset = \<lambda>e h. e\<rparr>"

definition null_sk :: "bytes sock_api" where
  "null_sk = \<lparr>sk_read = \<lambda>fd k os. (case os of [] \<Rightarrow> (RAgain, []) | b # bs \<Rightarrow> (RData [b], bs)),
     sk_write = \<lambda>fd bs os. (WAgain, os)\<rparr>"

lemma null_stream: "br_stream null_br (\<lambda>e. fst e @ snd e) (\<lambda>e. length (fst e))"
  by (auto simp: br_stream_def null_br_def min_def)

lemma null_finite: "finite_traffic null_br null_sk (\<lambda>e os. 2 * length os + length (snd e))"
  by (auto simp: finite_traffic_def null_br_def null_sk_def split: list.splits)

definition null_conn :: "(bytes \<times> bytes) NetDTLSConnection" where
  "null_conn = \<lparr>conn_fd = 3, tab_multiplex_id = 7, conn_state = TLS_CONN_HANDSHAKING, conn_eng = ([], [])\<rparr>"

definition null_net :: "(bytes \<times> bytes, bytes) netd" where
  "null_net = \<lparr>global_tls_connections = [null_conn], net_os = [1, 2], net_closed = [], net_ring = []\<rparr>"

lemmas null_defs = null_br_def null_sk_def null_conn_def null_net_def

definition null_net' :: "(bytes \<times> bytes, bytes) netd" where
  "null_net' = \<lparr>global_tls_connections = [null_conn\<lparr>conn_state := TLS_CONN_ESTABLISHED, conn_eng := ([1, 2], [])\<rparr>],
     net_os = [], net_closed = [], net_ring = [(7, [1]), (7, [2])]\<rparr>"

lemma null_pump: "netd_tls_pump null_br null_sk 0 null_net = Some (0, null_net')"
  by (simp add: netd_tls_pump_def null_net_def null_net'_def null_conn_def)
    (simp add: pump_loop.simps pump_iter_def pump_recv_def pump_send_def pump_app_def Let_def eng_upd_def
      null_br_def null_sk_def)

theorem netd_tls_pump_contract_witness:
  "\<exists>c c' bss. iget (global_tls_connections null_net) 0 = Some c
    \<and> global_tls_connections null_net' = (global_tls_connections null_net)[nat 0 := c']
    \<and> conn_fd c' = conn_fd c \<and> tab_multiplex_id c' = tab_multiplex_id c
    \<and> net_ring null_net' = net_ring null_net @ map (Pair (tab_multiplex_id c)) bss
    \<and> net_closed null_net' = net_closed null_net
    \<and> pump_post (conn_state c) 0 bss (conn_state c')"
  by (rule netd_tls_pump_contract [OF null_pump])


theorem netd_tls_pump_stream_witness:
  "\<exists>c c' bss. iget (global_tls_connections null_net) 0 = Some c
    \<and> iget (global_tls_connections null_net') 0 = Some c'
    \<and> net_ring null_net' = net_ring null_net @ map (Pair (tab_multiplex_id c)) bss
    \<and> length (fst (conn_eng c')) = length (fst (conn_eng c)) + length (concat bss)
    \<and> concat bss = take (length (concat bss))
        (drop (length (fst (conn_eng c))) (fst (conn_eng c') @ snd (conn_eng c')))"
  by (rule netd_tls_pump_stream [OF null_stream null_pump])

subsection \<open>Sending\<close>

text \<open>A send accepts the bytes that fit the engine's buffer and returns their number, 0
  when the engine takes no application data; the result is never negative, so an error of the
  pump it runs is visible only in the state of the connection.\<close>

theorem netd_tls_send_result:
  assumes "netd_tls_send br sk slot data n = Some (r, n')" and "length data < 2 ^ 31"
  shows "\<exists>c. iget (global_tls_connections n) slot = Some c
    \<and> r = (if br_sendapp br (conn_eng c) then int (min (length data) (br_sendapp_len br (conn_eng c))) else 0)
    \<and> (r > 0 \<longrightarrow> (\<exists>p. netd_tls_pump br sk slot (n\<lparr>global_tls_connections := (global_tls_connections n)
          [nat slot := eng_upd (\<lambda>e. br_flush br (br_sendapp_ack br e (take (nat r) data))) c]\<rparr>) = Some (p, n')))"
proof -
  obtain c where c: "iget (global_tls_connections n) slot = Some c"
    using assms(1) by (auto simp: netd_tls_send_def bind_Some_iff)
  let ?a = "br_sendapp_len br (conn_eng c)"
  let ?k = "min (length data) ?a"
  have k: "(if length data < ?a then length data else ?a) = ?k" by (simp add: min_def)
  have small: "?k < 2 ^ 31" using assms(2) by simp
  have "int (unat (word_of_nat ?k :: u32)) = int ?k" using small by (simp add: unat_u32_of_nat)
  moreover have "sint (word_of_nat ?k :: u32) = int (unat (word_of_nat ?k :: u32))"
  proof -
    have u: "unat (word_of_nat ?k :: u32) = ?k" using small by (simp add: unat_u32_of_nat)
    have "sint (word_of_nat ?k :: u32) = signed_take_bit 31 (int ?k)" by (simp add: signed_of_nat)
    also have "\<dots> = int ?k" using small by (intro signed_take_bit_int_eq_self) auto
    finally show ?thesis using u by simp
  qed
  ultimately have s: "sint (word_of_nat ?k :: u32) = int ?k" by simp
  show ?thesis
  proof (cases "br_sendapp br (conn_eng c) \<and> ?a \<noteq> 0")
    case True
    then obtain p where "netd_tls_pump br sk slot (n\<lparr>global_tls_connections := (global_tls_connections n)
          [nat slot := eng_upd (\<lambda>e. br_flush br (br_sendapp_ack br e (take ?k data))) c]\<rparr>) = Some (p, n')"
      and "r = int ?k"
      using assms(1) c s by (auto simp: netd_tls_send_def k Let_def bind_Some_iff iset_Some_iff split: prod.splits)
    then show ?thesis using c True by (intro exI [of _ c]) auto
  next
    case False
    then show ?thesis using assms(1) c by (intro exI [of _ c]) (auto simp: netd_tls_send_def Let_def split: if_splits)
  qed
qed

theorem netd_tls_send_result_witness:
  "\<exists>n'. netd_tls_send null_br null_sk 0 [9, 9, 9] null_net = Some (2, n')
    \<and> (\<exists>c. iget (global_tls_connections null_net) 0 = Some c
    \<and> 2 = (if br_sendapp null_br (conn_eng c) then int (min (length [9, 9, 9 :: byte]) (br_sendapp_len null_br (conn_eng c))) else 0))"
proof -
  have same: "eng_upd (\<lambda>e. br_flush null_br (br_sendapp_ack null_br e (take 2 [9, 9, 9]))) null_conn = null_conn"
    by (simp add: eng_upd_def null_br_def null_conn_def)
  have "netd_tls_send null_br null_sk 0 [9, 9, 9] null_net = Some (2, null_net')"
    using null_pump same
    by (simp add: netd_tls_send_def null_net_def iget_def iset_def null_br_def [THEN arg_cong, of br_sendapp]
        null_br_def [THEN arg_cong, of br_sendapp_len])
  with netd_tls_send_result [OF this] show ?thesis by fastforce
qed

end
