(* ===== verification/Tls_Pool.thy ===== *)
theory Tls_Pool
  imports Tls_Bridge
begin

text \<open>
  The slot pool of the TLS bridge as a state machine: the calls of
  src/user/netd/tls_bridge.c as steps on the daemon's state together with the set of slots the
  callers hold (acquired and not yet released). Connections are initialised, pumped and sent on
  only by their holder; a release may name any slot.
\<close>

inductive tls_reach :: "'e br_api \<Rightarrow> 's sock_api \<Rightarrow> ('e, 's) netd \<Rightarrow> nat set \<Rightarrow> bool" for br sk where
  boot: "tls_reach br sk (netd_boot e s) {}"
| acquire: "tls_reach br sk n H \<Longrightarrow> netd_tls_acquire_slot n = Some (r, n') \<Longrightarrow>
    tls_reach br sk n' (if r < 0 then H else insert (nat r) H)"
| init: "tls_reach br sk n H \<Longrightarrow> i \<in> H \<Longrightarrow> netd_tls_init_connection br (int i) fd host mid n = Some n' \<Longrightarrow>
    tls_reach br sk n' H"
| pump: "tls_reach br sk n H \<Longrightarrow> i \<in> H \<Longrightarrow> netd_tls_pump br sk (int i) n = Some (r, n') \<Longrightarrow>
    tls_reach br sk n' H"
| send: "tls_reach br sk n H \<Longrightarrow> i \<in> H \<Longrightarrow> netd_tls_send br sk (int i) data n = Some (r, n') \<Longrightarrow>
    tls_reach br sk n' H"
| release: "tls_reach br sk n H \<Longrightarrow> netd_tls_release_slot slot n = Some n' \<Longrightarrow>
    tls_reach br sk n' (if 0 \<le> slot then H - {nat slot} else H)"

definition pool_inv :: "('e, 's) netd \<Rightarrow> nat set \<Rightarrow> bool" where
  "pool_inv n H \<longleftrightarrow> length (global_tls_connections n) = MAX_CONCURRENT_TLS_SOCKETS
     \<and> H = {i. i < MAX_CONCURRENT_TLS_SOCKETS \<and> conn_state (global_tls_connections n ! i) \<noteq> TLS_CONN_IDLE}"

subsection \<open>Acquiring\<close>

lemma acquire_loop_spec:
  assumes "\<forall>i \<in> set is. i < length (global_tls_connections n)"
  shows "case find (\<lambda>i. conn_state (global_tls_connections n ! i) = TLS_CONN_IDLE) is of
      None \<Rightarrow> acquire_loop is n = Some (- 1, n)
    | Some i \<Rightarrow> acquire_loop is n = Some (int i, n\<lparr>global_tls_connections := (global_tls_connections n)
        [i := (global_tls_connections n ! i)\<lparr>conn_state := TLS_CONN_HANDSHAKING, conn_fd := - 1\<rparr>]\<rparr>)"
  using assms by (induction "is") (auto split: option.splits)

lemma acquire_cases:
  assumes "pool_inv n H"
  shows "(H = {0..<MAX_CONCURRENT_TLS_SOCKETS} \<and> netd_tls_acquire_slot n = Some (- 1, n)) \<or>
    (\<exists>i n'. i < MAX_CONCURRENT_TLS_SOCKETS \<and> i \<notin> H \<and> (\<forall>j < i. j \<in> H)
      \<and> netd_tls_acquire_slot n = Some (int i, n') \<and> pool_inv n' (insert i H)
      \<and> conn_fd (global_tls_connections n' ! i) = - 1
      \<and> (\<forall>j. j \<noteq> i \<longrightarrow> global_tls_connections n' ! j = global_tls_connections n ! j))"
proof -
  let ?M = MAX_CONCURRENT_TLS_SOCKETS
  let ?P = "\<lambda>i. conn_state (global_tls_connections n ! i) = TLS_CONN_IDLE"
  have len: "length (global_tls_connections n) = ?M" and H: "H = {i. i < ?M \<and> \<not> ?P i}"
    using assms by (auto simp: pool_inv_def)
  have spec: "case find ?P [0..<?M] of None \<Rightarrow> netd_tls_acquire_slot n = Some (- 1, n)
    | Some i \<Rightarrow> netd_tls_acquire_slot n = Some (int i, n\<lparr>global_tls_connections := (global_tls_connections n)
        [i := (global_tls_connections n ! i)\<lparr>conn_state := TLS_CONN_HANDSHAKING, conn_fd := - 1\<rparr>]\<rparr>)"
    unfolding netd_tls_acquire_slot_def using len by (intro acquire_loop_spec) auto
  show ?thesis
  proof (cases "find ?P [0..<?M]")
    case None
    then have "\<forall>i < ?M. \<not> ?P i" by (auto simp: find_None_iff)
    then have "H = {0..<?M}" using H by auto
    with spec None show ?thesis by simp
  next
    case (Some i)
    from this obtain k where k: "k < ?M" "?P k" "i = k" "\<forall>j < k. \<not> ?P j"
      by (auto simp: find_Some_iff)
    let ?n = "n\<lparr>global_tls_connections := (global_tls_connections n)
        [i := (global_tls_connections n ! i)\<lparr>conn_state := TLS_CONN_HANDSHAKING, conn_fd := - 1\<rparr>]\<rparr>"
    have acq: "netd_tls_acquire_slot n = Some (int i, ?n)" using spec Some by simp
    have "pool_inv ?n (insert i H)" using k len H by (auto simp: pool_inv_def nth_list_update)
    moreover have "i \<notin> H" "\<forall>j < i. j \<in> H" using k H by auto
    ultimately show ?thesis using k acq len by (intro disjI2 exI [of _ i] exI [of _ ?n]) auto
  qed
qed

subsection \<open>The other calls keep the pool invariant\<close>

lemma pump_post_not_idle: "pump_post st r bss st' \<Longrightarrow> st \<noteq> TLS_CONN_IDLE \<Longrightarrow> st' \<noteq> TLS_CONN_IDLE"
  by (auto simp: pump_post.simps split: if_splits)

lemma pool_inv_update:
  assumes "pool_inv n H" and "i \<in> H" and "conn_state c \<noteq> TLS_CONN_IDLE"
    and "global_tls_connections n' = (global_tls_connections n)[i := c]"
  shows "pool_inv n' H"
  using assms by (auto simp: pool_inv_def nth_list_update)

lemma pump_pool_inv:
  assumes "pool_inv n H" and "i \<in> H" and run: "netd_tls_pump br sk (int i) n = Some (r, n')"
  shows "pool_inv n' H"
proof -
  obtain c c' os rg where st: "iget (global_tls_connections n) (int i) = Some c"
    "pump_loop br sk (c, net_os n, net_ring n) = Some (r, c', os, rg)"
    "n' = n\<lparr>global_tls_connections := (global_tls_connections n)[i := c'], net_os := os, net_ring := rg\<rparr>"
    using run by (auto simp: netd_tls_pump_def bind_Some_iff iset_Some_iff split: prod.splits)
  have "conn_state c \<noteq> TLS_CONN_IDLE" using assms(1,2) st(1) by (auto simp: pool_inv_def iget_Some_iff)
  then have "conn_state c' \<noteq> TLS_CONN_IDLE" using pump_loop_post [OF st(2)] pump_post_not_idle by blast
  then show ?thesis by (rule pool_inv_update [OF assms(1,2)]) (simp add: st(3))
qed

lemma send_pool_inv:
  assumes "pool_inv n H" and "i \<in> H" and run: "netd_tls_send br sk (int i) data n = Some (r, n')"
  shows "pool_inv n' H"
proof -
  obtain c where c: "iget (global_tls_connections n) (int i) = Some c"
    using run by (auto simp: netd_tls_send_def bind_Some_iff)
  have idle: "conn_state c \<noteq> TLS_CONN_IDLE" using assms(1,2) c by (auto simp: pool_inv_def iget_Some_iff)
  have "n' = n \<or> (\<exists>f r'. netd_tls_pump br sk (int i)
      (n\<lparr>global_tls_connections := (global_tls_connections n)[i := eng_upd f c]\<rparr>) = Some (r', n'))"
    using run c by (auto simp: netd_tls_send_def Let_def bind_Some_iff iset_Some_iff split: if_splits prod.splits)
  then show ?thesis
  proof
    assume "\<exists>f r'. netd_tls_pump br sk (int i)
      (n\<lparr>global_tls_connections := (global_tls_connections n)[i := eng_upd f c]\<rparr>) = Some (r', n')"
    then obtain f r' where p: "netd_tls_pump br sk (int i)
      (n\<lparr>global_tls_connections := (global_tls_connections n)[i := eng_upd f c]\<rparr>) = Some (r', n')" by blast
    have "pool_inv (n\<lparr>global_tls_connections := (global_tls_connections n)[i := eng_upd f c]\<rparr>) H"
      by (rule pool_inv_update [OF assms(1,2), of "eng_upd f c"]) (simp_all add: idle)
    from pump_pool_inv [OF this assms(2) p] show ?thesis .
  qed (use assms(1) in simp)
qed

lemma release_pool_inv:
  assumes inv: "pool_inv n H" and run: "netd_tls_release_slot slot n = Some n'"
  shows "pool_inv n' (if 0 \<le> slot then H - {nat slot} else H)"
proof (cases "slot < 0 \<or> int MAX_CONCURRENT_TLS_SOCKETS \<le> slot")
  case True
  then have "n' = n" using run by (simp add: netd_tls_release_slot_def)
  moreover have "0 \<le> slot \<Longrightarrow> nat slot \<notin> H" using True inv by (auto simp: pool_inv_def)
  ultimately show ?thesis using inv by auto
next
  case False
  then show ?thesis using run inv
    by (auto simp: netd_tls_release_slot_def pool_inv_def bind_Some_iff iget_Some_iff iset_Some_iff
        Let_def nth_list_update split: if_splits)
qed

lemma reach_inv: "tls_reach br sk n H \<Longrightarrow> pool_inv n H"
proof (induction rule: tls_reach.induct)
  case (boot e s)
  then show ?case by (simp add: pool_inv_def netd_boot_def)
next
  case (acquire n H r n')
  from acquire_cases [OF acquire.IH] show ?case
  proof (elim disjE exE conjE)
    assume "netd_tls_acquire_slot n = Some (- 1, n)"
    then show ?thesis using acquire by simp
  next
    fix i m assume "netd_tls_acquire_slot n = Some (int i, m)" "pool_inv m (insert i H)"
    then show ?thesis using acquire(2) by simp
  qed
next
  case (init n H i fd host mid n')
  then show ?case
    by (auto simp: netd_tls_init_connection_def bind_Some_iff iset_Some_iff Let_def
        intro!: pool_inv_update [OF init.IH])
qed (blast intro: pump_pool_inv send_pool_inv release_pool_inv)+

text \<open>C20: In every reachable state the slots in use are exactly those held by callers; acquire
  hands out the lowest slot nobody holds, with no descriptor and without touching any other
  slot, and fails (-1) only when all 64 are held.\<close>

theorem tls_pool_exclusive:
  assumes "tls_reach br sk n H"
  shows "H = {i. i < MAX_CONCURRENT_TLS_SOCKETS \<and> conn_state (global_tls_connections n ! i) \<noteq> TLS_CONN_IDLE}
    \<and> ((H = {0..<MAX_CONCURRENT_TLS_SOCKETS} \<and> netd_tls_acquire_slot n = Some (- 1, n)) \<or>
       (\<exists>i n'. i < MAX_CONCURRENT_TLS_SOCKETS \<and> i \<notin> H \<and> (\<forall>j < i. j \<in> H)
         \<and> netd_tls_acquire_slot n = Some (int i, n')
         \<and> conn_fd (global_tls_connections n' ! i) = - 1
         \<and> (\<forall>j. j \<noteq> i \<longrightarrow> global_tls_connections n' ! j = global_tls_connections n ! j)))"
  using acquire_cases [OF reach_inv [OF assms]] reach_inv [OF assms] by (auto simp: pool_inv_def)

theorem tls_pool_exclusive_witness:
  "\<exists>i n'. i < MAX_CONCURRENT_TLS_SOCKETS \<and> i \<notin> {}
     \<and> netd_tls_acquire_slot (netd_boot ([], []) [] :: (bytes \<times> bytes, bytes) netd) = Some (int i, n')"
  using tls_pool_exclusive [OF tls_reach.boot [of null_br null_sk "([], [])" "[]"]]
  by (auto simp: MAX_CONCURRENT_TLS_SOCKETS_def)



end
