(* ===== verification/Sha1.thy ===== *)
theory Sha1
  imports Prelude
begin

text \<open>
  SHA-1 (src/vendor/crypto/sha1.c): the block transform and the incremental interface. The
  64-byte buffer of a context is partly unwritten until it fills; reading an unwritten byte is
  undefined. The specification is the one-shot definition of the standard: pad the message,
  cut it into blocks, fold the transform.
\<close>

subsection \<open>The transform\<close>

definition SHA1_K0 :: u32 where "SHA1_K0 = 0x5a827999"
definition SHA1_K20 :: u32 where "SHA1_K20 = 0x6ed9eba1"
definition SHA1_K40 :: u32 where "SHA1_K40 = 0x8f1bbcdc"
definition SHA1_K60 :: u32 where "SHA1_K60 = 0xca62c1d6"

definition shl :: "u32 \<Rightarrow> nat \<Rightarrow> u32" where "shl x k = push_bit k x"
definition shr :: "u32 \<Rightarrow> nat \<Rightarrow> u32" where "shr x k = drop_bit k x"

definition w_load :: "bytes \<Rightarrow> nat \<Rightarrow> u32" where
  "w_load buffer i =
     shl (ucast (buffer ! (i * 4))) 24 OR shl (ucast (buffer ! (i * 4 + 1))) 16
     OR shl (ucast (buffer ! (i * 4 + 2))) 8 OR ucast (buffer ! (i * 4 + 3))"

definition w_next :: "u32 list \<Rightarrow> u32" where
  "w_next w = (let i = length w; t = w ! (i - 3) XOR w ! (i - 8) XOR w ! (i - 14) XOR w ! (i - 16)
     in shl t 1 OR shr t 31)"

definition w_schedule :: "bytes \<Rightarrow> u32 list" where
  "w_schedule buffer = ((\<lambda>w. w @ [w_next w]) ^^ 64) (map (w_load buffer) [0..<16])"

type_synonym sha_vars = "u32 \<times> u32 \<times> u32 \<times> u32 \<times> u32"

definition sha_round :: "(u32 \<Rightarrow> u32 \<Rightarrow> u32 \<Rightarrow> u32) \<Rightarrow> u32 \<Rightarrow> u32 \<Rightarrow> sha_vars \<Rightarrow> sha_vars" where
  "sha_round f k wi v = (case v of (a, b, c, d, e) \<Rightarrow>
     let t = (shl a 5 OR shr a 27) + f b c d + e + wi + k
     in (t, a, shl b 30 OR shr b 2, c, d))"

definition f_ch :: "u32 \<Rightarrow> u32 \<Rightarrow> u32 \<Rightarrow> u32" where "f_ch b c d = (b AND c) OR (NOT b AND d)"
definition f_parity :: "u32 \<Rightarrow> u32 \<Rightarrow> u32 \<Rightarrow> u32" where "f_parity b c d = b XOR c XOR d"
definition f_maj :: "u32 \<Rightarrow> u32 \<Rightarrow> u32 \<Rightarrow> u32" where
  "f_maj b c d = (b AND c) OR (b AND d) OR (c AND d)"

definition SHA1Transform :: "sha_vars \<Rightarrow> bytes \<Rightarrow> sha_vars" where
  "SHA1Transform st buffer =
     (let w = w_schedule buffer;
          v = foldl (\<lambda>v i. sha_round f_ch SHA1_K0 (w ! i) v) st [0..<20];
          v = foldl (\<lambda>v i. sha_round f_parity SHA1_K20 (w ! i) v) v [20..<40];
          v = foldl (\<lambda>v i. sha_round f_maj SHA1_K40 (w ! i) v) v [40..<60];
          v = foldl (\<lambda>v i. sha_round f_parity SHA1_K60 (w ! i) v) v [60..<80]
      in case (st, v) of ((s0, s1, s2, s3, s4), (a, b, c, d, e)) \<Rightarrow>
           (s0 + a, s1 + b, s2 + c, s3 + d, s4 + e))"

subsection \<open>The incremental interface\<close>

record SHA1_CTX =
  sha_state :: sha_vars
  sha_count0 :: u32
  sha_count1 :: u32
  sha_buffer :: "byte option list"

definition sha_init_state :: sha_vars where
  "sha_init_state = (0x67452301, 0xefcdab89, 0x98badcfe, 0x10325476, 0xc3d2e1f0)"

definition SHA1Init :: "SHA1_CTX \<Rightarrow> SHA1_CTX" where
  "SHA1Init ctx = ctx\<lparr>sha_state := sha_init_state, sha_count0 := 0, sha_count1 := 0\<rparr>"

partial_function (option) update_loop ::
  "bytes \<Rightarrow> u32 \<Rightarrow> sha_vars \<Rightarrow> u32 \<Rightarrow> (sha_vars \<times> u32) option" where
  "update_loop data n st i =
     (if i + 63 < n then do {
        blk \<leftarrow> slice data (unat i) 64;
        update_loop data n (SHA1Transform st blk) (i + 64) }
      else Some (st, i))"

definition SHA1Update :: "SHA1_CTX \<Rightarrow> bytes \<Rightarrow> u32 \<Rightarrow> SHA1_CTX option" where
  "SHA1Update ctx data n =
     (let j = sha_count0 ctx;
          c0 = sha_count0 ctx + shl n 3;
          c1 = (if c0 < j then sha_count1 ctx + 1 else sha_count1 ctx) + shr n 29;
          j = shr j 3 AND 63
      in if 63 < j + n then do {
           let i = 64 - j;
           src \<leftarrow> slice data 0 (unat i);
           buf \<leftarrow> blit (sha_buffer ctx) (unat j) (map Some src);
           blk \<leftarrow> all_some buf;
           (st, i) \<leftarrow> update_loop data n (SHA1Transform (sha_state ctx) blk) i;
           src \<leftarrow> slice data (unat i) (unat (n - i));
           buf \<leftarrow> blit buf 0 (map Some src);
           Some (ctx\<lparr>sha_state := st, sha_count0 := c0, sha_count1 := c1, sha_buffer := buf\<rparr>) }
         else do {
           src \<leftarrow> slice data 0 (unat n);
           buf \<leftarrow> blit (sha_buffer ctx) (unat j) (map Some src);
           Some (ctx\<lparr>sha_count0 := c0, sha_count1 := c1, sha_buffer := buf\<rparr>) })"

definition be_bytes :: "u32 \<Rightarrow> bytes" where
  "be_bytes x = map (\<lambda>i. ucast (shr x ((3 - i) * 8) AND 255)) [0..<4]"

partial_function (option) pad_loop :: "SHA1_CTX \<Rightarrow> SHA1_CTX option" where
  "pad_loop ctx =
     (if sha_count0 ctx AND 504 \<noteq> 448 then do {
        ctx \<leftarrow> SHA1Update ctx [0] 1;
        pad_loop ctx }
      else Some ctx)"

definition sha_digest :: "sha_vars \<Rightarrow> bytes" where
  "sha_digest st = (case st of (s0, s1, s2, s3, s4) \<Rightarrow>
     be_bytes s0 @ be_bytes s1 @ be_bytes s2 @ be_bytes s3 @ be_bytes s4)"

definition SHA1Final :: "SHA1_CTX \<Rightarrow> bytes option" where
  "SHA1Final ctx = do {
     let finalcount = be_bytes (sha_count1 ctx) @ be_bytes (sha_count0 ctx);
     ctx \<leftarrow> SHA1Update ctx [0x80] 1;
     ctx \<leftarrow> pad_loop ctx;
     ctx \<leftarrow> SHA1Update ctx finalcount 8;
     Some (sha_digest (sha_state ctx)) }"

subsection \<open>The specification\<close>

function chunks :: "bytes \<Rightarrow> bytes list" where
  "chunks xs = (if length xs < 64 then [] else take 64 xs # chunks (drop 64 xs))"
  by pat_completeness auto
termination by (relation "measure length") auto

declare chunks.simps [simp del]

definition tail64 :: "bytes \<Rightarrow> bytes" where
  "tail64 xs = drop (64 * (length xs div 64)) xs"

definition sha_blocks :: "bytes \<Rightarrow> sha_vars" where
  "sha_blocks m = foldl SHA1Transform sha_init_state (chunks m)"

definition be64 :: "nat \<Rightarrow> bytes" where
  "be64 n = be_bytes (word_of_nat (n div 2 ^ 32)) @ be_bytes (word_of_nat n)"

definition sha_pad :: "bytes \<Rightarrow> bytes" where
  "sha_pad m = m @ [0x80] @ replicate ((119 - length m mod 64) mod 64) 0 @ be64 (8 * length m)"

definition sha1 :: "bytes \<Rightarrow> bytes" where
  "sha1 m = sha_digest (sha_blocks (sha_pad m))"


subsection \<open>Blocks of a message\<close>

lemma chunks_short: "length xs < 64 \<Longrightarrow> chunks xs = []"
  by (subst chunks.simps) simp

lemma chunks_long: "64 \<le> length xs \<Longrightarrow> chunks xs = take 64 xs # chunks (drop 64 xs)"
  by (subst chunks.simps) simp

lemma length_tail64: "length (tail64 xs) = length xs mod 64"
  by (simp add: tail64_def minus_mult_div_eq_mod)

lemma chunks_append:
  "length xs = 64 * k \<Longrightarrow> chunks (xs @ ys) = chunks xs @ chunks ys"
proof (induction k arbitrary: xs)
  case 0
  then show ?case by (simp add: chunks_short [of "[]"])
next
  case (Suc k)
  then have "64 \<le> length xs" and IH: "chunks (drop 64 xs @ ys) = chunks (drop 64 xs) @ chunks ys" by simp_all
  then show ?case by (simp add: chunks_long)
qed

lemma tail64_append:
  assumes "length xs = 64 * k"
  shows "tail64 (xs @ ys) = tail64 ys"
proof -
  have "(length xs + length ys) div 64 = k + length ys div 64" using assms by simp
  then show ?thesis using assms by (simp add: tail64_def)
qed

lemma tail64_drop: "64 \<le> length xs \<Longrightarrow> tail64 (drop 64 xs) = tail64 xs"
  using tail64_append [of "take 64 xs" 1 "drop 64 xs"] by simp

lemma tail64_short: "length xs < 64 \<Longrightarrow> tail64 xs = xs"
  by (simp add: tail64_def)

definition head64 :: "bytes \<Rightarrow> bytes" where
  "head64 m = take (64 * (length m div 64)) m"

lemma head_tail: "head64 m @ tail64 m = m"
  by (simp add: head64_def tail64_def)

lemma length_head64: "length (head64 m) = 64 * (length m div 64)"
  by (simp add: head64_def)

lemma chunks_head: "chunks m = chunks (head64 m)"
  using chunks_append [OF length_head64, of m "tail64 m"] chunks_short [of "tail64 m"]
  by (simp add: head_tail length_tail64)

lemma sha_blocks_append:
  "sha_blocks (m @ d) = foldl SHA1Transform (sha_blocks m) (chunks (tail64 m @ d))"
proof -
  have "m @ d = head64 m @ (tail64 m @ d)" using head_tail [of m] by (metis append.assoc)
  then have "chunks (m @ d) = chunks m @ chunks (tail64 m @ d)"
    using chunks_append [OF length_head64, of m "tail64 m @ d"] chunks_head [of m] by metis
  then show ?thesis by (simp add: sha_blocks_def)
qed

lemma tail64_snoc: "tail64 (m @ d) = tail64 (tail64 m @ d)"
  using tail64_append [OF length_head64, of m "tail64 m @ d"] head_tail [of m] by (metis append.assoc)

subsection \<open>Contexts\<close>

definition ctx_rep :: "SHA1_CTX \<Rightarrow> bytes \<Rightarrow> bool" where
  "ctx_rep ctx m \<longleftrightarrow> sha_state ctx = sha_blocks m \<and> length (sha_buffer ctx) = 64
     \<and> holds (sha_buffer ctx) (tail64 m)
     \<and> unat (sha_count0 ctx) = 8 * length m mod 2 ^ 32
     \<and> unat (sha_count1 ctx) = 8 * length m div 2 ^ 32 mod 2 ^ 32"

lemma ctx_rep_upd:
  "st = sha_blocks m \<Longrightarrow> length b = 64 \<Longrightarrow> holds b (tail64 m) \<Longrightarrow> unat c0 = 8 * length m mod 2 ^ 32 \<Longrightarrow>
     unat c1 = 8 * length m div 2 ^ 32 mod 2 ^ 32 \<Longrightarrow>
     ctx_rep (ctx\<lparr>sha_state := st, sha_count0 := c0, sha_count1 := c1, sha_buffer := b\<rparr>) m"
  by (simp add: ctx_rep_def)

lemma init_rep: "length (sha_buffer ctx) = 64 \<Longrightarrow> ctx_rep (SHA1Init ctx) []"
  by (simp add: ctx_rep_def SHA1Init_def sha_blocks_def chunks_short tail64_short)

lemma unat_shl: "unat (shl x k) = unat x * 2 ^ k mod 2 ^ 32"
proof -
  have "unat (push_bit k x) = take_bit 32 (push_bit k (unat x))"
    by (simp only: unsigned_push_bit_eq len_of_numeral_defs) simp
  then show ?thesis by (simp only: shl_def take_bit_eq_mod push_bit_eq_mult)
qed

lemma unat_shr: "unat (shr x k) = unat x div 2 ^ k"
proof -
  have "unat (drop_bit k x) = drop_bit k (take_bit 32 (unat x))"
    by (simp only: unsigned_drop_bit_eq) simp
  moreover have "take_bit 32 (unat x) = unat x" using unat_u32_less [of x] by (simp add: take_bit_nat_eq_self)
  ultimately show ?thesis by (simp only: shr_def drop_bit_eq_div)
qed

lemma update_loop_ok:
  assumes "length data = unat n" and "unat n + 63 < 2 ^ 32" and "unat i \<le> unat n"
  shows "\<exists>i'. update_loop data n st i = Some (foldl SHA1Transform st (chunks (drop (unat i) data)), i')
    \<and> unat i' \<le> unat n \<and> drop (unat i') data = tail64 (drop (unat i) data)"
  using assms(3)
proof (induction "unat n - unat i" arbitrary: i st rule: less_induct)
  case less
  have i63: "unat (i + 63) = unat i + 63" using assms(2) less.prems by (simp add: unat_word_ariths)
  show ?case
  proof (cases "i + 63 < n")
    case True
    then have lt: "unat i + 63 < unat n" by (simp add: word_less_nat_alt i63)
    then have i64: "unat (i + 64) = unat i + 64" using assms(2) by (simp add: unat_word_ariths)
    let ?st = "SHA1Transform st (take 64 (drop (unat i) data))"
    have "unat n - unat (i + 64) < unat n - unat i" and "unat (i + 64) \<le> unat n" using lt i64 by linarith+
    from less(1) [OF this, of ?st] i64 obtain i' where
      IH: "update_loop data n ?st (i + 64) = Some (foldl SHA1Transform ?st (chunks (drop (unat i + 64) data)), i')"
        "unat i' \<le> unat n" "drop (unat i') data = tail64 (drop (unat i + 64) data)" by auto
    have long: "64 \<le> length (drop (unat i) data)" using lt assms(1) by simp
    have d: "drop (unat i + 64) data = drop 64 (drop (unat i) data)" by (simp add: add.commute)
    have "update_loop data n st i = update_loop data n ?st (i + 64)"
      using True lt assms(1) by (subst update_loop.simps) simp
    then show ?thesis using IH chunks_long [OF long] tail64_drop [OF long] unfolding d by auto
  next
    case False
    then have "length (drop (unat i) data) < 64" using assms(1) i63 by (simp add: word_less_nat_alt)
    then show ?thesis
      using False less.prems by (subst update_loop.simps) (auto simp: chunks_short tail64_short)
  qed
qed


subsection \<open>The bit counter\<close>

lemma unat_and_63: "unat ((x :: u32) AND 63) = unat x mod 64"
proof -
  have "(63 :: u32) = mask 6" by (simp add: mask_eq_exp_minus_1)
  then have "x AND 63 = take_bit 6 x" by (simp only: take_bit_eq_mask)
  then show ?thesis by (simp add: take_bit_eq_mod unat_mod_distrib)
qed

lemma buffer_index:
  assumes "unat (c :: u32) = 8 * L mod 2 ^ 32"
  shows "unat (shr c 3 AND 63) = L mod 64"
proof -
  have "unat (shr c 3) = L mod 2 ^ 29"
    using assms mult_mod_right [of 8 L "2 ^ 29"] by (simp add: unat_shr)
  moreover have "L mod 2 ^ 29 mod 64 = L mod 64" by (rule mod_mod_cancel) simp
  ultimately show ?thesis by (simp add: unat_and_63)
qed

lemma count_low:
  assumes "unat (c :: u32) = 8 * L mod 2 ^ 32"
  shows "unat (c + shl n 3) = 8 * (L + unat n) mod 2 ^ 32"
proof -
  have "unat (c + shl n 3) = (8 * L mod 2 ^ 32 + unat n * 2 ^ 3 mod 2 ^ 32) mod 2 ^ 32"
    by (simp only: unat_word_ariths assms unat_shl len_of_numeral_defs) simp
  also have "\<dots> = (8 * L + unat n * 2 ^ 3) mod 2 ^ 32" by (simp only: mod_add_eq)
  finally show ?thesis by (simp add: algebra_simps)
qed

lemma carry_arith:
  fixes x y W :: nat
  assumes "0 < W"
  shows "(x + y) div W = x div W + y div W + (if (x mod W + y mod W) mod W < x mod W then 1 else 0)"
proof -
  have "x + y = (x div W + y div W) * W + (x mod W + y mod W)"
    using div_mult_mod_eq [of x W] div_mult_mod_eq [of y W] by (simp add: algebra_simps)
  then have d: "(x + y) div W = x div W + y div W + (x mod W + y mod W) div W" using assms by simp
  have b: "x mod W < W" "y mod W < W" using assms by auto
  show ?thesis
  proof (cases "x mod W + y mod W < W")
    case True
    then show ?thesis using d by simp
  next
    case False
    then obtain k where k: "x mod W + y mod W = W + k" using le_Suc_ex by fastforce
    then have "k < W" using b by linarith
    then have "(x mod W + y mod W) div W = 1" "(x mod W + y mod W) mod W = k"
      using k assms by (simp_all add: div_add_self1)
    moreover have "k < x mod W" using k b by linarith
    ultimately show ?thesis using d by simp
  qed
qed

lemma count_high:
  assumes "unat (c :: u32) = 8 * L mod 2 ^ 32" and "unat (h :: u32) = 8 * L div 2 ^ 32 mod 2 ^ 32"
  shows "unat ((if c + shl n 3 < c then h + 1 else h) + shr n 29)
    = 8 * (L + unat n) div 2 ^ 32 mod 2 ^ 32"
proof -
  let ?W = "2 ^ 32 :: nat"
  have n: "unat n div 2 ^ 29 = 8 * unat n div ?W"
    using div_mult_mult1 [of 8 "unat n" "2 ^ 29"] by simp
  have carry: "c + shl n 3 < c \<longleftrightarrow> (8 * L mod ?W + 8 * unat n mod ?W) mod ?W < 8 * L mod ?W"
    unfolding word_less_nat_alt count_low [OF assms(1)] assms(1) by (simp only: mod_add_eq distrib_left)
  have "unat ((if c + shl n 3 < c then h + 1 else h) + shr n 29)
      = (unat h + (if c + shl n 3 < c then 1 else 0) + unat n div 2 ^ 29) mod ?W"
    by (simp add: unat_word_ariths unat_shr mod_simps)
  also have "\<dots> = (8 * L div ?W mod ?W + (if c + shl n 3 < c then 1 else 0) + 8 * unat n div ?W) mod ?W"
    by (simp only: assms(2) n)
  also have "\<dots> = (8 * L div ?W + (if c + shl n 3 < c then 1 else 0) + 8 * unat n div ?W) mod ?W"
    by (simp only: mod_add_left_eq add.assoc)
  also have "\<dots> = (8 * L + 8 * unat n) div ?W mod ?W"
    unfolding carry carry_arith [of ?W "8 * L" "8 * unat n", OF zero_less_power [OF zero_less_numeral]]
    by (simp only: add_ac)
  finally show ?thesis by (simp only: distrib_left)
qed


subsection \<open>Updating\<close>

lemma SHA1Update_rep:
  assumes rep: "ctx_rep ctx m" and len: "length data = unat n" and n: "unat n + 127 < 2 ^ 32"
  shows "\<exists>ctx'. SHA1Update ctx data n = Some ctx' \<and> ctx_rep ctx' (m @ data)"
proof -
  define j where "j = shr (sha_count0 ctx) 3 AND 63"
  have c0: "unat (sha_count0 ctx) = 8 * length m mod 2 ^ 32"
    and c1: "unat (sha_count1 ctx) = 8 * length m div 2 ^ 32 mod 2 ^ 32"
    and st: "sha_state ctx = sha_blocks m" and bl: "length (sha_buffer ctx) = 64"
    and buf: "holds (sha_buffer ctx) (tail64 m)"
    using rep by (auto simp: ctx_rep_def)
  have j: "unat j = length m mod 64" unfolding j_def by (rule buffer_index [OF c0])
  have jl: "unat j < 64" "length (tail64 m) = unat j" using j by (simp_all add: length_tail64)
  have jn: "unat (j + n) = unat j + unat n" using jl n by (simp add: unat_word_ariths)
  have tk: "take (unat j) (sha_buffer ctx) = map Some (tail64 m)"
    using buf jl by (simp add: holds_take)
  have low: "unat (sha_count0 ctx + shl n 3) = 8 * length (m @ data) mod 2 ^ 32"
    using count_low [OF c0] len by simp
  have high: "unat ((if sha_count0 ctx + shl n 3 < sha_count0 ctx then sha_count1 ctx + 1 else sha_count1 ctx)
      + shr n 29) = 8 * length (m @ data) div 2 ^ 32 mod 2 ^ 32"
    using count_high [OF c0 c1] len by simp
  show ?thesis
  proof (cases "63 < j + n")
    case False
    then have small: "unat j + unat n < 64" using jn by (simp add: word_less_nat_alt)
    let ?buf = "take (unat j) (sha_buffer ctx) @ map Some data @ drop (unat j + length data) (sha_buffer ctx)"
    have "holds ?buf (tail64 m @ data)" using tk bl small len jl by (simp add: holds_take)
    moreover have "tail64 (m @ data) = tail64 m @ data"
      using small jl len by (subst tail64_snoc) (simp add: tail64_short)
    moreover have "sha_blocks (m @ data) = sha_blocks m"
      using small jl len by (simp add: sha_blocks_append chunks_short)
    moreover have "SHA1Update ctx data n = Some (ctx\<lparr>sha_count0 := sha_count0 ctx + shl n 3,
        sha_count1 := (if sha_count0 ctx + shl n 3 < sha_count0 ctx then sha_count1 ctx + 1 else sha_count1 ctx) + shr n 29,
        sha_buffer := ?buf\<rparr>)"
      using False small len bl by (simp add: SHA1Update_def Let_def j_def [symmetric])
    ultimately show ?thesis using st bl low high len small by (simp add: ctx_rep_def)
  next
    case True
    then have big: "63 < unat j + unat n" using jn by (simp add: word_less_nat_alt)
    have i: "unat (64 - j) = 64 - unat j" using jl by (simp add: unat_sub word_le_nat_alt)
    let ?pre = "take (64 - unat j) data"
    have blk: "take (unat j) (sha_buffer ctx) @ map Some ?pre @ drop (unat j + length (map Some ?pre)) (sha_buffer ctx)
        = map Some (tail64 m @ ?pre)"
      using tk bl big len jl by simp
    have le: "unat (64 - j) \<le> unat n" using i big by simp
    obtain i' where loop: "update_loop data n (SHA1Transform (sha_state ctx) (tail64 m @ ?pre)) (64 - j)
        = Some (foldl SHA1Transform (SHA1Transform (sha_state ctx) (tail64 m @ ?pre)) (chunks (drop (64 - unat j) data)), i')"
      "unat i' \<le> unat n" "drop (unat i') data = tail64 (drop (64 - unat j) data)"
      using update_loop_ok [OF len _ le, of "SHA1Transform (sha_state ctx) (tail64 m @ ?pre)"] n
      unfolding i by auto
    let ?rest = "drop (64 - unat j) data"
    have lrest: "length (tail64 ?rest) < 64" by (simp add: length_tail64)
    have ni: "unat (n - i') = unat n - unat i'" using loop(2) by (simp add: unat_sub word_le_nat_alt)
    have "length (tail64 ?rest) = unat n - unat i'" using arg_cong [OF loop(3), of length] len by simp
    then have src: "slice data (unat i') (unat (n - i')) = Some (tail64 ?rest)"
      using loop(2,3) len ni by simp
    let ?buf = "map Some (tail64 ?rest) @ drop (length (tail64 ?rest)) (map Some (tail64 m @ ?pre))"
    have l64: "length (tail64 m @ ?pre) = 64" using jl big len by simp
    have lb: "length ?buf = 64"
    proof -
      have "length (map Some t @ drop (length t) (map Some b)) = length b" if "length t \<le> length b"
        for t b :: bytes using that by simp
      from this [of "tail64 ?rest" "tail64 m @ ?pre"] l64 lrest show ?thesis by (simp only: less_imp_le)
    qed
    have split: "tail64 m @ data = (tail64 m @ ?pre) @ ?rest" by simp
    have tl: "tail64 (m @ data) = tail64 ?rest"
      unfolding tail64_snoc [of m data] split using tail64_append [of "tail64 m @ ?pre" 1 ?rest] l64 by simp
    have bs: "sha_blocks (m @ data) = foldl SHA1Transform (SHA1Transform (sha_state ctx) (tail64 m @ ?pre)) (chunks ?rest)"
      unfolding sha_blocks_append [of m data] split using chunks_append [of "tail64 m @ ?pre" 1 ?rest] l64 st jl(2)
      by (simp add: chunks_long chunks_short)
    have upd: "SHA1Update ctx data n = Some (ctx\<lparr>
        sha_state := foldl SHA1Transform (SHA1Transform (sha_state ctx) (tail64 m @ ?pre)) (chunks ?rest),
        sha_count0 := sha_count0 ctx + shl n 3,
        sha_count1 := (if sha_count0 ctx + shl n 3 < sha_count0 ctx then sha_count1 ctx + 1 else sha_count1 ctx) + shr n 29,
        sha_buffer := ?buf\<rparr>)"
    proof -
      have s1: "slice data 0 (unat (64 - j)) = Some ?pre" using i big len jl by simp
      have b1: "blit (sha_buffer ctx) (unat j) (map Some ?pre) = Some (map Some (tail64 m @ ?pre))"
        using blk bl big len jl by simp
      have b2: "blit (map Some (tail64 m @ ?pre)) 0 (map Some (tail64 ?rest)) = Some ?buf"
        using l64 lrest by (subst blit_in) (simp_all del: map_append)
      show ?thesis
        unfolding SHA1Update_def Let_def j_def [symmetric]
        using True s1 b1 b2 loop(1) src by (simp del: map_append slice_in blit_in)
    qed
    have hold: "holds ?buf (tail64 (m @ data))" by (simp add: holds_take tl)
    show ?thesis
      using upd ctx_rep_upd [OF bs [symmetric] lb hold low high] by blast
  qed
qed


subsection \<open>Padding and the digest\<close>

lemma and_504: "(x :: u32) AND 504 = push_bit 3 (shr x 3 AND 63)"
proof -
  have "x AND push_bit 3 (mask 6) = push_bit 3 (drop_bit 3 x AND mask 6)" for x :: u32
    by (rule bit_eqI) (auto simp: bit_simps)
  moreover have "push_bit 3 (mask 6) = (504 :: u32)" "mask 6 = (63 :: u32)" by (simp_all add: mask_eq_exp_minus_1)
  ultimately show ?thesis unfolding shr_def by metis
qed

lemma pad_done:
  assumes "ctx_rep ctx m"
  shows "sha_count0 ctx AND 504 = 448 \<longleftrightarrow> length m mod 64 = 56"
proof -
  have j: "unat (shr (sha_count0 ctx) 3 AND 63) = length m mod 64"
    using assms by (intro buffer_index) (simp add: ctx_rep_def)
  have "unat (sha_count0 ctx AND 504) = 8 * (length m mod 64)"
    unfolding and_504 shl_def [symmetric] unat_shl j by simp
  then show ?thesis by (simp add: word_unat_eq_iff)
qed

lemma pad_arith:
  fixes r :: nat
  assumes "r < 64"
  shows "(120 - r) mod 64 = (if r \<le> 56 then 56 - r else 120 - r)"
proof (cases "r \<le> 56")
  case True
  then have "120 - r = (56 - r) + 64" by simp
  then have "(120 - r) mod 64 = (56 - r) mod 64" by (metis mod_add_self2)
  then show ?thesis using True by simp
next
  case False
  then show ?thesis using assms by simp
qed

lemma pad_arith':
  fixes r :: nat
  assumes "r < 64"
  shows "(119 - r) mod 64 = (if r \<le> 55 then 55 - r else 119 - r)"
proof -
  have "119 - r = 120 - (r + 1)" by simp
  then show ?thesis using assms pad_arith [of "r + 1"] by (cases "r = 63") auto
qed

lemma pad_loop_rep:
  assumes "ctx_rep ctx m"
  shows "\<exists>ctx'. pad_loop ctx = Some ctx' \<and> ctx_rep ctx' (m @ replicate ((120 - length m mod 64) mod 64) 0)"
  using assms
proof (induction "(120 - length m mod 64) mod 64" arbitrary: ctx m)
  case 0
  then have "length m mod 64 = 56" using pad_arith [of "length m mod 64"] by (simp split: if_splits)
  then have "pad_loop ctx = Some ctx" using pad_done [OF 0(2)] by (subst pad_loop.simps) simp
  then show ?case using 0 by simp
next
  case (Suc k)
  have ne: "length m mod 64 \<noteq> 56" using Suc(2) by auto
  have k: "k = (120 - length (m @ [0]) mod 64) mod 64"
  proof -
    define r where "r = length m mod 64"
    have r: "r < 64" "r \<noteq> 56" "Suc k = (if r \<le> 56 then 56 - r else 120 - r)"
      using Suc(2) ne pad_arith [of r] by (auto simp: r_def)
    have "length (m @ [0 :: byte]) mod 64 = (if Suc r = 64 then 0 else Suc r)" by (simp add: mod_Suc r_def)
    then show ?thesis using r pad_arith [of "Suc r"] by (auto split: if_splits)
  qed
  obtain c1 where c1: "SHA1Update ctx [0] 1 = Some c1" "ctx_rep c1 (m @ [0])"
    using SHA1Update_rep [OF Suc(3), of "[0]" 1] by auto
  obtain c2 where c2: "pad_loop c1 = Some c2" "ctx_rep c2 ((m @ [0]) @ replicate k 0)"
    using Suc(1) [OF k c1(2)] unfolding k by blast
  have "pad_loop ctx = Some c2" using pad_done [OF Suc(3)] ne c1(1) c2(1) by (subst pad_loop.simps) simp
  moreover have "(m @ [0]) @ replicate k 0 = m @ replicate ((120 - length m mod 64) mod 64) 0"
    unfolding Suc(2) [symmetric] by simp
  ultimately show ?case using c2(2) by metis
qed

lemma SHA1Final_rep:
  assumes "ctx_rep ctx m"
  shows "SHA1Final ctx = Some (sha1 m)"
proof -
  have cnt: "be_bytes (sha_count1 ctx) @ be_bytes (sha_count0 ctx) = be64 (8 * length m)"
  proof -
    have "unat (sha_count1 ctx) = unat (word_of_nat (8 * length m div 2 ^ 32) :: u32)"
      and "unat (sha_count0 ctx) = unat (word_of_nat (8 * length m) :: u32)"
      using assms by (simp_all only: ctx_rep_def unat_of_nat) simp_all
    then show ?thesis by (simp only: be64_def word_unat_eq_iff [symmetric])
  qed
  obtain c1 where c1: "SHA1Update ctx [0x80] 1 = Some c1" "ctx_rep c1 (m @ [0x80])"
    using SHA1Update_rep [OF assms, of "[0x80]" 1] by auto
  let ?z = "(120 - length (m @ [0x80 :: byte]) mod 64) mod 64"
  obtain c2 where c2: "pad_loop c1 = Some c2" "ctx_rep c2 ((m @ [0x80]) @ replicate ?z 0)"
    using pad_loop_rep [OF c1(2)] by blast
  have l8: "length (be64 (8 * length m)) = unat (8 :: u32)" by (simp add: be64_def be_bytes_def)
  obtain c3 where c3: "SHA1Update c2 (be64 (8 * length m)) 8 = Some c3"
    "ctx_rep c3 (((m @ [0x80]) @ replicate ?z 0) @ be64 (8 * length m))"
    using SHA1Update_rep [OF c2(2) l8] by auto
  have z: "?z = (119 - length m mod 64) mod 64"
    using pad_arith' [of "length m mod 64"] pad_arith [of "length (m @ [0x80 :: byte]) mod 64"]
    by (auto simp: mod_Suc split: if_splits)
  have "SHA1Final ctx = Some (sha_digest (sha_state c3))"
    using c1(1) c2(1) c3(1) by (simp add: SHA1Final_def cnt Let_def)
  moreover have "sha_state c3 = sha_blocks (sha_pad m)"
    using c3(2) unfolding z by (simp add: ctx_rep_def sha_pad_def)
  ultimately show ?thesis by (simp add: sha1_def)
qed

fun sha_updates :: "bytes list \<Rightarrow> SHA1_CTX \<Rightarrow> SHA1_CTX option" where
  "sha_updates [] ctx = Some ctx"
| "sha_updates (d # ds) ctx = do { ctx \<leftarrow> SHA1Update ctx d (word_of_nat (length d)); sha_updates ds ctx }"

lemma sha_updates_rep:
  "ctx_rep ctx m \<Longrightarrow> \<forall>d \<in> set ds. length d + 127 < 2 ^ 32 \<Longrightarrow>
     \<exists>ctx'. sha_updates ds ctx = Some ctx' \<and> ctx_rep ctx' (m @ concat ds)"
proof (induction ds arbitrary: ctx m)
  case (Cons d ds)
  have "unat (word_of_nat (length d) :: u32) = length d" using Cons.prems(2) by (simp add: unat_u32_of_nat)
  then obtain c1 where c1: "SHA1Update ctx d (word_of_nat (length d)) = Some c1" "ctx_rep c1 (m @ d)"
    using SHA1Update_rep [OF Cons.prems(1), of d "word_of_nat (length d)"] Cons.prems(2) by auto
  with Cons.IH [OF c1(2)] Cons.prems(2) show ?case by auto
qed simp

text \<open>C12: However a message is cut into updates (each shorter than 2^32 - 127 bytes),
  initialising, updating and finishing a context is defined, reads no unwritten byte, and
  yields the one-shot SHA-1 of the whole message.\<close>

theorem sha1_incremental:
  assumes "length (sha_buffer ctx) = 64" and "\<forall>d \<in> set ds. length d + 127 < 2 ^ 32"
  shows "\<exists>ctx'. sha_updates ds (SHA1Init ctx) = Some ctx' \<and> SHA1Final ctx' = Some (sha1 (concat ds))"
  using sha_updates_rep [OF init_rep [OF assms(1)] assms(2)] SHA1Final_rep by fastforce

theorem sha1_incremental_witness:
  "\<exists>ctx'. sha_updates [[1, 2], [3]] (SHA1Init \<lparr>sha_state = (0, 0, 0, 0, 0), sha_count0 = 0,
      sha_count1 = 0, sha_buffer = replicate 64 None\<rparr>) = Some ctx' \<and> SHA1Final ctx' = Some (sha1 (concat [[1, 2], [3]]))"
  by (rule sha1_incremental) simp_all

end
