(* ===== verification/Base64.thy ===== *)
theory Base64
  imports Sha1
begin

text \<open>
  Base64 encoding and the WebSocket accept key (src/vendor/crypto/base64.c), with the output
  buffers bounds-checked. The specification is a decoder: encoding is shown to be its right
  inverse.
\<close>

subsection \<open>The code\<close>

definition ascii :: "string \<Rightarrow> bytes" where
  "ascii s = map (\<lambda>c. word_of_nat (of_char c)) s"

definition base64_table :: bytes where
  "base64_table = ascii ''ABCDEFGHIJKLMNOPQRSTUVWXYZabcdefghijklmnopqrstuvwxyz0123456789+/''"

definition enc_triple :: "byte \<Rightarrow> byte \<Rightarrow> byte \<Rightarrow> u32" where
  "enc_triple octet_a octet_b octet_c =
     shl (ucast octet_a) 0x10 + shl (ucast octet_b) 0x08 + ucast octet_c"

definition enc_char :: "u32 \<Rightarrow> nat \<Rightarrow> byte option" where
  "enc_char triple k = aget base64_table (unat (shr triple (k * 6) AND 0x3F))"

function enc_loop :: "bytes \<Rightarrow> nat \<Rightarrow> nat \<Rightarrow> nat \<Rightarrow> bytes \<Rightarrow> bytes option" where
  "enc_loop data n i j out =
     (if i < n then
        (let i1 = i + 1;
             i2 = (if i1 < n then i1 + 1 else i1);
             i3 = (if i2 < n then i2 + 1 else i2)
         in do {
           octet_a \<leftarrow> aget data i;
           octet_b \<leftarrow> (if i1 < n then aget data i1 else Some 0);
           octet_c \<leftarrow> (if i2 < n then aget data i2 else Some 0);
           let triple = enc_triple octet_a octet_b octet_c;
           c0 \<leftarrow> enc_char triple 3;
           out \<leftarrow> aset out j c0;
           c1 \<leftarrow> enc_char triple 2;
           out \<leftarrow> aset out (j + 1) c1;
           c2 \<leftarrow> enc_char triple 1;
           out \<leftarrow> aset out (j + 2) c2;
           c3 \<leftarrow> enc_char triple 0;
           out \<leftarrow> aset out (j + 3) c3;
           enc_loop data n i3 (j + 4) out })
      else Some out)"
  by pat_completeness auto
termination by (relation "measure (\<lambda>(data, n, i, j, out). n - i)") (auto split: if_splits)

declare enc_loop.simps [simp del]

definition base64_encode :: "bytes \<Rightarrow> nat \<Rightarrow> bytes \<Rightarrow> bytes option" where
  "base64_encode data input_length encoded_data =
     (let output_length = 4 * ((input_length + 2) div 3)
      in do {
        out \<leftarrow> enc_loop data input_length 0 0 encoded_data;
        out \<leftarrow> for_upto 0 ((3 - input_length mod 3) mod 3) (\<lambda>i out. aset out (output_length - 1 - i) 61) out;
        aset out output_length 0 })"

definition ws_magic :: bytes where
  "ws_magic = ascii ''258EAFA5-E914-47DA-95CA-C5AB0DC85B11''"

definition generate_ws_accept_key :: "bytes \<Rightarrow> nat \<Rightarrow> bytes \<Rightarrow> bytes option" where
  "generate_ws_accept_key key len out = do {
     k \<leftarrow> slice key 0 len;
     combined \<leftarrow> blit (replicate 128 None) 0 (map Some k);
     combined \<leftarrow> blit combined len (map Some ws_magic);
     data \<leftarrow> slice combined 0 (len + 36);
     msg \<leftarrow> all_some data;
     ctx \<leftarrow> SHA1Update (SHA1Init \<lparr>sha_state = (0, 0, 0, 0, 0), sha_count0 = 0, sha_count1 = 0,
                                    sha_buffer = replicate 64 None\<rparr>) msg (word_of_nat (len + 36));
     hash \<leftarrow> SHA1Final ctx;
     base64_encode hash 20 out }"

subsection \<open>Specification: encoding by groups of three, and decoding\<close>

definition sextet :: "nat \<Rightarrow> nat \<Rightarrow> nat" where
  "sextet t k = t div 64 ^ k mod 64"

definition tri :: "byte \<Rightarrow> byte \<Rightarrow> byte \<Rightarrow> nat" where
  "tri a b c = unat a * 65536 + unat b * 256 + unat c"

definition quad :: "nat \<Rightarrow> bytes" where
  "quad t = map (\<lambda>k. base64_table ! sextet t k) [3, 2, 1, 0]"

fun b64 :: "bytes \<Rightarrow> bytes" where
  "b64 [] = []"
| "b64 [a] = take 2 (quad (tri a 0 0)) @ [61, 61]"
| "b64 [a, b] = take 3 (quad (tri a b 0)) @ [61]"
| "b64 (a # b # c # xs) = quad (tri a b c) @ b64 xs"

fun index_of :: "byte \<Rightarrow> bytes \<Rightarrow> nat option" where
  "index_of c [] = None"
| "index_of c (x # xs) = (if x = c then Some 0 else map_option Suc (index_of c xs))"

fun b64_decode :: "bytes \<Rightarrow> bytes option" where
  "b64_decode [] = Some []"
| "b64_decode (c0 # c1 # c2 # c3 # cs) = do {
     s0 \<leftarrow> index_of c0 base64_table;
     s1 \<leftarrow> index_of c1 base64_table;
     (if cs = [] \<and> c2 = 61 \<and> c3 = 61 then Some [word_of_nat ((s0 * 262144 + s1 * 4096) div 65536)]
      else do {
        s2 \<leftarrow> index_of c2 base64_table;
        (if cs = [] \<and> c3 = 61 then
           (let t = s0 * 262144 + s1 * 4096 + s2 * 64
            in Some [word_of_nat (t div 65536), word_of_nat (t div 256 mod 256)])
         else do {
           s3 \<leftarrow> index_of c3 base64_table;
           rest \<leftarrow> b64_decode cs;
           (let t = s0 * 262144 + s1 * 4096 + s2 * 64 + s3
            in Some (word_of_nat (t div 65536) # word_of_nat (t div 256 mod 256) # word_of_nat (t mod 256) # rest)) }) }) }"
| "b64_decode _ = None"

subsection \<open>The table\<close>

lemma length_table [simp]: "length base64_table = 64"
  by (simp add: base64_table_def ascii_def)

lemma table_nats: "map unat base64_table = [65..<91] @ [97..<123] @ [48..<58] @ [43, 47]"
  by (simp add: base64_table_def ascii_def upt_rec_numeral)

lemma index_of_nth: "distinct xs \<Longrightarrow> i < length xs \<Longrightarrow> index_of (xs ! i) xs = Some i"
  by (induction xs arbitrary: i) (auto simp: nth_Cons split: nat.splits)

lemma distinct_table: "distinct base64_table"
proof -
  have "distinct (map unat base64_table)" unfolding table_nats by auto
  then show ?thesis by (simp add: distinct_map)
qed

lemma index_table: "i < 64 \<Longrightarrow> index_of (base64_table ! i) base64_table = Some i"
  using index_of_nth [OF distinct_table] by simp

lemma table_not_pad: "i < 64 \<Longrightarrow> base64_table ! i \<noteq> 61"
proof
  assume "i < 64" "base64_table ! i = 61"
  then have "61 \<in> set base64_table" by (metis length_table nth_mem)
  then have "unat (61 :: byte) \<in> set (map unat base64_table)" unfolding set_map by (rule imageI)
  then show False unfolding table_nats by auto
qed

lemma sextet_less: "sextet t k < 64"
  by (simp add: sextet_def)

lemma tri_less: "tri a b c < 16777216"
  using unat_u8_less [of a] unat_u8_less [of b] unat_u8_less [of c] by (simp add: tri_def)

lemma enc_char_sextet: "enc_char (enc_triple a b c) k = Some (base64_table ! sextet (tri a b c) k)"
proof -
  have u: "unat (ucast x :: u32) = unat x" for x :: byte 
    using unat_u8_less [of x] by (simp add: unsigned_ucast_eq take_bit_nat_eq_self)
  have "unat (enc_triple a b c) = tri a b c"
    using unat_u8_less [of a] unat_u8_less [of b] unat_u8_less [of c]
    by (simp add: enc_triple_def tri_def unat_word_ariths unat_shl u)
  moreover have "(2::nat) ^ (k * 6) = 64 ^ k" by (subst mult.commute) (simp add: power_mult)
  ultimately show ?thesis by (simp add: enc_char_def unat_and_63 unat_shr sextet_def)
qed


subsection \<open>The round trip\<close>

lemma quad_digits:
  assumes "t < 16777216"
  shows "sextet t 3 * 262144 + sextet t 2 * 4096 + sextet t 1 * 64 + sextet t 0 = t"
proof -
  have d: "t div 4096 = t div 64 div 64" "t div 262144 = t div 4096 div 64"
    by (simp_all add: div_mult2_eq [symmetric])
  have "t = t div 64 * 64 + t mod 64" "t div 64 = t div 4096 * 64 + t div 64 mod 64"
    "t div 4096 = t div 262144 * 64 + t div 4096 mod 64"
    unfolding d by simp_all
  then have "t = t div 262144 * 262144 + t div 4096 mod 64 * 4096 + t div 64 mod 64 * 64 + t mod 64"
    by linarith
  moreover have "t div 262144 mod 64 = t div 262144" using assms by (intro mod_less) (simp add: less_mult_imp_div_less)
  ultimately show ?thesis by (simp add: sextet_def)
qed

lemma tri_bytes:
  "tri a b c div 65536 = unat a" "tri a b c div 256 mod 256 = unat b" "tri a b c mod 256 = unat c"
proof -
  have "unat b * 256 + unat c < 65536" using unat_u8_less [of b] unat_u8_less [of c] by linarith
  then show "tri a b c div 65536 = unat a" by (simp add: tri_def add.assoc)
  have "tri a b c div 256 = unat a * 256 + unat b" using unat_u8_less [of c] by (simp add: tri_def)
  then show "tri a b c div 256 mod 256 = unat b" using unat_u8_less [of b] by simp
  have "tri a b c = (unat a * 256 + unat b) * 256 + unat c" by (simp add: tri_def)
  then show "tri a b c mod 256 = unat c" using unat_u8_less [of c] by (metis mod_less mod_mult_self3)
qed

lemma low_sextets:
  "sextet (tri a 0 0) (Suc 0) = 0" "sextet (tri a b 0) 0 = 0" "sextet (tri a 0 0) 0 = 0"
  by (simp_all add: sextet_def tri_def)

lemma quad_list: "quad t = [base64_table ! sextet t 3, base64_table ! sextet t 2,
    base64_table ! sextet t 1, base64_table ! sextet t 0]"
  by (simp add: quad_def)

lemma b64_decode_quad:
  "b64_decode (quad (tri a b c) @ cs) = do { rest \<leftarrow> b64_decode cs; Some (a # b # c # rest) }"
  using quad_digits [OF tri_less, of a b c] tri_bytes [of a b c]
  by (simp add: quad_list index_table sextet_less table_not_pad Let_def)

lemma b64_roundtrip: "b64_decode (b64 xs) = Some xs"
proof (induction xs rule: b64.induct)
  case (2 a)
  then show ?case
    using quad_digits [OF tri_less, of a 0 0] tri_bytes(1) [of a 0 0]
    by (simp add: quad_list index_table sextet_less low_sextets)
next
  case (3 a b)
  then show ?case
    using quad_digits [OF tri_less, of a b 0] tri_bytes(1,2) [of a b 0]
    by (simp add: quad_list index_table sextet_less low_sextets table_not_pad Let_def)
next
  case (4 a b c xs)
  then show ?case by (simp add: b64_decode_quad)
qed simp

lemma length_quad [simp]: "length (quad t) = 4"
  by (simp add: quad_def)

lemma length_b64: "length (b64 xs) = 4 * ((length xs + 2) div 3)"
proof (induction xs rule: b64.induct)
  case (4 a b c xs)
  have "(length (a # b # c # xs) + 2) div 3 = 1 + (length xs + 2) div 3" by simp
  with 4 show ?case by simp
qed auto


subsection \<open>The encoder\<close>

text \<open>The characters the main loop writes, before padding.\<close>

fun b64_raw :: "bytes \<Rightarrow> bytes" where
  "b64_raw [] = []"
| "b64_raw [a] = quad (tri a 0 0)"
| "b64_raw [a, b] = quad (tri a b 0)"
| "b64_raw (a # b # c # xs) = quad (tri a b c) @ b64_raw xs"

lemma length_b64_raw: "length (b64_raw xs) = length (b64 xs)"
  by (induction xs rule: b64.induct) auto

lemma write4:
  assumes "j + 4 \<le> length out"
  shows "out[j := c0, j + 1 := c1, j + 2 := c2, j + 3 := c3] = take j out @ [c0, c1, c2, c3] @ drop (j + 4) out"
proof -
  have four: "\<exists>p0 p1 p2 p3 r. xs = p0 # p1 # p2 # p3 # r" if "4 \<le> length xs" for xs :: "'a list"
    using that by (auto simp: numeral_eq_Suc Suc_le_length_iff)
  have "4 \<le> length (drop j out)" using assms by simp
  from four [OF this] obtain p0 p1 p2 p3 r where post: "drop j out = p0 # p1 # p2 # p3 # r" by blast
  define pre where "pre = take j out"
  have out: "out = pre @ p0 # p1 # p2 # p3 # r" and len: "length pre = j"
    using post append_take_drop_id [of j out] assms by (simp_all add: pre_def)
  show ?thesis unfolding out using len by (simp add: list_update_append)
qed

lemma enc_loop_group:
  assumes d: "drop i data = a # rest" and n: "n = length data" and j: "j + 4 \<le> length out"
  shows "enc_loop data n i j out =
    (case rest of
       [] \<Rightarrow> enc_loop data n (i + 1) (j + 4) (take j out @ quad (tri a 0 0) @ drop (j + 4) out)
     | [b] \<Rightarrow> enc_loop data n (i + 2) (j + 4) (take j out @ quad (tri a b 0) @ drop (j + 4) out)
     | b # c # _ \<Rightarrow> enc_loop data n (i + 3) (j + 4) (take j out @ quad (tri a b c) @ drop (j + 4) out))"
proof -
  have i: "i < n" "data ! i = a" "drop (i + 1) data = rest"
    using d n by (metis drop_eq_Nil2 list.distinct(1) not_le, metis drop_eq_Nil2 hd_drop_conv_nth list.distinct(1) list.sel(1) not_le,
        metis Suc_eq_plus1 drop_Suc list.sel(3) tl_drop)
  have w: "out[j := quad t ! 0, j + 1 := quad t ! 1, j + 2 := quad t ! 2, j + 3 := quad t ! 3]
      = take j out @ quad t @ drop (j + 4) out" for t
    using write4 [OF j] by (simp add: quad_list)
  note w = w [unfolded quad_list, simplified, folded quad_list]
  consider (one) "rest = []" | (two) b where "rest = [b]" | (three) b c r where "rest = b # c # r"
    by (metis list.exhaust)
  then show ?thesis
  proof cases
    case one
    then have "i + 1 = n" using i n by simp
    then show ?thesis using i one n j w [of "tri a 0 0"]
      by (subst enc_loop.simps) (simp add: enc_char_sextet Let_def quad_list)
  next
    case two
    then have b: "i + 2 = n" "data ! (i + 1) = b"
      using i n by (metis One_nat_def Suc_eq_plus1 add_Suc_right length_drop list.size(3) list.size(4) add_2_eq_Suc'
          le_add_diff_inverse less_eq_Suc_le, metis hd_drop_conv_nth i(3) drop_eq_Nil2 list.distinct(1) list.sel(1) not_le)
    then show ?thesis using i two n j w [of "tri a b 0"]
      by (subst enc_loop.simps) (simp add: enc_char_sextet Let_def quad_list)
  next
    case three
    have b: "data ! (i + 1) = b" "i + 1 < n"
      using i n three by (metis hd_drop_conv_nth drop_eq_Nil2 list.distinct(1) list.sel(1) not_le)+
    have "drop (i + 2) data = c # r" using i(3) three by (metis drop_drop drop_Suc_Cons drop0 add.commute one_add_one add.assoc One_nat_def)
    then have c: "data ! (i + 2) = c" "i + 2 < n"
      using n by (metis hd_drop_conv_nth drop_eq_Nil2 list.distinct(1) list.sel(1) not_le)+
    show ?thesis using i b c three n j w [of "tri a b c"]
      by (subst enc_loop.simps) (simp add: enc_char_sextet Let_def quad_list numeral_3_eq_3)
  qed
qed


lemma enc_loop_ok:
  assumes "j + length (b64_raw (drop i data)) \<le> length out"
  shows "enc_loop data (length data) i j out =
    Some (take j out @ b64_raw (drop i data) @ drop (j + length (b64_raw (drop i data))) out)"
  using assms
proof (induction "drop i data" arbitrary: i j out rule: b64_raw.induct)
  case 1
  then have "\<not> i < length data" by (metis drop_eq_Nil not_le)
  then show ?case using 1 by (subst enc_loop.simps) simp
next
  case (2 a)
  have j: "j + 4 \<le> length out" using 2 by (simp flip: 2(1))
  have fin: "\<not> i + 1 < length data" using arg_cong [OF 2(1), of length] by simp
  show ?case
    using enc_loop_group [OF 2(1) [symmetric] refl j] fin
    by (simp flip: 2(1) add: enc_loop.simps [of data "length data" "Suc i"])
next
  case (3 a b)
  have j: "j + 4 \<le> length out" using 3 by (simp flip: 3(1))
  have fin: "\<not> i + 2 < length data" using arg_cong [OF 3(1), of length] by simp
  show ?case
    using enc_loop_group [OF 3(1) [symmetric] refl j] fin
    by (simp flip: 3(1) add: enc_loop.simps [of data "length data" "Suc (Suc i)"])
next
  case (4 a b c xs)
  have j: "j + 4 \<le> length out" using 4(3) by (simp flip: 4(2))
  have xs: "xs = drop (i + 3) data" using arg_cong [OF 4(2), of "drop 3"] by (simp add: numeral_3_eq_3 add.commute)
  let ?out = "take j out @ quad (tri a b c) @ drop (j + 4) out"
  have len: "length ?out = length out" using j by simp
  have "enc_loop data (length data) (i + 3) (j + 4) ?out = Some (take (j + 4) ?out @ b64_raw (drop (i + 3) data)
      @ drop (j + 4 + length (b64_raw (drop (i + 3) data))) ?out)"
    using 4(3) xs by (intro 4(1) [OF xs]) (simp_all add: len flip: 4(2))
  moreover have "take (j + 4) ?out = take j out @ quad (tri a b c)" using j by simp
  moreover have "drop (j + 4 + k) ?out = drop (j + 4 + k) out" for k using j by (simp add: add.commute)
  ultimately show ?case
    using enc_loop_group [OF 4(2) [symmetric] refl j] xs by (simp flip: 4(2) add: add.assoc)
qed

lemma b64_padding:
  "b64 xs = take (length (b64_raw xs) - (3 - length xs mod 3) mod 3) (b64_raw xs)
     @ replicate ((3 - length xs mod 3) mod 3) 61"
proof (induction xs rule: b64.induct)
  case (4 a b c xs)
  have m: "length (a # b # c # xs) mod 3 = length xs mod 3" by simp
  have "(3 - length xs mod 3) mod 3 \<le> length (b64_raw xs)"
  proof (cases "xs = []")
    case False
    then have "4 \<le> length (b64_raw xs)" by (cases xs rule: b64_raw.cases) auto
    moreover have "(3 - length xs mod 3) mod 3 < 3" by simp
    ultimately show ?thesis by linarith
  qed simp
  then show ?case unfolding m using 4 by simp
qed (simp_all add: quad_list numeral_2_eq_2)

lemma base64_encode_roundtrip_aux:
  assumes "4 * ((length data + 2) div 3) + 1 \<le> length out"
  shows "base64_encode data (length data) out =
      Some (b64 data @ [0] @ drop (4 * ((length data + 2) div 3) + 1) out)"
proof -
  define L where "L = 4 * ((length data + 2) div 3)"
  define p where "p = (3 - length data mod 3) mod 3"
  have L: "length (b64_raw data) = L" "L + 1 \<le> length out"
    using assms by (simp_all add: length_b64_raw length_b64 L_def)
  have pL: "p \<le> L" and p3: "p < 3"
  proof -
    show "p < 3" by (simp add: p_def)
    show "p \<le> L"
    proof (cases "data = []")
      case False
      then have "3 \<le> length data + 2" by (cases data) auto
      then have "1 \<le> (length data + 2) div 3" by (simp add: div_greater_zero_iff Suc_le_eq)
      then have "4 \<le> L" unfolding L_def by linarith
      moreover have "p < 3" by (simp add: p_def)
      ultimately show ?thesis by linarith
    qed (simp add: p_def)
  qed
  have loop: "enc_loop data (length data) 0 0 out = Some (b64_raw data @ drop L out)"
    using enc_loop_ok [of 0 0 data out] L by simp
  have pad: "for_upto 0 p (\<lambda>i out. aset out (L - 1 - i) 61) (b64_raw data @ drop L out)
      = Some (b64 data @ drop L out)"
  proof -
    have "\<exists>s'. for_upto 0 p (\<lambda>i out. aset out (L - 1 - i) 61) (b64_raw data @ drop L out) = Some s'
        \<and> s' = take (L - p) (b64_raw data) @ replicate p 61 @ drop L out"
    proof (rule for_upto_inv [where P = "\<lambda>i s. s = take (L - i) (b64_raw data) @ replicate i 61 @ drop L out"])
      show "b64_raw data @ drop L out = take (L - 0) (b64_raw data) @ replicate 0 61 @ drop L out"
        using L(1) by simp
      fix i s assume i: "i < p" and s: "s = take (L - i) (b64_raw data) @ replicate i 61 @ drop L out"
      have lt: "L - 1 - i < length s" using i pL L by (simp add: s)
      have "take (L - i) (b64_raw data) = take (L - Suc i) (b64_raw data) @ [b64_raw data ! (L - Suc i)]"
        using i pL L(1) by (metis Suc_diff_Suc less_le_trans diff_less take_Suc_conv_app_nth zero_less_Suc less_imp_le
            less_nat_zero_code neq0_conv)
      then have "s[L - 1 - i := 61] = take (L - Suc i) (b64_raw data) @ replicate (Suc i) 61 @ drop L out"
        using L(1) i pL by (simp add: s list_update_append)
      then show "\<exists>s'. aset s (L - 1 - i) 61 = Some s'
          \<and> s' = take (L - Suc i) (b64_raw data) @ replicate (Suc i) 61 @ drop L out" using lt by simp
    qed simp
    then show ?thesis using b64_padding [of data] L(1) by (simp add: p_def)
  qed
  have lb: "length (b64 data) = L" by (simp add: length_b64 L_def)
  have "drop L out = out ! L # drop (L + 1) out" using L(2) by (simp add: Cons_nth_drop_Suc)
  then have "aset (b64 data @ drop L out) L 0 = Some (b64 data @ [0] @ drop (L + 1) out)"
    using lb L(2) by (simp add: list_update_append)
  then have "base64_encode data (length data) out = Some (b64 data @ [0] @ drop (L + 1) out)"
    unfolding base64_encode_def Let_def L_def [symmetric] p_def [symmetric]
    by (simp only: loop pad bind.bind_lunit)
  then show ?thesis unfolding L_def .
qed

text \<open>C22: Encoding into a large enough buffer is in bounds and stores the Base64 text of the
  input, padded and terminated by a zero byte, leaving the rest of the buffer alone; decoding
  that text gives the input back.\<close>

theorem base64_encode_roundtrip:
  assumes "4 * ((length data + 2) div 3) + 1 \<le> length out"
  shows "base64_encode data (length data) out =
      Some (b64 data @ [0] @ drop (4 * ((length data + 2) div 3) + 1) out)
    \<and> length (b64 data) = 4 * ((length data + 2) div 3) \<and> b64_decode (b64 data) = Some data"
  using base64_encode_roundtrip_aux [OF assms] length_b64 b64_roundtrip by blast

theorem base64_encode_roundtrip_witness:
  "base64_encode [77, 97] (length [77, 97 :: byte]) (replicate 6 7) =
      Some (b64 [77, 97] @ [0] @ drop (4 * ((length [77, 97 :: byte] + 2) div 3) + 1) (replicate 6 7))
    \<and> length (b64 [77, 97]) = 4 * ((length [77, 97 :: byte] + 2) div 3) \<and> b64_decode (b64 [77, 97]) = Some [77, 97]"
  by (rule base64_encode_roundtrip) simp


subsection \<open>The WebSocket accept key\<close>

lemma length_magic [simp]: "length ws_magic = 36"
  by (simp add: ws_magic_def ascii_def)

lemma length_sha1 [simp]: "length (sha1 m) = 20"
  by (simp add: sha1_def sha_digest_def be_bytes_def split: prod.split)

text \<open>C36: For a key of at most 92 bytes the accept key is the Base64 text of the SHA-1 of the
  key followed by the WebSocket GUID; a longer key overflows the 128-byte stack buffer.\<close>

theorem generate_ws_accept_key_correct:
  assumes "len \<le> length key" and "29 \<le> length out"
  shows "(len \<le> 92 \<longrightarrow> generate_ws_accept_key key len out =
      Some (b64 (sha1 (take len key @ ws_magic)) @ [0] @ drop 29 out))
    \<and> (92 < len \<longrightarrow> generate_ws_accept_key key len out = None)"
proof (intro conjI impI)
  assume small: "len \<le> 92"
  let ?m = "take len key @ ws_magic"
  let ?ctx = "SHA1Init \<lparr>sha_state = (0, 0, 0, 0, 0), sha_count0 = 0, sha_count1 = 0, sha_buffer = replicate 64 None\<rparr>"
  have rep: "ctx_rep ?ctx []" by (rule init_rep) simp
  have lm: "length ?m = unat (word_of_nat (len + 36) :: u32)"
    using assms(1) small by (subst unat_u32_of_nat) auto
  obtain ctx where ctx: "SHA1Update ?ctx ?m (word_of_nat (len + 36)) = Some ctx" "ctx_rep ctx ([] @ ?m)"
    using SHA1Update_rep [OF rep lm] lm small assms(1) by auto
  have b1: "blit (replicate 128 None) 0 (map Some (take len key)) = Some (map Some (take len key) @ replicate (128 - len) None)"
    using assms(1) small by simp
  have b2: "blit (map Some (take len key) @ replicate (128 - len) None) len (map Some ws_magic)
      = Some (map Some (take len key) @ map Some ws_magic @ replicate (92 - len) None)"
    using assms(1) small by simp
  have sl: "slice (map Some (take len key) @ map Some ws_magic @ replicate (92 - len) None) 0 (len + 36)
      = Some (map Some ?m)"
    using assms(1) small by simp
  have enc: "base64_encode (sha1 ?m) 20 out = Some (b64 (sha1 ?m) @ [0] @ drop 29 out)"
    using base64_encode_roundtrip_aux [of "sha1 ?m" out] assms(2) by simp
  show "generate_ws_accept_key key len out = Some (b64 (sha1 ?m) @ [0] @ drop 29 out)"
    unfolding generate_ws_accept_key_def
    using assms(1) b1 b2 sl enc ctx SHA1Final_rep [OF ctx(2)]
    by (simp del: blit_in map_append replicate.simps take_append)
next
  assume "92 < len"
  show "generate_ws_accept_key key len out = None"
    using assms(1) \<open>92 < len\<close> by (auto simp: generate_ws_accept_key_def blit_def)
qed

theorem generate_ws_accept_key_correct_witness:
  "generate_ws_accept_key (ascii ''dGhlIHNhbXBsZSBub25jZQ=='') 24 (replicate 29 0) =
      Some (b64 (sha1 (take 24 (ascii ''dGhlIHNhbXBsZSBub25jZQ=='') @ ws_magic)) @ [0] @ drop 29 (replicate 29 0))"
  by (rule generate_ws_accept_key_correct [THEN conjunct1, THEN mp]) (simp_all add: ascii_def)

end
