(* ===== verification/C_Result.thy ===== *)
theory C_Result
  imports Prelude
begin

text \<open>
  Results of the image library. A function of src/user/facet/gpu/stb_image.h that reports an
  error returns 0 or NULL after \<^verbatim>\<open>stbi__err\<close> has stored the reason; its model returns
  \<open>Some (Inl reason)\<close>. A normal return is \<open>Some (Inr value)\<close>, and \<open>None\<close> is undefined
  behaviour or no return at all, as in the other theories.

  The predicates \<open>sat\<close> and \<open>esat\<close> are total correctness for the two kinds of computation:
  the run is defined, it returns, and a normal result satisfies the postcondition. Their rules
  are collected in \<open>wp\<close>, so that a safety proof is one application of them per statement.
\<close>

type_synonym 'a res = "(string + 'a) option"

definition stbi_err :: "string \<Rightarrow> 'a res" where
  "stbi_err reason = Some (Inl reason)"

definition ret :: "'a \<Rightarrow> 'a res" where
  "ret x = Some (Inr x)"

definition ebind :: "'a res \<Rightarrow> ('a \<Rightarrow> 'b res) \<Rightarrow> 'b res" where
  "ebind m f = (case m of None \<Rightarrow> None | Some (Inl e) \<Rightarrow> Some (Inl e) | Some (Inr x) \<Rightarrow> f x)"

lemma ebind_simps [simp]:
  "ebind None f = None" "ebind (Some (Inl e)) f = Some (Inl e)" "ebind (Some (Inr x)) f = f x"
  "ebind (ret x) f = f x" "ebind (stbi_err r) f = stbi_err r"
  by (simp_all add: ebind_def ret_def stbi_err_def)

lemma ret_inject [simp]: "ret x = ret y \<longleftrightarrow> x = y" "ret x \<noteq> stbi_err r" "ret x \<noteq> None"
  "stbi_err r \<noteq> None"
  by (simp_all add: ret_def stbi_err_def)

lemma ebind_ret_iff: "ebind m f = ret y \<longleftrightarrow> (\<exists>x. m = ret x \<and> f x = ret y)"
  by (auto simp: ebind_def ret_def split: option.splits sum.splits)

lemma ebind_cong [fundef_cong]:
  "m = m' \<Longrightarrow> (\<And>x. m' = ret x \<Longrightarrow> f x = f' x) \<Longrightarrow> ebind m f = ebind m' f'"
  by (auto simp: ebind_def ret_def split: option.splits sum.splits)

subsection \<open>Total correctness\<close>

named_theorems wp \<open>rules for sat and esat\<close>

definition sat :: "'a option \<Rightarrow> ('a \<Rightarrow> bool) \<Rightarrow> bool" where
  "sat m P \<longleftrightarrow> (\<exists>x. m = Some x \<and> P x)"

definition esatx :: "'a res \<Rightarrow> ('a \<Rightarrow> bool) \<Rightarrow> bool \<Rightarrow> bool" where
  "esatx m P E \<longleftrightarrow> (\<exists>r. m = Some r \<and> (\<forall>x. r = Inr x \<longrightarrow> P x) \<and> (\<forall>e. r = Inl e \<longrightarrow> E))"

definition esat :: "'a res \<Rightarrow> ('a \<Rightarrow> bool) \<Rightarrow> bool" where
  "esat m P \<longleftrightarrow> esatx m P True"

lemma satE:
  assumes "sat m P"
  obtains x where "m = Some x" and "P x"
  using assms by (auto simp: sat_def)

lemma sat_Some [simp]: "sat (Some x) P \<longleftrightarrow> P x"
  by (simp add: sat_def)

lemma sat_None [simp]: "\<not> sat None P"
  by (simp add: sat_def)

lemma esatx_simps [simp]: "esatx (stbi_err r) P E \<longleftrightarrow> E" "esatx (ret x) P E \<longleftrightarrow> P x" "\<not> esatx None P E"
  by (simp_all add: esatx_def stbi_err_def ret_def)

lemma esat_simps [simp]: "esat (stbi_err r) P" "esat (ret x) P \<longleftrightarrow> P x" "\<not> esat None P"
  by (simp_all add: esat_def)

lemma esatx_retI: "esatx m P E \<Longrightarrow> \<not> E \<Longrightarrow> \<exists>x. m = ret x \<and> P x"
  unfolding esatx_def ret_def by (metis obj_sumE)

lemma esatx_imp_esat: "esatx m P E \<Longrightarrow> esat m P"
  by (auto simp: esat_def esatx_def)

lemma esatx_mono: "esatx m P E \<Longrightarrow> (\<And>x. m = ret x \<Longrightarrow> P x \<Longrightarrow> Q x) \<Longrightarrow> (E \<Longrightarrow> F) \<Longrightarrow> esatx m Q F"
  by (auto simp: esatx_def ret_def)

lemma esatx_bind: "sat m P \<Longrightarrow> (\<And>x. P x \<Longrightarrow> esatx (f x) Q E) \<Longrightarrow> esatx (m \<bind> f) Q E"
  by (auto simp: sat_def)

lemma esatx_ebind: "esatx m P E \<Longrightarrow> (\<And>x. P x \<Longrightarrow> esatx (f x) Q E) \<Longrightarrow> esatx (ebind m f) Q E"
  by (auto simp: esatx_def ebind_def split: option.splits sum.splits)

lemma sat_mono: "sat m P \<Longrightarrow> (\<And>x. m = Some x \<Longrightarrow> P x \<Longrightarrow> Q x) \<Longrightarrow> sat m Q"
  by (auto simp: sat_def)

lemma esat_mono: "esat m P \<Longrightarrow> (\<And>x. m = ret x \<Longrightarrow> P x \<Longrightarrow> Q x) \<Longrightarrow> esat m Q"
  by (auto simp: esat_def esatx_def ret_def)

lemma esat_defined: "esat m P \<Longrightarrow> m \<noteq> None"
  by (auto simp: esat_def esatx_def)

lemma esat_retD: "esat m P \<Longrightarrow> m = ret x \<Longrightarrow> P x"
  by (auto simp: esat_def esatx_def ret_def)

lemma sat_bind: "sat m P \<Longrightarrow> (\<And>x. P x \<Longrightarrow> sat (f x) Q) \<Longrightarrow> sat (m \<bind> f) Q"
  by (auto simp: sat_def)

lemma esat_bind: "sat m P \<Longrightarrow> (\<And>x. P x \<Longrightarrow> esat (f x) Q) \<Longrightarrow> esat (m \<bind> f) Q"
  by (auto simp: sat_def)

lemma esat_ebind: "esat m P \<Longrightarrow> (\<And>x. P x \<Longrightarrow> esat (f x) Q) \<Longrightarrow> esat (ebind m f) Q"
  unfolding esat_def by (rule esatx_ebind)

lemma esat_if: "(b \<Longrightarrow> esat x P) \<Longrightarrow> (\<not> b \<Longrightarrow> esat y P) \<Longrightarrow> esat (if b then x else y) P"
  by simp

lemma sat_if: "(b \<Longrightarrow> sat x P) \<Longrightarrow> (\<not> b \<Longrightarrow> sat y P) \<Longrightarrow> sat (if b then x else y) P"
  by simp

lemma sat_aget: "i < length xs \<Longrightarrow> sat (aget xs i) (\<lambda>x. x = xs ! i)"
  by simp

lemma sat_aset: "i < length xs \<Longrightarrow> sat (aset xs i v) (\<lambda>ys. ys = xs[i := v])"
  by simp

lemma sat_blit: "j + length src \<le> length dst \<Longrightarrow> sat (blit dst j src) (\<lambda>r. length r = length dst \<and>
    (\<forall>i < length dst. r ! i = (if j \<le> i \<and> i < j + length src then src ! (i - j) else dst ! i)))"
  by (auto simp: nth_append)

lemma sat_for_upto:
  assumes "P lo s" and "lo \<le> hi"
    and "\<And>i s. lo \<le> i \<Longrightarrow> i < hi \<Longrightarrow> P i s \<Longrightarrow> sat (body i s) (P (Suc i))"
  shows "sat (for_upto lo hi body s) (P hi)"
  using for_upto_inv [of P lo s hi body] assms by (auto simp: sat_def)

subsection \<open>Counting loops that may report an error\<close>

function efor :: "nat \<Rightarrow> nat \<Rightarrow> (nat \<Rightarrow> 's \<Rightarrow> 's res) \<Rightarrow> 's \<Rightarrow> 's res" where
  "efor lo hi body s =
     (if lo < hi then ebind (body lo s) (efor (lo + 1) hi body) else ret s)"
  by pat_completeness auto
termination
  by (relation "measure (\<lambda>(lo, hi, body, s). hi - lo)") auto

declare efor.simps [simp del]

lemma efor_done [simp]: "\<not> lo < hi \<Longrightarrow> efor lo hi body s = ret s"
  by (subst efor.simps) simp

lemma efor_step: "lo < hi \<Longrightarrow> efor lo hi body s = ebind (body lo s) (efor (Suc lo) hi body)"
  by (subst efor.simps) simp

lemma esatx_efor:
  assumes "P lo s" and "lo \<le> hi"
    and body: "\<And>i s. lo \<le> i \<Longrightarrow> i < hi \<Longrightarrow> P i s \<Longrightarrow> esatx (body i s) (P (Suc i)) E"
  shows "esatx (efor lo hi body s) (P hi) E"
  using assms
proof (induction "hi - lo" arbitrary: lo s)
  case 0
  then show ?case by (simp add: efor.simps)
next
  case (Suc n)
  then have less: "lo < hi" and n: "n = hi - Suc lo" by simp_all
  have "esatx (efor (Suc lo) hi body t) (P hi) E" if "P (Suc lo) t" for t
    by (rule Suc.hyps(1) [OF n that]) (use less Suc.prems in auto)
  with Suc.prems less show ?case by (simp add: efor_step esatx_ebind [where P = "P (Suc lo)"])
qed

lemma esat_efor:
  assumes "P lo s" and "lo \<le> hi"
    and "\<And>i s. lo \<le> i \<Longrightarrow> i < hi \<Longrightarrow> P i s \<Longrightarrow> esat (body i s) (P (Suc i))"
  shows "esat (efor lo hi body s) (P hi)"
  using assms unfolding esat_def by (rule esatx_efor)

subsection \<open>Loops without a static bound\<close>

text \<open>\<open>loop body s\<close> repeats \<open>body\<close> until it answers \<open>Inl\<close> with the result; the
  state is kept by \<open>Inr\<close>. \<open>None\<close> also stands for a run that never ends.\<close>

partial_function (option) loop :: "('s \<Rightarrow> ('r + 's) option) \<Rightarrow> 's \<Rightarrow> 'r option" where
  "loop body s = do { r \<leftarrow> body s; case r of Inl x \<Rightarrow> Some x | Inr s' \<Rightarrow> loop body s' }"

declare loop.simps [code]

lemma sat_loop:
  fixes measure_of :: "'s \<Rightarrow> nat"
  assumes "I s"
    and step: "\<And>s. I s \<Longrightarrow> sat (body s)
      (\<lambda>r. case r of Inl x \<Rightarrow> Q x | Inr s' \<Rightarrow> I s' \<and> measure_of s' < measure_of s)"
  shows "sat (loop body s) Q"
  using assms(1)
proof (induction "measure_of s" arbitrary: s rule: less_induct)
  case less
  obtain r where r: "body s = Some r"
    "case r of Inl x \<Rightarrow> Q x | Inr s' \<Rightarrow> I s' \<and> measure_of s' < measure_of s"
    using step [OF less.prems] by (auto elim: satE)
  show ?case
  proof (cases r)
    case (Inl x)
    with r show ?thesis by (simp add: loop.simps [of body s])
  next
    case (Inr s')
    with r less.hyps [of s'] show ?thesis by (simp add: loop.simps [of body s])
  qed
qed

text \<open>The same for a body that may report an error.\<close>

definition eloop :: "('s \<Rightarrow> ('r + 's) res) \<Rightarrow> 's \<Rightarrow> 'r res" where
  "eloop body = loop (\<lambda>s. do {
     r \<leftarrow> body s;
     Some (case r of Inl e \<Rightarrow> Inl (Inl e) | Inr (Inl x) \<Rightarrow> Inl (Inr x) | Inr (Inr s') \<Rightarrow> Inr s') })"

lemma eloop_step:
  "eloop body s = ebind (body s) (\<lambda>r. case r of Inl x \<Rightarrow> ret x | Inr s' \<Rightarrow> eloop body s')"
  unfolding eloop_def by (subst loop.simps) (auto simp: ebind_def ret_def split: option.splits sum.splits)

lemma esat_eloop:
  fixes measure_of :: "'s \<Rightarrow> nat"
  assumes "I s"
    and step: "\<And>s. I s \<Longrightarrow> esat (body s)
      (\<lambda>r. case r of Inl x \<Rightarrow> Q x | Inr s' \<Rightarrow> I s' \<and> measure_of s' < measure_of s)"
  shows "esat (eloop body s) Q"
  using assms(1)
proof (induction "measure_of s" arbitrary: s rule: less_induct)
  case less
  show ?case unfolding eloop_step [of body s]
    by (rule esat_ebind [OF step [OF less.prems]]) (auto split: sum.splits intro: less.hyps)
qed

end
