(* ===== verification/Stb_Context.thy ===== *)
theory Stb_Context
  imports C_Result
begin

text \<open>
  Input of the image library, src/user/facet/gpu/stb_image.h: the context that delivers bytes
  from a memory block or from the caller's callbacks through a 128-byte buffer, the readers of
  bytes and multi-byte integers, and the overflow checks for sizes.

  Memory that was never written is a cell \<open>None\<close>, and reading it is undefined. The callbacks
  are fields of the context and work on a user state of type \<open>'u\<close>: \<open>io_read u n\<close> answers the
  bytes it stored (at most \<open>n\<close> of them) and the new user state. Positions in the buffer are
  offsets from its start; \<^verbatim>\<open>stbi__skip\<close> may move the position past the end, as the code does.
\<close>

subsection \<open>Cells\<close>

definition rd :: "'a option list \<Rightarrow> nat \<Rightarrow> 'a option" where
  "rd xs i = do { c \<leftarrow> aget xs i; c }"

definition wr :: "'a option list \<Rightarrow> nat \<Rightarrow> 'a \<Rightarrow> 'a option list option" where
  "wr xs i v = aset xs i (Some v)"

lemma rd_Some [simp]: "i < length xs \<Longrightarrow> xs ! i = Some v \<Longrightarrow> rd xs i = Some v"
  by (simp add: rd_def)

lemma wr_in [simp]: "i < length xs \<Longrightarrow> wr xs i v = Some (xs[i := Some v])"
  by (simp add: wr_def)

lemma rd_out: "\<not> i < length xs \<Longrightarrow> rd xs i = None"
  by (simp add: rd_def aget_out)

lemma wr_out: "\<not> i < length xs \<Longrightarrow> wr xs i v = None"
  by (simp add: wr_def aset_out)

lemma rd_map_Some [simp]: "i < length xs \<Longrightarrow> rd (map Some xs) i = Some (xs ! i)"
  by (simp add: rd_def)

lemma rd_Some_iff: "rd xs i = Some v \<longleftrightarrow> i < length xs \<and> xs ! i = Some v"
  by (auto simp: rd_def aget_def)

subsection \<open>Overflow checks for sizes\<close>

definition INT_MAX :: int where "INT_MAX = 2 ^ 31 - 1"
definition INT_MIN :: int where "INT_MIN = - (2 ^ 31)"

definition stbi_addsizes_valid :: "int \<Rightarrow> int \<Rightarrow> bool" where
  "stbi_addsizes_valid a b = (if b < 0 then False else a \<le> INT_MAX - b)"

definition stbi_mul2sizes_valid :: "int \<Rightarrow> int \<Rightarrow> bool" where
  "stbi_mul2sizes_valid a b =
     (if a < 0 \<or> b < 0 then False else if b = 0 then True else a \<le> cdiv INT_MAX b)"

text \<open>The products are computed only after the factors have passed their check, so they are
  written without one here; \<open>mad3sizes_valid_iff\<close> below shows that they fit.\<close>

definition stbi_mad2sizes_valid :: "int \<Rightarrow> int \<Rightarrow> int \<Rightarrow> bool" where
  "stbi_mad2sizes_valid a b add \<longleftrightarrow> stbi_mul2sizes_valid a b \<and> stbi_addsizes_valid (a * b) add"

definition stbi_mad3sizes_valid :: "int \<Rightarrow> int \<Rightarrow> int \<Rightarrow> int \<Rightarrow> bool" where
  "stbi_mad3sizes_valid a b c add \<longleftrightarrow>
     stbi_mul2sizes_valid a b \<and> stbi_mul2sizes_valid (a * b) c \<and> stbi_addsizes_valid (a * b * c) add"

definition stbi_mad4sizes_valid :: "int \<Rightarrow> int \<Rightarrow> int \<Rightarrow> int \<Rightarrow> int \<Rightarrow> bool" where
  "stbi_mad4sizes_valid a b c d add \<longleftrightarrow>
     stbi_mul2sizes_valid a b \<and> stbi_mul2sizes_valid (a * b) c \<and>
     stbi_mul2sizes_valid (a * b * c) d \<and> stbi_addsizes_valid (a * b * c * d) add"

text \<open>\<^verbatim>\<open>stbi__malloc\<close>: \<open>ok\<close> tells whether the allocator has memory for a block of this size.
  A fresh block is not initialised. \<^verbatim>\<open>NULL\<close> is \<open>None\<close>.\<close>

type_synonym allocator = "nat \<Rightarrow> bool"

definition stbi_malloc :: "allocator \<Rightarrow> nat \<Rightarrow> 'a option list option" where
  "stbi_malloc ok n = (if ok n then Some (replicate n None) else None)"

definition stbi_malloc_mad2 :: "allocator \<Rightarrow> int \<Rightarrow> int \<Rightarrow> int \<Rightarrow> 'a option list option" where
  "stbi_malloc_mad2 ok a b add =
     (if \<not> stbi_mad2sizes_valid a b add then None else stbi_malloc ok (nat (a * b + add)))"

definition stbi_malloc_mad3 :: "allocator \<Rightarrow> int \<Rightarrow> int \<Rightarrow> int \<Rightarrow> int \<Rightarrow> 'a option list option" where
  "stbi_malloc_mad3 ok a b c add =
     (if \<not> stbi_mad3sizes_valid a b c add then None else stbi_malloc ok (nat (a * b * c + add)))"

definition stbi_malloc_mad4 :: "allocator \<Rightarrow> int \<Rightarrow> int \<Rightarrow> int \<Rightarrow> int \<Rightarrow> int \<Rightarrow> 'a option list option" where
  "stbi_malloc_mad4 ok a b c d add =
     (if \<not> stbi_mad4sizes_valid a b c d add then None else stbi_malloc ok (nat (a * b * c * d + add)))"

definition stbi_addints_valid :: "int \<Rightarrow> int \<Rightarrow> bool" where
  "stbi_addints_valid a b =
     (if (a \<ge> 0) \<noteq> (b \<ge> 0) then True
      else if a < 0 \<and> b < 0 then a \<ge> INT_MIN - b
      else a \<le> INT_MAX - b)"

definition stbi_mul2shorts_valid :: "int \<Rightarrow> int \<Rightarrow> bool" where
  "stbi_mul2shorts_valid a b =
     (if b = 0 \<or> b = - 1 then True
      else if (a \<ge> 0) = (b \<ge> 0) then a \<le> cdiv 32767 b
      else if b < 0 then a \<le> cdiv (- 32768) b
      else a \<ge> cdiv (- 32768) b)"

subsection \<open>The context\<close>

record 'u stbi_io =
  io_read :: "'u \<Rightarrow> int \<Rightarrow> bytes \<times> 'u"
  io_skip :: "'u \<Rightarrow> int \<Rightarrow> 'u"
  io_eof :: "'u \<Rightarrow> bool"

record 'u stbi_context =
  img_x :: u32
  img_y :: u32
  img_n :: int
  img_out_n :: int
  io :: "'u stbi_io option"
  io_user_data :: 'u
  read_from_callbacks :: bool
  buflen :: int
  callback_already_read :: int
  buf :: "byte option list"
  img_buffer :: nat
  img_buffer_end :: nat
  img_buffer_original :: nat
  img_buffer_original_end :: nat

definition stbi_start_mem :: "'u stbi_context \<Rightarrow> bytes \<Rightarrow> nat \<Rightarrow> 'u stbi_context" where
  "stbi_start_mem s buffer len =
     s\<lparr>io := None, read_from_callbacks := False, callback_already_read := 0,
       buf := map Some buffer, img_buffer := 0, img_buffer_original := 0,
       img_buffer_end := len, img_buffer_original_end := len\<rparr>"

definition stbi_refill_buffer :: "'u stbi_context \<Rightarrow> 'u stbi_context option" where
  "stbi_refill_buffer s = do {
     cb \<leftarrow> io s;
     let (data, u) = io_read cb (io_user_data s) (buflen s);
     b \<leftarrow> blit (buf s) 0 (map Some data);
     car \<leftarrow> i32 (callback_already_read s + (int (img_buffer s) - int (img_buffer_original s)));
     let s = s\<lparr>io_user_data := u, buf := b, callback_already_read := car\<rparr>;
     if data = [] then do {
       b \<leftarrow> wr (buf s) 0 0;
       Some (s\<lparr>read_from_callbacks := False, img_buffer := 0, img_buffer_end := 1, buf := b\<rparr>)
     } else Some (s\<lparr>img_buffer := 0, img_buffer_end := length data\<rparr>)
   }"

definition stbi_start_callbacks :: "'u stbi_context \<Rightarrow> 'u stbi_io \<Rightarrow> 'u \<Rightarrow> 'u stbi_context option" where
  "stbi_start_callbacks s c user = do {
     s \<leftarrow> stbi_refill_buffer
       (s\<lparr>io := Some c, io_user_data := user, buflen := 128, read_from_callbacks := True,
          callback_already_read := 0, buf := replicate 128 None,
          img_buffer := 0, img_buffer_original := 0\<rparr>);
     Some (s\<lparr>img_buffer_original_end := img_buffer_end s\<rparr>)
   }"

definition stbi_rewind :: "'u stbi_context \<Rightarrow> 'u stbi_context" where
  "stbi_rewind s = s\<lparr>img_buffer := img_buffer_original s, img_buffer_end := img_buffer_original_end s\<rparr>"

definition stbi_get8 :: "'u stbi_context \<Rightarrow> (byte \<times> 'u stbi_context) option" where
  "stbi_get8 s =
     (if img_buffer s < img_buffer_end s then do {
        b \<leftarrow> rd (buf s) (img_buffer s);
        Some (b, s\<lparr>img_buffer := img_buffer s + 1\<rparr>)
      } else if read_from_callbacks s then do {
        s \<leftarrow> stbi_refill_buffer s;
        b \<leftarrow> rd (buf s) (img_buffer s);
        Some (b, s\<lparr>img_buffer := img_buffer s + 1\<rparr>)
      } else Some (0, s))"

definition stbi_at_eof :: "'u stbi_context \<Rightarrow> bool" where
  "stbi_at_eof s = (case io s of
     Some cb \<Rightarrow> if \<not> io_eof cb (io_user_data s) then False
                else if \<not> read_from_callbacks s then True
                else img_buffer s \<ge> img_buffer_end s
   | None \<Rightarrow> img_buffer s \<ge> img_buffer_end s)"

definition stbi_skip :: "'u stbi_context \<Rightarrow> int \<Rightarrow> 'u stbi_context" where
  "stbi_skip s n =
     (if n = 0 then s
      else if n < 0 then s\<lparr>img_buffer := img_buffer_end s\<rparr>
      else (case io s of
        Some cb \<Rightarrow>
          let blen = int (img_buffer_end s) - int (img_buffer s)
          in if blen < n
             then s\<lparr>img_buffer := img_buffer_end s, io_user_data := io_skip cb (io_user_data s) (n - blen)\<rparr>
             else s\<lparr>img_buffer := img_buffer s + nat n\<rparr>
      | None \<Rightarrow> s\<lparr>img_buffer := img_buffer s + nat n\<rparr>))"

text \<open>\<^verbatim>\<open>stbi__getn\<close> answers the bytes it copied, or \<open>None\<close> inside the pair when it returns 0. A
  callback that stores more than it was asked for is undefined.\<close>

definition stbi_getn :: "'u stbi_context \<Rightarrow> nat \<Rightarrow> (bytes option \<times> 'u stbi_context) option" where
  "stbi_getn s n =
     (let blen = int (img_buffer_end s) - int (img_buffer s)
      in case (io s, blen < int n) of
        (Some cb, True) \<Rightarrow> do {
          cells \<leftarrow> slice (buf s) (img_buffer s) (nat blen);
          have \<leftarrow> all_some cells;
          let (data, u) = io_read cb (io_user_data s) (int n - blen);
          let s = s\<lparr>io_user_data := u, img_buffer := img_buffer_end s\<rparr>;
          if int (length data) > int n - blen then None
          else if int (length data) = int n - blen then Some (Some (have @ data), s)
          else Some (None, s)
        }
      | _ \<Rightarrow>
        if img_buffer s + n \<le> img_buffer_end s then do {
          cells \<leftarrow> slice (buf s) (img_buffer s) n;
          data \<leftarrow> all_some cells;
          Some (Some data, s\<lparr>img_buffer := img_buffer s + n\<rparr>)
        } else Some (None, s))"

definition stbi_get16be :: "'u stbi_context \<Rightarrow> (int \<times> 'u stbi_context) option" where
  "stbi_get16be s = do {
     (z, s) \<leftarrow> stbi_get8 s;
     (b, s) \<leftarrow> stbi_get8 s;
     Some (uint z * 2 ^ 8 + uint b, s)
   }"

definition stbi_get32be :: "'u stbi_context \<Rightarrow> (u32 \<times> 'u stbi_context) option" where
  "stbi_get32be s = do {
     (z, s) \<leftarrow> stbi_get16be s;
     (b, s) \<leftarrow> stbi_get16be s;
     Some (push_bit 16 (word_of_int z) + word_of_int b, s)
   }"

definition stbi_get16le :: "'u stbi_context \<Rightarrow> (int \<times> 'u stbi_context) option" where
  "stbi_get16le s = do {
     (z, s) \<leftarrow> stbi_get8 s;
     (b, s) \<leftarrow> stbi_get8 s;
     Some (uint z + uint b * 2 ^ 8, s)
   }"

definition stbi_get32le :: "'u stbi_context \<Rightarrow> (u32 \<times> 'u stbi_context) option" where
  "stbi_get32le s = do {
     (z, s) \<leftarrow> stbi_get16le s;
     (b, s) \<leftarrow> stbi_get16le s;
     Some (word_of_int z + push_bit 16 (word_of_int b), s)
   }"

subsection \<open>Shifts, limits and results\<close>

text \<open>Shifting a 32-bit value by less than 0 or more than 31 is undefined.\<close>

definition shl32 :: "u32 \<Rightarrow> int \<Rightarrow> u32 option" where
  "shl32 x n = (if 0 \<le> n \<and> n < 32 then Some (push_bit (nat n) x) else None)"

definition shr32 :: "u32 \<Rightarrow> int \<Rightarrow> u32 option" where
  "shr32 x n = (if 0 \<le> n \<and> n < 32 then Some (drop_bit (nat n) x) else None)"

definition STBI_MAX_DIMENSIONS :: u32 where "STBI_MAX_DIMENSIONS = push_bit 24 1"

text \<open>What a loader returns: the block of samples, the size, the number of channels in the file
  and \<^verbatim>\<open>ri->bits_per_channel\<close>.\<close>

record loaded =
  ld_data :: "byte option list"
  ld_x :: int
  ld_y :: int
  ld_comp :: int
  ld_bits :: int

subsection \<open>What the size checks accept\<close>

lemma le_div_iff_int: "0 < b \<Longrightarrow> a \<le> M div b \<longleftrightarrow> a * b \<le> M" for a b M :: int
proof
  assume b: "0 < b" and "a \<le> M div b"
  then have "a * b \<le> (M div b) * b" by simp
  also have "\<dots> \<le> M" using b by (simp add: minus_mod_eq_div_mult [symmetric])
  finally show "a * b \<le> M" .
next
  assume b: "0 < b" and "a * b \<le> M"
  then show "a \<le> M div b" using zdiv_mono1 [of "a * b" M b] by simp
qed

lemma mul2_valid_iff:
  "stbi_mul2sizes_valid a b \<longleftrightarrow> 0 \<le> a \<and> 0 \<le> b \<and> a * b \<le> INT_MAX"
  using le_div_iff_int [of b a INT_MAX] by (auto simp: stbi_mul2sizes_valid_def INT_MAX_def)

text \<open>The checks accept exactly the sizes whose exact value fits an \<^verbatim>\<open>int\<close>, and no
  intermediate product that the C code computes leaves the range either.\<close>

lemma mad2_valid_iff:
  "stbi_mad2sizes_valid a b add \<longleftrightarrow>
     0 \<le> a \<and> 0 \<le> b \<and> 0 \<le> add \<and> a * b + add \<le> INT_MAX"
  by (auto simp: stbi_mad2sizes_valid_def mul2_valid_iff stbi_addsizes_valid_def)

lemma mad3_valid_iff:
  "stbi_mad3sizes_valid a b c add \<longleftrightarrow>
     0 \<le> a \<and> 0 \<le> b \<and> a * b \<le> INT_MAX \<and> 0 \<le> c \<and> 0 \<le> add \<and> a * b * c + add \<le> INT_MAX"
  by (auto simp: stbi_mad3sizes_valid_def mul2_valid_iff stbi_addsizes_valid_def)

lemma mad4_valid_iff:
  "stbi_mad4sizes_valid a b c d add \<longleftrightarrow>
     0 \<le> a \<and> 0 \<le> b \<and> a * b \<le> INT_MAX \<and> 0 \<le> c \<and> a * b * c \<le> INT_MAX \<and>
     0 \<le> d \<and> 0 \<le> add \<and> a * b * c * d + add \<le> INT_MAX"
  by (auto simp: stbi_mad4sizes_valid_def mul2_valid_iff stbi_addsizes_valid_def)

lemma addints_valid_iff:
  "INT_MIN \<le> a \<Longrightarrow> a \<le> INT_MAX \<Longrightarrow> INT_MIN \<le> b \<Longrightarrow> b \<le> INT_MAX \<Longrightarrow>
     stbi_addints_valid a b \<longleftrightarrow> INT_MIN \<le> a + b \<and> a + b \<le> INT_MAX"
  by (auto simp: stbi_addints_valid_def INT_MAX_def INT_MIN_def)

lemma cdiv_pos: "0 < b \<Longrightarrow> 0 \<le> a \<Longrightarrow> cdiv (- a) b = - (a div b)" "0 < b \<Longrightarrow> 0 \<le> a \<Longrightarrow> cdiv a (- b) = - (a div b)"
  "0 < b \<Longrightarrow> 0 \<le> a \<Longrightarrow> cdiv (- a) (- b) = a div b"
  by (cases "a = 0"; simp add: cdiv_def)+

lemma mul2shorts_pos:
  assumes b: "0 < b"
  shows "stbi_mul2shorts_valid a b \<longleftrightarrow> - 32768 \<le> a * b \<and> a * b \<le> 32767"
proof (cases "0 \<le> a")
  case True
  then have "0 \<le> a * b" using b by simp
  then have "- 32768 \<le> a * b" by linarith
  with True b le_div_iff_int [OF b, of a 32767] show ?thesis
    by (auto simp: stbi_mul2shorts_valid_def)
next
  case False
  then have "a * b \<le> 0" using b by (simp add: mult_le_0_iff)
  with False b le_div_iff_int [OF b, of "- a" 32768] show ?thesis
    by (auto simp: stbi_mul2shorts_valid_def cdiv_pos)
qed

lemma mul2shorts_mixed:
  assumes a: "0 \<le> a" and b: "b < - 1"
  shows "stbi_mul2shorts_valid a b \<longleftrightarrow> - 32768 \<le> a * b \<and> a * b \<le> 32767"
proof -
  have "0 \<le> a * - b" using a b by (intro mult_nonneg_nonneg) auto
  then show ?thesis
    using a b le_div_iff_int [of "- b" a 32768] cdiv_pos(3) [of "- b" 32768]
    by (auto simp: stbi_mul2shorts_valid_def)
qed

text \<open>stbi__mul2shorts_valid is exact when its factors differ in sign or are not negative:
  then it answers whether the product fits a signed short. When both factors are negative it
  answers the opposite of what its comment says: every product of a factor at or below
  32767/b is accepted, however large, and every smaller one is rejected; a factor of -1 is
  accepted always.\<close>

theorem mul2shorts_valid_spec:
  "(0 < b \<or> 0 \<le> a \<and> b < - 1 \<longrightarrow>
      (stbi_mul2shorts_valid a b \<longleftrightarrow> - 32768 \<le> a * b \<and> a * b \<le> 32767)) \<and>
   (a < 0 \<and> b < - 1 \<longrightarrow> (stbi_mul2shorts_valid a b \<longleftrightarrow> a \<le> - (32767 div - b))) \<and>
   stbi_mul2shorts_valid a (- 1)"
proof -
  have "stbi_mul2shorts_valid a b \<longleftrightarrow> a \<le> - (32767 div - b)" if "a < 0" "b < - 1"
    using that cdiv_pos(2) [of "- b" 32767] by (auto simp: stbi_mul2shorts_valid_def)
  moreover have "stbi_mul2shorts_valid a (- 1)" by (simp add: stbi_mul2shorts_valid_def)
  ultimately show ?thesis using mul2shorts_pos [of b a] mul2shorts_mixed [of a b] by blast
qed

theorem mul2shorts_valid_spec_witness:
  "\<not> stbi_mul2shorts_valid (- 1) (- 2) \<and> stbi_mul2shorts_valid (- 30000) (- 2) \<and>
   stbi_mul2shorts_valid 1000 30 \<and> \<not> stbi_mul2shorts_valid 1000 33 \<and> stbi_mul2shorts_valid 3 (- 7)"
  using mul2shorts_valid_spec [of 30 1000] mul2shorts_valid_spec [of 33 1000]
    mul2shorts_valid_spec [of "- 7" 3] mul2shorts_valid_spec [of "- 2" "- 1"]
    mul2shorts_valid_spec [of "- 2" "- 30000"]
  by simp

subsection \<open>The byte stream of a context\<close>

text \<open>What a loader needs of its context: \<open>strm s\<close> is the infinite sequence of bytes still to
  come (zeros after the end of the data), and \<^verbatim>\<open>stbi__get8\<close> delivers its head.\<close>

type_synonym byte_stream = "nat \<Rightarrow> byte"

definition stream_of :: "bytes \<Rightarrow> byte_stream" where
  "stream_of xs i = (if i < length xs then xs ! i else 0)"

definition stream_drop :: "nat \<Rightarrow> byte_stream \<Rightarrow> byte_stream" where
  "stream_drop n f i = f (i + n)"

lemma stream_drop_simps [simp]:
  "stream_drop 0 f = f" "stream_drop m (stream_drop n f) = stream_drop (n + m) f"
  "stream_drop n f 0 = f n"
  by (auto simp: stream_drop_def fun_eq_iff ac_simps)

lemma stream_of_drop: "stream_drop n (stream_of xs) = stream_of (drop n xs)"
  by (auto simp: stream_drop_def stream_of_def fun_eq_iff ac_simps)

fun get_bytes :: "nat \<Rightarrow> 'u stbi_context \<Rightarrow> (bytes \<times> 'u stbi_context) option" where
  "get_bytes 0 s = Some ([], s)"
| "get_bytes (Suc n) s = do {
     (b, s) \<leftarrow> stbi_get8 s;
     (bs, s) \<leftarrow> get_bytes n s;
     Some (b # bs, s)
   }"

locale byte_source =
  fixes ok :: "'u stbi_context \<Rightarrow> bool"
    and strm :: "'u stbi_context \<Rightarrow> byte_stream"
  assumes get8_strm: "ok s \<Longrightarrow>
    \<exists>s'. stbi_get8 s = Some (strm s 0, s') \<and> ok s' \<and> strm s' = stream_drop 1 (strm s)"
begin

lemma get_bytes_strm:
  "ok s \<Longrightarrow> \<exists>s'. get_bytes n s = Some (map (strm s) [0..<n], s') \<and> ok s' \<and>
     strm s' = stream_drop n (strm s)"
proof (induction n arbitrary: s)
  case (Suc n)
  obtain s1 where s1: "stbi_get8 s = Some (strm s 0, s1)" "ok s1" "strm s1 = stream_drop 1 (strm s)"
    using get8_strm [OF Suc.prems] by blast
  obtain s2 where s2: "get_bytes n s1 = Some (map (strm s1) [0..<n], s2)" "ok s2"
    "strm s2 = stream_drop n (strm s1)" using Suc.IH [OF s1(2)] by blast
  have "strm s 0 # map (strm s1) [0..<n] = map (strm s) [0..<Suc n]"
    by (simp add: s1(3) stream_drop_def map_upt_Suc del: upt_Suc)
  with s1 s2 show ?case by simp
qed simp

lemma get16be_strm:
  "ok s \<Longrightarrow> \<exists>s'. stbi_get16be s = Some (uint (strm s 0) * 256 + uint (strm s 1), s') \<and> ok s' \<and>
     strm s' = stream_drop 2 (strm s)"
  using get8_strm [of s] get8_strm by (fastforce simp: stbi_get16be_def stream_drop_def)

lemma get16le_strm:
  "ok s \<Longrightarrow> \<exists>s'. stbi_get16le s = Some (uint (strm s 0) + uint (strm s 1) * 256, s') \<and> ok s' \<and>
     strm s' = stream_drop 2 (strm s)"
  using get8_strm [of s] get8_strm by (fastforce simp: stbi_get16le_def stream_drop_def)

end

subsection \<open>Memory contexts\<close>

definition mem_ctx :: "'u stbi_context \<Rightarrow> bool" where
  "mem_ctx s \<longleftrightarrow> io s = None \<and> \<not> read_from_callbacks s \<and> img_buffer_end s \<le> length (buf s) \<and>
     img_buffer_original_end s \<le> length (buf s) \<and> (\<forall>i < length (buf s). buf s ! i \<noteq> None)"

definition pending :: "'u stbi_context \<Rightarrow> bytes" where
  "pending s = map the (drop (img_buffer s) (take (img_buffer_end s) (buf s)))"

lemma mem_ctx_start: "len \<le> length buffer \<Longrightarrow> mem_ctx (stbi_start_mem s buffer len)"
  by (simp add: mem_ctx_def stbi_start_mem_def)

lemma pending_start: "len \<le> length buffer \<Longrightarrow> pending (stbi_start_mem s buffer len) = take len buffer"
  by (simp add: pending_def stbi_start_mem_def take_map)

lemma pending_step:
  assumes "img_buffer s < img_buffer_end s" and "img_buffer_end s \<le> length (buf s)"
  shows "pending s = the (buf s ! img_buffer s) # pending (s\<lparr>img_buffer := img_buffer s + 1\<rparr>)"
proof -
  have "drop (img_buffer s) (take (img_buffer_end s) (buf s)) =
      buf s ! img_buffer s # drop (img_buffer s + 1) (take (img_buffer_end s) (buf s))"
    using assms by (subst Cons_nth_drop_Suc [symmetric]) simp_all
  then show ?thesis by (simp add: pending_def)
qed

lemma stream_of_Cons: "stream_of (x # xs) 0 = x" "stream_drop (Suc 0) (stream_of (x # xs)) = stream_of xs"
  by (simp_all add: stream_of_drop) (simp add: stream_of_def)

lemma stream_of_Nil: "stream_of [] = (\<lambda>i. 0)" "stream_drop n (\<lambda>i. 0) = (\<lambda>i. 0)"
  by (simp_all add: stream_of_def stream_drop_def fun_eq_iff)

lemma mem_get8:
  assumes "mem_ctx s"
  shows "\<exists>s'. stbi_get8 s = Some (stream_of (pending s) 0, s') \<and> mem_ctx s' \<and>
     stream_of (pending s') = stream_drop 1 (stream_of (pending s))"
proof (cases "img_buffer s < img_buffer_end s")
  case True
  then have "img_buffer s < length (buf s)" using assms by (simp add: mem_ctx_def)
  then obtain b where b: "buf s ! img_buffer s = Some b" using assms by (auto simp: mem_ctx_def)
  then have "stbi_get8 s = Some (b, s\<lparr>img_buffer := img_buffer s + 1\<rparr>)"
    using True \<open>img_buffer s < length (buf s)\<close> by (simp add: stbi_get8_def)
  moreover have "pending s = b # pending (s\<lparr>img_buffer := img_buffer s + 1\<rparr>)"
    using pending_step [OF True] assms b by (simp add: mem_ctx_def)
  ultimately show ?thesis using assms by (simp add: stream_of_Cons) (simp add: mem_ctx_def)
next
  case False
  then have "pending s = []" by (simp add: pending_def)
  with False assms show ?thesis by (simp add: stbi_get8_def mem_ctx_def stream_of_Nil)
qed

interpretation mem_src: byte_source mem_ctx "\<lambda>s. stream_of (pending s)"
  by unfold_locales (rule mem_get8)

subsection \<open>Callback contexts\<close>

text \<open>The documented behaviour of the \<^verbatim>\<open>read\<close> callback: it stores the next bytes of its data,
  at least one of them unless the data is exhausted and never more than it was asked for.\<close>

definition reader :: "'u stbi_io \<Rightarrow> ('u \<Rightarrow> bytes) \<Rightarrow> bool" where
  "reader c content \<longleftrightarrow> (\<forall>u n. 0 < n \<longrightarrow> (\<exists>k. fst (io_read c u n) = take k (content u) \<and>
     content (snd (io_read c u n)) = drop k (content u) \<and> int k \<le> n \<and> (k = 0 \<longrightarrow> content u = [])))"

definition cb_ctx :: "('u \<Rightarrow> bytes) \<Rightarrow> 'u stbi_context \<Rightarrow> bool" where
  "cb_ctx content s \<longleftrightarrow> (\<exists>c. io s = Some c \<and> reader c content) \<and> buflen s = 128 \<and> length (buf s) = 128 \<and>
     img_buffer_original s = 0 \<and> img_buffer s \<le> img_buffer_end s \<and> img_buffer_end s \<le> 128 \<and>
     (\<forall>i < img_buffer_end s. buf s ! i \<noteq> None) \<and> 0 \<le> callback_already_read s \<and>
     (if read_from_callbacks s
      then callback_already_read s + int (img_buffer_end s) + int (length (content (io_user_data s))) < 2 ^ 31
      else content (io_user_data s) = [])"

definition cb_pending :: "('u \<Rightarrow> bytes) \<Rightarrow> 'u stbi_context \<Rightarrow> bytes" where
  "cb_pending content s = pending s @ content (io_user_data s)"

lemma reader_read:
  assumes "reader c content"
  obtains k where "fst (io_read c u 128) = take k (content u)"
    "content (snd (io_read c u 128)) = drop k (content u)" "k \<le> 128" "k = 0 \<longrightarrow> content u = []"
  using assms by (auto simp: reader_def dest!: spec [of _ u] spec [of _ 128])

text \<open>A refill of an exhausted buffer keeps the stream.\<close>

lemma refill_ok:
  assumes ok: "(\<exists>c. io s = Some c \<and> reader c content)" "buflen s = 128" "length (buf s) = 128"
    "img_buffer_original s = 0" "0 \<le> callback_already_read s" "read_from_callbacks s"
    and budget: "callback_already_read s + int (img_buffer s) + int (length (content (io_user_data s))) < 2 ^ 31"
  shows "\<exists>s'. stbi_refill_buffer s = Some s' \<and> cb_ctx content s' \<and> img_buffer s' = 0 \<and>
     0 < img_buffer_end s' \<and> stream_of (cb_pending content s') = stream_of (content (io_user_data s))"
proof -
  obtain c where c: "io s = Some c" "reader c content" using ok(1) by blast
  let ?u = "io_user_data s"
  obtain k where k: "fst (io_read c ?u 128) = take k (content ?u)"
    "content (snd (io_read c ?u 128)) = drop k (content ?u)" "k \<le> 128" "k = 0 \<longrightarrow> content ?u = []"
    by (rule reader_read [OF c(2)])
  have car: "i32 (callback_already_read s + int (img_buffer s)) = Some (callback_already_read s + int (img_buffer s))"
    using budget ok(5) by (simp add: i32_def)
  show ?thesis
  proof (cases "content ?u = []")
    case True
    let ?s = "s\<lparr>io_user_data := snd (io_read c ?u 128), callback_already_read := callback_already_read s + int (img_buffer s),
      read_from_callbacks := False, img_buffer := 0, img_buffer_end := 1, buf := (buf s)[0 := Some 0]\<rparr>"
    have "stbi_refill_buffer s = Some ?s"
      using ok c k True car by (simp add: stbi_refill_buffer_def split_beta)
    moreover have "take 1 ((buf s)[0 := Some 0]) = [Some 0]"
      using ok(3) by (cases "buf s") auto
    then have "cb_pending content ?s = [0]"
      using k(2) True by (simp add: cb_pending_def pending_def)
    ultimately show ?thesis
      using ok c k True by (simp add: cb_ctx_def) (auto simp: stream_of_def fun_eq_iff)
  next
    case False
    then have k0: "0 < k" "take k (content ?u) \<noteq> []" using k(4) by auto
    let ?d = "take k (content ?u)"
    let ?s = "s\<lparr>io_user_data := snd (io_read c ?u 128), callback_already_read := callback_already_read s + int (img_buffer s),
      img_buffer := 0, img_buffer_end := length ?d, buf := map Some ?d @ drop (length ?d) (buf s)\<rparr>"
    have ld: "length ?d \<le> 128" "0 < length ?d" using k(3) k0 by auto
    have "stbi_refill_buffer s = Some ?s"
      using ok c k False car ld k0 by (simp add: stbi_refill_buffer_def split_beta)
    moreover have "cb_pending content ?s = content ?u"
      using k(2) by (simp add: cb_pending_def pending_def comp_def)
    moreover have "cb_ctx content ?s"
      using ok c ld budget k(2) by (auto simp: cb_ctx_def nth_append)
    moreover have "img_buffer ?s = 0" "0 < img_buffer_end ?s" using ld by simp_all
    ultimately show ?thesis by (intro exI [of _ ?s] conjI) simp_all
  qed
qed

lemma cb_get8:
  assumes ok: "cb_ctx content s"
  shows "\<exists>s'. stbi_get8 s = Some (stream_of (cb_pending content s) 0, s') \<and> cb_ctx content s' \<and>
     stream_of (cb_pending content s') = stream_drop 1 (stream_of (cb_pending content s))"
proof -
  have take_head: "\<exists>s'. (do { b \<leftarrow> rd (buf t) (img_buffer t); Some (b, t\<lparr>img_buffer := img_buffer t + 1\<rparr>) })
        = Some (stream_of (cb_pending content t) 0, s') \<and> cb_ctx content s' \<and>
      stream_of (cb_pending content s') = stream_drop 1 (stream_of (cb_pending content t))"
    if t: "cb_ctx content t" "img_buffer t < img_buffer_end t" for t :: "'a stbi_context"
  proof -
    have len: "img_buffer t < length (buf t)" "img_buffer_end t \<le> length (buf t)"
      using t by (auto simp: cb_ctx_def)
    obtain b where b: "buf t ! img_buffer t = Some b" using t by (auto simp: cb_ctx_def)
    have "cb_pending content t = b # cb_pending content (t\<lparr>img_buffer := img_buffer t + 1\<rparr>)"
      using pending_step [OF t(2) len(2)] b by (simp add: cb_pending_def)
    moreover have "cb_ctx content (t\<lparr>img_buffer := img_buffer t + 1\<rparr>)"
      using t by (auto simp: cb_ctx_def)
    ultimately show ?thesis using b len by (simp add: stream_of_Cons)
  qed
  show ?thesis
  proof (cases "img_buffer s < img_buffer_end s")
    case True
    then show ?thesis using take_head [OF ok True] by (simp add: stbi_get8_def)
  next
    case False
    then have p: "pending s = []" and ib: "img_buffer s = img_buffer_end s"
      using ok by (auto simp: pending_def cb_ctx_def)
    show ?thesis
    proof (cases "read_from_callbacks s")
      case True
      obtain s' where s': "stbi_refill_buffer s = Some s'" "cb_ctx content s'" "img_buffer s' = 0"
        "0 < img_buffer_end s'" "stream_of (cb_pending content s') = stream_of (content (io_user_data s))"
        using refill_ok [of s content] ok True ib by (auto simp: cb_ctx_def)
      with take_head [of s'] True False p show ?thesis
        by (simp add: stbi_get8_def cb_pending_def)
    next
      case nocb: False
      then have "cb_pending content s = []" using ok p by (auto simp: cb_ctx_def cb_pending_def)
      with nocb False ok show ?thesis by (simp add: stbi_get8_def stream_of_Nil)
    qed
  qed
qed

interpretation cb_src: byte_source "cb_ctx content" "\<lambda>s. stream_of (cb_pending content s)" for content
  by unfold_locales (rule cb_get8)

text \<open>C13: A context over callbacks delivers the same bytes as a context over the memory block
  with the same content, whatever pieces the read callback hands out: any number of
  stbi__get8 calls on either is defined and yields the content followed by zeros. The callback
  behaves as documented, and the content is shorter than 2^31 bytes, because the count of
  consumed bytes is a signed int.\<close>

theorem callback_stream_eq_memory:
  assumes "reader c content" and "length (content u) < 2 ^ 31"
  shows "\<exists>s s1 s2. stbi_start_callbacks s0 c u = Some s \<and>
     get_bytes n s = Some (map (stream_of (content u)) [0..<n], s1) \<and>
     get_bytes n (stbi_start_mem t0 (content u) (length (content u)))
       = Some (map (stream_of (content u)) [0..<n], s2)"
proof -
  let ?s = "s0\<lparr>io := Some c, io_user_data := u, buflen := 128, read_from_callbacks := True,
    callback_already_read := 0, buf := replicate 128 None, img_buffer := 0, img_buffer_original := 0\<rparr>"
  obtain s' where s': "stbi_refill_buffer ?s = Some s'" "cb_ctx content s'"
    "stream_of (cb_pending content s') = stream_of (content u)"
    using refill_ok [of ?s content] assms by auto
  let ?s' = "s'\<lparr>img_buffer_original_end := img_buffer_end s'\<rparr>"
  have "stbi_start_callbacks s0 c u = Some ?s'" using s'(1) by (simp add: stbi_start_callbacks_def)
  moreover have "cb_ctx content ?s'" "cb_pending content ?s' = cb_pending content s'"
    using s'(2) by (auto simp: cb_ctx_def cb_pending_def pending_def split: if_splits)
  then obtain s1 where "get_bytes n ?s' = Some (map (stream_of (content u)) [0..<n], s1)"
    using cb_src.get_bytes_strm [of content ?s' n] s'(3) by auto
  moreover obtain s2 where "get_bytes n (stbi_start_mem t0 (content u) (length (content u)))
      = Some (map (stream_of (content u)) [0..<n], s2)"
    using mem_src.get_bytes_strm [OF mem_ctx_start [of _ _ t0], of "length (content u)" "content u" n]
    by (auto simp: pending_start)
  ultimately show ?thesis by blast
qed

definition list_io :: "bytes stbi_io" where
  "list_io = \<lparr>io_read = \<lambda>u n. (take (min 3 (nat n)) u, drop (min 3 (nat n)) u),
     io_skip = \<lambda>u n. drop (nat n) u, io_eof = \<lambda>u. u = []\<rparr>"

theorem callback_stream_eq_memory_witness:
  "\<exists>s s1 s2. stbi_start_callbacks undefined list_io [1, 2, 3, 4, 5] = Some s \<and>
     get_bytes 6 s = Some ([1, 2, 3, 4, 5, 0], s1) \<and>
     get_bytes 6 (stbi_start_mem (undefined :: bytes stbi_context) [1, 2, 3, 4, 5] (length [1, 2, 3, 4, 5 :: byte]))
       = Some ([1, 2, 3, 4, 5, 0], s2)"
proof -
  have "reader list_io (\<lambda>u. u)"
    unfolding reader_def list_io_def by (auto intro!: exI [of _ "min 3 (nat _)"])
  moreover have "map (stream_of [1, 2, 3, 4, 5]) [0..<6] = [1, 2, 3, 4, 5, 0]"
    by (simp add: stream_of_def upt_rec [of _ 6])
  ultimately show ?thesis
    using callback_stream_eq_memory [of list_io "\<lambda>u. u" "[1, 2, 3, 4, 5]" undefined 6] by simp
qed

end
