(* ===== verification/Stb_Pixels.thy ===== *)
theory Stb_Pixels
  imports Stb_Context
begin

text \<open>
  Pixel formats of src/user/facet/gpu/stb_image.h: conversion between 1 to 4 channels of 8 or 16
  bits, between 8 and 16 bits, and the vertical flip.

  An image is a block of byte cells. A 16-bit sample is two cells, the low byte first (the
  byte order of the supported targets, x86-64 and arm64). \<^verbatim>\<open>STBI_ASSERT\<close> that fails aborts,
  which is \<open>None\<close> here.
\<close>

subsection \<open>16-bit samples in memory\<close>

type_synonym u16 = "16 word"

definition rd16 :: "byte option list \<Rightarrow> nat \<Rightarrow> u16 option" where
  "rd16 m i = do {
     lo \<leftarrow> rd m (2 * i);
     hi \<leftarrow> rd m (2 * i + 1);
     Some (word_of_nat (unat hi * 256 + unat lo)) }"

definition wr16 :: "byte option list \<Rightarrow> nat \<Rightarrow> u16 \<Rightarrow> byte option list option" where
  "wr16 m i v = do {
     m \<leftarrow> wr m (2 * i) (word_of_nat (unat v mod 256));
     wr m (2 * i + 1) (word_of_nat (unat v div 256)) }"

subsection \<open>Channels\<close>

definition stbi_compute_y :: "byte \<Rightarrow> byte \<Rightarrow> byte \<Rightarrow> byte" where
  "stbi_compute_y r g b = word_of_nat ((unat r * 77 + unat g * 150 + 29 * unat b) div 256)"

definition stbi_compute_y_16 :: "u16 \<Rightarrow> u16 \<Rightarrow> u16 \<Rightarrow> u16" where
  "stbi_compute_y_16 r g b = word_of_nat ((unat r * 77 + unat g * 150 + 29 * unat b) div 256)"

definition STBI_COMBO :: "int \<Rightarrow> int \<Rightarrow> int" where
  "STBI_COMBO a b = a * 8 + b"

text \<open>The switch of the converters, the same in both up to the sample type, the grey function and
  the opaque value: the samples of one destination pixel from those of its source pixel.\<close>

definition combo :: "('a \<Rightarrow> 'a \<Rightarrow> 'a \<Rightarrow> 'a) \<Rightarrow> 'a \<Rightarrow> int \<Rightarrow> (nat \<Rightarrow> 'a option) \<Rightarrow> 'a list option" where
  "combo y full c src =
     (if c = STBI_COMBO 1 2 then do { g \<leftarrow> src 0; Some [g, full] }
      else if c = STBI_COMBO 1 3 then do { g \<leftarrow> src 0; Some [g, g, g] }
      else if c = STBI_COMBO 1 4 then do { g \<leftarrow> src 0; Some [g, g, g, full] }
      else if c = STBI_COMBO 2 1 then do { g \<leftarrow> src 0; Some [g] }
      else if c = STBI_COMBO 2 3 then do { g \<leftarrow> src 0; Some [g, g, g] }
      else if c = STBI_COMBO 2 4 then do { g \<leftarrow> src 0; a \<leftarrow> src 1; Some [g, g, g, a] }
      else if c = STBI_COMBO 3 4 then do { r \<leftarrow> src 0; g \<leftarrow> src 1; b \<leftarrow> src 2; Some [r, g, b, full] }
      else if c = STBI_COMBO 3 1 then do { r \<leftarrow> src 0; g \<leftarrow> src 1; b \<leftarrow> src 2; Some [y r g b] }
      else if c = STBI_COMBO 3 2 then do { r \<leftarrow> src 0; g \<leftarrow> src 1; b \<leftarrow> src 2; Some [y r g b, full] }
      else if c = STBI_COMBO 4 1 then do { r \<leftarrow> src 0; g \<leftarrow> src 1; b \<leftarrow> src 2; Some [y r g b] }
      else if c = STBI_COMBO 4 2 then do { r \<leftarrow> src 0; g \<leftarrow> src 1; b \<leftarrow> src 2; a \<leftarrow> src 3; Some [y r g b, a] }
      else if c = STBI_COMBO 4 3 then do { r \<leftarrow> src 0; g \<leftarrow> src 1; b \<leftarrow> src 2; Some [r, g, b] }
      else None)"

primrec put_all :: "('m \<Rightarrow> nat \<Rightarrow> 'a \<Rightarrow> 'm option) \<Rightarrow> 'm \<Rightarrow> nat \<Rightarrow> 'a list \<Rightarrow> 'm option" where
  "put_all put m i [] = Some m"
| "put_all put m i (v # vs) = do { m \<leftarrow> put m i v; put_all put m (i + 1) vs }"

text \<open>The two loops: \<^verbatim>\<open>j\<close> over the rows, whose offsets are computed in 32 bits, and \<^verbatim>\<open>i\<close> from
  \<^verbatim>\<open>x-1\<close> (converted to \<^verbatim>\<open>int\<close>) down to 0.\<close>

definition convert_rows :: "(nat \<Rightarrow> 'a option) \<Rightarrow> ('m \<Rightarrow> nat \<Rightarrow> 'a \<Rightarrow> 'm option) \<Rightarrow> ('a \<Rightarrow> 'a \<Rightarrow> 'a \<Rightarrow> 'a) \<Rightarrow> 'a \<Rightarrow>
    int \<Rightarrow> int \<Rightarrow> u32 \<Rightarrow> u32 \<Rightarrow> 'm \<Rightarrow> 'm option" where
  "convert_rows get put cy full imgn req_comp x y good =
     for_upto 0 (nat (sint y)) (\<lambda>j good.
       let src = unat (word_of_nat j * x * word_of_int imgn);
           dest = unat (word_of_nat j * x * word_of_int req_comp) in
       for_upto 0 (nat (sint (x - 1) + 1)) (\<lambda>i good. do {
         px \<leftarrow> combo cy full (STBI_COMBO imgn req_comp) (\<lambda>k. get (src + i * nat imgn + k));
         put_all put good (dest + i * nat req_comp) px }) good) good"

definition stbi_convert_format ::
    "allocator \<Rightarrow> byte option list \<Rightarrow> int \<Rightarrow> int \<Rightarrow> u32 \<Rightarrow> u32 \<Rightarrow> byte option list res" where
  "stbi_convert_format ok data imgn req_comp x y =
     (if req_comp = imgn then ret data
      else if \<not> (req_comp \<ge> 1 \<and> req_comp \<le> 4) then None
      else case stbi_malloc_mad3 ok req_comp (sint x) (sint y) 0 of
        None \<Rightarrow> stbi_err ''outofmem''
      | Some good \<Rightarrow> do {
          good \<leftarrow> convert_rows (rd data) wr stbi_compute_y 255 imgn req_comp x y good;
          ret good })"

definition stbi_convert_format16 ::
    "allocator \<Rightarrow> byte option list \<Rightarrow> int \<Rightarrow> int \<Rightarrow> u32 \<Rightarrow> u32 \<Rightarrow> byte option list res" where
  "stbi_convert_format16 ok data imgn req_comp x y =
     (if req_comp = imgn then ret data
      else if \<not> (req_comp \<ge> 1 \<and> req_comp \<le> 4) then None
      else case stbi_malloc ok (unat (word_of_int req_comp * x * y * 2)) of
        None \<Rightarrow> stbi_err ''outofmem''
      | Some good \<Rightarrow> do {
          good \<leftarrow> convert_rows (rd16 data) wr16 stbi_compute_y_16 0xffff imgn req_comp x y good;
          ret good })"

subsection \<open>Sample depth\<close>

text \<open>\<^verbatim>\<open>img_len\<close> is an \<^verbatim>\<open>int\<close>, and so is the product \<^verbatim>\<open>img_len*2\<close>; both overflow checks are the
  language's.\<close>

definition img_len_of :: "int \<Rightarrow> int \<Rightarrow> int \<Rightarrow> int option" where
  "img_len_of w h channels = do { wh \<leftarrow> i32 (w * h); i32 (wh * channels) }"

definition stbi_convert_16_to_8 :: "allocator \<Rightarrow> byte option list \<Rightarrow> int \<Rightarrow> int \<Rightarrow> int \<Rightarrow> byte option list res" where
  "stbi_convert_16_to_8 ok orig w h channels = do {
     img_len \<leftarrow> img_len_of w h channels;
     case stbi_malloc ok (unat (word_of_int img_len :: u64)) of
       None \<Rightarrow> stbi_err ''outofmem''
     | Some reduced \<Rightarrow> do {
         reduced \<leftarrow> for_upto 0 (nat img_len) (\<lambda>i reduced. do {
           v \<leftarrow> rd16 orig i;
           wr reduced i (word_of_nat (unat v div 256 mod 256)) }) reduced;
         ret reduced } }"

definition stbi_convert_8_to_16 :: "allocator \<Rightarrow> byte option list \<Rightarrow> int \<Rightarrow> int \<Rightarrow> int \<Rightarrow> byte option list res" where
  "stbi_convert_8_to_16 ok orig w h channels = do {
     img_len \<leftarrow> img_len_of w h channels;
     len \<leftarrow> i32 (img_len * 2);
     case stbi_malloc ok (unat (word_of_int len :: u64)) of
       None \<Rightarrow> stbi_err ''outofmem''
     | Some enlarged \<Rightarrow> do {
         enlarged \<leftarrow> for_upto 0 (nat img_len) (\<lambda>i enlarged. do {
           v \<leftarrow> rd orig i;
           wr16 enlarged i (word_of_nat (unat v * 256 + unat v)) }) enlarged;
         ret enlarged } }"

subsection \<open>Vertical flip\<close>

definition swap_chunk :: "'a list \<Rightarrow> nat \<Rightarrow> nat \<Rightarrow> nat \<Rightarrow> 'a list option" where
  "swap_chunk bytes row0 row1 n = do {
     temp \<leftarrow> slice bytes row0 n;
     t1 \<leftarrow> slice bytes row1 n;
     bytes \<leftarrow> blit bytes row0 t1;
     blit bytes row1 temp }"

definition flip_step :: "'a list \<times> nat \<times> nat \<times> nat \<Rightarrow> ('a list + 'a list \<times> nat \<times> nat \<times> nat) option" where
  "flip_step st = (case st of (bytes, row0, row1, bytes_left) \<Rightarrow>
     if bytes_left = 0 then Some (Inl bytes)
     else do {
       let bytes_copy = (if bytes_left < 2048 then bytes_left else 2048);
       bytes \<leftarrow> swap_chunk bytes row0 row1 bytes_copy;
       Some (Inr (bytes, row0 + bytes_copy, row1 + bytes_copy, bytes_left - bytes_copy)) })"

definition stbi_vertical_flip :: "'a list \<Rightarrow> int \<Rightarrow> int \<Rightarrow> int \<Rightarrow> 'a list option" where
  "stbi_vertical_flip img w h bytes_per_pixel =
     (let bytes_per_row = word_of_int w * word_of_int bytes_per_pixel :: u64 in
      for_upto 0 (nat (h div 2)) (\<lambda>row bytes.
        loop flip_step (bytes, unat (word_of_nat row * bytes_per_row),
          unat (word_of_int (h - int row - 1) * bytes_per_row), unat bytes_per_row)) img)"

text \<open>\<open>slice_size\<close> is an \<^verbatim>\<open>int\<close> product.\<close>

definition stbi_vertical_flip_slices :: "'a list \<Rightarrow> int \<Rightarrow> int \<Rightarrow> int \<Rightarrow> int \<Rightarrow> 'a list option" where
  "stbi_vertical_flip_slices img w h z bytes_per_pixel = do {
     slice_size \<leftarrow> img_len_of w h bytes_per_pixel;
     for_upto 0 (nat z) (\<lambda>sl img. do {
       one \<leftarrow> stbi_vertical_flip (drop (sl * nat slice_size) img) w h bytes_per_pixel;
       Some (take (sl * nat slice_size) img @ one) }) img }"

subsection \<open>Arrays of samples\<close>

text \<open>What the converters rely on: a write inside the block succeeds and changes that one sample;
  a write outside is undefined.\<close>

locale sample_array =
  fixes get :: "'m \<Rightarrow> nat \<Rightarrow> 'a option" and put :: "'m \<Rightarrow> nat \<Rightarrow> 'a \<Rightarrow> 'm option" and cap :: "'m \<Rightarrow> nat"
  assumes put_in: "i < cap m \<Longrightarrow> sat (put m i v) (\<lambda>m'. cap m' = cap m \<and> (\<forall>j. get m' j = (if j = i then Some v else get m j)))"
    and put_out: "\<not> i < cap m \<Longrightarrow> put m i v = None"
begin

lemma put_all_ok:
  "i + length vs \<le> cap m \<Longrightarrow> sat (put_all put m i vs) (\<lambda>m'. cap m' = cap m \<and>
     (\<forall>j. get m' j = (if i \<le> j \<and> j < i + length vs then Some (vs ! (j - i)) else get m j)))"
proof (induction vs arbitrary: m i)
  case (Cons v vs)
  have i: "i < cap m" using Cons.prems by simp
  show ?case unfolding put_all.simps
  proof (rule sat_bind [OF put_in [OF i, of v]], elim conjE)
    fix m1 assume m1: "cap m1 = cap m" "\<forall>j. get m1 j = (if j = i then Some v else get m j)"
    have "(v # vs) ! (j - i) = vs ! (j - (i + 1))" if "i < j" for j using that by (simp add: nth_Cons' diff_diff_add)
    then show "sat (put_all put m1 (i + 1) vs) (\<lambda>m'. cap m' = cap m \<and> (\<forall>j. get m' j =
        (if i \<le> j \<and> j < i + length (v # vs) then Some ((v # vs) ! (j - i)) else get m j)))"
      using Cons.IH [of "i + 1" m1] Cons.prems m1
      by (auto elim!: sat_mono simp: le_less)
  qed
qed auto

lemma put_all_fits: "put_all put m i vs = Some m' \<Longrightarrow> vs \<noteq> [] \<Longrightarrow> i + length vs \<le> cap m \<and> cap m' = cap m"
proof (induction vs arbitrary: m i)
  case (Cons v vs)
  from Cons.prems obtain m1 where m1: "put m i v = Some m1" "put_all put m1 (i + 1) vs = Some m'"
    by (auto elim: bind_SomeE)
  then have i: "i < cap m" using put_out by force
  then have "cap m1 = cap m" using put_in [OF i, of v] m1(1) by simp
  with Cons.IH [OF m1(2)] i m1(2) show ?case by (cases "vs = []") auto
qed simp

end

lemma wr_sat: "i < length m \<Longrightarrow> sat (wr m i v)
    (\<lambda>m'. length m' = length m \<and> (\<forall>j. rd m' j = (if j = i then Some v else rd m j)))"
  by (auto simp: rd_def aget_def nth_list_update)

interpretation a8: sample_array rd wr length
  by unfold_locales (rule wr_sat, simp_all add: wr_out)

lemma unat_u16_less: "unat (v :: u16) < 65536"
  using unsigned_less [of v, where 'a = nat] by simp

lemma u16_split: "word_of_nat (unat (word_of_nat (unat v div 256) :: byte) * 256 + unat (word_of_nat (unat v mod 256) :: byte)) = v"
  for v :: u16
proof -
  have "unat v div 256 < 256" using unat_u16_less [of v] by (simp add: less_mult_imp_div_less)
  then show ?thesis by (simp add: unat_u8_of_nat)
qed

interpretation a16: sample_array rd16 wr16 "\<lambda>m. length m div 2"
proof (unfold_locales, goal_cases)
  case (1 i m v)
  then have i: "2 * i + 1 < length m" by simp
  have "rd16 (m[2 * i := Some (word_of_nat (unat v mod 256)), 2 * i + 1 := Some (word_of_nat (unat v div 256))]) j =
      (if j = i then Some v else rd16 m j)" for j
  proof (cases "j = i")
    case True
    with i u16_split [of v] show ?thesis by (simp add: rd16_def rd_def del: of_nat_add of_nat_mult)
  next
    case False
    have ne: "2 * i \<noteq> 2 * j + 1" "2 * i + 1 \<noteq> 2 * j" by presburger+
    with False show ?thesis by (simp add: rd16_def rd_def aget_def)
  qed
  with i show ?case by (simp add: wr16_def)
next
  case (2 i m v)
  then show ?case by (cases "2 * i < length m") (simp_all add: wr16_def wr_out)
qed

subsection \<open>Conversion between numbers of channels\<close>

text \<open>The meaning of the channels: grey, grey and alpha, colour, colour and alpha. A missing alpha
  is opaque, grey becomes a colour by repetition and a colour becomes grey by its luma.\<close>

definition to_channels :: "('a \<Rightarrow> 'a \<Rightarrow> 'a \<Rightarrow> 'a) \<Rightarrow> 'a \<Rightarrow> nat \<Rightarrow> 'a list \<Rightarrow> 'a list" where
  "to_channels luma opaque m px =
     (let n = length px;
          grey = (if n \<le> 2 then px ! 0 else luma (px ! 0) (px ! 1) (px ! 2));
          colour = (if n \<le> 2 then [px ! 0, px ! 0, px ! 0] else [px ! 0, px ! 1, px ! 2]);
          alpha = (if even n then px ! (n - 1) else opaque) in
      (if m \<le> 2 then [grey] else colour) @ (if even m then [alpha] else []))"

lemma length_to_channels: "1 \<le> m \<Longrightarrow> m \<le> 4 \<Longrightarrow> length (to_channels cy full m px) = m"
proof -
  assume "1 \<le> m" "m \<le> 4"
  then consider "m = 1" | "m = 2" | "m = 3" | "m = 4" by linarith
  then show ?thesis by cases (simp_all add: to_channels_def Let_def)
qed

lemma channel_cases:
  assumes "1 \<le> n" and "n \<le> (4 :: int)"
  obtains "n = 1" | "n = 2" | "n = 3" | "n = 4"
  using assms by linarith

lemma combo_eq:
  assumes n: "1 \<le> n" "n \<le> 4" and m: "1 \<le> m" "m \<le> 4" and ne: "m \<noteq> n"
    and len: "length px = nat n" and src: "\<And>k. k < nat n \<Longrightarrow> src k = Some (px ! k)"
  shows "combo cy full (STBI_COMBO n m) src = Some (to_channels cy full (nat m) px)"
  by (rule channel_cases [OF n]; rule channel_cases [OF m];
      use len src ne in \<open>simp add: combo_def STBI_COMBO_def to_channels_def\<close>)

lemma combo_length: "combo cy full (STBI_COMBO n m) src = Some px \<Longrightarrow> 1 \<le> n \<Longrightarrow> n \<le> 4 \<Longrightarrow> 1 \<le> m \<Longrightarrow> m \<le> 4 \<Longrightarrow>
    length px = nat m"
  by (rule channel_cases [of n]; rule channel_cases [of m]) (auto simp: combo_def STBI_COMBO_def bind_Some_iff)

lemma sample_row_offset:
  assumes "0 \<le> n" and "j * unat x * nat n < 2 ^ 32"
  shows "unat (word_of_nat j * x * word_of_int n :: u32) = j * unat x * nat n"
proof -
  have "(word_of_nat j * x * word_of_int n :: u32) = word_of_nat (j * unat x * nat n)"
    using assms(1) by (simp add: of_nat_nat)
  then show ?thesis using assms(2) unat_u32_of_nat [of "j * unat x * nat n"] by simp
qed

lemma row_count:
  assumes "unat x < 2 ^ 31"
  shows "nat (sint (x - 1 :: u32) + 1) = unat x"
proof (cases "x = 0")
  case False
  then have "unat (x - 1) = unat x - 1" "0 < unat x" by (auto simp: unat_minus_one unat_gt_0)
  then have "sint (x - 1) + 1 = int (unat x)" using assms sint_dim [of "x - 1"] by simp
  then show ?thesis by (simp only: nat_int)
qed simp

context sample_array
begin

lemma convert_rows_ok:
  assumes n: "1 \<le> n" "n \<le> 4" and m: "1 \<le> m" "m \<le> 4" and ne: "m \<noteq> n"
    and x: "unat x < 2 ^ 31" and y: "unat y < 2 ^ 31"
    and fits: "unat x * unat y * nat n < 2 ^ 32" "unat x * unat y * nat m < 2 ^ 32"
    and room: "unat x * unat y * nat m \<le> cap good"
    and px: "length px = unat x * unat y * nat n" and src: "\<And>k. k < length px \<Longrightarrow> src k = Some (px ! k)"
  shows "sat (convert_rows src put cy full n m x y good) (\<lambda>g. cap g = cap good \<and>
     (\<forall>p < unat x * unat y. \<forall>k < nat m.
        get g (p * nat m + k) = Some (to_channels cy full (nat m) (take (nat n) (drop (p * nat n) px)) ! k)))"
proof -
  define X Y N M where d: "X = unat x" "Y = unat y" "N = nat n" "M = nat m"
  define out where "out p = to_channels cy full M (take N (drop (p * N) px))" for p
  define I where "I P g \<longleftrightarrow> cap g = cap good \<and> (\<forall>p < P. \<forall>k < M. get g (p * M + k) = Some (out p ! k))" for P g
  have NM: "0 < N" "0 < M" using n m d by auto
  have step: "sat (combo cy full (STBI_COMBO n m) (\<lambda>k. src (p * N + k)) \<bind> put_all put g (p * M)) (I (Suc p))"
    if p: "p < X * Y" and g: "I p g" for p g
  proof -
    have "Suc p \<le> X * Y" using p by simp
    then have "Suc p * N \<le> X * Y * N" "Suc p * M \<le> X * Y * M" by (rule mult_le_mono1)+
    then have b: "p * N + N \<le> length px" "p * M + M \<le> cap g" using room px g d by (auto simp: I_def)
    let ?px = "take N (drop (p * N) px)"
    have "combo cy full (STBI_COMBO n m) (\<lambda>k. src (p * N + k)) = Some (to_channels cy full (nat m) ?px)"
    proof (rule combo_eq [OF n m ne])
      show "length ?px = nat n" using b d by simp
      show "src (p * N + k) = Some (?px ! k)" if "k < nat n" for k using src [of "p * N + k"] b that d by simp
    qed
    moreover have len: "length (out p) = M"
      unfolding out_def by (rule length_to_channels) (use m d in auto)
    moreover have "sat (put_all put g (p * M) (out p)) (I (Suc p))"
    proof (rule sat_mono [OF put_all_ok], goal_cases)
      case (2 g')
      have "get g' (q * M + k) = Some (out q ! k)" if "q < Suc p" "k < M" for q k
      proof (cases "q = p")
        case False
        then have "Suc q * M \<le> p * M" using that by (intro mult_right_mono) auto
        then show ?thesis using 2(2) g that False len by (auto simp: I_def)
      qed (use 2(2) that len in auto)
      then show ?case using 2(2) g by (simp add: I_def)
    qed (use b len in simp)
    ultimately show ?thesis using d by (simp add: out_def)
  qed
  have rows: "nat (sint y) = Y" using y d by (simp add: sint_dim del: of_nat_unat)
  have "sat (convert_rows src put cy full n m x y good) (I (X * Y))"
    unfolding convert_rows_def rows row_count [OF x] Let_def
  proof (rule sat_mono [OF sat_for_upto [where P = "\<lambda>j g. I (j * X) g"]], goal_cases)
    case (3 j g)
    have jX: "j * X + X \<le> X * Y" using 3(2) mult_le_mono1 [of "Suc j" Y X] by (simp add: mult.commute)
    then have "j * X \<le> X * Y" by (rule add_leD1)
    then have "j * X * N \<le> X * Y * N" "j * X * M \<le> X * Y * M" by (rule mult_le_mono1)+
    then have "j * X * N < 2 ^ 32" "j * X * M < 2 ^ 32" using fits unfolding d [symmetric] by linarith+
    then have off: "unat (word_of_nat j * x * word_of_int n) = j * X * N"
      "unat (word_of_nat j * x * word_of_int m) = j * X * M"
      using sample_row_offset [of n j x] sample_row_offset [of m j x] n m d by auto
    have jd: "j * X * N + i * N = (j * X + i) * N" "j * X * M + i * M = (j * X + i) * M" for i
      by (simp_all add: algebra_simps)
    have row: "sat (for_upto 0 X (\<lambda>i g. combo cy full (STBI_COMBO n m) (\<lambda>k. src ((j * X + i) * N + k)) \<bind>
        put_all put g ((j * X + i) * M)) g) (I (j * X + X))"
      by (rule sat_for_upto [where P = "\<lambda>i. I (j * X + i)"]) (use 3(3) jX step [of "j * X + i" for i] in auto)
    show ?case using row unfolding off d [symmetric] jd mult_Suc by (simp only: add.commute [of X])
  qed (auto simp: I_def mult.commute)
  then show ?thesis by (auto elim!: sat_mono simp: I_def out_def d)
qed

lemma convert_rows_cap:
  assumes "convert_rows src put cy full n m x y good = Some g"
    and n: "1 \<le> n" "n \<le> 4" and m: "1 \<le> m" "m \<le> 4"
    and x: "0 < unat x" "unat x < 2 ^ 31" and y: "0 < unat y" "unat y < 2 ^ 31"
    and fits: "unat x * unat y * nat m < 2 ^ 32"
  shows "unat x * unat y * nat m \<le> cap good"
proof -
  define X Y M where d: "X = unat x" "Y = unat y" "M = nat m"
  have M: "0 < M" using m d by simp
  have rows: "nat (sint y) = Y" using y d by (simp add: sint_dim del: of_nat_unat)
  define pixel where "pixel j i = (\<lambda>g. combo cy full (STBI_COMBO n m)
      (\<lambda>k. src (unat (word_of_nat j * x * word_of_int n) + i * nat n + k)) \<bind>
      put_all put g (unat (word_of_nat j * x * word_of_int m) + i * M))" for j i
  have pix: "unat (word_of_nat j * x * word_of_int m) + i * M + M \<le> cap good \<and> cap g' = cap good"
    if "cap g = cap good" "pixel j i g = Some g'" for j i g g'
  proof -
    from that(2) obtain px where px: "combo cy full (STBI_COMBO n m)
        (\<lambda>k. src (unat (word_of_nat j * x * word_of_int n) + i * nat n + k)) = Some px"
      and put: "put_all put g (unat (word_of_nat j * x * word_of_int m) + i * M) px = Some g'"
      by (auto simp: pixel_def elim: bind_SomeE)
    have "length px = M" using combo_length [OF px n m] d by simp
    with put_all_fits [OF put] M that(1) show ?thesis by auto
  qed
  have row: "cap g' = cap good" if "cap g = cap good" "for_upto 0 X (pixel j) g = Some g'" for j g g'
    using that(2,1) by (rule for_upto_keeps) (use pix in blast)
  have loops: "for_upto 0 Y (\<lambda>j. for_upto 0 X (pixel j)) good = Some g"
    using assms(1) unfolding convert_rows_def Let_def rows row_count [OF x(2)] pixel_def d .
  have "\<exists>g1. cap g1 = cap good \<and> for_upto 0 X (pixel (Y - 1)) g1 = Some g"
    by (rule for_upto_last [where P = "\<lambda>g. cap g = cap good", OF loops _ refl]) (use y d in simp, erule (1) row)
  then obtain g1 where g1: "cap g1 = cap good" "for_upto 0 X (pixel (Y - 1)) g1 = Some g" by blast
  have "\<exists>g2. cap g2 = cap good \<and> pixel (Y - 1) (X - 1) g2 = Some g"
  proof (rule for_upto_last [where P = "\<lambda>g. cap g = cap good", OF g1(2) _ g1(1)])
    show "0 < X" using x d by simp
    show "cap s' = cap good" if "cap s = cap good" "pixel (Y - 1) i s = Some s'" for i s s'
      using pix [OF that] ..
  qed
  then obtain g2 where g2: "cap g2 = cap good" "pixel (Y - 1) (X - 1) g2 = Some g" by blast
  have "(Y - 1) * X * M \<le> X * Y * M" by (intro mult_le_mono1) (simp add: mult.commute diff_mult_distrib)
  then have "(Y - 1) * unat x * nat m < 2 ^ 32" using fits unfolding d by linarith
  then have off: "unat (word_of_nat (Y - 1) * x * word_of_int m) = (Y - 1) * X * M"
    using sample_row_offset [of m "Y - 1" x] m d by simp
  have "(Y - 1) * X * M + (X - 1) * M + M = X * Y * M"
  proof -
    obtain a b where "X = Suc a" "Y = Suc b" using x y d by (metis gr0_implies_Suc)
    then show ?thesis by (simp add: algebra_simps)
  qed
  then show ?thesis using pix [OF g2] off d by simp
qed

end

lemma sint_neg: "\<not> unat z < 2 ^ 31 \<Longrightarrow> sint z < 0" for z :: u32
proof -
  assume "\<not> unat z < 2 ^ 31"
  then have "unat z div 2147483648 = 1" using unat_u32_less [of z] by simp
  then have "uint z div 2147483648 = 1" by (metis of_nat_1 of_nat_numeral of_nat_unat zdiv_int)
  then show ?thesis by (simp add: sint_uint bit_iff_odd)
qed

lemma mad3_sint_iff:
  assumes "0 < unat x" and "0 < unat (y :: u32)" and "1 \<le> m"
  shows "stbi_mad3sizes_valid m (sint (x :: u32)) (sint y) 0 \<longleftrightarrow> m * (int (unat x) * int (unat y)) \<le> INT_MAX"
proof -
  have le: "a \<le> a * b" if "1 \<le> b" "0 \<le> a" for a b :: int using mult_left_mono [OF that] by simp
  let ?p = "m * (int (unat x) * int (unat y))"
  have "1 \<le> m * int (unat x)" "1 \<le> m * int (unat y)"
    using le [of "int (unat x)" m] le [of "int (unat y)" m] assms by linarith+
  then have X: "int (unat x) \<le> ?p" "int (unat y) \<le> ?p" "m * int (unat x) \<le> ?p"
    using le [of "m * int (unat y)" "int (unat x)"] le [of "m * int (unat x)" "int (unat y)"]
      le [of "int (unat y)" "m * int (unat x)"] assms by (simp_all add: mult.commute mult.left_commute del: of_nat_unat)
  show ?thesis
  proof (cases "unat x < 2 ^ 31 \<and> unat y < 2 ^ 31")
    case True
    then have s: "sint x = int (unat x)" "sint y = int (unat y)" by (simp_all add: sint_dim)
    show ?thesis unfolding mad3_valid_iff s mult.assoc using order_trans [OF X(3)] assms(3) by auto
  next
    case False
    then have "2 ^ 31 \<le> int (unat x) \<or> 2 ^ 31 \<le> int (unat y)" by (simp add: not_less del: of_nat_unat)
    then have "\<not> ?p \<le> INT_MAX" using X(1,2) unfolding INT_MAX_def by linarith
    moreover have "sint x < 0 \<or> sint y < 0" using False sint_neg by blast
    ultimately show ?thesis by (auto simp: mad3_valid_iff)
  qed
qed


lemma factor_le: "0 < a \<Longrightarrow> 0 < b \<Longrightarrow> 0 < c \<Longrightarrow> a \<le> a * b * c \<and> b \<le> a * b * (c :: nat)"
proof -
  assume "0 < a" "0 < b" "0 < c"
  then have "a * 1 \<le> a * (b * c)" "b * 1 \<le> b * (a * c)" by (intro mult_le_mono2; simp add: Suc_le_eq)+
  then show ?thesis by (simp only: mult_1_right mult.assoc mult.left_commute)
qed

text \<open>C19: Converting an image between numbers of channels is correct. For an image of x times y
  pixels with \<open>n\<close> channels the converter returns, for each of the twelve pairs of different
  channel counts, a block of exactly x times y times \<open>m\<close> bytes in which every pixel has the
  channels of its source pixel (grey repeated, luma of a colour, alpha kept or opaque), or the
  error "outofmem"; the error occurs exactly when that size exceeds the largest \<^verbatim>\<open>int\<close> or the
  allocator refuses it.\<close>

theorem convert_format_correct:
  assumes "1 \<le> n" and "n \<le> 4" and "1 \<le> m" and "m \<le> 4" and "m \<noteq> n"
    and "0 < unat x" and "0 < unat y" and "length px = unat x * unat y * nat n" and "length px < 2 ^ 32"
    and "holds data px"
  shows "if m * (int (unat x) * int (unat y)) \<le> INT_MAX \<and> ok (unat x * unat y * nat m)
    then \<exists>good. stbi_convert_format ok data n m x y = ret good \<and> length good = unat x * unat y * nat m \<and>
      (\<forall>p < unat x * unat y. slice good (p * nat m) (nat m) =
         Some (map Some (to_channels stbi_compute_y 255 (nat m) (take (nat n) (drop (p * nat n) px)))))
    else stbi_convert_format ok data n m x y = stbi_err ''outofmem''"
proof -
  let ?p = "m * (int (unat x) * int (unat y))" and ?size = "unat x * unat y * nat m"
  have e: "m * int (unat x) * int (unat y) = int ?size"
    using assms(3) by (simp add: ac_simps del: of_nat_unat)
  then have size: "nat (m * int (unat x) * int (unat y) + 0) = ?size" by (simp only: nat_int add_0_right)
  have sizei: "?p = int ?size" using e by (simp only: mult.assoc)
  show ?thesis
  proof (cases "?p \<le> INT_MAX \<and> ok ?size")
    case True
    then have v: "stbi_mad3sizes_valid m (sint x) (sint y) 0" using assms mad3_sint_iff by blast
    have fit: "?size < 2 ^ 31" using True sizei by (simp add: INT_MAX_def del: of_nat_mult)
    have "unat x \<le> ?size" "unat y \<le> ?size" using factor_le [of "unat x" "unat y" "nat m"] assms by auto
    then have xy: "unat x < 2 ^ 31" "unat y < 2 ^ 31" using fit by linarith+
    have d: "sint x = int (unat x)" "sint y = int (unat y)" using xy by (simp_all add: sint_dim)
    have alloc: "stbi_malloc_mad3 ok m (sint x) (sint y) 0 = Some (replicate ?size None :: byte option list)"
      using v True size unfolding stbi_malloc_mad3_def d stbi_malloc_def by simp
    have src: "rd data k = Some (px ! k)" if "k < length px" for k using assms(10) that by (simp add: holds_def)
    obtain good where g: "convert_rows (rd data) wr stbi_compute_y 255 n m x y (replicate ?size None) = Some good"
      "length good = ?size" and px: "\<And>p k. p < unat x * unat y \<Longrightarrow> k < nat m \<Longrightarrow>
        rd good (p * nat m + k) = Some (to_channels stbi_compute_y 255 (nat m) (take (nat n) (drop (p * nat n) px)) ! k)"
      using a8.convert_rows_ok [OF assms(1-5) xy _ _ _ assms(8) src, of "replicate ?size None" stbi_compute_y 255]
        assms(8,9) fit by (auto elim!: satE)
    have "slice good (p * nat m) (nat m) =
         Some (map Some (to_channels stbi_compute_y 255 (nat m) (take (nat n) (drop (p * nat n) px))))"
      if p: "p < unat x * unat y" for p
    proof -
      have "Suc p * nat m \<le> ?size" using p by (intro mult_le_mono1) simp
      then have "p * nat m + nat m \<le> length good" using g(2) by simp
      moreover have "length (to_channels stbi_compute_y 255 (nat m) (take (nat n) (drop (p * nat n) px))) = nat m"
        by (rule length_to_channels) (use assms in auto)
      ultimately show ?thesis using px [OF p] by (auto simp: rd_Some_iff intro!: nth_equalityI)
    qed
    with True g alloc assms show ?thesis by (simp add: stbi_convert_format_def)
  next
    case False
    have "stbi_malloc_mad3 ok m (sint x) (sint y) 0 = (None :: byte option list option)"
    proof (cases "stbi_mad3sizes_valid m (sint x) (sint y) 0")
      case True
      then have "?p \<le> INT_MAX" using assms mad3_sint_iff by blast
      moreover from True have "0 \<le> sint x" "0 \<le> sint y" by (simp_all add: mad3_valid_iff)
      then have "sint x = int (unat x)" "sint y = int (unat y)" using sint_neg sint_dim by (metis not_le)+
      ultimately show ?thesis using False size by (simp add: stbi_malloc_mad3_def stbi_malloc_def)
    qed (simp add: stbi_malloc_mad3_def)
    with False assms show ?thesis by (auto simp: stbi_convert_format_def)
  qed
qed

theorem convert_format_correct_witness:
  "\<exists>good. stbi_convert_format (\<lambda>_. True) (map Some [200, 128, 7, 0]) 2 4 2 1 = ret good \<and> length good = 8 \<and>
     slice good 4 4 = Some [Some 7, Some 7, Some 7, Some 0]"
proof -
  have "holds (map Some [200, 128, 7, 0]) [200, 128, 7, 0 :: byte]" by (simp add: holds_def less_Suc_eq)
  from convert_format_correct [OF _ _ _ _ _ _ _ _ _ this, of 2 4 2 1 "\<lambda>_. True"]
  obtain good where g: "stbi_convert_format (\<lambda>_. True) (map Some [200, 128, 7, 0]) 2 4 2 1 = ret good" "length good = 8"
    "\<forall>p < 2. slice good (p * 4) 4 = Some (map Some (to_channels stbi_compute_y 255 4 (take 2 (drop (p * 2) [200, 128, 7, 0]))))"
    by (auto simp: INT_MAX_def)
  then have "slice good 4 4 = Some [Some 7, Some 7, Some 7, Some 0]"
    by (auto dest!: spec [of _ 1] simp: to_channels_def)
  with g show ?thesis by blast
qed

text \<open>The 16-bit converter works like the 8-bit one as long as the byte size of the result fits
  32 bits: every 16-bit sample of the result is the channel of its source pixel.\<close>

lemma convert_format16_correct:
  assumes "1 \<le> n" and "n \<le> 4" and "1 \<le> m" and "m \<le> 4" and "m \<noteq> n"
    and "unat x < 2 ^ 31" and "unat y < 2 ^ 31" and "length px = unat x * unat y * nat n" and "length px < 2 ^ 32"
    and "\<And>k. k < length px \<Longrightarrow> rd16 data k = Some (px ! k)"
    and "unat x * unat y * nat m * 2 < 2 ^ 32"
  shows "if ok (unat x * unat y * nat m * 2)
    then \<exists>good. stbi_convert_format16 ok data n m x y = ret good \<and> length good div 2 = unat x * unat y * nat m \<and>
      (\<forall>p < unat x * unat y. \<forall>k < nat m. rd16 good (p * nat m + k) =
         Some (to_channels stbi_compute_y_16 0xffff (nat m) (take (nat n) (drop (p * nat n) px)) ! k))
    else stbi_convert_format16 ok data n m x y = stbi_err ''outofmem''"
proof -
  let ?size = "unat x * unat y * nat m * 2"
  have "(word_of_int m * x * y * 2 :: u32) = word_of_nat ?size"
    using assms(3) by (simp add: of_nat_nat ac_simps)
  then have size: "unat (word_of_int m * x * y * 2 :: u32) = ?size"
    using assms(11) unat_u32_of_nat [of ?size] by simp
  have "sat (convert_rows (rd16 data) wr16 stbi_compute_y_16 0xffff n m x y (replicate ?size None))
      (\<lambda>g. length g div 2 = length (replicate ?size (None :: byte option)) div 2 \<and>
        (\<forall>p < unat x * unat y. \<forall>k < nat m. rd16 g (p * nat m + k) =
         Some (to_channels stbi_compute_y_16 0xffff (nat m) (take (nat n) (drop (p * nat n) px)) ! k)))"
    by (rule a16.convert_rows_ok [OF assms(1-7) _ _ _ assms(8) assms(10)]) (use assms(8,9,11) in \<open>auto simp: mult.commute\<close>)
  then show ?thesis using assms(1-5) size by (auto simp: stbi_convert_format16_def stbi_malloc_def elim!: satE)
qed

text \<open>C35: The 16-bit converter computes the size of its result in 32 bits, unlike the 8-bit one which
  checks it. When the product wraps and the allocator grants the small block, the loops write
  past its end: the conversion is undefined for every source image. A grey 16-bit image of
  32768 by 16384 pixels, which the PNG reader accepts, asks for a block of 0 bytes when four
  channels are requested.\<close>

theorem convert_format16_overruns:
  assumes "1 \<le> n" and "n \<le> 4" and "1 \<le> m" and "m \<le> 4" and "m \<noteq> n"
    and "0 < unat x" and "unat x < 2 ^ 31" and "0 < unat y" and "unat y < 2 ^ 31"
    and "2 ^ 31 \<le> unat x * unat y * nat m" and "unat x * unat y * nat m < 2 ^ 32"
    and "ok (unat (word_of_int m * x * y * 2 :: u32))"
  shows "stbi_convert_format16 ok data n m x y = None"
proof -
  let ?size = "unat (word_of_int m * x * y * 2 :: u32)"
  have "convert_rows (rd16 data) wr16 stbi_compute_y_16 0xffff n m x y (replicate ?size None) = None"
  proof (rule ccontr)
    assume "convert_rows (rd16 data) wr16 stbi_compute_y_16 0xffff n m x y (replicate ?size None) \<noteq> None"
    then obtain g where "convert_rows (rd16 data) wr16 stbi_compute_y_16 0xffff n m x y (replicate ?size None) = Some g"
      by blast
    from a16.convert_rows_cap [OF this assms(1-4,6-9,11)]
    have "unat x * unat y * nat m \<le> ?size div 2" by simp
    then have "2 ^ 32 \<le> ?size" using assms(10) by simp
    with unat_u32_less [of "word_of_int m * x * y * 2"] show False by simp
  qed
  with assms show ?thesis by (simp add: stbi_convert_format16_def stbi_malloc_def)
qed

theorem convert_format16_overruns_witness:
  "unat (word_of_int 4 * 32768 * 16384 * 2 :: u32) = 0 \<and>
   stbi_convert_format16 (\<lambda>n. n < 1000) (replicate 1073741824 (Some 0)) 1 4 32768 16384 = None"
  using convert_format16_overruns [of 1 4 32768 16384 "\<lambda>n. n < 1000" "replicate 1073741824 (Some 0)"] by simp

subsection \<open>Conversion between depths\<close>

lemma i32_nn: "0 \<le> x \<Longrightarrow> x \<le> INT_MAX \<Longrightarrow> i32 x = Some x"
  by (simp add: i32_def INT_MAX_def)

lemma img_len_of_eq:
  assumes "0 \<le> w" and "0 \<le> h" and "0 \<le> c" and "w * h \<le> INT_MAX" and "w * h * c \<le> INT_MAX"
  shows "img_len_of w h c = Some (int (nat (w * h * c)))" and "nat (w * h * c) < 2 ^ 31"
proof -
  have nn: "0 \<le> w * h" "0 \<le> w * h * c" using assms by simp_all
  have "i32 (w * h) = Some (w * h)" "i32 (w * h * c) = Some (w * h * c)"
    using i32_nn nn assms(4,5) by auto
  with nn show "img_len_of w h c = Some (int (nat (w * h * c)))" by (simp add: img_len_of_def)
  show "nat (w * h * c) < 2 ^ 31" using nn assms(5) by (simp add: nat_less_iff INT_MAX_def)
qed

text \<open>A loop that writes the samples of an array one after the other.\<close>

context sample_array
begin

lemma fill_loop:
  assumes "n \<le> cap m" and f: "\<And>i. i < n \<Longrightarrow> f i = Some (v i)"
  shows "sat (for_upto 0 n (\<lambda>i m. f i \<bind> (\<lambda>x. put m i (g x))) m)
     (\<lambda>m'. cap m' = cap m \<and> (\<forall>i < n. get m' i = Some (g (v i))))"
proof (rule sat_for_upto [where P = "\<lambda>k m'. cap m' = cap m \<and> (\<forall>i < k. get m' i = Some (g (v i)))"])
  fix i m1 assume i: "i < n" and m1: "cap m1 = cap m \<and> (\<forall>j < i. get m1 j = Some (g (v j)))"
  have "i < cap m1" using i m1 assms(1) by simp
  from put_in [OF this, of "g (v i)"] m1
  show "sat (f i \<bind> (\<lambda>x. put m1 i (g x))) (\<lambda>m'. cap m' = cap m \<and> (\<forall>j < Suc i. get m' j = Some (g (v j))))"
    by (auto simp: f [OF i] less_Suc_eq elim!: sat_mono)
qed auto

end

lemma rd_all:
  assumes "length m = length xs" and "\<And>i. i < length xs \<Longrightarrow> rd m i = Some (xs ! i)"
  shows "m = map Some xs"
  using assms by (auto simp: rd_Some_iff intro: nth_equalityI)

lemma convert_16_to_8_eq:
  assumes "0 \<le> w" and "0 \<le> h" and "0 \<le> c" and "w * h \<le> INT_MAX" and "w * h * c \<le> INT_MAX"
    and "length px = nat (w * h * c)" and "\<And>i. i < length px \<Longrightarrow> rd16 orig i = Some (px ! i)"
  shows "stbi_convert_16_to_8 ok orig w h c =
    (if ok (length px) then ret (map (\<lambda>v. Some (word_of_nat (unat v div 256))) px) else stbi_err ''outofmem'')"
proof -
  let ?f = "\<lambda>v :: u16. word_of_nat (unat v div 256 mod 256) :: byte"
  have "sat (for_upto 0 (length px) (\<lambda>i r. rd16 orig i \<bind> (\<lambda>x. wr r i (?f x))) (replicate (length px) None))
      (\<lambda>r. length r = length px \<and> (\<forall>i < length px. rd r i = Some (?f (px ! i))))"
    using a8.fill_loop [of "length px" "replicate (length px) None" "rd16 orig" "(!) px" ?f] assms(7) by simp
  then obtain r where r: "for_upto 0 (length px) (\<lambda>i r. rd16 orig i \<bind> (\<lambda>x. wr r i (?f x))) (replicate (length px) None) = Some r"
    "length r = length px" "\<And>i. i < length px \<Longrightarrow> rd r i = Some (?f (px ! i))" by (auto elim: satE)
  have "r = map Some (map ?f px)" by (rule rd_all) (use r(2,3) in auto)
  moreover have "unat v div 256 mod 256 = unat v div 256" for v :: u16
    using unat_u16_less [of v] by (simp add: less_mult_imp_div_less)
  ultimately have r': "r = map (\<lambda>v. Some (word_of_nat (unat v div 256))) px" by simp
  have "img_len_of w h c = Some (int (length px))" "length px < 2 ^ 31"
    using img_len_of_eq [OF assms(1-5)] assms(6) by auto
  moreover from this(2) have "unat (word_of_nat (length px) :: u64) = length px" by (simp add: unat_u64_of_nat)
  ultimately show ?thesis
    using r(1) r' by (simp add: stbi_convert_16_to_8_def stbi_malloc_def)
qed

lemma convert_8_to_16_eq:
  assumes "0 \<le> w" and "0 \<le> h" and "0 \<le> c" and "w * h \<le> INT_MAX" and "w * h * c * 2 \<le> INT_MAX"
    and "length px = nat (w * h * c)" and "holds orig px" and "ok (2 * length px)"
  shows "\<exists>e. stbi_convert_8_to_16 ok orig w h c = ret e \<and>
     (\<forall>i < length px. rd16 e i = Some (word_of_nat (unat (px ! i) * 256 + unat (px ! i))))"
proof -
  let ?f = "\<lambda>v :: byte. word_of_nat (unat v * 256 + unat v) :: u16"
  have "0 \<le> w * h * c" using assms(1-3) by simp
  then have "w * h * c = int (length px)" using assms(6) by simp
  then have len: "w * h * c \<le> INT_MAX" "2 * length px < 2 ^ 31" using assms(5) by (simp_all add: INT_MAX_def)
  have src: "rd orig i = Some (px ! i)" if "i < length px" for i using assms(7) that by (simp add: holds_def)
  obtain e where e: "for_upto 0 (length px) (\<lambda>i e. rd orig i \<bind> (\<lambda>x. wr16 e i (?f x))) (replicate (2 * length px) None) = Some e"
    "\<forall>i < length px. rd16 e i = Some (?f (px ! i))"
    using a16.fill_loop [of "length px" "replicate (2 * length px) None" "rd orig" "(!) px" ?f] src by (auto elim!: satE)
  have "img_len_of w h c = Some (int (length px))" using img_len_of_eq(1) [OF assms(1-4) len(1)] assms(6) by simp
  moreover have "i32 (int (length px) * 2) = Some (int (2 * length px))" using len(2) by (simp add: i32_def)
  moreover have "unat (word_of_nat (2 * length px) :: u64) = 2 * length px"
    using len(2) by (intro unat_u64_of_nat) simp
  ultimately show ?thesis using e assms(8)
    by (simp add: stbi_convert_8_to_16_def stbi_malloc_def del: of_nat_mult)
qed

text \<open>Widening an image to 16 bits and reducing it to 8 bits again gives back the image.\<close>

theorem convert_depth_roundtrip:
  assumes "0 \<le> w" and "0 \<le> h" and "0 \<le> c" and "w * h \<le> INT_MAX" and "w * h * c * 2 \<le> INT_MAX"
    and "length px = nat (w * h * c)" and "holds orig px" and "\<And>n. ok n"
  shows "ebind (stbi_convert_8_to_16 ok orig w h c) (\<lambda>wide. stbi_convert_16_to_8 ok wide w h c) = ret (map Some px)"
proof -
  obtain e where e: "stbi_convert_8_to_16 ok orig w h c = ret e"
    "\<forall>i < length px. rd16 e i = Some (word_of_nat (unat (px ! i) * 256 + unat (px ! i)))"
    using convert_8_to_16_eq [OF assms(1-7)] assms(8) by blast
  let ?wide = "map (\<lambda>v. word_of_nat (unat v * 256 + unat v) :: u16) px"
  have half: "unat (word_of_nat (unat v * 256 + unat v) :: u16) div 256 = unat v" for v :: byte
  proof -
    have "unat v * 256 + unat v < 65536" using unat_u8_less [of v] by simp
    then have "unat (word_of_nat (unat v * 256 + unat v) :: u16) = unat v * 256 + unat v" by (subst unat_of_nat) simp
    then show ?thesis using unat_u8_less [of v] by simp
  qed
  have "0 \<le> w * h * c" using assms(1-3) by simp
  then have "stbi_convert_16_to_8 ok e w h c =
      (if ok (length ?wide) then ret (map (\<lambda>v. Some (word_of_nat (unat v div 256))) ?wide) else stbi_err ''outofmem'')"
    by (intro convert_16_to_8_eq [OF assms(1-4)]) (use assms(5,6) e(2) in auto)
  also have "\<dots> = ret (map Some px)"
    using assms(8) half by (simp add: comp_def del: of_nat_add of_nat_mult)
  finally show ?thesis by (simp add: e(1))
qed

theorem convert_depth_roundtrip_witness:
  "ebind (stbi_convert_8_to_16 (\<lambda>_. True) (map Some [1, 128, 255]) 1 1 3)
     (\<lambda>wide. stbi_convert_16_to_8 (\<lambda>_. True) wide 1 1 3) = ret (map Some [1, 128, 255])"
  by (rule convert_depth_roundtrip) (simp_all add: INT_MAX_def holds_def less_Suc_eq)

subsection \<open>The flip reverses the rows\<close>

lemma swap_chunk_ok:
  assumes "r0 + n \<le> r1" and "r1 + n \<le> length xs"
  shows "sat (swap_chunk xs r0 r1 n) (\<lambda>ys. length ys = length xs \<and>
     (\<forall>k < n. ys ! (r0 + k) = xs ! (r1 + k) \<and> ys ! (r1 + k) = xs ! (r0 + k)) \<and>
     (\<forall>j < length xs. \<not> (r0 \<le> j \<and> j < r0 + n) \<and> \<not> (r1 \<le> j \<and> j < r1 + n) \<longrightarrow> ys ! j = xs ! j))"
proof -
  have s: "slice xs r0 n = Some (take n (drop r0 xs))" "slice xs r1 n = Some (take n (drop r1 xs))"
    and l: "length (take n (drop r0 xs)) = n" "length (take n (drop r1 xs)) = n"
    using assms by auto
  show ?thesis unfolding swap_chunk_def s Option.bind.simps
  proof (rule sat_bind [OF sat_blit], goal_cases)
    case (2 ys)
    then have "length ys = length xs" by simp
    then show ?case using 2 l assms by (intro sat_mono [OF sat_blit]) auto
  qed (use assms l in simp)
qed

text \<open>Cell \<open>c\<close> of row \<open>i\<close> while the rows \<open>r\<close> and \<open>h - 1 - r\<close> are being exchanged, after \<open>d\<close>
  bytes of them.\<close>

definition exchanged :: "nat \<Rightarrow> nat \<Rightarrow> nat \<Rightarrow> nat \<Rightarrow> nat \<Rightarrow> bool" where
  "exchanged h r d i c \<longleftrightarrow> i < r \<or> h - 1 - r < i \<or> (i = r \<or> i = h - 1 - r) \<and> c < d"

definition flipping :: "nat \<Rightarrow> nat \<Rightarrow> 'a list \<Rightarrow> nat \<Rightarrow> nat \<Rightarrow> 'a list \<Rightarrow> bool" where
  "flipping h b xs r d ys \<longleftrightarrow> length ys = length xs \<and>
     (\<forall>i < h. \<forall>c < b. ys ! (i * b + c) = xs ! ((if exchanged h r d i c then h - 1 - i else i) * b + c))"

lemma row_chunk:
  assumes "c < b" and "d + n \<le> b"
  shows "r * b + d \<le> i * b + c \<and> i * b + c < r * b + d + n \<longleftrightarrow> i = r \<and> d \<le> c \<and> c < d + (n :: nat)"
proof (cases "i = r")
  case False
  then consider "Suc i \<le> r" | "Suc r \<le> i" by linarith
  then show ?thesis
  proof cases
    case 1
    then have "Suc i * b \<le> r * b" by (rule mult_le_mono1)
    with assms False show ?thesis by simp
  next
    case 2
    then have "Suc r * b \<le> i * b" by (rule mult_le_mono1)
    with assms False show ?thesis by simp
  qed
qed auto

lemma flip_chunk:
  assumes F: "flipping h b xs r d ys" and len: "length xs = h * b" and r: "r < h div 2" and n: "d + n \<le> b"
  shows "sat (swap_chunk ys (r * b + d) ((h - 1 - r) * b + d) n) (flipping h b xs r (d + n))"
proof -
  let ?s = "h - 1 - r"
  have rs: "r < ?s" "?s < h" using r by auto
  have "Suc r * b \<le> ?s * b" "Suc ?s * b \<le> h * b" using rs by (intro mult_le_mono1; simp)+
  then have dis: "r * b + d + n \<le> ?s * b + d" "?s * b + d + n \<le> length ys"
    using n F len by (auto simp: flipping_def)
  show ?thesis
  proof (rule sat_mono [OF swap_chunk_ok [OF dis]], elim conjE)
    fix zs assume zs: "length zs = length ys"
      and swap: "\<forall>k < n. zs ! (r * b + d + k) = ys ! (?s * b + d + k) \<and> zs ! (?s * b + d + k) = ys ! (r * b + d + k)"
      and rest: "\<forall>j < length ys. \<not> (r * b + d \<le> j \<and> j < r * b + d + n) \<and> \<not> (?s * b + d \<le> j \<and> j < ?s * b + d + n) \<longrightarrow> zs ! j = ys ! j"
    have "zs ! (i * b + c) = xs ! ((if exchanged h r (d + n) i c then h - 1 - i else i) * b + c)" if ic: "i < h" "c < b" for i c
    proof (cases "(i = r \<or> i = ?s) \<and> d \<le> c \<and> c < d + n")
      case True
      then obtain k where k: "c = d + k" "k < n" by (metis add_diff_inverse_nat nat_add_left_cancel_less not_less)
      have old: "ys ! (i' * b + c) = xs ! (i' * b + c)" if "i' = r \<or> i' = ?s" for i'
        using F that ic(2) rs True by (auto simp: flipping_def exchanged_def)
      have "h - 1 - ?s = r" using rs by simp
      then show ?thesis using True k swap old [of r] old [of ?s] rs by (auto simp: exchanged_def add.assoc)
    next
      case False
      have "i * b + c < length ys"
      proof -
        have "Suc i * b \<le> h * b" using ic by (intro mult_le_mono1) simp
        then show ?thesis using ic F len by (simp add: flipping_def)
      qed
      then have "zs ! (i * b + c) = ys ! (i * b + c)"
        using rest row_chunk [OF ic(2) n, of r i] row_chunk [OF ic(2) n, of ?s i] False by auto
      moreover have "exchanged h r (d + n) i c = exchanged h r d i c" using False by (auto simp: exchanged_def)
      ultimately show ?thesis using F ic by (simp add: flipping_def)
    qed
    then show "flipping h b xs r (d + n) zs" using zs F by (simp add: flipping_def)
  qed
qed

lemma flip_row_ok:
  assumes F: "flipping h b xs r 0 ys" and len: "length xs = h * b" and r: "r < h div 2"
  shows "sat (loop flip_step (ys, r * b, (h - 1 - r) * b, b)) (flipping h b xs r b)"
proof (rule sat_loop [where I = "\<lambda>(zs, r0, r1, left). \<exists>d. d + left = b \<and> r0 = r * b + d \<and> r1 = (h - 1 - r) * b + d \<and>
      flipping h b xs r d zs" and measure_of = "\<lambda>(zs, r0, r1, left). left"])
  fix st assume "case st of (zs, r0, r1, left) \<Rightarrow> \<exists>d. d + left = b \<and> r0 = r * b + d \<and> r1 = (h - 1 - r) * b + d \<and>
      flipping h b xs r d zs"
  then obtain zs d left where st: "st = (zs, r * b + d, (h - 1 - r) * b + d, left)" and d: "d + left = b"
    and G: "flipping h b xs r d zs" by (cases st) auto
  let ?n = "if left < 2048 then left else 2048"
  have n: "?n \<le> left" "left \<noteq> 0 \<Longrightarrow> 0 < ?n" by auto
  have "sat (swap_chunk zs (r * b + d) ((h - 1 - r) * b + d) ?n) (flipping h b xs r (d + ?n))"
    by (rule flip_chunk [OF G len r]) (use d n in linarith)
  then show "sat (flip_step st) (\<lambda>x. case x of Inl zs \<Rightarrow> flipping h b xs r b zs
    | Inr s' \<Rightarrow> (case s' of (zs, r0, r1, left) \<Rightarrow> \<exists>d. d + left = b \<and> r0 = r * b + d \<and> r1 = (h - 1 - r) * b + d \<and>
        flipping h b xs r d zs) \<and> (case s' of (zs, r0, r1, left) \<Rightarrow> left) < (case st of (zs, r0, r1, left) \<Rightarrow> left))"
    using G d n unfolding st flip_step_def prod.case Let_def
    by (cases "left = 0") (auto elim!: sat_bind simp: add.assoc intro!: exI [of _ "d + ?n"])
qed (use F in auto)

lemma flipping_next: "r < h div 2 \<Longrightarrow> flipping h b xs r b ys \<Longrightarrow> flipping h b xs (Suc r) 0 ys"
proof -
  assume r: "r < h div 2" and F: "flipping h b xs r b ys"
  have "exchanged h (Suc r) 0 i c = exchanged h r b i c" if "c < b" for i c
    using r that by (auto simp: exchanged_def)
  with F show ?thesis by (simp add: flipping_def)
qed

lemma vertical_flip_ok:
  assumes "0 \<le> w" and "0 \<le> h" and "0 \<le> bpp" and len: "length xs = nat h * nat (w * bpp)"
    and fits: "h \<le> INT_MAX" "w * bpp < 2 ^ 32"
  shows "sat (stbi_vertical_flip xs w h bpp) (\<lambda>ys. length ys = length xs \<and>
     (\<forall>i < nat h. \<forall>c < nat (w * bpp). ys ! (i * nat (w * bpp) + c) = xs ! ((nat h - 1 - i) * nat (w * bpp) + c)))"
proof -
  define H b where d: "H = nat h" "b = nat (w * bpp)"
  have wb: "(word_of_int w * word_of_int bpp :: u64) = word_of_nat b" using assms(1,3) d by (simp flip: of_int_mult)
  have bb: "b < 2 ^ 32" using fits(2) assms(1,3) d by (simp add: nat_less_iff)
  have bpr: "unat (word_of_nat b :: u64) = b" using bb by (simp add: unat_u64_of_nat)
  have hd: "nat (h div 2) = H div 2" using assms(2) d by (simp add: nat_div_distrib)
  have HH: "H < 2 ^ 31" using fits(1) assms(2) d by (simp add: nat_less_iff INT_MAX_def)
  have off: "unat (word_of_nat r * word_of_nat b :: u64) = r * b" if "r < H" for r
  proof -
    have "r * b < 2 ^ 31 * 2 ^ 32" using that HH bb by (intro mult_strict_mono) auto
    then have "unat (word_of_nat (r * b) :: u64) = r * b" by (intro unat_u64_of_nat) simp
    then show ?thesis by simp
  qed
  have row1: "(word_of_int (h - int r - 1) :: u64) = word_of_nat (H - 1 - r)" if "r < H" for r
  proof -
    have "h - int r - 1 = int (H - 1 - r)" using that d assms(2) by simp
    then show ?thesis by simp
  qed
  have S: "sat (stbi_vertical_flip xs w h bpp) (\<lambda>ys. flipping H b xs (H div 2) 0 ys)"
    unfolding stbi_vertical_flip_def wb Let_def bpr hd
  proof (rule sat_for_upto)
    show "flipping H b xs 0 0 xs" by (auto simp: flipping_def exchanged_def)
    fix r ys assume r: "r < H div 2" and F: "flipping H b xs r 0 ys"
    then have "r < H" "H - 1 - r < H" by auto
    then have o: "unat (word_of_nat r * word_of_nat b :: u64) = r * b"
      "unat (word_of_int (h - int r - 1) * word_of_nat b :: u64) = (H - 1 - r) * b"
      by (simp_all only: off row1)
    show "sat (loop flip_step (ys, unat (word_of_nat r * word_of_nat b :: u64),
        unat (word_of_int (h - int r - 1) * word_of_nat b :: u64), b)) (flipping H b xs (Suc r) 0)"
      unfolding o
      by (rule sat_mono [OF flip_row_ok [OF F _ r]]) (use len d flipping_next [OF r] in auto)
  qed simp
  have R: "ys ! (i * b + c) = xs ! ((H - 1 - i) * b + c)"
    if F: "flipping H b xs (H div 2) 0 ys" and ic: "i < H" "c < b" for ys i c
  proof (cases "exchanged H (H div 2) 0 i c")
    case False
    then have "H - 1 - i = i" using ic by (auto simp: exchanged_def)
    with F ic False show ?thesis by (simp add: flipping_def)
  qed (use F ic in \<open>simp add: flipping_def\<close>)
  show ?thesis unfolding d [symmetric]
  proof (rule sat_mono [OF S])
    fix ys assume F: "flipping H b xs (H div 2) 0 ys"
    then have "length ys = length xs" by (simp add: flipping_def)
    with R [OF F] show "length ys = length xs \<and> (\<forall>i < H. \<forall>c < b. ys ! (i * b + c) = xs ! ((H - 1 - i) * b + c))"
      by blast
  qed
qed

text \<open>C23: The vertical flip reverses the order of the rows of an image and changes nothing else,
  although it works in place through a buffer of 2048 bytes; flipping twice gives back the
  image.\<close>

theorem vertical_flip_correct:
  assumes "0 \<le> w" and "0 \<le> h" and "0 \<le> bpp" and "length xs = nat h * nat (w * bpp)"
    and "h \<le> INT_MAX" and "w * bpp < 2 ^ 32"
  shows "\<exists>ys. stbi_vertical_flip xs w h bpp = Some ys \<and> length ys = length xs \<and>
     (\<forall>i < nat h. slice ys (i * nat (w * bpp)) (nat (w * bpp)) = slice xs ((nat h - 1 - i) * nat (w * bpp)) (nat (w * bpp))) \<and>
     stbi_vertical_flip ys w h bpp = Some xs"
proof -
  let ?H = "nat h" and ?b = "nat (w * bpp)"
  obtain ys where ys: "stbi_vertical_flip xs w h bpp = Some ys" "length ys = length xs"
    "\<And>i c. i < ?H \<Longrightarrow> c < ?b \<Longrightarrow> ys ! (i * ?b + c) = xs ! ((?H - 1 - i) * ?b + c)"
    using vertical_flip_ok [OF assms] by (auto elim: satE)
  have len': "length ys = ?H * ?b" using ys(2) assms(4) by simp
  obtain zs where zs: "stbi_vertical_flip ys w h bpp = Some zs" "length zs = length ys"
    "\<And>i c. i < ?H \<Longrightarrow> c < ?b \<Longrightarrow> zs ! (i * ?b + c) = ys ! ((?H - 1 - i) * ?b + c)"
    using vertical_flip_ok [OF assms(1-3) len' assms(5,6)] by (auto elim: satE)
  have bound: "i * ?b + ?b \<le> length xs" if "i < ?H" for i
    using mult_le_mono1 [of "Suc i" ?H ?b] that assms(4) by simp
  have "zs = xs"
  proof (rule nth_equalityI)
    fix q assume "q < length zs"
    then have q: "q < ?H * ?b" using zs(2) len' by simp
    then have b: "0 < ?b" by (cases ?b) auto
    let ?i = "q div ?b" and ?c = "q mod ?b"
    have ic: "?i < ?H" "?c < ?b" using q b by (auto simp: less_mult_imp_div_less)
    then have "zs ! (?i * ?b + ?c) = xs ! (?i * ?b + ?c)"
      using zs(3) [OF ic] ys(3) [of "?H - 1 - ?i" ?c] by simp
    then show "zs ! q = xs ! q" by simp
  qed (use zs(2) ys(2) in simp)
  moreover have "slice ys (i * ?b) ?b = slice xs ((?H - 1 - i) * ?b) ?b" if i: "i < ?H" for i
  proof -
    have le: "i * ?b + ?b \<le> length xs" "(?H - 1 - i) * ?b + ?b \<le> length xs" using bound i by simp_all
    then have "?b \<le> length xs - i * ?b" "?b \<le> length xs - (?H - 1 - i) * ?b" by linarith+
    then show ?thesis using le i ys(2) ys(3) [OF i] by (auto intro!: nth_equalityI)
  qed
  ultimately show ?thesis using ys zs by blast
qed

theorem vertical_flip_correct_witness:
  "\<exists>ys. stbi_vertical_flip [1, 2, 3, 4, 5, 6 :: byte] 1 3 2 = Some ys \<and> slice ys 0 2 = Some [5, 6] \<and>
     slice ys 2 2 = Some [3, 4] \<and> stbi_vertical_flip ys 1 3 2 = Some [1, 2, 3, 4, 5, 6]"
proof -
  obtain ys where ys: "stbi_vertical_flip [1, 2, 3, 4, 5, 6 :: byte] 1 3 2 = Some ys" "length ys = 6"
    "\<forall>i < 3. slice ys (i * 2) 2 = slice [1, 2, 3, 4, 5, 6] ((3 - 1 - i) * 2) 2"
    "stbi_vertical_flip ys 1 3 2 = Some [1, 2, 3, 4, 5, 6]"
    using vertical_flip_correct [of 1 3 2 "[1, 2, 3, 4, 5, 6 :: byte]"] by (auto simp: INT_MAX_def)
  have "slice ys 0 2 = Some [5, 6]" using spec [OF ys(3), of 0] by (simp add: slice_def)
  moreover have "slice ys 2 2 = Some [3, 4]" using spec [OF ys(3), of 1] by (simp add: slice_def)
  ultimately show ?thesis using ys(1,4) by blast
qed

end
