(* ===== verification/Png_Image.thy ===== *)
theory Png_Image
  imports Stb_Pixels
begin

text \<open>
  Pixels of a PNG file, src/user/facet/gpu/stb_image.h lines 4629 to 5074: undoing the scanline
  filters, unpacking 1, 2 and 4 bit samples, adding an alpha channel, Adam7 interlacing, the
  colour that stands for transparent, the palette, and the channel order of Apple's files.

  The inflated data, the two scanlines of the filter buffer and the image are blocks of cells;
  a pointer into one of them is an offset. The 16-bit samples of the image are written at even
  offsets. Products of \<^verbatim>\<open>int\<close> operands are checked for overflow, unsigned ones wrap.
\<close>

subsection \<open>Scanline filters\<close>

definition STBI_F_none :: nat where "STBI_F_none = 0"
definition STBI_F_sub :: nat where "STBI_F_sub = 1"
definition STBI_F_up :: nat where "STBI_F_up = 2"
definition STBI_F_avg :: nat where "STBI_F_avg = 3"
definition STBI_F_paeth :: nat where "STBI_F_paeth = 4"
definition STBI_F_avg_first :: nat where "STBI_F_avg_first = 5"

definition first_row_filter :: "nat list" where
  "first_row_filter = [STBI_F_none, STBI_F_sub, STBI_F_none, STBI_F_avg_first, STBI_F_sub]"

definition stbi_paeth :: "int \<Rightarrow> int \<Rightarrow> int \<Rightarrow> int" where
  "stbi_paeth a b c =
     (let thresh = c * 3 - (a + b);
          lo = (if a < b then a else b);
          hi = (if a < b then b else a);
          t0 = (if hi \<le> thresh then lo else c);
          t1 = (if thresh \<le> lo then hi else t0) in t1)"

definition stbi_depth_scale_table :: "byte list" where
  "stbi_depth_scale_table = [0, 0xff, 0x55, 0, 0x11, 0, 0, 0, 0x01]"

text \<open>\<^verbatim>\<open>STBI__BYTECAST\<close> of a sum is addition of bytes.\<close>

definition bytecast :: "int \<Rightarrow> byte" where
  "bytecast x = word_of_int x"

text \<open>The switch over the filter types. \<open>raw + r\<close>, \<open>fb + cur\<close> and \<open>fb + prior\<close> are the three
  pointers, \<open>nk\<close> is the number of bytes of the scanline and \<open>fbytes\<close> the distance to the
  corresponding byte of the pixel on the left.\<close>

definition filter_row :: "nat \<Rightarrow> byte option list \<Rightarrow> nat \<Rightarrow> byte option list \<Rightarrow> nat \<Rightarrow> nat \<Rightarrow> nat \<Rightarrow> nat \<Rightarrow>
    byte option list option" where
  "filter_row flt raw r fb cur prior nk fbytes =
     (if flt = STBI_F_none then do { d \<leftarrow> slice raw r nk; blit fb cur d }
      else if flt = STBI_F_sub then do {
        d \<leftarrow> slice raw r fbytes;
        fb \<leftarrow> blit fb cur d;
        for_upto fbytes nk (\<lambda>k fb. do {
          v \<leftarrow> rd raw (r + k);
          a \<leftarrow> rd fb (cur + (k - fbytes));
          wr fb (cur + k) (bytecast (uint v + uint a)) }) fb }
      else if flt = STBI_F_up then
        for_upto 0 nk (\<lambda>k fb. do {
          v \<leftarrow> rd raw (r + k);
          b \<leftarrow> rd fb (prior + k);
          wr fb (cur + k) (bytecast (uint v + uint b)) }) fb
      else if flt = STBI_F_avg then do {
        fb \<leftarrow> for_upto 0 fbytes (\<lambda>k fb. do {
          v \<leftarrow> rd raw (r + k);
          b \<leftarrow> rd fb (prior + k);
          wr fb (cur + k) (bytecast (uint v + uint b div 2)) }) fb;
        for_upto fbytes nk (\<lambda>k fb. do {
          v \<leftarrow> rd raw (r + k);
          b \<leftarrow> rd fb (prior + k);
          a \<leftarrow> rd fb (cur + (k - fbytes));
          wr fb (cur + k) (bytecast (uint v + (uint b + uint a) div 2)) }) fb }
      else if flt = STBI_F_paeth then do {
        fb \<leftarrow> for_upto 0 fbytes (\<lambda>k fb. do {
          v \<leftarrow> rd raw (r + k);
          b \<leftarrow> rd fb (prior + k);
          wr fb (cur + k) (bytecast (uint v + uint b)) }) fb;
        for_upto fbytes nk (\<lambda>k fb. do {
          v \<leftarrow> rd raw (r + k);
          a \<leftarrow> rd fb (cur + (k - fbytes));
          b \<leftarrow> rd fb (prior + k);
          c \<leftarrow> rd fb (prior + (k - fbytes));
          wr fb (cur + k) (bytecast (uint v + stbi_paeth (uint a) (uint b) (uint c))) }) fb }
      else if flt = STBI_F_avg_first then do {
        d \<leftarrow> slice raw r fbytes;
        fb \<leftarrow> blit fb cur d;
        for_upto fbytes nk (\<lambda>k fb. do {
          v \<leftarrow> rd raw (r + k);
          a \<leftarrow> rd fb (cur + (k - fbytes));
          wr fb (cur + k) (bytecast (uint v + uint a div 2)) }) fb }
      else Some fb)"

subsection \<open>Expanding a scanline\<close>

text \<open>\<^verbatim>\<open>src\<close> reads the source samples; it is a function of the destination block because the two
  may be the same.\<close>

definition stbi_create_png_alpha_expand8 ::
    "byte option list \<Rightarrow> nat \<Rightarrow> (byte option list \<Rightarrow> nat \<Rightarrow> byte option) \<Rightarrow> u32 \<Rightarrow> int \<Rightarrow> byte option list option" where
  "stbi_create_png_alpha_expand8 out dest src x imgn =
     (let n = nat (sint (x - 1) + 1) in
      if imgn = 1 then
        for_upto 0 n (\<lambda>t out. do {
          let i = n - 1 - t;
          out \<leftarrow> wr out (dest + (i * 2 + 1)) 255;
          v \<leftarrow> src out i;
          wr out (dest + i * 2) v }) out
      else if imgn = 3 then
        for_upto 0 n (\<lambda>t out. do {
          let i = n - 1 - t;
          out \<leftarrow> wr out (dest + (i * 4 + 3)) 255;
          v \<leftarrow> src out (i * 3 + 2);
          out \<leftarrow> wr out (dest + (i * 4 + 2)) v;
          v \<leftarrow> src out (i * 3 + 1);
          out \<leftarrow> wr out (dest + (i * 4 + 1)) v;
          v \<leftarrow> src out (i * 3);
          wr out (dest + i * 4) v }) out
      else None)"

text \<open>The three loops that unpack samples of less than 8 bits differ only in the depth.\<close>

definition expand_bits :: "nat \<Rightarrow> byte \<Rightarrow> byte option list \<Rightarrow> nat \<Rightarrow> byte option list \<Rightarrow> nat \<Rightarrow> nat \<Rightarrow>
    byte option list option" where
  "expand_bits depth scale fb cur out dest nsmp =
     (if depth = 4 \<or> depth = 2 \<or> depth = 1 then do {
        (_, _, out) \<leftarrow> for_upto 0 nsmp (\<lambda>i (p, inb, out). do {
          (inb, p) \<leftarrow> (if i mod (8 div depth) = 0 then do { b \<leftarrow> rd fb p; Some (b, p + 1) } else Some (inb, p));
          out \<leftarrow> wr out (dest + i) (scale * drop_bit (8 - depth) inb);
          Some (p, push_bit depth inb, out) }) (cur, 0, out);
        Some out }
      else None)"

definition be16 :: "byte option list \<Rightarrow> nat \<Rightarrow> u16 option" where
  "be16 fb i = do { hi \<leftarrow> rd fb i; lo \<leftarrow> rd fb (i + 1); Some (word_of_nat (unat hi * 256 + unat lo)) }"

definition expand_row16 :: "int \<Rightarrow> int \<Rightarrow> u32 \<Rightarrow> byte option list \<Rightarrow> nat \<Rightarrow> byte option list \<Rightarrow> nat \<Rightarrow>
    byte option list option" where
  "expand_row16 imgn out_n x fb cur out dest =
     (let d = dest div 2 in
      if imgn = out_n then
        for_upto 0 (unat (x * word_of_int imgn)) (\<lambda>i out. do {
          v \<leftarrow> be16 fb (cur + 2 * i);
          wr16 out (d + i) v }) out
      else if imgn + 1 = out_n then
        if imgn = 1 then
          for_upto 0 (unat x) (\<lambda>i out. do {
            v \<leftarrow> be16 fb (cur + 2 * i);
            out \<leftarrow> wr16 out (d + 2 * i) v;
            wr16 out (d + 2 * i + 1) 0xffff }) out
        else if imgn = 3 then
          for_upto 0 (unat x) (\<lambda>i out. do {
            v \<leftarrow> be16 fb (cur + 6 * i);
            out \<leftarrow> wr16 out (d + 4 * i) v;
            v \<leftarrow> be16 fb (cur + 6 * i + 2);
            out \<leftarrow> wr16 out (d + 4 * i + 1) v;
            v \<leftarrow> be16 fb (cur + 6 * i + 4);
            out \<leftarrow> wr16 out (d + 4 * i + 2) v;
            wr16 out (d + 4 * i + 3) 0xffff }) out
        else None
      else None)"

definition expand_row :: "int \<Rightarrow> int \<Rightarrow> u32 \<Rightarrow> int \<Rightarrow> int \<Rightarrow> byte option list \<Rightarrow> nat \<Rightarrow> byte option list \<Rightarrow> nat \<Rightarrow>
    byte option list option" where
  "expand_row imgn out_n x depth color fb cur out dest =
     (if depth < 8 then do {
        scale \<leftarrow> (if color = 0 then iget stbi_depth_scale_table depth else Some 1);
        out \<leftarrow> expand_bits (nat depth) scale fb cur out dest (unat (x * word_of_int imgn));
        if imgn \<noteq> out_n then stbi_create_png_alpha_expand8 out dest (\<lambda>out k. rd out (dest + k)) x imgn
        else Some out }
      else if depth = 8 then
        if imgn = out_n then do { d \<leftarrow> slice fb cur (unat (x * word_of_int imgn)); blit out dest d }
        else stbi_create_png_alpha_expand8 out dest (\<lambda>_ k. rd fb (cur + k)) x imgn
      else if depth = 16 then expand_row16 imgn out_n x fb cur out dest
      else Some out)"

subsection \<open>The image from the inflated data\<close>

text \<open>One turn of the loop over the scanlines: the filter type, the scanline, its expansion.\<close>

definition png_row :: "int \<Rightarrow> int \<Rightarrow> u32 \<Rightarrow> int \<Rightarrow> int \<Rightarrow> byte option list \<Rightarrow> nat \<Rightarrow> nat \<Rightarrow> nat \<Rightarrow> u32 \<Rightarrow> nat \<Rightarrow>
    nat \<times> byte option list \<times> byte option list \<Rightarrow> (nat \<times> byte option list \<times> byte option list) res" where
  "png_row imgn out_n x depth color raw img_width_bytes nk fbytes stride j st = (case st of (r, fb, out) \<Rightarrow> do {
     let cur = (j mod 2) * img_width_bytes;
     let prior = (1 - j mod 2) * img_width_bytes;
     let dest = unat (stride * word_of_nat j);
     f \<leftarrow> rd raw r;
     let flt = unat f;
     if flt > 4 then stbi_err ''invalid filter''
     else do {
       flt \<leftarrow> (if j = 0 then aget first_row_filter flt else Some flt);
       fb \<leftarrow> filter_row flt raw (r + 1) fb cur prior nk fbytes;
       out \<leftarrow> expand_row imgn out_n x depth color fb cur out dest;
       ret (r + 1 + nk, fb, out) } })"

definition stbi_create_png_image_raw :: "allocator \<Rightarrow> int \<Rightarrow> byte option list \<Rightarrow> nat \<Rightarrow> u32 \<Rightarrow> int \<Rightarrow> u32 \<Rightarrow> u32 \<Rightarrow>
    int \<Rightarrow> int \<Rightarrow> byte option list res" where
  "stbi_create_png_image_raw ok imgn raw r raw_len out_n x y depth color = do {
     let bytes = (if depth = 16 then 2 else 1);
     let stride = x * word_of_int out_n * word_of_int bytes;
     output_bytes \<leftarrow> i32 (out_n * bytes);
     filter_bytes \<leftarrow> i32 (imgn * bytes);
     if \<not> (out_n = imgn \<or> out_n = imgn + 1) then None
     else case stbi_malloc_mad3 ok (sint x) (sint y) output_bytes 0 of
       None \<Rightarrow> stbi_err ''outofmem''
     | Some out \<Rightarrow>
       if \<not> stbi_mad3sizes_valid imgn (sint x) depth 7 then stbi_err ''too large''
       else let img_width_bytes = drop_bit 3 (word_of_int imgn * x * word_of_int depth + 7) :: u32 in
       if \<not> stbi_mad2sizes_valid (sint img_width_bytes) (sint y) (sint img_width_bytes) then stbi_err ''too large''
       else let img_len = (img_width_bytes + 1) * y in
       if raw_len < img_len then stbi_err ''not enough pixels''
       else case stbi_malloc_mad2 ok (sint img_width_bytes) 2 0 of
         None \<Rightarrow> stbi_err ''outofmem''
       | Some filter_buf \<Rightarrow> do {
           let filter_bytes = (if depth < 8 then 1 else filter_bytes);
           let width = (if depth < 8 then sint img_width_bytes else sint x);
           nk \<leftarrow> i32 (width * filter_bytes);
           ebind (efor 0 (unat y)
               (png_row imgn out_n x depth color raw (unat img_width_bytes) (nat nk) (nat filter_bytes) stride)
               (r, filter_buf, out))
             (\<lambda>(_, _, out). ret out) } }"

subsection \<open>Interlacing\<close>

definition xorig :: "int list" where "xorig = [0, 4, 0, 2, 0, 1, 0]"
definition yorig :: "int list" where "yorig = [0, 0, 4, 0, 2, 0, 1]"
definition xspc :: "int list" where "xspc = [8, 8, 4, 4, 2, 2, 1]"
definition yspc :: "int list" where "yspc = [8, 8, 8, 4, 4, 2, 2]"

text \<open>The number of columns (or rows) of a pass, computed without sign.\<close>

definition pass_dim :: "u32 \<Rightarrow> int \<Rightarrow> int \<Rightarrow> int" where
  "pass_dim dim orig spc = sint ((dim - word_of_int orig + word_of_int spc - 1) div word_of_int spc)"

text \<open>The pixels of a pass are copied to their places in the final image.\<close>

definition place_pass :: "nat \<Rightarrow> u32 \<Rightarrow> int \<Rightarrow> int \<Rightarrow> int \<Rightarrow> byte option list \<Rightarrow> byte option list \<Rightarrow> byte option list option" where
  "place_pass p imgx out_bytes x y out final = do {
     xo \<leftarrow> aget xorig p; yo \<leftarrow> aget yorig p; xs \<leftarrow> aget xspc p; ys \<leftarrow> aget yspc p;
     for_upto 0 (nat y) (\<lambda>j final. for_upto 0 (nat x) (\<lambda>i final. do {
       out_y \<leftarrow> i32 (int j * ys + yo);
       out_x \<leftarrow> i32 (int i * xs + xo);
       dx \<leftarrow> i32 (out_x * out_bytes);
       src \<leftarrow> i32 ((int j * x + int i) * out_bytes);
       px \<leftarrow> slice out (nat src) (nat out_bytes);
       blit final (unat (word_of_int out_y * imgx * word_of_int out_bytes) + nat dx) px }) final) final }"

definition png_pass :: "allocator \<Rightarrow> int \<Rightarrow> u32 \<Rightarrow> u32 \<Rightarrow> byte option list \<Rightarrow> int \<Rightarrow> int \<Rightarrow> int \<Rightarrow> int \<Rightarrow> nat \<Rightarrow>
    nat \<times> u32 \<times> byte option list \<Rightarrow> (nat \<times> u32 \<times> byte option list) res" where
  "png_pass ok imgn imgx imgy image_data out_n out_bytes depth color p st = (case st of (pos, len, final) \<Rightarrow> do {
     xo \<leftarrow> aget xorig p; yo \<leftarrow> aget yorig p; xs \<leftarrow> aget xspc p; ys \<leftarrow> aget yspc p;
     let x = pass_dim imgx xo xs;
     let y = pass_dim imgy yo ys;
     if x \<noteq> 0 \<and> y \<noteq> 0 then do {
       nx \<leftarrow> i32 (imgn * x);
       bits \<leftarrow> i32 (nx * depth);
       bits \<leftarrow> i32 (bits + 7);
       il \<leftarrow> i32 ((bits div 8 + 1) * y);
       ebind (stbi_create_png_image_raw ok imgn image_data pos len out_n (word_of_int x) (word_of_int y) depth color)
         (\<lambda>out. do {
            final \<leftarrow> place_pass p imgx out_bytes x y out final;
            ret (pos + nat il, len - word_of_int il, final) }) }
     else ret (pos, len, final) })"

definition stbi_create_png_image :: "allocator \<Rightarrow> int \<Rightarrow> u32 \<Rightarrow> u32 \<Rightarrow> byte option list \<Rightarrow> u32 \<Rightarrow> int \<Rightarrow> int \<Rightarrow> int \<Rightarrow> bool \<Rightarrow>
    byte option list res" where
  "stbi_create_png_image ok imgn imgx imgy image_data image_data_len out_n depth color interlaced = do {
     let bytes = (if depth = 16 then 2 else 1);
     out_bytes \<leftarrow> i32 (out_n * bytes);
     if \<not> interlaced then
       stbi_create_png_image_raw ok imgn image_data 0 image_data_len out_n imgx imgy depth color
     else case stbi_malloc_mad3 ok (sint imgx) (sint imgy) out_bytes 0 of
       None \<Rightarrow> stbi_err ''outofmem''
     | Some final \<Rightarrow>
         ebind (efor 0 7 (png_pass ok imgn imgx imgy image_data out_n out_bytes depth color) (0, image_data_len, final))
           (\<lambda>(_, _, final). ret final) }"

subsection \<open>Transparency, palette and channel order\<close>

definition stbi_compute_transparency :: "u32 \<Rightarrow> u32 \<Rightarrow> byte list \<Rightarrow> int \<Rightarrow> byte option list \<Rightarrow> byte option list option" where
  "stbi_compute_transparency imgx imgy tc out_n out = do {
     let pixel_count = unat (imgx * imgy);
     t0 \<leftarrow> aget tc 0; t1 \<leftarrow> aget tc 1; t2 \<leftarrow> aget tc 2;
     if out_n = 2 then
       for_upto 0 pixel_count (\<lambda>i out. do {
         v \<leftarrow> rd out (2 * i);
         wr out (2 * i + 1) (if v = t0 then 0 else 255) }) out
     else if out_n = 4 then
       for_upto 0 pixel_count (\<lambda>i out. do {
         r \<leftarrow> rd out (4 * i); g \<leftarrow> rd out (4 * i + 1); b \<leftarrow> rd out (4 * i + 2);
         if r = t0 \<and> g = t1 \<and> b = t2 then wr out (4 * i + 3) 0 else Some out }) out
     else None }"

text \<open>The 16-bit colour may have been set in part; only the components of the image are read.\<close>

definition stbi_compute_transparency16 :: "u32 \<Rightarrow> u32 \<Rightarrow> u16 option list \<Rightarrow> int \<Rightarrow> byte option list \<Rightarrow> byte option list option" where
  "stbi_compute_transparency16 imgx imgy tc out_n out = do {
     let pixel_count = unat (imgx * imgy);
     if out_n = 2 then
       for_upto 0 pixel_count (\<lambda>i out. do {
         v \<leftarrow> rd16 out (2 * i);
         t0 \<leftarrow> rd tc 0;
         wr16 out (2 * i + 1) (if v = t0 then 0 else 65535) }) out
     else if out_n = 4 then
       for_upto 0 pixel_count (\<lambda>i out. do {
         r \<leftarrow> rd16 out (4 * i); t0 \<leftarrow> rd tc 0;
         if r \<noteq> t0 then Some out
         else do {
           g \<leftarrow> rd16 out (4 * i + 1); t1 \<leftarrow> rd tc 1;
           if g \<noteq> t1 then Some out
           else do {
             b \<leftarrow> rd16 out (4 * i + 2); t2 \<leftarrow> rd tc 2;
             if b = t2 then wr16 out (4 * i + 3) 0 else Some out } } }) out
     else None }"

definition stbi_expand_png_palette :: "allocator \<Rightarrow> u32 \<Rightarrow> u32 \<Rightarrow> byte list \<Rightarrow> int \<Rightarrow> byte option list \<Rightarrow> byte option list res" where
  "stbi_expand_png_palette ok imgx imgy palette pal_img_n orig =
     (let pixel_count = imgx * imgy in
      case stbi_malloc_mad2 ok (sint pixel_count) pal_img_n 0 of
        None \<Rightarrow> stbi_err ''outofmem''
      | Some p \<Rightarrow> do {
          let c = (if pal_img_n = 3 then 3 else 4);
          p \<leftarrow> for_upto 0 (unat pixel_count) (\<lambda>i p. do {
            v \<leftarrow> rd orig i;
            let n = unat v * 4;
            for_upto 0 c (\<lambda>k p. do { b \<leftarrow> aget palette (n + k); wr p (c * i + k) b }) p }) p;
          ret p })"

text \<open>The global and thread-local settings.\<close>

record on_load_flag =
  flag_global :: bool
  flag_local :: bool
  flag_set :: bool

definition flag_value :: "on_load_flag \<Rightarrow> bool" where
  "flag_value f = (if flag_set f then flag_local f else flag_global f)"

definition set_flag_global :: "bool \<Rightarrow> on_load_flag \<Rightarrow> on_load_flag" where
  "set_flag_global v f = f\<lparr>flag_global := v\<rparr>"

definition set_flag_thread :: "bool \<Rightarrow> on_load_flag \<Rightarrow> on_load_flag" where
  "set_flag_thread v f = f\<lparr>flag_local := v, flag_set := True\<rparr>"

record load_flags =
  unpremultiply_on_load :: on_load_flag
  de_iphone_flag :: on_load_flag
  flip_vertically_on_load :: on_load_flag

text \<open>One pixel of \<^verbatim>\<open>stbi__de_iphone\<close> with alpha, when unpremultiplying; the quotients are converted
  to a byte.\<close>

definition unpremultiply :: "byte \<Rightarrow> byte \<Rightarrow> byte" where
  "unpremultiply v a = word_of_nat ((unat v * 255 + unat a div 2) div unat a)"

definition stbi_de_iphone :: "load_flags \<Rightarrow> u32 \<Rightarrow> u32 \<Rightarrow> int \<Rightarrow> byte option list \<Rightarrow> byte option list option" where
  "stbi_de_iphone flags imgx imgy out_n out = do {
     let pixel_count = unat (imgx * imgy);
     let swap = (\<lambda>n i out. do {
       t \<leftarrow> rd out (n * i);
       v \<leftarrow> rd out (n * i + 2);
       out \<leftarrow> wr out (n * i) v;
       wr out (n * i + 2) t });
     if out_n = 3 then for_upto 0 pixel_count (swap 3) out
     else if out_n = 4 then
       if flag_value (unpremultiply_on_load flags) then
         for_upto 0 pixel_count (\<lambda>i out. do {
           a \<leftarrow> rd out (4 * i + 3);
           t \<leftarrow> rd out (4 * i);
           if a \<noteq> 0 then do {
             v \<leftarrow> rd out (4 * i + 2);
             out \<leftarrow> wr out (4 * i) (unpremultiply v a);
             v \<leftarrow> rd out (4 * i + 1);
             out \<leftarrow> wr out (4 * i + 1) (unpremultiply v a);
             wr out (4 * i + 2) (unpremultiply t a) }
           else do {
             v \<leftarrow> rd out (4 * i + 2);
             out \<leftarrow> wr out (4 * i) v;
             wr out (4 * i + 2) t } }) out
       else for_upto 0 pixel_count (swap 4) out
     else None }"

end
