(* ===== verification/Prefix_Code.thy ===== *)
theory Prefix_Code
  imports Prelude
begin

text \<open>
  Canonical prefix codes as RFC 1951 defines them, apart from any program: the code words that a
  list of code lengths determines, and the intervals of 16-bit windows that start with them. This
  is the specification against which the decoder's tables are proved.
\<close>

text \<open>The code that RFC 1951 gives to a list \<open>L\<close> of code lengths (0: the symbol does not
  occur): codes of one length are consecutive in symbol order, and the first code of length
  \<open>l + 1\<close> is twice the end of those of length \<open>l\<close>.\<close>

fun first_code :: "nat list \<Rightarrow> nat \<Rightarrow> nat" where
  "first_code L 0 = 0"
| "first_code L (Suc l) = 2 * (first_code L l + (if l = 0 then 0 else count_list L l))"

definition rank :: "nat list \<Rightarrow> nat \<Rightarrow> nat" where
  "rank L i = count_list (take i L) (L ! i)"

definition code_of :: "nat list \<Rightarrow> nat \<Rightarrow> nat" where
  "code_of L i = first_code L (L ! i) + rank L i"

definition first_sym :: "nat list \<Rightarrow> nat \<Rightarrow> nat" where
  "first_sym L l = (\<Sum>m\<in>{1..<l}. count_list L m)"

text \<open>The lengths are at most \<open>m\<close>, no more than the 16 bits of a window, and the code is not oversubscribed. The
  codes of deflate have at most 15 bits, those of JPEG 16.\<close>

definition code_upto :: "nat \<Rightarrow> nat list \<Rightarrow> bool" where
  "code_upto m L \<longleftrightarrow> m \<le> 16 \<and> (\<forall>x \<in> set L. x \<le> m) \<and> (\<forall>l \<in> {1..m}. first_code L l + count_list L l \<le> 2 ^ l)"

abbreviation code_ok :: "nat list \<Rightarrow> bool" where
  "code_ok \<equiv> code_upto 15"

text \<open>The symbol whose code starts a 16-bit window.\<close>

definition starts :: "nat list \<Rightarrow> nat \<Rightarrow> nat \<Rightarrow> bool" where
  "starts L i k \<longleftrightarrow> i < length L \<and> L ! i \<noteq> 0 \<and> k div 2 ^ (16 - L ! i) = code_of L i"

definition ceil :: "nat list \<Rightarrow> nat \<Rightarrow> nat" where
  "ceil L l = (if l = 0 then 0 else (first_code L l + count_list L l) * 2 ^ (16 - l))"

lemma count_list_take_Suc:
  "i < length L \<Longrightarrow> count_list (take (Suc i) L) l = count_list (take i L) l + (if L ! i = l then 1 else 0)"
  by (simp add: take_Suc_conv_app_nth)

lemma count_list_take_le: "count_list (take i L) l \<le> count_list L l"
  by (metis append_take_drop_id count_list_append le_add1)

lemma rank_less: "i < length L \<Longrightarrow> rank L i < count_list L (L ! i)"
  using count_list_take_Suc [of i L "L ! i"] count_list_take_le [of "Suc i" L "L ! i"]
  by (simp add: rank_def)

lemma rank_mono:
  assumes "i < j" and "j < length L" and "L ! i = L ! j"
  shows "rank L i < rank L j"
proof -
  have "count_list (take (Suc i) L) (L ! i) \<le> count_list (take j L) (L ! i)"
    using count_list_take_le [of "Suc i" "take j L" "L ! i"] assms(1) by (simp add: min_absorb1)
  then show ?thesis using assms count_list_take_Suc [of i L "L ! i"] by (simp add: rank_def)
qed

lemma rank_inj:
  "i < length L \<Longrightarrow> j < length L \<Longrightarrow> L ! i = L ! j \<Longrightarrow> rank L i = rank L j \<Longrightarrow> i = j"
  using rank_mono [of i j L] rank_mono [of j i L] by (metis less_irrefl linorder_neqE_nat)

lemma rank_surj:
  "r < count_list L l \<Longrightarrow> \<exists>i < length L. L ! i = l \<and> rank L i = r"
proof (induction L rule: rev_induct)
  case (snoc x L)
  show ?case
  proof (cases "r < count_list L l")
    case True
    then obtain i where "i < length L" "L ! i = l" "rank L i = r" using snoc.IH by blast
    then show ?thesis by (intro exI [of _ i]) (simp add: nth_append rank_def)
  next
    case False
    then have "x = l" "r = count_list L l" using snoc.prems by (auto split: if_splits)
    then show ?thesis by (intro exI [of _ "length L"]) (simp add: rank_def)
  qed
qed simp

lemma ceil_Suc:
  assumes "l < 16"
  shows "first_code L (Suc l) * 2 ^ (16 - Suc l) = ceil L l"
proof -
  have "2 ^ (16 - l) = 2 * (2 :: nat) ^ (16 - Suc l)" using assms by (metis Suc_diff_Suc power_Suc)
  then show ?thesis by (simp add: ceil_def algebra_simps)
qed

lemma ceil_mono_Suc: "l < 16 \<Longrightarrow> ceil L l \<le> ceil L (Suc l)"
  using ceil_Suc [of l L] by (simp add: ceil_def [of L "Suc l"] algebra_simps)

lemma ceil_mono: "l \<le> m \<Longrightarrow> m \<le> 16 \<Longrightarrow> ceil L l \<le> ceil L m"
proof (induction m)
  case (Suc m)
  then show ?case using ceil_mono_Suc [of m L] by (cases "l = Suc m") auto
qed simp

lemma ceil_bound: "code_upto m L \<Longrightarrow> 1 \<le> l \<Longrightarrow> l \<le> m \<Longrightarrow> ceil L l \<le> 65536"
proof -
  assume "code_upto m L" "1 \<le> l" "l \<le> m"
  then have "first_code L l + count_list L l \<le> 2 ^ l" "l \<le> 16" by (simp_all add: code_upto_def)
  then have "ceil L l \<le> 2 ^ l * 2 ^ (16 - l)" using \<open>1 \<le> l\<close> by (simp add: ceil_def)
  also have "\<dots> = 65536" using \<open>l \<le> 16\<close> by (simp flip: power_add)
  finally show ?thesis .
qed

lemma div_pow_eq_iff: "k div 2 ^ n = c \<longleftrightarrow> c * 2 ^ n \<le> k \<and> k < Suc c * 2 ^ n" for k :: nat
proof
  assume c: "k div 2 ^ n = c"
  have "k div 2 ^ n * 2 ^ n \<le> k" by (simp add: div_times_less_eq_dividend)
  moreover have "k < k div 2 ^ n * 2 ^ n + 2 ^ n"
  proof -
    have "k mod 2 ^ n < 2 ^ n" by simp
    with div_mult_mod_eq [of k "2 ^ n"] show ?thesis by linarith
  qed
  ultimately show "c * 2 ^ n \<le> k \<and> k < Suc c * 2 ^ n" unfolding c by simp
next
  assume "c * 2 ^ n \<le> k \<and> k < Suc c * 2 ^ n"
  then show "k div 2 ^ n = c" by (intro div_nat_eqI) (auto simp: mult.commute)
qed

text \<open>The windows that start with a code of length \<open>l\<close> are an interval.\<close>

lemma starts_interval:
  assumes l: "1 \<le> l" "l \<le> 16"
  shows "(\<exists>i. L ! i = l \<and> starts L i k) \<longleftrightarrow> ceil L (l - 1) \<le> k \<and> k < ceil L l"
proof -
  let ?p = "2 ^ (16 - l) :: nat"
  have lo: "first_code L l * ?p = ceil L (l - 1)" using ceil_Suc [of "l - 1" L] l by simp
  have hi: "ceil L l = (first_code L l + count_list L l) * ?p" using l by (simp add: ceil_def)
  show ?thesis
  proof
    assume "\<exists>i. L ! i = l \<and> starts L i k"
    then obtain i where i: "L ! i = l" "i < length L" "k div ?p = first_code L l + rank L i"
      by (auto simp: starts_def code_of_def)
    have "first_code L l * ?p \<le> k" using i(3) by (simp add: div_pow_eq_iff algebra_simps)
    moreover have "k < (first_code L l + rank L i + 1) * ?p"
      using i(3) by (simp add: div_pow_eq_iff algebra_simps)
    moreover have "(first_code L l + rank L i + 1) * ?p \<le> (first_code L l + count_list L l) * ?p"
      using rank_less [OF i(2)] i(1) by (intro mult_right_mono) auto
    ultimately show "ceil L (l - 1) \<le> k \<and> k < ceil L l" using lo hi by simp
  next
    assume k: "ceil L (l - 1) \<le> k \<and> k < ceil L l"
    then have "first_code L l \<le> k div ?p" using lo by (simp add: less_eq_div_iff_mult_less_eq)
    moreover have "k div ?p < first_code L l + count_list L l"
      using k hi by (simp add: less_mult_imp_div_less)
    ultimately obtain r where r: "k div ?p = first_code L l + r" "r < count_list L l"
      by (metis le_add_diff_inverse nat_add_left_cancel_less)
    obtain i where "i < length L" "L ! i = l" "rank L i = r" using rank_surj [OF r(2)] by blast
    then show "\<exists>i. L ! i = l \<and> starts L i k" using r l by (auto simp: starts_def code_of_def)
  qed
qed

lemma starts_length: "code_upto m L \<Longrightarrow> starts L i k \<Longrightarrow> 1 \<le> L ! i \<and> L ! i \<le> m \<and> L ! i \<le> 16"
  using nth_mem [of i L] by (auto simp: starts_def code_upto_def intro: le_trans)

text \<open>At most one symbol starts a window: the code is a prefix code.\<close>

lemma starts_unique:
  assumes ok: "code_upto m L" and i: "starts L i k" and j: "starts L j k"
  shows "i = j"
proof -
  have "\<not> L ! x < L ! y" if "starts L x k" "starts L y k" for x y
  proof
    assume less: "L ! x < L ! y"
    have "k < ceil L (L ! x)" using starts_interval [of "L ! x" L k] starts_length [OF ok that(1)] that by auto
    also have "\<dots> \<le> ceil L (L ! y - 1)" using less starts_length [OF ok that(2)] by (intro ceil_mono) auto
    also have "\<dots> \<le> k" using starts_interval [of "L ! y" L k] starts_length [OF ok that(2)] that by auto
    finally show False by simp
  qed
  then have "L ! i = L ! j" using i j by (meson linorder_neqE_nat)
  then show ?thesis using i j by (auto simp: starts_def code_of_def intro: rank_inj)
qed

lemma starts_ex_iff: "(\<exists>i. starts L i k \<and> L ! i \<le> m) \<longleftrightarrow> k < ceil L m" if "m \<le> 16"
  using that
proof (induction m)
  case 0
  then show ?case by (auto simp: ceil_def starts_def)
next
  case (Suc m)
  have "(\<exists>i. starts L i k \<and> L ! i \<le> Suc m) \<longleftrightarrow>
      (\<exists>i. starts L i k \<and> L ! i \<le> m) \<or> (\<exists>i. L ! i = Suc m \<and> starts L i k)"
    by (auto simp: le_Suc_eq)
  also have "\<dots> \<longleftrightarrow> k < ceil L m \<or> ceil L m \<le> k \<and> k < ceil L (Suc m)"
    using Suc starts_interval [of "Suc m" L k] by simp
  also have "\<dots> \<longleftrightarrow> k < ceil L (Suc m)" using ceil_mono_Suc [of m L] Suc.prems by auto
  finally show ?case .
qed

subsection \<open>Symbols in order of their codes\<close>

lemma sum_count_le: "finite A \<Longrightarrow> (\<Sum>m\<in>A. count_list L m) \<le> length L"
proof (induction L)
  case (Cons x L)
  have "(\<Sum>m\<in>A. count_list (x # L) m) = (\<Sum>m\<in>A. count_list L m) + (\<Sum>m\<in>A. if m = x then 1 else 0)"
    by (simp add: sum.distrib [symmetric]) (intro sum.cong, auto)
  also have "(\<Sum>m\<in>A. if m = x then 1 else 0) \<le> (1 :: nat)" using Cons.prems by (simp add: sum.delta)
  finally show ?case using Cons by simp
qed simp

lemma first_sym_Suc: "1 \<le> l \<Longrightarrow> first_sym L (Suc l) = first_sym L l + count_list L l"
  by (simp add: first_sym_def)

lemma first_sym_le: "first_sym L l \<le> length L"
  by (simp add: first_sym_def sum_count_le)

lemma first_sym_mono: "l \<le> m \<Longrightarrow> first_sym L l \<le> first_sym L m"
  unfolding first_sym_def by (rule sum_mono2) auto

definition slot_of :: "nat list \<Rightarrow> nat \<Rightarrow> nat" where
  "slot_of L i = first_sym L (L ! i) + rank L i"

lemma slot_of_less:
  assumes "i < length L" and "L ! i \<noteq> 0"
  shows "slot_of L i < first_sym L (Suc (L ! i))" and "slot_of L i < length L"
proof -
  show *: "slot_of L i < first_sym L (Suc (L ! i))"
    using rank_less [OF assms(1)] assms(2) by (simp add: slot_of_def first_sym_Suc)
  then show "slot_of L i < length L" using first_sym_le [of L "Suc (L ! i)"] by linarith
qed

lemma slot_of_inj:
  assumes "i < length L" "L ! i \<noteq> 0" "j < length L" "L ! j \<noteq> 0" "slot_of L i = slot_of L j"
  shows "i = j"
proof -
  have "\<not> L ! x < L ! y" if "x < length L" "L ! x \<noteq> 0" "slot_of L x = slot_of L y" for x y
  proof
    assume "L ! x < L ! y"
    then have "first_sym L (Suc (L ! x)) \<le> first_sym L (L ! y)" by (intro first_sym_mono) simp
    then show False using slot_of_less(1) [OF that(1,2)] that(3) by (simp add: slot_of_def)
  qed
  then have "L ! i = L ! j" using assms by (metis linorder_neqE_nat)
  then show ?thesis using assms by (simp add: slot_of_def rank_inj)
qed

lemma code_of_less:
  assumes "code_upto m L" and "i < length L" and "L ! i \<noteq> 0"
  shows "code_of L i < 2 ^ (L ! i)"
proof -
  have "L ! i \<le> m" using assms by (auto simp: code_upto_def)
  then have "first_code L (L ! i) + count_list L (L ! i) \<le> 2 ^ (L ! i)"
    using assms by (simp add: code_upto_def)
  then show ?thesis using rank_less [OF assms(2)] by (simp add: code_of_def)
qed

subsection \<open>The decoding function\<close>

definition next_symbol :: "nat list \<Rightarrow> nat \<Rightarrow> nat option" where
  "next_symbol L k = find (\<lambda>i. starts L i k) [0..<length L]"

lemma next_symbol_None: "next_symbol L k = None \<longleftrightarrow> (\<forall>i. \<not> starts L i k)"
  by (auto simp: next_symbol_def find_None_iff starts_def)

lemma next_symbol_Some: "code_upto m L \<Longrightarrow> next_symbol L k = Some i \<longleftrightarrow> starts L i k"
  by (metis find_Some_iff next_symbol_None next_symbol_def not_None_eq starts_unique)

end
