(* ===== verification/Zlib_Huffman.thy ===== *)
theory Zlib_Huffman
  imports Stb_Context Prefix_Code
begin

text \<open>
  The Huffman tables of the DEFLATE decoder in src/user/facet/gpu/stb_image.h (lines 4090 to
  4169): how \<^verbatim>\<open>stbi__zbuild_huffman\<close> turns code lengths into the fast table, the canonical
  first codes and the sorted symbols. The theorems describe the tables in terms of the canonical
  prefix code that RFC 1951 assigns to the lengths.

  Table entries that a build has not written keep what was there before (\<open>None\<close> in a fresh
  table). Values of the 16-bit fields are numbers with the truncation written out.
\<close>

subsection \<open>Tables\<close>

record zhuffman =
  fast :: "nat list"
  firstcode :: "nat option list"
  maxcode :: "nat option list"
  firstsymbol :: "nat option list"
  zsize :: "nat option list"
  zvalue :: "nat option list"

definition fresh_zhuffman :: zhuffman where
  "fresh_zhuffman = \<lparr>fast = replicate 512 0, firstcode = replicate 16 None, maxcode = replicate 17 None,
     firstsymbol = replicate 16 None, zsize = replicate 288 None, zvalue = replicate 288 None\<rparr>"

definition stbi_bitreverse16 :: "u32 \<Rightarrow> u32" where
  "stbi_bitreverse16 n =
     (let n = drop_bit 1 (n AND 0xAAAA) OR push_bit 1 (n AND 0x5555);
          n = drop_bit 2 (n AND 0xCCCC) OR push_bit 2 (n AND 0x3333);
          n = drop_bit 4 (n AND 0xF0F0) OR push_bit 4 (n AND 0x0F0F);
          n = drop_bit 8 (n AND 0xFF00) OR push_bit 8 (n AND 0x00FF)
      in n)"

definition stbi_bit_reverse :: "u32 \<Rightarrow> nat \<Rightarrow> nat option" where
  "stbi_bit_reverse v bits =
     (if bits \<le> 16 then Some (unat (drop_bit (16 - bits) (stbi_bitreverse16 v))) else None)"

text \<open>The inner loop that stores \<open>fastv\<close> at \<open>j\<close>, \<open>j + 2 ^ s\<close> and so on.\<close>

function fast_fill :: "nat list \<Rightarrow> nat \<Rightarrow> nat \<Rightarrow> nat \<Rightarrow> nat list option" where
  "fast_fill tab j s fastv =
     (if j < 512 then do { tab' \<leftarrow> aset tab j fastv; fast_fill tab' (j + 2 ^ s) s fastv } else Some tab)"
  by pat_completeness auto
termination
  by (relation "measure (\<lambda>(tab, j, s, fastv). 512 - j)") (auto intro!: diff_less_mono2)

declare fast_fill.simps [simp del]

text \<open>The counts of the code lengths; the loop that assigns first codes and symbols to the
  lengths 1 to 15; and the loop that enters the symbols.\<close>

definition count_sizes :: "nat option list \<Rightarrow> nat \<Rightarrow> nat list option" where
  "count_sizes sizelist num = do {
     sizes \<leftarrow> for_upto 0 num (\<lambda>i sizes. do {
       s \<leftarrow> rd sizelist i;
       n \<leftarrow> aget sizes s;
       aset sizes s (n + 1) }) (replicate 17 0);
     aset sizes 0 0
   }"

type_synonym build_state = "nat \<times> nat \<times> nat option list \<times> zhuffman"

definition code_step :: "nat list \<Rightarrow> nat \<Rightarrow> build_state \<Rightarrow> build_state res" where
  "code_step sizes i st = (case st of (code, k, next_code, z) \<Rightarrow> do {
     next_code \<leftarrow> wr next_code i code;
     fc \<leftarrow> wr (firstcode z) i (code mod 65536);
     fs \<leftarrow> wr (firstsymbol z) i (k mod 65536);
     n \<leftarrow> aget sizes i;
     let code = code + n;
     if n \<noteq> 0 \<and> code \<ge> 2 ^ i + 1 then stbi_err ''bad codelengths''
     else do {
       mc \<leftarrow> wr (maxcode z) i (code * 2 ^ (16 - i));
       ret (code * 2, k + n, next_code, z\<lparr>firstcode := fc, firstsymbol := fs, maxcode := mc\<rparr>)
     }
   })"

definition symbol_step :: "nat option list \<Rightarrow> nat \<Rightarrow> nat option list \<times> zhuffman \<Rightarrow>
    (nat option list \<times> zhuffman) option" where
  "symbol_step sizelist i st = (case st of (next_code, z) \<Rightarrow> do {
     s \<leftarrow> rd sizelist i;
     if s \<noteq> 0 then do {
       nc \<leftarrow> rd next_code s;
       fc \<leftarrow> rd (firstcode z) s;
       fs \<leftarrow> rd (firstsymbol z) s;
       let c = int nc - int fc + int fs;
       let fastv = (push_bit 9 s OR i) mod 65536;
       sz \<leftarrow> iset (zsize z) c (Some (s mod 256));
       vl \<leftarrow> iset (zvalue z) c (Some (i mod 65536));
       tab \<leftarrow> (if s \<le> 9 then do {
           j \<leftarrow> stbi_bit_reverse (word_of_nat nc) s;
           fast_fill (fast z) j s fastv
         } else Some (fast z));
       next_code \<leftarrow> wr next_code s (nc + 1);
       Some (next_code, z\<lparr>zsize := sz, zvalue := vl, fast := tab\<rparr>)
     } else Some (next_code, z)
   })"

definition stbi_zbuild_huffman :: "zhuffman \<Rightarrow> nat option list \<Rightarrow> nat \<Rightarrow> zhuffman res" where
  "stbi_zbuild_huffman z sizelist num = do {
     let z = z\<lparr>fast := replicate 512 0\<rparr>;
     sizes \<leftarrow> count_sizes sizelist num;
     ebind (efor 1 16 (\<lambda>i u. do {
         n \<leftarrow> aget sizes i;
         if n > 2 ^ i then stbi_err ''bad sizes'' else ret () }) ()) (\<lambda>_.
     ebind (efor 1 16 (code_step sizes) (0, 0, replicate 16 None, z)) (\<lambda>(code, k, next_code, z). do {
       mc \<leftarrow> wr (maxcode z) 16 0x10000;
       (next_code, z) \<leftarrow> for_upto 0 num (symbol_step sizelist) (next_code, z\<lparr>maxcode := mc\<rparr>);
       ret z
     }))
   }"

subsection \<open>Reversing bits\<close>

lemma bit_times_2: "bit (x * 2) i \<longleftrightarrow> 0 < i \<and> i < 32 \<and> bit x (i - 1)" for x :: u32
  using bit_push_bit_iff [of 1 x i] by (auto simp: bit_imp_le_length Suc_le_eq)

lemma bitreverse16_bit: "bit (stbi_bitreverse16 n) i \<longleftrightarrow> i < 16 \<and> bit n (15 - i)"
proof (cases "i < 16")
  case True
  then have "i \<in> {0, 1, 2, 3, 4, 5, 6, 7, 8, 9, 10, 11, 12, 13, 14, 15}"
    unfolding insert_iff empty_iff by presburger
  then show ?thesis by (elim insertE emptyE) (simp_all add: stbi_bitreverse16_def bit_simps bit_times_2)
next
  case False
  show ?thesis
  proof (cases "i < 32")
    case True
    with False have "i \<in> {16, 17, 18, 19, 20, 21, 22, 23, 24, 25, 26, 27, 28, 29, 30, 31}"
      unfolding insert_iff empty_iff by presburger
    then show ?thesis
      by (elim insertE emptyE) (simp_all add: stbi_bitreverse16_def bit_simps bit_times_2)
  qed (auto dest: bit_imp_le_length)
qed

lemma bitreverse16_less: "unat (stbi_bitreverse16 n) < 65536"
proof -
  have "stbi_bitreverse16 n = take_bit 16 (stbi_bitreverse16 n)"
    by (rule bit_eqI) (auto simp: bit_simps bitreverse16_bit)
  then have "unat (stbi_bitreverse16 n) = take_bit 16 (unat (stbi_bitreverse16 n))"
    by (metis unsigned_take_bit_eq)
  then show ?thesis using take_bit_nat_less_exp [of 16 "unat (stbi_bitreverse16 n)"] by simp
qed

text \<open>The 16 bits that follow in the stream, first bit most significant, as the slow path sees
  them; a code of length \<open>s\<close> matches a window when its reversal is at the bottom of the buffer.\<close>

definition window :: "u32 \<Rightarrow> nat" where
  "window w = unat (stbi_bitreverse16 w)"

definition reversed :: "nat \<Rightarrow> nat \<Rightarrow> nat" where
  "reversed s c = unat (drop_bit (16 - s) (stbi_bitreverse16 (word_of_nat c)))"

lemma bit_reverse_eq: "s \<le> 16 \<Longrightarrow> stbi_bit_reverse (word_of_nat c) s = Some (reversed s c)"
  by (simp add: stbi_bit_reverse_def reversed_def)

lemma bit_window_div: "s \<le> 16 \<Longrightarrow> bit (window w div 2 ^ (16 - s)) t \<longleftrightarrow> t < s \<and> bit w (s - 1 - t)"
proof -
  assume s: "s \<le> 16"
  have "15 - (16 - s + t) = s - 1 - t" if "t < s" using that s by simp
  then show ?thesis using s
    by (auto simp: window_def drop_bit_eq_div [symmetric] bit_drop_bit_eq bit_unsigned_iff bitreverse16_bit)
qed

lemma bit_reversed:
  "s \<le> 16 \<Longrightarrow> bit (reversed s c) t \<longleftrightarrow> t < s \<and> bit c (s - 1 - t)"
proof -
  assume s: "s \<le> 16"
  have "15 - (16 - s + t) = s - 1 - t" if "t < s" using that s by simp
  then show ?thesis using s
    by (auto simp: reversed_def bit_unsigned_iff bit_drop_bit_eq bitreverse16_bit
        bit_simps)
qed

lemma bit_low: "bit (unat w mod 2 ^ s) t \<longleftrightarrow> t < s \<and> bit w t"
  by (auto simp: take_bit_eq_mod [symmetric] bit_take_bit_iff bit_unsigned_iff)

lemma bit_nat_bound: "c < 2 ^ s \<Longrightarrow> bit (c :: nat) t \<Longrightarrow> t < s"
  by (metis bit_take_bit_iff take_bit_nat_eq_self)

lemma window_match:
  assumes s: "s \<le> 16" and c: "c < 2 ^ s"
  shows "unat w mod 2 ^ s = reversed s c \<longleftrightarrow> window w div 2 ^ (16 - s) = c"
proof
  assume eq: "unat w mod 2 ^ s = reversed s c"
  show "window w div 2 ^ (16 - s) = c"
  proof (rule bit_eqI)
    fix t
    have "bit w (s - 1 - t) = bit c t" if "t < s"
      using arg_cong [OF eq, of "\<lambda>x. bit x (s - 1 - t)"] that s
      by (auto simp: bit_low bit_reversed)
    then show "bit (window w div 2 ^ (16 - s)) t = bit c t"
      using bit_nat_bound [OF c, of t] by (auto simp: bit_window_div [OF s])
  qed
next
  assume eq: "window w div 2 ^ (16 - s) = c"
  show "unat w mod 2 ^ s = reversed s c"
  proof (rule bit_eqI)
    fix t
    have "bit w t = bit c (s - 1 - t)" if "t < s"
      using arg_cong [OF eq, of "\<lambda>x. bit x (s - 1 - t)"] that
      by (auto simp: bit_window_div [OF s])
    then show "bit (unat w mod 2 ^ s) t = bit (reversed s c) t"
      by (auto simp: bit_low bit_reversed [OF s])
  qed
qed

lemma reversed_less: "s \<le> 16 \<Longrightarrow> reversed s c < 2 ^ s"
proof -
  assume s: "s \<le> 16"
  have "reversed s c = take_bit s (reversed s c)"
    by (rule bit_eqI) (auto simp: bit_take_bit_iff bit_reversed [OF s])
  then show ?thesis by (metis take_bit_nat_less_exp)
qed

end
