(* ===== verification/Zlib_Tables.thy ===== *)
theory Zlib_Tables
  imports Zlib_Huffman
begin

text \<open>
  What \<^verbatim>\<open>stbi__zbuild_huffman\<close> computes: it accepts exactly the code lengths that do not
  oversubscribe the code space, and then its tables hold the canonical code of those lengths.
\<close>

definition zshape :: "zhuffman \<Rightarrow> bool" where
  "zshape z \<longleftrightarrow> length (fast z) = 512 \<and> length (firstcode z) = 16 \<and> length (maxcode z) = 17 \<and>
     length (firstsymbol z) = 16 \<and> length (zsize z) = 288 \<and> length (zvalue z) = 288"

lemma zshape_fresh: "zshape fresh_zhuffman"
  by (simp add: zshape_def fresh_zhuffman_def)

definition lengths_done :: "nat list \<Rightarrow> nat \<Rightarrow> zhuffman \<Rightarrow> bool" where
  "lengths_done L i z \<longleftrightarrow> (\<forall>l \<in> {1..<i}. firstcode z ! l = Some (first_code L l) \<and>
     firstsymbol z ! l = Some (first_sym L l) \<and> maxcode z ! l = Some (ceil L l))"

definition symbols_done :: "nat list \<Rightarrow> nat \<Rightarrow> zhuffman \<Rightarrow> bool" where
  "symbols_done L n z \<longleftrightarrow> (\<forall>i < n. L ! i \<noteq> 0 \<longrightarrow>
     zvalue z ! slot_of L i = Some i \<and> zsize z ! slot_of L i = Some (L ! i))"

text \<open>The fast table up to symbol \<open>n\<close>: an entry is the packed length and symbol of the code of at
  most 9 bits that the index starts with, or 0.\<close>

definition fast_hit :: "nat list \<Rightarrow> nat \<Rightarrow> nat \<Rightarrow> bool" where
  "fast_hit L i j \<longleftrightarrow> L ! i \<noteq> 0 \<and> L ! i \<le> 9 \<and> j mod 2 ^ (L ! i) = reversed (L ! i) (code_of L i)"

definition fast_done :: "nat list \<Rightarrow> nat \<Rightarrow> nat list \<Rightarrow> bool" where
  "fast_done L n tab \<longleftrightarrow> (\<forall>j < 512.
     (tab ! j = 0 \<longrightarrow> (\<forall>i < n. \<not> fast_hit L i j)) \<and>
     (tab ! j \<noteq> 0 \<longrightarrow> (\<exists>i < n. fast_hit L i j \<and> tab ! j = L ! i * 512 + i)))"

definition tables_for :: "nat list \<Rightarrow> zhuffman \<Rightarrow> bool" where
  "tables_for L z \<longleftrightarrow> code_ok L \<and> length L \<le> 288 \<and> zshape z \<and> lengths_done L 16 z \<and>
     maxcode z ! 16 = Some 65536 \<and> symbols_done L (length L) z \<and> fast_done L (length L) (fast z)"

subsection \<open>Counting\<close>

lemma count_sizes_ok:
  assumes h: "holds sizelist L" and b: "\<forall>x \<in> set L. x \<le> 15"
  shows "sat (count_sizes sizelist (length L))
     (\<lambda>sizes. length sizes = 17 \<and> (\<forall>l \<in> {1..15}. sizes ! l = count_list L l))"
proof -
  let ?body = "\<lambda>i sizes. do { s \<leftarrow> rd sizelist i; n \<leftarrow> aget sizes s; aset sizes s (n + 1) }"
  let ?P = "\<lambda>i sizes. length sizes = 17 \<and> (\<forall>l < 17. sizes ! l = count_list (take i L) l)"
  have "sat (for_upto 0 (length L) ?body (replicate 17 0)) (?P (length L))"
  proof (rule sat_for_upto)
    show "?P 0 (replicate 17 0)" by simp
  next
    fix i sizes assume i: "i < length L" and P: "?P i sizes"
    have r: "rd sizelist i = Some (L ! i)" using h i by (auto simp: holds_def rd_def)
    have s: "L ! i < 17" using b nth_mem [OF i] by fastforce
    show "sat (?body i sizes) (?P (Suc i))"
      using r s P i by (auto simp: nth_list_update count_list_take_Suc)
  qed simp
  then show ?thesis
    unfolding count_sizes_def by (rule sat_bind) auto
qed

subsection \<open>First codes\<close>

definition codes_inv :: "nat list \<Rightarrow> zhuffman \<Rightarrow> nat \<Rightarrow> build_state \<Rightarrow> bool" where
  "codes_inv L z0 i st \<longleftrightarrow> (case st of (code, k, next_code, z) \<Rightarrow>
     code = first_code L i \<and> k = first_sym L i \<and> length next_code = 16 \<and>
     (\<forall>l \<in> {1..<i}. next_code ! l = Some (first_code L l)) \<and>
     zshape z \<and> fast z = fast z0 \<and> lengths_done L i z \<and>
     (\<forall>l \<in> {1..<i}. first_code L l + count_list L l \<le> 2 ^ l))"

lemma code_step_ok:
  assumes i: "1 \<le> i" "i < 16" and inv: "codes_inv L z0 i st"
    and sizes: "length sizes = 17" "\<forall>l \<in> {1..15}. sizes ! l = count_list L l" and len: "length L \<le> 288"
    and b: "\<forall>x \<in> set L. x \<le> 15"
  shows "esatx (code_step sizes i st) (codes_inv L z0 (Suc i)) (\<not> code_ok L)"
proof -
  obtain code k nc z where st: "st = (code, k, nc, z)" by (cases st)
  note inv' = inv [unfolded codes_inv_def st, simplified]
  have n: "sizes ! i = count_list L i" using sizes(2) i by auto
  have fc: "first_code L i \<le> 2 ^ i"
  proof (cases "i = 1")
    case False
    then obtain j where j: "i = Suc j" "1 \<le> j" using i by (cases i) auto
    then have "first_code L j + count_list L j \<le> 2 ^ j" using inv' by auto
    then show ?thesis using j by simp
  qed simp
  also have "(2 :: nat) ^ i \<le> 2 ^ 15" using i by (intro power_increasing) auto
  finally have fc16: "first_code L i mod 65536 = first_code L i" by simp
  have fs16: "first_sym L i mod 65536 = first_sym L i" using first_sym_le [of L i] len by simp
  show ?thesis
  proof (cases "count_list L i \<noteq> 0 \<and> first_code L i + count_list L i \<ge> 2 ^ i + 1")
    case True
    then have "\<not> first_code L i + count_list L i \<le> 2 ^ i" by simp
    then have "\<not> code_ok L" using i by (auto simp: code_upto_def)
    moreover have "code_step sizes i st = stbi_err ''bad codelengths''"
      using True inv' sizes(1) i n st by (simp add: code_step_def zshape_def Let_def)
    ultimately show ?thesis by simp
  next
    case False
    then have le: "first_code L i + count_list L i \<le> 2 ^ i" using fc by auto
    have "code_step sizes i st = ret (first_code L (Suc i), first_sym L (Suc i), nc[i := Some (first_code L i)],
        z\<lparr>firstcode := (firstcode z)[i := Some (first_code L i)],
          firstsymbol := (firstsymbol z)[i := Some (first_sym L i)],
          maxcode := (maxcode z)[i := Some (ceil L i)]\<rparr>)"
      using False inv' sizes(1) i n st fc16 fs16
      by (auto simp: code_step_def zshape_def first_sym_Suc ceil_def Let_def algebra_simps)
    then show ?thesis using inv' le i
      by (auto simp: codes_inv_def zshape_def lengths_done_def nth_list_update less_Suc_eq)
  qed
qed

subsection \<open>Symbols\<close>

lemma fast_fill_ok:
  "length tab = 512 \<Longrightarrow> \<exists>tab'. fast_fill tab j s v = Some tab' \<and> length tab' = 512 \<and>
     (\<forall>m < 512. tab' ! m = (if j \<le> m \<and> m mod 2 ^ s = j mod 2 ^ s then v else tab ! m))"
proof (induction tab j s v rule: fast_fill.induct)
  case (1 tab j s v)
  show ?case
  proof (cases "j < 512")
    case False
    with 1(2) show ?thesis by (simp add: fast_fill.simps)
  next
    case True
    then obtain tab' where tab': "fast_fill (tab[j := v]) (j + 2 ^ s) s v = Some tab'" "length tab' = 512"
      "\<And>m. m < 512 \<Longrightarrow> tab' ! m = (if j + 2 ^ s \<le> m \<and> m mod 2 ^ s = j mod 2 ^ s then v else tab[j := v] ! m)"
      using 1(1) [OF True, of "tab[j := v]"] 1(2) by auto
    have next_hit: "j + 2 ^ s \<le> m" if "j < m" "m mod 2 ^ s = j mod 2 ^ s" for m
    proof -
      have "2 ^ s dvd m - j" using that by (simp add: mod_eq_dvd_iff_nat [symmetric])
      then have "2 ^ s \<le> m - j" using that(1) by (simp add: dvd_imp_le)
      with that(1) show ?thesis by simp
    qed
    have "tab' ! m = (if j \<le> m \<and> m mod 2 ^ s = j mod 2 ^ s then v else tab ! m)" if m: "m < 512" for m
      using tab'(3) [OF m] next_hit [of m] 1(2) True by (cases "j = m") (auto simp: le_less)
    with tab' True 1(2) show ?thesis by (auto simp: fast_fill.simps [of tab])
  qed
qed

lemma packed: "i < 512 \<Longrightarrow> s \<le> 15 \<Longrightarrow> (push_bit 9 s OR i) mod 65536 = s * 512 + i" for s i :: nat
proof -
  assume i: "i < 512" and s: "s \<le> 15"
  have "push_bit 9 s OR i = push_bit 9 s + i"
  proof (rule disjunctive_add_eq_or [symmetric], rule bit_eqI)
    fix n show "bit (push_bit 9 s AND i) n = bit (0 :: nat) n"
      using bit_nat_bound [of i 9 n] i by (auto simp: bit_and_iff bit_push_bit_iff)
  qed
  then show ?thesis using i s by (simp add: push_bit_eq_mult)
qed

definition symbols_inv :: "nat list \<Rightarrow> nat \<Rightarrow> nat option list \<times> zhuffman \<Rightarrow> bool" where
  "symbols_inv L n st \<longleftrightarrow> (case st of (next_code, z) \<Rightarrow> length next_code = 16 \<and>
     (\<forall>l \<in> {1..15}. next_code ! l = Some (first_code L l + count_list (take n L) l)) \<and>
     zshape z \<and> lengths_done L 16 z \<and> maxcode z ! 16 = Some 65536 \<and>
     symbols_done L n z \<and> fast_done L n (fast z))"

text \<open>Two codes of at most 9 bits cannot claim the same fast entry.\<close>

lemma fast_hit_starts:
  assumes "code_ok L" and "i < length L" and "j < 512"
  shows "fast_hit L i j \<longleftrightarrow> L ! i \<le> 9 \<and> starts L i (window (word_of_nat j))"
proof -
  have j: "unat (word_of_nat j :: u32) = j" using assms(3) by (simp add: unat_u32_of_nat)
  show ?thesis
  proof (cases "L ! i \<noteq> 0 \<and> L ! i \<le> 9")
    case True
    then show ?thesis
      using window_match [of "L ! i" "code_of L i" "word_of_nat j"] code_of_less [OF assms(1,2)] assms(2) j
      by (simp add: fast_hit_def starts_def)
  qed (auto simp: fast_hit_def starts_def)
qed

lemma fast_hit_unique:
  "code_ok L \<Longrightarrow> i < length L \<Longrightarrow> i' < length L \<Longrightarrow> j < 512 \<Longrightarrow> fast_hit L i j \<Longrightarrow> fast_hit L i' j \<Longrightarrow> i = i'"
  by (meson fast_hit_starts starts_unique)

lemma fast_done_step:
  assumes ok: "code_ok L" and i: "i < length L" and fd: "fast_done L i tab" and len: "length tab = 512"
    and s: "L ! i \<noteq> 0" "L ! i \<le> 9"
  shows "\<exists>tab'. fast_fill tab (reversed (L ! i) (code_of L i)) (L ! i) (L ! i * 512 + i) = Some tab' \<and>
     length tab' = 512 \<and> fast_done L (Suc i) tab'"
proof -
  let ?j = "reversed (L ! i) (code_of L i)"
  have j: "?j < 2 ^ (L ! i)" using s by (intro reversed_less) simp
  obtain tab' where tab': "fast_fill tab ?j (L ! i) (L ! i * 512 + i) = Some tab'" "length tab' = 512"
    "\<And>m. m < 512 \<Longrightarrow> tab' ! m = (if ?j \<le> m \<and> m mod 2 ^ (L ! i) = ?j mod 2 ^ (L ! i) then L ! i * 512 + i else tab ! m)"
    using fast_fill_ok [OF len] by blast
  have hit: "tab' ! m = (if fast_hit L i m then L ! i * 512 + i else tab ! m)" if m: "m < 512" for m
  proof -
    have "?j \<le> m" if "m mod 2 ^ (L ! i) = ?j" using that by (metis mod_less_eq_dividend)
    then show ?thesis using tab'(3) [OF m] j s by (auto simp: fast_hit_def)
  qed
  have "fast_done L (Suc i) tab'"
    unfolding fast_done_def
  proof (intro allI impI)
    fix m assume m: "m < (512 :: nat)"
    show "(tab' ! m = 0 \<longrightarrow> (\<forall>i' < Suc i. \<not> fast_hit L i' m)) \<and>
      (tab' ! m \<noteq> 0 \<longrightarrow> (\<exists>i' < Suc i. fast_hit L i' m \<and> tab' ! m = L ! i' * 512 + i'))"
      using fd m hit [OF m] s(1) by (auto simp: fast_done_def less_Suc_eq)
  qed
  with tab' show ?thesis by blast
qed

lemma symbol_step_ok:
  assumes h: "holds sizelist L" and ok: "code_ok L" and len: "length L \<le> 288" and i: "i < length L"
    and inv: "symbols_inv L i st"
  shows "sat (symbol_step sizelist i st) (symbols_inv L (Suc i))"
proof -
  obtain nc z where st: "st = (nc, z)" by (cases st)
  note inv' = inv [unfolded symbols_inv_def st, simplified]
  have r: "rd sizelist i = Some (L ! i)" using h i by (auto simp: holds_def rd_def)
  show ?thesis
  proof (cases "L ! i = 0")
    case True
    have "fast_done L (Suc i) (fast z)" using inv' True by (auto simp: fast_done_def fast_hit_def less_Suc_eq)
    then show ?thesis using True r inv' st i
      by (auto simp: symbol_step_def symbols_inv_def count_list_take_Suc symbols_done_def less_Suc_eq)
  next
    case nz: False
    have s15: "L ! i \<le> 15" using ok i by (auto simp: code_upto_def)
    have l: "L ! i \<in> {1..15}" "L ! i \<in> {1..<16}" "L ! i < 16" using nz s15 by auto
    have len': "i < 512" "i mod 65536 = i" "(L ! i) mod 256 = L ! i" using i len s15 by auto
    have nc: "rd nc (L ! i) = Some (code_of L i)" "length nc = 16"
      using inv' l by (auto simp: code_of_def rank_def)
    have fcs: "rd (firstcode z) (L ! i) = Some (first_code L (L ! i))"
      "rd (firstsymbol z) (L ! i) = Some (first_sym L (L ! i))"
      using inv' l by (auto simp: lengths_done_def zshape_def)
    have c: "int (code_of L i) - int (first_code L (L ! i)) + int (first_sym L (L ! i)) = int (slot_of L i)"
      by (simp add: code_of_def slot_of_def)
    have slot: "slot_of L i < 288" using slot_of_less(2) [OF i nz] len by simp
    obtain tab where tab: "(if L ! i \<le> 9 then do { j \<leftarrow> stbi_bit_reverse (word_of_nat (code_of L i)) (L ! i);
        fast_fill (fast z) j (L ! i) (L ! i * 512 + i) } else Some (fast z)) = Some tab"
      "length tab = 512" "fast_done L (Suc i) tab"
    proof (cases "L ! i \<le> 9")
      case True
      then show ?thesis
        using that fast_done_step [OF ok i _ _ nz True] inv' by (auto simp: bit_reverse_eq zshape_def)
    next
      case False
      have "fast_done L (Suc i) (fast z)"
        using inv' False by (auto simp: fast_done_def fast_hit_def less_Suc_eq)
      with False that inv' show ?thesis by (auto simp: zshape_def)
    qed
    let ?z = "z\<lparr>zsize := (zsize z)[slot_of L i := Some (L ! i)], zvalue := (zvalue z)[slot_of L i := Some i], fast := tab\<rparr>"
    have "symbol_step sizelist i st = Some (nc[L ! i := Some (code_of L i + 1)], ?z)"
      using r nz nc fcs slot len' tab(1) inv' l c packed [OF len'(1) s15]
      by (simp add: symbol_step_def st zshape_def)
    moreover have "slot_of L i \<noteq> slot_of L j" if "j < i" "L ! j \<noteq> 0" for j
      using that slot_of_inj [OF i nz, of j] i by auto
    then have "symbols_done L (Suc i) ?z"
      using inv' slot by (auto simp: symbols_done_def zshape_def nth_list_update less_Suc_eq)
    ultimately show ?thesis
      using inv' tab i l by (auto simp: symbols_inv_def zshape_def lengths_done_def nth_list_update
          count_list_take_Suc code_of_def rank_def)
  qed
qed

subsection \<open>The build\<close>

lemma zbuild_huffman_ok:
  assumes z: "zshape z" and h: "holds sizelist L" and len: "length L \<le> 288" and b: "\<forall>x \<in> set L. x \<le> 15"
  shows "esatx (stbi_zbuild_huffman z sizelist (length L)) (tables_for L) (\<not> code_ok L)"
  unfolding stbi_zbuild_huffman_def Let_def
proof (rule esatx_bind [OF count_sizes_ok [OF h b]], elim conjE)
  fix sizes assume sizes: "length sizes = 17" "\<forall>l \<in> {1..15}. sizes ! l = count_list L l"
  let ?z = "z\<lparr>fast := replicate 512 0\<rparr>"
  have sizes_chk: "esatx (efor 1 16 (\<lambda>i u. do { n \<leftarrow> aget sizes i;
      if n > 2 ^ i then stbi_err ''bad sizes'' else ret () }) ()) (\<lambda>_. True) (\<not> code_ok L)"
  proof (rule esatx_efor [where P = "\<lambda>_ _. True"], simp_all)
    fix i :: nat assume i: "Suc 0 \<le> i" "i < 16"
    have "\<not> code_ok L" if "2 ^ i < count_list L i" using that i by (auto simp: code_upto_def dest!: bspec [of _ _ i])
    then show "esatx (aget sizes i \<bind> (\<lambda>n. if 2 ^ i < n then stbi_err ''bad sizes'' else ret ())) (\<lambda>_. True) (\<not> code_ok L)"
      using sizes i by auto
  qed
  have codes: "esatx (efor 1 16 (code_step sizes) (0, 0, replicate 16 None, ?z)) (codes_inv L ?z 16) (\<not> code_ok L)"
  proof (rule esatx_efor)
    show "codes_inv L ?z 1 (0, 0, replicate 16 None, ?z)"
      using z by (simp add: codes_inv_def first_sym_def lengths_done_def zshape_def)
  qed (use code_step_ok [OF _ _ _ sizes len b] in auto)
  show "esatx (ebind (efor 1 16 (\<lambda>i u. do { n \<leftarrow> aget sizes i;
        if n > 2 ^ i then stbi_err ''bad sizes'' else ret () }) ()) (\<lambda>_.
      ebind (efor 1 16 (code_step sizes) (0, 0, replicate 16 None, ?z)) (\<lambda>(code, k, next_code, z). do {
        mc \<leftarrow> wr (maxcode z) 16 0x10000;
        (next_code, z) \<leftarrow> for_upto 0 (length L) (symbol_step sizelist) (next_code, z\<lparr>maxcode := mc\<rparr>);
        ret z }))) (tables_for L) (\<not> code_ok L)"
  proof (rule esatx_ebind [OF sizes_chk], rule esatx_ebind [OF codes], clarify)
    fix code k nc z' assume inv: "codes_inv L ?z 16 (code, k, nc, z')"
    note inv' = inv [unfolded codes_inv_def, simplified]
    have ok: "code_ok L" using inv' b by (auto simp: code_upto_def)
    let ?st = "(nc, z'\<lparr>maxcode := (maxcode z')[16 := Some 65536]\<rparr>)"
    have "symbols_inv L 0 ?st"
      using inv' by (auto simp: symbols_inv_def zshape_def lengths_done_def symbols_done_def fast_done_def)
    then have "sat (for_upto 0 (length L) (symbol_step sizelist) ?st) (symbols_inv L (length L))"
      by (rule sat_for_upto) (simp_all add: symbol_step_ok [OF h ok len])
    then show "esatx (wr (maxcode z') 16 0x10000 \<bind> (\<lambda>mc. for_upto 0 (length L) (symbol_step sizelist)
        (nc, z'\<lparr>maxcode := mc\<rparr>) \<bind> (\<lambda>(next_code, z). ret z))) (tables_for L) (\<not> code_ok L)"
      using inv' ok len by (auto simp: zshape_def sat_def symbols_inv_def tables_for_def)
  qed
qed

end
