(* ===== verification/Zlib_Inflate.thy ===== *)
theory Zlib_Inflate
  imports Zlib_Tables
begin

text \<open>
  The DEFLATE decoder of src/user/facet/gpu/stb_image.h (lines 4177 to 4593): the bit buffer, the
  Huffman decoder, the three kinds of block and the entry points.

  The input is a byte list with the position of the next byte. The output block is a list of
  cells with the position of the next byte to write; \<^verbatim>\<open>realloc\<close> asks the allocator, keeps the
  contents and leaves the new part unwritten. Pointers into the two blocks are positions.
  Shifting a 32-bit value by less than 0 or more than 31 is undefined.
\<close>

subsection \<open>State and bit buffer\<close>

record zbuf =
  zin :: bytes
  zbuffer :: nat
  zbuffer_end :: nat
  num_bits :: int
  hit_zeof_once :: bool
  code_buffer :: u32
  zout :: nat
  zblock :: "byte option list"
  z_expandable :: bool
  z_length :: zhuffman
  z_distance :: zhuffman

definition stbi_zeof :: "zbuf \<Rightarrow> bool" where
  "stbi_zeof z \<longleftrightarrow> zbuffer z \<ge> zbuffer_end z"

definition stbi_zget8 :: "zbuf \<Rightarrow> (byte \<times> zbuf) option" where
  "stbi_zget8 z = (if stbi_zeof z then Some (0, z)
     else do { b \<leftarrow> aget (zin z) (zbuffer z); Some (b, z\<lparr>zbuffer := zbuffer z + 1\<rparr>) })"

definition fill_step :: "zbuf \<Rightarrow> (zbuf + zbuf) option" where
  "fill_step z = do {
     lim \<leftarrow> shl32 1 (num_bits z);
     if code_buffer z \<ge> lim then Some (Inl (z\<lparr>zbuffer := zbuffer_end z\<rparr>))
     else do {
       (b, z) \<leftarrow> stbi_zget8 z;
       v \<leftarrow> shl32 (ucast b) (num_bits z);
       let z = z\<lparr>code_buffer := code_buffer z OR v, num_bits := num_bits z + 8\<rparr>;
       Some (if num_bits z \<le> 24 then Inr z else Inl z)
     }
   }"

definition stbi_fill_bits :: "zbuf \<Rightarrow> zbuf option" where
  "stbi_fill_bits z = loop fill_step z"

definition stbi_zreceive :: "zbuf \<Rightarrow> nat \<Rightarrow> (u32 \<times> zbuf) option" where
  "stbi_zreceive z n = do {
     z \<leftarrow> (if num_bits z < int n then stbi_fill_bits z else Some z);
     m \<leftarrow> shl32 1 (int n);
     let k = code_buffer z AND (m - 1);
     c \<leftarrow> shr32 (code_buffer z) (int n);
     Some (k, z\<lparr>code_buffer := c, num_bits := num_bits z - int n\<rparr>)
   }"

subsection \<open>Decoding one symbol\<close>

text \<open>The search for the code length: the first \<open>s\<close> from 10 on whose \<^verbatim>\<open>maxcode\<close> exceeds the
  window.\<close>

definition length_step :: "zhuffman \<Rightarrow> nat \<Rightarrow> nat \<Rightarrow> (nat + nat) option" where
  "length_step h k s = do { m \<leftarrow> rd (maxcode h) s; Some (if k < m then Inl s else Inr (s + 1)) }"

definition stbi_zhuffman_decode_slowpath :: "zbuf \<Rightarrow> zhuffman \<Rightarrow> (int \<times> zbuf) option" where
  "stbi_zhuffman_decode_slowpath a z = do {
     k \<leftarrow> stbi_bit_reverse (code_buffer a) 16;
     s \<leftarrow> loop (length_step z k) 10;
     if s \<ge> 16 then Some (- 1, a)
     else do {
       fc \<leftarrow> rd (firstcode z) s;
       fs \<leftarrow> rd (firstsymbol z) s;
       let b = int (k div 2 ^ (16 - s)) - int fc + int fs;
       if b \<ge> 288 then Some (- 1, a)
       else do {
         sz \<leftarrow> iget (zsize z) b;
         sz \<leftarrow> sz;
         if sz \<noteq> s then Some (- 1, a)
         else do {
           c \<leftarrow> shr32 (code_buffer a) (int s);
           v \<leftarrow> iget (zvalue z) b;
           v \<leftarrow> v;
           Some (int v, a\<lparr>code_buffer := c, num_bits := num_bits a - int s\<rparr>)
         }
       }
     }
   }"

definition zdecode_refill :: "zbuf \<Rightarrow> zbuf option option" where
  "zdecode_refill a =
     (if num_bits a < 16 then
        if stbi_zeof a then
          if \<not> hit_zeof_once a then Some (Some (a\<lparr>hit_zeof_once := True, num_bits := num_bits a + 16\<rparr>))
          else Some None
        else do { a \<leftarrow> stbi_fill_bits a; Some (Some a) }
      else Some (Some a))"

definition decode_lookup :: "zbuf \<Rightarrow> zhuffman \<Rightarrow> (int \<times> zbuf) option" where
  "decode_lookup a z = do {
     b \<leftarrow> aget (fast z) (unat (code_buffer a AND 511));
     if b \<noteq> 0 then do {
       let s = b div 2 ^ 9;
       c \<leftarrow> shr32 (code_buffer a) (int s);
       Some (int (b mod 512), a\<lparr>code_buffer := c, num_bits := num_bits a - int s\<rparr>)
     } else stbi_zhuffman_decode_slowpath a z
   }"

definition stbi_zhuffman_decode :: "zbuf \<Rightarrow> zhuffman \<Rightarrow> (int \<times> zbuf) option" where
  "stbi_zhuffman_decode a z = do {
     r \<leftarrow> zdecode_refill a;
     case r of None \<Rightarrow> Some (- 1, a) | Some a \<Rightarrow> decode_lookup a z
   }"

subsection \<open>Growing the output\<close>

definition expand_step :: "u32 \<Rightarrow> u32 \<Rightarrow> u32 \<Rightarrow> (u32 option + u32) option" where
  "expand_step cur n limit =
     Some (if cur + n > limit then
             if limit > 0x7FFFFFFF then Inl None else Inr (limit * 2)
           else Inl (Some limit))"

definition stbi_zexpand :: "allocator \<Rightarrow> zbuf \<Rightarrow> nat \<Rightarrow> nat \<Rightarrow> zbuf res" where
  "stbi_zexpand ok z zo n =
     (let z = z\<lparr>zout := zo\<rparr> in
      if \<not> z_expandable z then stbi_err ''output buffer limit''
      else (let cur = word_of_nat (zout z) :: u32; old_limit = word_of_nat (length (zblock z)) :: u32 in
        if 0xFFFFFFFF - cur < word_of_nat n then stbi_err ''outofmem''
        else do {
          l \<leftarrow> loop (expand_step cur (word_of_nat n)) old_limit;
          case l of None \<Rightarrow> stbi_err ''outofmem''
          | Some limit \<Rightarrow>
              if \<not> ok (unat limit) then stbi_err ''outofmem''
              else ret (z\<lparr>zblock := resize (unat limit) (zblock z), zout := unat cur\<rparr>)
        }))"

subsection \<open>Blocks\<close>

definition stbi_zlength_base :: "nat list" where
  "stbi_zlength_base = [3, 4, 5, 6, 7, 8, 9, 10, 11, 13, 15, 17, 19, 23, 27, 31, 35, 43, 51, 59,
     67, 83, 99, 115, 131, 163, 195, 227, 258, 0, 0]"

definition stbi_zlength_extra :: "nat list" where
  "stbi_zlength_extra = [0, 0, 0, 0, 0, 0, 0, 0, 1, 1, 1, 1, 2, 2, 2, 2, 3, 3, 3, 3, 4, 4, 4, 4, 5, 5, 5, 5, 0, 0, 0]"

definition stbi_zdist_base :: "nat list" where
  "stbi_zdist_base = [1, 2, 3, 4, 5, 7, 9, 13, 17, 25, 33, 49, 65, 97, 129, 193, 257, 385, 513, 769,
     1025, 1537, 2049, 3073, 4097, 6145, 8193, 12289, 16385, 24577, 0, 0]"

definition stbi_zdist_extra :: "nat list" where
  "stbi_zdist_extra = [0, 0, 0, 0, 1, 1, 2, 2, 3, 3, 4, 4, 5, 5, 6, 6, 7, 7, 8, 8, 9, 9, 10, 10, 11, 11,
     12, 12, 13, 13, 0, 0]"

text \<open>Base value plus extra bits, for lengths and for distances.\<close>

definition with_extra :: "nat list \<Rightarrow> nat list \<Rightarrow> nat \<Rightarrow> zbuf \<Rightarrow> (nat \<times> zbuf) option" where
  "with_extra base extra z a = do {
     n \<leftarrow> aget base z;
     e \<leftarrow> aget extra z;
     if e \<noteq> 0 then do { (k, a) \<leftarrow> stbi_zreceive a e; Some (n + unat k, a) } else Some (n, a)
   }"

text \<open>The copy of \<open>len\<close> bytes from \<open>dist\<close> back, which must not be before the block; with distance 1 the byte is read once.\<close>

definition copy_match :: "byte option list \<Rightarrow> nat \<Rightarrow> nat \<Rightarrow> nat \<Rightarrow> byte option list option" where
  "copy_match blk zo dist len =
     (if zo < dist then None
      else if dist = 1 then do {
        v \<leftarrow> rd blk (zo - dist);
        for_upto 0 len (\<lambda>i blk. wr blk (zo + i) v) blk
      } else for_upto 0 len (\<lambda>i blk. do { v \<leftarrow> rd blk (zo - dist + i); wr blk (zo + i) v }) blk)"

definition put_literal :: "allocator \<Rightarrow> byte \<Rightarrow> zbuf \<Rightarrow> nat \<Rightarrow> (zbuf \<times> nat) res" where
  "put_literal ok v a zo =
     ebind (if zo \<ge> length (zblock a) then ebind (stbi_zexpand ok a zo 1) (\<lambda>a. ret (a, zout a)) else ret (a, zo))
     (\<lambda>(a, zo). do { blk \<leftarrow> wr (zblock a) zo v; ret (a\<lparr>zblock := blk\<rparr>, zo + 1) })"

definition put_match :: "allocator \<Rightarrow> int \<Rightarrow> zbuf \<Rightarrow> nat \<Rightarrow> (zbuf \<times> nat) res" where
  "put_match ok lsym a zo = do {
     (len, a) \<leftarrow> with_extra stbi_zlength_base stbi_zlength_extra (nat (lsym - 257)) a;
     (z, a) \<leftarrow> stbi_zhuffman_decode a (z_distance a);
     if z < 0 \<or> z \<ge> 30 then stbi_err ''bad huffman code''
     else do {
       (dist, a) \<leftarrow> with_extra stbi_zdist_base stbi_zdist_extra (nat z) a;
       if zo < dist then stbi_err ''bad dist''
       else ebind (if int len > int (length (zblock a)) - int zo
                   then ebind (stbi_zexpand ok a zo len) (\<lambda>a. ret (a, zout a)) else ret (a, zo))
         (\<lambda>(a, zo). do {
            blk \<leftarrow> copy_match (zblock a) zo dist len;
            ret (a\<lparr>zblock := blk\<rparr>, zo + len) })
     }
   }"

text \<open>One turn of the block loop: \<open>Inl\<close> is the end of the block (or an error), \<open>Inr\<close> the state
  for the next turn.\<close>

definition huffman_step :: "allocator \<Rightarrow> zbuf \<times> nat \<Rightarrow> ((string + zbuf) + zbuf \<times> nat) option" where
  "huffman_step ok st = (case st of (a, zo) \<Rightarrow> do {
     (z, a) \<leftarrow> stbi_zhuffman_decode a (z_length a);
     r \<leftarrow> (if z < 256 then
             if z < 0 then stbi_err ''bad huffman code''
             else ebind (put_literal ok (word_of_int z) a zo) (\<lambda>s. ret (Inr s))
           else if z = 256 then
             if hit_zeof_once a \<and> num_bits a < 16 then stbi_err ''unexpected end''
             else ret (Inl (a\<lparr>zout := zo\<rparr>))
           else if z \<ge> 286 then stbi_err ''bad huffman code''
           else ebind (put_match ok z a zo) (\<lambda>s. ret (Inr s)));
     Some (case r of Inl e \<Rightarrow> Inl (Inl e) | Inr (Inl a) \<Rightarrow> Inl (Inr a) | Inr (Inr s) \<Rightarrow> Inr s)
   })"

definition stbi_parse_huffman_block :: "allocator \<Rightarrow> zbuf \<Rightarrow> zbuf res" where
  "stbi_parse_huffman_block ok a = loop (huffman_step ok) (a, zout a)"

definition length_dezigzag :: "nat list" where
  "length_dezigzag = [16, 17, 18, 0, 8, 7, 9, 6, 10, 5, 11, 4, 12, 3, 13, 2, 14, 1, 15]"

definition memset_cells :: "nat option list \<Rightarrow> nat \<Rightarrow> nat \<Rightarrow> nat \<Rightarrow> nat option list option" where
  "memset_cells xs i v n = blit xs i (replicate n (Some v))"

text \<open>One turn of the loop that reads the code lengths of a dynamic block; \<open>n\<close> of \<open>ntot\<close> lengths
  are known.\<close>

definition lencodes_step :: "zhuffman \<Rightarrow> nat \<Rightarrow> zbuf \<times> nat \<times> nat option list \<Rightarrow>
    ((string + zbuf \<times> nat \<times> nat option list) + zbuf \<times> nat \<times> nat option list) option" where
  "lencodes_step cl ntot st = (case st of (a, n, lencodes) \<Rightarrow>
     if \<not> n < ntot then Some (Inl (Inr (a, n, lencodes)))
     else do {
       (c, a) \<leftarrow> stbi_zhuffman_decode a cl;
       if c < 0 \<or> c \<ge> 19 then Some (Inl (Inl ''bad codelengths''))
       else if c < 16 then do {
         lencodes \<leftarrow> wr lencodes n (nat c);
         Some (Inr (a, n + 1, lencodes))
       } else do {
         r \<leftarrow> (if c = 16 then do {
                  (k, a) \<leftarrow> stbi_zreceive a 2;
                  if n = 0 then stbi_err ''bad codelengths''
                  else do { f \<leftarrow> rd lencodes (n - 1); ret (unat k + 3, f, a) }
                } else if c = 17 then do { (k, a) \<leftarrow> stbi_zreceive a 3; ret (unat k + 3, 0, a) }
                else if c = 18 then do { (k, a) \<leftarrow> stbi_zreceive a 7; ret (unat k + 11, 0, a) }
                else stbi_err ''bad codelengths'');
         case r of Inl e \<Rightarrow> Some (Inl (Inl e))
         | Inr (c, fill, a) \<Rightarrow>
             if int ntot - int n < int c then Some (Inl (Inl ''bad codelengths''))
             else do {
               lencodes \<leftarrow> memset_cells lencodes n fill c;
               Some (Inr (a, n + c, lencodes)) }
       }
     })"

text \<open>The lengths of the code-length code, and the tables of the block that it describes.\<close>

definition read_codelengths :: "nat \<Rightarrow> zbuf \<Rightarrow> (nat option list \<times> zbuf) option" where
  "read_codelengths hclen a =
     for_upto 0 hclen (\<lambda>i (sizes, a). do {
         (s, a) \<leftarrow> stbi_zreceive a 3;
         j \<leftarrow> aget length_dezigzag i;
         sizes \<leftarrow> wr sizes j (unat s mod 256);
         Some (sizes, a) }) (replicate 19 (Some 0), a)"

definition build_dynamic :: "nat \<Rightarrow> nat \<Rightarrow> nat option list \<Rightarrow> zbuf \<Rightarrow> zbuf res" where
  "build_dynamic hlit hdist sizes a =
     (let ntot = hlit + hdist in
      ebind (stbi_zbuild_huffman fresh_zhuffman sizes 19) (\<lambda>cl.
      ebind (loop (lencodes_step cl ntot) (a, 0, replicate 455 None)) (\<lambda>(a, n, lencodes).
        if n \<noteq> ntot then stbi_err ''bad codelengths''
        else ebind (stbi_zbuild_huffman (z_length a) lencodes hlit) (\<lambda>zl.
             ebind (stbi_zbuild_huffman (z_distance a) (drop hlit lencodes) hdist) (\<lambda>zd.
               ret (a\<lparr>z_length := zl, z_distance := zd\<rparr>))))))"

definition stbi_compute_huffman_codes :: "zbuf \<Rightarrow> zbuf res" where
  "stbi_compute_huffman_codes a = do {
     (k, a) \<leftarrow> stbi_zreceive a 5;
     let hlit = unat k + 257;
     (k, a) \<leftarrow> stbi_zreceive a 5;
     let hdist = unat k + 1;
     (k, a) \<leftarrow> stbi_zreceive a 4;
     let hclen = unat k + 4;
     (sizes, a) \<leftarrow> read_codelengths hclen a;
     build_dynamic hlit hdist sizes a
   }"

definition drain_step :: "zbuf \<times> nat \<times> byte option list \<Rightarrow>
    (zbuf \<times> nat \<times> byte option list + zbuf \<times> nat \<times> byte option list) option" where
  "drain_step st = (case st of (a, k, header) \<Rightarrow>
     if num_bits a > 0 then do {
       header \<leftarrow> wr header k (ucast (code_buffer a AND 255));
       Some (Inr (a\<lparr>code_buffer := drop_bit 8 (code_buffer a), num_bits := num_bits a - 8\<rparr>, k + 1, header))
     } else Some (Inl (a, k, header)))"

definition stbi_parse_uncompressed_block :: "allocator \<Rightarrow> zbuf \<Rightarrow> zbuf res" where
  "stbi_parse_uncompressed_block ok a = do {
     a \<leftarrow> (if num_bits a mod 8 \<noteq> 0
           then do { (_, a) \<leftarrow> stbi_zreceive a (nat (num_bits a mod 8)); Some a } else Some a);
     (a, k, header) \<leftarrow> loop drain_step (a, 0, replicate 4 None);
     if num_bits a < 0 then stbi_err ''zlib corrupt''
     else do {
       (a, header) \<leftarrow> for_upto k 4 (\<lambda>k (a, header). do {
           (b, a) \<leftarrow> stbi_zget8 a;
           header \<leftarrow> wr header k b;
           Some (a, header) }) (a, header);
       h0 \<leftarrow> rd header 0; h1 \<leftarrow> rd header 1; h2 \<leftarrow> rd header 2; h3 \<leftarrow> rd header 3;
       let len = unat h1 * 256 + unat h0;
       let nlen = unat h3 * 256 + unat h2;
       if nlen \<noteq> len XOR 0xffff then stbi_err ''zlib corrupt''
       else if zbuffer a + len > zbuffer_end a then stbi_err ''read past buffer''
       else ebind (if zout a + len > length (zblock a) then stbi_zexpand ok a (zout a) len else ret a) (\<lambda>a. do {
         data \<leftarrow> slice (zin a) (zbuffer a) len;
         blk \<leftarrow> blit (zblock a) (zout a) (map Some data);
         ret (a\<lparr>zblock := blk, zbuffer := zbuffer a + len, zout := zout a + len\<rparr>)
       })
     }
   }"

definition stbi_parse_zlib_header :: "zbuf \<Rightarrow> zbuf res" where
  "stbi_parse_zlib_header a = do {
     (cmf, a) \<leftarrow> stbi_zget8 a;
     (flg, a) \<leftarrow> stbi_zget8 a;
     if stbi_zeof a then stbi_err ''bad zlib header''
     else if (unat cmf * 256 + unat flg) mod 31 \<noteq> 0 then stbi_err ''bad zlib header''
     else if flg AND 32 \<noteq> 0 then stbi_err ''no preset dict''
     else if cmf AND 15 \<noteq> 8 then stbi_err ''bad compression''
     else ret a
   }"

definition stbi_zdefault_length :: "nat option list" where
  "stbi_zdefault_length = map Some (replicate 144 8 @ replicate 112 9 @ replicate 24 7 @ replicate 8 8)"

definition stbi_zdefault_distance :: "nat option list" where
  "stbi_zdefault_distance = map Some (replicate 32 5)"

text \<open>One turn of the block loop of \<^verbatim>\<open>stbi__parse_zlib\<close>. A block of type 3 returns 0 without
  storing a reason.\<close>

definition block_step :: "allocator \<Rightarrow> zbuf \<Rightarrow> ((string + zbuf) + zbuf) option" where
  "block_step ok a = do {
     (final, a) \<leftarrow> stbi_zreceive a 1;
     (type, a) \<leftarrow> stbi_zreceive a 2;
     r \<leftarrow> (if type = 0 then stbi_parse_uncompressed_block ok a
           else if type = 3 then stbi_err ''''
           else ebind
             (if type = 1 then
                ebind (stbi_zbuild_huffman (z_length a) stbi_zdefault_length 288) (\<lambda>zl.
                ebind (stbi_zbuild_huffman (z_distance a) stbi_zdefault_distance 32) (\<lambda>zd.
                  ret (a\<lparr>z_length := zl, z_distance := zd\<rparr>)))
              else stbi_compute_huffman_codes a)
             (stbi_parse_huffman_block ok));
     Some (case r of Inl e \<Rightarrow> Inl (Inl e) | Inr a \<Rightarrow> if final \<noteq> 0 then Inl (Inr a) else Inr a)
   }"

definition stbi_parse_zlib :: "allocator \<Rightarrow> zbuf \<Rightarrow> bool \<Rightarrow> zbuf res" where
  "stbi_parse_zlib ok a parse_header =
     ebind (if parse_header then stbi_parse_zlib_header a else ret a) (\<lambda>a.
       loop (block_step ok) (a\<lparr>num_bits := 0, code_buffer := 0, hit_zeof_once := False\<rparr>))"

definition stbi_do_zlib :: "allocator \<Rightarrow> zbuf \<Rightarrow> byte option list \<Rightarrow> bool \<Rightarrow> bool \<Rightarrow> zbuf res" where
  "stbi_do_zlib ok a obuf exp parse_header =
     stbi_parse_zlib ok (a\<lparr>zblock := obuf, zout := 0, z_expandable := exp\<rparr>) parse_header"

subsection \<open>Entry points\<close>

text \<open>The decoder's record on entry: only the input fields have been set.\<close>

definition zbuf_on :: "bytes \<Rightarrow> zbuf" where
  "zbuf_on data = \<lparr>zin = data, zbuffer = 0, zbuffer_end = length data, num_bits = 0, hit_zeof_once = False,
     code_buffer = 0, zout = 0, zblock = [], z_expandable = False,
     z_length = fresh_zhuffman, z_distance = fresh_zhuffman\<rparr>"

text \<open>The result of the entry points that allocate: the block and the number of bytes decoded, or
  \<^verbatim>\<open>NULL\<close>.\<close>

definition stbi_zlib_decode_malloc_guesssize_headerflag ::
    "allocator \<Rightarrow> bytes \<Rightarrow> nat \<Rightarrow> bool \<Rightarrow> (byte option list \<times> nat) res" where
  "stbi_zlib_decode_malloc_guesssize_headerflag ok buffer initial_size parse_header =
     (case stbi_malloc ok initial_size of
        None \<Rightarrow> stbi_err ''''
      | Some p \<Rightarrow> ebind (stbi_do_zlib ok (zbuf_on buffer) p True parse_header)
                    (\<lambda>a. ret (zblock a, zout a)))"

definition stbi_zlib_decode_malloc_guesssize :: "allocator \<Rightarrow> bytes \<Rightarrow> nat \<Rightarrow> (byte option list \<times> nat) res" where
  "stbi_zlib_decode_malloc_guesssize ok buffer initial_size =
     (case stbi_malloc ok initial_size of
        None \<Rightarrow> stbi_err ''''
      | Some p \<Rightarrow> ebind (stbi_do_zlib ok (zbuf_on buffer) p True True) (\<lambda>a. ret (zblock a, zout a)))"

definition stbi_zlib_decode_malloc :: "allocator \<Rightarrow> bytes \<Rightarrow> (byte option list \<times> nat) res" where
  "stbi_zlib_decode_malloc ok buffer = stbi_zlib_decode_malloc_guesssize ok buffer 16384"

definition stbi_zlib_decode_noheader_malloc :: "allocator \<Rightarrow> bytes \<Rightarrow> (byte option list \<times> nat) res" where
  "stbi_zlib_decode_noheader_malloc ok buffer =
     (case stbi_malloc ok 16384 of
        None \<Rightarrow> stbi_err ''''
      | Some p \<Rightarrow> ebind (stbi_do_zlib ok (zbuf_on buffer) p True False) (\<lambda>a. ret (zblock a, zout a)))"

text \<open>The entry points that write to the caller's buffer answer -1 on failure, here \<open>None\<close>
  (the buffer may then have been written in part); otherwise the buffer and the number of bytes.\<close>

definition stbi_zlib_decode_buffer :: "byte option list \<Rightarrow> bytes \<Rightarrow> (byte option list \<times> nat) option option" where
  "stbi_zlib_decode_buffer obuffer ibuffer = do {
     r \<leftarrow> stbi_do_zlib (\<lambda>_. False) (zbuf_on ibuffer) obuffer False True;
     Some (case r of Inr a \<Rightarrow> Some (zblock a, zout a) | Inl e \<Rightarrow> None)
   }"

definition stbi_zlib_decode_noheader_buffer :: "byte option list \<Rightarrow> bytes \<Rightarrow> (byte option list \<times> nat) option option" where
  "stbi_zlib_decode_noheader_buffer obuffer ibuffer = do {
     r \<leftarrow> stbi_do_zlib (\<lambda>_. False) (zbuf_on ibuffer) obuffer False False;
     Some (case r of Inr a \<Rightarrow> Some (zblock a, zout a) | Inl e \<Rightarrow> None)
   }"

end
