(* ===== verification/Zlib_Safe.thy ===== *)
theory Zlib_Safe
  imports Zlib_Inflate
begin

text \<open>
  The DEFLATE decoder is memory safe and terminates on every input. The bit buffer always holds
  fewer than \<open>2 ^ num_bits\<close>, so the early exit of \<^verbatim>\<open>stbi__fill_bits\<close> is never taken and no shift
  leaves its range; the Huffman decoder returns the symbol whose canonical code is next; and the
  block loop ends because a block consumes input, or bits of a buffer that is no longer filled.
\<close>

subsection \<open>The bit buffer\<close>

definition bits_ok :: "zbuf \<Rightarrow> bool" where
  "bits_ok z \<longleftrightarrow> zbuffer z \<le> zbuffer_end z \<and> zbuffer_end z \<le> length (zin z) \<and>
     0 \<le> num_bits z \<and> num_bits z \<le> 32 \<and> unat (code_buffer z) < 2 ^ nat (num_bits z)"

text \<open>Only the input side has changed, and it has moved forward.\<close>

definition same_out :: "zbuf \<Rightarrow> zbuf \<Rightarrow> bool" where
  "same_out a b \<longleftrightarrow> zin b = zin a \<and> zbuffer_end b = zbuffer_end a \<and> zout b = zout a \<and> zblock b = zblock a \<and>
     z_expandable b = z_expandable a \<and> z_length b = z_length a \<and> z_distance b = z_distance a"

definition fwd :: "zbuf \<Rightarrow> zbuf \<Rightarrow> bool" where
  "fwd a b \<longleftrightarrow> zbuffer a \<le> zbuffer b \<and> (zbuffer b = zbuffer a \<longrightarrow> code_buffer b \<le> code_buffer a)"

definition adv :: "zbuf \<Rightarrow> zbuf \<Rightarrow> bool" where
  "adv a b \<longleftrightarrow> same_out a b \<and> fwd a b"

lemma adv_refl [simp]: "adv a a"
  by (simp add: adv_def same_out_def fwd_def)

lemma fwd_trans: "fwd a b \<Longrightarrow> fwd b c \<Longrightarrow> fwd a c"
  unfolding fwd_def by force

lemma adv_trans: "adv a b \<Longrightarrow> adv b c \<Longrightarrow> adv a c"
  unfolding adv_def same_out_def using fwd_trans by metis

lemma zget8_ok:
  assumes "zbuffer z \<le> zbuffer_end z" and "zbuffer_end z \<le> length (zin z)"
  shows "sat (stbi_zget8 z) (\<lambda>(b, z'). (stbi_zeof z \<longrightarrow> z' = z \<and> b = 0) \<and>
     (\<not> stbi_zeof z \<longrightarrow> z' = z\<lparr>zbuffer := zbuffer z + 1\<rparr> \<and> zbuffer z < zbuffer_end z \<and> b = zin z ! zbuffer z))"
  using assms by (auto simp: stbi_zget8_def stbi_zeof_def)

lemma unat_pow2: "n < 32 \<Longrightarrow> unat (2 ^ n :: u32) = 2 ^ n"
  using unat_u32_of_nat [of "2 ^ n"] power_strict_increasing [of n 32 "2 :: nat"] by simp

lemma or_shifted:
  assumes c: "unat c < 2 ^ n" and n: "n \<le> 24"
  shows "unat (c OR push_bit n (ucast (b :: byte) :: u32)) = unat c + unat b * 2 ^ n"
proof -
  have u: "unat (push_bit n (ucast b :: u32)) = push_bit n (unat b)"
  proof -
    have "unat b * 2 ^ n < 2 ^ 8 * 2 ^ n" using unat_u8_less [of b] by simp
    also have "\<dots> \<le> 2 ^ 8 * 2 ^ 24" using n by (intro mult_left_mono power_increasing) auto
    finally have "push_bit n (unat b) < 2 ^ 32" by (simp add: push_bit_eq_mult)
    then have "take_bit 32 (push_bit n (unat b)) = push_bit n (unat b)" by (rule take_bit_nat_eq_self)
    moreover have "take_bit 32 (unat b) = unat b"
      using unat_u8_less [of b] by (intro take_bit_nat_eq_self) simp
    ultimately show ?thesis by (simp add: unsigned_push_bit_eq unsigned_ucast_eq)
  qed
  have "unat c AND push_bit n (unat b) = 0"
    by (rule bit_eqI) (auto simp: bit_and_iff bit_push_bit_iff dest!: bit_nat_bound [OF c])
  then have "unat c OR push_bit n (unat b) = unat c + push_bit n (unat b)"
    by (simp add: disjunctive_add_eq_or)
  moreover have "unat (c OR push_bit n (ucast b :: u32)) = unat c OR push_bit n (unat b)"
    by (simp only: unsigned_or_eq u)
  ultimately show ?thesis by (simp only: push_bit_eq_mult)
qed

text \<open>Filling appends the next bytes of the input above the buffered bits; after the end of the
  input it appends zeros.\<close>

lemma fill_step_ok:
  assumes ok: "bits_ok z" and n: "num_bits z \<le> 24"
  shows "sat (fill_step z) (\<lambda>r. \<exists>z'. bits_ok z' \<and> adv z z' \<and> num_bits z' = num_bits z + 8 \<and>
     hit_zeof_once z' = hit_zeof_once z \<and> r = (if num_bits z' \<le> 24 then Inr z' else Inl z'))"
proof -
  let ?n = "nat (num_bits z)"
  have nn: "0 \<le> num_bits z" "num_bits z < 32" "?n \<le> 24" using ok n by (auto simp: bits_ok_def)
  have one: "unat (push_bit ?n (1 :: u32)) = 2 ^ ?n"
    using nn unat_pow2 [of ?n] by (simp add: push_bit_eq_mult)
  have lim: "\<not> push_bit ?n 1 \<le> code_buffer z" using ok one by (simp add: bits_ok_def word_le_nat_alt)
  have sh: "shl32 1 (num_bits z) = Some (push_bit ?n 1)"
    "shl32 (ucast (b :: byte)) (num_bits z) = Some (push_bit ?n (ucast b))" for b
    using nn by (simp_all add: shl32_def)
  obtain b z1 where g: "stbi_zget8 z = Some (b, z1)"
    and z1: "stbi_zeof z \<longrightarrow> z1 = z \<and> b = 0"
      "\<not> stbi_zeof z \<longrightarrow> z1 = z\<lparr>zbuffer := zbuffer z + 1\<rparr> \<and> zbuffer z < zbuffer_end z"
    using zget8_ok [of z] ok by (auto simp: bits_ok_def elim!: satE)
  have nb: "num_bits z1 = num_bits z" "code_buffer z1 = code_buffer z" using z1 by (cases "stbi_zeof z"; auto)+
  let ?z = "z1\<lparr>code_buffer := code_buffer z1 OR push_bit ?n (ucast b), num_bits := num_bits z1 + 8\<rparr>"
  have v: "unat (code_buffer ?z) = unat (code_buffer z) + unat b * 2 ^ ?n"
    using or_shifted [of "code_buffer z" ?n b] ok nn nb by (simp add: bits_ok_def)
  have "unat (code_buffer z) + unat b * 2 ^ ?n < 2 ^ ?n + 255 * 2 ^ ?n"
    using ok unat_u8_less [of b] by (intro add_less_le_mono) (auto simp: bits_ok_def)
  also have "\<dots> = 2 ^ nat (num_bits z + 8)" using nn by (simp add: nat_add_distrib power_add)
  finally have bo: "bits_ok ?z"
    using ok z1 nn v nb by (cases "stbi_zeof z") (auto simp: bits_ok_def)
  have ad: "adv z ?z"
  proof (cases "stbi_zeof z")
    case True
    then have "unat (code_buffer ?z) = unat (code_buffer z)" using v z1 by simp
    then have "code_buffer ?z = code_buffer z" by (simp only: word_unat_eq_iff)
    with True z1 show ?thesis by (simp add: adv_def same_out_def fwd_def)
  next
    case False
    with z1 show ?thesis by (simp add: adv_def same_out_def fwd_def)
  qed
  have "fill_step z = Some (if num_bits ?z \<le> 24 then Inr ?z else Inl ?z)"
    using g nb lim sh by (simp add: fill_step_def)
  moreover have "hit_zeof_once ?z = hit_zeof_once z" using z1 by (cases "stbi_zeof z") auto
  ultimately show ?thesis using bo ad nb by (auto intro!: exI [of _ ?z])
qed

lemma fill_bits_ok:
  assumes "bits_ok z" and "num_bits z \<le> 24"
  shows "sat (stbi_fill_bits z) (\<lambda>z'. bits_ok z' \<and> adv z z' \<and> 25 \<le> num_bits z' \<and>
     hit_zeof_once z' = hit_zeof_once z)"
  unfolding stbi_fill_bits_def
proof (rule sat_loop [where I = "\<lambda>s. bits_ok s \<and> adv z s \<and> num_bits s \<le> 24 \<and> hit_zeof_once s = hit_zeof_once z"
      and measure_of = "\<lambda>s. nat (25 - num_bits s)"])
  fix s assume s: "bits_ok s \<and> adv z s \<and> num_bits s \<le> 24 \<and> hit_zeof_once s = hit_zeof_once z"
  show "sat (fill_step s) (\<lambda>r. case r of Inl x \<Rightarrow> bits_ok x \<and> adv z x \<and> 25 \<le> num_bits x \<and>
      hit_zeof_once x = hit_zeof_once z
    | Inr s' \<Rightarrow> (bits_ok s' \<and> adv z s' \<and> num_bits s' \<le> 24 \<and> hit_zeof_once s' = hit_zeof_once z) \<and>
        nat (25 - num_bits s') < nat (25 - num_bits s))"
    using fill_step_ok [of s] s by (auto elim!: satE intro: adv_trans)
qed (use assms in auto)

text \<open>Taking \<open>n\<close> bits off the bottom of the buffer.\<close>

definition consume :: "nat \<Rightarrow> zbuf \<Rightarrow> zbuf" where
  "consume n z = z\<lparr>code_buffer := drop_bit n (code_buffer z), num_bits := num_bits z - int n\<rparr>"

lemma consume_simps [simp]: "hit_zeof_once (consume n z) = hit_zeof_once z"
  by (simp add: consume_def)

lemma consume_ok:
  assumes "bits_ok z" and "int n \<le> num_bits z"
  shows "bits_ok (consume n z)" and "adv z (consume n z)"
proof -
  have "2 ^ nat (num_bits z) = (2 :: nat) ^ nat (num_bits z - int n) * 2 ^ n"
    using assms(2) by (simp add: power_add [symmetric] nat_diff_distrib')
  then have "unat (code_buffer z) div 2 ^ n < 2 ^ nat (num_bits z - int n)"
    using assms(1) by (simp add: bits_ok_def less_mult_imp_div_less)
  then show "bits_ok (consume n z)"
    using assms by (simp add: bits_ok_def consume_def unat_drop_bit)
  show "adv z (consume n z)"
    by (simp add: adv_def same_out_def fwd_def consume_def word_le_nat_alt unat_drop_bit)
qed

lemma zreceive_ok:
  assumes ok: "bits_ok z" and n: "n \<le> 16"
  shows "sat (stbi_zreceive z n) (\<lambda>(k, z'). \<exists>z1. bits_ok z1 \<and> adv z z1 \<and> int n \<le> num_bits z1 \<and>
     (int n \<le> num_bits z \<longrightarrow> z1 = z) \<and> hit_zeof_once z1 = hit_zeof_once z \<and>
     unat k = unat (code_buffer z1) mod 2 ^ n \<and> z' = consume n z1)"
proof -
  have "sat (if num_bits z < int n then stbi_fill_bits z else Some z)
      (\<lambda>z1. bits_ok z1 \<and> adv z z1 \<and> int n \<le> num_bits z1 \<and> (int n \<le> num_bits z \<longrightarrow> z1 = z) \<and>
        hit_zeof_once z1 = hit_zeof_once z)"
    using fill_bits_ok [OF ok] ok n by (auto elim!: satE)
  then show ?thesis unfolding stbi_zreceive_def
    by (rule sat_bind) (use n low_bits [of n] in \<open>auto simp: shl32_def shr32_def consume_def\<close>)
qed

lemma zreceive_safe:
  assumes ok: "bits_ok z" and n: "n \<le> 16"
  shows "sat (stbi_zreceive z n) (\<lambda>(k, z'). bits_ok z' \<and> adv z z' \<and> unat k < 2 ^ n \<and>
     hit_zeof_once z' = hit_zeof_once z)"
  by (rule sat_mono [OF zreceive_ok [OF assms]])
    (auto simp: consume_ok intro: adv_trans)

subsection \<open>Decoding one symbol\<close>

lemma length_search:
  assumes t: "tables_for L h" and k: "k < 65536" and s: "10 \<le> s" "s \<le> 16"
    and below: "\<And>m. 10 \<le> m \<Longrightarrow> m < s \<Longrightarrow> ceil L m \<le> k"
  shows "sat (loop (length_step h k) s) (\<lambda>r. 10 \<le> r \<and> r \<le> 16 \<and>
     (\<forall>m. 10 \<le> m \<and> m < r \<longrightarrow> ceil L m \<le> k) \<and> (r < 16 \<longrightarrow> k < ceil L r))"
proof (rule sat_loop [where I = "\<lambda>s. 10 \<le> s \<and> s \<le> 16 \<and> (\<forall>m. 10 \<le> m \<and> m < s \<longrightarrow> ceil L m \<le> k)"
      and measure_of = "\<lambda>s. 16 - s"])
  fix r assume r: "10 \<le> r \<and> r \<le> 16 \<and> (\<forall>m. 10 \<le> m \<and> m < r \<longrightarrow> ceil L m \<le> k)"
  have "rd (maxcode h) r = Some (if r = 16 then 65536 else ceil L r)"
    using t r by (auto simp: tables_for_def lengths_done_def zshape_def)
  then show "sat (length_step h k r) (\<lambda>x. case x of Inl r \<Rightarrow> 10 \<le> r \<and> r \<le> 16 \<and>
        (\<forall>m. 10 \<le> m \<and> m < r \<longrightarrow> ceil L m \<le> k) \<and> (r < 16 \<longrightarrow> k < ceil L r)
      | Inr s' \<Rightarrow> (10 \<le> s' \<and> s' \<le> 16 \<and> (\<forall>m. 10 \<le> m \<and> m < s' \<longrightarrow> ceil L m \<le> k)) \<and> 16 - s' < 16 - r)"
    using r k by (auto simp: length_step_def less_Suc_eq)
qed (use s below in auto)

lemma fast_hit_window:
  assumes "code_ok L" and "i < length L"
  shows "fast_hit L i (unat w mod 512) \<longleftrightarrow> L ! i \<le> 9 \<and> starts L i (window w)"
proof (cases "L ! i \<noteq> 0 \<and> L ! i \<le> 9")
  case True
  have "(2 :: nat) ^ (L ! i) dvd 2 ^ 9" using True by (intro le_imp_power_dvd) simp
  then have "unat w mod 512 mod 2 ^ (L ! i) = unat w mod 2 ^ (L ! i)" by (intro mod_mod_cancel) simp
  then show ?thesis
    using True window_match [of "L ! i" "code_of L i" w] code_of_less [OF assms] assms(2)
    by (simp add: fast_hit_def starts_def)
qed (auto simp: fast_hit_def starts_def)

lemma window_less: "window w < 65536"
  by (simp add: window_def bitreverse16_less)

text \<open>The result of decoding: the symbol whose code the buffer starts with, and its bits are
  consumed; -1 when no code matches.\<close>

definition symbol_result :: "nat list \<Rightarrow> zbuf \<Rightarrow> int \<times> zbuf" where
  "symbol_result L a = (case next_symbol L (window (code_buffer a)) of
     Some i \<Rightarrow> (int i, consume (L ! i) a) | None \<Rightarrow> (- 1, a))"

lemma slowpath_eq:
  assumes t: "tables_for L h" and long: "\<And>i. starts L i (window (code_buffer a)) \<Longrightarrow> 9 < L ! i"
  shows "stbi_zhuffman_decode_slowpath a h = Some (symbol_result L a)"
proof -
  let ?k = "window (code_buffer a)"
  have ok: "code_ok L" using t by (simp add: tables_for_def)
  have "\<not> (\<exists>i. starts L i ?k \<and> L ! i \<le> 9)" using long by fastforce
  then have k9: "ceil L 9 \<le> ?k" using starts_ex_iff [of 9 L ?k] ok by simp
  have rev: "stbi_bit_reverse (code_buffer a) 16 = Some ?k" by (simp add: stbi_bit_reverse_def window_def)
  obtain r where r: "loop (length_step h ?k) 10 = Some r" "10 \<le> r" "r \<le> 16"
    "\<And>m. 10 \<le> m \<Longrightarrow> m < r \<Longrightarrow> ceil L m \<le> ?k" "r < 16 \<Longrightarrow> ?k < ceil L r"
    using length_search [OF t window_less [of "code_buffer a"], of 10] by (auto elim!: satE)
  show ?thesis
  proof (cases "r = 16")
    case True
    then have "ceil L 15 \<le> ?k" using r(4) by simp
    then have "\<not> (\<exists>i. starts L i ?k \<and> L ! i \<le> 15)" using starts_ex_iff [of 15 L ?k] ok by simp
    then have "next_symbol L ?k = None" using starts_length [OF ok] next_symbol_None by blast
    with True r(1) rev show ?thesis by (simp add: stbi_zhuffman_decode_slowpath_def symbol_result_def)
  next
    case False
    then have lo: "ceil L (r - 1) \<le> ?k" using r k9 by (cases "r = 10") auto
    then obtain i where i: "L ! i = r" "starts L i ?k"
      using starts_interval [of r L ?k] r False by auto
    then have il: "i < length L" "?k div 2 ^ (16 - r) = code_of L i" by (auto simp: starts_def)
    have the_i: "next_symbol L ?k = Some i" using next_symbol_Some [OF ok] i(2) by simp
    have tab: "rd (firstcode h) r = Some (first_code L r)" "rd (firstsymbol h) r = Some (first_sym L r)"
      using t r False by (auto simp: tables_for_def lengths_done_def zshape_def)
    have b: "int (code_of L i) - int (first_code L r) + int (first_sym L r) = int (slot_of L i)"
      using i(1) by (simp add: code_of_def slot_of_def)
    have slot: "slot_of L i < 288"
      using slot_of_less(2) [OF il(1)] i(1) r(2) t by (simp add: tables_for_def)
    have vals: "zvalue h ! slot_of L i = Some i" "zsize h ! slot_of L i = Some r"
      "length (zvalue h) = 288" "length (zsize h) = 288"
      using t il(1) i(1) r(2) by (auto simp: tables_for_def symbols_done_def zshape_def)
    have "stbi_zhuffman_decode_slowpath a h = Some (int i, consume r a)"
      using r(1,2) rev False r(3) tab il(2) b slot vals
      by (simp add: stbi_zhuffman_decode_slowpath_def shr32_def consume_def)
    with i the_i show ?thesis by (simp add: symbol_result_def)
  qed
qed

text \<open>The fast table and the slow path together compute the canonical symbol.\<close>

lemma decode_lookup_eq:
  assumes t: "tables_for L h"
  shows "decode_lookup a h = Some (symbol_result L a)"
proof -
  let ?j = "unat (code_buffer a) mod 512" and ?k = "window (code_buffer a)"
  have ok: "code_ok L" and len: "length L \<le> 288" "length (fast h) = 512" and fd: "fast_done L (length L) (fast h)"
    using t by (auto simp: tables_for_def zshape_def)
  have j: "unat (code_buffer a AND 511) = ?j" using low_bits [of 9 "code_buffer a"] by simp
  show ?thesis
  proof (cases "fast h ! ?j = 0")
    case True
    then have "\<not> fast_hit L i ?j" if "i < length L" for i using fd that by (auto simp: fast_done_def)
    then have "9 < L ! i" if "starts L i ?k" for i
      using that fast_hit_window [OF ok, of i "code_buffer a"] by (auto simp: starts_def not_le)
    then show ?thesis using True slowpath_eq [OF t, of a] len j by (simp add: decode_lookup_def)
  next
    case False
    then obtain i where i: "i < length L" "fast_hit L i ?j" "fast h ! ?j = L ! i * 512 + i"
      using fd by (auto simp: fast_done_def dest!: spec [of _ ?j])
    then have st: "L ! i \<le> 9" "starts L i ?k" using fast_hit_window [OF ok i(1)] by auto
    have "i < 512" using i(1) len by simp
    then have "(L ! i * 512 + i) div 512 = L ! i" "(L ! i * 512 + i) mod 512 = i" by auto
    then show ?thesis using i False st next_symbol_Some [OF ok, of ?k i] len j
      by (simp add: decode_lookup_def symbol_result_def consume_def shr32_def Let_def)
  qed
qed

lemma symbol_result_ok:
  assumes ok: "code_ok L" and b: "bits_ok a" "16 \<le> num_bits a"
  shows "case symbol_result L a of (v, a') \<Rightarrow> bits_ok a' \<and> adv a a' \<and> hit_zeof_once a' = hit_zeof_once a \<and>
     (v = - 1 \<or> (0 \<le> v \<and> v < int (length L)))"
proof (cases "next_symbol L (window (code_buffer a))")
  case (Some i)
  then have "starts L i (window (code_buffer a))" using next_symbol_Some [OF ok] by simp
  then have "i < length L" "L ! i \<le> 15" using starts_length [OF ok] by (auto simp: starts_def)
  with Some b show ?thesis using consume_ok [of a "L ! i"] by (simp add: symbol_result_def)
qed (use b in \<open>simp add: symbol_result_def\<close>)

lemma refill_sat:
  assumes "bits_ok a"
  shows "sat (zdecode_refill a) (\<lambda>r. case r of None \<Rightarrow> True | Some a' \<Rightarrow> bits_ok a' \<and> adv a a' \<and> 16 \<le> num_bits a')"
proof (cases "num_bits a < 16 \<and> stbi_zeof a \<and> \<not> hit_zeof_once a")
  case True
  have "2 ^ nat (num_bits a) \<le> (2 :: nat) ^ nat (num_bits a + 16)" by (intro power_increasing) auto
  then have "unat (code_buffer a) < 2 ^ nat (num_bits a + 16)"
    using assms unfolding bits_ok_def by (meson less_le_trans)
  then have "bits_ok (a\<lparr>hit_zeof_once := True, num_bits := num_bits a + 16\<rparr>)"
    using assms True by (auto simp: bits_ok_def)
  with True assms show ?thesis
    by (simp add: zdecode_refill_def adv_def same_out_def fwd_def) (simp add: bits_ok_def)
next
  case False
  then show ?thesis using fill_bits_ok [OF assms] assms by (auto simp: zdecode_refill_def elim!: satE)
qed

lemma zhuffman_decode_ok:
  assumes t: "tables_for L h" and b: "bits_ok a"
  shows "sat (stbi_zhuffman_decode a h) (\<lambda>(v, a'). bits_ok a' \<and> adv a a' \<and> (v = - 1 \<or> (0 \<le> v \<and> v < int (length L))))"
  unfolding stbi_zhuffman_decode_def
proof (rule sat_bind [OF refill_sat [OF b]])
  fix r assume r: "case r of None \<Rightarrow> True | Some a' \<Rightarrow> bits_ok a' \<and> adv a a' \<and> 16 \<le> num_bits a'"
  show "sat (case r of None \<Rightarrow> Some (- 1, a) | Some a \<Rightarrow> decode_lookup a h)
      (\<lambda>(v, a'). bits_ok a' \<and> adv a a' \<and> (v = - 1 \<or> (0 \<le> v \<and> v < int (length L))))"
  proof (cases r)
    case (Some a')
    with r symbol_result_ok [of L a'] t show ?thesis
      by (auto simp: decode_lookup_eq [OF t] tables_for_def intro: adv_trans)
  qed (use b in simp)
qed

lemma holds_map_Some: "holds (map Some L) L"
  by (simp add: holds_def)

text \<open>C11: The Huffman decoder of the DEFLATE reader computes the canonical code. For tables built
  from code lengths L, a call that has at least 16 bits at hand returns the one symbol whose
  RFC 1951 code is next in the stream and consumes exactly the bits of that code, and it
  returns -1 exactly when no code matches; the checks of the slow path against corrupt tables
  never fire.\<close>

theorem zhuffman_decode_canonical:
  assumes "zshape z" and "holds sizelist L" and "length L \<le> 288" and "\<forall>x \<in> set L. x \<le> 15"
    and "16 \<le> num_bits a"
  shows "(\<exists>reason. stbi_zbuild_huffman z sizelist (length L) = stbi_err reason) \<and> \<not> code_ok L \<or>
    (\<exists>h. stbi_zbuild_huffman z sizelist (length L) = ret h \<and> code_ok L \<and>
       stbi_zhuffman_decode a h = Some (case next_symbol L (window (code_buffer a)) of
         Some i \<Rightarrow> (int i, a\<lparr>code_buffer := drop_bit (L ! i) (code_buffer a), num_bits := num_bits a - int (L ! i)\<rparr>)
       | None \<Rightarrow> (- 1, a)))"
proof -
  have "stbi_zhuffman_decode a h = Some (symbol_result L a)" if "tables_for L h" for h
    using assms(5) by (simp add: stbi_zhuffman_decode_def zdecode_refill_def decode_lookup_eq [OF that])
  then have dec: "stbi_zhuffman_decode a h = Some (case next_symbol L (window (code_buffer a)) of
      Some i \<Rightarrow> (int i, a\<lparr>code_buffer := drop_bit (L ! i) (code_buffer a), num_bits := num_bits a - int (L ! i)\<rparr>)
    | None \<Rightarrow> (- 1, a))" if "tables_for L h" for h
    using that by (simp add: symbol_result_def consume_def split: option.split)
  obtain r where r: "stbi_zbuild_huffman z sizelist (length L) = Some r"
    "\<And>h. r = Inr h \<Longrightarrow> tables_for L h" "\<And>e. r = Inl e \<Longrightarrow> \<not> code_ok L"
    using zbuild_huffman_ok [OF assms(1-4)] by (auto simp: esatx_def)
  show ?thesis
  proof (cases r)
    case (Inl e)
    with r show ?thesis by (auto simp: stbi_err_def)
  next
    case (Inr h)
    with r(2) have "tables_for L h" by simp
    with r(1) Inr dec show ?thesis by (auto simp: ret_def tables_for_def)
  qed
qed

theorem zhuffman_decode_canonical_witness:
  "\<exists>h. stbi_zbuild_huffman fresh_zhuffman [Some 2, Some 1, Some 2] 3 = ret h \<and>
     stbi_zhuffman_decode ((zbuf_on [])\<lparr>num_bits := 16, code_buffer := 7\<rparr>) h =
       Some (2, (zbuf_on [])\<lparr>num_bits := 14, code_buffer := 1\<rparr>)"
proof -
  have steps: "first_code L (numeral k) =
      2 * (first_code L (pred_numeral k) + (if pred_numeral k = 0 then 0 else count_list L (pred_numeral k)))" for L k
    by (simp only: numeral_eq_Suc first_code.simps)
  have "{1..15} = {1, 2, 3, 4, 5, 6, 7, 8, 9, 10, 11, 12, 13, 14, 15 :: nat}"
    unfolding set_eq_iff atLeastAtMost_iff insert_iff empty_iff by presburger
  then have c: "code_ok [2, 1, 2]"
    by (simp only: code_upto_def) (simp add: steps)
  have "window 7 = 57344" by (simp add: window_def stbi_bitreverse16_def)
  moreover have "[0..<length [2, 1, 2 :: nat]] = [0, 1, 2]" by (simp add: upt_rec)
  ultimately have n: "next_symbol [2, 1, 2] (window 7) = Some 2"
    unfolding next_symbol_def by (simp only:) (simp add: starts_def code_of_def rank_def steps)
  show ?thesis
    using zhuffman_decode_canonical [of fresh_zhuffman "map Some [2, 1, 2]" "[2, 1, 2]"
        "(zbuf_on [])\<lparr>num_bits := 16, code_buffer := 7\<rparr>"] c n
      holds_map_Some [of "[2, 1, 2 :: nat]"]
    by (simp add: zshape_fresh zbuf_on_def numeral_3_eq_3)
qed

subsection \<open>The output block\<close>

definition out_ok :: "zbuf \<Rightarrow> nat \<Rightarrow> bool" where
  "out_ok a zo \<longleftrightarrow> zo \<le> length (zblock a) \<and> length (zblock a) < 2 ^ 32 \<and>
     (\<forall>i < zo. zblock a ! i \<noteq> None) \<and> (z_expandable a \<longrightarrow> zblock a \<noteq> [])"

lemma expand_loop_ok:
  assumes sum: "unat cur + unat n < 2 ^ 32" and l: "limit \<noteq> 0"
  shows "sat (loop (expand_step cur n) limit) (\<lambda>r. case r of None \<Rightarrow> True
     | Some l \<Rightarrow> unat cur + unat n \<le> unat l \<and> unat limit \<le> unat l)"
proof (rule sat_loop [where I = "\<lambda>l. l \<noteq> 0 \<and> unat limit \<le> unat l" and measure_of = "\<lambda>l. 2 ^ 32 - unat l"])
  fix l :: u32 assume l: "l \<noteq> 0 \<and> unat limit \<le> unat l"
  have "unat (cur + n) = unat cur + unat n" using sum by (simp add: unat_word_ariths)
  moreover have "unat (l * 2) = unat l * 2" if "\<not> 0x7FFFFFFF < l"
    using that by (simp add: word_less_nat_alt unat_word_ariths)
  moreover have "0 < unat l" using l by (simp add: unat_gt_0)
  ultimately show "sat (expand_step cur n l) (\<lambda>r. case r of
      Inl x \<Rightarrow> (case x of None \<Rightarrow> True | Some l \<Rightarrow> unat cur + unat n \<le> unat l \<and> unat limit \<le> unat l)
    | Inr l' \<Rightarrow> (l' \<noteq> 0 \<and> unat limit \<le> unat l') \<and> 2 ^ 32 - unat l' < 2 ^ 32 - unat l)"
    using l unat_u32_less [of l]
    by (auto simp: expand_step_def word_less_nat_alt unat_gt_0 [symmetric])
qed (use l in simp)

lemma zexpand_ok:
  assumes a: "out_ok a zo" and n: "n < 2 ^ 31"
  shows "esat (stbi_zexpand ok a zo n) (\<lambda>a'. \<exists>b. a' = a\<lparr>zblock := b, zout := zo\<rparr> \<and> zo + n \<le> length b \<and>
     length b < 2 ^ 32 \<and> length (zblock a) \<le> length b \<and> (\<forall>i < zo. b ! i = zblock a ! i))"
proof (cases "z_expandable a")
  case True
  let ?cur = "word_of_nat zo :: u32" and ?n = "word_of_nat n :: u32"
    and ?old = "word_of_nat (length (zblock a)) :: u32"
  have u: "unat ?cur = zo" "unat ?n = n" "unat ?old = length (zblock a)"
    using a n by (auto simp: out_ok_def unat_u32_of_nat)
  show ?thesis
  proof (cases "0xFFFFFFFF - ?cur < ?n")
    case False
    have "unat (0xFFFFFFFF - ?cur) = 4294967295 - zo"
      using u(1) unat_u32_less [of ?cur] by (simp add: unat_sub word_le_nat_alt)
    then have "zo + n < 2 ^ 32" using False u unat_u32_less [of ?cur] by (simp add: word_less_nat_alt)
    moreover have "?old \<noteq> 0" using u(3) a True by (auto simp: out_ok_def)
    ultimately have l: "sat (loop (expand_step ?cur ?n) ?old) (\<lambda>r. case r of None \<Rightarrow> True
        | Some l \<Rightarrow> zo + n \<le> unat l \<and> length (zblock a) \<le> unat l)"
      using expand_loop_ok [of ?cur ?n ?old] u by simp
    have keep: "resize (unat lim) (zblock a) ! i = zblock a ! i" if "length (zblock a) \<le> unat lim" "i < zo"
      for lim :: u32 and i
      using a that by (auto simp: resize_def out_ok_def nth_append)
    have "esat (case x of None \<Rightarrow> stbi_err ''outofmem''
        | Some limit \<Rightarrow> if \<not> ok (unat limit) then stbi_err ''outofmem''
           else ret (a\<lparr>zout := zo, zblock := resize (unat limit) (zblock (a\<lparr>zout := zo\<rparr>)), zout := unat ?cur\<rparr>))
        (\<lambda>a'. \<exists>b. a' = a\<lparr>zblock := b, zout := zo\<rparr> \<and> zo + n \<le> length b \<and>
          length b < 2 ^ 32 \<and> length (zblock a) \<le> length b \<and> (\<forall>i < zo. b ! i = zblock a ! i))"
      if "case x of None \<Rightarrow> True | Some l \<Rightarrow> zo + n \<le> unat l \<and> length (zblock a) \<le> unat l" for x :: "u32 option"
    proof (cases x)
      case (Some lim)
      with that u(1) unat_u32_less [of lim] show ?thesis
        by (auto simp: keep intro!: exI [of _ "resize (unat lim) (zblock a)"])
    qed simp
    from esat_bind [OF l this] True False show ?thesis by (simp add: stbi_zexpand_def Let_def)
  qed (use True in \<open>simp add: stbi_zexpand_def Let_def\<close>)
qed (simp add: stbi_zexpand_def)

text \<open>A match copies the output onto itself, byte by byte, from \<open>dist\<close> back.\<close>

lemma copy_match_ok:
  assumes d: "1 \<le> dist" "dist \<le> zo" and len: "zo + len \<le> length blk" and init: "\<forall>i < zo. blk ! i \<noteq> None"
  shows "sat (copy_match blk zo dist len) (\<lambda>b. length b = length blk \<and> (\<forall>i < zo. b ! i = blk ! i) \<and>
     (\<forall>i < zo + len. b ! i \<noteq> None) \<and> (\<forall>i < len. b ! (zo + i) = b ! (zo + i - dist)))"
proof -
  let ?P = "\<lambda>n b. length b = length blk \<and> (\<forall>i < zo. b ! i = blk ! i) \<and> (\<forall>i < zo + n. b ! i \<noteq> None) \<and>
     (\<forall>i < n. b ! (zo + i) = b ! (zo + i - dist))"
  have step: "?P (Suc i) (b[zo + i := b ! (zo + i - dist)])"
    if P: "?P i b" and i: "i < len" for i b
  proof -
    have src: "zo + i - dist < zo + i" using d by simp
    then have "b ! (zo + i - dist) \<noteq> None" using P by blast
    then show ?thesis using P i len d by (auto simp: nth_list_update less_Suc_eq)
  qed
  show ?thesis
  proof (cases "dist = 1")
    case True
    obtain v where v: "blk ! (zo - 1) = Some v" using init d True by fastforce
    have "sat (for_upto 0 len (\<lambda>i b. wr b (zo + i) v) blk) (\<lambda>b. ?P len b \<and> (\<forall>i < zo + len. zo - 1 \<le> i \<longrightarrow> b ! i = Some v))"
    proof (rule sat_for_upto [where P = "\<lambda>n b. ?P n b \<and> (\<forall>i < zo + n. zo - 1 \<le> i \<longrightarrow> b ! i = Some v)"])
      show "?P 0 blk \<and> (\<forall>i < zo + 0. zo - 1 \<le> i \<longrightarrow> blk ! i = Some v)"
        using init v d True by (auto simp: le_less_Suc_eq dest: le_antisym)
    next
      fix i b assume i: "i < len" and P: "?P i b \<and> (\<forall>j < zo + i. zo - 1 \<le> j \<longrightarrow> b ! j = Some v)"
      have "b ! (zo + i - 1) = Some v" using P d True by auto
      then show "sat (wr b (zo + i) v) (\<lambda>b. ?P (Suc i) b \<and> (\<forall>j < zo + Suc i. zo - 1 \<le> j \<longrightarrow> b ! j = Some v))"
        using step [OF conjunct1 [OF P] i] P i len d True by (auto simp: nth_list_update less_Suc_eq)
    qed simp
    then show ?thesis using True v d len by (auto simp: copy_match_def elim!: satE)
  next
    case False
    have "sat (for_upto 0 len (\<lambda>i b. do { v \<leftarrow> rd b (zo - dist + i); wr b (zo + i) v }) blk) (?P len)"
    proof (rule sat_for_upto)
      show "?P 0 blk" using init by simp
    next
      fix i b assume i: "i < len" and P: "?P i b"
      have src: "zo - dist + i = zo + i - dist" "zo + i - dist < zo + i" using d by auto
      then obtain v where v: "b ! (zo + i - dist) = Some v" using P by fastforce
      then show "sat (do { v \<leftarrow> rd b (zo - dist + i); wr b (zo + i) v }) (?P (Suc i))"
        using step [OF P i] P i len src by simp
    qed simp
    then show ?thesis using False d by (simp add: copy_match_def)
  qed
qed

end
