(* ===== verification/Zlib_Blocks.thy ===== *)
theory Zlib_Blocks
  imports Zlib_Safe
begin

text \<open>
  Safety and termination of the block level of the DEFLATE decoder, up to its entry points.
\<close>

lemma esat_sat: "esat m P \<longleftrightarrow> sat m (\<lambda>r. case r of Inl e \<Rightarrow> True | Inr x \<Rightarrow> P x)"
  unfolding esat_def esatx_def sat_def by (intro ex_cong1 conj_cong refl) (simp split: sum.split)

text \<open>The input side has moved forward; the output side may have changed.\<close>

definition inp :: "zbuf \<Rightarrow> zbuf \<Rightarrow> bool" where
  "inp a b \<longleftrightarrow> zin b = zin a \<and> zbuffer_end b = zbuffer_end a \<and> z_expandable b = z_expandable a \<and>
     z_length b = z_length a \<and> z_distance b = z_distance a \<and> fwd a b"

lemma inp_refl [simp]: "inp a a"
  by (simp add: inp_def fwd_def)

lemma inp_trans: "inp a b \<Longrightarrow> inp b c \<Longrightarrow> inp a c"
  unfolding inp_def using fwd_trans by metis

lemma adv_inp: "adv a b \<Longrightarrow> inp a b"
  by (simp add: adv_def inp_def same_out_def)

lemma adv_out_ok: "adv a b \<Longrightarrow> out_ok b zo = out_ok a zo"
  by (simp add: adv_def same_out_def out_ok_def)

lemma out_side [simp]:
  "bits_ok (a\<lparr>zblock := b\<rparr>) = bits_ok a" "bits_ok (a\<lparr>zout := zo\<rparr>) = bits_ok a"
  "inp x (a\<lparr>zblock := b\<rparr>) = inp x a" "inp x (a\<lparr>zout := zo\<rparr>) = inp x a"
  "out_ok (a\<lparr>zout := zo\<rparr>) n = out_ok a n"
  by (simp_all add: bits_ok_def inp_def fwd_def out_ok_def)

subsection \<open>Literals and matches\<close>

text \<open>Making room for \<open>n\<close> bytes before writing them.\<close>

lemma room_ok:
  assumes out: "out_ok a zo" and n: "n < 2 ^ 31"
  shows "esat (if full then ebind (stbi_zexpand ok a zo n) (\<lambda>a. ret (a, zout a)) else ret (a, zo))
     (\<lambda>(a', zo'). zo' = zo \<and> (\<exists>b. (a' = a\<lparr>zblock := b, zout := zo\<rparr> \<or> a' = a \<and> b = zblock a) \<and>
        out_ok a' zo \<and> length (zblock a) \<le> length b \<and> (full \<longrightarrow> zo + n \<le> length b) \<and>
        (\<forall>i < zo. b ! i = zblock a ! i)))"
proof (cases full)
  case True
  have "esat (ebind (stbi_zexpand ok a zo n) (\<lambda>a. ret (a, zout a)))
     (\<lambda>(a', zo'). zo' = zo \<and> (\<exists>b. a' = a\<lparr>zblock := b, zout := zo\<rparr> \<and> out_ok a' zo \<and>
        length (zblock a) \<le> length b \<and> zo + n \<le> length b \<and> (\<forall>i < zo. b ! i = zblock a ! i)))"
    by (rule esat_ebind [OF zexpand_ok [OF out n]]) (use out in \<open>auto simp: out_ok_def\<close>)
  then show ?thesis using True by (auto elim!: esat_mono)
qed (use out in auto)

lemma put_literal_ok:
  assumes b: "bits_ok a" and out: "out_ok a zo"
  shows "esat (put_literal ok v a zo) (\<lambda>(a', zo'). bits_ok a' \<and> inp a a' \<and> out_ok a' zo' \<and> zo' = zo + 1)"
  unfolding put_literal_def
proof (rule esat_ebind [OF room_ok [OF out]], simp, clarify)
  fix a' bl
  assume a': "a' = a\<lparr>zblock := bl, zout := zo\<rparr> \<or> a' = a \<and> bl = zblock a"
    and o': "out_ok a' zo" and le: "length (zblock a) \<le> length bl" and room: "length (zblock a) \<le> zo \<longrightarrow> zo + 1 \<le> length bl"
  have len: "zo < length (zblock a')" using a' room le by (cases "length (zblock a) \<le> zo") auto
  have "bits_ok a'" "inp a a'" using a' b by auto
  with len o' show "esat (wr (zblock a') zo v \<bind> (\<lambda>blk. ret (a'\<lparr>zblock := blk\<rparr>, zo + 1)))
      (\<lambda>(a', zo'). bits_ok a' \<and> inp a a' \<and> out_ok a' zo' \<and> zo' = zo + 1)"
    by (auto simp: out_ok_def nth_list_update less_Suc_eq)
qed

lemma with_extra_ok:
  assumes b: "bits_ok a" and z: "z < length base" "length extra = length base" "extra ! z \<le> 16"
  shows "sat (with_extra base extra z a) (\<lambda>(n, a'). bits_ok a' \<and> adv a a' \<and> base ! z \<le> n \<and> n < base ! z + 2 ^ (extra ! z))"
proof (cases "extra ! z = 0")
  case False
  have "sat (stbi_zreceive a (extra ! z) \<bind> (\<lambda>(k, a). Some (base ! z + unat k, a)))
     (\<lambda>(n, a'). bits_ok a' \<and> adv a a' \<and> base ! z \<le> n \<and> n < base ! z + 2 ^ (extra ! z))"
    by (rule sat_bind [OF zreceive_safe [OF b z(3)]]) auto
  with False z show ?thesis by (simp add: with_extra_def)
qed (use z b in \<open>simp add: with_extra_def\<close>)

text \<open>The tables of RFC 1951: a match is 3 to 258 bytes long and at most 32768 back.\<close>

lemma table_lengths [simp]:
  "length stbi_zlength_base = 31" "length stbi_zlength_extra = 31"
  "length stbi_zdist_base = 32" "length stbi_zdist_extra = 32"
  by (simp_all add: stbi_zlength_base_def stbi_zlength_extra_def stbi_zdist_base_def stbi_zdist_extra_def)

lemma length_codes:
  assumes "z < 29"
  shows "stbi_zlength_extra ! z \<le> 5" and "3 \<le> stbi_zlength_base ! z" and "stbi_zlength_base ! z \<le> 258"
proof -
  have "list_all (\<lambda>e. e \<le> 5) stbi_zlength_extra" by (simp add: stbi_zlength_extra_def)
  then show "stbi_zlength_extra ! z \<le> 5" using assms by (simp add: list_all_length)
  have "list_all (\<lambda>b. 3 \<le> b \<and> b \<le> 258) (take 29 stbi_zlength_base)" by (simp add: stbi_zlength_base_def)
  then show "3 \<le> stbi_zlength_base ! z" and "stbi_zlength_base ! z \<le> 258"
    using assms by (simp_all add: list_all_length)
qed

lemma dist_table:
  assumes "z < 30"
  shows "stbi_zdist_extra ! z \<le> 13" and "1 \<le> stbi_zdist_base ! z"
proof -
  have "list_all (\<lambda>e. e \<le> 13) stbi_zdist_extra" by (simp add: stbi_zdist_extra_def)
  then show "stbi_zdist_extra ! z \<le> 13" using assms by (simp add: list_all_length)
  have "list_all (\<lambda>b. 1 \<le> b) (take 30 stbi_zdist_base)" by (simp add: stbi_zdist_base_def)
  then show "1 \<le> stbi_zdist_base ! z" using assms by (simp add: list_all_length)
qed

lemma put_match_ok:
  assumes b: "bits_ok a" and out: "out_ok a zo" and t: "tables_for D (z_distance a)" and z: "257 \<le> z" "z < 286"
  shows "esat (put_match ok z a zo) (\<lambda>(a', zo'). bits_ok a' \<and> inp a a' \<and> out_ok a' zo' \<and> zo < zo')"
  unfolding put_match_def
proof (rule esat_bind [OF with_extra_ok [OF b]], goal_cases)
  case (4 x)
  let ?z = "nat (z - 257)"
  have zz: "?z < 29" using z by simp
  obtain len a1 where x: "x = (len, a1)" "bits_ok a1" "adv a a1" "stbi_zlength_base ! ?z \<le> len"
    "len < stbi_zlength_base ! ?z + 2 ^ (stbi_zlength_extra ! ?z)" using 4 by (cases x) auto
  have "2 ^ (stbi_zlength_extra ! ?z) \<le> (2 :: nat) ^ 5" using length_codes [OF zz] by (intro power_increasing) auto
  then have len: "3 \<le> len" "len < 300" using x(4,5) length_codes [OF zz] by auto
  have t1: "tables_for D (z_distance a1)" using t x(3) by (simp add: adv_def same_out_def)
  have out1: "out_ok a1 zo" using out x(3) by (simp add: adv_out_ok)
  show ?case unfolding x(1) prod.case
  proof (rule esat_bind [OF zhuffman_decode_ok [OF t1 x(2)]], clarsimp split del: if_split, rule esat_if)
    fix d :: int and a2 assume a2: "bits_ok a2" "adv a1 a2" "\<not> (d < 0 \<or> 30 \<le> d)"
    have dz: "nat d < 30" using a2(3) by auto
    have out2: "out_ok a2 zo" using out1 a2(2) by (simp add: adv_out_ok)
    show "esat (with_extra stbi_zdist_base stbi_zdist_extra (nat d) a2 \<bind> (\<lambda>(dist, a).
        if zo < dist then stbi_err ''bad dist''
        else ebind (if int (length (zblock a)) - int zo < int len
              then ebind (stbi_zexpand ok a zo len) (\<lambda>a. ret (a, zout a)) else ret (a, zo))
          (\<lambda>(a, zo). copy_match (zblock a) zo dist len \<bind> (\<lambda>blk. ret (a\<lparr>zblock := blk\<rparr>, zo + len)))))
      (\<lambda>(a', zo'). bits_ok a' \<and> inp a a' \<and> out_ok a' zo' \<and> zo < zo')"
    proof (rule esat_bind [OF with_extra_ok [OF a2(1)]], goal_cases)
      case (4 y)
      then obtain dist a3 where y: "y = (dist, a3)" "bits_ok a3" "adv a2 a3" "stbi_zdist_base ! nat d \<le> dist"
        by (cases y) auto
      have out3: "out_ok a3 zo" using out2 y(3) by (simp add: adv_out_ok)
      have d1: "1 \<le> dist" using y(4) dist_table [OF dz] by simp
      have i3: "inp a a3" using x(3) a2(2) y(3) adv_inp inp_trans by blast
      show ?case unfolding y(1) prod.case
      proof (rule esat_if, simp, rule esat_ebind [OF room_ok [OF out3]], goal_cases)
        case (2 r)
        then obtain a4 bl where r: "r = (a4, zo)" "a4 = a3\<lparr>zblock := bl, zout := zo\<rparr> \<or> a4 = a3 \<and> bl = zblock a3"
          "out_ok a4 zo" "length (zblock a3) \<le> length bl"
          "int (length (zblock a3)) - int zo < int len \<longrightarrow> zo + len \<le> length bl" by auto
        have "zblock a4 = bl" using r(2) by auto
        then have room: "zo + len \<le> length (zblock a4)"
          using r(4,5) out3 by (cases "int (length (zblock a3)) - int zo < int len") (auto simp: out_ok_def)
        have "sat (copy_match (zblock a4) zo dist len) (\<lambda>b. length b = length (zblock a4) \<and>
            (\<forall>i < zo + len. b ! i \<noteq> None))"
          by (rule sat_mono [OF copy_match_ok [OF d1 _ room]]) (use 2 r(3) in \<open>auto simp: out_ok_def\<close>)
        moreover have "bits_ok a4" "inp a a4" using r(2) y(2) i3 by auto
        ultimately show ?case unfolding r(1) prod.case
          by (elim esat_bind) (use r(3) room len in \<open>auto simp: out_ok_def\<close>)
      qed (use len in simp)
    qed (use dist_table(1) [OF dz] dz in simp_all)
  qed simp
qed (use z in \<open>simp_all add: order_trans [OF length_codes(1)]\<close>)

subsection \<open>Compressed blocks\<close>

definition tables_ok :: "zbuf \<Rightarrow> bool" where
  "tables_ok a \<longleftrightarrow> (\<exists>L D. tables_for L (z_length a) \<and> tables_for D (z_distance a))"

definition shapes_ok :: "zbuf \<Rightarrow> bool" where
  "shapes_ok a \<longleftrightarrow> zshape (z_length a) \<and> zshape (z_distance a)"

lemma tables_shapes: "tables_ok a \<Longrightarrow> shapes_ok a"
  by (auto simp: tables_ok_def shapes_ok_def tables_for_def)

lemma huffman_step_ok:
  assumes b: "bits_ok a" and out: "out_ok a zo" and t: "tables_ok a"
  shows "sat (huffman_step ok (a, zo)) (\<lambda>r. case r of
      Inl (Inl e) \<Rightarrow> True
    | Inl (Inr a') \<Rightarrow> bits_ok a' \<and> inp a a' \<and> out_ok a' (zout a')
    | Inr (a', zo') \<Rightarrow> bits_ok a' \<and> inp a a' \<and> out_ok a' zo' \<and> zo < zo')"
proof -
  obtain L D where L: "tables_for L (z_length a)" and D: "tables_for D (z_distance a)"
    using t by (auto simp: tables_ok_def)
  let ?R = "\<lambda>r. case r of Inl (a' :: zbuf) \<Rightarrow> bits_ok a' \<and> inp a a' \<and> out_ok a' (zout a')
    | Inr (a', zo') \<Rightarrow> bits_ok a' \<and> inp a a' \<and> out_ok a' zo' \<and> zo < zo'"
  show ?thesis unfolding huffman_step_def prod.case
  proof (rule sat_bind [OF zhuffman_decode_ok [OF L b]], clarsimp split del: if_split)
    fix z :: int and a1 assume a1: "bits_ok a1" "adv a a1"
    have out1: "out_ok a1 zo" using out a1(2) by (simp add: adv_out_ok)
    have D1: "tables_for D (z_distance a1)" using D a1(2) by (simp add: adv_def same_out_def)
    note i1 = adv_inp [OF a1(2)]
    have "esat (if z < 256 then if z < 0 then stbi_err ''bad huffman code''
          else ebind (put_literal ok (word_of_int z) a1 zo) (\<lambda>s. ret (Inr s))
        else if z = 256 then if hit_zeof_once a1 \<and> num_bits a1 < 16 then stbi_err ''unexpected end''
          else ret (Inl (a1\<lparr>zout := zo\<rparr>))
        else if 286 \<le> z then stbi_err ''bad huffman code''
        else ebind (put_match ok z a1 zo) (\<lambda>s. ret (Inr s))) ?R" (is "esat ?m _")
    proof (intro esat_if esat_simps(1))
      assume "z < 256" "\<not> z < 0"
      show "esat (ebind (put_literal ok (word_of_int z) a1 zo) (\<lambda>s. ret (Inr s))) ?R"
        by (rule esat_ebind [OF put_literal_ok [OF a1(1) out1]]) (use i1 inp_trans in auto)
    next
      assume "\<not> z < 256" "z \<noteq> 256" "\<not> 286 \<le> z"
      then show "esat (ebind (put_match ok z a1 zo) (\<lambda>s. ret (Inr s))) ?R"
        by (intro esat_ebind [OF put_match_ok [OF a1(1) out1 D1]]) (use i1 inp_trans in auto)
    qed (use a1(1) i1 out1 in auto)
    then show "sat (?m \<bind> (\<lambda>r. Some (case r of Inl e \<Rightarrow> Inl (Inl e) | Inr (Inl a) \<Rightarrow> Inl (Inr a) | Inr (Inr s) \<Rightarrow> Inr s)))
      (\<lambda>r. case r of Inl (Inl e) \<Rightarrow> True | Inl (Inr a') \<Rightarrow> bits_ok a' \<and> inp a a' \<and> out_ok a' (zout a')
        | Inr (a', zo') \<Rightarrow> bits_ok a' \<and> inp a a' \<and> out_ok a' zo' \<and> zo < zo')"
      unfolding esat_sat by (rule sat_bind) (auto split: sum.splits)
  qed
qed

lemma parse_huffman_block_ok:
  assumes b: "bits_ok a" and out: "out_ok a (zout a)" and t: "tables_ok a"
  shows "esat (stbi_parse_huffman_block ok a) (\<lambda>a'. bits_ok a' \<and> inp a a' \<and> out_ok a' (zout a'))"
  unfolding stbi_parse_huffman_block_def esat_sat
proof (rule sat_loop [where I = "\<lambda>(a', zo). bits_ok a' \<and> inp a a' \<and> out_ok a' zo"
      and measure_of = "\<lambda>(a', zo). 2 ^ 32 - zo"])
  fix st :: "zbuf \<times> nat" assume I: "case st of (a', zo) \<Rightarrow> bits_ok a' \<and> inp a a' \<and> out_ok a' zo"
  obtain a' zo where st: "st = (a', zo)" by (cases st)
  have t': "tables_ok a'" using t I st by (simp add: tables_ok_def inp_def)
  have less: "zo' < 2 ^ 32" if "out_ok x zo'" for x zo' using that by (simp add: out_ok_def)
  show "sat (huffman_step ok st) (\<lambda>r. case r of
      Inl x \<Rightarrow> (case x of Inl e \<Rightarrow> True | Inr a' \<Rightarrow> bits_ok a' \<and> inp a a' \<and> out_ok a' (zout a'))
    | Inr s' \<Rightarrow> (case s' of (a', zo) \<Rightarrow> bits_ok a' \<and> inp a a' \<and> out_ok a' zo) \<and>
        (case s' of (a', zo) \<Rightarrow> 2 ^ 32 - zo) < (case st of (a', zo) \<Rightarrow> 2 ^ 32 - zo))"
    unfolding st
    by (rule sat_mono [OF huffman_step_ok [OF _ _ t']])
      (use I st inp_trans in \<open>auto split: sum.splits dest: less intro!: diff_less_mono2\<close>)
qed (use b out in auto)

subsection \<open>Dynamic code tables\<close>

definition lens_inv :: "zbuf \<Rightarrow> nat \<Rightarrow> zbuf \<times> nat \<times> nat option list \<Rightarrow> bool" where
  "lens_inv a0 ntot st \<longleftrightarrow> (case st of (a, n, lencodes) \<Rightarrow> bits_ok a \<and> adv a0 a \<and> n \<le> ntot \<and>
     length lencodes = 455 \<and> (\<forall>i < n. \<exists>v \<le> 15. lencodes ! i = Some v))"

lemma memset_ok:
  assumes "length xs = 455" and "n + c \<le> 455" and "v \<le> 15" and "\<forall>i < n. \<exists>v \<le> 15. xs ! i = Some v"
  shows "sat (memset_cells xs n v c) (\<lambda>ys. length ys = 455 \<and> (\<forall>i < n + c. \<exists>v \<le> 15. ys ! i = Some v))"
  using assms by (auto simp: memset_cells_def nth_append)

lemma repeat_code_ok:
  assumes I: "bits_ok a" "adv a0 a" "length lencodes = 455" "\<forall>i < n. \<exists>v \<le> 15. lencodes ! i = Some v" "n < 320"
  shows "esat (if c = 16 then do { (k, a) \<leftarrow> stbi_zreceive a 2;
          if n = 0 then stbi_err ''bad codelengths'' else do { f \<leftarrow> rd lencodes (n - 1); ret (unat k + 3, f, a) } }
        else if c = 17 then do { (k, a) \<leftarrow> stbi_zreceive a 3; ret (unat k + 3, 0, a) }
        else if c = 18 then do { (k, a) \<leftarrow> stbi_zreceive a 7; ret (unat k + 11, 0, a) }
        else stbi_err ''bad codelengths'')
     (\<lambda>(m, fill, a'). bits_ok a' \<and> adv a0 a' \<and> 0 < m \<and> fill \<le> (15 :: nat))" (is "esat _ ?Q")
proof (intro esat_if esat_simps(1))
  show "esat (do { (k, a) \<leftarrow> stbi_zreceive a 2;
      if n = 0 then stbi_err ''bad codelengths'' else do { f \<leftarrow> rd lencodes (n - 1); ret (unat k + 3, f, a) } }) ?Q"
  proof (rule esat_bind [OF zreceive_safe [OF I(1)]], simp, clarify, rule esat_if, simp)
    fix k :: u32 and a2 assume a2: "bits_ok a2" "adv a a2" and "n \<noteq> 0"
    then have "0 < n" by simp
    then obtain v where "v \<le> 15" "lencodes ! (n - 1) = Some v" using I(4) by (metis diff_less zero_less_one)
    then show "esat (rd lencodes (n - 1) \<bind> (\<lambda>f. ret (unat k + 3, f, a2))) ?Q"
      using a2 adv_trans [OF I(2) a2(2)] I(3,5) by simp
  qed
  show "esat (do { (k, a) \<leftarrow> stbi_zreceive a 3; ret (unat k + 3, 0, a) }) ?Q"
    by (rule esat_bind [OF zreceive_safe [OF I(1)]]) (auto dest: adv_trans [OF I(2)])
  show "esat (do { (k, a) \<leftarrow> stbi_zreceive a 7; ret (unat k + 11, 0, a) }) ?Q"
    by (rule esat_bind [OF zreceive_safe [OF I(1)]]) (auto dest: adv_trans [OF I(2)])
qed

lemma lencodes_step_ok:
  assumes inv: "lens_inv a0 ntot (a, n, lencodes)" and n: "n < ntot" "ntot \<le> 320" and t: "tables_for L cl"
  shows "sat (lencodes_step cl ntot (a, n, lencodes)) (\<lambda>r. case r of
      Inl (Inl e) \<Rightarrow> True | Inl (Inr st) \<Rightarrow> False
    | Inr (a', n', lencodes') \<Rightarrow> lens_inv a0 ntot (a', n', lencodes') \<and> n < n')" (is "sat _ ?Q")
proof -
  have I: "bits_ok a" "adv a0 a" "length lencodes = 455" "\<forall>i < n. \<exists>v \<le> 15. lencodes ! i = Some v"
    using inv by (auto simp: lens_inv_def)
  have nn: "\<not> \<not> n < ntot" "n < 320" using n by auto
  show ?thesis unfolding lencodes_step_def prod.case if_not_P [OF nn(1)]
  proof (rule sat_bind [OF zhuffman_decode_ok [OF t I(1)]], goal_cases)
    case (1 x)
    then obtain c a1 where x: "x = (c, a1)" "bits_ok a1" "adv a a1" by (cases x) auto
    note ad1 = adv_trans [OF I(2) x(3)]
    show ?case unfolding x(1) prod.case
    proof (rule sat_if, simp, rule sat_if, goal_cases)
      case 1
      then show ?case using x(2) ad1 I n by (auto simp: lens_inv_def nth_list_update less_Suc_eq)
    next
      case 2
      show ?case
      proof (rule sat_bind [OF repeat_code_ok [OF x(2) ad1 I(3,4) nn(2), unfolded esat_sat]], goal_cases)
        case (1 r)
        show ?case
        proof (cases r)
          case (Inr y)
          then obtain m fill a2 where y: "y = (m, fill, a2)" "bits_ok a2" "adv a0 a2" "0 < m" "fill \<le> 15"
            using 1 by (cases y) auto
          show ?thesis
          proof (cases "int ntot - int n < int m")
            case False
            then have le: "n + m \<le> ntot" using n by simp
            have "sat (memset_cells lencodes n fill m) (\<lambda>ys. length ys = 455 \<and> (\<forall>i < n + m. \<exists>v \<le> 15. ys ! i = Some v))"
              by (rule memset_ok) (use I y le n in auto)
            then show ?thesis using Inr y False le by (auto simp: lens_inv_def elim!: satE)
          qed (use Inr y in simp)
        qed simp
      qed
    qed
  qed
qed

lemma lencodes_loop_ok:
  assumes b: "bits_ok a" and ntot: "ntot \<le> 320" and t: "tables_for L cl"
  shows "esat (loop (lencodes_step cl ntot) (a, 0, replicate 455 None))
     (\<lambda>st. lens_inv a ntot st \<and> fst (snd st) = ntot)"
  unfolding esat_sat
proof (rule sat_loop [where I = "lens_inv a ntot" and measure_of = "\<lambda>(a', n, lc). ntot - n"])
  fix st assume I: "lens_inv a ntot st"
  obtain a' n lc where st: "st = (a', n, lc)" by (cases st)
  show "sat (lencodes_step cl ntot st) (\<lambda>r. case r of
      Inl x \<Rightarrow> (case x of Inl e \<Rightarrow> True | Inr st \<Rightarrow> lens_inv a ntot st \<and> fst (snd st) = ntot)
    | Inr s' \<Rightarrow> lens_inv a ntot s' \<and> (case s' of (a', n, lc) \<Rightarrow> ntot - n) < (case st of (a', n, lc) \<Rightarrow> ntot - n))"
  proof (cases "n < ntot")
    case True
    show ?thesis unfolding st
      by (rule sat_mono [OF lencodes_step_ok [OF I [unfolded st] True ntot t]])
        (use True in \<open>auto split: sum.splits\<close>)
  next
    case False
    then show ?thesis using I st by (auto simp: lencodes_step_def lens_inv_def)
  qed
qed (use b in \<open>simp add: lens_inv_def\<close>)

text \<open>The lengths read so far are the list of codes that a build consumes.\<close>

lemma lens_holds:
  assumes "\<forall>i < n. \<exists>v \<le> 15. lc ! i = Some v" and "n \<le> length lc"
  obtains L where "length L = n" and "holds lc L" and "\<forall>x \<in> set L. x \<le> 15"
proof -
  let ?L = "map the (take n lc)"
  have "?L ! i \<le> 15 \<and> lc ! i = Some (?L ! i)" if "i < n" for i using assms that by fastforce
  then show ?thesis using assms(2) that [of ?L]
    by (fastforce simp: holds_def in_set_conv_nth)
qed

lemma zbuild_esat:
  assumes "zshape z" and "holds lc L" and "length L \<le> 288" and "\<forall>x \<in> set L. x \<le> 15"
  shows "esat (stbi_zbuild_huffman z lc (length L)) (tables_for L)"
  using zbuild_huffman_ok [OF assms] by (rule esatx_imp_esat)

text \<open>Reading the code-length code itself.\<close>

lemma codelengths_ok:
  assumes b: "bits_ok a" and h: "hclen \<le> 19"
  shows "sat (read_codelengths hclen a)
     (\<lambda>(sizes, a'). bits_ok a' \<and> adv a a' \<and> length sizes = 19 \<and> (\<forall>i < 19. \<exists>v \<le> 15. sizes ! i = Some v))"
  unfolding read_codelengths_def
proof (rule sat_for_upto [where P = "\<lambda>_ (sizes, a'). bits_ok a' \<and> adv a a' \<and> length sizes = 19 \<and>
      (\<forall>i < 19. \<exists>v \<le> 15. sizes ! i = Some v)"])
  fix i :: nat and st :: "nat option list \<times> zbuf"
  assume i: "i < hclen" and I: "case st of (sizes, a') \<Rightarrow> bits_ok a' \<and> adv a a' \<and> length sizes = 19 \<and>
      (\<forall>i < 19. \<exists>v \<le> 15. sizes ! i = Some v)"
  obtain sizes a1 where st: "st = (sizes, a1)" by (cases st)
  have "list_all (\<lambda>j. j < 19) length_dezigzag" "length length_dezigzag = 19" by (simp_all add: length_dezigzag_def)
  then have j: "aget length_dezigzag i = Some (length_dezigzag ! i)" "length_dezigzag ! i < 19"
    using i h by (auto simp: list_all_length)
  have b1: "bits_ok a1" "adv a a1" using I st by auto
  show "sat (case st of (sizes, a) \<Rightarrow> do {
         (s, a) \<leftarrow> stbi_zreceive a 3;
         j \<leftarrow> aget length_dezigzag i;
         sizes \<leftarrow> wr sizes j (unat s mod 256);
         Some (sizes, a) }) (\<lambda>(sizes, a'). bits_ok a' \<and> adv a a' \<and> length sizes = 19 \<and>
      (\<forall>i < 19. \<exists>v \<le> 15. sizes ! i = Some v))"
    unfolding st prod.case
    by (rule sat_bind [OF zreceive_safe [OF b1(1)]])
      (use I st j in \<open>auto simp: nth_list_update dest: adv_trans [OF b1(2)]\<close>)
qed (use b in auto)

definition same_but_tables :: "zbuf \<Rightarrow> zbuf \<Rightarrow> bool" where
  "same_but_tables a b \<longleftrightarrow> zin b = zin a \<and> zbuffer_end b = zbuffer_end a \<and> zout b = zout a \<and> zblock b = zblock a \<and>
     z_expandable b = z_expandable a \<and> fwd a b"

lemma build_dynamic_ok:
  assumes b: "bits_ok a" and sh: "shapes_ok a" and nt: "hlit \<le> 288" "hdist \<le> 32"
    and sizes: "length sizes = 19" "\<forall>i < 19. \<exists>v \<le> 15. sizes ! i = Some v"
  shows "esat (build_dynamic hlit hdist sizes a) (\<lambda>a'. bits_ok a' \<and> same_but_tables a a' \<and> tables_ok a')"
proof -
  obtain C where C: "length C = 19" "holds sizes C" "\<forall>x \<in> set C. x \<le> 15"
    by (rule lens_holds [OF sizes(2)]) (use sizes(1) in auto)
  have buildC: "esat (stbi_zbuild_huffman fresh_zhuffman sizes 19) (tables_for C)"
    using zbuild_esat [OF zshape_fresh C(2) _ C(3)] C(1) by simp
  show ?thesis unfolding build_dynamic_def Let_def
  proof (rule esat_ebind [OF buildC], rule esat_ebind [OF lencodes_loop_ok [OF b]], goal_cases)
    case (3 cl st)
    obtain a5 n lc where st: "st = (a5, n, lc)" by (cases st)
    have I: "bits_ok a5" "adv a a5" "n = hlit + hdist" "length lc = 455"
      "\<forall>i < n. \<exists>v \<le> 15. lc ! i = Some v" using 3(2) st by (auto simp: lens_inv_def)
    obtain L where L: "length L = hlit" "holds lc L" "\<forall>x \<in> set L. x \<le> 15"
      by (rule lens_holds [of hlit lc]) (use I nt in auto)
    have "\<forall>i < hdist. \<exists>v \<le> 15. drop hlit lc ! i = Some v" using I(3,4,5) nt by auto
    then obtain D where D: "length D = hdist" "holds (drop hlit lc) D" "\<forall>x \<in> set D. x \<le> 15"
      by (rule lens_holds) (use I nt in auto)
    have sh5: "zshape (z_length a5)" "zshape (z_distance a5)"
      using sh I(2) by (auto simp: shapes_ok_def adv_def same_out_def)
    have buildL: "esat (stbi_zbuild_huffman (z_length a5) lc hlit) (tables_for L)"
      using zbuild_esat [OF sh5(1) L(2) _ L(3)] L(1) nt by simp
    have buildD: "esat (stbi_zbuild_huffman (z_distance a5) (drop hlit lc) hdist) (tables_for D)"
      using zbuild_esat [OF sh5(2) D(2) _ D(3)] D(1) nt by simp
    show ?case unfolding st prod.case
      by (rule esat_if, simp, rule esat_ebind [OF buildL], rule esat_ebind [OF buildD])
        (use I(1,2) in \<open>auto simp: bits_ok_def tables_ok_def same_but_tables_def adv_def same_out_def fwd_def\<close>)
  qed (use nt in auto)
qed

lemma adv_same: "adv a b \<Longrightarrow> same_but_tables b c \<Longrightarrow> same_but_tables a c"
  unfolding adv_def same_out_def same_but_tables_def using fwd_trans by metis

lemma adv_shapes: "adv a b \<Longrightarrow> shapes_ok a \<Longrightarrow> shapes_ok b"
  by (simp add: adv_def same_out_def shapes_ok_def)

lemma compute_huffman_codes_ok:
  assumes b: "bits_ok a" and sh: "shapes_ok a"
  shows "esat (stbi_compute_huffman_codes a) (\<lambda>a'. bits_ok a' \<and> same_but_tables a a' \<and> tables_ok a')"
  unfolding stbi_compute_huffman_codes_def Let_def
proof (rule esat_bind [OF zreceive_safe [OF b]], simp, goal_cases)
  case (1 x)
  then obtain k1 a1 where x: "x = (k1, a1)" "bits_ok a1" "adv a a1" "unat k1 < 32" by (cases x) auto
  show ?case unfolding x(1) prod.case
  proof (rule esat_bind [OF zreceive_safe [OF x(2)]], simp, goal_cases)
    case (1 y)
    then obtain k2 a2 where y: "y = (k2, a2)" "bits_ok a2" "adv a1 a2" "unat k2 < 32" by (cases y) auto
    show ?case unfolding y(1) prod.case
    proof (rule esat_bind [OF zreceive_safe [OF y(2)]], simp, goal_cases)
      case (1 z)
      then obtain k3 a3 where z: "z = (k3, a3)" "bits_ok a3" "adv a2 a3" "unat k3 < 16" by (cases z) auto
      show ?case unfolding z(1) prod.case
      proof (rule esat_bind [OF codelengths_ok [OF z(2)]], goal_cases)
        case (2 w)
        then obtain sizes a4 where w: "w = (sizes, a4)" "bits_ok a4" "adv a3 a4" "length sizes = 19"
          "\<forall>i < 19. \<exists>v \<le> 15. sizes ! i = Some v" by (cases w) auto
        have ad: "adv a a4" by (rule adv_trans [OF adv_trans [OF adv_trans [OF x(3) y(3)] z(3)] w(3)])
        show ?case unfolding w(1) prod.case
          by (rule esat_mono [OF build_dynamic_ok [OF w(2) adv_shapes [OF ad sh] _ _ w(4,5)]])
            (use x(4) y(4) adv_same [OF ad] in auto)
      qed (use z(4) in simp)
    qed
  qed
qed

subsection \<open>Stored blocks\<close>

definition drain_inv :: "zbuf \<Rightarrow> zbuf \<times> nat \<times> byte option list \<Rightarrow> bool" where
  "drain_inv a0 st \<longleftrightarrow> (case st of (a, k, header) \<Rightarrow> bits_ok a \<and> adv a0 a \<and> zbuffer a = zbuffer a0 \<and> num_bits a mod 8 = 0 \<and>
     8 * int k + num_bits a \<le> 32 \<and> length header = 4 \<and>
     (\<forall>i < k. header ! i \<noteq> None \<and> (code_buffer a0 = 0 \<longrightarrow> header ! i = Some 0)))"

lemma drain_ok:
  assumes b: "bits_ok a" and m: "num_bits a mod 8 = 0"
  shows "sat (loop drain_step (a, 0, replicate 4 None))
     (\<lambda>st. drain_inv a st \<and> num_bits (fst st) = 0 \<and> fst (snd st) \<le> 4)"
proof (rule sat_loop [where I = "drain_inv a" and measure_of = "\<lambda>(a, k, h). nat (num_bits a)"])
  fix st assume I: "drain_inv a st"
  obtain a1 k h where st: "st = (a1, k, h)" by (cases st)
  note I' = I [unfolded drain_inv_def st, simplified]
  show "sat (drain_step st) (\<lambda>r. case r of Inl st \<Rightarrow> drain_inv a st \<and> num_bits (fst st) = 0 \<and> fst (snd st) \<le> 4
    | Inr s' \<Rightarrow> drain_inv a s' \<and> (case s' of (a, k, h) \<Rightarrow> nat (num_bits a)) < (case st of (a, k, h) \<Rightarrow> nat (num_bits a)))"
  proof (cases "num_bits a1 > 0")
    case True
    have m: "num_bits a1 mod 8 = 0" "8 * int k + num_bits a1 \<le> 32" using I' by auto
    have n8: "8 \<le> num_bits a1" using True m(1) by presburger
    then have k: "k < 4" using m(2) by linarith
    have "a1\<lparr>code_buffer := drop_bit 8 (code_buffer a1), num_bits := num_bits a1 - 8\<rparr> = consume 8 a1"
      by (simp add: consume_def)
    moreover have "bits_ok (consume 8 a1)" "adv a1 (consume 8 a1)" using consume_ok [of a1 8] I' n8 by auto
    moreover have "code_buffer a1 = 0" if "code_buffer a = 0"
      using I' that by (simp add: adv_def fwd_def)
    ultimately show ?thesis using True k I' n8
      by (auto simp: st drain_step_def drain_inv_def nth_list_update less_Suc_eq consume_def mod_diff_right_eq
          intro: adv_trans)
  next
    case False
    then show ?thesis using I I' by (auto simp: st drain_step_def bits_ok_def)
  qed
qed (use b m in \<open>simp add: drain_inv_def bits_ok_def\<close>)

lemma header_ok:
  assumes D: "drain_inv a0 (a, k, header)" and n0: "num_bits a = 0" and k: "k \<le> 4"
  shows "sat (for_upto k 4 (\<lambda>k (a, header). do {
           (b, a) \<leftarrow> stbi_zget8 a;
           header \<leftarrow> wr header k b;
           Some (a, header) }) (a, header))
     (\<lambda>(a', header'). bits_ok a' \<and> adv a0 a' \<and> num_bits a' = 0 \<and> length header' = 4 \<and> (\<forall>i < 4. header' ! i \<noteq> None) \<and>
        (code_buffer a0 = 0 \<and> zbuffer a' = zbuffer a0 \<longrightarrow> (\<forall>i < 4. header' ! i = Some 0)))"
proof (rule sat_for_upto [where P = "\<lambda>k (a', header'). bits_ok a' \<and> adv a0 a' \<and> num_bits a' = 0 \<and>
      length header' = 4 \<and> (\<forall>i < k. header' ! i \<noteq> None) \<and>
      (code_buffer a0 = 0 \<and> zbuffer a' = zbuffer a0 \<longrightarrow> (\<forall>i < k. header' ! i = Some 0))"])
  fix i :: nat and st :: "zbuf \<times> byte option list"
  assume i: "i < 4" and I: "case st of (a', header') \<Rightarrow> bits_ok a' \<and> adv a0 a' \<and> num_bits a' = 0 \<and>
      length header' = 4 \<and> (\<forall>j < i. header' ! j \<noteq> None) \<and>
      (code_buffer a0 = 0 \<and> zbuffer a' = zbuffer a0 \<longrightarrow> (\<forall>j < i. header' ! j = Some 0))"
  obtain a1 h where st: "st = (a1, h)" by (cases st)
  note I' = I [unfolded st prod.case]
  have fwd1: "zbuffer a0 \<le> zbuffer a1" using I' by (simp add: adv_def fwd_def)
  have zg: "sat (stbi_zget8 a1) (\<lambda>(b, z'). (stbi_zeof a1 \<longrightarrow> z' = a1 \<and> b = 0) \<and>
     (\<not> stbi_zeof a1 \<longrightarrow> z' = a1\<lparr>zbuffer := zbuffer a1 + 1\<rparr> \<and> zbuffer a1 < zbuffer_end a1 \<and> b = zin a1 ! zbuffer a1))"
    by (rule zget8_ok) (use I' in \<open>auto simp: bits_ok_def\<close>)
  show "sat (case st of (a, header) \<Rightarrow> do {
           (b, a) \<leftarrow> stbi_zget8 a;
           header \<leftarrow> wr header i b;
           Some (a, header) }) (\<lambda>(a', header'). bits_ok a' \<and> adv a0 a' \<and> num_bits a' = 0 \<and>
      length header' = 4 \<and> (\<forall>j < Suc i. header' ! j \<noteq> None) \<and>
      (code_buffer a0 = 0 \<and> zbuffer a' = zbuffer a0 \<longrightarrow> (\<forall>j < Suc i. header' ! j = Some 0)))"
    unfolding st prod.case
  proof (rule sat_bind [OF zg], clarify)
    fix b a2 assume z: "stbi_zeof a1 \<longrightarrow> a2 = a1 \<and> b = 0"
      "\<not> stbi_zeof a1 \<longrightarrow> a2 = a1\<lparr>zbuffer := zbuffer a1 + 1\<rparr> \<and> zbuffer a1 < zbuffer_end a1 \<and> b = zin a1 ! zbuffer a1"
    have "bits_ok a2" "adv a0 a2" "num_bits a2 = 0"
      using z I' by (cases "stbi_zeof a1"; auto simp: bits_ok_def adv_def same_out_def fwd_def)+
    then show "sat (wr h i b \<bind> (\<lambda>header. Some (a2, header))) (\<lambda>(a', header'). bits_ok a' \<and> adv a0 a' \<and> num_bits a' = 0 \<and>
      length header' = 4 \<and> (\<forall>j < Suc i. header' ! j \<noteq> None) \<and>
      (code_buffer a0 = 0 \<and> zbuffer a' = zbuffer a0 \<longrightarrow> (\<forall>j < Suc i. header' ! j = Some 0)))"
      using I' i z fwd1 by (cases "stbi_zeof a1") (auto simp: nth_list_update less_Suc_eq)
  qed
qed (use D n0 k in \<open>auto simp: drain_inv_def\<close>)

lemma discard_ok:
  assumes "bits_ok a"
  shows "sat (if num_bits a mod 8 \<noteq> 0
       then do { (_, a) \<leftarrow> stbi_zreceive a (nat (num_bits a mod 8)); Some a } else Some a)
     (\<lambda>a'. bits_ok a' \<and> adv a a' \<and> zbuffer a' = zbuffer a \<and> num_bits a' mod 8 = 0)"
proof (cases "num_bits a mod 8 = 0")
  case False
  let ?n = "nat (num_bits a mod 8)"
  have n: "?n \<le> 16" "int ?n \<le> num_bits a" "int ?n = num_bits a mod 8"
    using assms zmod_le_nonneg_dividend [of "num_bits a" 8] by (auto simp: bits_ok_def)
  have "sat (do { (_, a) \<leftarrow> stbi_zreceive a ?n; Some a })
     (\<lambda>a'. bits_ok a' \<and> adv a a' \<and> zbuffer a' = zbuffer a \<and> num_bits a' mod 8 = 0)"
  proof (rule sat_bind [OF zreceive_ok [OF assms n(1)]], clarify)
    fix k z1 assume "int ?n \<le> num_bits a \<longrightarrow> z1 = a"
    then have z1: "z1 = a" using n by simp
    have "(num_bits a - int ?n) mod 8 = 0" unfolding n(3) by (simp add: minus_mod_eq_mult_div)
    then show "sat (Some (consume ?n z1)) (\<lambda>a'. bits_ok a' \<and> adv a a' \<and> zbuffer a' = zbuffer a \<and> num_bits a' mod 8 = 0)"
      using z1 consume_ok [OF assms n(2)] by (simp add: consume_def)
  qed
  with False show ?thesis by simp
qed (use assms in simp)

lemma blit_written:
  assumes "zo + length d \<le> length bl" and "\<forall>i < zo. bl ! i \<noteq> None"
  shows "sat (blit bl zo (map Some d)) (\<lambda>b. length b = length bl \<and> (\<forall>i < zo + length d. b ! i \<noteq> None))"
  using assms by (auto simp: nth_append)

lemma uncompressed_ok:
  assumes b: "bits_ok a" and out: "out_ok a (zout a)"
  shows "esat (stbi_parse_uncompressed_block ok a) (\<lambda>a'. bits_ok a' \<and> inp a a' \<and> out_ok a' (zout a') \<and>
     (code_buffer a = 0 \<longrightarrow> zbuffer a < zbuffer a'))"
  unfolding stbi_parse_uncompressed_block_def
proof (rule esat_bind [OF discard_ok [OF b]], elim conjE, rule esat_bind [OF drain_ok], assumption, assumption, goal_cases)
  case (1 a1 st)
  obtain a2 k h where st: "st = (a2, k, h)" by (cases st)
  have D: "drain_inv a1 (a2, k, h)" "num_bits a2 = 0" "k \<le> 4" using 1(5) st by auto
  show ?case unfolding st prod.case
  proof (rule esat_if, simp, rule esat_bind [OF header_ok [OF D]], goal_cases)
    case (1 x)
    obtain a3 h' where x: "x = (a3, h')" by (cases x)
    have H: "bits_ok a3" "adv a1 a3" "num_bits a3 = 0" "length h' = 4" "\<forall>i < 4. h' ! i \<noteq> None"
      "code_buffer a1 = 0 \<and> zbuffer a3 = zbuffer a1 \<longrightarrow> (\<forall>i < 4. h' ! i = Some 0)" using 1(2) x by auto
    have ad: "adv a a3" by (rule adv_trans [OF \<open>adv a a1\<close> H(2)])
    obtain b0 b1 b2 b3 where hb: "rd h' 0 = Some b0" "rd h' 1 = Some b1" "rd h' 2 = Some b2" "rd h' 3 = Some b3"
      using H(4,5) by (fastforce simp: rd_def)
    let ?len = "unat b1 * 256 + unat b0" and ?nlen = "unat b3 * 256 + unat b2"
    have len: "?len < 65536" using unat_u8_less [of b0] unat_u8_less [of b1] by simp
    have c0: "code_buffer a1 = 0 \<and> zbuffer a1 = zbuffer a" if "code_buffer a = 0"
      using that \<open>adv a a1\<close> \<open>zbuffer a1 = zbuffer a\<close> by (simp add: adv_def fwd_def)
    have strict: "zbuffer a < zbuffer a3" if "code_buffer a = 0" "?nlen = ?len XOR 0xffff"
    proof (rule ccontr)
      assume "\<not> zbuffer a < zbuffer a3"
      then have "zbuffer a3 = zbuffer a1" using ad c0 that(1) by (simp add: adv_def fwd_def)
      then have "b0 = 0" "b1 = 0" "b2 = 0" "b3 = 0" using H(6) c0 that(1) hb by (auto simp: rd_Some_iff)
      with that(2) show False by simp
    qed
    have out3: "out_ok a3 (zout a3)" using out ad by (simp add: adv_out_ok) (simp add: adv_def same_out_def)
    have room: "esat (if length (zblock a3) < zout a3 + ?len then stbi_zexpand ok a3 (zout a3) ?len else ret a3)
       (\<lambda>a4. \<exists>bl. a4 = a3\<lparr>zblock := bl\<rparr> \<and> zout a3 + ?len \<le> length bl \<and> length bl < 2 ^ 32 \<and>
          length (zblock a3) \<le> length bl \<and> (\<forall>i < zout a3. bl ! i = zblock a3 ! i))"
    proof (rule esat_if)
      show "esat (stbi_zexpand ok a3 (zout a3) ?len) (\<lambda>a4. \<exists>bl. a4 = a3\<lparr>zblock := bl\<rparr> \<and>
          zout a3 + ?len \<le> length bl \<and> length bl < 2 ^ 32 \<and> length (zblock a3) \<le> length bl \<and> (\<forall>i < zout a3. bl ! i = zblock a3 ! i))"
        by (rule esat_mono [OF zexpand_ok [OF out3]]) (use len in auto)
    qed (use out3 in \<open>auto simp: out_ok_def intro!: exI [of _ "zblock a3"]\<close>)
    show ?case unfolding x prod.case
    proof (simp only: hb Option.bind.simps Let_def, rule esat_if, simp, rule esat_if, simp,
        rule esat_ebind [OF room], elim exE conjE, goal_cases)
      case (1 a4 bl)
      let ?d = "take ?len (drop (zbuffer a3) (zin a3))"
      have a4: "a4 = a3\<lparr>zblock := bl\<rparr>" by (rule 1)
      have ld: "length ?d = ?len" and sl: "slice (zin a4) (zbuffer a4) ?len = Some ?d"
        using 1 H(1) by (auto simp: bits_ok_def)
      have init: "\<forall>i < zout a3. bl ! i \<noteq> None" using out3 1 by (auto simp: out_ok_def)
      have wr: "sat (blit bl (zout a3) (map Some ?d)) (\<lambda>b. length b = length bl \<and> (\<forall>i < zout a3 + ?len. b ! i \<noteq> None))"
        using blit_written [OF _ init, of ?d] 1 ld by simp
      have i3: "zbuffer a \<le> zbuffer a3" "inp a a3" using ad adv_inp by (auto simp: adv_def fwd_def)
      have st: "zbuffer a < zbuffer a3" if "code_buffer a = 0" using strict that 1 by simp
      have exp: "z_expandable a3 \<longrightarrow> bl \<noteq> []" using out3 1 by (auto simp: out_ok_def)
      have fin: "bits_ok (a3\<lparr>zblock := blk, zbuffer := zbuffer a3 + ?len, zout := zout a3 + ?len\<rparr>)"
        "inp a (a3\<lparr>zblock := blk, zbuffer := zbuffer a3 + ?len, zout := zout a3 + ?len\<rparr>)" for blk
        using 1 H(1) i3 by (auto simp: bits_ok_def inp_def fwd_def)
      have eq: "zblock a4 = bl" "zout a4 = zout a3" "zbuffer a4 = zbuffer a3" by (simp_all add: a4)
      have sl': "slice (zin a4) (zbuffer a3) ?len = Some ?d" using sl eq(3) by simp
      show ?case unfolding eq sl' Option.bind.simps
      proof (rule esat_bind [OF wr], elim conjE)
        fix blk :: "byte option list"
        assume blk: "length blk = length bl" "\<forall>i < zout a3 + ?len. blk ! i \<noteq> None"
        let ?a = "a3\<lparr>zblock := blk, zbuffer := zbuffer a3 + ?len, zout := zout a3 + ?len\<rparr>"
        have "out_ok ?a (zout ?a)" using blk 1 exp by (auto simp: out_ok_def)
        then show "esat (ret (a4\<lparr>zblock := blk, zbuffer := zbuffer a3 + ?len, zout := zout a3 + ?len\<rparr>)) (\<lambda>a'. bits_ok a' \<and> inp a a' \<and> out_ok a' (zout a') \<and>
            (code_buffer a = 0 \<longrightarrow> zbuffer a < zbuffer a'))"
          using fin [of blk] st by (auto simp: a4)
      qed
    qed
  qed
qed

subsection \<open>The block loop and the entry points\<close>

text \<open>The header of a block: the position moves, or a bit of a non-zero buffer is used up, or the
  buffer is all zero and the block is a stored one.\<close>

lemma zreceive_progress:
  assumes b: "bits_ok a" and n: "1 \<le> n" "n \<le> 16"
  shows "sat (stbi_zreceive a n) (\<lambda>(k, a'). bits_ok a' \<and> adv a a' \<and>
     (zbuffer a' = zbuffer a \<longrightarrow> code_buffer a' < code_buffer a \<or> code_buffer a = 0 \<and> k = 0))"
proof (rule sat_mono [OF zreceive_ok [OF b n(2)]], clarify)
  fix k z1 assume z1: "bits_ok z1" "adv a z1" "int n \<le> num_bits z1"
    and k: "unat k = unat (code_buffer z1) mod 2 ^ n"
  have "code_buffer (consume n z1) < code_buffer z1 \<or> code_buffer z1 = 0"
  proof (cases "code_buffer z1 = 0")
    case False
    then have "unat (code_buffer z1) div 2 ^ n < unat (code_buffer z1)"
      using n one_less_power [of "2 :: nat" n] by (intro div_less_dividend) (auto simp: unat_gt_0)
    then show ?thesis by (simp add: consume_def word_less_nat_alt unat_drop_bit)
  qed simp
  moreover have "k = 0" if "code_buffer z1 = 0" using k that by (simp add: unat_eq_zero)
  ultimately show "bits_ok (consume n z1) \<and> adv a (consume n z1) \<and> (zbuffer (consume n z1) = zbuffer a \<longrightarrow>
      code_buffer (consume n z1) < code_buffer a \<or> code_buffer a = 0 \<and> k = 0)"
    using consume_ok [OF z1(1,3)] adv_trans [OF z1(2)] z1(2)
    by (auto simp: consume_def adv_def fwd_def word_gt_0)
qed

definition zmeasure :: "zbuf \<Rightarrow> nat" where
  "zmeasure a = (zbuffer_end a - zbuffer a) * 2 ^ 32 + unat (code_buffer a)"

lemma zmeasure_less:
  assumes "zbuffer_end b = zbuffer_end a" and "zbuffer b \<le> zbuffer_end b"
    and "zbuffer a < zbuffer b \<or> zbuffer b = zbuffer a \<and> code_buffer b < code_buffer a"
  shows "zmeasure b < zmeasure a"
proof (cases "zbuffer a < zbuffer b")
  case True
  then have "zbuffer_end b - zbuffer b + 1 \<le> zbuffer_end a - zbuffer a" using assms(1,2) by linarith
  then show ?thesis using unat_u32_less [of "code_buffer b"] by (simp add: zmeasure_def)
next
  case False
  then show ?thesis using assms by (simp add: zmeasure_def word_less_nat_alt)
qed


definition progress :: "zbuf \<Rightarrow> zbuf \<Rightarrow> bool" where
  "progress a b \<longleftrightarrow> zbuffer a < zbuffer b \<or> zbuffer b = zbuffer a \<and> code_buffer b < code_buffer a"

lemma fwd_progress: "progress a b \<Longrightarrow> fwd b c \<Longrightarrow> progress a c" "fwd a b \<Longrightarrow> progress b c \<Longrightarrow> progress a c"
  unfolding progress_def fwd_def by force+

text \<open>What a block leaves: the input side has moved forward, the tables keep their shape and the
  output is written up to its position.\<close>

definition zstep :: "zbuf \<Rightarrow> zbuf \<Rightarrow> bool" where
  "zstep a b \<longleftrightarrow> bits_ok b \<and> shapes_ok b \<and> out_ok b (zout b) \<and> zin b = zin a \<and> zbuffer_end b = zbuffer_end a \<and>
     z_expandable b = z_expandable a \<and> fwd a b"

lemma zstep_trans: "zstep a b \<Longrightarrow> zstep b c \<Longrightarrow> zstep a c"
  unfolding zstep_def using fwd_trans by metis

lemma zstep_adv:
  assumes "adv a b" and "bits_ok b" and "zstep a a"
  shows "zstep a b"
  using assms adv_shapes adv_out_ok unfolding zstep_def adv_def same_out_def by metis

lemma zstep_inp:
  assumes "inp a b" and "bits_ok b" and "shapes_ok a" and "out_ok b (zout b)"
  shows "zstep a b"
  using assms by (simp add: zstep_def inp_def shapes_ok_def)

text \<open>The tables of RFC 1951 for blocks with fixed codes are complete codes.\<close>

definition fixed_tables :: "zbuf \<Rightarrow> zbuf res" where
  "fixed_tables a =
     ebind (stbi_zbuild_huffman (z_length a) stbi_zdefault_length 288) (\<lambda>zl.
     ebind (stbi_zbuild_huffman (z_distance a) stbi_zdefault_distance 32) (\<lambda>zd.
       ret (a\<lparr>z_length := zl, z_distance := zd\<rparr>)))"

lemma same_but_tables_step:
  assumes "same_but_tables a b" and "bits_ok b" and "tables_ok b" and "out_ok a (zout a)"
  shows "zstep a b"
  using assms tables_shapes [OF assms(3)] by (simp add: zstep_def same_but_tables_def out_ok_def)

lemma fixed_tables_ok:
  assumes b: "bits_ok a" and sh: "shapes_ok a"
  shows "esat (fixed_tables a) (\<lambda>a'. bits_ok a' \<and> same_but_tables a a' \<and> tables_ok a')"
proof -
  let ?L = "replicate 144 8 @ replicate 112 9 @ replicate 24 7 @ replicate 8 8 :: nat list"
  let ?D = "replicate 32 5 :: nat list"
  have h: "holds stbi_zdefault_length ?L" "holds stbi_zdefault_distance ?D"
    unfolding stbi_zdefault_length_def stbi_zdefault_distance_def by (rule holds_map_Some)+
  have L: "esat (stbi_zbuild_huffman (z_length a) stbi_zdefault_length 288) (tables_for ?L)"
    using zbuild_esat [OF _ h(1)] sh by (auto simp: shapes_ok_def)
  have D: "esat (stbi_zbuild_huffman (z_distance a) stbi_zdefault_distance 32) (tables_for ?D)"
    using zbuild_esat [OF _ h(2)] sh by (auto simp: shapes_ok_def)
  show ?thesis unfolding fixed_tables_def
    by (rule esat_ebind [OF L], rule esat_ebind [OF D])
      (use b in \<open>auto simp: bits_ok_def tables_ok_def same_but_tables_def fwd_def\<close>)
qed

lemma compressed_ok:
  assumes a: "zstep a a"
  shows "esat (ebind (if type = 1 then fixed_tables a else stbi_compute_huffman_codes a) (stbi_parse_huffman_block ok)) (zstep a)"
proof -
  have a': "bits_ok a" "shapes_ok a" "out_ok a (zout a)" using a by (auto simp: zstep_def)
  have t: "esat (if type = 1 then fixed_tables a else stbi_compute_huffman_codes a)
      (\<lambda>a'. bits_ok a' \<and> same_but_tables a a' \<and> tables_ok a')"
    using fixed_tables_ok [OF a'(1,2)] compute_huffman_codes_ok [OF a'(1,2)] by simp
  show ?thesis
  proof (rule esat_ebind [OF t], elim conjE)
    fix b assume b: "bits_ok b" "same_but_tables a b" "tables_ok b"
    note z = same_but_tables_step [OF b(2,1,3) a'(3)]
    have "out_ok b (zout b)" using z by (simp add: zstep_def)
    from parse_huffman_block_ok [OF b(1) this b(3)]
    show "esat (stbi_parse_huffman_block ok b) (zstep a)"
    proof (rule esat_mono, elim conjE)
      fix c assume "bits_ok c" "inp b c" "out_ok c (zout c)"
      then have "zstep b c" using zstep_inp tables_shapes [OF b(3)] by blast
      with z show "zstep a c" by (rule zstep_trans)
    qed
  qed
qed

lemma block_body_ok:
  assumes a: "zstep a a"
  shows "esat (if type = 0 then stbi_parse_uncompressed_block ok a else if type = 3 then stbi_err r
       else ebind (if type = 1 then fixed_tables a else stbi_compute_huffman_codes a) (stbi_parse_huffman_block ok))
     (\<lambda>b. zstep a b \<and> (type = 0 \<and> code_buffer a = 0 \<longrightarrow> progress a b))"
proof (rule esat_if, goal_cases)
  case 1
  have a': "bits_ok a" "shapes_ok a" "out_ok a (zout a)" using a by (auto simp: zstep_def)
  show ?case
    by (rule esat_mono [OF uncompressed_ok [OF a'(1,3)]]) (use zstep_inp a' in \<open>auto simp: progress_def\<close>)
next
  case 2
  then show ?case using compressed_ok [OF a, of type ok] by (auto elim: esat_mono)
qed

lemma block_step_ok:
  assumes a: "zstep a a"
  shows "sat (block_step ok a) (\<lambda>r. case r of Inl (Inl e) \<Rightarrow> True | Inl (Inr b) \<Rightarrow> zstep a b
     | Inr b \<Rightarrow> zstep a b \<and> progress a b)"
  unfolding block_step_def fixed_tables_def [symmetric]
proof (rule sat_bind [OF zreceive_progress [of a 1]], goal_cases)
  case (4 x)
  then obtain final a1 where x: "x = (final, a1)" "bits_ok a1" "adv a a1"
    "zbuffer a1 = zbuffer a \<longrightarrow> code_buffer a1 < code_buffer a \<or> code_buffer a = 0" by (cases x) auto
  show ?case unfolding x(1) prod.case
  proof (rule sat_bind [OF zreceive_progress [of a1 2]], goal_cases)
    case (4 y)
    then obtain type a2 where y: "y = (type, a2)" "bits_ok a2" "adv a1 a2"
      "zbuffer a2 = zbuffer a1 \<longrightarrow> code_buffer a2 < code_buffer a1 \<or> code_buffer a1 = 0 \<and> type = 0" by (cases y) auto
    have z2: "zstep a a2" by (rule zstep_adv [OF adv_trans [OF x(3) y(3)] y(2) a])
    then have z22: "zstep a2 a2" by (simp add: zstep_def fwd_def)
    have prog: "progress a b" if "zstep a2 b" "type = 0 \<and> code_buffer a2 = 0 \<longrightarrow> progress a2 b" for b
    proof (cases "progress a a2")
      case True
      then show ?thesis using that(1) by (auto simp: zstep_def intro: fwd_progress)
    next
      case False
      have f: "fwd a a1" "fwd a1 a2" using x(3) y(3) by (simp_all add: adv_def)
      have "zbuffer a2 = zbuffer a" using False f by (simp add: progress_def fwd_def)
      then have e: "zbuffer a1 = zbuffer a" "zbuffer a2 = zbuffer a1" using f by (simp_all add: fwd_def)
      then have "code_buffer a = 0" using False x(4) f by (auto simp: progress_def fwd_def)
      then have "code_buffer a1 = 0" using f(1) e by (simp add: fwd_def)
      then have "type = 0 \<and> code_buffer a2 = 0" using y(4) e f(2) by (auto simp: fwd_def)
      then show ?thesis using that(2) fwd_progress(2) z2 by (auto simp: zstep_def)
    qed
    show ?case unfolding y(1) prod.case
      by (rule sat_bind [OF block_body_ok [OF z22, unfolded esat_sat]])
        (use zstep_trans [OF z2] prog in \<open>auto split: sum.splits\<close>)
  qed (use x(2) in simp_all)
qed (use a in \<open>simp_all add: zstep_def\<close>)

lemma block_loop_ok:
  assumes a: "zstep a a"
  shows "esat (loop (block_step ok) a) (zstep a)"
  unfolding esat_sat
proof (rule sat_loop [where I = "zstep a" and measure_of = zmeasure])
  fix s assume s: "zstep a s"
  then have ss: "zstep s s" by (simp add: zstep_def fwd_def)
  have less: "zmeasure b < zmeasure s" if "zstep s b" "progress s b" for b
    using that zmeasure_less [of b s] by (auto simp: zstep_def progress_def bits_ok_def)
  show "sat (block_step ok s) (\<lambda>r. case r of Inl x \<Rightarrow> (case x of Inl e \<Rightarrow> True | Inr b \<Rightarrow> zstep a b)
     | Inr s' \<Rightarrow> zstep a s' \<and> zmeasure s' < zmeasure s)"
    by (rule sat_mono [OF block_step_ok [OF ss]])
      (use zstep_trans [OF s] less in \<open>auto split: sum.splits\<close>)
qed (rule a)

lemma zlib_header_ok:
  assumes "bits_ok a"
  shows "esat (stbi_parse_zlib_header a) (\<lambda>b. \<exists>p. b = a\<lparr>zbuffer := p\<rparr> \<and> zbuffer a \<le> p \<and> p \<le> zbuffer_end a)"
proof -
  have z: "sat (stbi_zget8 x) (\<lambda>(v, b). \<exists>p. b = x\<lparr>zbuffer := p\<rparr> \<and> zbuffer x \<le> p \<and> p \<le> zbuffer_end x)"
    if "zbuffer x \<le> zbuffer_end x" "zbuffer_end x \<le> length (zin x)" for x
    by (rule sat_mono [OF zget8_ok [OF that]])
      (use that in \<open>cases "stbi_zeof x"; auto intro: exI [of _ "zbuffer x"] exI [of _ "zbuffer x + 1"]\<close>)
  show ?thesis unfolding stbi_parse_zlib_header_def
  proof (rule esat_bind [OF z], goal_cases)
    case (3 x)
    then obtain v p where x: "x = (v, a\<lparr>zbuffer := p\<rparr>)" "zbuffer a \<le> p" "p \<le> zbuffer_end a" by (cases x) auto
    show ?case unfolding x(1) prod.case
    proof (rule esat_bind [OF z], goal_cases)
      case (3 y)
      then obtain w q where y: "y = (w, a\<lparr>zbuffer := q\<rparr>)" "p \<le> q" "q \<le> zbuffer_end a" by (cases y) auto
      show ?case unfolding y(1) prod.case
        by (intro esat_if esat_simps(1)) (use x y in \<open>auto intro!: exI [of _ q]\<close>)
    qed (use assms x in \<open>simp_all add: bits_ok_def\<close>)
  qed (use assms in \<open>simp_all add: bits_ok_def\<close>)
qed

lemma do_zlib_ok:
  assumes "length obuf < 2 ^ 32" and "exp \<longrightarrow> obuf \<noteq> []"
  shows "esat (stbi_do_zlib ok (zbuf_on data) obuf exp parse_header)
     (\<lambda>a. out_ok a (zout a) \<and> bits_ok a)"
proof -
  let ?a = "(zbuf_on data)\<lparr>zblock := obuf, zout := 0, z_expandable := exp\<rparr>"
  have h: "esat (if parse_header then stbi_parse_zlib_header ?a else ret ?a)
     (\<lambda>b. \<exists>p. b = ?a\<lparr>zbuffer := p\<rparr> \<and> p \<le> length data)"
    using zlib_header_ok [of ?a] by (auto simp: zbuf_on_def bits_ok_def elim!: esat_mono intro: exI [of _ 0])
  have "esat (stbi_parse_zlib ok ?a parse_header) (\<lambda>a. out_ok a (zout a) \<and> bits_ok a)"
    unfolding stbi_parse_zlib_def
  proof (rule esat_ebind [OF h], elim exE conjE)
    fix b p assume b: "b = ?a\<lparr>zbuffer := p\<rparr>" "p \<le> length data"
    let ?b = "b\<lparr>num_bits := 0, code_buffer := 0, hit_zeof_once := False\<rparr>"
    have "zstep ?b ?b" using b assms
      by (auto simp: zstep_def zbuf_on_def bits_ok_def shapes_ok_def out_ok_def fwd_def zshape_fresh)
    then show "esat (loop (block_step ok) ?b) (\<lambda>a. out_ok a (zout a) \<and> bits_ok a)"
      by (rule esat_mono [OF block_loop_ok]) (simp add: zstep_def)
  qed
  then show ?thesis by (simp add: stbi_do_zlib_def)
qed


text \<open>C3: Decompressing a zlib or raw DEFLATE stream is safe on every input, corrupt or truncated
  ones included, whatever the allocator does. Started on a non-empty block of less than 4 GB
  the decoder always returns, without undefined behaviour (no access outside the input, the
  output block or the tables, no read of memory that was not written, no shift out of range); on
  success the reported number of bytes lies within the returned block, all of them have been
  written, and the block has less than 4 GB. The same holds for the entry points that decode
  into a buffer of the caller, which are given a buffer of less than 4 GB.\<close>

theorem zlib_decode_safe:
  assumes "0 < initial_size" and "initial_size < 2 ^ 32" and "length obuffer < 2 ^ 32"
  shows "(case stbi_zlib_decode_malloc_guesssize_headerflag ok buffer initial_size parse_header of
      None \<Rightarrow> False | Some (Inl reason) \<Rightarrow> True
    | Some (Inr (blk, n)) \<Rightarrow> n \<le> length blk \<and> length blk < 2 ^ 32 \<and> (\<forall>i < n. blk ! i \<noteq> None)) \<and>
    (case stbi_zlib_decode_buffer obuffer buffer of
      None \<Rightarrow> False | Some None \<Rightarrow> True
    | Some (Some (blk, n)) \<Rightarrow> n \<le> length blk \<and> (\<forall>i < n. blk ! i \<noteq> None)) \<and>
    (case stbi_zlib_decode_noheader_buffer obuffer buffer of
      None \<Rightarrow> False | Some None \<Rightarrow> True
    | Some (Some (blk, n)) \<Rightarrow> n \<le> length blk \<and> (\<forall>i < n. blk ! i \<noteq> None))"
proof (intro conjI)
  have grow: "sat (stbi_do_zlib ok (zbuf_on buffer) (replicate initial_size None) True parse_header)
     (\<lambda>r. case r of Inl e \<Rightarrow> True | Inr a \<Rightarrow> out_ok a (zout a) \<and> bits_ok a)"
    using do_zlib_ok [of "replicate initial_size None" True ok buffer parse_header] assms
    by (simp add: esat_sat)
  then show "case stbi_zlib_decode_malloc_guesssize_headerflag ok buffer initial_size parse_header of
      None \<Rightarrow> False | Some (Inl reason) \<Rightarrow> True
    | Some (Inr (blk, n)) \<Rightarrow> n \<le> length blk \<and> length blk < 2 ^ 32 \<and> (\<forall>i < n. blk ! i \<noteq> None)"
    by (auto simp: stbi_zlib_decode_malloc_guesssize_headerflag_def stbi_malloc_def stbi_err_def ret_def
        ebind_def out_ok_def elim!: satE split: sum.splits)
  have fixed: "sat (stbi_do_zlib (\<lambda>_. False) (zbuf_on buffer) obuffer False h)
     (\<lambda>r. case r of Inl e \<Rightarrow> True | Inr a \<Rightarrow> out_ok a (zout a) \<and> bits_ok a)" for h
    using do_zlib_ok [of obuffer False "\<lambda>_. False" buffer h] assms(3) by (simp add: esat_sat)
  show "case stbi_zlib_decode_buffer obuffer buffer of None \<Rightarrow> False | Some None \<Rightarrow> True
    | Some (Some (blk, n)) \<Rightarrow> n \<le> length blk \<and> (\<forall>i < n. blk ! i \<noteq> None)"
    using fixed [of True] by (auto simp: stbi_zlib_decode_buffer_def out_ok_def elim!: satE split: sum.splits)
  show "case stbi_zlib_decode_noheader_buffer obuffer buffer of None \<Rightarrow> False | Some None \<Rightarrow> True
    | Some (Some (blk, n)) \<Rightarrow> n \<le> length blk \<and> (\<forall>i < n. blk ! i \<noteq> None)"
    using fixed [of False] by (auto simp: stbi_zlib_decode_noheader_buffer_def out_ok_def elim!: satE split: sum.splits)
qed

theorem zlib_decode_safe_witness:
  "(case stbi_zlib_decode_malloc_guesssize_headerflag (\<lambda>n. n < 1000) [0x78, 0x9c, 0x4b, 0x4c, 0x04] 16 True of
      None \<Rightarrow> False | Some (Inl reason) \<Rightarrow> True
    | Some (Inr (blk, n)) \<Rightarrow> n \<le> length blk \<and> length blk < 2 ^ 32 \<and> (\<forall>i < n. blk ! i \<noteq> None))"
  using zlib_decode_safe [of 16 "replicate 8 None" "\<lambda>n. n < 1000" "[0x78, 0x9c, 0x4b, 0x4c, 0x04]" True]
  by (simp add: length_replicate)

text \<open>A loop whose body returns its own state never ends.\<close>

lemma loop_stuck:
  assumes "body s = Some (Inr s)"
  shows "loop body s = None"
proof (rule ccontr)
  assume "loop body s \<noteq> None"
  then obtain y where "loop body s = Some y" by blast
  then have "body s \<noteq> Some (Inr s)"
    by (rule loop.raw_induct [where P = "\<lambda>body s y. body s \<noteq> Some (Inr s)", rotated]) auto
  with assms show False by simp
qed

text \<open>C33: The precondition of the decoder is needed: growing an expandable output block of size 0
  doubles 0 for ever. A stream with any output, decoded with an initial size of 0, makes the
  decoder hang as soon as it has a byte to write (the library's own callers pass a size
  computed from the image, or 16384).\<close>

theorem zexpand_empty_hangs:
  assumes "z_expandable a" and "zblock a = []" and "zo + n < 2 ^ 32" and "0 < zo + n"
  shows "stbi_zexpand ok a zo n = None"
proof -
  let ?cur = "word_of_nat zo :: u32" and ?n = "word_of_nat n :: u32"
  have u: "unat ?cur = zo" "unat ?n = n" using assms(3) by (simp_all add: unat_u32_of_nat)
  have "unat (?cur + ?n) = zo + n" using u assms(3) by (simp add: unat_word_ariths)
  then have "expand_step ?cur ?n 0 = Some (Inr 0)"
    using assms(4) by (simp add: expand_step_def word_less_nat_alt)
  then have "loop (expand_step ?cur ?n) 0 = None" by (rule loop_stuck)
  moreover have "\<not> 0xFFFFFFFF - ?cur < ?n"
    using u assms(3) by (simp add: word_less_nat_alt unat_sub word_le_nat_alt)
  ultimately show ?thesis using assms(1,2) by (simp add: stbi_zexpand_def Let_def)
qed

theorem zexpand_empty_hangs_witness:
  "stbi_zexpand (\<lambda>_. True) ((zbuf_on [0x4b])\<lparr>z_expandable := True\<rparr>) 0 1 = None"
  by (rule zexpand_empty_hangs) (simp_all add: zbuf_on_def)

end
