(* ===== verification/Png_File.thy ===== *)
theory Png_File
  imports Png_Image Zlib_Blocks
begin

text \<open>
  The PNG reader of src/user/facet/gpu/stb_image.h (lines 4606 to 4628 and 5076 to 5340): the
  signature, the chunk loop with a handler per chunk type, and the entry points.

  The decoder's record and the local variables of \<^verbatim>\<open>stbi__parse_png_file\<close> are one record. The
  local array \<^verbatim>\<open>palette\<close> is not initialised by the code; its contents on entry are the parameter
  \<open>stack\<close>, so that a result that depends on them is visible as such.
\<close>

subsection \<open>Signature and chunk headers\<close>

record pngchunk =
  chunk_length :: u32
  chunk_type :: u32

definition stbi_get_chunk_header :: "'u stbi_context \<Rightarrow> (pngchunk \<times> 'u stbi_context) option" where
  "stbi_get_chunk_header s = do {
     (l, s) \<leftarrow> stbi_get32be s;
     (t, s) \<leftarrow> stbi_get32be s;
     Some (\<lparr>chunk_length = l, chunk_type = t\<rparr>, s) }"

definition png_sig :: bytes where
  "png_sig = [137, 80, 78, 71, 13, 10, 26, 10]"

text \<open>The loop stops at the first byte that differs; the second component tells whether none did.\<close>

fun match_bytes :: "bytes \<Rightarrow> 'u stbi_context \<Rightarrow> (bool \<times> 'u stbi_context) option" where
  "match_bytes [] s = Some (True, s)"
| "match_bytes (b # bs) s = do {
     (v, s) \<leftarrow> stbi_get8 s;
     if v \<noteq> b then Some (False, s) else match_bytes bs s }"

definition stbi_check_png_header :: "'u stbi_context \<Rightarrow> (bool \<times> 'u stbi_context) option" where
  "stbi_check_png_header s = match_bytes png_sig s"

definition STBI_PNG_TYPE :: "char \<Rightarrow> char \<Rightarrow> char \<Rightarrow> char \<Rightarrow> u32" where
  "STBI_PNG_TYPE a b c d = push_bit 24 (of_char a) + push_bit 16 (of_char b) + push_bit 8 (of_char c) + of_char d"

definition type_CgBI :: u32 where "type_CgBI = STBI_PNG_TYPE (CHR ''C'') (CHR ''g'') (CHR ''B'') (CHR ''I'')"
definition type_IHDR :: u32 where "type_IHDR = STBI_PNG_TYPE (CHR ''I'') (CHR ''H'') (CHR ''D'') (CHR ''R'')"
definition type_PLTE :: u32 where "type_PLTE = STBI_PNG_TYPE (CHR ''P'') (CHR ''L'') (CHR ''T'') (CHR ''E'')"
definition type_tRNS :: u32 where "type_tRNS = STBI_PNG_TYPE (CHR ''t'') (CHR ''R'') (CHR ''N'') (CHR ''S'')"
definition type_IDAT :: u32 where "type_IDAT = STBI_PNG_TYPE (CHR ''I'') (CHR ''D'') (CHR ''A'') (CHR ''T'')"
definition type_IEND :: u32 where "type_IEND = STBI_PNG_TYPE (CHR ''I'') (CHR ''E'') (CHR ''N'') (CHR ''D'')"

subsection \<open>State\<close>

datatype scan_mode = SCAN_load | SCAN_type | SCAN_header

record 'u png =
  pg_s :: "'u stbi_context"
  pg_idata :: "byte option list option"
  pg_out :: "byte option list option"
  pg_depth :: int
  palette :: "byte list"
  pal_img_n :: int
  has_trans :: bool
  tc :: "byte list"
  tc16 :: "u16 option list"
  ioff :: u32
  idata_limit :: u32
  pal_len :: u32
  pg_first :: bool
  pg_interlace :: int
  pg_color :: int
  is_iphone :: bool

definition png_init :: "byte list \<Rightarrow> 'u stbi_context \<Rightarrow> 'u png" where
  "png_init stack s = \<lparr>pg_s = s, pg_idata = None, pg_out = None, pg_depth = 0, palette = stack, pal_img_n = 0,
     has_trans = False, tc = [0, 0, 0], tc16 = [None, None, None], ioff = 0, idata_limit = 0, pal_len = 0,
     pg_first = True, pg_interlace = 0, pg_color = 0, is_iphone = False\<rparr>"

text \<open>A handler answers \<open>Inl z\<close> when the parser returns 1 in it and \<open>Inr z\<close> when the next chunk
  follows.\<close>

type_synonym 'u chunk_result = "('u png + 'u png) res"

definition get8_int :: "'u stbi_context \<Rightarrow> (int \<times> 'u stbi_context) option" where
  "get8_int s = do { (b, s) \<leftarrow> stbi_get8 s; Some (uint b, s) }"

subsection \<open>IHDR\<close>

text \<open>The number of channels, and the test for images that are too large.\<close>

definition ihdr_channels :: "int \<Rightarrow> int \<Rightarrow> 'u stbi_context \<Rightarrow> 'u stbi_context res" where
  "ihdr_channels pal color s =
     (if pal = 0 then
        let n = (if color AND 2 \<noteq> 0 then 3 else 1) + (if color AND 4 \<noteq> 0 then 1 else 0); s = s\<lparr>img_n := n\<rparr> in
        if push_bit 30 1 div img_x s div word_of_int n < img_y s then stbi_err ''too large'' else ret s
      else
        let s = s\<lparr>img_n := 1\<rparr> in
        if push_bit 30 1 div img_x s div 4 < img_y s then stbi_err ''too large'' else ret s)"

definition png_chunk_IHDR :: "pngchunk \<Rightarrow> 'u png \<Rightarrow> 'u chunk_result" where
  "png_chunk_IHDR c z =
     (if \<not> pg_first z then stbi_err ''multiple IHDR''
      else if chunk_length c \<noteq> 13 then stbi_err ''bad IHDR len''
      else do {
        (x, s) \<leftarrow> stbi_get32be (pg_s z);
        (y, s) \<leftarrow> stbi_get32be s;
        let s = s\<lparr>img_x := x, img_y := y\<rparr>;
        if y > STBI_MAX_DIMENSIONS then stbi_err ''too large''
        else if x > STBI_MAX_DIMENSIONS then stbi_err ''too large''
        else do {
          (depth, s) \<leftarrow> get8_int s;
          if depth \<noteq> 1 \<and> depth \<noteq> 2 \<and> depth \<noteq> 4 \<and> depth \<noteq> 8 \<and> depth \<noteq> 16 then stbi_err ''1/2/4/8/16-bit only''
          else do {
            (color, s) \<leftarrow> get8_int s;
            if color > 6 then stbi_err ''bad ctype''
            else if color = 3 \<and> depth = 16 then stbi_err ''bad ctype''
            else if color \<noteq> 3 \<and> color AND 1 \<noteq> 0 then stbi_err ''bad ctype''
            else do {
              let pal = (if color = 3 then 3 else pal_img_n z);
              (comp, s) \<leftarrow> get8_int s;
              if comp \<noteq> 0 then stbi_err ''bad comp method''
              else do {
                (flt, s) \<leftarrow> get8_int s;
                if flt \<noteq> 0 then stbi_err ''bad filter method''
                else do {
                  (interlace, s) \<leftarrow> get8_int s;
                  if interlace > 1 then stbi_err ''bad interlace method''
                  else if x = 0 \<or> y = 0 then stbi_err ''0-pixel image''
                  else ebind (ihdr_channels pal color s) (\<lambda>s.
                    ret (Inr (z\<lparr>pg_s := s, pg_first := False, pg_depth := depth, pg_color := color,
                      pal_img_n := pal, pg_interlace := interlace\<rparr>))) } } } } } })"

subsection \<open>PLTE and tRNS\<close>

definition png_chunk_PLTE :: "pngchunk \<Rightarrow> 'u png \<Rightarrow> 'u chunk_result" where
  "png_chunk_PLTE c z =
     (if pg_first z then stbi_err ''first not IHDR''
      else if chunk_length c > 256 * 3 then stbi_err ''invalid PLTE''
      else let n = chunk_length c div 3 in
      if n * 3 \<noteq> chunk_length c then stbi_err ''invalid PLTE''
      else do {
        (p, s) \<leftarrow> for_upto 0 (unat n) (\<lambda>i (p, s). do {
          (v, s) \<leftarrow> stbi_get8 s; p \<leftarrow> aset p (i * 4) v;
          (v, s) \<leftarrow> stbi_get8 s; p \<leftarrow> aset p (i * 4 + 1) v;
          (v, s) \<leftarrow> stbi_get8 s; p \<leftarrow> aset p (i * 4 + 2) v;
          p \<leftarrow> aset p (i * 4 + 3) 255;
          Some (p, s) }) (palette z, pg_s z);
        ret (Inr (z\<lparr>pg_s := s, palette := p, pal_len := n\<rparr>)) })"

text \<open>The alpha values of the palette, and the transparent colour of an image without one.\<close>

definition trns_palette :: "pngchunk \<Rightarrow> 'u png \<Rightarrow> 'u chunk_result" where
  "trns_palette c z = do {
     (p, s) \<leftarrow> for_upto 0 (unat (chunk_length c)) (\<lambda>i (p, s). do {
       (v, s) \<leftarrow> stbi_get8 s; p \<leftarrow> aset p (i * 4 + 3) v; Some (p, s) }) (palette z, pg_s z);
     ret (Inr (z\<lparr>pg_s := s, palette := p, pal_img_n := 4\<rparr>)) }"

definition trns_colour :: "'u png \<Rightarrow> 'u chunk_result" where
  "trns_colour z =
     (let n = nat (min (img_n (pg_s z)) 3) in
      if pg_depth z = 16 then do {
        (t, s) \<leftarrow> for_upto 0 n (\<lambda>k (t, s). do {
          (v, s) \<leftarrow> stbi_get16be s; t \<leftarrow> wr t k (word_of_int v); Some (t, s) }) (tc16 z, pg_s z);
        ret (Inr (z\<lparr>pg_s := s, tc16 := t\<rparr>)) }
      else do {
        (t, s) \<leftarrow> for_upto 0 n (\<lambda>k (t, s). do {
          (v, s) \<leftarrow> stbi_get16be s;
          sc \<leftarrow> iget stbi_depth_scale_table (pg_depth z);
          t \<leftarrow> aset t k (word_of_int v * sc); Some (t, s) }) (tc z, pg_s z);
        ret (Inr (z\<lparr>pg_s := s, tc := t\<rparr>)) })"

definition png_chunk_tRNS :: "scan_mode \<Rightarrow> pngchunk \<Rightarrow> 'u png \<Rightarrow> 'u chunk_result" where
  "png_chunk_tRNS scan c z =
     (if pg_first z then stbi_err ''first not IHDR''
      else if pg_idata z \<noteq> None then stbi_err ''tRNS after IDAT''
      else if pal_img_n z \<noteq> 0 then
        if scan = SCAN_header then ret (Inl (z\<lparr>pg_s := (pg_s z)\<lparr>img_n := 4\<rparr>\<rparr>))
        else if pal_len z = 0 then stbi_err ''tRNS before PLTE''
        else if chunk_length c > pal_len z then stbi_err ''bad tRNS len''
        else trns_palette c z
      else
        if img_n (pg_s z) AND 1 = 0 then stbi_err ''tRNS with alpha''
        else if chunk_length c \<noteq> word_of_int (img_n (pg_s z)) * 2 then stbi_err ''bad tRNS len''
        else let z = z\<lparr>has_trans := True\<rparr> in
          if scan = SCAN_header then ret (Inl (z\<lparr>pg_s := (pg_s z)\<lparr>img_n := img_n (pg_s z) + 1\<rparr>\<rparr>))
          else trns_colour z)"

subsection \<open>IDAT\<close>

definition idata_step :: "u32 \<Rightarrow> u32 \<Rightarrow> (u32 + u32) option" where
  "idata_step need limit = Some (if need > limit then Inr (limit * 2) else Inl limit)"

definition grow_idata :: "allocator \<Rightarrow> u32 \<Rightarrow> 'u png \<Rightarrow> 'u png res" where
  "grow_idata ok len z =
     (if ioff z + len > idata_limit z then do {
        let limit = (if idata_limit z = 0 then (if len > 4096 then len else 4096) else idata_limit z);
        limit \<leftarrow> loop (idata_step (ioff z + len)) limit;
        if \<not> ok (unat limit) then stbi_err ''outofmem''
        else ret (z\<lparr>idata_limit := limit,
          pg_idata := Some (resize (unat limit) (case pg_idata z of None \<Rightarrow> [] | Some d \<Rightarrow> d))\<rparr>) }
      else ret z)"

text \<open>When \<^verbatim>\<open>z->idata\<close> is still \<^verbatim>\<open>NULL\<close> and the chunk is empty, \<^verbatim>\<open>stbi__getn\<close> copies nothing.\<close>

definition png_chunk_IDAT :: "allocator \<Rightarrow> scan_mode \<Rightarrow> pngchunk \<Rightarrow> 'u png \<Rightarrow> 'u chunk_result" where
  "png_chunk_IDAT ok scan c z =
     (if pg_first z then stbi_err ''first not IHDR''
      else if pal_img_n z \<noteq> 0 \<and> pal_len z = 0 then stbi_err ''no PLTE''
      else if scan = SCAN_header then
        ret (Inl (if pal_img_n z \<noteq> 0 then z\<lparr>pg_s := (pg_s z)\<lparr>img_n := pal_img_n z\<rparr>\<rparr> else z))
      else if chunk_length c > push_bit 30 1 then stbi_err ''IDAT size limit''
      else if sint (ioff z + chunk_length c) < sint (ioff z) then stbi_err ''''
      else ebind (grow_idata ok (chunk_length c) z) (\<lambda>z. do {
        (d, s) \<leftarrow> stbi_getn (pg_s z) (unat (chunk_length c));
        case d of None \<Rightarrow> stbi_err ''outofdata''
        | Some d \<Rightarrow> do {
            idata \<leftarrow> (case pg_idata z of
                None \<Rightarrow> if d = [] then Some None else None
              | Some m \<Rightarrow> do { m \<leftarrow> blit m (unat (ioff z)) (map Some d); Some (Some m) });
            ret (Inr (z\<lparr>pg_s := s, pg_idata := idata, ioff := ioff z + chunk_length c\<rparr>)) } }))"

subsection \<open>IEND\<close>

text \<open>The pixels: decompress, undo the filters, then transparency, channel order and palette.\<close>

definition png_img_out_n :: "int \<Rightarrow> 'u png \<Rightarrow> int" where
  "png_img_out_n req_comp z =
     (let n = img_n (pg_s z) in
      if (req_comp = n + 1 \<and> req_comp \<noteq> 3 \<and> pal_img_n z = 0) \<or> has_trans z then n + 1 else n)"

definition png_transparency :: "'u png \<Rightarrow> int \<Rightarrow> byte option list \<Rightarrow> byte option list option" where
  "png_transparency z out_n out =
     (if \<not> has_trans z then Some out
      else if pg_depth z = 16
      then stbi_compute_transparency16 (img_x (pg_s z)) (img_y (pg_s z)) (tc16 z) out_n out
      else stbi_compute_transparency (img_x (pg_s z)) (img_y (pg_s z)) (tc z) out_n out)"

definition png_finish :: "allocator \<Rightarrow> load_flags \<Rightarrow> int \<Rightarrow> 'u png \<Rightarrow> byte option list \<Rightarrow> u32 \<Rightarrow> 'u png res" where
  "png_finish ok flags req_comp z expanded raw_len =
     (let s = pg_s z; out_n = png_img_out_n req_comp z in
      ebind (stbi_create_png_image ok (img_n s) (img_x s) (img_y s) expanded raw_len out_n (pg_depth z) (pg_color z)
          (pg_interlace z \<noteq> 0)) (\<lambda>out. do {
        out \<leftarrow> png_transparency z out_n out;
        out \<leftarrow> (if is_iphone z \<and> flag_value (de_iphone_flag flags) \<and> out_n > 2
                then stbi_de_iphone flags (img_x s) (img_y s) out_n out else Some out);
        if pal_img_n z \<noteq> 0 then
          let out_n = (if req_comp \<ge> 3 then req_comp else pal_img_n z) in
          ebind (stbi_expand_png_palette ok (img_x s) (img_y s) (palette z) out_n out) (\<lambda>out.
            ret (z\<lparr>pg_s := s\<lparr>img_n := pal_img_n z, img_out_n := out_n\<rparr>, pg_out := Some out\<rparr>))
        else if has_trans z then ret (z\<lparr>pg_s := s\<lparr>img_n := img_n s + 1, img_out_n := out_n\<rparr>, pg_out := Some out\<rparr>)
        else ret (z\<lparr>pg_s := s\<lparr>img_out_n := out_n\<rparr>, pg_out := Some out\<rparr>) }))"

definition png_chunk_IEND :: "allocator \<Rightarrow> load_flags \<Rightarrow> scan_mode \<Rightarrow> int \<Rightarrow> 'u png \<Rightarrow> 'u chunk_result" where
  "png_chunk_IEND ok flags scan req_comp z =
     (if pg_first z then stbi_err ''first not IHDR''
      else if scan \<noteq> SCAN_load then ret (Inl z)
      else case pg_idata z of
        None \<Rightarrow> stbi_err ''no IDAT''
      | Some idata \<Rightarrow> do {
          let s = pg_s z;
          let bpl = (img_x s * word_of_int (pg_depth z) + 7) div 8;
          let raw_len = bpl * img_y s * word_of_int (img_n s) + img_y s;
          cells \<leftarrow> slice idata 0 (unat (ioff z));
          buffer \<leftarrow> all_some cells;
          ebind (stbi_zlib_decode_malloc_guesssize_headerflag ok buffer (unat raw_len) (\<not> is_iphone z)) (\<lambda>(expanded, n).
            ebind (png_finish ok flags req_comp (z\<lparr>pg_idata := None\<rparr>) expanded (word_of_nat n)) (\<lambda>z. do {
              (_, s) \<leftarrow> stbi_get32be (pg_s z);
              ret (Inl (z\<lparr>pg_s := s\<rparr>)) })) })"

subsection \<open>Other chunks and the chunk loop\<close>

definition type_chars :: "u32 \<Rightarrow> string" where
  "type_chars t = map (\<lambda>k. char_of (unat (drop_bit k t))) [24, 16, 8, 0]"

definition png_chunk_other :: "pngchunk \<Rightarrow> 'u png \<Rightarrow> 'u chunk_result" where
  "png_chunk_other c z =
     (if pg_first z then stbi_err ''first not IHDR''
      else if chunk_type c AND push_bit 29 1 = 0 then stbi_err (type_chars (chunk_type c) @ '' PNG chunk not known'')
      else ret (Inr (z\<lparr>pg_s := stbi_skip (pg_s z) (sint (chunk_length c))\<rparr>)))"

definition png_chunk :: "allocator \<Rightarrow> load_flags \<Rightarrow> scan_mode \<Rightarrow> int \<Rightarrow> pngchunk \<Rightarrow> 'u png \<Rightarrow> 'u chunk_result" where
  "png_chunk ok flags scan req_comp c z =
     (if chunk_type c = type_CgBI then
        ret (Inr (z\<lparr>is_iphone := True, pg_s := stbi_skip (pg_s z) (sint (chunk_length c))\<rparr>))
      else if chunk_type c = type_IHDR then png_chunk_IHDR c z
      else if chunk_type c = type_PLTE then png_chunk_PLTE c z
      else if chunk_type c = type_tRNS then png_chunk_tRNS scan c z
      else if chunk_type c = type_IDAT then png_chunk_IDAT ok scan c z
      else if chunk_type c = type_IEND then png_chunk_IEND ok flags scan req_comp z
      else png_chunk_other c z)"

definition png_step :: "allocator \<Rightarrow> load_flags \<Rightarrow> scan_mode \<Rightarrow> int \<Rightarrow> 'u png \<Rightarrow> ((string + 'u png) + 'u png) option" where
  "png_step ok flags scan req_comp z = do {
     (c, s) \<leftarrow> stbi_get_chunk_header (pg_s z);
     r \<leftarrow> png_chunk ok flags scan req_comp c (z\<lparr>pg_s := s\<rparr>);
     case r of Inl e \<Rightarrow> Some (Inl (Inl e))
     | Inr (Inl z) \<Rightarrow> Some (Inl (Inr z))
     | Inr (Inr z) \<Rightarrow> do {
         (_, s) \<leftarrow> stbi_get32be (pg_s z);
         Some (Inr (z\<lparr>pg_s := s\<rparr>)) } }"

definition stbi_parse_png_file :: "allocator \<Rightarrow> load_flags \<Rightarrow> byte list \<Rightarrow> scan_mode \<Rightarrow> int \<Rightarrow> 'u stbi_context \<Rightarrow> 'u png res" where
  "stbi_parse_png_file ok flags stack scan req_comp s = do {
     (good, s) \<leftarrow> stbi_check_png_header s;
     if \<not> good then stbi_err ''bad png sig''
     else if scan = SCAN_type then ret (png_init stack s)
     else loop (png_step ok flags scan req_comp) (png_init stack s) }"

subsection \<open>Entry points\<close>

definition stbi_do_png :: "allocator \<Rightarrow> load_flags \<Rightarrow> byte list \<Rightarrow> int \<Rightarrow> 'u stbi_context \<Rightarrow> loaded res" where
  "stbi_do_png ok flags stack req_comp s =
     (if req_comp < 0 \<or> req_comp > 4 then stbi_err ''bad req_comp''
      else ebind (stbi_parse_png_file ok flags stack SCAN_load req_comp s) (\<lambda>p.
        if \<not> pg_depth p \<le> 8 \<and> pg_depth p \<noteq> 16 then stbi_err ''bad bits_per_channel''
        else let bits = (if pg_depth p \<le> 8 then 8 else 16); s = pg_s p in do {
          out \<leftarrow> pg_out p;
          ebind (if req_comp \<noteq> 0 \<and> req_comp \<noteq> img_out_n s then
                   if bits = 8 then stbi_convert_format ok out (img_out_n s) req_comp (img_x s) (img_y s)
                   else stbi_convert_format16 ok out (img_out_n s) req_comp (img_x s) (img_y s)
                 else ret out) (\<lambda>out.
            ret \<lparr>ld_data = out, ld_x = sint (img_x s), ld_y = sint (img_y s), ld_comp = img_n s, ld_bits = bits\<rparr>) }))"

definition stbi_png_load :: "allocator \<Rightarrow> load_flags \<Rightarrow> byte list \<Rightarrow> int \<Rightarrow> 'u stbi_context \<Rightarrow> loaded res" where
  "stbi_png_load ok flags stack req_comp s = stbi_do_png ok flags stack req_comp s"

definition stbi_png_test :: "'u stbi_context \<Rightarrow> (bool \<times> 'u stbi_context) option" where
  "stbi_png_test s = do { (r, s) \<leftarrow> stbi_check_png_header s; Some (r, stbi_rewind s) }"

text \<open>The size and number of channels of the file, without decoding it.\<close>

definition stbi_png_info_raw :: "allocator \<Rightarrow> load_flags \<Rightarrow> byte list \<Rightarrow> 'u stbi_context \<Rightarrow> (int \<times> int \<times> int \<times> int) res" where
  "stbi_png_info_raw ok flags stack s =
     ebind (stbi_parse_png_file ok flags stack SCAN_header 0 s) (\<lambda>p.
       ret (sint (img_x (pg_s p)), sint (img_y (pg_s p)), img_n (pg_s p), pg_depth p))"

definition stbi_png_info :: "allocator \<Rightarrow> load_flags \<Rightarrow> byte list \<Rightarrow> 'u stbi_context \<Rightarrow> (int \<times> int \<times> int) res" where
  "stbi_png_info ok flags stack s =
     ebind (stbi_png_info_raw ok flags stack s) (\<lambda>(x, y, n, _). ret (x, y, n))"

definition stbi_png_is16 :: "allocator \<Rightarrow> load_flags \<Rightarrow> byte list \<Rightarrow> 'u stbi_context \<Rightarrow> bool option" where
  "stbi_png_is16 ok flags stack s = do {
     r \<leftarrow> stbi_png_info_raw ok flags stack s;
     Some (case r of Inl e \<Rightarrow> False | Inr (_, _, _, depth) \<Rightarrow> depth = 16) }"

end
