(* ===== verification/Bmp.thy ===== *)
theory Bmp
  imports Stb_Pixels
begin

text \<open>
  The BMP reader of src/user/facet/gpu/stb_image.h (lines 5346 to 5731).

  The array \<^verbatim>\<open>pal[256][4]\<close> is a list of 1024 bytes; it is not initialised by the code, and its
  contents on entry are the parameter \<open>stack\<close>. The result has 8 bits per channel.
\<close>

subsection \<open>Header\<close>

record bmp_data =
  bpp :: int
  offset :: int
  hsz :: int
  mr :: u32
  mg :: u32
  mb :: u32
  ma :: u32
  all_a :: u32
  extra_read :: int

primrec discard32le :: "nat \<Rightarrow> 'u stbi_context \<Rightarrow> 'u stbi_context option" where
  "discard32le 0 s = Some s"
| "discard32le (Suc n) s = do { (_, s) \<leftarrow> stbi_get32le s; discard32le n s }"

text \<open>File size, two reserved fields and, in the test, the data offset.\<close>

definition discard_file_header :: "'u stbi_context \<Rightarrow> 'u stbi_context option" where
  "discard_file_header s = do {
     (_, s) \<leftarrow> stbi_get32le s;
     (_, s) \<leftarrow> stbi_get16le s;
     (_, s) \<leftarrow> stbi_get16le s;
     Some s }"

definition header_size_ok :: "int \<Rightarrow> bool" where
  "header_size_ok sz \<longleftrightarrow> sz = 12 \<or> sz = 40 \<or> sz = 56 \<or> sz = 108 \<or> sz = 124"

definition stbi_bmp_test_raw :: "'u stbi_context \<Rightarrow> (bool \<times> 'u stbi_context) option" where
  "stbi_bmp_test_raw s = do {
     (b, s) \<leftarrow> stbi_get8 s;
     if b \<noteq> of_char (CHR ''B'') then Some (False, s)
     else do {
       (b, s) \<leftarrow> stbi_get8 s;
       if b \<noteq> of_char (CHR ''M'') then Some (False, s)
       else do {
         s \<leftarrow> discard_file_header s;
         (_, s) \<leftarrow> stbi_get32le s;
         (sz, s) \<leftarrow> stbi_get32le s;
         Some (header_size_ok (sint sz), s) } } }"

definition stbi_bmp_test :: "'u stbi_context \<Rightarrow> (bool \<times> 'u stbi_context) option" where
  "stbi_bmp_test s = do { (r, s) \<leftarrow> stbi_bmp_test_raw s; Some (r, stbi_rewind s) }"

subsection \<open>Bit masks\<close>

definition stbi_high_bit :: "u32 \<Rightarrow> int" where
  "stbi_high_bit z =
     (if z = 0 then - 1
      else let (n, z) = (if z \<ge> 0x10000 then (16, drop_bit 16 z) else (0, z));
               (n, z) = (if z \<ge> 0x00100 then (n + 8, drop_bit 8 z) else (n, z));
               (n, z) = (if z \<ge> 0x00010 then (n + 4, drop_bit 4 z) else (n, z));
               (n, z) = (if z \<ge> 0x00004 then (n + 2, drop_bit 2 z) else (n, z))
           in if z \<ge> 0x00002 then n + 1 else n)"

definition stbi_bitcount :: "u32 \<Rightarrow> int" where
  "stbi_bitcount a =
     (let a = (a AND 0x55555555) + (drop_bit 1 a AND 0x55555555);
          a = (a AND 0x33333333) + (drop_bit 2 a AND 0x33333333);
          a = (a + drop_bit 4 a) AND 0x0f0f0f0f;
          a = a + drop_bit 8 a;
          a = a + drop_bit 16 a
      in sint (a AND 0xff))"

definition mul_table :: "u32 list" where
  "mul_table = [0, 0xff, 0x55, 0x49, 0x11, 0x21, 0x41, 0x81, 0x01]"

definition shift_table :: "nat list" where
  "shift_table = [0, 0, 0, 1, 0, 2, 4, 6, 0]"

definition stbi_shiftsigned :: "u32 \<Rightarrow> int \<Rightarrow> int \<Rightarrow> int option" where
  "stbi_shiftsigned v shift bits = do {
     v \<leftarrow> (if shift < 0 then shl32 v (- shift) else shr32 v shift);
     if \<not> v < 256 then None
     else do {
       v \<leftarrow> shr32 v (8 - bits);
       if \<not> (bits \<ge> 0 \<and> bits \<le> 8) then None
       else do {
         m \<leftarrow> iget mul_table bits;
         sh \<leftarrow> iget shift_table bits;
         Some (sint (v * m) div 2 ^ sh) } } }"

definition stbi_bmp_set_mask_defaults :: "bmp_data \<Rightarrow> int \<Rightarrow> bool \<times> bmp_data" where
  "stbi_bmp_set_mask_defaults info compress =
     (if compress = 3 then (True, info)
      else if compress = 0 then
        (True,
         if bpp info = 16 then info\<lparr>mr := push_bit 10 31, mg := push_bit 5 31, mb := 31\<rparr>
         else if bpp info = 32 then
           info\<lparr>mr := push_bit 16 0xff, mg := push_bit 8 0xff, mb := 0xff, ma := push_bit 24 0xff, all_a := 0\<rparr>
         else info\<lparr>mr := 0, mg := 0, mb := 0, ma := 0\<rparr>)
      else (False, info))"

subsection \<open>Parsing the header\<close>

text \<open>The part of the headers of 40 and 56 bytes after the common fields, and of the longer
  ones.\<close>

definition bmp_header_v3 :: "int \<Rightarrow> bmp_data \<Rightarrow> 'u stbi_context \<Rightarrow> (bmp_data \<times> 'u stbi_context) res" where
  "bmp_header_v3 compress info s = do {
     s \<leftarrow> (if hsz info = 56 then discard32le 4 s else Some s);
     if bpp info = 16 \<or> bpp info = 32 then
       if compress = 0 then ret (snd (stbi_bmp_set_mask_defaults info compress), s)
       else if compress = 3 then do {
         (r, s) \<leftarrow> stbi_get32le s;
         (g, s) \<leftarrow> stbi_get32le s;
         (b, s) \<leftarrow> stbi_get32le s;
         let info = info\<lparr>mr := r, mg := g, mb := b, extra_read := extra_read info + 12\<rparr>;
         if r = g \<and> g = b then stbi_err ''bad BMP'' else ret (info, s) }
       else stbi_err ''bad BMP''
     else ret (info, s) }"

definition bmp_header_v4 :: "int \<Rightarrow> bmp_data \<Rightarrow> 'u stbi_context \<Rightarrow> (bmp_data \<times> 'u stbi_context) res" where
  "bmp_header_v4 compress info s =
     (if hsz info \<noteq> 108 \<and> hsz info \<noteq> 124 then stbi_err ''bad BMP''
      else do {
        (r, s) \<leftarrow> stbi_get32le s;
        (g, s) \<leftarrow> stbi_get32le s;
        (b, s) \<leftarrow> stbi_get32le s;
        (a, s) \<leftarrow> stbi_get32le s;
        let info = info\<lparr>mr := r, mg := g, mb := b, ma := a\<rparr>;
        let info = (if compress \<noteq> 3 then snd (stbi_bmp_set_mask_defaults info compress) else info);
        s \<leftarrow> discard32le 1 s;
        s \<leftarrow> discard32le 12 s;
        s \<leftarrow> (if hsz info = 124 then discard32le 4 s else Some s);
        ret (info, s) })"

definition bmp_header_rest :: "bmp_data \<Rightarrow> 'u stbi_context \<Rightarrow> (bmp_data \<times> 'u stbi_context) res" where
  "bmp_header_rest info s =
     (if hsz info \<noteq> 12 then do {
        (c, s) \<leftarrow> stbi_get32le s;
        let compress = sint c;
        if compress = 1 \<or> compress = 2 then stbi_err ''BMP RLE''
        else if compress \<ge> 4 then stbi_err ''BMP JPEG/PNG''
        else if compress = 3 \<and> bpp info \<noteq> 16 \<and> bpp info \<noteq> 32 then stbi_err ''bad BMP''
        else do {
          s \<leftarrow> discard32le 5 s;
          if hsz info = 40 \<or> hsz info = 56 then bmp_header_v3 compress info s
          else bmp_header_v4 compress info s } }
      else ret (info, s))"

definition stbi_bmp_parse_header :: "bmp_data \<Rightarrow> 'u stbi_context \<Rightarrow> (bmp_data \<times> 'u stbi_context) res" where
  "stbi_bmp_parse_header info s = do {
     (b, s) \<leftarrow> stbi_get8 s;
     (good, s) \<leftarrow> (if b \<noteq> of_char (CHR ''B'') then Some (False, s)
        else do { (b, s) \<leftarrow> stbi_get8 s; Some (b = of_char (CHR ''M''), s) });
     if \<not> good then stbi_err ''not BMP''
     else do {
       s \<leftarrow> discard_file_header s;
       (off, s) \<leftarrow> stbi_get32le s;
       (sz, s) \<leftarrow> stbi_get32le s;
       let info = info\<lparr>offset := sint off, hsz := sint sz, mr := 0, mg := 0, mb := 0, ma := 0, extra_read := 14\<rparr>;
       if offset info < 0 then stbi_err ''bad BMP''
       else if \<not> header_size_ok (hsz info) then stbi_err ''unknown BMP''
       else do {
         (x, y, s) \<leftarrow> (if hsz info = 12 then do {
             (x, s) \<leftarrow> stbi_get16le s; (y, s) \<leftarrow> stbi_get16le s; Some (word_of_int x, word_of_int y, s) }
           else do { (x, s) \<leftarrow> stbi_get32le s; (y, s) \<leftarrow> stbi_get32le s; Some (x, y, s) });
         let s = s\<lparr>img_x := x, img_y := y\<rparr>;
         (planes, s) \<leftarrow> stbi_get16le s;
         if planes \<noteq> 1 then stbi_err ''bad BMP''
         else do {
           (b, s) \<leftarrow> stbi_get16le s;
           bmp_header_rest (info\<lparr>bpp := b\<rparr>) s } } } }"

subsection \<open>Images with a palette\<close>

definition read_palette :: "int \<Rightarrow> int \<Rightarrow> byte list \<Rightarrow> 'u stbi_context \<Rightarrow> (byte list \<times> 'u stbi_context) option" where
  "read_palette psize hz pal s =
     for_upto 0 (nat psize) (\<lambda>i (pal, s). do {
       (v, s) \<leftarrow> stbi_get8 s; pal \<leftarrow> aset pal (i * 4 + 2) v;
       (v, s) \<leftarrow> stbi_get8 s; pal \<leftarrow> aset pal (i * 4 + 1) v;
       (v, s) \<leftarrow> stbi_get8 s; pal \<leftarrow> aset pal (i * 4) v;
       s \<leftarrow> (if hz \<noteq> 12 then do { (_, s) \<leftarrow> stbi_get8 s; Some s } else Some s);
       pal \<leftarrow> aset pal (i * 4 + 3) 255;
       Some (pal, s) }) (pal, s)"

text \<open>Writing the colour \<open>v\<close> at \<open>out[z]\<close>; the new \<open>z\<close>.\<close>

definition emit_pal :: "byte list \<Rightarrow> nat \<Rightarrow> int \<Rightarrow> nat \<times> byte option list \<Rightarrow> (nat \<times> byte option list) option" where
  "emit_pal pal v target st = (case st of (z, out) \<Rightarrow> do {
     r \<leftarrow> aget pal (v * 4); out \<leftarrow> wr out z r;
     g \<leftarrow> aget pal (v * 4 + 1); out \<leftarrow> wr out (z + 1) g;
     b \<leftarrow> aget pal (v * 4 + 2); out \<leftarrow> wr out (z + 2) b;
     if target = 4 then do { out \<leftarrow> wr out (z + 3) 255; Some (z + 4, out) } else Some (z + 3, out) })"

definition bmp_row1 :: "byte list \<Rightarrow> int \<Rightarrow> nat \<Rightarrow> nat \<times> byte option list \<times> 'u stbi_context \<Rightarrow>
    (nat \<times> byte option list \<times> 'u stbi_context) option" where
  "bmp_row1 pal target x st = (case st of (z, out, s) \<Rightarrow> do {
     (v, s) \<leftarrow> stbi_get8 s;
     (z, out, s, _, _) \<leftarrow> for_upto 0 x (\<lambda>i (z, out, s, bit_offset, v). do {
       (z, out) \<leftarrow> emit_pal pal (unat v div 2 ^ bit_offset mod 2) target (z, out);
       if i + 1 = x then Some (z, out, s, bit_offset, v)
       else if bit_offset = 0 then do { (v, s) \<leftarrow> stbi_get8 s; Some (z, out, s, 7, v) }
       else Some (z, out, s, bit_offset - 1, v) }) (z, out, s, 7, v);
     Some (z, out, s) })"

definition bmp_row48 :: "int \<Rightarrow> byte list \<Rightarrow> int \<Rightarrow> nat \<Rightarrow> nat \<times> byte option list \<times> 'u stbi_context \<Rightarrow>
    (nat \<times> byte option list \<times> 'u stbi_context) option" where
  "bmp_row48 depth pal target x st =
     for_upto 0 ((x + 1) div 2) (\<lambda>t (z, out, s). do {
       let i = 2 * t;
       (b, s) \<leftarrow> stbi_get8 s;
       let (v, v2) = (if depth = 4 then (unat b div 16, unat b mod 16) else (unat b, 0));
       (z, out) \<leftarrow> emit_pal pal v target (z, out);
       if i + 1 = x then Some (z, out, s)
       else do {
         (v, s) \<leftarrow> (if depth = 8 then do { (b, s) \<leftarrow> stbi_get8 s; Some (unat b, s) } else Some (v2, s));
         (z, out) \<leftarrow> emit_pal pal v target (z, out);
         Some (z, out, s) } }) st"

definition pad_of :: "int \<Rightarrow> int" where
  "pad_of width = (- width) mod 4"

text \<open>The rows, one after the other, each followed by its padding.\<close>

definition bmp_rows :: "nat \<Rightarrow> int \<Rightarrow> ('z \<times> 'u stbi_context \<Rightarrow> ('z \<times> 'u stbi_context) option) \<Rightarrow>
    'z \<times> 'u stbi_context \<Rightarrow> ('z \<times> 'u stbi_context) option" where
  "bmp_rows y pad row st =
     for_upto 0 y (\<lambda>j st. do { (z, s) \<leftarrow> row st; Some (z, stbi_skip s pad) }) st"

definition bmp_palette_image :: "byte list \<Rightarrow> bmp_data \<Rightarrow> int \<Rightarrow> int \<Rightarrow> byte option list \<Rightarrow> 'u stbi_context \<Rightarrow>
    (byte option list \<times> 'u stbi_context) res" where
  "bmp_palette_image stack info psize target out s =
     (if psize = 0 \<or> psize > 256 then stbi_err ''invalid''
      else do {
        (pal, s) \<leftarrow> read_palette psize (hsz info) stack s;
        let s = stbi_skip s (offset info - extra_read info - hsz info - psize * (if hsz info = 12 then 3 else 4));
        let x = nat (sint (img_x s)); let y = nat (sint (img_y s));
        if bpp info = 1 then do {
          let pad = pad_of (sint (drop_bit 3 (img_x s + 7)));
          ((z, out), s) \<leftarrow> bmp_rows y pad (\<lambda>((z, out), s). do {
            (z, out, s) \<leftarrow> bmp_row1 pal target x (z, out, s); Some ((z, out), s) }) ((0, out), s);
          ret (out, s) }
        else if bpp info = 4 \<or> bpp info = 8 then do {
          let pad = pad_of (if bpp info = 4 then sint (drop_bit 1 (img_x s + 1)) else sint (img_x s));
          ((z, out), s) \<leftarrow> bmp_rows y pad (\<lambda>((z, out), s). do {
            (z, out, s) \<leftarrow> bmp_row48 (bpp info) pal target x (z, out, s); Some ((z, out), s) }) ((0, out), s);
          ret (out, s) }
        else stbi_err ''bad bpp'' })"

subsection \<open>Images without a palette\<close>

definition bmp_row_easy :: "nat \<Rightarrow> int \<Rightarrow> nat \<Rightarrow> (nat \<times> byte option list \<times> u32) \<times> 'u stbi_context \<Rightarrow>
    ((nat \<times> byte option list \<times> u32) \<times> 'u stbi_context) option" where
  "bmp_row_easy easy target x st =
     for_upto 0 x (\<lambda>i ((z, out, all), s). do {
       (v, s) \<leftarrow> stbi_get8 s; out \<leftarrow> wr out (z + 2) v;
       (v, s) \<leftarrow> stbi_get8 s; out \<leftarrow> wr out (z + 1) v;
       (v, s) \<leftarrow> stbi_get8 s; out \<leftarrow> wr out z v;
       (a, s) \<leftarrow> (if easy = 2 then stbi_get8 s else Some (255, s));
       let all = all OR ucast a;
       if target = 4 then do { out \<leftarrow> wr out (z + 3) a; Some ((z + 4, out, all), s) }
       else Some ((z + 3, out, all), s) }) st"

text \<open>Shift and number of bits of a channel.\<close>

type_synonym channel = "u32 \<times> int \<times> int"

definition channel_of :: "u32 \<Rightarrow> channel" where
  "channel_of m = (m, stbi_high_bit m - 7, stbi_bitcount m)"

definition channel_value :: "u32 \<Rightarrow> channel \<Rightarrow> int option" where
  "channel_value v c = (case c of (m, shift, bits) \<Rightarrow> stbi_shiftsigned (v AND m) shift bits)"

definition bmp_row_masks :: "int \<Rightarrow> channel \<Rightarrow> channel \<Rightarrow> channel \<Rightarrow> channel \<Rightarrow> int \<Rightarrow> nat \<Rightarrow>
    (nat \<times> byte option list \<times> u32) \<times> 'u stbi_context \<Rightarrow> ((nat \<times> byte option list \<times> u32) \<times> 'u stbi_context) option" where
  "bmp_row_masks depth cr cg cb ca target x st =
     for_upto 0 x (\<lambda>i ((z, out, all), s). do {
       (v, s) \<leftarrow> (if depth = 16 then do { (v, s) \<leftarrow> stbi_get16le s; Some (word_of_int v, s) } else stbi_get32le s);
       r \<leftarrow> channel_value v cr; out \<leftarrow> wr out z (word_of_int r);
       g \<leftarrow> channel_value v cg; out \<leftarrow> wr out (z + 1) (word_of_int g);
       b \<leftarrow> channel_value v cb; out \<leftarrow> wr out (z + 2) (word_of_int b);
       a \<leftarrow> (if fst ca \<noteq> 0 then channel_value v ca else Some 255);
       let all = all OR word_of_int a;
       if target = 4 then do { out \<leftarrow> wr out (z + 3) (word_of_int a); Some ((z + 4, out, all), s) }
       else Some ((z + 3, out, all), s) }) st"

definition bmp_direct_image :: "bmp_data \<Rightarrow> int \<Rightarrow> byte option list \<Rightarrow> 'u stbi_context \<Rightarrow>
    (byte option list \<times> u32 \<times> 'u stbi_context) res" where
  "bmp_direct_image info target out s = do {
     let s = stbi_skip s (offset info - extra_read info - hsz info);
     let x = nat (sint (img_x s)); let y = nat (sint (img_y s));
     let width = (if bpp info = 24 then sint (3 * img_x s) else if bpp info = 16 then sint (2 * img_x s) else 0);
     let pad = pad_of width;
     let easy = (if bpp info = 24 then 1
       else if bpp info = 32 \<and> mb info = 0xff \<and> mg info = 0xff00 \<and> mr info = 0x00ff0000 \<and> ma info = 0xff000000
       then 2 else 0);
     let (cr, cg, cb, ca) = (channel_of (mr info), channel_of (mg info), channel_of (mb info), channel_of (ma info));
     if easy \<noteq> 0 then do {
       ((z, out, all), s) \<leftarrow> bmp_rows y pad (bmp_row_easy easy target x) ((0, out, all_a info), s);
       ret (out, all, s) }
     else if mr info = 0 \<or> mg info = 0 \<or> mb info = 0 then stbi_err ''bad masks''
     else if snd (snd cr) > 8 \<or> snd (snd cg) > 8 \<or> snd (snd cb) > 8 \<or> snd (snd ca) > 8 then stbi_err ''bad masks''
     else do {
       ((z, out, all), s) \<leftarrow> bmp_rows y pad (bmp_row_masks (bpp info) cr cg cb ca target x) ((0, out, all_a info), s);
       ret (out, all, s) } }"

subsection \<open>Loading\<close>

text \<open>\<^verbatim>\<open>i\<close> runs from \<^verbatim>\<open>4*img_x*img_y-1\<close> (computed without sign) down to 0 in steps of 4.\<close>

definition opaque_alpha :: "u32 \<Rightarrow> u32 \<Rightarrow> byte option list \<Rightarrow> byte option list option" where
  "opaque_alpha imgx imgy out =
     (let top = sint (4 * imgx * imgy - 1); n = nat (top div 4 + 1) in
      for_upto 0 n (\<lambda>t out. wr out (nat top - 4 * t) 255) out)"

definition bmp_flip :: "u32 \<Rightarrow> u32 \<Rightarrow> int \<Rightarrow> byte option list \<Rightarrow> byte option list option" where
  "bmp_flip imgx imgy target out = do {
     n \<leftarrow> i32 (sint imgx * target);
     for_upto 0 (nat (sint imgy div 2)) (\<lambda>j out.
       let p1 = unat (word_of_nat j * imgx * word_of_int target);
           p2 = unat ((imgy - 1 - word_of_nat j) * imgx * word_of_int target) in
       for_upto 0 (nat n) (\<lambda>i out. do {
         t \<leftarrow> rd out (p1 + i);
         v \<leftarrow> rd out (p2 + i);
         out \<leftarrow> wr out (p1 + i) v;
         wr out (p2 + i) t }) out) out }"

definition bmp_psize :: "bmp_data \<Rightarrow> int" where
  "bmp_psize info =
     (if hsz info = 12 then if bpp info < 24 then cdiv (offset info - extra_read info - 24) 3 else 0
      else if bpp info < 16 then (offset info - extra_read info - hsz info) div 4 else 0)"

text \<open>Without a palette the data must start close behind the header.\<close>

definition bmp_seek_data :: "bmp_data \<Rightarrow> int \<Rightarrow> 'u stbi_context \<Rightarrow> 'u stbi_context res" where
  "bmp_seek_data info psize s =
     (if psize = 0 then do {
        bytes_read_so_far \<leftarrow> i32 (callback_already_read s + (int (img_buffer s) - int (img_buffer_original s)));
        if bytes_read_so_far \<le> 0 \<or> bytes_read_so_far > 1024 then stbi_err ''bad header''
        else if offset info < bytes_read_so_far \<or> offset info - bytes_read_so_far > 256 * 4 then stbi_err ''bad offset''
        else ret (stbi_skip s (offset info - bytes_read_so_far)) }
      else ret s)"

definition bmp_initial :: bmp_data where
  "bmp_initial = \<lparr>bpp = 0, offset = 0, hsz = 0, mr = 0, mg = 0, mb = 0, ma = 0, all_a = 255, extra_read = 0\<rparr>"

text \<open>The sign of the height tells the order of the rows; the absolute value of the least
  \<^verbatim>\<open>int\<close> is undefined.\<close>

definition bmp_dimensions :: "'u stbi_context \<Rightarrow> (bool \<times> 'u stbi_context) res" where
  "bmp_dimensions s = do {
     h \<leftarrow> i32 \<bar>sint (img_y s)\<bar>;
     let flip_vertically = (sint (img_y s) > 0);
     let s = s\<lparr>img_y := word_of_int h\<rparr>;
     if img_y s > STBI_MAX_DIMENSIONS then stbi_err ''too large''
     else if img_x s > STBI_MAX_DIMENSIONS then stbi_err ''too large''
     else ret (flip_vertically, s) }"

definition bmp_pixels :: "byte list \<Rightarrow> bmp_data \<Rightarrow> int \<Rightarrow> int \<Rightarrow> byte option list \<Rightarrow> 'u stbi_context \<Rightarrow>
    (byte option list \<times> u32 \<times> 'u stbi_context) res" where
  "bmp_pixels stack info psize target out s =
     (if bpp info < 16 then
        ebind (bmp_palette_image stack info psize target out s) (\<lambda>(out, s). ret (out, all_a info, s))
      else bmp_direct_image info target out s)"

definition stbi_bmp_load :: "allocator \<Rightarrow> byte list \<Rightarrow> int \<Rightarrow> 'u stbi_context \<Rightarrow> loaded res" where
  "stbi_bmp_load ok stack req_comp s =
     ebind (stbi_bmp_parse_header bmp_initial s) (\<lambda>(info, s).
     ebind (bmp_dimensions s) (\<lambda>(flip_vertically, s).
     let psize = bmp_psize info in
     ebind (bmp_seek_data info psize s) (\<lambda>s.
     let s = s\<lparr>img_n := (if bpp info = 24 \<and> ma info = 0xff000000 then 3 else if ma info \<noteq> 0 then 4 else 3)\<rparr>;
         target = (if req_comp \<noteq> 0 \<and> req_comp \<ge> 3 then req_comp else img_n s) in
     if \<not> stbi_mad3sizes_valid target (sint (img_x s)) (sint (img_y s)) 0 then stbi_err ''too large''
     else case stbi_malloc_mad3 ok target (sint (img_x s)) (sint (img_y s)) 0 of
       None \<Rightarrow> stbi_err ''outofmem''
     | Some out \<Rightarrow>
       ebind (bmp_pixels stack info psize target out s) (\<lambda>(out, all, s). do {
         out \<leftarrow> (if target = 4 \<and> all = 0 then opaque_alpha (img_x s) (img_y s) out else Some out);
         out \<leftarrow> (if flip_vertically then bmp_flip (img_x s) (img_y s) target out else Some out);
         ebind (if req_comp \<noteq> 0 \<and> req_comp \<noteq> target then
                  stbi_convert_format ok out target req_comp (img_x s) (img_y s) else ret out) (\<lambda>out.
           ret \<lparr>ld_data = out, ld_x = sint (img_x s), ld_y = sint (img_y s), ld_comp = img_n s, ld_bits = 8\<rparr>) }))))"

text \<open>Size and channels without the pixels.\<close>

definition stbi_bmp_info :: "'u stbi_context \<Rightarrow> (int \<times> int \<times> int) res" where
  "stbi_bmp_info s =
     ebind (stbi_bmp_parse_header bmp_initial s) (\<lambda>(info, s).
       ret (sint (img_x s), sint (img_y s),
         if bpp info = 24 \<and> ma info = 0xff000000 then 3 else if ma info \<noteq> 0 then 4 else 3))"

end
