(* ===== verification/Jpeg_Huffman.thy ===== *)
theory Jpeg_Huffman
  imports Stb_Context Prefix_Code
begin

text \<open>
  The Huffman tables of the JPEG reader, src/user/facet/gpu/stb_image.h (lines 1938 to 2068):
  canonical codes from the counts of a DHT segment, a table for codes of at most nine bits, and a
  table that decodes a short code together with the magnitude bits that follow it. All arrays
  are part of the decoder's structure, which is cleared before use.
\<close>

definition FAST_BITS :: nat where "FAST_BITS = 9"

record jhuffman =
  jh_fast :: "nat list"
  jh_code :: "nat list"
  jh_values :: "byte list"
  jh_size :: "nat list"
  jh_maxcode :: "u32 list"
  jh_delta :: "int list"

definition zero_jhuffman :: jhuffman where
  "zero_jhuffman = \<lparr>jh_fast = replicate 512 0, jh_code = replicate 256 0, jh_values = replicate 256 0,
     jh_size = replicate 257 0, jh_maxcode = replicate 18 0, jh_delta = replicate 17 0\<rparr>"

subsection \<open>Building the tables\<close>

text \<open>The list of code lengths: \<open>count ! i\<close> symbols of length \<open>i + 1\<close>.\<close>

definition size_step :: "nat list \<Rightarrow> nat \<Rightarrow> nat \<times> nat list \<Rightarrow> (nat \<times> nat list) res" where
  "size_step count i st = do {
     n \<leftarrow> aget count i;
     efor 0 n (\<lambda>j (k, sz). do {
       sz \<leftarrow> aset sz k ((i + 1) mod 256);
       if k + 1 \<ge> 257 then stbi_err ''bad size list'' else ret (k + 1, sz) }) st }"

text \<open>The symbols of length \<open>j\<close> get consecutive codes.\<close>

definition assign_step :: "nat list \<Rightarrow> nat \<Rightarrow> nat \<times> u32 \<times> nat list \<Rightarrow>
    ((nat \<times> u32 \<times> nat list) + (nat \<times> u32 \<times> nat list)) option" where
  "assign_step sz j st = (case st of (k, code, cs) \<Rightarrow> do {
     s \<leftarrow> aget sz k;
     if s = j then do {
       cs \<leftarrow> aset cs k (unat code mod 65536);
       Some (Inr (k + 1, code + 1, cs)) }
     else Some (Inl (k, code, cs)) })"

definition jcode_step :: "nat \<Rightarrow> nat \<times> u32 \<times> jhuffman \<Rightarrow> (nat \<times> u32 \<times> jhuffman) res" where
  "jcode_step j st = (case st of (k, code, h) \<Rightarrow> do {
     dl \<leftarrow> aset (jh_delta h) j (sint (word_of_nat k - code));
     s \<leftarrow> aget (jh_size h) k;
     (k', code', cs) \<leftarrow> (if s = j then loop (assign_step (jh_size h) j) (k, code, jh_code h)
                         else Some (k, code, jh_code h));
     if s = j \<and> push_bit j 1 \<le> code' - 1 then stbi_err ''bad code lengths''
     else do {
       mc \<leftarrow> aset (jh_maxcode h) j (push_bit (16 - j) code');
       ret (k', push_bit 1 code', h\<lparr>jh_delta := dl, jh_code := cs, jh_maxcode := mc\<rparr>) } })"

text \<open>The acceleration table; 255 is the flag for codes that are not in it.\<close>

definition fast_step :: "jhuffman \<Rightarrow> nat \<Rightarrow> nat list \<Rightarrow> nat list option" where
  "fast_step h i tab = do {
     s \<leftarrow> aget (jh_size h) i;
     if s \<le> FAST_BITS then do {
       c \<leftarrow> aget (jh_code h) i;
       for_upto 0 (2 ^ (FAST_BITS - s)) (\<lambda>j tab. aset tab (c * 2 ^ (FAST_BITS - s) + j) (i mod 256)) tab }
     else Some tab }"

definition stbi_build_huffman :: "jhuffman \<Rightarrow> nat list \<Rightarrow> jhuffman res" where
  "stbi_build_huffman h count =
     ebind (efor 0 16 (size_step count) (0, jh_size h)) (\<lambda>(k, sz). do {
       sz \<leftarrow> aset sz k 0;
       ebind (efor 1 17 jcode_step (0, 0, h\<lparr>jh_size := sz\<rparr>)) (\<lambda>(k, code, h). do {
         mc \<leftarrow> aset (jh_maxcode h) 17 0xffffffff;
         tab \<leftarrow> for_upto 0 k (fast_step h) (replicate (2 ^ FAST_BITS) 255);
         ret (h\<lparr>jh_maxcode := mc, jh_fast := tab\<rparr>) }) })"

subsection \<open>The table for short AC codes\<close>

text \<open>Entry \<open>i\<close> holds the value, the run and the total length of the code at the start of the nine
  bits \<open>i\<close>, or 0.\<close>

definition fast_ac_entry :: "jhuffman \<Rightarrow> nat \<Rightarrow> int option" where
  "fast_ac_entry h i = do {
     f \<leftarrow> aget (jh_fast h) i;
     if f < 255 then do {
       v \<leftarrow> aget (jh_values h) f;
       len \<leftarrow> aget (jh_size h) f;
       let rs = unat v;
       let run = (rs div 16) mod 16;
       let magbits = rs mod 16;
       if magbits \<noteq> 0 \<and> len + magbits \<le> FAST_BITS then
         (let k = int ((i * 2 ^ len) mod 2 ^ FAST_BITS div 2 ^ (FAST_BITS - magbits));
              m = 2 ^ (magbits - 1);
              k = (if k < m then sint (word_of_int k + (push_bit magbits (- 1) + 1) :: u32) else k)
          in Some (if k \<ge> - 128 \<and> k \<le> 127 then k * 256 + int (run * 16) + int (len + magbits) else 0))
       else Some 0 }
     else Some 0 }"

definition stbi_build_fast_ac :: "int list \<Rightarrow> jhuffman \<Rightarrow> int list option" where
  "stbi_build_fast_ac fast_ac h =
     for_upto 0 (2 ^ FAST_BITS) (\<lambda>i tab. do { e \<leftarrow> fast_ac_entry h i; aset tab i e }) fast_ac"

end
