(* ===== verification/Jpeg_Block.thy ===== *)
theory Jpeg_Block
  imports Jpeg_Huffman
begin

text \<open>
  The state of the JPEG reader and the decoding of one block of coefficients,
  src/user/facet/gpu/stb_image.h (lines 1949 to 1999 and 2070 to 2410): the bit buffer that stops
  at markers, Huffman symbols, signed values, and the blocks of baseline and progressive scans.

  The structure is cleared before use. The planes and coefficients of a component are heap
  blocks, so their cells may be uninitialised; \<open>None\<close> is \<^verbatim>\<open>NULL\<close>. A plane is the part of its
  block from the first aligned address on, without the bytes that the alignment leaves over. Flags
  are booleans.
\<close>

record jcomp =
  jc_id :: int
  jc_h :: int
  jc_v :: int
  jc_tq :: int
  jc_hd :: int
  jc_ha :: int
  jc_dc_pred :: int
  jc_x :: int
  jc_y :: int
  jc_w2 :: int
  jc_h2 :: int
  jc_data :: "byte option list option"
  jc_coeff :: "int option list option"
  jc_coeff_w :: int
  jc_coeff_h :: int
  jc_linebuf :: "byte option list option"

definition zero_jcomp :: jcomp where
  "zero_jcomp = \<lparr>jc_id = 0, jc_h = 0, jc_v = 0, jc_tq = 0, jc_hd = 0, jc_ha = 0, jc_dc_pred = 0, jc_x = 0, jc_y = 0,
     jc_w2 = 0, jc_h2 = 0, jc_data = None, jc_coeff = None, jc_coeff_w = 0, jc_coeff_h = 0, jc_linebuf = None\<rparr>"

record 'u jpeg =
  j_s :: "'u stbi_context"
  huff_dc :: "jhuffman list"
  huff_ac :: "jhuffman list"
  j_dequant :: "int list list"
  fast_ac :: "int list list"
  img_h_max :: int
  img_v_max :: int
  img_mcu_x :: int
  img_mcu_y :: int
  img_mcu_w :: int
  img_mcu_h :: int
  img_comp :: "jcomp list"
  jcode_buffer :: u32
  jcode_bits :: int
  j_marker :: byte
  nomore :: bool
  progressive :: bool
  spec_start :: int
  spec_end :: int
  succ_high :: int
  succ_low :: int
  eob_run :: int
  jfif :: bool
  app14_color_transform :: int
  j_rgb :: int
  scan_n :: int
  j_order :: "nat list"
  restart_interval :: int
  todo :: int

definition zero_jpeg :: "'u stbi_context \<Rightarrow> 'u jpeg" where
  "zero_jpeg s = \<lparr>j_s = s, huff_dc = replicate 4 zero_jhuffman, huff_ac = replicate 4 zero_jhuffman,
     j_dequant = replicate 4 (replicate 64 0), fast_ac = replicate 4 (replicate 512 0),
     img_h_max = 0, img_v_max = 0, img_mcu_x = 0, img_mcu_y = 0, img_mcu_w = 0, img_mcu_h = 0,
     img_comp = replicate 4 zero_jcomp, jcode_buffer = 0, jcode_bits = 0, j_marker = 0, nomore = False,
     progressive = False, spec_start = 0, spec_end = 0, succ_high = 0, succ_low = 0, eob_run = 0, jfif = False,
     app14_color_transform = 0, j_rgb = 0, scan_n = 0, j_order = replicate 4 0, restart_interval = 0, todo = 0\<rparr>"

text \<open>The cast of an int to short.\<close>

definition to_short :: "int \<Rightarrow> int" where
  "to_short x = signed_take_bit 15 x"

text \<open>Reading from the context of the decoder.\<close>

definition jget8 :: "'u jpeg \<Rightarrow> (byte \<times> 'u jpeg) option" where
  "jget8 j = do { (b, s) \<leftarrow> stbi_get8 (j_s j); Some (b, j\<lparr>j_s := s\<rparr>) }"

definition jget16be :: "'u jpeg \<Rightarrow> (int \<times> 'u jpeg) option" where
  "jget16be j = do { (v, s) \<leftarrow> stbi_get16be (j_s j); Some (v, j\<lparr>j_s := s\<rparr>) }"

subsection \<open>The bit buffer\<close>

text \<open>\<open>while (c == 0xff) c = stbi__get8(j->s);\<close>\<close>

definition skip_fill_step :: "byte \<times> 'u jpeg \<Rightarrow> ((byte \<times> 'u jpeg) + (byte \<times> 'u jpeg)) option" where
  "skip_fill_step st = (case st of (c, j) \<Rightarrow>
     if c = 0xff then do { r \<leftarrow> jget8 j; Some (Inr r) } else Some (Inl (c, j)))"

definition grow_step :: "'u jpeg \<Rightarrow> ('u jpeg + 'u jpeg) option" where
  "grow_step j = do {
     (b, j) \<leftarrow> (if nomore j then Some (0, j) else jget8 j);
     (stop, j) \<leftarrow> (if b = 0xff then do {
         r \<leftarrow> jget8 j;
         (c, j) \<leftarrow> loop skip_fill_step r;
         Some (if c \<noteq> 0 then (True, j\<lparr>j_marker := c, nomore := True\<rparr>) else (False, j)) }
       else Some (False, j));
     if stop then Some (Inl j)
     else do {
       v \<leftarrow> shl32 (ucast b) (24 - jcode_bits j);
       let j = j\<lparr>jcode_buffer := jcode_buffer j OR v, jcode_bits := jcode_bits j + 8\<rparr>;
       Some (if jcode_bits j \<le> 24 then Inr j else Inl j) } }"

definition stbi_grow_buffer_unsafe :: "'u jpeg \<Rightarrow> 'u jpeg option" where
  "stbi_grow_buffer_unsafe = loop grow_step"

definition grow_below :: "int \<Rightarrow> 'u jpeg \<Rightarrow> 'u jpeg option" where
  "grow_below n j = (if jcode_bits j < n then stbi_grow_buffer_unsafe j else Some j)"

definition stbi_bmask :: "u32 list" where
  "stbi_bmask = [0, 1, 3, 7, 15, 31, 63, 127, 255, 511, 1023, 2047, 4095, 8191, 16383, 32767, 65535]"

definition stbi_jbias :: "int list" where
  "stbi_jbias = [0, - 1, - 3, - 7, - 15, - 31, - 63, - 127, - 255, - 511, - 1023, - 2047, - 4095, - 8191, - 16383, - 32767]"

subsection \<open>Huffman symbols\<close>

definition maxcode_step :: "jhuffman \<Rightarrow> u32 \<Rightarrow> nat \<Rightarrow> (nat + nat) option" where
  "maxcode_step h temp k = do { m \<leftarrow> aget (jh_maxcode h) k; Some (if temp < m then Inl k else Inr (k + 1)) }"

text \<open>The search for codes longer than nine bits. A failed assertion is \<open>None\<close>.\<close>

definition jpeg_huff_slow :: "'u jpeg \<Rightarrow> jhuffman \<Rightarrow> (int \<times> 'u jpeg) option" where
  "jpeg_huff_slow j h = do {
     k \<leftarrow> loop (maxcode_step h (drop_bit 16 (jcode_buffer j))) (FAST_BITS + 1);
     if k = 17 then Some (- 1, j\<lparr>jcode_bits := jcode_bits j - 16\<rparr>)
     else if int k > jcode_bits j then Some (- 1, j)
     else do {
       v \<leftarrow> shr32 (jcode_buffer j) (32 - int k);
       m \<leftarrow> aget stbi_bmask k;
       d \<leftarrow> aget (jh_delta h) k;
       let c = sint ((v AND m) + word_of_int d);
       if c < 0 \<or> c \<ge> 256 then Some (- 1, j)
       else do {
         sz \<leftarrow> iget (jh_size h) c;
         a \<leftarrow> shr32 (jcode_buffer j) (32 - int sz);
         am \<leftarrow> aget stbi_bmask sz;
         code \<leftarrow> iget (jh_code h) c;
         if unat (a AND am) \<noteq> code then None
         else do {
           b \<leftarrow> shl32 (jcode_buffer j) (int k);
           x \<leftarrow> iget (jh_values h) c;
           Some (uint x, j\<lparr>jcode_bits := jcode_bits j - int k, jcode_buffer := b\<rparr>) } } } }"

definition stbi_jpeg_huff_decode :: "'u jpeg \<Rightarrow> jhuffman \<Rightarrow> (int \<times> 'u jpeg) option" where
  "stbi_jpeg_huff_decode j h = do {
     j \<leftarrow> grow_below 16 j;
     k \<leftarrow> aget (jh_fast h) (unat (drop_bit 23 (jcode_buffer j) AND 511));
     if k < 255 then do {
       s \<leftarrow> aget (jh_size h) k;
       if int s > jcode_bits j then Some (- 1, j)
       else do {
         b \<leftarrow> shl32 (jcode_buffer j) (int s);
         x \<leftarrow> aget (jh_values h) k;
         Some (uint x, j\<lparr>jcode_buffer := b, jcode_bits := jcode_bits j - int s\<rparr>) } }
     else jpeg_huff_slow j h }"

subsection \<open>Values\<close>

definition stbi_lrot :: "u32 \<Rightarrow> int \<Rightarrow> u32 option" where
  "stbi_lrot x y = do {
     a \<leftarrow> shl32 x y;
     b \<leftarrow> shr32 x ((- y) AND 31);
     Some (a OR b) }"

text \<open>The common part of reading \<open>n\<close> bits: they are rotated to the low end, the rest stays.\<close>

definition take_bits :: "'u jpeg \<Rightarrow> int \<Rightarrow> (u32 \<times> 'u jpeg) option" where
  "take_bits j n = do {
     k \<leftarrow> stbi_lrot (jcode_buffer j) n;
     m \<leftarrow> iget stbi_bmask n;
     Some (k AND m, j\<lparr>jcode_buffer := k AND NOT m, jcode_bits := jcode_bits j - n\<rparr>) }"

definition stbi_extend_receive :: "'u jpeg \<Rightarrow> int \<Rightarrow> (int \<times> 'u jpeg) option" where
  "stbi_extend_receive j n = do {
     j \<leftarrow> grow_below n j;
     if jcode_bits j < n then Some (0, j)
     else do {
       let sgn = uint (drop_bit 31 (jcode_buffer j));
       (k, j) \<leftarrow> take_bits j n;
       bias \<leftarrow> iget stbi_jbias n;
       Some (sint (k + word_of_int (bias AND (sgn - 1))), j) } }"

definition stbi_jpeg_get_bits :: "'u jpeg \<Rightarrow> int \<Rightarrow> (int \<times> 'u jpeg) option" where
  "stbi_jpeg_get_bits j n = do {
     j \<leftarrow> grow_below n j;
     if jcode_bits j < n then Some (0, j)
     else do { (k, j) \<leftarrow> take_bits j n; Some (sint k, j) } }"

definition stbi_jpeg_get_bit :: "'u jpeg \<Rightarrow> (bool \<times> 'u jpeg) option" where
  "stbi_jpeg_get_bit j = do {
     j \<leftarrow> grow_below 1 j;
     if jcode_bits j < 1 then Some (False, j)
     else Some (jcode_buffer j AND 0x80000000 \<noteq> 0,
       j\<lparr>jcode_buffer := push_bit 1 (jcode_buffer j), jcode_bits := jcode_bits j - 1\<rparr>) }"

definition stbi_jpeg_dezigzag :: "nat list" where
  "stbi_jpeg_dezigzag = [
     0, 1, 8, 16, 9, 2, 3, 10, 17, 24, 32, 25, 18, 11, 4, 5, 12, 19, 26, 33, 40, 48, 41, 34, 27, 20, 13, 6, 7, 14, 21, 28,
     35, 42, 49, 56, 57, 50, 43, 36, 29, 22, 15, 23, 30, 37, 44, 51, 58, 59, 52, 45, 38, 31, 39, 46, 53, 60, 61, 54, 47, 55, 62, 63,
     63, 63, 63, 63, 63, 63, 63, 63, 63, 63, 63, 63, 63, 63, 63]"

subsection \<open>Baseline blocks\<close>

text \<open>The DC part of a block, shared by the two kinds of scans: the symbol, the difference, the
  new prediction and the value, multiplied by \<open>factor\<close>.\<close>

definition decode_dc :: "string \<Rightarrow> 'u jpeg \<Rightarrow> jhuffman \<Rightarrow> nat \<Rightarrow> int \<Rightarrow> (int \<times> 'u jpeg) res" where
  "decode_dc reason j hdc b factor = do {
     (t, j) \<leftarrow> stbi_jpeg_huff_decode j hdc;
     if t < 0 \<or> t > 15 then stbi_err reason
     else do {
       (diff, j) \<leftarrow> (if t \<noteq> 0 then stbi_extend_receive j t else Some (0, j));
       c \<leftarrow> aget (img_comp j) b;
       if \<not> stbi_addints_valid (jc_dc_pred c) diff then stbi_err ''bad delta''
       else do {
         dc \<leftarrow> i32 (jc_dc_pred c + diff);
         cs \<leftarrow> aset (img_comp j) b (c\<lparr>jc_dc_pred := dc\<rparr>);
         if \<not> stbi_mul2shorts_valid dc factor then stbi_err ''can't merge dc and ac''
         else do {
           v \<leftarrow> i32 (dc * factor);
           ret (to_short v, j\<lparr>img_comp := cs\<rparr>) } } } }"

text \<open>The lookup of a short code with its value. \<open>r\<close> is the table entry.\<close>

definition fast_ac_lookup :: "int list \<Rightarrow> 'u jpeg \<Rightarrow> int option" where
  "fast_ac_lookup fac j = aget fac (unat (drop_bit 23 (jcode_buffer j) AND 511))"

definition fast_ac_consume :: "int \<Rightarrow> 'u jpeg \<Rightarrow> 'u jpeg res" where
  "fast_ac_consume r j =
     (let s = r AND 15 in
      if s > jcode_bits j then stbi_err ''bad huffman code''
      else do {
        b \<leftarrow> shl32 (jcode_buffer j) s;
        ret (j\<lparr>jcode_buffer := b, jcode_bits := jcode_bits j - s\<rparr>) })"

definition put_coeff :: "int option list \<Rightarrow> int \<Rightarrow> (nat \<Rightarrow> int option) \<Rightarrow> int option list option" where
  "put_coeff data k value = do {
     zig \<leftarrow> iget stbi_jpeg_dezigzag k;
     v \<leftarrow> value zig;
     wr data zig (to_short v) }"

type_synonym 'u block_state = "'u jpeg \<times> int option list \<times> int"

definition ac_step :: "jhuffman \<Rightarrow> int list \<Rightarrow> int list \<Rightarrow> 'u block_state \<Rightarrow>
    (('u jpeg \<times> int option list) + 'u block_state) res" where
  "ac_step hac fac dequant st = (case st of (j, data, k) \<Rightarrow> do {
     let again = (\<lambda>(j, data, k). ret (if k < 64 then Inr (j, data, k) else Inl (j, data)));
     j \<leftarrow> grow_below 16 j;
     r \<leftarrow> fast_ac_lookup fac j;
     if r \<noteq> 0 then ebind (fast_ac_consume r j) (\<lambda>j. do {
       let k = k + (drop_bit 4 r AND 15);
       data \<leftarrow> put_coeff data k (\<lambda>zig. do { q \<leftarrow> aget dequant zig; i32 (drop_bit 8 r * q) });
       again (j, data, k + 1) })
     else do {
       (rs, j) \<leftarrow> stbi_jpeg_huff_decode j hac;
       if rs < 0 then stbi_err ''bad huffman code''
       else
         let s = rs AND 15; r = drop_bit 4 rs in
         if s = 0 then
           if rs \<noteq> 0xf0 then ret (Inl (j, data)) else again (j, data, k + 16)
         else do {
           let k = k + r;
           (v, j) \<leftarrow> stbi_extend_receive j s;
           data \<leftarrow> put_coeff data k (\<lambda>zig. do { q \<leftarrow> aget dequant zig; i32 (v * q) });
           again (j, data, k + 1) } } })"

definition stbi_jpeg_decode_block :: "'u jpeg \<Rightarrow> jhuffman \<Rightarrow> jhuffman \<Rightarrow> int list \<Rightarrow> nat \<Rightarrow> int list \<Rightarrow>
    ('u jpeg \<times> int option list) res" where
  "stbi_jpeg_decode_block j hdc hac fac b dequant = do {
     j \<leftarrow> grow_below 16 j;
     q0 \<leftarrow> aget dequant 0;
     ebind (decode_dc ''bad huffman code'' j hdc b q0) (\<lambda>(dc, j). do {
       data \<leftarrow> wr (replicate 64 (Some 0)) 0 dc;
       eloop (ac_step hac fac dequant) (j, data, 1) }) }"

subsection \<open>Progressive blocks\<close>

definition stbi_jpeg_decode_block_prog_dc :: "'u jpeg \<Rightarrow> int option list \<Rightarrow> jhuffman \<Rightarrow> nat \<Rightarrow>
    ('u jpeg \<times> int option list) res" where
  "stbi_jpeg_decode_block_prog_dc j data hdc b =
     (if spec_end j \<noteq> 0 then stbi_err ''can't merge dc and ac''
      else do {
        j \<leftarrow> grow_below 16 j;
        if succ_high j = 0 then do {
          data \<leftarrow> blit data 0 (replicate 64 (Some 0));
          ebind (decode_dc ''can't merge dc and ac'' j hdc b (2 ^ nat (succ_low j))) (\<lambda>(dc, j). do {
            data \<leftarrow> wr data 0 dc;
            ret (j, data) }) }
        else do {
          (bt, j) \<leftarrow> stbi_jpeg_get_bit j;
          if bt then do {
            v \<leftarrow> rd data 0;
            data \<leftarrow> wr data 0 (to_short (v + to_short (2 ^ nat (succ_low j))));
            ret (j, data) }
          else ret (j, data) } })"

definition prog_ac_step :: "jhuffman \<Rightarrow> int list \<Rightarrow> 'u block_state \<Rightarrow>
    (('u jpeg \<times> int option list) + 'u block_state) res" where
  "prog_ac_step hac fac st = (case st of (j, data, k) \<Rightarrow> do {
     let again = (\<lambda>(j, data, k). ret (if k \<le> spec_end j then Inr (j, data, k) else Inl (j, data)));
     let scale = 2 ^ nat (succ_low j);
     j \<leftarrow> grow_below 16 j;
     r \<leftarrow> fast_ac_lookup fac j;
     if r \<noteq> 0 then ebind (fast_ac_consume r j) (\<lambda>j. do {
       let k = k + (drop_bit 4 r AND 15);
       data \<leftarrow> put_coeff data k (\<lambda>zig. i32 (drop_bit 8 r * scale));
       again (j, data, k + 1) })
     else do {
       (rs, j) \<leftarrow> stbi_jpeg_huff_decode j hac;
       if rs < 0 then stbi_err ''bad huffman code''
       else
         let s = rs AND 15; r = drop_bit 4 rs in
         if s = 0 then
           if r < 15 then do {
             (extra, j) \<leftarrow> (if r \<noteq> 0 then stbi_jpeg_get_bits j r else Some (0, j));
             ret (Inl (j\<lparr>eob_run := 2 ^ nat r + extra - 1\<rparr>, data)) }
           else again (j, data, k + 16)
         else do {
           let k = k + r;
           (v, j) \<leftarrow> stbi_extend_receive j s;
           data \<leftarrow> put_coeff data k (\<lambda>zig. i32 (v * scale));
           again (j, data, k + 1) } } })"

text \<open>The correction bit of a coefficient that is not 0.\<close>

definition refine_coeff :: "int \<Rightarrow> nat \<Rightarrow> int \<Rightarrow> 'u jpeg \<times> int option list \<Rightarrow> ('u jpeg \<times> int option list) option" where
  "refine_coeff bt i p st = (case st of (j, data) \<Rightarrow> do {
     (b, j) \<leftarrow> stbi_jpeg_get_bit j;
     if b \<and> p AND bt = 0 then do {
       data \<leftarrow> wr data i (to_short (if p > 0 then p + bt else p - bt));
       Some (j, data) }
     else Some (j, data) })"

definition refine_run :: "int \<Rightarrow> 'u jpeg \<Rightarrow> int option list \<Rightarrow> ('u jpeg \<times> int option list) option" where
  "refine_run bt j data =
     for_upto (nat (spec_start j)) (nat (spec_end j + 1)) (\<lambda>k (j, data). do {
       i \<leftarrow> aget stbi_jpeg_dezigzag k;
       p \<leftarrow> rd data i;
       if p \<noteq> 0 then refine_coeff bt i p (j, data) else Some (j, data) }) (j, data)"

text \<open>\<open>while (k <= j->spec_end)\<close>: refine what is not 0, skip \<open>r\<close> zeros and store \<open>s\<close> at the next.\<close>

definition advance_step :: "int \<Rightarrow> int \<Rightarrow> 'u jpeg \<times> int option list \<times> int \<times> int \<Rightarrow>
    ('u block_state + 'u jpeg \<times> int option list \<times> int \<times> int) option" where
  "advance_step bt s st = (case st of (j, data, k, r) \<Rightarrow>
     if k \<le> spec_end j then do {
       i \<leftarrow> iget stbi_jpeg_dezigzag k;
       p \<leftarrow> rd data i;
       if p \<noteq> 0 then do {
         (j, data) \<leftarrow> refine_coeff bt i p (j, data);
         Some (Inr (j, data, k + 1, r)) }
       else if r = 0 then do {
         data \<leftarrow> wr data i (to_short s);
         Some (Inl (j, data, k + 1)) }
       else Some (Inr (j, data, k + 1, r - 1)) }
     else Some (Inl (j, data, k)))"

definition refine_ac_step :: "jhuffman \<Rightarrow> int \<Rightarrow> 'u block_state \<Rightarrow>
    (('u jpeg \<times> int option list) + 'u block_state) res" where
  "refine_ac_step hac bt st = (case st of (j, data, k) \<Rightarrow> do {
     (rs, j) \<leftarrow> stbi_jpeg_huff_decode j hac;
     if rs < 0 then stbi_err ''bad huffman code''
     else
       let s = rs AND 15; r = drop_bit 4 rs in
       ebind (if s = 0 then
                if r < 15 then do {
                  (extra, j) \<leftarrow> (if r \<noteq> 0 then stbi_jpeg_get_bits j r else Some (0, j));
                  ret (j\<lparr>eob_run := 2 ^ nat r - 1 + extra\<rparr>, s, 64) }
                else ret (j, s, r)
              else if s \<noteq> 1 then stbi_err ''bad huffman code''
              else do {
                (b, j) \<leftarrow> stbi_jpeg_get_bit j;
                ret (j, if b then bt else - bt, r) })
         (\<lambda>(j, s, r). do {
            (j, data, k) \<leftarrow> loop (advance_step bt s) (j, data, k, r);
            ret (if k \<le> spec_end j then Inr (j, data, k) else Inl (j, data)) }) })"

definition stbi_jpeg_decode_block_prog_ac :: "'u jpeg \<Rightarrow> int option list \<Rightarrow> jhuffman \<Rightarrow> int list \<Rightarrow>
    ('u jpeg \<times> int option list) res" where
  "stbi_jpeg_decode_block_prog_ac j data hac fac =
     (if spec_start j = 0 then stbi_err ''can't merge dc and ac''
      else if succ_high j = 0 then
        if eob_run j \<noteq> 0 then ret (j\<lparr>eob_run := eob_run j - 1\<rparr>, data)
        else eloop (prog_ac_step hac fac) (j, data, spec_start j)
      else
        let bt = to_short (2 ^ nat (succ_low j)) in
        if eob_run j \<noteq> 0 then do {
          (j, data) \<leftarrow> refine_run bt (j\<lparr>eob_run := eob_run j - 1\<rparr>) data;
          ret (j, data) }
        else eloop (refine_ac_step hac bt) (j, data, spec_start j))"

end
