(* ===== verification/Jpeg_Kernels.thy ===== *)
theory Jpeg_Kernels
  imports Stb_Pixels
begin

text \<open>
  The arithmetic of the JPEG reader that does not touch the input,
  src/user/facet/gpu/stb_image.h: the inverse cosine transform (lines 2412 to 2524), upsampling of rows (lines
  3456 to 3527 and 3646 to 3655), the conversion from YCbCr (lines 3657 to 3683) and the
  product of two samples (line 3859). These are the portable kernels that
  \<^verbatim>\<open>stbi__setup_jpeg\<close> installs; the vectorised variants replace them on some processors.

  The fixed-point constants are the values of the macros \<^verbatim>\<open>stbi__f2f\<close> and
  \<^verbatim>\<open>stbi__float2fixed\<close>. A row is the list of the cells from its pointer on.
\<close>

subsection \<open>Inverse cosine transform\<close>

definition stbi_clamp :: "int \<Rightarrow> byte" where
  "stbi_clamp x = (if x < 0 then 0 else if x > 255 then 255 else word_of_int x)"

type_synonym idct_terms = "int \<times> int \<times> int \<times> int \<times> int \<times> int \<times> int \<times> int"

text \<open>The macro \<^verbatim>\<open>STBI__IDCT_1D\<close>: the even part, the odd part, and both.\<close>

definition idct_even :: "int \<Rightarrow> int \<Rightarrow> int \<Rightarrow> int \<Rightarrow> (int \<times> int \<times> int \<times> int) option" where
  "idct_even s0 s2 s4 s6 = do {
     p1 \<leftarrow> i32 ((s2 + s6) * 2217);
     t2 \<leftarrow> i32 (p1 + s6 * - 7567);
     t3 \<leftarrow> i32 (p1 + s2 * 3135);
     t0 \<leftarrow> i32 ((s0 + s4) * 4096);
     t1 \<leftarrow> i32 ((s0 - s4) * 4096);
     x0 \<leftarrow> i32 (t0 + t3);
     x3 \<leftarrow> i32 (t0 - t3);
     x1 \<leftarrow> i32 (t1 + t2);
     x2 \<leftarrow> i32 (t1 - t2);
     Some (x0, x1, x2, x3) }"

definition idct_odd :: "int \<Rightarrow> int \<Rightarrow> int \<Rightarrow> int \<Rightarrow> (int \<times> int \<times> int \<times> int) option" where
  "idct_odd s1 s3 s5 s7 = do {
     let p3 = s7 + s3;
     let p4 = s5 + s1;
     let p1 = s7 + s1;
     let p2 = s5 + s3;
     p5 \<leftarrow> i32 ((p3 + p4) * 4816);
     t0 \<leftarrow> i32 (s7 * 1223);
     t1 \<leftarrow> i32 (s5 * 8410);
     t2 \<leftarrow> i32 (s3 * 12586);
     t3 \<leftarrow> i32 (s1 * 6149);
     p1 \<leftarrow> i32 (p5 + p1 * - 3685);
     p2 \<leftarrow> i32 (p5 + p2 * - 10497);
     p3 \<leftarrow> i32 (p3 * - 8034);
     p4 \<leftarrow> i32 (p4 * - 1597);
     q \<leftarrow> i32 (p1 + p4);
     t3 \<leftarrow> i32 (t3 + q);
     q \<leftarrow> i32 (p2 + p3);
     t2 \<leftarrow> i32 (t2 + q);
     q \<leftarrow> i32 (p2 + p4);
     t1 \<leftarrow> i32 (t1 + q);
     q \<leftarrow> i32 (p1 + p3);
     t0 \<leftarrow> i32 (t0 + q);
     Some (t0, t1, t2, t3) }"

definition STBI_IDCT_1D :: "int \<Rightarrow> int \<Rightarrow> int \<Rightarrow> int \<Rightarrow> int \<Rightarrow> int \<Rightarrow> int \<Rightarrow> int \<Rightarrow> idct_terms option" where
  "STBI_IDCT_1D s0 s1 s2 s3 s4 s5 s6 s7 = do {
     (x0, x1, x2, x3) \<leftarrow> idct_even s0 s2 s4 s6;
     (t0, t1, t2, t3) \<leftarrow> idct_odd s1 s3 s5 s7;
     Some (x0, x1, x2, x3, t0, t1, t2, t3) }"

text \<open>The eight results of a pass: \<open>bias\<close> is added for rounding and \<open>sh\<close> bits are dropped.\<close>

definition idct_outputs :: "int \<Rightarrow> nat \<Rightarrow> idct_terms \<Rightarrow> int list option" where
  "idct_outputs bias sh t = (case t of (x0, x1, x2, x3, t0, t1, t2, t3) \<Rightarrow> do {
     x0 \<leftarrow> i32 (x0 + bias);
     x1 \<leftarrow> i32 (x1 + bias);
     x2 \<leftarrow> i32 (x2 + bias);
     x3 \<leftarrow> i32 (x3 + bias);
     o0 \<leftarrow> i32 (x0 + t3);
     o7 \<leftarrow> i32 (x0 - t3);
     o1 \<leftarrow> i32 (x1 + t2);
     o6 \<leftarrow> i32 (x1 - t2);
     o2 \<leftarrow> i32 (x2 + t1);
     o5 \<leftarrow> i32 (x2 - t1);
     o3 \<leftarrow> i32 (x3 + t0);
     o4 \<leftarrow> i32 (x3 - t0);
     Some (map (drop_bit sh) [o0, o1, o2, o3, o4, o5, o6, o7]) })"

definition idct_column :: "int list \<Rightarrow> nat \<Rightarrow> int option list \<Rightarrow> int option list option" where
  "idct_column data i v = do {
     d0 \<leftarrow> aget data i; d1 \<leftarrow> aget data (8 + i); d2 \<leftarrow> aget data (16 + i); d3 \<leftarrow> aget data (24 + i);
     d4 \<leftarrow> aget data (32 + i); d5 \<leftarrow> aget data (40 + i); d6 \<leftarrow> aget data (48 + i); d7 \<leftarrow> aget data (56 + i);
     c \<leftarrow> (if d1 = 0 \<and> d2 = 0 \<and> d3 = 0 \<and> d4 = 0 \<and> d5 = 0 \<and> d6 = 0 \<and> d7 = 0
           then Some (replicate 8 (d0 * 4))
           else do { t \<leftarrow> STBI_IDCT_1D d0 d1 d2 d3 d4 d5 d6 d7; idct_outputs 512 10 t });
     for_upto 0 8 (\<lambda>k v. do { x \<leftarrow> aget c k; wr v (8 * k + i) x }) v }"

definition idct_row :: "int option list \<Rightarrow> nat \<Rightarrow> int \<Rightarrow> nat \<Rightarrow> byte option list \<Rightarrow> byte option list option" where
  "idct_row v base out_stride i out = do {
     v0 \<leftarrow> rd v (8 * i); v1 \<leftarrow> rd v (8 * i + 1); v2 \<leftarrow> rd v (8 * i + 2); v3 \<leftarrow> rd v (8 * i + 3);
     v4 \<leftarrow> rd v (8 * i + 4); v5 \<leftarrow> rd v (8 * i + 5); v6 \<leftarrow> rd v (8 * i + 6); v7 \<leftarrow> rd v (8 * i + 7);
     t \<leftarrow> STBI_IDCT_1D v0 v1 v2 v3 v4 v5 v6 v7;
     c \<leftarrow> idct_outputs (65536 + 128 * 2 ^ 17) 17 t;
     for_upto 0 8 (\<lambda>k out. do { x \<leftarrow> aget c k; wr out (base + i * nat out_stride + k) (stbi_clamp x) }) out }"

text \<open>The transform of a block into eight rows of the plane \<open>out\<close> from \<open>base\<close> on,
  \<open>out_stride\<close> bytes apart.\<close>

definition stbi_idct_block :: "byte option list \<Rightarrow> nat \<Rightarrow> int \<Rightarrow> int list \<Rightarrow> byte option list option" where
  "stbi_idct_block out base out_stride data = do {
     v \<leftarrow> for_upto 0 8 (idct_column data) (replicate 64 None);
     for_upto 0 8 (idct_row v base out_stride) out }"

subsection \<open>Upsampling\<close>

text \<open>A kernel returns the line buffer and the row to use, which is the line buffer or, without
  upsampling, the input.\<close>

type_synonym row_buf = "byte option list"
type_synonym resample_row_func = "row_buf \<Rightarrow> row_buf \<Rightarrow> row_buf \<Rightarrow> nat \<Rightarrow> nat \<Rightarrow> (row_buf \<times> row_buf) option"

definition stbi_div4 :: "nat \<Rightarrow> byte" where "stbi_div4 x = word_of_nat (x div 4)"
definition stbi_div16 :: "nat \<Rightarrow> byte" where "stbi_div16 x = word_of_nat (x div 16)"

definition same_row :: "row_buf \<Rightarrow> row_buf \<times> row_buf" where "same_row out = (out, out)"

definition resample_row_1 :: resample_row_func where
  "resample_row_1 out in_near in_far w hs = Some (out, in_near)"

definition stbi_resample_row_v_2 :: resample_row_func where
  "stbi_resample_row_v_2 out in_near in_far w hs = do {
     out \<leftarrow> for_upto 0 w (\<lambda>i out. do {
       a \<leftarrow> rd in_near i;
       b \<leftarrow> rd in_far i;
       wr out i (stbi_div4 (3 * unat a + unat b + 2)) }) out;
     Some (same_row out) }"

definition stbi_resample_row_h_2 :: resample_row_func where
  "stbi_resample_row_h_2 out input in_far w hs = do {
     a \<leftarrow> rd input 0;
     if w = 1 then do {
       out \<leftarrow> wr out 0 a;
       out \<leftarrow> wr out 1 a;
       Some (same_row out) }
     else do {
       out \<leftarrow> wr out 0 a;
       b \<leftarrow> rd input 1;
       out \<leftarrow> wr out 1 (stbi_div4 (unat a * 3 + unat b + 2));
       out \<leftarrow> for_upto 1 (w - 1) (\<lambda>i out. do {
         x \<leftarrow> rd input i;
         l \<leftarrow> rd input (i - 1);
         out \<leftarrow> wr out (i * 2) (stbi_div4 (3 * unat x + 2 + unat l));
         r \<leftarrow> rd input (i + 1);
         wr out (i * 2 + 1) (stbi_div4 (3 * unat x + 2 + unat r)) }) out;
       let i = max 1 (w - 1);
       y \<leftarrow> iget input (int w - 2);
       z \<leftarrow> iget input (int w - 1);
       y \<leftarrow> y;
       z \<leftarrow> z;
       out \<leftarrow> wr out (i * 2) (stbi_div4 (unat y * 3 + unat z + 2));
       out \<leftarrow> wr out (i * 2 + 1) z;
       Some (same_row out) } }"

definition stbi_resample_row_hv_2 :: resample_row_func where
  "stbi_resample_row_hv_2 out in_near in_far w hs = do {
     a \<leftarrow> rd in_near 0;
     b \<leftarrow> rd in_far 0;
     if w = 1 then do {
       out \<leftarrow> wr out 0 (stbi_div4 (3 * unat a + unat b + 2));
       out \<leftarrow> wr out 1 (stbi_div4 (3 * unat a + unat b + 2));
       Some (same_row out) }
     else do {
       let t1 = 3 * unat a + unat b;
       out \<leftarrow> wr out 0 (stbi_div4 (t1 + 2));
       (out, t1) \<leftarrow> for_upto 1 w (\<lambda>i (out, t0). do {
         a \<leftarrow> rd in_near i;
         b \<leftarrow> rd in_far i;
         let t1 = 3 * unat a + unat b;
         out \<leftarrow> wr out (i * 2 - 1) (stbi_div16 (3 * t0 + t1 + 8));
         out \<leftarrow> wr out (i * 2) (stbi_div16 (3 * t1 + t0 + 8));
         Some (out, t1) }) (out, t1);
       if w = 0 then None
       else do {
         out \<leftarrow> wr out (w * 2 - 1) (stbi_div4 (t1 + 2));
         Some (same_row out) } } }"

definition stbi_resample_row_generic :: resample_row_func where
  "stbi_resample_row_generic out in_near in_far w hs = do {
     out \<leftarrow> for_upto 0 w (\<lambda>i. for_upto 0 hs (\<lambda>j out. do {
       a \<leftarrow> rd in_near i;
       wr out (i * hs + j) a })) out;
     Some (same_row out) }"

subsection \<open>Colours\<close>

definition ycc_r :: "int \<Rightarrow> int \<Rightarrow> int option" where
  "ycc_r y cr = i32 (y * 2 ^ 20 + 2 ^ 19 + cr * 1470208)"

text \<open>The masked term is unsigned in C, so the sum is taken modulo \<open>2 ^ 32\<close>.\<close>

definition ycc_g :: "int \<Rightarrow> int \<Rightarrow> int \<Rightarrow> int option" where
  "ycc_g y cb cr = do {
     a \<leftarrow> i32 (y * 2 ^ 20 + 2 ^ 19 + cr * - 748800);
     c \<leftarrow> i32 (cb * - 360960);
     Some (sint (word_of_int a + (word_of_int c AND 0xffff0000) :: u32)) }"

definition ycc_b :: "int \<Rightarrow> int \<Rightarrow> int option" where
  "ycc_b y cb = i32 (y * 2 ^ 20 + 2 ^ 19 + cb * 1858048)"

text \<open>The four stores of a pixel at \<open>p\<close>; with three channels the last one falls on the next
  pixel.\<close>

definition put_rgba :: "row_buf \<Rightarrow> nat \<Rightarrow> byte \<Rightarrow> byte \<Rightarrow> byte \<Rightarrow> byte \<Rightarrow> row_buf option" where
  "put_rgba out p r g b a = do {
     out \<leftarrow> wr out p r;
     out \<leftarrow> wr out (p + 1) g;
     out \<leftarrow> wr out (p + 2) b;
     wr out (p + 3) a }"

definition ycc_pixel :: "row_buf \<Rightarrow> row_buf \<Rightarrow> row_buf \<Rightarrow> nat \<Rightarrow> nat \<Rightarrow> row_buf \<Rightarrow> row_buf option" where
  "ycc_pixel y pcb pcr i p out = do {
     yv \<leftarrow> rd y i;
     crv \<leftarrow> rd pcr i;
     cbv \<leftarrow> rd pcb i;
     r \<leftarrow> ycc_r (uint yv) (uint crv - 128);
     g \<leftarrow> ycc_g (uint yv) (uint cbv - 128) (uint crv - 128);
     b \<leftarrow> ycc_b (uint yv) (uint cbv - 128);
     put_rgba out p (stbi_clamp (drop_bit 20 r)) (stbi_clamp (drop_bit 20 g)) (stbi_clamp (drop_bit 20 b)) 255 }"

definition stbi_YCbCr_to_RGB_row :: "row_buf \<Rightarrow> nat \<Rightarrow> row_buf \<Rightarrow> row_buf \<Rightarrow> row_buf \<Rightarrow> nat \<Rightarrow> nat \<Rightarrow> row_buf option" where
  "stbi_YCbCr_to_RGB_row out p y pcb pcr n st =
     for_upto 0 n (\<lambda>i. ycc_pixel y pcb pcr i (p + i * st)) out"

text \<open>The rounded product of two samples read as fractions of 255.\<close>

definition stbi_blinn_8x8 :: "byte \<Rightarrow> byte \<Rightarrow> byte" where
  "stbi_blinn_8x8 x y = (let t = unat x * unat y + 128 in word_of_nat ((t + t div 256) div 256))"

end
