(* ===== verification/Jpeg_File.thy ===== *)
theory Jpeg_File
  imports Jpeg_Block Jpeg_Kernels Png_File
begin

text \<open>
  The JPEG reader, src/user/facet/gpu/stb_image.h (lines 2915 to 3448 and 3821 to 4078): markers and tables,
  frame and scan headers, the scans over the blocks, the output of the rows, and the entry points.

  An error leaves the decoder unusable, so the model returns only its reason; where
  \<^verbatim>\<open>stbi__decode_jpeg_image\<close> goes on after an error in a marker segment, it uses the components and
  the colour tags, which a failing segment does not change. A return of 0 without a reason is the
  empty reason.
\<close>

subsection \<open>Markers\<close>

definition STBI_MARKER_none :: byte where "STBI_MARKER_none = 0xff"

definition stbi_get_marker :: "'u jpeg \<Rightarrow> (byte \<times> 'u jpeg) option" where
  "stbi_get_marker j =
     (if j_marker j \<noteq> STBI_MARKER_none then Some (j_marker j, j\<lparr>j_marker := STBI_MARKER_none\<rparr>)
      else do {
        (x, j) \<leftarrow> jget8 j;
        if x \<noteq> 0xff then Some (STBI_MARKER_none, j) else loop skip_fill_step (x, j) })"

definition STBI_RESTART :: "byte \<Rightarrow> bool" where
  "STBI_RESTART x \<longleftrightarrow> x \<ge> 0xd0 \<and> x \<le> 0xd7"

definition stbi_jpeg_reset :: "'u jpeg \<Rightarrow> 'u jpeg" where
  "stbi_jpeg_reset j = j\<lparr>jcode_bits := 0, jcode_buffer := 0, nomore := False,
     img_comp := map (\<lambda>c. c\<lparr>jc_dc_pred := 0\<rparr>) (img_comp j), j_marker := STBI_MARKER_none,
     todo := (if restart_interval j \<noteq> 0 then restart_interval j else 0x7fffffff), eob_run := 0\<rparr>"

subsection \<open>Scans\<close>

text \<open>After each unit of a scan the restart interval is counted down: the scan ends (\<open>Inl\<close>) when no
  restart marker follows the interval.\<close>

definition count_down :: "'u jpeg \<Rightarrow> ('u jpeg + 'u jpeg) option" where
  "count_down z =
     (let z = z\<lparr>todo := todo z - 1\<rparr> in
      if todo z \<le> 0 then do {
        z \<leftarrow> grow_below 24 z;
        Some (if STBI_RESTART (j_marker z) then Inr (stbi_jpeg_reset z) else Inl z) }
      else Some (Inr z))"

text \<open>The two nested loops of a scan over \<open>h\<close> rows of \<open>w\<close> units.\<close>

definition scan_units :: "(int \<Rightarrow> int \<Rightarrow> 'u jpeg \<Rightarrow> 'u jpeg res) \<Rightarrow> int \<Rightarrow> int \<Rightarrow> 'u jpeg \<Rightarrow> 'u jpeg res" where
  "scan_units unit_at w h z =
     (if w \<le> 0 then ret z
      else eloop (\<lambda>(i, j, z).
        if j < h then ebind (unit_at i j z) (\<lambda>z. do {
          r \<leftarrow> count_down z;
          ret (case r of Inl z \<Rightarrow> Inl z
               | Inr z \<Rightarrow> if i + 1 < w then Inr (i + 1, j, z) else Inr (0, j + 1, z)) })
        else ret (Inl z)) (0, 0, z))"

text \<open>The blocks of one unit of an interleaved scan, component by component.\<close>

definition unit_blocks :: "(nat \<Rightarrow> int \<Rightarrow> int \<Rightarrow> 'u jpeg \<Rightarrow> 'u jpeg res) \<Rightarrow> int \<Rightarrow> int \<Rightarrow> 'u jpeg \<Rightarrow> 'u jpeg res" where
  "unit_blocks block_at i j z =
     efor 0 (nat (scan_n z)) (\<lambda>k z. do {
       n \<leftarrow> aget (j_order z) k;
       c \<leftarrow> aget (img_comp z) n;
       efor 0 (nat (jc_v c)) (\<lambda>y. efor 0 (nat (jc_h c)) (\<lambda>x.
         block_at n (i * jc_h c + int x) (j * jc_v c + int y))) z }) z"

text \<open>The coefficients of a baseline block of component \<open>n\<close>, with the tables of the component.\<close>

definition base_coeffs :: "nat \<Rightarrow> 'u jpeg \<Rightarrow> ('u jpeg \<times> int option list) res" where
  "base_coeffs n z = do {
     c \<leftarrow> aget (img_comp z) n;
     hdc \<leftarrow> iget (huff_dc z) (jc_hd c);
     hac \<leftarrow> iget (huff_ac z) (jc_ha c);
     fac \<leftarrow> iget (fast_ac z) (jc_ha c);
     dq \<leftarrow> iget (j_dequant z) (jc_tq c);
     stbi_jpeg_decode_block z hdc hac fac n dq }"

text \<open>The block at column \<open>bx\<close> and row \<open>by\<close> of the blocks of the component.\<close>

definition base_block :: "nat \<Rightarrow> int \<Rightarrow> int \<Rightarrow> 'u jpeg \<Rightarrow> 'u jpeg res" where
  "base_block n bx by' z =
     ebind (base_coeffs n z) (\<lambda>(z, data). do {
       c \<leftarrow> aget (img_comp z) n;
       pl \<leftarrow> jc_data c;
       d \<leftarrow> all_some data;
       pl \<leftarrow> stbi_idct_block pl (nat (jc_w2 c * by' * 8 + bx * 8)) (jc_w2 c) d;
       cs \<leftarrow> aset (img_comp z) n (c\<lparr>jc_data := Some pl\<rparr>);
       ret (z\<lparr>img_comp := cs\<rparr>) })"

text \<open>A progressive block works on its coefficients in place.\<close>

definition with_block :: "nat \<Rightarrow> int \<Rightarrow> int \<Rightarrow> ('u jpeg \<Rightarrow> jcomp \<Rightarrow> int option list \<Rightarrow> ('u jpeg \<times> int option list) res) \<Rightarrow>
    'u jpeg \<Rightarrow> 'u jpeg res" where
  "with_block n bx by' work z = do {
     c \<leftarrow> aget (img_comp z) n;
     co \<leftarrow> jc_coeff c;
     let at = nat (64 * (bx + by' * jc_coeff_w c));
     data \<leftarrow> slice co at 64;
     ebind (work z c data) (\<lambda>(z, data). do {
       c \<leftarrow> aget (img_comp z) n;
       co \<leftarrow> jc_coeff c;
       co \<leftarrow> blit co at data;
       cs \<leftarrow> aset (img_comp z) n (c\<lparr>jc_coeff := Some co\<rparr>);
       ret (z\<lparr>img_comp := cs\<rparr>) }) }"

definition prog_dc_block :: "nat \<Rightarrow> int \<Rightarrow> int \<Rightarrow> 'u jpeg \<Rightarrow> 'u jpeg res" where
  "prog_dc_block n bx by' = with_block n bx by' (\<lambda>z c data. do {
     hdc \<leftarrow> iget (huff_dc z) (jc_hd c);
     stbi_jpeg_decode_block_prog_dc z data hdc n })"

definition prog_ac_block :: "nat \<Rightarrow> int \<Rightarrow> int \<Rightarrow> 'u jpeg \<Rightarrow> 'u jpeg res" where
  "prog_ac_block n bx by' = with_block n bx by' (\<lambda>z c data. do {
     hac \<leftarrow> iget (huff_ac z) (jc_ha c);
     fac \<leftarrow> iget (fast_ac z) (jc_ha c);
     stbi_jpeg_decode_block_prog_ac z data hac fac })"

definition blocks_of :: "int \<Rightarrow> int" where
  "blocks_of x = drop_bit 3 (x + 7)"

definition stbi_parse_entropy_coded_data :: "'u jpeg \<Rightarrow> 'u jpeg res" where
  "stbi_parse_entropy_coded_data z =
     (let z = stbi_jpeg_reset z in
      if scan_n z = 1 then do {
        n \<leftarrow> aget (j_order z) 0;
        c \<leftarrow> aget (img_comp z) n;
        let w = blocks_of (jc_x c);
        let h = blocks_of (jc_y c);
        if \<not> progressive z then scan_units (base_block n) w h z
        else if spec_start z = 0 then scan_units (prog_dc_block n) w h z
        else scan_units (prog_ac_block n) w h z }
      else scan_units (unit_blocks (if progressive z then prog_dc_block else base_block)) (img_mcu_x z) (img_mcu_y z) z)"

definition stbi_jpeg_dequantize :: "int option list \<Rightarrow> int list \<Rightarrow> int option list option" where
  "stbi_jpeg_dequantize data dq =
     for_upto 0 64 (\<lambda>i data. do {
       x \<leftarrow> rd data i;
       q \<leftarrow> aget dq i;
       v \<leftarrow> i32 (x * q);
       wr data i (to_short v) }) data"

definition finish_block :: "nat \<Rightarrow> nat \<Rightarrow> nat \<Rightarrow> 'u jpeg \<Rightarrow> 'u jpeg option" where
  "finish_block n j i z = do {
     c \<leftarrow> aget (img_comp z) n;
     co \<leftarrow> jc_coeff c;
     pl \<leftarrow> jc_data c;
     let at = nat (64 * (int i + int j * jc_coeff_w c));
     data \<leftarrow> slice co at 64;
     dq \<leftarrow> iget (j_dequant z) (jc_tq c);
     data \<leftarrow> stbi_jpeg_dequantize data dq;
     co \<leftarrow> blit co at data;
     d \<leftarrow> all_some data;
     pl \<leftarrow> stbi_idct_block pl (nat (jc_w2 c * int j * 8 + int i * 8)) (jc_w2 c) d;
     cs \<leftarrow> aset (img_comp z) n (c\<lparr>jc_data := Some pl, jc_coeff := Some co\<rparr>);
     Some (z\<lparr>img_comp := cs\<rparr>) }"

definition stbi_jpeg_finish :: "'u jpeg \<Rightarrow> 'u jpeg option" where
  "stbi_jpeg_finish z =
     (if progressive z then
        for_upto 0 (nat (img_n (j_s z))) (\<lambda>n z. do {
          c \<leftarrow> aget (img_comp z) n;
          for_upto 0 (nat (blocks_of (jc_y c))) (\<lambda>j. for_upto 0 (nat (blocks_of (jc_x c))) (finish_block n j)) z }) z
      else Some z)"

subsection \<open>Tables and application segments\<close>

abbreviation silent_failure :: "'a res" where
  "silent_failure \<equiv> stbi_err []"

text \<open>DRI, the restart interval.\<close>

definition marker_DRI :: "'u jpeg \<Rightarrow> 'u jpeg res" where
  "marker_DRI z = do {
     (l, z) \<leftarrow> jget16be z;
     if l \<noteq> 4 then stbi_err ''bad DRI len''
     else do { (r, z) \<leftarrow> jget16be z; ret (z\<lparr>restart_interval := r\<rparr>) } }"

text \<open>DQT, quantisation tables.\<close>

definition read_dequant :: "bool \<Rightarrow> nat \<Rightarrow> 'u jpeg \<Rightarrow> 'u jpeg option" where
  "read_dequant sixteen t z =
     for_upto 0 64 (\<lambda>i z. do {
       (v, z) \<leftarrow> (if sixteen then jget16be z else do { (b, z) \<leftarrow> jget8 z; Some (uint b, z) });
       tab \<leftarrow> aget (j_dequant z) t;
       zig \<leftarrow> aget stbi_jpeg_dezigzag i;
       tab \<leftarrow> aset tab zig v;
       dq \<leftarrow> aset (j_dequant z) t tab;
       Some (z\<lparr>j_dequant := dq\<rparr>) }) z"

definition dqt_step :: "int \<times> 'u jpeg \<Rightarrow> ('u jpeg + int \<times> 'u jpeg) res" where
  "dqt_step st = (case st of (l, z) \<Rightarrow>
     if l > 0 then do {
       (q, z) \<leftarrow> jget8 z;
       let p = unat q div 16;
       let t = unat q mod 16;
       if p \<noteq> 0 \<and> p \<noteq> 1 then stbi_err ''bad DQT type''
       else if t > 3 then stbi_err ''bad DQT table''
       else do {
         z \<leftarrow> read_dequant (p \<noteq> 0) t z;
         ret (Inr (l - (if p \<noteq> 0 then 129 else 65), z)) } }
     else if l = 0 then ret (Inl z) else silent_failure)"

text \<open>DHT, Huffman tables.\<close>

definition read_sizes :: "'u jpeg \<Rightarrow> (nat list \<times> nat \<times> 'u jpeg) option" where
  "read_sizes z =
     for_upto 0 16 (\<lambda>i (sizes, n, z). do {
       (b, z) \<leftarrow> jget8 z;
       sizes \<leftarrow> aset sizes i (unat b);
       Some (sizes, n + unat b, z) }) (replicate 16 0, 0, z)"

definition read_values :: "nat \<Rightarrow> jhuffman \<Rightarrow> 'u jpeg \<Rightarrow> (jhuffman \<times> 'u jpeg) option" where
  "read_values n h z =
     for_upto 0 n (\<lambda>i (h, z). do {
       (b, z) \<leftarrow> jget8 z;
       v \<leftarrow> aset (jh_values h) i b;
       Some (h\<lparr>jh_values := v\<rparr>, z) }) (h, z)"

definition dht_table :: "bool \<Rightarrow> nat \<Rightarrow> nat list \<Rightarrow> nat \<Rightarrow> 'u jpeg \<Rightarrow> 'u jpeg res" where
  "dht_table ac th sizes n z = do {
     h \<leftarrow> aget (if ac then huff_ac z else huff_dc z) th;
     ebind (stbi_build_huffman h sizes) (\<lambda>h. do {
       (h, z) \<leftarrow> read_values n h z;
       if ac then do {
         hs \<leftarrow> aset (huff_ac z) th h;
         f \<leftarrow> aget (fast_ac z) th;
         f \<leftarrow> stbi_build_fast_ac f h;
         fs \<leftarrow> aset (fast_ac z) th f;
         ret (z\<lparr>huff_ac := hs, fast_ac := fs\<rparr>) }
       else do {
         hs \<leftarrow> aset (huff_dc z) th h;
         ret (z\<lparr>huff_dc := hs\<rparr>) } }) }"

definition dht_step :: "int \<times> 'u jpeg \<Rightarrow> ('u jpeg + int \<times> 'u jpeg) res" where
  "dht_step st = (case st of (l, z) \<Rightarrow>
     if l > 0 then do {
       (q, z) \<leftarrow> jget8 z;
       let tc = unat q div 16;
       let th = unat q mod 16;
       if tc > 1 \<or> th > 3 then stbi_err ''bad DHT header''
       else do {
         (sizes, n, z) \<leftarrow> read_sizes z;
         if n > 256 then stbi_err ''bad DHT header''
         else ebind (dht_table (tc \<noteq> 0) th sizes n z) (\<lambda>z. ret (Inr (l - 17 - int n, z))) } }
     else if l = 0 then ret (Inl z) else silent_failure)"

text \<open>APP0 and APP14 tags: the comparison reads all bytes of the tag.\<close>

definition match_tag :: "byte list \<Rightarrow> 'u jpeg \<Rightarrow> (bool \<times> 'u jpeg) option" where
  "match_tag tag z =
     for_upto 0 (length tag) (\<lambda>i (ok, z). do {
       (b, z) \<leftarrow> jget8 z;
       t \<leftarrow> aget tag i;
       Some (ok \<and> b = t, z) }) (True, z)"

definition jfif_tag :: "byte list" where "jfif_tag = [0x4A, 0x46, 0x49, 0x46, 0]"
definition adobe_tag :: "byte list" where "adobe_tag = [0x41, 0x64, 0x6F, 0x62, 0x65, 0]"

definition marker_APP :: "byte \<Rightarrow> 'u jpeg \<Rightarrow> 'u jpeg res" where
  "marker_APP m z = do {
     (l, z) \<leftarrow> jget16be z;
     if l < 2 then stbi_err (if m = 0xFE then ''bad COM len'' else ''bad APP len'')
     else do {
       let l = l - 2;
       (l, z) \<leftarrow>
         (if m = 0xE0 \<and> l \<ge> 5 then do {
            (ok, z) \<leftarrow> match_tag jfif_tag z;
            Some (l - 5, if ok then z\<lparr>jfif := True\<rparr> else z) }
          else if m = 0xEE \<and> l \<ge> 12 then do {
            (ok, z) \<leftarrow> match_tag adobe_tag z;
            let l = l - 6;
            if ok then do {
              (_, z) \<leftarrow> jget8 z;
              (_, z) \<leftarrow> jget16be z;
              (_, z) \<leftarrow> jget16be z;
              (t, z) \<leftarrow> jget8 z;
              Some (l - 6, z\<lparr>app14_color_transform := uint t\<rparr>) }
            else Some (l, z) }
          else Some (l, z));
       ret (z\<lparr>j_s := stbi_skip (j_s z) l\<rparr>) } }"

definition stbi_process_marker :: "'u jpeg \<Rightarrow> byte \<Rightarrow> 'u jpeg res" where
  "stbi_process_marker z m =
     (if m = STBI_MARKER_none then stbi_err ''expected marker''
      else if m = 0xDD then marker_DRI z
      else if m = 0xDB then do { (l, z) \<leftarrow> jget16be z; eloop dqt_step (l - 2, z) }
      else if m = 0xC4 then do { (l, z) \<leftarrow> jget16be z; eloop dht_step (l - 2, z) }
      else if (m \<ge> 0xE0 \<and> m \<le> 0xEF) \<or> m = 0xFE then marker_APP m z
      else stbi_err ''unknown marker'')"

subsection \<open>Scan header\<close>

text \<open>The component with the given id, or the number of components.\<close>

definition find_comp_step :: "'u jpeg \<Rightarrow> int \<Rightarrow> nat \<Rightarrow> (nat + nat) option" where
  "find_comp_step z ident which =
     (if int which < img_n (j_s z) then do {
        c \<leftarrow> aget (img_comp z) which;
        Some (if jc_id c = ident then Inl which else Inr (which + 1)) }
      else Some (Inl which))"

definition scan_component :: "nat \<Rightarrow> 'u jpeg \<Rightarrow> 'u jpeg res" where
  "scan_component i z = do {
     (ident, z) \<leftarrow> jget8 z;
     (q, z) \<leftarrow> jget8 z;
     which \<leftarrow> loop (find_comp_step z (uint ident)) 0;
     if int which = img_n (j_s z) then silent_failure
     else do {
       c \<leftarrow> aget (img_comp z) which;
       let hd' = uint q div 16;
       let ha = uint q mod 16;
       if hd' > 3 then stbi_err ''bad DC huff''
       else if ha > 3 then stbi_err ''bad AC huff''
       else do {
         cs \<leftarrow> aset (img_comp z) which (c\<lparr>jc_hd := hd', jc_ha := ha\<rparr>);
         ord \<leftarrow> aset (j_order z) i which;
         ret (z\<lparr>img_comp := cs, j_order := ord\<rparr>) } } }"

definition scan_spectrum :: "'u jpeg \<Rightarrow> 'u jpeg res" where
  "scan_spectrum z = do {
     (ss, z) \<leftarrow> jget8 z;
     (se, z) \<leftarrow> jget8 z;
     (aa, z) \<leftarrow> jget8 z;
     let z = z\<lparr>spec_start := uint ss, spec_end := uint se, succ_high := uint aa div 16, succ_low := uint aa mod 16\<rparr>;
     if progressive z then
       if spec_start z > 63 \<or> spec_end z > 63 \<or> spec_start z > spec_end z \<or> succ_high z > 13 \<or> succ_low z > 13
       then stbi_err ''bad SOS'' else ret z
     else if spec_start z \<noteq> 0 then stbi_err ''bad SOS''
     else if succ_high z \<noteq> 0 \<or> succ_low z \<noteq> 0 then stbi_err ''bad SOS''
     else ret (z\<lparr>spec_end := 63\<rparr>) }"

definition stbi_process_scan_header :: "'u jpeg \<Rightarrow> 'u jpeg res" where
  "stbi_process_scan_header z = do {
     (ls, z) \<leftarrow> jget16be z;
     (n, z) \<leftarrow> jget8 z;
     let z = z\<lparr>scan_n := uint n\<rparr>;
     if scan_n z < 1 \<or> scan_n z > 4 \<or> scan_n z > img_n (j_s z) then stbi_err ''bad SOS component count''
     else if ls \<noteq> 6 + 2 * scan_n z then stbi_err ''bad SOS len''
     else ebind (efor 0 (nat (scan_n z)) scan_component z) scan_spectrum }"

subsection \<open>Frame header\<close>

definition frame_component :: "nat \<Rightarrow> 'u jpeg \<Rightarrow> 'u jpeg res" where
  "frame_component i z = do {
     (ident, z) \<leftarrow> jget8 z;
     rgb \<leftarrow> (if img_n (j_s z) = 3 then do { x \<leftarrow> aget [0x52, 0x47, 0x42] i; Some (ident = x) } else Some False);
     (q, z) \<leftarrow> jget8 z;
     c \<leftarrow> aget (img_comp z) i;
     let z = (if rgb then z\<lparr>j_rgb := j_rgb z + 1\<rparr> else z);
     let c = c\<lparr>jc_id := uint ident, jc_h := uint q div 16, jc_v := uint q mod 16\<rparr>;
     if jc_h c = 0 \<or> jc_h c > 4 then stbi_err ''bad H''
     else if jc_v c = 0 \<or> jc_v c > 4 then stbi_err ''bad V''
     else do {
       (tq, z) \<leftarrow> jget8 z;
       if uint tq > 3 then stbi_err ''bad TQ''
       else do {
         cs \<leftarrow> aset (img_comp z) i (c\<lparr>jc_tq := uint tq\<rparr>);
         ret (z\<lparr>img_comp := cs\<rparr>) } } }"

definition max_sampling :: "'u jpeg \<Rightarrow> (int \<times> int) option" where
  "max_sampling z =
     for_upto 0 (nat (img_n (j_s z))) (\<lambda>i (h, v). do {
       c \<leftarrow> aget (img_comp z) i;
       Some (max h (jc_h c), max v (jc_v c)) }) (1, 1)"

definition integer_ratios :: "int \<Rightarrow> int \<Rightarrow> 'u jpeg \<Rightarrow> unit res" where
  "integer_ratios h_max v_max z =
     efor 0 (nat (img_n (j_s z))) (\<lambda>i u. do {
       c \<leftarrow> aget (img_comp z) i;
       if h_max mod jc_h c \<noteq> 0 then stbi_err ''bad H''
       else if v_max mod jc_v c \<noteq> 0 then stbi_err ''bad V''
       else ret () }) ()"

text \<open>The sizes of a component and its blocks. The quotients are those of unsigned numbers.\<close>

definition udiv :: "u32 \<Rightarrow> int \<Rightarrow> int" where
  "udiv x d = sint (x div word_of_int d)"

definition frame_planes :: "allocator \<Rightarrow> nat \<Rightarrow> 'u jpeg \<Rightarrow> 'u jpeg res" where
  "frame_planes ok i z = do {
     c \<leftarrow> aget (img_comp z) i;
     w2 \<leftarrow> i32 (img_mcu_x z * jc_h c * 8);
     h2 \<leftarrow> i32 (img_mcu_y z * jc_v c * 8);
     let c = c\<lparr>jc_x := udiv (img_x (j_s z) * word_of_int (jc_h c) + word_of_int (img_h_max z) - 1) (img_h_max z),
       jc_y := udiv (img_y (j_s z) * word_of_int (jc_v c) + word_of_int (img_v_max z) - 1) (img_v_max z),
       jc_w2 := w2, jc_h2 := h2, jc_coeff := None, jc_linebuf := None\<rparr>;
     case (stbi_malloc_mad2 ok w2 h2 15 :: byte option list option) of
       None \<Rightarrow> stbi_err ''outofmem''
     | Some raw \<Rightarrow>
         let c = c\<lparr>jc_data := Some (take (nat (w2 * h2)) raw)\<rparr> in
         ebind (if progressive z then
             case (stbi_malloc_mad3 ok w2 h2 2 15 :: byte option list option) of
               None \<Rightarrow> stbi_err ''outofmem''
             | Some raw_coeff \<Rightarrow> ret (c\<lparr>jc_coeff_w := w2 div 8, jc_coeff_h := h2 div 8,
                 jc_coeff := Some (replicate (nat (w2 * h2)) None)\<rparr>)
           else ret c) (\<lambda>c. do {
             cs \<leftarrow> aset (img_comp z) i c;
             ret (z\<lparr>img_comp := cs\<rparr>) }) }"

definition frame_layout :: "allocator \<Rightarrow> 'u jpeg \<Rightarrow> 'u jpeg res" where
  "frame_layout ok z =
     (if \<not> stbi_mad3sizes_valid (sint (img_x (j_s z))) (sint (img_y (j_s z))) (img_n (j_s z)) 0 then stbi_err ''too large''
      else do {
        (h_max, v_max) \<leftarrow> max_sampling z;
        ebind (integer_ratios h_max v_max z) (\<lambda>_.
          let z = z\<lparr>img_h_max := h_max, img_v_max := v_max, img_mcu_w := h_max * 8, img_mcu_h := v_max * 8,
            img_mcu_x := udiv (img_x (j_s z) + word_of_int (h_max * 8) - 1) (h_max * 8),
            img_mcu_y := udiv (img_y (j_s z) + word_of_int (v_max * 8) - 1) (v_max * 8)\<rparr> in
          efor 0 (nat (img_n (j_s z))) (frame_planes ok) z) })"

definition stbi_process_frame_header :: "allocator \<Rightarrow> scan_mode \<Rightarrow> 'u jpeg \<Rightarrow> 'u jpeg res" where
  "stbi_process_frame_header ok scan z = do {
     (lf, z) \<leftarrow> jget16be z;
     if lf < 11 then stbi_err ''bad SOF len''
     else do {
       (p, z) \<leftarrow> jget8 z;
       if p \<noteq> 8 then stbi_err ''only 8-bit''
       else do {
         (y, z) \<leftarrow> jget16be z;
         let z = z\<lparr>j_s := (j_s z)\<lparr>img_y := word_of_int y\<rparr>\<rparr>;
         if img_y (j_s z) = 0 then stbi_err ''no header height''
         else do {
           (x, z) \<leftarrow> jget16be z;
           let z = z\<lparr>j_s := (j_s z)\<lparr>img_x := word_of_int x\<rparr>\<rparr>;
           if img_x (j_s z) = 0 then stbi_err ''0 width''
           else if img_y (j_s z) > STBI_MAX_DIMENSIONS then stbi_err ''too large''
           else if img_x (j_s z) > STBI_MAX_DIMENSIONS then stbi_err ''too large''
           else do {
             (c, z) \<leftarrow> jget8 z;
             if c \<noteq> 3 \<and> c \<noteq> 1 \<and> c \<noteq> 4 then stbi_err ''bad component count''
             else
               let z = z\<lparr>j_s := (j_s z)\<lparr>img_n := uint c\<rparr>, j_rgb := 0,
                     img_comp := map (\<lambda>(i, k). if i < unat c then k\<lparr>jc_data := None, jc_linebuf := None\<rparr> else k)
                       (List.enumerate 0 (img_comp z))\<rparr> in
               if lf \<noteq> 8 + 3 * img_n (j_s z) then stbi_err ''bad SOF len''
               else ebind (efor 0 (unat c) frame_component z) (\<lambda>z.
                 if scan \<noteq> SCAN_load then ret z else frame_layout ok z) } } } } }"

end
