(* ===== verification/Jpeg_Load.thy ===== *)
theory Jpeg_Load
  imports Jpeg_File
begin

text \<open>
  Whole JPEG files, src/user/facet/gpu/stb_image.h (lines 3355 to 3448 and 3821 to 4078): the sequence of
  segments, the upsampled and converted rows, and the entry points load, test and info.
\<close>

subsection \<open>The sequence of segments\<close>

definition stbi_DNL :: "byte \<Rightarrow> bool" where "stbi_DNL x \<longleftrightarrow> x = 0xdc"
definition stbi_SOI :: "byte \<Rightarrow> bool" where "stbi_SOI x \<longleftrightarrow> x = 0xd8"
definition stbi_EOI :: "byte \<Rightarrow> bool" where "stbi_EOI x \<longleftrightarrow> x = 0xd9"
definition stbi_SOF :: "byte \<Rightarrow> bool" where "stbi_SOF x \<longleftrightarrow> x = 0xc0 \<or> x = 0xc1 \<or> x = 0xc2"
definition stbi_SOS :: "byte \<Rightarrow> bool" where "stbi_SOS x \<longleftrightarrow> x = 0xda"
definition stbi_SOF_progressive :: "byte \<Rightarrow> bool" where "stbi_SOF_progressive x \<longleftrightarrow> x = 0xc2"

text \<open>The first marker.\<close>

definition header_start :: "'u jpeg \<Rightarrow> (byte \<times> 'u jpeg) option" where
  "header_start z = stbi_get_marker (z\<lparr>jfif := False, app14_color_transform := - 1, j_marker := STBI_MARKER_none\<rparr>)"

text \<open>The search for the next marker over padding.\<close>

definition padding_step :: "byte \<times> 'u jpeg \<Rightarrow> ((byte \<times> 'u jpeg) + (byte \<times> 'u jpeg)) res" where
  "padding_step st = (case st of (m, z) \<Rightarrow>
     if m = STBI_MARKER_none then
       if stbi_at_eof (j_s z) then stbi_err ''no SOF''
       else do { r \<leftarrow> stbi_get_marker z; ret (Inr r) }
     else ret (Inl (m, z)))"

definition header_step :: "byte \<times> 'u jpeg \<Rightarrow> ((byte \<times> 'u jpeg) + (byte \<times> 'u jpeg)) res" where
  "header_step st = (case st of (m, z) \<Rightarrow>
     if stbi_SOF m then ret (Inl (m, z))
     else ebind (stbi_process_marker z m) (\<lambda>z. do {
       r \<leftarrow> stbi_get_marker z;
       ebind (eloop padding_step r) (\<lambda>r. ret (Inr r)) }))"

definition stbi_decode_jpeg_header :: "allocator \<Rightarrow> scan_mode \<Rightarrow> 'u jpeg \<Rightarrow> 'u jpeg res" where
  "stbi_decode_jpeg_header ok scan z = do {
     (m, z) \<leftarrow> header_start z;
     if \<not> stbi_SOI m then stbi_err ''no SOI''
     else if scan = SCAN_type then ret z
     else do {
       r \<leftarrow> stbi_get_marker z;
       ebind (eloop header_step r) (\<lambda>(m, z).
         stbi_process_frame_header ok scan (z\<lparr>progressive := stbi_SOF_progressive m\<rparr>)) } }"

text \<open>The scan over junk after the image data. The flag says that the last byte was 0xff.\<close>

definition junk_step :: "bool \<times> 'u jpeg \<Rightarrow> ((byte \<times> 'u jpeg) + (bool \<times> 'u jpeg)) option" where
  "junk_step st = (case st of (lead, j) \<Rightarrow>
     if stbi_at_eof (j_s j) then Some (Inl (STBI_MARKER_none, j))
     else do {
       (x, j) \<leftarrow> jget8 j;
       Some (if lead \<and> x \<noteq> 0 \<and> x \<noteq> 0xff then Inl (x, j) else Inr (x = 0xff, j)) })"

definition stbi_skip_jpeg_junk_at_end :: "'u jpeg \<Rightarrow> (byte \<times> 'u jpeg) option" where
  "stbi_skip_jpeg_junk_at_end j = loop junk_step (False, j)"

definition image_scan :: "'u jpeg \<Rightarrow> (byte \<times> 'u jpeg) res" where
  "image_scan j =
     ebind (stbi_process_scan_header j) (\<lambda>j.
     ebind (stbi_parse_entropy_coded_data j) (\<lambda>j. do {
       j \<leftarrow> (if j_marker j = STBI_MARKER_none then do {
               (m, j) \<leftarrow> stbi_skip_jpeg_junk_at_end j; Some (j\<lparr>j_marker := m\<rparr>) }
             else Some j);
       (m, j) \<leftarrow> stbi_get_marker j;
       r \<leftarrow> (if STBI_RESTART m then stbi_get_marker j else Some (m, j));
       ret r }))"

definition image_DNL :: "'u jpeg \<Rightarrow> (byte \<times> 'u jpeg) res" where
  "image_DNL j = do {
     (ld, j) \<leftarrow> jget16be j;
     (nl, j) \<leftarrow> jget16be j;
     if ld \<noteq> 4 then stbi_err ''bad DNL len''
     else if word_of_int nl \<noteq> img_y (j_s j) then stbi_err ''bad DNL height''
     else do { r \<leftarrow> stbi_get_marker j; ret r } }"

text \<open>The flag of the result says that the end of the image was reached; a segment that cannot be
  processed ends the image without an error.\<close>

definition image_step :: "byte \<times> 'u jpeg \<Rightarrow> ((bool \<times> 'u jpeg) + (byte \<times> 'u jpeg)) res" where
  "image_step st = (case st of (m, j) \<Rightarrow>
     if stbi_EOI m then ret (Inl (True, j))
     else if stbi_SOS m then ebind (image_scan j) (\<lambda>r. ret (Inr r))
     else if stbi_DNL m then ebind (image_DNL j) (\<lambda>r. ret (Inr r))
     else do {
       p \<leftarrow> stbi_process_marker j m;
       case p of Inl e \<Rightarrow> ret (Inl (False, j)) | Inr j \<Rightarrow> do { r \<leftarrow> stbi_get_marker j; ret (Inr r) } })"

definition stbi_decode_jpeg_image :: "allocator \<Rightarrow> 'u jpeg \<Rightarrow> 'u jpeg res" where
  "stbi_decode_jpeg_image ok j =
     (let j = j\<lparr>img_comp := map (\<lambda>c. c\<lparr>jc_data := None, jc_coeff := None\<rparr>) (img_comp j), restart_interval := 0\<rparr> in
      ebind (stbi_decode_jpeg_header ok SCAN_load j) (\<lambda>j. do {
        r \<leftarrow> stbi_get_marker j;
        ebind (eloop image_step r) (\<lambda>(complete, j).
          if complete then do { j \<leftarrow> stbi_jpeg_finish j; ret j } else ret j) }))"

subsection \<open>Upsampled rows\<close>

record stbi_resample =
  rs_func :: resample_row_func
  rs_line0 :: nat
  rs_line1 :: nat
  rs_hs :: int
  rs_vs :: int
  rs_w_lores :: int
  rs_ystep :: int
  rs_ypos :: int

definition resample_kernel :: "int \<Rightarrow> int \<Rightarrow> resample_row_func" where
  "resample_kernel hs vs =
     (if hs = 1 \<and> vs = 1 then resample_row_1
      else if hs = 1 \<and> vs = 2 then stbi_resample_row_v_2
      else if hs = 2 \<and> vs = 1 then stbi_resample_row_h_2
      else if hs = 2 \<and> vs = 2 then stbi_resample_row_hv_2
      else stbi_resample_row_generic)"

definition setup_component :: "allocator \<Rightarrow> nat \<Rightarrow> 'u jpeg \<times> stbi_resample list \<Rightarrow> ('u jpeg \<times> stbi_resample list) res" where
  "setup_component ok k st = (case st of (z, rs) \<Rightarrow> do {
     c \<leftarrow> aget (img_comp z) k;
     case (stbi_malloc ok (unat (img_x (j_s z) + 3)) :: row_buf option) of
       None \<Rightarrow> stbi_err ''outofmem''
     | Some lb \<Rightarrow> do {
         cs \<leftarrow> aset (img_comp z) k (c\<lparr>jc_linebuf := Some lb\<rparr>);
         let hs = img_h_max z div jc_h c;
         let vs = img_v_max z div jc_v c;
         ret (z\<lparr>img_comp := cs\<rparr>, rs @ [\<lparr>rs_func = resample_kernel hs vs, rs_line0 = 0, rs_line1 = 0, rs_hs = hs, rs_vs = vs,
           rs_w_lores = udiv (img_x (j_s z) + word_of_int hs - 1) hs, rs_ystep = vs div 2, rs_ypos = 0\<rparr>]) } })"

text \<open>One output row of component \<open>k\<close>: the row itself and the position of the next one.\<close>

definition resample_component :: "nat \<Rightarrow> 'u jpeg \<times> stbi_resample list \<times> row_buf list \<Rightarrow>
    ('u jpeg \<times> stbi_resample list \<times> row_buf list) option" where
  "resample_component k st = (case st of (z, rs, co) \<Rightarrow> do {
     r \<leftarrow> aget rs k;
     c \<leftarrow> aget (img_comp z) k;
     pl \<leftarrow> jc_data c;
     lb \<leftarrow> jc_linebuf c;
     let y_bot = rs_ystep r \<ge> rs_vs r div 2;
     let l0 = drop (rs_line0 r) pl;
     let l1 = drop (rs_line1 r) pl;
     (lb, row) \<leftarrow> rs_func r lb (if y_bot then l1 else l0) (if y_bot then l0 else l1) (nat (rs_w_lores r)) (nat (rs_hs r));
     cs \<leftarrow> aset (img_comp z) k (c\<lparr>jc_linebuf := Some lb\<rparr>);
     let r = (if rs_ystep r + 1 \<ge> rs_vs r then
        r\<lparr>rs_ystep := 0, rs_line0 := rs_line1 r, rs_ypos := rs_ypos r + 1,
          rs_line1 := (if rs_ypos r + 1 < jc_y c then rs_line1 r + nat (jc_w2 c) else rs_line1 r)\<rparr>
        else r\<lparr>rs_ystep := rs_ystep r + 1\<rparr>);
     rs \<leftarrow> aset rs k r;
     co \<leftarrow> aset co k row;
     Some (z\<lparr>img_comp := cs\<rparr>, rs, co) })"

subsection \<open>Output pixels\<close>

text \<open>Sample \<open>i\<close> of the row of component \<open>k\<close>.\<close>

definition co_at :: "row_buf list \<Rightarrow> nat \<Rightarrow> nat \<Rightarrow> byte option" where
  "co_at co k i = do { row \<leftarrow> aget co k; rd row i }"

definition emit_rgb :: "row_buf list \<Rightarrow> nat \<Rightarrow> nat \<Rightarrow> row_buf \<Rightarrow> row_buf option" where
  "emit_rgb co i p out = do {
     r \<leftarrow> co_at co 0 i;
     g \<leftarrow> co_at co 1 i;
     b \<leftarrow> co_at co 2 i;
     put_rgba out p r g b 255 }"

definition emit_cmyk :: "row_buf list \<Rightarrow> nat \<Rightarrow> nat \<Rightarrow> row_buf \<Rightarrow> row_buf option" where
  "emit_cmyk co i p out = do {
     m \<leftarrow> co_at co 3 i;
     r \<leftarrow> co_at co 0 i;
     g \<leftarrow> co_at co 1 i;
     b \<leftarrow> co_at co 2 i;
     put_rgba out p (stbi_blinn_8x8 r m) (stbi_blinn_8x8 g m) (stbi_blinn_8x8 b m) 255 }"

definition emit_ycck :: "row_buf list \<Rightarrow> nat \<Rightarrow> nat \<Rightarrow> row_buf \<Rightarrow> row_buf option" where
  "emit_ycck co i p out = do {
     m \<leftarrow> co_at co 3 i;
     r \<leftarrow> rd out p;
     out \<leftarrow> wr out p (stbi_blinn_8x8 (255 - r) m);
     g \<leftarrow> rd out (p + 1);
     out \<leftarrow> wr out (p + 1) (stbi_blinn_8x8 (255 - g) m);
     b \<leftarrow> rd out (p + 2);
     wr out (p + 2) (stbi_blinn_8x8 (255 - b) m) }"

definition emit_grey :: "row_buf list \<Rightarrow> nat \<Rightarrow> nat \<Rightarrow> row_buf \<Rightarrow> row_buf option" where
  "emit_grey co i p out = do { y \<leftarrow> co_at co 0 i; put_rgba out p y y y 255 }"

text \<open>One or two channels; the second store is made only for two channels, except for CMYK.\<close>

definition put_ya :: "bool \<Rightarrow> row_buf \<Rightarrow> nat \<Rightarrow> byte \<Rightarrow> row_buf option" where
  "put_ya alpha out p y = do { out \<leftarrow> wr out p y; if alpha then wr out (p + 1) 255 else Some out }"

definition emit_luma :: "bool \<Rightarrow> row_buf list \<Rightarrow> nat \<Rightarrow> nat \<Rightarrow> row_buf \<Rightarrow> row_buf option" where
  "emit_luma alpha co i p out = do {
     r \<leftarrow> co_at co 0 i;
     g \<leftarrow> co_at co 1 i;
     b \<leftarrow> co_at co 2 i;
     put_ya alpha out p (stbi_compute_y r g b) }"

definition emit_cmyk_luma :: "row_buf list \<Rightarrow> nat \<Rightarrow> nat \<Rightarrow> row_buf \<Rightarrow> row_buf option" where
  "emit_cmyk_luma co i p out = do {
     m \<leftarrow> co_at co 3 i;
     r \<leftarrow> co_at co 0 i;
     g \<leftarrow> co_at co 1 i;
     b \<leftarrow> co_at co 2 i;
     put_ya True out p (stbi_compute_y (stbi_blinn_8x8 r m) (stbi_blinn_8x8 g m) (stbi_blinn_8x8 b m)) }"

definition emit_ycck_luma :: "row_buf list \<Rightarrow> nat \<Rightarrow> nat \<Rightarrow> row_buf \<Rightarrow> row_buf option" where
  "emit_ycck_luma co i p out = do {
     y \<leftarrow> co_at co 0 i;
     m \<leftarrow> co_at co 3 i;
     put_ya True out p (stbi_blinn_8x8 (255 - y) m) }"

definition emit_y :: "bool \<Rightarrow> row_buf list \<Rightarrow> nat \<Rightarrow> nat \<Rightarrow> row_buf \<Rightarrow> row_buf option" where
  "emit_y alpha co i p out = do { y \<leftarrow> co_at co 0 i; put_ya alpha out p y }"

definition over_row :: "nat \<Rightarrow> nat \<Rightarrow> nat \<Rightarrow> (nat \<Rightarrow> nat \<Rightarrow> row_buf \<Rightarrow> row_buf option) \<Rightarrow> row_buf \<Rightarrow> row_buf option" where
  "over_row w n p f out = for_upto 0 w (\<lambda>i. f i (p + i * n)) out"

definition ycc_row :: "nat \<Rightarrow> nat \<Rightarrow> nat \<Rightarrow> row_buf list \<Rightarrow> row_buf \<Rightarrow> row_buf option" where
  "ycc_row w n p co out = do {
     y \<leftarrow> aget co 0;
     cb \<leftarrow> aget co 1;
     cr \<leftarrow> aget co 2;
     stbi_YCbCr_to_RGB_row out p y cb cr w n }"

definition emit_row :: "int \<Rightarrow> bool \<Rightarrow> int \<Rightarrow> nat \<Rightarrow> nat \<Rightarrow> nat \<Rightarrow> row_buf list \<Rightarrow> row_buf \<Rightarrow> row_buf option" where
  "emit_row imgn is_rgb app14 w n p co out =
     (if n \<ge> 3 then
        if imgn = 3 then if is_rgb then over_row w n p (emit_rgb co) out else ycc_row w n p co out
        else if imgn = 4 then
          if app14 = 0 then over_row w n p (emit_cmyk co) out
          else if app14 = 2 then do { out \<leftarrow> ycc_row w n p co out; over_row w n p (emit_ycck co) out }
          else ycc_row w n p co out
        else over_row w n p (emit_grey co) out
      else if is_rgb then over_row w n p (emit_luma (n \<noteq> 1) co) out
      else if imgn = 4 \<and> app14 = 0 then over_row w n p (emit_cmyk_luma co) out
      else if imgn = 4 \<and> app14 = 2 then over_row w n p (emit_ycck_luma co) out
      else over_row w n p (emit_y (n \<noteq> 1) co) out)"

definition output_row :: "nat \<Rightarrow> bool \<Rightarrow> nat \<Rightarrow> nat \<Rightarrow> 'u jpeg \<times> stbi_resample list \<times> row_buf list \<times> row_buf \<Rightarrow>
    ('u jpeg \<times> stbi_resample list \<times> row_buf list \<times> row_buf) option" where
  "output_row decode_n is_rgb n j st = (case st of (z, rs, co, out) \<Rightarrow> do {
     (z, rs, co) \<leftarrow> for_upto 0 decode_n resample_component (z, rs, co);
     let w = unat (img_x (j_s z));
     out \<leftarrow> emit_row (img_n (j_s z)) is_rgb (app14_color_transform z) w n
       (unat (word_of_nat n * img_x (j_s z) * word_of_nat j)) co out;
     Some (z, rs, co, out) })"

subsection \<open>Entry points\<close>

definition jpeg_is_rgb :: "'u jpeg \<Rightarrow> bool" where
  "jpeg_is_rgb z \<longleftrightarrow> img_n (j_s z) = 3 \<and> (j_rgb z = 3 \<or> app14_color_transform z = 0 \<and> \<not> jfif z)"

definition load_jpeg_image :: "allocator \<Rightarrow> int \<Rightarrow> 'u jpeg \<Rightarrow> loaded res" where
  "load_jpeg_image ok req_comp z =
     (let z = z\<lparr>j_s := (j_s z)\<lparr>img_n := 0\<rparr>\<rparr> in
      if req_comp < 0 \<or> req_comp > 4 then stbi_err ''bad req_comp''
      else ebind (stbi_decode_jpeg_image ok z) (\<lambda>z.
        let imgn = img_n (j_s z);
            n = (if req_comp \<noteq> 0 then req_comp else if imgn \<ge> 3 then 3 else 1);
            is_rgb = jpeg_is_rgb z;
            decode_n = (if imgn = 3 \<and> n < 3 \<and> \<not> is_rgb then 1 else imgn) in
        if decode_n \<le> 0 then silent_failure
        else ebind (efor 0 (nat decode_n) (setup_component ok) (z, [])) (\<lambda>(z, rs).
          case (stbi_malloc_mad3 ok n (sint (img_x (j_s z))) (sint (img_y (j_s z))) 1 :: row_buf option) of
            None \<Rightarrow> stbi_err ''outofmem''
          | Some out \<Rightarrow> do {
              (z, rs, co, out) \<leftarrow> for_upto 0 (unat (img_y (j_s z))) (output_row (nat decode_n) is_rgb (nat n))
                (z, rs, replicate 4 [], out);
              ret \<lparr>ld_data = out, ld_x = sint (img_x (j_s z)), ld_y = sint (img_y (j_s z)),
                ld_comp = (if imgn \<ge> 3 then 3 else 1), ld_bits = 8\<rparr> })))"

text \<open>The size of the decoder's structure on a 64-bit machine.\<close>

definition sizeof_jpeg :: nat where "sizeof_jpeg = 18568"

definition stbi_jpeg_load :: "allocator \<Rightarrow> int \<Rightarrow> 'u stbi_context \<Rightarrow> loaded res" where
  "stbi_jpeg_load ok req_comp s =
     (if \<not> ok sizeof_jpeg then stbi_err ''outofmem'' else load_jpeg_image ok req_comp (zero_jpeg s))"

text \<open>The test reads the first marker and rewinds.\<close>

definition stbi_jpeg_test :: "allocator \<Rightarrow> 'u stbi_context \<Rightarrow> (bool \<times> 'u stbi_context) option" where
  "stbi_jpeg_test ok s =
     (if \<not> ok sizeof_jpeg then Some (False, s)
      else do {
        (m, z) \<leftarrow> header_start (zero_jpeg s);
        Some (stbi_SOI m, stbi_rewind (j_s z)) })"

definition stbi_jpeg_info_raw :: "allocator \<Rightarrow> 'u jpeg \<Rightarrow> (int \<times> int \<times> int) res" where
  "stbi_jpeg_info_raw ok j =
     ebind (stbi_decode_jpeg_header ok SCAN_header j) (\<lambda>j.
       ret (sint (img_x (j_s j)), sint (img_y (j_s j)), if img_n (j_s j) \<ge> 3 then 3 else 1))"

definition stbi_jpeg_info :: "allocator \<Rightarrow> 'u stbi_context \<Rightarrow> (int \<times> int \<times> int) res" where
  "stbi_jpeg_info ok s =
     (if \<not> ok sizeof_jpeg then stbi_err ''outofmem'' else stbi_jpeg_info_raw ok (zero_jpeg s))"

end
