(* ===== verification/Stb_Load.thy ===== *)
theory Stb_Load
  imports Png_File Bmp Jpeg_Load
begin

text \<open>
  Loading an image: the choice of the format, the conversion to 8 or 16 bits and the optional
  flip of src/user/facet/gpu/stb_image.h (lines 1146 to 1434), and the bridge of
  src/user/facet/gpu/facet_image.c, which asks for four channels.

  The build of facet_image.c has the PNG, BMP and JPEG readers and no file input.
\<close>

subsection \<open>Choice of the format\<close>

definition stbi_load_main :: "allocator \<Rightarrow> load_flags \<Rightarrow> byte list \<Rightarrow> int \<Rightarrow> 'u stbi_context \<Rightarrow> loaded res" where
  "stbi_load_main ok flags stack req_comp s = do {
     (png, s) \<leftarrow> stbi_png_test s;
     if png then stbi_png_load ok flags stack req_comp s
     else do {
       (bmp, s) \<leftarrow> stbi_bmp_test s;
       if bmp then stbi_bmp_load ok stack req_comp s
       else do {
         (jpg, s) \<leftarrow> stbi_jpeg_test ok s;
         if jpg then stbi_jpeg_load ok req_comp s
         else stbi_err ''unknown image type'' } } }"

subsection \<open>Post-processing\<close>

definition result_channels :: "int \<Rightarrow> loaded \<Rightarrow> int" where
  "result_channels req_comp r = (if req_comp = 0 then ld_comp r else req_comp)"

definition flip_on_load :: "load_flags \<Rightarrow> int \<Rightarrow> int \<Rightarrow> loaded \<Rightarrow> loaded res" where
  "flip_on_load flags req_comp sample_bytes r =
     (if flag_value (flip_vertically_on_load flags) then do {
        d \<leftarrow> stbi_vertical_flip (ld_data r) (ld_x r) (ld_y r) (result_channels req_comp r * sample_bytes);
        ret (r\<lparr>ld_data := d\<rparr>) }
      else ret r)"

definition stbi_load_and_postprocess_8bit ::
    "allocator \<Rightarrow> load_flags \<Rightarrow> byte list \<Rightarrow> int \<Rightarrow> 'u stbi_context \<Rightarrow> loaded res" where
  "stbi_load_and_postprocess_8bit ok flags stack req_comp s =
     ebind (stbi_load_main ok flags stack req_comp s) (\<lambda>r.
       if \<not> (ld_bits r = 8 \<or> ld_bits r = 16) then None
       else ebind (if ld_bits r \<noteq> 8 then
                ebind (stbi_convert_16_to_8 ok (ld_data r) (ld_x r) (ld_y r) (result_channels req_comp r))
                  (\<lambda>d. ret (r\<lparr>ld_data := d, ld_bits := 8\<rparr>))
              else ret r) (flip_on_load flags req_comp 1))"

definition stbi_load_and_postprocess_16bit ::
    "allocator \<Rightarrow> load_flags \<Rightarrow> byte list \<Rightarrow> int \<Rightarrow> 'u stbi_context \<Rightarrow> loaded res" where
  "stbi_load_and_postprocess_16bit ok flags stack req_comp s =
     ebind (stbi_load_main ok flags stack req_comp s) (\<lambda>r.
       if \<not> (ld_bits r = 8 \<or> ld_bits r = 16) then None
       else ebind (if ld_bits r \<noteq> 16 then
                ebind (stbi_convert_8_to_16 ok (ld_data r) (ld_x r) (ld_y r) (result_channels req_comp r))
                  (\<lambda>d. ret (r\<lparr>ld_data := d, ld_bits := 16\<rparr>))
              else ret r) (flip_on_load flags req_comp 2))"

subsection \<open>Entry points\<close>

text \<open>The context is a local variable; what it holds before it is started is not read.\<close>

definition fresh_context :: "'u \<Rightarrow> 'u stbi_context" where
  "fresh_context u = \<lparr>img_x = 0, img_y = 0, img_n = 0, img_out_n = 0, io = None, io_user_data = u,
     read_from_callbacks = False, buflen = 0, callback_already_read = 0, buf = [], img_buffer = 0,
     img_buffer_end = 0, img_buffer_original = 0, img_buffer_original_end = 0\<rparr>"

definition stbi_load_from_memory :: "allocator \<Rightarrow> load_flags \<Rightarrow> byte list \<Rightarrow> bytes \<Rightarrow> int \<Rightarrow> loaded res" where
  "stbi_load_from_memory ok flags stack buffer req_comp =
     stbi_load_and_postprocess_8bit ok flags stack req_comp
       (stbi_start_mem (fresh_context ()) buffer (length buffer))"

definition stbi_load_16_from_memory :: "allocator \<Rightarrow> load_flags \<Rightarrow> byte list \<Rightarrow> bytes \<Rightarrow> int \<Rightarrow> loaded res" where
  "stbi_load_16_from_memory ok flags stack buffer req_comp =
     stbi_load_and_postprocess_16bit ok flags stack req_comp
       (stbi_start_mem (fresh_context ()) buffer (length buffer))"

definition stbi_load_from_callbacks :: "allocator \<Rightarrow> load_flags \<Rightarrow> byte list \<Rightarrow> 'u stbi_io \<Rightarrow> 'u \<Rightarrow> int \<Rightarrow> loaded res" where
  "stbi_load_from_callbacks ok flags stack clbk user req_comp = do {
     s \<leftarrow> stbi_start_callbacks (fresh_context user) clbk user;
     stbi_load_and_postprocess_8bit ok flags stack req_comp s }"

definition stbi_load_16_from_callbacks :: "allocator \<Rightarrow> load_flags \<Rightarrow> byte list \<Rightarrow> 'u stbi_io \<Rightarrow> 'u \<Rightarrow> int \<Rightarrow> loaded res" where
  "stbi_load_16_from_callbacks ok flags stack clbk user req_comp = do {
     s \<leftarrow> stbi_start_callbacks (fresh_context user) clbk user;
     stbi_load_and_postprocess_16bit ok flags stack req_comp s }"

definition stbi_is_16_main :: "allocator \<Rightarrow> load_flags \<Rightarrow> byte list \<Rightarrow> 'u stbi_context \<Rightarrow> bool option" where
  "stbi_is_16_main ok flags stack s = stbi_png_is16 ok flags stack s"

definition stbi_is_16_bit_from_memory :: "allocator \<Rightarrow> load_flags \<Rightarrow> byte list \<Rightarrow> bytes \<Rightarrow> bool option" where
  "stbi_is_16_bit_from_memory ok flags stack buffer =
     stbi_is_16_main ok flags stack (stbi_start_mem (fresh_context ()) buffer (length buffer))"

definition stbi_is_16_bit_from_callbacks :: "allocator \<Rightarrow> load_flags \<Rightarrow> byte list \<Rightarrow> 'u stbi_io \<Rightarrow> 'u \<Rightarrow> bool option" where
  "stbi_is_16_bit_from_callbacks ok flags stack c user = do {
     s \<leftarrow> stbi_start_callbacks (fresh_context user) c user;
     stbi_is_16_main ok flags stack s }"

text \<open>The settings are those of a program that never changes them, as the bridge.\<close>

definition default_flags :: load_flags where
  "default_flags = (let off = \<lparr>flag_global = False, flag_local = False, flag_set = False\<rparr> in
     \<lparr>unpremultiply_on_load = off, de_iphone_flag = off, flip_vertically_on_load = off\<rparr>)"

text \<open>\<^verbatim>\<open>facet_image_decode\<close>: the RGBA block with its size, or \<^verbatim>\<open>NULL\<close>.\<close>

definition facet_image_decode :: "allocator \<Rightarrow> byte list \<Rightarrow> bytes \<Rightarrow> (byte option list \<times> int \<times> int) option option" where
  "facet_image_decode ok stack bytes = do {
     r \<leftarrow> stbi_load_from_memory ok default_flags stack bytes 4;
     Some (case r of Inl e \<Rightarrow> None | Inr im \<Rightarrow> Some (ld_data im, ld_x im, ld_y im)) }"

end
