(* ===== verification/Zlib_Write.thy ===== *)
theory Zlib_Write
  imports Stb_Context
begin

text \<open>
  The DEFLATE compressor of src/user/facet/gpu/stb_image_write.h (lines 812 to 1022): fixed
  Huffman codes, matches found through a hash table of earlier positions, and the fallback to
  stored blocks.

  A stretchy buffer is the list of its elements; when it cannot grow, the code fails an
  assertion, and the model assumes that it grows. Pointers into the data are positions.
\<close>

subsection \<open>Bits\<close>

record zwriter =
  zw_out :: bytes
  bitbuf :: u32
  bitcount :: nat

function stbiw_zlib_flushf :: "bytes \<Rightarrow> u32 \<Rightarrow> nat \<Rightarrow> bytes \<times> u32 \<times> nat" where
  "stbiw_zlib_flushf data bits n =
     (if n \<ge> 8 then stbiw_zlib_flushf (data @ [ucast bits]) (drop_bit 8 bits) (n - 8) else (data, bits, n))"
  by pat_completeness auto
termination
  by (relation "measure (\<lambda>(data, bits, n). n)") auto

declare stbiw_zlib_flushf.simps [simp del]

text \<open>\<^verbatim>\<open>stbiw__zlib_add\<close>\<close>

definition stbiw_zlib_add :: "u32 \<Rightarrow> nat \<Rightarrow> zwriter \<Rightarrow> zwriter" where
  "stbiw_zlib_add code codebits w =
     (let (d, b, n) = stbiw_zlib_flushf (zw_out w) (bitbuf w OR push_bit (bitcount w) code) (bitcount w + codebits)
      in w\<lparr>zw_out := d, bitbuf := b, bitcount := n\<rparr>)"

primrec bitrev_loop :: "nat \<Rightarrow> nat \<Rightarrow> nat \<Rightarrow> nat" where
  "bitrev_loop 0 res code = res"
| "bitrev_loop (Suc n) res code = bitrev_loop n (2 * res + code mod 2) (code div 2)"

definition stbiw_zlib_bitrev :: "nat \<Rightarrow> nat \<Rightarrow> nat" where
  "stbiw_zlib_bitrev code codebits = bitrev_loop codebits 0 code"

text \<open>The fixed Huffman codes: \<^verbatim>\<open>stbiw__zlib_huff1\<close> to \<^verbatim>\<open>huff4\<close>, \<^verbatim>\<open>huff\<close> and \<^verbatim>\<open>huffb\<close>.\<close>

definition stbiw_zlib_huffa :: "nat \<Rightarrow> nat \<Rightarrow> zwriter \<Rightarrow> zwriter" where
  "stbiw_zlib_huffa b c = stbiw_zlib_add (word_of_nat (stbiw_zlib_bitrev b c)) c"

definition stbiw_zlib_huff :: "nat \<Rightarrow> zwriter \<Rightarrow> zwriter" where
  "stbiw_zlib_huff n =
     (if n \<le> 143 then stbiw_zlib_huffa (0x30 + n) 8
      else if n \<le> 255 then stbiw_zlib_huffa (0x190 + n - 144) 9
      else if n \<le> 279 then stbiw_zlib_huffa (n - 256) 7
      else stbiw_zlib_huffa (0xc0 + n - 280) 8)"

definition stbiw_zlib_huffb :: "nat \<Rightarrow> zwriter \<Rightarrow> zwriter" where
  "stbiw_zlib_huffb n =
     (if n \<le> 143 then stbiw_zlib_huffa (0x30 + n) 8 else stbiw_zlib_huffa (0x190 + n - 144) 9)"

subsection \<open>Matches\<close>

text \<open>The number of equal bytes at \<open>a\<close> and \<open>b\<close>, at most \<open>limit\<close> and 258.\<close>

function countm_loop :: "bytes \<Rightarrow> nat \<Rightarrow> nat \<Rightarrow> nat \<Rightarrow> nat \<Rightarrow> nat option" where
  "countm_loop data a b limit i =
     (if i < limit \<and> i < 258 then do {
        x \<leftarrow> aget data (a + i);
        y \<leftarrow> aget data (b + i);
        if x \<noteq> y then Some i else countm_loop data a b limit (i + 1) }
      else Some i)"
  by pat_completeness auto
termination
  by (relation "measure (\<lambda>(data, a, b, limit, i). 258 - i)") auto

declare countm_loop.simps [simp del]

definition stbiw_zlib_countm :: "bytes \<Rightarrow> nat \<Rightarrow> nat \<Rightarrow> nat \<Rightarrow> nat option" where
  "stbiw_zlib_countm data a b limit = countm_loop data a b limit 0"

definition stbiw_zhash :: "bytes \<Rightarrow> nat \<Rightarrow> u32 option" where
  "stbiw_zhash data p = do {
     d0 \<leftarrow> aget data p; d1 \<leftarrow> aget data (p + 1); d2 \<leftarrow> aget data (p + 2);
     let hash = ucast d0 + push_bit 8 (ucast d1) + push_bit 16 (ucast d2);
     let hash = hash XOR push_bit 3 hash;
     let hash = hash + drop_bit 5 hash;
     let hash = hash XOR push_bit 4 hash;
     let hash = hash + drop_bit 17 hash;
     let hash = hash XOR push_bit 25 hash;
     Some (hash + drop_bit 6 hash) }"

definition stbiw_ZHASH :: nat where "stbiw_ZHASH = 16384"

definition zslot :: "bytes \<Rightarrow> nat \<Rightarrow> nat option" where
  "zslot data p = do { h \<leftarrow> stbiw_zhash data p; Some (unat h mod stbiw_ZHASH) }"

text \<open>The longest match at \<open>i\<close> among the positions \<open>ps\<close> that lie in the window; the last of
  equally long ones wins.\<close>

fun best_match :: "bytes \<Rightarrow> nat \<Rightarrow> nat list \<Rightarrow> nat \<Rightarrow> nat option \<Rightarrow> (nat \<times> nat option) option" where
  "best_match data i [] best loc = Some (best, loc)"
| "best_match data i (p # ps) best loc =
     (if int p > int i - 32768 then do {
        d \<leftarrow> stbiw_zlib_countm data p i (length data - i);
        if d \<ge> best then best_match data i ps d (Some p) else best_match data i ps best loc }
      else best_match data i ps best loc)"

text \<open>Lazy matching: is there a longer match one byte later?\<close>

fun better_next :: "bytes \<Rightarrow> nat \<Rightarrow> nat list \<Rightarrow> nat \<Rightarrow> bool option" where
  "better_next data i [] best = Some False"
| "better_next data i (p # ps) best =
     (if int p > int i - 32767 then do {
        e \<leftarrow> stbiw_zlib_countm data p (i + 1) (length data - i - 1);
        if e > best then Some True else better_next data i ps best }
      else better_next data i ps best)"

text \<open>Entering \<open>i\<close> into its slot; a full slot first loses its older half.\<close>

definition hash_enter :: "nat \<Rightarrow> nat \<Rightarrow> nat list \<Rightarrow> nat list" where
  "hash_enter quality i ps = (if length ps = 2 * quality then drop quality ps else ps) @ [i]"

definition lengthc :: "nat list" where
  "lengthc = [3, 4, 5, 6, 7, 8, 9, 10, 11, 13, 15, 17, 19, 23, 27, 31, 35, 43, 51, 59, 67, 83, 99, 115, 131,
     163, 195, 227, 258, 259]"

definition lengtheb :: "nat list" where
  "lengtheb = [0, 0, 0, 0, 0, 0, 0, 0, 1, 1, 1, 1, 2, 2, 2, 2, 3, 3, 3, 3, 4, 4, 4, 4, 5, 5, 5, 5, 0]"

definition distc :: "nat list" where
  "distc = [1, 2, 3, 4, 5, 7, 9, 13, 17, 25, 33, 49, 65, 97, 129, 193, 257, 385, 513, 769, 1025, 1537, 2049,
     3073, 4097, 6145, 8193, 12289, 16385, 24577, 32768]"

definition disteb :: "nat list" where
  "disteb = [0, 0, 0, 0, 1, 1, 2, 2, 3, 3, 4, 4, 5, 5, 6, 6, 7, 7, 8, 8, 9, 9, 10, 10, 11, 11, 12, 12, 13, 13]"

text \<open>\<^verbatim>\<open>for (j=0; v > tab[j+1]-1; ++j);\<close>\<close>

fun find_code :: "nat list \<Rightarrow> nat \<Rightarrow> nat \<Rightarrow> nat option" where
  "find_code [] v j = None"
| "find_code (t # ts) v j = (if v > t - 1 then find_code ts v (j + 1) else Some j)"

definition emit_match :: "nat \<Rightarrow> nat \<Rightarrow> zwriter \<Rightarrow> zwriter option" where
  "emit_match best d w =
     (if \<not> (d \<le> 32767 \<and> best \<le> 258) then None
      else do {
        j \<leftarrow> find_code (tl lengthc) best 0;
        let w = stbiw_zlib_huff (j + 257) w;
        e \<leftarrow> aget lengtheb j;
        b \<leftarrow> aget lengthc j;
        let w = (if e \<noteq> 0 then stbiw_zlib_add (word_of_nat (best - b)) e w else w);
        j \<leftarrow> find_code (tl distc) d 0;
        let w = stbiw_zlib_add (word_of_nat (stbiw_zlib_bitrev j 5)) 5 w;
        e \<leftarrow> aget disteb j;
        b \<leftarrow> aget distc j;
        Some (if e \<noteq> 0 then stbiw_zlib_add (word_of_nat (d - b)) e w else w) })"

text \<open>One turn of the main loop: \<open>Inl\<close> when fewer than four bytes are left.\<close>

definition compress_step :: "bytes \<Rightarrow> nat \<Rightarrow> nat \<times> nat list list \<times> zwriter \<Rightarrow>
    ((nat \<times> zwriter) + nat \<times> nat list list \<times> zwriter) option" where
  "compress_step data quality st = (case st of (i, tab, w) \<Rightarrow>
     if \<not> int i < int (length data) - 3 then Some (Inl (i, w))
     else do {
       h \<leftarrow> zslot data i;
       hlist \<leftarrow> aget tab h;
       (best, loc) \<leftarrow> best_match data i hlist 3 None;
       tab \<leftarrow> aset tab h (hash_enter quality i hlist);
       loc \<leftarrow> (case loc of None \<Rightarrow> Some None
         | Some p \<Rightarrow> do {
             h \<leftarrow> zslot data (i + 1);
             hlist \<leftarrow> aget tab h;
             b \<leftarrow> better_next data i hlist best;
             Some (if b then None else Some p) });
       case loc of
         Some p \<Rightarrow> do { w \<leftarrow> emit_match best (i - p) w; Some (Inr (i + best, tab, w)) }
       | None \<Rightarrow> do { b \<leftarrow> aget data i; Some (Inr (i + 1, tab, stbiw_zlib_huffb (unat b) w)) } })"

subsection \<open>The compressed stream\<close>

fun pad_zeros :: "zwriter \<Rightarrow> nat \<Rightarrow> zwriter" where
  "pad_zeros w 0 = w"
| "pad_zeros w (Suc n) = (if bitcount w = 0 then w else pad_zeros (stbiw_zlib_add 0 1 w) n)"

text \<open>The padding loop runs at most seven times.\<close>

definition compress_fixed :: "bytes \<Rightarrow> nat \<Rightarrow> bytes option" where
  "compress_fixed data quality = do {
     let w = \<lparr>zw_out = [0x78, 0x5e], bitbuf = 0, bitcount = 0\<rparr>;
     let w = stbiw_zlib_add 1 2 (stbiw_zlib_add 1 1 w);
     (i, w) \<leftarrow> loop (compress_step data quality) (0, replicate stbiw_ZHASH [], w);
     w \<leftarrow> for_upto i (length data) (\<lambda>i w. do { b \<leftarrow> aget data i; Some (stbiw_zlib_huffb (unat b) w) }) w;
     Some (zw_out (pad_zeros (stbiw_zlib_huff 256 w) 8)) }"

text \<open>Stored blocks: \<open>cap\<close> is the number of elements that the buffer has held before; the
  \<^verbatim>\<open>memcpy\<close> does not let it grow.\<close>

definition stored_step :: "bytes \<Rightarrow> nat \<times> nat \<times> bytes \<Rightarrow> (bytes + nat \<times> nat \<times> bytes) option" where
  "stored_step data st = (case st of (j, cap, out) \<Rightarrow>
     if \<not> j < length data then Some (Inl out)
     else do {
       let blocklen = (if length data - j > 32767 then 32767 else length data - j);
       let out = out @ [if length data - j = blocklen then 1 else 0, word_of_nat blocklen, word_of_nat (blocklen div 256),
         NOT (word_of_nat blocklen), NOT (word_of_nat (blocklen div 256))];
       let cap = max cap (length out);
       block \<leftarrow> slice data j blocklen;
       if length out + blocklen > cap then None
       else Some (Inr (j + blocklen, cap, out @ block)) })"

definition compress_stored :: "bytes \<Rightarrow> nat \<Rightarrow> bytes option" where
  "compress_stored data cap = loop (stored_step data) (0, cap, [0x78, 0x5e])"

text \<open>The checksum of the data, with the remainders taken once per block of 5552 bytes.\<close>

definition adler_block :: "bytes \<Rightarrow> nat \<Rightarrow> nat \<Rightarrow> u32 \<times> u32 \<Rightarrow> (u32 \<times> u32) option" where
  "adler_block data j blocklen s = do {
     (s1, s2) \<leftarrow> for_upto 0 blocklen (\<lambda>i (s1, s2). do {
       b \<leftarrow> aget data (j + i);
       let s1 = s1 + ucast b;
       Some (s1, s2 + s1) }) s;
     Some (s1 mod 65521, s2 mod 65521) }"

definition adler_step :: "bytes \<Rightarrow> nat \<times> nat \<times> u32 \<times> u32 \<Rightarrow> (u32 \<times> u32 + nat \<times> nat \<times> u32 \<times> u32) option" where
  "adler_step data st = (case st of (j, blocklen, s) \<Rightarrow>
     if \<not> j < length data then Some (Inl s)
     else do { s \<leftarrow> adler_block data j blocklen s; Some (Inr (j + blocklen, 5552, s)) })"

definition adler32 :: "bytes \<Rightarrow> (u32 \<times> u32) option" where
  "adler32 data = loop (adler_step data) (0, length data mod 5552, 1, 0)"

definition stbi_zlib_compress :: "allocator \<Rightarrow> bytes \<Rightarrow> int \<Rightarrow> bytes option option" where
  "stbi_zlib_compress ok data quality =
     (if \<not> ok (stbiw_ZHASH * 8) then Some None
      else do {
        let quality = (if quality < 5 then 5 else quality);
        out \<leftarrow> compress_fixed data (nat quality);
        limit \<leftarrow> i32 (int (length data) + 2 + (int (length data) + 32766) div 32767 * 5);
        out \<leftarrow> (if int (length out) > limit
                then compress_stored data (length out) else Some out);
        (s1, s2) \<leftarrow> adler32 data;
        Some (Some (out @ [ucast (drop_bit 8 s2), ucast s2, ucast (drop_bit 8 s1), ucast s1])) })"

end
