(* ===== verification/Png_Write.thy ===== *)
theory Png_Write
  imports Zlib_Write
begin

text \<open>
  The PNG writer of src/user/facet/gpu/stb_image_write.h (lines 1024 to 1241): checksums, scanline
  filters with the choice of the best one, and the assembly of the file.

  The pixels are the bytes of the caller's image; a scanline starts at an offset that may count
  backwards when images are flipped. The compressor and the blocks of the writer use the
  allocator \<open>ok\<close>; \<^verbatim>\<open>NULL\<close> is the inner \<open>None\<close>.
\<close>

subsection \<open>Checksum\<close>

definition crc_table :: "u32 list" where
  "crc_table = [
     0x00000000, 0x77073096, 0xee0e612c, 0x990951ba, 0x076dc419, 0x706af48f, 0xe963a535, 0x9e6495a3,
     0x0edb8832, 0x79dcb8a4, 0xe0d5e91e, 0x97d2d988, 0x09b64c2b, 0x7eb17cbd, 0xe7b82d07, 0x90bf1d91,
     0x1db71064, 0x6ab020f2, 0xf3b97148, 0x84be41de, 0x1adad47d, 0x6ddde4eb, 0xf4d4b551, 0x83d385c7,
     0x136c9856, 0x646ba8c0, 0xfd62f97a, 0x8a65c9ec, 0x14015c4f, 0x63066cd9, 0xfa0f3d63, 0x8d080df5,
     0x3b6e20c8, 0x4c69105e, 0xd56041e4, 0xa2677172, 0x3c03e4d1, 0x4b04d447, 0xd20d85fd, 0xa50ab56b,
     0x35b5a8fa, 0x42b2986c, 0xdbbbc9d6, 0xacbcf940, 0x32d86ce3, 0x45df5c75, 0xdcd60dcf, 0xabd13d59,
     0x26d930ac, 0x51de003a, 0xc8d75180, 0xbfd06116, 0x21b4f4b5, 0x56b3c423, 0xcfba9599, 0xb8bda50f,
     0x2802b89e, 0x5f058808, 0xc60cd9b2, 0xb10be924, 0x2f6f7c87, 0x58684c11, 0xc1611dab, 0xb6662d3d,
     0x76dc4190, 0x01db7106, 0x98d220bc, 0xefd5102a, 0x71b18589, 0x06b6b51f, 0x9fbfe4a5, 0xe8b8d433,
     0x7807c9a2, 0x0f00f934, 0x9609a88e, 0xe10e9818, 0x7f6a0dbb, 0x086d3d2d, 0x91646c97, 0xe6635c01,
     0x6b6b51f4, 0x1c6c6162, 0x856530d8, 0xf262004e, 0x6c0695ed, 0x1b01a57b, 0x8208f4c1, 0xf50fc457,
     0x65b0d9c6, 0x12b7e950, 0x8bbeb8ea, 0xfcb9887c, 0x62dd1ddf, 0x15da2d49, 0x8cd37cf3, 0xfbd44c65,
     0x4db26158, 0x3ab551ce, 0xa3bc0074, 0xd4bb30e2, 0x4adfa541, 0x3dd895d7, 0xa4d1c46d, 0xd3d6f4fb,
     0x4369e96a, 0x346ed9fc, 0xad678846, 0xda60b8d0, 0x44042d73, 0x33031de5, 0xaa0a4c5f, 0xdd0d7cc9,
     0x5005713c, 0x270241aa, 0xbe0b1010, 0xc90c2086, 0x5768b525, 0x206f85b3, 0xb966d409, 0xce61e49f,
     0x5edef90e, 0x29d9c998, 0xb0d09822, 0xc7d7a8b4, 0x59b33d17, 0x2eb40d81, 0xb7bd5c3b, 0xc0ba6cad,
     0xedb88320, 0x9abfb3b6, 0x03b6e20c, 0x74b1d29a, 0xead54739, 0x9dd277af, 0x04db2615, 0x73dc1683,
     0xe3630b12, 0x94643b84, 0x0d6d6a3e, 0x7a6a5aa8, 0xe40ecf0b, 0x9309ff9d, 0x0a00ae27, 0x7d079eb1,
     0xf00f9344, 0x8708a3d2, 0x1e01f268, 0x6906c2fe, 0xf762575d, 0x806567cb, 0x196c3671, 0x6e6b06e7,
     0xfed41b76, 0x89d32be0, 0x10da7a5a, 0x67dd4acc, 0xf9b9df6f, 0x8ebeeff9, 0x17b7be43, 0x60b08ed5,
     0xd6d6a3e8, 0xa1d1937e, 0x38d8c2c4, 0x4fdff252, 0xd1bb67f1, 0xa6bc5767, 0x3fb506dd, 0x48b2364b,
     0xd80d2bda, 0xaf0a1b4c, 0x36034af6, 0x41047a60, 0xdf60efc3, 0xa867df55, 0x316e8eef, 0x4669be79,
     0xcb61b38c, 0xbc66831a, 0x256fd2a0, 0x5268e236, 0xcc0c7795, 0xbb0b4703, 0x220216b9, 0x5505262f,
     0xc5ba3bbe, 0xb2bd0b28, 0x2bb45a92, 0x5cb36a04, 0xc2d7ffa7, 0xb5d0cf31, 0x2cd99e8b, 0x5bdeae1d,
     0x9b64c2b0, 0xec63f226, 0x756aa39c, 0x026d930a, 0x9c0906a9, 0xeb0e363f, 0x72076785, 0x05005713,
     0x95bf4a82, 0xe2b87a14, 0x7bb12bae, 0x0cb61b38, 0x92d28e9b, 0xe5d5be0d, 0x7cdcefb7, 0x0bdbdf21,
     0x86d3d2d4, 0xf1d4e242, 0x68ddb3f8, 0x1fda836e, 0x81be16cd, 0xf6b9265b, 0x6fb077e1, 0x18b74777,
     0x88085ae6, 0xff0f6a70, 0x66063bca, 0x11010b5c, 0x8f659eff, 0xf862ae69, 0x616bffd3, 0x166ccf45,
     0xa00ae278, 0xd70dd2ee, 0x4e048354, 0x3903b3c2, 0xa7672661, 0xd06016f7, 0x4969474d, 0x3e6e77db,
     0xaed16a4a, 0xd9d65adc, 0x40df0b66, 0x37d83bf0, 0xa9bcae53, 0xdebb9ec5, 0x47b2cf7f, 0x30b5ffe9,
     0xbdbdf21c, 0xcabac28a, 0x53b39330, 0x24b4a3a6, 0xbad03605, 0xcdd70693, 0x54de5729, 0x23d967bf,
     0xb3667a2e, 0xc4614ab8, 0x5d681b02, 0x2a6f2b94, 0xb40bbe37, 0xc30c8ea1, 0x5a05df1b, 0x2d02ef8d]"

definition stbiw_crc32 :: "bytes \<Rightarrow> u32 option" where
  "stbiw_crc32 buffer = do {
     crc \<leftarrow> for_upto 0 (length buffer) (\<lambda>i crc. do {
       b \<leftarrow> aget buffer i;
       t \<leftarrow> aget crc_table (unat (ucast b XOR (crc AND 0xff)));
       Some (drop_bit 8 crc XOR t) }) (NOT 0);
     Some (NOT crc) }"

text \<open>The macros that write four bytes, and the checksum over a chunk's tag and data.\<close>

definition stbiw_wp32 :: "u32 \<Rightarrow> bytes" where
  "stbiw_wp32 v = [ucast (drop_bit 24 v), ucast (drop_bit 16 v), ucast (drop_bit 8 v), ucast v]"

definition stbiw_wptag :: "string \<Rightarrow> bytes" where
  "stbiw_wptag s = map of_char s"

definition stbiw_wpcrc :: "nat \<Rightarrow> bytes \<Rightarrow> bytes option" where
  "stbiw_wpcrc len o' = do {
     d \<leftarrow> slice o' (length o' - len - 4) (len + 4);
     crc \<leftarrow> stbiw_crc32 d;
     Some (o' @ stbiw_wp32 crc) }"

subsection \<open>Scanline filters\<close>

definition stbiw_paeth :: "int \<Rightarrow> int \<Rightarrow> int \<Rightarrow> int" where
  "stbiw_paeth a b c =
     (let p = a + b - c; pa = \<bar>p - a\<bar>; pb = \<bar>p - b\<bar>; pc = \<bar>p - c\<bar> in
      if pa \<le> pb \<and> pa \<le> pc then a else if pb \<le> pc then b else c)"

record write_settings =
  png_compression_level :: int
  force_png_filter :: int
  flip_on_write :: bool

text \<open>Byte \<open>i\<close> of the scanline at \<open>z\<close>, filtered; \<open>ss\<close> is the distance to the previous scanline.
  The first \<open>n\<close> bytes have no left neighbour.\<close>

definition encode_first :: "nat \<Rightarrow> bytes \<Rightarrow> int \<Rightarrow> int \<Rightarrow> nat \<Rightarrow> byte option" where
  "encode_first type pixels z ss i = do {
     v \<leftarrow> iget pixels (z + int i);
     if type = 1 \<or> type = 5 \<or> type = 6 then Some v
     else do {
       b \<leftarrow> iget pixels (z + int i - ss);
       if type = 2 then Some (v - b)
       else if type = 3 then Some (word_of_int (uint v - uint b div 2))
       else if type = 4 then Some (word_of_int (uint v - stbiw_paeth 0 (uint b) 0))
       else None } }"

definition encode_rest :: "nat \<Rightarrow> bytes \<Rightarrow> int \<Rightarrow> int \<Rightarrow> nat \<Rightarrow> nat \<Rightarrow> byte option" where
  "encode_rest type pixels z ss n i = do {
     v \<leftarrow> iget pixels (z + int i);
     if type = 1 then do { a \<leftarrow> iget pixels (z + int i - int n); Some (v - a) }
     else if type = 2 then do { b \<leftarrow> iget pixels (z + int i - ss); Some (v - b) }
     else if type = 3 then do {
       a \<leftarrow> iget pixels (z + int i - int n);
       b \<leftarrow> iget pixels (z + int i - ss);
       Some (word_of_int (uint v - (uint a + uint b) div 2)) }
     else if type = 4 then do {
       a \<leftarrow> iget pixels (z + int i - int n);
       b \<leftarrow> iget pixels (z + int i - ss);
       c \<leftarrow> iget pixels (z + int i - ss - int n);
       Some (word_of_int (uint v - stbiw_paeth (uint a) (uint b) (uint c))) }
     else if type = 5 then do { a \<leftarrow> iget pixels (z + int i - int n); Some (word_of_int (uint v - uint a div 2)) }
     else if type = 6 then do { a \<leftarrow> iget pixels (z + int i - int n); Some (word_of_int (uint v - stbiw_paeth (uint a) 0 0)) }
     else None }"

definition stbiw_encode_png_line :: "bool \<Rightarrow> bytes \<Rightarrow> int \<Rightarrow> int \<Rightarrow> int \<Rightarrow> int \<Rightarrow> nat \<Rightarrow> nat \<Rightarrow> byte option list \<Rightarrow>
    byte option list option" where
  "stbiw_encode_png_line flip pixels stride_bytes width height y n filter_type line_buffer = do {
     type \<leftarrow> aget (if y \<noteq> 0 then [0, 1, 2, 3, 4] else [0, 1, 0, 5, 6]) filter_type;
     z \<leftarrow> i32 (stride_bytes * (if flip then height - 1 - y else y));
     let ss = (if flip then - stride_bytes else stride_bytes);
     wn \<leftarrow> i32 (width * int n);
     if type = (0 :: nat) then
       for_upto 0 (nat wn) (\<lambda>i line. do { v \<leftarrow> iget pixels (z + int i); wr line i v }) line_buffer
     else do {
       line \<leftarrow> for_upto 0 n (\<lambda>i line. do { v \<leftarrow> encode_first type pixels z ss i; wr line i v }) line_buffer;
       for_upto n (nat wn) (\<lambda>i line. do { v \<leftarrow> encode_rest type pixels z ss n i; wr line i v }) line } }"

text \<open>The sum of the absolute values of the filtered bytes, taken as signed.\<close>

definition line_estimate :: "nat \<Rightarrow> byte option list \<Rightarrow> int option" where
  "line_estimate wn line = for_upto 0 wn (\<lambda>i est. do { v \<leftarrow> rd line i; i32 (est + \<bar>sint v\<bar>) }) 0"

text \<open>The choice among the five filters, and the scanline encoded with it.\<close>

definition best_filter :: "bool \<Rightarrow> bytes \<Rightarrow> int \<Rightarrow> int \<Rightarrow> int \<Rightarrow> int \<Rightarrow> nat \<Rightarrow> nat \<Rightarrow> byte option list \<Rightarrow>
    (nat \<times> byte option list) option" where
  "best_filter flip pixels stride_bytes x y j n wn line_buffer = do {
     (best, _, line) \<leftarrow> for_upto 0 5 (\<lambda>t (best, best_val, line). do {
       line \<leftarrow> stbiw_encode_png_line flip pixels stride_bytes x y j n t line;
       est \<leftarrow> line_estimate wn line;
       Some (if est < best_val then (t, est, line) else (best, best_val, line)) }) (0, 0x7fffffff, line_buffer);
     line \<leftarrow> stbiw_encode_png_line flip pixels stride_bytes x y j n best line;
     Some (best, line) }"

subsection \<open>The file\<close>

text \<open>One scanline: the filter and the filtered bytes in the line buffer, and the turn of the loop that stores them.\<close>

definition png_filter_line :: "write_settings \<Rightarrow> bytes \<Rightarrow> int \<Rightarrow> int \<Rightarrow> int \<Rightarrow> nat \<Rightarrow> nat \<Rightarrow> nat \<Rightarrow>
    byte option list \<Rightarrow> (nat \<times> byte option list) option" where
  "png_filter_line ws pixels stride_bytes x y n wn j line =
     (if force_png_filter ws > - 1 \<and> force_png_filter ws < 5 then do {
        line \<leftarrow> stbiw_encode_png_line (flip_on_write ws) pixels stride_bytes x y (int j) n (nat (force_png_filter ws)) line;
        Some (nat (force_png_filter ws), line) }
      else best_filter (flip_on_write ws) pixels stride_bytes x y (int j) n wn line)"

definition png_filter_row :: "write_settings \<Rightarrow> bytes \<Rightarrow> int \<Rightarrow> int \<Rightarrow> int \<Rightarrow> nat \<Rightarrow> nat \<Rightarrow> nat \<Rightarrow>
    byte option list \<times> byte option list \<Rightarrow> (byte option list \<times> byte option list) option" where
  "png_filter_row ws pixels stride_bytes x y n wn j st = (case st of (filt, line) \<Rightarrow> do {
     (t, line) \<leftarrow> png_filter_line ws pixels stride_bytes x y n wn j line;
     filt \<leftarrow> wr filt (j * (wn + 1)) (word_of_nat t);
     d \<leftarrow> slice line 0 wn;
     filt \<leftarrow> blit filt (j * (wn + 1) + 1) d;
     Some (filt, line) })"

definition png_filter_rows :: "write_settings \<Rightarrow> bytes \<Rightarrow> int \<Rightarrow> int \<Rightarrow> int \<Rightarrow> nat \<Rightarrow> nat \<Rightarrow>
    byte option list \<times> byte option list \<Rightarrow> (byte option list \<times> byte option list) option" where
  "png_filter_rows ws pixels stride_bytes x y n wn st =
     for_upto 0 (nat y) (png_filter_row ws pixels stride_bytes x y n wn) st"

definition png_assemble :: "int \<Rightarrow> int \<Rightarrow> nat \<Rightarrow> bytes \<Rightarrow> bytes option" where
  "png_assemble x y n zlib = do {
     ct \<leftarrow> aget [- 1, 0, 4, 2, 6] n;
     let o' = [137, 80, 78, 71, 13, 10, 26, 10] @ stbiw_wp32 13 @ stbiw_wptag ''IHDR'' @
       stbiw_wp32 (word_of_int x) @ stbiw_wp32 (word_of_int y) @ [8, word_of_int ct, 0, 0, 0];
     o' \<leftarrow> stbiw_wpcrc 13 o';
     let o' = o' @ stbiw_wp32 (word_of_nat (length zlib)) @ stbiw_wptag ''IDAT'' @ zlib;
     o' \<leftarrow> stbiw_wpcrc (length zlib) o';
     let o' = o' @ stbiw_wp32 0 @ stbiw_wptag ''IEND'';
     stbiw_wpcrc 0 o' }"

definition stbi_write_png_to_mem :: "allocator \<Rightarrow> write_settings \<Rightarrow> bytes \<Rightarrow> int \<Rightarrow> int \<Rightarrow> int \<Rightarrow> nat \<Rightarrow> bytes option option" where
  "stbi_write_png_to_mem ok ws pixels stride_bytes x y n = do {
     wn \<leftarrow> i32 (x * int n);
     wn1 \<leftarrow> i32 (wn + 1);
     sz \<leftarrow> i32 (wn1 * y);
     let stride_bytes = (if stride_bytes = 0 then wn else stride_bytes);
     case stbi_malloc ok (unat (word_of_int sz :: u64)) of None \<Rightarrow> Some None
     | Some filt \<Rightarrow> (case stbi_malloc ok (unat (word_of_int wn :: u64)) of None \<Rightarrow> Some None
       | Some line \<Rightarrow> do {
           (filt, _) \<leftarrow> png_filter_rows ws pixels stride_bytes x y n (nat wn) (filt, line);
           d \<leftarrow> all_some filt;
           z \<leftarrow> stbi_zlib_compress ok d (png_compression_level ws);
           case z of None \<Rightarrow> Some None
           | Some zlib \<Rightarrow>
               if \<not> ok (8 + 12 + 13 + 12 + length zlib + 12) then Some None
               else do { o' \<leftarrow> png_assemble x y n zlib; Some (Some o') } }) }"

text \<open>\<open>func\<close> is the caller's function, on a state of its own; the answer tells whether it was
  called.\<close>

definition stbi_write_png_to_func :: "allocator \<Rightarrow> write_settings \<Rightarrow> ('c \<Rightarrow> bytes \<Rightarrow> 'c) \<Rightarrow> 'c \<Rightarrow> int \<Rightarrow> int \<Rightarrow> nat \<Rightarrow> bytes \<Rightarrow>
    int \<Rightarrow> (bool \<times> 'c) option" where
  "stbi_write_png_to_func ok ws func ctx x y nc data stride_bytes = do {
     png \<leftarrow> stbi_write_png_to_mem ok ws data stride_bytes x y nc;
     Some (case png of None \<Rightarrow> (False, ctx) | Some p \<Rightarrow> (True, func ctx p)) }"

end
