(* ===== verification/Png_Filters.thy ===== *)
theory Png_Filters
  imports Png_Image Png_Write
begin

text \<open>
  The scanline filters of the reader and of the writer belong together: the two Paeth predictors
  are the same function, the reader undoes a filter as the PNG specification says, and undoing
  the filter of a scanline that the writer has encoded gives the scanline back.
\<close>

subsection \<open>The Paeth predictor\<close>

lemma paeth_eq: "stbi_paeth a b c = stbiw_paeth a b c"
proof -
  have abs: "\<bar>x\<bar> = (if x < 0 then - x else x)" for x :: int by auto
  show ?thesis unfolding stbi_paeth_def stbiw_paeth_def Let_def abs by (simp split: if_splits)
qed

lemma paeth_edges: "0 \<le> a \<Longrightarrow> stbiw_paeth a 0 0 = a" "0 \<le> b \<Longrightarrow> stbiw_paeth 0 b 0 = b"
  by (simp_all add: stbiw_paeth_def)

text \<open>The branch-free Paeth predictor of the PNG reader computes the predictor of the PNG
  specification, in the form in which the writer has it: the neighbour closest to a + b - c,
  with ties resolved in the order left, above, above left. This holds for all integers.\<close>

theorem paeth_equivalent: "stbi_paeth a b c = stbiw_paeth a b c"
  by (rule paeth_eq)

subsection \<open>Reconstruction of a scanline\<close>

text \<open>The prediction of a byte from its neighbours on the left, above and above left, and the
  scanline that the filter type \<open>t\<close> and the differences \<open>raw\<close> stand for; neighbours outside the
  image are 0.\<close>

definition predict :: "nat \<Rightarrow> int \<Rightarrow> int \<Rightarrow> int \<Rightarrow> int" where
  "predict t a b c =
     (if t = 0 then 0 else if t = 1 then a else if t = 2 then b else if t = 3 then (a + b) div 2
      else stbiw_paeth a b c)"

definition left_of :: "nat \<Rightarrow> bytes \<Rightarrow> nat \<Rightarrow> int" where
  "left_of f xs k = (if k < f then 0 else uint (xs ! (k - f)))"

primrec unfilter :: "nat \<Rightarrow> nat \<Rightarrow> bytes \<Rightarrow> bytes \<Rightarrow> nat \<Rightarrow> bytes" where
  "unfilter t f prior raw 0 = []"
| "unfilter t f prior raw (Suc k) =
     unfilter t f prior raw k @
       [bytecast (uint (raw ! k) + predict t (left_of f (unfilter t f prior raw k) k) (uint (prior ! k)) (left_of f prior k))]"

lemma length_unfilter [simp]: "length (unfilter t f prior raw n) = n"
  by (induction n) auto

lemma unfilter_prefix: "k \<le> n \<Longrightarrow> i < k \<Longrightarrow> unfilter t f prior raw n ! i = unfilter t f prior raw k ! i"
  by (induction n) (auto simp: nth_append le_Suc_eq)

lemma unfilter_nth:
  assumes "k < n" and "0 < f"
  shows "unfilter t f prior raw n ! k = bytecast (uint (raw ! k) +
    predict t (left_of f (unfilter t f prior raw n) k) (uint (prior ! k)) (left_of f prior k))"
proof -
  have "unfilter t f prior raw n ! k = unfilter t f prior raw (Suc k) ! k"
    using assms by (intro unfilter_prefix) auto
  moreover have "left_of f (unfilter t f prior raw k) k = left_of f (unfilter t f prior raw n) k"
    using assms unfilter_prefix [of k n "k - f"] by (auto simp: left_of_def)
  ultimately show ?thesis by (simp add: nth_append)
qed

text \<open>The state of the filter buffer after \<open>k\<close> bytes of the scanline \<open>X\<close>.\<close>

definition row_inv :: "byte option list \<Rightarrow> nat \<Rightarrow> bytes \<Rightarrow> nat \<Rightarrow> byte option list \<Rightarrow> bool" where
  "row_inv fb0 cur X k fb \<longleftrightarrow> length fb = length fb0 \<and> (\<forall>i < k. fb ! (cur + i) = Some (X ! i)) \<and>
     (\<forall>i < length fb0. i < cur \<or> cur + length X \<le> i \<longrightarrow> fb ! i = fb0 ! i)"

lemma row_inv_0: "row_inv fb cur X 0 fb"
  by (simp add: row_inv_def)

lemma row_inv_wr:
  assumes "row_inv fb0 cur X k fb" and "k < length X" and "cur + length X \<le> length fb0"
  shows "sat (wr fb (cur + k) (X ! k)) (row_inv fb0 cur X (Suc k))"
  using assms by (auto simp: row_inv_def nth_list_update less_Suc_eq)

lemma row_inv_blit:
  assumes "n \<le> length X" and "cur + length X \<le> length fb" and "length d = n" and "\<And>i. i < n \<Longrightarrow> d ! i = Some (X ! i)"
  shows "sat (blit fb cur d) (row_inv fb cur X n)"
  using assms by (auto simp: row_inv_def nth_append)

lemma row_inv_cur: "row_inv fb0 cur X k fb \<Longrightarrow> i < k \<Longrightarrow> k \<le> length X \<Longrightarrow> cur + length X \<le> length fb0 \<Longrightarrow> rd fb (cur + i) = Some (X ! i)"
  by (auto simp: row_inv_def)

lemma row_inv_other:
  "row_inv fb0 cur X k fb \<Longrightarrow> i < cur \<or> cur + length X \<le> i \<Longrightarrow> rd fb i = rd fb0 i"
  by (cases "i < length fb0") (auto simp: row_inv_def rd_def aget_def)

text \<open>A loop that stores \<open>X\<close> byte by byte.\<close>

lemma row_loop:
  assumes "row_inv fb0 cur X lo fb" and "lo \<le> hi" and "hi \<le> length X" and "cur + length X \<le> length fb0"
    and "\<And>k fb. lo \<le> k \<Longrightarrow> k < hi \<Longrightarrow> row_inv fb0 cur X k fb \<Longrightarrow> body k fb = wr fb (cur + k) (X ! k)"
  shows "sat (for_upto lo hi body fb) (row_inv fb0 cur X hi)"
proof (rule sat_for_upto [where P = "row_inv fb0 cur X", OF assms(1,2)])
  fix k fb assume k: "lo \<le> k" "k < hi" and I: "row_inv fb0 cur X k fb"
  then show "sat (body k fb) (row_inv fb0 cur X (Suc k))"
    using assms(3-5) row_inv_wr [OF I] by simp
qed

lemma bytecast_uint [simp]: "bytecast (uint v) = v"
  by (simp add: bytecast_def)

text \<open>On the first scanline the reader replaces the filter by one that needs no row above.\<close>

definition effective_filter :: "bool \<Rightarrow> nat \<Rightarrow> nat" where
  "effective_filter first t = (if first then first_row_filter ! t else t)"

lemmas filter_codes = STBI_F_none_def STBI_F_sub_def STBI_F_up_def STBI_F_avg_def STBI_F_paeth_def
  STBI_F_avg_first_def first_row_filter_def

lemma filter_row_ok:
  assumes t: "t \<le> 4" and f: "0 < f" "f \<le> nk"
    and raw: "length d = nk" "\<And>k. k < nk \<Longrightarrow> rd raw (r + k) = Some (d ! k)"
    and fb: "cur + nk \<le> length fb" and sep: "prior + nk \<le> cur \<or> cur + nk \<le> prior"
    and above: "length p = nk" "\<And>k. k < nk \<Longrightarrow> if first then p ! k = 0 else rd fb (prior + k) = Some (p ! k)"
  shows "sat (filter_row (effective_filter first t) raw r fb cur prior nk f) (row_inv fb cur (unfilter t f p d nk) nk)"
proof -
  define X where "X = unfilter t f p d nk"
  have lX [simp]: "length X = nk" by (simp add: X_def)
  have X: "X ! k = bytecast (uint (d ! k) + predict t (left_of f X k) (uint (p ! k)) (left_of f p k))" if "k < nk" for k
    using that f by (simp add: X_def unfilter_nth)
  have rl: "r + nk \<le> length raw" using raw(2) [of "nk - 1"] f by (auto simp: rd_Some_iff)
  define row where "row n = take n (drop r raw)" for n
  have sl: "slice raw r n = Some (row n)" if "n \<le> nk" for n using rl that by (simp add: row_def)
  have copy: "sat (blit fb cur (row n)) (row_inv fb cur X n)" if n: "n \<le> nk" and eq: "\<And>i. i < n \<Longrightarrow> X ! i = d ! i" for n
  proof (rule row_inv_blit)
    show "row n ! i = Some (X ! i)" if "i < n" for i
      using raw(2) [of i] that n rl eq by (auto simp: rd_Some_iff row_def)
  qed (use fb n rl in \<open>auto simp: row_def\<close>)
  have left: "rd g (cur + (k - f)) = Some (X ! (k - f))" if "row_inv fb cur X k g" "f \<le> k" "k < nk" for g k
    using row_inv_cur [OF that(1), of "k - f"] that f fb by simp
  have upr: "rd g (prior + k) = Some (p ! k)" if "row_inv fb cur X i g" "k < nk" "\<not> first" for g k i
    using row_inv_other [OF that(1), of "prior + k"] above(2) [OF that(2)] that sep by auto
  note loop = row_loop [where X = X and cur = cur and ?fb0.0 = fb, OF _ _ _ fb [folded lX]]
  have rawk: "rd raw (r + k) = Some (d ! k)" if "k < nk" for k using raw(2) that .
  have zero: "first \<longrightarrow> p ! k = 0" if "k < nk" for k using above(2) [OF that] by simp
  have lk: "left_of f xs k = uint (xs ! (k - f))" if "f \<le> k" for xs k using that by (simp add: left_of_def)
  have l0: "left_of f xs k = 0" if "k < f" for xs k using that by (simp add: left_of_def)
  consider (none) "t = 0 \<or> first \<and> t = 2" | (sub) "t = 1 \<or> first \<and> t = 4" | (up) "t = 2" "\<not> first"
    | (avg) "t = 3" "\<not> first" | (avg_first) "t = 3" first | (paeth) "t = 4" "\<not> first"
    using t by linarith
  then have "sat (filter_row (effective_filter first t) raw r fb cur prior nk f) (row_inv fb cur X nk)"
  proof cases
    case none
    have "X ! i = d ! i" if "i < nk" for i using X [OF that] none above(2) [OF that] by (auto simp: predict_def)
    moreover have "effective_filter first t = STBI_F_none" using none by (auto simp: filter_codes effective_filter_def)
    ultimately show ?thesis using copy [of nk] sl [of nk] by (simp add: filter_row_def)
  next
    case sub
    have px: "predict t a b c = a" if "0 \<le> a" "first \<longrightarrow> b = 0 \<and> c = 0" for a b c
      using that sub paeth_edges by (auto simp: predict_def)
    have Xs: "X ! k = bytecast (uint (d ! k) + left_of f X k)" if "k < nk" for k
      using X [OF that] px [of "left_of f X k" "uint (p ! k)" "left_of f p k"] zero [of k] zero [of "k - f"] that
      by (auto simp: left_of_def)
    have body: "(do { v \<leftarrow> rd raw (r + k); a \<leftarrow> rd g (cur + (k - f)); wr g (cur + k) (bytecast (uint v + uint a)) })
        = wr g (cur + k) (X ! k)" if "f \<le> k" "k < nk" "row_inv fb cur X k g" for k g
      using left [OF that(3,1,2)] rawk [OF that(2)] Xs [OF that(2)] lk [OF that(1)] by simp
    have e: "effective_filter first t = 1" using sub by (auto simp: filter_codes effective_filter_def)
    show ?thesis unfolding e filter_row_def filter_codes
      by (simp add: sl [OF f(2)]) (rule sat_bind [OF copy loop]; (assumption | rule body; assumption | use f in \<open>simp add: Xs l0\<close>))
  next
    case up
    have body: "(do { v \<leftarrow> rd raw (r + k); b \<leftarrow> rd g (prior + k); wr g (cur + k) (bytecast (uint v + uint b)) })
        = wr g (cur + k) (X ! k)" if "k < nk" "row_inv fb cur X k g" for k g
      using upr [OF that(2,1)] rawk [OF that(1)] X [OF that(1)] up by (simp add: predict_def)
    show ?thesis unfolding filter_row_def filter_codes using up body
      by (simp add: effective_filter_def) (rule loop [OF row_inv_0], auto)
  next
    case avg_first
    have Xa: "X ! k = bytecast (uint (d ! k) + left_of f X k div 2)" if "k < nk" for k
      using X [OF that] zero [of k] that avg_first by (simp add: predict_def)
    have body: "(do { v \<leftarrow> rd raw (r + k); a \<leftarrow> rd g (cur + (k - f)); wr g (cur + k) (bytecast (uint v + uint a div 2)) })
        = wr g (cur + k) (X ! k)" if "f \<le> k" "k < nk" "row_inv fb cur X k g" for k g
      using left [OF that(3,1,2)] rawk [OF that(2)] Xa [OF that(2)] lk [OF that(1)] by simp
    have e: "effective_filter first t = 5" using avg_first by (auto simp: filter_codes effective_filter_def)
    show ?thesis unfolding e filter_row_def filter_codes
      by (simp add: sl [OF f(2)]) (rule sat_bind [OF copy loop]; (assumption | rule body; assumption | use f in \<open>simp add: Xa l0\<close>))
  next
    case avg
    have Xa: "X ! k = bytecast (uint (d ! k) + (left_of f X k + uint (p ! k)) div 2)" if "k < nk" for k
      using X [OF that] avg by (simp add: predict_def)
    have head: "(do { v \<leftarrow> rd raw (r + k); b \<leftarrow> rd g (prior + k); wr g (cur + k) (bytecast (uint v + uint b div 2)) })
        = wr g (cur + k) (X ! k)" if "k < f" "row_inv fb cur X k g" for k g
      using upr [OF that(2), of k] rawk [of k] Xa [of k] l0 [OF that(1)] that avg f by simp
    have body: "(do { v \<leftarrow> rd raw (r + k); b \<leftarrow> rd g (prior + k); a \<leftarrow> rd g (cur + (k - f));
        wr g (cur + k) (bytecast (uint v + (uint b + uint a) div 2)) })
        = wr g (cur + k) (X ! k)" if "f \<le> k" "k < nk" "row_inv fb cur X k g" for k g
      using left [OF that(3,1,2)] upr [OF that(3,2)] rawk [OF that(2)] Xa [OF that(2)] lk [OF that(1)] avg
      by (simp add: add.commute)
    have e: "effective_filter first t = 3" using avg by (auto simp: effective_filter_def)
    show ?thesis unfolding e filter_row_def filter_codes
      by simp (rule sat_bind [OF loop [OF row_inv_0] loop]; (assumption | rule body; assumption | rule head; assumption | use f in simp))
  next
    case paeth
    have Xp: "X ! k = bytecast (uint (d ! k) + stbi_paeth (left_of f X k) (uint (p ! k)) (left_of f p k))" if "k < nk" for k
      using X [OF that] paeth by (simp add: predict_def paeth_eq)
    have head: "(do { v \<leftarrow> rd raw (r + k); b \<leftarrow> rd g (prior + k); wr g (cur + k) (bytecast (uint v + uint b)) })
        = wr g (cur + k) (X ! k)" if "k < f" "row_inv fb cur X k g" for k g
      using upr [OF that(2), of k] rawk [of k] Xp [of k] l0 [OF that(1)] that paeth f paeth_edges by (simp add: paeth_eq)
    have body: "(do { v \<leftarrow> rd raw (r + k); a \<leftarrow> rd g (cur + (k - f)); b \<leftarrow> rd g (prior + k); c \<leftarrow> rd g (prior + (k - f));
        wr g (cur + k) (bytecast (uint v + stbi_paeth (uint a) (uint b) (uint c))) })
        = wr g (cur + k) (X ! k)" if "f \<le> k" "k < nk" "row_inv fb cur X k g" for k g
      using left [OF that(3,1,2)] upr [OF that(3,2)] upr [OF that(3), of "k - f"] rawk [OF that(2)] Xp [OF that(2)] lk [OF that(1)] paeth that(2)
      by simp
    have e: "effective_filter first t = 4" using paeth by (auto simp: effective_filter_def)
    show ?thesis unfolding e filter_row_def filter_codes
      by simp (rule sat_bind [OF loop [OF row_inv_0] loop]; (assumption | rule body; assumption | rule head; assumption | use f in simp))
  qed
  then show ?thesis by (simp add: X_def)
qed

text \<open>C15: The PNG reader undoes each of the five scanline filters as the PNG specification defines
  it, on the first scanline (where it uses substitute filters and never looks at the row above)
  and on the others. For a scanline of \<open>nk\<close> bytes the buffer then holds at \<open>cur\<close> the
  reconstruction of the scanline from the differences \<open>d\<close> and the row above \<open>p\<close>, and the other
  half of the buffer is unchanged.\<close>

theorem filter_row_spec:
  assumes "t \<le> 4" and "0 < f" and "f \<le> nk"
    and "length d = nk" and "\<And>k. k < nk \<Longrightarrow> rd raw (r + k) = Some (d ! k)"
    and "cur + nk \<le> length fb" and "prior + nk \<le> cur \<or> cur + nk \<le> prior"
    and "length p = nk" and "\<And>k. k < nk \<Longrightarrow> if first then p ! k = 0 else rd fb (prior + k) = Some (p ! k)"
  shows "\<exists>fb'. filter_row (if first then first_row_filter ! t else t) raw r fb cur prior nk f = Some fb' \<and>
    length fb' = length fb \<and> slice fb' cur nk = Some (map Some (unfilter t f p d nk)) \<and>
    (\<forall>k < nk. rd fb' (prior + k) = rd fb (prior + k))"
proof -
  obtain fb' where fb': "filter_row (effective_filter first t) raw r fb cur prior nk f = Some fb'"
    "row_inv fb cur (unfilter t f p d nk) nk fb'"
    using filter_row_ok [OF assms(1-9)] by (auto elim: satE)
  have "slice fb' cur nk = Some (map Some (unfilter t f p d nk))"
    using fb'(2) assms(6) by (auto simp: row_inv_def intro!: nth_equalityI)
  moreover have "rd fb' (prior + k) = rd fb (prior + k)" if "k < nk" for k
    by (rule row_inv_other [OF fb'(2)]) (use assms(7) that in auto)
  ultimately show ?thesis using fb' by (auto simp: effective_filter_def row_inv_def)
qed

theorem filter_row_spec_witness:
  "\<exists>fb'. filter_row 4 (map Some [10, 20, 30, 250]) 0 (replicate 4 None @ map Some [1, 2, 3, 4]) 0 4 4 1 = Some fb' \<and>
     slice fb' 0 4 = Some (map Some [11, 31, 61, 55])"
proof -
  have raw: "rd (map Some [10, 20, 30, 250]) (0 + k) = Some ([10, 20, 30, 250 :: byte] ! k)" if "k < 4" for k
    unfolding add_0 by (rule rd_map_Some) (use that in simp)
  have above: "if False then [1, 2, 3, 4 :: byte] ! k = 0
      else rd (replicate 4 None @ map Some [1, 2, 3, 4 :: byte]) (4 + k) = Some ([1, 2, 3, 4] ! k)" if "k < 4" for k
    using that rd_map_Some [of k "[1, 2, 3, 4 :: byte]"] by (simp add: rd_Some_iff nth_append)
  have row: "unfilter 4 1 [1, 2, 3, 4] [10, 20, 30, 250] 4 = [11, 31, 61, 55]"
    by code_simp
  show ?thesis
    using filter_row_spec [of 4 1 4 "[10, 20, 30, 250]" "map Some [10, 20, 30, 250]" 0 0
        "replicate 4 None @ map Some [1, 2, 3, 4]" 4 "[1, 2, 3, 4]" False, OF _ _ _ _ raw _ _ _ above]
    unfolding row by auto
qed

subsection \<open>The writer's filters\<close>

text \<open>The differences of a scanline \<open>xs\<close> below the scanline \<open>p\<close>.\<close>

definition filtered :: "nat \<Rightarrow> nat \<Rightarrow> bytes \<Rightarrow> bytes \<Rightarrow> bytes" where
  "filtered t f p xs = map (\<lambda>k. bytecast (uint (xs ! k) - predict t (left_of f xs k) (uint (p ! k)) (left_of f p k))) [0..<length xs]"

lemma unfilter_filtered:
  assumes "0 < f"
  shows "n \<le> length xs \<Longrightarrow> unfilter t f p (filtered t f p xs) n = take n xs"
proof (induction n)
  case (Suc n)
  have "left_of f (take n xs) n = left_of f xs n" using assms by (simp add: left_of_def)
  with Suc show ?case by (simp add: filtered_def take_Suc_conv_app_nth bytecast_def)
qed simp

lemma bytecast_diff: "bytecast (uint a - uint b) = a - b"
  unfolding bytecast_def by (rule word_sub_wi [symmetric])

lemma encode_line_ok:
  assumes t: "t \<le> 4" and n: "0 < n" "0 < width" "width * int n \<le> INT_MAX"
    and z: "z = stride * (if flip then height - 1 - y else y)" "INT_MIN \<le> z" "z \<le> INT_MAX"
    and row: "length row = nat (width * int n)" "\<And>i. i < length row \<Longrightarrow> iget pixels (z + int i) = Some (row ! i)"
    and above: "length p = length row" "\<And>i. i < length row \<Longrightarrow> if y = 0 then p ! i = 0
      else iget pixels (z + int i - (if flip then - stride else stride)) = Some (p ! i)"
    and line: "length row \<le> length line"
  shows "sat (stbiw_encode_png_line flip pixels stride width height y n t line)
     (\<lambda>l. length l = length line \<and> (\<forall>i < length row. l ! i = Some (filtered t n p row ! i)))"
proof -
  let ?ss = "if flip then - stride else stride" and ?E = "filtered t n p row"
  define type where "type = (if y \<noteq> 0 then [0, 1, 2, 3, 4] else [0, 1, 0, 5, 6 :: nat]) ! t"
  have ty: "aget (if y \<noteq> 0 then [0, 1, 2, 3, 4] else [0, 1, 0, 5, 6 :: nat]) t = Some type"
    using t by (simp add: type_def)
  have wn: "0 \<le> width * int n" using n by simp
  have iz: "i32 (stride * (if flip then height - 1 - y else y)) = Some z" "i32 (width * int n) = Some (width * int n)"
    using z wn n(3) by (simp_all add: i32_def INT_MAX_def INT_MIN_def)
  have E: "?E ! k = bytecast (uint (row ! k) - predict t (left_of n row k) (uint (p ! k)) (left_of n p k))" if "k < length row" for k
    using that by (simp add: filtered_def)
  let ?P = "\<lambda>k l. length l = length line \<and> (\<forall>i < k. l ! i = Some (?E ! i))"
  have step: "sat (m \<bind> wr l k) (?P (Suc k))" if "m = Some (?E ! k)" "?P k l" "k < length row" for m l k
    using that line by (auto simp: nth_list_update less_Suc_eq)
  have nl: "n \<le> length row" using n row(1) by (simp add: nat_mult_distrib)
  have zero: "y = 0 \<Longrightarrow> p ! k = 0" if "k < length row" for k using above(2) [OF that] by simp
  have up: "y \<noteq> 0 \<Longrightarrow> iget pixels (z + int k - ?ss) = Some (p ! k)" if "k < length row" for k
    using above(2) [OF that] by (simp only: if_False)
  have lft: "iget pixels (z + int k - int n) = Some (row ! (k - n))" if "n \<le> k" "k < length row" for k
    using row(2) [of "k - n"] that by (simp add: of_nat_diff algebra_simps)
  have upl: "y \<noteq> 0 \<Longrightarrow> iget pixels (z + int k - ?ss - int n) = Some (p ! (k - n))" if "n \<le> k" "k < length row" for k
    using up [of "k - n"] that by (simp add: of_nat_diff algebra_simps)
  consider (none) "t = 0 \<or> y = 0 \<and> t = 2" "type = 0"
    | (other) "type \<noteq> 0" "t = 1 \<and> type = 1 \<or> y \<noteq> 0 \<and> t = 2 \<and> type = 2 \<or> y \<noteq> 0 \<and> t = 3 \<and> type = 3
        \<or> y \<noteq> 0 \<and> t = 4 \<and> type = 4 \<or> y = 0 \<and> t = 3 \<and> type = 5 \<or> y = 0 \<and> t = 4 \<and> type = 6"
    using t by (cases "y = 0") (auto simp: type_def numeral_eq_Suc le_Suc_eq)
  then show ?thesis
  proof cases
    case none
    have "?E ! k = row ! k" if "k < length row" for k using E [OF that] none above(2) [OF that] by (auto simp: predict_def)
    then have "sat (for_upto 0 (length row) (\<lambda>i line. iget pixels (z + int i) \<bind> wr line i) line) (?P (length row))"
      by (intro sat_for_upto step) (auto simp: row(2))
    then show ?thesis using ty iz none row(1) unfolding stbiw_encode_png_line_def by simp
  next
    case other
    have head: "encode_first type pixels z ?ss k = Some (?E ! k)" if k: "k < n" for k
    proof -
      have kl: "k < length row" using k nl by simp
      note at_k = row(2) [OF kl] up [OF kl] E [OF kl] zero [OF kl] k
      from other(2) show ?thesis unfolding encode_first_def bytecast_def [symmetric]
        by (elim disjE conjE; insert at_k) (simp_all add: predict_def left_of_def bytecast_diff paeth_edges)
    qed
    have rest: "encode_rest type pixels z ?ss n k = Some (?E ! k)" if k: "n \<le> k" "k < length row" for k
    proof -
      have kn: "k - n < length row" using k by simp
      note at_k = row(2) [OF k(2)] lft [OF k] up [OF k(2)] upl [OF k] E [OF k(2)] zero [OF k(2)] zero [OF kn] k
      from other(2) show ?thesis unfolding encode_rest_def bytecast_def [symmetric]
        by (elim disjE conjE; insert at_k) (simp_all add: predict_def left_of_def bytecast_diff)
    qed
    have "sat (for_upto 0 n (\<lambda>i line. encode_first type pixels z ?ss i \<bind> wr line i) line) (?P n)"
      using nl by (intro sat_for_upto step head) auto
    moreover have "sat (for_upto n (length row) (\<lambda>i line. encode_rest type pixels z ?ss n i \<bind> wr line i) l) (?P (length row))"
      if "?P n l" for l using nl that by (intro sat_for_upto step rest) auto
    ultimately have "sat (for_upto 0 n (\<lambda>i line. encode_first type pixels z ?ss i \<bind> wr line i) line \<bind>
        for_upto n (length row) (\<lambda>i line. encode_rest type pixels z ?ss n i \<bind> wr line i)) (?P (length row))"
      by (rule sat_bind)
    then show ?thesis unfolding stbiw_encode_png_line_def Let_def ty iz bind.bind_lunit row(1) [symmetric]
      by (simp only: other(1) if_False)
  qed
qed

subsection \<open>The writer and the reader\<close>

text \<open>A scanline \<open>row\<close> of an image that the PNG writer filters, with any of the five filter
  types and with or without vertical flipping, comes back unchanged when the PNG reader undoes
  the filter: with the previous scanline \<open>p\<close> in its filter buffer, or, for the first scanline,
  with nothing known about the buffer.\<close>

theorem png_line_roundtrip:
  assumes "t \<le> 4" and "0 < n" and "0 < width" and "width * int n \<le> INT_MAX"
    and "z = stride * (if flip then height - 1 - y else y)" and "INT_MIN \<le> z" and "z \<le> INT_MAX"
    and "length row = nat (width * int n)" and "\<And>i. i < length row \<Longrightarrow> iget pixels (z + int i) = Some (row ! i)"
    and "length p = length row" and above: "\<And>i. i < length row \<Longrightarrow> if y = 0 then p ! i = 0
      else iget pixels (z + int i - (if flip then - stride else stride)) = Some (p ! i)"
    and "length row \<le> length line"
    and fb: "cur + length row \<le> length fb" "prior + length row \<le> cur \<or> cur + length row \<le> prior"
    and prior: "y \<noteq> 0 \<Longrightarrow> slice fb prior (length row) = Some (map Some p)"
  shows "\<exists>l fb'. stbiw_encode_png_line flip pixels stride width height y n t line = Some l \<and>
    filter_row (if y = 0 then first_row_filter ! t else t) l 0 fb cur prior (length row) n = Some fb' \<and>
    slice fb' cur (length row) = Some (map Some row)"
proof -
  obtain l where l: "stbiw_encode_png_line flip pixels stride width height y n t line = Some l"
    "length l = length line" "\<And>i. i < length row \<Longrightarrow> l ! i = Some (filtered t n p row ! i)"
    using encode_line_ok [OF assms(1-12)] by (auto elim: satE)
  have nl: "n \<le> length row" using assms(2-4,8) by (simp add: nat_mult_distrib)
  have up: "if y = 0 then p ! k = 0 else rd fb (prior + k) = Some (p ! k)" if "k < length row" for k
  proof (cases "y = 0")
    case False
    then have "prior + length row \<le> length fb" "take (length row) (drop prior fb) = map Some p"
      using prior by (simp_all add: slice_def split: if_splits)
    then show ?thesis using False that assms(10) by (auto simp: rd_Some_iff dest: arg_cong [of _ _ "\<lambda>xs. xs ! k"])
  qed (use above [OF that] in simp)
  have "sat (filter_row (effective_filter (y = 0) t) l 0 fb cur prior (length row) n)
      (row_inv fb cur (unfilter t n p (filtered t n p row) (length row)) (length row))"
    using l(2,3) assms(1,2,10,12) fb up nl by (intro filter_row_ok) (auto simp: filtered_def rd_Some_iff)
  then obtain fb' where fb': "filter_row (effective_filter (y = 0) t) l 0 fb cur prior (length row) n = Some fb'"
    "row_inv fb cur row (length row) fb'"
    using unfilter_filtered [OF assms(2), of "length row" row t p] by (auto elim: satE)
  have "slice fb' cur (length row) = Some (map Some row)"
    using fb'(2) fb(1) by (auto simp: row_inv_def intro!: nth_equalityI)
  with fb'(1) l(1) show ?thesis by (auto simp: effective_filter_def)
qed

theorem png_line_roundtrip_witness:
  "\<exists>l fb'. stbiw_encode_png_line False [1, 2, 3, 4, 5, 9, 2, 7] 4 4 2 1 1 4 (replicate 4 None) = Some l \<and>
    filter_row 4 l 0 (map Some [1, 2, 3, 4] @ replicate 4 None) 4 0 4 1 = Some fb' \<and>
    slice fb' 4 4 = Some (map Some [5, 9, 2, 7])"
proof -
  have small: "k = 0 \<or> k = 1 \<or> k = 2 \<or> k = 3" if "k < 4" for k :: nat using that by linarith
  have row: "iget [1, 2, 3, 4, 5, 9, 2, 7] (4 + int i) = Some ([5, 9, 2, 7 :: byte] ! i)" if "i < length [5, 9, 2, 7 :: byte]" for i
    using small [of i] that by (auto simp: iget_def)
  have above: "if (1 :: int) = 0 then [1, 2, 3, 4 :: byte] ! i = 0 else
      iget [1, 2, 3, 4, 5, 9, 2, 7] (4 + int i - (if False then - 4 else 4)) = Some ([1, 2, 3, 4] ! i)"
    if "i < length [5, 9, 2, 7 :: byte]" for i
    using small [of i] that by (auto simp: iget_def)
  show ?thesis
    using png_line_roundtrip [where t = 4 and flip = False and cur = 4 and prior = 0 and fb = "map Some [1, 2, 3, 4] @ replicate 4 None"
        and line = "replicate 4 None" and n = 1 and width = 4 and height = 2 and stride = 4,
        OF _ _ _ _ _ _ _ _ row _ above] by (simp add: INT_MAX_def INT_MIN_def numeral_eq_Suc)
qed

end
