(* ===== verification/Jpeg_Code.thy ===== *)
theory Jpeg_Code
  imports Jpeg_Block
begin

text \<open>
  The Huffman tables of the JPEG reader hold the canonical code of the counts of a DHT segment, and
  decoding with them gives the symbol of that code.
\<close>

subsection \<open>The code lengths of a table\<close>

definition lengths_upto :: "nat list \<Rightarrow> nat \<Rightarrow> nat list" where
  "lengths_upto count m = concat (map (\<lambda>i. replicate (count ! i) (Suc i)) [0..<m])"

definition lengths_of :: "nat list \<Rightarrow> nat list" where
  "lengths_of count = lengths_upto count 16"

lemma lengths_upto_Suc: "lengths_upto count (Suc m) = lengths_upto count m @ replicate (count ! m) (Suc m)"
  by (simp add: lengths_upto_def)

lemma lengths_upto_bound: "x \<in> set (lengths_upto count m) \<Longrightarrow> 1 \<le> x \<and> x \<le> m"
  by (auto simp: lengths_upto_def)

lemma count_lengths_upto: "count_list (lengths_upto count m) l = (if 1 \<le> l \<and> l \<le> m then count ! (l - 1) else 0)"
proof (induction m)
  case (Suc m)
  have "count_list (replicate n x) l = (if x = l then n else 0)" for n and x :: nat by (induction n) auto
  then show ?case using Suc by (auto simp: lengths_upto_Suc le_Suc_eq)
qed (simp add: lengths_upto_def)

lemma lengths_prefix: "m \<le> n \<Longrightarrow> \<exists>r. lengths_upto count n = lengths_upto count m @ r"
proof (induction n)
  case (Suc n)
  then show ?case by (cases "m = Suc n") (auto simp: lengths_upto_Suc)
qed simp

lemma first_sym_lengths:
  "1 \<le> l \<Longrightarrow> l \<le> 17 \<Longrightarrow> first_sym (lengths_of count) l = length (lengths_upto count (l - 1))"
proof (induction l)
  case (Suc l)
  show ?case
  proof (cases "l = 0")
    case False
    then have "first_sym (lengths_of count) (Suc l) = length (lengths_upto count (l - 1)) + count ! (l - 1)"
      using Suc by (simp add: first_sym_Suc lengths_of_def count_lengths_upto)
    also have "\<dots> = length (lengths_upto count l)" using False lengths_upto_Suc [of count "l - 1"] by simp
    finally show ?thesis by simp
  qed (simp add: first_sym_def lengths_upto_def)
qed simp

text \<open>The symbols of length \<open>l\<close> stand together.\<close>

lemma length_at:
  assumes "1 \<le> l" "l \<le> 16" "first_sym (lengths_of count) l \<le> i" "i < first_sym (lengths_of count) (Suc l)"
  shows "i < length (lengths_of count)" "lengths_of count ! i = l"
proof -
  let ?P = "lengths_upto count (l - 1)"
  obtain r where r: "lengths_of count = ?P @ replicate (count ! (l - 1)) l @ r"
    using lengths_prefix [of l 16 count] lengths_upto_Suc [of count "l - 1"] assms(1,2) by (auto simp: lengths_of_def)
  have i: "length ?P \<le> i" "i < length ?P + count ! (l - 1)"
    using assms first_sym_lengths [of l count] first_sym_lengths [of "Suc l" count] lengths_upto_Suc [of count "l - 1"] by auto
  then show "i < length (lengths_of count)" "lengths_of count ! i = l" by (simp_all add: r nth_append less_diff_conv2)
qed

lemma at_length:
  assumes "i < length (lengths_of count)"
  shows "1 \<le> lengths_of count ! i" "lengths_of count ! i \<le> 16"
  using lengths_upto_bound [of "lengths_of count ! i" count 16] assms by (auto simp: lengths_of_def)

lemma at_length_between:
  assumes "i < length (lengths_of count)"
  shows "first_sym (lengths_of count) (lengths_of count ! i) \<le> i \<and> i < first_sym (lengths_of count) (Suc (lengths_of count ! i))"
proof -
  let ?F = "first_sym (lengths_of count)"
  have total: "?F 17 = length (lengths_of count)" using first_sym_lengths [of 17 count] by (simp add: lengths_of_def)
  have "\<exists>l. 1 \<le> l \<and> l \<le> m \<and> ?F l \<le> i \<and> i < ?F (Suc l)" if "i < ?F (Suc m)" "m \<le> 16" for m
    using that
  proof (induction m)
    case (Suc m)
    then show ?case by (cases "i < ?F (Suc m)") (auto simp: not_less)
  qed (simp add: first_sym_def)
  from this [of 16] obtain l where l: "1 \<le> l" "l \<le> 16" "?F l \<le> i" "i < ?F (Suc l)" using assms total by auto
  with length_at(2) [OF l] show ?thesis by simp
qed

lemma rank_lengths:
  assumes "i < length (lengths_of count)"
  shows "rank (lengths_of count) i = i - first_sym (lengths_of count) (lengths_of count ! i)"
proof -
  let ?L = "lengths_of count" and ?l = "lengths_of count ! i"
  have l: "1 \<le> ?l" "?l \<le> 16" using at_length [OF assms] .
  let ?P = "lengths_upto count (?l - 1)"
  obtain r where r: "?L = ?P @ replicate (count ! (?l - 1)) ?l @ r"
    using lengths_prefix [of ?l 16 count] lengths_upto_Suc [of count "?l - 1"] l by (auto simp: lengths_of_def)
  have F: "first_sym ?L ?l = length ?P" using first_sym_lengths [of ?l count] l by simp
  have i: "length ?P \<le> i" "i < length ?P + count ! (?l - 1)"
    using at_length_between [OF assms] F first_sym_Suc [OF l(1), of ?L] count_lengths_upto [of count 16 ?l] l by (auto simp: lengths_of_def)
  have "take i ?L = ?P @ replicate (i - length ?P) ?l" by (subst r) (use i in simp)
  moreover have "count_list (replicate n x) x = n" for n and x :: nat by (induction n) auto
  moreover have "\<not> ?l \<le> ?l - Suc 0" using l by linarith
  ultimately show ?thesis unfolding rank_def F using count_lengths_upto [of count "?l - 1" ?l] by simp
qed

lemma code_of_lengths:
  "i < length (lengths_of count) \<Longrightarrow> lengths_of count ! i = l \<Longrightarrow>
     code_of (lengths_of count) i = first_code (lengths_of count) l + (i - first_sym (lengths_of count) l)"
  using rank_lengths [of i count] by (simp add: code_of_def)

subsection \<open>Building: sizes\<close>

definition jshape :: "jhuffman \<Rightarrow> bool" where
  "jshape h \<longleftrightarrow> length (jh_fast h) = 512 \<and> length (jh_code h) = 256 \<and> length (jh_values h) = 256 \<and>
     length (jh_size h) = 257 \<and> length (jh_maxcode h) = 18 \<and> length (jh_delta h) = 17"

lemma size_step_ok:
  assumes i: "i < 16" and c: "length count = 16" and sz: "length sz = 257" "holds (map Some sz) (lengths_upto count i)"
    and fits: "length (lengths_upto count (Suc i)) \<le> 256"
  shows "esatx (size_step count i (length (lengths_upto count i), sz)) (\<lambda>(k, sz'). k = length (lengths_upto count (Suc i)) \<and>
    length sz' = 257 \<and> holds (map Some sz') (lengths_upto count (Suc i))) False"
proof -
  let ?P = "lengths_upto count i"
  let ?I = "\<lambda>j (k, sz'). k = length ?P + j \<and> length sz' = 257 \<and> holds (map Some sz') (?P @ replicate j (Suc i))"
  have n: "length ?P + count ! i \<le> 256" using fits by (simp add: lengths_upto_Suc)
  have "esatx (efor 0 (count ! i) (\<lambda>j (k, sz). do { sz \<leftarrow> aset sz k ((i + 1) mod 256);
      if k + 1 \<ge> 257 then stbi_err ''bad size list'' else ret (k + 1, sz) }) (length ?P, sz)) (?I (count ! i)) False"
  proof (rule esatx_efor [where P = ?I], goal_cases)
    case (3 j st)
    then obtain sz' where st: "st = (length ?P + j, sz')" and sz': "length sz' = 257" "holds (map Some sz') (?P @ replicate j (Suc i))"
      by (cases st) auto
    have lt: "length ?P + j < 256" using 3 n by simp
    have "holds (map Some (sz'[length ?P + j := Suc i])) ((?P @ replicate j (Suc i)) @ [Suc i])"
      using sz' lt by (simp add: holds_take map_update take_Suc_conv_app_nth)
    then show ?case using st sz'(1) lt i by (simp add: replicate_append_same)
  qed (use sz in auto)
  then show ?thesis using i c unfolding size_step_def
    by (simp add: lengths_upto_Suc)
qed

lemma sizes_ok:
  assumes c: "length count = 16" and h: "jshape h" and fits: "length (lengths_of count) \<le> 256"
  shows "esatx (efor 0 16 (size_step count) (0, jh_size h)) (\<lambda>(k, sz). k = length (lengths_of count) \<and>
    length sz = 257 \<and> holds (map Some sz) (lengths_of count)) False"
  unfolding lengths_of_def
proof (rule esatx_efor [where P = "\<lambda>i (k, sz). k = length (lengths_upto count i) \<and> length sz = 257 \<and> holds (map Some sz) (lengths_upto count i)"], goal_cases)
  case (3 i st)
  have "\<exists>r. lengths_of count = lengths_upto count (Suc i) @ r" using lengths_prefix [of "Suc i" 16 count] 3 by (simp add: lengths_of_def)
  then have "length (lengths_upto count (Suc i)) \<le> 256" using fits by auto
  then show ?case using 3 size_step_ok [OF _ c] by (cases st) auto
qed (use h in \<open>auto simp: jshape_def lengths_upto_def\<close>)

subsection \<open>Building: codes\<close>

definition sizes_for :: "nat list \<Rightarrow> nat list \<Rightarrow> bool" where
  "sizes_for L sz \<longleftrightarrow> length L \<le> 256 \<and> length sz = 257 \<and> holds (map Some sz) L \<and> sz ! length L = 0"

lemma sizes_for_nth: "sizes_for L sz \<Longrightarrow> i < length L \<Longrightarrow> sz ! i = L ! i"
  using holds_get [of "map Some sz" L i] by (auto simp: sizes_for_def aget_Some_iff)

lemma size_hit:
  assumes "sizes_for (lengths_of count) sz" "1 \<le> j" "j \<le> 16" "first_sym (lengths_of count) j \<le> k" "k \<le> first_sym (lengths_of count) (Suc j)"
  shows "sz ! k = j \<longleftrightarrow> k < first_sym (lengths_of count) (Suc j)"
proof
  let ?L = "lengths_of count"
  assume hit: "sz ! k = j"
  have "k \<le> length ?L" using assms(5) first_sym_le [of ?L "Suc j"] by simp
  moreover have "k \<noteq> length ?L" using hit assms(1,2) by (auto simp: sizes_for_def)
  ultimately have k: "k < length ?L" by simp
  then have "?L ! k = j" using hit sizes_for_nth [OF assms(1)] by simp
  then show "k < first_sym ?L (Suc j)" using at_length_between [OF k] by simp
next
  assume "k < first_sym (lengths_of count) (Suc j)"
  then show "sz ! k = j" using length_at [OF assms(2-4)] sizes_for_nth [OF assms(1)] by simp
qed

lemma assign_loop:
  assumes sz: "sizes_for (lengths_of count) sz" and j: "1 \<le> j" "j \<le> 16" and cs: "length cs = 256" and c: "c + 256 < 2 ^ 32"
  shows "sat (loop (assign_step sz j) (first_sym (lengths_of count) j, word_of_nat c, cs)) (\<lambda>(k, code, cs').
    k = first_sym (lengths_of count) (Suc j) \<and> code = word_of_nat (c + count_list (lengths_of count) j) \<and> length cs' = 256 \<and>
    (\<forall>i < 256. cs' ! i = (if first_sym (lengths_of count) j \<le> i \<and> i < first_sym (lengths_of count) (Suc j)
      then (c + (i - first_sym (lengths_of count) j)) mod 65536 else cs ! i)))"
proof -
  let ?L = "lengths_of count" let ?a = "first_sym (lengths_of count) j" and ?b = "first_sym (lengths_of count) (Suc j)"
  have ab: "?b = ?a + count_list ?L j" using first_sym_Suc [OF j(1)] .
  have b: "?b \<le> length ?L" by (rule first_sym_le)
  have len: "length ?L \<le> 256" using sz by (simp add: sizes_for_def)
  show ?thesis
  proof (rule sat_loop [where measure_of = "\<lambda>(k, code, cs). ?b - k" and I = "\<lambda>(k, code, cs'). ?a \<le> k \<and> k \<le> ?b \<and> code = word_of_nat (c + (k - ?a)) \<and>
      length cs' = 256 \<and> (\<forall>i < 256. cs' ! i = (if ?a \<le> i \<and> i < k then (c + (i - ?a)) mod 65536 else cs ! i))"], goal_cases)
    case 1
    then show ?case using ab cs by auto
  next
    case (2 st)
    then obtain k cs' where st: "st = (k, word_of_nat (c + (k - ?a)), cs')" and k: "?a \<le> k" "k \<le> ?b" and cs': "length cs' = 256"
      and cells: "\<forall>i < 256. cs' ! i = (if ?a \<le> i \<and> i < k then (c + (i - ?a)) mod 65536 else cs ! i)" by (cases st) auto
    have k257: "k < 257" "k < ?b \<Longrightarrow> k < 256" using k b len by simp_all
    have u: "unat (word_of_nat (c + (k - ?a)) :: u32) = c + (k - ?a)" using c k257 by (intro unat_u32_of_nat) simp
    show ?case
    proof (cases "k < ?b")
      case True
      have nxt: "word_of_nat (c + (k - ?a)) + 1 = (word_of_nat (c + (Suc k - ?a)) :: u32)" using k by (simp add: Suc_diff_le)
      show ?thesis using True size_hit [OF sz j k] sz cs' k257 u k cells nxt
        by (auto simp: st assign_step_def sizes_for_def nth_list_update less_Suc_eq)
    next
      case False
      then have "k = ?b" using k by simp
      then show ?thesis using size_hit [OF sz j k] sz cs' k257 u k cells ab
        by (auto simp: st assign_step_def sizes_for_def)
    qed
  qed
qed

lemma sint_word_small: "- 2147483648 \<le> x \<Longrightarrow> x < 2147483648 \<Longrightarrow> sint (word_of_int x :: u32) = x"
  by (simp add: sint_sbintrunc' signed_take_bit_int_eq_self)

lemma sint_diff: "a < 2 ^ 20 \<Longrightarrow> b < 2 ^ 20 \<Longrightarrow> sint (word_of_nat a - word_of_nat b :: u32) = int a - int b"
proof -
  assume "a < 2 ^ 20" "b < 2 ^ 20"
  then have "sint (word_of_int (int a - int b) :: u32) = int a - int b" by (intro sint_word_small) auto
  then show ?thesis by simp
qed

definition jcodes_inv :: "nat list \<Rightarrow> nat list \<Rightarrow> nat \<Rightarrow> nat \<times> u32 \<times> jhuffman \<Rightarrow> bool" where
  "jcodes_inv L sz j st \<longleftrightarrow> (case st of (k, code, h) \<Rightarrow>
     k = first_sym L j \<and> code = word_of_nat (first_code L j) \<and> jshape h \<and> jh_size h = sz \<and>
     (\<forall>l \<in> {1..<j}. jh_delta h ! l = int (first_sym L l) - int (first_code L l) \<and> jh_maxcode h ! l = word_of_nat (ceil L l) \<and>
        first_code L l + count_list L l \<le> 2 ^ l) \<and>
     (\<forall>i < first_sym L j. jh_code h ! i = code_of L i))"

lemma first_code_le:
  assumes "1 \<le> j" and "\<forall>l \<in> {1..<j}. first_code L l + count_list L l \<le> 2 ^ l"
  shows "first_code L j \<le> 2 ^ j"
proof (cases "j = 1")
  case False
  then obtain i where i: "j = Suc i" "1 \<le> i" using assms(1) by (cases j) auto
  then have "first_code L i + count_list L i \<le> 2 ^ i" using assms(2) by auto
  then show ?thesis using i by simp
qed simp

lemma code_room:
  assumes j: "j \<le> 16" and c: "0 < c" "c \<le> 2 ^ 17"
  shows "push_bit j 1 \<le> (word_of_nat c - 1 :: u32) \<longleftrightarrow> 2 ^ j < c"
proof -
  have "(2 :: nat) ^ j \<le> 2 ^ 16" using j by (intro power_increasing) auto
  then have "unat (word_of_nat (2 ^ j) :: u32) = 2 ^ j" by (intro unat_u32_of_nat) simp
  moreover have p: "push_bit j 1 = (word_of_nat (2 ^ j) :: u32)" by (simp add: push_bit_eq_mult)
  moreover have "unat (word_of_nat (c - 1) :: u32) = c - 1" using c by (intro unat_u32_of_nat) simp
  moreover have w: "word_of_nat c - 1 = (word_of_nat (c - 1) :: u32)" using of_nat_diff [of 1 c, where ?'a = u32] c(1) by simp
  ultimately have "push_bit j 1 \<le> (word_of_nat c - 1 :: u32) \<longleftrightarrow> 2 ^ j \<le> c - 1" by (simp only: word_le_nat_alt)
  then show ?thesis using c(1) by linarith
qed

lemma jcode_step_ok:
  assumes j: "1 \<le> j" "j \<le> 16" and sz: "sizes_for (lengths_of count) sz" and inv: "jcodes_inv (lengths_of count) sz j st"
  shows "esatx (jcode_step j st) (jcodes_inv (lengths_of count) sz (Suc j)) (\<not> code_upto 16 (lengths_of count))"
proof -
  let ?L = "lengths_of count"
  let ?a = "first_sym ?L j" and ?f = "first_code ?L j" and ?n = "count_list ?L j"
  obtain h where st: "st = (?a, word_of_nat ?f, h)" using inv by (cases st) (auto simp: jcodes_inv_def)
  note inv' = inv [unfolded jcodes_inv_def st, simplified]
  have len: "length ?L \<le> 256" using sz by (simp add: sizes_for_def)
  have a: "?a \<le> 256" "?n \<le> 256" using first_sym_le [of ?L j] count_le_length [of ?L j] len by simp_all
  have "(2 :: nat) ^ j \<le> 2 ^ 16" using j by (intro power_increasing) auto
  moreover have f2: "?f \<le> 2 ^ j" using first_code_le [OF j(1), of ?L] inv' by auto
  ultimately have f: "?f \<le> 65536" by simp
  have b: "first_sym ?L (Suc j) = ?a + ?n" using first_sym_Suc [OF j(1)] .
  have hit: "sz ! ?a = j \<longleftrightarrow> 0 < ?n" using size_hit [OF sz j, of ?a] b by simp
  have dl: "sint (word_of_nat ?a - word_of_nat ?f :: u32) = int ?a - int ?f" using a f by (intro sint_diff) auto
  have "sat (if sz ! ?a = j then loop (assign_step sz j) (?a, word_of_nat ?f, jh_code h) else Some (?a, word_of_nat ?f, jh_code h))
    (\<lambda>(k, code, cs'). k = first_sym ?L (Suc j) \<and> code = word_of_nat (?f + ?n) \<and> length cs' = 256 \<and>
      (\<forall>i < 256. cs' ! i = (if ?a \<le> i \<and> i < first_sym ?L (Suc j) then (?f + (i - ?a)) mod 65536 else jh_code h ! i)))"
    using assign_loop [OF sz j, of "jh_code h" ?f] inv' f hit b by (auto simp: jshape_def)
  then obtain cs where asg: "(if sz ! ?a = j then loop (assign_step sz j) (?a, word_of_nat ?f, jh_code h) else Some (?a, word_of_nat ?f, jh_code h)) =
      Some (first_sym ?L (Suc j), word_of_nat (?f + ?n), cs)" and cs: "length cs = 256"
    "\<And>i. i < 256 \<Longrightarrow> cs ! i = (if ?a \<le> i \<and> i < first_sym ?L (Suc j) then (?f + (i - ?a)) mod 65536 else jh_code h ! i)"
    by (auto elim!: satE)
  have get: "aget sz ?a = Some (sz ! ?a)" "aset (jh_delta h) j (int ?a - int ?f) = Some ((jh_delta h)[j := int ?a - int ?f])"
    "aset (jh_maxcode h) j x = Some ((jh_maxcode h)[j := x])" for x
    using inv' sz a(1) j by (auto simp: sizes_for_def jshape_def)
  have sze: "jh_size h = sz" using inv' by simp
  show ?thesis
  proof (cases "?f + ?n \<le> 2 ^ j")
    case False
    then have n: "0 < ?n" using f2 by simp
    have bad: "sz ! ?a = j \<and> push_bit j 1 \<le> (word_of_nat (?f + ?n) - 1 :: u32)"
      using n hit code_room [OF j(2), of "?f + ?n"] False a f by auto
    have "jcode_step j st = stbi_err ''bad code lengths''"
      unfolding st jcode_step_def prod.case dl get(2) bind.bind_lunit get(1) sze asg if_P [OF bad] by (rule refl)
    moreover have "\<not> code_upto 16 ?L" using False j by (auto simp: code_upto_def)
    ultimately show ?thesis by simp
  next
    case True
    have ok: "\<not> (sz ! ?a = j \<and> push_bit j 1 \<le> (word_of_nat (?f + ?n) - 1 :: u32))"
      using hit code_room [OF j(2), of "?f + ?n"] True a f by auto
    let ?h = "h\<lparr>jh_delta := (jh_delta h)[j := int ?a - int ?f], jh_code := cs, jh_maxcode := (jh_maxcode h)[j := push_bit (16 - j) (word_of_nat (?f + ?n))]\<rparr>"
    have run: "jcode_step j st = ret (first_sym ?L (Suc j), push_bit 1 (word_of_nat (?f + ?n)), ?h)"
      unfolding st jcode_step_def prod.case dl get(2) bind.bind_lunit get(1) sze asg get(3) if_not_P [OF ok] by (rule refl)
    have mc: "push_bit (16 - j) (word_of_nat (?f + ?n)) = (word_of_nat (ceil ?L j) :: u32)"
      using j by (simp add: ceil_def push_bit_eq_mult)
    have nxt: "push_bit 1 (word_of_nat (?f + ?n)) = (word_of_nat (first_code ?L (Suc j)) :: u32)"
      using j by (simp add: push_bit_eq_mult)
    have codes: "cs ! i = code_of ?L i" if i: "i < first_sym ?L (Suc j)" for i
    proof -
      have i256: "i < 256" using i first_sym_le [of ?L "Suc j"] len by simp
      show ?thesis
      proof (cases "?a \<le> i")
        case t: True
        have "?f + (i - ?a) < 65536" using i b True t \<open>2 ^ j \<le> 2 ^ 16\<close> by simp
        then show ?thesis using cs(2) [OF i256] t i code_of_lengths [OF length_at [OF j t i]] by simp
      qed (use cs(2) [OF i256] inv' in simp)
    qed
    show ?thesis unfolding run using inv' cs(1) codes mc nxt True j
      by (auto simp: jcodes_inv_def jshape_def nth_list_update less_Suc_eq)
  qed
qed

subsection \<open>Building: the table for short codes\<close>

definition short_hit :: "nat list \<Rightarrow> nat \<Rightarrow> nat \<Rightarrow> bool" where
  "short_hit L i m \<longleftrightarrow> L ! i \<le> 9 \<and> m div 2 ^ (9 - L ! i) = code_of L i"

definition short_table :: "nat list \<Rightarrow> nat \<Rightarrow> nat list \<Rightarrow> bool" where
  "short_table L n tab \<longleftrightarrow> length tab = 512 \<and> (\<forall>m < 512. (\<forall>i < n. short_hit L i m \<longrightarrow> tab ! m = i mod 256) \<and>
     ((\<forall>i < n. \<not> short_hit L i m) \<longrightarrow> tab ! m = 255))"

lemma short_hit_starts:
  assumes "i < length (lengths_of count)"
  shows "short_hit (lengths_of count) i (k div 128) \<longleftrightarrow> lengths_of count ! i \<le> 9 \<and> starts (lengths_of count) i k"
proof (cases "lengths_of count ! i \<le> 9")
  case True
  then have "k div 128 div 2 ^ (9 - lengths_of count ! i) = k div 2 ^ (16 - lengths_of count ! i)"
    using div_mult2_eq [of k "2 ^ 7" "2 ^ (9 - lengths_of count ! i)"] power_add [of "2 :: nat" 7 "9 - lengths_of count ! i"] by simp
  then show ?thesis using True assms at_length [OF assms] by (simp add: short_hit_def starts_def)
qed (simp add: short_hit_def)

lemma short_hit_unique:
  assumes "code_upto 16 (lengths_of count)" "i < length (lengths_of count)" "i' < length (lengths_of count)"
    and "short_hit (lengths_of count) i m" "short_hit (lengths_of count) i' m"
  shows "i = i'"
  using starts_unique [OF assms(1), of i "128 * m" i'] short_hit_starts [OF assms(2), of "128 * m"] short_hit_starts [OF assms(3), of "128 * m"]
    assms(4,5) by simp

lemma fill_range:
  assumes "lo + n \<le> length tab"
  shows "sat (for_upto 0 n (\<lambda>j tab. aset tab (lo + j) v) tab) (\<lambda>tab'. length tab' = length tab \<and>
    (\<forall>m < length tab. tab' ! m = (if lo \<le> m \<and> m < lo + n then v else tab ! m)))"
  by (rule sat_for_upto [where P = "\<lambda>j tab'. length tab' = length tab \<and> (\<forall>m < length tab. tab' ! m = (if lo \<le> m \<and> m < lo + j then v else tab ! m))"])
    (use assms in \<open>auto simp: nth_list_update\<close>)

lemma fast_step_ok:
  assumes ok: "code_upto 16 (lengths_of count)" and i: "i < length (lengths_of count)"
    and h: "sizes_for (lengths_of count) (jh_size h)" "jh_code h ! i = code_of (lengths_of count) i" "length (jh_code h) = 256"
    and tab: "short_table (lengths_of count) i tab"
  shows "sat (fast_step h i tab) (short_table (lengths_of count) (Suc i))"
proof -
  let ?L = "lengths_of count" let ?s = "lengths_of count ! i" and ?c = "code_of (lengths_of count) i"
  have len: "length ?L \<le> 256" "length (jh_size h) = 257" using h by (auto simp: sizes_for_def)
  have sz: "aget (jh_size h) i = Some ?s" "aget (jh_code h) i = Some ?c" using sizes_for_nth [OF h(1) i] i len h by auto
  have s: "1 \<le> ?s" "?s \<le> 16" using at_length [OF i] .
  show ?thesis
  proof (cases "?s \<le> 9")
    case False
    have "short_table ?L (Suc i) tab" using tab False by (auto simp: short_table_def short_hit_def less_Suc_eq)
    then show ?thesis using sz False by (simp add: fast_step_def FAST_BITS_def)
  next
    case True
    let ?p = "2 ^ (9 - ?s) :: nat"
    have "?c < 2 ^ ?s" using code_of_less [OF ok i] s by simp
    then have "Suc ?c * ?p \<le> 2 ^ ?s * ?p" by (intro mult_le_mono1) simp
    also have "\<dots> = 512" using True by (simp flip: power_add)
    finally have room: "?c * ?p + ?p \<le> length tab" using tab by (simp add: short_table_def)
    have hit: "short_hit ?L i m \<longleftrightarrow> ?c * ?p \<le> m \<and> m < ?c * ?p + ?p" for m
      using True div_pow_eq_iff [of m "9 - ?s" ?c] by (simp add: short_hit_def algebra_simps)
    have "short_table ?L (Suc i) tab'" if l: "length tab' = length tab"
      and v: "\<forall>m < length tab. tab' ! m = (if ?c * ?p \<le> m \<and> m < ?c * ?p + ?p then i mod 256 else tab ! m)" for tab'
    proof -
      have "short_hit ?L i' m \<Longrightarrow> i' < i \<Longrightarrow> \<not> short_hit ?L i m" for i' m using short_hit_unique [OF ok i, of i' m] i by auto
      then show ?thesis using tab l v hit unfolding short_table_def by (auto simp: less_Suc_eq)
    qed
    then have "sat (for_upto 0 ?p (\<lambda>j tab. aset tab (?c * ?p + j) (i mod 256)) tab) (short_table ?L (Suc i))"
      by (intro sat_mono [OF fill_range [OF room]]) blast
    then show ?thesis using sz True by (simp add: fast_step_def FAST_BITS_def)
  qed
qed

definition jtables_for :: "nat list \<Rightarrow> jhuffman \<Rightarrow> bool" where
  "jtables_for L h \<longleftrightarrow> code_upto 16 L \<and> jshape h \<and> sizes_for L (jh_size h) \<and> (\<forall>i < length L. jh_code h ! i = code_of L i) \<and>
     (\<forall>l \<in> {1..16}. jh_delta h ! l = int (first_sym L l) - int (first_code L l) \<and> jh_maxcode h ! l = word_of_nat (ceil L l)) \<and>
     jh_maxcode h ! 17 = 0xffffffff \<and> short_table L (length L) (jh_fast h)"

lemma esatx_any: "esatx m P False \<Longrightarrow> esatx m P E"
  by (erule esatx_mono) auto

lemma build_huffman_ok:
  assumes c: "length count = 16" and h: "jshape h" and fits: "length (lengths_of count) \<le> 256"
  shows "esatx (stbi_build_huffman h count) (jtables_for (lengths_of count)) (\<not> code_upto 16 (lengths_of count))"
  unfolding stbi_build_huffman_def
proof (rule esatx_ebind, rule esatx_any [OF sizes_ok [OF assms]], clarify)
  let ?L = "lengths_of count"
  fix sz assume len: "length sz = 257" and holds: "holds (map Some sz) ?L"
  have sz: "sizes_for ?L (sz[length ?L := 0])"
    using len holds fits by (auto simp: sizes_for_def holds_take map_update)
  have codes: "esatx (efor 1 17 jcode_step (0, 0, h\<lparr>jh_size := sz[length ?L := 0]\<rparr>)) (jcodes_inv ?L (sz[length ?L := 0]) 17) (\<not> code_upto 16 ?L)"
  proof (rule esatx_efor)
    show "jcodes_inv ?L (sz[length ?L := 0]) 1 (0, 0, h\<lparr>jh_size := sz[length ?L := 0]\<rparr>)"
      using h len by (simp add: jcodes_inv_def first_sym_def jshape_def)
  qed (use jcode_step_ok [OF _ _ sz] in auto)
  have total: "first_sym ?L 17 = length ?L" using first_sym_lengths [of 17 count] by (simp add: lengths_of_def)
  have put: "aset sz (length ?L) 0 = Some (sz[length ?L := 0])" using len fits by simp
  show "esatx (aset sz (length ?L) 0 \<bind> (\<lambda>sz. ebind (efor 1 17 jcode_step (0, 0, h\<lparr>jh_size := sz\<rparr>)) (\<lambda>(k, code, h). do {
         mc \<leftarrow> aset (jh_maxcode h) 17 0xffffffff;
         tab \<leftarrow> for_upto 0 k (fast_step h) (replicate (2 ^ FAST_BITS) 255);
         ret (h\<lparr>jh_maxcode := mc, jh_fast := tab\<rparr>) }))) (jtables_for ?L) (\<not> code_upto 16 ?L)"
    unfolding put bind.bind_lunit
  proof (rule esatx_ebind [OF codes], clarify)
    fix k code h' assume "jcodes_inv ?L (sz[length ?L := 0]) 17 (k, code, h')"
    note inv = this [unfolded jcodes_inv_def, simplified]
    have ok: "code_upto 16 ?L" using inv lengths_upto_bound [of _ count 16] by (auto simp: code_upto_def lengths_of_def)
    have k: "k = length ?L" using inv total by simp
    have "sat (for_upto 0 (length ?L) (fast_step h') (replicate 512 255)) (short_table ?L (length ?L))"
    proof (rule sat_for_upto)
      show "short_table ?L 0 (replicate 512 255)" by (simp add: short_table_def)
    qed (use fast_step_ok [OF ok] inv sz total in \<open>auto simp: jshape_def\<close>)
    then show "esatx (aset (jh_maxcode h') 17 0xffffffff \<bind> (\<lambda>mc. for_upto 0 k (fast_step h') (replicate (2 ^ FAST_BITS) 255) \<bind>
        (\<lambda>tab. ret (h'\<lparr>jh_maxcode := mc, jh_fast := tab\<rparr>)))) (jtables_for ?L) (\<not> code_upto 16 ?L)"
      using inv sz ok total k by (auto simp: jshape_def FAST_BITS_def jtables_for_def short_table_def elim!: satE)
  qed
qed

subsection \<open>Decoding\<close>

text \<open>The next 16 bits, and the result of decoding a symbol with the values \<open>vs\<close>.\<close>

definition bits16 :: "u32 \<Rightarrow> nat" where
  "bits16 b = unat b div 65536"

definition jpeg_symbol :: "nat list \<Rightarrow> byte list \<Rightarrow> 'u jpeg \<Rightarrow> int \<times> 'u jpeg" where
  "jpeg_symbol L vs j = (case next_symbol L (bits16 (jcode_buffer j)) of
     None \<Rightarrow> (- 1, j\<lparr>jcode_bits := jcode_bits j - 16\<rparr>)
   | Some i \<Rightarrow> if int (L ! i) > jcode_bits j then (- 1, j)
       else (uint (vs ! i), j\<lparr>jcode_buffer := push_bit (L ! i) (jcode_buffer j), jcode_bits := jcode_bits j - int (L ! i)\<rparr>))"

lemma bits16_less: "bits16 b < 65536"
  using unat_u32_less [of b] by (simp add: bits16_def)

lemma top_bits:
  assumes "1 \<le> k" "k \<le> 16"
  shows "unat (drop_bit (32 - k) b) = bits16 b div 2 ^ (16 - k)" "bits16 b div 2 ^ (16 - k) < 2 ^ k"
proof -
  have "unat (drop_bit (32 - k) b) = unat b div 2 ^ (32 - k)" by (rule unat_drop_bit)
  also have "(2 :: nat) ^ (32 - k) = 65536 * 2 ^ (16 - k)" using assms power_add [of "2 :: nat" 16 "16 - k"] by simp
  finally show "unat (drop_bit (32 - k) b) = bits16 b div 2 ^ (16 - k)" by (simp add: bits16_def div_mult2_eq)
  have "bits16 b < 2 ^ k * 2 ^ (16 - k)" using bits16_less [of b] assms by (simp flip: power_add)
  then show "bits16 b div 2 ^ (16 - k) < 2 ^ k" by (simp add: less_mult_imp_div_less)
qed

lemma fast_index: "unat (drop_bit 23 b AND 511) = bits16 b div 128"
proof -
  have "unat (drop_bit 23 b AND 511) = unat (drop_bit 23 b) mod 512"
    using low_bits [of 9 "drop_bit 23 b"] by simp
  moreover have "unat (drop_bit 23 b) = bits16 b div 128" using top_bits(1) [of 9 b] by simp
  moreover have "bits16 b div 128 < 512" using bits16_less [of b] by simp
  ultimately show ?thesis by simp
qed

lemma bmask_at: "k \<le> 16 \<Longrightarrow> aget stbi_bmask k = Some (mask k)"
proof -
  assume "k \<le> 16"
  then have "k \<in> set [0..<17]" by simp
  moreover have "\<forall>k \<in> set [0..<17]. aget stbi_bmask k = Some (mask k)" by code_simp
  ultimately show ?thesis by blast
qed

lemma mask_top:
  assumes "1 \<le> k" "k \<le> 16"
  shows "drop_bit (32 - k) b AND mask k = drop_bit (32 - k) (b :: u32)"
proof -
  have "unat (drop_bit (32 - k) b) < 2 ^ k" using top_bits [OF assms, of b] by simp
  then have "unat (take_bit k (drop_bit (32 - k) b)) = unat (drop_bit (32 - k) b)"
    by (simp only: unsigned_take_bit_eq take_bit_nat_eq_self)
  then show ?thesis by (simp only: take_bit_eq_mask word_unat_eq_iff)
qed

lemma maxcode_search:
  assumes t: "jtables_for L h" and w: "w = bits16 b" and below: "ceil L 9 \<le> w"
  shows "sat (loop (maxcode_step h (drop_bit 16 b)) 10) (\<lambda>k. 10 \<le> k \<and> k \<le> 17 \<and> ceil L (k - 1) \<le> w \<and> (k \<le> 16 \<longrightarrow> w < ceil L k))"
proof (rule sat_loop [where I = "\<lambda>k. 10 \<le> k \<and> k \<le> 17 \<and> ceil L (k - 1) \<le> w" and measure_of = "\<lambda>k. 17 - k"])
  fix k assume k: "10 \<le> k \<and> k \<le> 17 \<and> ceil L (k - 1) \<le> w"
  have u: "unat (drop_bit 16 b) = w" using unat_drop_bit [of 16 b] by (simp add: w bits16_def)
  have get: "aget (jh_maxcode h) k = Some (jh_maxcode h ! k)" using t k by (simp add: jtables_for_def jshape_def)
  show "sat (maxcode_step h (drop_bit 16 b) k) (\<lambda>r. case r of Inl k \<Rightarrow> 10 \<le> k \<and> k \<le> 17 \<and> ceil L (k - 1) \<le> w \<and> (k \<le> 16 \<longrightarrow> w < ceil L k)
      | Inr s' \<Rightarrow> (10 \<le> s' \<and> s' \<le> 17 \<and> ceil L (s' - 1) \<le> w) \<and> 17 - s' < 17 - k)"
  proof (cases "k = 17")
    case True
    have "jh_maxcode h ! 17 = 0xffffffff" using t by (simp add: jtables_for_def)
    moreover have "drop_bit 16 b < 0xffffffff" using u bits16_less [of b] w by (simp add: word_less_nat_alt)
    ultimately show ?thesis using get k True by (simp add: maxcode_step_def)
  next
    case False
    then have l: "1 \<le> k" "k \<le> 16" using k by auto
    have "ceil L k \<le> 65536" using t l by (intro ceil_bound [of 16]) (auto simp: jtables_for_def)
    then have "unat (word_of_nat (ceil L k) :: u32) = ceil L k" by (intro unat_u32_of_nat) simp
    moreover have "jh_maxcode h ! k = word_of_nat (ceil L k)" using t l by (simp add: jtables_for_def)
    ultimately have "drop_bit 16 b < jh_maxcode h ! k \<longleftrightarrow> w < ceil L k" using u by (simp only: word_less_nat_alt)
    then show ?thesis using get k l by (auto simp: maxcode_step_def not_less)
  qed
qed (use below in auto)

lemma symbol_index:
  assumes len: "length (lengths_of count) \<le> 256" and i: "i < length (lengths_of count)" and ok: "code_upto 16 (lengths_of count)"
    and l: "lengths_of count ! i = k"
    and v: "unat (v :: u32) = code_of (lengths_of count) i"
  shows "sint (v + word_of_int (int (first_sym (lengths_of count) k) - int (first_code (lengths_of count) k))) = int i"
proof -
  let ?L = "lengths_of count"
  have "int (code_of ?L i) + (int (first_sym ?L k) - int (first_code ?L k)) = int i"
    using code_of_lengths [OF i l] at_length_between [OF i] l by simp
  moreover have "v = word_of_int (int (code_of ?L i))" by (simp flip: v)
  ultimately have "v + word_of_int (int (first_sym ?L k) - int (first_code ?L k)) = word_of_int (int i)"
    by (metis of_int_add)
  then show ?thesis using sint_word_small [of "int i"] i len by simp
qed

lemma huff_slow_eq:
  assumes t: "jtables_for (lengths_of count) h" and none: "ceil (lengths_of count) 9 \<le> bits16 (jcode_buffer j)"
  shows "jpeg_huff_slow j h = Some (jpeg_symbol (lengths_of count) (jh_values h) j)"
proof -
  let ?L = "lengths_of count" let ?b = "jcode_buffer j" let ?w = "bits16 ?b"
  have ok: "code_upto 16 ?L" and len: "length ?L \<le> 256" and sh: "jshape h" and sz: "sizes_for ?L (jh_size h)"
    using t by (auto simp: jtables_for_def sizes_for_def)
  obtain k where k: "loop (maxcode_step h (drop_bit 16 ?b)) (FAST_BITS + 1) = Some k" "10 \<le> k" "k \<le> 17" "ceil ?L (k - 1) \<le> ?w"
    "k \<le> 16 \<Longrightarrow> ?w < ceil ?L k"
    using maxcode_search [OF t refl none] by (auto simp: FAST_BITS_def elim: satE)
  show ?thesis
  proof (cases "k = 17")
    case True
    then have "\<not> (\<exists>i. starts ?L i ?w \<and> ?L ! i \<le> 16)" using starts_ex_iff [of 16 ?L ?w] k(4) by simp
    then have "next_symbol ?L ?w = None" using starts_length [OF ok] next_symbol_None by blast
    then show ?thesis using k(1) True by (simp add: jpeg_huff_slow_def jpeg_symbol_def)
  next
    case False
    then have kb: "1 \<le> k" "k \<le> 16" using k by auto
    obtain i where i: "?L ! i = k" "starts ?L i ?w" using starts_interval [OF kb, of ?L ?w] k(4,5) kb by auto
    then have il: "i < length ?L" and code: "?w div 2 ^ (16 - k) = code_of ?L i" by (auto simp: starts_def)
    have nxt: "next_symbol ?L ?w = Some i" using next_symbol_Some [OF ok] i(2) by simp
    let ?v = "drop_bit (32 - k) ?b"
    have shr: "shr32 ?b (32 - int k) = Some ?v" using kb by (simp add: shr32_def nat_diff_distrib')
    have v: "unat ?v = code_of ?L i" using top_bits(1) [OF kb, of ?b] code by simp
    have dl: "aget (jh_delta h) k = Some (int (first_sym ?L k) - int (first_code ?L k))"
      using t kb sh by (simp add: jtables_for_def jshape_def)
    note c = symbol_index [OF len il ok i(1) v]
    have gets: "iget (jh_size h) (int i) = Some k" "iget (jh_code h) (int i) = Some (code_of ?L i)" "iget (jh_values h) (int i) = Some (jh_values h ! i)"
      using il len sh sizes_for_nth [OF sz il] i(1) t by (auto simp: jshape_def jtables_for_def)
    have shl: "shl32 ?b (int k) = Some (push_bit k ?b)" using kb by (simp add: shl32_def)
    have i256: "i < 256" using il len by simp
    show ?thesis using k(1) False kb shr dl c gets shl v i256 bmask_at [OF kb(2)] mask_top [OF kb, of ?b] nxt i(1)
      by (simp add: jpeg_huff_slow_def jpeg_symbol_def)
  qed
qed

lemma huff_decode_eq:
  assumes t: "jtables_for (lengths_of count) h" and len: "length (lengths_of count) \<le> 255" and g: "grow_below 16 j = Some j'"
  shows "stbi_jpeg_huff_decode j h = Some (jpeg_symbol (lengths_of count) (jh_values h) j')"
proof -
  let ?L = "lengths_of count" let ?b = "jcode_buffer j'" let ?w = "bits16 ?b"
  have ok: "code_upto 16 ?L" and sh: "jshape h" and sz: "sizes_for ?L (jh_size h)" and fast: "short_table ?L (length ?L) (jh_fast h)"
    using t by (auto simp: jtables_for_def)
  have w: "?w div 128 < 512" using bits16_less [of ?b] by simp
  have get: "aget (jh_fast h) (?w div 128) = Some (jh_fast h ! (?w div 128))" using w sh by (simp add: jshape_def)
  show ?thesis
  proof (cases "\<exists>i. starts ?L i ?w \<and> ?L ! i \<le> 9")
    case True
    then obtain i where i: "starts ?L i ?w" "?L ! i \<le> 9" by blast
    then have il: "i < length ?L" by (simp add: starts_def)
    have "short_hit ?L i (?w div 128)" using short_hit_starts [OF il] i by simp
    then have f: "jh_fast h ! (?w div 128) = i" using fast w il len by (auto simp: short_table_def)
    have gets: "aget (jh_size h) i = Some (?L ! i)" "aget (jh_values h) i = Some (jh_values h ! i)"
      using sizes_for_nth [OF sz il] sz sh il len by (auto simp: sizes_for_def jshape_def)
    have shl: "shl32 ?b (int (?L ! i)) = Some (push_bit (?L ! i) ?b)" using i(2) by (simp add: shl32_def)
    have "next_symbol ?L ?w = Some i" using next_symbol_Some [OF ok] i(1) by simp
    then show ?thesis using g get f gets shl il len
      by (simp add: stbi_jpeg_huff_decode_def jpeg_symbol_def fast_index)
  next
    case False
    then have "\<forall>i < length ?L. \<not> short_hit ?L i (?w div 128)" using short_hit_starts by blast
    then have f: "jh_fast h ! (?w div 128) = 255" using fast w by (auto simp: short_table_def)
    have "ceil ?L 9 \<le> ?w" using False starts_ex_iff [of 9 ?L ?w] by simp
    then show ?thesis using g get f huff_slow_eq [OF t] by (simp add: stbi_jpeg_huff_decode_def fast_index)
  qed
qed

lemma jtables_values: "jtables_for L h \<Longrightarrow> length vs = 256 \<Longrightarrow> jtables_for L (h\<lparr>jh_values := vs\<rparr>)"
  by (simp add: jtables_for_def jshape_def)

text \<open>C8: For a DHT segment with at most 255 symbols, the tables of the JPEG reader are built exactly when the
  code lengths do not oversubscribe the code space, and \<^verbatim>\<open>stbi__jpeg_huff_decode\<close> with them,
  through the nine-bit table or the search by length, delivers the symbol of the canonical code that
  starts the bit stream and consumes exactly its code; when the stream ends within the code or no code
  fits, it answers -1.\<close>

theorem jpeg_huff_decode_canonical:
  assumes "length count = 16" and "length (lengths_of count) \<le> 255" and "jshape h"
  shows "if code_upto 16 (lengths_of count)
    then \<exists>h'. stbi_build_huffman h count = ret h' \<and>
      (\<forall>vs (j :: 'u jpeg) j'. length vs = 256 \<longrightarrow> grow_below 16 j = Some j' \<longrightarrow>
         stbi_jpeg_huff_decode j (h'\<lparr>jh_values := vs\<rparr>) = Some (jpeg_symbol (lengths_of count) vs j'))
    else \<exists>e. stbi_build_huffman h count = stbi_err e"
proof -
  have "esatx (stbi_build_huffman h count) (jtables_for (lengths_of count)) (\<not> code_upto 16 (lengths_of count))"
    using build_huffman_ok [OF assms(1,3)] assms(2) by simp
  then obtain r where r: "stbi_build_huffman h count = Some r" "\<And>h'. r = Inr h' \<Longrightarrow> jtables_for (lengths_of count) h'"
    "\<And>e. r = Inl e \<Longrightarrow> \<not> code_upto 16 (lengths_of count)" by (auto simp: esatx_def)
  show ?thesis
  proof (cases r)
    case (Inl e)
    then show ?thesis using r by (auto simp: stbi_err_def)
  next
    case (Inr h')
    then have t: "jtables_for (lengths_of count) h'" using r(2) by simp
    then have "code_upto 16 (lengths_of count)" by (simp add: jtables_for_def)
    moreover have "stbi_jpeg_huff_decode j (h'\<lparr>jh_values := vs\<rparr>) = Some (jpeg_symbol (lengths_of count) vs j')"
      if "length vs = 256" "grow_below 16 j = Some j'" for vs :: "byte list" and j j' :: "'u jpeg"
      using huff_decode_eq [OF jtables_values [OF t that(1)] assms(2) that(2)] by simp
    ultimately show ?thesis using r(1) Inr by (auto simp: ret_def)
  qed
qed

lemma first_code_numeral: "first_code L (numeral k) = 2 * (first_code L (pred_numeral k) + (if pred_numeral k = 0 then 0 else count_list L (pred_numeral k)))"
  by (simp add: numeral_eq_Suc)

theorem jpeg_huff_decode_canonical_witness:
  "\<exists>h'. stbi_build_huffman zero_jhuffman ([1, 1] @ replicate 14 0) = ret h' \<and>
    (\<forall>s :: unit stbi_context. map_option fst (stbi_jpeg_huff_decode ((zero_jpeg s)\<lparr>jcode_buffer := 0x80000000, jcode_bits := 32\<rparr>)
       (h'\<lparr>jh_values := [7, 9] @ replicate 254 0\<rparr>)) = Some 9)"
proof -
  let ?c = "[1, 1] @ replicate 14 (0 :: nat)"
  have L: "lengths_of ?c = [1, 2]" by code_simp
  have "l = 1 \<or> l = 2 \<or> l = 3 \<or> l = 4 \<or> l = 5 \<or> l = 6 \<or> l = 7 \<or> l = 8 \<or> l = 9 \<or> l = 10 \<or> l = 11 \<or> l = 12 \<or> l = 13 \<or> l = 14 \<or> l = 15 \<or> l = 16"
    if "l \<in> {1..16}" for l :: nat using that by (simp only: atLeastAtMost_iff) arith
  note cases16 = this
  have "first_code [1, 2] l + count_list [1, 2] l \<le> 2 ^ l" if "l \<in> {1..16}" for l
    using cases16 [OF that] by (elim disjE) (simp_all add: first_code_numeral)
  then have ok: "code_upto 16 [1, 2]" by (simp add: code_upto_def)
  have sh: "jshape zero_jhuffman" by (simp add: jshape_def zero_jhuffman_def)
  obtain h' where h': "stbi_build_huffman zero_jhuffman ?c = ret h'"
    and dec: "\<forall>vs (j :: unit jpeg) j'. length vs = 256 \<longrightarrow> grow_below 16 j = Some j' \<longrightarrow>
      stbi_jpeg_huff_decode j (h'\<lparr>jh_values := vs\<rparr>) = Some (jpeg_symbol [1, 2] vs j')"
    using jpeg_huff_decode_canonical [of ?c zero_jhuffman, where ?'u = unit] L ok sh by auto
  have w: "bits16 0x80000000 = 32768" by (simp add: bits16_def)
  have n: "next_symbol [1, 2] 32768 = Some 1"
    using next_symbol_Some [OF ok, of 32768 1] by (simp add: starts_def code_of_def rank_def first_code_numeral)
  show ?thesis using h' dec [rule_format, of "[7, 9] @ replicate 254 0"] w n
    by (auto simp: grow_below_def jpeg_symbol_def zero_jpeg_def)
qed

subsection \<open>The symbol number 255\<close>

text \<open>A table with 256 codes of nine bits.\<close>

definition full_count :: "nat list" where
  "full_count = [0, 0, 0, 0, 0, 0, 0, 0, 256, 0, 0, 0, 0, 0, 0, 0]"

lemma full_lengths: "lengths_of full_count = replicate 256 9"
proof -
  have "[0..<16] = [0, 1, 2, 3, 4, 5, 6, 7, 8, 9, 10, 11, 12, 13, 14, 15 :: nat]" by (simp add: upt_rec)
  then show ?thesis by (simp add: lengths_of_def lengths_upto_def full_count_def)
qed

lemma count_replicate: "count_list (replicate n x) y = (if x = y then n else 0)"
  by (induction n) auto

lemma full_code:
  "first_code (replicate 256 9) l = (if l \<le> 9 then 0 else 512 * 2 ^ (l - 10))"
  "code_upto 16 (replicate 256 9)"
proof -
  have fc: "first_code (replicate 256 9) l = (if l \<le> 9 then 0 else 512 * 2 ^ (l - 10))" for l
  proof (induction l)
    case (Suc l)
    have "2 ^ (Suc l - 10) = 2 * (2 :: nat) ^ (l - 10)" if "10 \<le> l" using that by (metis Suc_diff_le power_Suc)
    then show ?case using Suc by (auto simp: count_replicate not_le)
  qed simp
  show "first_code (replicate 256 9) l = (if l \<le> 9 then 0 else 512 * 2 ^ (l - 10))" by (rule fc)
  have "512 * 2 ^ (l - 10) \<le> (2 :: nat) ^ l" if "10 \<le> l" for l
    using that power_add [of "2 :: nat" 9 "l - 10"] power_increasing [of "9 + (l - 10)" l "2 :: nat"] by simp
  then show "code_upto 16 (replicate 256 9)" by (auto simp: code_upto_def fc count_replicate)
qed

lemma full_symbol:
  assumes "k div 64 = 510"
  shows "next_symbol (replicate 256 9) k = Some 255"
proof -
  have "k div 128 = 255" using assms div_mult2_eq [of k 64 2] by simp
  then have "starts (replicate 256 9) 255 k"
    by (simp add: starts_def code_of_def rank_def full_code(1) count_replicate)
  then show ?thesis using next_symbol_Some [OF full_code(2)] by simp
qed

text \<open>C34: The table for short codes marks an unused entry with 255, which is also the number of
  the last symbol of a table with 256 symbols. For 256 codes of nine bits the reader takes the last code for a
  longer one: on the input bits 011111111 0 the canonical code has symbol 255, but the decoder
  looks ten bits ahead, computes the symbol 254 and stops in the assertion on its code.\<close>

theorem jpeg_symbol_255_misread:
  assumes "jshape h" and "16 \<le> jcode_bits j" and "bits16 (jcode_buffer j) div 64 = 510"
  shows "next_symbol (lengths_of full_count) (bits16 (jcode_buffer j)) = Some 255 \<and>
    (\<exists>h'. stbi_build_huffman h full_count = ret h' \<and> stbi_jpeg_huff_decode j h' = None)"
proof -
  let ?L = "lengths_of full_count" let ?b = "jcode_buffer j" let ?w = "bits16 (jcode_buffer j)"
  have len: "length ?L \<le> 256" "length full_count = 16" by (simp add: full_lengths) (simp add: full_count_def)
  have ok: "code_upto 16 ?L" by (simp add: full_lengths full_code(2))
  obtain h' where h': "stbi_build_huffman h full_count = ret h'" and t: "jtables_for ?L h'"
    using build_huffman_ok [OF len(2) assms(1) len(1)] ok esatx_retI by blast
  have sh: "jshape h'" and fast: "short_table ?L (length ?L) (jh_fast h')" and sz: "sizes_for ?L (jh_size h')" using t by (auto simp: jtables_for_def)
  have w: "?w div 128 = 255" "?w < 32768" using assms(3) div_mult2_eq [of ?w 64 2] by simp_all
  have "short_hit ?L 255 255" by (simp add: short_hit_def full_lengths code_of_def rank_def full_code(1) count_replicate)
  then have f: "jh_fast h' ! 255 = 255" using fast by (auto simp: short_table_def full_lengths)
  have "jh_maxcode h' ! 10 = word_of_nat (ceil ?L 10)" using t by (simp add: jtables_for_def)
  then have mc: "jh_maxcode h' ! 10 = 32768" by (simp add: ceil_def full_lengths full_code(1) count_replicate)
  have "unat (drop_bit 16 ?b) = ?w" using unat_drop_bit [of 16 ?b] by (simp add: bits16_def)
  then have "drop_bit 16 ?b < 32768" using w(2) by (simp add: word_less_nat_alt)
  then have k: "loop (maxcode_step h' (drop_bit 16 ?b)) (FAST_BITS + 1) = Some 10"
    using mc sh by (subst loop.simps) (simp add: maxcode_step_def FAST_BITS_def jshape_def)
  have dl: "aget (jh_delta h') 10 = Some (- 256)"
    using t sh first_sym_lengths [of 10 full_count] by (simp add: jtables_for_def jshape_def full_lengths full_code(1) first_sym_def count_replicate)
  have v: "unat (drop_bit 22 ?b) = 510" using top_bits(1) [of 10 ?b] assms(3) by simp
  then have "drop_bit 22 ?b = (510 :: u32)" by (simp add: word_unat_eq_iff)
  then have c: "sint ((drop_bit 22 ?b AND mask 10) + word_of_int (- 256)) = 254" using mask_top [of 10 ?b] by simp
  have a: "drop_bit 23 ?b AND mask 9 = drop_bit 23 ?b" "unat (drop_bit 23 ?b) = 255" using mask_top [of 9 ?b] top_bits(1) [of 9 ?b] w(1) by simp_all
  have gets: "iget (jh_size h') 254 = Some 9" "iget (jh_code h') 254 = Some 254"
    using sizes_for_nth [OF sz, of 254] sh t by (auto simp: jshape_def full_lengths jtables_for_def code_of_def rank_def full_code(1) count_replicate)
  have "jpeg_huff_slow j h' = None"
    using k dl c a gets bmask_at [of 10] bmask_at [of 9] assms(2) by (simp add: jpeg_huff_slow_def shr32_def)
  then have "stbi_jpeg_huff_decode j h' = None"
    using f w(1) sh assms(2) by (simp add: stbi_jpeg_huff_decode_def fast_index grow_below_def jshape_def)
  then show ?thesis using h' full_symbol [OF assms(3)] by (simp add: full_lengths)
qed

theorem jpeg_symbol_255_misread_witness:
  "\<forall>s :: unit stbi_context. \<exists>h'. stbi_build_huffman zero_jhuffman full_count = ret h' \<and>
    stbi_jpeg_huff_decode ((zero_jpeg s)\<lparr>jcode_buffer := 0x7f800000, jcode_bits := 32\<rparr>) h' = None"
proof
  fix s :: "unit stbi_context"
  show "\<exists>h'. stbi_build_huffman zero_jhuffman full_count = ret h' \<and>
      stbi_jpeg_huff_decode ((zero_jpeg s)\<lparr>jcode_buffer := 0x7f800000, jcode_bits := 32\<rparr>) h' = None"
    using jpeg_symbol_255_misread [of zero_jhuffman "(zero_jpeg s)\<lparr>jcode_buffer := 0x7f800000, jcode_bits := 32\<rparr>"]
    by (auto simp: jshape_def zero_jhuffman_def bits16_def)
qed

end
