(* ===== verification/Jpeg_Idct.thy ===== *)
theory Jpeg_Idct
  imports Jpeg_Kernels
begin

text \<open>
  The inverse cosine transform of the JPEG reader computes a separable integer transform: two
  passes with one matrix, rounded after each pass. For coefficients of a size that eight-bit images
  have it does so without signed overflow.
\<close>

subsection \<open>The reference transform\<close>

definition idct_matrix :: "int list list" where
  "idct_matrix = [
     [4096, 5683, 5352, 4816, 4096, 3219, 2217, 1131],
     [4096, 4816, 2217, - 1129, - 4096, - 5681, - 5350, - 3218],
     [4096, 3219, - 2217, - 5681, - 4096, 1132, 5350, 4816],
     [4096, 1131, - 5352, - 3218, 4096, 4816, - 2217, - 5680],
     [4096, - 1131, - 5352, 3218, 4096, - 4816, - 2217, 5680],
     [4096, - 3219, - 2217, 5681, - 4096, - 1132, 5350, - 4816],
     [4096, - 4816, 2217, 1129, - 4096, 5681, - 5350, 3218],
     [4096, - 5683, 5352, - 4816, 4096, - 3219, 2217, - 1131]]"

definition dot8 :: "int list \<Rightarrow> (nat \<Rightarrow> int) \<Rightarrow> int" where
  "dot8 row s = row ! 0 * s 0 + row ! 1 * s 1 + row ! 2 * s 2 + row ! 3 * s 3 + row ! 4 * s 4 + row ! 5 * s 5 + row ! 6 * s 6 + row ! 7 * s 7"

text \<open>Entry \<open>k\<close> of column \<open>i\<close> after the first pass, with two extra bits, and the sample of row \<open>k\<close> and
  column \<open>n\<close>.\<close>

definition idct_mid :: "int list \<Rightarrow> nat \<Rightarrow> nat \<Rightarrow> int" where
  "idct_mid d k i = (dot8 (idct_matrix ! k) (\<lambda>j. d ! (8 * j + i)) + 512) div 2 ^ 10"

definition idct_sample :: "int list \<Rightarrow> nat \<Rightarrow> nat \<Rightarrow> byte" where
  "idct_sample d k n = stbi_clamp ((dot8 (idct_matrix ! n) (\<lambda>i. idct_mid d k i) + (65536 + 128 * 2 ^ 17)) div 2 ^ 17)"

subsection \<open>One pass\<close>

lemma i32_within: "\<bar>x\<bar> \<le> 2147483647 \<Longrightarrow> i32 x = Some x"
  by (simp add: i32_def abs_le_iff)

lemma idct_even_eq:
  assumes "\<bar>s0\<bar> \<le> 69000" "\<bar>s2\<bar> \<le> 69000" "\<bar>s4\<bar> \<le> 69000" "\<bar>s6\<bar> \<le> 69000"
  shows "idct_even s0 s2 s4 s6 = Some (4096 * s0 + 5352 * s2 + 4096 * s4 + 2217 * s6, 4096 * s0 + 2217 * s2 - 4096 * s4 - 5350 * s6,
     4096 * s0 - 2217 * s2 - 4096 * s4 + 5350 * s6, 4096 * s0 - 5352 * s2 + 4096 * s4 - 2217 * s6)"
  using assms by (simp add: idct_even_def i32_within abs_le_iff)

lemma idct_odd_eq:
  assumes "\<bar>s1\<bar> \<le> 69000" "\<bar>s3\<bar> \<le> 69000" "\<bar>s5\<bar> \<le> 69000" "\<bar>s7\<bar> \<le> 69000"
  shows "idct_odd s1 s3 s5 s7 = Some (1131 * s1 - 3218 * s3 + 4816 * s5 - 5680 * s7, 3219 * s1 - 5681 * s3 + 1132 * s5 + 4816 * s7,
     4816 * s1 - 1129 * s3 - 5681 * s5 - 3218 * s7, 5683 * s1 + 4816 * s3 + 3219 * s5 + 1131 * s7)"
  using assms by (simp add: idct_odd_def i32_within abs_le_iff)

lemma idct_pass:
  assumes s: "\<And>k. k < 8 \<Longrightarrow> \<bar>s k\<bar> \<le> 69000" and bias: "0 \<le> bias" "bias \<le> 2 ^ 24 + 2 ^ 16"
  shows "(do { t \<leftarrow> STBI_IDCT_1D (s 0) (s 1) (s 2) (s 3) (s 4) (s 5) (s 6) (s 7); idct_outputs bias sh t }) =
    Some (map (\<lambda>n. (dot8 (idct_matrix ! n) s + bias) div 2 ^ sh) [0..<8])"
proof -
  have b: "\<bar>s 0\<bar> \<le> 69000" "\<bar>s 1\<bar> \<le> 69000" "\<bar>s 2\<bar> \<le> 69000" "\<bar>s 3\<bar> \<le> 69000" "\<bar>s 4\<bar> \<le> 69000" "\<bar>s 5\<bar> \<le> 69000"
    "\<bar>s 6\<bar> \<le> 69000" "\<bar>s 7\<bar> \<le> 69000" using s by simp_all
  note eqs = idct_even_eq [OF b(1,3,5,7)] idct_odd_eq [OF b(2,4,6,8)]
  have "[0..<8] = [0, 1, 2, 3, 4, 5, 6, 7 :: nat]" by (simp add: upt_rec)
  then show ?thesis using b bias unfolding STBI_IDCT_1D_def eqs idct_outputs_def
    by (simp add: i32_within abs_le_iff drop_bit_eq_div dot8_def idct_matrix_def algebra_simps)
qed

subsection \<open>The loops\<close>

lemma scatter_writes:
  assumes "length c = m" and inj: "inj_on f {..<m}" and room: "\<forall>k < m. f k < length v"
  shows "sat (for_upto 0 m (\<lambda>k v. do { x \<leftarrow> aget c k; wr v (f k) (g x) }) v)
    (\<lambda>v'. length v' = length v \<and> (\<forall>k < m. v' ! f k = Some (g (c ! k))) \<and> (\<forall>j. j \<notin> f ` {..<m} \<longrightarrow> v' ! j = v ! j))"
proof (rule sat_for_upto [where P = "\<lambda>i v'. length v' = length v \<and> (\<forall>k < i. v' ! f k = Some (g (c ! k))) \<and>
      (\<forall>j. j \<notin> f ` {..<i} \<longrightarrow> v' ! j = v ! j)"])
  fix i v' assume i: "i < m" and P: "length v' = length v \<and> (\<forall>k < i. v' ! f k = Some (g (c ! k))) \<and>
      (\<forall>j. j \<notin> f ` {..<i} \<longrightarrow> v' ! j = v ! j)"
  have "f i \<noteq> f k" if "k < i" for k using that i inj by (auto dest!: inj_onD)
  then have "(\<forall>k < Suc i. v'[f i := Some (g (c ! i))] ! f k = Some (g (c ! k)))"
    using P room i by (auto simp: less_Suc_eq nth_list_update)
  moreover have "(do { x \<leftarrow> aget c i; wr v' (f i) (g x) }) = Some (v'[f i := Some (g (c ! i))])"
    using assms(1) i room P by (simp add: wr_def)
  ultimately show "sat (do { x \<leftarrow> aget c i; wr v' (f i) (g x) }) (\<lambda>v'. length v' = length v \<and>
      (\<forall>k < Suc i. v' ! f k = Some (g (c ! k))) \<and> (\<forall>j. j \<notin> f ` {..<Suc i} \<longrightarrow> v' ! j = v ! j))"
    using P by (auto simp: lessThan_Suc)
qed auto

lemma dot8_bound:
  assumes s: "\<And>k. k < 8 \<Longrightarrow> \<bar>s k\<bar> \<le> 2048" and "n < 8"
  shows "\<bar>dot8 (idct_matrix ! n) s\<bar> \<le> 64000000"
proof -
  have b: "\<bar>s 0\<bar> \<le> 2048" "\<bar>s 1\<bar> \<le> 2048" "\<bar>s 2\<bar> \<le> 2048" "\<bar>s 3\<bar> \<le> 2048" "\<bar>s 4\<bar> \<le> 2048" "\<bar>s 5\<bar> \<le> 2048"
    "\<bar>s 6\<bar> \<le> 2048" "\<bar>s 7\<bar> \<le> 2048" using s by simp_all
  have "n = 0 \<or> n = 1 \<or> n = 2 \<or> n = 3 \<or> n = 4 \<or> n = 5 \<or> n = 6 \<or> n = 7" using assms(2) by arith
  then show ?thesis
    by (elim disjE; insert b) (simp_all add: dot8_def idct_matrix_def abs_le_iff)
qed

lemma idct_mid_bound:
  assumes "\<forall>j < 64. \<bar>d ! j\<bar> \<le> 2048" and "k < 8" "i < 8"
  shows "\<bar>idct_mid d k i\<bar> \<le> 69000"
proof -
  have "\<bar>dot8 (idct_matrix ! k) (\<lambda>j. d ! (8 * j + i))\<bar> \<le> 64000000"
    using assms by (intro dot8_bound) auto
  then show ?thesis by (auto simp: idct_mid_def abs_le_iff)
qed

lemma idct_mid_dc:
  assumes "\<And>j. 0 < j \<Longrightarrow> j < 8 \<Longrightarrow> d ! (8 * j + i) = 0" and "k < 8"
  shows "idct_mid d k i = d ! i * 4"
proof -
  have z: "d ! (8 + i) = 0" "d ! (16 + i) = 0" "d ! (24 + i) = 0" "d ! (32 + i) = 0" "d ! (40 + i) = 0" "d ! (48 + i) = 0" "d ! (56 + i) = 0"
    using assms(1) [of 1] assms(1) [of 2] assms(1) [of 3] assms(1) [of 4] assms(1) [of 5] assms(1) [of 6] assms(1) [of 7] by simp_all
  have "idct_matrix ! k ! 0 = 4096" using assms(2) by (auto simp: idct_matrix_def less_Suc_eq numeral_eq_Suc)
  then have "dot8 (idct_matrix ! k) (\<lambda>j. d ! (8 * j + i)) = 4096 * d ! i" using z by (simp add: dot8_def)
  then show ?thesis by (simp add: idct_mid_def)
qed

definition column_values :: "int list \<Rightarrow> nat \<Rightarrow> int list" where
  "column_values d i = map (\<lambda>k. idct_mid d k i) [0..<8]"

lemma idct_column_ok:
  assumes d: "length d = 64" "\<forall>j < 64. \<bar>d ! j\<bar> \<le> 2048" and "i < 8" "length v = 64"
  shows "sat (idct_column d i v) (\<lambda>v'. length v' = 64 \<and> (\<forall>k < 8. v' ! (8 * k + i) = Some (idct_mid d k i)) \<and>
    (\<forall>j. (\<forall>k < 8. j \<noteq> 8 * k + i) \<longrightarrow> v' ! j = v ! j))"
proof -
  define s where "s j = d ! (8 * j + i)" for j
  have b: "\<bar>s k\<bar> \<le> 69000" if "k < 8" for k
    using that d(2) [rule_format, of "8 * k + i"] assms(3) by (simp add: s_def)
  have pass: "(do { t \<leftarrow> STBI_IDCT_1D (s 0) (s 1) (s 2) (s 3) (s 4) (s 5) (s 6) (s 7); idct_outputs 512 10 t }) = Some (column_values d i)"
    using idct_pass [of s 512 10, OF b] by (simp add: column_values_def idct_mid_def s_def [abs_def])
  have short: "replicate 8 (s 0 * 4) = column_values d i"
    if "s 1 = 0 \<and> s 2 = 0 \<and> s 3 = 0 \<and> s 4 = 0 \<and> s 5 = 0 \<and> s 6 = 0 \<and> s 7 = 0"
  proof (rule nth_equalityI)
    have "d ! (8 * j + i) = 0" if "0 < j" "j < 8" for j
    proof -
      have "j = 1 \<or> j = 2 \<or> j = 3 \<or> j = 4 \<or> j = 5 \<or> j = 6 \<or> j = 7" using that by arith
      then show ?thesis using \<open>s 1 = 0 \<and> _\<close> by (auto simp: s_def)
    qed
    then show "replicate 8 (s 0 * 4) ! k = column_values d i ! k" if "k < length (replicate 8 (s 0 * 4))" for k
      using that idct_mid_dc [of d i k] by (simp add: column_values_def s_def)
  qed (simp add: column_values_def)
  have get: "aget d i = Some (s 0)" "aget d (8 + i) = Some (s 1)" "aget d (16 + i) = Some (s 2)" "aget d (24 + i) = Some (s 3)"
    "aget d (32 + i) = Some (s 4)" "aget d (40 + i) = Some (s 5)" "aget d (48 + i) = Some (s 6)" "aget d (56 + i) = Some (s 7)"
    using d(1) assms(3) by (simp_all add: s_def)
  have eq: "idct_column d i v = for_upto 0 8 (\<lambda>k v. do { x \<leftarrow> aget (column_values d i) k; wr v (8 * k + i) x }) v"
  proof (cases "s 1 = 0 \<and> s 2 = 0 \<and> s 3 = 0 \<and> s 4 = 0 \<and> s 5 = 0 \<and> s 6 = 0 \<and> s 7 = 0")
    case True
    show ?thesis unfolding idct_column_def get bind.bind_lunit if_P [OF True] short [OF True] by (rule refl)
  next
    case False
    show ?thesis unfolding idct_column_def get bind.bind_lunit if_not_P [OF False] pass by (rule refl)
  qed
  have "inj_on (\<lambda>k. 8 * k + i) {..<8}" by (auto simp: inj_on_def)
  note S = scatter_writes [of "column_values d i" 8 "\<lambda>k. 8 * k + i" v "\<lambda>x. x", OF _ this]
  show ?thesis unfolding eq
    by (rule sat_mono [OF S]) (use assms(3,4) in \<open>auto simp: column_values_def\<close>)
qed

lemma idct_row_ok:
  assumes v: "length v = 64" "\<forall>k < 8. \<forall>i < 8. v ! (8 * k + i) = Some (idct_mid d k i)"
    and d: "\<forall>j < 64. \<bar>d ! j\<bar> \<le> 2048" and "i < 8" and room: "base + i * stride + 8 \<le> length out"
  shows "sat (idct_row v base (int stride) i out) (\<lambda>o'. length o' = length out \<and>
    (\<forall>k < 8. o' ! (base + i * stride + k) = Some (idct_sample d i k)) \<and> (\<forall>j. (\<forall>k < 8. j \<noteq> base + i * stride + k) \<longrightarrow> o' ! j = out ! j))"
proof -
  define s where "s = (\<lambda>j. idct_mid d i j)"
  define c where "c = map (\<lambda>n. (dot8 (idct_matrix ! n) s + (65536 + 128 * 2 ^ 17)) div 2 ^ 17) [0..<8]"
  have b: "\<bar>s k\<bar> \<le> 69000" if "k < 8" for k
    using that idct_mid_bound [OF d assms(4)] by (simp add: s_def)
  have pass: "(do { t \<leftarrow> STBI_IDCT_1D (s 0) (s 1) (s 2) (s 3) (s 4) (s 5) (s 6) (s 7); idct_outputs (65536 + 128 * 2 ^ 17) 17 t }) = Some c"
    using idct_pass [of s "65536 + 128 * 2 ^ 17" 17, OF b] by (simp add: c_def)
  have at: "rd v (8 * i + k) = Some (s k)" if "k < 8" for k
    using v assms(4) that by (simp add: rd_def s_def)
  have get: "rd v (8 * i) = Some (s 0)" "rd v (8 * i + 1) = Some (s 1)" "rd v (8 * i + 2) = Some (s 2)" "rd v (8 * i + 3) = Some (s 3)"
    "rd v (8 * i + 4) = Some (s 4)" "rd v (8 * i + 5) = Some (s 5)" "rd v (8 * i + 6) = Some (s 6)" "rd v (8 * i + 7) = Some (s 7)"
    using at [of 0] at [of 1] at [of 2] at [of 3] at [of 4] at [of 5] at [of 6] at [of 7] by simp_all
  have eq: "idct_row v base (int stride) i out =
      for_upto 0 8 (\<lambda>k out. do { x \<leftarrow> aget c k; wr out (base + i * stride + k) (stbi_clamp x) }) out"
    unfolding idct_row_def get bind.bind_lunit Option.bind_assoc [symmetric] pass nat_int by simp
  have "inj_on (\<lambda>k. base + i * stride + k) {..<8}" by (auto simp: inj_on_def)
  note S = scatter_writes [of c 8 "\<lambda>k. base + i * stride + k" out stbi_clamp, OF _ this]
  show ?thesis unfolding eq
    by (rule sat_mono [OF S]) (use room in \<open>auto simp: c_def s_def idct_sample_def\<close>)
qed

lemma idct_columns_ok:
  assumes d: "length d = 64" "\<forall>j < 64. \<bar>d ! j\<bar> \<le> 2048"
  shows "sat (for_upto 0 8 (idct_column d) (replicate 64 None))
    (\<lambda>v. length v = 64 \<and> (\<forall>k < 8. \<forall>i < 8. v ! (8 * k + i) = Some (idct_mid d k i)))"
proof (rule sat_mono)
  show "sat (for_upto 0 8 (idct_column d) (replicate 64 None))
      (\<lambda>v. length v = 64 \<and> (\<forall>i < 8. \<forall>k < 8. v ! (8 * k + i) = Some (idct_mid d k i)))"
  proof (rule sat_for_upto [where P = "\<lambda>n v. length v = 64 \<and> (\<forall>i < n. \<forall>k < 8. v ! (8 * k + i) = Some (idct_mid d k i))"])
    fix i v assume i: "i < (8 :: nat)" and P: "length v = 64 \<and> (\<forall>j < i. \<forall>k < 8. v ! (8 * k + j) = Some (idct_mid d k j))"
    have ne: "8 * k + j \<noteq> 8 * k' + i" if "j < i" for j k k' :: nat
    proof
      assume "8 * k + j = 8 * k' + i"
      then have "(8 * k + j) mod 8 = (8 * k' + i) mod 8" by simp
      then show False using that i by simp
    qed
    show "sat (idct_column d i v) (\<lambda>v. length v = 64 \<and> (\<forall>j < Suc i. \<forall>k < 8. v ! (8 * k + j) = Some (idct_mid d k j)))"
      using P ne by (intro sat_mono [OF idct_column_ok [OF d i]]) (auto simp: less_Suc_eq)
  qed auto
qed auto

lemma rows_apart:
  assumes "j < i" "m < 8" "8 \<le> stride"
  shows "j * stride + m < (i :: nat) * stride"
proof -
  have "(j + 1) * stride \<le> i * stride" using assms(1) by (intro mult_le_mono1) simp
  then show ?thesis using assms(2,3) by simp
qed

lemma idct_block_samples:
  assumes d: "length d = 64" "\<forall>j < 64. \<bar>d ! j\<bar> \<le> 2048"
    and stride: "8 \<le> stride" and room: "base + 7 * stride + 8 \<le> length out"
  shows "sat (stbi_idct_block out base (int stride) d) (\<lambda>o'. length o' = length out \<and>
    (\<forall>k < 8. \<forall>n < 8. o' ! (base + k * stride + n) = Some (idct_sample d k n)) \<and>
    (\<forall>j. (\<forall>k < 8. \<forall>n < 8. j \<noteq> base + k * stride + n) \<longrightarrow> o' ! j = out ! j))"
  unfolding stbi_idct_block_def
proof (rule sat_bind [OF idct_columns_ok [OF d]])
  fix v assume v: "length v = 64 \<and> (\<forall>k < 8. \<forall>i < 8. v ! (8 * k + i) = Some (idct_mid d k i))"
  let ?P = "\<lambda>i o'. length o' = length out \<and> (\<forall>k < i. \<forall>n < 8. o' ! (base + k * stride + n) = Some (idct_sample d k n)) \<and>
      (\<forall>j. (\<forall>k < i. \<forall>n < 8. j \<noteq> base + k * stride + n) \<longrightarrow> o' ! j = out ! j)"
  show "sat (for_upto 0 8 (idct_row v base (int stride)) out) (?P 8)"
  proof (rule sat_for_upto [where P = ?P])
    fix i o' assume i: "i < (8 :: nat)" and P: "?P i o'"
    have "i * stride \<le> 7 * stride" using i by (intro mult_le_mono1) simp
    then have "base + i * stride + 8 \<le> length o'" using room P by linarith
    note step = idct_row_ok [OF conjunct1 [OF v] conjunct2 [OF v] d(2) i this]
    have ne: "base + k * stride + n \<noteq> base + i * stride + m" if "k < i" "n < 8" for k n m
      using rows_apart [OF that stride] by simp
    show "sat (idct_row v base (int stride) i o') (?P (Suc i))"
      using P ne by (intro sat_mono [OF step]) (auto simp: less_Suc_eq)
  qed auto
qed



end
