(* ===== verification/Jpeg_Colour.thy ===== *)
theory Jpeg_Colour
  imports Jpeg_Kernels
begin

text \<open>
  Accuracy of the colour arithmetic of the JPEG reader: the product of samples is rounded
  correctly, and the fixed-point conversion from YCbCr stays close to the exact formula.
\<close>

subsection \<open>Products of samples\<close>

lemma blinn_rounds:
  fixes p :: nat
  assumes "p \<le> 255 * 255"
  shows "(p + 128 + (p + 128) div 256) div 256 = (2 * p + 255) div 510"
proof -
  define q r where "q = (2 * p + 255) div 510" and "r = (2 * p + 255) mod 510"
  have qr: "2 * p + 255 = 510 * q + r" "r < 510" by (simp_all add: q_def r_def)
  have q: "q \<le> 255" using qr assms by linarith
  have "(p + 128 + (p + 128) div 256) div 256 = q"
  proof (cases "256 * q \<le> p + 128")
    case True
    then have "(p + 128) div 256 = q" using qr q by (intro div_nat_eqI) auto
    then show ?thesis using True qr q by (intro div_nat_eqI) auto
  next
    case False
    then have "q > 0" by (cases q) auto
    then have "(p + 128) div 256 = q - 1" using False qr q by (intro div_nat_eqI) (auto simp: algebra_simps)
    then show ?thesis using False qr q \<open>q > 0\<close> by (intro div_nat_eqI) (auto simp: algebra_simps)
  qed
  then show ?thesis by (simp add: q_def)
qed

text \<open>The product of two samples, computed without a division, is the product of the
  fractions \<open>x / 255\<close> and \<open>y / 255\<close> rounded to the nearest multiple of \<open>1 / 255\<close>, for all
  65536 pairs of samples; in particular white leaves the other sample unchanged.\<close>

theorem blinn_correctly_rounded:
  "stbi_blinn_8x8 x y = word_of_nat ((2 * (unat x * unat y) + 255) div 510) \<and>
   (2 * (unat x * unat y) + 255) div 510 \<le> 255 \<and> stbi_blinn_8x8 x 255 = x"
proof -
  have lt: "unat v \<le> 255" for v :: byte using unat_u8_less [of v] by simp
  have p: "unat x * unat z \<le> 255 * 255" for z :: byte by (rule mult_le_mono [OF lt lt])
  have eq: "stbi_blinn_8x8 x z = word_of_nat ((2 * (unat x * unat z) + 255) div 510)" for z
    using blinn_rounds [OF p] by (simp add: stbi_blinn_8x8_def Let_def)
  have "(2 * (unat x * 255) + 255) div 510 = unat x" by (simp add: algebra_simps)
  then have "stbi_blinn_8x8 x 255 = x" using eq [of 255] by simp
  moreover have "(2 * (unat x * unat y) + 255) div 510 \<le> 255" using p [of y] by simp
  ultimately show ?thesis using eq by simp
qed

subsection \<open>From YCbCr to RGB\<close>

lemma mask_low16: "(word_of_int c :: u32) AND 0xffff0000 = word_of_int (c - c mod 2 ^ 16)"
proof -
  have "(0xffff0000 :: u32) = word_of_int (NOT (mask 16))" by (simp add: mask_eq_exp_minus_1 not_int_def)
  then have "(word_of_int c :: u32) AND 0xffff0000 = word_of_int (c AND NOT (mask 16))"
    by (simp only: word_wi_log_defs)
  also have "c AND NOT (mask 16) = push_bit 16 (drop_bit 16 c)"
    by (rule bit_eqI) (auto simp: bit_simps)
  also have "\<dots> = c - c mod 2 ^ 16"
    by (simp add: push_bit_eq_mult drop_bit_eq_div minus_mod_eq_div_mult)
  finally show ?thesis .
qed

lemma sint_small: "INT_MIN \<le> x \<Longrightarrow> x \<le> INT_MAX \<Longrightarrow> sint (word_of_int x :: u32) = x"
  by (simp add: INT_MIN_def INT_MAX_def signed_take_bit_int_eq_self sint_sbintrunc')

text \<open>A sample is close to an exact value given in units of \<open>10 ^ - 5\<close>: after clamping the value to
  the range of samples, they differ by at most 0.58.\<close>

definition close_to :: "byte \<Rightarrow> int \<Rightarrow> bool" where
  "close_to v z \<longleftrightarrow> \<bar>100000 * uint v - max 0 (min 25500000 z)\<bar> \<le> 58000"

lemma clamp_close:
  assumes "\<bar>100000 * x - z\<bar> \<le> 58000"
  shows "close_to (stbi_clamp x) z"
proof -
  have "uint (stbi_clamp x) = max 0 (min 255 x)"
    by (auto simp: stbi_clamp_def max_def min_def uint_word_of_int)
  with assms show ?thesis by (simp add: close_to_def)
qed

lemma fixed_close:
  fixes N z :: int
  assumes "\<bar>100000 * (N - 2 ^ 19) - 2 ^ 20 * z\<bar> \<le> 8000 * 2 ^ 20"
  shows "close_to (stbi_clamp (drop_bit 20 N)) z"
proof (rule clamp_close)
  define q where "q = N div 2 ^ 20"
  have "2 ^ 20 * q \<le> N" "N < 2 ^ 20 * q + 2 ^ 20" by (simp_all add: q_def algebra_simps)
  with assms show "\<bar>100000 * drop_bit 20 N - z\<bar> \<le> 58000"
    unfolding drop_bit_eq_div q_def [symmetric] by (simp add: abs_le_iff)
qed

lemma sample_range: "0 \<le> uint (v :: byte)" "uint (v :: byte) \<le> 255"
  using uint_lt2p [of v] by simp_all

lemma i32_ok: "INT_MIN \<le> x \<Longrightarrow> x \<le> INT_MAX \<Longrightarrow> i32 x = Some x"
  by (simp add: i32_def INT_MIN_def INT_MAX_def)

lemma ycc_channels:
  fixes y cb cr :: byte
  shows "\<exists>r g b. ycc_r (uint y) (uint cr - 128) = Some r \<and> ycc_g (uint y) (uint cb - 128) (uint cr - 128) = Some g \<and>
    ycc_b (uint y) (uint cb - 128) = Some b \<and>
    close_to (stbi_clamp (drop_bit 20 r)) (100000 * uint y + 140200 * (uint cr - 128)) \<and>
    close_to (stbi_clamp (drop_bit 20 g)) (100000 * uint y - 34414 * (uint cb - 128) - 71414 * (uint cr - 128)) \<and>
    close_to (stbi_clamp (drop_bit 20 b)) (100000 * uint y + 177200 * (uint cb - 128))"
proof -
  define Y U V where "Y = uint y" and "U = uint cb - 128" and "V = uint cr - 128"
  have rng: "0 \<le> Y" "Y \<le> 255" "- 128 \<le> U" "U \<le> 127" "- 128 \<le> V" "V \<le> 127"
    using sample_range by (simp_all add: Y_def U_def V_def)
  note lim = INT_MIN_def INT_MAX_def
  have r: "ycc_r Y V = Some (Y * 2 ^ 20 + 2 ^ 19 + V * 1470208)" and b: "ycc_b Y U = Some (Y * 2 ^ 20 + 2 ^ 19 + U * 1858048)"
    using rng by (auto simp: ycc_r_def ycc_b_def lim intro!: i32_ok)
  define a c where "a = Y * 2 ^ 20 + 2 ^ 19 + V * - 748800" and "c = U * - 360960"
  define m where "m = c mod 2 ^ 16"
  have m: "0 \<le> m" "m < 65536" by (simp_all add: m_def)
  have ac: "i32 a = Some a" "i32 c = Some c" using rng by (auto simp: a_def c_def lim intro!: i32_ok)
  have "sint (word_of_int a + (word_of_int c AND 0xffff0000) :: u32) = a + (c - m)"
    unfolding mask_low16 m_def [symmetric] of_int_add [symmetric] using rng m
    by (intro sint_small) (simp_all add: lim a_def c_def)
  then have g: "ycc_g Y U V = Some (a + (c - m))" using ac by (simp add: ycc_g_def a_def c_def)
  have "close_to (stbi_clamp (drop_bit 20 (Y * 2 ^ 20 + 2 ^ 19 + V * 1470208))) (100000 * Y + 140200 * V)"
    using rng by (intro fixed_close) simp
  moreover have "close_to (stbi_clamp (drop_bit 20 (a + (c - m)))) (100000 * Y - 34414 * U - 71414 * V)"
    using rng m by (intro fixed_close) (simp add: a_def c_def)
  moreover have "close_to (stbi_clamp (drop_bit 20 (Y * 2 ^ 20 + 2 ^ 19 + U * 1858048))) (100000 * Y + 177200 * U)"
    using rng by (intro fixed_close) simp
  ultimately show ?thesis using r g b unfolding Y_def U_def V_def by blast
qed

lemma put_rgba_ok:
  assumes "p + 3 < length out"
  shows "put_rgba out p r g b a = Some (out[p := Some r, p + 1 := Some g, p + 2 := Some b, p + 3 := Some a])"
  using assms by (simp add: put_rgba_def)

text \<open>C18: The conversion of a row of \<open>n\<close> pixels from YCbCr to RGB is memory safe and free of signed
  overflow; each channel differs by at most 0.58 from the exact formula R = Y + 1.402 Cr,
  G = Y - 0.34414 Cb - 0.71414 Cr, B = Y + 1.772 Cb clamped to the range of samples, and with
  four channels the pixels are opaque. With three channels the store of the fourth one falls on
  the next pixel, so the row needs one byte more than its pixels have.\<close>

theorem ycc_row_accurate:
  assumes "st = 3 \<or> st = 4" and len: "p + n * st + (4 - st) \<le> length out"
    and rows: "n \<le> length ys" "n \<le> length cbs" "n \<le> length crs"
  shows "\<exists>out'. stbi_YCbCr_to_RGB_row out p (map Some ys) (map Some cbs) (map Some crs) n st = Some out' \<and>
    length out' = length out \<and>
    (\<forall>i < n. \<exists>r g b. rd out' (p + i * st) = Some r \<and> rd out' (p + i * st + 1) = Some g \<and> rd out' (p + i * st + 2) = Some b \<and>
       (st = 4 \<longrightarrow> rd out' (p + i * st + 3) = Some 255) \<and>
       close_to r (100000 * uint (ys ! i) + 140200 * (uint (crs ! i) - 128)) \<and>
       close_to g (100000 * uint (ys ! i) - 34414 * (uint (cbs ! i) - 128) - 71414 * (uint (crs ! i) - 128)) \<and>
       close_to b (100000 * uint (ys ! i) + 177200 * (uint (cbs ! i) - 128)))"
proof -
  define good where "good i out' \<longleftrightarrow> (\<exists>r g b. rd out' (p + i * st) = Some r \<and> rd out' (p + i * st + 1) = Some g \<and>
      rd out' (p + i * st + 2) = Some b \<and> (st = 4 \<longrightarrow> rd out' (p + i * st + 3) = Some 255) \<and>
      close_to r (100000 * uint (ys ! i) + 140200 * (uint (crs ! i) - 128)) \<and>
      close_to g (100000 * uint (ys ! i) - 34414 * (uint (cbs ! i) - 128) - 71414 * (uint (crs ! i) - 128)) \<and>
      close_to b (100000 * uint (ys ! i) + 177200 * (uint (cbs ! i) - 128)))" for i out'
  have "sat (for_upto 0 n (\<lambda>i. ycc_pixel (map Some ys) (map Some cbs) (map Some crs) i (p + i * st)) out)
      (\<lambda>o'. length o' = length out \<and> (\<forall>j < n. good j o'))"
  proof (rule sat_for_upto [where P = "\<lambda>k o'. length o' = length out \<and> (\<forall>j < k. good j o')"])
    fix i o' assume i: "i < n" and P: "length o' = length out \<and> (\<forall>j < i. good j o')"
    have room: "p + i * st + 3 < length o'"
    proof -
      have "(i + 1) * st \<le> n * st" using i by (intro mult_le_mono1) simp
      then show ?thesis using P len assms(1) by auto
    qed
    obtain r g b where c: "ycc_r (uint (ys ! i)) (uint (crs ! i) - 128) = Some r"
      "ycc_g (uint (ys ! i)) (uint (cbs ! i) - 128) (uint (crs ! i) - 128) = Some g" "ycc_b (uint (ys ! i)) (uint (cbs ! i) - 128) = Some b"
      "close_to (stbi_clamp (drop_bit 20 r)) (100000 * uint (ys ! i) + 140200 * (uint (crs ! i) - 128))"
      "close_to (stbi_clamp (drop_bit 20 g)) (100000 * uint (ys ! i) - 34414 * (uint (cbs ! i) - 128) - 71414 * (uint (crs ! i) - 128))"
      "close_to (stbi_clamp (drop_bit 20 b)) (100000 * uint (ys ! i) + 177200 * (uint (cbs ! i) - 128))"
      using ycc_channels by metis
    let ?new = "o'[p + i * st := Some (stbi_clamp (drop_bit 20 r)), p + i * st + 1 := Some (stbi_clamp (drop_bit 20 g)),
      p + i * st + 2 := Some (stbi_clamp (drop_bit 20 b)), p + i * st + 3 := Some 255]"
    have "ycc_pixel (map Some ys) (map Some cbs) (map Some crs) i (p + i * st) o' = Some ?new"
      using i rows c(1-3) put_rgba_ok [OF room] by (simp add: ycc_pixel_def)
    moreover have "good i ?new" using c(4-6) room by (auto simp: good_def rd_Some_iff nth_list_update)
    moreover have "good j ?new" if j: "j < i" for j
    proof -
      have "(j + 1) * st \<le> i * st" using j by (intro mult_le_mono1) simp
      then have "j * st + st \<le> i * st" by simp
      then have "rd ?new (p + j * st + k) = rd o' (p + j * st + k)" if "k < st" for k
        using that room by (simp add: rd_def aget_def nth_list_update)
      from this [of 0] this [of 1] this [of 2] this [of 3] show ?thesis
        using P j assms(1) unfolding good_def by auto
    qed
    ultimately show "sat (ycc_pixel (map Some ys) (map Some cbs) (map Some crs) i (p + i * st) o')
        (\<lambda>o'. length o' = length out \<and> (\<forall>j < Suc i. good j o'))"
      using P by (auto simp: less_Suc_eq)
  qed (use len in auto)
  then show ?thesis unfolding good_def stbi_YCbCr_to_RGB_row_def by (auto elim!: satE)
qed

theorem ycc_row_accurate_witness:
  "\<exists>out'. stbi_YCbCr_to_RGB_row (replicate 7 None) 0 (map Some [76, 200]) (map Some [85, 128]) (map Some [255, 128]) 2 3 = Some out' \<and>
     (\<exists>r. rd out' 0 = Some r \<and> close_to r 25405400)"
proof -
  have len: "0 + 2 * 3 + (4 - 3) \<le> length (replicate 7 None)" by simp
  obtain out' where o: "stbi_YCbCr_to_RGB_row (replicate 7 None) 0 (map Some [76, 200]) (map Some [85, 128]) (map Some [255, 128]) 2 3 = Some out'"
    and all: "\<forall>i < 2. \<exists>r g b. rd out' (0 + i * 3) = Some r \<and> rd out' (0 + i * 3 + 1) = Some g \<and> rd out' (0 + i * 3 + 2) = Some b \<and>
      close_to r (100000 * uint ([76, 200 :: byte] ! i) + 140200 * (uint ([255, 128 :: byte] ! i) - 128))"
    using ycc_row_accurate [of 3 0 2 "replicate 7 None" "[76, 200]" "[85, 128]" "[255, 128]", OF _ len] by fastforce
  from all [rule_format, of 0] o show ?thesis by auto
qed

end
