(* ===== verification/Image_Write.thy ===== *)
theory Image_Write
  imports Png_Write
begin

text \<open>
  The uncompressed and run-length writers of src/user/facet/gpu/stb_image_write.h: the buffered
  output context (lines 266 to 280 and 342 to 412), pixels and rows (lines 414 to 478), the file
  header format (lines 480 to 493), BMP (lines 495 to 522) and TGA (lines 538 to 615).

  The context keeps the bytes that have been passed to the caller's function, in order, and the
  buffer of 64 bytes.
\<close>

record write_context =
  w_out :: bytes
  w_buffer :: bytes
  buf_used :: nat

definition stbi_start_write_callbacks :: write_context where
  "stbi_start_write_callbacks = \<lparr>w_out = [], w_buffer = replicate 64 0, buf_used = 0\<rparr>"

definition w_func :: "write_context \<Rightarrow> bytes \<Rightarrow> write_context" where
  "w_func s bs = s\<lparr>w_out := w_out s @ bs\<rparr>"

definition STBIW_UCHAR :: "int \<Rightarrow> byte" where
  "STBIW_UCHAR x = word_of_int x"

subsection \<open>Formatted headers\<close>

text \<open>The characters 1, 2 and 4 of the format write that many bytes of the next argument, least
  significant first; any other character but a blank is a failed assertion.\<close>

fun stbiw_writefv :: "write_context \<Rightarrow> string \<Rightarrow> int list \<Rightarrow> write_context option" where
  "stbiw_writefv s [] v = Some s"
| "stbiw_writefv s (c # fmt) v =
     (if c = CHR '' '' then stbiw_writefv s fmt v
      else case v of
        [] \<Rightarrow> None
      | x # v \<Rightarrow>
          if c = CHR ''1'' then stbiw_writefv (w_func s [STBIW_UCHAR x]) fmt v
          else if c = CHR ''2'' then stbiw_writefv (w_func s [STBIW_UCHAR x, STBIW_UCHAR (drop_bit 8 x)]) fmt v
          else if c = CHR ''4'' then
            stbiw_writefv (w_func s [STBIW_UCHAR x, STBIW_UCHAR (drop_bit 8 x), STBIW_UCHAR (drop_bit 16 x), STBIW_UCHAR (drop_bit 24 x)]) fmt v
          else None)"

subsection \<open>Buffered bytes\<close>

definition stbiw_write_flush :: "write_context \<Rightarrow> write_context" where
  "stbiw_write_flush s =
     (if buf_used s \<noteq> 0 then (w_func s (take (buf_used s) (w_buffer s)))\<lparr>buf_used := 0\<rparr> else s)"

definition stbiw_putc :: "write_context \<Rightarrow> byte \<Rightarrow> write_context" where
  "stbiw_putc s c = w_func s [c]"

text \<open>Room for \<open>n\<close> bytes, and the store of \<open>bs\<close> at the fill position.\<close>

definition put_buffered :: "write_context \<Rightarrow> bytes \<Rightarrow> write_context option" where
  "put_buffered s bs = do {
     let s = (if buf_used s + length bs > 64 then stbiw_write_flush s else s);
     b \<leftarrow> blit (w_buffer s) (buf_used s) bs;
     Some (s\<lparr>w_buffer := b, buf_used := buf_used s + length bs\<rparr>) }"

definition stbiw_write1 :: "write_context \<Rightarrow> byte \<Rightarrow> write_context option" where
  "stbiw_write1 s a = put_buffered s [a]"

definition stbiw_write3 :: "write_context \<Rightarrow> byte \<Rightarrow> byte \<Rightarrow> byte \<Rightarrow> write_context option" where
  "stbiw_write3 s a b c = put_buffered s [a, b, c]"

subsection \<open>Pixels\<close>

text \<open>One channel of a pixel composited against pink.\<close>

definition over_pink :: "int \<Rightarrow> byte \<Rightarrow> byte \<Rightarrow> byte" where
  "over_pink bg d a = word_of_int (bg + cdiv ((uint d - bg) * uint a) 255)"

definition write_rgb :: "write_context \<Rightarrow> int \<Rightarrow> byte \<times> byte \<times> byte \<Rightarrow> write_context option" where
  "write_rgb s rgb_dir px = (case px of (r, g, b) \<Rightarrow>
     if rgb_dir = 1 then stbiw_write3 s r g b else if rgb_dir = - 1 then stbiw_write3 s b g r else None)"

definition stbiw_write_pixel :: "write_context \<Rightarrow> int \<Rightarrow> int \<Rightarrow> int \<Rightarrow> bool \<Rightarrow> bytes \<Rightarrow> int \<Rightarrow> write_context option" where
  "stbiw_write_pixel s rgb_dir comp' write_alpha expand_mono data d = do {
     s \<leftarrow> (if write_alpha < 0 then do { a \<leftarrow> iget data (d + comp' - 1); stbiw_write1 s a } else Some s);
     s \<leftarrow> (if comp' = 1 \<or> comp' = 2 then do {
             y \<leftarrow> iget data d;
             if expand_mono then stbiw_write3 s y y y else stbiw_write1 s y }
           else if comp' = 3 \<or> comp' = 4 then do {
             r \<leftarrow> iget data d;
             g \<leftarrow> iget data (d + 1);
             b \<leftarrow> iget data (d + 2);
             if comp' = 4 \<and> write_alpha = 0 then do {
               a \<leftarrow> iget data (d + 3);
               write_rgb s rgb_dir (over_pink 255 r a, over_pink 0 g a, over_pink 255 b a) }
             else write_rgb s rgb_dir (r, g, b) }
           else Some s);
     if write_alpha > 0 then do { a \<leftarrow> iget data (d + comp' - 1); stbiw_write1 s a } else Some s }"

definition write_row :: "write_context \<Rightarrow> int \<Rightarrow> int \<Rightarrow> int \<Rightarrow> bytes \<Rightarrow> int \<Rightarrow> bool \<Rightarrow> int \<Rightarrow> nat \<Rightarrow> write_context option" where
  "write_row s rgb_dir x comp' data write_alpha expand_mono j pad = do {
     s \<leftarrow> for_upto 0 (nat x) (\<lambda>i s. do {
       p \<leftarrow> i32 ((j * x + int i) * comp');
       stbiw_write_pixel s rgb_dir comp' write_alpha expand_mono data p }) s;
     Some (w_func (stbiw_write_flush s) (replicate pad 0)) }"

text \<open>The rows in the direction \<open>vdir\<close>, which the flip setting reverses.\<close>

definition stbiw_write_pixels :: "bool \<Rightarrow> write_context \<Rightarrow> int \<Rightarrow> int \<Rightarrow> int \<Rightarrow> int \<Rightarrow> int \<Rightarrow> bytes \<Rightarrow> int \<Rightarrow> nat \<Rightarrow> bool \<Rightarrow>
    write_context option" where
  "stbiw_write_pixels flip s rgb_dir vdir x y comp' data write_alpha scanline_pad expand_mono =
     (if y \<le> 0 then Some s
      else
        let up = ((if flip then - vdir else vdir) < 0) in
        for_upto 0 (nat y) (\<lambda>k s. write_row s rgb_dir x comp' data write_alpha expand_mono
          (if up then y - 1 - int k else int k) scanline_pad) s)"

definition stbiw_outfile :: "bool \<Rightarrow> write_context \<Rightarrow> int \<Rightarrow> int \<Rightarrow> int \<Rightarrow> int \<Rightarrow> int \<Rightarrow> bool \<Rightarrow> bytes \<Rightarrow> int \<Rightarrow> nat \<Rightarrow>
    string \<Rightarrow> int list \<Rightarrow> (bool \<times> write_context) option" where
  "stbiw_outfile flip s rgb_dir vdir x y comp' expand_mono data alpha pad fmt v =
     (if y < 0 \<or> x < 0 then Some (False, s)
      else do {
        s \<leftarrow> stbiw_writefv s fmt v;
        s \<leftarrow> stbiw_write_pixels flip s rgb_dir vdir x y comp' data alpha pad expand_mono;
        Some (True, s) })"

subsection \<open>BMP\<close>

definition bmp_format :: string where "bmp_format = ''11 4 22 44 44 22 444444''"
definition bmp_v4_format :: string where "bmp_v4_format = ''11 4 22 44 44 22 444444 4444 4 444 444 444 444''"

definition stbi_write_bmp_core :: "bool \<Rightarrow> write_context \<Rightarrow> int \<Rightarrow> int \<Rightarrow> int \<Rightarrow> bytes \<Rightarrow> (bool \<times> write_context) option" where
  "stbi_write_bmp_core flip s x y comp' data =
     (if comp' \<noteq> 4 then do {
        x3 \<leftarrow> i32 (- x * 3);
        let pad = x3 AND 3;
        row \<leftarrow> i32 (x * 3 + pad);
        body \<leftarrow> i32 (row * y);
        total \<leftarrow> i32 (14 + 40 + body);
        stbiw_outfile flip s (- 1) (- 1) x y comp' True data 0 (nat pad) bmp_format
          [0x42, 0x4D, total, 0, 0, 14 + 40, 40, x, y, 1, 24, 0, 0, 0, 0, 0, 0] }
      else do {
        xy \<leftarrow> i32 (x * y);
        body \<leftarrow> i32 (xy * 4);
        total \<leftarrow> i32 (14 + 108 + body);
        stbiw_outfile flip s (- 1) (- 1) x y comp' True data 1 0 bmp_v4_format
          [0x42, 0x4D, total, 0, 0, 14 + 108, 108, x, y, 1, 32, 3, 0, 0, 0, 0, 0, 0xff0000, 0xff00, 0xff, 0xff000000,
           0, 0, 0, 0, 0, 0, 0, 0, 0, 0, 0, 0, 0] })"

definition stbi_write_bmp_to_func :: "bool \<Rightarrow> int \<Rightarrow> int \<Rightarrow> int \<Rightarrow> bytes \<Rightarrow> (bool \<times> bytes) option" where
  "stbi_write_bmp_to_func flip x y comp' data = do {
     (r, s) \<leftarrow> stbi_write_bmp_core flip stbi_start_write_callbacks x y comp' data;
     Some (r, w_out s) }"

subsection \<open>TGA\<close>

text \<open>\<open>memcmp(data + p, data + q, n) != 0\<close>\<close>

definition differ :: "bytes \<Rightarrow> int \<Rightarrow> int \<Rightarrow> int \<Rightarrow> bool option" where
  "differ data p q n = (if p < 0 \<or> q < 0 \<or> n < 0 then None
     else do { a \<leftarrow> slice data (nat p) (nat n); b \<leftarrow> slice data (nat q) (nat n); Some (a \<noteq> b) })"

text \<open>The extension of a raw packet and of a run from pixel \<open>k\<close> on; \<open>prev\<close> and \<open>begin\<close> are offsets.\<close>

definition raw_step :: "bytes \<Rightarrow> int \<Rightarrow> int \<Rightarrow> int \<Rightarrow> int \<times> int \<times> int \<Rightarrow> (int + int \<times> int \<times> int) option" where
  "raw_step data row x comp' st = (case st of (k, prev, len) \<Rightarrow>
     if k < x \<and> len < 128 then do {
       d \<leftarrow> differ data prev (row + k * comp') comp';
       Some (if d then Inr (k + 1, prev + comp', len + 1) else Inl (len - 1)) }
     else Some (Inl len))"

definition run_step :: "bytes \<Rightarrow> int \<Rightarrow> int \<Rightarrow> int \<Rightarrow> int \<Rightarrow> int \<times> int \<Rightarrow> (int + int \<times> int) option" where
  "run_step data row x comp' begin' st = (case st of (k, len) \<Rightarrow>
     if k < x \<and> len < 128 then do {
       d \<leftarrow> differ data begin' (row + k * comp') comp';
       Some (if d then Inl len else Inr (k + 1, len + 1)) }
     else Some (Inl len))"

text \<open>The length of the next packet and whether it is raw.\<close>

definition tga_packet :: "bytes \<Rightarrow> int \<Rightarrow> int \<Rightarrow> int \<Rightarrow> int \<Rightarrow> (bool \<times> int) option" where
  "tga_packet data row x comp' i =
     (let begin' = row + i * comp' in
      if i < x - 1 then do {
        d \<leftarrow> differ data begin' (row + (i + 1) * comp') comp';
        len \<leftarrow> (if d then loop (raw_step data row x comp') (i + 2, begin', 2)
                else loop (run_step data row x comp' begin') (i + 2, 2));
        Some (d, len) }
      else Some (True, 1))"

definition tga_row_step :: "bytes \<Rightarrow> int \<Rightarrow> int \<Rightarrow> int \<Rightarrow> int \<Rightarrow> int \<times> write_context \<Rightarrow>
    (write_context + int \<times> write_context) option" where
  "tga_row_step data row x comp' has_alpha st = (case st of (i, s) \<Rightarrow>
     if i < x then do {
       (raw, len) \<leftarrow> tga_packet data row x comp' i;
       s \<leftarrow> (if raw then do {
               s \<leftarrow> stbiw_write1 s (STBIW_UCHAR (len - 1));
               for_upto 0 (nat len) (\<lambda>k s. stbiw_write_pixel s (- 1) comp' has_alpha False data (row + (i + int k) * comp')) s }
             else do {
               s \<leftarrow> stbiw_write1 s (STBIW_UCHAR (len - 129));
               stbiw_write_pixel s (- 1) comp' has_alpha False data (row + i * comp') });
       Some (Inr (i + len, s)) }
     else Some (Inl s))"

definition tga_format :: string where "tga_format = ''111 221 2222 11''"

definition stbi_write_tga_core :: "bool \<Rightarrow> bool \<Rightarrow> write_context \<Rightarrow> int \<Rightarrow> int \<Rightarrow> int \<Rightarrow> bytes \<Rightarrow> (bool \<times> write_context) option" where
  "stbi_write_tga_core flip with_rle s x y comp' data =
     (let has_alpha = (if comp' = 2 \<or> comp' = 4 then 1 else 0);
          colorbytes = (if has_alpha \<noteq> 0 then comp' - 1 else comp');
          format = (if colorbytes < 2 then 3 else 2) in
      if y < 0 \<or> x < 0 then Some (False, s)
      else if \<not> with_rle then
        stbiw_outfile flip s (- 1) (- 1) x y comp' False data has_alpha 0 tga_format
          [0, 0, format, 0, 0, 0, 0, 0, x, y, (colorbytes + has_alpha) * 8, has_alpha * 8]
      else do {
        s \<leftarrow> stbiw_writefv s tga_format
          [0, 0, format + 8, 0, 0, 0, 0, 0, x, y, (colorbytes + has_alpha) * 8, has_alpha * 8];
        s \<leftarrow> for_upto 0 (nat y) (\<lambda>k s. do {
          jx \<leftarrow> i32 ((if flip then int k else y - 1 - int k) * x);
          row \<leftarrow> i32 (jx * comp');
          loop (tga_row_step data row x comp' has_alpha) (0, s) }) s;
        Some (True, stbiw_write_flush s) })"

definition stbi_write_tga_to_func :: "bool \<Rightarrow> bool \<Rightarrow> int \<Rightarrow> int \<Rightarrow> int \<Rightarrow> bytes \<Rightarrow> (bool \<times> bytes) option" where
  "stbi_write_tga_to_func flip with_rle x y comp' data = do {
     (r, s) \<leftarrow> stbi_write_tga_core flip with_rle stbi_start_write_callbacks x y comp' data;
     Some (r, w_out s) }"

end
