(* ===== verification/Jpeg_Write.thy ===== *)
theory Jpeg_Write
  imports Image_Write Float32
begin

text \<open>
  The JPEG writer of src/user/facet/gpu/stb_image_write.h (lines 1242 to 1615): Huffman bits with byte
  stuffing, the float cosine transform, quantisation and run-length coding of a block, the tables,
  and the loop over the blocks with and without subsampling of the colours.

  Floating-point expressions are evaluated in binary32 in the order of the source. The bit buffer
  is a signed int whose left shift overflows; the model takes the shift of its 32 bits, which is
  what compilers make of it.
\<close>

subsection \<open>Tables\<close>

definition stbiw_jpg_ZigZag :: "nat list" where
  "stbiw_jpg_ZigZag = [
     0, 1, 5, 6, 14, 15, 27, 28, 2, 4, 7, 13, 16, 26, 29, 42, 3, 8, 12, 17, 25, 30, 41, 43, 9, 11, 18, 24, 31, 40,
     44, 53, 10, 19, 23, 32, 39, 45, 52, 54, 20, 22, 33, 38, 46, 51, 55, 60, 21, 34, 37, 47, 50, 56, 59, 61, 35, 36,
     48, 49, 57, 58, 62, 63]"

definition std_dc_luminance_nrcodes :: "byte list" where
  "std_dc_luminance_nrcodes = [
     0, 0, 1, 5, 1, 1, 1, 1, 1, 1, 0, 0, 0, 0, 0, 0, 0]"

definition std_dc_luminance_values :: "byte list" where
  "std_dc_luminance_values = [
     0, 1, 2, 3, 4, 5, 6, 7, 8, 9, 10, 11]"

definition std_ac_luminance_nrcodes :: "byte list" where
  "std_ac_luminance_nrcodes = [
     0, 0, 2, 1, 3, 3, 2, 4, 3, 5, 5, 4, 4, 0, 0, 1, 125]"

definition std_ac_luminance_values :: "byte list" where
  "std_ac_luminance_values = [
     1, 2, 3, 0, 4, 17, 5, 18, 33, 49, 65, 6, 19, 81, 97, 7, 34, 113, 20, 50, 129, 145, 161, 8, 35, 66, 177, 193, 21,
     82, 209, 240, 36, 51, 98, 114, 130, 9, 10, 22, 23, 24, 25, 26, 37, 38, 39, 40, 41, 42, 52, 53, 54, 55, 56, 57,
     58, 67, 68, 69, 70, 71, 72, 73, 74, 83, 84, 85, 86, 87, 88, 89, 90, 99, 100, 101, 102, 103, 104, 105, 106, 115,
     116, 117, 118, 119, 120, 121, 122, 131, 132, 133, 134, 135, 136, 137, 138, 146, 147, 148, 149, 150, 151, 152,
     153, 154, 162, 163, 164, 165, 166, 167, 168, 169, 170, 178, 179, 180, 181, 182, 183, 184, 185, 186, 194, 195,
     196, 197, 198, 199, 200, 201, 202, 210, 211, 212, 213, 214, 215, 216, 217, 218, 225, 226, 227, 228, 229, 230,
     231, 232, 233, 234, 241, 242, 243, 244, 245, 246, 247, 248, 249, 250]"

definition std_dc_chrominance_nrcodes :: "byte list" where
  "std_dc_chrominance_nrcodes = [
     0, 0, 3, 1, 1, 1, 1, 1, 1, 1, 1, 1, 0, 0, 0, 0, 0]"

definition std_dc_chrominance_values :: "byte list" where
  "std_dc_chrominance_values = [
     0, 1, 2, 3, 4, 5, 6, 7, 8, 9, 10, 11]"

definition std_ac_chrominance_nrcodes :: "byte list" where
  "std_ac_chrominance_nrcodes = [
     0, 0, 2, 1, 2, 4, 4, 3, 4, 7, 5, 4, 4, 0, 1, 2, 119]"

definition std_ac_chrominance_values :: "byte list" where
  "std_ac_chrominance_values = [
     0, 1, 2, 3, 17, 4, 5, 33, 49, 6, 18, 65, 81, 7, 97, 113, 19, 34, 50, 129, 8, 20, 66, 145, 161, 177, 193, 9, 35,
     51, 82, 240, 21, 98, 114, 209, 10, 22, 36, 52, 225, 37, 241, 23, 24, 25, 26, 38, 39, 40, 41, 42, 53, 54, 55, 56,
     57, 58, 67, 68, 69, 70, 71, 72, 73, 74, 83, 84, 85, 86, 87, 88, 89, 90, 99, 100, 101, 102, 103, 104, 105, 106,
     115, 116, 117, 118, 119, 120, 121, 122, 130, 131, 132, 133, 134, 135, 136, 137, 138, 146, 147, 148, 149, 150,
     151, 152, 153, 154, 162, 163, 164, 165, 166, 167, 168, 169, 170, 178, 179, 180, 181, 182, 183, 184, 185, 186,
     194, 195, 196, 197, 198, 199, 200, 201, 202, 210, 211, 212, 213, 214, 215, 216, 217, 218, 226, 227, 228, 229,
     230, 231, 232, 233, 234, 242, 243, 244, 245, 246, 247, 248, 249, 250]"

definition YDC_HT :: "(nat \<times> nat) list" where
  "YDC_HT = [
     (0, 2), (2, 3), (3, 3), (4, 3), (5, 3), (6, 3), (14, 4), (30, 5), (62, 6), (126, 7), (254, 8), (510, 9)] @ replicate 244 (0, 0)"

definition UVDC_HT :: "(nat \<times> nat) list" where
  "UVDC_HT = [
     (0, 2), (1, 2), (2, 2), (6, 3), (14, 4), (30, 5), (62, 6), (126, 7), (254, 8), (510, 9), (1022, 10), (2046, 11)] @ replicate 244 (0, 0)"

definition YAC_HT :: "(nat \<times> nat) list" where
  "YAC_HT = [
     (10, 4), (0, 2), (1, 2), (4, 3), (11, 4), (26, 5), (120, 7), (248, 8), (1014, 10), (65410, 16), (65411, 16),
     (0, 0), (0, 0), (0, 0), (0, 0), (0, 0), (0, 0), (12, 4), (27, 5), (121, 7), (502, 9), (2038, 11), (65412, 16),
     (65413, 16), (65414, 16), (65415, 16), (65416, 16), (0, 0), (0, 0), (0, 0), (0, 0), (0, 0), (0, 0), (28, 5),
     (249, 8), (1015, 10), (4084, 12), (65417, 16), (65418, 16), (65419, 16), (65420, 16), (65421, 16), (65422, 16),
     (0, 0), (0, 0), (0, 0), (0, 0), (0, 0), (0, 0), (58, 6), (503, 9), (4085, 12), (65423, 16), (65424, 16),
     (65425, 16), (65426, 16), (65427, 16), (65428, 16), (65429, 16), (0, 0), (0, 0), (0, 0), (0, 0), (0, 0), (0, 0),
     (59, 6), (1016, 10), (65430, 16), (65431, 16), (65432, 16), (65433, 16), (65434, 16), (65435, 16), (65436, 16),
     (65437, 16), (0, 0), (0, 0), (0, 0), (0, 0), (0, 0), (0, 0), (122, 7), (2039, 11), (65438, 16), (65439, 16),
     (65440, 16), (65441, 16), (65442, 16), (65443, 16), (65444, 16), (65445, 16), (0, 0), (0, 0), (0, 0), (0, 0),
     (0, 0), (0, 0), (123, 7), (4086, 12), (65446, 16), (65447, 16), (65448, 16), (65449, 16), (65450, 16),
     (65451, 16), (65452, 16), (65453, 16), (0, 0), (0, 0), (0, 0), (0, 0), (0, 0), (0, 0), (250, 8), (4087, 12),
     (65454, 16), (65455, 16), (65456, 16), (65457, 16), (65458, 16), (65459, 16), (65460, 16), (65461, 16), (0, 0),
     (0, 0), (0, 0), (0, 0), (0, 0), (0, 0), (504, 9), (32704, 15), (65462, 16), (65463, 16), (65464, 16),
     (65465, 16), (65466, 16), (65467, 16), (65468, 16), (65469, 16), (0, 0), (0, 0), (0, 0), (0, 0), (0, 0), (0, 0),
     (505, 9), (65470, 16), (65471, 16), (65472, 16), (65473, 16), (65474, 16), (65475, 16), (65476, 16),
     (65477, 16), (65478, 16), (0, 0), (0, 0), (0, 0), (0, 0), (0, 0), (0, 0), (506, 9), (65479, 16), (65480, 16),
     (65481, 16), (65482, 16), (65483, 16), (65484, 16), (65485, 16), (65486, 16), (65487, 16), (0, 0), (0, 0),
     (0, 0), (0, 0), (0, 0), (0, 0), (1017, 10), (65488, 16), (65489, 16), (65490, 16), (65491, 16), (65492, 16),
     (65493, 16), (65494, 16), (65495, 16), (65496, 16), (0, 0), (0, 0), (0, 0), (0, 0), (0, 0), (0, 0), (1018, 10),
     (65497, 16), (65498, 16), (65499, 16), (65500, 16), (65501, 16), (65502, 16), (65503, 16), (65504, 16),
     (65505, 16), (0, 0), (0, 0), (0, 0), (0, 0), (0, 0), (0, 0), (2040, 11), (65506, 16), (65507, 16), (65508, 16),
     (65509, 16), (65510, 16), (65511, 16), (65512, 16), (65513, 16), (65514, 16), (0, 0), (0, 0), (0, 0), (0, 0),
     (0, 0), (0, 0), (65515, 16), (65516, 16), (65517, 16), (65518, 16), (65519, 16), (65520, 16), (65521, 16),
     (65522, 16), (65523, 16), (65524, 16), (0, 0), (0, 0), (0, 0), (0, 0), (0, 0), (2041, 11), (65525, 16),
     (65526, 16), (65527, 16), (65528, 16), (65529, 16), (65530, 16), (65531, 16), (65532, 16), (65533, 16),
     (65534, 16), (0, 0), (0, 0), (0, 0), (0, 0), (0, 0)]"

definition UVAC_HT :: "(nat \<times> nat) list" where
  "UVAC_HT = [
     (0, 2), (1, 2), (4, 3), (10, 4), (24, 5), (25, 5), (56, 6), (120, 7), (500, 9), (1014, 10), (4084, 12), (0, 0),
     (0, 0), (0, 0), (0, 0), (0, 0), (0, 0), (11, 4), (57, 6), (246, 8), (501, 9), (2038, 11), (4085, 12),
     (65416, 16), (65417, 16), (65418, 16), (65419, 16), (0, 0), (0, 0), (0, 0), (0, 0), (0, 0), (0, 0), (26, 5),
     (247, 8), (1015, 10), (4086, 12), (32706, 15), (65420, 16), (65421, 16), (65422, 16), (65423, 16), (65424, 16),
     (0, 0), (0, 0), (0, 0), (0, 0), (0, 0), (0, 0), (27, 5), (248, 8), (1016, 10), (4087, 12), (65425, 16),
     (65426, 16), (65427, 16), (65428, 16), (65429, 16), (65430, 16), (0, 0), (0, 0), (0, 0), (0, 0), (0, 0), (0, 0),
     (58, 6), (502, 9), (65431, 16), (65432, 16), (65433, 16), (65434, 16), (65435, 16), (65436, 16), (65437, 16),
     (65438, 16), (0, 0), (0, 0), (0, 0), (0, 0), (0, 0), (0, 0), (59, 6), (1017, 10), (65439, 16), (65440, 16),
     (65441, 16), (65442, 16), (65443, 16), (65444, 16), (65445, 16), (65446, 16), (0, 0), (0, 0), (0, 0), (0, 0),
     (0, 0), (0, 0), (121, 7), (2039, 11), (65447, 16), (65448, 16), (65449, 16), (65450, 16), (65451, 16),
     (65452, 16), (65453, 16), (65454, 16), (0, 0), (0, 0), (0, 0), (0, 0), (0, 0), (0, 0), (122, 7), (2040, 11),
     (65455, 16), (65456, 16), (65457, 16), (65458, 16), (65459, 16), (65460, 16), (65461, 16), (65462, 16), (0, 0),
     (0, 0), (0, 0), (0, 0), (0, 0), (0, 0), (249, 8), (65463, 16), (65464, 16), (65465, 16), (65466, 16),
     (65467, 16), (65468, 16), (65469, 16), (65470, 16), (65471, 16), (0, 0), (0, 0), (0, 0), (0, 0), (0, 0), (0, 0),
     (503, 9), (65472, 16), (65473, 16), (65474, 16), (65475, 16), (65476, 16), (65477, 16), (65478, 16),
     (65479, 16), (65480, 16), (0, 0), (0, 0), (0, 0), (0, 0), (0, 0), (0, 0), (504, 9), (65481, 16), (65482, 16),
     (65483, 16), (65484, 16), (65485, 16), (65486, 16), (65487, 16), (65488, 16), (65489, 16), (0, 0), (0, 0),
     (0, 0), (0, 0), (0, 0), (0, 0), (505, 9), (65490, 16), (65491, 16), (65492, 16), (65493, 16), (65494, 16),
     (65495, 16), (65496, 16), (65497, 16), (65498, 16), (0, 0), (0, 0), (0, 0), (0, 0), (0, 0), (0, 0), (506, 9),
     (65499, 16), (65500, 16), (65501, 16), (65502, 16), (65503, 16), (65504, 16), (65505, 16), (65506, 16),
     (65507, 16), (0, 0), (0, 0), (0, 0), (0, 0), (0, 0), (0, 0), (2041, 11), (65508, 16), (65509, 16), (65510, 16),
     (65511, 16), (65512, 16), (65513, 16), (65514, 16), (65515, 16), (65516, 16), (0, 0), (0, 0), (0, 0), (0, 0),
     (0, 0), (0, 0), (16352, 14), (65517, 16), (65518, 16), (65519, 16), (65520, 16), (65521, 16), (65522, 16),
     (65523, 16), (65524, 16), (65525, 16), (0, 0), (0, 0), (0, 0), (0, 0), (0, 0), (1018, 10), (32707, 15),
     (65526, 16), (65527, 16), (65528, 16), (65529, 16), (65530, 16), (65531, 16), (65532, 16), (65533, 16),
     (65534, 16), (0, 0), (0, 0), (0, 0), (0, 0), (0, 0)]"

definition YQT :: "int list" where
  "YQT = [
     16, 11, 10, 16, 24, 40, 51, 61, 12, 12, 14, 19, 26, 58, 60, 55, 14, 13, 16, 24, 40, 57, 69, 56, 14, 17, 22, 29,
     51, 87, 80, 62, 18, 22, 37, 56, 68, 109, 103, 77, 24, 35, 55, 64, 81, 104, 113, 92, 49, 64, 78, 87, 103, 121,
     120, 101, 72, 92, 95, 98, 112, 100, 103, 99]"

definition UVQT :: "int list" where
  "UVQT = [
     17, 18, 24, 47, 99, 99, 99, 99, 18, 21, 26, 66, 99, 99, 99, 99, 24, 26, 56, 99, 99, 99, 99, 99, 47, 66, 99, 99,
     99, 99, 99, 99, 99, 99, 99, 99, 99, 99, 99, 99, 99, 99, 99, 99, 99, 99, 99, 99, 99, 99, 99, 99, 99, 99, 99, 99,
     99, 99, 99, 99, 99, 99, 99, 99]"

text \<open>The scale factors 2.828427125 times 1, 1.387039845, 1.306562965, 1.175875602, 1, 0.785694958, 0.541196100
  and 0.275899379, in binary32.\<close>

definition aasf :: "f32 list" where
  "aasf = [FFin False 11863283 127, FFin False 16454847 127, FFin False 15500127 127, FFin False 13949744 127,
     FFin False 11863283 127, FFin False 9320922 127, FFin False 12840725 126, FFin False 13092290 125]"

subsection \<open>Bits\<close>

type_synonym bit_sink = "write_context \<times> u32 \<times> nat"

definition bits_step :: "bit_sink \<Rightarrow> (bit_sink + bit_sink) option" where
  "bits_step st = (case st of (s, bitBuf, bitCnt) \<Rightarrow>
     if bitCnt \<ge> 8 then
       let c = ucast (drop_bit 16 bitBuf AND 255);
           s = stbiw_putc s c;
           s = (if c = 255 then stbiw_putc s 0 else s)
       in Some (Inr (s, push_bit 8 bitBuf, bitCnt - 8))
     else Some (Inl st))"

definition stbiw_jpg_writeBits :: "bit_sink \<Rightarrow> nat \<times> nat \<Rightarrow> bit_sink option" where
  "stbiw_jpg_writeBits st bs = (case st of (s, bitBuf, bitCnt) \<Rightarrow> do {
     let bitCnt = bitCnt + snd bs;
     v \<leftarrow> shl32 (word_of_nat (fst bs)) (24 - int bitCnt);
     loop bits_step (s, bitBuf OR v, bitCnt) })"

text \<open>The number of bits of a value and the bits themselves.\<close>

definition calc_step :: "int \<times> nat \<Rightarrow> (nat + int \<times> nat) option" where
  "calc_step st = (case st of (tmp, n) \<Rightarrow>
     let tmp = drop_bit 1 tmp in Some (if tmp \<noteq> 0 then Inr (tmp, n + 1) else Inl n))"

definition stbiw_jpg_calcBits :: "int \<Rightarrow> (nat \<times> nat) option" where
  "stbiw_jpg_calcBits val = do {
     tmp1 \<leftarrow> i32 \<bar>val\<bar>;
     val \<leftarrow> i32 (if val < 0 then val - 1 else val);
     n \<leftarrow> loop calc_step (tmp1, 1);
     m \<leftarrow> shl32 1 (int n);
     Some (nat (val AND (uint m - 1)), n) }"

subsection \<open>Cosine transform\<close>

definition c_0707 :: f32 where "c_0707 = FFin False 11863283 125"   \<comment> \<open>0.707106781f\<close>
definition c_0382 :: f32 where "c_0382 = FFin False 12840725 124"   \<comment> \<open>0.382683433f\<close>
definition c_0541 :: f32 where "c_0541 = FFin False 9079764 125"   \<comment> \<open>0.541196100f\<close>
definition c_1306 :: f32 where "c_1306 = FFin False 10960245 126"   \<comment> \<open>1.306562965f\<close>

definition stbiw_jpg_DCT :: "f32 \<Rightarrow> f32 \<Rightarrow> f32 \<Rightarrow> f32 \<Rightarrow> f32 \<Rightarrow> f32 \<Rightarrow> f32 \<Rightarrow> f32 \<Rightarrow> f32 list" where
  "stbiw_jpg_DCT d0 d1 d2 d3 d4 d5 d6 d7 =
     (let tmp0 = fadd d0 d7; tmp7 = fsub d0 d7;
          tmp1 = fadd d1 d6; tmp6 = fsub d1 d6;
          tmp2 = fadd d2 d5; tmp5 = fsub d2 d5;
          tmp3 = fadd d3 d4; tmp4 = fsub d3 d4;
          tmp10 = fadd tmp0 tmp3; tmp13 = fsub tmp0 tmp3;
          tmp11 = fadd tmp1 tmp2; tmp12 = fsub tmp1 tmp2;
          e0 = fadd tmp10 tmp11; e4 = fsub tmp10 tmp11;
          z1 = fmul (fadd tmp12 tmp13) c_0707;
          e2 = fadd tmp13 z1; e6 = fsub tmp13 z1;
          tmp10 = fadd tmp4 tmp5; tmp11 = fadd tmp5 tmp6; tmp12 = fadd tmp6 tmp7;
          z5 = fmul (fsub tmp10 tmp12) c_0382;
          z2 = fadd (fmul tmp10 c_0541) z5;
          z4 = fadd (fmul tmp12 c_1306) z5;
          z3 = fmul tmp11 c_0707;
          z11 = fadd tmp7 z3; z13 = fsub tmp7 z3
      in [e0, fadd z11 z4, e2, fsub z13 z2, e4, fadd z13 z2, e6, fsub z11 z4])"

text \<open>The transform of the eight cells from \<open>base\<close> on that are \<open>st\<close> apart, in place.\<close>

definition dct_line :: "nat \<Rightarrow> nat \<Rightarrow> f32 list \<Rightarrow> f32 list option" where
  "dct_line base st cdu = do {
     d0 \<leftarrow> aget cdu base; d1 \<leftarrow> aget cdu (base + st); d2 \<leftarrow> aget cdu (base + st * 2); d3 \<leftarrow> aget cdu (base + st * 3);
     d4 \<leftarrow> aget cdu (base + st * 4); d5 \<leftarrow> aget cdu (base + st * 5); d6 \<leftarrow> aget cdu (base + st * 6); d7 \<leftarrow> aget cdu (base + st * 7);
     let r = stbiw_jpg_DCT d0 d1 d2 d3 d4 d5 d6 d7;
     for_upto 0 8 (\<lambda>k cdu. do { x \<leftarrow> aget r k; aset cdu (base + st * k) x }) cdu }"

subsection \<open>One block\<close>

definition round_coeff :: "f32 \<Rightarrow> int option" where
  "round_coeff v = f_to_i32 (if flt v f_zero then fsub v f_half else fadd v f_half)"

text \<open>The quantised coefficients of the block at \<open>base\<close>, in zigzag order.\<close>

definition quantize_du :: "f32 list \<Rightarrow> nat \<Rightarrow> nat \<Rightarrow> f32 list \<Rightarrow> int option list option" where
  "quantize_du cdu base du_stride fdtbl =
     for_upto 0 64 (\<lambda>j du. do {
       c \<leftarrow> aget cdu (base + (j div 8) * du_stride + j mod 8);
       q \<leftarrow> aget fdtbl j;
       d \<leftarrow> round_coeff (fmul c q);
       z \<leftarrow> aget stbiw_jpg_ZigZag j;
       wr du z d }) (replicate 64 None)"

definition du_coefficients :: "f32 list \<Rightarrow> nat \<Rightarrow> nat \<Rightarrow> f32 list \<Rightarrow> int list option" where
  "du_coefficients cdu base du_stride fdtbl = do {
     cdu \<leftarrow> for_upto 0 8 (\<lambda>k. dct_line (base + k * du_stride) 1) cdu;
     cdu \<leftarrow> for_upto 0 8 (\<lambda>k. dct_line (base + k) du_stride) cdu;
     du \<leftarrow> quantize_du cdu base du_stride fdtbl;
     all_some du }"

definition encode_dc :: "(nat \<times> nat) list \<Rightarrow> int \<Rightarrow> bit_sink \<Rightarrow> bit_sink option" where
  "encode_dc HTDC diff st =
     (if diff = 0 then do { h \<leftarrow> aget HTDC 0; stbiw_jpg_writeBits st h }
      else do {
        bits \<leftarrow> stbiw_jpg_calcBits diff;
        h \<leftarrow> aget HTDC (snd bits);
        st \<leftarrow> stbiw_jpg_writeBits st h;
        stbiw_jpg_writeBits st bits })"

definition last_step :: "int list \<Rightarrow> nat \<Rightarrow> (nat + nat) option" where
  "last_step du p = (if p > 0 then do { d \<leftarrow> aget du p; Some (if d = 0 then Inr (p - 1) else Inl p) } else Some (Inl p))"

definition zeros_step :: "int list \<Rightarrow> nat \<Rightarrow> nat \<Rightarrow> (nat + nat) option" where
  "zeros_step du end0pos i = do { d \<leftarrow> aget du i; Some (if d = 0 \<and> i \<le> end0pos then Inr (i + 1) else Inl i) }"

text \<open>One value with the zeros before it.\<close>

definition encode_ac_step :: "(nat \<times> nat) list \<Rightarrow> int list \<Rightarrow> nat \<Rightarrow> nat \<times> bit_sink \<Rightarrow> (bit_sink + nat \<times> bit_sink) option" where
  "encode_ac_step HTAC du end0pos st = (case st of (i, st) \<Rightarrow>
     if i \<le> end0pos then do {
       k \<leftarrow> loop (zeros_step du end0pos) i;
       let nrzeroes = k - i;
       m16 \<leftarrow> aget HTAC 0xF0;
       st \<leftarrow> (if nrzeroes \<ge> 16 then for_upto 0 (nrzeroes div 16) (\<lambda>_ st. stbiw_jpg_writeBits st m16) st else Some st);
       d \<leftarrow> aget du k;
       bits \<leftarrow> stbiw_jpg_calcBits d;
       h \<leftarrow> aget HTAC ((nrzeroes mod 16) * 16 + snd bits);
       st \<leftarrow> stbiw_jpg_writeBits st h;
       st \<leftarrow> stbiw_jpg_writeBits st bits;
       Some (Inr (k + 1, st)) }
     else Some (Inl st))"

definition encode_du :: "int list \<Rightarrow> int \<Rightarrow> (nat \<times> nat) list \<Rightarrow> (nat \<times> nat) list \<Rightarrow> bit_sink \<Rightarrow> (int \<times> bit_sink) option" where
  "encode_du du dc HTDC HTAC st = do {
     d0 \<leftarrow> aget du 0;
     diff \<leftarrow> i32 (d0 - dc);
     st \<leftarrow> encode_dc HTDC diff st;
     end0pos \<leftarrow> loop (last_step du) 63;
     eob \<leftarrow> aget HTAC 0;
     if end0pos = 0 then do { st \<leftarrow> stbiw_jpg_writeBits st eob; Some (d0, st) }
     else do {
       st \<leftarrow> loop (encode_ac_step HTAC du end0pos) (1, st);
       st \<leftarrow> (if end0pos \<noteq> 63 then stbiw_jpg_writeBits st eob else Some st);
       Some (d0, st) } }"

definition stbiw_jpg_processDU :: "bit_sink \<Rightarrow> f32 list \<Rightarrow> nat \<Rightarrow> nat \<Rightarrow> f32 list \<Rightarrow> int \<Rightarrow> (nat \<times> nat) list \<Rightarrow> (nat \<times> nat) list \<Rightarrow>
    (int \<times> bit_sink) option" where
  "stbiw_jpg_processDU st cdu base du_stride fdtbl dc HTDC HTAC = do {
     du \<leftarrow> du_coefficients cdu base du_stride fdtbl;
     encode_du du dc HTDC HTAC st }"

subsection \<open>Colours\<close>

definition y_of :: "f32 \<Rightarrow> f32 \<Rightarrow> f32 \<Rightarrow> f32" where
  "y_of r g b = fsub (fadd (fadd (fmul (FFin False 10032775 124) r) (fmul (FFin False 9848226 125) g)) (fmul (FFin False 15300821 122) b)) (f_of_int 128)"

definition u_of :: "f32 \<Rightarrow> f32 \<Rightarrow> f32 \<Rightarrow> f32" where
  "u_of r g b = fadd (fsub (fmul (FFin True 11323950 123) r) (fmul (FFin False 11115241 124) g)) (fmul f_half b)"

definition v_of :: "f32 \<Rightarrow> f32 \<Rightarrow> f32 \<Rightarrow> f32" where
  "v_of r g b = fsub (fsub (fmul f_half r) (fmul (FFin False 14048905 124) g)) (fmul (FFin False 10913243 122) b)"

text \<open>The \<open>n * n\<close> samples of a unit at column \<open>x\<close> and row \<open>y\<close>; rows and columns beyond the image
  repeat the last one.\<close>

definition unit_pixel :: "bool \<Rightarrow> bytes \<Rightarrow> int \<Rightarrow> int \<Rightarrow> int \<Rightarrow> int \<Rightarrow> int \<Rightarrow> (f32 \<times> f32 \<times> f32) option" where
  "unit_pixel flip data width height comp' row col = do {
     let clamped = (if row < height then row else height - 1);
     base_p \<leftarrow> i32 ((if flip then height - 1 - clamped else clamped) * width * comp');
     p \<leftarrow> i32 (base_p + (if col < width then col else width - 1) * comp');
     r \<leftarrow> iget data p;
     g \<leftarrow> iget data (p + (if comp' > 2 then 1 else 0));
     b \<leftarrow> iget data (p + (if comp' > 2 then 2 else 0));
     Some (f_of_int (uint r), f_of_int (uint g), f_of_int (uint b)) }"

definition unit_planes :: "bool \<Rightarrow> bytes \<Rightarrow> int \<Rightarrow> int \<Rightarrow> int \<Rightarrow> nat \<Rightarrow> int \<Rightarrow> int \<Rightarrow> (f32 list \<times> f32 list \<times> f32 list) option" where
  "unit_planes flip data width height comp' n y x =
     for_upto 0 (n * n) (\<lambda>pos (Y, U, V). do {
       (r, g, b) \<leftarrow> unit_pixel flip data width height comp' (y + int (pos div n)) (x + int (pos mod n));
       Some (Y @ [y_of r g b], U @ [u_of r g b], V @ [v_of r g b]) }) ([], [], [])"

text \<open>The mean of four neighbours in a plane of 16 by 16 samples.\<close>

definition subsample_plane :: "f32 list \<Rightarrow> f32 list option" where
  "subsample_plane U =
     for_upto 0 64 (\<lambda>pos sub. do {
       let j = (pos div 8) * 32 + (pos mod 8) * 2;
       a \<leftarrow> aget U j; b \<leftarrow> aget U (j + 1); c \<leftarrow> aget U (j + 16); d \<leftarrow> aget U (j + 17);
       Some (sub @ [fmul (fadd (fadd (fadd a b) c) d) f_quarter]) }) []"

subsection \<open>Quantisation tables\<close>

definition scaled_quality :: "int \<Rightarrow> int" where
  "scaled_quality quality =
     (let q = (if quality < 1 then 1 else if quality > 100 then 100 else quality)
      in if q < 50 then 5000 div q else 200 - q * 2)"

definition clamp_quant :: "int \<Rightarrow> byte" where
  "clamp_quant t = (if t < 1 then 1 else if t > 255 then 255 else word_of_int t)"

definition quant_table :: "int list \<Rightarrow> int \<Rightarrow> bytes option" where
  "quant_table QT quality = do {
     tab \<leftarrow> for_upto 0 64 (\<lambda>i tab. do {
       q \<leftarrow> aget QT i;
       z \<leftarrow> aget stbiw_jpg_ZigZag i;
       wr tab z (clamp_quant ((q * quality + 50) div 100)) }) (replicate 64 None);
     all_some tab }"

definition float_table :: "bytes \<Rightarrow> f32 list option" where
  "float_table tab =
     for_upto 0 64 (\<lambda>k fd. do {
       z \<leftarrow> aget stbiw_jpg_ZigZag k;
       q \<leftarrow> aget tab z;
       a \<leftarrow> aget aasf (k div 8);
       b \<leftarrow> aget aasf (k mod 8);
       Some (fd @ [fdiv f_one (fmul (fmul (f_of_int (uint q)) a) b)]) }) []"

subsection \<open>The file\<close>

definition jpg_head0 :: bytes where
  "jpg_head0 = [0xFF, 0xD8, 0xFF, 0xE0, 0, 0x10, 0x4A, 0x46, 0x49, 0x46, 0, 1, 1, 0, 0, 1, 0, 1, 0, 0, 0xFF, 0xDB, 0, 0x84, 0]"

definition jpg_head1 :: "int \<Rightarrow> int \<Rightarrow> bool \<Rightarrow> bytes" where
  "jpg_head1 width height subsample =
     [0xFF, 0xC0, 0, 0x11, 8, STBIW_UCHAR (drop_bit 8 height), STBIW_UCHAR height, STBIW_UCHAR (drop_bit 8 width), STBIW_UCHAR width,
      3, 1, if subsample then 0x22 else 0x11, 0, 2, 0x11, 1, 3, 0x11, 1, 0xFF, 0xC4, 0x01, 0xA2, 0]"

definition jpg_head2 :: bytes where
  "jpg_head2 = [0xFF, 0xDA, 0, 0xC, 3, 1, 0, 2, 0x11, 3, 0x11, 0, 0x3F, 0]"

definition jpg_headers :: "int \<Rightarrow> int \<Rightarrow> bool \<Rightarrow> bytes \<Rightarrow> bytes \<Rightarrow> bytes" where
  "jpg_headers width height subsample YTable UVTable =
     jpg_head0 @ YTable @ [1] @ UVTable @ jpg_head1 width height subsample @
     tl std_dc_luminance_nrcodes @ std_dc_luminance_values @ [0x10] @ tl std_ac_luminance_nrcodes @ std_ac_luminance_values @
     [1] @ tl std_dc_chrominance_nrcodes @ std_dc_chrominance_values @ [0x11] @
     tl std_ac_chrominance_nrcodes @ std_ac_chrominance_values @ jpg_head2"

text \<open>The predictions of the three components and the sink.\<close>

type_synonym jpg_state = "(int \<times> int \<times> int) \<times> bit_sink"

definition unit_420 :: "(int \<Rightarrow> int \<Rightarrow> (f32 list \<times> f32 list \<times> f32 list) option) \<Rightarrow> f32 list \<Rightarrow> f32 list \<Rightarrow> int \<Rightarrow> int \<Rightarrow> jpg_state \<Rightarrow> jpg_state option" where
  "unit_420 planes fdY fdUV y x js = (case js of ((dcY, dcU, dcV), st) \<Rightarrow> do {
     (Y, U, V) \<leftarrow> planes y x;
     (dcY, st) \<leftarrow> stbiw_jpg_processDU st Y 0 16 fdY dcY YDC_HT YAC_HT;
     (dcY, st) \<leftarrow> stbiw_jpg_processDU st Y 8 16 fdY dcY YDC_HT YAC_HT;
     (dcY, st) \<leftarrow> stbiw_jpg_processDU st Y 128 16 fdY dcY YDC_HT YAC_HT;
     (dcY, st) \<leftarrow> stbiw_jpg_processDU st Y 136 16 fdY dcY YDC_HT YAC_HT;
     subU \<leftarrow> subsample_plane U;
     subV \<leftarrow> subsample_plane V;
     (dcU, st) \<leftarrow> stbiw_jpg_processDU st subU 0 8 fdUV dcU UVDC_HT UVAC_HT;
     (dcV, st) \<leftarrow> stbiw_jpg_processDU st subV 0 8 fdUV dcV UVDC_HT UVAC_HT;
     Some ((dcY, dcU, dcV), st) })"

definition unit_444 :: "(int \<Rightarrow> int \<Rightarrow> (f32 list \<times> f32 list \<times> f32 list) option) \<Rightarrow> f32 list \<Rightarrow> f32 list \<Rightarrow> int \<Rightarrow> int \<Rightarrow> jpg_state \<Rightarrow> jpg_state option" where
  "unit_444 planes fdY fdUV y x js = (case js of ((dcY, dcU, dcV), st) \<Rightarrow> do {
     (Y, U, V) \<leftarrow> planes y x;
     (dcY, st) \<leftarrow> stbiw_jpg_processDU st Y 0 8 fdY dcY YDC_HT YAC_HT;
     (dcU, st) \<leftarrow> stbiw_jpg_processDU st U 0 8 fdUV dcU UVDC_HT UVAC_HT;
     (dcV, st) \<leftarrow> stbiw_jpg_processDU st V 0 8 fdUV dcV UVDC_HT UVAC_HT;
     Some ((dcY, dcU, dcV), st) })"

definition over_units :: "int \<Rightarrow> int \<Rightarrow> int \<Rightarrow> (int \<Rightarrow> int \<Rightarrow> jpg_state \<Rightarrow> jpg_state option) \<Rightarrow> jpg_state \<Rightarrow> jpg_state option" where
  "over_units n width height unit_at =
     for_upto 0 (nat ((height + n - 1) div n)) (\<lambda>j. for_upto 0 (nat ((width + n - 1) div n)) (\<lambda>i. unit_at (n * int j) (n * int i)))"

definition stbi_write_jpg_core :: "bool \<Rightarrow> write_context \<Rightarrow> int \<Rightarrow> int \<Rightarrow> int \<Rightarrow> bytes \<Rightarrow> int \<Rightarrow> (bool \<times> write_context) option" where
  "stbi_write_jpg_core flip s width height comp' data quality =
     (if width = 0 \<or> height = 0 \<or> comp' > 4 \<or> comp' < 1 then Some (False, s)
      else do {
        let quality = (if quality \<noteq> 0 then quality else 90);
        let subsample = (quality \<le> 90);
        let quality = scaled_quality quality;
        YTable \<leftarrow> quant_table YQT quality;
        UVTable \<leftarrow> quant_table UVQT quality;
        fdY \<leftarrow> float_table YTable;
        fdUV \<leftarrow> float_table UVTable;
        let s = w_func s (jpg_headers width height subsample YTable UVTable);
        (dcs, st) \<leftarrow> (if subsample
          then over_units 16 width height (unit_420 (unit_planes flip data width height comp' 16) fdY fdUV) ((0, 0, 0), s, 0, 0)
          else over_units 8 width height (unit_444 (unit_planes flip data width height comp' 8) fdY fdUV) ((0, 0, 0), s, 0, 0));
        (s, _, _) \<leftarrow> stbiw_jpg_writeBits st (0x7F, 7);
        Some (True, stbiw_putc (stbiw_putc s 0xFF) 0xD9) })"

definition stbi_write_jpg_to_func :: "bool \<Rightarrow> int \<Rightarrow> int \<Rightarrow> int \<Rightarrow> bytes \<Rightarrow> int \<Rightarrow> (bool \<times> bytes) option" where
  "stbi_write_jpg_to_func flip x y comp' data quality = do {
     (r, s) \<leftarrow> stbi_write_jpg_core flip stbi_start_write_callbacks x y comp' data quality;
     Some (r, w_out s) }"

end
