(* ===== verification/Hdr_Write.thy ===== *)
theory Hdr_Write
  imports Image_Write Float32
begin

text \<open>
  The Radiance HDR writer of src/user/facet/gpu/stb_image_write.h (lines 631 to 791): pixels with a
  shared exponent, run-length coding of the four planes of a scanline, and the file.
\<close>

subsection \<open>Pixels\<close>

definition fmax_macro :: "f32 \<Rightarrow> f32 \<Rightarrow> f32" where
  "fmax_macro a b = (if flt b a then a else b)"

text \<open>\<^verbatim>\<open>frexp\<close>: the fraction in \<open>[0.5, 1)\<close> and the exponent of a positive finite number.\<close>

fun f_frexp :: "f32 \<Rightarrow> (f32 \<times> int) option" where
  "f_frexp (FFin False m e) = (if m = 0 then None else Some (FFin False (m * 2 ^ (24 - blen m)) 125, int (e + blen m) - 149))"
| "f_frexp _ = None"

type_synonym rgbe = "byte \<times> byte \<times> byte \<times> byte"

definition stbiw_linear_to_rgbe :: "f32 \<Rightarrow> f32 \<Rightarrow> f32 \<Rightarrow> rgbe option" where
  "stbiw_linear_to_rgbe r g b =
     (let maxcomp = fmax_macro r (fmax_macro g b) in
      if flt maxcomp (FFin False 13611295 19) then Some (0, 0, 0, 0)
      else do {
        (fr, exponent) \<leftarrow> f_frexp maxcomp;
        let normalize = fdiv (fmul fr (FFin False 8388608 134)) maxcomp;
        r' \<leftarrow> f_to_u8 (fmul r normalize);
        g' \<leftarrow> f_to_u8 (fmul g normalize);
        b' \<leftarrow> f_to_u8 (fmul b normalize);
        Some (r', g', b', word_of_int (exponent + 128)) })"

definition hdr_pixel :: "f32 list \<Rightarrow> nat \<Rightarrow> int \<Rightarrow> nat \<Rightarrow> rgbe option" where
  "hdr_pixel data at ncomp x = do {
     let p = at + x * nat ncomp;
     a \<leftarrow> aget data p;
     if ncomp = 3 \<or> ncomp = 4 then do {
       b \<leftarrow> aget data (p + 1);
       c \<leftarrow> aget data (p + 2);
       stbiw_linear_to_rgbe a b c }
     else stbiw_linear_to_rgbe a a a }"

subsection \<open>Run-length coding\<close>

definition stbiw_write_run_data :: "write_context \<Rightarrow> int \<Rightarrow> byte \<Rightarrow> write_context option" where
  "stbiw_write_run_data s len databyte =
     (if len + 128 \<le> 255 then Some (w_func (w_func s [STBIW_UCHAR (len + 128)]) [databyte]) else None)"

definition stbiw_write_dump_data :: "write_context \<Rightarrow> bytes \<Rightarrow> write_context option" where
  "stbiw_write_dump_data s data =
     (if length data \<le> 128 then Some (w_func (w_func s [STBIW_UCHAR (int (length data))]) data) else None)"

text \<open>The first run of three at or after \<open>r\<close>; the end of the line if there is none.\<close>

definition find_run_step :: "bytes \<Rightarrow> nat \<Rightarrow> (nat + nat) option" where
  "find_run_step c r =
     (if r + 2 < length c then do {
        a \<leftarrow> aget c r; b \<leftarrow> aget c (r + 1); d \<leftarrow> aget c (r + 2);
        Some (if a = b \<and> a = d then Inl r else Inr (r + 1)) }
      else Some (Inl r))"

definition dump_step :: "bytes \<Rightarrow> nat \<Rightarrow> nat \<times> write_context \<Rightarrow> ((nat \<times> write_context) + nat \<times> write_context) option" where
  "dump_step c r st = (case st of (x, s) \<Rightarrow>
     if x < r then do {
       let len = min (r - x) 128;
       d \<leftarrow> slice c x len;
       s \<leftarrow> stbiw_write_dump_data s d;
       Some (Inr (x + len, s)) }
     else Some (Inl (x, s)))"

definition run_end_step :: "bytes \<Rightarrow> nat \<Rightarrow> nat \<Rightarrow> (nat + nat) option" where
  "run_end_step c x r =
     (if r < length c then do { a \<leftarrow> aget c r; b \<leftarrow> aget c x; Some (if a = b then Inr (r + 1) else Inl r) }
      else Some (Inl r))"

definition out_run_step :: "bytes \<Rightarrow> nat \<Rightarrow> nat \<times> write_context \<Rightarrow> ((nat \<times> write_context) + nat \<times> write_context) option" where
  "out_run_step c r st = (case st of (x, s) \<Rightarrow>
     if x < r then do {
       let len = min (r - x) 127;
       v \<leftarrow> aget c x;
       s \<leftarrow> stbiw_write_run_data s (int len) v;
       Some (Inr (x + len, s)) }
     else Some (Inl (x, s)))"

text \<open>One turn of the loop over a plane: the bytes up to the next run, and the run.\<close>

definition plane_step :: "bytes \<Rightarrow> nat \<times> write_context \<Rightarrow> (write_context + nat \<times> write_context) option" where
  "plane_step c st = (case st of (x, s) \<Rightarrow>
     if x < length c then do {
       r \<leftarrow> loop (find_run_step c) x;
       let r = (if r + 2 \<ge> length c then length c else r);
       (x, s) \<leftarrow> loop (dump_step c r) (x, s);
       if r + 2 < length c then do {
         r \<leftarrow> loop (run_end_step c x) r;
         (x, s) \<leftarrow> loop (out_run_step c r) (x, s);
         Some (Inr (x, s)) }
       else Some (Inr (x, s)) }
     else Some (Inl s))"

definition write_plane :: "bytes \<Rightarrow> write_context \<Rightarrow> write_context option" where
  "write_plane c s = loop (plane_step c) (0, s)"

subsection \<open>Scanlines and the file\<close>

definition stbiw_write_hdr_scanline :: "write_context \<Rightarrow> int \<Rightarrow> int \<Rightarrow> f32 list \<Rightarrow> nat \<Rightarrow> write_context option" where
  "stbiw_write_hdr_scanline s width ncomp data at =
     (if width < 8 \<or> width \<ge> 32768 then
        for_upto 0 (nat width) (\<lambda>x s. do {
          (r, g, b, e) \<leftarrow> hdr_pixel data at ncomp x;
          Some (w_func s [r, g, b, e]) }) s
      else do {
        (R, G, B, E) \<leftarrow> for_upto 0 (nat width) (\<lambda>x (R, G, B, E). do {
          (r, g, b, e) \<leftarrow> hdr_pixel data at ncomp x;
          Some (R @ [r], G @ [g], B @ [b], E @ [e]) }) ([], [], [], []);
        let s = w_func s [2, 2, STBIW_UCHAR (drop_bit 8 (width AND 0xff00)), STBIW_UCHAR (width AND 0xff)];
        s \<leftarrow> write_plane R s;
        s \<leftarrow> write_plane G s;
        s \<leftarrow> write_plane B s;
        write_plane E s })"

definition newline :: "byte" where "newline = 10"

definition hdr_header :: bytes where
  "hdr_header = map of_char ''#?RADIANCE'' @ [newline] @ map of_char ''# Written by stb_image_write.h'' @ [newline] @
     map of_char ''FORMAT=32-bit_rle_rgbe'' @ [newline]"

definition hdr_size :: "int \<Rightarrow> int \<Rightarrow> bytes" where
  "hdr_size y x = map of_char ''EXPOSURE=          1.0000000000000'' @ [newline, newline] @
     map of_char ''-Y '' @ dec_bytes (nat y) @ map of_char '' +X '' @ dec_bytes (nat x) @ [newline]"

text \<open>The scratch block has four bytes per pixel; without it, the first row that needs it writes
  through a null pointer.\<close>

definition stbi_write_hdr_core :: "allocator \<Rightarrow> bool \<Rightarrow> write_context \<Rightarrow> int \<Rightarrow> int \<Rightarrow> int \<Rightarrow> f32 list \<Rightarrow> (bool \<times> write_context) option" where
  "stbi_write_hdr_core ok flip s x y ncomp data =
     (if y \<le> 0 \<or> x \<le> 0 then Some (False, s)
      else do {
        x4 \<leftarrow> i32 (x * 4);
        let scratch = ok (nat x4);
        let s = w_func (w_func s hdr_header) (hdr_size y x);
        s \<leftarrow> for_upto 0 (nat y) (\<lambda>i s. do {
          at \<leftarrow> i32 (ncomp * x * (if flip then y - 1 - int i else int i));
          if \<not> scratch \<and> x \<ge> 8 \<and> x < 32768 \<or> at < 0 then None
          else stbiw_write_hdr_scanline s x ncomp data (nat at) }) s;
        Some (True, s) })"

definition stbi_write_hdr_to_func :: "allocator \<Rightarrow> bool \<Rightarrow> int \<Rightarrow> int \<Rightarrow> int \<Rightarrow> f32 list \<Rightarrow> (bool \<times> bytes) option" where
  "stbi_write_hdr_to_func ok flip x y ncomp data = do {
     (r, s) \<leftarrow> stbi_write_hdr_core ok flip stbi_start_write_callbacks x y ncomp data;
     Some (r, w_out s) }"

end
