(* ===== verification/Mem_Read.thy ===== *)
theory Mem_Read
  imports Stb_Context
begin

text \<open>
  Reading from a block in memory: the context only moves its position, and what a reader returns is
  determined by the bytes that are left.
\<close>

subsection \<open>Moving through a block\<close>

definition ahead :: "nat \<Rightarrow> 'u stbi_context \<Rightarrow> 'u stbi_context" where
  "ahead k s = s\<lparr>img_buffer := img_buffer s + k\<rparr>"

lemma ahead_simps [simp]: "ahead k (ahead l s) = ahead (l + k) s" "ahead 0 s = s" "mem_ctx (ahead k s) = mem_ctx s"
  "pending (ahead k s) = drop k (pending s)" "img_buffer (ahead k s) = img_buffer s + k" "img_x (ahead k s) = img_x s" "img_y (ahead k s) = img_y s"
  "callback_already_read (ahead k s) = callback_already_read s" "img_buffer_original (ahead k s) = img_buffer_original s"
  by (simp_all add: ahead_def mem_ctx_def pending_def drop_map ac_simps)

lemma resize_simps [simp]:
  "pending (s\<lparr>img_x := x\<rparr>) = pending s" "pending (s\<lparr>img_y := y\<rparr>) = pending s" "pending (s\<lparr>img_n := m\<rparr>) = pending s"
  "mem_ctx (s\<lparr>img_x := x\<rparr>) = mem_ctx s" "mem_ctx (s\<lparr>img_y := y\<rparr>) = mem_ctx s" "mem_ctx (s\<lparr>img_n := m\<rparr>) = mem_ctx s"
  "ahead k (s\<lparr>img_x := x\<rparr>) = (ahead k s)\<lparr>img_x := x\<rparr>" "ahead k (s\<lparr>img_y := y\<rparr>) = (ahead k s)\<lparr>img_y := y\<rparr>" "ahead k (s\<lparr>img_n := m\<rparr>) = (ahead k s)\<lparr>img_n := m\<rparr>"
  "pending (s\<lparr>img_out_n := m\<rparr>) = pending s" "mem_ctx (s\<lparr>img_out_n := m\<rparr>) = mem_ctx s"
  by (simp_all add: ahead_def mem_ctx_def pending_def)

lemma rewind_ahead:
  "img_buffer s = img_buffer_original s \<Longrightarrow> img_buffer_end s = img_buffer_original_end s \<Longrightarrow> stbi_rewind (ahead k s) = s"
  by (simp add: stbi_rewind_def ahead_def)

definition le_half :: "bytes \<Rightarrow> int" where
  "le_half bs = uint (bs ! 0) + uint (bs ! 1) * 2 ^ 8"

definition le_word :: "bytes \<Rightarrow> u32" where
  "le_word bs = word_of_int (uint (bs ! 0) + uint (bs ! 1) * 2 ^ 8) + push_bit 16 (word_of_int (uint (bs ! 2) + uint (bs ! 3) * 2 ^ 8))"

lemma get8_pending: "mem_ctx s \<Longrightarrow> pending s \<noteq> [] \<Longrightarrow> stbi_get8 s = Some (hd (pending s), ahead 1 s)"
proof -
  assume s: "mem_ctx s" and p: "pending s \<noteq> []"
  then have lt: "img_buffer s < img_buffer_end s" by (auto simp: pending_def)
  then have "img_buffer s < length (buf s)" using s by (simp add: mem_ctx_def)
  then obtain b where b: "buf s ! img_buffer s = Some b" using s by (auto simp: mem_ctx_def)
  moreover have "hd (pending s) = b" using pending_step [OF lt] s b by (simp add: mem_ctx_def)
  ultimately show ?thesis using lt \<open>img_buffer s < length (buf s)\<close> by (simp add: stbi_get8_def ahead_def)
qed

lemma get16le_pending: "mem_ctx s \<Longrightarrow> 2 \<le> length (pending s) \<Longrightarrow>
    stbi_get16le s = Some (le_half (pending s), ahead 2 s)"
  by (cases "pending s" rule: remdups_adj.cases) (simp_all add: stbi_get16le_def get8_pending numeral_2_eq_2 le_half_def)

lemma get32le_pending: "mem_ctx s \<Longrightarrow> 4 \<le> length (pending s) \<Longrightarrow> stbi_get32le s = Some (le_word (pending s), ahead 4 s)"
  by (simp add: stbi_get32le_def get16le_pending le_word_def le_half_def)

lemma skip_pending: "mem_ctx s \<Longrightarrow> 0 \<le> k \<Longrightarrow> stbi_skip s k = ahead (nat k) s"
  by (simp add: stbi_skip_def mem_ctx_def ahead_def)

lemma getn_pending:
  assumes s: "mem_ctx s" and d: "pending s = d @ rest" "d \<noteq> []"
  shows "stbi_getn s (length d) = Some (Some d, ahead (length d) s)"
proof -
  let ?i = "img_buffer s" and ?e = "img_buffer_end s"
  have e: "?e \<le> length (buf s)" "io s = None" and init: "\<forall>i < length (buf s). buf s ! i \<noteq> None" using s by (auto simp: mem_ctx_def)
  have len: "?e - ?i = length d + length rest" using arg_cong [OF d(1), of length] e by (simp add: pending_def)
  have at: "buf s ! (?i + k) = Some (d ! k)" if "k < length d" for k
  proof -
    have k: "?i + k < ?e" using that len by simp
    then have "the (buf s ! (?i + k)) = d ! k" using arg_cong [OF d(1), of "\<lambda>xs. xs ! k"] that e by (simp add: pending_def nth_append)
    moreover have "buf s ! (?i + k) \<noteq> None" using init k e by auto
    ultimately show ?thesis by auto
  qed
  have room: "?i + length d \<le> ?e" using len d(2) by (cases d) auto
  then have "take (length d) (drop ?i (buf s)) = map Some d" using at e by (intro nth_equalityI) simp_all
  then have "slice (buf s) ?i (length d) = Some (map Some d)" using room e by (simp add: slice_def)
  then show ?thesis using room e by (simp add: stbi_getn_def ahead_def Let_def)
qed

subsection \<open>Four digits of a number\<close>

lemma digit_sum: "m = 256 * u + a \<Longrightarrow> u = 256 * v + b \<Longrightarrow> v = 256 * d + c \<Longrightarrow> a + b * 256 + (c + d * 256) * 65536 = (m :: int)"
  by simp

lemma four_digits: "x mod 256 + (x div 256 mod 256) * 256 + (x div 65536 mod 256 + (x div 16777216 mod 256) * 256) * 65536 = x mod 4294967296"
  for x :: int
proof -
  have "x mod 4294967296 = 256 * (x div 256 mod 16777216) + x mod 256" using zmod_zmult2_eq [of 16777216 x 256] by simp
  moreover have "x div 256 mod 16777216 = 256 * (x div 65536 mod 65536) + x div 256 mod 256"
    using zmod_zmult2_eq [of 65536 "x div 256" 256] zdiv_zmult2_eq [of 256 x 256] by simp
  moreover have "x div 65536 mod 65536 = 256 * (x div 16777216 mod 256) + x div 65536 mod 256"
    using zmod_zmult2_eq [of 256 "x div 65536" 256] zdiv_zmult2_eq [of 256 x 65536] by simp
  ultimately show ?thesis by (rule digit_sum)
qed

lemma word32_mod: "word_of_int (x mod 4294967296) = (word_of_int x :: u32)"
  by (simp add: word_of_int_eq_iff take_bit_eq_mod)

end
