(* ===== verification/Write_Stream.thy ===== *)
theory Write_Stream
  imports Image_Write
begin

text \<open>
  The byte stream that the write context of stb_image_write.h produces: what it has passed on and
  what it still buffers. Every writing operation appends to this stream, whatever the state of the
  buffer of 64 bytes is.
\<close>

named_theorems stream \<open>what the writing operations append\<close>

definition written :: "write_context \<Rightarrow> bytes" where
  "written s = w_out s @ take (buf_used s) (w_buffer s)"

definition write_ok :: "write_context \<Rightarrow> bool" where
  "write_ok s \<longleftrightarrow> length (w_buffer s) = 64 \<and> buf_used s \<le> 64"

text \<open>\<open>m\<close> succeeds and appends \<open>bs\<close>.\<close>

definition appends :: "write_context \<Rightarrow> write_context option \<Rightarrow> bytes \<Rightarrow> bool" where
  "appends s m bs \<longleftrightarrow> sat m (\<lambda>s'. write_ok s' \<and> written s' = written s @ bs)"

lemma appends_Some: "write_ok s \<Longrightarrow> appends s (Some s) []"
  by (simp add: appends_def)

lemma appends_bind: "appends s m bs \<Longrightarrow> (\<And>s'. write_ok s' \<Longrightarrow> appends s' (f s') cs) \<Longrightarrow> appends s (m \<bind> f) (bs @ cs)"
  unfolding appends_def by (erule sat_bind) fastforce

lemma appends_loop:
  assumes "write_ok s" and "\<And>i s. i < m \<Longrightarrow> write_ok s \<Longrightarrow> appends s (body i s) (f i)"
  shows "appends s (for_upto 0 m body s) (concat (map f [0..<m]))"
  unfolding appends_def
proof (rule sat_for_upto [where P = "\<lambda>i s'. write_ok s' \<and> written s' = written s @ concat (map f [0..<i])"])
  fix i s' assume i: "i < m" and P: "write_ok s' \<and> written s' = written s @ concat (map f [0..<i])"
  then have "appends s' (body i s') (f i)" using assms(2) by blast
  then show "sat (body i s') (\<lambda>s'. write_ok s' \<and> written s' = written s @ concat (map f [0..<Suc i]))"
    unfolding appends_def by (rule sat_mono) (use P in simp)
qed (use assms(1) in auto)

lemma start_ok: "write_ok stbi_start_write_callbacks" "written stbi_start_write_callbacks = []"
  "buf_used stbi_start_write_callbacks = 0"
  by (simp_all add: write_ok_def written_def stbi_start_write_callbacks_def)

lemma flush_ok: "write_ok s \<Longrightarrow> write_ok (stbiw_write_flush s)" "written (stbiw_write_flush s) = written s"
  "buf_used (stbiw_write_flush s) = 0"
  by (simp_all add: write_ok_def written_def stbiw_write_flush_def w_func_def)

lemma w_func_ok: "write_ok s \<Longrightarrow> write_ok (w_func s bs)" "buf_used s = 0 \<Longrightarrow> written (w_func s bs) = written s @ bs"
  "buf_used (w_func s bs) = buf_used s"
  by (simp_all add: write_ok_def written_def w_func_def)

lemma put_buffered_appends [stream]:
  assumes s: "write_ok s" and n: "length bs \<le> 64"
  shows "appends s (put_buffered s bs) bs"
proof -
  have put: "appends t (do { b \<leftarrow> blit (w_buffer t) (buf_used t) bs; Some (t\<lparr>w_buffer := b, buf_used := buf_used t + length bs\<rparr>) }) bs"
    if "write_ok t" "buf_used t + length bs \<le> 64" for t
    using that by (simp add: appends_def write_ok_def written_def)
  show ?thesis
  proof (cases "buf_used s + length bs > 64")
    case True
    then show ?thesis using put [OF flush_ok(1) [OF s]] n
      by (simp add: put_buffered_def appends_def flush_ok Let_def)
  next
    case False
    then show ?thesis using put [OF s] by (simp add: put_buffered_def)
  qed
qed

lemma write1_appends [stream]: "write_ok s \<Longrightarrow> appends s (stbiw_write1 s a) [a]"
  and write3_appends [stream]: "write_ok s \<Longrightarrow> appends s (stbiw_write3 s a b c) [a, b, c]"
  unfolding stbiw_write1_def stbiw_write3_def by (rule put_buffered_appends; simp)+

text \<open>The bytes of a header, and what the format writes when nothing is buffered.\<close>

definition le2 :: "int \<Rightarrow> bytes" where
  "le2 x = [word_of_int x, word_of_int (drop_bit 8 x)]"

definition le4 :: "int \<Rightarrow> bytes" where
  "le4 x = [word_of_int x, word_of_int (drop_bit 8 x), word_of_int (drop_bit 16 x), word_of_int (drop_bit 24 x)]"

fun fmt_bytes :: "string \<Rightarrow> int list \<Rightarrow> bytes option" where
  "fmt_bytes [] v = Some []"
| "fmt_bytes (c # fmt) v =
     (if c = CHR '' '' then fmt_bytes fmt v
      else case v of [] \<Rightarrow> None
      | x # v \<Rightarrow> do {
          bs \<leftarrow> (if c = CHR ''1'' then Some [word_of_int x] else if c = CHR ''2'' then Some (le2 x)
                 else if c = CHR ''4'' then Some (le4 x) else None);
          r \<leftarrow> fmt_bytes fmt v;
          Some (bs @ r) })"

lemma w_func_w_func: "w_func (w_func s as) bs = w_func s (as @ bs)"
  by (simp add: w_func_def)

lemma writefv_eq: "stbiw_writefv s fmt v = map_option (w_func s) (fmt_bytes fmt v)"
proof (induction s fmt v rule: stbiw_writefv.induct)
  case (1 s v)
  then show ?case by (simp add: w_func_def)
next
  case (2 s c fmt v)
  show ?case
  proof (cases v)
    case (Cons x w)
    then show ?thesis using 2
      by (cases "fmt_bytes fmt w") (auto simp: le2_def le4_def STBIW_UCHAR_def w_func_w_func)
  qed (use 2 in auto)
qed

subsection \<open>Rows of pixels\<close>

text \<open>The bytes of the pixel at offset \<open>p\<close> with the blue sample first, and of row \<open>j\<close>.\<close>

definition bgr_pixel :: "nat \<Rightarrow> bytes \<Rightarrow> nat \<Rightarrow> bytes" where
  "bgr_pixel n data p = [data ! (p + 2), data ! (p + 1), data ! p] @ (if n = 4 then [data ! (p + 3)] else [])"

definition bgr_row :: "nat \<Rightarrow> nat \<Rightarrow> bytes \<Rightarrow> nat \<Rightarrow> bytes" where
  "bgr_row n x data j = concat (map (\<lambda>i. bgr_pixel n data ((j * x + i) * n)) [0..<x])"

lemma write_pixel_appends [stream]:
  assumes "write_ok s" and n: "n = 3 \<or> n = 4" and p: "p + n \<le> length data"
  shows "appends s (stbiw_write_pixel s (- 1) (int n) (if n = 4 then 1 else 0) e data (int p)) (bgr_pixel n data p)"
proof -
  have get: "iget data (int p) = Some (data ! p)" "iget data (int p + 1) = Some (data ! (p + 1))"
    "iget data (int p + 2) = Some (data ! (p + 2))"
    using n p by (auto simp: nat_add_distrib)
  have rgb: "appends s (write_rgb s (- 1) (data ! p, data ! (p + 1), data ! (p + 2))) [data ! (p + 2), data ! (p + 1), data ! p]"
    using write3_appends [OF assms(1)] by (simp add: write_rgb_def)
  show ?thesis
  proof (cases "n = 4")
    case True
    have "iget data (3 + int p) = Some (data ! (p + 3))" using p True by (auto simp: nat_add_distrib add.commute)
    then show ?thesis
      using appends_bind [OF rgb write1_appends] True get by (simp add: stbiw_write_pixel_def bgr_pixel_def)
  next
    case False
    then show ?thesis using n rgb get by (simp add: stbiw_write_pixel_def bgr_pixel_def cong: option.case_cong)
  qed
qed

lemma row_pixel_room:
  fixes i :: nat
  assumes "i < x" "j < y"
  shows "(j * x + i) * n + n \<le> n * x * y"
proof -
  have "j * x + i < y * x"
  proof -
    have "(j + 1) * x \<le> y * x" using assms(2) by (intro mult_le_mono1) simp
    then show ?thesis using assms(1) by simp
  qed
  then have "Suc (j * x + i) * n \<le> (y * x) * n" by (intro mult_le_mono1) simp
  then show ?thesis by (simp add: algebra_simps)
qed

lemma write_row_appends:
  assumes s: "write_ok s" and n: "n = 3 \<or> n = 4" and j: "j < y" and len: "length data = n * x * y"
    and fits: "int (n * x * y) \<le> INT_MAX"
  shows "sat (write_row s (- 1) (int x) (int n) data (if n = 4 then 1 else 0) e (int j) pad)
    (\<lambda>s'. write_ok s' \<and> written s' = written s @ bgr_row n x data j @ replicate pad 0 \<and> buf_used s' = 0)"
proof -
  have px: "appends t (do { p \<leftarrow> i32 ((int j * int x + int i) * int n);
      stbiw_write_pixel t (- 1) (int n) (if n = 4 then 1 else 0) e data p }) (bgr_pixel n data ((j * x + i) * n))"
    if i: "i < x" and t: "write_ok t" for i t
  proof -
    note room = row_pixel_room [OF i j, of n]
    have "n * x * y < 2147483648" using fits by (simp add: INT_MAX_def flip: of_nat_mult)
    then have "(j * x + i) * n < 2147483648" using room by linarith
    then have "int ((j * x + i) * n) < 2147483648" by (simp only: of_nat_less_numeral_iff)
    then have "i32 (int ((j * x + i) * n)) = Some (int ((j * x + i) * n))" by (rule i32_in [rotated]) (rule order_trans [OF _ of_nat_0_le_iff], simp)
    then show ?thesis using write_pixel_appends [OF t n, of "(j * x + i) * n" data e] room len by simp
  qed
  have "appends s (for_upto 0 x (\<lambda>i s. do { p \<leftarrow> i32 ((int j * int x + int i) * int n);
      stbiw_write_pixel s (- 1) (int n) (if n = 4 then 1 else 0) e data p }) s) (bgr_row n x data j)"
    unfolding bgr_row_def by (rule appends_loop [OF s px])
  then show ?thesis unfolding appends_def write_row_def nat_int
    by (rule sat_bind) (simp add: flush_ok w_func_ok)
qed

lemma write_pixels_appends:
  assumes s: "write_ok s" "buf_used s = 0" and n: "n = 3 \<or> n = 4" and len: "length data = n * x * y"
    and fits: "int (n * x * y) \<le> INT_MAX"
  shows "sat (stbiw_write_pixels False s (- 1) (- 1) (int x) (int y) (int n) data (if n = 4 then 1 else 0) pad e)
    (\<lambda>s'. written s' = written s @ concat (map (\<lambda>j. bgr_row n x data j @ replicate pad 0) (rev [0..<y])) \<and> buf_used s' = 0)"
proof (cases "y = 0")
  case False
  let ?row = "\<lambda>j. bgr_row n x data j @ replicate pad 0"
  let ?P = "\<lambda>k s'. write_ok s' \<and> written s' = written s @ concat (map (\<lambda>k. ?row (y - 1 - k)) [0..<k]) \<and> buf_used s' = 0"
  have "sat (for_upto 0 y (\<lambda>k s. write_row s (- 1) (int x) (int n) data (if n = 4 then 1 else 0) e (int y - 1 - int k) pad) s) (?P y)"
  proof (rule sat_for_upto [where P = ?P])
    fix k s' assume k: "k < y" and P: "?P k s'"
    have "int y - 1 - int k = int (y - 1 - k)" using k by (simp add: of_nat_diff)
    moreover have "y - 1 - k < y" using k by simp
    ultimately show "sat (write_row s' (- 1) (int x) (int n) data (if n = 4 then 1 else 0) e (int y - 1 - int k) pad) (?P (Suc k))"
      using P by (simp only:, intro sat_mono [OF write_row_appends [OF _ n _ len fits]]) auto
  qed (use s in auto)
  moreover have "map (\<lambda>k. ?row (y - 1 - k)) [0..<y] = map ?row (rev [0..<y])"
    by (rule nth_equalityI) (simp_all add: rev_nth)
  ultimately show ?thesis using False by (auto simp: stbiw_write_pixels_def elim!: sat_mono)
qed (use s in \<open>simp add: stbiw_write_pixels_def\<close>)

end
