(* ===== verification/Bmp_Roundtrip.thy ===== *)
theory Bmp_Roundtrip
  imports Mem_Read Write_Stream Stb_Load
begin

text \<open>
  The BMP files that stb_image_write.h writes are read back by stb_image.h without any loss. The
  writer's side is the byte stream of \<open>Write_Stream\<close>; the reader's side moves through a block in memory.
\<close>

subsection \<open>Little-endian fields\<close>

lemma discard32le_pending: "mem_ctx s \<Longrightarrow> 4 * m \<le> length (pending s) \<Longrightarrow> discard32le m s = Some (ahead (4 * m) s)"
  by (induction m arbitrary: s) (simp_all add: get32le_pending)

lemmas mem_reads = get8_pending get16le_pending get32le_pending discard32le_pending

lemma byte_fields: "uint (word_of_int x :: byte) = x mod 2 ^ 8"
  by (simp add: uint_word_of_int)

lemma le4_value: "le_word (le4 x @ r) = word_of_int x"
proof -
  have "le_word (le4 x @ r) = word_of_int (x mod 256 + (x div 256 mod 256) * 256 +
      (x div 65536 mod 256 + (x div 16777216 mod 256) * 256) * 65536)"
    by (simp add: le_word_def le4_def byte_fields push_bit_eq_mult drop_bit_eq_div)
  then show ?thesis unfolding four_digits word32_mod .
qed

lemma le2_value: "le_half (le2 x @ r) = x mod 65536"
  using zmod_zmult2_eq [of 256 x 256] by (simp add: le_half_def le2_def byte_fields drop_bit_eq_div)

lemma length_le [simp]: "length (le2 x) = 2" "length (le4 x) = 4"
  by (simp_all add: le2_def le4_def)

subsection \<open>The file\<close>

definition bmp_pad :: "nat \<Rightarrow> nat \<Rightarrow> nat" where
  "bmp_pad n x = (if n = 4 then 0 else nat ((- int x * 3) mod 4))"

definition bmp_size :: "nat \<Rightarrow> nat \<Rightarrow> nat \<Rightarrow> nat" where
  "bmp_size n x y = (if n = 4 then 122 else 54) + (n * x + bmp_pad n x) * y"

definition bmp_head :: "nat \<Rightarrow> nat \<Rightarrow> nat \<Rightarrow> bytes" where
  "bmp_head n x y = [0x42, 0x4D] @ le4 (int (bmp_size n x y)) @ le2 0 @ le2 0 @
     (if n = 4 then le4 122 @ le4 108 else le4 54 @ le4 40) @ le4 (int x) @ le4 (int y) @ le2 1 @
     (if n = 4 then le2 32 @ le4 3 else le2 24 @ le4 0) @ concat (replicate 5 (le4 0)) @
     (if n = 4 then le4 0xff0000 @ le4 0xff00 @ le4 0xff @ le4 0xff000000 @ concat (replicate 13 (le4 0)) else [])"

definition bmp_body :: "nat \<Rightarrow> nat \<Rightarrow> nat \<Rightarrow> bytes \<Rightarrow> bytes" where
  "bmp_body n x y data = concat (map (\<lambda>j. bgr_row n x data j @ replicate (bmp_pad n x) 0) (rev [0..<y]))"

lemma fmt_bytes_cons:
  "fmt_bytes (CHR ''1'' # f) (x # v) = map_option (\<lambda>r. word_of_int x # r) (fmt_bytes f v)"
  "fmt_bytes (CHR ''2'' # f) (x # v) = map_option (\<lambda>r. le2 x @ r) (fmt_bytes f v)"
  "fmt_bytes (CHR ''4'' # f) (x # v) = map_option (\<lambda>r. le4 x @ r) (fmt_bytes f v)"
  "fmt_bytes (CHR '' '' # f) v = fmt_bytes f v"
  by (cases "fmt_bytes f v"; simp)+

lemma bmp_formats:
  "fmt_bytes bmp_format [0x42, 0x4D, int (bmp_size 3 x y), 0, 0, 14 + 40, 40, int x, int y, 1, 24, 0, 0, 0, 0, 0, 0] = Some (bmp_head 3 x y)"
  "fmt_bytes bmp_v4_format [0x42, 0x4D, int (bmp_size 4 x y), 0, 0, 14 + 108, 108, int x, int y, 1, 32, 3, 0, 0, 0, 0, 0, 0xff0000, 0xff00, 0xff, 0xff000000,
     0, 0, 0, 0, 0, 0, 0, 0, 0, 0, 0, 0, 0] = Some (bmp_head 4 x y)"
  by (simp_all only: bmp_format_def bmp_v4_format_def fmt_bytes_cons fmt_bytes.simps(1) option.map)
    (simp_all add: bmp_head_def numeral_eq_Suc)

lemma and_3: "z AND 3 = z mod (4 :: int)"
  using take_bit_eq_mask [of 2 z] by (simp add: take_bit_eq_mod mask_eq_exp_minus_1)

lemma write_bmp_eq:
  assumes n: "n = 3 \<or> n = 4" and len: "length data = n * x * y" and x: "x \<le> 2 ^ 24" and fits: "int (bmp_size n x y) \<le> INT_MAX"
  shows "stbi_write_bmp_to_func False (int x) (int y) (int n) data = Some (True, bmp_head n x y @ bmp_body n x y data)"
proof -
  have "n * x * y \<le> bmp_size n x y" by (simp add: bmp_size_def algebra_simps)
  then have small: "int (n * x * y) \<le> INT_MAX" using fits by linarith
  have out: "\<exists>s'. stbiw_outfile False stbi_start_write_callbacks (- 1) (- 1) (int x) (int y) (int n) True data (if n = 4 then 1 else 0)
      (bmp_pad n x) fmt v = Some (True, s') \<and> w_out s' = bmp_head n x y @ bmp_body n x y data"
    if f: "fmt_bytes fmt v = Some (bmp_head n x y)" for fmt v
  proof -
    let ?s = "w_func stbi_start_write_callbacks (bmp_head n x y)"
    have s: "write_ok ?s" "buf_used ?s = 0" "written ?s = bmp_head n x y" by (simp_all add: w_func_ok start_ok)
    obtain s' where "stbiw_write_pixels False ?s (- 1) (- 1) (int x) (int y) (int n) data (if n = 4 then 1 else 0) (bmp_pad n x) True = Some s'"
      "written s' = bmp_head n x y @ bmp_body n x y data" "buf_used s' = 0"
      using write_pixels_appends [OF s(1,2) n len small, of "bmp_pad n x" True] s(3) unfolding bmp_body_def by (auto elim: satE)
    then show ?thesis using f by (simp add: stbiw_outfile_def writefv_eq written_def)
  qed
  show ?thesis
  proof (cases "n = 4")
    case True
    have nn: "0 \<le> int x * int y" by simp
    have "4 * (int x * int y) + 122 \<le> INT_MAX" using fits True by (simp add: bmp_size_def bmp_pad_def algebra_simps)
    with nn have "i32 (int x * int y) = Some (int x * int y)" "i32 (int x * int y * 4) = Some (int x * int y * 4)"
      "i32 (14 + 108 + int x * int y * 4) = Some (14 + 108 + int x * int y * 4)"
      by (intro i32_nn; linarith)+
    moreover have "14 + 108 + int x * int y * 4 = int (bmp_size 4 x y)" by (simp add: bmp_size_def bmp_pad_def)
    ultimately have "i32 (int x * int y) = Some (int x * int y)" "i32 (int x * int y * 4) = Some (int x * int y * 4)"
      "i32 (14 + 108 + int x * int y * 4) = Some (int (bmp_size 4 x y))" by simp_all
    with True out [OF bmp_formats(2) [of x y, folded True]] show ?thesis
      by (auto simp: stbi_write_bmp_to_func_def stbi_write_bmp_core_def bmp_pad_def)
  next
    case False
    then have n3: "n = 3" using n by simp
    have pad: "- (int x * 3) AND 3 = int (bmp_pad 3 x)" by (simp add: bmp_pad_def and_3)
    have "i32 (- int x * 3) = Some (- int x * 3)" using x by (simp add: i32_def)
    moreover have "bmp_pad 3 x < 4" by (simp add: bmp_pad_def nat_less_iff)
    then have "i32 (int x * 3 + int (bmp_pad 3 x)) = Some (int x * 3 + int (bmp_pad 3 x))" using x by (simp add: i32_def)
    moreover have sz: "14 + 40 + (int x * 3 + int (bmp_pad 3 x)) * int y = int (bmp_size 3 x y)" by (simp add: bmp_size_def)
    moreover have nn: "0 \<le> (int x * 3 + int (bmp_pad 3 x)) * int y" by simp
    then have "i32 ((int x * 3 + int (bmp_pad 3 x)) * int y) = Some ((int x * 3 + int (bmp_pad 3 x)) * int y)"
      "i32 (int (bmp_size 3 x y)) = Some (int (bmp_size 3 x y))"
      using sz fits unfolding n3 by (intro i32_nn; linarith)+
    ultimately show ?thesis using n3 out [OF bmp_formats(1) [of x y, folded n3]]
      by (auto simp: stbi_write_bmp_to_func_def stbi_write_bmp_core_def pad Let_def)
  qed
qed

subsection \<open>Reading the header\<close>

definition bmp_info :: "nat \<Rightarrow> bmp_data" where
  "bmp_info n = (if n = 4
     then \<lparr>bpp = 32, offset = 122, hsz = 108, mr = 0xff0000, mg = 0xff00, mb = 0xff, ma = 0xff000000, all_a = 255, extra_read = 14\<rparr>
     else \<lparr>bpp = 24, offset = 54, hsz = 40, mr = 0, mg = 0, mb = 0, ma = 0, all_a = 255, extra_read = 14\<rparr>)"

definition bmp_head_length :: "nat \<Rightarrow> nat" where
  "bmp_head_length n = (if n = 4 then 122 else 54)"

lemma length_bmp_head: "n = 3 \<or> n = 4 \<Longrightarrow> length (bmp_head n x y) = bmp_head_length n"
  by (auto simp: bmp_head_def bmp_head_length_def length_concat sum_list_replicate)

lemmas bmp_head_reads = mem_reads le4_value le2_value drop_append length_concat sum_list_replicate

lemma parse_header_24:
  assumes s: "mem_ctx s" and p: "pending s = bmp_head 3 x y @ r"
  shows "stbi_bmp_parse_header bmp_initial s = ret (bmp_info 3,
    (ahead 54 s)\<lparr>img_x := word_of_int (int x), img_y := word_of_int (int y)\<rparr>)"
  using s by (simp add: stbi_bmp_parse_header_def discard_file_header_def bmp_head_reads p bmp_head_def bmp_header_rest_def
      bmp_header_v3_def header_size_ok_def bmp_initial_def bmp_info_def)

lemma parse_header_32:
  assumes s: "mem_ctx s" and p: "pending s = bmp_head 4 x y @ r"
  shows "stbi_bmp_parse_header bmp_initial s = ret (bmp_info 4,
    (ahead 122 s)\<lparr>img_x := word_of_int (int x), img_y := word_of_int (int y)\<rparr>)"
  using s by (simp add: stbi_bmp_parse_header_def discard_file_header_def bmp_head_reads p bmp_head_def bmp_header_rest_def
      bmp_header_v4_def header_size_ok_def bmp_initial_def bmp_info_def)

lemma parse_header_back:
  assumes "mem_ctx s" and "pending s = bmp_head n x y @ r" and "n = 3 \<or> n = 4"
  shows "stbi_bmp_parse_header bmp_initial s = ret (bmp_info n,
    (ahead (bmp_head_length n) s)\<lparr>img_x := word_of_int (int x), img_y := word_of_int (int y)\<rparr>)"
  using assms parse_header_24 parse_header_32 by (auto simp: bmp_head_length_def)

lemma bmp_not_png:
  assumes "mem_ctx s" and "pending s = bmp_head n x y @ r"
  shows "stbi_png_test s = Some (False, stbi_rewind (ahead 1 s))"
  using assms by (simp add: stbi_png_test_def stbi_check_png_header_def get8_pending bmp_head_def png_sig_def)

lemma bmp_test_accepts:
  assumes "mem_ctx s" and "pending s = bmp_head n x y @ r"
  shows "stbi_bmp_test s = Some (True, stbi_rewind (ahead 18 s))"
proof -
  have "stbi_bmp_test_raw s = Some (True, ahead 18 s)"
    using assms by (cases "n = 4")
      (simp_all add: stbi_bmp_test_raw_def discard_file_header_def bmp_head_reads bmp_head_def header_size_ok_def)
  then show ?thesis by (auto simp: stbi_bmp_test_def)
qed

subsection \<open>Reading the rows\<close>

lemma length_bgr_pixel: "n = 3 \<or> n = 4 \<Longrightarrow> length (bgr_pixel n data p) = n"
  by (auto simp: bgr_pixel_def)

lemma concat_split:
  assumes "i < x" and "\<And>k. length (f k) = n"
  shows "drop (n * i) (concat (map f [0..<x])) = f i @ drop (n * Suc i) (concat (map f [0..<x]))"
proof -
  have "[0..<x] = [0..<i] @ i # [Suc i..<x]" using assms(1) upt_add_eq_append [of 0 i "x - i"] by (simp add: upt_conv_Cons)
  then have eq: "concat (map f [0..<x]) = concat (map f [0..<i]) @ f i @ concat (map f [Suc i..<x])" by simp
  have len: "length (concat (map f [0..<i])) = n * i"
    using assms(2) by (simp add: length_concat o_def sum_list_triv mult.commute)
  show ?thesis unfolding eq using assms(2) by (simp add: len)
qed

lemma length_bgr_row: "n = 3 \<or> n = 4 \<Longrightarrow> length (bgr_row n x data j) = n * x"
  using length_bgr_pixel [of n] by (simp add: bgr_row_def length_concat o_def sum_list_triv mult.commute)

definition pixel_cells :: "nat \<Rightarrow> bytes \<Rightarrow> nat \<Rightarrow> nat \<Rightarrow> byte option list \<Rightarrow> byte option list" where
  "pixel_cells n data p z out = (let out = out[z + 2 := Some (data ! (p + 2)), z + 1 := Some (data ! (p + 1)), z := Some (data ! p)]
     in if n = 4 then out[z + 3 := Some (data ! (p + 3))] else out)"

lemma length_pixel_cells [simp]: "length (pixel_cells n data p z out) = length out"
  by (simp add: pixel_cells_def Let_def)

lemma nth_pixel_cells:
  assumes "n = 3 \<or> n = 4" "z + n \<le> length out" "q < length out"
  shows "pixel_cells n data p z out ! q = (if z \<le> q \<and> q < z + n then Some (data ! (p + (q - z))) else out ! q)"
proof (cases "z \<le> q \<and> q < z + n")
  case True
  then consider "q = z" | "q = z + 1" | "q = z + 2" | "q = z + 3" "n = 4" using assms(1) by linarith
  then show ?thesis by cases (use True assms in \<open>auto simp: pixel_cells_def\<close>)
next
  case False
  then have "q \<noteq> z" "q \<noteq> z + 1" "q \<noteq> z + 2" "n = 4 \<Longrightarrow> q \<noteq> z + 3" using assms(1) by auto
  with False show ?thesis by (auto simp: pixel_cells_def Let_def)
qed

lemma easy_pixel:
  assumes s: "mem_ctx s" "pending s = bgr_pixel n data p @ r" and n: "n = 3 \<or> n = 4" and room: "z + n \<le> length out"
  shows "\<exists>a. (do {
       (v, s) \<leftarrow> stbi_get8 s; out \<leftarrow> wr out (z + 2) v;
       (v, s) \<leftarrow> stbi_get8 s; out \<leftarrow> wr out (z + 1) v;
       (v, s) \<leftarrow> stbi_get8 s; out \<leftarrow> wr out z v;
       (a, s) \<leftarrow> (if (if n = 4 then 2 else 1) = (2 :: nat) then stbi_get8 s else Some (255, s));
       let all = all OR ucast a;
       if int n = 4 then do { out \<leftarrow> wr out (z + 3) a; Some ((z + 4, out, all), s) }
       else Some ((z + 3, out, all), s) }) = Some ((z + n, pixel_cells n data p z out, all OR a), ahead n s)"
  using n
proof
  assume n: "n = 3"
  then show ?thesis using s room by (auto simp: get8_pending bgr_pixel_def pixel_cells_def numeral_eq_Suc)
next
  assume n: "n = 4"
  then show ?thesis using s room by (auto simp: get8_pending bgr_pixel_def pixel_cells_def numeral_eq_Suc)
qed

definition easy_of :: "nat \<Rightarrow> nat" where
  "easy_of n = (if n = 4 then 2 else 1)"

lemma easy_row:
  assumes s: "mem_ctx s" "pending s = bgr_row n x data j @ r" and n: "n = 3 \<or> n = 4"
    and room: "z + n * x \<le> length out" and all: "all OR 255 = all"
  shows "sat (bmp_row_easy (easy_of n) (int n) x ((z, out, all), s)) (\<lambda>((z', out', all'), s'). z' = z + n * x \<and> s' = ahead (n * x) s \<and>
    length out' = length out \<and> all' OR 255 = all' \<and>
    (\<forall>q < length out. out' ! q = (if z \<le> q \<and> q < z + n * x then Some (data ! (j * (n * x) + (q - z))) else out ! q)))"
  unfolding bmp_row_easy_def
proof (rule sat_for_upto [where P = "\<lambda>i ((z', out', all'), s'). z' = z + n * i \<and> s' = ahead (n * i) s \<and>
    length out' = length out \<and> all' OR 255 = all' \<and>
    (\<forall>q < length out. out' ! q = (if z \<le> q \<and> q < z + n * i then Some (data ! (j * (n * x) + (q - z))) else out ! q))"], goal_cases)
  case (3 i st)
  then obtain out' all' where st: "st = ((z + n * i, out', all'), ahead (n * i) s)" and len: "length out' = length out"
    and all': "all' OR 255 = all'"
    and cells: "\<forall>q < length out. out' ! q = (if z \<le> q \<and> q < z + n * i then Some (data ! (j * (n * x) + (q - z))) else out ! q)"
    by (cases st) auto
  have i: "i < x" using 3 by simp
  have le: "n * Suc i \<le> n * x" using i by (intro mult_le_mono2) simp
  have z0: "n * i - n * x = 0" using i by simp
  have px: "pending (ahead (n * i) s) = bgr_pixel n data ((j * x + i) * n) @ (drop (n * Suc i) (bgr_row n x data j) @ r)"
    using concat_split [OF i, of "\<lambda>i. bgr_pixel n data ((j * x + i) * n)" n] length_bgr_pixel [OF n] le length_bgr_row [OF n, of x data j]
    by (simp add: s(2) z0) (simp add: bgr_row_def)
  have "z + n * i + n \<le> length out'" using le room len by simp
  note px_room = this
  obtain a where step: "(do {
       (v, s) \<leftarrow> stbi_get8 (ahead (n * i) s); out \<leftarrow> wr out' (z + n * i + 2) v;
       (v, s) \<leftarrow> stbi_get8 s; out \<leftarrow> wr out (z + n * i + 1) v;
       (v, s) \<leftarrow> stbi_get8 s; out \<leftarrow> wr out (z + n * i) v;
       (a, s) \<leftarrow> (if (if n = 4 then 2 else 1) = (2 :: nat) then stbi_get8 s else Some (255, s));
       let all = all' OR ucast a;
       if int n = 4 then do { out \<leftarrow> wr out (z + n * i + 3) a; Some ((z + n * i + 4, out, all), s) }
       else Some ((z + n * i + 3, out, all), s) }) =
     Some ((z + n * i + n, pixel_cells n data ((j * x + i) * n) (z + n * i) out', all' OR a), ahead n (ahead (n * i) s))"
    using easy_pixel [OF _ px n px_room] s(1) by auto
  have "(all' OR a) OR 255 = all' OR a" using all' by (metis or.assoc or.commute)
  moreover have "pixel_cells n data ((j * x + i) * n) (z + n * i) out' ! q =
      (if z \<le> q \<and> q < z + n * Suc i then Some (data ! (j * (n * x) + (q - z))) else out ! q)" if q: "q < length out" for q
  proof -
    have "(j * x + i) * n + (q - (z + n * i)) = j * (n * x) + (q - z)" if "z + n * i \<le> q"
      using that by (simp add: algebra_simps)
    then show ?thesis using nth_pixel_cells [OF n px_room] q len cells by auto
  qed
  ultimately show ?case unfolding st prod.case easy_of_def step using len by (simp add: algebra_simps)
qed (use all in auto)

lemma bmp_body_split:
  assumes "k < y" and n: "n = 3 \<or> n = 4"
  shows "drop ((n * x + bmp_pad n x) * k) (bmp_body n x y data) =
    bgr_row n x data (y - 1 - k) @ replicate (bmp_pad n x) 0 @ drop ((n * x + bmp_pad n x) * Suc k) (bmp_body n x y data)"
proof -
  let ?row = "\<lambda>j. bgr_row n x data j @ replicate (bmp_pad n x) 0"
  have "map ?row (rev [0..<y]) = map (\<lambda>k. ?row (y - 1 - k)) [0..<y]"
    by (rule nth_equalityI) (simp_all add: rev_nth)
  then have eq: "bmp_body n x y data = concat (map (\<lambda>k. ?row (y - 1 - k)) [0..<y])" by (simp add: bmp_body_def)
  show ?thesis unfolding eq using concat_split [OF assms(1), of "\<lambda>k. ?row (y - 1 - k)" "n * x + bmp_pad n x"] length_bgr_row [OF n]
    by simp
qed

text \<open>The rows of a file come from the bottom of the image to its top.\<close>

definition upside_down :: "nat \<Rightarrow> nat \<Rightarrow> bytes \<Rightarrow> nat \<Rightarrow> byte option list \<Rightarrow> bool" where
  "upside_down y b data k out \<longleftrightarrow> length out = y * b \<and> (\<forall>i < k. \<forall>c < b. out ! (i * b + c) = Some (data ! ((y - 1 - i) * b + c)))"

lemma cell_less: "i < y \<Longrightarrow> c < b \<Longrightarrow> i * b + c < y * (b :: nat)"
  using mult_le_mono1 [of "Suc i" y b] by simp

lemma easy_rows:
  assumes s: "mem_ctx s" "pending s = bmp_body n x y data" and n: "n = 3 \<or> n = 4"
    and out: "length out = y * (n * x)" and all: "all OR 255 = all"
  shows "sat (bmp_rows y (int (bmp_pad n x)) (bmp_row_easy (easy_of n) (int n) x) ((0, out, all), s))
    (\<lambda>((z', out', all'), s'). upside_down y (n * x) data y out' \<and> all' \<noteq> 0 \<and> img_x s' = img_x s \<and> img_y s' = img_y s \<and> img_n s' = img_n s)"
proof -
  let ?b = "n * x" and ?w = "n * x + bmp_pad n x"
  let ?P = "\<lambda>k ((z', out', all'), s'). z' = k * ?b \<and> upside_down y ?b data k out' \<and> all' OR 255 = (all' :: u32) \<and> s' = ahead (?w * k) s"
  have "sat (bmp_rows y (int (bmp_pad n x)) (bmp_row_easy (easy_of n) (int n) x) ((0, out, all), s)) (?P y)"
    unfolding bmp_rows_def
  proof (rule sat_for_upto [where P = ?P], goal_cases)
    case (3 k st)
    then obtain out' all' where st: "st = ((k * ?b, out', all'), ahead (?w * k) s)" and up: "upside_down y ?b data k out'"
      and all': "all' OR 255 = all'" by (cases st) auto
    have k: "k < y" using 3 by simp
    have p: "pending (ahead (?w * k) s) = bgr_row n x data (y - 1 - k) @ replicate (bmp_pad n x) 0 @ drop (?w * Suc k) (bmp_body n x y data)"
      unfolding ahead_simps s(2) by (rule bmp_body_split [OF k n])
    have room: "k * ?b + ?b \<le> length out'" using up k mult_le_mono1 [of "Suc k" y ?b] by (simp add: upside_down_def)
    show ?case unfolding st
    proof (rule sat_bind [OF easy_row [OF _ p n room all']], goal_cases)
      case (2 st')
      then obtain out'' all'' where st': "st' = ((k * ?b + ?b, out'', all''), ahead ?b (ahead (?w * k) s))" and len: "length out'' = length out'"
        and all'': "all'' OR 255 = all''"
        and cells: "\<forall>q < length out'. out'' ! q = (if k * ?b \<le> q \<and> q < k * ?b + ?b then Some (data ! ((y - 1 - k) * ?b + (q - k * ?b))) else out' ! q)"
        by (cases st') auto
      have "out'' ! (i * ?b + c) = Some (data ! ((y - 1 - i) * ?b + c))" if "i < Suc k" "c < ?b" for i c
      proof (cases "i = k")
        case True
        then show ?thesis using cells that cell_less [OF k that(2)] up by (simp add: upside_down_def)
      next
        case False
        then have i: "i < k" using that by simp
        then have "i * ?b + c < k * ?b" using that(2) by (rule cell_less)
        then show ?thesis using cells up i that(2) room by (auto simp: upside_down_def)
      qed
      then have "upside_down y ?b data (Suc k) out''" using up len by (simp add: upside_down_def)
      then show ?case unfolding st' prod.case using all'' s(1) by (simp add: skip_pending algebra_simps)
    qed (use s(1) in simp)
  qed (use out all in \<open>auto simp: upside_down_def\<close>)
  then show ?thesis
  proof (rule sat_mono)
    fix st assume "?P y st"
    moreover have "all' \<noteq> 0" if "all' OR 255 = all'" for all' :: u32 using that by auto
    ultimately show "(\<lambda>((z', out', all'), s'). upside_down y (n * x) data y out' \<and> all' \<noteq> 0 \<and> img_x s' = img_x s \<and>
        img_y s' = img_y s \<and> img_n s' = img_n s) st"
      by (cases st) (auto simp: ahead_def)
  qed
qed

subsection \<open>The flip of the reader\<close>

lemma swap_cells:
  assumes "p < q" "q < length out" "out ! p = Some a" "out ! q = Some b"
  shows "(do { t \<leftarrow> rd out p; v \<leftarrow> rd out q; out \<leftarrow> wr out p v; wr out q t }) = swap_chunk out p q 1"
proof -
  have one: "take 1 (drop i out) = [out ! i]" if "i < length out" for i
    using that by (simp add: take_Suc_conv_app_nth flip: Cons_nth_drop_Suc)
  show ?thesis using assms one [of p] one [of q]
    by (simp add: swap_chunk_def list_update_swap) (simp add: upd_conv_take_nth_drop)
qed

lemma flipping_Some:
  assumes "flipping y b xs r d ys" and xs: "length xs = y * b" "\<forall>q < length xs. xs ! q \<noteq> None" and q: "q < length ys"
  shows "ys ! q \<noteq> None"
proof -
  have len: "length ys = y * b" using assms by (simp add: flipping_def)
  then have b: "0 < b" using q by (cases b) auto
  let ?i = "q div b" and ?c = "q mod b"
  have i: "?i < y" "?c < b" using q len b by (auto simp: less_mult_imp_div_less)
  have "ys ! (?i * b + ?c) = xs ! ((if exchanged y r d ?i ?c then y - 1 - ?i else ?i) * b + ?c)"
    using assms(1) i unfolding flipping_def by blast
  moreover have "(if exchanged y r d ?i ?c then y - 1 - ?i else ?i) < y" using i by auto
  ultimately show ?thesis using xs cell_less [OF _ i(2)] by (metis div_mult_mod_eq)
qed

lemma flip_bytes:
  assumes xs: "length xs = y * b" "\<forall>q < length xs. xs ! q \<noteq> None" and r: "r < y div 2" and F: "flipping y b xs r 0 out"
  shows "sat (for_upto 0 b (\<lambda>i out. do { t \<leftarrow> rd out (r * b + i); v \<leftarrow> rd out ((y - 1 - r) * b + i);
    out \<leftarrow> wr out (r * b + i) v; wr out ((y - 1 - r) * b + i) t }) out) (flipping y b xs r b)"
proof (rule sat_for_upto [where P = "flipping y b xs r"])
  fix i ys assume i: "i < b" and G: "flipping y b xs r i ys"
  have len: "length ys = y * b" using G xs by (simp add: flipping_def)
  have lt: "r * b + i < (y - 1 - r) * b + i" using r i by auto
  have q: "(y - 1 - r) * b + i < length ys" unfolding len using r i by (intro cell_less) auto
  obtain a c where "ys ! (r * b + i) = Some a" "ys ! ((y - 1 - r) * b + i) = Some c"
    using flipping_Some [OF G xs] q lt by (metis less_trans not_None_eq)
  then show "sat (do { t \<leftarrow> rd ys (r * b + i); v \<leftarrow> rd ys ((y - 1 - r) * b + i);
      out \<leftarrow> wr ys (r * b + i) v; wr out ((y - 1 - r) * b + i) t }) (flipping y b xs r (Suc i))"
    using swap_cells [OF lt q] flip_chunk [OF G xs(1) r, of 1] i by simp
qed (use F in auto)

lemma bmp_flip_ok:
  assumes xs: "length xs = y * (n * x)" "\<forall>q < length xs. xs ! q \<noteq> None" and fits: "int (n * x * y) \<le> INT_MAX" and pos: "0 < x" "0 < y" and n: "0 < n"
  shows "sat (bmp_flip (word_of_nat x) (word_of_nat y) (int n) xs) (flipping y (n * x) xs (y div 2) 0)"
proof -
  let ?b = "n * x"
  have big: "y * ?b < 2147483648" using fits by (simp add: INT_MAX_def ac_simps flip: of_nat_mult)
  have off: "unat (word_of_nat i * word_of_nat x * word_of_int (int n) :: u32) = i * ?b" if "i < y" for i
  proof -
    have "i * ?b \<le> y * ?b" using that by (intro mult_le_mono1) simp
    then have "i * ?b < 4294967296" using big by linarith
    moreover have "word_of_nat i * word_of_nat x * word_of_int (int n) = (word_of_nat (i * ?b) :: u32)" by (simp add: ac_simps)
    ultimately show ?thesis using unat_u32_of_nat by metis
  qed
  have last: "(word_of_nat y - 1 - word_of_nat i :: u32) = word_of_nat (y - 1 - i)" if "i < y" for i
    using that by (simp add: of_nat_diff)
  show ?thesis
  proof -
    have "y * 1 \<le> y * ?b" "1 * ?b \<le> y * ?b" using n pos by (intro mult_le_mono2 mult_le_mono1; simp)+
    then have small: "y < 2147483648" "?b < 2147483648" using big by linarith+
    have "1 * x \<le> n * x" using n by (intro mult_le_mono1) simp
    then have "x < 2147483648" using small(2) by linarith
    with small have sz: "sint (word_of_nat x :: u32) = int x" "sint (word_of_nat y :: u32) = int y"
      by (simp_all add: sint_dim unat_u32_of_nat)
    have w: "i32 (int x * int n) = Some (int ?b)" using small(2) by (simp add: i32_def ac_simps flip: of_nat_mult)
    have half: "nat (int y div 2) = y div 2" by (simp add: nat_div_distrib)
    show ?thesis unfolding bmp_flip_def sz w bind.bind_lunit half nat_int Let_def
    proof (rule sat_for_upto)
      show "flipping y ?b xs 0 0 xs" by (auto simp: flipping_def exchanged_def)
      fix r ys assume r: "r < y div 2" and F: "flipping y ?b xs r 0 ys"
      then have lt: "r < y" "y - 1 - r < y" by auto
      show "sat (for_upto 0 ?b (\<lambda>i out. do {
         t \<leftarrow> rd out (unat (word_of_nat r * word_of_nat x * word_of_int (int n) :: u32) + i);
         v \<leftarrow> rd out (unat ((word_of_nat y - 1 - word_of_nat r) * word_of_nat x * word_of_int (int n) :: u32) + i);
         out \<leftarrow> wr out (unat (word_of_nat r * word_of_nat x * word_of_int (int n) :: u32) + i) v;
         wr out (unat ((word_of_nat y - 1 - word_of_nat r) * word_of_nat x * word_of_int (int n) :: u32) + i) t }) ys)
        (flipping y ?b xs (Suc r) 0)"
        unfolding last [OF lt(1)] off [OF lt(1)] off [OF lt(2)]
        by (rule sat_mono [OF flip_bytes [OF xs r F]]) (rule flipping_next [OF r])
    qed simp
  qed
qed

subsection \<open>Loading\<close>

lemma dims_word:
  fixes x :: nat
  assumes "x \<le> 2 ^ 24"
  shows "sint (word_of_nat x :: u32) = int x" "\<not> (word_of_nat x :: u32) > STBI_MAX_DIMENSIONS" "sint (3 * word_of_nat x :: u32) = 3 * int x"
proof -
  have u: "unat (word_of_nat x :: u32) = x" using assms by (intro unat_u32_of_nat) simp
  then show "sint (word_of_nat x :: u32) = int x" using assms by (simp add: sint_dim)
  show "\<not> (word_of_nat x :: u32) > STBI_MAX_DIMENSIONS"
    using u assms by (simp add: word_less_nat_alt STBI_MAX_DIMENSIONS_def)
  have "unat (word_of_nat (3 * x) :: u32) = 3 * x" using assms by (intro unat_u32_of_nat) simp
  then have "sint (word_of_nat (3 * x) :: u32) = int (3 * x)" using assms by (simp add: sint_dim del: of_nat_mult)
  then show "sint (3 * word_of_nat x :: u32) = 3 * int x" by simp
qed

lemma direct_image_back:
  assumes s: "mem_ctx s" "pending s = bmp_body n x y data" "img_x s = word_of_nat x" "img_y s = word_of_nat y"
    and n: "n = 3 \<or> n = 4" and out: "length out = y * (n * x)" and d: "x \<le> 2 ^ 24" "y \<le> 2 ^ 24"
  shows "\<exists>out' all s'. bmp_direct_image (bmp_info n) (int n) out s = ret (out', all, s') \<and> upside_down y (n * x) data y out' \<and>
    all \<noteq> 0 \<and> img_x s' = img_x s \<and> img_y s' = img_y s \<and> img_n s' = img_n s"
proof -
  note easy = easy_rows [OF s(1,2) n out, of 255]
  have pad: "pad_of (if n = 4 then 0 else 3 * int x) = int (bmp_pad n x)"
    using n by (auto simp: pad_of_def bmp_pad_def ac_simps)
  from easy obtain z' out' all' s' where r: "bmp_rows y (int (bmp_pad n x)) (bmp_row_easy (easy_of n) (int n) x) ((0, out, 255), s) = Some ((z', out', all'), s')"
    "upside_down y (n * x) data y out'" "all' \<noteq> 0" "img_x s' = img_x s" "img_y s' = img_y s" "img_n s' = img_n s"
    by (auto simp: sat_def)
  from n have "bmp_direct_image (bmp_info n) (int n) out s = ret (out', all', s')"
  proof
    assume "n = 3"
    then show ?thesis using r(1) pad dims_word [OF d(1)] dims_word [OF d(2)] s(3,4)
      by (simp add: bmp_direct_image_def bmp_info_def stbi_skip_def easy_of_def)
  next
    assume "n = 4"
    then show ?thesis using r(1) pad dims_word [OF d(1)] dims_word [OF d(2)] s(3,4)
      by (simp add: bmp_direct_image_def bmp_info_def stbi_skip_def easy_of_def)
  qed
  with r show ?thesis by blast
qed

lemma flipped_back:
  assumes F: "flipping y b out (y div 2) 0 img" and U: "upside_down y b data y out" and len: "length data = y * b"
  shows "img = map Some data"
proof (rule nth_equalityI)
  have l: "length img = y * b" using F U by (simp add: flipping_def upside_down_def)
  then show "length img = length (map Some data)" by (simp add: len)
  fix q assume "q < length img"
  then have q: "q < y * b" using l by simp
  then have b: "0 < b" by (cases b) auto
  let ?i = "q div b" and ?c = "q mod b"
  have i: "?i < y" "?c < b" using q b by (auto simp: less_mult_imp_div_less)
  let ?j = "if exchanged y (y div 2) 0 ?i ?c then y - 1 - ?i else ?i"
  have "?j < y" "y - 1 - ?j = ?i" using i by (auto simp: exchanged_def)
  then have "out ! (?j * b + ?c) = Some (data ! (?i * b + ?c))" using U i by (simp add: upside_down_def)
  moreover have "img ! (?i * b + ?c) = out ! (?j * b + ?c)" using F i unfolding flipping_def by blast
  ultimately show "img ! q = map Some data ! q" using q len by simp
qed

lemma bmp_size_fits:
  "int (bmp_size n x y) \<le> INT_MAX \<Longrightarrow> int (n * x * y) \<le> INT_MAX"
proof -
  have "n * x * y \<le> bmp_size n x y" by (simp add: bmp_size_def algebra_simps)
  then show "int (bmp_size n x y) \<le> INT_MAX \<Longrightarrow> int (n * x * y) \<le> INT_MAX" by linarith
qed

lemma upside_down_Some:
  assumes "upside_down y b data y out" and q: "q < length out"
  shows "out ! q \<noteq> None"
proof -
  have len: "length out = y * b" using assms by (simp add: upside_down_def)
  then have b: "0 < b" using q by (cases b) auto
  have "q div b < y" "q mod b < b" using q len b by (auto simp: less_mult_imp_div_less)
  with assms(1) have "out ! (q div b * b + q mod b) = Some (data ! ((y - 1 - q div b) * b + q mod b))"
    unfolding upside_down_def by blast
  then show ?thesis by simp
qed

lemma bmp_load_back:
  assumes s: "mem_ctx s" "pending s = bmp_head n x y @ bmp_body n x y data" "img_buffer s = 0" "img_buffer_original s = 0"
      "callback_already_read s = 0"
    and n: "n = 3 \<or> n = 4" and len: "length data = n * x * y" and d: "0 < x" "0 < y" "x \<le> 2 ^ 24" "y \<le> 2 ^ 24"
    and fits: "int (bmp_size n x y) \<le> INT_MAX" and ok: "ok (n * x * y)"
  shows "stbi_bmp_load ok stack (int n) s = ret \<lparr>ld_data = map Some data, ld_x = int x, ld_y = int y, ld_comp = int n, ld_bits = 8\<rparr>"
proof -
  note nxy = bmp_size_fits [OF fits]
  let ?H = "bmp_head_length n"
  let ?s1 = "(ahead ?H s)\<lparr>img_x := word_of_nat x, img_y := word_of_nat y\<rparr>"
  have H: "?H = 54 \<or> ?H = 122" "offset (bmp_info n) = int ?H" "bmp_psize (bmp_info n) = 0" "\<not> bpp (bmp_info n) < 16"
    using n by (auto simp: bmp_head_length_def bmp_info_def bmp_psize_def)
  have parse: "stbi_bmp_parse_header bmp_initial s = ret (bmp_info n, ?s1)"
    using parse_header_back [OF s(1,2) n] by simp
  have dim: "bmp_dimensions ?s1 = ret (True, ?s1)"
    using dims_word [OF d(3)] dims_word [OF d(4)] d by (simp add: bmp_dimensions_def i32_def)
  have seek: "bmp_seek_data (bmp_info n) 0 ?s1 = ret ?s1"
    using H s(3-5) by (auto simp: bmp_seek_data_def i32_def stbi_skip_def)
  have channels: "(if bpp (bmp_info n) = 24 \<and> ma (bmp_info n) = 0xff000000 then 3 else if ma (bmp_info n) \<noteq> 0 then 4 else 3) = int n"
    using n by (auto simp: bmp_info_def)
  let ?s2 = "?s1\<lparr>img_n := int n\<rparr>"
  let ?fresh = "replicate (n * x * y) None"
  have p2: "pending ?s2 = bmp_body n x y data" using s(2) length_bmp_head [OF n, of x y] by simp
  have room: "length ?fresh = y * (n * x)" by (simp add: ac_simps)
  obtain out all s3 where img: "bmp_direct_image (bmp_info n) (int n) ?fresh ?s2 = ret (out, all, s3)"
    and up: "upside_down y (n * x) data y out" "all \<noteq> 0" and s3: "img_x s3 = word_of_nat x" "img_y s3 = word_of_nat y" "img_n s3 = int n"
    using direct_image_back [OF _ p2 _ _ n room d(3,4)] s(1) by auto
  have "length out = y * (n * x)" "\<forall>q < length out. out ! q \<noteq> None"
    using up upside_down_Some [OF up(1)] by (simp_all add: upside_down_def)
  then obtain img' where fl: "bmp_flip (word_of_nat x) (word_of_nat y) (int n) out = Some img'" "flipping y (n * x) out (y div 2) 0 img'"
    using bmp_flip_ok [of out y n x, OF _ _ nxy d(1,2)] n by (auto simp: sat_def)
  have img': "img' = map Some data" by (rule flipped_back [OF fl(2) up(1)]) (simp add: len ac_simps)
  have "n * x \<le> n * x * y" using d by simp
  then have "int (n * x) \<le> INT_MAX" using nxy by linarith
  then have valid: "stbi_mad3sizes_valid (int n) (int x) (int y) 0" using nxy by (simp add: mad3_valid_iff)
  have alloc: "stbi_malloc_mad3 ok (int n) (int x) (int y) 0 = Some ?fresh"
    using valid ok by (simp add: stbi_malloc_mad3_def stbi_malloc_def nat_mult_distrib)
  have tgt: "(if int n \<noteq> 0 \<and> int n \<ge> 3 then int n else img_n ?s2) = int n" using n by auto
  show ?thesis
    using img fl(1) up(2) dims_word(1) [OF d(3)] dims_word(1) [OF d(4)] s3 H(4)
    by (simp add: stbi_bmp_load_def parse dim H(3) seek channels tgt valid alloc bmp_pixels_def img' Let_def)
qed

text \<open>C7: A picture with three or four channels that \<^verbatim>\<open>stbi_write_bmp_to_func\<close> writes is read
  back by \<^verbatim>\<open>stbi_load_from_memory\<close> with the same size and exactly the same samples, for every size that
  both sides accept: the padding of the rows, the order of the rows and of the channels, the two header
  versions and the treatment of the alpha channel fit together.\<close>

theorem bmp_write_load_roundtrip:
  assumes "n = 3 \<or> n = 4" and "length data = n * x * y" and "0 < x" "0 < y" "x \<le> 2 ^ 24" "y \<le> 2 ^ 24"
    and "int (bmp_size n x y) \<le> INT_MAX" and "ok (n * x * y)"
  shows "\<exists>file. stbi_write_bmp_to_func False (int x) (int y) (int n) data = Some (True, file) \<and>
    stbi_load_from_memory ok default_flags stack file (int n) =
      ret \<lparr>ld_data = map Some data, ld_x = int x, ld_y = int y, ld_comp = int n, ld_bits = 8\<rparr>"
proof -
  let ?file = "bmp_head n x y @ bmp_body n x y data"
  let ?s = "stbi_start_mem (fresh_context ()) ?file (length ?file)"
  have s: "mem_ctx ?s" "pending ?s = ?file" by (simp_all add: mem_ctx_start pending_start)
  have rw: "stbi_rewind (ahead k ?s) = ?s" for k by (rule rewind_ahead) (simp_all add: stbi_start_mem_def)
  have "stbi_bmp_load ok stack (int n) ?s = ret \<lparr>ld_data = map Some data, ld_x = int x, ld_y = int y, ld_comp = int n, ld_bits = 8\<rparr>"
    by (rule bmp_load_back [OF s _ _ _ assms(1-7), of ok]) (simp_all add: stbi_start_mem_def assms(8))
  then have "stbi_load_from_memory ok default_flags stack ?file (int n) =
      ret \<lparr>ld_data = map Some data, ld_x = int x, ld_y = int y, ld_comp = int n, ld_bits = 8\<rparr>"
    using bmp_not_png [OF s] bmp_test_accepts [OF s] rw
    by (simp add: stbi_load_from_memory_def stbi_load_and_postprocess_8bit_def stbi_load_main_def flip_on_load_def
        default_flags_def flag_value_def Let_def)
  then show ?thesis using write_bmp_eq [OF assms(1,2,5,7)] by auto
qed

theorem bmp_write_load_roundtrip_witness:
  "\<exists>file. stbi_write_bmp_to_func False 1 2 3 [10, 20, 30, 40, 50, 60] = Some (True, file) \<and>
    stbi_load_from_memory (\<lambda>_. True) default_flags [] file 3 =
      ret \<lparr>ld_data = map Some [10, 20, 30, 40, 50, 60], ld_x = 1, ld_y = 2, ld_comp = 3, ld_bits = 8\<rparr>"
  using bmp_write_load_roundtrip [of 3 "[10, 20, 30, 40, 50, 60]" 1 2 "\<lambda>_. True" "[]"]
  by (simp add: bmp_size_def bmp_pad_def INT_MAX_def)

end
