(* ===== verification/Bit_String.thy ===== *)
theory Bit_String
  imports Prelude
begin

text \<open>
  Bit strings with the most significant bit first, the common language of the JPEG writer and the
  JPEG reader, and the 32-bit buffers that hold them.
\<close>

type_synonym bits = "bool list"

definition value_of :: "bits \<Rightarrow> nat" where
  "value_of bs = horner_sum of_bool 2 (rev bs)"

definition bits_of :: "nat \<Rightarrow> nat \<Rightarrow> bits" where
  "bits_of n v = rev (map (bit v) [0..<n])"

lemma length_bits_of [simp]: "length (bits_of n v) = n"
  by (simp add: bits_of_def)

lemma value_of_Nil [simp]: "value_of [] = 0"
  by (simp add: value_of_def)

lemma value_of_append: "value_of (xs @ ys) = value_of xs * 2 ^ length ys + value_of ys"
  by (simp add: value_of_def horner_sum_append)

lemma value_of_Cons: "value_of (x # xs) = of_bool x * 2 ^ length xs + value_of xs"
  using value_of_append [of "[x]" xs] by (simp add: value_of_def [of "[x]"])

lemma value_of_bits_of: "value_of (bits_of n v) = v mod 2 ^ n"
  by (simp add: value_of_def bits_of_def horner_sum_bit_eq_take_bit take_bit_eq_mod)

lemma value_of_less: "value_of bs < 2 ^ length bs"
proof (induction bs rule: rev_induct)
  case (snoc x xs)
  then show ?case by (simp add: value_of_append value_of_def [of "[x]"])
qed simp

lemma value_of_inj: "length xs = length ys \<Longrightarrow> value_of xs = value_of ys \<Longrightarrow> xs = ys"
proof (induction xs ys rule: rev_induct2)
  case (4 x xs y ys)
  have "2 * value_of xs + of_bool x = 2 * value_of ys + of_bool y"
    using 4 by (simp add: value_of_append value_of_def [of "[x]"] value_of_def [of "[y]"] mult.commute)
  then have "value_of xs = value_of ys \<and> x = y" by (cases x; cases y) (simp_all, presburger+)
  then show ?case using 4 by simp
qed auto

lemma bits_of_value_of: "length bs = n \<Longrightarrow> bits_of n (value_of bs) = bs"
  using value_of_less [of bs] by (intro value_of_inj) (simp_all add: value_of_bits_of)

lemma bits_of_append: "v < 2 ^ n \<Longrightarrow> bits_of (m + n) (u * 2 ^ n + v) = bits_of m u @ bits_of n v"
proof (rule value_of_inj)
  assume "v < 2 ^ n"
  then have "(u * 2 ^ n + v) mod 2 ^ (n + m) = (u mod 2 ^ m) * 2 ^ n + v"
    using mod_mult2_eq [of "u * 2 ^ n + v" "2 ^ n" "2 ^ m"] by (simp add: power_add)
  then show "value_of (bits_of (m + n) (u * 2 ^ n + v)) = value_of (bits_of m u @ bits_of n v)"
    using \<open>v < 2 ^ n\<close> by (simp add: value_of_bits_of value_of_append add.commute)
qed simp

subsection \<open>Buffers\<close>

lemma unat_or_disjoint:
  fixes a b :: u32
  assumes "2 ^ k dvd unat a" and "unat b < 2 ^ k"
  shows "unat (a OR b) = unat a + unat b"
proof -
  obtain c where "unat a = push_bit k c" using assms(1) by (auto simp: dvd_def push_bit_eq_mult ac_simps)
  moreover have "unat b = take_bit k (unat b)" using assms(2) by (simp add: take_bit_nat_eq_self)
  ultimately have "unat a AND unat b = push_bit k c AND take_bit k (unat b)" by simp
  also have "\<dots> = 0" by (rule bit_eqI) (auto simp: bit_and_iff bit_push_bit_iff bit_take_bit_iff)
  finally have "unat a AND unat b = 0" .
  then show ?thesis by (simp add: unsigned_or_eq disjunctive_add_eq_or)
qed

text \<open>A buffer of \<open>w\<close> bits holds the string \<open>bs\<close> at its upper end, and zeros below it.\<close>

definition holds_bits :: "nat \<Rightarrow> u32 \<Rightarrow> bits \<Rightarrow> bool" where
  "holds_bits w b bs \<longleftrightarrow> length bs \<le> w \<and> unat b = value_of bs * 2 ^ (w - length bs)"

lemma holds_bits_append:
  assumes h: "holds_bits w b bs" and fits: "length bs + length cs \<le> w" and w: "w \<le> 32"
  shows "holds_bits w (b OR push_bit (w - (length bs + length cs)) (word_of_nat (value_of cs))) (bs @ cs)"
proof -
  let ?k = "w - length bs" and ?m = "w - (length bs + length cs)"
  have p: "(2 :: nat) ^ ?k = 2 ^ length cs * 2 ^ ?m" using fits by (simp flip: power_add)
  have less: "value_of cs * 2 ^ ?m < 2 ^ ?k" unfolding p using value_of_less [of cs] by simp
  also have "\<dots> \<le> 2 ^ 32" using w by (intro power_increasing) auto
  finally have "unat (word_of_nat (value_of cs * 2 ^ ?m) :: u32) = value_of cs * 2 ^ ?m" by (intro unat_u32_of_nat) simp
  moreover have "push_bit ?m (word_of_nat (value_of cs)) = (word_of_nat (value_of cs * 2 ^ ?m) :: u32)" by (simp add: push_bit_eq_mult)
  ultimately have u: "unat (push_bit ?m (word_of_nat (value_of cs)) :: u32) = value_of cs * 2 ^ ?m" by simp
  have "2 ^ ?k dvd unat b" using h by (simp add: holds_bits_def)
  then have "unat (b OR push_bit ?m (word_of_nat (value_of cs))) = unat b + value_of cs * 2 ^ ?m"
    using unat_or_disjoint less u by metis
  also have "\<dots> = value_of (bs @ cs) * 2 ^ ?m"
    using h p by (simp add: holds_bits_def value_of_append algebra_simps)
  finally show ?thesis using fits by (simp add: holds_bits_def)
qed

lemma holds_bits_rest:
  assumes h: "holds_bits w b (cs @ bs)" and n: "length cs = n"
  shows "unat b * 2 ^ n mod 2 ^ w = value_of bs * 2 ^ (w - length bs)"
proof -
  let ?m = "w - (n + length bs)"
  have le: "n + length bs \<le> w" using h n by (simp add: holds_bits_def)
  have p: "(2 :: nat) ^ (w - length bs) = 2 ^ n * 2 ^ ?m" "(2 :: nat) ^ w = 2 ^ (w - length bs) * 2 ^ length bs"
    using le by (simp_all flip: power_add)
  have "unat b * 2 ^ n = value_of cs * 2 ^ w + value_of bs * 2 ^ (w - length bs)"
    using h n unfolding p by (simp add: holds_bits_def value_of_append algebra_simps)
  moreover have "value_of bs * 2 ^ (w - length bs) < 2 ^ w" using value_of_less [of bs] unfolding p(2) by (simp add: mult.commute)
  ultimately show ?thesis by simp
qed

lemma holds_bits_shift:
  assumes h: "holds_bits 32 b (cs @ bs)" and n: "length cs = n"
  shows "holds_bits 32 (push_bit n b) bs"
proof -
  have le: "n + length bs \<le> 32" using h n by (simp add: holds_bits_def)
  have "unat (push_bit n b) = unat b * 2 ^ n mod 2 ^ 32"
    using unsigned_push_bit_eq [of n b, where ?'a = nat] n le by (simp only: take_bit_eq_mod push_bit_eq_mult) simp
  then show ?thesis using le holds_bits_rest [OF h n] by (simp add: holds_bits_def)
qed

text \<open>The upper \<open>n\<close> bits.\<close>

lemma holds_bits_top:
  assumes h: "holds_bits w b bs" and n: "n \<le> w"
  shows "unat b div 2 ^ (w - n) = value_of (take n bs) * 2 ^ (n - length bs)"
proof (cases "n \<le> length bs")
  case True
  have le: "length bs \<le> w" using h by (simp add: holds_bits_def)
  let ?r = "drop n bs"
  have p: "(2 :: nat) ^ (w - n) = 2 ^ length ?r * 2 ^ (w - length bs)" using True le by (simp flip: power_add)
  have "unat b = (value_of (take n bs) * 2 ^ length ?r + value_of ?r) * 2 ^ (w - length bs)"
    using h value_of_append [of "take n bs" ?r] by (simp add: holds_bits_def)
  then have "unat b div 2 ^ (w - n) = (value_of (take n bs) * 2 ^ length ?r + value_of ?r) div 2 ^ length ?r"
    unfolding p by simp
  also have "\<dots> = value_of (take n bs)" using value_of_less [of ?r] by simp
  finally show ?thesis using True by simp
next
  case False
  then have "(2 :: nat) ^ (w - length bs) = 2 ^ (n - length bs) * 2 ^ (w - n)" using n by (simp flip: power_add)
  then show ?thesis using h False by (simp add: holds_bits_def)
qed

subsection \<open>Entropy-coded bytes\<close>

text \<open>A zero follows every byte 255.\<close>

definition stuff :: "bytes \<Rightarrow> bytes" where
  "stuff B = concat (map (\<lambda>b. if b = 255 then [255, 0] else [b]) B)"

definition byte_bits :: "byte \<Rightarrow> bits" where
  "byte_bits b = bits_of 8 (unat b)"

definition stream_bits :: "bytes \<Rightarrow> bits" where
  "stream_bits B = concat (map byte_bits B)"

lemma stuff_simps [simp]: "stuff [] = []" "stuff (b # B) = (if b = 255 then [255, 0] else [b]) @ stuff B"
  "stuff (A @ B) = stuff A @ stuff B"
  by (simp_all add: stuff_def)

lemma stream_bits_simps [simp]: "stream_bits [] = []" "stream_bits (b # B) = byte_bits b @ stream_bits B"
  "stream_bits (A @ B) = stream_bits A @ stream_bits B"
  by (simp_all add: stream_bits_def)

lemma length_byte_bits [simp]: "length (byte_bits b) = 8"
  by (simp add: byte_bits_def)

lemma value_byte_bits: "value_of (byte_bits b) = unat b"
  using unat_u8_less [of b] by (simp add: byte_bits_def value_of_bits_of)

subsection \<open>Least significant bit first\<close>

text \<open>The bits of a number in the order in which DEFLATE stores them; the code words of its Huffman codes are stored the other way round.\<close>

definition lbits :: "nat \<Rightarrow> nat \<Rightarrow> bits" where
  "lbits n v = map (bit v) [0..<n]"

lemma length_lbits [simp]: "length (lbits n v) = n"
  by (simp add: lbits_def)

lemma lbits_0 [simp]: "lbits 0 v = []"
  by (simp add: lbits_def)

lemma rev_lbits: "rev (lbits n v) = bits_of n v"
  by (simp add: lbits_def bits_of_def)

lemma take_lbits: "m \<le> n \<Longrightarrow> take m (lbits n v) = lbits m v"
  by (simp add: lbits_def take_map)

lemma drop_lbits: "drop m (lbits n v) = lbits (n - m) (v div 2 ^ m)"
  by (rule nth_equalityI) (auto simp: lbits_def bit_drop_bit_eq add.commute simp flip: drop_bit_eq_div)

lemma lbits_inj: "u < 2 ^ n \<Longrightarrow> v < 2 ^ n \<Longrightarrow> lbits n u = lbits n v \<Longrightarrow> u = v"
  using value_of_bits_of [of n u] value_of_bits_of [of n v] by (metis mod_less rev_lbits)

lemma lbits_mod: "lbits n (v mod 2 ^ n) = lbits n v"
  by (simp add: lbits_def bit_take_bit_iff flip: take_bit_eq_mod)

lemma lbits_append:
  assumes "u < 2 ^ n"
  shows "lbits (n + m) (u + v * 2 ^ n) = lbits n u @ lbits m v"
proof -
  have "take n (lbits (n + m) (u + v * 2 ^ n)) = lbits n u"
    using assms lbits_mod [of n "u + v * 2 ^ n"] by (simp add: take_lbits)
  moreover have "drop n (lbits (n + m) (u + v * 2 ^ n)) = lbits m v" using assms by (simp add: drop_lbits)
  ultimately show ?thesis by (metis append_take_drop_id)
qed

text \<open>The bits of a sequence of bytes.\<close>

definition lstream :: "bytes \<Rightarrow> bits" where
  "lstream B = concat (map (\<lambda>b. lbits 8 (unat b)) B)"

lemma lstream_simps [simp]: "lstream [] = []" "lstream (b # B) = lbits 8 (unat b) @ lstream B" "lstream (A @ B) = lstream A @ lstream B"
  by (simp_all add: lstream_def)

lemma length_lstream [simp]: "length (lstream B) = 8 * length B"
  by (induction B) simp_all

end
