(* ===== verification/Jpeg_Stream.thy ===== *)
theory Jpeg_Stream
  imports Jpeg_Code Mem_Read Bit_String "HOL-Library.Sublist"
begin

text \<open>
  The bit stream of the JPEG reader. The entropy-coded data of a scan is a sequence of bytes in which a zero follows every
  byte 255, up to a marker. The reader delivers its bits in order; what it does not use stays in
  the buffer or in the block.
\<close>

text \<open>The bits that are in the buffer, and those that the block still has before its marker.\<close>

definition source_ok :: "'u jpeg \<Rightarrow> bytes \<Rightarrow> bool" where
  "source_ok j B \<longleftrightarrow> mem_ctx (j_s j) \<and>
     (if nomore j then B = [] else \<exists>m rest. pending (j_s j) = stuff B @ 255 # m # rest \<and> m \<noteq> 0 \<and> m \<noteq> 255)"

definition buffer_ok :: "'u jpeg \<Rightarrow> bits \<Rightarrow> bool" where
  "buffer_ok j bb \<longleftrightarrow> holds_bits 32 (jcode_buffer j) bb \<and> jcode_bits j = int (length bb)"

definition feeds :: "'u jpeg \<Rightarrow> bits \<Rightarrow> bool" where
  "feeds j bs \<longleftrightarrow> (\<exists>bb B. buffer_ok j bb \<and> source_ok j B \<and> prefix bs (bb @ stream_bits B))"

text \<open>Reading changes nothing but the source and the buffer.\<close>

definition strip :: "'u jpeg \<Rightarrow> 'u jpeg" where
  "strip j = j\<lparr>j_s := undefined, jcode_buffer := 0, jcode_bits := 0, j_marker := 0, nomore := False\<rparr>"

definition frame :: "'u jpeg \<Rightarrow> 'u jpeg \<Rightarrow> bool" where
  "frame j j' \<longleftrightarrow> strip j = strip j'"

lemma frame_refl [simp]: "frame j j"
  by (simp add: frame_def)

lemma frame_trans: "frame i j \<Longrightarrow> frame j k \<Longrightarrow> frame i k"
  by (simp add: frame_def)

lemma frame_update [simp]: "frame j (j'\<lparr>jcode_buffer := b\<rparr>) = frame j j'" "frame j (j'\<lparr>jcode_bits := n\<rparr>) = frame j j'"
  "frame j (j'\<lparr>j_s := s\<rparr>) = frame j j'" "frame j (j'\<lparr>j_marker := m\<rparr>) = frame j j'" "frame j (j'\<lparr>nomore := q\<rparr>) = frame j j'"
  by (simp_all add: frame_def strip_def)

lemma frame_img_comp: "frame j j' \<Longrightarrow> img_comp j' = img_comp j"
proof -
  assume "frame j j'"
  then have "img_comp (strip j) = img_comp (strip j')" by (simp add: frame_def)
  then show ?thesis by (simp add: strip_def)
qed

subsection \<open>Filling the buffer\<close>

lemma buffer_push:
  assumes "buffer_ok j bb" "length bb \<le> 24"
  shows "shl32 (ucast b) (24 - jcode_bits j) = Some (push_bit (24 - length bb) (ucast b))"
    and "buffer_ok (j'\<lparr>jcode_buffer := jcode_buffer j OR push_bit (24 - length bb) (ucast b), jcode_bits := jcode_bits j + 8\<rparr>) (bb @ byte_bits b)"
proof -
  show "shl32 (ucast b) (24 - jcode_bits j) = Some (push_bit (24 - length bb) (ucast b))"
    using assms by (simp add: buffer_ok_def shl32_def nat_diff_distrib')
  have "ucast b = (word_of_nat (value_of (byte_bits b)) :: u32)" by (simp add: value_byte_bits)
  then show "buffer_ok (j'\<lparr>jcode_buffer := jcode_buffer j OR push_bit (24 - length bb) (ucast b), jcode_bits := jcode_bits j + 8\<rparr>) (bb @ byte_bits b)"
    using holds_bits_append [of 32 "jcode_buffer j" bb "byte_bits b"] assms by (simp add: buffer_ok_def)
qed

lemma jget8_pending:
  assumes "mem_ctx (j_s j)" "pending (j_s j) = b # r"
  shows "jget8 j = Some (b, j\<lparr>j_s := ahead 1 (j_s j)\<rparr>)"
  using assms by (simp add: jget8_def get8_pending)

lemma grow_step_ok:
  assumes b: "buffer_ok j bb" "length bb \<le> 24" and src: "source_ok j B" and pre: "prefix bs (bb @ stream_bits B)"
  shows "sat (grow_step j) (\<lambda>r. case r of
      Inl j' \<Rightarrow> feeds j' bs \<and> frame j j' \<and> (24 < jcode_bits j' \<or> nomore j')
    | Inr j' \<Rightarrow> feeds j' bs \<and> frame j j' \<and> jcode_bits j' = jcode_bits j + 8 \<and> jcode_bits j' \<le> 24)"
proof -
  have add: "sat (do {
       v \<leftarrow> shl32 (ucast c) (24 - jcode_bits j1);
       let j = j1\<lparr>jcode_buffer := jcode_buffer j1 OR v, jcode_bits := jcode_bits j1 + 8\<rparr>;
       Some (if jcode_bits j \<le> 24 then Inr j else Inl j) }) (\<lambda>r. case r of
      Inl j' \<Rightarrow> feeds j' bs \<and> frame j j' \<and> (24 < jcode_bits j' \<or> nomore j')
    | Inr j' \<Rightarrow> feeds j' bs \<and> frame j j' \<and> jcode_bits j' = jcode_bits j + 8 \<and> jcode_bits j' \<le> 24)"
    if "source_ok j1 B1" "prefix bs (bb @ byte_bits c @ stream_bits B1)" "jcode_bits j1 = jcode_bits j" "jcode_buffer j1 = jcode_buffer j" "frame j j1" for j1 c B1
  proof -
    have b1: "buffer_ok j1 bb" using b that by (simp add: buffer_ok_def)
    have "feeds (j1\<lparr>jcode_buffer := jcode_buffer j1 OR push_bit (24 - length bb) (ucast c), jcode_bits := jcode_bits j1 + 8\<rparr>) bs"
      unfolding feeds_def by (intro exI [of _ "bb @ byte_bits c"] exI [of _ B1] conjI buffer_push(2) [OF b1 b(2)]) (use that in \<open>auto simp: source_ok_def\<close>)
    then show ?thesis using buffer_push(1) [OF b1 b(2), of c] that by (simp add: Let_def)
  qed
  have m: "mem_ctx (j_s j)" using src by (simp add: source_ok_def)
  show ?thesis
  proof (cases "nomore j")
    case True
    then have "B = []" using src by (simp add: source_ok_def)
    then have "prefix bs (bb @ byte_bits 0 @ stream_bits [])" using pre by (simp add: prefix_append)
    then show ?thesis using add [of j "[]" 0] src \<open>B = []\<close> True by (simp add: grow_step_def)
  next
    case False
    then obtain mk rest where p: "pending (j_s j) = stuff B @ 255 # mk # rest" "mk \<noteq> 0" "mk \<noteq> 255" using src by (auto simp: source_ok_def)
    show ?thesis
    proof (cases B)
      case Nil
      let ?j = "j\<lparr>j_s := ahead 2 (j_s j), j_marker := mk, nomore := True\<rparr>"
      have "loop skip_fill_step (mk, j1) = Some (mk, j1)" for j1 :: "'a jpeg"
        using p by (subst loop.simps) (simp add: skip_fill_step_def)
      then have "grow_step j = Some (Inl ?j)"
        using False p Nil m by (simp add: grow_step_def jget8_pending numeral_2_eq_2)
      moreover have "feeds ?j bs" using b pre Nil m by (auto simp: feeds_def source_ok_def buffer_ok_def)
      ultimately show ?thesis by simp
    next
      case (Cons c B1)
      have pre': "prefix bs (bb @ byte_bits c @ stream_bits B1)" using pre Cons by simp
      show ?thesis
      proof (cases "c = 255")
        case True
        have z: "loop skip_fill_step (0, j1) = Some (0, j1)" for j1 :: "'a jpeg" by (subst loop.simps) (simp add: skip_fill_step_def)
        have "source_ok (j\<lparr>j_s := ahead (Suc (Suc 0)) (j_s j)\<rparr>) B1" using p Cons True m False by (auto simp: source_ok_def)
        from add [OF this pre'] show ?thesis
          using False p Cons True m z by (simp add: grow_step_def jget8_pending)
      next
        case c: False
        have "source_ok (j\<lparr>j_s := ahead 1 (j_s j)\<rparr>) B1" using p Cons c m False by (auto simp: source_ok_def)
        from add [OF this pre'] show ?thesis
          using False p Cons c m by (simp add: grow_step_def jget8_pending)
      qed
    qed
  qed
qed

text \<open>The upper bits of the buffer after filling it are the next bits of the stream.\<close>

definition shows_bits :: "nat \<Rightarrow> 'u jpeg \<Rightarrow> bits \<Rightarrow> bool" where
  "shows_bits n j bs \<longleftrightarrow> (\<exists>bb B. buffer_ok j bb \<and> source_ok j B \<and> prefix bs (bb @ stream_bits B) \<and> prefix (take n bs) bb)"

lemma feeds_shows:
  assumes "feeds j bs" and "int n \<le> jcode_bits j \<or> nomore j"
  shows "shows_bits n j bs"
proof -
  obtain bb B where w: "buffer_ok j bb" "source_ok j B" "prefix bs (bb @ stream_bits B)" using assms(1) by (auto simp: feeds_def)
  have "prefix (take n bs) bb"
  proof (cases "nomore j")
    case True
    then have "prefix bs bb" using w by (simp add: source_ok_def)
    then show ?thesis using take_is_prefix prefix_order.trans by blast
  next
    case False
    then have "n \<le> length bb" using assms(2) w(1) by (simp add: buffer_ok_def)
    have "prefix (take n bs) (bb @ stream_bits B)" using w(3) take_is_prefix prefix_order.trans by blast
    then have "take n bs = take (length (take n bs)) (bb @ stream_bits B)" by (metis append_eq_conv_conj prefix_def)
    also have "\<dots> = take (length (take n bs)) bb" using \<open>n \<le> length bb\<close> by simp
    finally show ?thesis using take_is_prefix by metis
  qed
  with w show ?thesis by (auto simp: shows_bits_def)
qed

lemma grow_below_ok:
  assumes f: "feeds j bs" and n: "n \<le> 16"
  shows "sat (grow_below (int n) j) (\<lambda>j'. shows_bits n j' bs \<and> frame j j')"
proof (cases "jcode_bits j < int n")
  case False
  then show ?thesis using feeds_shows [OF f, of n] by (simp add: grow_below_def)
next
  case True
  have "sat (loop grow_step j) (\<lambda>j'. feeds j' bs \<and> frame j j' \<and> (24 < jcode_bits j' \<or> nomore j'))"
  proof (rule sat_loop [where I = "\<lambda>j'. feeds j' bs \<and> frame j j' \<and> jcode_bits j' \<le> 24" and measure_of = "\<lambda>j. nat (24 - jcode_bits j)"])
    show "feeds j bs \<and> frame j j \<and> jcode_bits j \<le> 24" using f True n by simp
    fix k assume k: "feeds k bs \<and> frame j k \<and> jcode_bits k \<le> 24"
    then obtain bb B where w: "buffer_ok k bb" "source_ok k B" "prefix bs (bb @ stream_bits B)" by (auto simp: feeds_def)
    then have "length bb \<le> 24" using k by (simp add: buffer_ok_def)
    from grow_step_ok [OF w(1) this w(2,3)]
    show "sat (grow_step k) (\<lambda>r. case r of Inl j' \<Rightarrow> feeds j' bs \<and> frame j j' \<and> (24 < jcode_bits j' \<or> nomore j')
        | Inr j' \<Rightarrow> (feeds j' bs \<and> frame j j' \<and> jcode_bits j' \<le> 24) \<and> nat (24 - jcode_bits j') < nat (24 - jcode_bits k))"
      by (rule sat_mono) (use k in \<open>auto split: sum.splits intro: frame_trans\<close>)
  qed
  then have "sat (grow_below (int n) j) (\<lambda>j'. feeds j' bs \<and> frame j j' \<and> (24 < jcode_bits j' \<or> nomore j'))"
    using True by (simp add: grow_below_def stbi_grow_buffer_unsafe_def)
  then show ?thesis by (rule sat_mono) (use n in \<open>auto intro!: feeds_shows\<close>)
qed

lemma shows_top:
  assumes s: "shows_bits n j (cs @ bs)" and c: "length cs \<le> n" "length cs \<le> 32"
  shows "unat (jcode_buffer j) div 2 ^ (32 - length cs) = value_of cs" "int (length cs) \<le> jcode_bits j"
    "feeds (j\<lparr>jcode_buffer := push_bit (length cs) (jcode_buffer j), jcode_bits := jcode_bits j - int (length cs)\<rparr>) bs"
proof -
  obtain bb B where w: "buffer_ok j bb" "source_ok j B" "prefix (cs @ bs) (bb @ stream_bits B)" "prefix (take n (cs @ bs)) bb"
    using s by (auto simp: shows_bits_def)
  then obtain rr where bb: "bb = cs @ rr" using c(1) by (auto simp: prefix_def)
  show "unat (jcode_buffer j) div 2 ^ (32 - length cs) = value_of cs"
    using holds_bits_top [of 32 "jcode_buffer j" bb "length cs"] w(1) c(2) by (simp add: bb buffer_ok_def)
  show "int (length cs) \<le> jcode_bits j" using w(1) by (simp add: bb buffer_ok_def)
  have "prefix bs (rr @ stream_bits B)" using w(3) by (simp add: bb)
  moreover have "buffer_ok (j\<lparr>jcode_buffer := push_bit (length cs) (jcode_buffer j), jcode_bits := jcode_bits j - int (length cs)\<rparr>) rr"
    using w(1) holds_bits_shift [of "jcode_buffer j" cs rr] by (simp add: bb buffer_ok_def)
  moreover have "source_ok (j\<lparr>jcode_buffer := push_bit (length cs) (jcode_buffer j), jcode_bits := jcode_bits j - int (length cs)\<rparr>) B"
    using w(2) by (auto simp: source_ok_def split: if_splits)
  ultimately show "feeds (j\<lparr>jcode_buffer := push_bit (length cs) (jcode_buffer j), jcode_bits := jcode_bits j - int (length cs)\<rparr>) bs"
    unfolding feeds_def by blast
qed

subsection \<open>Symbols and values\<close>

lemma starts_top:
  assumes "1 \<le> L ! i" "L ! i \<le> 16" "i < length L" and "unat b div 2 ^ (32 - L ! i) = code_of L i"
  shows "starts L i (bits16 b)"
  using assms top_bits(1) [of "L ! i" b] unat_drop_bit [of "32 - L ! i" b] by (simp add: starts_def)

lemma decode_feeds:
  assumes t: "jtables_for (lengths_of count) h" and len: "length (lengths_of count) \<le> 255" and i: "i < length (lengths_of count)"
    and f: "feeds j (bits_of (lengths_of count ! i) (code_of (lengths_of count) i) @ bs)"
  shows "sat (stbi_jpeg_huff_decode j h) (\<lambda>(v, j'). v = uint (jh_values h ! i) \<and> feeds j' bs \<and> frame j j')"
proof -
  let ?L = "lengths_of count" let ?l = "lengths_of count ! i"
  have ok: "code_upto 16 ?L" using t by (simp add: jtables_for_def)
  have l: "1 \<le> ?l" "?l \<le> 16" using at_length [OF i] .
  have c: "code_of ?L i < 2 ^ ?l" using code_of_less [OF ok i] l by simp
  obtain j1 where j1: "grow_below 16 j = Some j1" "shows_bits 16 j1 (bits_of ?l (code_of ?L i) @ bs)" "frame j j1"
    using grow_below_ok [OF f, of 16] by (auto elim: satE)
  have top: "unat (jcode_buffer j1) div 2 ^ (32 - ?l) = code_of ?L i" "int ?l \<le> jcode_bits j1"
    "feeds (j1\<lparr>jcode_buffer := push_bit ?l (jcode_buffer j1), jcode_bits := jcode_bits j1 - int ?l\<rparr>) bs"
    using shows_top [OF j1(2)] l c by (simp_all add: value_of_bits_of)
  have "next_symbol ?L (bits16 (jcode_buffer j1)) = Some i"
    using next_symbol_Some [OF ok] starts_top [OF l i top(1)] by simp
  then have "jpeg_symbol ?L (jh_values h) j1 = (uint (jh_values h ! i),
      j1\<lparr>jcode_buffer := push_bit ?l (jcode_buffer j1), jcode_bits := jcode_bits j1 - int ?l\<rparr>)"
    using top(2) by (simp add: jpeg_symbol_def)
  then show ?thesis using huff_decode_eq [OF t len j1(1)] top(3) j1(3) by simp
qed

lemma take_bits_eq:
  assumes n: "1 \<le> n" "n \<le> 16"
  shows "take_bits j (int n) = Some (drop_bit (32 - n) (jcode_buffer j),
    j\<lparr>jcode_buffer := push_bit n (jcode_buffer j), jcode_bits := jcode_bits j - int n\<rparr>)"
proof -
  let ?b = "jcode_buffer j"
  have "- int n AND 31 = (- int n) mod 32" using take_bit_eq_mask [of 5 "- int n"] by (simp add: take_bit_eq_mod mask_eq_exp_minus_1)
  also have "\<dots> = 32 - int n" using n by (simp add: zmod_zminus1_eq_if)
  finally have r: "- int n AND 31 = int (32 - n)" using n by simp
  have rot: "stbi_lrot ?b (int n) = Some (push_bit n ?b OR drop_bit (32 - n) ?b)"
    using n r by (simp add: stbi_lrot_def shl32_def shr32_def nat_diff_distrib')
  have m: "iget stbi_bmask (int n) = Some (mask n)" using bmask_at [OF n(2)] by (simp add: iget_Some_iff aget_Some_iff)
  have up: "push_bit n ?b AND mask n = 0" "push_bit n ?b AND NOT (mask n) = push_bit n ?b"
    by (rule bit_eqI; auto simp: bit_and_iff bit_push_bit_iff bit_mask_iff bit_not_iff)+
  have dn: "drop_bit (32 - n) ?b AND mask n = drop_bit (32 - n) ?b" using mask_top [OF n] .
  have "drop_bit (32 - n) ?b AND NOT (mask n) = (drop_bit (32 - n) ?b AND mask n) AND NOT (mask n)" by (simp only: dn)
  then have dn0: "drop_bit (32 - n) ?b AND NOT (mask n) = 0" by (simp add: and.assoc)
  have lo: "(push_bit n ?b OR drop_bit (32 - n) ?b) AND mask n = drop_bit (32 - n) ?b"
    and hi: "(push_bit n ?b OR drop_bit (32 - n) ?b) AND NOT (mask n) = push_bit n ?b"
    by (simp_all only: bit.conj_disj_distrib2 up dn dn0 or.left_neutral or.right_neutral)
  show ?thesis by (simp add: take_bits_def rot m lo hi)
qed

text \<open>The value of \<open>n\<close> magnitude bits.\<close>

definition extended :: "nat \<Rightarrow> nat \<Rightarrow> int" where
  "extended n v = (if 2 ^ (n - 1) \<le> v then int v else int v - 2 ^ n + 1)"

lemma jbias_at: "n \<le> 15 \<Longrightarrow> iget stbi_jbias (int n) = Some (1 - 2 ^ n)"
proof -
  assume "n \<le> 15"
  then have "n \<in> set [0..<16]" by simp
  moreover have "\<forall>n \<in> set [0..<16]. iget stbi_jbias (int n) = Some (1 - 2 ^ n)" by code_simp
  ultimately show ?thesis by blast
qed

lemma receive_feeds:
  assumes n: "1 \<le> n" "n \<le> 15" and v: "v < 2 ^ n" and f: "feeds j (bits_of n v @ bs)"
  shows "sat (stbi_extend_receive j (int n)) (\<lambda>(x, j'). x = extended n v \<and> feeds j' bs \<and> frame j j')"
proof -
  obtain j1 where j1: "grow_below (int n) j = Some j1" "shows_bits n j1 (bits_of n v @ bs)" "frame j j1"
    using grow_below_ok [OF f, of n] n by (auto elim: satE)
  let ?b = "jcode_buffer j1"
  have top: "unat ?b div 2 ^ (32 - n) = v" "int n \<le> jcode_bits j1"
    "feeds (j1\<lparr>jcode_buffer := push_bit n ?b, jcode_bits := jcode_bits j1 - int n\<rparr>) bs"
    using shows_top [OF j1(2)] n v by (simp_all add: value_of_bits_of)
  have u: "unat (drop_bit (32 - n) ?b) = v" using top(1) by (simp add: unat_drop_bit)
  have "unat (drop_bit 31 ?b) = unat ?b div 2 ^ (32 - n) div 2 ^ (n - 1)"
    using n by (simp add: unat_drop_bit flip: div_mult2_eq power_add)
  then have s: "uint (drop_bit 31 ?b) = int (v div 2 ^ (n - 1))" by (metis top(1) uint_nat)
  have sgn: "uint (drop_bit 31 ?b) = (if 2 ^ (n - 1) \<le> v then 1 else 0)"
  proof (cases "2 ^ (n - 1) \<le> v")
    case True
    have "v < 2 ^ (n - 1) * 2" using v n power_Suc [of "2 :: nat" "n - 1"] by simp
    then have "v div 2 ^ (n - 1) = 1" using True by (intro div_nat_eqI) auto
    then show ?thesis using s True by simp
  qed (use s in simp)
  have w: "drop_bit (32 - n) ?b = word_of_int (int v)" by (simp flip: u)
  have "(2 :: int) ^ n \<le> 2 ^ 15" using n by (intro power_increasing) auto
  then have "(2 :: int) ^ n \<le> 32768" "0 < (2 :: int) ^ n" by simp_all
  moreover have vi: "int v < 2 ^ n" using v by (simp flip: of_nat_less_iff)
  ultimately have r: "- 2147483648 \<le> extended n v" "extended n v < 2147483648"
    unfolding extended_def by (cases "2 ^ (n - 1) \<le> v"; simp only: if_True if_False; linarith)+
  have "drop_bit (32 - n) ?b + word_of_int ((1 - 2 ^ n) AND (uint (drop_bit 31 ?b) - 1)) = word_of_int (extended n v)"
    unfolding sgn w by (simp add: extended_def)
  then have x: "sint (drop_bit (32 - n) ?b + word_of_int ((1 - 2 ^ n) AND (uint (drop_bit 31 ?b) - 1))) = extended n v"
    using sint_word_small [OF r] by simp
  show ?thesis using j1(1,3) top(2,3) take_bits_eq [of n j1] jbias_at [OF n(2)] x n
    by (simp add: stbi_extend_receive_def)
qed

end
