(* ===== verification/Jpeg_Units.thy ===== *)
theory Jpeg_Units
  imports Jpeg_Stream
begin

text \<open>
  One step of the block decoder on a stream that starts with a symbol and its magnitude bits. The table for short AC codes gives
  the same result as decoding the symbol and receiving the value.
\<close>

subsection \<open>The table for short AC codes\<close>

lemma build_fast_ac_ok:
  assumes "length fa = 512" and "\<And>i. i < 512 \<Longrightarrow> fast_ac_entry h i \<noteq> None"
  shows "sat (stbi_build_fast_ac fa h) (\<lambda>tab. length tab = 512 \<and> (\<forall>i < 512. fast_ac_entry h i = Some (tab ! i)))"
  unfolding stbi_build_fast_ac_def FAST_BITS_def
proof (rule sat_mono, rule sat_for_upto [where P = "\<lambda>n tab. length tab = 512 \<and> (\<forall>i < n. fast_ac_entry h i = Some (tab ! i))"], goal_cases)
  case (3 i tab)
  then obtain e where "fast_ac_entry h i = Some e" using assms(2) [of i] by auto
  then show ?case using 3 by (auto simp: nth_list_update less_Suc_eq)
qed (use assms(1) in auto)

lemma split_index:
  fixes c x v :: nat
  assumes "l + m \<le> (9 :: nat)" and c: "c div 2 ^ (9 - (l + m)) = x * 2 ^ m + v" and v: "v < 2 ^ m" and less: "c < 512"
  shows "(c * 2 ^ l) mod 512 div 2 ^ (9 - m) = v" "c div 2 ^ (9 - l) = x"
proof -
  let ?q = "2 ^ (9 - (l + m)) :: nat"
  define rho where "rho = c mod ?q"
  have cc: "c = (x * 2 ^ m + v) * ?q + rho" using div_mult_mod_eq [of c ?q] c by (simp add: rho_def)
  have rho: "rho < ?q" by (simp add: rho_def)
  have p: "?q * 2 ^ m * 2 ^ l = 512" "(2 :: nat) ^ (9 - m) = ?q * 2 ^ l" "(2 :: nat) ^ (9 - l) = ?q * 2 ^ m"
    using assms(1) by (simp_all flip: power_add)
  have vr: "v * ?q + rho < 2 ^ m * ?q"
  proof -
    have "Suc v * ?q \<le> 2 ^ m * ?q" using v by (intro mult_le_mono1) simp
    then show ?thesis using rho by simp
  qed
  have "c * 2 ^ l = x * (?q * 2 ^ m * 2 ^ l) + (v * ?q + rho) * 2 ^ l" by (simp add: cc algebra_simps)
  also have "\<dots> mod 512 = (v * ?q + rho) * 2 ^ l"
  proof -
    have "(v * ?q + rho) * 2 ^ l < 2 ^ m * ?q * 2 ^ l" using vr by simp
    also have "\<dots> = 512" using p(1) by (simp add: ac_simps)
    finally show ?thesis unfolding p(1) by simp
  qed
  finally have "(c * 2 ^ l) mod 512 = (v * ?q + rho) * 2 ^ l" .
  then show "(c * 2 ^ l) mod 512 div 2 ^ (9 - m) = v" unfolding p(2) using rho by simp
  have "c div 2 ^ (9 - l) = c div ?q div 2 ^ m" unfolding p(3) by (rule div_mult2_eq)
  then show "c div 2 ^ (9 - l) = x" using c v by simp
qed

lemma extend_word:
  assumes "1 \<le> m" "m \<le> 9" "k < 2 ^ m"
  shows "(if int k < 2 ^ (m - 1) then sint (word_of_int (int k) + (push_bit m (- 1) + 1) :: u32) else int k) = extended m k"
proof (cases "k < 2 ^ (m - 1)")
  case True
  have "(2 :: int) ^ m \<le> 2 ^ 9" using assms(2) by (intro power_increasing) auto
  then have "(2 :: int) ^ m \<le> 512" by simp
  moreover have "int k < 2 ^ m" using assms(3) by (simp flip: of_nat_less_iff)
  ultimately have "sint (word_of_int (int k - 2 ^ m + 1) :: u32) = int k - 2 ^ m + 1" by (intro sint_word_small) linarith+
  moreover have "word_of_int (int k) + (push_bit m (- 1) + 1) = (word_of_int (int k - 2 ^ m + 1) :: u32)"
    by (simp add: push_bit_eq_mult)
  ultimately have "sint (word_of_int (int k) + (push_bit m (- 1) + 1) :: u32) = int k - 2 ^ m + 1" by (simp only:)
  moreover have "int k < 2 ^ (m - 1)" using True by (simp flip: of_nat_less_iff)
  moreover have "extended m k = int k - 2 ^ m + 1" using True by (simp add: extended_def)
  ultimately show ?thesis by (simp only: if_True)
qed (simp add: extended_def flip: of_nat_less_iff)

lemma fast_ac_entry_ok:
  assumes t: "jtables_for (lengths_of count) h" and len: "length (lengths_of count) \<le> 255" and c: "c < 512"
  shows "\<exists>e. fast_ac_entry h c = Some e \<and> (e \<noteq> 0 \<longrightarrow> (\<exists>i m. i < length (lengths_of count) \<and> short_hit (lengths_of count) i c \<and>
    m = unat (jh_values h ! i) mod 16 \<and> m \<noteq> 0 \<and> lengths_of count ! i + m \<le> 9 \<and>
    (let k = extended m ((c * 2 ^ (lengths_of count ! i)) mod 512 div 2 ^ (9 - m))
     in - 128 \<le> k \<and> k \<le> 127 \<and> e = k * 256 + int (unat (jh_values h ! i) div 16 * 16) + int (lengths_of count ! i + m))))"
proof -
  let ?L = "lengths_of count"
  have sh: "jshape h" and sz: "sizes_for ?L (jh_size h)" and fast: "short_table ?L (length ?L) (jh_fast h)" using t by (auto simp: jtables_for_def)
  have f: "aget (jh_fast h) c = Some (jh_fast h ! c)" using sh c by (simp add: jshape_def)
  show ?thesis
  proof (cases "\<exists>i < length ?L. short_hit ?L i c")
    case False
    then have "jh_fast h ! c = 255" using fast c by (auto simp: short_table_def)
    then show ?thesis using f by (simp add: fast_ac_entry_def)
  next
    case True
    then obtain i where i: "i < length ?L" "short_hit ?L i c" by blast
    then have fi: "jh_fast h ! c = i" "i < 255" using fast c len by (auto simp: short_table_def)
    let ?rs = "unat (jh_values h ! i)" let ?m = "unat (jh_values h ! i) mod 16" and ?l = "?L ! i"
    have g: "aget (jh_values h) i = Some (jh_values h ! i)" "aget (jh_size h) i = Some ?l"
      using sh fi(2) sizes_for_nth [OF sz i(1)] by (auto simp: jshape_def)
    have run: "?rs div 16 mod 16 = ?rs div 16" using unat_u8_less [of "jh_values h ! i"] by simp
    let ?k = "(c * 2 ^ ?l) mod 512 div 2 ^ (9 - ?m)"
    have k: "?k < 2 ^ ?m" if "?m \<le> 9"
    proof -
      have "(c * 2 ^ ?l) mod 512 < 2 ^ ?m * 2 ^ (9 - ?m)" using that by (simp flip: power_add)
      then show ?thesis by (simp add: less_mult_imp_div_less)
    qed
    show ?thesis
    proof (cases "?m \<noteq> 0 \<and> ?l + ?m \<le> 9")
      case False
      then show ?thesis using f fi g by (auto simp: fast_ac_entry_def FAST_BITS_def)
    next
      case m: True
      then have ex: "(if int ?k < 2 ^ (?m - 1) then sint (word_of_int (int ?k) + (push_bit ?m (- 1) + 1) :: u32) else int ?k) = extended ?m ?k"
        using k by (intro extend_word) auto
      have e: "fast_ac_entry h c = Some (if extended ?m ?k \<ge> - 128 \<and> extended ?m ?k \<le> 127
          then extended ?m ?k * 256 + int (?rs div 16 * 16) + int (?l + ?m) else 0)"
        using f fi g m run ex by (simp add: fast_ac_entry_def FAST_BITS_def Let_def)
      show ?thesis
      proof (cases "extended ?m ?k \<ge> - 128 \<and> extended ?m ?k \<le> 127")
        case True
        then have "fast_ac_entry h c = Some (extended ?m ?k * 256 + int (?rs div 16 * 16) + int (?l + ?m))" using e by (simp only: if_True simp_thms)
        then show ?thesis using i m True unfolding Let_def by blast
      next
        case False
        then have "fast_ac_entry h c = Some 0" using e by (simp only: if_False simp_thms)
        then show ?thesis by blast
      qed
    qed
  qed
qed

definition fac_for :: "jhuffman \<Rightarrow> int list \<Rightarrow> bool" where
  "fac_for h fac \<longleftrightarrow> length fac = 512 \<and> (\<forall>i < 512. fast_ac_entry h i = Some (fac ! i))"

definition sym_bits :: "nat list \<Rightarrow> nat \<Rightarrow> bits" where
  "sym_bits L i = bits_of (L ! i) (code_of L i)"

lemma shows_feeds: "shows_bits n j bs \<Longrightarrow> feeds j bs"
  by (auto simp: shows_bits_def feeds_def)

lemma packed_entry:
  fixes e R S :: int
  assumes "0 \<le> S" "S < 16" "0 \<le> R" "R < 16"
  shows "(e * 256 + R * 16 + S) AND 15 = S" "drop_bit 4 (e * 256 + R * 16 + S) AND 15 = R" "drop_bit 8 (e * 256 + R * 16 + S) = e"
proof -
  have and15: "x AND 15 = x mod 16" for x :: int using take_bit_eq_mask [of 4 x] by (simp add: take_bit_eq_mod mask_eq_exp_minus_1)
  have eq: "e * 256 + R * 16 + S = S + 16 * (e * 16 + R)" by simp
  have d: "(e * 256 + R * 16 + S) mod 16 = S" "(e * 256 + R * 16 + S) div 16 = e * 16 + R"
    unfolding eq mod_mult_self2 using assms div_mult_self2 [of 16 S "e * 16 + R"] by (simp_all only: mod_pos_pos_trivial div_pos_pos_trivial)
  then show "(e * 256 + R * 16 + S) AND 15 = S" "drop_bit 4 (e * 256 + R * 16 + S) AND 15 = R"
    using assms by (simp_all add: and15 drop_bit_eq_div)
  have "(e * 256 + R * 16 + S) div 256 = (e * 256 + R * 16 + S) div 16 div 16" using zdiv_zmult2_eq [of 16 "e * 256 + R * 16 + S" 16] by simp
  then show "drop_bit 8 (e * 256 + R * 16 + S) = e" unfolding d(2) using assms by (simp add: drop_bit_eq_div)
qed

lemma fast_lookup_ok:
  assumes t: "jtables_for (lengths_of count) h" and len: "length (lengths_of count) \<le> 255" and fac: "fac_for h fac"
    and i: "i < length (lengths_of count)" and m: "m = unat (jh_values h ! i) mod 16" and v: "v < 2 ^ m"
    and s: "shows_bits 16 j (sym_bits (lengths_of count) i @ bits_of m v @ bs)"
  shows "\<exists>r. fast_ac_lookup fac j = Some r \<and> (r \<noteq> 0 \<longrightarrow> m \<noteq> 0 \<and> lengths_of count ! i + m \<le> 9 \<and>
    r = extended m v * 256 + int (unat (jh_values h ! i) div 16) * 16 + int (lengths_of count ! i + m))"
proof -
  let ?L = "lengths_of count" let ?l = "lengths_of count ! i" let ?b = "jcode_buffer j" let ?c = "bits16 (jcode_buffer j) div 128"
  have ok: "code_upto 16 ?L" using t by (simp add: jtables_for_def)
  have l: "1 \<le> ?l" "?l \<le> 16" using at_length [OF i] .
  have code: "code_of ?L i < 2 ^ ?l" using code_of_less [OF ok i] l by simp
  have c: "?c < 512" using bits16_less [of ?b] by simp
  have look: "fast_ac_lookup fac j = Some (fac ! ?c)" using fac c by (simp add: fast_ac_lookup_def fast_index fac_for_def)
  have "unat ?b div 2 ^ (32 - ?l) = code_of ?L i"
    using shows_top(1) [OF s] l code by (simp add: sym_bits_def value_of_bits_of)
  then have st: "starts ?L i (bits16 ?b)" using starts_top l i by simp
  show ?thesis
  proof (cases "fac ! ?c = 0")
    case False
    obtain e where "fast_ac_entry h ?c = Some e" and e: "e \<noteq> 0 \<longrightarrow> (\<exists>i m. i < length ?L \<and> short_hit ?L i ?c \<and>
        m = unat (jh_values h ! i) mod 16 \<and> m \<noteq> 0 \<and> ?L ! i + m \<le> 9 \<and>
        (let k = extended m ((?c * 2 ^ (?L ! i)) mod 512 div 2 ^ (9 - m))
         in - 128 \<le> k \<and> k \<le> 127 \<and> e = k * 256 + int (unat (jh_values h ! i) div 16 * 16) + int (?L ! i + m)))"
      using fast_ac_entry_ok [OF t len c] by blast
    then have "e = fac ! ?c" using fac c by (simp add: fac_for_def)
    then obtain i' where i': "i' < length ?L" "short_hit ?L i' ?c" and r: "unat (jh_values h ! i') mod 16 \<noteq> 0" "?L ! i' + unat (jh_values h ! i') mod 16 \<le> 9"
      "fac ! ?c = extended (unat (jh_values h ! i') mod 16) ((?c * 2 ^ (?L ! i')) mod 512 div 2 ^ (9 - unat (jh_values h ! i') mod 16)) * 256 +
         int (unat (jh_values h ! i') div 16 * 16) + int (?L ! i' + unat (jh_values h ! i') mod 16)"
      using e False by (auto simp: Let_def)
    have "starts ?L i' (bits16 ?b)" using short_hit_starts [OF i'(1)] i'(2) by simp
    then have ii: "i' = i" using starts_unique [OF ok _ st] by blast
    have lm: "?l + m \<le> 9" using r(2) ii m by simp
    have "unat ?b div 2 ^ (32 - (?l + m)) = code_of ?L i * 2 ^ m + v"
      using shows_top(1) [of 16 j "sym_bits ?L i @ bits_of m v" bs] s lm code v by (simp add: sym_bits_def value_of_append value_of_bits_of)
    moreover have "unat ?b div 2 ^ (32 - (?l + m)) = ?c div 2 ^ (9 - (?l + m))"
    proof -
      have "(2 :: nat) ^ (32 - (?l + m)) = 65536 * (128 * 2 ^ (9 - (?l + m)))"
        using lm power_add [of "2 :: nat" 23 "9 - (?l + m)"] by simp
      then show ?thesis using div_mult2_eq [of "unat ?b" 65536 128] by (simp add: bits16_def div_mult2_eq)
    qed
    ultimately have "?c div 2 ^ (9 - (?l + m)) = code_of ?L i * 2 ^ m + v" by simp
    then have "(?c * 2 ^ ?l) mod 512 div 2 ^ (9 - m) = v" by (rule split_index(1) [OF lm _ v c])
    then have "fac ! ?c = extended m v * 256 + int (unat (jh_values h ! i) div 16) * 16 + int (?l + m)"
      using r(3) unfolding ii m [symmetric] by (simp only: of_nat_mult of_nat_numeral)
    moreover have "m \<noteq> 0" using r(1) ii m by simp
    ultimately show ?thesis using look lm by (intro exI [of _ "fac ! ?c"]) simp
  qed (use look in simp)
qed

subsection \<open>The steps of a block\<close>

lemma dezigzag_less: "k < 79 \<Longrightarrow> stbi_jpeg_dezigzag ! k < 64"
proof -
  assume "k < 79"
  moreover have "\<forall>k \<in> set [0..<79]. stbi_jpeg_dezigzag ! k < 64" by code_simp
  ultimately show ?thesis by simp
qed

lemma length_dezigzag: "length stbi_jpeg_dezigzag = 79"
  by (simp add: stbi_jpeg_dezigzag_def)

lemma put_coeff_ok:
  assumes "k < 79" "length data = 64" "value (stbi_jpeg_dezigzag ! k) = Some x"
  shows "put_coeff data (int k) value = Some (data[stbi_jpeg_dezigzag ! k := Some (to_short x)])"
  using assms dezigzag_less [OF assms(1)] by (simp add: put_coeff_def length_dezigzag)

definition again :: "'u block_state \<Rightarrow> (('u jpeg \<times> int option list) + 'u block_state) res" where
  "again st = (case st of (j, data, k) \<Rightarrow> ret (if k < 64 then Inr (j, data, k) else Inl (j, data)))"

lemma rs_parts:
  assumes "rs = uint (x :: byte)"
  shows "rs AND 15 = int (unat x mod 16)" "drop_bit 4 rs = int (unat x div 16)"
proof -
  have rs: "rs = int (unat x)" using assms by simp
  show "rs AND 15 = int (unat x mod 16)"
    unfolding rs using take_bit_eq_mask [of 4 "int (unat x)"] by (simp add: take_bit_eq_mod mask_eq_exp_minus_1 zmod_int)
  show "drop_bit 4 rs = int (unat x div 16)" unfolding rs by (simp add: drop_bit_eq_div zdiv_int)
qed

lemma ac_step_value:
  assumes t: "jtables_for (lengths_of count) h" and len: "length (lengths_of count) \<le> 255" and fac: "fac_for h fac"
    and i: "i < length (lengths_of count)" and m: "m = unat (jh_values h ! i) mod 16" "m \<noteq> 0" and R: "R = unat (jh_values h ! i) div 16"
    and v: "v < 2 ^ m" and f: "feeds j (sym_bits (lengths_of count) i @ bits_of m v @ bs)"
    and k: "k + R < 64" and d: "length data = 64" "length dequant = 64"
    and x: "x = extended m v * dequant ! (stbi_jpeg_dezigzag ! (k + R))" "i32 x = Some x"
  shows "\<exists>j'. ac_step h fac dequant (j, data, int k) =
      again (j', data[stbi_jpeg_dezigzag ! (k + R) := Some (to_short x)], int (k + R + 1)) \<and> feeds j' bs \<and> frame j j'"
proof -
  let ?L = "lengths_of count" let ?l = "lengths_of count ! i" let ?zz = "stbi_jpeg_dezigzag ! (k + R)"
  have l: "1 \<le> ?l" "?l \<le> 16" using at_length [OF i] .
  have zz: "?zz < 64" using dezigzag_less k by simp
  obtain j1 where j1: "grow_below 16 j = Some j1" "shows_bits 16 j1 (sym_bits ?L i @ bits_of m v @ bs)" "frame j j1"
    using grow_below_ok [OF f, of 16] by (auto elim: satE)
  obtain r where r: "fast_ac_lookup fac j1 = Some r" "r \<noteq> 0 \<Longrightarrow> ?l + m \<le> 9"
    "r \<noteq> 0 \<Longrightarrow> r = extended m v * 256 + int R * 16 + int (?l + m)"
    using fast_lookup_ok [OF t len fac i m(1) v j1(2)] R by auto
  have R16: "int R < 16" using R unat_u8_less [of "jh_values h ! i"] by simp
  show ?thesis
  proof (cases "r = 0")
    case False
    note parts = packed_entry [of "int (?l + m)" "int R" "extended m v", folded r(3) [OF False]]
    have p: "r AND 15 = int (?l + m)" "drop_bit 4 r AND 15 = int R" "drop_bit 8 r = extended m v"
      using parts R16 r(2) [OF False] by simp_all
    let ?j = "j1\<lparr>jcode_buffer := push_bit (?l + m) (jcode_buffer j1), jcode_bits := jcode_bits j1 - int (?l + m)\<rparr>"
    have top: "int (?l + m) \<le> jcode_bits j1" "feeds ?j bs"
      using shows_top(2,3) [of 16 j1 "sym_bits ?L i @ bits_of m v" bs] j1(2) r(2) [OF False] by (simp_all add: sym_bits_def)
    have con: "fast_ac_consume r j1 = ret ?j"
      using top(1) r(2) [OF False] by (simp add: fast_ac_consume_def p(1) shl32_def Let_def nat_add_distrib)
    have put: "put_coeff data (int (k + R)) (\<lambda>zig. do { q \<leftarrow> aget dequant zig; i32 (drop_bit 8 r * q) }) = Some (data[?zz := Some (to_short x)])"
      using k d zz x by (intro put_coeff_ok) (simp_all add: p(3))
    have kk: "int k + (drop_bit 4 r AND 15) = int (k + R)" by (simp add: p(2))
    have "ac_step h fac dequant (j, data, int k) = again (?j, data[?zz := Some (to_short x)], int (k + R + 1))"
      unfolding ac_step_def prod.case Let_def j1(1) bind.bind_lunit r(1) if_P [OF False] con ebind_simps(4) kk put again_def by simp
    then show ?thesis using top(2) j1(3) by (intro exI [of _ ?j]) simp
  next
    case True
    have dec: "sat (stbi_jpeg_huff_decode j1 h) (\<lambda>(v', j'). v' = uint (jh_values h ! i) \<and> feeds j' (bits_of m v @ bs) \<and> frame j1 j')"
      using decode_feeds [OF t len i] shows_feeds [OF j1(2)] by (simp add: sym_bits_def)
    then obtain j2 where j2: "stbi_jpeg_huff_decode j1 h = Some (uint (jh_values h ! i), j2)" "feeds j2 (bits_of m v @ bs)" "frame j1 j2"
      by (auto elim!: satE)
    have m15: "1 \<le> m" "m \<le> 15" using m by auto
    obtain j3 where j3: "stbi_extend_receive j2 (int m) = Some (extended m v, j3)" "feeds j3 bs" "frame j2 j3"
      using receive_feeds [OF m15 v j2(2)] by (auto elim!: satE)
    note parts = rs_parts [OF refl, of "jh_values h ! i", folded m(1) R]
    have put: "put_coeff data (int (k + R)) (\<lambda>zig. do { q \<leftarrow> aget dequant zig; i32 (extended m v * q) }) = Some (data[?zz := Some (to_short x)])"
      using k d zz x by (intro put_coeff_ok) simp_all
    have kk: "int k + int R = int (k + R)" "\<not> uint (jh_values h ! i) < 0" "int m \<noteq> 0" using m(2) by simp_all
    have "ac_step h fac dequant (j, data, int k) = again (j3, data[?zz := Some (to_short x)], int (k + R + 1))"
      unfolding ac_step_def prod.case Let_def j1(1) bind.bind_lunit r(1) True j2(1) parts if_not_P [OF kk(2)] if_not_P [OF kk(3)] j3(1) kk(1) put again_def by simp
    then show ?thesis using j3(2) frame_trans [OF j1(3) frame_trans [OF j2(3) j3(3)]] by blast
  qed
qed

lemma ac_step_plain:
  assumes t: "jtables_for (lengths_of count) h" and len: "length (lengths_of count) \<le> 255" and fac: "fac_for h fac"
    and i: "i < length (lengths_of count)" and m: "unat (jh_values h ! i) mod 16 = 0"
    and f: "feeds j (sym_bits (lengths_of count) i @ bs)"
  shows "\<exists>j'. ac_step h fac dequant (j, data, k) = (if uint (jh_values h ! i) \<noteq> 0xf0 then ret (Inl (j', data)) else again (j', data, k + 16)) \<and>
    feeds j' bs \<and> frame j j'"
proof -
  let ?L = "lengths_of count"
  obtain j1 where j1: "grow_below 16 j = Some j1" "shows_bits 16 j1 (sym_bits ?L i @ bs)" "frame j j1"
    using grow_below_ok [OF f, of 16] by (auto elim: satE)
  have "shows_bits 16 j1 (sym_bits ?L i @ bits_of 0 0 @ bs)" using j1(2) by (simp add: bits_of_def)
  then have r: "fast_ac_lookup fac j1 = Some 0"
    using fast_lookup_ok [OF t len fac i m [symmetric], of 0 j1 bs] by auto
  obtain j2 where j2: "stbi_jpeg_huff_decode j1 h = Some (uint (jh_values h ! i), j2)" "feeds j2 bs" "frame j1 j2"
    using decode_feeds [OF t len i] shows_feeds [OF j1(2)] by (auto simp: sym_bits_def elim!: satE)
  have "uint (jh_values h ! i) AND 15 = 0" using rs_parts(1) [OF refl, of "jh_values h ! i"] m by simp
  moreover have "\<not> uint (jh_values h ! i) < 0" by simp
  ultimately have "ac_step h fac dequant (j, data, k) = (if uint (jh_values h ! i) \<noteq> 0xf0 then ret (Inl (j2, data)) else again (j2, data, k + 16))"
    using j1(1) r j2(1) by (simp add: ac_step_def again_def Let_def)
  then show ?thesis using j2(2) frame_trans [OF j1(3) j2(3)] by blast
qed

end
