(* ===== verification/Jpeg_Sink.thy ===== *)
theory Jpeg_Sink
  imports Jpeg_Write Bit_String "HOL-Library.Sublist"
begin

text \<open>
  The bit sink of the JPEG writer. What has been written is a string of bits: whole bytes, with a zero after every 255, and
  fewer than eight bits in the buffer. Writing appends.
\<close>

definition sink_ok :: "bytes \<Rightarrow> bits \<Rightarrow> bit_sink \<Rightarrow> bool" where
  "sink_ok out bs st \<longleftrightarrow> (case st of (s, bitBuf, bitCnt) \<Rightarrow>
     \<exists>B cs. w_out s = out @ stuff B \<and> bs = stream_bits B @ cs \<and> length cs = bitCnt \<and> holds_bits 24 (take_bit 24 bitBuf) cs)"

lemma w_out_putc [simp]: "w_out (stbiw_putc s c) = w_out s @ [c]"
  by (simp add: stbiw_putc_def w_func_def)

lemma byte_bits_value: "length cs = 8 \<Longrightarrow> value_of cs = unat b \<Longrightarrow> cs = byte_bits b"
  by (rule value_of_inj) (simp_all add: value_byte_bits)

lemma unat_take_24: "unat (take_bit 24 (x :: u32)) = unat x mod 2 ^ 24"
  unfolding unsigned_take_bit_eq by (simp add: take_bit_eq_mod)

lemma take_bits_shift:
  assumes h: "holds_bits 24 (take_bit 24 b) (cs @ bs)" and n: "length cs = n"
  shows "holds_bits 24 (take_bit 24 (push_bit n b)) bs"
proof -
  have le: "n + length bs \<le> 24" using h n by (simp add: holds_bits_def)
  have "unat (push_bit n b) mod 2 ^ 24 = unat b * 2 ^ n mod 2 ^ 32 mod 2 ^ 24"
    using unsigned_push_bit_eq [of n b, where ?'a = nat] n le by (simp only: take_bit_eq_mod push_bit_eq_mult) simp
  also have "\<dots> = unat b * 2 ^ n mod 2 ^ 24" by (rule mod_mod_cancel) (rule le_imp_power_dvd, simp)
  also have "\<dots> = (unat b mod 2 ^ 24) * 2 ^ n mod 2 ^ 24" by (rule mod_mult_left_eq [symmetric])
  finally show ?thesis using le holds_bits_rest [OF h n] by (simp add: holds_bits_def unat_take_24)
qed

text \<open>One byte moves from the buffer to the output.\<close>

lemma bits_step_ok:
  assumes st: "sink_ok out bs (s, buf', n)" and n: "8 \<le> n"
  shows "\<exists>s'. bits_step (s, buf', n) = Some (Inr (s', push_bit 8 buf', n - 8)) \<and> sink_ok out bs (s', push_bit 8 buf', n - 8)"
proof -
  obtain B cs where w: "w_out s = out @ stuff B" "bs = stream_bits B @ cs" "length cs = n" "holds_bits 24 (take_bit 24 buf') cs"
    using st by (auto simp: sink_ok_def)
  let ?c = "ucast (drop_bit 16 buf' AND 255) :: byte"
  let ?s = "if ?c = 255 then stbiw_putc (stbiw_putc s ?c) 0 else stbiw_putc s ?c"
  have "unat ?c = unat (take_bit 24 buf') div 2 ^ 16"
  proof -
    have "drop_bit 16 buf' AND mask 8 = drop_bit 16 (take_bit 24 buf')" by (rule bit_eqI) (auto simp: bit_simps)
    moreover have "(255 :: u32) = mask 8" by (simp add: mask_eq_exp_minus_1)
    moreover have "unat (take_bit 24 buf') div 2 ^ 16 < 2 ^ 8" by (simp add: unat_take_24 less_mult_imp_div_less)
    ultimately show ?thesis by (simp add: unat_drop_bit unsigned_ucast_eq take_bit_eq_mod)
  qed
  then have c: "take 8 cs = byte_bits ?c"
    using holds_bits_top [OF w(4), of 8] w(3) n by (intro byte_bits_value) simp_all
  have "holds_bits 24 (take_bit 24 (push_bit 8 buf')) (drop 8 cs)" using take_bits_shift [of buf' "take 8 cs" "drop 8 cs" 8] w(3,4) n by simp
  then have "sink_ok out bs (?s, push_bit 8 buf', n - 8)"
    unfolding sink_ok_def prod.case
    using w c n by (intro exI [of _ "B @ [?c]"] exI [of _ "drop 8 cs"]) (simp, metis append_take_drop_id)
  then show ?thesis using n by (intro exI [of _ ?s]) (simp add: bits_step_def Let_def)
qed

text \<open>The string that a table entry stands for.\<close>

abbreviation emitted :: "nat \<times> nat \<Rightarrow> bits" where
  "emitted e \<equiv> bits_of (snd e) (fst e)"

lemma writeBits_ok:
  assumes st: "sink_ok out bs st" and cnt: "snd (snd st) < 8" and v: "fst e < 2 ^ snd e" "snd e \<le> 16"
  shows "sat (stbiw_jpg_writeBits st e) (\<lambda>st'. sink_ok out (bs @ emitted e) st' \<and> snd (snd st') < 8)"
proof -
  obtain s b n where [simp]: "st = (s, b, n)" by (cases st) auto
  obtain B cs where w: "w_out s = out @ stuff B" "bs = stream_bits B @ cs" "length cs = n" "holds_bits 24 (take_bit 24 b) cs"
    using st by (auto simp: sink_ok_def)
  have n: "n + snd e \<le> 24" "n < 8" using cnt v by simp_all
  let ?m = "24 - (n + snd e)" let ?v = "push_bit ?m (word_of_nat (fst e)) :: u32"
  have "holds_bits 24 (take_bit 24 b OR ?v) (cs @ emitted e)"
    using holds_bits_append [OF w(4), of "emitted e"] w(3) n v by (simp add: value_of_bits_of)
  moreover have "take_bit 24 (b OR ?v) = take_bit 24 b OR ?v"
  proof -
    have "fst e * 2 ^ ?m < 2 ^ snd e * 2 ^ ?m" using v by simp
    also have "\<dots> \<le> 2 ^ 24" unfolding power_add [symmetric] using n by (intro power_increasing) auto
    finally have l: "fst e * 2 ^ ?m < 2 ^ 24" .
    have "?v = word_of_nat (fst e * 2 ^ ?m)" by (simp add: push_bit_eq_mult)
    then have "unat ?v < 2 ^ 24" using l unat_u32_of_nat [of "fst e * 2 ^ ?m"] by simp
    then have "take_bit 24 ?v = ?v" by (intro word_unat_eq_iff [THEN iffD2]) (simp add: unat_take_24)
    then show ?thesis by (simp add: take_bit_or)
  qed
  ultimately have start: "sink_ok out (bs @ emitted e) (s, b OR ?v, n + snd e)"
    unfolding sink_ok_def prod.case using w by (intro exI [of _ B] exI [of _ "cs @ emitted e"]) simp
  have "sat (loop bits_step (s, b OR ?v, n + snd e)) (\<lambda>st'. sink_ok out (bs @ emitted e) st' \<and> snd (snd st') < 8)"
  proof (rule sat_loop [where I = "sink_ok out (bs @ emitted e)" and measure_of = "snd o snd"])
    fix t :: bit_sink assume t: "sink_ok out (bs @ emitted e) t"
    obtain s1 b1 n1 where [simp]: "t = (s1, b1, n1)" by (cases t) auto
    show "sat (bits_step t) (\<lambda>r. case r of Inl x \<Rightarrow> sink_ok out (bs @ emitted e) x \<and> snd (snd x) < 8
        | Inr t' \<Rightarrow> sink_ok out (bs @ emitted e) t' \<and> (snd o snd) t' < (snd o snd) t)"
    proof (cases "8 \<le> n1")
      case True
      then show ?thesis using bits_step_ok [of out "bs @ emitted e" s1 b1 n1] t by auto
    qed (use t in \<open>simp add: bits_step_def\<close>)
  qed (rule start)
  moreover have "shl32 (word_of_nat (fst e)) (24 - int (n + snd e)) = Some ?v"
    using n by (simp add: shl32_def nat_diff_distrib' nat_add_distrib)
  ultimately show ?thesis by (simp add: stbiw_jpg_writeBits_def)
qed

text \<open>Between two calls the buffer holds fewer than eight bits.\<close>

definition sunk :: "bytes \<Rightarrow> bits \<Rightarrow> bit_sink \<Rightarrow> bool" where
  "sunk out bs st \<longleftrightarrow> sink_ok out bs st \<and> snd (snd st) < 8"

lemma sunk_start: "sunk (w_out s) [] (s, 0, 0)"
  by (auto simp: sunk_def sink_ok_def holds_bits_def intro: exI [of _ "[]"])

lemma writeBits_sunk:
  "sunk out bs st \<Longrightarrow> fst e < 2 ^ snd e \<Longrightarrow> snd e \<le> 16 \<Longrightarrow> sat (stbiw_jpg_writeBits st e) (sunk out (bs @ emitted e))"
  using writeBits_ok [of out bs st e] by (simp add: sunk_def [abs_def])

text \<open>The state of the sink determines what has been written.\<close>

lemma stuff_inj: "stuff A = stuff B \<Longrightarrow> A = B"
proof (induction A arbitrary: B)
  case Nil
  then show ?case by (cases B) (auto split: if_splits)
next
  case (Cons a A)
  then show ?case by (cases B) (auto split: if_splits)
qed

lemma sunk_unique: "sunk out bs st \<Longrightarrow> sunk out cs st \<Longrightarrow> bs = cs"
proof -
  assume "sunk out bs st" "sunk out cs st"
  then obtain s b n A B us vs where w: "st = (s, b, n)" "out @ stuff A = out @ stuff B" "bs = stream_bits A @ us" "cs = stream_bits B @ vs"
    "length us = n" "length vs = n" "holds_bits 24 (take_bit 24 b) us" "holds_bits 24 (take_bit 24 b) vs"
    by (cases st) (auto simp: sunk_def sink_ok_def)
  have "us = vs" using w(5-8) by (intro value_of_inj) (simp_all add: holds_bits_def)
  moreover have "A = B" using w(2) by (simp add: stuff_inj)
  ultimately show "bs = cs" using w(3,4) by simp
qed

text \<open>Padding with ones completes the last byte.\<close>

lemma fill_ok:
  assumes st: "sunk out bs st"
  shows "sat (stbiw_jpg_writeBits st (0x7F, 7)) (\<lambda>st'. \<exists>B. w_out (fst st') = out @ stuff B \<and> prefix bs (stream_bits B))"
proof -
  have "\<exists>B. w_out (fst t) = out @ stuff B \<and> prefix bs (stream_bits B)"
    if t: "sunk out (bs @ emitted (0x7F, 7)) t" for t
  proof -
    obtain B cs where w: "w_out (fst t) = out @ stuff B" "bs @ emitted (0x7F, 7) = stream_bits B @ cs" "length cs < 8"
      using t by (auto simp: sunk_def sink_ok_def)
    have "length bs + 7 = length (stream_bits B) + length cs" using arg_cong [OF w(2), of length] by simp
    then have "length bs \<le> length (stream_bits B)" using w(3) by simp
    moreover have "prefix bs (stream_bits B @ cs)" unfolding w(2) [symmetric] by simp
    moreover have "prefix (stream_bits B) (stream_bits B @ cs)" by simp
    ultimately have "prefix bs (stream_bits B)" using prefix_length_prefix by blast
    then show ?thesis using w(1) by blast
  qed
  then show ?thesis using sat_mono [OF writeBits_sunk [OF st, of "(0x7F, 7)"]] by simp
qed

end
