(* ===== verification/Jpeg_Tables.thy ===== *)
theory Jpeg_Tables
  imports Jpeg_Code Jpeg_Write
begin

text \<open>
  The constant Huffman tables of the JPEG writer are the canonical codes that a reader builds from the
  counts and the symbols in the file header.
\<close>

fun canon :: "nat \<Rightarrow> 'a :: comm_semiring_1 \<Rightarrow> nat list \<Rightarrow> ('a \<times> nat) list" where
  "canon l c [] = []"
| "canon l c (n # ns) = map (\<lambda>k. (c + of_nat k, l)) [0..<n] @ canon (Suc l) (2 * (c + of_nat n)) ns"

lemma map_canon: "map (\<lambda>(a, b). (int a, b)) (canon l c ns) = canon l (int c) ns"
  by (induction l c ns rule: canon.induct) simp_all

text \<open>The canonical code of the symbol \<open>i\<close> is entry \<open>i\<close> of this list.\<close>

lemma canon_drop:
  assumes "length count = 16" "l \<le> 16"
  shows "canon (Suc l) (first_code (lengths_of count) (Suc l)) (drop l count) =
    map (\<lambda>i. (code_of (lengths_of count) i, lengths_of count ! i)) [length (lengths_upto count l)..<length (lengths_of count)]"
  using assms(2)
proof (induction "16 - l" arbitrary: l)
  case 0
  then show ?case using assms(1) by (simp add: lengths_of_def)
next
  case (Suc d)
  let ?L = "lengths_of count"
  have l: "l < 16" using Suc by simp
  let ?a = "length (lengths_upto count l)" and ?b = "length (lengths_upto count (Suc l))"
  have fs: "first_sym ?L (Suc l) = ?a" "first_sym ?L (Suc (Suc l)) = ?b" using first_sym_lengths [of "Suc l" count] first_sym_lengths [of "Suc (Suc l)" count] l by simp_all
  have b: "?b = ?a + count ! l" by (simp add: lengths_upto_Suc)
  have "?b \<le> length ?L" using lengths_prefix [of "Suc l" 16 count] l by (auto simp: lengths_of_def)
  then have split: "[?a..<length ?L] = [?a..<?b] @ [?b..<length ?L]" using upt_add_eq_append [of ?a ?b "length ?L - ?b"] b by simp
  have cnt: "count_list ?L (Suc l) = count ! l" using count_lengths_upto [of count 16 "Suc l"] l by (simp add: lengths_of_def)
  have "map (\<lambda>k. (first_code ?L (Suc l) + of_nat k, Suc l)) [0..<count ! l] = map (\<lambda>i. (code_of ?L i, ?L ! i)) [?a..<?b]"
  proof (rule nth_equalityI)
    fix k assume "k < length (map (\<lambda>k. (first_code ?L (Suc l) + of_nat k, Suc l)) [0..<count ! l])"
    then have k: "k < count ! l" by simp
    then have "?a + k < length ?L" "?L ! (?a + k) = Suc l" using length_at [of "Suc l" count "?a + k"] l fs b by simp_all
    then show "map (\<lambda>k. (first_code ?L (Suc l) + of_nat k, Suc l)) [0..<count ! l] ! k = map (\<lambda>i. (code_of ?L i, ?L ! i)) [?a..<?b] ! k"
      using code_of_lengths [of "?a + k" count "Suc l"] k b fs by simp
  qed (simp add: b)
  moreover have "drop l count = count ! l # drop (Suc l) count" using l assms(1) by (simp add: Cons_nth_drop_Suc)
  moreover have "canon (Suc (Suc l)) (first_code ?L (Suc (Suc l))) (drop (Suc l) count) = map (\<lambda>i. (code_of ?L i, ?L ! i)) [?b..<length ?L]"
    by (rule Suc(1)) (use Suc(2) l in simp_all)
  ultimately show ?case using cnt by (simp add: split)
qed

lemma canon_codes:
  assumes "length count = 16"
  shows "canon 1 0 count = map (\<lambda>i. (code_of (lengths_of count) i, lengths_of count ! i)) [0..<length (lengths_of count)]"
  using canon_drop [OF assms, of 0] by (simp add: lengths_upto_def)

fun room :: "nat \<Rightarrow> 'a :: linordered_semidom \<Rightarrow> nat list \<Rightarrow> bool" where
  "room l c [] = True"
| "room l c (n # ns) = (c + of_nat n \<le> 2 ^ l \<and> room (Suc l) (2 * (c + of_nat n)) ns)"

lemma room_int: "room l (int c) ns = room l c ns"
proof (induction l c ns rule: room.induct)
  case (2 l c n ns)
  have "int c + int n \<le> 2 ^ l \<longleftrightarrow> c + n \<le> 2 ^ l" using of_nat_le_iff [of "c + n" "2 ^ l", where ?'a = int] by simp
  then show ?case using 2 by simp
qed simp

lemma room_drop:
  assumes "length count = 16" "l \<le> 16"
  shows "room (Suc l) (first_code (lengths_of count) (Suc l)) (drop l count) \<longleftrightarrow>
    (\<forall>m \<in> {Suc l..16}. first_code (lengths_of count) m + count_list (lengths_of count) m \<le> 2 ^ m)"
  using assms(2)
proof (induction "16 - l" arbitrary: l)
  case (Suc d)
  let ?L = "lengths_of count"
  have l: "l < 16" using Suc by simp
  have cnt: "count_list ?L (Suc l) = count ! l" using count_lengths_upto [of count 16 "Suc l"] l by (simp add: lengths_of_def)
  have "drop l count = count ! l # drop (Suc l) count" using l assms(1) by (simp add: Cons_nth_drop_Suc)
  moreover have "{Suc l..16} = insert (Suc l) {Suc (Suc l)..16}" using l by auto
  ultimately show ?case using Suc(1) [of "Suc l"] Suc(2) l cnt by simp
qed (use assms(1) in simp)

lemma code_upto_room: "length count = 16 \<Longrightarrow> room 1 (0 :: int) count \<Longrightarrow> code_upto 16 (lengths_of count)"
  using room_drop [of count 0] room_int [of 1 0 count] at_length [of _ count] by (auto simp: code_upto_def in_set_conv_nth)

subsection \<open>The tables\<close>

text \<open>A table of the writer agrees with the counts and the symbols of a file.\<close>

definition table_for :: "bytes \<Rightarrow> bytes \<Rightarrow> (nat \<times> nat) list \<Rightarrow> bool" where
  "table_for nrcodes values HT \<longleftrightarrow> length nrcodes = 17 \<and> length HT = 256 \<and> length values = length (lengths_of (map unat (tl nrcodes))) \<and>
     code_upto 16 (lengths_of (map unat (tl nrcodes))) \<and> length values \<le> 255 \<and>
     (\<forall>i < length values. HT ! unat (values ! i) =
        (code_of (lengths_of (map unat (tl nrcodes))) i, lengths_of (map unat (tl nrcodes)) ! i))"

lemma table_forI:
  assumes "length nrcodes = 17" "length HT = 256" "map unat (tl nrcodes) = count" "room 1 (0 :: int) count" "length values \<le> 255"
    and eq: "map (\<lambda>v. map (\<lambda>(a, b). (int a, b)) HT ! unat v) values = canon 1 0 count"
  shows "table_for nrcodes values HT"
proof -
  let ?L = "lengths_of count"
  have c: "length count = 16" using assms(1,3) by auto
  have "map (\<lambda>(a, b). (int a, b)) (map (\<lambda>v. HT ! unat v) values) = map (\<lambda>v. map (\<lambda>(a, b). (int a, b)) HT ! unat v) values"
    using assms(2) unat_u8_less by simp
  also have "\<dots> = map (\<lambda>(a, b). (int a, b)) (canon 1 0 count)" unfolding eq map_canon by simp
  finally have "map (\<lambda>(a, b). (int a, b)) (map (\<lambda>v. HT ! unat v) values) = map (\<lambda>(a, b). (int a, b)) (canon 1 0 count)" .
  moreover have "inj (\<lambda>(a, b :: nat). (int a, b))" by (auto intro!: injI)
  ultimately have "map (\<lambda>v. HT ! unat v) values = canon 1 0 count" by (simp only: inj_map_eq_map)
  then have m: "map (\<lambda>v. HT ! unat v) values = map (\<lambda>i. (code_of ?L i, ?L ! i)) [0..<length ?L]" by (simp only: canon_codes [OF c])
  have len: "length values = length ?L" using map_eq_imp_length_eq [OF m] by simp
  have "HT ! unat (values ! i) = (code_of ?L i, ?L ! i)" if "i < length values" for i
    using arg_cong [OF m, of "\<lambda>xs. xs ! i"] that len by simp
  then show ?thesis using assms len code_upto_room [OF c] by (simp add: table_for_def)
qed

lemmas to_ints = list.map prod.case of_nat_numeral of_nat_0 of_nat_1

lemma YDC_table: "table_for std_dc_luminance_nrcodes std_dc_luminance_values YDC_HT"
proof (rule table_forI)
  show "map (\<lambda>v. map (\<lambda>(a, b). (int a, b)) YDC_HT ! unat v) std_dc_luminance_values = canon 1 0 (map unat (tl std_dc_luminance_nrcodes))"
    unfolding YDC_HT_def map_append map_replicate to_ints by code_simp
  show "room 1 (0 :: int) (map unat (tl std_dc_luminance_nrcodes))" by code_simp
qed (simp_all add: std_dc_luminance_nrcodes_def std_dc_luminance_values_def YDC_HT_def)

lemma YAC_table: "table_for std_ac_luminance_nrcodes std_ac_luminance_values YAC_HT"
proof (rule table_forI)
  show "map (\<lambda>v. map (\<lambda>(a, b). (int a, b)) YAC_HT ! unat v) std_ac_luminance_values = canon 1 0 (map unat (tl std_ac_luminance_nrcodes))"
    unfolding YAC_HT_def to_ints by code_simp
  show "room 1 (0 :: int) (map unat (tl std_ac_luminance_nrcodes))" by code_simp
qed (simp_all add: std_ac_luminance_nrcodes_def std_ac_luminance_values_def YAC_HT_def)

lemma UVDC_table: "table_for std_dc_chrominance_nrcodes std_dc_chrominance_values UVDC_HT"
proof (rule table_forI)
  show "map (\<lambda>v. map (\<lambda>(a, b). (int a, b)) UVDC_HT ! unat v) std_dc_chrominance_values = canon 1 0 (map unat (tl std_dc_chrominance_nrcodes))"
    unfolding UVDC_HT_def map_append map_replicate to_ints by code_simp
  show "room 1 (0 :: int) (map unat (tl std_dc_chrominance_nrcodes))" by code_simp
qed (simp_all add: std_dc_chrominance_nrcodes_def std_dc_chrominance_values_def UVDC_HT_def)

lemma UVAC_table: "table_for std_ac_chrominance_nrcodes std_ac_chrominance_values UVAC_HT"
proof (rule table_forI)
  show "map (\<lambda>v. map (\<lambda>(a, b). (int a, b)) UVAC_HT ! unat v) std_ac_chrominance_values = canon 1 0 (map unat (tl std_ac_chrominance_nrcodes))"
    unfolding UVAC_HT_def to_ints by code_simp
  show "room 1 (0 :: int) (map unat (tl std_ac_chrominance_nrcodes))" by code_simp
qed (simp_all add: std_ac_chrominance_nrcodes_def std_ac_chrominance_values_def UVAC_HT_def)

text \<open>Every symbol of a block within the ranges of the baseline format has a code.\<close>

definition ac_symbol :: "nat \<Rightarrow> bool" where
  "ac_symbol s \<longleftrightarrow> s = 0 \<or> s = 0xF0 \<or> s < 256 \<and> 1 \<le> s mod 16 \<and> s mod 16 \<le> 10"

definition ac_numbers :: "int list" where
  "ac_numbers = 0 # 0xF0 # concat (map (\<lambda>r. map (\<lambda>s. r * 16 + s) [1..10]) [0..15])"

lemma ac_symbol_number:
  assumes "ac_symbol s"
  shows "int s \<in> set ac_numbers"
proof (cases "s = 0 \<or> s = 0xF0")
  case False
  then have s: "s div 16 < 16" "1 \<le> s mod 16" "s mod 16 \<le> 10" using assms by (auto simp: ac_symbol_def)
  have "int s = int (s div 16) * 16 + int (s mod 16)" by presburger
  then have "int s \<in> (\<lambda>k. int (s div 16) * 16 + k) ` {1..10}" using s by (intro image_eqI) auto
  moreover have "int (s div 16) \<in> {0..15}" using s(1) by simp
  ultimately have "int s \<in> (\<Union>r \<in> {0..15}. (\<lambda>k. r * 16 + k) ` {1..10})" by (rule UN_I [rotated])
  then show ?thesis by (simp add: ac_numbers_def)
qed (auto simp: ac_numbers_def)

lemma symbol_present: "list_all (\<lambda>s. List.member (map uint values) s) ns \<Longrightarrow> int s \<in> set ns \<Longrightarrow> s \<in> set (map unat (values :: bytes))"
  by (force simp: list_all_iff uint_nat simp del: of_nat_unat)

lemma ac_present:
  assumes "ac_symbol s"
  shows "s \<in> set (map unat std_ac_luminance_values)" "s \<in> set (map unat std_ac_chrominance_values)"
proof -
  show "s \<in> set (map unat std_ac_luminance_values)"
    by (rule symbol_present [OF _ ac_symbol_number [OF assms]]) code_simp
  show "s \<in> set (map unat std_ac_chrominance_values)"
    by (rule symbol_present [OF _ ac_symbol_number [OF assms]]) code_simp
qed

lemma dc_present:
  assumes "s \<le> 11"
  shows "s \<in> set (map unat std_dc_luminance_values)" "s \<in> set (map unat std_dc_chrominance_values)"
  using assms by (simp_all add: std_dc_luminance_values_def std_dc_chrominance_values_def) presburger+

lemma table_for_symbol:
  assumes "table_for nrcodes values HT" and "s \<in> set (map unat values)"
  obtains i where "i < length (lengths_of (map unat (tl nrcodes)))" "i < length values" "unat (values ! i) = s"
    "aget HT s = Some (code_of (lengths_of (map unat (tl nrcodes))) i, lengths_of (map unat (tl nrcodes)) ! i)"
proof -
  obtain i where "i < length values" "unat (values ! i) = s" using assms(2) by (auto simp: in_set_conv_nth)
  then show ?thesis using that [of i] assms(1) unat_u8_less [of "values ! i"] by (auto simp: table_for_def)
qed

end
