(* ===== verification/Jpeg_Entropy.thy ===== *)
theory Jpeg_Entropy
  imports Jpeg_Units Jpeg_Sink Jpeg_Tables
begin

text \<open>
  Entropy coding of JPEG blocks: what the writer emits for the coefficients of a block, the block decoder of the reader turns back
  into these coefficients.
\<close>

subsection \<open>Magnitudes\<close>

lemma calc_loop:
  assumes "1 \<le> t"
  shows "sat (loop calc_step (t, 1)) (\<lambda>n. 1 \<le> n \<and> t div 2 ^ (n - 1) = 1)"
proof (rule sat_loop [where I = "\<lambda>(x, n). 1 \<le> n \<and> x = t div 2 ^ (n - 1) \<and> 1 \<le> x" and measure_of = "\<lambda>(x, n). nat x"], goal_cases)
  case (2 st)
  obtain x n where [simp]: "st = (x, n)" by (cases st)
  have x: "1 \<le> n" "x = t div 2 ^ (n - 1)" "1 \<le> x" using 2 by auto
  have "x div 2 = t div (2 ^ (n - 1) * 2)" unfolding x(2) by (rule zdiv_zmult2_eq [symmetric]) simp
  then have d: "x div 2 = t div 2 ^ n" using x(1) by (simp flip: power_Suc2)
  show ?case
  proof (cases "x div 2 = 0")
    case True
    then have "x = 1" using x(3) by presburger
    then show ?thesis using x True by (simp add: calc_step_def drop_bit_eq_div)
  next
    case False
    then have "1 \<le> x div 2" "x div 2 < x" using x(3) by presburger+
    then have "1 \<le> x div 2" "nat (x div 2) < nat x" by simp_all
    then show ?thesis using d False by (simp add: calc_step_def drop_bit_eq_div)
  qed
qed (use assms in simp)

lemma calcBits_ok:
  assumes v: "val \<noteq> 0" "\<bar>val\<bar> < 2 ^ m" and m: "m \<le> 15"
  shows "\<exists>b n. stbiw_jpg_calcBits val = Some (b, n) \<and> 1 \<le> n \<and> n \<le> m \<and> b < 2 ^ n \<and> extended n b = val"
proof -
  have lim: "(2 :: int) ^ m \<le> 2 ^ 15" using m by (intro power_increasing) auto
  obtain n where n: "loop calc_step (\<bar>val\<bar>, 1) = Some n" "1 \<le> n" "\<bar>val\<bar> div 2 ^ (n - 1) = 1"
    by (rule satE [OF calc_loop [of "\<bar>val\<bar>"]]) (use v(1) in auto)
  have p: "(2 :: int) ^ n = 2 * 2 ^ (n - 1)" using n(2) power_Suc [of "2 :: int" "n - 1"] by simp
  have "2 ^ (n - 1) + \<bar>val\<bar> mod 2 ^ (n - 1) = \<bar>val\<bar>" using n(3) div_mult_mod_eq [of "\<bar>val\<bar>" "2 ^ (n - 1)"] by simp
  moreover have "0 \<le> \<bar>val\<bar> mod 2 ^ (n - 1)" "\<bar>val\<bar> mod 2 ^ (n - 1) < 2 ^ (n - 1)" by simp_all
  ultimately have lo: "2 ^ (n - 1) \<le> \<bar>val\<bar>" and hi: "\<bar>val\<bar> < 2 ^ n" unfolding p by linarith+
  have nm: "n \<le> m"
  proof -
    have "(2 :: int) ^ (n - 1) < 2 ^ m" using lo v(2) by linarith
    then have "n - 1 < m" by simp
    then show ?thesis by simp
  qed
  let ?v = "if val < 0 then val - 1 else val"
  let ?b = "nat (?v mod 2 ^ n)"
  have "(2 :: int) ^ n < 2 ^ 32" using nm m by (intro power_strict_increasing) auto
  then have "uint (word_of_int (2 ^ n) :: u32) = 2 ^ n" unfolding uint_word_of_int by simp
  then have s: "shl32 1 (int n) = Some (push_bit n 1)" "uint (push_bit n 1 :: u32) = 2 ^ n" using nm m
    by (simp_all add: shl32_def push_bit_eq_mult)
  have a: "?v AND (2 ^ n - 1) = ?v mod 2 ^ n" by (metis mask_eq_exp_minus_1 take_bit_eq_mask take_bit_eq_mod)
  have i: "i32 \<bar>val\<bar> = Some \<bar>val\<bar>" "i32 ?v = Some ?v" using v(2) lim by (auto simp: i32_def)
  have calc: "stbiw_jpg_calcBits val = Some (?b, n)"
    unfolding stbiw_jpg_calcBits_def i bind.bind_lunit n(1) s a Let_def by simp
  have b: "int ?b = (if val < 0 then 2 ^ n - 1 + val else val)"
  proof (cases "val < 0")
    case True
    have "(val - 1) mod 2 ^ n = (val - 1 + 2 ^ n) mod 2 ^ n" by simp
    also have "\<dots> = 2 ^ n - 1 + val" using True hi by (subst mod_pos_pos_trivial) linarith+
    finally show ?thesis using True hi by simp
  qed (use hi in simp)
  have "int ?b < 2 ^ n" by simp
  then have "?b < 2 ^ n" by (metis of_nat_less_numeral_power_cancel_iff)
  moreover have "extended n ?b = val" using b lo hi p unfolding extended_def by auto
  ultimately show ?thesis using calc n(2) nm by blast
qed

subsection \<open>Pairs of tables\<close>

text \<open>The table \<open>HT\<close> of the writer and the table \<open>h\<close> of the reader belong to the same counts and symbols.\<close>

definition paired :: "bytes \<Rightarrow> bytes \<Rightarrow> (nat \<times> nat) list \<Rightarrow> jhuffman \<Rightarrow> bool" where
  "paired nrcodes values HT h \<longleftrightarrow> table_for nrcodes values HT \<and> jtables_for (lengths_of (map unat (tl nrcodes))) h \<and>
     (\<forall>i < length values. jh_values h ! i = values ! i)"

lemma paired_symbol:
  assumes p: "paired nrcodes values HT h" and s: "s \<in> set (map unat values)"
  obtains count i e where "jtables_for (lengths_of count) h" "length (lengths_of count) \<le> 255" "i < length (lengths_of count)"
    "unat (jh_values h ! i) = s" "aget HT s = Some e" "emitted e = sym_bits (lengths_of count) i" "fst e < 2 ^ snd e" "snd e \<le> 16"
proof -
  let ?c = "map unat (tl nrcodes)" let ?L = "lengths_of ?c"
  have t: "table_for nrcodes values HT" "jtables_for ?L h" using p by (simp_all add: paired_def)
  obtain i where i: "i < length ?L" "i < length values" "unat (values ! i) = s" "aget HT s = Some (code_of ?L i, ?L ! i)"
    using table_for_symbol [OF t(1) s] .
  have "code_upto 16 ?L" using t(2) by (simp add: jtables_for_def)
  then have "code_of ?L i < 2 ^ (?L ! i)" using code_of_less [OF _ i(1)] at_length [OF i(1)] by simp
  moreover have "length ?L \<le> 255" using t(1) by (simp add: table_for_def)
  moreover have "jh_values h ! i = values ! i" using p i(2) by (simp add: paired_def)
  ultimately show thesis using that [of ?c i "(code_of ?L i, ?L ! i)"] t(2) i at_length [OF i(1)] by (simp add: sym_bits_def)
qed

subsection \<open>Coefficients\<close>

lemma zigzag_dezigzag:
  assumes "k < 64"
  shows "stbiw_jpg_ZigZag ! (stbi_jpeg_dezigzag ! k) = k" "stbi_jpeg_dezigzag ! (stbiw_jpg_ZigZag ! k) = k" "stbiw_jpg_ZigZag ! k < 64"
proof -
  have "\<forall>k \<in> set [0..<64]. stbiw_jpg_ZigZag ! (stbi_jpeg_dezigzag ! k) = k \<and> stbi_jpeg_dezigzag ! (stbiw_jpg_ZigZag ! k) = k \<and> stbiw_jpg_ZigZag ! k < 64"
    by code_simp
  then show "stbiw_jpg_ZigZag ! (stbi_jpeg_dezigzag ! k) = k" "stbi_jpeg_dezigzag ! (stbiw_jpg_ZigZag ! k) = k" "stbiw_jpg_ZigZag ! k < 64"
    using assms by auto
qed

text \<open>The data of a block of which the first \<open>n\<close> coefficients in zigzag order are known.\<close>

definition coeffs :: "int list \<Rightarrow> int list \<Rightarrow> nat \<Rightarrow> int option list" where
  "coeffs du dequant n = map (\<lambda>z. Some (if stbiw_jpg_ZigZag ! z < n then du ! (stbiw_jpg_ZigZag ! z) * dequant ! z else 0)) [0..<64]"

lemma length_coeffs [simp]: "length (coeffs du dequant n) = 64"
  by (simp add: coeffs_def)

lemma coeffs_Suc:
  assumes "n < 64"
  shows "(coeffs du dequant n)[stbi_jpeg_dezigzag ! n := Some (du ! n * dequant ! (stbi_jpeg_dezigzag ! n))] = coeffs du dequant (Suc n)"
proof (rule nth_equalityI)
  fix z assume "z < length ((coeffs du dequant n)[stbi_jpeg_dezigzag ! n := Some (du ! n * dequant ! (stbi_jpeg_dezigzag ! n))])"
  then have z: "z < 64" by simp
  have n: "stbi_jpeg_dezigzag ! n < 64" using dezigzag_less assms by simp
  show "(coeffs du dequant n)[stbi_jpeg_dezigzag ! n := Some (du ! n * dequant ! (stbi_jpeg_dezigzag ! n))] ! z = coeffs du dequant (Suc n) ! z"
  proof (cases "z = stbi_jpeg_dezigzag ! n")
    case True
    then show ?thesis using n zigzag_dezigzag [OF assms] by (simp add: coeffs_def)
  next
    case False
    then have "stbiw_jpg_ZigZag ! z \<noteq> n" using zigzag_dezigzag(2) [OF z] by auto
    then show ?thesis using False z by (simp add: coeffs_def less_Suc_eq)
  qed
qed simp

lemma coeffs_zeros: "n \<le> m \<Longrightarrow> (\<And>i. n \<le> i \<Longrightarrow> i < m \<Longrightarrow> du ! i = 0) \<Longrightarrow> coeffs du dequant n = coeffs du dequant m"
  by (auto simp: coeffs_def)

lemma to_short_small: "\<bar>x\<bar> \<le> 32767 \<Longrightarrow> to_short x = x"
  by (simp add: to_short_def sint_sbintrunc' signed_take_bit_int_eq_self)

subsection \<open>Reading a run of the stream\<close>

definition ac_rest :: "jhuffman \<Rightarrow> int list \<Rightarrow> int list \<Rightarrow> 'u block_state \<Rightarrow> ('u jpeg \<times> int option list) res" where
  "ac_rest hac fac dequant st = (case st of (j, data, k) \<Rightarrow>
     if k < 64 then eloop (ac_step hac fac dequant) (j, data, k) else ret (j, data))"

lemma ac_rest_again:
  assumes "k < 64" "ac_step hac fac dequant (j, data, k) = again st"
  shows "ac_rest hac fac dequant (j, data, k) = ac_rest hac fac dequant st"
proof -
  obtain j' d' k' where [simp]: "st = (j', d', k')" by (cases st)
  show ?thesis unfolding ac_rest_def prod.case if_P [OF assms(1)] eloop_step [of _ "(j, data, k)"] assms(2) by (simp add: again_def)
qed

text \<open>The bits \<open>w\<close> take the reader from position \<open>k\<close> with data \<open>d\<close> to position \<open>k'\<close> with data \<open>d'\<close>.\<close>

definition reads :: "('u block_state \<Rightarrow> 'r res) \<Rightarrow> bits \<Rightarrow> int option list \<Rightarrow> nat \<Rightarrow> int option list \<Rightarrow> nat \<Rightarrow> bool" where
  "reads rest w d k d' k' \<longleftrightarrow> (\<forall>j bs. feeds j (w @ bs) \<longrightarrow>
     (\<exists>j'. rest (j, d, int k) = rest (j', d', int k') \<and> feeds j' bs \<and> frame j j'))"

lemma reads_Nil: "reads rest [] d k d k"
  by (auto simp: reads_def)

lemma reads_append: "reads rest w d k d1 k1 \<Longrightarrow> reads rest w1 d1 k1 d2 k2 \<Longrightarrow> reads rest (w @ w1) d k d2 k2"
  unfolding reads_def by (metis append.assoc frame_trans)

text \<open>The AC code of a component: what a symbol does.\<close>

definition ac_paired :: "bytes \<Rightarrow> bytes \<Rightarrow> (nat \<times> nat) list \<Rightarrow> jhuffman \<Rightarrow> int list \<Rightarrow> bool" where
  "ac_paired nrcodes values HT h fac \<longleftrightarrow> paired nrcodes values HT h \<and> fac_for h fac \<and> (\<forall>s. ac_symbol s \<longrightarrow> s \<in> set (map unat values))"

lemma reads_value:
  assumes p: "ac_paired nrcodes values HT h fac" and R: "R < 16" and m: "1 \<le> m" "m \<le> 10" and v: "v < 2 ^ m"
    and k: "k + R < 64" and d: "length data = 64" "length dequant = 64"
    and x: "x = extended m v * dequant ! (stbi_jpeg_dezigzag ! (k + R))" "\<bar>x\<bar> \<le> 32767"
  shows "\<exists>e. aget HT (R * 16 + m) = Some e \<and> fst e < 2 ^ snd e \<and> snd e \<le> 16 \<and>
    reads (ac_rest h fac dequant) (emitted e @ bits_of m v) data k (data[stbi_jpeg_dezigzag ! (k + R) := Some x]) (k + R + 1)"
proof -
  have "ac_symbol (R * 16 + m)" using R m by (simp add: ac_symbol_def)
  then have s: "R * 16 + m \<in> set (map unat values)" and pp: "paired nrcodes values HT h" and fac: "fac_for h fac"
    using p by (auto simp: ac_paired_def)
  obtain count i e where e: "jtables_for (lengths_of count) h" "length (lengths_of count) \<le> 255" "i < length (lengths_of count)"
    "unat (jh_values h ! i) = R * 16 + m" "aget HT (R * 16 + m) = Some e" "emitted e = sym_bits (lengths_of count) i" "fst e < 2 ^ snd e" "snd e \<le> 16"
    using paired_symbol [OF pp s] .
  have mm: "m = unat (jh_values h ! i) mod 16" "m \<noteq> 0" "R = unat (jh_values h ! i) div 16" using e(4) m by simp_all
  have i32: "i32 x = Some x" "to_short x = x" using x(2) by (auto simp: i32_def to_short_small)
  have "reads (ac_rest h fac dequant) (emitted e @ bits_of m v) data k (data[stbi_jpeg_dezigzag ! (k + R) := Some x]) (k + R + 1)"
    unfolding reads_def
  proof (intro allI impI)
    fix j :: "'u jpeg" and bs assume "feeds j ((emitted e @ bits_of m v) @ bs)"
    then have f: "feeds j (sym_bits (lengths_of count) i @ bits_of m v @ bs)" by (simp add: e(6))
    obtain j' where "ac_step h fac dequant (j, data, int k) = again (j', data[stbi_jpeg_dezigzag ! (k + R) := Some x], int (k + R + 1))" "feeds j' bs" "frame j j'"
      using ac_step_value [OF e(1,2) fac e(3) mm v f k d x(1) i32(1)] i32(2) by auto
    then show "\<exists>j'. ac_rest h fac dequant (j, data, int k) = ac_rest h fac dequant (j', data[stbi_jpeg_dezigzag ! (k + R) := Some x], int (k + R + 1)) \<and> feeds j' bs \<and> frame j j'"
      using ac_rest_again [of "int k" h fac dequant j data] k by auto
  qed
  then show ?thesis using e(5,7,8) by blast
qed

lemma reads_skip:
  assumes p: "ac_paired nrcodes values HT h fac"
  shows "\<exists>e. aget HT 0xF0 = Some e \<and> fst e < 2 ^ snd e \<and> snd e \<le> 16 \<and>
    (\<forall>data k. k < 64 \<longrightarrow> reads (ac_rest h fac dequant) (emitted e) data k data (k + 16))"
proof -
  have s: "0xF0 \<in> set (map unat values)" and pp: "paired nrcodes values HT h" and fac: "fac_for h fac"
    using p by (auto simp: ac_paired_def ac_symbol_def)
  obtain count i e where e: "jtables_for (lengths_of count) h" "length (lengths_of count) \<le> 255" "i < length (lengths_of count)"
    "unat (jh_values h ! i) = 0xF0" "aget HT 0xF0 = Some e" "emitted e = sym_bits (lengths_of count) i" "fst e < 2 ^ snd e" "snd e \<le> 16"
    using paired_symbol [OF pp s] .
  have u: "uint (jh_values h ! i) = 0xF0" "unat (jh_values h ! i) mod 16 = 0" using e(4) by (simp_all add: uint_nat del: of_nat_unat)
  have "reads (ac_rest h fac dequant) (emitted e) data k data (k + 16)" if "k < 64" for data k
    unfolding reads_def
  proof (intro allI impI)
    fix j :: "'u jpeg" and bs assume "feeds j (emitted e @ bs)"
    then have f: "feeds j (sym_bits (lengths_of count) i @ bs)" by (simp add: e(6))
    obtain j' where "ac_step h fac dequant (j, data, int k) = again (j', data, int k + 16)" "feeds j' bs" "frame j j'"
      using ac_step_plain [OF e(1,2) fac e(3) u(2) f, of dequant data "int k"] u(1) by auto
    then show "\<exists>j'. ac_rest h fac dequant (j, data, int k) = ac_rest h fac dequant (j', data, int (k + 16)) \<and> feeds j' bs \<and> frame j j'"
      using ac_rest_again [of "int k" h fac dequant j data] that by auto
  qed
  then show ?thesis using e(5,7,8) by blast
qed

lemma reads_end:
  assumes p: "ac_paired nrcodes values HT h fac"
  shows "\<exists>e. aget HT 0 = Some e \<and> fst e < 2 ^ snd e \<and> snd e \<le> 16 \<and>
    (\<forall>data k. k < 64 \<longrightarrow> reads (ac_rest h fac dequant) (emitted e) data k data 64)"
proof -
  have s: "0 \<in> set (map unat values)" and pp: "paired nrcodes values HT h" and fac: "fac_for h fac"
    using p by (auto simp: ac_paired_def ac_symbol_def simp del: set_map)
  obtain count i e where e: "jtables_for (lengths_of count) h" "length (lengths_of count) \<le> 255" "i < length (lengths_of count)"
    "unat (jh_values h ! i) = 0" "aget HT 0 = Some e" "emitted e = sym_bits (lengths_of count) i" "fst e < 2 ^ snd e" "snd e \<le> 16"
    using paired_symbol [OF pp s] .
  have u: "uint (jh_values h ! i) = 0" "unat (jh_values h ! i) mod 16 = 0" using e(4) by (simp_all add: uint_nat del: of_nat_unat)
  have "reads (ac_rest h fac dequant) (emitted e) data k data 64" if "k < 64" for data k
    unfolding reads_def
  proof (intro allI impI)
    fix j :: "'u jpeg" and bs assume "feeds j (emitted e @ bs)"
    then have f: "feeds j (sym_bits (lengths_of count) i @ bs)" by (simp add: e(6))
    obtain j' where j': "ac_step h fac dequant (j, data, int k) = ret (Inl (j', data))" "feeds j' bs" "frame j j'"
      using ac_step_plain [OF e(1,2) fac e(3) u(2) f, of dequant data "int k"] u(1) by auto
    have "ac_rest h fac dequant (j, data, int k) = ret (j', data)"
      using that j'(1) by (simp add: ac_rest_def eloop_step [of _ "(j, data, int k)"])
    then show "\<exists>j'. ac_rest h fac dequant (j, data, int k) = ac_rest h fac dequant (j', data, int 64) \<and> feeds j' bs \<and> frame j j'"
      using j'(2,3) by (intro exI [of _ j']) (simp add: ac_rest_def)
  qed
  then show ?thesis using e(5,7,8) by blast
qed

lemma reads_skips:
  assumes "\<And>k. k < 64 \<Longrightarrow> reads rest w d k d (k + 16)" "k + 16 * n < 64 + 16"
  shows "reads rest (concat (replicate n w)) d k d (k + 16 * n)"
  using assms(2)
proof (induction n arbitrary: k)
  case (Suc n)
  have "reads rest (concat (replicate n w)) d (k + 16) d (k + 16 + 16 * n)" using Suc by simp
  moreover have "reads rest w d k d (k + 16)" using assms(1) Suc(2) by simp
  ultimately have "reads rest (w @ concat (replicate n w)) d k d (k + 16 + 16 * n)" by (rule reads_append [rotated])
  then show ?case by (simp add: add.assoc)
qed (simp add: reads_Nil)

subsection \<open>Writing the AC coefficients\<close>

lemma last_loop:
  assumes "length du = 64"
  shows "sat (loop (last_step du) 63) (\<lambda>p. p \<le> 63 \<and> (p \<noteq> 0 \<longrightarrow> du ! p \<noteq> 0) \<and> (\<forall>i. p < i \<longrightarrow> i < 64 \<longrightarrow> du ! i = 0))"
proof (rule sat_loop [where I = "\<lambda>p. p \<le> 63 \<and> (\<forall>i. p < i \<longrightarrow> i < 64 \<longrightarrow> du ! i = 0)" and measure_of = id], goal_cases)
  case (2 p)
  then have "aget du p = Some (du ! p)" using assms by simp
  moreover have "du ! i = 0" if "du ! p = 0" "p - 1 < i" "i < 64" for i using 2 that by (cases "i = p") auto
  ultimately show ?case using 2 by (auto simp: last_step_def)
qed auto

lemma zeros_loop:
  assumes "length du = 64" "i \<le> p" "p \<le> 63" "du ! p \<noteq> 0"
  shows "sat (loop (zeros_step du p) i) (\<lambda>k. i \<le> k \<and> k \<le> p \<and> du ! k \<noteq> 0 \<and> (\<forall>m. i \<le> m \<longrightarrow> m < k \<longrightarrow> du ! m = 0))"
proof (rule sat_loop [where I = "\<lambda>k. i \<le> k \<and> k \<le> p \<and> (\<forall>m. i \<le> m \<longrightarrow> m < k \<longrightarrow> du ! m = 0)" and measure_of = "\<lambda>k. p - k"], goal_cases)
  case (2 k)
  then have "aget du k = Some (du ! k)" using assms by simp
  moreover have "k < p" if "du ! k = 0" using 2 that assms(4) by (cases "k = p") auto
  ultimately show ?case using 2 by (auto simp: zeros_step_def less_Suc_eq)
qed (use assms in auto)

text \<open>The coefficients of a block are within the ranges of the baseline format and of the reader.\<close>

definition block_ok :: "int list \<Rightarrow> int list \<Rightarrow> bool" where
  "block_ok du dequant \<longleftrightarrow> length du = 64 \<and> length dequant = 64 \<and>
     \<bar>du ! 0\<bar> \<le> 32767 \<and> (\<forall>k \<in> {1..<64}. \<bar>du ! k\<bar> < 1024) \<and> (\<forall>k < 64. \<bar>du ! k * dequant ! (stbi_jpeg_dezigzag ! k)\<bar> \<le> 32767)"

lemma sat_skips:
  assumes st: "sunk out bs st" and e: "fst e < 2 ^ snd e" "snd e \<le> 16"
  shows "sat (for_upto 0 n (\<lambda>_ st. stbiw_jpg_writeBits st e) st) (sunk out (bs @ concat (replicate n (emitted e))))"
proof (rule sat_for_upto [where P = "\<lambda>i. sunk out (bs @ concat (replicate i (emitted e)))"], goal_cases)
  case (3 i s)
  have "concat (replicate (Suc i) (emitted e)) = concat (replicate i (emitted e)) @ emitted e"
    using replicate_append_same [of i "emitted e"] by (metis concat.simps concat_append append_Nil2 replicate_Suc)
  with writeBits_sunk [OF 3(3) e] show ?case by simp
qed (use st in auto)

lemma encode_ac_step_ok:
  assumes p: "ac_paired nrcodes values HT h fac" and b: "block_ok du dequant"
    and e0: "end0pos \<le> 63" "du ! end0pos \<noteq> 0" and i: "1 \<le> i" "i \<le> end0pos" and st: "sunk out bs st"
  shows "\<exists>k st' w. encode_ac_step HT du end0pos (i, st) = Some (Inr (Suc k, st')) \<and> i \<le> k \<and> k \<le> end0pos \<and> sunk out (bs @ w) st' \<and>
    reads (ac_rest h fac dequant :: 'u block_state \<Rightarrow> _) w (coeffs du dequant i) i (coeffs du dequant (Suc k)) (Suc k)"
proof -
  let ?rest = "ac_rest h fac dequant :: 'u block_state \<Rightarrow> _"
  have len: "length du = 64" "length dequant = 64" using b by (simp_all add: block_ok_def)
  obtain k where k: "loop (zeros_step du end0pos) i = Some k" "i \<le> k" "k \<le> end0pos" "du ! k \<noteq> 0" "\<And>m. i \<le> m \<Longrightarrow> m < k \<Longrightarrow> du ! m = 0"
    by (rule satE [OF zeros_loop [OF len(1) i(2) e0]]) auto
  define n where "n = (k - i) div 16"
  define R where "R = (k - i) mod 16"
  have nR: "i + 16 * n + R = k" using k(2) by (simp add: n_def R_def)
  have R: "R < 16" by (simp add: R_def)
  obtain z where z: "aget HT 0xF0 = Some z" "fst z < 2 ^ snd z" "snd z \<le> 16"
    "\<And>data k. k < 64 \<Longrightarrow> reads ?rest (emitted z) data k data (k + 16)"
    using reads_skip [OF p, of dequant, where ?'a = 'u] by blast
  let ?C = "coeffs du dequant"
  have C: "?C i = ?C k" by (rule coeffs_zeros [OF k(2,5)])
  have w1: "reads ?rest (concat (replicate n (emitted z))) (?C i) i (?C k) (i + 16 * n)"
    unfolding C by (rule reads_skips [OF z(4)]) (use nR k e0 in auto)
  obtain v m where v: "stbiw_jpg_calcBits (du ! k) = Some (v, m)" "1 \<le> m" "m \<le> 10" "v < 2 ^ m" "extended m v = du ! k"
    using calcBits_ok [of "du ! k" 10] k b i e0 by (auto simp: block_ok_def)
  have k64: "i + 16 * n + R < 64" using nR k e0 by simp
  have x: "\<bar>du ! k * dequant ! (stbi_jpeg_dezigzag ! k)\<bar> \<le> 32767" using b k64 nR by (auto simp: block_ok_def)
  obtain e where e: "aget HT (R * 16 + m) = Some e" "fst e < 2 ^ snd e" "snd e \<le> 16"
    "reads ?rest (emitted e @ bits_of m v) (?C k) (i + 16 * n)
      ((?C k)[stbi_jpeg_dezigzag ! (i + 16 * n + R) := Some (du ! k * dequant ! (stbi_jpeg_dezigzag ! k))]) (i + 16 * n + R + 1)"
    using reads_value [where ?'a = 'u, OF p R v(2-4) k64 length_coeffs [of du dequant k] len(2), of "du ! k * dequant ! (stbi_jpeg_dezigzag ! k)"] v(5) x nR by auto
  have w2: "reads ?rest (emitted e @ bits_of m v) (?C k) (i + 16 * n) (?C (Suc k)) (Suc k)"
    using e(4) unfolding nR using coeffs_Suc [of k du dequant] k64 nR by simp
  obtain s1 where s1: "(if 16 \<le> k - i then for_upto 0 n (\<lambda>_ st. stbiw_jpg_writeBits st z) st else Some st) = Some s1"
    "sunk out (bs @ concat (replicate n (emitted z))) s1"
    using sat_skips [OF st z(2,3), of n] st by (cases "16 \<le> k - i") (auto simp: n_def elim: satE)
  obtain s2 where s2: "stbiw_jpg_writeBits s1 e = Some s2" "sunk out ((bs @ concat (replicate n (emitted z))) @ emitted e) s2"
    using writeBits_sunk [OF s1(2) e(2,3)] by (auto elim: satE)
  obtain s3 where s3: "stbiw_jpg_writeBits s2 (v, m) = Some s3" "sunk out (((bs @ concat (replicate n (emitted z))) @ emitted e) @ bits_of m v) s3"
    using writeBits_sunk [OF s2(2), of "(v, m)"] v by (auto elim: satE)
  have "encode_ac_step HT du end0pos (i, st) = Some (Inr (Suc k, s3))"
    using i(2) k64 nR len k(1) z(1) s1(1) v(1) e(1) s2(1) s3(1)
    by (cases "16 \<le> k - i") (simp_all add: encode_ac_step_def Let_def n_def [symmetric] R_def [symmetric])
  moreover have "reads ?rest (concat (replicate n (emitted z)) @ emitted e @ bits_of m v) (?C i) i (?C (Suc k)) (Suc k)"
    by (rule reads_append [OF w1 w2])
  moreover have "sunk out (bs @ concat (replicate n (emitted z)) @ emitted e @ bits_of m v) s3" using s3(2) by simp
  ultimately show ?thesis using k(2,3) by blast
qed

lemma encode_ac_ok:
  assumes p: "ac_paired nrcodes values HT h fac" and b: "block_ok du dequant" and st: "sunk out bs st"
  shows "\<exists>end0pos eob st' w. loop (last_step du) 63 = Some end0pos \<and> aget HT 0 = Some eob \<and>
    (if end0pos = 0 then stbiw_jpg_writeBits st eob
     else do { st \<leftarrow> loop (encode_ac_step HT du end0pos) (1, st); if end0pos \<noteq> 63 then stbiw_jpg_writeBits st eob else Some st }) = Some st' \<and>
    sunk out (bs @ w) st' \<and> reads (ac_rest h fac dequant :: 'u block_state \<Rightarrow> _) w (coeffs du dequant 1) 1 (coeffs du dequant 64) 64"
proof -
  let ?rest = "ac_rest h fac dequant :: 'u block_state \<Rightarrow> _" let ?C = "coeffs du dequant"
  have len: "length du = 64" using b by (simp add: block_ok_def)
  obtain q where q: "loop (last_step du) 63 = Some q" "q \<le> 63" "q \<noteq> 0 \<Longrightarrow> du ! q \<noteq> 0" "\<And>i. q < i \<Longrightarrow> i < 64 \<Longrightarrow> du ! i = 0"
    by (rule satE [OF last_loop [OF len]]) auto
  obtain e where e: "aget HT 0 = Some e" "fst e < 2 ^ snd e" "snd e \<le> 16" "\<And>data k. k < 64 \<Longrightarrow> reads ?rest (emitted e) data k data 64"
    using reads_end [where ?'a = 'u, OF p, of dequant] by blast
  have finish: "\<exists>st'. stbiw_jpg_writeBits st1 e = Some st' \<and> sunk out (bs @ w @ emitted e) st' \<and> reads ?rest (w @ emitted e) (?C 1) 1 (?C 64) 64"
    if "sunk out (bs @ w) st1" "reads ?rest w (?C 1) 1 (?C (Suc q)) (Suc q)" "q < 63" for w st1
  proof -
    have "?C (Suc q) = ?C 64" using that(3) q(4) by (intro coeffs_zeros) auto
    then have "reads ?rest (w @ emitted e) (?C 1) 1 (?C 64) 64" using reads_append [OF that(2) e(4)] that(3) by simp
    then show ?thesis using writeBits_sunk [OF that(1) e(2,3)] by (auto elim: satE)
  qed
  show ?thesis
  proof (cases "q = 0")
    case True
    from finish [of "[]" st] obtain st' where "stbiw_jpg_writeBits st e = Some st'" "sunk out (bs @ emitted e) st'" "reads ?rest (emitted e) (?C 1) 1 (?C 64) 64"
      using True st reads_Nil [of ?rest "?C 1" 1] by auto
    then show ?thesis using q(1) e(1) True by (intro exI [of _ q] exI [of _ e] exI [of _ st'] exI [of _ "emitted e"]) simp
  next
    case False
    have "sat (loop (encode_ac_step HT du q) (1, st)) (\<lambda>st'. \<exists>w. sunk out (bs @ w) st' \<and> reads ?rest w (?C 1) 1 (?C (Suc q)) (Suc q))"
    proof (rule sat_loop [where I = "\<lambda>(i, st'). 1 \<le> i \<and> i \<le> Suc q \<and> (\<exists>w. sunk out (bs @ w) st' \<and> reads ?rest w (?C 1) 1 (?C i) i)"
          and measure_of = "\<lambda>(i, _). Suc q - i"], goal_cases)
      case 1
      show ?case using st reads_Nil [of ?rest] by (auto intro: exI [of _ "[]"])
    next
      case (2 t)
      obtain i st1 where [simp]: "t = (i, st1)" by (cases t)
      obtain w where w: "1 \<le> i" "i \<le> Suc q" "sunk out (bs @ w) st1" "reads ?rest w (?C 1) 1 (?C i) i" using 2 by auto
      show ?case
      proof (cases "i \<le> q")
        case True
        obtain k st2 w2 where k: "encode_ac_step HT du q (i, st1) = Some (Inr (Suc k, st2))" "i \<le> k" "k \<le> q" "sunk out ((bs @ w) @ w2) st2"
          "reads ?rest w2 (?C i) i (?C (Suc k)) (Suc k)"
          using encode_ac_step_ok [where ?'u = 'u, OF p b q(2) q(3) w(1) True w(3)] False by blast
        have "reads ?rest (w @ w2) (?C 1) 1 (?C (Suc k)) (Suc k)" by (rule reads_append [OF w(4) k(5)])
        then show ?thesis using k(1-4) w(1) by (auto intro!: exI [of _ "w @ w2"])
      next
        case False
        then have "i = Suc q" using w(2) by simp
        then show ?thesis using w(3,4) by (auto simp: encode_ac_step_def)
      qed
    qed
    then obtain st1 w where w: "loop (encode_ac_step HT du q) (1, st) = Some st1" "sunk out (bs @ w) st1" "reads ?rest w (?C 1) 1 (?C (Suc q)) (Suc q)"
      by (auto elim: satE)
    show ?thesis
    proof (cases "q = 63")
      case True
      then show ?thesis using q(1) e(1) w by (intro exI [of _ q] exI [of _ e] exI [of _ st1] exI [of _ w]) simp
    next
      case f: False
      obtain st' where "stbiw_jpg_writeBits st1 e = Some st'" "sunk out (bs @ w @ emitted e) st'" "reads ?rest (w @ emitted e) (?C 1) 1 (?C 64) 64"
        using finish [OF w(2,3)] f q(2) by auto
      then show ?thesis using q(1) e(1) w(1) False f by (intro exI [of _ q] exI [of _ e] exI [of _ st'] exI [of _ "w @ emitted e"]) simp
    qed
  qed
qed

subsection \<open>The DC coefficient\<close>

definition dc_paired :: "bytes \<Rightarrow> bytes \<Rightarrow> (nat \<times> nat) list \<Rightarrow> jhuffman \<Rightarrow> bool" where
  "dc_paired nrcodes values HT h \<longleftrightarrow> paired nrcodes values HT h \<and> (\<forall>s \<le> 11. s \<in> set (map unat values))"

text \<open>The difference is received from the bits that the writer emits for it.\<close>

lemma encode_dc_ok:
  assumes p: "dc_paired nrcodes values HT h" and d: "\<bar>diff\<bar> < 2048" and st: "sunk out bs st"
  shows "\<exists>w st'. encode_dc HT diff st = Some st' \<and> sunk out (bs @ w) st' \<and>
    (\<forall>(j :: 'u jpeg) rest. feeds j (w @ rest) \<longrightarrow> (\<exists>t j1 j2. stbi_jpeg_huff_decode j h = Some (t, j1) \<and> 0 \<le> t \<and> t \<le> 15 \<and>
      (if t \<noteq> 0 then stbi_extend_receive j1 t else Some (0, j1)) = Some (diff, j2) \<and> feeds j2 rest \<and> frame j j2))"
proof -
  have dec: "\<exists>e. aget HT s = Some e \<and> fst e < 2 ^ snd e \<and> snd e \<le> 16 \<and>
      (\<forall>(j :: 'u jpeg) rest. feeds j (emitted e @ rest) \<longrightarrow> (\<exists>j1. stbi_jpeg_huff_decode j h = Some (int s, j1) \<and> feeds j1 rest \<and> frame j j1))"
    if s: "s \<le> 11" for s
  proof -
    have s': "s \<in> set (map unat values)" and pp: "paired nrcodes values HT h" using p s by (auto simp: dc_paired_def)
    obtain count i e where e: "jtables_for (lengths_of count) h" "length (lengths_of count) \<le> 255" "i < length (lengths_of count)"
      "unat (jh_values h ! i) = s" "aget HT s = Some e" "emitted e = sym_bits (lengths_of count) i" "fst e < 2 ^ snd e" "snd e \<le> 16"
      using paired_symbol [OF pp s'] .
    have "uint (jh_values h ! i) = int s" using e(4) by (simp add: uint_nat del: of_nat_unat)
    then have "\<exists>j1. stbi_jpeg_huff_decode j h = Some (int s, j1) \<and> feeds j1 rest \<and> frame j j1" if "feeds j (emitted e @ rest)" for j :: "'u jpeg" and rest
      using decode_feeds [OF e(1-3), of j rest] that e(6) by (auto simp: sym_bits_def elim!: satE)
    then show ?thesis using e(5,7,8) by blast
  qed
  show ?thesis
  proof (cases "diff = 0")
    case True
    obtain e where e: "aget HT 0 = Some e" "fst e < 2 ^ snd e" "snd e \<le> 16"
      "\<And>(j :: 'u jpeg) rest. feeds j (emitted e @ rest) \<Longrightarrow> \<exists>j1. stbi_jpeg_huff_decode j h = Some (int 0, j1) \<and> feeds j1 rest \<and> frame j j1"
      using dec [of 0] by blast
    obtain st' where s: "stbiw_jpg_writeBits st e = Some st'" "sunk out (bs @ emitted e) st'" using writeBits_sunk [OF st e(2,3)] by (auto elim: satE)
    show ?thesis
      by (intro exI [of _ "emitted e"] exI [of _ st'] conjI allI impI s(2))
        (use True e(1) s(1) in \<open>simp add: encode_dc_def\<close>, use e(4) True in force)
  next
    case False
    obtain v m where v: "stbiw_jpg_calcBits diff = Some (v, m)" "1 \<le> m" "m \<le> 11" "v < 2 ^ m" "extended m v = diff"
      using calcBits_ok [of diff 11] False d by auto
    obtain e where e: "aget HT m = Some e" "fst e < 2 ^ snd e" "snd e \<le> 16"
      "\<And>(j :: 'u jpeg) rest. feeds j (emitted e @ rest) \<Longrightarrow> \<exists>j1. stbi_jpeg_huff_decode j h = Some (int m, j1) \<and> feeds j1 rest \<and> frame j j1"
      using dec [OF v(3)] by blast
    obtain s1 where s1: "stbiw_jpg_writeBits st e = Some s1" "sunk out (bs @ emitted e) s1" using writeBits_sunk [OF st e(2,3)] by (auto elim: satE)
    obtain s2 where s2: "stbiw_jpg_writeBits s1 (v, m) = Some s2" "sunk out ((bs @ emitted e) @ bits_of m v) s2"
      using writeBits_sunk [OF s1(2), of "(v, m)"] v by (auto elim: satE)
    have "\<exists>t j1 j2. stbi_jpeg_huff_decode j h = Some (t, j1) \<and> 0 \<le> t \<and> t \<le> 15 \<and>
        (if t \<noteq> 0 then stbi_extend_receive j1 t else Some (0, j1)) = Some (diff, j2) \<and> feeds j2 rest \<and> frame j j2"
      if f: "feeds j ((emitted e @ bits_of m v) @ rest)" for j :: "'u jpeg" and rest
    proof -
      obtain j1 where j1: "stbi_jpeg_huff_decode j h = Some (int m, j1)" "feeds j1 (bits_of m v @ rest)" "frame j j1" using e(4) f by auto
      have m15: "m \<le> 15" using v(3) by simp
      obtain j2 where j2: "stbi_extend_receive j1 (int m) = Some (diff, j2)" "feeds j2 rest" "frame j1 j2"
        using receive_feeds [OF v(2) m15 v(4) j1(2)] v(5) by (auto elim!: satE)
      show ?thesis using j1(1) j2(1,2) frame_trans [OF j1(3) j2(3)] v(2,3) by (intro exI [of _ "int m"] exI [of _ j1] exI [of _ j2]) auto
    qed
    then show ?thesis using False v(1) e(1) s1(1) s2
      by (intro exI [of _ "emitted e @ bits_of m v"] exI [of _ s2]) (simp add: encode_dc_def)
  qed
qed

end
