(* ===== verification/Jpeg_Roundtrip.thy ===== *)
theory Jpeg_Roundtrip
  imports Jpeg_Entropy Jpeg_File
begin

text \<open>
  The writer and the reader of JPEG together: a sequence of blocks, written with the standard tables, padded and closed by
  the end-of-image marker, is decoded into the coefficients that were written.
\<close>

subsection \<open>One block\<close>

lemma strip_img_comp: "strip (j\<lparr>img_comp := cs\<rparr>) = (strip j)\<lparr>img_comp := cs\<rparr>"
  by (cases j) (simp add: strip_def)

lemma frame_img_comp_update: "frame i j \<Longrightarrow> frame (i\<lparr>img_comp := cs\<rparr>) (j\<lparr>img_comp := cs\<rparr>)"
  by (simp add: frame_def strip_img_comp)

lemma feeds_img_comp [simp]: "feeds (j\<lparr>img_comp := cs\<rparr>) bs = feeds j bs"
  by (simp add: feeds_def source_ok_def buffer_ok_def)

text \<open>The state after a block: the prediction of its component is its first coefficient.\<close>

definition predict :: "nat \<Rightarrow> int \<Rightarrow> 'u jpeg \<Rightarrow> 'u jpeg" where
  "predict b dc j = j\<lparr>img_comp := (img_comp j)[b := (img_comp j ! b)\<lparr>jc_dc_pred := dc\<rparr>]\<rparr>"

lemma coeffs_one:
  assumes "length du = 64"
  shows "(replicate 64 (Some 0))[0 := Some (du ! 0 * dequant ! 0)] = coeffs du dequant 1"
proof -
  have z: "stbi_jpeg_dezigzag ! 0 = 0" by (simp add: stbi_jpeg_dezigzag_def)
  have "coeffs du dequant 0 = replicate 64 (Some 0)" by (simp add: coeffs_def map_replicate_const)
  then show ?thesis using coeffs_Suc [of 0 du dequant] by (simp add: z)
qed

lemma small_i32: "\<bar>x\<bar> \<le> 32767 \<Longrightarrow> i32 x = Some x"
  by (auto simp: i32_def)

lemma decode_dc_ok:
  assumes dec: "stbi_jpeg_huff_decode j h = Some (t, j1)" "0 \<le> t" "t \<le> 15" "(if t \<noteq> 0 then stbi_extend_receive j1 t else Some (0, j1)) = Some (diff, j2)"
    and fr: "frame j j2" and b: "b < length (img_comp j)" "jc_dc_pred (img_comp j ! b) = pred"
    and lim: "\<bar>pred\<bar> \<le> 32767" "\<bar>pred + diff\<bar> \<le> 32767" "0 < q" "\<bar>(pred + diff) * q\<bar> \<le> 32767"
  shows "decode_dc reason j h b q = ret ((pred + diff) * q, j2\<lparr>img_comp := (img_comp j)[b := (img_comp j ! b)\<lparr>jc_dc_pred := pred + diff\<rparr>]\<rparr>)"
proof -
  have c: "img_comp j2 = img_comp j" using frame_img_comp [OF fr] .
  have "stbi_addints_valid pred diff" using lim(1,2) by (subst addints_valid_iff) (auto simp: INT_MIN_def INT_MAX_def)
  moreover have "stbi_mul2shorts_valid (pred + diff) q" unfolding mul2shorts_pos [OF lim(3)] using lim(4) by linarith
  moreover have "i32 (pred + diff) = Some (pred + diff)" "i32 ((pred + diff) * q) = Some ((pred + diff) * q)"
    using lim(2,4) small_i32 by blast+
  moreover have "aget (img_comp j) b = Some (img_comp j ! b)" using b(1) by simp
  moreover have nt: "\<not> (t < 0 \<or> t > 15)" using dec by simp
  ultimately show ?thesis
    unfolding decode_dc_def dec(1) bind.bind_lunit prod.case if_not_P [OF nt] dec(4) c using b to_short_small [OF lim(4)] by simp
qed

lemma encode_du_ok:
  assumes dc: "dc_paired nrD valD HTDC hdc" and ac: "ac_paired nrA valA HTAC hac fac" and b: "block_ok du dequant" "0 < dequant ! 0"
    and pred: "\<bar>pred\<bar> \<le> 32767" "\<bar>du ! 0 - pred\<bar> < 2048" and st: "sunk out bs st"
  shows "\<exists>w st'. encode_du du pred HTDC HTAC st = Some (du ! 0, st') \<and> sunk out (bs @ w) st' \<and>
    (\<forall>(j :: 'u jpeg) rest c. feeds j (w @ rest) \<longrightarrow> c < length (img_comp j) \<longrightarrow> jc_dc_pred (img_comp j ! c) = pred \<longrightarrow>
      (\<exists>j'. stbi_jpeg_decode_block j hdc hac fac c dequant = ret (j', coeffs du dequant 64) \<and> feeds j' rest \<and> frame (predict c (du ! 0) j) j'))"
proof -
  have len: "length du = 64" "length dequant = 64" using b by (simp_all add: block_ok_def)
  obtain w1 st1 where w1: "encode_dc HTDC (du ! 0 - pred) st = Some st1" "sunk out (bs @ w1) st1"
    "\<And>(j :: 'u jpeg) rest. feeds j (w1 @ rest) \<Longrightarrow> (\<exists>t j1 j2. stbi_jpeg_huff_decode j hdc = Some (t, j1) \<and> 0 \<le> t \<and> t \<le> 15 \<and>
      (if t \<noteq> 0 then stbi_extend_receive j1 t else Some (0, j1)) = Some (du ! 0 - pred, j2) \<and> feeds j2 rest \<and> frame j j2)"
    using encode_dc_ok [where ?'u = 'u, OF dc pred(2) st] by blast
  obtain q eob st2 w2 where w2: "loop (last_step du) 63 = Some q" "aget HTAC 0 = Some eob"
    "(if q = 0 then stbiw_jpg_writeBits st1 eob
     else do { st \<leftarrow> loop (encode_ac_step HTAC du q) (1, st1); if q \<noteq> 63 then stbiw_jpg_writeBits st eob else Some st }) = Some st2"
    "sunk out ((bs @ w1) @ w2) st2" "reads (ac_rest hac fac dequant :: 'u block_state \<Rightarrow> _) w2 (coeffs du dequant 1) 1 (coeffs du dequant 64) 64"
    using encode_ac_ok [where ?'u = 'u, OF ac b(1) w1(2)] by blast
  have "i32 (du ! 0 - pred) = Some (du ! 0 - pred)" using pred(2) by (auto simp: i32_def)
  then have enc: "encode_du du pred HTDC HTAC st = Some (du ! 0, st2)"
    using len w1(1) w2(1-3) by (cases "q = 0"; cases "q = 63"; cases st2) (auto simp: encode_du_def bind_eq_Some_conv)
  have "\<exists>j'. stbi_jpeg_decode_block j hdc hac fac c dequant = ret (j', coeffs du dequant 64) \<and> feeds j' rest \<and> frame (predict c (du ! 0) j) j'"
    if f: "feeds j ((w1 @ w2) @ rest)" and c: "c < length (img_comp j)" "jc_dc_pred (img_comp j ! c) = pred" for j :: "'u jpeg" and rest c
  proof -
    obtain j0 where j0: "grow_below 16 j = Some j0" "feeds j0 ((w1 @ w2) @ rest)" "frame j j0"
      using grow_below_ok [OF f, of 16] by (auto elim!: satE dest: shows_feeds)
    have c0: "img_comp j0 = img_comp j" using frame_img_comp [OF j0(3)] .
    have "feeds j0 (w1 @ w2 @ rest)" using j0(2) by simp
    from w1(3) [OF this] obtain t j1 j2 where t: "stbi_jpeg_huff_decode j0 hdc = Some (t, j1)" "0 \<le> t" "t \<le> 15"
      "(if t \<noteq> 0 then stbi_extend_receive j1 t else Some (0, j1)) = Some (du ! 0 - pred, j2)" "feeds j2 (w2 @ rest)" "frame j0 j2"
      by blast
    let ?cs = "(img_comp j)[c := (img_comp j ! c)\<lparr>jc_dc_pred := du ! 0\<rparr>]"
    have zz: "stbi_jpeg_dezigzag ! 0 = 0" by (simp add: stbi_jpeg_dezigzag_def)
    have bb: "\<bar>du ! 0\<bar> \<le> 32767" "\<bar>du ! 0 * dequant ! 0\<bar> \<le> 32767" using b(1) zz unfolding block_ok_def by (metis, metis zero_less_numeral)
    have dcv: "decode_dc ''bad huffman code'' j0 hdc c (dequant ! 0) = ret (du ! 0 * dequant ! 0, j2\<lparr>img_comp := ?cs\<rparr>)"
      using decode_dc_ok [OF t(1-4,6), of c pred "dequant ! 0" "''bad huffman code''"] c c0 pred(1) bb b(2) by simp
    have "feeds (j2\<lparr>img_comp := ?cs\<rparr>) (w2 @ rest)" using t(5) by simp
    then obtain j' where j': "ac_rest hac fac dequant (j2\<lparr>img_comp := ?cs\<rparr>, coeffs du dequant 1, int 1) = ac_rest hac fac dequant (j', coeffs du dequant 64, int 64)"
      "feeds j' rest" "frame (j2\<lparr>img_comp := ?cs\<rparr>) j'" using w2(5) unfolding reads_def by blast
    have "stbi_jpeg_decode_block j hdc hac fac c dequant = ret (j', coeffs du dequant 64)"
      using j0(1) dcv j'(1) coeffs_one [OF len(1), of dequant] len by (simp add: stbi_jpeg_decode_block_def ac_rest_def)
    moreover have "frame (predict c (du ! 0) j) j'"
      unfolding predict_def by (rule frame_trans [OF frame_img_comp_update [OF frame_trans [OF j0(3) t(6)]] j'(3)])
    ultimately show ?thesis using j'(2) by blast
  qed
  moreover have "sunk out (bs @ w1 @ w2) st2" using w2(4) by simp
  ultimately show ?thesis using enc by blast
qed

text \<open>The bits of a block do not depend on the tables of the reader.\<close>

lemma encode_du_all:
  assumes dc: "dc_paired nrD valD HTDC hdc0" and ac: "ac_paired nrA valA HTAC hac0 fac0" and b: "block_ok du dequant" "0 < dequant ! 0"
    and pred: "\<bar>pred\<bar> \<le> 32767" "\<bar>du ! 0 - pred\<bar> < 2048" and st: "sunk out bs st"
  shows "\<exists>w st'. encode_du du pred HTDC HTAC st = Some (du ! 0, st') \<and> sunk out (bs @ w) st' \<and>
    (\<forall>(j :: 'u jpeg) rest c nD vD nA vA hdc hac fac. dc_paired nD vD HTDC hdc \<longrightarrow> ac_paired nA vA HTAC hac fac \<longrightarrow>
      feeds j (w @ rest) \<longrightarrow> c < length (img_comp j) \<longrightarrow> jc_dc_pred (img_comp j ! c) = pred \<longrightarrow>
      (\<exists>j'. stbi_jpeg_decode_block j hdc hac fac c dequant = ret (j', coeffs du dequant 64) \<and> feeds j' rest \<and> frame (predict c (du ! 0) j) j'))"
proof -
  obtain w st' where w: "encode_du du pred HTDC HTAC st = Some (du ! 0, st')" "sunk out (bs @ w) st'"
    using encode_du_ok [OF dc ac b pred st] by blast
  have "\<exists>j'. stbi_jpeg_decode_block j hdc hac fac c dequant = ret (j', coeffs du dequant 64) \<and> feeds j' rest \<and> frame (predict c (du ! 0) j) j'"
    if p: "dc_paired nD vD HTDC hdc" "ac_paired nA vA HTAC hac fac" and j: "feeds j (w @ rest)" "c < length (img_comp j)" "jc_dc_pred (img_comp j ! c) = pred"
    for j :: "'u jpeg" and rest c nD vD nA vA hdc hac fac
  proof -
    obtain w1 where w1: "sunk out (bs @ w1) st'" "\<And>(j :: 'u jpeg) rest c. feeds j (w1 @ rest) \<Longrightarrow> c < length (img_comp j) \<Longrightarrow> jc_dc_pred (img_comp j ! c) = pred \<Longrightarrow>
      (\<exists>j'. stbi_jpeg_decode_block j hdc hac fac c dequant = ret (j', coeffs du dequant 64) \<and> feeds j' rest \<and> frame (predict c (du ! 0) j) j')"
      using encode_du_ok [where ?'u = 'u, OF p b pred st] w(1) by auto
    have "w1 = w" using sunk_unique [OF w1(1) w(2)] by simp
    then show ?thesis using w1(2) j by blast
  qed
  then show ?thesis using w by blast
qed

subsection \<open>The decoder of a file with the standard tables\<close>

text \<open>Component 0 has the luminance tables, the others the chrominance tables.\<close>

definition table_ix :: "nat \<Rightarrow> int" where
  "table_ix b = (if b = 0 then 0 else 1)"

text \<open>A table that has been built from counts, and its symbols.\<close>

definition built :: "bytes \<Rightarrow> bytes \<Rightarrow> jhuffman \<Rightarrow> bool" where
  "built nrcodes values h \<longleftrightarrow> (\<exists>h0 h1. jshape h0 \<and> stbi_build_huffman h0 (map unat (tl nrcodes)) = ret h1 \<and>
     h = h1\<lparr>jh_values := values @ drop (length values) (jh_values h1)\<rparr>)"

definition fast_built :: "jhuffman \<Rightarrow> int list \<Rightarrow> bool" where
  "fast_built h fac \<longleftrightarrow> (\<exists>fa. length fa = 512 \<and> stbi_build_fast_ac fa h = Some fac)"

definition component_ok :: "nat \<Rightarrow> int list \<Rightarrow> 'u jpeg \<Rightarrow> bool" where
  "component_ok b dq j \<longleftrightarrow> b < length (img_comp j) \<and> jc_hd (img_comp j ! b) = table_ix b \<and> jc_ha (img_comp j ! b) = table_ix b \<and>
     jc_tq (img_comp j ! b) = table_ix b \<and> iget (j_dequant j) (table_ix b) = Some dq \<and>
     (\<exists>hdc hac fac. iget (huff_dc j) (table_ix b) = Some hdc \<and> iget (huff_ac j) (table_ix b) = Some hac \<and> iget (fast_ac j) (table_ix b) = Some fac \<and>
        built (if b = 0 then std_dc_luminance_nrcodes else std_dc_chrominance_nrcodes)
          (if b = 0 then std_dc_luminance_values else std_dc_chrominance_values) hdc \<and>
        built (if b = 0 then std_ac_luminance_nrcodes else std_ac_chrominance_nrcodes)
          (if b = 0 then std_ac_luminance_values else std_ac_chrominance_values) hac \<and> fast_built hac fac)"

definition std_decoder :: "(nat \<Rightarrow> int list) \<Rightarrow> 'u jpeg \<Rightarrow> bool" where
  "std_decoder dq j \<longleftrightarrow> (\<forall>b < 3. component_ok b (dq b) j)"

lemma built_paired:
  assumes "built nrcodes values h" "table_for nrcodes values HT"
  shows "paired nrcodes values HT h"
proof -
  let ?c = "map unat (tl nrcodes)"
  obtain h0 h1 where h: "jshape h0" "stbi_build_huffman h0 ?c = ret h1" "h = h1\<lparr>jh_values := values @ drop (length values) (jh_values h1)\<rparr>"
    using assms(1) by (auto simp: built_def)
  have t: "length ?c = 16" "length values \<le> 255" "length (lengths_of ?c) \<le> 256" using assms(2) by (auto simp: table_for_def)
  have "jtables_for (lengths_of ?c) h1" using build_huffman_ok [OF t(1) h(1) t(3)] h(2) by (auto simp: esatx_def ret_def)
  moreover from this have "length (jh_values h1) = 256" by (simp add: jtables_for_def jshape_def)
  ultimately show ?thesis using assms(2) h(3) t(2) jtables_values by (auto simp: paired_def nth_append)
qed

lemma fast_built_for:
  assumes "paired nrcodes values HT h" "fast_built h fac"
  shows "fac_for h fac"
proof -
  let ?c = "map unat (tl nrcodes)"
  have t: "jtables_for (lengths_of ?c) h" "length (lengths_of ?c) \<le> 255" using assms(1) by (auto simp: paired_def table_for_def)
  have e: "fast_ac_entry h i \<noteq> None" if "i < 512" for i using fast_ac_entry_ok [OF t that] by auto
  obtain fa where "length fa = 512" "stbi_build_fast_ac fa h = Some fac" using assms(2) by (auto simp: fast_built_def)
  then show ?thesis using build_fast_ac_ok [of fa h, OF _ e] by (simp add: fac_for_def)
qed

lemma component_tables:
  assumes "component_ok b dq j"
  obtains hdc hac fac nrD valD nrA valA where "iget (huff_dc j) (table_ix b) = Some hdc" "iget (huff_ac j) (table_ix b) = Some hac" "iget (fast_ac j) (table_ix b) = Some fac"
    "dc_paired nrD valD (if b = 0 then YDC_HT else UVDC_HT) hdc" "ac_paired nrA valA (if b = 0 then YAC_HT else UVAC_HT) hac fac"
proof -
  let ?nD = "if b = 0 then std_dc_luminance_nrcodes else std_dc_chrominance_nrcodes" and ?vD = "if b = 0 then std_dc_luminance_values else std_dc_chrominance_values"
  let ?nA = "if b = 0 then std_ac_luminance_nrcodes else std_ac_chrominance_nrcodes" and ?vA = "if b = 0 then std_ac_luminance_values else std_ac_chrominance_values"
  let ?HD = "if b = 0 then YDC_HT else UVDC_HT" and ?HA = "if b = 0 then YAC_HT else UVAC_HT"
  have t: "table_for ?nD ?vD ?HD" "table_for ?nA ?vA ?HA" using YDC_table UVDC_table YAC_table UVAC_table by (cases "b = 0"; simp)+
  obtain hdc hac fac where h: "iget (huff_dc j) (table_ix b) = Some hdc" "iget (huff_ac j) (table_ix b) = Some hac" "iget (fast_ac j) (table_ix b) = Some fac"
    "built ?nD ?vD hdc" "built ?nA ?vA hac" "fast_built hac fac"
    using assms unfolding component_ok_def by blast
  note p = built_paired [OF h(4) t(1)] built_paired [OF h(5) t(2)]
  have "dc_paired ?nD ?vD ?HD hdc" using p(1) dc_present by (cases "b = 0") (simp_all add: dc_paired_def del: set_map)
  moreover have "ac_paired ?nA ?vA ?HA hac fac"
    using p(2) fast_built_for [OF p(2) h(6)] ac_present by (cases "b = 0") (simp_all add: ac_paired_def del: set_map)
  ultimately show thesis using that [OF h(1-3)] by blast
qed

lemma std_decoder_frame:
  assumes "std_decoder dq j" "frame j j'"
  shows "std_decoder dq j'"
proof -
  have "strip j = strip j'" using assms(2) by (simp add: frame_def)
  then have "img_comp j = img_comp j'" "huff_dc j = huff_dc j'" "huff_ac j = huff_ac j'" "fast_ac j = fast_ac j'" "j_dequant j = j_dequant j'"
    unfolding strip_def by (cases j; cases j'; simp)+
  then show ?thesis using assms(1) by (simp add: std_decoder_def component_ok_def)
qed

lemma component_ok_predict: "component_ok c dq j \<Longrightarrow> component_ok c dq (predict b dc j)"
  by (cases "b = c") (auto simp: component_ok_def predict_def)

lemma std_decoder_predict: "std_decoder dq j \<Longrightarrow> std_decoder dq (predict b dc j)"
  by (simp add: std_decoder_def component_ok_predict)

lemma built_exists:
  assumes "table_for nrcodes values HT"
  shows "\<exists>h. built nrcodes values h"
proof -
  let ?c = "map unat (tl nrcodes)"
  have t: "length ?c = 16" "code_upto 16 (lengths_of ?c)" "length (lengths_of ?c) \<le> 256" using assms by (auto simp: table_for_def)
  have sh: "jshape zero_jhuffman" by (simp add: jshape_def zero_jhuffman_def)
  obtain r where r: "stbi_build_huffman zero_jhuffman ?c = Some r" "\<And>e. r \<noteq> Inl e" using build_huffman_ok [OF t(1) sh t(3)] t(2) by (auto simp: esatx_def)
  then obtain h1 where "stbi_build_huffman zero_jhuffman ?c = ret h1" by (cases r) (auto simp: ret_def)
  then show ?thesis using sh by (auto simp: built_def)
qed

lemma fast_exists:
  assumes "paired nrcodes values HT h"
  shows "\<exists>fac. fast_built h fac"
proof -
  let ?c = "map unat (tl nrcodes)"
  have t: "jtables_for (lengths_of ?c) h" "length (lengths_of ?c) \<le> 255" using assms by (auto simp: paired_def table_for_def)
  have e: "fast_ac_entry h i \<noteq> None" if "i < 512" for i using fast_ac_entry_ok [OF t that] by auto
  obtain fac where "stbi_build_fast_ac (replicate 512 0) h = Some fac"
    by (rule satE [OF build_fast_ac_ok [of "replicate 512 0" h, OF _ e]]) auto
  then show ?thesis unfolding fast_built_def by (intro exI [of _ fac] exI [of _ "replicate 512 0"]) simp
qed

lemma tables_exist:
  "\<exists>hY hUV aY aUV fY fUV. built std_dc_luminance_nrcodes std_dc_luminance_values hY \<and> built std_dc_chrominance_nrcodes std_dc_chrominance_values hUV \<and>
    built std_ac_luminance_nrcodes std_ac_luminance_values aY \<and> built std_ac_chrominance_nrcodes std_ac_chrominance_values aUV \<and>
    fast_built aY fY \<and> fast_built aUV fUV"
  using built_exists [OF YDC_table] built_exists [OF UVDC_table] built_exists [OF YAC_table] built_exists [OF UVAC_table]
    fast_exists built_paired [OF _ YAC_table] built_paired [OF _ UVAC_table] by metis

text \<open>A decoder that has read the standard tables.\<close>

lemma std_decoder_exists:
  assumes "dq 1 = dq 2"
  shows "\<exists>j. std_decoder dq j \<and> j_s j = s"
proof -
  obtain hY hUV aY aUV fY fUV where t: "built std_dc_luminance_nrcodes std_dc_luminance_values hY" "built std_dc_chrominance_nrcodes std_dc_chrominance_values hUV"
    "built std_ac_luminance_nrcodes std_ac_luminance_values aY" "built std_ac_chrominance_nrcodes std_ac_chrominance_values aUV"
    "fast_built aY fY" "fast_built aUV fUV" using tables_exist by blast
  let ?c = "zero_jcomp\<lparr>jc_hd := 1, jc_ha := 1, jc_tq := 1\<rparr>"
  let ?j = "(zero_jpeg s)\<lparr>huff_dc := [hY, hUV], huff_ac := [aY, aUV], fast_ac := [fY, fUV], j_dequant := [dq 0, dq 1], img_comp := [zero_jcomp, ?c, ?c]\<rparr>"
  have "component_ok b (dq b) ?j" if "b < 3" for b
  proof -
    have "b = 0 \<or> b = 1 \<or> b = 2" using that by arith
    then show ?thesis using t assms by (elim disjE) (simp_all add: component_ok_def table_ix_def iget_def zero_jcomp_def)
  qed
  then show ?thesis by (intro exI [of _ ?j]) (simp add: std_decoder_def zero_jpeg_def)
qed

subsection \<open>Sequences of blocks\<close>

text \<open>The blocks of a scan, each with its component, in the order in which the writer encodes them; the writer keeps the prediction of
  each component.\<close>

fun encode_units :: "(nat \<times> int list) list \<Rightarrow> (nat \<Rightarrow> int) \<Rightarrow> bit_sink \<Rightarrow> ((nat \<Rightarrow> int) \<times> bit_sink) option" where
  "encode_units [] dcs st = Some (dcs, st)"
| "encode_units ((b, du) # us) dcs st = do {
     (dc, st) \<leftarrow> encode_du du (dcs b) (if b = 0 then YDC_HT else UVDC_HT) (if b = 0 then YAC_HT else UVAC_HT) st;
     encode_units us (dcs(b := dc)) st }"

text \<open>The reader decodes a block of each of the components in turn.\<close>

fun decode_units :: "nat list \<Rightarrow> 'u jpeg \<Rightarrow> ('u jpeg \<times> int option list list) res" where
  "decode_units [] j = ret (j, [])"
| "decode_units (b # bs) j = ebind (base_coeffs b j) (\<lambda>(j, d). ebind (decode_units bs j) (\<lambda>(j, ds). ret (j, d # ds)))"

text \<open>The writer of a unit without subsampling encodes its three blocks in this way.\<close>

lemma unit_444_units:
  assumes "planes y x = Some (Y, U, V)" "du_coefficients Y 0 8 fdY = Some a" "du_coefficients U 0 8 fdUV = Some b" "du_coefficients V 0 8 fdUV = Some c"
  shows "unit_444 planes fdY fdUV y x ((dcs 0, dcs 1, dcs 2), st) =
    map_option (\<lambda>(dcs, st). ((dcs 0, dcs 1, dcs 2), st)) (encode_units [(0, a), (1, b), (2, c)] dcs st)"
  using assms by (auto simp: unit_444_def stbiw_jpg_processDU_def split: bind_splits prod.splits)

definition unit_ok :: "(nat \<Rightarrow> int list) \<Rightarrow> nat \<times> int list \<Rightarrow> bool" where
  "unit_ok dq u \<longleftrightarrow> (case u of (b, du) \<Rightarrow> b < 3 \<and> block_ok du (dq b) \<and> 0 < dq b ! 0 \<and> - 1024 \<le> du ! 0 \<and> du ! 0 \<le> 1023)"

lemma units_ok:
  assumes "\<forall>u \<in> set us. unit_ok dq u" and "\<forall>b. - 1024 \<le> dcs b \<and> dcs b \<le> 1023" and "sunk out bs st"
  shows "\<exists>w dcs' st'. encode_units us dcs st = Some (dcs', st') \<and> sunk out (bs @ w) st' \<and>
    (\<forall>(j :: 'u jpeg) rest. feeds j (w @ rest) \<longrightarrow> std_decoder dq j \<longrightarrow> (\<forall>b < 3. jc_dc_pred (img_comp j ! b) = dcs b) \<longrightarrow>
      (\<exists>j'. decode_units (map fst us) j = ret (j', map (\<lambda>(b, du). coeffs du (dq b) 64) us) \<and> feeds j' rest))"
  using assms
proof (induction us arbitrary: dcs bs st)
  case Nil
  then show ?case by (auto intro!: exI [of _ "[]"])
next
  case (Cons u us)
  obtain b du where [simp]: "u = (b, du)" by (cases u)
  have u: "b < 3" "block_ok du (dq b)" "0 < dq b ! 0" "- 1024 \<le> du ! 0" "du ! 0 \<le> 1023" using Cons.prems(1) by (simp_all add: unit_ok_def)
  have "- 1024 \<le> dcs b" "dcs b \<le> 1023" using Cons.prems(2) by simp_all
  then have pred: "\<bar>dcs b\<bar> \<le> 32767" "\<bar>du ! 0 - dcs b\<bar> < 2048" using u(4,5) by linarith+
  let ?HD = "if b = 0 then YDC_HT else UVDC_HT" and ?HA = "if b = 0 then YAC_HT else UVAC_HT"
  obtain k :: "unit jpeg" where "std_decoder (\<lambda>_. []) k" using std_decoder_exists [of "\<lambda>_. []"] by blast
  then have k: "component_ok b [] k" using u(1) by (simp add: std_decoder_def)
  obtain hdc hac fac nD vD nA vA where p: "dc_paired nD vD ?HD hdc" "ac_paired nA vA ?HA hac fac" by (rule component_tables [OF k])
  obtain w1 st1 where w1: "encode_du du (dcs b) ?HD ?HA st = Some (du ! 0, st1)" "sunk out (bs @ w1) st1"
    "\<And>(j :: 'u jpeg) rest c nD vD nA vA hdc hac fac. dc_paired nD vD ?HD hdc \<Longrightarrow> ac_paired nA vA ?HA hac fac \<Longrightarrow>
      feeds j (w1 @ rest) \<Longrightarrow> c < length (img_comp j) \<Longrightarrow> jc_dc_pred (img_comp j ! c) = dcs b \<Longrightarrow>
      (\<exists>j'. stbi_jpeg_decode_block j hdc hac fac c (dq b) = ret (j', coeffs du (dq b) 64) \<and> feeds j' rest \<and> frame (predict c (du ! 0) j) j')"
    using encode_du_all [where ?'u = 'u, OF p u(2,3) pred Cons.prems(3)] by blast
  have "\<forall>c. - 1024 \<le> (dcs(b := du ! 0)) c \<and> (dcs(b := du ! 0)) c \<le> 1023" using Cons.prems(2) u(4,5) by simp
  moreover have "\<forall>u \<in> set us. unit_ok dq u" using Cons.prems(1) by simp
  ultimately obtain w2 dcs' st2 where
    w2: "encode_units us (dcs(b := du ! 0)) st1 = Some (dcs', st2)" "sunk out ((bs @ w1) @ w2) st2"
    "\<And>(j :: 'u jpeg) rest. feeds j (w2 @ rest) \<Longrightarrow> std_decoder dq j \<Longrightarrow> \<forall>c < 3. jc_dc_pred (img_comp j ! c) = (dcs(b := du ! 0)) c \<Longrightarrow>
      (\<exists>j'. decode_units (map fst us) j = ret (j', map (\<lambda>(b, du). coeffs du (dq b) 64) us) \<and> feeds j' rest)"
    using Cons.IH [of "dcs(b := du ! 0)" "bs @ w1" st1] w1(2) by blast
  have "\<exists>j'. decode_units (map fst (u # us)) j = ret (j', map (\<lambda>(b, du). coeffs du (dq b) 64) (u # us)) \<and> feeds j' rest"
    if f: "feeds j ((w1 @ w2) @ rest)" and sd: "std_decoder dq j" and dcs: "\<forall>c < 3. jc_dc_pred (img_comp j ! c) = dcs c" for j :: "'u jpeg" and rest
  proof -
    have co: "component_ok b (dq b) j" using sd u(1) by (simp add: std_decoder_def)
    then have c: "b < length (img_comp j)" "jc_hd (img_comp j ! b) = table_ix b" "jc_ha (img_comp j ! b) = table_ix b" "jc_tq (img_comp j ! b) = table_ix b"
      "iget (j_dequant j) (table_ix b) = Some (dq b)" unfolding component_ok_def by blast+
    obtain hdc hac fac nD vD nA vA where t: "iget (huff_dc j) (table_ix b) = Some hdc" "iget (huff_ac j) (table_ix b) = Some hac"
      "iget (fast_ac j) (table_ix b) = Some fac" "dc_paired nD vD ?HD hdc" "ac_paired nA vA ?HA hac fac" by (rule component_tables [OF co])
    obtain j1 where j1: "stbi_jpeg_decode_block j hdc hac fac b (dq b) = ret (j1, coeffs du (dq b) 64)" "feeds j1 (w2 @ rest)" "frame (predict b (du ! 0) j) j1"
      using w1(3) [OF t(4,5), of j "w2 @ rest" b] f c(1) dcs u(1) by auto
    have "base_coeffs b j = ret (j1, coeffs du (dq b) 64)" using c t(1-3) j1(1) by (simp add: base_coeffs_def)
    moreover have "std_decoder dq j1" by (rule std_decoder_frame [OF std_decoder_predict [OF sd] j1(3)])
    moreover have "\<forall>i < 3. jc_dc_pred (img_comp j1 ! i) = (dcs(b := du ! 0)) i"
      using frame_img_comp [OF j1(3)] dcs c(1) by (auto simp: predict_def nth_list_update)
    ultimately show ?thesis using w2(3) [OF j1(2)] by auto
  qed
  moreover have "sunk out (bs @ w1 @ w2) st2" using w2(2) by simp
  moreover have "encode_units (u # us) dcs st = Some (dcs', st2)" using w1(1) w2(1) by simp
  ultimately show ?case by blast
qed

lemma reset_feeds:
  assumes j: "mem_ctx (j_s j)" "pending (j_s j) = stuff B @ 0xFF # 0xD9 # tail" and pre: "prefix bs (stream_bits B)"
  shows "feeds (stbi_jpeg_reset j) bs"
proof -
  have "buffer_ok (stbi_jpeg_reset j) []" by (simp add: buffer_ok_def holds_bits_def stbi_jpeg_reset_def)
  moreover have "source_ok (stbi_jpeg_reset j) B" using j by (auto simp: source_ok_def stbi_jpeg_reset_def)
  ultimately show ?thesis unfolding feeds_def using pre by (intro exI [of _ "[]"] exI [of _ B]) simp
qed

lemma reset_decoder: "std_decoder dq j \<Longrightarrow> std_decoder dq (stbi_jpeg_reset j)"
  by (auto simp: std_decoder_def component_ok_def stbi_jpeg_reset_def)

lemma reset_pred: "b < length (img_comp j) \<Longrightarrow> jc_dc_pred (img_comp (stbi_jpeg_reset j) ! b) = 0"
  by (simp add: stbi_jpeg_reset_def)

text \<open>C6: Any sequence of blocks of quantised coefficients in the ranges of baseline JPEG is encoded without failure by the writer
  (difference of the first coefficient, runs of zeros, magnitudes, the standard Huffman tables, a zero after every byte 255,
  padding with ones). Whatever decoder has built its tables from the counts and symbols in the file header reads the
  blocks back from these bytes, up to the marker that ends the image: every block in order, every coefficient at its place,
  multiplied by its quantiser, through the table for short codes or without it.\<close>

theorem jpeg_entropy_roundtrip:
  assumes "\<forall>u \<in> set units. unit_ok dq u"
  shows "\<exists>dcs st s' fill scan. encode_units units (\<lambda>_. 0) (s, 0, 0) = Some (dcs, st) \<and>
    stbiw_jpg_writeBits st (0x7F, 7) = Some (s', fill) \<and> w_out s' = w_out s @ scan \<and>
    (\<forall>(j :: 'u jpeg) tail. std_decoder dq j \<longrightarrow> mem_ctx (j_s j) \<longrightarrow> pending (j_s j) = scan @ [0xFF, 0xD9] @ tail \<longrightarrow>
      (\<exists>j'. decode_units (map fst units) (stbi_jpeg_reset j) =
         ret (j', map (\<lambda>(b, du). map (\<lambda>z. Some (du ! (stbiw_jpg_ZigZag ! z) * dq b ! z)) [0..<64]) units)))"
proof -
  obtain w dcs st where w: "encode_units units (\<lambda>_. 0) (s, 0, 0) = Some (dcs, st)" "sunk (w_out s) ([] @ w) st"
    "\<And>(j :: 'u jpeg) rest. feeds j (w @ rest) \<Longrightarrow> std_decoder dq j \<Longrightarrow> \<forall>b < 3. jc_dc_pred (img_comp j ! b) = 0 \<Longrightarrow>
      (\<exists>j'. decode_units (map fst units) j = ret (j', map (\<lambda>(b, du). coeffs du (dq b) 64) units) \<and> feeds j' rest)"
    using units_ok [where ?'u = 'u, OF assms, of "\<lambda>_. 0" "w_out s" "[]" "(s, 0, 0)"] sunk_start by auto
  obtain s' fill B where fill: "stbiw_jpg_writeBits st (0x7F, 7) = Some (s', fill)" "w_out s' = w_out s @ stuff B" "prefix w (stream_bits B)"
    using fill_ok [OF w(2)] by (auto elim!: satE)
  have c: "coeffs du q 64 = map (\<lambda>z. Some (du ! (stbiw_jpg_ZigZag ! z) * q ! z)) [0..<64]" for du q
    using zigzag_dezigzag(3) by (simp add: coeffs_def)
  have "\<exists>j'. decode_units (map fst units) (stbi_jpeg_reset j) = ret (j', map (\<lambda>(b, du). map (\<lambda>z. Some (du ! (stbiw_jpg_ZigZag ! z) * dq b ! z)) [0..<64]) units)"
    if j: "std_decoder dq j" "mem_ctx (j_s j)" "pending (j_s j) = stuff B @ [0xFF, 0xD9] @ tail" for j :: "'u jpeg" and tail
  proof -
    have "feeds (stbi_jpeg_reset j) (w @ [])" using reset_feeds [OF j(2) _ fill(3)] j(3) by simp
    moreover have "\<forall>b < 3. jc_dc_pred (img_comp (stbi_jpeg_reset j) ! b) = 0" using j(1) reset_pred by (auto simp: std_decoder_def component_ok_def)
    ultimately show ?thesis using w(3) [OF _ reset_decoder [OF j(1)]] unfolding c by blast
  qed
  then show ?thesis using w(1) fill(1,2) by blast
qed

theorem jpeg_entropy_roundtrip_witness:
  "\<exists>dcs st s' fill scan (j :: unit jpeg) j'.
    encode_units [(0, 5 # - 3 # replicate 62 0), (1, replicate 64 0)] (\<lambda>_. 0) (stbi_start_write_callbacks, 0, 0) = Some (dcs, st) \<and>
    stbiw_jpg_writeBits st (0x7F, 7) = Some (s', fill) \<and> w_out s' = scan \<and>
    std_decoder (\<lambda>_. replicate 64 2) j \<and> pending (j_s j) = scan @ [0xFF, 0xD9] \<and>
    decode_units [0, 1] (stbi_jpeg_reset j) = ret (j', [Some 10 # Some (- 6) # replicate 62 (Some 0), replicate 64 (Some 0)])"
proof -
  let ?us = "[(0, 5 # - 3 # replicate 62 0), (1, replicate 64 0)] :: (nat \<times> int list) list" and ?dq = "\<lambda>_ :: nat. replicate 64 2 :: int list"
  have z: "stbi_jpeg_dezigzag ! k < 64" if "k < 64" for k using that dezigzag_less by simp
  define xs :: "int list" where "xs = 5 # - 3 # replicate 62 0"
  have len: "length xs = 64" by (simp add: xs_def)
  have xs: "xs ! k = (if k = 0 then 5 else if k = 1 then - 3 else 0)" if "k < 64" for k
    using that by (auto simp: xs_def nth_Cons split: nat.splits)
  have "unit_ok ?dq (0, xs)" using z xs len by (simp add: unit_ok_def block_ok_def)
  moreover have "unit_ok ?dq (1, replicate 64 0)" using z by (simp add: unit_ok_def block_ok_def)
  ultimately have "\<forall>u \<in> set ?us. unit_ok ?dq u" by (simp add: xs_def)
  from jpeg_entropy_roundtrip [OF this, of stbi_start_write_callbacks, where ?'u = unit]
  obtain dcs st s' fill scan where w: "encode_units ?us (\<lambda>_. 0) (stbi_start_write_callbacks, 0, 0) = Some (dcs, st)"
    "stbiw_jpg_writeBits st (0x7F, 7) = Some (s', fill)" "w_out s' = w_out stbi_start_write_callbacks @ scan"
    "\<And>(j :: unit jpeg) tail. std_decoder ?dq j \<Longrightarrow> mem_ctx (j_s j) \<Longrightarrow> pending (j_s j) = scan @ [0xFF, 0xD9] @ tail \<Longrightarrow>
      (\<exists>j'. decode_units (map fst ?us) (stbi_jpeg_reset j) =
         ret (j', map (\<lambda>(b, du). map (\<lambda>z. Some (du ! (stbiw_jpg_ZigZag ! z) * ?dq b ! z)) [0..<64]) ?us))" by blast
  let ?f = "scan @ [0xFF, 0xD9]"
  obtain j :: "unit jpeg" where j: "std_decoder ?dq j" "j_s j = stbi_start_mem (fresh_context ()) ?f (length ?f)"
    using std_decoder_exists [of ?dq "stbi_start_mem (fresh_context ()) ?f (length ?f)"] by auto
  have p: "mem_ctx (j_s j)" "pending (j_s j) = ?f" unfolding j(2) by (simp_all add: mem_ctx_start pending_start)
  obtain j' where j': "decode_units (map fst ?us) (stbi_jpeg_reset j) =
      ret (j', map (\<lambda>(b, du). map (\<lambda>z. Some (du ! (stbiw_jpg_ZigZag ! z) * ?dq b ! z)) [0..<64]) ?us)" using w(4) [OF j(1) p(1), of "[]"] p(2) by auto
  have "map (\<lambda>z. Some ((5 # - 3 # replicate 62 0) ! (stbiw_jpg_ZigZag ! z) * (replicate 64 2 :: int list) ! z)) [0..<64] = Some 10 # Some (- 6) # replicate 62 (Some 0)"
    by code_simp
  moreover have "map (\<lambda>z. Some ((replicate 64 0 :: int list) ! (stbiw_jpg_ZigZag ! z) * replicate 64 2 ! z)) [0..<64] = replicate 64 (Some 0)"
    by code_simp
  ultimately have "decode_units [0, 1] (stbi_jpeg_reset j) = ret (j', [Some 10 # Some (- 6) # replicate 62 (Some 0), replicate 64 (Some 0)])"
    using j' by (simp only: list.map prod.case fst_conv)
  then show ?thesis using w(1-3) j(1) p(2) by (auto simp: stbi_start_write_callbacks_def)
qed

end
