(* ===== verification/Zlib_Stream.thy ===== *)
theory Zlib_Stream
  imports Zlib_Safe Bit_String "HOL-Library.Sublist"
begin

text \<open>
  The bit stream of the DEFLATE decoder: the bits in its buffer and those of the bytes that are left. Filling the buffer keeps the
  stream, and the decoder and the reader of numbers take their bits from its front.
\<close>

definition zstream :: "zbuf \<Rightarrow> bits" where
  "zstream a = lbits (nat (num_bits a)) (unat (code_buffer a)) @ lstream (drop (zbuffer a) (take (zbuffer_end a) (zin a)))"

text \<open>The stream starts with the given bits; at least sixteen more follow, so that the end of the input is not noticed.\<close>

definition zfeeds :: "zbuf \<Rightarrow> bits \<Rightarrow> bool" where
  "zfeeds a bs \<longleftrightarrow> bits_ok a \<and> \<not> hit_zeof_once a \<and> prefix bs (zstream a)"

lemma zfeeds_out [simp]: "zfeeds (a\<lparr>zblock := b\<rparr>) bs = zfeeds a bs" "zfeeds (a\<lparr>zout := n\<rparr>) bs = zfeeds a bs"
  "zfeeds (a\<lparr>z_length := h\<rparr>) bs = zfeeds a bs" "zfeeds (a\<lparr>z_distance := h\<rparr>) bs = zfeeds a bs"
  by (simp_all add: zfeeds_def bits_ok_def zstream_def)

text \<open>Nothing but the input side has changed.\<close>

definition same_side :: "zbuf \<Rightarrow> zbuf \<Rightarrow> bool" where
  "same_side a b \<longleftrightarrow> same_out a b \<and> hit_zeof_once b = hit_zeof_once a"

lemma same_side_refl [simp]: "same_side a a"
  by (simp add: same_side_def same_out_def)

lemma same_side_trans: "same_side a b \<Longrightarrow> same_side b c \<Longrightarrow> same_side a c"
  by (simp add: same_side_def same_out_def)

subsection \<open>Filling\<close>

lemma fill_step_stream:
  assumes ok: "bits_ok z" and n: "num_bits z \<le> 24"
  shows "sat (fill_step z) (\<lambda>r. \<exists>z'. bits_ok z' \<and> same_side z z' \<and> num_bits z' = num_bits z + 8 \<and> prefix (zstream z) (zstream z') \<and>
     (\<not> stbi_zeof z \<longrightarrow> zbuffer z' = zbuffer z + 1 \<and> zstream z' = zstream z) \<and> r = (if num_bits z' \<le> 24 then Inr z' else Inl z'))"
proof -
  let ?n = "nat (num_bits z)"
  have nn: "0 \<le> num_bits z" "num_bits z < 32" "?n \<le> 24" using ok n by (auto simp: bits_ok_def)
  have c: "unat (code_buffer z) < 2 ^ ?n" "zbuffer z \<le> zbuffer_end z" "zbuffer_end z \<le> length (zin z)" using ok by (auto simp: bits_ok_def)
  have lim: "\<not> push_bit ?n 1 \<le> code_buffer z" using c(1) nn unat_pow2 [of ?n] by (simp add: push_bit_eq_mult word_le_nat_alt)
  have sh: "shl32 1 (num_bits z) = Some (push_bit ?n 1)" "shl32 (ucast (b :: byte)) (num_bits z) = Some (push_bit ?n (ucast b))" for b
    using nn by (simp_all add: shl32_def)
  define b where "b = (if stbi_zeof z then 0 else zin z ! zbuffer z)"
  define k where "k = (if stbi_zeof z then zbuffer z else zbuffer z + 1)"
  let ?z = "z\<lparr>zbuffer := k, code_buffer := code_buffer z OR push_bit ?n (ucast b), num_bits := num_bits z + 8\<rparr>"
  have g: "stbi_zget8 z = Some (b, z\<lparr>zbuffer := k\<rparr>)"
    using c by (auto simp: stbi_zget8_def stbi_zeof_def b_def k_def)
  have step: "fill_step z = Some (if num_bits ?z \<le> 24 then Inr ?z else Inl ?z)"
    using g lim sh by (simp add: fill_step_def)
  have v: "unat (code_buffer ?z) = unat (code_buffer z) + unat b * 2 ^ ?n" using or_shifted [OF c(1) nn(3), of b] by simp
  have n8: "nat (num_bits z + 8) = ?n + 8" using nn by (simp add: nat_add_distrib)
  have "unat (code_buffer z) + unat b * 2 ^ ?n < 2 ^ ?n + 255 * 2 ^ ?n" using c(1) unat_u8_less [of b] by (intro add_less_le_mono) auto
  also have "\<dots> = 2 ^ nat (num_bits z + 8)" by (simp add: n8 power_add)
  finally have "unat (code_buffer ?z) < 2 ^ nat (num_bits z + 8)" unfolding v .
  then have "bits_ok ?z" using c nn by (auto simp: bits_ok_def k_def stbi_zeof_def)
  moreover have "prefix (zstream z) (zstream ?z) \<and> (\<not> stbi_zeof z \<longrightarrow> zstream ?z = zstream z)"
  proof -
    have s: "zstream ?z = lbits ?n (unat (code_buffer z)) @ lbits 8 (unat b) @ lstream (drop k (take (zbuffer_end z) (zin z)))"
      using lbits_append [OF c(1), of 8 "unat b"] v by (simp add: zstream_def n8)
    show ?thesis
    proof (cases "stbi_zeof z")
      case True
      then show ?thesis using s c by (simp add: zstream_def stbi_zeof_def)
    next
      case False
      then have "drop (zbuffer z) (take (zbuffer_end z) (zin z)) = b # drop k (take (zbuffer_end z) (zin z))"
        using c by (simp add: b_def k_def stbi_zeof_def Cons_nth_drop_Suc [symmetric])
      then show ?thesis using s by (simp add: zstream_def)
    qed
  qed
  moreover have "same_side z ?z" by (simp add: same_side_def same_out_def)
  ultimately show ?thesis unfolding step sat_Some by (intro exI [of _ ?z] conjI refl) (simp_all add: k_def)
qed

lemma fill_bits_stream:
  assumes "bits_ok z" "num_bits z \<le> 24"
  shows "sat (stbi_fill_bits z) (\<lambda>z'. bits_ok z' \<and> same_side z z' \<and> 25 \<le> num_bits z' \<and> prefix (zstream z) (zstream z'))"
  unfolding stbi_fill_bits_def
proof (rule sat_loop [where I = "\<lambda>s. bits_ok s \<and> same_side z s \<and> num_bits s \<le> 24 \<and> prefix (zstream z) (zstream s)"
      and measure_of = "\<lambda>s. nat (25 - num_bits s)"], goal_cases)
  case (2 s)
  then have s: "bits_ok s" "num_bits s \<le> 24" by blast+
  obtain z' where z': "bits_ok z'" "same_side s z'" "num_bits z' = num_bits s + 8" "prefix (zstream s) (zstream z')"
    "fill_step s = Some (if num_bits z' \<le> 24 then Inr z' else Inl z')"
    using fill_step_stream [OF s] unfolding sat_def by blast
  have "same_side z z'" "prefix (zstream z) (zstream z')"
    using 2 z'(2,4) same_side_trans prefix_order.trans by blast+
  then show ?case using 2 z'(1,3,5) by (cases "num_bits z' \<le> 24") auto
qed (use assms in auto)

text \<open>Filling an empty buffer takes the next four bytes.\<close>

lemma fill_from_empty:
  assumes z: "bits_ok z" "num_bits z = 0" "zbuffer z + 4 \<le> zbuffer_end z"
  shows "sat (stbi_fill_bits z) (\<lambda>z'. bits_ok z' \<and> same_side z z' \<and> num_bits z' = 32 \<and> zbuffer z' = zbuffer z + 4 \<and> zstream z' = zstream z)"
  unfolding stbi_fill_bits_def
proof (rule sat_loop [where I = "\<lambda>s. bits_ok s \<and> same_side z s \<and> zstream s = zstream z \<and> (\<exists>k \<le> 3. num_bits s = 8 * int k \<and> zbuffer s = zbuffer z + k)"
      and measure_of = "\<lambda>s. nat (25 - num_bits s)"], goal_cases)
  case 1
  show ?case using z by (auto intro!: exI [of _ 0])
next
  case (2 s)
  then obtain k where s: "bits_ok s" "same_side z s" "zstream s = zstream z" "k \<le> 3" "num_bits s = 8 * int k" "zbuffer s = zbuffer z + k" by blast
  have "\<not> stbi_zeof s" using s z(3) by (auto simp: stbi_zeof_def same_side_def same_out_def)
  moreover have "num_bits s \<le> 24" using s by simp
  ultimately obtain z' where z': "bits_ok z'" "same_side s z'" "num_bits z' = num_bits s + 8" "zbuffer z' = zbuffer s + 1" "zstream z' = zstream s"
    "fill_step s = Some (if num_bits z' \<le> 24 then Inr z' else Inl z')"
    using fill_step_stream [OF s(1)] unfolding sat_def by blast
  show ?case
  proof (cases "k = 3")
    case True
    then show ?thesis using z' s same_side_trans [OF s(2) z'(2)] by simp
  next
    case False
    then have "num_bits z' \<le> 24" using z'(3) s by simp
    then show ?thesis using z' s same_side_trans [OF s(2) z'(2)] False by (auto intro!: exI [of _ "k + 1"])
  qed
qed

subsection \<open>Taking bits\<close>

lemma consume_stream:
  assumes "bits_ok z" "int n \<le> num_bits z"
  shows "zstream (consume n z) = drop n (zstream z)"
  using assms by (simp add: zstream_def consume_def drop_lbits unat_drop_bit nat_diff_distrib')

lemma front_value:
  assumes b: "bits_ok z" "int n \<le> num_bits z" and p: "prefix (lbits n v @ bs) (zstream z)"
  shows "unat (code_buffer z) mod 2 ^ n = v mod 2 ^ n"
proof -
  have n: "n \<le> nat (num_bits z)" using b(2) by simp
  have "lbits n v = take n (zstream z)" using p by (auto simp: prefix_def)
  also have "\<dots> = lbits n (unat (code_buffer z))" using n by (simp add: zstream_def take_lbits)
  finally show ?thesis by (intro lbits_inj [of _ n]) (simp_all add: lbits_mod)
qed

lemma consume_feeds:
  assumes f: "zfeeds z (cs @ bs)" and n: "length cs = n" "int n \<le> num_bits z"
  shows "zfeeds (consume n z) bs" "same_side z (consume n z)"
proof -
  have b: "bits_ok z" "prefix (cs @ bs) (zstream z)" using f by (simp_all add: zfeeds_def)
  have "prefix bs (drop n (zstream z))" using b(2) n(1) by (auto simp: prefix_def)
  then show "zfeeds (consume n z) bs"
    using f consume_ok(1) [OF b(1) n(2)] consume_stream [OF b(1) n(2)] by (simp add: zfeeds_def)
  show "same_side z (consume n z)" by (simp add: same_side_def same_out_def consume_def)
qed

lemma zreceive_feeds:
  assumes f: "zfeeds z (lbits n v @ bs)" and n: "n \<le> 16" and v: "v < 2 ^ n"
  shows "sat (stbi_zreceive z n) (\<lambda>(k, z'). unat k = v \<and> zfeeds z' bs \<and> same_side z z')"
proof -
  have "sat (if num_bits z < int n then stbi_fill_bits z else Some z)
      (\<lambda>z1. zfeeds z1 (lbits n v @ bs) \<and> same_side z z1 \<and> int n \<le> num_bits z1)"
  proof (cases "num_bits z < int n")
    case True
    have "sat (stbi_fill_bits z) (\<lambda>z'. bits_ok z' \<and> same_side z z' \<and> 25 \<le> num_bits z' \<and> prefix (zstream z) (zstream z'))"
      using f True n by (intro fill_bits_stream) (auto simp: zfeeds_def)
    then show ?thesis using True f n prefix_order.trans by (fastforce simp: zfeeds_def same_side_def elim!: satE)
  qed (use f in simp)
  then obtain z1 where z1: "(if num_bits z < int n then stbi_fill_bits z else Some z) = Some z1" "zfeeds z1 (lbits n v @ bs)" "same_side z z1" "int n \<le> num_bits z1"
    by (auto elim: satE)
  have "unat (code_buffer z1) mod 2 ^ n = v" using front_value [of z1 n v bs] z1(2,4) v by (simp add: zfeeds_def)
  then have k: "unat (code_buffer z1 AND (push_bit n 1 - 1)) = v" using low_bits [of n "code_buffer z1"] n by simp
  have "stbi_zreceive z n = Some (code_buffer z1 AND (push_bit n 1 - 1), consume n z1)"
    using z1(1) n by (simp add: stbi_zreceive_def shl32_def shr32_def consume_def)
  then show ?thesis using k consume_feeds [OF z1(2) _ z1(4)] same_side_trans [OF z1(3)] by simp
qed

lemma decode_zfeeds:
  assumes t: "tables_for L h" and i: "i < length L" "L ! i \<noteq> 0" and f: "zfeeds a (bits_of (L ! i) (code_of L i) @ bs)" and more: "16 \<le> length bs"
  shows "sat (stbi_zhuffman_decode a h) (\<lambda>(v, a'). v = int i \<and> zfeeds a' bs \<and> same_side a a')"
proof -
  let ?l = "L ! i"
  have ok: "code_ok L" using t by (simp add: tables_for_def)
  have l: "?l \<le> 15" "code_of L i < 2 ^ ?l" using ok i code_of_less [OF ok i(1)] by (auto simp: code_upto_def)
  have b: "bits_ok a" "\<not> hit_zeof_once a" using f by (simp_all add: zfeeds_def)
  have notend: "\<not> stbi_zeof a" if "num_bits a < 16"
  proof
    assume "stbi_zeof a"
    then have "length (zstream a) = nat (num_bits a)" by (simp add: zstream_def stbi_zeof_def)
    moreover have "length (bits_of ?l (code_of L i) @ bs) \<le> length (zstream a)" using f unfolding zfeeds_def by (intro prefix_length_le) blast
    ultimately show False using that more by simp
  qed
  have "sat (zdecode_refill a) (\<lambda>r. \<exists>a1. r = Some a1 \<and> zfeeds a1 (bits_of ?l (code_of L i) @ bs) \<and> same_side a a1 \<and> 16 \<le> num_bits a1)"
  proof (cases "num_bits a < 16")
    case True
    have "sat (stbi_fill_bits a) (\<lambda>z'. bits_ok z' \<and> same_side a z' \<and> 25 \<le> num_bits z' \<and> prefix (zstream a) (zstream z'))"
      using b True by (intro fill_bits_stream) auto
    then show ?thesis using True notend f prefix_order.trans by (fastforce simp: zdecode_refill_def zfeeds_def same_side_def elim!: satE)
  qed (use f in \<open>simp add: zdecode_refill_def\<close>)
  then obtain a1 where a1: "zdecode_refill a = Some (Some a1)" "zfeeds a1 (bits_of ?l (code_of L i) @ bs)" "same_side a a1" "16 \<le> num_bits a1"
    by (auto elim!: satE)
  have rv: "bits_of ?l (code_of L i) = lbits ?l (reversed ?l (code_of L i))"
    using l(1) by (auto simp: bits_of_def lbits_def rev_map rev_nth bit_reversed intro!: nth_equalityI)
  have "unat (code_buffer a1) mod 2 ^ ?l = reversed ?l (code_of L i)"
    using front_value [of a1 ?l "reversed ?l (code_of L i)" bs] a1(2,4) l(1) reversed_less [of ?l] unfolding rv by (simp add: zfeeds_def)
  then have "starts L i (window (code_buffer a1))" using window_match [of ?l "code_of L i"] l i by (simp add: starts_def)
  then have "next_symbol L (window (code_buffer a1)) = Some i" using next_symbol_Some [OF ok] by simp
  then have "stbi_zhuffman_decode a h = Some (int i, consume ?l a1)"
    using a1(1) by (simp add: stbi_zhuffman_decode_def decode_lookup_eq [OF t] symbol_result_def)
  then show ?thesis using consume_feeds [OF a1(2)] l(1) a1(4) same_side_trans [OF a1(3)] by simp
qed

end
