(* ===== verification/Zlib_Sink.thy ===== *)
theory Zlib_Sink
  imports Zlib_Write Bit_String
begin

text \<open>
  The bit output of the DEFLATE compressor. What has been written is a string of bits, whole bytes and fewer than eight bits in the
  buffer, and every operation appends.
\<close>

definition zsunk :: "bytes \<Rightarrow> bits \<Rightarrow> zwriter \<Rightarrow> bool" where
  "zsunk out bs w \<longleftrightarrow> (\<exists>B. zw_out w = out @ B \<and> bs = lstream B @ lbits (bitcount w) (unat (bitbuf w)) \<and>
     unat (bitbuf w) < 2 ^ bitcount w \<and> bitcount w < 8)"

lemma flushf_ok:
  assumes "unat b < 2 ^ n" "n \<le> 32"
  shows "\<exists>B b' n'. stbiw_zlib_flushf out b n = (out @ B, b', n') \<and> lbits n (unat b) = lstream B @ lbits n' (unat b') \<and>
    unat b' < 2 ^ n' \<and> n' < 8"
  using assms
proof (induction n arbitrary: out b rule: less_induct)
  case (less n)
  show ?case
  proof (cases "8 \<le> n")
    case True
    have p: "(2 :: nat) ^ n = 2 ^ (n - 8) * 256" using True power_add [of "2 :: nat" "n - 8" 8] by simp
    have le: "n - 8 < n" "n - 8 \<le> 32" using True less.prems(2) by simp_all
    have small: "unat (drop_bit 8 b) < 2 ^ (n - 8)" using less.prems p by (simp add: unat_drop_bit less_mult_imp_div_less)
    obtain B b' n' where i: "stbiw_zlib_flushf (out @ [ucast b]) (drop_bit 8 b) (n - 8) = ((out @ [ucast b]) @ B, b', n')"
      "lbits (n - 8) (unat (drop_bit 8 b)) = lstream B @ lbits n' (unat b')" "unat b' < 2 ^ n'" "n' < 8"
      using less.IH [of "n - 8" "drop_bit 8 b" "out @ [ucast b]"] small True le by blast
    have "lbits 8 (unat (ucast b :: byte)) = lbits 8 (unat b)"
      using lbits_mod [of 8 "unat b"] by (simp add: unsigned_ucast_eq take_bit_eq_mod)
    moreover have "lbits n (unat b) = lbits 8 (unat b) @ lbits (n - 8) (unat (drop_bit 8 b))"
      using append_take_drop_id [of 8 "lbits n (unat b)"] True by (simp add: take_lbits drop_lbits unat_drop_bit)
    ultimately have "lbits n (unat b) = lstream (ucast b # B) @ lbits n' (unat b')" using i(2) by simp
    moreover have "stbiw_zlib_flushf out b n = (out @ (ucast b # B), b', n')"
      using i(1) True by (subst stbiw_zlib_flushf.simps) simp
    ultimately show ?thesis using i(3,4) by blast
  next
    case False
    then have "stbiw_zlib_flushf out b n = (out @ [], b, n)" by (subst stbiw_zlib_flushf.simps) simp
    then show ?thesis using False less.prems by (intro exI [of _ "[]"] exI [of _ b] exI [of _ n]) simp
  qed
qed

lemma add_ok:
  assumes w: "zsunk out bs w" and c: "code < 2 ^ n" "n \<le> 16"
  shows "zsunk out (bs @ lbits n code) (stbiw_zlib_add (word_of_nat code) n w)"
proof -
  obtain B where B: "zw_out w = out @ B" "bs = lstream B @ lbits (bitcount w) (unat (bitbuf w))" "unat (bitbuf w) < 2 ^ bitcount w" "bitcount w < 8"
    using w by (auto simp: zsunk_def)
  let ?m = "bitcount w" let ?b = "bitbuf w OR push_bit ?m (word_of_nat code)"
  have lim: "code * 2 ^ ?m < 2 ^ (?m + n)" using c(1) by (simp add: power_add mult.commute)
  also have "\<dots> \<le> 2 ^ 32" using c(2) B(4) by (intro power_increasing) auto
  finally have u: "unat (word_of_nat (code * 2 ^ ?m) :: u32) = code * 2 ^ ?m" by (intro unat_u32_of_nat) simp
  have p: "push_bit ?m (word_of_nat code) = (word_of_nat (code * 2 ^ ?m) :: u32)" by (simp add: push_bit_eq_mult)
  have dvd: "2 ^ ?m dvd unat (push_bit ?m (word_of_nat code) :: u32)" unfolding p u by simp
  have v: "unat ?b = unat (bitbuf w) + code * 2 ^ ?m"
    using unat_or_disjoint [OF dvd B(3)] u p by (simp add: or.commute add.commute)
  have "unat (bitbuf w) + code * 2 ^ ?m < 2 ^ ?m + code * 2 ^ ?m" using B(3) by simp
  also have "\<dots> = (code + 1) * 2 ^ ?m" by simp
  also have "\<dots> \<le> 2 ^ n * 2 ^ ?m" using c(1) by (intro mult_le_mono1) simp
  finally have less: "unat ?b < 2 ^ (?m + n)" unfolding v by (simp add: power_add mult.commute)
  obtain C b' n' where f: "stbiw_zlib_flushf (zw_out w) ?b (?m + n) = (zw_out w @ C, b', n')" "lbits (?m + n) (unat ?b) = lstream C @ lbits n' (unat b')"
    "unat b' < 2 ^ n'" "n' < 8" using flushf_ok [OF less, of "zw_out w"] c(2) B(4) by auto
  have "bs @ lbits n code = lstream B @ lbits (?m + n) (unat ?b)" unfolding v using lbits_append [OF B(3), of n code] B(2) by simp
  then show ?thesis using f B(1) by (auto simp: zsunk_def stbiw_zlib_add_def intro!: exI [of _ "B @ C"])
qed

text \<open>Reversal: code words are written with the most significant bit first.\<close>

lemma bitrev_loop_value: "bitrev_loop n res code = res * 2 ^ n + value_of (lbits n code)"
proof (induction n arbitrary: res code)
  case (Suc n)
  have "lbits 1 code = [odd code]" by (simp add: lbits_def bit_0)
  then have "lbits (Suc n) code = [odd code] @ lbits n (code div 2)"
    using append_take_drop_id [of 1 "lbits (Suc n) code"] by (simp add: take_lbits drop_lbits)
  then show ?case using Suc by (simp add: value_of_Cons algebra_simps mod_2_eq_odd)
qed simp

lemma lbits_bitrev: "lbits n (stbiw_zlib_bitrev code n) = bits_of n code"
proof -
  have "stbiw_zlib_bitrev code n = value_of (lbits n code)" by (simp add: stbiw_zlib_bitrev_def bitrev_loop_value)
  then have "bits_of n (stbiw_zlib_bitrev code n) = lbits n code" by (simp add: bits_of_value_of)
  then show ?thesis by (metis rev_lbits rev_rev_ident)
qed

lemma bitrev_less: "stbiw_zlib_bitrev code n < 2 ^ n"
  using value_of_less [of "lbits n code"] by (simp add: stbiw_zlib_bitrev_def bitrev_loop_value)

lemma huffa_ok: "zsunk out bs w \<Longrightarrow> n \<le> 16 \<Longrightarrow> zsunk out (bs @ bits_of n c) (stbiw_zlib_huffa c n w)"
  using add_ok [of out bs w "stbiw_zlib_bitrev c n" n] bitrev_less by (simp add: stbiw_zlib_huffa_def lbits_bitrev)

text \<open>The padding completes the last byte.\<close>

lemma pad_ok:
  assumes "zsunk out bs w" "8 - bitcount w \<le> n \<or> bitcount w = 0"
  shows "\<exists>B z. zw_out (pad_zeros w n) = out @ B \<and> lstream B = bs @ z"
  using assms
proof (induction n arbitrary: bs w)
  case 0
  then show ?case by (auto simp: zsunk_def)
next
  case (Suc n)
  show ?case
  proof (cases "bitcount w = 0")
    case True
    then show ?thesis using Suc.prems by (auto simp: zsunk_def)
  next
    case False
    have z: "zsunk out (bs @ lbits 1 0) (stbiw_zlib_add 0 1 w)" using add_ok [OF Suc.prems(1), of 0 1] by simp
    have "8 - bitcount (stbiw_zlib_add 0 1 w) \<le> n \<or> bitcount (stbiw_zlib_add 0 1 w) = 0"
    proof -
      have "bitcount w < 8" using Suc.prems by (auto simp: zsunk_def)
      then show ?thesis using Suc.prems(2) False
        by (cases "bitcount w = 7") (simp_all add: stbiw_zlib_add_def stbiw_zlib_flushf.simps)
    qed
    from Suc.IH [OF z this] obtain B y where "zw_out (pad_zeros (stbiw_zlib_add 0 1 w) n) = out @ B" "lstream B = (bs @ lbits 1 0) @ y" by blast
    then show ?thesis using False by auto
  qed
qed

end
