(* ===== verification/Zlib_Fixed.thy ===== *)
theory Zlib_Fixed
  imports Zlib_Stream Zlib_Sink
begin

text \<open>
  The fixed codes of DEFLATE: the code words that the compressor computes are the canonical codes of the lengths that the decoder has
  in its tables.
\<close>

definition fixed_lit :: "nat list" where
  "fixed_lit = replicate 144 8 @ replicate 112 9 @ replicate 24 7 @ replicate 8 8"

definition fixed_dist :: "nat list" where
  "fixed_dist = replicate 32 5"

lemma fixed_lengths: "length fixed_lit = 288" "length fixed_dist = 32" "stbi_zdefault_length = map Some fixed_lit" "stbi_zdefault_distance = map Some fixed_dist"
  by (simp_all add: fixed_lit_def fixed_dist_def stbi_zdefault_length_def stbi_zdefault_distance_def)

lemma count_list_replicate: "count_list (replicate n x) l = (if x = l then n else 0)"
  by (induction n) auto

lemma fixed_counts:
  "count_list fixed_lit l = (if l = 7 then 24 else if l = 8 then 152 else if l = 9 then 112 else 0)"
  "count_list fixed_dist l = (if l = 5 then 32 else 0)"
  by (simp_all add: fixed_lit_def fixed_dist_def count_list_replicate)

lemma first_code_step: "first_code L (numeral k) = 2 * (first_code L (pred_numeral k) + (if pred_numeral k = 0 then 0 else count_list L (pred_numeral k)))"
  by (simp only: numeral_eq_Suc first_code.simps)

lemma upto15: "{1..15} = {1, 2, 3, 4, 5, 6, 7, 8, 9, 10, 11, 12, 13, 14, 15 :: nat}"
  unfolding set_eq_iff atLeastAtMost_iff insert_iff empty_iff by presburger

lemma fixed_ok: "code_ok fixed_lit" "code_ok fixed_dist"
proof -
  have "\<forall>x \<in> set fixed_lit. x \<le> 15" "\<forall>x \<in> set fixed_dist. x \<le> 15" by (auto simp: fixed_lit_def fixed_dist_def)
  then show "code_ok fixed_lit" "code_ok fixed_dist"
    unfolding code_upto_def upto15 by (simp_all add: first_code_step fixed_counts)
qed

lemma fixed_first: "first_code fixed_lit 7 = 0" "first_code fixed_lit 8 = 48" "first_code fixed_lit 9 = 400" "first_code fixed_dist 5 = 0"
  by (simp_all add: first_code_step fixed_counts)

lemma fixed_nth:
  assumes "n < 288"
  shows "fixed_lit ! n = (if n \<le> 143 then 8 else if n \<le> 255 then 9 else if n \<le> 279 then 7 else 8)"
  using assms by (auto simp: fixed_lit_def nth_append)

lemma fixed_code:
  assumes "n < 288"
  shows "code_of fixed_lit n = (if n \<le> 143 then 0x30 + n else if n \<le> 255 then 0x190 + n - 144 else if n \<le> 279 then n - 256 else 0xc0 + n - 280)"
proof -
  have "rank fixed_lit n = (if n \<le> 143 then n else if n \<le> 255 then n - 144 else if n \<le> 279 then n - 256 else 144 + n - 280)"
    unfolding rank_def fixed_nth [OF assms] using assms by (auto simp: fixed_lit_def count_list_replicate min_def)
  then show ?thesis using assms by (auto simp: code_of_def fixed_nth fixed_first)
qed

lemma fixed_dist_code: "n < 32 \<Longrightarrow> code_of fixed_dist n = n" "n < 32 \<Longrightarrow> fixed_dist ! n = 5"
  by (simp_all add: code_of_def rank_def fixed_first count_list_replicate) (simp_all add: fixed_dist_def count_list_replicate fixed_first [unfolded fixed_dist_def])

abbreviation lit_bits :: "nat \<Rightarrow> bits" where
  "lit_bits n \<equiv> bits_of (fixed_lit ! n) (code_of fixed_lit n)"

lemma huff_ok: "zsunk out bs w \<Longrightarrow> n < 288 \<Longrightarrow> zsunk out (bs @ lit_bits n) (stbiw_zlib_huff n w)"
  using huffa_ok by (simp add: stbiw_zlib_huff_def fixed_nth fixed_code)

lemma huffb_ok: "zsunk out bs w \<Longrightarrow> n < 256 \<Longrightarrow> zsunk out (bs @ lit_bits n) (stbiw_zlib_huffb n w)"
  using huffa_ok by (simp add: stbiw_zlib_huffb_def fixed_nth fixed_code)

text \<open>The decoder builds its tables for these codes.\<close>

lemma fixed_tables:
  assumes "zshape zl" "zshape zd"
  shows "\<exists>h. stbi_zbuild_huffman zl stbi_zdefault_length 288 = ret h \<and> tables_for fixed_lit h"
    "\<exists>h. stbi_zbuild_huffman zd stbi_zdefault_distance 32 = ret h \<and> tables_for fixed_dist h"
proof -
  have b: "\<forall>x \<in> set fixed_lit. x \<le> 15" "\<forall>x \<in> set fixed_dist. x \<le> 15" by (auto simp: fixed_lit_def fixed_dist_def)
  have "esatx (stbi_zbuild_huffman zl stbi_zdefault_length (length fixed_lit)) (tables_for fixed_lit) (\<not> code_ok fixed_lit)"
    using zbuild_huffman_ok [OF assms(1) _ _ b(1), of stbi_zdefault_length] by (simp add: fixed_lengths holds_map_Some)
  then show "\<exists>h. stbi_zbuild_huffman zl stbi_zdefault_length 288 = ret h \<and> tables_for fixed_lit h"
    using esatx_retI fixed_ok(1) unfolding fixed_lengths(1) by blast
  have "esatx (stbi_zbuild_huffman zd stbi_zdefault_distance (length fixed_dist)) (tables_for fixed_dist) (\<not> code_ok fixed_dist)"
    using zbuild_huffman_ok [OF assms(2) _ _ b(2), of stbi_zdefault_distance] by (simp add: fixed_lengths holds_map_Some)
  then show "\<exists>h. stbi_zbuild_huffman zd stbi_zdefault_distance 32 = ret h \<and> tables_for fixed_dist h"
    using esatx_retI fixed_ok(2) unfolding fixed_lengths(2) by blast
qed

end
