(* ===== verification/Zlib_Unpack.thy ===== *)
theory Zlib_Unpack
  imports Zlib_Fixed Zlib_Blocks
begin

text \<open>
  What the decoder does with the symbols of a block with fixed codes: a literal appends its byte, a match appends the bytes it refers
  to. The output is compared with the data that were compressed.
\<close>

definition zstate :: "bytes \<Rightarrow> zbuf \<Rightarrow> nat \<Rightarrow> bool" where
  "zstate data a p \<longleftrightarrow> tables_for fixed_lit (z_length a) \<and> tables_for fixed_dist (z_distance a) \<and> z_expandable a \<and>
     zblock a \<noteq> [] \<and> length (zblock a) < 2 ^ 32 \<and> p \<le> length data \<and> length data < 2 ^ 31 \<and>
     p \<le> length (zblock a) \<and> (\<forall>i < p. zblock a ! i = Some (data ! i))"

lemma zstate_out_ok: "zstate data a p \<Longrightarrow> out_ok a p"
  by (auto simp: zstate_def out_ok_def)

lemma zstate_same: "zstate data a p \<Longrightarrow> same_side a b \<Longrightarrow> zstate data b p"
  by (simp add: zstate_def same_side_def same_out_def)

subsection \<open>Growing the output\<close>

lemma expand_loop_some:
  assumes sum: "unat cur + unat n \<le> 2 ^ 31" and l: "limit \<noteq> 0"
  shows "sat (loop (expand_step cur n) limit) (\<lambda>r. r \<noteq> None)"
proof (rule sat_loop [where I = "\<lambda>l. l \<noteq> 0" and measure_of = "\<lambda>l. 2 ^ 32 - unat l"])
  fix l :: u32 assume l: "l \<noteq> 0"
  have "unat (cur + n) = unat cur + unat n" using sum by (simp add: unat_word_ariths)
  moreover have "unat (l * 2) = unat l * 2" if "\<not> 0x7FFFFFFF < l" using that by (simp add: word_less_nat_alt unat_word_ariths)
  moreover have "0 < unat l" using l by (simp add: unat_gt_0)
  ultimately show "sat (expand_step cur n l) (\<lambda>r. case r of Inl x \<Rightarrow> x \<noteq> None | Inr l' \<Rightarrow> l' \<noteq> 0 \<and> 2 ^ 32 - unat l' < 2 ^ 32 - unat l)"
    using sum unat_u32_less [of l] by (auto simp: expand_step_def word_less_nat_alt unat_gt_0 [symmetric])
qed (rule l)

lemma zexpand_ret:
  assumes out: "out_ok a zo" and n: "zo + n < 2 ^ 31" and e: "z_expandable a" and ok: "\<And>k. ok k"
  shows "\<exists>b. stbi_zexpand ok a zo n = ret (a\<lparr>zblock := b, zout := zo\<rparr>) \<and> zo + n \<le> length b \<and>
     length b < 2 ^ 32 \<and> length (zblock a) \<le> length b \<and> (\<forall>i < zo. b ! i = zblock a ! i)"
proof -
  let ?cur = "word_of_nat zo :: u32" and ?n = "word_of_nat n :: u32" and ?old = "word_of_nat (length (zblock a)) :: u32"
  have u: "unat ?cur = zo" "unat ?n = n" "unat ?old = length (zblock a)" using out n by (auto simp: out_ok_def unat_u32_of_nat)
  have "?old \<noteq> 0" using u(3) out e by (auto simp: out_ok_def)
  then obtain l where l: "loop (expand_step ?cur ?n) ?old = Some (Some l)"
    using expand_loop_some [of ?cur ?n ?old] u n by (auto elim: satE)
  have "unat (0xFFFFFFFF - ?cur) = 4294967295 - zo" using u(1) unat_u32_less [of ?cur] by (simp add: unat_sub word_le_nat_alt)
  then have "\<not> 0xFFFFFFFF - ?cur < ?n" using u n by (simp add: word_less_nat_alt)
  then have "\<exists>r. stbi_zexpand ok a zo n = ret r" using l e ok by (simp add: stbi_zexpand_def Let_def)
  then show ?thesis using zexpand_ok [OF out, of n ok] n by auto
qed

lemma zstate_room:
  assumes z: "zstate data a p" and n: "p + n \<le> length data" and full: "\<not> full \<Longrightarrow> p + n \<le> length (zblock a)" and ok: "\<And>k. ok k"
  shows "\<exists>b m. (if full then ebind (stbi_zexpand ok a p n) (\<lambda>a. ret (a, zout a)) else ret (a, p)) = ret (a\<lparr>zblock := b, zout := m\<rparr>, p) \<and>
    p + n \<le> length b \<and> zstate data (a\<lparr>zblock := b, zout := m\<rparr>) p"
proof (cases full)
  case True
  have "p + n < 2 ^ 31" "z_expandable a" using z n by (auto simp: zstate_def)
  then obtain b where b: "stbi_zexpand ok a p n = ret (a\<lparr>zblock := b, zout := p\<rparr>)" "p + n \<le> length b" "length b < 2 ^ 32"
    "length (zblock a) \<le> length b" "\<forall>i < p. b ! i = zblock a ! i"
    using zexpand_ret [OF zstate_out_ok [OF z], of n ok] ok by blast
  have "zstate data (a\<lparr>zblock := b, zout := p\<rparr>) p" using z b by (auto simp: zstate_def)
  then show ?thesis using True b(1,2) by auto
next
  case False
  then show ?thesis using z full by (intro exI [of _ "zblock a"] exI [of _ "zout a"]) simp
qed

subsection \<open>Literals and matches\<close>

lemma put_literal_ret:
  assumes z: "zstate data a p" and p: "p < length data" and ok: "\<And>k. ok k"
  shows "\<exists>b m. put_literal ok (data ! p) a p = ret (a\<lparr>zblock := b, zout := m\<rparr>, p + 1) \<and> zstate data (a\<lparr>zblock := b, zout := m\<rparr>) (p + 1)"
proof -
  obtain b m where b: "(if p \<ge> length (zblock a) then ebind (stbi_zexpand ok a p 1) (\<lambda>a. ret (a, zout a)) else ret (a, p)) = ret (a\<lparr>zblock := b, zout := m\<rparr>, p)"
    "p + 1 \<le> length b" "zstate data (a\<lparr>zblock := b, zout := m\<rparr>) p"
    using zstate_room [OF z, of 1 "p \<ge> length (zblock a)" ok] p ok by auto
  let ?b = "b[p := Some (data ! p)]"
  have "put_literal ok (data ! p) a p = ret (a\<lparr>zblock := ?b, zout := m\<rparr>, p + 1)"
    unfolding put_literal_def b(1) using b(2) by simp
  moreover have "zstate data (a\<lparr>zblock := ?b, zout := m\<rparr>) (p + 1)" using b(2,3) p by (auto simp: zstate_def less_Suc_eq)
  ultimately show ?thesis by blast
qed

text \<open>The copy of a match yields the data when the data repeat there.\<close>

lemma copy_match_data:
  assumes d: "1 \<le> dist" "dist \<le> p" and len: "p + len \<le> length blk" "p + len \<le> length data" and init: "\<forall>i < p. blk ! i = Some (data ! i)"
    and rep: "\<And>k. k < len \<Longrightarrow> data ! (p + k) = data ! (p + k - dist)"
  shows "\<exists>b. copy_match blk p dist len = Some b \<and> length b = length blk \<and> (\<forall>i < p + len. b ! i = Some (data ! i))"
proof -
  obtain b where b: "copy_match blk p dist len = Some b" "length b = length blk" "\<forall>i < p. b ! i = blk ! i" "\<forall>i < len. b ! (p + i) = b ! (p + i - dist)"
    using copy_match_ok [OF d len(1)] init by (auto elim: satE)
  have "b ! i = Some (data ! i)" if "i < p + len" for i
    using that
  proof (induction i rule: less_induct)
    case (less i)
    show ?case
    proof (cases "i < p")
      case True
      then show ?thesis using b(3) init by simp
    next
      case False
      then obtain k where k: "i = p + k" "k < len" using less.prems by (metis add_less_cancel_left le_add_diff_inverse not_less)
      have "i - dist < i" using d False by simp
      then have "b ! (i - dist) = Some (data ! (i - dist))" using less by simp
      then show ?thesis using b(4) rep k by simp
    qed
  qed
  then show ?thesis using b by blast
qed

lemma with_extra_feeds:
  assumes z: "z < length base" "length extra = length base" "extra ! z \<le> 16" and v: "v < 2 ^ (extra ! z)" and f: "zfeeds a (lbits (extra ! z) v @ bs)"
  shows "sat (with_extra base extra z a) (\<lambda>(n, a'). n = base ! z + v \<and> zfeeds a' bs \<and> same_side a a')"
proof (cases "extra ! z = 0")
  case False
  then show ?thesis using zreceive_feeds [OF f z(3) v] z by (auto simp: with_extra_def elim!: satE)
qed (use z v f in \<open>simp add: with_extra_def\<close>)

text \<open>The bits that follow the length symbol \<open>257 + j\<close>: extra bits of the length, the distance symbol and its extra bits.\<close>

definition tail_bits :: "nat \<Rightarrow> nat \<Rightarrow> nat \<Rightarrow> nat \<Rightarrow> bits" where
  "tail_bits j len jd dist = lbits (stbi_zlength_extra ! j) (len - stbi_zlength_base ! j) @ bits_of 5 jd @
     lbits (stbi_zdist_extra ! jd) (dist - stbi_zdist_base ! jd)"

definition has_code :: "nat list \<Rightarrow> nat list \<Rightarrow> nat \<Rightarrow> nat \<Rightarrow> bool" where
  "has_code base extra j v \<longleftrightarrow> base ! j \<le> v \<and> v - base ! j < 2 ^ (extra ! j)"

lemma put_match_ret:
  assumes z: "zstate data a p" and j: "j < 29" "has_code stbi_zlength_base stbi_zlength_extra j len" and jd: "jd < 30" "has_code stbi_zdist_base stbi_zdist_extra jd dist"
    and d: "dist \<le> p" "p + len \<le> length data" and rep: "\<And>k. k < len \<Longrightarrow> data ! (p + k) = data ! (p + k - dist)"
    and f: "zfeeds a (tail_bits j len jd dist @ rest)" and more: "16 \<le> length rest" and ok: "\<And>k. ok k"
  shows "\<exists>a'. put_match ok (int (257 + j)) a p = ret (a', p + len) \<and> zfeeds a' rest \<and> zstate data a' (p + len)"
proof -
  let ?b1 = "lbits (stbi_zlength_extra ! j) (len - stbi_zlength_base ! j)" and ?b3 = "lbits (stbi_zdist_extra ! jd) (dist - stbi_zdist_base ! jd)"
  have f1: "zfeeds a (?b1 @ bits_of 5 jd @ ?b3 @ rest)" using f by (simp add: tail_bits_def)
  obtain a1 where a1: "with_extra stbi_zlength_base stbi_zlength_extra j a = Some (len, a1)" "zfeeds a1 (bits_of 5 jd @ ?b3 @ rest)" "same_side a a1"
    using with_extra_feeds [OF _ _ _ _ f1, of stbi_zlength_base] j length_codes(1) [OF j(1)] by (auto simp: has_code_def elim!: satE)
  have D: "tables_for fixed_dist (z_distance a1)" using z a1(3) by (simp add: zstate_def same_side_def same_out_def)
  have dc: "fixed_dist ! jd = 5" "code_of fixed_dist jd = jd" "jd < length fixed_dist" using fixed_dist_code jd(1) fixed_lengths by simp_all
  obtain a2 where a2: "stbi_zhuffman_decode a1 (z_distance a1) = Some (int jd, a2)" "zfeeds a2 (?b3 @ rest)" "same_side a1 a2"
    using decode_zfeeds [OF D dc(3), of a1 "?b3 @ rest"] a1(2) dc more by (auto elim!: satE)
  obtain a3 where a3: "with_extra stbi_zdist_base stbi_zdist_extra jd a2 = Some (dist, a3)" "zfeeds a3 rest" "same_side a2 a3"
    using with_extra_feeds [OF _ _ _ _ a2(2), of stbi_zdist_base] jd dist_table(1) [OF jd(1)] by (auto simp: has_code_def elim!: satE)
  have z3: "zstate data a3 p" using zstate_same [OF z same_side_trans [OF a1(3) same_side_trans [OF a2(3) a3(3)]]] .
  let ?full = "int len > int (length (zblock a3)) - int p"
  have "p \<le> length (zblock a3)" using z3 by (simp add: zstate_def)
  then obtain b m where b: "(if ?full then ebind (stbi_zexpand ok a3 p len) (\<lambda>a. ret (a, zout a)) else ret (a3, p)) = ret (a3\<lparr>zblock := b, zout := m\<rparr>, p)"
    "p + len \<le> length b" "zstate data (a3\<lparr>zblock := b, zout := m\<rparr>) p"
    using zstate_room [OF z3 d(2), of ?full ok] ok by force
  have "1 \<le> dist" using jd dist_table(2) [OF jd(1)] by (simp add: has_code_def)
  then obtain c where c: "copy_match b p dist len = Some c" "length c = length b" "\<forall>i < p + len. c ! i = Some (data ! i)"
    using copy_match_data [OF _ d(1) b(2) d(2) _ rep] b(3) by (auto simp: zstate_def)
  have nd: "\<not> (int jd < 0 \<or> int jd \<ge> 30)" "\<not> p < dist" using jd(1) d(1) by simp_all
  have "put_match ok (int (257 + j)) a p = ret (a3\<lparr>zblock := c, zout := m\<rparr>, p + len)"
    unfolding put_match_def using a1(1) a2(1) a3(1) nd b(1) c(1) by simp
  moreover have "zstate data (a3\<lparr>zblock := c, zout := m\<rparr>) (p + len)" using b(2,3) c d(2) by (auto simp: zstate_def)
  ultimately show ?thesis using a3(2) by (intro exI [of _ "a3\<lparr>zblock := c, zout := m\<rparr>"]) simp
qed

subsection \<open>Runs of symbols\<close>

text \<open>The bits \<open>w\<close> take the decoder from position \<open>p\<close> of the data to position \<open>q\<close>.\<close>

definition zreads :: "allocator \<Rightarrow> bytes \<Rightarrow> bits \<Rightarrow> nat \<Rightarrow> nat \<Rightarrow> bool" where
  "zreads ok data w p q \<longleftrightarrow> (\<forall>a rest. zfeeds a (w @ rest) \<longrightarrow> 16 \<le> length rest \<longrightarrow> zstate data a p \<longrightarrow>
     (\<exists>b. loop (huffman_step ok) (a, p) = loop (huffman_step ok) (b, q) \<and> zfeeds b rest \<and> zstate data b q))"

lemma zreads_Nil: "zreads ok data [] p p"
  by (auto simp: zreads_def)

lemma zreads_append: "zreads ok data u p q \<Longrightarrow> zreads ok data v q r \<Longrightarrow> zreads ok data (u @ v) p r"
proof -
  assume u: "zreads ok data u p q" and v: "zreads ok data v q r"
  show ?thesis unfolding zreads_def
  proof (intro allI impI)
    fix a rest assume a: "zfeeds a ((u @ v) @ rest)" "16 \<le> length rest" "zstate data a p"
    obtain b where b: "loop (huffman_step ok) (a, p) = loop (huffman_step ok) (b, q)" "zfeeds b (v @ rest)" "zstate data b q"
      using u a unfolding zreads_def by (metis append.assoc length_append trans_le_add2)
    show "\<exists>c. loop (huffman_step ok) (a, p) = loop (huffman_step ok) (c, r) \<and> zfeeds c rest \<and> zstate data c r"
      using v a(2) b unfolding zreads_def by metis
  qed
qed

lemma decode_symbol:
  assumes z: "zstate data a p" and i: "i < 288" and f: "zfeeds a (lit_bits i @ rest)" and more: "16 \<le> length rest"
  obtains a1 where "stbi_zhuffman_decode a (z_length a) = Some (int i, a1)" "zfeeds a1 rest" "zstate data a1 p"
proof -
  have t: "tables_for fixed_lit (z_length a)" "i < length fixed_lit" "fixed_lit ! i \<noteq> 0" using z i fixed_nth [OF i] by (simp_all add: zstate_def fixed_lengths)
  from decode_zfeeds [OF t f more] obtain a1 where "stbi_zhuffman_decode a (z_length a) = Some (int i, a1)" "zfeeds a1 rest" "same_side a a1"
    by (auto elim!: satE)
  then show thesis using that zstate_same [OF z] by blast
qed

lemma zreads_literal:
  assumes p: "p < length data" and ok: "\<And>k. ok k"
  shows "zreads ok data (lit_bits (unat (data ! p))) p (Suc p)"
  unfolding zreads_def
proof (intro allI impI)
  fix a rest assume a: "zfeeds a (lit_bits (unat (data ! p)) @ rest)" "16 \<le> length rest" "zstate data a p"
  have i: "unat (data ! p) < 256" by (rule unat_u8_less)
  have u: "uint (data ! p) < 256" using uint_lt2p [of "data ! p"] by simp
  have "unat (data ! p) < 288" using i by simp
  then obtain a1 where a1: "stbi_zhuffman_decode a (z_length a) = Some (int (unat (data ! p)), a1)" "zfeeds a1 rest" "zstate data a1 p"
    using decode_symbol [OF a(3) _ a(1,2)] by blast
  obtain b m where b: "put_literal ok (data ! p) a1 p = ret (a1\<lparr>zblock := b, zout := m\<rparr>, p + 1)" "zstate data (a1\<lparr>zblock := b, zout := m\<rparr>) (p + 1)"
    using put_literal_ret [OF a1(3) p, of ok] ok by blast
  have "huffman_step ok (a, p) = Some (Inr (a1\<lparr>zblock := b, zout := m\<rparr>, p + 1))"
    using a1(1) b(1) u by (simp add: huffman_step_def ret_def)
  then have "loop (huffman_step ok) (a, p) = loop (huffman_step ok) (a1\<lparr>zblock := b, zout := m\<rparr>, Suc p)"
    by (subst loop.simps) simp
  then show "\<exists>b. loop (huffman_step ok) (a, p) = loop (huffman_step ok) (b, Suc p) \<and> zfeeds b rest \<and> zstate data b (Suc p)"
    using a1(2) b(2) by (intro exI [of _ "a1\<lparr>zblock := b, zout := m\<rparr>"]) simp
qed

lemma zreads_match:
  assumes j: "j < 29" "has_code stbi_zlength_base stbi_zlength_extra j len" and jd: "jd < 30" "has_code stbi_zdist_base stbi_zdist_extra jd dist"
    and d: "dist \<le> p" "p + len \<le> length data" and rep: "\<And>k. k < len \<Longrightarrow> data ! (p + k) = data ! (p + k - dist)" and ok: "\<And>k. ok k"
  shows "zreads ok data (lit_bits (257 + j) @ tail_bits j len jd dist) p (p + len)"
  unfolding zreads_def
proof (intro allI impI)
  fix a rest assume a: "zfeeds a ((lit_bits (257 + j) @ tail_bits j len jd dist) @ rest)" "16 \<le> length rest" "zstate data a p"
  have i: "257 + j < 288" using j(1) by simp
  have f: "zfeeds a (lit_bits (257 + j) @ (tail_bits j len jd dist @ rest))" "16 \<le> length (tail_bits j len jd dist @ rest)" using a(1,2) by simp_all
  obtain a1 where a1: "stbi_zhuffman_decode a (z_length a) = Some (int (257 + j), a1)" "zfeeds a1 (tail_bits j len jd dist @ rest)" "zstate data a1 p"
    using decode_symbol [OF a(3) i f] by blast
  obtain b where b: "put_match ok (int (257 + j)) a1 p = ret (b, p + len)" "zfeeds b rest" "zstate data b (p + len)"
    using put_match_ret [OF a1(3) j jd d rep a1(2) a(2), of ok] ok by blast
  have "huffman_step ok (a, p) = Some (Inr (b, p + len))"
    using a1(1) b(1) j(1) by (simp add: huffman_step_def ret_def)
  then have "loop (huffman_step ok) (a, p) = loop (huffman_step ok) (b, p + len)" by (subst loop.simps) simp
  then show "\<exists>b. loop (huffman_step ok) (a, p) = loop (huffman_step ok) (b, p + len) \<and> zfeeds b rest \<and> zstate data b (p + len)"
    using b(2,3) by blast
qed

lemma zreads_end:
  assumes a: "zfeeds a (lit_bits 256 @ rest)" "16 \<le> length rest" "zstate data a p"
  shows "\<exists>b. loop (huffman_step ok) (a, p) = ret b \<and> zout b = p \<and> zstate data b p"
proof -
  have i: "(256 :: nat) < 288" by simp
  obtain a1 where a1: "stbi_zhuffman_decode a (z_length a) = Some (int 256, a1)" "zfeeds a1 rest" "zstate data a1 p"
    using decode_symbol [OF a(3) i a(1,2)] by blast
  have "huffman_step ok (a, p) = Some (Inl (Inr (a1\<lparr>zout := p\<rparr>)))" using a1(1,2) by (simp add: huffman_step_def ret_def zfeeds_def)
  then have "loop (huffman_step ok) (a, p) = ret (a1\<lparr>zout := p\<rparr>)" by (subst loop.simps) (simp add: ret_def)
  then show ?thesis using a1(3) by (intro exI [of _ "a1\<lparr>zout := p\<rparr>"]) (simp add: zstate_def)
qed

end
