(* ===== verification/Zlib_Match.thy ===== *)
theory Zlib_Match
  imports Zlib_Sink
begin

text \<open>
  The matches of the compressor. Whatever the hash table holds, as long as it holds earlier positions, a match that is found is a
  repetition of the data within the window, and the loop makes progress.
\<close>

subsection \<open>Counting equal bytes\<close>

definition repeats :: "bytes \<Rightarrow> nat \<Rightarrow> nat \<Rightarrow> nat \<Rightarrow> bool" where
  "repeats data p i n \<longleftrightarrow> (\<forall>k < n. data ! (p + k) = data ! (i + k))"

lemma countm_loop_ok:
  assumes "a \<le> b" "b + limit \<le> length data" "repeats data a b n" "n \<le> limit" "n \<le> 258"
  shows "sat (countm_loop data a b limit n) (\<lambda>m. repeats data a b m \<and> m \<le> limit \<and> m \<le> 258)"
  using assms
proof (induction data a b limit n rule: countm_loop.induct)
  case (1 data a b limit i)
  show ?case
  proof (cases "i < limit \<and> i < 258")
    case True
    then have g: "aget data (a + i) = Some (data ! (a + i))" "aget data (b + i) = Some (data ! (b + i))" using 1 by auto
    show ?thesis
    proof (cases "data ! (a + i) = data ! (b + i)")
      case eq: True
      have "repeats data a b (i + 1)" using 1 eq by (auto simp: repeats_def less_Suc_eq)
      then have "sat (countm_loop data a b limit (i + 1)) (\<lambda>m. repeats data a b m \<and> m \<le> limit \<and> m \<le> 258)"
        using 1(1) [OF True g eq [THEN not_not [THEN iffD2]]] 1(2-) True by simp
      then show ?thesis using True g eq by (subst countm_loop.simps) simp
    next
      case False
      then show ?thesis using True g 1(2-) by (subst countm_loop.simps) simp
    qed
  next
    case False
    then show ?thesis unfolding countm_loop.simps [of data a b limit i] if_not_P [OF False] using 1(2-) by simp
  qed
qed

lemma countm_ok:
  assumes "a \<le> b" "b + limit \<le> length data"
  shows "sat (stbiw_zlib_countm data a b limit) (\<lambda>m. repeats data a b m \<and> m \<le> limit \<and> m \<le> 258)"
  unfolding stbiw_zlib_countm_def by (rule countm_loop_ok [OF assms]) (simp_all add: repeats_def)

definition good_match :: "bytes \<Rightarrow> nat \<Rightarrow> nat \<Rightarrow> nat \<Rightarrow> bool" where
  "good_match data i best p \<longleftrightarrow> p < i \<and> i - p \<le> 32767 \<and> 3 \<le> best \<and> best \<le> 258 \<and> i + best \<le> length data \<and> repeats data p i best"

lemma best_match_ok:
  assumes "\<forall>p \<in> set ps. p < i" "i \<le> length data" "3 \<le> best" "\<forall>p. loc = Some p \<longrightarrow> good_match data i best p"
  shows "sat (best_match data i ps best loc) (\<lambda>(best', loc'). \<forall>p. loc' = Some p \<longrightarrow> good_match data i best' p)"
  using assms
proof (induction ps arbitrary: best loc)
  case (Cons q ps)
  show ?case
  proof (cases "int q > int i - 32768")
    case True
    obtain d where d: "stbiw_zlib_countm data q i (length data - i) = Some d" "repeats data q i d" "d \<le> length data - i" "d \<le> 258"
      using countm_ok [of q i "length data - i" data] Cons.prems by (auto elim!: satE)
    have "good_match data i d q" if "best \<le> d"
      using that d True Cons.prems by (auto simp: good_match_def)
    then show ?thesis using Cons.IH [of d "Some q"] Cons.IH [of best loc] Cons.prems d(1) True by simp
  qed (use Cons in simp)
qed simp

lemma better_next_ok:
  assumes "\<forall>p \<in> set ps. p \<le> i" "i < length data"
  shows "sat (better_next data i ps best) (\<lambda>_. True)"
  using assms
proof (induction ps)
  case (Cons q ps)
  have "q \<le> i + 1" "i + 1 + (length data - i - 1) \<le> length data" using Cons.prems by auto
  then obtain e where "stbiw_zlib_countm data q (i + 1) (length data - i - 1) = Some e"
    using countm_ok by (meson satE)
  then show ?case using Cons by simp
qed simp

lemma zslot_ok: "p + 2 < length data \<Longrightarrow> \<exists>h < stbiw_ZHASH. zslot data p = Some h"
  by (auto simp: zslot_def stbiw_zhash_def Let_def stbiw_ZHASH_def)

subsection \<open>Codes of lengths and distances\<close>

lemma find_code_ok:
  assumes "find_code ts v j = Some k" "\<forall>t \<in> set ts. 1 \<le> t"
  shows "j \<le> k \<and> k - j < length ts \<and> v < ts ! (k - j) \<and> (\<forall>m < k - j. ts ! m \<le> v)"
  using assms
proof (induction ts v j rule: find_code.induct)
  case (2 t ts v j)
  show ?case
  proof (cases "v > t - 1")
    case True
    then have "j + 1 \<le> k \<and> k - (j + 1) < length ts \<and> v < ts ! (k - (j + 1)) \<and> (\<forall>m < k - (j + 1). ts ! m \<le> v)"
      using 2 by simp
    moreover define x where "x = k - (j + 1)"
    ultimately have x: "k = j + 1 + x" "x < length ts" "v < ts ! x" "\<forall>m < x. ts ! m \<le> v" by simp_all
    then have "k - j = Suc x" by simp
    moreover have "t \<le> v" using True by simp
    ultimately show ?thesis using x by (auto simp: nth_Cons split: nat.splits)
  next
    case False
    then show ?thesis using 2 by auto
  qed
qed simp

lemma find_code_ex: "v < last ts \<Longrightarrow> ts \<noteq> [] \<Longrightarrow> \<exists>k. find_code ts v j = Some k"
  by (induction ts arbitrary: j) (auto split: if_splits)

text \<open>The table \<open>base\<close> ends with a bound; the values from one entry up to the next differ in the extra bits.\<close>

lemma find_code_range:
  assumes "base ! 0 \<le> v" "v < last base" "2 \<le> length base" "\<forall>t \<in> set base. 1 \<le> t" "length base = Suc (length extra)"
    and gaps: "\<forall>j < length extra. base ! Suc j \<le> base ! j + 2 ^ (extra ! j)"
  shows "\<exists>j. find_code (tl base) v 0 = Some j \<and> j < length extra \<and> base ! j \<le> v \<and> v - base ! j < 2 ^ (extra ! j)"
proof -
  obtain b ts where b: "base = b # ts" "ts \<noteq> []" using assms(3) by (cases base; cases "tl base") auto
  obtain j where j: "find_code ts v 0 = Some j" using find_code_ex [of v ts 0] assms(2) b by auto
  then have f: "j < length ts" "v < ts ! j" "\<forall>m < j. ts ! m \<le> v" using find_code_ok [OF j] assms(4) b by auto
  have "base ! j \<le> v" using f(3) assms(1) b by (cases j) auto
  moreover have "v < base ! Suc j" "j < length extra" using f(1,2) b assms(5) by simp_all
  ultimately show ?thesis using gaps j b by fastforce
qed

lemma code_gaps:
  "\<forall>j < length lengtheb. lengthc ! Suc j \<le> lengthc ! j + 2 ^ (lengtheb ! j)"
  "\<forall>j < length disteb. distc ! Suc j \<le> distc ! j + 2 ^ (disteb ! j)"
proof -
  have "list_all2 (\<lambda>(a, b) e. b \<le> a + 2 ^ e) (zip lengthc (tl lengthc)) lengtheb" by (simp add: lengthc_def lengtheb_def)
  then show "\<forall>j < length lengtheb. lengthc ! Suc j \<le> lengthc ! j + 2 ^ (lengtheb ! j)"
    by (auto simp: list_all2_conv_all_nth nth_tl)
  have "list_all2 (\<lambda>(a, b) e. b \<le> a + 2 ^ e) (zip distc (tl distc)) disteb" by (simp add: distc_def disteb_def)
  then show "\<forall>j < length disteb. distc ! Suc j \<le> distc ! j + 2 ^ (disteb ! j)"
    by (auto simp: list_all2_conv_all_nth nth_tl)
qed

lemma length_code_ex:
  assumes "3 \<le> v" "v \<le> 258"
  shows "\<exists>j. find_code (tl lengthc) v 0 = Some j \<and> j < 29 \<and> lengthc ! j \<le> v \<and> v - lengthc ! j < 2 ^ (lengtheb ! j)"
proof -
  have "lengthc ! 0 \<le> v" "v < last lengthc" "2 \<le> length lengthc" "\<forall>t \<in> set lengthc. 1 \<le> t" "length lengthc = Suc (length lengtheb)"
    using assms by (simp_all add: lengthc_def lengtheb_def)
  moreover have "length lengtheb = 29" by (simp add: lengtheb_def)
  ultimately show ?thesis using find_code_range [OF _ _ _ _ _ code_gaps(1)] by simp
qed

lemma dist_code_ex:
  assumes "1 \<le> v" "v \<le> 32767"
  shows "\<exists>j. find_code (tl distc) v 0 = Some j \<and> j < 30 \<and> distc ! j \<le> v \<and> v - distc ! j < 2 ^ (disteb ! j)"
proof -
  have "distc ! 0 \<le> v" "v < last distc" "2 \<le> length distc" "\<forall>t \<in> set distc. 1 \<le> t" "length distc = Suc (length disteb)"
    using assms by (simp_all add: distc_def disteb_def)
  moreover have "length disteb = 30" by (simp add: disteb_def)
  ultimately show ?thesis using find_code_range [OF _ _ _ _ _ code_gaps(2)] by simp
qed

end
