(* ===== verification/Zlib_Pack.thy ===== *)
theory Zlib_Pack
  imports Zlib_Unpack Zlib_Match
begin

text \<open>
  The compressor emits symbols that the decoder turns back into the data, one turn of its loop at a time.
\<close>

lemma same_codes:
  "j < 29 \<Longrightarrow> stbi_zlength_base ! j = lengthc ! j \<and> stbi_zlength_extra ! j = lengtheb ! j"
  "j < 30 \<Longrightarrow> stbi_zdist_base ! j = distc ! j \<and> stbi_zdist_extra ! j = disteb ! j"
proof -
  have l: "take 29 stbi_zlength_base = take 29 lengthc" "take 29 stbi_zlength_extra = take 29 lengtheb"
    by (simp_all add: stbi_zlength_base_def lengthc_def stbi_zlength_extra_def lengtheb_def)
  have d: "take 30 stbi_zdist_base = take 30 distc" "take 30 stbi_zdist_extra = take 30 disteb"
    by (simp_all add: stbi_zdist_base_def distc_def stbi_zdist_extra_def disteb_def)
  show "j < 29 \<Longrightarrow> stbi_zlength_base ! j = lengthc ! j \<and> stbi_zlength_extra ! j = lengtheb ! j" using l by (metis nth_take)
  show "j < 30 \<Longrightarrow> stbi_zdist_base ! j = distc ! j \<and> stbi_zdist_extra ! j = disteb ! j" using d by (metis nth_take)
qed

lemma add_extra_ok:
  assumes "zsunk out bs w" "v < 2 ^ e" "e \<le> 16"
  shows "zsunk out (bs @ lbits e v) (if e \<noteq> 0 then stbiw_zlib_add (word_of_nat v) e w else w)"
  using assms add_ok by (cases "e = 0") auto

lemma emit_match_ok:
  assumes g: "good_match data i best p" and w: "zsunk out bs w" and ok: "\<And>k. ok k"
  shows "\<exists>w' m. emit_match best (i - p) w = Some w' \<and> zsunk out (bs @ m) w' \<and> zreads ok data m i (i + best)"
proof -
  have b: "3 \<le> best" "best \<le> 258" "1 \<le> i - p" "i - p \<le> 32767" "p < i" "i + best \<le> length data" using g by (auto simp: good_match_def)
  obtain j where j: "find_code (tl lengthc) best 0 = Some j" "j < 29" "lengthc ! j \<le> best" "best - lengthc ! j < 2 ^ (lengtheb ! j)"
    using length_code_ex b by blast
  obtain k where k: "find_code (tl distc) (i - p) 0 = Some k" "k < 30" "distc ! k \<le> i - p" "i - p - distc ! k < 2 ^ (disteb ! k)"
    using dist_code_ex b by blast
  note sl = same_codes(1) [OF j(2)] and sd = same_codes(2) [OF k(2)]
  have e: "lengtheb ! j \<le> 16" "disteb ! k \<le> 16" using length_codes(1) [OF j(2)] dist_table(1) [OF k(2)] sl sd by simp_all
  have len: "length lengthc = 30" "length lengtheb = 29" "length distc = 31" "length disteb = 30" by (simp_all add: lengthc_def lengtheb_def distc_def disteb_def)
  let ?w1 = "stbiw_zlib_huff (j + 257) w"
  let ?w2 = "if lengtheb ! j \<noteq> 0 then stbiw_zlib_add (word_of_nat (best - lengthc ! j)) (lengtheb ! j) ?w1 else ?w1"
  let ?w3 = "stbiw_zlib_add (word_of_nat (stbiw_zlib_bitrev k 5)) 5 ?w2"
  let ?w4 = "if disteb ! k \<noteq> 0 then stbiw_zlib_add (word_of_nat (i - p - distc ! k)) (disteb ! k) ?w3 else ?w3"
  have "zsunk out (bs @ lit_bits (j + 257)) ?w1" using huff_ok [OF w] j(2) by simp
  from add_extra_ok [OF this j(4) e(1)] have "zsunk out ((bs @ lit_bits (j + 257)) @ lbits (lengtheb ! j) (best - lengthc ! j)) ?w2" .
  from add_ok [OF this bitrev_less, of 5 k] have "zsunk out (((bs @ lit_bits (j + 257)) @ lbits (lengtheb ! j) (best - lengthc ! j)) @ bits_of 5 k) ?w3"
    by (simp add: lbits_bitrev)
  from add_extra_ok [OF this k(4) e(2)] have s: "zsunk out (bs @ lit_bits (257 + j) @ tail_bits j best k (i - p)) ?w4"
    using sl sd by (simp add: tail_bits_def add.commute)
  have em: "emit_match best (i - p) w = Some ?w4" using b j(1,2) k(1,2) len by (simp add: emit_match_def Let_def)
  have "zreads ok data (lit_bits (257 + j) @ tail_bits j best k (i - p)) i (i + best)"
  proof (rule zreads_match)
    show "has_code stbi_zlength_base stbi_zlength_extra j best" using j sl by (simp add: has_code_def)
    show "has_code stbi_zdist_base stbi_zdist_extra k (i - p)" using k sd by (simp add: has_code_def)
    show "data ! (i + m) = data ! (i + m - (i - p))" if "m < best" for m
    proof -
      have "i + m - (i - p) = p + m" using b(5) by simp
      then show ?thesis using g that unfolding good_match_def repeats_def by metis
    qed
  qed (use j k b ok in auto)
  then show ?thesis using em s by blast
qed

definition tab_ok :: "nat list list \<Rightarrow> nat \<Rightarrow> bool" where
  "tab_ok tab i \<longleftrightarrow> length tab = stbiw_ZHASH \<and> (\<forall>ps \<in> set tab. \<forall>p \<in> set ps. p < i)"

lemma tab_ok_mono: "tab_ok tab i \<Longrightarrow> i \<le> j \<Longrightarrow> tab_ok tab j"
  by (fastforce simp: tab_ok_def)

lemma hash_enter_ok: "tab_ok tab i \<Longrightarrow> h < stbiw_ZHASH \<Longrightarrow> tab_ok (tab[h := hash_enter q i (tab ! h)]) (Suc i)"
proof -
  assume t: "tab_ok tab i" and h: "h < stbiw_ZHASH"
  then have "\<forall>p \<in> set (tab ! h). p < i" by (auto simp: tab_ok_def)
  then have "\<forall>p \<in> set (hash_enter q i (tab ! h)). p < Suc i" by (auto simp: hash_enter_def dest!: in_set_dropD intro: less_SucI)
  then show ?thesis using t unfolding tab_ok_def by (auto dest!: set_update_subset_insert [THEN subsetD] intro: less_SucI)
qed

lemma compress_step_ok:
  assumes t: "tab_ok tab i" and w: "zsunk out bs w" and i: "i + 3 < length data" and ok: "\<And>k. ok k"
  shows "\<exists>i' tab' w' m. compress_step data q (i, tab, w) = Some (Inr (i', tab', w')) \<and> i < i' \<and> i' \<le> length data \<and>
    tab_ok tab' i' \<and> zsunk out (bs @ m) w' \<and> zreads ok data m i i'"
proof -
  obtain h where h: "zslot data i = Some h" "h < stbiw_ZHASH" using zslot_ok [of i data] i by auto
  have tl: "length tab = stbiw_ZHASH" "\<forall>p \<in> set (tab ! h). p < i" using t h by (auto simp: tab_ok_def)
  have il: "i \<le> length data" using i by simp
  obtain best loc where bm: "best_match data i (tab ! h) 3 None = Some (best, loc)" "\<And>p. loc = Some p \<Longrightarrow> good_match data i best p"
    using best_match_ok [OF tl(2) il, of 3 None] by (auto elim!: satE)
  define tab' where "tab' = tab[h := hash_enter q i (tab ! h)]"
  have t': "tab_ok tab' (Suc i)" unfolding tab'_def by (rule hash_enter_ok [OF t h(2)])
  obtain h1 where h1: "zslot data (i + 1) = Some h1" "h1 < stbiw_ZHASH" using zslot_ok [of "i + 1" data] i by auto
  have tl1: "length tab' = stbiw_ZHASH" "\<forall>p \<in> set (tab' ! h1). p \<le> i" using t' h1 by (auto simp: tab_ok_def less_Suc_eq_le)
  obtain b where b: "better_next data i (tab' ! h1) best = Some b" using better_next_ok [OF tl1(2), of data best] i by (auto elim: satE)
  define loc' where "loc' = (case loc of None \<Rightarrow> None | Some p \<Rightarrow> if b then None else Some p)"
  have step: "compress_step data q (i, tab, w) = (case loc' of
      Some p \<Rightarrow> do { w \<leftarrow> emit_match best (i - p) w; Some (Inr (i + best, tab', w)) }
    | None \<Rightarrow> do { b \<leftarrow> aget data i; Some (Inr (i + 1, tab', stbiw_zlib_huffb (unat b) w)) })"
    using i h tl(1) bm(1) h1 tl1(1) b
    by (cases loc) (simp_all add: compress_step_def tab'_def loc'_def)
  show ?thesis
  proof (cases loc')
    case None
    have "zsunk out (bs @ lit_bits (unat (data ! i))) (stbiw_zlib_huffb (unat (data ! i)) w)" using huffb_ok [OF w unat_u8_less] .
    moreover have "zreads ok data (lit_bits (unat (data ! i))) i (Suc i)" using zreads_literal [of i data ok] i ok by simp
    ultimately show ?thesis using step None i t' by (intro exI [of _ "Suc i"] exI [of _ tab'] exI [of _ "stbiw_zlib_huffb (unat (data ! i)) w"] exI [of _ "lit_bits (unat (data ! i))"]) simp
  next
    case (Some p)
    then have g: "good_match data i best p" using bm(2) by (cases loc) (auto simp: loc'_def split: if_splits)
    then obtain w' m where e: "emit_match best (i - p) w = Some w'" "zsunk out (bs @ m) w'" "zreads ok data m i (i + best)"
      using emit_match_ok [of data i best p out bs w ok] w ok by blast
    have "Suc i \<le> i + best" "i + best \<le> length data" using g by (auto simp: good_match_def)
    then show ?thesis using step Some e tab_ok_mono [OF t'] by (intro exI [of _ "i + best"] exI [of _ tab'] exI [of _ w'] exI [of _ m]) simp
  qed
qed

lemma compress_loop_ok:
  assumes w: "zsunk out bs w" and ok: "\<And>k. ok k"
  shows "sat (loop (compress_step data q) (0, replicate stbiw_ZHASH [], w))
    (\<lambda>(i, w'). \<exists>m. i \<le> length data \<and> zsunk out (bs @ m) w' \<and> zreads ok data m 0 i)"
proof (rule sat_loop [where I = "\<lambda>(i, tab, w'). i \<le> length data \<and> tab_ok tab i \<and> (\<exists>m. zsunk out (bs @ m) w' \<and> zreads ok data m 0 i)"
      and measure_of = "\<lambda>(i, _). length data - i"], goal_cases)
  case 1
  show ?case using w zreads_Nil by (auto simp: tab_ok_def intro!: exI [of _ "[]"])
next
  case (2 st)
  obtain i tab w1 where [simp]: "st = (i, tab, w1)" by (cases st)
  obtain m where m: "i \<le> length data" "tab_ok tab i" "zsunk out (bs @ m) w1" "zreads ok data m 0 i" using 2 by auto
  show ?case
  proof (cases "i + 3 < length data")
    case True
    obtain i' tab' w' m' where s: "compress_step data q (i, tab, w1) = Some (Inr (i', tab', w'))" "i < i'" "i' \<le> length data"
      "tab_ok tab' i'" "zsunk out ((bs @ m) @ m') w'" "zreads ok data m' i i'"
      using compress_step_ok [OF m(2,3) True, of ok q] ok by blast
    have "zreads ok data (m @ m') 0 i'" by (rule zreads_append [OF m(4) s(6)])
    then show ?thesis using s by (auto intro!: exI [of _ "m @ m'"])
  next
    case False
    then show ?thesis using m by (auto simp: compress_step_def)
  qed
qed

lemma compress_fixed_ok:
  assumes ok: "\<And>k. ok k"
  shows "\<exists>B m z. compress_fixed data q = Some ([0x78, 0x5e] @ B) \<and> lstream B = lbits 1 1 @ lbits 2 1 @ m @ lit_bits 256 @ z \<and>
    zreads ok data m 0 (length data)"
proof -
  let ?w = "\<lparr>zw_out = [0x78, 0x5e], bitbuf = 0, bitcount = 0\<rparr>"
  have "zsunk [0x78, 0x5e] [] ?w" by (simp add: zsunk_def)
  from add_ok [OF this, of 1 1] have "zsunk [0x78, 0x5e] (lbits 1 1) (stbiw_zlib_add 1 1 ?w)" by simp
  from add_ok [OF this, of 1 2] have w: "zsunk [0x78, 0x5e] (lbits 1 1 @ lbits 2 1) (stbiw_zlib_add 1 2 (stbiw_zlib_add 1 1 ?w))" by simp
  obtain i w1 m where l: "loop (compress_step data q) (0, replicate stbiw_ZHASH [], stbiw_zlib_add 1 2 (stbiw_zlib_add 1 1 ?w)) = Some (i, w1)"
    "i \<le> length data" "zsunk [0x78, 0x5e] ((lbits 1 1 @ lbits 2 1) @ m) w1" "zreads ok data m 0 i"
    using compress_loop_ok [OF w, of ok data q] ok by (auto elim!: satE)
  have "sat (for_upto i (length data) (\<lambda>i w. do { b \<leftarrow> aget data i; Some (stbiw_zlib_huffb (unat b) w) }) w1)
      (\<lambda>w'. \<exists>m. zsunk [0x78, 0x5e] ((lbits 1 1 @ lbits 2 1) @ m) w' \<and> zreads ok data m 0 (length data))"
  proof (rule sat_for_upto [where P = "\<lambda>i w'. \<exists>m. zsunk [0x78, 0x5e] ((lbits 1 1 @ lbits 2 1) @ m) w' \<and> zreads ok data m 0 i"], goal_cases)
    case (3 k w')
    then obtain m where m: "zsunk [0x78, 0x5e] ((lbits 1 1 @ lbits 2 1) @ m) w'" "zreads ok data m 0 k" by blast
    have "zsunk [0x78, 0x5e] ((lbits 1 1 @ lbits 2 1) @ m @ lit_bits (unat (data ! k))) (stbiw_zlib_huffb (unat (data ! k)) w')"
      using huffb_ok [OF m(1) unat_u8_less] by simp
    moreover have "zreads ok data (m @ lit_bits (unat (data ! k))) 0 (Suc k)" using zreads_append [OF m(2) zreads_literal] 3 ok by simp
    ultimately show ?case using 3(2) by auto
  qed (use l in auto)
  then obtain w2 m2 where f: "for_upto i (length data) (\<lambda>i w. do { b \<leftarrow> aget data i; Some (stbiw_zlib_huffb (unat b) w) }) w1 = Some w2"
    "zsunk [0x78, 0x5e] ((lbits 1 1 @ lbits 2 1) @ m2) w2" "zreads ok data m2 0 (length data)" by (auto elim: satE)
  have e: "zsunk [0x78, 0x5e] (((lbits 1 1 @ lbits 2 1) @ m2) @ lit_bits 256) (stbiw_zlib_huff 256 w2)" using huff_ok [OF f(2), of 256] by simp
  from pad_ok [OF e, of 8] obtain B z where "zw_out (pad_zeros (stbiw_zlib_huff 256 w2) 8) = [0x78, 0x5e] @ B"
    "lstream B = (((lbits 1 1 @ lbits 2 1) @ m2) @ lit_bits 256) @ z" by auto
  then show ?thesis using l(1) f(1,3) by (intro exI [of _ B] exI [of _ m2] exI [of _ z]) (simp add: compress_fixed_def Let_def)
qed

end
