(* ===== verification/Zlib_Stored.thy ===== *)
theory Zlib_Stored
  imports Zlib_Pack
begin

text \<open>
  Stored blocks: what the compressor writes when its codes do not pay, and how the decoder reads them back.
\<close>

definition stored_head :: "bool \<Rightarrow> nat \<Rightarrow> bytes" where
  "stored_head final n = [if final then 1 else 0, word_of_nat n, word_of_nat (n div 256), NOT (word_of_nat n), NOT (word_of_nat (n div 256))]"

function stored_blocks :: "bytes \<Rightarrow> bytes" where
  "stored_blocks d = (if d = [] then []
     else stored_head (length d \<le> 32767) (min 32767 (length d)) @ take 32767 d @ stored_blocks (drop 32767 d))"
  by pat_completeness auto
termination
  by (relation "measure length") auto

declare stored_blocks.simps [simp del]

lemma stored_blocks_Nil [simp]: "stored_blocks [] = []"
  by (simp add: stored_blocks.simps)

lemma length_stored: "length (stored_blocks d) = length d + (length d + 32766) div 32767 * 5"
proof (induction d rule: stored_blocks.induct)
  case (1 d)
  show ?case
  proof (cases "d = []")
    case False
    show ?thesis
    proof (cases "length d \<le> 32767")
      case True
      then have "(length d + 32766) div 32767 = 1" using False by (intro div_nat_eqI) (auto simp: Suc_le_eq)
      then show ?thesis using False True by (subst stored_blocks.simps) (simp add: stored_head_def)
    next
      case big: False
      then have "(length d + 32766) div 32767 = Suc ((length d - 1) div 32767)" using div_add_self1 [of 32767 "length d - 1"] by simp
      moreover have "length (stored_blocks (drop 32767 d)) = length d - 32767 + (length d - 1) div 32767 * 5" using 1 False big by simp
      ultimately show ?thesis using False big by (subst stored_blocks.simps) (simp add: stored_head_def)
    qed
  qed simp
qed

lemma stored_loop:
  assumes "j \<le> length data" "length out + length (stored_blocks (drop j data)) \<le> cap"
  shows "loop (stored_step data) (j, cap, out) = Some (out @ stored_blocks (drop j data))"
  using assms
proof (induction "length data - j" arbitrary: j cap out rule: less_induct)
  case less
  show ?case
  proof (cases "j < length data")
    case True
    let ?d = "drop j data" let ?n = "min 32767 (length ?d)" let ?h = "stored_head (length ?d \<le> 32767) ?n"
    have sb: "stored_blocks ?d = ?h @ take 32767 ?d @ stored_blocks (drop (j + 32767) data)"
      using True by (subst stored_blocks.simps) (simp add: add.commute)
    have n: "?n = (if length data - j > 32767 then 32767 else length data - j)" by simp
    have bl: "(length data - j = ?n) = (length ?d \<le> 32767)" by auto
    have cap: "length (out @ ?h) + ?n \<le> cap" using less.prems(2) unfolding sb by (simp add: min.commute)
    have tk: "take ?n ?d = take 32767 ?d" "j + ?n \<le> length data" using True by (cases "length ?d \<le> 32767"; simp)+
    have "stored_step data (j, cap, out) = Some (Inr (j + ?n, cap, (out @ ?h) @ take 32767 ?d))"
      using True cap tk unfolding stored_step_def prod.case Let_def n [symmetric] bl stored_head_def
      by (simp add: slice_def max_def)
    moreover have dr: "drop (j + ?n) data = drop (j + 32767) data" by (cases "length ?d \<le> 32767") simp_all
    moreover have "loop (stored_step data) (j + ?n, cap, (out @ ?h) @ take 32767 ?d) = Some (((out @ ?h) @ take 32767 ?d) @ stored_blocks (drop (j + ?n) data))"
    proof (rule less.hyps)
      have "0 < ?n" using True by simp
      then show "length data - (j + ?n) < length data - j" using True by linarith
      show "j + ?n \<le> length data" by (rule tk(2))
      show "length ((out @ ?h) @ take 32767 ?d) + length (stored_blocks (drop (j + ?n) data)) \<le> cap"
        using less.prems(2) unfolding sb dr by simp
    qed
    ultimately show ?thesis unfolding sb by (subst loop.simps) simp
  next
    case False
    then show ?thesis using less.prems by (subst loop.simps) (simp add: stored_step_def)
  qed
qed

subsection \<open>Reading a stored block\<close>

lemma zreceive_have:
  assumes "int n \<le> num_bits z" "n \<le> 16"
  shows "\<exists>k. stbi_zreceive z n = Some (k, consume n z) \<and> unat k = unat (code_buffer z) mod 2 ^ n"
  using assms low_bits [of n "code_buffer z"] by (simp add: stbi_zreceive_def shl32_def shr32_def consume_def)

lemma front_byte:
  assumes b: "bits_ok z" "8 \<le> num_bits z" and s: "zstream z = lbits 8 (unat (c :: byte)) @ bs"
  shows "ucast (code_buffer z AND 255) = c"
proof -
  have "unat (code_buffer z) mod 2 ^ 8 = unat c mod 2 ^ 8" using front_value [of z 8 "unat c" bs] b s by simp
  moreover have "unat (code_buffer z AND 255) = unat (code_buffer z) mod 2 ^ 8" using low_bits [of 8 "code_buffer z"] by simp
  ultimately have "unat (code_buffer z AND 255) = unat c" using unat_u8_less [of c] by simp
  then show ?thesis using unat_u8_less [of c] by (simp add: word_unat_eq_iff unsigned_ucast_eq take_bit_eq_mod)
qed

lemma drain_stream:
  assumes b: "bits_ok z" "num_bits z = 24" and s: "zstream z = lbits 8 (unat x) @ lbits 8 (unat y) @ lbits 8 (unat w) @ bs"
  shows "loop drain_step (z, 0, replicate 4 None) = Some (consume 24 z, 3, [Some x, Some y, Some w, None])"
proof -
  have c: "consume m (consume n z) = consume (n + m) z" for m n by (simp add: consume_def add.commute)
  have b1: "bits_ok (consume 8 z)" "bits_ok (consume 16 z)" using consume_ok(1) [OF b(1)] b(2) by simp_all
  have s1: "zstream (consume 8 z) = lbits 8 (unat y) @ lbits 8 (unat w) @ bs" "zstream (consume 16 z) = lbits 8 (unat w) @ bs"
    using consume_stream [OF b(1)] b(2) s by simp_all
  have u: "ucast (code_buffer z AND 255) = x" "ucast (code_buffer (consume 8 z) AND 255) = y" "ucast (code_buffer (consume 16 z) AND 255) = w"
    using front_byte [OF b(1) _ s] front_byte [OF b1(1) _ s1(1)] front_byte [OF b1(2) _ s1(2)] b(2) by (simp_all add: consume_def)
  have d: "drain_step (a, k, h) = Some (Inr (consume 8 a, k + 1, h[k := Some (ucast (code_buffer a AND 255))]))" if "0 < num_bits a" "k < length h" for a k h
    using that by (simp add: drain_step_def consume_def)
  have num: "num_bits (consume n z) = 24 - int n" for n using b(2) by (simp add: consume_def)
  have e: "drain_step (consume 24 z, k, h) = Some (Inl (consume 24 z, k, h))" for k h using b(2) by (simp add: drain_step_def consume_def)
  have "loop drain_step (z, 0, replicate 4 None) = loop drain_step (consume 8 z, 1, [Some x, None, None, None])"
    using b(2) u(1) by (subst loop.simps) (simp add: d numeral_eq_Suc)
  also have "\<dots> = loop drain_step (consume 16 z, 2, [Some x, Some y, None, None])"
    using b(2) u(2) by (subst loop.simps) (simp add: d c num numeral_2_eq_2)
  also have "\<dots> = loop drain_step (consume 24 z, 3, [Some x, Some y, Some w, None])"
    using b(2) u(3) by (subst loop.simps) (simp add: d c num numeral_eq_Suc)
  also have "\<dots> = Some (consume 24 z, 3, [Some x, Some y, Some w, None])" by (subst loop.simps) (simp add: e)
  finally show ?thesis .
qed

lemma complement16: "n < 65536 \<Longrightarrow> n XOR 0xffff = 65535 - (n :: nat)"
proof -
  assume n: "n < 65536"
  let ?w = "word_of_nat n :: 16 word"
  have u: "unat ?w = n" using n by (simp add: unat_of_nat)
  have "?w XOR - 1 = - 1 - ?w" by (simp add: not_eq_complement)
  then have "unat (?w XOR (- 1)) = 65535 - n" using u unat_sub [OF word_n1_ge, of ?w] by (simp add: unsigned_minus_1_eq_mask mask_eq_exp_minus_1)
  moreover have "unat (?w XOR (- 1)) = n XOR 65535" unfolding unsigned_xor_eq u by (simp add: unsigned_minus_1_eq_mask mask_eq_exp_minus_1)
  ultimately show ?thesis by simp
qed

lemma head_lengths:
  assumes "n < 65536"
  shows "unat (word_of_nat (n div 256) :: byte) * 256 + unat (word_of_nat n :: byte) = n"
    "unat (NOT (word_of_nat (n div 256)) :: byte) * 256 + unat (NOT (word_of_nat n) :: byte) = n XOR 0xffff"
proof -
  have u: "unat (word_of_nat (n div 256) :: byte) = n div 256" "unat (word_of_nat n :: byte) = n mod 256"
    using assms by (simp_all add: unat_of_nat)
  then show "unat (word_of_nat (n div 256) :: byte) * 256 + unat (word_of_nat n :: byte) = n" by simp
  have c: "unat (NOT (x :: byte)) = 255 - unat x" for x
  proof -
    have "NOT x = - 1 - x" by (simp add: not_eq_complement)
    then show ?thesis using unat_sub [OF word_n1_ge, of x] by (simp add: unsigned_minus_1_eq_mask mask_eq_exp_minus_1)
  qed
  have "n div 256 \<le> 255" "n mod 256 \<le> 255" using assms by (simp_all add: less_mult_imp_div_less [of n 256 256, simplified] less_Suc_eq_le [symmetric])
  then have "(255 - n div 256) * 256 + (255 - n mod 256) = 65535 - n" using div_mult_mod_eq [of n 256] by (simp add: diff_mult_distrib)
  then show "unat (NOT (word_of_nat (n div 256)) :: byte) * 256 + unat (NOT (word_of_nat n) :: byte) = n XOR 0xffff"
    unfolding c u complement16 [OF assms] .
qed

definition stored_state :: "bytes \<Rightarrow> zbuf \<Rightarrow> nat \<Rightarrow> bytes \<Rightarrow> bool" where
  "stored_state data a p rest \<longleftrightarrow> bits_ok a \<and> num_bits a = 0 \<and> z_expandable a \<and> zblock a \<noteq> [] \<and> length (zblock a) < 2 ^ 32 \<and>
     length data < 2 ^ 31 \<and> p \<le> length (zblock a) \<and> (\<forall>i < p. zblock a ! i = Some (data ! i)) \<and> zout a = p \<and>
     drop (zbuffer a) (take (zbuffer_end a) (zin a)) = rest"

lemma low_byte_flag: "(x :: nat) mod 256 = f \<Longrightarrow> f \<le> 1 \<Longrightarrow> x mod 2 = f \<and> x div 2 mod 4 = 0"
proof -
  assume x: "x mod 256 = f" "f \<le> 1"
  have "x mod 8 = f" using x mod_mod_cancel [of 8 256 x] by simp
  then show ?thesis using x(2) by presburger
qed

text \<open>The four bytes after the block type, from the buffer and from the input.\<close>

lemma stored_header:
  assumes a: "bits_ok a" "num_bits a = 0" and r: "drop (zbuffer a) (take (zbuffer_end a) (zin a)) = (if fin then 1 else 0) # x # y # w # rest"
  shows "\<exists>z1 k. bits_ok z1 \<and> same_side a z1 \<and> num_bits z1 = 32 \<and> zbuffer z1 = zbuffer a + 4 \<and>
    stbi_zreceive a 1 = Some (k, consume 1 z1) \<and> (k \<noteq> 0) = fin \<and> stbi_zreceive (consume 1 z1) 2 = Some (0, consume 3 z1) \<and>
    (\<exists>u. stbi_zreceive (consume 3 z1) 5 = Some (u, consume 8 z1)) \<and>
    loop drain_step (consume 8 z1, 0, replicate 4 None) =
      Some (consume 32 z1, 3, [Some x, Some y, Some w, None])"
proof -
  have c: "consume m (consume l z) = consume (l + m) z" for m l z by (simp add: consume_def add.commute)
  have "length ((if fin then 1 else 0) # x # y # w # rest) \<le> zbuffer_end a - zbuffer a" unfolding r [symmetric] by simp
  then have "zbuffer a + 4 \<le> zbuffer_end a" by simp
  then obtain z1 where z1: "stbi_fill_bits a = Some z1" "bits_ok z1" "same_side a z1" "num_bits z1 = 32" "zbuffer z1 = zbuffer a + 4" "zstream z1 = zstream a"
    using fill_from_empty [OF a] by (auto elim: satE)
  let ?f = "if fin then 1 else 0 :: byte"
  have st: "zstream z1 = lbits 8 (unat ?f) @ lstream (x # y # w # rest)"
    using z1(6) a(2) r by (simp add: zstream_def)
  have m8: "unat (code_buffer z1) mod 256 = unat ?f"
    using front_value [of z1 8 "unat ?f" "[]"] z1(2,4) st unat_u8_less [of ?f] by simp
  have m: "unat (code_buffer z1) mod 2 = unat ?f" "(unat (code_buffer z1) div 2) mod 4 = 0"
    using low_byte_flag [OF m8] by (cases fin; simp)+
  have num: "num_bits (consume j z1) = 32 - int j" for j using z1(4) by (simp add: consume_def)
  have r1: "stbi_zreceive a 1 = stbi_zreceive z1 1" using z1(1,4) a(2) by (simp add: stbi_zreceive_def)
  obtain k where k: "stbi_zreceive z1 1 = Some (k, consume 1 z1)" "unat k = unat (code_buffer z1) mod 2 ^ 1"
    using zreceive_have [of 1 z1] z1(4) by auto
  have fin: "(k \<noteq> 0) = fin" using k(2) m(1) by (auto simp: word_unat_eq_iff split: if_splits)
  obtain t where t: "stbi_zreceive (consume 1 z1) 2 = Some (t, consume 3 z1)" "unat t = unat (code_buffer (consume 1 z1)) mod 2 ^ 2"
    using zreceive_have [of 2 "consume 1 z1"] num [of 1] unfolding c by (auto simp: numeral_3_eq_3)
  have "unat t = 0" using t(2) m(2) by (simp add: consume_def unat_drop_bit)
  then have t0: "t = 0" by (simp add: word_unat_eq_iff)
  obtain u where u: "stbi_zreceive (consume 3 z1) 5 = Some (u, consume 8 z1)"
    using zreceive_have [of 5 "consume 3 z1"] num [of 3] unfolding c by auto
  have "bits_ok (consume 8 z1)" "num_bits (consume 8 z1) = 24" using consume_ok(1) [OF z1(2), of 8] z1(4) by (simp_all add: consume_def)
  moreover have "zstream (consume 8 z1) = lbits 8 (unat x) @ lbits 8 (unat y) @ lbits 8 (unat w) @ lstream rest"
    using consume_stream [OF z1(2), of 8] z1(4) st by simp
  ultimately have "loop drain_step (consume 8 z1, 0, replicate 4 None) =
      Some (consume 32 z1, 3, [Some x, Some y, Some w, None])"
    using drain_stream [of "consume 8 z1"] by (simp add: c)
  then show ?thesis using z1(2-5) r1 k(1) fin t(1) t0 u by (intro exI [of _ z1] exI [of _ k]) auto
qed

lemma stored_block_ret:
  assumes a: "stored_state data a p (stored_head fin n @ take n (drop p data) @ rest)" and n: "p + n \<le> length data" "n \<le> 32767" and ok: "\<And>k. ok k"
  shows "\<exists>b. block_step ok a = Some (if fin then Inl (Inr b) else Inr b) \<and> stored_state data b (p + n) rest"
proof -
  let ?block = "take n (drop p data)"
  have a0: "bits_ok a" "num_bits a = 0" "z_expandable a" "zblock a \<noteq> []" "length (zblock a) < 2 ^ 32" "length data < 2 ^ 31" "p \<le> length (zblock a)"
    "\<forall>i < p. zblock a ! i = Some (data ! i)" "zout a = p" and r: "drop (zbuffer a) (take (zbuffer_end a) (zin a)) = stored_head fin n @ ?block @ rest"
    using a by (auto simp: stored_state_def)
  obtain z1 k u where z1: "bits_ok z1" "same_side a z1" "num_bits z1 = 32" "zbuffer z1 = zbuffer a + 4"
    "stbi_zreceive a 1 = Some (k, consume 1 z1)" "(k \<noteq> 0) = fin" "stbi_zreceive (consume 1 z1) 2 = Some (0, consume 3 z1)"
    "stbi_zreceive (consume 3 z1) 5 = Some (u, consume 8 z1)"
    "loop drain_step (consume 8 z1, 0, replicate 4 None) =
      Some (consume 32 z1, 3, [Some (word_of_nat n), Some (word_of_nat (n div 256)), Some (NOT (word_of_nat n)), None])"
    using stored_header [OF a0(1,2), of fin] r unfolding stored_head_def by (simp only: append_Cons append_Nil) blast
  let ?z = "consume 32 z1"
  have side: "zin ?z = zin a" "zbuffer_end ?z = zbuffer_end a" "zout ?z = p" "zblock ?z = zblock a" "z_expandable ?z" "zbuffer ?z = zbuffer a + 4"
    "num_bits ?z = 0" "bits_ok ?z" "hit_zeof_once ?z = hit_zeof_once a"
    using z1(2-4) a0 consume_ok(1) [OF z1(1), of 32] by (auto simp: consume_def same_side_def same_out_def)
  have len: "length (stored_head fin n @ ?block @ rest) = zbuffer_end a - zbuffer a" "zbuffer_end a \<le> length (zin a)"
    using a0(1) unfolding r [symmetric] by (simp_all add: bits_ok_def)
  have e5: "zbuffer a + 5 + n \<le> zbuffer_end a" using len n by (simp add: stored_head_def)
  have n1: "zin a ! (zbuffer a + 4) = NOT (word_of_nat (n div 256))"
    using arg_cong [OF r, of "\<lambda>xs. xs ! 4"] e5 len(2) by (simp add: stored_head_def)
  have rest5: "drop (zbuffer a + 5) (take (zbuffer_end a) (zin a)) = ?block @ rest"
    using arg_cong [OF r, of "drop 5"] by (simp add: stored_head_def add.commute)
  let ?z5 = "?z\<lparr>zbuffer := zbuffer a + 5\<rparr>"
  have get: "stbi_zget8 ?z = Some (NOT (word_of_nat (n div 256)), ?z5)" using side e5 len(2) n1 by (simp add: stbi_zget8_def stbi_zeof_def)
  have outok: "out_ok ?z5 p" using a0 side by (auto simp: out_ok_def)
  obtain b m where bm: "(if p + n > length (zblock a) then stbi_zexpand ok ?z5 p n else ret ?z5) = ret (?z5\<lparr>zblock := b, zout := m\<rparr>)" "m = p"
    "p + n \<le> length b" "length b < 2 ^ 32" "\<forall>i < p. b ! i = zblock a ! i" "length (zblock a) \<le> length b"
  proof (cases "p + n > length (zblock a)")
    case True
    obtain b where "stbi_zexpand ok ?z5 p n = ret (?z5\<lparr>zblock := b, zout := p\<rparr>)" "p + n \<le> length b" "length b < 2 ^ 32" "\<forall>i < p. b ! i = zblock a ! i" "length (zblock a) \<le> length b"
      using zexpand_ret [OF outok, of n ok] n a0(6) side ok by auto
    then show thesis using True that by simp
  next
    case False
    then show thesis using that [of p "zblock a"] side a0(5) by simp
  qed
  have sl: "slice (zin a) (zbuffer a + 5) n = Some ?block"
  proof -
    have "take n (drop (zbuffer a + 5) (take (zbuffer_end a) (zin a))) = ?block" unfolding rest5 using n by simp
    then show ?thesis using e5 len(2) by (simp add: slice_def drop_take take_take min_absorb1)
  qed
  let ?b = "take p b @ map Some ?block @ drop (p + n) b"
  let ?r = "?z5\<lparr>zblock := ?b, zout := p + n, zbuffer := zbuffer a + 5 + n\<rparr>"
  have bl: "blit b p (map Some ?block) = Some ?b" using bm(3) n by (simp add: blit_def)
  have mid: "ebind (if p + n > length (zblock a) then stbi_zexpand ok ?z5 p n else ret ?z5) (\<lambda>a. do {
      data \<leftarrow> slice (zin a) (zbuffer a) n; blk \<leftarrow> blit (zblock a) (zout a) (map Some data);
      ret (a\<lparr>zblock := blk, zbuffer := zbuffer a + n, zout := zout a + n\<rparr>) }) = ret ?r"
    unfolding bm(1) using sl bl bm(2) side by simp
  have n29: "num_bits (consume 3 z1) mod 8 = 5" using z1(3) by (simp add: consume_def)
  have parse: "stbi_parse_uncompressed_block ok (consume 3 z1) = ret ?r"
    unfolding stbi_parse_uncompressed_block_def n29
    using z1(8,9) side get head_lengths [of n] n(2) e5 mid
    by (cases "p + n > length (zblock a)") (simp_all add: for_upto_step)
  have "block_step ok a = Some (if fin then Inl (Inr ?r) else Inr ?r)"
    using z1(5-7) parse by (simp add: block_step_def ret_def)
  moreover have "stored_state data ?r (p + n) rest"
  proof -
    have "drop (zbuffer a + 5 + n) (take (zbuffer_end a) (zin a)) = rest"
      using arg_cong [OF rest5, of "drop n"] n by (simp add: add.commute)
    moreover have "?b ! i = Some (data ! i)" if "i < p + n" for i
      using that bm(3,5) a0(8) n by (cases "i < p") (auto simp: nth_append)
    moreover have "bits_ok ?r" using side(8) side(1-3,6,7) e5 by (simp add: bits_ok_def)
    moreover have "length ?b = length b" using bm(3) n by simp
    moreover have "?b \<noteq> []" using \<open>length ?b = length b\<close> bm(6) a0(4) by (metis le_zero_eq length_0_conv)
    ultimately show ?thesis using side a0(3,6) bm(3,4) unfolding stored_state_def by simp
  qed
  ultimately show ?thesis by blast
qed

subsection \<open>All stored blocks\<close>

lemma stored_blocks_ret:
  assumes "stored_state data a p (stored_blocks (drop p data) @ rest)" "p < length data" and ok: "\<And>k. ok k"
  shows "\<exists>b. loop (block_step ok) a = ret b \<and> zout b = length data \<and> take (length data) (zblock b) = map Some data"
  using assms(1,2)
proof (induction "length data - p" arbitrary: a p rule: less_induct)
  case less
  let ?d = "drop p data" let ?n = "min 32767 (length ?d)"
  have n: "p + ?n \<le> length data" "?n \<le> 32767" "0 < ?n" using less.prems(2) by simp_all
  have tk: "take ?n ?d = take 32767 ?d" by (cases "length ?d \<le> 32767") simp_all
  have dr: "drop 32767 ?d = drop (p + ?n) data" by (cases "length ?d \<le> 32767") (simp_all add: add.commute)
  have sb: "stored_blocks ?d = stored_head (length ?d \<le> 32767) ?n @ take ?n ?d @ stored_blocks (drop (p + ?n) data)"
    using less.prems(2) unfolding tk dr [symmetric] by (subst stored_blocks.simps) simp
  have "stored_state data a p (stored_head (length ?d \<le> 32767) ?n @ take ?n ?d @ (stored_blocks (drop (p + ?n) data) @ rest))"
    using less.prems(1) unfolding sb by simp
  from stored_block_ret [OF this n(1,2), of ok] ok obtain b where
    b: "block_step ok a = Some (if length ?d \<le> 32767 then Inl (Inr b) else Inr b)" "stored_state data b (p + ?n) (stored_blocks (drop (p + ?n) data) @ rest)"
    by blast
  show ?case
  proof (cases "length ?d \<le> 32767")
    case True
    then have e: "p + ?n = length data" using less.prems(2) by simp
    then have "loop (block_step ok) a = ret b" using b(1) True by (subst loop.simps) (simp add: ret_def)
    moreover have "take (length data) (zblock b) = map Some data" "zout b = length data"
      using b(2) unfolding e stored_state_def by (auto intro!: nth_equalityI)
    ultimately show ?thesis by blast
  next
    case False
    then have "loop (block_step ok) a = loop (block_step ok) b" using b(1) by (subst loop.simps) simp
    moreover have "\<exists>c. loop (block_step ok) b = ret c \<and> zout c = length data \<and> take (length data) (zblock c) = map Some data"
      using False n by (intro less.hyps [OF _ b(2)]) simp_all
    ultimately show ?thesis by simp
  qed
qed

end
