(* ===== verification/Zlib_Adler.thy ===== *)
theory Zlib_Adler
  imports Zlib_Write
begin

text \<open>
  The checksum of the compressor. It takes the remainders once per block of 5552 bytes; no sum overflows its 32 bits before that, so the
  result is the Adler-32 checksum, which takes them after every byte.
\<close>

definition adler_next :: "nat \<times> nat \<Rightarrow> byte \<Rightarrow> nat \<times> nat" where
  "adler_next s x = (case s of (a, b) \<Rightarrow> let a = (a + unat x) mod 65521 in (a, (b + a) mod 65521))"

definition adler_spec :: "bytes \<Rightarrow> nat \<times> nat" where
  "adler_spec data = foldl adler_next (1, 0) data"

lemma adler_spec_less: "fst (adler_spec data) < 65521" "snd (adler_spec data) < 65521"
  by (induction data rule: rev_induct) (auto simp: adler_spec_def adler_next_def Let_def split: prod.splits)

lemma adler_spec_snoc:
  "fst (adler_spec (xs @ [x])) = (fst (adler_spec xs) + unat x) mod 65521"
  "snd (adler_spec (xs @ [x])) = (snd (adler_spec xs) + (fst (adler_spec xs) + unat x)) mod 65521"
  by (simp_all add: adler_spec_def adler_next_def Let_def mod_simps split: prod.splits)

text \<open>The sums before the remainders are taken: congruent to the checksum of the bytes so far, and bounded by their number.\<close>

definition adler_sums :: "bytes \<Rightarrow> nat \<Rightarrow> u32 \<times> u32 \<Rightarrow> bool" where
  "adler_sums xs k s \<longleftrightarrow> (\<exists>a b. s = (word_of_nat a, word_of_nat b) \<and>
     a mod 65521 = fst (adler_spec xs) \<and> b mod 65521 = snd (adler_spec xs) \<and>
     a \<le> 65520 + 255 * k \<and> 2 * b \<le> 131040 * (k + 1) + 255 * (k * (k + 1)))"

lemma adler_sums_next:
  assumes "adler_sums xs k (s1, s2)"
  shows "adler_sums (xs @ [x]) (Suc k) (s1 + ucast x, s2 + (s1 + ucast x))"
proof -
  obtain a b where ab: "s1 = word_of_nat a" "s2 = word_of_nat b" "a mod 65521 = fst (adler_spec xs)" "b mod 65521 = snd (adler_spec xs)"
    "a \<le> 65520 + 255 * k" "2 * b \<le> 131040 * (k + 1) + 255 * (k * (k + 1))"
    using assms by (auto simp: adler_sums_def)
  have x: "unat x \<le> 255" using unat_u8_less [of x] by simp
  have u: "ucast x = (word_of_nat (unat x) :: u32)" by simp
  have "(a + unat x) mod 65521 = fst (adler_spec (xs @ [x]))" "(b + (a + unat x)) mod 65521 = snd (adler_spec (xs @ [x]))"
    unfolding adler_spec_snoc ab(3,4) [symmetric] by (simp_all add: mod_simps add.left_commute [of b])
  moreover have "a + unat x \<le> 65520 + 255 * Suc k" using ab(5) x by simp
  moreover have "2 * (b + (a + unat x)) \<le> 131040 * (Suc k + 1) + 255 * (Suc k * (Suc k + 1))"
    using ab(5,6) x by (simp add: algebra_simps)
  ultimately show ?thesis unfolding adler_sums_def ab(1,2) u by (intro exI [of _ "a + unat x"] exI [of _ "b + (a + unat x)"]) simp
qed

lemma adler_block_ok:
  assumes n: "n \<le> 5552" "j + n \<le> length data"
    and s: "s = (word_of_nat (fst (adler_spec (take j data))), word_of_nat (snd (adler_spec (take j data))))"
  shows "adler_block data j n s =
    Some (word_of_nat (fst (adler_spec (take (j + n) data))), word_of_nat (snd (adler_spec (take (j + n) data))))"
proof -
  let ?body = "\<lambda>i (s1, s2). do { b \<leftarrow> aget data (j + i); let s1 = s1 + ucast b; Some (s1, s2 + s1) }"
  have "adler_sums (take (j + 0) data) 0 s"
    using adler_spec_less [of "take j data"] unfolding s adler_sums_def
    by (intro exI [of _ "fst (adler_spec (take j data))"] exI [of _ "snd (adler_spec (take j data))"]) simp
  moreover have "\<exists>s'. ?body i s = Some s' \<and> adler_sums (take (j + Suc i) data) (Suc i) s'" if "i < n" "adler_sums (take (j + i) data) i s" for i s
    using that n adler_sums_next [of "take (j + i) data" i "fst s" "snd s" "data ! (j + i)"]
    by (cases s) (simp add: aget_def take_Suc_conv_app_nth Let_def)
  ultimately have "\<exists>s'. for_upto 0 n ?body s = Some s' \<and> adler_sums (take (j + n) data) n s'"
    by (intro for_upto_inv [where P = "\<lambda>i. adler_sums (take (j + i) data) i"]) simp_all
  then obtain a b where ab: "for_upto 0 n ?body s = Some (word_of_nat a, word_of_nat b)"
    "a mod 65521 = fst (adler_spec (take (j + n) data))" "b mod 65521 = snd (adler_spec (take (j + n) data))"
    "a \<le> 65520 + 255 * n" "2 * b \<le> 131040 * (n + 1) + 255 * (n * (n + 1))"
    unfolding adler_sums_def by blast
  have "n * (n + 1) \<le> 5552 * 5553" using n(1) by (intro mult_le_mono) simp_all
  then have "a < 2 ^ 32" "b < 2 ^ 32" using ab(4,5) n(1) by simp_all
  then have "(word_of_nat a :: u32) mod 65521 = word_of_nat (a mod 65521)" "(word_of_nat b :: u32) mod 65521 = word_of_nat (b mod 65521)"
    by (simp_all add: word_unat_eq_iff unat_mod_distrib unat_of_nat)
  then show ?thesis unfolding adler_block_def ab(1) by (simp add: ab(2,3))
qed

text \<open>The first block is short, so that full blocks end with the data.\<close>

lemma adler32_value: "adler32 data = Some (word_of_nat (fst (adler_spec data)), word_of_nat (snd (adler_spec data)))"
proof -
  let ?at = "\<lambda>j. (word_of_nat (fst (adler_spec (take j data))), word_of_nat (snd (adler_spec (take j data)))) :: u32 \<times> u32"
  let ?I = "\<lambda>(j, n, s). s = ?at j \<and> j \<le> length data \<and> (j < length data \<longrightarrow> n \<le> 5552 \<and> (\<exists>k. length data = j + n + 5552 * k))"
  have "sat (loop (adler_step data) (0, length data mod 5552, 1, 0)) (\<lambda>s. s = ?at (length data))"
  proof (rule sat_loop [where I = ?I and measure_of = "\<lambda>(j, n, s). 2 * (length data - j) + (if n = 0 then 1 else 0)"], goal_cases)
    case 1
    have "length data = 0 + length data mod 5552 + 5552 * (length data div 5552)" by simp
    then show ?case using mod_less_divisor [of 5552 "length data"] unfolding prod.case
      by (intro conjI impI exI [of _ "length data div 5552"]) (simp_all add: adler_spec_def less_imp_le)
  next
    case (2 st)
    obtain j n s where st: "st = (j, n, s)" by (metis prod_cases3)
    show ?case
    proof (cases "j < length data")
      case True
      then obtain k where k: "n \<le> 5552" "length data = j + n + 5552 * k" "s = ?at j" using 2 unfolding st by auto
      have "adler_block data j n s = Some (?at (j + n))" using adler_block_ok [OF k(1) _ k(3)] k(2) by simp
      then have "adler_step data st = Some (Inr (j + n, 5552, ?at (j + n)))" unfolding st adler_step_def using True by simp
      moreover have "\<exists>k. length data = j + n + 5552 + 5552 * k" if "j + n < length data"
        using k(2) that by (cases k) auto
      moreover have "2 * (length data - (j + n)) < 2 * (length data - j) + (if n = 0 then 1 else 0)" using True by auto
      ultimately show ?thesis using k(2) unfolding st by auto
    next
      case False
      then show ?thesis using 2 unfolding st adler_step_def by auto
    qed
  qed
  then show ?thesis unfolding adler32_def by (auto elim: satE)
qed

lemma mod_sum: "(s mod m + (a mod m + x)) mod m = (s + (a + x)) mod (m :: nat)"
  by (metis mod_add_left_eq mod_add_right_eq)

lemma adler_spec_sums:
  "fst (adler_spec data) = (1 + sum_list (map unat data)) mod 65521"
  "snd (adler_spec data) = (\<Sum>k = 1..length data. 1 + sum_list (map unat (take k data))) mod 65521"
proof (induction data rule: rev_induct)
  case (snoc x xs)
  show a: "fst (adler_spec (xs @ [x])) = (1 + sum_list (map unat (xs @ [x]))) mod 65521"
    unfolding adler_spec_snoc snoc by (simp add: mod_simps)
  have "(\<Sum>k = 1..length (xs @ [x]). 1 + sum_list (map unat (take k (xs @ [x])))) =
      (\<Sum>k = 1..length xs. 1 + sum_list (map unat (take k xs))) + (1 + sum_list (map unat xs) + unat x)"
    by simp
  then show "snd (adler_spec (xs @ [x])) = (\<Sum>k = 1..length (xs @ [x]). 1 + sum_list (map unat (take k (xs @ [x])))) mod 65521"
    unfolding adler_spec_snoc snoc using mod_sum [of "\<Sum>k = 1..length xs. 1 + sum_list (map unat (take k xs))" 65521 "1 + sum_list (map unat xs)" "unat x"]
    by (simp only: add.assoc)
qed (simp_all add: adler_spec_def)

text \<open>C31: The compressor's checksum of any data is defined and is Adler-32 as RFC 1950 has it: modulo 65521, one plus the sum of the
  bytes, and the sum of the values that this first sum has after each byte.\<close>

theorem adler32_correct:
  "\<exists>s1 s2. adler32 data = Some (s1, s2) \<and> unat s1 = (1 + sum_list (map unat data)) mod 65521 \<and>
     unat s2 = (\<Sum>k = 1..length data. 1 + sum_list (map unat (take k data))) mod 65521"
  using adler32_value [of data] adler_spec_less [of data] unfolding adler_spec_sums [symmetric] by (simp add: unat_of_nat)

end
