(* ===== verification/Zlib_Roundtrip.thy ===== *)
theory Zlib_Roundtrip
  imports Zlib_Stored Zlib_Adler
begin

text \<open>
  The compressor of the image writer and the decompressor of the image library: what the one writes, with its fixed codes or in
  stored blocks, the other reads back.
\<close>

text \<open>The decoder in front of the first block of a stream with the compressor's header.\<close>

definition opened :: "bytes \<Rightarrow> nat \<Rightarrow> zbuf" where
  "opened out n = (zbuf_on out)\<lparr>zbuffer := 2, zblock := replicate n None, z_expandable := True\<rparr>"

lemma decode_opened:
  assumes B: "B \<noteq> []" and ok: "\<And>k. ok k"
  shows "stbi_zlib_decode_malloc_guesssize_headerflag ok ([0x78, 0x5e] @ B) n True =
    ebind (loop (block_step ok) (opened ([0x78, 0x5e] @ B) n)) (\<lambda>a. ret (zblock a, zout a))"
proof -
  let ?out = "[0x78, 0x5e] @ B"
  let ?a = "(zbuf_on ?out)\<lparr>zblock := replicate n None, z_expandable := True\<rparr>"
  have h: "stbi_parse_zlib_header ?a = ret (?a\<lparr>zbuffer := Suc (Suc 0)\<rparr>)"
    using B by (simp add: stbi_parse_zlib_header_def stbi_zget8_def stbi_zeof_def zbuf_on_def)
  have "(?a\<lparr>zbuffer := Suc (Suc 0)\<rparr>)\<lparr>num_bits := 0, code_buffer := 0, hit_zeof_once := False\<rparr> = opened ?out n"
    "(zbuf_on ?out)\<lparr>zblock := replicate n None, zout := 0, z_expandable := True\<rparr> = ?a" by (simp_all add: opened_def zbuf_on_def numeral_2_eq_2)
  then show ?thesis
    using h ok by (simp add: stbi_zlib_decode_malloc_guesssize_headerflag_def stbi_malloc_def stbi_do_zlib_def stbi_parse_zlib_def)
qed

lemma opened_simps [simp]: "bits_ok (opened (0x78 # 0x5e # B) n)" "num_bits (opened out n) = 0" "z_expandable (opened out n)"
  "zblock (opened out n) = replicate n None" "zout (opened out n) = 0" "\<not> hit_zeof_once (opened out n)"
  "z_length (opened out n) = fresh_zhuffman" "z_distance (opened out n) = fresh_zhuffman"
  "drop (zbuffer (opened (0x78 # 0x5e # B) n)) (take (zbuffer_end (opened (0x78 # 0x5e # B) n)) (zin (opened (0x78 # 0x5e # B) n))) = B"
  by (simp_all add: opened_def zbuf_on_def bits_ok_def)

lemma opened_stream: "zstream (opened (0x78 # 0x5e # B) n) = lstream B"
  unfolding zstream_def opened_simps by simp

subsection \<open>The block with fixed codes\<close>

lemma fixed_block_ret:
  assumes B: "lstream B = lbits 1 1 @ lbits 2 1 @ m @ lit_bits 256 @ z" "zreads ok data m 0 (length data)" and t: "2 \<le> length t"
    and n: "0 < n" "n < 2 ^ 32" and d: "length data < 2 ^ 31" and ok: "\<And>k. ok k"
  shows "\<exists>b. loop (block_step ok) (opened ([0x78, 0x5e] @ B @ t) n) = ret b \<and> zout b = length data \<and> take (length data) (zblock b) = map Some data"
proof -
  let ?a = "opened ([0x78, 0x5e] @ B @ t) n"
  let ?rest = "z @ lstream t"
  have f0: "zfeeds ?a (lbits 1 1 @ lbits 2 1 @ m @ lit_bits 256 @ ?rest)"
    unfolding zfeeds_def using B(1) by (simp add: opened_stream)
  obtain k a1 where a1: "stbi_zreceive ?a 1 = Some (k, a1)" "unat k = 1" "zfeeds a1 (lbits 2 1 @ m @ lit_bits 256 @ ?rest)" "same_side ?a a1"
    using zreceive_feeds [OF f0] unfolding sat_def by auto
  obtain l a2 where a2: "stbi_zreceive a1 2 = Some (l, a2)" "unat l = 1" "zfeeds a2 (m @ lit_bits 256 @ ?rest)" "same_side a1 a2"
    using zreceive_feeds [OF a1(3)] unfolding sat_def by auto
  have side: "same_side ?a a2" using a1(4) a2(4) same_side_trans by blast
  then have f: "z_length a2 = fresh_zhuffman" "z_distance a2 = fresh_zhuffman" "zblock a2 = replicate n None" "zout a2 = 0" "z_expandable a2"
    by (simp_all add: same_side_def same_out_def)
  obtain hl hd where h: "stbi_zbuild_huffman fresh_zhuffman stbi_zdefault_length 288 = ret hl" "tables_for fixed_lit hl"
    "stbi_zbuild_huffman fresh_zhuffman stbi_zdefault_distance 32 = ret hd" "tables_for fixed_dist hd"
    using fixed_tables [OF zshape_fresh zshape_fresh] by blast
  let ?c = "a2\<lparr>z_length := hl, z_distance := hd\<rparr>"
  have c: "zfeeds ?c (m @ lit_bits 256 @ ?rest)" "zstate data ?c 0" using a2(3) f h n d by (simp_all add: zstate_def)
  have len: "16 \<le> length (lit_bits 256 @ ?rest)" "16 \<le> length ?rest" using t by simp_all
  obtain e where e: "loop (huffman_step ok) (?c, 0) = loop (huffman_step ok) (e, length data)" "zfeeds e (lit_bits 256 @ ?rest)" "zstate data e (length data)"
    using B(2) c len(1) unfolding zreads_def by blast
  obtain b where b: "loop (huffman_step ok) (e, length data) = ret b" "zout b = length data" "zstate data b (length data)"
    using zreads_end [OF e(2) len(2) e(3)] by blast
  have kl: "k \<noteq> 0" "l = 1" using a1(2) a2(2) by (auto simp: word_unat_eq_iff)
  have "block_step ok ?a = Some (Inl (Inr b))"
    using a1(1) a2(1) kl h(1,3) f e(1) b(1) by (simp add: block_step_def stbi_parse_huffman_block_def ret_def)
  then have "loop (block_step ok) ?a = ret b" by (subst loop.simps) (simp add: ret_def)
  moreover have "take (length data) (zblock b) = map Some data" using b(3) by (auto simp: zstate_def intro!: nth_equalityI)
  ultimately show ?thesis using b(2) by blast
qed

subsection \<open>The compressor\<close>

text \<open>What the compressor returns: the fixed codes, or the stored blocks when these are shorter; then the checksum.\<close>

definition stored_size :: "bytes \<Rightarrow> nat" where
  "stored_size data = length data + 2 + (length data + 32766) div 32767 * 5"

lemma compress_cases:
  assumes d: "length data \<le> 2146959360" and ok: "\<And>k. ok k"
  obtains (fixed) B m z t where "stbi_zlib_compress ok data q = Some (Some ([0x78, 0x5e] @ B @ t))" "length t = 4" "2 + length B \<le> stored_size data"
      "lstream B = lbits 1 1 @ lbits 2 1 @ m @ lit_bits 256 @ z" "zreads ok data m 0 (length data)"
  | (stored) t where "stbi_zlib_compress ok data q = Some (Some ([0x78, 0x5e] @ stored_blocks data @ t))" "length t = 4"
proof -
  let ?lim = "int (length data) + 2 + (int (length data) + 32766) div 32767 * 5"
  have "(int (length data) + 32766) div 32767 * 5 \<le> (2146959360 + 32766) div 32767 * 5" using d by (intro mult_right_mono zdiv_mono1) simp_all
  then have lim: "i32 ?lim = Some ?lim" using d by (simp add: i32_def)
  obtain B m z where B: "compress_fixed data (nat (if q < 5 then 5 else q)) = Some ([0x78, 0x5e] @ B)"
    "lstream B = lbits 1 1 @ lbits 2 1 @ m @ lit_bits 256 @ z" "zreads ok data m 0 (length data)"
    using compress_fixed_ok [of ok data "nat (if q < 5 then 5 else q)"] ok by blast
  define t :: bytes where "t = (case adler_spec data of (a, b) \<Rightarrow>
    [ucast (drop_bit 8 (word_of_nat b :: u32)), ucast (word_of_nat b :: u32), ucast (drop_bit 8 (word_of_nat a :: u32)), ucast (word_of_nat a :: u32)])"
  have t: "length t = 4" by (simp add: t_def split: prod.splits)
  have c: "stbi_zlib_compress ok data q = do {
      out \<leftarrow> (if int (length ([0x78, 0x5e] @ B)) > ?lim then compress_stored data (length ([0x78, 0x5e] @ B)) else Some ([0x78, 0x5e] @ B));
      Some (Some (out @ t)) }"
    using ok lim B(1) adler32_value [of data] unfolding stbi_zlib_compress_def Let_def by (simp add: t_def split: prod.splits)
  show thesis
  proof (cases "int (length ([0x78, 0x5e] @ B)) > ?lim")
    case True
    have "?lim = int (length [0x78, 0x5e :: byte] + length (stored_blocks (drop 0 data)))" unfolding length_stored by (simp add: zdiv_int)
    then have "length [0x78, 0x5e :: byte] + length (stored_blocks (drop 0 data)) \<le> length ([0x78, 0x5e] @ B)" using True by linarith
    from stored_loop [OF _ this] have "compress_stored data (length ([0x78, 0x5e] @ B)) = Some ([0x78, 0x5e] @ stored_blocks data)"
      unfolding compress_stored_def by simp
    then show thesis using stored [OF _ t] c True by simp
  next
    case False
    have "?lim = int (stored_size data)" by (simp add: stored_size_def zdiv_int)
    then have "2 + length B \<le> stored_size data" using False by simp
    then show thesis using fixed [OF _ t _ B(2,3)] c False by simp
  qed
qed

lemma compress_decode:
  assumes "data \<noteq> []" "length data \<le> 2146959360" "0 < initial_size" "initial_size < 2 ^ 32" and ok: "\<And>k. ok k"
  shows "\<exists>out blk. stbi_zlib_compress ok data quality = Some (Some out) \<and> out \<noteq> [] \<and> length out \<le> stored_size data + 4 \<and>
    stbi_zlib_decode_malloc_guesssize_headerflag ok out initial_size True = ret (blk, length data) \<and>
    take (length data) blk = map Some data"
proof -
  have len: "length data < 2 ^ 31" using assms(2) by simp
  show ?thesis
  proof (rule compress_cases [where q = quality and ok = ok, OF assms(2) ok], goal_cases)
    case fixed: (1 B m z t)
    have t2: "2 \<le> length t" using fixed(2) by simp
    obtain b where "loop (block_step ok) (opened ([0x78, 0x5e] @ B @ t) initial_size) = ret b" "zout b = length data" "take (length data) (zblock b) = map Some data"
      using fixed_block_ret [OF fixed(4,5) t2 assms(3,4) len ok] by blast
    moreover have "B @ t \<noteq> []" using fixed(2) by auto
    ultimately show ?thesis using decode_opened [of "B @ t" ok initial_size] ok fixed(1-3) by auto
  next
    case stored: (2 t)
    let ?o = "opened ([0x78, 0x5e] @ stored_blocks data @ t) initial_size"
    have "stored_state data ?o 0 (stored_blocks (drop 0 data) @ t)" using assms(3,4) len by (simp add: stored_state_def)
    from stored_blocks_ret [OF this, of ok] obtain b where "loop (block_step ok) ?o = ret b" "zout b = length data" "take (length data) (zblock b) = map Some data"
      using assms(1) ok by auto
    moreover have "stored_blocks data @ t \<noteq> []" using stored(2) by auto
    ultimately show ?thesis using decode_opened [of "stored_blocks data @ t" ok initial_size] ok stored(1,2) length_stored [of data] by (auto simp: stored_size_def)
  qed
qed



text \<open>C32: Empty data are not read back: the stream with fixed codes is longer than the limit, and the loop over stored blocks then writes no
  block at all, so the decoder takes the checksum for a block.\<close>

theorem zlib_compress_empty_unreadable:
  "stbi_zlib_compress (\<lambda>_. True) [] quality = Some (Some [0x78, 0x5e, 0, 0, 0, 1]) \<and>
   stbi_zlib_decode_malloc_guesssize_headerflag (\<lambda>_. True) [0x78, 0x5e, 0, 0, 0, 1] initial_size True = stbi_err ''zlib corrupt''"
proof
  have "compress_fixed [] q = Some [0x78, 0x5e, 3, 0]" for q
    by (simp add: compress_fixed_def loop.simps compress_step_def stbiw_zlib_add_def) code_simp
  then show "stbi_zlib_compress (\<lambda>_. True) [] quality = Some (Some [0x78, 0x5e, 0, 0, 0, 1])"
    by (simp add: stbi_zlib_compress_def i32_def compress_stored_def loop.simps stored_step_def adler32_def adler_step_def)
  show "stbi_zlib_decode_malloc_guesssize_headerflag (\<lambda>_. True) [0x78, 0x5e, 0, 0, 0, 1] initial_size True = stbi_err ''zlib corrupt''"
  proof -
    let ?ok = "\<lambda>_. True" and ?o = "opened ([0x78, 0x5e] @ [0, 0, 0, 1]) initial_size"
    have o: "bits_ok ?o" "drop (zbuffer ?o) (take (zbuffer_end ?o) (zin ?o)) = (if False then 1 else 0) # 0 # 0 # 1 # []" by simp_all
    obtain z1 k u where z1: "num_bits z1 = 32" "zbuffer z1 = zbuffer ?o + 4" "same_side ?o z1"
      "stbi_zreceive ?o 1 = Some (k, consume 1 z1)" "stbi_zreceive (consume 1 z1) 2 = Some (0, consume 3 z1)"
      "stbi_zreceive (consume 3 z1) 5 = Some (u, consume 8 z1)"
      "loop drain_step (consume 8 z1, 0, replicate 4 None) = Some (consume 32 z1, 3, [Some 0, Some 0, Some 1, None])"
      using stored_header [OF o(1) _ o(2)] by auto
    have n: "num_bits (consume 3 z1) mod 8 = 5" "num_bits (consume 32 z1) = 0" using z1(1) by (simp_all add: consume_def)
    have "stbi_zeof (consume 32 z1)" using z1(2,3) by (simp add: stbi_zeof_def consume_def same_side_def same_out_def opened_def zbuf_on_def)
    then have g: "stbi_zget8 (consume 32 z1) = Some (0, consume 32 z1)" by (simp add: stbi_zget8_def)
    have "stbi_parse_uncompressed_block ?ok (consume 3 z1) = stbi_err ''zlib corrupt''"
      unfolding stbi_parse_uncompressed_block_def n(1) using z1(6,7) n(2) g by (simp add: for_upto_step)
    then have "block_step ?ok ?o = Some (Inl (Inl ''zlib corrupt''))" using z1(4,5) by (simp add: block_step_def stbi_err_def)
    then have "loop (block_step ?ok) ?o = stbi_err ''zlib corrupt''" by (subst loop.simps) (simp add: stbi_err_def)
    then show ?thesis using decode_opened [of "[0, 0, 0, 1]" ?ok initial_size] by simp
  qed
qed

end
