(* ===== verification/Png_Crc.thy ===== *)
theory Png_Crc
  imports Png_Write
begin

text \<open>
  The checksum of PNG chunks. The table of the writer holds the remainders of all bytes, so that its loop computes the CRC with the
  polynomial of the PNG specification.
\<close>

unbundle bit_operations_syntax

text \<open>The specification: one bit at a time, least significant first, as a shift register.\<close>

definition crc_bit :: "u32 \<Rightarrow> u32" where
  "crc_bit c = (if bit c 0 then drop_bit 1 c XOR 0xEDB88320 else drop_bit 1 c)"

definition crc_byte :: "u32 \<Rightarrow> byte \<Rightarrow> u32" where
  "crc_byte c b = (crc_bit ^^ 8) (c XOR ucast b)"

definition crc32_spec :: "bytes \<Rightarrow> u32" where
  "crc32_spec d = NOT (foldl crc_byte (NOT 0) d)"

lemma crc_bit_xor: "crc_bit (a XOR b) = crc_bit a XOR crc_bit b"
  by (cases "bit a 0"; cases "bit b 0") (simp_all add: crc_bit_def drop_bit_xor bit_xor_iff ac_simps xor.left_commute)

lemma crc_bits_xor: "(crc_bit ^^ k) (a XOR b) = (crc_bit ^^ k) a XOR (crc_bit ^^ k) b"
  by (induction k arbitrary: a b) (simp_all add: crc_bit_xor)

text \<open>Bits above the ones that are shifted out only move.\<close>

lemma crc_bits_high: "(\<And>i. i < k \<Longrightarrow> \<not> bit c i) \<Longrightarrow> (crc_bit ^^ k) c = drop_bit k c"
proof (induction k arbitrary: c)
  case (Suc k)
  have "(crc_bit ^^ Suc k) c = (crc_bit ^^ k) (crc_bit c)" by (simp add: funpow_swap1)
  also have "crc_bit c = drop_bit 1 c" using Suc.prems [of 0] by (simp add: crc_bit_def)
  also have "(crc_bit ^^ k) (drop_bit 1 c) = drop_bit k (drop_bit 1 c)" using Suc.prems by (intro Suc.IH) (simp add: bit_drop_bit_eq)
  finally show ?case by simp
qed simp

subsection \<open>The table\<close>

text \<open>A table of a linear function follows from its values on the powers of two.\<close>

definition doubling :: "u32 list \<Rightarrow> u32 list" where
  "doubling bs = foldl (\<lambda>xs b. xs @ map (\<lambda>x. x XOR b) xs) [0] bs"

lemma add_high_bit: "i < 2 ^ m \<Longrightarrow> word_of_nat (i + 2 ^ m) = word_of_nat i XOR (word_of_nat (2 ^ m) :: u32)"
proof -
  assume i: "i < 2 ^ m"
  then have "\<not> bit i m" by (simp add: bit_iff_odd)
  then have "word_of_nat i AND 2 ^ m = (0 :: u32)" by (intro bit_eqI) (auto simp: bit_simps)
  then show ?thesis using disjunctive_add_eq_xor [of "word_of_nat i :: u32" "2 ^ m"] by simp
qed

lemma doubling_table:
  fixes f :: "u32 \<Rightarrow> u32"
  assumes lin: "\<And>a b. f (a XOR b) = f a XOR f b" and z: "f 0 = 0"
  shows "doubling (map (\<lambda>k. f (word_of_nat (2 ^ k))) [0..<m]) = map (\<lambda>i. f (word_of_nat i)) [0..<2 ^ m]"
proof (induction m)
  case (Suc m)
  have "[0..<2 ^ Suc m] = [0..<2 ^ m] @ map (\<lambda>i. i + 2 ^ m) [0..<2 ^ m]" using upt_add_eq_append [of 0 "2 ^ m" "2 ^ m"] by (simp add: mult_2 map_add_upt)
  moreover have "f (word_of_nat i + 2 ^ m) = f (word_of_nat i) XOR f (2 ^ m)" if "i < 2 ^ m" for i
  proof -
    have e: "word_of_nat i + 2 ^ m = word_of_nat i XOR (2 ^ m :: u32)" using add_high_bit [OF that] by simp
    show ?thesis unfolding e by (rule lin)
  qed
  ultimately show ?case using Suc by (simp add: doubling_def)
qed (simp add: doubling_def z)

lemma crc8: "(crc_bit ^^ 8) c = crc_bit (crc_bit (crc_bit (crc_bit (crc_bit (crc_bit (crc_bit (crc_bit c)))))))"
  by (simp add: eval_nat_numeral)

lemma basis:
  "(crc_bit ^^ 8) 1 = 0x77073096" "(crc_bit ^^ 8) 2 = 0xee0e612c" "(crc_bit ^^ 8) 4 = 0x076dc419" "(crc_bit ^^ 8) 8 = 0x0edb8832"
  "(crc_bit ^^ 8) 16 = 0x1db71064" "(crc_bit ^^ 8) 32 = 0x3b6e20c8" "(crc_bit ^^ 8) 64 = 0x76dc4190" "(crc_bit ^^ 8) 128 = 0xedb88320"
  unfolding crc8 by (simp_all add: crc_bit_def)

lemma table_doubling: "crc_table = doubling [0x77073096, 0xee0e612c, 0x076dc419, 0x0edb8832, 0x1db71064, 0x3b6e20c8, 0x76dc4190, 0xedb88320]"
  by (simp add: crc_table_def doubling_def)

lemma table_nth: "i < 256 \<Longrightarrow> crc_table ! i = (crc_bit ^^ 8) (word_of_nat i)"
proof -
  assume i: "i < 256"
  have "(crc_bit ^^ 8) 0 = 0" unfolding crc8 by (simp add: crc_bit_def)
  from doubling_table [of "crc_bit ^^ 8", OF crc_bits_xor this, of 8]
  have e: "crc_table = map (\<lambda>i. (crc_bit ^^ 8) (word_of_nat i)) [0..<2 ^ 8]" unfolding table_doubling by (simp add: upt_rec basis)
  show ?thesis unfolding e using i by simp
qed

subsection \<open>The checksum\<close>

text \<open>One turn of the loop of the writer is eight turns of the register.\<close>

lemma crc_turn: "drop_bit 8 c XOR (crc_bit ^^ 8) (ucast b XOR (c AND 0xff)) = crc_byte c b"
proof -
  have m: "(0xff :: u32) = mask 8" by (simp add: mask_eq_exp_minus_1)
  have split: "c XOR ucast b = (c AND NOT 0xff) XOR (ucast b XOR (c AND 0xff))"
    unfolding m by (rule bit_eqI) (auto simp: bit_simps)
  have "(crc_bit ^^ 8) (c AND NOT 0xff) = drop_bit 8 (c AND NOT 0xff)" unfolding m by (rule crc_bits_high) (simp add: bit_simps)
  also have "\<dots> = drop_bit 8 c" unfolding m by (rule bit_eqI) (auto simp: bit_simps dest: bit_imp_le_length)
  finally show ?thesis unfolding crc_byte_def split crc_bits_xor by simp
qed

lemma u32_low_byte: "unat (ucast (b :: byte) XOR (c AND 0xff) :: u32) < 256"
proof -
  have m: "(0xff :: u32) = mask 8" by (simp add: mask_eq_exp_minus_1)
  have "ucast b XOR (c AND 0xff) = (ucast b XOR c) AND (mask 8 :: u32)"
    unfolding m by (rule bit_eqI) (auto simp: bit_simps dest: bit_imp_le_length)
  then show ?thesis using and_mask_less_size [of 8 "ucast b XOR c :: u32"] by (simp add: word_less_nat_alt word_size)
qed

lemma crc32_value: "stbiw_crc32 d = Some (crc32_spec d)"
proof -
  have "sat (for_upto 0 (length d) (\<lambda>i crc. do {
       b \<leftarrow> aget d i;
       t \<leftarrow> aget crc_table (unat (ucast b XOR (crc AND 0xff)));
       Some (drop_bit 8 crc XOR t) }) (NOT 0)) (\<lambda>crc. crc = foldl crc_byte (NOT 0) (take (length d) d))"
  proof (rule sat_for_upto [where P = "\<lambda>i crc. crc = foldl crc_byte (NOT 0) (take i d)"])
    fix i and crc :: u32 assume i: "i < length d" and crc: "crc = foldl crc_byte (NOT 0) (take i d)"
    have u: "unat (ucast (d ! i) XOR (crc AND 0xff) :: u32) < 256" by (rule u32_low_byte)
    have "length crc_table = 256" by (simp add: crc_table_def)
    then have "aget crc_table (unat (ucast (d ! i) XOR (crc AND 0xff) :: u32)) = Some ((crc_bit ^^ 8) (ucast (d ! i) XOR (crc AND 0xff)))"
      using table_nth [OF u] u by (simp add: aget_def)
    moreover have "foldl crc_byte (NOT 0) (take (Suc i) d) = crc_byte crc (d ! i)" using i crc by (simp add: take_Suc_conv_app_nth)
    ultimately show "sat (do { b \<leftarrow> aget d i; t \<leftarrow> aget crc_table (unat (ucast b XOR (crc AND 0xff))); Some (drop_bit 8 crc XOR t) })
        (\<lambda>crc. crc = foldl crc_byte (NOT 0) (take (Suc i) d))" using i crc_turn [of crc "d ! i"] by simp
  qed simp_all
  then show ?thesis unfolding stbiw_crc32_def crc32_spec_def by (auto elim!: satE)
qed

text \<open>C30: The checksum of the writer is defined for all data and is the CRC-32 of the PNG specification: a shift register with the
  polynomial EDB88320, fed with the data from the least significant bit of the first byte on.\<close>

theorem crc32_correct: "stbiw_crc32 d = Some (crc32_spec d)"
  by (rule crc32_value)

end
