(* ===== verification/Png_Pack.thy ===== *)
theory Png_Pack
  imports Png_Filters Png_Crc
begin

text \<open>
  The scanlines that the PNG writer compresses: for every row the number of some filter and the row filtered with it. The writer
  chooses the filter by an estimate; whatever it chooses, the bytes have this form.
\<close>

subsection \<open>Blocks of one length\<close>

lemma length_concat_blocks:
  "(\<And>i. i < y \<Longrightarrow> length (f i) = w) \<Longrightarrow> length (concat (map f [0..<y])) = y * w"
  by (induction y) auto

lemma nth_concat_blocks:
  assumes "\<And>i. i < y \<Longrightarrow> length (f i) = w" "j < y" "k < w"
  shows "concat (map f [0..<y]) ! (j * w + k) = f j ! k"
proof -
  have "[0..<y] = [0..<j] @ j # [Suc j..<y]" using assms(2) by (metis less_imp_le_nat upt_add_eq_append upt_conv_Cons le0 le_add_diff_inverse)
  then have "concat (map f [0..<y]) = concat (map f [0..<j]) @ f j @ concat (map f [Suc j..<y])" by simp
  moreover have "length (concat (map f [0..<j])) = j * w" using assms(1,2) by (intro length_concat_blocks) simp
  ultimately show ?thesis using assms(1) [OF assms(2)] assms(3) by (simp add: nth_append)
qed

lemma concat_snoc_upt: "concat (map f [0..<Suc j]) = concat (map f [0..<j]) @ f j"
  by simp

text \<open>A block stored behind those before it.\<close>

lemma blit_next:
  assumes "take (j * w) out = map Some (concat (map f [0..<j]))" "length d = w" "(j + 1) * w \<le> length out"
  shows "\<exists>out'. blit out (j * w) (map Some d) = Some out' \<and> length out' = length out \<and>
    (d = f j \<longrightarrow> take (Suc j * w) out' = map Some (concat (map f [0..<Suc j])))"
proof -
  let ?o = "take (j * w) out @ map Some d @ drop (j * w + w) out"
  have "j * w + w \<le> length out" using assms(3) by (simp add: algebra_simps)
  then have "blit out (j * w) (map Some d) = Some ?o" "length ?o = length out" using assms(2) by (simp_all add: blit_def)
  moreover have "take (Suc j * w) ?o = take (j * w) out @ map Some d"
    using assms(2) \<open>j * w + w \<le> length out\<close> by (simp add: min_absorb2 algebra_simps)
  ultimately show ?thesis using assms(1) by auto
qed

subsection \<open>The rows of the picture\<close>

text \<open>Row \<open>j\<close> of the file, for rows of \<open>w\<close> bytes, and the row above it.\<close>

definition file_row :: "bool \<Rightarrow> nat \<Rightarrow> nat \<Rightarrow> bytes \<Rightarrow> nat \<Rightarrow> bytes" where
  "file_row flip w y data j = take w (drop ((if flip then y - 1 - j else j) * w) data)"

definition row_above :: "bool \<Rightarrow> nat \<Rightarrow> nat \<Rightarrow> bytes \<Rightarrow> nat \<Rightarrow> bytes" where
  "row_above flip w y data j = (if j = 0 then replicate w 0 else file_row flip w y data (j - 1))"

definition file_line :: "nat \<Rightarrow> bool \<Rightarrow> nat \<Rightarrow> nat \<Rightarrow> bytes \<Rightarrow> (nat \<Rightarrow> nat) \<Rightarrow> nat \<Rightarrow> bytes" where
  "file_line n flip w y data T j = word_of_nat (T j) # filtered (T j) n (row_above flip w y data j) (file_row flip w y data j)"

lemma row_position: "j < y \<Longrightarrow> k < w \<Longrightarrow> j * w + k < y * (w :: nat)"
proof -
  assume "j < y" "k < w"
  then have "j * w + k < Suc j * w" by simp
  also have "\<dots> \<le> y * w" using \<open>j < y\<close> by (intro mult_le_mono1) simp
  finally show ?thesis .
qed

lemma file_row_nth:
  assumes "length data = y * w" "j < y" "k < w"
  shows "file_row flip w y data j ! k = data ! ((if flip then y - 1 - j else j) * w + k)"
  using assms row_position [of "y - 1 - j" y k w] row_position [of j y k w] by (auto simp: file_row_def)

lemma length_file_row:
  assumes "length data = y * w" "j < y"
  shows "length (file_row flip w y data j) = w"
proof -
  have "(if flip then y - 1 - j else j) + 1 \<le> y" using assms(2) by auto
  from mult_le_mono1 [OF this, of w] show ?thesis using assms(1) by (simp add: file_row_def algebra_simps split: if_splits)
qed

lemma length_row_above: "length data = y * w \<Longrightarrow> j < y \<Longrightarrow> length (row_above flip w y data j) = w"
  by (simp add: row_above_def length_file_row)

lemma length_file_line: "length data = y * w \<Longrightarrow> j < y \<Longrightarrow> length (file_line n flip w y data T j) = w + 1"
  by (simp add: file_line_def filtered_def length_file_row)

lemma file_rows_all: "length data = y * w \<Longrightarrow> concat (map (file_row False w y data) [0..<y]) = data"
proof (rule nth_equalityI)
  assume d: "length data = y * w"
  then show len: "length (concat (map (file_row False w y data) [0..<y])) = length data"
    using length_concat_blocks [of y "file_row False w y data" w] length_file_row by simp
  fix q assume "q < length (concat (map (file_row False w y data) [0..<y]))"
  then have q: "q < y * w" unfolding len d .
  then have w: "0 < w" by (cases w) auto
  have j: "q div w < y" "q mod w < w" using q w by (auto simp: less_mult_imp_div_less)
  have "concat (map (file_row False w y data) [0..<y]) ! (q div w * w + q mod w) = file_row False w y data (q div w) ! (q mod w)"
    by (intro nth_concat_blocks j length_file_row d) simp
  also have "\<dots> = data ! (q div w * w + q mod w)" using file_row_nth [OF d j, of False] by simp
  finally show "concat (map (file_row False w y data) [0..<y]) ! q = data ! q" by simp
qed

subsection \<open>One row\<close>

text \<open>A picture of tightly packed rows whose sizes the writer computes without overflow (the sum of a row of differences, which
  estimates how well it compresses, is the narrowest) and whose compressed form stays under the limit of the reader.\<close>

definition picture :: "nat \<Rightarrow> nat \<Rightarrow> nat \<Rightarrow> bytes \<Rightarrow> bool" where
  "picture n x y data \<longleftrightarrow> 0 < n \<and> 0 < x \<and> 0 < y \<and> n * x < 2 ^ 24 \<and> (n * x + 1) * y \<le> 2 ^ 30 - 2 ^ 18 \<and> length data = y * (n * x)"

lemma pictureD:
  assumes "picture n x y data"
  shows "0 < n" "0 < x" "0 < y" "n * x < 2 ^ 24" "y * (n * x + 1) \<le> 1073479680" "length data = y * (n * x)" "y * (n * x) < 1073479680"
    "y * x \<le> y * (n * x)" "x < 2 ^ 24" "y * (n * x) + n * x < 2147483648"
proof -
  show p: "0 < n" "0 < x" "0 < y" "n * x < 2 ^ 24" "y * (n * x + 1) \<le> 1073479680" "length data = y * (n * x)"
    using assms by (auto simp: picture_def mult.commute)
  then show "y * (n * x) < 1073479680" by (simp add: algebra_simps)
  then show "y * (n * x) + n * x < 2147483648" using p(4) by simp
  have "1 * x \<le> n * x" using p(1) by (intro mult_le_mono1) simp
  then show "y * x \<le> y * (n * x)" "x < 2 ^ 24" using p(4) by (simp_all only: mult_le_mono2 mult_1)
qed

lemma encode_row_ok:
  assumes pic: "picture n x y data" and j: "j < y" and t: "t \<le> 4" and line: "length line = n * x"
  shows "stbiw_encode_png_line flip data (int (n * x)) (int x) (int y) (int j) n t line =
    Some (map Some (filtered t n (row_above flip (n * x) y data j) (file_row flip (n * x) y data j)))"
proof -
  note sizes = pictureD(1-3) [OF pic] and row_size = pictureD(4) [OF pic] and data = pictureD(6) [OF pic] and size_int = pictureD(7) [OF pic]
  let ?w = "n * x" and ?r = "if flip then y - 1 - j else j"
  let ?z = "int ?w * (if flip then int y - 1 - int j else int j)"
  have z: "?z = int (?r * ?w)" using j by (auto simp: of_nat_diff algebra_simps)
  have r: "?r < y" using j by auto
  have "?r * ?w + 0 < y * ?w" using r sizes by (intro row_position) auto
  then have "?r * ?w < 2147483648" using size_int by linarith
  moreover obtain m where m: "?r * ?w = m" by blast
  ultimately have zb: "INT_MIN \<le> ?z" "?z \<le> INT_MAX" unfolding z m INT_MIN_def INT_MAX_def by simp_all
  have at: "iget data (int (q * ?w) + int k) = Some (data ! (q * ?w + k))" if "q < y" "k < ?w" for q k
    using row_position [OF that] data by (simp add: iget_def aget_def nat_add_distrib flip: of_nat_add of_nat_mult)
  have row: "iget data (?z + int i) = Some (file_row flip ?w y data j ! i)" if "i < length (file_row flip ?w y data j)" for i
    using that at [OF r, of i] file_row_nth [OF data j, of i flip] length_file_row [OF data j] unfolding z by simp
  have above: "if int j = 0 then row_above flip ?w y data j ! i = 0
      else iget data (?z + int i - (if flip then - int ?w else int ?w)) = Some (row_above flip ?w y data j ! i)"
    if "i < length (file_row flip ?w y data j)" for i
  proof (cases "j = 0")
    case True
    then show ?thesis using that length_file_row [OF data j] by (simp add: row_above_def)
  next
    case False
    let ?q = "if flip then y - 1 - (j - 1) else j - 1"
    have i: "i < ?w" using that length_file_row [OF data j] by simp
    have q: "?q < y" "j - 1 < y" using j False by auto
    have e: "?z + int i - (if flip then - int ?w else int ?w) = int (?q * ?w) + int i" using j False by (auto simp: of_nat_diff algebra_simps)
    have "iget data (?z + int i - (if flip then - int ?w else int ?w)) = Some (row_above flip ?w y data j ! i)"
      unfolding e at [OF q(1) i] row_above_def using file_row_nth [OF data q(2) i, of flip] False by (simp only: if_False)
    then show ?thesis using False by (simp only: of_nat_eq_0_iff if_False)
  qed
  have len: "length (file_row flip ?w y data j) = nat (int x * int n)" "int x * int n \<le> INT_MAX" "0 < int x"
    using length_file_row [OF data j] row_size sizes by (simp_all add: INT_MAX_def nat_mult_distrib mult.commute flip: of_nat_mult)
  have "sat (stbiw_encode_png_line flip data (int ?w) (int x) (int y) (int j) n t line)
     (\<lambda>l. length l = length line \<and> (\<forall>i < length (file_row flip ?w y data j). l ! i = Some (filtered t n (row_above flip ?w y data j) (file_row flip ?w y data j) ! i)))"
    by (rule encode_line_ok [OF t sizes(1) len(3,2) refl zb len(1) row _ above])
      (simp_all add: length_row_above [OF data j] length_file_row [OF data j] line)
  then show ?thesis using line length_file_row [OF data j]
    by (auto simp: filtered_def elim!: satE intro!: nth_equalityI)
qed

lemma estimate_ok:
  assumes pic: "picture n x y data" and len: "length xs = n * x"
  shows "\<exists>e. line_estimate (n * x) (map Some xs) = Some e"
proof -
  have "sat (line_estimate (n * x) (map Some xs)) (\<lambda>e. 0 \<le> e \<and> e \<le> 128 * int (n * x))" unfolding line_estimate_def
  proof (rule sat_for_upto)
    fix i e assume i: "0 \<le> i" "i < n * x" and e: "0 \<le> e \<and> e \<le> 128 * int i"
    have "\<bar>sint (xs ! i)\<bar> \<le> 128" using sint_ge [of "xs ! i"] sint_lt [of "xs ! i"] by simp
    moreover have "128 * int i + 128 < 2 ^ 31" using i(2) pictureD(4) [OF pic] by simp
    moreover have "0 \<le> e" "e \<le> 128 * int i" "0 \<le> \<bar>sint (xs ! i)\<bar>" using e by simp_all
    ultimately show "sat (do { v \<leftarrow> rd (map Some xs) i; i32 (e + \<bar>sint v\<bar>) }) (\<lambda>e. 0 \<le> e \<and> e \<le> 128 * int (Suc i))"
      using i(2) len by (simp add: i32_def)
  qed simp_all
  then show ?thesis by (auto elim: satE)
qed

lemma best_filter_ok:
  assumes pic: "picture n x y data" and j: "j < y" and line: "length line = n * x"
  shows "\<exists>t \<le> 4. best_filter flip data (int (n * x)) (int x) (int y) (int j) n (n * x) line =
    Some (t, map Some (filtered t n (row_above flip (n * x) y data j) (file_row flip (n * x) y data j)))"
proof -
  note data = pictureD(6) [OF pic]
  let ?F = "\<lambda>t. filtered t n (row_above flip (n * x) y data j) (file_row flip (n * x) y data j)"
  have len: "length (?F t) = n * x" for t by (simp add: filtered_def length_file_row [OF data j])
  have "sat (for_upto 0 5 (\<lambda>t (best, best_val, line). do {
       line \<leftarrow> stbiw_encode_png_line flip data (int (n * x)) (int x) (int y) (int j) n t line;
       est \<leftarrow> line_estimate (n * x) line;
       Some (if est < best_val then (t, est, line) else (best, best_val, line)) }) (0, 0x7fffffff, line))
     (\<lambda>(best, _, line). best \<le> 4 \<and> length line = n * x)"
  proof (rule sat_for_upto [where P = "\<lambda>_ (best, _, line). best \<le> 4 \<and> length line = n * x"])
    fix t :: nat and st :: "nat \<times> int \<times> byte option list" assume "t < 5" "case st of (best, _, line) \<Rightarrow> best \<le> 4 \<and> length line = n * x"
    then show "sat (case st of (best, best_val, line) \<Rightarrow> do {
       line \<leftarrow> stbiw_encode_png_line flip data (int (n * x)) (int x) (int y) (int j) n t line;
       est \<leftarrow> line_estimate (n * x) line;
       Some (if est < best_val then (t, est, line) else (best, best_val, line)) }) (\<lambda>(best, _, line). best \<le> 4 \<and> length line = n * x)"
      using encode_row_ok [OF pic j, of t _ flip] estimate_ok [OF pic len [of t]] len by (cases st) auto
  qed (use line in auto)
  then obtain best v l where "for_upto 0 5 (\<lambda>t (best, best_val, line). do {
       line \<leftarrow> stbiw_encode_png_line flip data (int (n * x)) (int x) (int y) (int j) n t line;
       est \<leftarrow> line_estimate (n * x) line;
       Some (if est < best_val then (t, est, line) else (best, best_val, line)) }) (0, 0x7fffffff, line) = Some (best, v, l)"
    "best \<le> 4" "length l = n * x" by (auto elim!: satE)
  then show ?thesis using encode_row_ok [OF pic j, of best l flip] unfolding best_filter_def by (intro exI [of _ best]) simp
qed

subsection \<open>All rows\<close>

lemma wr_blit:
  assumes "p + 1 + length d \<le> length xs"
  shows "do { xs \<leftarrow> wr xs p v; blit xs (p + 1) d } = blit xs p (Some v # d)"
  using assms by (simp add: wr_def aset_def blit_def take_Suc_conv_app_nth take_update_swap list_update_append)

lemma filter_line_ok:
  assumes pic: "picture n x y data" and j: "j < y" and line: "length line = n * x"
  shows "\<exists>t \<le> 4. png_filter_line ws data (int (n * x)) (int x) (int y) n (n * x) j line =
    Some (t, map Some (filtered t n (row_above (flip_on_write ws) (n * x) y data j) (file_row (flip_on_write ws) (n * x) y data j)))"
proof (cases "force_png_filter ws > - 1 \<and> force_png_filter ws < 5")
  case True
  then have "nat (force_png_filter ws) \<le> 4" by linarith
  then show ?thesis using True encode_row_ok [OF pic j _ line, of "nat (force_png_filter ws)"] unfolding png_filter_line_def
    by (intro exI [of _ "nat (force_png_filter ws)"]) simp
next
  case False
  then show ?thesis using best_filter_ok [OF pic j line, of "flip_on_write ws"] unfolding png_filter_line_def by (simp only: if_False)
qed

text \<open>The rows that are stored after \<open>j\<close> turns.\<close>

definition rows_stored :: "nat \<Rightarrow> bool \<Rightarrow> nat \<Rightarrow> nat \<Rightarrow> bytes \<Rightarrow> nat \<Rightarrow> byte option list \<times> byte option list \<Rightarrow> bool" where
  "rows_stored n flip w y data j st \<longleftrightarrow> (case st of (filt, line) \<Rightarrow> length filt = y * (w + 1) \<and> length line = w \<and>
     (\<exists>T. (\<forall>i < j. T i \<le> 4) \<and> take (j * (w + 1)) filt = map Some (concat (map (file_line n flip w y data T) [0..<j]))))"

lemma filter_row_stored:
  assumes pic: "picture n x y data" and j: "j < y" and I: "rows_stored n (flip_on_write ws) (n * x) y data j st"
  shows "sat (png_filter_row ws data (int (n * x)) (int x) (int y) n (n * x) j st) (rows_stored n (flip_on_write ws) (n * x) y data (Suc j))"
proof -
  let ?w = "n * x" and ?flip = "flip_on_write ws"
  let ?L = "file_line n ?flip ?w y data"
  let ?F = "\<lambda>t. filtered t n (row_above ?flip ?w y data j) (file_row ?flip ?w y data j)"
  obtain filt line T where st: "st = (filt, line)" "length filt = y * (?w + 1)" "length line = ?w" "\<forall>i < j. T i \<le> 4"
    "take (j * (?w + 1)) filt = map Some (concat (map (?L T) [0..<j]))" using I by (auto simp: rows_stored_def)
  have lenF: "length (?F t) = ?w" for t by (simp add: filtered_def length_file_row [OF pictureD(6) [OF pic] j])
  obtain t where t: "t \<le> 4" "png_filter_line ws data (int ?w) (int x) (int y) n ?w j line = Some (t, map Some (?F t))"
    using filter_line_ok [OF pic j st(3)] by blast
  have room: "Suc j * (?w + 1) \<le> y * (?w + 1)" using j by (intro mult_le_mono1) simp
  have same: "map (?L (T(j := t))) [0..<j] = map (?L T) [0..<j]" by (simp add: file_line_def)
  have "take (j * (?w + 1)) filt = map Some (concat (map (?L (T(j := t))) [0..<j]))" unfolding same by (rule st(5))
  moreover have "length (word_of_nat t # ?F t) = ?w + 1" "(j + 1) * (?w + 1) \<le> length filt" "word_of_nat t # ?F t = ?L (T(j := t)) j"
    using lenF room st(2) by (simp_all add: file_line_def)
  ultimately obtain out where
    out: "blit filt (j * (?w + 1)) (map Some (word_of_nat t # ?F t)) = Some out" "length out = length filt"
      "take (Suc j * (?w + 1)) out = map Some (concat (map (?L (T(j := t))) [0..<Suc j]))"
    using blit_next [of j "?w + 1" filt "?L (T(j := t))"] by metis
  have "j * (?w + 1) + 1 + length (map Some (?F t)) \<le> length filt" using room st(2) lenF by simp
  from wr_blit [OF this, of "word_of_nat t"] have
    "do { filt \<leftarrow> wr filt (j * (?w + 1)) (word_of_nat t); blit filt (j * (?w + 1) + 1) (map Some (?F t)) } = Some out"
    using out(1) by simp
  moreover have "slice (map Some (?F t)) 0 ?w = Some (map Some (?F t))" using lenF by (simp add: slice_def)
  ultimately have "png_filter_row ws data (int ?w) (int x) (int y) n ?w j st = Some (out, map Some (?F t))"
    unfolding st(1) png_filter_row_def prod.case t(2) by (auto simp: bind_eq_Some_conv)
  moreover have "rows_stored n ?flip ?w y data (Suc j) (out, map Some (?F t))"
    unfolding rows_stored_def prod.case using st(2,4) out(2,3) lenF t(1) by (intro conjI exI [of _ "T(j := t)"]) (simp_all add: less_Suc_eq)
  ultimately show ?thesis by simp
qed

lemma filter_rows_ok:
  assumes pic: "picture n x y data"
  shows "\<exists>T line. (\<forall>i < y. T i \<le> 4) \<and>
    png_filter_rows ws data (int (n * x)) (int x) (int y) n (n * x) (replicate (y * (n * x + 1)) None, replicate (n * x) None) =
      Some (map Some (concat (map (file_line n (flip_on_write ws) (n * x) y data T) [0..<y])), line)"
proof -
  have "sat (png_filter_rows ws data (int (n * x)) (int x) (int y) n (n * x) (replicate (y * (n * x + 1)) None, replicate (n * x) None))
      (rows_stored n (flip_on_write ws) (n * x) y data y)"
    unfolding png_filter_rows_def nat_int
  proof (rule sat_for_upto [where P = "rows_stored n (flip_on_write ws) (n * x) y data"])
    show "rows_stored n (flip_on_write ws) (n * x) y data 0 (replicate (y * (n * x + 1)) None, replicate (n * x) None)"
      by (simp add: rows_stored_def)
  qed (use filter_row_stored [OF pic] in blast)+
  then show ?thesis unfolding sat_def rows_stored_def by auto
qed

subsection \<open>The file\<close>

lemma wpcrc_defined: "len + 4 \<le> length out \<Longrightarrow> \<exists>c. length c = 4 \<and> stbiw_wpcrc len out = Some (out @ c)"
proof -
  assume l: "len + 4 \<le> length out"
  obtain d where d: "slice out (length out - len - 4) (len + 4) = Some d" using l by (simp add: slice_def)
  show ?thesis using d crc32_value [of d] by (simp add: stbiw_wpcrc_def stbiw_wp32_def)
qed

definition png_colour :: "nat \<Rightarrow> byte" where
  "png_colour n = [0, 0, 4, 2, 6] ! n"

definition png_file :: "nat \<Rightarrow> nat \<Rightarrow> nat \<Rightarrow> bytes \<Rightarrow> bytes \<Rightarrow> bytes \<Rightarrow> bytes \<Rightarrow> bytes" where
  "png_file n x y zlib c1 c2 c3 = [137, 80, 78, 71, 13, 10, 26, 10] @
     stbiw_wp32 13 @ stbiw_wptag ''IHDR'' @ stbiw_wp32 (word_of_nat x) @ stbiw_wp32 (word_of_nat y) @ [8, png_colour n, 0, 0, 0] @ c1 @
     stbiw_wp32 (word_of_nat (length zlib)) @ stbiw_wptag ''IDAT'' @ zlib @ c2 @ stbiw_wp32 0 @ stbiw_wptag ''IEND'' @ c3"

lemma assemble_ok:
  assumes n: "0 < n" "n \<le> 4"
  shows "\<exists>c1 c2 c3. length c1 = 4 \<and> length c2 = 4 \<and> length c3 = 4 \<and> png_assemble (int x) (int y) n zlib = Some (png_file n x y zlib c1 c2 c3)"
proof -
  have ct: "\<exists>c. aget [- 1, 0, 4, 2, 6 :: int] n = Some c \<and> word_of_int c = png_colour n"
    using n by (auto simp: png_colour_def numeral_eq_Suc le_Suc_eq)
  then obtain c where c: "aget [- 1, 0, 4, 2, 6 :: int] n = Some c" "word_of_int c = png_colour n" by blast
  let ?o1 = "[137, 80, 78, 71, 13, 10, 26, 10] @ stbiw_wp32 13 @ stbiw_wptag ''IHDR'' @
    stbiw_wp32 (word_of_nat x) @ stbiw_wp32 (word_of_nat y) @ [8, png_colour n, 0, 0, 0]"
  obtain c1 where c1: "length c1 = 4" "stbiw_wpcrc 13 ?o1 = Some (?o1 @ c1)"
    using wpcrc_defined [of 13 ?o1] by (auto simp: stbiw_wp32_def stbiw_wptag_def)
  let ?o2 = "(?o1 @ c1) @ stbiw_wp32 (word_of_nat (length zlib)) @ stbiw_wptag ''IDAT'' @ zlib"
  obtain c2 where c2: "length c2 = 4" "stbiw_wpcrc (length zlib) ?o2 = Some (?o2 @ c2)"
    using wpcrc_defined [of "length zlib" ?o2] by (auto simp: stbiw_wp32_def stbiw_wptag_def)
  let ?o3 = "(?o2 @ c2) @ stbiw_wp32 0 @ stbiw_wptag ''IEND''"
  obtain c3 where c3: "length c3 = 4" "stbiw_wpcrc 0 ?o3 = Some (?o3 @ c3)"
    using wpcrc_defined [of 0 ?o3] by (auto simp: stbiw_wp32_def stbiw_wptag_def)
  have "png_assemble (int x) (int y) n zlib = Some (?o3 @ c3)"
    unfolding png_assemble_def Let_def c(1) bind.bind_lunit c(2) of_int_of_nat_eq c1(2) c2(2) c3(2) by (rule refl)
  then show ?thesis using c1(1) c2(1) c3(1) unfolding png_file_def by auto
qed

lemma write_png_ok:
  assumes pic: "picture n x y data" and n: "n \<le> 4" and ok: "\<And>k. ok k"
    and z: "\<And>T. \<exists>zlib. P T zlib \<and> stbi_zlib_compress ok (concat (map (file_line n (flip_on_write ws) (n * x) y data T) [0..<y])) (png_compression_level ws) = Some (Some zlib)"
  shows "\<exists>T zlib c1 c2 c3. (\<forall>i < y. T i \<le> 4) \<and> P T zlib \<and> length c1 = 4 \<and> length c2 = 4 \<and> length c3 = 4 \<and>
    stbi_write_png_to_mem ok ws data 0 (int x) (int y) n = Some (Some (png_file n x y zlib c1 c2 c3))"
proof -
  note p = pictureD [OF pic]
  let ?w = "n * x"
  have w: "int x * int n = int ?w" "(int ?w + 1) * int y = int (y * (?w + 1))" by (simp_all add: algebra_simps)
  have "y * (?w + 1) < 2 ^ 31" using p(5) by simp
  then have i: "i32 (int ?w) = Some (int ?w)" "i32 (int ?w + 1) = Some (int ?w + 1)" "i32 (int (y * (?w + 1))) = Some (int (y * (?w + 1)))"
    using p(4) by (simp_all add: i32_def del: of_nat_mult)
  have u: "unat (word_of_int (int k) :: u64) = k" if "k < 2 ^ 31" for k using that by (simp add: unat_of_nat)
  obtain T line where T: "\<forall>i < y. T i \<le> 4" "png_filter_rows ws data (int ?w) (int x) (int y) n ?w (replicate (y * (?w + 1)) None, replicate ?w None) =
      Some (map Some (concat (map (file_line n (flip_on_write ws) ?w y data T) [0..<y])), line)"
    using filter_rows_ok [OF pic] by blast
  obtain zlib where zlib: "P T zlib" "stbi_zlib_compress ok (concat (map (file_line n (flip_on_write ws) ?w y data T) [0..<y])) (png_compression_level ws) = Some (Some zlib)"
    using z by blast
  obtain c1 c2 c3 where c: "length c1 = 4" "length c2 = 4" "length c3 = 4" "png_assemble (int x) (int y) n zlib = Some (png_file n x y zlib c1 c2 c3)"
    using assemble_ok [OF p(1) n] by blast
  have m: "stbi_malloc ok (unat (word_of_int (int (y * (?w + 1))) :: u64)) = Some (replicate (y * (?w + 1)) None)"
    "stbi_malloc ok (unat (word_of_int (int ?w) :: u64)) = Some (replicate ?w None)"
    using u [of "y * (?w + 1)"] u [of ?w] \<open>y * (?w + 1) < 2 ^ 31\<close> p(4) ok by (simp_all add: stbi_malloc_def)
  have "(if (0 :: int) = 0 then int ?w else 0) = int ?w" by simp
  then have "stbi_write_png_to_mem ok ws data 0 (int x) (int y) n = Some (Some (png_file n x y zlib c1 c2 c3))"
    unfolding stbi_write_png_to_mem_def w i bind.bind_lunit Let_def m option.case nat_int
    using T(2) zlib(2) c(4) ok by simp
  then show ?thesis using T(1) zlib(1) c by blast
qed

end
