(* ===== verification/Png_Unpack.thy ===== *)
theory Png_Unpack
  imports Png_Pack Png_File Mem_Read
begin

text \<open>
  The image reader on the scanlines and on the chunks of the writer: it undoes every filter with the row above and copies the rows
  to their places, and it takes the header, the compressed data and the end from the file.
\<close>

subsection \<open>The image from the scanlines\<close>

text \<open>The state of the loop over the scanlines before row \<open>j\<close>: the filter buffer holds the row above.\<close>

definition rows_read :: "bool \<Rightarrow> nat \<Rightarrow> nat \<Rightarrow> bytes \<Rightarrow> nat \<Rightarrow> nat \<times> byte option list \<times> byte option list \<Rightarrow> bool" where
  "rows_read flip w y data j st \<longleftrightarrow> (case st of (r, fb, out) \<Rightarrow> r = j * (w + 1) \<and> length fb = 2 * w \<and> length out = y * w \<and>
     take (j * w) out = map Some (concat (map (file_row flip w y data) [0..<j])) \<and>
     (0 < j \<longrightarrow> (\<forall>k < w. rd fb ((1 - j mod 2) * w + k) = Some (file_row flip w y data (j - 1) ! k))))"

lemma raw_line:
  assumes pic: "picture n x y data" and j: "j < y" and raw: "take (y * (n * x + 1)) raw = map Some (concat (map (file_line n flip (n * x) y data T) [0..<y]))"
  shows "k < n * x + 1 \<Longrightarrow> rd raw (j * (n * x + 1) + k) = Some (file_line n flip (n * x) y data T j ! k)"
proof -
  assume k: "k < n * x + 1"
  note data = pictureD(6) [OF pic]
  let ?w = "n * x + 1" and ?C = "concat (map (file_line n flip (n * x) y data T) [0..<y])"
  have len: "length ?C = y * ?w" using length_file_line [OF data] by (intro length_concat_blocks) simp
  have q: "j * ?w + k < y * ?w" by (rule row_position [OF j k])
  have "length (take (y * ?w) raw) = y * ?w" using len unfolding raw by simp
  then have "y * ?w \<le> length raw" by simp
  then have "rd raw (j * ?w + k) = take (y * ?w) raw ! (j * ?w + k)" using q by (simp add: rd_def aget_def)
  also have "\<dots> = Some (?C ! (j * ?w + k))" unfolding raw using q len by simp
  also have "?C ! (j * ?w + k) = file_line n flip (n * x) y data T j ! k" using length_file_line [OF data] by (intro nth_concat_blocks j k) simp
  finally show ?thesis .
qed

lemma png_row_back:
  assumes pic: "picture n x y data" and n: "n \<le> 4" and j: "j < y" and T: "T j \<le> 4"
    and raw: "take (y * (n * x + 1)) raw = map Some (concat (map (file_line n flip (n * x) y data T) [0..<y]))"
    and I: "rows_read flip (n * x) y data j st"
  shows "\<exists>st'. png_row (int n) (int n) (word_of_nat x) 8 color raw (n * x) (n * x) n (word_of_nat x * word_of_int (int n)) j st = ret st' \<and>
    rows_read flip (n * x) y data (Suc j) st'"
proof -
  note p = pictureD [OF pic]
  let ?w = "n * x" and ?R = "file_row flip (n * x) y data" and ?A = "row_above flip (n * x) y data j"
  obtain fb out where st: "st = (j * (?w + 1), fb, out)" "length fb = 2 * ?w" "length out = y * ?w" "take (j * ?w) out = map Some (concat (map ?R [0..<j]))"
    "0 < j \<Longrightarrow> k < ?w \<Longrightarrow> rd fb ((1 - j mod 2) * ?w + k) = Some (?R (j - 1) ! k)" for k
    using I unfolding rows_read_def by (cases st) auto
  let ?cur = "j mod 2 * ?w" and ?prior = "(1 - j mod 2) * ?w" and ?F = "filtered (T j) n ?A (?R j)"
  have lR: "length (?R j) = ?w" "length ?A = ?w" "length ?F = ?w"
    using length_file_row [OF p(6) j] length_row_above [OF p(6) j] by (simp_all add: filtered_def)
  have f0: "rd raw (j * (?w + 1)) = Some (word_of_nat (T j))" using raw_line [OF pic j raw, of 0] by (simp add: file_line_def)
  have d: "rd raw (j * (?w + 1) + 1 + k) = Some (?F ! k)" if "k < ?w" for k using raw_line [OF pic j raw, of "Suc k"] that by (simp add: file_line_def)
  have above: "if j = 0 then ?A ! k = 0 else rd fb (?prior + k) = Some (?A ! k)" if "k < ?w" for k
    using that st(5) [of k] by (simp add: row_above_def)
  have par: "j mod 2 = 0 \<or> j mod 2 = 1" by auto
  have sep: "?cur + ?w \<le> length fb" "?prior + ?w \<le> ?cur \<or> ?cur + ?w \<le> ?prior" "?w \<le> ?w" using par st(2) by auto
  have nw: "0 < n" "n \<le> ?w" using p(1,2) by simp_all
  have "sat (filter_row (effective_filter (j = 0) (T j)) raw (j * (?w + 1) + 1) fb ?cur ?prior ?w n)
      (row_inv fb ?cur (unfilter (T j) n ?A ?F ?w) ?w)"
    by (rule filter_row_ok [OF T nw lR(3) d sep(1,2) lR(2) above])
  moreover have "unfilter (T j) n ?A ?F ?w = ?R j" using unfilter_filtered [OF nw(1), of ?w "?R j" "T j" ?A] lR(1) by simp
  ultimately obtain fb' where fb': "filter_row (effective_filter (j = 0) (T j)) raw (j * (?w + 1) + 1) fb ?cur ?prior ?w n = Some fb'"
    "row_inv fb ?cur (?R j) ?w fb'" by (auto elim: satE)
  have lfb: "length fb' = 2 * ?w" using fb'(2) st(2) by (simp add: row_inv_def)
  have cur: "slice fb' ?cur ?w = Some (map Some (?R j))"
  proof -
    have c: "?cur + ?w \<le> length fb'" using sep(1) st(2) lfb by simp
    then have "take ?w (drop ?cur fb') = map Some (?R j)"
      using fb'(2) lR(1) by (intro nth_equalityI) (simp_all add: row_inv_def)
    then show ?thesis using c by (simp add: slice_def)
  qed
  have rdcur: "rd fb' (?cur + k) = Some (?R j ! k)" if "k < ?w" for k
    by (rule row_inv_cur [OF fb'(2) that]) (use lR(1) sep(1) in simp_all)
  have room: "(j + 1) * ?w \<le> length out" using st(3) mult_le_mono1 [of "j + 1" y ?w] j by simp
  obtain out' where out': "blit out (j * ?w) (map Some (?R j)) = Some out'" "length out' = length out"
    "take (Suc j * ?w) out' = map Some (concat (map ?R [0..<Suc j]))"
    using blit_next [OF st(4) lR(1) room] by auto
  have big: "unat (word_of_nat x * word_of_int (int n) :: u32) = ?w" "unat (word_of_nat x * word_of_int (int n) * word_of_nat j :: u32) = j * ?w"
  proof -
    have "word_of_nat x * word_of_int (int n) = (word_of_nat ?w :: u32)" "word_of_nat x * word_of_int (int n) * word_of_nat j = (word_of_nat (j * ?w) :: u32)"
      by (simp_all add: mult.commute)
    moreover have "j * ?w + 0 < y * ?w" using p(1,2) by (intro row_position [OF j]) simp
    then have "j * ?w < 2147483648" using p(7) by linarith
    then have "unat (word_of_nat ?w :: u32) = ?w" "unat (word_of_nat (j * ?w) :: u32) = j * ?w"
      using p(4) unat_u32_of_nat [of ?w] unat_u32_of_nat [of "j * ?w"] by simp_all
    ultimately show "unat (word_of_nat x * word_of_int (int n) :: u32) = ?w" "unat (word_of_nat x * word_of_int (int n) * word_of_nat j :: u32) = j * ?w"
      by (simp_all only:)
  qed
  have ut: "unat (word_of_nat (T j) :: byte) = T j" using T by (simp add: unat_of_nat)
  have eff: "(if j = 0 then aget first_row_filter (T j) else Some (T j)) = Some (effective_filter (j = 0) (T j))"
    using T by (cases "j = 0") (simp_all add: effective_filter_def aget_def first_row_filter_def)
  have exp: "expand_row (int n) (int n) (word_of_nat x) 8 color fb' ?cur out (j * ?w) = Some out'"
    using cur out'(1) big(1) by (simp add: expand_row_def)
  have "png_row (int n) (int n) (word_of_nat x) 8 color raw ?w ?w n (word_of_nat x * word_of_int (int n)) j st = ret ((j * (?w + 1) + 1) + ?w, fb', out')"
    unfolding st(1) png_row_def prod.case Let_def f0 bind.bind_lunit ut eff fb'(1) big(2) exp using T by simp
  moreover have "rows_read flip ?w y data (Suc j) ((j * (?w + 1) + 1) + ?w, fb', out')"
    unfolding rows_read_def prod.case using lfb out'(2,3) st(3) rdcur
  proof (intro conjI impI allI)
    fix k assume "k < ?w"
    moreover have "(1 - Suc j mod 2) * ?w = ?cur" using par by (auto simp: mod_Suc)
    ultimately show "rd fb' ((1 - Suc j mod 2) * ?w + k) = Some (?R (Suc j - 1) ! k)" using rdcur by (simp only: diff_Suc_1)
  qed simp_all
  ultimately show ?thesis by blast
qed

lemma png_rows_back:
  assumes pic: "picture n x y data" and n: "n \<le> 4" and T: "\<forall>i < y. T i \<le> 4"
    and raw: "take (y * (n * x + 1)) raw = map Some (concat (map (file_line n flip (n * x) y data T) [0..<y]))"
  shows "\<exists>r fb. efor 0 y (png_row (int n) (int n) (word_of_nat x) 8 color raw (n * x) (n * x) n (word_of_nat x * word_of_int (int n)))
      (0, replicate (2 * (n * x)) None, replicate (y * (n * x)) None) =
    ret (r, fb, map Some (concat (map (file_row flip (n * x) y data) [0..<y])))"
proof -
  let ?w = "n * x"
  have "esatx (efor 0 y (png_row (int n) (int n) (word_of_nat x) 8 color raw ?w ?w n (word_of_nat x * word_of_int (int n)))
      (0, replicate (2 * ?w) None, replicate (y * ?w) None)) (rows_read flip ?w y data y) False"
  proof (rule esatx_efor [where P = "rows_read flip ?w y data"])
    show "rows_read flip ?w y data 0 (0, replicate (2 * ?w) None, replicate (y * ?w) None)" by (simp add: rows_read_def)
    fix j st assume j: "j < y" and I: "rows_read flip ?w y data j st"
    show "esatx (png_row (int n) (int n) (word_of_nat x) 8 color raw ?w ?w n (word_of_nat x * word_of_int (int n)) j st) (rows_read flip ?w y data (Suc j)) False"
      using png_row_back [OF pic n j _ raw I, of color] T j by (auto simp: esatx_def ret_def)
  qed simp
  then obtain st where st: "efor 0 y (png_row (int n) (int n) (word_of_nat x) 8 color raw ?w ?w n (word_of_nat x * word_of_int (int n)))
      (0, replicate (2 * ?w) None, replicate (y * ?w) None) = ret st" "rows_read flip ?w y data y st"
    using esatx_retI by blast
  obtain r fb out where s3: "st = (r, fb, out)" by (metis prod_cases3)
  have o: "length out = y * ?w" "take (y * ?w) out = map Some (concat (map (file_row flip ?w y data) [0..<y]))"
    using st(2) unfolding s3 rows_read_def by simp_all
  then have "out = map Some (concat (map (file_row flip ?w y data) [0..<y]))" by (metis take_all order_refl)
  then show ?thesis using st(1) unfolding s3 by blast
qed

text \<open>Sizes of a picture as the reader computes them.\<close>

lemma reader_sizes:
  assumes pic: "picture n x y data" and n: "n \<le> 4" and y: "y \<le> 2 ^ 24"
  shows "sint (word_of_nat x :: u32) = int x" "sint (word_of_nat y :: u32) = int y" "unat (word_of_nat y :: u32) = y"
    "drop_bit 3 (word_of_int (int n) * word_of_nat x * word_of_int 8 + 7) = (word_of_nat (n * x) :: u32)"
    "sint (word_of_nat (n * x) :: u32) = int (n * x)" "unat (word_of_nat (n * x) :: u32) = n * x"
    "unat ((word_of_nat (n * x) + 1) * word_of_nat y :: u32) = y * (n * x + 1)"
    "(word_of_nat x * word_of_int 8 + 7) div 8 = (word_of_nat x :: u32)"
proof -
  note p = pictureD [OF pic]
  let ?w = "n * x"
  have u: "unat (word_of_nat k :: u32) = k" if "k < 2 ^ 31" for k using that by (simp add: unat_of_nat)
  have s: "sint (word_of_nat k :: u32) = int k" if "k < 2 ^ 31" for k using u [OF that] that by (simp add: sint_dim)
  show "sint (word_of_nat x :: u32) = int x" "sint (word_of_nat y :: u32) = int y" "unat (word_of_nat y :: u32) = y"
    "sint (word_of_nat ?w :: u32) = int ?w" "unat (word_of_nat ?w :: u32) = ?w"
    using s [of x] s [of y] u [of y] s [of ?w] u [of ?w] p(4,9) y by simp_all
  have e: "unat (word_of_nat (k * 8 + 7) :: u32) = k * 8 + 7" if "k < 2 ^ 24" for k using that by (intro u) simp
  have "word_of_int (int n) * word_of_nat x * word_of_int 8 + 7 = (word_of_nat (?w * 8 + 7) :: u32)" by simp
  then have "unat (drop_bit 3 (word_of_int (int n) * word_of_nat x * word_of_int 8 + 7) :: u32) = ?w"
    using e [OF p(4)] by (simp add: unat_drop_bit)
  then show "drop_bit 3 (word_of_int (int n) * word_of_nat x * word_of_int 8 + 7) = (word_of_nat ?w :: u32)"
    using u [of ?w] p(4) by (simp add: word_unat_eq_iff)
  have "(word_of_nat ?w + 1) * word_of_nat y = (word_of_nat (y * (?w + 1)) :: u32)" by (simp add: algebra_simps)
  then show "unat ((word_of_nat ?w + 1) * word_of_nat y :: u32) = y * (?w + 1)" using u [of "y * (?w + 1)"] p(5) by (simp add: mult.commute)
  have "word_of_nat x * word_of_int 8 + 7 = (word_of_nat (x * 8 + 7) :: u32)" by simp
  then have "unat ((word_of_nat x * word_of_int 8 + 7) div 8 :: u32) = x" using e [OF p(9)] by (simp add: unat_div)
  then show "(word_of_nat x * word_of_int 8 + 7) div 8 = (word_of_nat x :: u32)" using u [of x] p(9) by (simp add: word_unat_eq_iff)
qed

lemma create_image_back:
  assumes pic: "picture n x y data" and n: "n \<le> 4" and y: "y \<le> 2 ^ 24" and T: "\<forall>i < y. T i \<le> 4" and ok: "\<And>k. ok k"
    and raw: "take (y * (n * x + 1)) raw = map Some (concat (map (file_line n flip (n * x) y data T) [0..<y]))"
  shows "stbi_create_png_image ok (int n) (word_of_nat x) (word_of_nat y) raw (word_of_nat (y * (n * x + 1))) (int n) 8 color False =
    ret (map Some (concat (map (file_row flip (n * x) y data) [0..<y])))"
proof -
  note p = pictureD [OF pic] and s = reader_sizes [OF pic n y]
  let ?w = "n * x"
  have v: "stbi_mad3sizes_valid (int x) (int y) (int n) 0" "stbi_mad3sizes_valid (int n) (int x) 8 7"
    "stbi_mad2sizes_valid (int ?w) (int y) (int ?w)" "stbi_mad2sizes_valid (int ?w) 2 0"
  proof -
    have "int y * int x \<le> int y * (int n * int x)" "int y * (int n * int x) < 1073479680" "int n * int x < 16777216"
      "int y * (int n * int x) + int n * int x < 2147483648"
      using p(4,7,8,10) by (simp_all flip: of_nat_mult of_nat_add)
    then show "stbi_mad3sizes_valid (int x) (int y) (int n) 0" "stbi_mad3sizes_valid (int n) (int x) 8 7"
      "stbi_mad2sizes_valid (int ?w) (int y) (int ?w)" "stbi_mad2sizes_valid (int ?w) 2 0"
      by (simp_all add: mad3_valid_iff mad2_valid_iff INT_MAX_def mult.commute mult.left_commute)
  qed
  have m: "stbi_malloc_mad3 ok (int x) (int y) (int n) 0 = Some (replicate (y * ?w) None)" "stbi_malloc_mad2 ok (int ?w) 2 0 = Some (replicate (2 * ?w) None)"
    using v ok by (simp_all add: stbi_malloc_mad3_def stbi_malloc_mad2_def stbi_malloc_def nat_mult_distrib ac_simps)
  have i: "i32 (int n) = Some (int n)" "i32 (int x * int n) = Some (int ?w)"
    using n p(4) by (simp_all add: i32_def mult.commute flip: of_nat_mult)
  have lt: "\<not> (word_of_nat (y * (?w + 1)) :: u32) < (word_of_nat ?w + 1) * word_of_nat y"
    using s(7) p(5) unat_u32_of_nat [of "y * (?w + 1)"] by (simp add: word_less_nat_alt)
  obtain r fb where e: "efor 0 y (png_row (int n) (int n) (word_of_nat x) 8 color raw ?w ?w n (word_of_nat x * word_of_int (int n)))
      (0, replicate (2 * ?w) None, replicate (y * ?w) None) = ret (r, fb, map Some (concat (map (file_row flip ?w y data) [0..<y])))"
    using png_rows_back [OF pic n T raw] by blast
  have c: "((8 :: int) = 16) = False" "((8 :: int) < 8) = False" by simp_all
  show ?thesis
    by (simp only: stbi_create_png_image_def stbi_create_png_image_raw_def Let_def c if_False if_True i bind.bind_lunit s(1-6) v m option.case
        simp_thms lt nat_int e ebind_simps prod.case mult_1_right of_int_1)
qed

subsection \<open>Chunks\<close>

lemma be_digits: "push_bit 16 (word_of_int (d * 2 ^ 8 + c)) + word_of_int (b * 2 ^ 8 + a) = (word_of_int (a + b * 256 + (c + d * 256) * 65536) :: u32)"
proof -
  have "push_bit 16 (word_of_int (d * 2 ^ 8 + c)) = (word_of_int ((d * 2 ^ 8 + c) * 65536) :: u32)" by (simp add: push_bit_eq_mult)
  moreover have "(d * 2 ^ 8 + c) * 65536 + (b * 2 ^ 8 + a) = a + b * 256 + (c + d * 256) * 65536" by simp
  ultimately show ?thesis by (metis of_int_add)
qed

lemma get32be_wp32:
  assumes s: "mem_ctx s" "pending s = stbiw_wp32 v @ rest"
  shows "stbi_get32be s = Some (v, ahead 4 s)"
proof -
  let ?d = "\<lambda>k. uint v div 2 ^ k mod 256"
  have p: "(2 :: int) ^ 8 = 256" "(2 :: int) ^ 16 = 65536" "(2 :: int) ^ 24 = 16777216" by simp_all
  have t: "take_bit 32 (uint v) = uint v" using uint_lt2p [of v] by (simp add: take_bit_int_eq_self)
  have u: "uint (ucast (drop_bit k v) :: byte) = ?d k" "uint (ucast v :: byte) = uint v mod 256" for k
    using take_bit_eq_mod [of 8 "drop_bit k (uint v)"] take_bit_eq_mod [of 8 "uint v"]
    by (simp_all add: unsigned_ucast_eq unsigned_drop_bit_eq t flip: drop_bit_eq_div)
  have "push_bit 16 (word_of_int (?d 24 * 2 ^ 8 + ?d 16)) + word_of_int (?d 8 * 2 ^ 8 + uint v mod 256) =
      (word_of_int (uint v mod 256 + ?d 8 * 256 + (?d 16 + ?d 24 * 256) * 65536) :: u32)"
    by (rule be_digits)
  also have "\<dots> = v" unfolding p four_digits word32_mod by (rule word_of_int_uint)
  finally have "push_bit 16 (word_of_int (uint (ucast (drop_bit 24 v) :: byte) * 2 ^ 8 + uint (ucast (drop_bit 16 v) :: byte))) +
      word_of_int (uint (ucast (drop_bit 8 v) :: byte) * 2 ^ 8 + uint (ucast v :: byte)) = v" unfolding u .
  moreover have "ahead (Suc (Suc (Suc (Suc 0)))) s = ahead 4 s" by (simp add: eval_nat_numeral)
  ultimately show ?thesis using s by (simp add: stbi_get32be_def stbi_get16be_def get8_pending stbiw_wp32_def)
qed

lemma chunk_header_back:
  assumes "mem_ctx s" "pending s = stbiw_wp32 l @ stbiw_wp32 t @ rest"
  shows "stbi_get_chunk_header s = Some (\<lparr>chunk_length = l, chunk_type = t\<rparr>, ahead 8 s)"
  using assms get32be_wp32 [of s l] get32be_wp32 [of "ahead 4 s" t] by (simp add: stbi_get_chunk_header_def stbiw_wp32_def)

lemma tags: "stbiw_wptag ''IHDR'' = stbiw_wp32 type_IHDR" "stbiw_wptag ''IDAT'' = stbiw_wp32 type_IDAT" "stbiw_wptag ''IEND'' = stbiw_wp32 type_IEND"
  by code_simp+

lemma tags_differ: "type_IHDR \<noteq> type_CgBI" "type_IDAT \<noteq> type_CgBI" "type_IDAT \<noteq> type_IHDR" "type_IDAT \<noteq> type_PLTE" "type_IDAT \<noteq> type_tRNS"
  "type_IEND \<noteq> type_CgBI" "type_IEND \<noteq> type_IHDR" "type_IEND \<noteq> type_PLTE" "type_IEND \<noteq> type_tRNS" "type_IEND \<noteq> type_IDAT"
  by code_simp+

lemma get32be_any:
  assumes "mem_ctx s" "4 \<le> length (pending s)"
  shows "\<exists>v. stbi_get32be s = Some (v, ahead 4 s)"
proof -
  have ne: "drop k (pending s) \<noteq> []" if "k < 4" for k using assms(2) that by simp
  then show ?thesis using assms(1) ne [of 0] ne [of 1] ne [of 2] ne [of 3]
    by (simp add: stbi_get32be_def stbi_get16be_def get8_pending numeral_eq_Suc)
qed

lemma match_back: "mem_ctx s \<Longrightarrow> pending s = bs @ rest \<Longrightarrow> match_bytes bs s = Some (True, ahead (length bs) s)"
  by (induction bs arbitrary: s) (simp_all add: get8_pending)

lemma colour_channels:
  assumes "0 < n" "n \<le> 4"
  shows "(if uint (png_colour n) AND 2 \<noteq> 0 then 3 else 1) + (if uint (png_colour n) AND 4 \<noteq> 0 then 1 else 0) = int n"
    "\<not> uint (png_colour n) > 6" "uint (png_colour n) \<noteq> 3" "uint (png_colour n) AND 1 = 0"
proof -
  have c: "png_colour (Suc 0) = 0" "png_colour 2 = 4" "png_colour 3 = 2" "png_colour 4 = 6" by (simp_all add: png_colour_def)
  have "n = 1 \<or> n = 2 \<or> n = 3 \<or> n = 4" using assms by auto
  then show "(if uint (png_colour n) AND 2 \<noteq> 0 then 3 else 1) + (if uint (png_colour n) AND 4 \<noteq> 0 then 1 else 0) = int n"
    "\<not> uint (png_colour n) > 6" "uint (png_colour n) \<noteq> 3" "uint (png_colour n) AND 1 = 0"
    by (elim disjE; simp add: c)+
qed

lemma large_enough:
  assumes pic: "picture n x y data" and y: "y \<le> 2 ^ 24" and n: "n \<le> 4"
  shows "\<not> (push_bit 30 1 div word_of_nat x div word_of_int (int n) < (word_of_nat y :: u32))"
proof -
  note p = pictureD [OF pic]
  have u: "unat (word_of_nat x :: u32) = x" "unat (word_of_nat n :: u32) = n" "unat (word_of_nat y :: u32) = y" "unat (push_bit 30 1 :: u32) = 2 ^ 30"
    using p(9) y n by (simp_all add: unat_of_nat push_bit_eq_mult)
  have "y * (n * x) \<le> 2 ^ 30" using p(7) by simp
  then have "y \<le> 2 ^ 30 div (x * n)" using p(1,2) by (simp add: less_eq_div_iff_mult_less_eq mult.commute)
  then have "y \<le> 2 ^ 30 div x div n" by (simp add: div_mult2_eq)
  then show ?thesis using u by (simp add: word_less_nat_alt unat_div)
qed

end
