(* ===== verification/Png_Chunks.thy ===== *)
theory Png_Chunks
  imports Png_Unpack
begin

text \<open>
  The three chunks of a file of the PNG writer in the chunk loop of the reader: the header sets the size and the format, the data chunk
  stores the compressed scanlines, and the end chunk decompresses them and makes the image.
\<close>

subsection \<open>The header\<close>

lemma signature_back:
  assumes "mem_ctx s" "pending s = png_file n x y zlib c1 c2 c3"
  shows "stbi_check_png_header s = Some (True, ahead 8 s)"
proof -
  obtain rest where "pending s = png_sig @ rest" using assms(2) by (simp add: png_file_def png_sig_def)
  from match_back [OF assms(1) this] show ?thesis unfolding stbi_check_png_header_def by (simp add: png_sig_def eval_nat_numeral)
qed

lemma next_byte:
  assumes "mem_ctx s" "k < length (pending s)"
  shows "get8_int (ahead k s) = Some (uint (pending s ! k), ahead (k + 1) s)"
  using assms by (simp add: get8_int_def get8_pending hd_drop_conv_nth)

text \<open>The decoder behind the header.\<close>

definition after_header :: "byte list \<Rightarrow> nat \<Rightarrow> nat \<Rightarrow> nat \<Rightarrow> 'u stbi_context \<Rightarrow> 'u png" where
  "after_header stack n x y s = (png_init stack (s\<lparr>img_x := word_of_nat x, img_y := word_of_nat y, img_n := int n\<rparr>))
     \<lparr>pg_first := False, pg_depth := 8, pg_color := uint (png_colour n)\<rparr>"

lemma header_step:
  assumes s: "mem_ctx s" "pending s = stbiw_wp32 13 @ stbiw_wptag ''IHDR'' @ stbiw_wp32 (word_of_nat x) @ stbiw_wp32 (word_of_nat y) @
      [8, png_colour n, 0, 0, 0] @ c1 @ rest" "length c1 = 4"
    and pic: "picture n x y data" and n: "n \<le> 4" and y: "y \<le> 2 ^ 24"
  shows "png_step ok flags SCAN_load req (png_init stack s) = Some (Inr (after_header stack n x y (ahead 25 s)))"
proof -
  note p = pictureD [OF pic] and c = colour_channels [OF p(1) n]
  have h: "stbi_get_chunk_header s = Some (\<lparr>chunk_length = 13, chunk_type = type_IHDR\<rparr>, ahead 8 s)"
    using s(1,2) unfolding tags by (rule chunk_header_back)
  have p8: "pending (ahead 8 s) = stbiw_wp32 (word_of_nat x) @ stbiw_wp32 (word_of_nat y) @ [8, png_colour n, 0, 0, 0] @ c1 @ rest"
    using s(2) by (simp add: stbiw_wp32_def stbiw_wptag_def)
  have gx: "stbi_get32be (ahead 8 s) = Some (word_of_nat x, ahead 12 s)"
    using get32be_wp32 [OF _ p8] s(1) by simp
  have p12: "pending (ahead 12 s) = stbiw_wp32 (word_of_nat y) @ [8, png_colour n, 0, 0, 0] @ c1 @ rest"
    using s(2) by (simp add: stbiw_wp32_def stbiw_wptag_def)
  have gy: "stbi_get32be (ahead 12 s) = Some (word_of_nat y, ahead 16 s)"
    using get32be_wp32 [OF _ p12] s(1) by simp
  let ?s = "(ahead 16 s)\<lparr>img_x := word_of_nat x, img_y := word_of_nat y\<rparr>"
  have p16: "pending ?s = [8, png_colour n, 0, 0, 0] @ c1 @ rest" using s(2) by (simp add: stbiw_wp32_def stbiw_wptag_def)
  have dims: "\<not> (word_of_nat x :: u32) > STBI_MAX_DIMENSIONS" "\<not> (word_of_nat y :: u32) > STBI_MAX_DIMENSIONS" "(word_of_nat x :: u32) \<noteq> 0" "(word_of_nat y :: u32) \<noteq> 0"
    using p(2,3,9) y unat_u32_of_nat [of x] unat_u32_of_nat [of y] by (auto simp: word_less_nat_alt STBI_MAX_DIMENSIONS_def word_unat_eq_iff)
  have ch: "ihdr_channels 0 (uint (png_colour n)) (ahead 5 ?s) = ret ((ahead 5 ?s)\<lparr>img_n := int n\<rparr>)"
    using c(1) large_enough [OF pic y n] by (simp add: ihdr_channels_def Let_def)
  have bytes: "get8_int ?s = Some (8, ahead 1 ?s)" "get8_int (ahead 1 ?s) = Some (uint (png_colour n), ahead 2 ?s)" "get8_int (ahead 2 ?s) = Some (0, ahead 3 ?s)"
    "get8_int (ahead 3 ?s) = Some (0, ahead 4 ?s)" "get8_int (ahead 4 ?s) = Some (0, ahead 5 ?s)"
    using next_byte [of ?s 0] next_byte [of ?s 1] next_byte [of ?s 2] next_byte [of ?s 3] next_byte [of ?s 4] s(1) unfolding p16 by simp_all
  have c8: "(8 :: int) \<noteq> 1 \<and> (8 :: int) \<noteq> 2 \<and> (8 :: int) \<noteq> 4 \<and> (8 :: int) \<noteq> 8 \<and> (8 :: int) \<noteq> 16 \<longleftrightarrow> False"
    "\<not> (0 :: int) > 1" "(8 :: int) = 16 \<longleftrightarrow> False" by simp_all
  have "png_chunk_IHDR \<lparr>chunk_length = 13, chunk_type = type_IHDR\<rparr> (png_init stack (ahead 8 s)) =
      ret (Inr (after_header stack n x y (ahead 21 s)))"
    using gx gy bytes ch dims c(2-4) by (simp add: png_chunk_IHDR_def png_init_def after_header_def Let_def)
  moreover have "png_chunk ok flags SCAN_load req \<lparr>chunk_length = 13, chunk_type = type_IHDR\<rparr> z = png_chunk_IHDR \<lparr>chunk_length = 13, chunk_type = type_IHDR\<rparr> z" for z :: "'a png"
    using tags_differ by (simp add: png_chunk_def)
  moreover have "\<exists>v. stbi_get32be (pg_s (after_header stack n x y (ahead 21 s))) = Some (v, ahead 4 (pg_s (after_header stack n x y (ahead 21 s))))"
    using s by (intro get32be_any) (simp_all add: after_header_def png_init_def stbiw_wp32_def stbiw_wptag_def)
  ultimately show ?thesis using h by (auto simp: png_step_def png_init_def after_header_def ret_def)
qed

subsection \<open>The data\<close>

lemma idata_stop: "\<not> need > lim \<Longrightarrow> loop (idata_step need) lim = Some lim"
  by (subst loop.simps) (simp add: idata_step_def)

lemma grow_first:
  assumes z: "ioff z = 0" "idata_limit z = 0" "pg_idata z = None" and l: "len \<noteq> 0" and ok: "\<And>k. ok k"
  shows "\<exists>lim. grow_idata ok len z = ret (z\<lparr>idata_limit := lim, pg_idata := Some (replicate (unat lim) None)\<rparr>) \<and> len \<le> lim"
proof -
  let ?lim = "if len > 4096 then len else 4096"
  have le: "len \<le> ?lim" by (simp add: linorder_not_less)
  then have "\<not> len > ?lim" by (simp only: linorder_not_less)
  then have "loop (idata_step len) ?lim = Some ?lim" by (rule idata_stop)
  then have "grow_idata ok len z = ret (z\<lparr>idata_limit := ?lim, pg_idata := Some (replicate (unat ?lim) None)\<rparr>)"
    using z l ok by (simp add: grow_idata_def resize_def word_neq_0_conv)
  then show ?thesis using le by blast
qed

lemma data_step:
  assumes s: "mem_ctx s" "pending s = stbiw_wp32 (word_of_nat (length zlib)) @ stbiw_wptag ''IDAT'' @ zlib @ c2 @ rest" "length c2 = 4"
    and zl: "zlib \<noteq> []" "length zlib \<le> 2 ^ 30" and ok: "\<And>k. ok k"
  shows "\<exists>lim m. png_step ok flags SCAN_load req (after_header stack n x y s) =
    Some (Inr ((after_header stack n x y (ahead (12 + length zlib) s))\<lparr>pg_idata := Some m, ioff := word_of_nat (length zlib), idata_limit := lim\<rparr>)) \<and>
    slice m 0 (length zlib) = Some (map Some zlib)"
proof -
  let ?z = "after_header stack n x y" and ?l = "word_of_nat (length zlib) :: u32"
  have l: "unat ?l = length zlib" "?l \<noteq> 0" using zl unat_u32_of_nat [of "length zlib"] by (auto simp: word_unat_eq_iff)
  have h: "stbi_get_chunk_header (pg_s (?z s)) = Some (\<lparr>chunk_length = ?l, chunk_type = type_IDAT\<rparr>, ahead 8 (pg_s (?z s)))"
    using s(1,2) unfolding tags by (intro chunk_header_back) (simp_all add: after_header_def png_init_def)
  have z8: "(?z s)\<lparr>pg_s := ahead 8 (pg_s (?z s))\<rparr> = ?z (ahead 8 s)" by (simp add: after_header_def png_init_def)
  have z0: "ioff (?z (ahead 8 s)) = 0" "idata_limit (?z (ahead 8 s)) = 0" "pg_idata (?z (ahead 8 s)) = None" by (simp_all add: after_header_def png_init_def)
  obtain lim where lim: "grow_idata ok ?l (?z (ahead 8 s)) = ret ((?z (ahead 8 s))\<lparr>idata_limit := lim, pg_idata := Some (replicate (unat lim) None)\<rparr>)" "?l \<le> lim"
    using grow_first [where ok = ok and z = "?z (ahead 8 s)", OF z0 l(2) ok] by blast
  have p8: "pending (ahead 8 s) = zlib @ c2 @ rest" using s(2) by (simp add: stbiw_wp32_def stbiw_wptag_def)
  have g: "stbi_getn (pg_s (?z (ahead 8 s))) (length zlib) = Some (Some zlib, ahead (length zlib) (pg_s (?z (ahead 8 s))))"
    using s(1) p8 zl(1) by (intro getn_pending) (simp_all add: after_header_def png_init_def)
  let ?m = "map Some zlib @ replicate (unat lim - length zlib) None"
  have "length zlib \<le> unat lim" using lim(2) l(1) by (simp add: word_le_nat_alt)
  then have b: "blit (replicate (unat lim) None) 0 (map Some zlib) = Some ?m" by (simp add: blit_def)
  have small: "\<not> ?l > push_bit 30 1" "\<not> sint (0 + ?l) < sint (0 :: u32)"
    using l(1) zl(2) sint_dim [of ?l] by (simp_all add: word_less_nat_alt push_bit_eq_mult)
  have "png_chunk_IDAT ok SCAN_load \<lparr>chunk_length = ?l, chunk_type = type_IDAT\<rparr> (?z (ahead 8 s)) =
      ret (Inr ((?z (ahead (8 + length zlib) s))\<lparr>pg_idata := Some ?m, ioff := ?l, idata_limit := lim\<rparr>))"
    using lim(1) g b small l(1) by (simp add: png_chunk_IDAT_def after_header_def png_init_def)
  moreover have "png_chunk ok flags SCAN_load req \<lparr>chunk_length = ?l, chunk_type = type_IDAT\<rparr> z = png_chunk_IDAT ok SCAN_load \<lparr>chunk_length = ?l, chunk_type = type_IDAT\<rparr> z" for z :: "'a png"
    using tags_differ by (simp add: png_chunk_def)
  moreover have "\<exists>v. stbi_get32be (pg_s (?z (ahead (8 + length zlib) s))) = Some (v, ahead 4 (pg_s (?z (ahead (8 + length zlib) s))))"
    using s by (intro get32be_any) (simp_all add: after_header_def png_init_def stbiw_wp32_def stbiw_wptag_def)
  ultimately have "png_step ok flags SCAN_load req (?z s) =
    Some (Inr ((?z (ahead (12 + length zlib) s))\<lparr>pg_idata := Some ?m, ioff := ?l, idata_limit := lim\<rparr>))"
    using h z8 by (auto simp: png_step_def after_header_def png_init_def ret_def)
  moreover have "slice ?m 0 (length zlib) = Some (map Some zlib)" by (simp add: slice_def)
  ultimately show ?thesis by blast
qed

subsection \<open>The end\<close>

lemma end_step:
  assumes s: "mem_ctx s" "pending s = stbiw_wp32 0 @ stbiw_wptag ''IEND'' @ c3" "length c3 = 4"
    and pic: "picture n x y data" and n: "n \<le> 4" and y: "y \<le> 2 ^ 24" and T: "\<forall>i < y. T i \<le> 4" and ok: "\<And>k. ok k" and req: "req = 0 \<or> req = int n"
    and z: "z = (after_header stack n x y s)\<lparr>pg_idata := Some m, ioff := word_of_nat (length zlib), idata_limit := lim\<rparr>"
    and m: "slice m 0 (length zlib) = Some (map Some zlib)" "length zlib \<le> 2 ^ 30"
    and dec: "stbi_zlib_decode_malloc_guesssize_headerflag ok zlib (y * (n * x + 1)) True = ret (blk, y * (n * x + 1))"
      "take (y * (n * x + 1)) blk = map Some (concat (map (file_line n flip (n * x) y data T) [0..<y]))"
  shows "\<exists>zf. png_step ok flags SCAN_load req z = Some (Inl (Inr zf)) \<and> pg_depth zf = 8 \<and>
    pg_out zf = Some (map Some (concat (map (file_row flip (n * x) y data) [0..<y]))) \<and>
    img_x (pg_s zf) = word_of_nat x \<and> img_y (pg_s zf) = word_of_nat y \<and> img_n (pg_s zf) = int n \<and> img_out_n (pg_s zf) = int n"
proof -
  note p = pictureD [OF pic] and sz = reader_sizes [OF pic n y]
  let ?w = "n * x" let ?s8 = "ahead 8 (pg_s z)" let ?z8 = "z\<lparr>pg_s := ?s8\<rparr>"
  have zs: "pg_s z = s\<lparr>img_x := word_of_nat x, img_y := word_of_nat y, img_n := int n\<rparr>" "pg_first z = False" "pg_depth z = 8" "pal_img_n z = 0"
    "has_trans z = False" "is_iphone z = False" "pg_interlace z = 0" "pg_idata z = Some m" "ioff z = word_of_nat (length zlib)"
    by (simp_all add: z after_header_def png_init_def)
  have h: "stbi_get_chunk_header (pg_s z) = Some (\<lparr>chunk_length = 0, chunk_type = type_IEND\<rparr>, ?s8)"
    using s(1,2) unfolding tags zs(1) by (intro chunk_header_back) simp_all
  have len: "unat (word_of_nat (length zlib) :: u32) = length zlib" using m(2) by (intro unat_u32_of_nat) simp
  have e: "word_of_nat x * word_of_nat y * word_of_int (int n) + word_of_nat y = (word_of_nat (y * (?w + 1)) :: u32)" by (simp add: algebra_simps)
  have raw: "unat (word_of_nat x * word_of_nat y * word_of_int (int n) + word_of_nat y :: u32) = y * (?w + 1)"
    unfolding e by (rule unat_u32_of_nat) (use p(5) in simp)
  have on: "png_img_out_n req (?z8\<lparr>pg_idata := None\<rparr>) = int n" using req zs by (auto simp: png_img_out_n_def Let_def)
  have img: "stbi_create_png_image ok (int n) (word_of_nat x) (word_of_nat y) blk (word_of_nat (y * (?w + 1))) (int n) 8 (pg_color z) False =
      ret (map Some (concat (map (file_row flip ?w y data) [0..<y])))"
    by (rule create_image_back [OF pic n y T ok dec(2)])
  let ?zf = "?z8\<lparr>pg_idata := None, pg_s := ?s8\<lparr>img_out_n := int n\<rparr>, pg_out := Some (map Some (concat (map (file_row flip ?w y data) [0..<y])))\<rparr>"
  have fin: "png_finish ok flags req (?z8\<lparr>pg_idata := None\<rparr>) blk (word_of_nat (y * (?w + 1))) = ret ?zf"
    using img zs unfolding png_finish_def Let_def on by (simp add: png_transparency_def)
  obtain v where v: "stbi_get32be (pg_s ?zf) = Some (v, ahead 4 (pg_s ?zf))"
  proof -
    have "mem_ctx (pg_s ?zf)" "4 \<le> length (pending (pg_s ?zf))"
      using s zs(1) by (simp_all add: stbiw_wp32_def stbiw_wptag_def)
    then show thesis using get32be_any that by blast
  qed
  have "png_chunk_IEND ok flags SCAN_load req ?z8 = ret (Inl (?zf\<lparr>pg_s := ahead 4 (pg_s ?zf)\<rparr>))"
    using zs m(1) len dec(1) fin v sz(8) raw by (simp add: png_chunk_IEND_def Let_def)
  moreover have "png_chunk ok flags SCAN_load req \<lparr>chunk_length = 0, chunk_type = type_IEND\<rparr> z = png_chunk_IEND ok flags SCAN_load req z" for z :: "'a png"
    using tags_differ by (simp add: png_chunk_def)
  ultimately have "png_step ok flags SCAN_load req z = Some (Inl (Inr (?zf\<lparr>pg_s := ahead 4 (pg_s ?zf)\<rparr>)))"
    using h by (simp add: png_step_def ret_def)
  then show ?thesis using zs by (intro exI [of _ "?zf\<lparr>pg_s := ahead 4 (pg_s ?zf)\<rparr>"]) (simp add: ahead_def)
qed

end
