(* ===== verification/Png_Roundtrip.thy ===== *)
theory Png_Roundtrip
  imports Png_Chunks Zlib_Roundtrip Stb_Load
begin

text \<open>
  A picture that the image writer stores as PNG is read back by the image library: filters, compressor and file format of the two
  sides fit together.
\<close>

lemma lines_compressed:
  assumes pic: "picture n x y data" and ok: "\<And>k. ok k"
  shows "\<exists>zlib. (zlib \<noteq> [] \<and> length zlib \<le> 2 ^ 30 \<and>
    (\<exists>blk. stbi_zlib_decode_malloc_guesssize_headerflag ok zlib (y * (n * x + 1)) True = ret (blk, y * (n * x + 1)) \<and>
       take (y * (n * x + 1)) blk = map Some (concat (map (file_line n flip (n * x) y data T) [0..<y])))) \<and>
    stbi_zlib_compress ok (concat (map (file_line n flip (n * x) y data T) [0..<y])) q = Some (Some zlib)"
proof -
  note p = pictureD [OF pic]
  let ?D = "concat (map (file_line n flip (n * x) y data T) [0..<y])"
  have len: "length ?D = y * (n * x + 1)" using length_file_line [OF p(6)] by (intro length_concat_blocks) simp
  have D: "?D \<noteq> []" "length ?D \<le> 2146959360" "0 < y * (n * x + 1)" "y * (n * x + 1) < 2 ^ 32"
    using len p(3,5) by (auto simp del: length_0_conv simp: length_0_conv [symmetric])
  obtain out blk where o: "stbi_zlib_compress ok ?D q = Some (Some out)" "out \<noteq> [] \<and> length out \<le> stored_size ?D + 4"
    "stbi_zlib_decode_malloc_guesssize_headerflag ok out (y * (n * x + 1)) True = ret (blk, length ?D)" "take (length ?D) blk = map Some ?D"
    using compress_decode [OF D, of ok q] ok by blast
  have "(length ?D + 32766) div 32767 \<le> (1073479680 + 32766) div 32767" using len p(5) by (intro div_le_mono) simp
  then have "length out \<le> 2 ^ 30" using o(2) len p(5) by (simp add: stored_size_def)
  then show ?thesis using o unfolding len by blast
qed

lemma png_load_back:
  assumes s: "mem_ctx s" "pending s = png_file n x y zlib c1 c2 c3" "length c1 = 4" "length c2 = 4" "length c3 = 4"
    and pic: "picture n x y data" and n: "n \<le> 4" and y: "y \<le> 2 ^ 24" and T: "\<forall>i < y. T i \<le> 4" and ok: "\<And>k. ok k" and req: "req = 0 \<or> req = int n"
    and zlib: "zlib \<noteq> []" "length zlib \<le> 2 ^ 30"
    and dec: "stbi_zlib_decode_malloc_guesssize_headerflag ok zlib (y * (n * x + 1)) True = ret (blk, y * (n * x + 1))"
      "take (y * (n * x + 1)) blk = map Some (concat (map (file_line n flip (n * x) y data T) [0..<y]))"
  shows "stbi_png_load ok flags stack req s = ret \<lparr>ld_data = map Some (concat (map (file_row flip (n * x) y data) [0..<y])),
    ld_x = int x, ld_y = int y, ld_comp = int n, ld_bits = 8\<rparr>"
proof -
  note sz = reader_sizes [OF pic n y]
  have sig: "stbi_check_png_header s = Some (True, ahead 8 s)" by (rule signature_back [OF s(1,2)])
  have p8: "pending (ahead 8 s) = stbiw_wp32 13 @ stbiw_wptag ''IHDR'' @ stbiw_wp32 (word_of_nat x) @ stbiw_wp32 (word_of_nat y) @
      [8, png_colour n, 0, 0, 0] @ c1 @ (stbiw_wp32 (word_of_nat (length zlib)) @ stbiw_wptag ''IDAT'' @ zlib @ c2 @ stbiw_wp32 0 @ stbiw_wptag ''IEND'' @ c3)"
    using s(2) by (simp add: png_file_def)
  have one: "png_step ok flags SCAN_load req (png_init stack (ahead 8 s)) = Some (Inr (after_header stack n x y (ahead 33 s)))"
    using header_step [OF _ p8 s(3) pic n y] s(1) by simp
  have p33: "pending (ahead 33 s) = stbiw_wp32 (word_of_nat (length zlib)) @ stbiw_wptag ''IDAT'' @ zlib @ c2 @ (stbiw_wp32 0 @ stbiw_wptag ''IEND'' @ c3)"
    using s(2,3) by (simp add: png_file_def stbiw_wp32_def stbiw_wptag_def)
  have mc: "mem_ctx (ahead 33 s)" using s(1) by simp
  obtain lim m where two: "png_step ok flags SCAN_load req (after_header stack n x y (ahead 33 s)) =
      Some (Inr ((after_header stack n x y (ahead (12 + length zlib) (ahead 33 s)))\<lparr>pg_idata := Some m, ioff := word_of_nat (length zlib), idata_limit := lim\<rparr>))"
    "slice m 0 (length zlib) = Some (map Some zlib)"
    using data_step [where ok = ok, OF mc p33 s(4) zlib ok] by blast
  let ?s3 = "ahead (12 + length zlib) (ahead 33 s)"
  have mc3: "mem_ctx ?s3" using s(1) by simp
  have len4: "length (stbiw_wp32 v) = 4" "length (stbiw_wptag ''IDAT'') = 4" for v by (simp_all add: stbiw_wp32_def stbiw_wptag_def)
  have p3: "pending ?s3 = stbiw_wp32 0 @ stbiw_wptag ''IEND'' @ c3"
    unfolding ahead_simps(4) [of "12 + length zlib"] p33 using s(4) len4 by simp
  obtain zf where three: "png_step ok flags SCAN_load req ((after_header stack n x y ?s3)\<lparr>pg_idata := Some m, ioff := word_of_nat (length zlib), idata_limit := lim\<rparr>) =
      Some (Inl (Inr zf))" and zf: "pg_depth zf = 8" "pg_out zf = Some (map Some (concat (map (file_row flip (n * x) y data) [0..<y])))"
    "img_x (pg_s zf) = word_of_nat x" "img_y (pg_s zf) = word_of_nat y" "img_n (pg_s zf) = int n" "img_out_n (pg_s zf) = int n"
    using end_step [where ok = ok, OF mc3 p3 s(5) pic n y T ok req refl two(2) zlib(2) dec] by blast
  have "loop (png_step ok flags SCAN_load req) (png_init stack (ahead 8 s)) = ret zf"
    using one two(1) three by (simp add: loop.simps [of _ "png_init stack (ahead 8 s)"] loop.simps [of _ "after_header stack n x y (ahead 33 s)"] ret_def)
      (subst loop.simps, simp)
  then have "stbi_parse_png_file ok flags stack SCAN_load req s = ret zf" using sig by (simp add: stbi_parse_png_file_def)
  then show ?thesis using zf sz(1,2) req n by (auto simp: stbi_png_load_def stbi_do_png_def Let_def)
qed



end
