(* ===== verification/Spec2Isabelle.thy ===== *)
theory Spec2Isabelle
  imports Lru_Cache Hashmap_I64 Hashmap_String Hash_Set Raster_Winding Keuos_Rt Facet_Os Tls_Pool Base64
    Stb_Load Png_Filters Jpeg_Code Jpeg_Idct Jpeg_Colour Jpeg_Write Hdr_Write
    Bmp_Roundtrip Jpeg_Roundtrip Zlib_Roundtrip Png_Roundtrip
begin

text \<open>
  \<^bold>\<open>Verification of the C components of KeuOS.\<close>

  KeuOS is an operating system written mostly in Salt. Its C code consists of the software
  rasteriser and the image codecs of the facet user interface (src/user/facet), the TLS bridge of
  the network daemon (src/user/netd), two thin layers over the host system (src/keuos_rt and
  src/user/os), SHA-1 and Base64 for the WebSocket handshake (src/vendor/crypto), and the
  containers of the benchmark suite (src/benchmarks). This development models these components
  and proves what makes each of them correct.

  \<^bold>\<open>How C is modelled.\<close> Theory \<open>Prelude\<close> holds the conventions. A computation that may be undefined
  in C returns an option: \<open>None\<close> stands for an access out of bounds, a signed overflow, a bad
  shift, a read of uninitialised memory, and for a run that never ends. Arrays are lists that are
  read and written with bounds checks (\<open>aget\<close>, \<open>aset\<close>, \<open>iget\<close>, \<open>slice\<close>, \<open>blit\<close>); memory that may be
  uninitialised is a list of options (\<open>rd\<close>, \<open>wr\<close> in \<open>Stb_Context\<close>). Unsigned integers are words,
  signed ones are integers with a range check (\<open>i32\<close>, \<open>i64\<close>). Counting loops are \<open>for_upto\<close> and
  \<open>efor\<close>; a loop without a static bound is a function with a termination proof, a
  \<open>partial_function (option)\<close> or \<open>loop\<close> of theory \<open>C_Result\<close>. System calls, the allocator, the
  callbacks of the image library and BearSSL are parameters. Theory \<open>C_Result\<close>
  adds the error results of the image library and the rules of total correctness (\<open>sat\<close>, \<open>esat\<close>)
  by which safety is proved: a statement \<open>sat m P\<close> says that \<open>m\<close> is defined, returns, and its
  result satisfies \<open>P\<close>.

  \<^bold>\<open>Rasteriser\<close> (src/user/facet/raster/facet_raster.c and .h).
  \<^item> \<open>Float32\<close>: IEEE binary32 values and the operations the code uses, with rounding to nearest
    even, as functions on bit patterns with exact rational values.
  \<^item> \<open>Raster_Path\<close>: paths and the growth of the command array. Drawing calls append exactly their
    commands; a failed realloc leads to a write out of bounds.
  \<^item> \<open>Raster_Canvas\<close>: canvas, clear and source-over blending. Blending is safe anywhere and keeps
    premultiplied pixels premultiplied; the size of the buffer wraps for large canvases.
  \<^item> \<open>Raster_Edges\<close>: edges and the adaptive flattening of curves, the public one and the one of
    the fill; they agree, and the public one may not end for NaN.
  \<^item> \<open>Raster_Fill\<close>, \<open>Raster_Correct\<close>, \<open>Raster_Winding\<close>: the fill. For bounded coordinates it is
    memory safe whatever allocation fails, and it paints exactly the pixels whose winding number,
    defined over the exact crossings of the edges with the scanline, satisfies the rule.

  \<^bold>\<open>Image library\<close> (src/user/facet/gpu/stb_image.h as configured by facet_image.c: PNG, JPEG and
  BMP, no stdio).
  \<^item> \<open>Stb_Context\<close>: input from memory or callbacks, integer readers, sizes with overflow checks.
    Reading through callbacks that deliver a file in any pieces equals reading it from memory.
  \<^item> \<open>Prefix_Code\<close>: canonical prefix codes, the specification of Huffman decoding.
    \<open>Zlib_Huffman\<close> and \<open>Zlib_Tables\<close>: the decoding tables; \<open>Zlib_Inflate\<close>: bit buffer, blocks and entry
    points; \<open>Zlib_Safe\<close>: decoding a symbol agrees with the prefix code; \<open>Zlib_Blocks\<close>:
    decompression of any input returns and is memory safe (the measure is the number of bits that
    are left, including the 16 zero bits that the decoder adds once at the end of the input); with an
    empty output buffer the growth never ends.
  \<^item> \<open>Stb_Pixels\<close>: channel and depth conversion and the vertical flip, with their functional
    specifications. The two sample widths share the proofs through the locale \<open>sample_array\<close>.
  \<^item> \<open>Png_Image\<close>, \<open>Png_File\<close>: scanlines, interlacing, palettes, transparency and the chunk parser.
    The palette of the parser is uninitialised in C and is the parameter \<open>stack\<close>.
  \<^item> \<open>Bmp\<close>: the BMP reader. \<open>Stb_Load\<close>: the dispatch over the formats, the conversion to the
    requested depth and \<^verbatim>\<open>facet_image_decode\<close>.
  \<^item> \<open>Jpeg_Huffman\<close>: Huffman tables, their accelerated forms and the bit reader of JPEG;
    \<open>Jpeg_Block\<close>: baseline and progressive blocks; \<open>Jpeg_Kernels\<close>: inverse cosine transform,
    upsampling and colour conversion (the portable kernels); \<open>Jpeg_File\<close>: markers, headers, scans
    and restart intervals; \<open>Jpeg_Load\<close>: the assembly of the rows of the image in every combination of colour model
    and requested channels. \<open>Jpeg_Idct\<close>: the inverse transform equals two products with one matrix and has no
    overflow; \<open>Jpeg_Colour\<close>: accuracy of the colour conversion; \<open>Jpeg_Code\<close>: the tables hold
    the canonical code, so decoding a symbol agrees with \<open>Prefix_Code\<close>.

  \<^bold>\<open>Image writer\<close> (src/user/facet/gpu/stb_image_write.h). \<open>Zlib_Write\<close>: the deflate compressor with its
  hash chains; \<open>Png_Write\<close>: checksums, filters, choice of the filter and assembly of the file;
  \<open>Png_Filters\<close>: the reader undoes the filters as the PNG specification says, its Paeth predictor
  equals the writer's, and a scanline that the writer filters is restored by the reader.
  \<open>Image_Write\<close>: the write context, BMP and TGA; \<open>Hdr_Write\<close>: HDR; \<open>Jpeg_Write\<close>: JPEG with the
  cosine transform in binary32. \<open>Write_Stream\<close>: what the buffered output appends; \<open>Mem_Read\<close>: what the readers of a block in memory
  return; \<open>Bmp_Roundtrip\<close>: a BMP file that the writer produces is read back by the image library without loss.

  \<^bold>\<open>JPEG writer and reader together.\<close> \<open>Bit_String\<close>: strings of bits and the buffers that hold them. \<open>Jpeg_Stream\<close>: the bit reader delivers the bits of the
  stuffed bytes in order; \<open>Jpeg_Units\<close>: one step of the block decoder, through the table for short codes or without it;
  \<open>Jpeg_Sink\<close>: the bit writer appends; \<open>Jpeg_Tables\<close>: the constant tables of the writer are the canonical codes of the
  counts and symbols in the header; \<open>Jpeg_Entropy\<close>: the two parts of a block; \<open>Jpeg_Roundtrip\<close>: blocks that are written
  with the standard tables are read back. The ranges of the coefficients are hypotheses: the cosine transform of the writer is
  floating-point and its results are not bounded here.

  \<^bold>\<open>Compressor and decompressor together.\<close> \<open>Zlib_Stream\<close>: the bits in front of the decoder; \<open>Zlib_Sink\<close>: the compressor's bit writer appends;
  \<open>Zlib_Fixed\<close>: its fixed codes are those of the decoder's tables; \<open>Zlib_Unpack\<close>: what a literal, a match and the end mark do to the
  output; \<open>Zlib_Match\<close>: the matches found are repetitions that have length and distance codes; \<open>Zlib_Pack\<close>: the main loop writes
  symbols that unpack to the data; \<open>Zlib_Stored\<close>: stored blocks; \<open>Zlib_Adler\<close>: the checksum is Adler-32; \<open>Zlib_Roundtrip\<close>:
  what is compressed is read back, except for empty data, for which the compressor writes no block. The bound on the length is the
  one under which the size of the stored blocks is an int.

  \<^bold>\<open>PNG writer and reader together.\<close> \<open>Png_Crc\<close>: the table-driven checksum of chunks is CRC-32; \<open>Png_Pack\<close>: the writer's scanlines, whatever
  filters it chooses, and the layout of the file; \<open>Png_Unpack\<close>: the reader restores the rows from the scanlines; \<open>Png_Chunks\<close>: the three
  chunks in the reader's loop; \<open>Png_Roundtrip\<close>: a picture that is written is read back. The bounds: a row has less than \<open>2 ^ 24\<close> bytes, so
  that the estimate for the choice of the filter does not overflow, and the scanlines together at most \<open>2 ^ 30 - 2 ^ 18\<close> bytes, so that the
  compressed data fit the reader's limit for a data chunk in the worst case.

  \<^bold>\<open>TLS bridge\<close> (src/user/netd/tls_bridge.c, tls_state.h). \<open>Tls_Bridge\<close>: slots, pump and send over
  an abstract engine, socket and ring; the pump delivers the decrypted stream without loss,
  repetition or reordering, its result matches the state, and it ends on finite traffic.
  \<open>Tls_Pool\<close>: the pool as a step relation; slots are exclusive in every reachable state.

  \<^bold>\<open>Host layers.\<close> \<open>Keuos_Rt\<close> (src/keuos_rt/keuos_rt.c): arena, deadline and event queue;
  allocations are aligned and disjoint unless the size wraps. \<open>Facet_Os\<close> (src/user/os/facet_os.c):
  shared memory and the search for the IPC descriptor.

  \<^bold>\<open>Hashes and encodings\<close> (src/vendor/crypto). \<open>Sha1\<close>: incremental hashing equals hashing at once.
  \<open>Base64\<close>: encoding is inverted by decoding; the accept key of the WebSocket handshake.

  \<^bold>\<open>Containers\<close> (src/benchmarks). \<open>Swiss_Table\<close>: the open-addressing table, generic in the key;
  \<open>Map_Bench\<close>: the benchmark loop over it; \<open>Hashmap_I64\<close> and \<open>Hashmap_String\<close>: the two programs as
  instances, refining finite maps; \<open>Hash_Set\<close>: the set and the longest consecutive sequence;
  \<open>Lru_Cache\<close>: the cache over an explicit heap of list nodes, refining a list in order of use.

  \<^bold>\<open>Fuel.\<close> The search loops of \<open>Hash_Set\<close> take the capacity of the table or the number of
  inputs as fuel, which bounds the number of different slots or numbers they can visit; running out
  is \<open>None\<close>, and the theorems show that it does not happen.

  \<^bold>\<open>Not modelled.\<close> The readers and the stdio functions that facet_image.c compiles out; the vectorised
  JPEG kernels; \<^verbatim>\<open>stbi_info\<close> and \<^verbatim>\<open>stbi_loadf\<close>; release of memory; declarations of the GPU,
  window and display contracts; the Objective-C bridges; test and timing programs; everything
  written in Salt, Rust or Python.
\<close>

end
